(* ===== verification/Prelude.thy ===== *)
theory Prelude
  imports Main "HOL-Library.Word" "HOL-Library.Monad_Syntax"
begin

unbundle bit_operations_syntax

text \<open>
  The shared vocabulary of the development: the machine types of the C code, the reading
  and writing of byte buffers (\<open>memcpy\<close>, pointer plus offset), the in-memory
  representation of integers on the little-endian build target, and the collections of
  lemmas the component theories extend.
\<close>

section \<open>Machine types\<close>

type_synonym byte = "8 word"
type_synonym u16 = "16 word"
type_synonym u32 = "32 word"
type_synonym u64 = "64 word"
type_synonym bytes = "byte list"
type_synonym ptr = nat

abbreviation INT_MAX :: int where
  "INT_MAX \<equiv> 2147483647"

abbreviation UINT16_MAX :: nat where
  "UINT16_MAX \<equiv> 65535"

named_theorems handler_defs \<open>definitions of the handlers of a component\<close>
named_theorems layout_simps \<open>lengths and field reads of packed structures\<close>

section \<open>Buffers\<close>

text \<open>
  \<open>window off n xs\<close> is the run of \<open>n\<close> elements at offset \<open>off\<close>;
  \<open>write_at off src dst\<close> is \<open>memcpy(dst + off, src, length src)\<close>. The latter is only
  meaningful when the source fits, which every use has to establish.
\<close>

definition window :: "nat \<Rightarrow> nat \<Rightarrow> 'a list \<Rightarrow> 'a list" where
  "window off n xs = take n (drop off xs)"

definition write_at :: "nat \<Rightarrow> 'a list \<Rightarrow> 'a list \<Rightarrow> 'a list" where
  "write_at off src dst = take off dst @ src @ drop (off + length src) dst"

lemma length_window [simp]: "length (window off n xs) = min n (length xs - off)"
  by (simp add: window_def)

lemma window_0 [simp]: "window off 0 xs = []"
  by (simp add: window_def)

lemma window_Suc_step: "off < length xs \<Longrightarrow> window off (Suc n) xs = xs ! off # window (Suc off) n xs"
  by (simp add: window_def Cons_nth_drop_Suc[symmetric])

lemma window_append: "off + n \<le> length xs \<Longrightarrow> window off n xs @ window (off + n) m xs = window off (n + m) xs"
  by (simp add: window_def take_add add.commute[of off n])

lemma take_window: "m \<le> n \<Longrightarrow> take m (window off n xs) = window off m xs"
  by (simp add: window_def)

lemma drop_window: "drop m (window off n xs) = window (off + m) (n - m) xs"
  by (simp add: window_def drop_take add.commute)

lemma window_window: "k + m \<le> n \<Longrightarrow> window k m (window off n xs) = window (off + k) m xs"
  by (simp add: window_def drop_take add.commute)

lemma nth_window [simp]: "i < n \<Longrightarrow> off + i < length xs \<Longrightarrow> window off n xs ! i = xs ! (off + i)"
  by (simp add: window_def)

lemma window_all [simp]: "window 0 (length xs) xs = xs"
  by (simp add: window_def)

lemma length_write_at [simp]:
  "off + length src \<le> length dst \<Longrightarrow> length (write_at off src dst) = length dst"
  by (simp add: write_at_def)

lemma window_write_at_same [simp]:
  "off \<le> length dst \<Longrightarrow> window off (length src) (write_at off src dst) = src"
  by (simp add: window_def write_at_def)

lemma window_write_at_before:
  assumes "a + n \<le> off" "off \<le> length dst"
  shows "window a n (write_at off src dst) = window a n dst"
  using assms by (simp add: window_def write_at_def drop_take)

lemma window_write_at_after:
  assumes "off + length src \<le> a" "off + length src \<le> length dst"
  shows "window a n (write_at off src dst) = window a n dst"
  using assms by (simp add: window_def write_at_def)

lemma window_write_at_extend:
  assumes "a + n = off" "off + length src \<le> length dst"
  shows "window a (n + length src) (write_at off src dst) = window a n dst @ src"
proof -
  have len: "length (write_at off src dst) = length dst" using assms by simp
  have "window a (n + length src) (write_at off src dst) =
        window a n (write_at off src dst) @ window (a + n) (length src) (write_at off src dst)"
    using window_append [of a n "write_at off src dst" "length src"] assms len by simp
  also have "\<dots> = window a n dst @ src"
    using assms by (simp add: window_write_at_before)
  finally show ?thesis .
qed

lemma nth_write_at:
  assumes "off + length src \<le> length dst" "i < length dst"
  shows "write_at off src dst ! i =
    (if i < off then dst ! i else if i < off + length src then src ! (i - off) else dst ! i)"
  using assms by (auto simp: write_at_def nth_append)

lemma take_write_at_0 [simp]: "take (length src) (write_at 0 src dst) = src"
  by (simp add: write_at_def)

text \<open>Reading a field out of a concatenation of fields.\<close>

lemma window_skip [layout_simps]: "length xs \<le> off \<Longrightarrow> window off n (xs @ ys) = window (off - length xs) n ys"
  by (simp add: window_def)

lemma window_skip_Cons [layout_simps]: "0 < off \<Longrightarrow> window off n (x # xs) = window (off - 1) n xs"
  by (cases off) (simp_all add: window_def)

lemma window_here [layout_simps]: "length xs = n \<Longrightarrow> window 0 n (xs @ ys) = xs"
  by (simp add: window_def)

lemma window_here_all [layout_simps]: "length xs = n \<Longrightarrow> window 0 n xs = xs"
  by (simp add: window_def)

lemma nth_skip [layout_simps]: "length xs \<le> i \<Longrightarrow> (xs @ ys) ! i = ys ! (i - length xs)"
  by (simp add: nth_append)

section \<open>Integers in memory\<close>

text \<open>
  The build defines \<open>BADVPN_LITTLE_ENDIAN\<close>: a \<open>uint16_t\<close> occupies two bytes, the
  low one first. \<open>mem16\<close> and \<open>of_mem16\<close> are what \<open>memcpy\<close> from and to such
  an object moves; \<open>mem32\<close>, \<open>of_mem32\<close> the same for \<open>uint32_t\<close>.
\<close>

definition mem16 :: "u16 \<Rightarrow> bytes" where
  "mem16 w = [ucast w, ucast (drop_bit 8 w)]"

definition of_mem16 :: "bytes \<Rightarrow> u16" where
  "of_mem16 bs = ucast (bs ! 0) OR push_bit 8 (ucast (bs ! 1))"

definition mem32 :: "u32 \<Rightarrow> bytes" where
  "mem32 w = [ucast w, ucast (drop_bit 8 w), ucast (drop_bit 16 w), ucast (drop_bit 24 w)]"

definition of_mem32 :: "bytes \<Rightarrow> u32" where
  "of_mem32 bs = ucast (bs ! 0) OR push_bit 8 (ucast (bs ! 1)) OR
     push_bit 16 (ucast (bs ! 2)) OR push_bit 24 (ucast (bs ! 3))"

lemma length_mem16 [simp, layout_simps]: "length (mem16 w) = 2"
  by (simp add: mem16_def)

lemma mem16_not_Nil [simp]: "mem16 w \<noteq> []"
  by (simp add: mem16_def)

lemma length_mem32 [simp, layout_simps]: "length (mem32 w) = 4"
  by (simp add: mem32_def)

lemma of_mem16_mem16 [simp]: "of_mem16 (mem16 w) = w"
  by (rule bit_word_eqI) (auto simp: of_mem16_def mem16_def bit_simps)

lemma of_mem32_mem32 [simp]: "of_mem32 (mem32 w) = w"
proof (rule bit_word_eqI)
  fix n
  assume n: "n < LENGTH(32)"
  consider "n < 8" | "8 \<le> n" "n < 16" | "16 \<le> n" "n < 24" | "24 \<le> n" by linarith
  then show "bit (of_mem32 (mem32 w)) n = bit w n"
    using n by cases (auto simp: of_mem32_def mem32_def bit_simps)
qed

lemma list_length_2: "length xs = 2 \<Longrightarrow> \<exists>a b. xs = [a, b]"
  by (auto simp: numeral_2_eq_2 length_Suc_conv)

lemma list_length_4: "length xs = 4 \<Longrightarrow> \<exists>a b c d. xs = [a, b, c, d]"
  by (auto simp: eval_nat_numeral length_Suc_conv)

lemma mem16_of_mem16 [simp]: "length bs = 2 \<Longrightarrow> mem16 (of_mem16 bs) = bs"
proof -
  assume "length bs = 2"
  then obtain a b where bs: "bs = [a, b]" using list_length_2 by blast
  have "ucast (of_mem16 bs) = a"
    by (rule bit_word_eqI) (auto simp: of_mem16_def bs bit_simps dest: bit_imp_le_length)
  moreover have "ucast (drop_bit 8 (of_mem16 bs)) = b"
    by (rule bit_word_eqI) (auto simp: of_mem16_def bs bit_simps dest: bit_imp_le_length)
  ultimately show ?thesis by (simp add: mem16_def bs)
qed

lemma mem32_of_mem32 [simp]: "length bs = 4 \<Longrightarrow> mem32 (of_mem32 bs) = bs"
proof -
  assume "length bs = 4"
  then obtain a b c d where bs: "bs = [a, b, c, d]" using list_length_4 by blast
  have "ucast (of_mem32 bs) = a" "ucast (drop_bit 8 (of_mem32 bs)) = b"
    "ucast (drop_bit 16 (of_mem32 bs)) = c" "ucast (drop_bit 24 (of_mem32 bs)) = d"
    by ((rule bit_word_eqI), auto simp: of_mem32_def bs bit_simps dest: bit_imp_le_length)+
  then show ?thesis by (simp add: mem32_def bs)
qed


lemma unat_of_nat_u16 [simp]: "n \<le> UINT16_MAX \<Longrightarrow> unat (of_nat n :: u16) = n"
  by (simp add: unat_of_nat)

lemma unat_u16_bound: "unat (w :: u16) \<le> UINT16_MAX"
  using unsigned_less [of w, where 'a = nat] by simp

lemma take_append_drop_length: "take k xs @ drop (length (take k xs)) xs = xs"
  by (cases "k \<le> length xs") simp_all

lemma sorted_wrt_remove1: "sorted_wrt P xs \<Longrightarrow> sorted_wrt P (remove1 x xs)"
  by (induction xs) (auto dest: subsetD [OF set_remove1_subset])

section \<open>Assertions\<close>

text \<open>
  In handlers written with option values, \<open>None\<close> is a run that violates an \<open>ASSERT\<close> or accesses
  memory that is not there.
\<close>

definition ASSERT :: "bool \<Rightarrow> unit option" where
  "ASSERT b = (if b then Some () else None)"

lemma bind_ASSERT [simp]: "Option.bind (ASSERT b) f = (if b then f () else None)"
  by (simp add: ASSERT_def)

lemma ASSERT_eq_Some [simp]: "ASSERT b = Some u \<longleftrightarrow> b"
  by (simp add: ASSERT_def)

lemma bind_eq_SomeE: "Option.bind x f = Some y \<Longrightarrow> (\<And>a. x = Some a \<Longrightarrow> f a = Some y \<Longrightarrow> P) \<Longrightarrow> P"
  by (cases x) auto


end
