(* ===== verification/PacketProto.thy ===== *)
theory PacketProto
  imports Prelude
begin

text \<open>
  The PacketProto framing of \<open>protocol/packetproto.h\<close> and the two flow elements that
  implement it: \<open>flow/PacketProtoEncoder.c\<close> puts a 16-bit little-endian length before a
  packet, \<open>flow/PacketProtoDecoder.c\<close> cuts packets out of a byte stream that arrives in
  arbitrary pieces. Each handler is a function from the object's state to its new state and
  the calls it makes on its neighbours, in order. The results are the invariant of the
  decoder's buffer and the agreement of the decoder with the framing for every way the stream
  is cut.
\<close>

section \<open>Framing\<close>

definition PACKETPROTO_MAXPAYLOAD :: nat where
  "PACKETPROTO_MAXPAYLOAD = UINT16_MAX"

definition PACKETPROTO_ENCLEN :: "nat \<Rightarrow> nat" where
  "PACKETPROTO_ENCLEN len = 2 + len"

text \<open>The frame of a packet as the protocol description has it.\<close>

definition frame :: "bytes \<Rightarrow> bytes" where
  "frame p = mem16 (of_nat (length p)) @ p"

definition frames :: "bytes list \<Rightarrow> bytes" where
  "frames ps = concat (map frame ps)"

section \<open>PacketProtoEncoder\<close>

text \<open>
  \<open>enc_output_packet\<close> is the buffer the receiver of the output supplied, \<open>None\<close>
  for a null pointer. The calls: \<open>EncRecv n\<close> asks the input to write a packet at offset
  \<open>n\<close> of that buffer, \<open>EncDone buf len\<close> completes the output packet, the first
  \<open>len\<close> bytes of \<open>buf\<close>.
\<close>

record PacketProtoEncoder =
  enc_input_mtu :: nat
  enc_output_mtu :: nat
  enc_output_packet :: "bytes option"

datatype encoder_call = EncRecv nat | EncDone bytes nat

definition PacketProtoEncoder_Init :: "nat \<Rightarrow> PacketProtoEncoder" where
  "PacketProtoEncoder_Init input_mtu =
     \<lparr>enc_input_mtu = input_mtu, enc_output_mtu = PACKETPROTO_ENCLEN input_mtu,
      enc_output_packet = None\<rparr>"

definition Encoder_output_handler_recv ::
    "PacketProtoEncoder \<Rightarrow> bytes \<Rightarrow> PacketProtoEncoder \<times> encoder_call list" where
  [handler_defs]: "Encoder_output_handler_recv enc data =
     (enc\<lparr>enc_output_packet := Some data\<rparr>, [EncRecv 2])"

text \<open>The input writes its packet where it was asked to, then the done handler runs.\<close>

definition Encoder_input_writes :: "PacketProtoEncoder \<Rightarrow> bytes \<Rightarrow> PacketProtoEncoder" where
  "Encoder_input_writes enc p =
     enc\<lparr>enc_output_packet := map_option (write_at 2 p) (enc_output_packet enc)\<rparr>"

definition Encoder_input_handler_done ::
    "PacketProtoEncoder \<Rightarrow> nat \<Rightarrow> PacketProtoEncoder \<times> encoder_call list" where
  [handler_defs]: "Encoder_input_handler_done enc in_len =
     (case enc_output_packet enc of
        None \<Rightarrow> (enc, [])
      | Some out \<Rightarrow>
          (enc\<lparr>enc_output_packet := None\<rparr>,
           [EncDone (write_at 0 (mem16 (of_nat in_len)) out) (PACKETPROTO_ENCLEN in_len)]))"

section \<open>PacketProtoDecoder\<close>

record PacketProtoDecoder =
  dec_output_mtu :: nat
  dec_buf_size :: nat
  dec_buf_start :: nat
  dec_buf_used :: nat
  dec_buf :: bytes

text \<open>
  \<open>DecSend p\<close> passes the packet \<open>p\<close> to the output, \<open>DecRecv off len\<close> asks the
  input for at most \<open>len\<close> bytes at offset \<open>off\<close> of the buffer, \<open>DecError\<close> is
  the error callback.
\<close>

datatype decoder_call = DecSend bytes | DecRecv nat nat | DecError

definition Decoder_recv_call :: "PacketProtoDecoder \<Rightarrow> decoder_call" where
  "Decoder_recv_call dec =
     DecRecv (dec_buf_start dec + dec_buf_used dec)
             (dec_buf_size dec - (dec_buf_start dec + dec_buf_used dec))"

definition Decoder_process_data ::
    "PacketProtoDecoder \<Rightarrow> PacketProtoDecoder \<times> decoder_call list" where
  [handler_defs]: "Decoder_process_data dec =
     (let data = drop (dec_buf_start dec) (dec_buf dec);
          left = dec_buf_used dec;
          data_len = unat (of_mem16 (take 2 data));
          wrapped = (if dec_buf_start dec + dec_buf_used dec = dec_buf_size dec
             then dec\<lparr>dec_buf := write_at 0 (window (dec_buf_start dec) (dec_buf_used dec) (dec_buf dec)) (dec_buf dec),
                      dec_buf_start := 0\<rparr>
             else dec);
          reset = dec\<lparr>dec_buf_start := 0, dec_buf_used := 0\<rparr>
      in if left < 2 then (wrapped, [Decoder_recv_call wrapped])
         else if data_len > dec_output_mtu dec then (reset, [Decoder_recv_call reset, DecError])
         else if left - 2 < data_len then (wrapped, [Decoder_recv_call wrapped])
         else (dec\<lparr>dec_buf_start := dec_buf_start dec + (2 + data_len),
                   dec_buf_used := dec_buf_used dec - (2 + data_len)\<rparr>,
               [DecSend (take data_len (drop 2 data))]))"

text \<open>
  The input writes the bytes it received behind the used part of the buffer, then
  \<open>input_handler_done\<close> runs with their number.
\<close>

definition Decoder_input_writes :: "PacketProtoDecoder \<Rightarrow> bytes \<Rightarrow> PacketProtoDecoder" where
  "Decoder_input_writes dec bs =
     dec\<lparr>dec_buf := write_at (dec_buf_start dec + dec_buf_used dec) bs (dec_buf dec)\<rparr>"

definition Decoder_input_handler_done ::
    "PacketProtoDecoder \<Rightarrow> nat \<Rightarrow> PacketProtoDecoder \<times> decoder_call list" where
  [handler_defs]: "Decoder_input_handler_done dec data_len =
     Decoder_process_data (dec\<lparr>dec_buf_used := dec_buf_used dec + data_len\<rparr>)"

definition Decoder_output_handler_done ::
    "PacketProtoDecoder \<Rightarrow> PacketProtoDecoder \<times> decoder_call list" where
  [handler_defs]: "Decoder_output_handler_done dec = Decoder_process_data dec"

text \<open>
  \<open>mem\<close> is the block \<open>malloc\<close> returned, \<open>None\<close> when it failed.
\<close>

definition PacketProtoDecoder_Init ::
    "nat \<Rightarrow> (nat \<Rightarrow> bytes option) \<Rightarrow> (PacketProtoDecoder \<times> decoder_call list) option" where
  [handler_defs]: "PacketProtoDecoder_Init output_if_mtu malloc =
     (let mtu = min output_if_mtu PACKETPROTO_MAXPAYLOAD;
          size = PACKETPROTO_ENCLEN mtu
      in case malloc size of
           None \<Rightarrow> None
         | Some mem \<Rightarrow>
             Some (\<lparr>dec_output_mtu = mtu, dec_buf_size = size, dec_buf_start = 0,
                    dec_buf_used = 0, dec_buf = mem\<rparr>, [DecRecv 0 size]))"

definition PacketProtoDecoder_Reset :: "PacketProtoDecoder \<Rightarrow> PacketProtoDecoder" where
  "PacketProtoDecoder_Reset dec =
     dec\<lparr>dec_buf_start := dec_buf_start dec + dec_buf_used dec, dec_buf_used := 0\<rparr>"

section \<open>The encoder produces frames\<close>

lemma write_at_header:
  assumes "2 + length p \<le> length buf"
  shows "take (2 + length p) (write_at 0 (mem16 w) (write_at 2 p buf)) = mem16 w @ p"
  using assms by (simp add: write_at_def)

lemma length_frame [layout_simps]: "length (frame p) = 2 + length p"
  by (simp add: frame_def)

section \<open>The invariant of the decoder\<close>

definition dec_window :: "PacketProtoDecoder \<Rightarrow> bytes" where
  "dec_window dec = window (dec_buf_start dec) (dec_buf_used dec) (dec_buf dec)"

definition dec_inv :: "PacketProtoDecoder \<Rightarrow> bool" where
  "dec_inv dec \<longleftrightarrow>
     dec_output_mtu dec \<le> PACKETPROTO_MAXPAYLOAD \<and>
     dec_buf_size dec = PACKETPROTO_ENCLEN (dec_output_mtu dec) \<and>
     length (dec_buf dec) = dec_buf_size dec \<and>
     dec_buf_start dec + dec_buf_used dec \<le> dec_buf_size dec"

text \<open>What the protocol says about a run of bytes: the next packet, if it is complete.\<close>

definition head_len :: "bytes \<Rightarrow> nat" where
  "head_len bs = unat (of_mem16 (take 2 bs))"

lemma dec_inv_length_window: "dec_inv dec \<Longrightarrow> length (dec_window dec) = dec_buf_used dec"
  by (auto simp: dec_inv_def dec_window_def)

lemma dec_window_take2:
  "dec_inv dec \<Longrightarrow> 2 \<le> dec_buf_used dec \<Longrightarrow>
   take 2 (drop (dec_buf_start dec) (dec_buf dec)) = take 2 (dec_window dec)"
  by (simp add: dec_window_def window_def)

text \<open>One call of \<open>process_data\<close>, seen through the window of unprocessed bytes.\<close>

inductive dec_outcome :: "PacketProtoDecoder \<Rightarrow> PacketProtoDecoder \<times> decoder_call list \<Rightarrow> bool" where
  need_more: "\<lbrakk>dec_inv dec'; dec_window dec' = dec_window dec;
     dec_output_mtu dec' = dec_output_mtu dec;
     length (dec_window dec) < 2 \<or>
       head_len (dec_window dec) \<le> dec_output_mtu dec \<and>
       length (dec_window dec) < 2 + head_len (dec_window dec);
     off = dec_buf_start dec' + dec_buf_used dec'; 0 < n; off + n = dec_buf_size dec'\<rbrakk>
   \<Longrightarrow> dec_outcome dec (dec', [DecRecv off n])"
| too_large: "\<lbrakk>dec_inv dec'; dec_window dec' = []; dec_output_mtu dec' = dec_output_mtu dec;
     2 \<le> length (dec_window dec); dec_output_mtu dec < head_len (dec_window dec);
     off = 0; n = dec_buf_size dec'\<rbrakk>
   \<Longrightarrow> dec_outcome dec (dec', [DecRecv off n, DecError])"
| packet: "\<lbrakk>dec_inv dec'; dec_output_mtu dec' = dec_output_mtu dec;
     dec_window dec = frame p @ dec_window dec'; length p \<le> dec_output_mtu dec\<rbrakk>
   \<Longrightarrow> dec_outcome dec (dec', [DecSend p])"

inductive_cases dec_outcome_sendE: "dec_outcome dec (dec', DecSend p # cs)"
inductive_cases dec_outcome_recvE: "dec_outcome dec (dec', DecRecv off n # cs)"


text \<open>Where the buffer is moved to the front, the window keeps its content.\<close>

definition dec_wrap :: "PacketProtoDecoder \<Rightarrow> PacketProtoDecoder" where
  "dec_wrap dec = (if dec_buf_start dec + dec_buf_used dec = dec_buf_size dec
     then dec\<lparr>dec_buf := write_at 0 (dec_window dec) (dec_buf dec), dec_buf_start := 0\<rparr>
     else dec)"

lemma dec_wrap_inv:
  assumes "dec_inv dec" "dec_buf_used dec < dec_buf_size dec"
  shows "dec_inv (dec_wrap dec)" "dec_window (dec_wrap dec) = dec_window dec"
    "dec_output_mtu (dec_wrap dec) = dec_output_mtu dec"
    "dec_buf_start (dec_wrap dec) + dec_buf_used (dec_wrap dec) < dec_buf_size (dec_wrap dec)"
proof -
  have len: "length (dec_window dec) = dec_buf_used dec"
    using assms by (simp add: dec_inv_length_window)
  have "window 0 (length (dec_window dec)) (write_at 0 (dec_window dec) (dec_buf dec)) = dec_window dec"
    by simp
  then show "dec_window (dec_wrap dec) = dec_window dec"
    using len by (simp add: dec_wrap_def dec_window_def)
  show "dec_inv (dec_wrap dec)" "dec_output_mtu (dec_wrap dec) = dec_output_mtu dec"
    "dec_buf_start (dec_wrap dec) + dec_buf_used (dec_wrap dec) < dec_buf_size (dec_wrap dec)"
    using assms len by (auto simp: dec_wrap_def dec_inv_def)
qed

lemma Decoder_process_data_window:
  assumes "dec_inv dec"
  shows "Decoder_process_data dec =
     (if length (dec_window dec) < 2 then (dec_wrap dec, [Decoder_recv_call (dec_wrap dec)])
      else if head_len (dec_window dec) > dec_output_mtu dec
      then (dec\<lparr>dec_buf_start := 0, dec_buf_used := 0\<rparr>, [DecRecv 0 (dec_buf_size dec), DecError])
      else if length (dec_window dec) < 2 + head_len (dec_window dec)
      then (dec_wrap dec, [Decoder_recv_call (dec_wrap dec)])
      else (dec\<lparr>dec_buf_start := dec_buf_start dec + (2 + head_len (dec_window dec)),
                dec_buf_used := dec_buf_used dec - (2 + head_len (dec_window dec))\<rparr>,
            [DecSend (take (head_len (dec_window dec)) (drop 2 (dec_window dec)))]))"
proof -
  have len: "length (dec_window dec) = dec_buf_used dec"
    using assms by (rule dec_inv_length_window)
  have hd: "2 \<le> dec_buf_used dec \<Longrightarrow>
      unat (of_mem16 (take 2 (drop (dec_buf_start dec) (dec_buf dec)))) = head_len (dec_window dec)"
    using assms by (simp add: dec_window_take2 head_len_def)
  have pay: "2 + n \<le> dec_buf_used dec \<Longrightarrow>
      take n (drop 2 (drop (dec_buf_start dec) (dec_buf dec))) = take n (drop 2 (dec_window dec))" for n
    by (simp add: dec_window_def window_def drop_take)
  show ?thesis
    using len hd pay
    by (auto simp: Decoder_process_data_def Let_def dec_wrap_def
        dec_window_def[symmetric] Decoder_recv_call_def not_less)
qed

lemma take_2_drop_2: "2 \<le> length w \<Longrightarrow> w = mem16 (of_mem16 (take 2 w)) @ drop 2 w"
  by simp

lemma head_frame:
  assumes "2 \<le> length w" "2 + head_len w \<le> length w"
  shows "w = frame (take (head_len w) (drop 2 w)) @ drop (2 + head_len w) w"
proof -
  have "length (take (head_len w) (drop 2 w)) = head_len w" using assms by simp
  then have "mem16 (of_nat (length (take (head_len w) (drop 2 w)))) = take 2 w"
    using assms(1) by (simp add: head_len_def)
  then have "frame (take (head_len w) (drop 2 w)) = take 2 w @ take (head_len w) (drop 2 w)"
    by (simp add: frame_def)
  moreover have "drop (2 + head_len w) w = drop (head_len w) (drop 2 w)"
    by (simp add: add.commute)
  ultimately show ?thesis by (metis append.assoc append_take_drop_id)
qed

lemma dec_process_outcome:
  assumes inv: "dec_inv dec"
  shows "dec_outcome dec (Decoder_process_data dec)"
proof -
  let ?w = "dec_window dec"
  have len: "length ?w = dec_buf_used dec" using inv by (rule dec_inv_length_window)
  note eq = Decoder_process_data_window [OF inv]
  have more: "dec_outcome dec (dec_wrap dec, [Decoder_recv_call (dec_wrap dec)])"
    if short: "length ?w < 2 \<or> head_len ?w \<le> dec_output_mtu dec \<and> length ?w < 2 + head_len ?w"
  proof -
    have "dec_buf_used dec < dec_buf_size dec"
      using short inv len by (auto simp: dec_inv_def PACKETPROTO_ENCLEN_def)
    note wr = dec_wrap_inv [OF inv this]
    show ?thesis
      unfolding Decoder_recv_call_def
      by (rule dec_outcome.need_more) (use wr short in auto)
  qed
  consider (a) "length ?w < 2" | (b) "2 \<le> length ?w" "dec_output_mtu dec < head_len ?w"
    | (c) "2 \<le> length ?w" "head_len ?w \<le> dec_output_mtu dec" "length ?w < 2 + head_len ?w"
    | (d) "2 \<le> length ?w" "head_len ?w \<le> dec_output_mtu dec" "2 + head_len ?w \<le> length ?w"
    by linarith
  then show ?thesis
  proof cases
    case a
    then show ?thesis using more eq by simp
  next
    case b
    let ?d = "dec\<lparr>dec_buf_start := 0, dec_buf_used := 0\<rparr>"
    have "dec_outcome dec (?d, [DecRecv 0 (dec_buf_size ?d), DecError])"
      by (rule dec_outcome.too_large) (use b inv in \<open>auto simp: dec_inv_def dec_window_def\<close>)
    then show ?thesis using b eq by simp
  next
    case c
    then show ?thesis using more eq by simp
  next
    case d
    let ?n = "2 + head_len ?w"
    let ?d = "dec\<lparr>dec_buf_start := dec_buf_start dec + ?n, dec_buf_used := dec_buf_used dec - ?n\<rparr>"
    have "dec_inv ?d" using inv d len by (auto simp: dec_inv_def)
    moreover have "dec_window ?d = drop ?n ?w" by (simp add: dec_window_def drop_window)
    ultimately have "dec_outcome dec (?d, [DecSend (take (head_len ?w) (drop 2 ?w))])"
      using head_frame [OF d(1,3)] d by (intro dec_outcome.packet) auto
    then show ?thesis using d eq by simp
  qed
qed


section \<open>Running the decoder on a stream\<close>

text \<open>
  The output accepts every packet and reports done, so the decoder goes on until it asks for
  input: \<open>pp_drain\<close> collects the packets it passed on and returns the last state and
  calls.
\<close>

fun dec_sends :: "decoder_call list \<Rightarrow> bool" where
  "dec_sends (DecSend p # cs) = True"
| "dec_sends _ = False"

lemma process_data_send_decreases:
  "Decoder_process_data dec = (dec', cs) \<Longrightarrow> dec_sends cs \<Longrightarrow> dec_buf_used dec' < dec_buf_used dec"
  by (auto simp: Decoder_process_data_def Let_def Decoder_recv_call_def split: if_splits)

function pp_drain :: "PacketProtoDecoder \<times> decoder_call list
    \<Rightarrow> bytes list \<times> PacketProtoDecoder \<times> decoder_call list" where
  "pp_drain (dec, cs) =
     (case cs of
        DecSend p # cs' \<Rightarrow> (case pp_drain (Decoder_output_handler_done dec) of (ps, r) \<Rightarrow> (p # ps, r))
      | _ \<Rightarrow> ([], dec, cs))"
  by pat_completeness auto
termination
proof (relation "measure (\<lambda>(dec, cs). if dec_sends cs then Suc (dec_buf_used dec) else 0)")
  show "wf (measure (\<lambda>(dec, cs). if dec_sends cs then Suc (dec_buf_used dec) else 0))" by simp
next
  fix dec cs and c :: decoder_call and cs' and p
  assume "cs = c # cs'" "c = DecSend p"
  then show "(Decoder_output_handler_done dec, dec, cs)
      \<in> measure (\<lambda>(dec, cs). if dec_sends cs then Suc (dec_buf_used dec) else 0)"
    by (cases "Decoder_process_data dec")
      (auto simp: Decoder_output_handler_done_def dest: process_data_send_decreases)
qed

declare pp_drain.simps [simp del]

text \<open>
  \<open>pp_run dec ns s\<close>: the stream still to come is \<open>s\<close>, and the \<open>i\<close>-th read from the
  socket returns at most \<open>ns ! i\<close> bytes, never more than the decoder asked for. The
  result has the packets passed on, the final state, the unread rest of the stream, and
  whether the error handler was called, after which the owner frees the decoder.
\<close>

fun pp_run :: "PacketProtoDecoder \<Rightarrow> nat list \<Rightarrow> bytes
    \<Rightarrow> bytes list \<times> PacketProtoDecoder \<times> bytes \<times> bool" where
  "pp_run dec [] s = ([], dec, s, False)"
| "pp_run dec (n # ns) s =
     (if s = [] then ([], dec, s, False)
      else
        let req = dec_buf_size dec - (dec_buf_start dec + dec_buf_used dec);
            chunk = take (min n req) s;
            (ps, dec', cs) = pp_drain (Decoder_input_handler_done (Decoder_input_writes dec chunk) (length chunk))
        in if DecError \<in> set cs then (ps, dec', drop (length chunk) s, True)
           else case pp_run dec' ns (drop (length chunk) s) of
                  (ps', dec'', s', e) \<Rightarrow> (ps @ ps', dec'', s', e))"

definition incomplete :: "nat \<Rightarrow> bytes \<Rightarrow> bool" where
  "incomplete mtu w \<longleftrightarrow> length w < 2 \<or> head_len w \<le> mtu \<and> length w < 2 + head_len w"

lemma frames_Nil [simp]: "frames [] = []"
  and frames_Cons [simp]: "frames (p # ps) = frame p @ frames ps"
  and frames_append [simp]: "frames (ps @ qs) = frames ps @ frames qs"
  by (simp_all add: frames_def)

lemma frame_append_eq:
  assumes "frame p @ x = frame q @ y" "length p \<le> UINT16_MAX" "length q \<le> UINT16_MAX"
  shows "p = q" "x = y"
proof -
  have "mem16 (of_nat (length p)) = mem16 (of_nat (length q))"
    using assms(1) by (simp add: frame_def append_eq_append_conv)
  then have "(of_nat (length p) :: u16) = of_nat (length q)" by (metis of_mem16_mem16)
  then have len: "length p = length q"
    using assms(2,3) unat_of_nat_u16 by metis
  with assms(1) show "p = q" "x = y" by (simp_all add: frame_def)
qed


lemma frames_prefix_unique:
  assumes "frames ps @ x = frames qs" "\<forall>p \<in> set ps. length p \<le> UINT16_MAX"
    "\<forall>q \<in> set qs. length q \<le> UINT16_MAX"
  shows "\<exists>qs'. qs = ps @ qs' \<and> x = frames qs'"
  using assms
proof (induction ps arbitrary: qs)
  case Nil
  then show ?case by simp
next
  case (Cons p ps)
  show ?case
  proof (cases qs)
    case Nil
    with Cons.prems(1) show ?thesis by (simp add: frame_def)
  next
    case (Cons q qs'')
    with Cons.prems have eq: "frame p @ (frames ps @ x) = frame q @ frames qs''" by simp
    then have "p = q" and "frames ps @ x = frames qs''"
      using frame_append_eq [OF eq] Cons Cons.prems by auto
    with Cons.IH [of qs''] Cons Cons.prems show ?thesis by auto
  qed
qed

lemma head_len_frame:
  assumes "length w \<ge> 2" "w @ x = frame q @ y" "length q \<le> UINT16_MAX"
  shows "head_len w = length q"
proof -
  have "take 2 w = take 2 (w @ x)" using assms(1) by simp
  also have "\<dots> = mem16 (of_nat (length q))" using assms(2) by (simp add: frame_def)
  finally show ?thesis using assms(3) by (simp add: head_len_def)
qed

text \<open>
  What holds when the decoder stops asking its output: \<open>w\<close> is the window it started
  with.
\<close>

definition drain_post ::
    "nat \<Rightarrow> bytes \<Rightarrow> bytes list \<Rightarrow> PacketProtoDecoder \<Rightarrow> decoder_call list \<Rightarrow> bool" where
  "drain_post mtu w ps dec' cs \<longleftrightarrow>
    dec_inv dec' \<and> dec_output_mtu dec' = mtu \<and> (\<forall>p \<in> set ps. length p \<le> mtu) \<and>
    (if DecError \<in> set cs
     then dec_window dec' = [] \<and> (\<exists>v. w = frames ps @ v \<and> 2 \<le> length v \<and> mtu < head_len v)
     else w = frames ps @ dec_window dec' \<and> incomplete mtu (dec_window dec') \<and>
          dec_buf_start dec' + dec_buf_used dec' < dec_buf_size dec')"

lemma drain_post_Cons:
  "drain_post mtu w ps dec' cs \<Longrightarrow> length p \<le> mtu \<Longrightarrow> drain_post mtu (frame p @ w) (p # ps) dec' cs"
  by (auto simp: drain_post_def split: if_splits)

lemma pp_drain_spec:
  assumes "dec_inv dec" "pp_drain (Decoder_process_data dec) = (ps, dec', cs)"
  shows "drain_post (dec_output_mtu dec) (dec_window dec) ps dec' cs"
  using assms
proof (induction "dec_buf_used dec" arbitrary: dec ps rule: less_induct)
  case less
  obtain d1 c1 where pd: "Decoder_process_data dec = (d1, c1)" by force
  have out: "dec_outcome dec (d1, c1)"
    using dec_process_outcome [OF less.prems(1)] pd by simp
  then show ?case
  proof cases
    case (need_more off n)
    with less.prems(2) pd have "ps = []" "dec' = d1" "cs = c1"
      by (auto simp: pp_drain.simps)
    with need_more show ?thesis by (auto simp: incomplete_def drain_post_def)
  next
    case (too_large off n)
    with less.prems(2) pd have "ps = []" "dec' = d1" "cs = c1"
      by (auto simp: pp_drain.simps)
    with too_large show ?thesis by (auto simp: drain_post_def)
  next
    case (packet p)
    then have smaller: "dec_buf_used d1 < dec_buf_used dec"
      using process_data_send_decreases [OF pd] by simp
    obtain ps' where rec: "pp_drain (Decoder_process_data d1) = (ps', dec', cs)" and ps: "ps = p # ps'"
      using less.prems(2) pd packet(1)
      by (auto simp: pp_drain.simps [of d1 "[DecSend p]"] Decoder_output_handler_done_def split: prod.splits)
    have "drain_post (dec_output_mtu d1) (dec_window d1) ps' dec' cs"
      using less.hyps [OF smaller packet(2) rec] .
    with packet ps show ?thesis by (simp add: drain_post_Cons)
  qed
qed

lemma Decoder_writes_window:
  assumes "dec_inv dec" "dec_buf_start dec + dec_buf_used dec + length bs \<le> dec_buf_size dec"
  defines "d \<equiv> (Decoder_input_writes dec bs)\<lparr>dec_buf_used := dec_buf_used (Decoder_input_writes dec bs) + length bs\<rparr>"
  shows "dec_inv d" "dec_window d = dec_window dec @ bs" "dec_output_mtu d = dec_output_mtu dec"
  using assms
  by (auto simp: d_def Decoder_input_writes_def dec_inv_def dec_window_def window_write_at_extend)

text \<open>
  The step of \<open>pp_run\<close> shared by the results below: a read keeps the invariant and
  appends what was read to the window.
\<close>

lemma pp_read_spec:
  assumes inv: "dec_inv dec" and room: "dec_buf_start dec + dec_buf_used dec < dec_buf_size dec"
    and chunk: "chunk = take (min n (dec_buf_size dec - (dec_buf_start dec + dec_buf_used dec))) s"
    and drain: "pp_drain (Decoder_input_handler_done (Decoder_input_writes dec chunk) (length chunk)) = (ps, dec', cs)"
  shows "drain_post (dec_output_mtu dec) (dec_window dec @ chunk) ps dec' cs"
proof -
  have fits: "dec_buf_start dec + dec_buf_used dec + length chunk \<le> dec_buf_size dec"
    using chunk room by auto
  note w = Decoder_writes_window [OF inv fits]
  show ?thesis
    using pp_drain_spec [OF w(1) drain [unfolded Decoder_input_handler_done_def]]
    unfolding w(2,3) .
qed

lemma incomplete_frames:
  assumes "incomplete mtu (frames qs)" "\<forall>q \<in> set qs. length q \<le> mtu" "mtu \<le> UINT16_MAX"
  shows "qs = []"
proof (cases qs)
  case (Cons q qs')
  have "2 \<le> length (frames qs)" using Cons by (simp add: layout_simps)
  moreover have "head_len (frames qs) = length q"
    by (rule head_len_frame [of _ "[]" _ "frames qs'"])
      (use Cons assms in \<open>auto simp: layout_simps\<close>)
  ultimately show ?thesis using assms(1) Cons by (auto simp: incomplete_def layout_simps)
qed

lemma drain_post_frames:
  assumes "drain_post mtu w ps dec' cs" "w @ s = frames qs" "\<forall>q \<in> set qs. length q \<le> mtu"
    "mtu \<le> UINT16_MAX"
  shows "DecError \<notin> set cs \<and> (\<exists>qs'. qs = ps @ qs' \<and> dec_window dec' @ s = frames qs')"
proof -
  have small: "\<forall>p \<in> set ps. length p \<le> UINT16_MAX" "\<forall>q \<in> set qs. length q \<le> UINT16_MAX"
    using assms by (auto simp: drain_post_def)
  have no_err: "DecError \<notin> set cs"
  proof
    assume "DecError \<in> set cs"
    then obtain v where v: "w = frames ps @ v" "2 \<le> length v" "mtu < head_len v"
      using assms(1) by (auto simp: drain_post_def)
    then have "frames ps @ (v @ s) = frames qs" using assms(2) by simp
    then obtain qs' where qs': "qs = ps @ qs'" "v @ s = frames qs'"
      using frames_prefix_unique small by blast
    then obtain q r where "qs' = q # r" using v(2) by (cases qs') auto
    then have "head_len v = length q"
      using head_len_frame [of v s q "frames r"] qs' v small by auto
    with v(3) assms(3) qs'(1) \<open>qs' = q # r\<close> show False by auto
  qed
  moreover have "w = frames ps @ dec_window dec'"
    using assms(1) no_err by (simp add: drain_post_def)
  then have "frames ps @ (dec_window dec' @ s) = frames qs" using assms(2) by simp
  then have "\<exists>qs'. qs = ps @ qs' \<and> dec_window dec' @ s = frames qs'"
    using frames_prefix_unique small by blast
  ultimately show ?thesis by blast
qed

lemma pp_run_frames:
  assumes "dec_inv dec" "dec_buf_start dec + dec_buf_used dec < dec_buf_size dec"
    "incomplete (dec_output_mtu dec) (dec_window dec)" "dec_window dec @ s = frames qs"
    "\<forall>q \<in> set qs. length q \<le> dec_output_mtu dec" "\<forall>n \<in> set ns. 0 < n" "length s \<le> length ns"
  shows "\<exists>dec'. pp_run dec ns s = (qs, dec', [], False) \<and> dec_inv dec' \<and> dec_window dec' = []"
  using assms
proof (induction ns arbitrary: dec s qs)
  case Nil
  then have "qs = []"
    using incomplete_frames by (auto simp: dec_inv_def PACKETPROTO_MAXPAYLOAD_def)
  with Nil show ?case by simp
next
  case (Cons n ns)
  have mtu: "dec_output_mtu dec \<le> UINT16_MAX"
    using Cons.prems by (simp add: dec_inv_def PACKETPROTO_MAXPAYLOAD_def)
  show ?case
  proof (cases "s = []")
    case True
    then have "qs = []" using Cons.prems incomplete_frames mtu by auto
    with True Cons.prems show ?thesis by simp
  next
    case False
    define req where "req = dec_buf_size dec - (dec_buf_start dec + dec_buf_used dec)"
    define chunk where "chunk = take (min n req) s"
    obtain ps d cs where dr:
      "pp_drain (Decoder_input_handler_done (Decoder_input_writes dec chunk) (length chunk)) = (ps, d, cs)"
      by (metis prod_cases3)
    have post: "drain_post (dec_output_mtu dec) (dec_window dec @ chunk) ps d cs"
      using pp_read_spec [OF Cons.prems(1,2) _ dr, of n s] by (simp add: chunk_def req_def)
    have split: "(dec_window dec @ chunk) @ drop (length chunk) s = frames qs"
      using Cons.prems(4) take_append_drop_length [of "min n req" s] by (simp only: chunk_def append.assoc)
    obtain qs' where no_err: "DecError \<notin> set cs" and qs': "qs = ps @ qs'"
      "dec_window d @ drop (length chunk) s = frames qs'"
      using drain_post_frames [OF post split Cons.prems(5) mtu] by blast
    have "0 < length chunk" using False Cons.prems(2,6) by (simp add: chunk_def req_def)
    then have "length (drop (length chunk) s) \<le> length ns" using Cons.prems(7) by (cases chunk) auto
    then obtain d' where "pp_run d ns (drop (length chunk) s) = (qs', d', [], False)"
      "dec_inv d'" "dec_window d' = []"
      using Cons.IH [of d "drop (length chunk) s" qs'] post no_err qs' Cons.prems(5,6)
      by (auto simp: drain_post_def)
    with False dr no_err qs'(1) show ?thesis
      by (simp add: Let_def chunk_def req_def)
  qed
qed


section \<open>Properties\<close>

text \<open>
  Decoding is the inverse of framing, however the stream is cut: a freshly
  initialised decoder that reads the frames of any packets of at most the output MTU in
  reads of arbitrary positive sizes passes on exactly these packets, in order, without an
  error, and leaves nothing unread or buffered.
\<close>

theorem decoder_inverts_framing:
  assumes "malloc (PACKETPROTO_ENCLEN mtu) = Some mem" "length mem = PACKETPROTO_ENCLEN mtu"
    "mtu \<le> PACKETPROTO_MAXPAYLOAD" "\<forall>p \<in> set ps. length p \<le> mtu"
    "\<forall>n \<in> set ns. 0 < n" "length (frames ps) \<le> length ns"
  shows "\<exists>dec dec'. PacketProtoDecoder_Init mtu malloc = Some (dec, [DecRecv 0 (PACKETPROTO_ENCLEN mtu)]) \<and>
    pp_run dec ns (frames ps) = (ps, dec', [], False) \<and> dec_window dec' = []"
proof -
  define dec where "dec = \<lparr>dec_output_mtu = mtu, dec_buf_size = PACKETPROTO_ENCLEN mtu,
    dec_buf_start = 0, dec_buf_used = 0, dec_buf = mem\<rparr>"
  have init: "PacketProtoDecoder_Init mtu malloc = Some (dec, [DecRecv 0 (PACKETPROTO_ENCLEN mtu)])"
    using assms by (simp add: PacketProtoDecoder_Init_def dec_def Let_def min_absorb1)
  have "\<exists>dec'. pp_run dec ns (frames ps) = (ps, dec', [], False) \<and> dec_inv dec' \<and> dec_window dec' = []"
    by (rule pp_run_frames)
      (use assms in \<open>auto simp: dec_def dec_inv_def dec_window_def incomplete_def PACKETPROTO_ENCLEN_def\<close>)
  with init show ?thesis by blast
qed

theorem decoder_inverts_framing_witness:
  "\<exists>dec dec'. PacketProtoDecoder_Init 3 (\<lambda>n. Some (replicate n 0)) = Some (dec, [DecRecv 0 (PACKETPROTO_ENCLEN 3)]) \<and>
    pp_run dec [1, 2, 1, 3, 1, 1] (frames [[7, 8], []]) = ([[7, 8], []], dec', [], False) \<and> dec_window dec' = []"
  by (rule decoder_inverts_framing [where mem = "replicate (PACKETPROTO_ENCLEN 3) 0"])
    (simp_all add: PACKETPROTO_MAXPAYLOAD_def frame_def)

text \<open>
  C31. On any stream, hostile ones included, the decoder only passes on packets the stream
  frames: what it has read is the frames of the packets it passed on, followed by the bytes
  it still holds, or, when it reports an error, by a header that announces more than the
  output MTU. Its next read always has room in the buffer.
\<close>

theorem decoder_sound:
  assumes "dec_inv dec" "dec_buf_start dec + dec_buf_used dec < dec_buf_size dec"
    "pp_run dec ns s = (ps, dec', s', err)"
  shows "dec_inv dec' \<and> (\<forall>p \<in> set ps. length p \<le> dec_output_mtu dec) \<and>
    (if err then \<exists>v. dec_window dec @ s = frames ps @ v @ s' \<and> 2 \<le> length v \<and> dec_output_mtu dec < head_len v
     else dec_window dec @ s = frames ps @ dec_window dec' @ s' \<and>
       dec_buf_start dec' + dec_buf_used dec' < dec_buf_size dec')"
  using assms
proof (induction ns arbitrary: dec s ps)
  case Nil
  then show ?case by auto
next
  case (Cons n ns)
  show ?case
  proof (cases "s = []")
    case True
    with Cons.prems show ?thesis by auto
  next
    case False
    define k where "k = min n (dec_buf_size dec - (dec_buf_start dec + dec_buf_used dec))"
    define chunk where "chunk = take k s"
    obtain qs d cs where dr:
      "pp_drain (Decoder_input_handler_done (Decoder_input_writes dec chunk) (length chunk)) = (qs, d, cs)"
      by (metis prod_cases3)
    have post: "drain_post (dec_output_mtu dec) (dec_window dec @ chunk) qs d cs"
      using pp_read_spec [OF Cons.prems(1,2) _ dr, of n s] by (simp add: chunk_def k_def)
    have s: "s = chunk @ drop (length chunk) s"
      using take_append_drop_length [of k s] by (simp only: chunk_def)
    show ?thesis
    proof (cases "DecError \<in> set cs")
      case True
      then have "ps = qs" "dec' = d" "s' = drop (length chunk) s" "err"
        using Cons.prems(3) False dr by (auto simp: Let_def chunk_def k_def)
      moreover obtain v where "dec_window dec @ chunk = frames qs @ v" "2 \<le> length v" "dec_output_mtu dec < head_len v"
        using True post by (auto simp: drain_post_def)
      moreover have "dec_window dec @ s = (dec_window dec @ chunk) @ drop (length chunk) s"
        using s by simp
      ultimately show ?thesis using post by (auto simp: drain_post_def)
    next
      case no_err: False
      then obtain ps' where rec: "pp_run d ns (drop (length chunk) s) = (ps', dec', s', err)" and ps: "ps = qs @ ps'"
        using Cons.prems(3) False dr by (auto simp: Let_def chunk_def k_def split: prod.splits)
      have d: "dec_inv d" "dec_buf_start d + dec_buf_used d < dec_buf_size d" "dec_output_mtu d = dec_output_mtu dec"
        "dec_window dec @ chunk = frames qs @ dec_window d" "\<forall>p \<in> set qs. length p \<le> dec_output_mtu dec"
        using post no_err by (auto simp: drain_post_def)
      have "dec_window dec @ s = (dec_window dec @ chunk) @ drop (length chunk) s"
        using s by simp
      with d(4) have "dec_window dec @ s = frames qs @ dec_window d @ drop (length chunk) s" by simp
      then show ?thesis using Cons.IH [OF d(1,2) rec] d(3,5) ps by (auto split: if_splits)
    qed
  qed
qed


theorem decoder_sound_witness:
  "\<exists>ps dec' s' err.
    pp_run \<lparr>dec_output_mtu = 1, dec_buf_size = 3, dec_buf_start = 0, dec_buf_used = 0, dec_buf = [0, 0, 0]\<rparr>
      [3] [9, 0, 5] = (ps, dec', s', err) \<and> dec_inv dec' \<and> (\<forall>p \<in> set ps. length p \<le> 1)"
proof -
  let ?d = "\<lparr>dec_output_mtu = 1, dec_buf_size = 3, dec_buf_start = 0, dec_buf_used = 0, dec_buf = [0, 0, 0]\<rparr>"
  obtain ps d s e where r: "pp_run ?d [3] [9, 0, 5] = (ps, d, s, e)"
    by (cases "pp_run ?d [3] [9, 0, 5]")
  have "dec_inv ?d" "dec_buf_start ?d + dec_buf_used ?d < dec_buf_size ?d"
    by (simp_all add: dec_inv_def PACKETPROTO_ENCLEN_def PACKETPROTO_MAXPAYLOAD_def)
  from decoder_sound [OF this r] r show ?thesis by auto
qed

text \<open>
  The encoder writes the frame of the packet its input produced: asked for a packet
  with a buffer of the output MTU, it lets the input write behind the header and completes
  a packet whose bytes are the frame.
\<close>

theorem encoder_emits_frame:
  assumes "enc = PacketProtoEncoder_Init mtu" "mtu \<le> PACKETPROTO_MAXPAYLOAD"
    "length buf = enc_output_mtu enc" "length p \<le> mtu"
    "Encoder_output_handler_recv enc buf = (enc1, cs1)"
    "Encoder_input_handler_done (Encoder_input_writes enc1 p) (length p) = (enc2, cs2)"
  shows "cs1 = [EncRecv 2] \<and> enc2 = enc \<and>
    (\<exists>out n. cs2 = [EncDone out n] \<and> n \<le> enc_output_mtu enc \<and> take n out = frame p)"
  using assms write_at_header [of p buf]
  by (auto simp: handler_defs Encoder_input_writes_def PacketProtoEncoder_Init_def
      PACKETPROTO_ENCLEN_def frame_def)

theorem encoder_emits_frame_witness:
  "\<exists>enc1 enc2 out n. Encoder_output_handler_recv (PacketProtoEncoder_Init 1) [0, 0, 0] = (enc1, [EncRecv 2]) \<and>
    Encoder_input_handler_done (Encoder_input_writes enc1 [5]) 1 = (enc2, [EncDone out n]) \<and> take n out = frame [5]"
proof -
  obtain e1 c1 where r: "Encoder_output_handler_recv (PacketProtoEncoder_Init 1) [0, 0, 0] = (e1, c1)"
    by force
  obtain e2 c2 where d: "Encoder_input_handler_done (Encoder_input_writes e1 [5]) (length [5 :: byte]) = (e2, c2)"
    by force
  have "c1 = [EncRecv 2] \<and> e2 = PacketProtoEncoder_Init 1 \<and>
    (\<exists>out n. c2 = [EncDone out n] \<and> n \<le> enc_output_mtu (PacketProtoEncoder_Init 1) \<and> take n out = frame [5])"
    by (rule encoder_emits_frame [OF refl _ _ _ r d])
      (simp_all add: PACKETPROTO_MAXPAYLOAD_def PacketProtoEncoder_Init_def PACKETPROTO_ENCLEN_def)
  with r d show ?thesis by auto
qed

end
