(* ===== verification/ChunkBuffer2.thy ===== *)
theory ChunkBuffer2
  imports Prelude
begin

text \<open>
  The circular packet buffer of \<open>structure/ChunkBuffer2.h\<close>. Its memory is an array of
  4-byte blocks; a packet occupies a header block that holds its length and as many blocks
  as its bytes need, never across the end of the array: \<open>wrap\<close> remembers where the last
  packet before the jump back to block 0 ends. The model keeps the array as bytes, the C
  integers as \<open>int\<close> and the destination pointers as byte offsets. The result is that the
  buffer implements a first-in first-out queue of packets.
\<close>

section \<open>State and operations\<close>

record ChunkBuffer2 =
  cb_mem :: bytes
  cb_size :: int
  cb_wrap :: int
  cb_start :: int
  cb_used :: int
  cb_mtu :: int
  cb_input_dest :: "int option"
  cb_input_avail :: int
  cb_output_dest :: "int option"
  cb_output_avail :: int

definition bdivide_up :: "int \<Rightarrow> int \<Rightarrow> int" where
  "bdivide_up a b = (if a mod b > 0 then a div b + 1 else a div b)"

text \<open>The \<open>len\<close> field of block \<open>i\<close>, a signed 32-bit integer.\<close>

definition block_len :: "bytes \<Rightarrow> int \<Rightarrow> int" where
  "block_len mem i = sint (of_mem32 (window (nat (4 * i)) 4 mem))"

definition set_block_len :: "int \<Rightarrow> int \<Rightarrow> bytes \<Rightarrow> bytes" where
  "set_block_len i len mem = write_at (nat (4 * i)) (mem32 (word_of_int len)) mem"

definition ChunkBuffer2_end :: "ChunkBuffer2 \<Rightarrow> int" where
  "ChunkBuffer2_end buf =
     (if cb_used buf \<ge> cb_wrap buf - cb_start buf
      then cb_used buf - (cb_wrap buf - cb_start buf)
      else cb_start buf + cb_used buf)"

definition ChunkBuffer2_update_input :: "ChunkBuffer2 \<Rightarrow> ChunkBuffer2" where
  "ChunkBuffer2_update_input buf =
     (let end = ChunkBuffer2_end buf;
          free = (if cb_used buf \<ge> cb_wrap buf - cb_start buf
                  then cb_start buf - end else cb_size buf - end)
      in if cb_size buf - end - 1 < cb_mtu buf
         then buf\<lparr>cb_input_dest := None, cb_input_avail := -1\<rparr>
         else if free > 0
         then buf\<lparr>cb_input_dest := Some (4 * (end + 1)), cb_input_avail := (free - 1) * 4\<rparr>
         else buf\<lparr>cb_input_dest := None, cb_input_avail := -1\<rparr>)"

definition ChunkBuffer2_update_output :: "ChunkBuffer2 \<Rightarrow> ChunkBuffer2" where
  "ChunkBuffer2_update_output buf =
     (if cb_used buf > 0
      then buf\<lparr>cb_output_dest := Some (4 * (cb_start buf + 1)),
               cb_output_avail := block_len (cb_mem buf) (cb_start buf)\<rparr>
      else buf\<lparr>cb_output_dest := None, cb_output_avail := -1\<rparr>)"

definition ChunkBuffer2_calc_blocks :: "int \<Rightarrow> int \<Rightarrow> int" where
  "ChunkBuffer2_calc_blocks chunk_len num =
     (let chunk_data_blocks = bdivide_up chunk_len 4
      in if chunk_data_blocks > INT_MAX - 1 then -1
         else let chunk_blocks = 1 + chunk_data_blocks
              in if num > INT_MAX - 1 then -1
                 else let num_chunks = num + 1
                      in if chunk_blocks > INT_MAX div num_chunks then -1
                         else chunk_blocks * num_chunks)"

definition ChunkBuffer2_Init :: "bytes \<Rightarrow> int \<Rightarrow> int \<Rightarrow> ChunkBuffer2" where
  "ChunkBuffer2_Init buffer blocks mtu =
     ChunkBuffer2_update_output (ChunkBuffer2_update_input
       \<lparr>cb_mem = buffer, cb_size = blocks, cb_wrap = blocks, cb_start = 0, cb_used = 0,
        cb_mtu = bdivide_up mtu 4, cb_input_dest = None, cb_input_avail = -1,
        cb_output_dest = None, cb_output_avail = -1\<rparr>)"

definition ChunkBuffer2_SubmitPacket :: "ChunkBuffer2 \<Rightarrow> int \<Rightarrow> ChunkBuffer2" where
  "ChunkBuffer2_SubmitPacket buf len =
     (let end = ChunkBuffer2_end buf;
          blocklen = bdivide_up len 4;
          buf1 = buf\<lparr>cb_mem := set_block_len end len (cb_mem buf), cb_used := cb_used buf + (1 + blocklen)\<rparr>;
          buf2 = (if cb_used buf1 \<le> cb_wrap buf1 - cb_start buf1 \<and>
                     cb_mtu buf1 > cb_size buf1 - (end + 1 + blocklen) - 1
                  then buf1\<lparr>cb_wrap := end + 1 + blocklen\<rparr> else buf1);
          buf3 = ChunkBuffer2_update_input buf2
      in if cb_used buf3 = 1 + blocklen then ChunkBuffer2_update_output buf3 else buf3)"

definition ChunkBuffer2_ConsumePacket :: "ChunkBuffer2 \<Rightarrow> ChunkBuffer2" where
  "ChunkBuffer2_ConsumePacket buf =
     (let blocklen = bdivide_up (block_len (cb_mem buf) (cb_start buf)) 4;
          data_wrapped = (cb_used buf \<ge> cb_wrap buf - cb_start buf);
          buf1 = buf\<lparr>cb_start := cb_start buf + (1 + blocklen), cb_used := cb_used buf - (1 + blocklen)\<rparr>;
          buf2 = (if cb_start buf1 = cb_wrap buf1 then buf1\<lparr>cb_start := 0, cb_wrap := cb_size buf1\<rparr> else buf1);
          buf3 = (if data_wrapped then ChunkBuffer2_update_input buf2 else buf2)
      in ChunkBuffer2_update_output buf3)"

text \<open>The producer writes its packet at \<open>input_dest\<close> before it submits it.\<close>

definition producer_writes :: "ChunkBuffer2 \<Rightarrow> bytes \<Rightarrow> ChunkBuffer2" where
  "producer_writes buf p =
     (case cb_input_dest buf of None \<Rightarrow> buf
      | Some d \<Rightarrow> buf\<lparr>cb_mem := write_at (nat d) p (cb_mem buf)\<rparr>)"

section \<open>Packets in memory\<close>

definition blocks_of :: "bytes \<Rightarrow> int" where
  "blocks_of p = 1 + bdivide_up (int (length p)) 4"

text \<open>\<open>segment mem a b ps\<close>: the blocks from \<open>a\<close> up to \<open>b\<close> hold exactly the packets \<open>ps\<close>.\<close>

fun segment :: "bytes \<Rightarrow> int \<Rightarrow> int \<Rightarrow> bytes list \<Rightarrow> bool" where
  "segment mem a b [] \<longleftrightarrow> a = b"
| "segment mem a b (p # ps) \<longleftrightarrow>
     block_len mem a = int (length p) \<and> a + blocks_of p \<le> b \<and>
     window (nat (4 * (a + 1))) (length p) mem = p \<and> segment mem (a + blocks_of p) b ps"

lemma bdivide_up_4: "0 \<le> n \<Longrightarrow> n \<le> 4 * bdivide_up n 4 \<and> 4 * bdivide_up n 4 < n + 4 \<and> 0 \<le> bdivide_up n 4"
  unfolding bdivide_up_def by (simp split: if_split) presburger

lemma bdivide_up_mono: "0 \<le> m \<Longrightarrow> m \<le> n \<Longrightarrow> bdivide_up m 4 \<le> bdivide_up n 4"
  using bdivide_up_4 [of m] bdivide_up_4 [of n] by linarith

lemma blocks_of_pos: "1 \<le> blocks_of p" "int (length p) \<le> 4 * (blocks_of p - 1)"
  using bdivide_up_4 [of "int (length p)"] by (simp_all add: blocks_of_def)

lemma segment_le: "segment mem a b ps \<Longrightarrow> a \<le> b"
proof (induction ps arbitrary: a)
  case (Cons p ps)
  then show ?case using blocks_of_pos(1) [of p] by fastforce
qed simp

lemma segment_append:
  "segment mem a b ps \<Longrightarrow> segment mem b c qs \<Longrightarrow> segment mem a c (ps @ qs)"
proof (induction ps arbitrary: a)
  case (Cons p ps)
  then show ?case using segment_le [of mem b c qs] by auto
qed simp

text \<open>A segment only depends on the bytes of its blocks.\<close>

lemma segment_frame:
  assumes "segment mem a b ps" "0 \<le> a"
    "\<And>i n. \<lbrakk>nat (4 * a) \<le> i; i + n \<le> nat (4 * b)\<rbrakk> \<Longrightarrow> window i n mem' = window i n mem"
  shows "segment mem' a b ps"
  using assms
proof (induction ps arbitrary: a)
  case (Cons p ps)
  let ?n = "blocks_of p"
  have n: "1 \<le> ?n" "int (length p) \<le> 4 * (?n - 1)" by (rule blocks_of_pos)+
  have b: "a + ?n \<le> b" using Cons.prems(1) by simp
  have "window (nat (4 * a)) 4 mem' = window (nat (4 * a)) 4 mem"
    by (rule Cons.prems(3)) (use b n(1) Cons.prems(2) in auto)
  moreover have "window (nat (4 * (a + 1))) (length p) mem' = window (nat (4 * (a + 1))) (length p) mem"
    by (rule Cons.prems(3)) (use b n Cons.prems(2) in auto)
  moreover have "segment mem' (a + ?n) b ps"
    by (rule Cons.IH) (use Cons.prems n in auto)
  ultimately show ?case using Cons.prems(1) by (simp add: block_len_def)
qed simp

lemma block_len_set_same:
  assumes "0 \<le> i" "nat (4 * i) + 4 \<le> length mem" "0 \<le> len" "len \<le> INT_MAX"
  shows "block_len (set_block_len i len mem) i = len"
proof -
  have "window (nat (4 * i)) 4 (write_at (nat (4 * i)) (mem32 (word_of_int len)) mem) = mem32 (word_of_int len)"
    using window_write_at_same [of "nat (4 * i)" mem "mem32 (word_of_int len)"] assms by simp
  then show ?thesis
    using assms by (simp add: block_len_def set_block_len_def sint_sbintrunc' signed_take_bit_int_eq_self)
qed


section \<open>The representation invariant\<close>

abbreviation cb_wrapped :: "ChunkBuffer2 \<Rightarrow> bool" where
  "cb_wrapped buf \<equiv> cb_used buf \<ge> cb_wrap buf - cb_start buf"

text \<open>
  The assertions of \<open>_ChunkBuffer2_assert_buffer\<close>, and that a shortened \<open>wrap\<close> leaves
  less than a packet of the MTU behind it. The array is smaller than 2 GiB, so that the byte
  counts fit an \<open>int\<close>.
\<close>

definition cb_shape :: "ChunkBuffer2 \<Rightarrow> bool" where
  "cb_shape buf \<longleftrightarrow>
     0 < cb_size buf \<and> 0 < cb_wrap buf \<and> cb_wrap buf \<le> cb_size buf \<and>
     0 \<le> cb_start buf \<and> cb_start buf < cb_wrap buf \<and>
     0 \<le> cb_used buf \<and> cb_used buf \<le> cb_wrap buf \<and>
     (cb_wrap buf = cb_size buf \<or> cb_wrapped buf \<and> cb_size buf - cb_wrap buf - 1 < cb_mtu buf) \<and>
     0 \<le> cb_mtu buf \<and> length (cb_mem buf) = nat (4 * cb_size buf) \<and> 4 * cb_size buf \<le> INT_MAX"

text \<open>
  The last block at which a packet of the MTU still fits. No packet starts behind it, and
  the free space does not either unless the data has wrapped.
\<close>

abbreviation cb_limit :: "ChunkBuffer2 \<Rightarrow> int" where
  "cb_limit buf \<equiv> cb_size buf - 1 - cb_mtu buf"

fun starts_le :: "int \<Rightarrow> int \<Rightarrow> bytes list \<Rightarrow> bool" where
  "starts_le lim a [] \<longleftrightarrow> True"
| "starts_le lim a (p # ps) \<longleftrightarrow> a \<le> lim \<and> starts_le lim (a + blocks_of p) ps"

definition cb_holds :: "ChunkBuffer2 \<Rightarrow> bytes list \<Rightarrow> bool" where
  "cb_holds buf ps \<longleftrightarrow>
     (if cb_wrapped buf
      then \<exists>ps1 ps2. ps = ps1 @ ps2 \<and> segment (cb_mem buf) (cb_start buf) (cb_wrap buf) ps1 \<and>
             starts_le (cb_limit buf) (cb_start buf) ps1 \<and>
             segment (cb_mem buf) 0 (cb_used buf - (cb_wrap buf - cb_start buf)) ps2
      else segment (cb_mem buf) (cb_start buf) (cb_start buf + cb_used buf) ps \<and>
           cb_start buf + cb_used buf \<le> cb_limit buf)"

lemma starts_le_segment:
  "segment mem a e ps \<Longrightarrow> e \<le> lim \<Longrightarrow> starts_le lim a (ps @ [p])"
proof (induction ps arbitrary: a)
  case (Cons q ps)
  then show ?case using blocks_of_pos(1) [of q] by auto
qed simp

text \<open>The cached input and output fields are what the update functions compute.\<close>

definition cb_io :: "ChunkBuffer2 \<Rightarrow> bool" where
  "cb_io buf \<longleftrightarrow> ChunkBuffer2_update_input buf = buf \<and> ChunkBuffer2_update_output buf = buf"

definition cb_rep :: "ChunkBuffer2 \<Rightarrow> bytes list \<Rightarrow> bool" where
  "cb_rep buf ps \<longleftrightarrow> cb_shape buf \<and> cb_holds buf ps \<and> cb_io buf"

lemma update_input_fields [simp]:
  "cb_mem (ChunkBuffer2_update_input buf) = cb_mem buf"
  "cb_size (ChunkBuffer2_update_input buf) = cb_size buf"
  "cb_wrap (ChunkBuffer2_update_input buf) = cb_wrap buf"
  "cb_start (ChunkBuffer2_update_input buf) = cb_start buf"
  "cb_used (ChunkBuffer2_update_input buf) = cb_used buf"
  "cb_mtu (ChunkBuffer2_update_input buf) = cb_mtu buf"
  "cb_output_dest (ChunkBuffer2_update_input buf) = cb_output_dest buf"
  "cb_output_avail (ChunkBuffer2_update_input buf) = cb_output_avail buf"
  by (simp_all add: ChunkBuffer2_update_input_def Let_def)

lemma update_output_fields [simp]:
  "cb_mem (ChunkBuffer2_update_output buf) = cb_mem buf"
  "cb_size (ChunkBuffer2_update_output buf) = cb_size buf"
  "cb_wrap (ChunkBuffer2_update_output buf) = cb_wrap buf"
  "cb_start (ChunkBuffer2_update_output buf) = cb_start buf"
  "cb_used (ChunkBuffer2_update_output buf) = cb_used buf"
  "cb_mtu (ChunkBuffer2_update_output buf) = cb_mtu buf"
  "cb_input_dest (ChunkBuffer2_update_output buf) = cb_input_dest buf"
  "cb_input_avail (ChunkBuffer2_update_output buf) = cb_input_avail buf"
  by (simp_all add: ChunkBuffer2_update_output_def)

lemma update_shape_holds [simp]:
  "cb_shape (ChunkBuffer2_update_input buf) = cb_shape buf"
  "cb_holds (ChunkBuffer2_update_input buf) ps = cb_holds buf ps"
  "cb_shape (ChunkBuffer2_update_output buf) = cb_shape buf"
  "cb_holds (ChunkBuffer2_update_output buf) ps = cb_holds buf ps"
  by (simp_all add: cb_shape_def cb_holds_def)

lemma update_io_idem:
  "ChunkBuffer2_update_input (ChunkBuffer2_update_input buf) = ChunkBuffer2_update_input buf"
  "ChunkBuffer2_update_output (ChunkBuffer2_update_output buf) = ChunkBuffer2_update_output buf"
  "ChunkBuffer2_update_input (ChunkBuffer2_update_output (ChunkBuffer2_update_input buf)) =
   ChunkBuffer2_update_output (ChunkBuffer2_update_input buf)"
  by (simp_all add: ChunkBuffer2_update_input_def ChunkBuffer2_update_output_def
      ChunkBuffer2_end_def Let_def)

lemma update_input_fixed_iff:
  "ChunkBuffer2_update_input buf = buf \<longleftrightarrow>
     cb_input_dest (ChunkBuffer2_update_input buf) = cb_input_dest buf \<and>
     cb_input_avail (ChunkBuffer2_update_input buf) = cb_input_avail buf"
  by (cases buf) (auto simp: ChunkBuffer2_update_input_def Let_def)

lemma update_output_fixed_iff:
  "ChunkBuffer2_update_output buf = buf \<longleftrightarrow>
     (if cb_used buf > 0
      then cb_output_dest buf = Some (4 * (cb_start buf + 1)) \<and>
           cb_output_avail buf = block_len (cb_mem buf) (cb_start buf)
      else cb_output_dest buf = None \<and> cb_output_avail buf = -1)"
  by (cases buf) (auto simp: ChunkBuffer2_update_output_def)

lemma cb_rep_Init:
  assumes "1 + bdivide_up mtu 4 \<le> blocks" "0 \<le> mtu" "length mem = nat (4 * blocks)" "4 * blocks \<le> INT_MAX"
  shows "cb_rep (ChunkBuffer2_Init mem blocks mtu) []"
  using assms bdivide_up_4 [of mtu]
  by (simp add: cb_rep_def ChunkBuffer2_Init_def cb_io_def update_io_idem cb_shape_def cb_holds_def)

text \<open>Where the next packet goes, and how many blocks it may take there.\<close>

lemma input_room:
  assumes "cb_rep buf ps" "cb_input_dest buf = Some d" "int (length p) \<le> cb_input_avail buf"
  shows "d = 4 * (ChunkBuffer2_end buf + 1)" "0 \<le> ChunkBuffer2_end buf"
    "ChunkBuffer2_end buf + blocks_of p \<le> (if cb_wrapped buf then cb_start buf else cb_size buf)"
    "int (length p) \<le> INT_MAX"
proof -
  have shape: "cb_shape buf" and io: "ChunkBuffer2_update_input buf = buf"
    using assms(1) by (simp_all add: cb_rep_def cb_io_def)
  let ?e = "ChunkBuffer2_end buf"
  let ?free = "(if cb_wrapped buf then cb_start buf else cb_size buf) - ?e"
  have d: "d = 4 * (?e + 1) \<and> cb_input_avail buf = (?free - 1) * 4 \<and> 0 < ?free"
    using assms(2) arg_cong [OF io, of cb_input_dest] arg_cong [OF io, of cb_input_avail]
    by (auto simp: ChunkBuffer2_update_input_def Let_def split: if_splits)
  show "d = 4 * (?e + 1)" using d by simp
  show "0 \<le> ?e" using shape by (auto simp: ChunkBuffer2_end_def cb_shape_def)
  show "?e + blocks_of p \<le> (if cb_wrapped buf then cb_start buf else cb_size buf)"
    using d assms(3) bdivide_up_4 [of "int (length p)"] by (auto simp: blocks_of_def)
  show "int (length p) \<le> INT_MAX"
    using d assms(3) shape \<open>0 \<le> ?e\<close> by (auto simp: cb_shape_def split: if_splits)
qed

lemma packet_fits:
  assumes "0 \<le> e"
  shows "nat (4 * (e + 1)) + length p \<le> nat (4 * (e + blocks_of p))"
    "nat (4 * e) + 4 \<le> nat (4 * (e + blocks_of p))"
  using assms blocks_of_pos [of p] by auto

text \<open>The memory after the producer wrote \<open>p\<close> and the header was set.\<close>

definition mem_with :: "int \<Rightarrow> bytes \<Rightarrow> bytes \<Rightarrow> bytes" where
  "mem_with e p mem = set_block_len e (int (length p)) (write_at (nat (4 * (e + 1))) p mem)"

lemma mem_with_outside:
  assumes "0 \<le> e" "nat (4 * (e + blocks_of p)) \<le> length mem"
    "i + n \<le> nat (4 * e) \<or> nat (4 * (e + blocks_of p)) \<le> i"
  shows "window i n (mem_with e p mem) = window i n mem" "length (mem_with e p mem) = length mem"
proof -
  have d: "nat (4 * (e + 1)) + length p \<le> nat (4 * (e + blocks_of p))"
    using assms(1) by (rule packet_fits)
  have len: "length (write_at (nat (4 * (e + 1))) p mem) = length mem"
    using d assms(2) by simp
  have h: "nat (4 * e) + length (mem32 x) \<le> nat (4 * (e + blocks_of p))" for x
    using packet_fits(2) [OF assms(1), of p] by simp
  show "length (mem_with e p mem) = length mem"
    using len h assms(2) order_trans by (fastforce simp: mem_with_def set_block_len_def)
  show "window i n (mem_with e p mem) = window i n mem"
    using assms(3)
  proof
    assume a: "i + n \<le> nat (4 * e)"
    then have "i + n \<le> nat (4 * (e + 1))" by auto
    with a show ?thesis
      using d h assms(2) len by (simp add: mem_with_def set_block_len_def window_write_at_before)
  next
    assume "nat (4 * (e + blocks_of p)) \<le> i"
    then show ?thesis
      using d h [of "word_of_int (int (length p))"] assms(2) len
      by (simp add: mem_with_def set_block_len_def window_write_at_after)
  qed
qed

lemma segment_mem_with_new:
  assumes "0 \<le> e" "nat (4 * (e + blocks_of p)) \<le> length mem" "int (length p) \<le> INT_MAX"
  shows "segment (mem_with e p mem) e (e + blocks_of p) [p]"
proof -
  let ?m = "write_at (nat (4 * (e + 1))) p mem"
  have fits: "nat (4 * (e + 1)) + length p \<le> length mem" "nat (4 * e) + 4 \<le> length mem"
    using packet_fits [OF assms(1), of p] assms(2) by auto
  have "block_len (mem_with e p mem) e = int (length p)"
    unfolding mem_with_def by (rule block_len_set_same) (use assms fits in auto)
  moreover have "window (nat (4 * (e + 1))) (length p) (mem_with e p mem) = window (nat (4 * (e + 1))) (length p) ?m"
    unfolding mem_with_def set_block_len_def
    by (rule window_write_at_after) (use assms fits in auto)
  moreover have "window (nat (4 * (e + 1))) (length p) ?m = p" using fits by simp
  ultimately show ?thesis by simp
qed


section \<open>Submitting a packet\<close>

lemma Submit_eq:
  assumes "cb_rep buf ps" "cb_input_dest buf = Some d" "int (length p) \<le> cb_input_avail buf"
  defines "e \<equiv> ChunkBuffer2_end buf"
  defines "b \<equiv> buf\<lparr>cb_mem := mem_with e p (cb_mem buf), cb_used := cb_used buf + blocks_of p,
     cb_wrap := (if cb_used buf + blocks_of p \<le> cb_wrap buf - cb_start buf \<and>
                    cb_mtu buf > cb_size buf - (e + blocks_of p) - 1
                 then e + blocks_of p else cb_wrap buf)\<rparr>"
  shows "ChunkBuffer2_SubmitPacket (producer_writes buf p) (int (length p)) =
    (if cb_used buf = 0 then ChunkBuffer2_update_output (ChunkBuffer2_update_input b)
     else ChunkBuffer2_update_input b)"
proof -
  have d: "d = 4 * (e + 1)" using input_room(1) [OF assms(1,2,3)] by (simp add: e_def)
  have e: "ChunkBuffer2_end (producer_writes buf p) = e"
    using assms(2) by (simp add: producer_writes_def ChunkBuffer2_end_def e_def)
  have pw: "producer_writes buf p = buf\<lparr>cb_mem := write_at (nat (4 * (e + 1))) p (cb_mem buf)\<rparr>"
    using assms(2) d by (simp add: producer_writes_def)
  have b: "(if cb_used buf + blocks_of p \<le> cb_wrap buf - cb_start buf \<and>
      cb_mtu buf > cb_size buf - (e + blocks_of p) - 1
    then buf\<lparr>cb_mem := mem_with e p (cb_mem buf), cb_used := cb_used buf + blocks_of p, cb_wrap := e + blocks_of p\<rparr>
    else buf\<lparr>cb_mem := mem_with e p (cb_mem buf), cb_used := cb_used buf + blocks_of p\<rparr>) = b"
    by (simp add: b_def)
  show ?thesis
    using b unfolding ChunkBuffer2_SubmitPacket_def e
    by (auto simp: Let_def pw mem_with_def blocks_of_def add.assoc split: if_splits)
qed

lemma Submit_shape_holds:
  assumes "cb_rep buf ps" "cb_input_dest buf = Some d" "int (length p) \<le> cb_input_avail buf"
  defines "e \<equiv> ChunkBuffer2_end buf"
  defines "b \<equiv> buf\<lparr>cb_mem := mem_with e p (cb_mem buf), cb_used := cb_used buf + blocks_of p,
     cb_wrap := (if cb_used buf + blocks_of p \<le> cb_wrap buf - cb_start buf \<and>
                    cb_mtu buf > cb_size buf - (e + blocks_of p) - 1
                 then e + blocks_of p else cb_wrap buf)\<rparr>"
  shows "cb_shape b" "cb_holds b (ps @ [p])"
    "0 < cb_used buf \<Longrightarrow> block_len (cb_mem b) (cb_start buf) = block_len (cb_mem buf) (cb_start buf)"
proof -
  note room = input_room [OF assms(1,2,3), folded e_def]
  have shape: "cb_shape buf" and holds: "cb_holds buf ps" using assms(1) by (simp_all add: cb_rep_def)
  let ?n = "blocks_of p"
  have n: "1 \<le> ?n" by (rule blocks_of_pos)
  have upto: "e + ?n \<le> cb_size buf"
    using room(3) shape by (auto simp: cb_shape_def split: if_splits)
  then have mem: "nat (4 * (e + ?n)) \<le> length (cb_mem buf)"
    using shape by (simp add: cb_shape_def)
  note out = mem_with_outside [OF room(2) mem]
  have new: "segment (mem_with e p (cb_mem buf)) e (e + ?n) [p]"
    using room(2,4) mem by (intro segment_mem_with_new) auto
  have keep: "segment (mem_with e p (cb_mem buf)) a c qs"
    if "segment (cb_mem buf) a c qs" "0 \<le> a" "c \<le> e \<or> e + ?n \<le> a" for a c qs
  proof (rule segment_frame [OF that(1,2)])
    fix i k assume "nat (4 * a) \<le> i" "i + k \<le> nat (4 * c)"
    then show "window i k (mem_with e p (cb_mem buf)) = window i k (cb_mem buf)"
      using that(2,3) room(2) n by (intro out(1)) (auto simp: nat_le_iff)
  qed
  have len: "length (mem_with e p (cb_mem buf)) = length (cb_mem buf)"
    using out(2) [of 0 0] by simp
  have bl: "block_len (mem_with e p (cb_mem buf)) (cb_start buf) = block_len (cb_mem buf) (cb_start buf)"
    if "cb_start buf + 1 \<le> e \<or> e + ?n \<le> cb_start buf"
    unfolding block_len_def
    by (subst out(1)) (use that shape in \<open>auto simp: cb_shape_def\<close>)
  have "cb_shape b \<and> cb_holds b (ps @ [p]) \<and>
    (0 < cb_used buf \<longrightarrow> block_len (cb_mem b) (cb_start buf) = block_len (cb_mem buf) (cb_start buf))"
  proof (cases "cb_wrapped buf")
    case True
    then have e: "e = cb_used buf - (cb_wrap buf - cb_start buf)" "e + ?n \<le> cb_start buf"
      using room(3) by (simp_all add: e_def ChunkBuffer2_end_def)
    then have "\<not> cb_used buf + ?n \<le> cb_wrap buf - cb_start buf" using room(2) n by linarith
    then have b: "b = buf\<lparr>cb_mem := mem_with e p (cb_mem buf), cb_used := cb_used buf + ?n\<rparr>"
      by (simp add: b_def)
    have wr: "cb_wrap b - cb_start b \<le> cb_used b" using b True n by simp
    obtain ps1 ps2 where ps: "ps = ps1 @ ps2" "segment (cb_mem buf) (cb_start buf) (cb_wrap buf) ps1"
      "segment (cb_mem buf) 0 e ps2" "starts_le (cb_limit buf) (cb_start buf) ps1"
      using holds True e by (auto simp: cb_holds_def)
    have "segment (cb_mem b) (cb_start b) (cb_wrap b) ps1" "segment (cb_mem b) 0 (e + ?n) (ps2 @ [p])"
      using keep [OF ps(2)] keep [OF ps(3)] segment_append [OF _ new] shape e b
      by (auto simp: cb_shape_def)
    moreover have "cb_used b - (cb_wrap b - cb_start b) = e + ?n" using b e by simp
    moreover have "starts_le (cb_limit b) (cb_start b) ps1" using ps(4) b by simp
    ultimately have "cb_holds b (ps @ [p])" using wr ps(1) by (force simp: cb_holds_def)
    moreover have "cb_shape b"
      using shape True e n b room(2) len by (auto simp: cb_shape_def)
    ultimately show ?thesis using bl e b by simp
  next
    case False
    then have e: "e = cb_start buf + cb_used buf" "cb_wrap buf = cb_size buf"
      using shape by (auto simp: e_def ChunkBuffer2_end_def cb_shape_def)
    have seg: "segment (mem_with e p (cb_mem buf)) (cb_start buf) (e + ?n) (ps @ [p])"
      by (rule segment_append [OF keep new]) (use holds False e shape in \<open>auto simp: cb_holds_def cb_shape_def\<close>)
    have starts: "starts_le (cb_limit buf) (cb_start buf) (ps @ [p])"
      by (rule starts_le_segment) (use holds False e in \<open>auto simp: cb_holds_def\<close>)
    have first: "cb_used buf + ?n \<le> cb_wrap buf - cb_start buf" using upto e by simp
    have "cb_shape b \<and> cb_holds b (ps @ [p])"
    proof (cases "cb_mtu buf > cb_size buf - (e + ?n) - 1")
      case True
      then have b: "b = buf\<lparr>cb_mem := mem_with e p (cb_mem buf), cb_used := cb_used buf + ?n, cb_wrap := e + ?n\<rparr>"
        using first by (simp add: b_def)
      have "cb_holds b (ps @ [p])"
        using seg e b starts by (simp add: cb_holds_def) (rule exI [of _ "ps @ [p]"], simp)
      moreover have "cb_shape b" using shape e n b True upto len room(2) by (auto simp: cb_shape_def)
      ultimately show ?thesis by simp
    next
      case False
      then have b: "b = buf\<lparr>cb_mem := mem_with e p (cb_mem buf), cb_used := cb_used buf + ?n\<rparr>"
        by (simp add: b_def)
      have "\<not> cb_wrapped b" using b False e shape by (auto simp: cb_shape_def)
      then have "cb_holds b (ps @ [p])" using seg e b False by (simp add: cb_holds_def add.assoc)
      moreover have "cb_shape b" using shape e n b upto len room(2) by (auto simp: cb_shape_def)
      ultimately show ?thesis by simp
    qed
    then show ?thesis using bl e by (auto simp: b_def)
  qed
  then show "cb_shape b" "cb_holds b (ps @ [p])"
    "0 < cb_used buf \<Longrightarrow> block_len (cb_mem b) (cb_start buf) = block_len (cb_mem buf) (cb_start buf)"
    by simp_all
qed

lemma cb_rep_Submit:
  assumes "cb_rep buf ps" "cb_input_dest buf = Some d" "int (length p) \<le> cb_input_avail buf"
  shows "cb_rep (ChunkBuffer2_SubmitPacket (producer_writes buf p) (int (length p))) (ps @ [p])"
proof -
  define b where "b = buf\<lparr>cb_mem := mem_with (ChunkBuffer2_end buf) p (cb_mem buf), cb_used := cb_used buf + blocks_of p,
     cb_wrap := (if cb_used buf + blocks_of p \<le> cb_wrap buf - cb_start buf \<and>
                    cb_mtu buf > cb_size buf - (ChunkBuffer2_end buf + blocks_of p) - 1
                 then ChunkBuffer2_end buf + blocks_of p else cb_wrap buf)\<rparr>"
  note eq = Submit_eq [OF assms, folded b_def]
  note sh = Submit_shape_holds [OF assms, folded b_def]
  have used: "0 \<le> cb_used buf" using assms(1) by (simp add: cb_rep_def cb_shape_def)
  have "ChunkBuffer2_update_output (ChunkBuffer2_update_input b) = ChunkBuffer2_update_input b"
    if "cb_used buf \<noteq> 0"
  proof -
    have "ChunkBuffer2_update_output buf = buf" using assms(1) by (simp add: cb_rep_def cb_io_def)
    then have "cb_output_dest b = Some (4 * (cb_start b + 1)) \<and> cb_output_avail b = block_len (cb_mem b) (cb_start b)"
      using that used sh(3) by (simp add: update_output_fixed_iff) (simp add: b_def)
    then show ?thesis using that used blocks_of_pos(1) [of p] by (simp add: update_output_fixed_iff b_def)
  qed
  then show ?thesis
    unfolding eq using sh(1,2) by (auto simp: cb_rep_def cb_io_def update_io_idem)
qed


section \<open>Consuming a packet\<close>

lemma segment_empty: "segment mem a a ps \<Longrightarrow> ps = []"
proof (cases ps)
  case (Cons p qs)
  assume "segment mem a a ps"
  then show ?thesis using Cons blocks_of_pos(1) [of p] by simp
qed simp

lemma cb_holds_Cons:
  assumes "cb_shape buf" "cb_holds buf (p # ps)"
  shows "0 < cb_used buf" "block_len (cb_mem buf) (cb_start buf) = int (length p)"
    "window (nat (4 * (cb_start buf + 1))) (length p) (cb_mem buf) = p"
    "blocks_of p \<le> cb_used buf" "blocks_of p \<le> cb_wrap buf - cb_start buf"
proof -
  have n: "1 \<le> blocks_of p" by (rule blocks_of_pos)
  have "\<exists>c. segment (cb_mem buf) (cb_start buf) c [p] \<and> c - cb_start buf \<le> cb_used buf \<and> c \<le> cb_wrap buf"
  proof (cases "cb_wrapped buf")
    case True
    then obtain ps1 ps2 where "p # ps = ps1 @ ps2" "segment (cb_mem buf) (cb_start buf) (cb_wrap buf) ps1"
      using assms(2) by (auto simp: cb_holds_def)
    moreover then obtain ps1' where "ps1 = p # ps1'"
      using assms(1) by (cases ps1) (auto simp: cb_shape_def)
    ultimately show ?thesis using True by (intro exI [of _ "cb_start buf + blocks_of p"]) auto
  next
    case False
    then show ?thesis
      using assms(2) by (intro exI [of _ "cb_start buf + blocks_of p"]) (auto simp: cb_holds_def)
  qed
  then show "0 < cb_used buf" "block_len (cb_mem buf) (cb_start buf) = int (length p)"
    "window (nat (4 * (cb_start buf + 1))) (length p) (cb_mem buf) = p"
    "blocks_of p \<le> cb_used buf" "blocks_of p \<le> cb_wrap buf - cb_start buf"
    using n by auto
qed

lemma cb_holds_Nil:
  assumes "cb_shape buf" "cb_holds buf []"
  shows "cb_used buf = 0"
  using assms by (auto simp: cb_shape_def cb_holds_def split: if_splits)

definition consumed :: "ChunkBuffer2 \<Rightarrow> int \<Rightarrow> ChunkBuffer2" where
  "consumed buf n =
     (let b = buf\<lparr>cb_start := cb_start buf + n, cb_used := cb_used buf - n\<rparr>
      in if cb_start b = cb_wrap b then b\<lparr>cb_start := 0, cb_wrap := cb_size b\<rparr> else b)"

lemma consumed_shape_holds:
  assumes shape: "cb_shape buf" and holds: "cb_holds buf (p # ps)"
  shows "cb_shape (consumed buf (blocks_of p))" "cb_holds (consumed buf (blocks_of p)) ps"
    "ChunkBuffer2_end (consumed buf (blocks_of p)) = ChunkBuffer2_end buf"
    "\<not> cb_wrapped buf \<Longrightarrow> \<not> cb_wrapped (consumed buf (blocks_of p)) \<and> cb_wrap buf \<noteq> cb_start buf + blocks_of p"
proof -
  let ?n = "blocks_of p"
  let ?b = "consumed buf ?n"
  note c = cb_holds_Cons [OF shape holds]
  have n: "1 \<le> ?n" by (rule blocks_of_pos)
  have "cb_shape ?b \<and> cb_holds ?b ps \<and> ChunkBuffer2_end ?b = ChunkBuffer2_end buf \<and>
    (\<not> cb_wrapped buf \<longrightarrow> \<not> cb_wrapped ?b \<and> cb_wrap buf \<noteq> cb_start buf + ?n)"
  proof (cases "cb_wrapped buf")
    case True
    then obtain ps1 ps2 where ps: "p # ps = ps1 @ ps2"
      and s1: "segment (cb_mem buf) (cb_start buf) (cb_wrap buf) ps1"
      and st: "starts_le (cb_limit buf) (cb_start buf) ps1"
      and s2: "segment (cb_mem buf) 0 (cb_used buf - (cb_wrap buf - cb_start buf)) ps2"
      using holds by (auto simp: cb_holds_def)
    obtain ps1' where ps1: "ps1 = p # ps1'"
      using ps s1 shape by (cases ps1) (auto simp: cb_shape_def)
    have rest: "segment (cb_mem buf) (cb_start buf + ?n) (cb_wrap buf) ps1'" using s1 ps1 by simp
    show ?thesis
    proof (cases "cb_start buf + ?n = cb_wrap buf")
      case eq: True
      then have b: "?b = buf\<lparr>cb_start := 0, cb_used := cb_used buf - ?n, cb_wrap := cb_size buf\<rparr>"
        by (simp add: consumed_def)
      have "ps = ps2" using segment_empty rest eq ps ps1 by auto
      moreover have "?n = cb_wrap buf - cb_start buf" using eq by linarith
      then have "segment (cb_mem buf) 0 (cb_used buf - ?n) ps2" using s2 by simp
      moreover have "cb_start buf \<le> cb_limit buf" using st ps1 by simp
      ultimately show ?thesis
        using b shape c True eq by (auto simp: cb_holds_def cb_shape_def ChunkBuffer2_end_def)
    next
      case False
      then have b: "?b = buf\<lparr>cb_start := cb_start buf + ?n, cb_used := cb_used buf - ?n\<rparr>"
        by (simp add: consumed_def)
      have E: "cb_used ?b - (cb_wrap ?b - cb_start ?b) = cb_used buf - (cb_wrap buf - cb_start buf)"
        using b by simp
      have "segment (cb_mem ?b) 0 (cb_used ?b - (cb_wrap ?b - cb_start ?b)) ps2"
        unfolding E using s2 b by simp
      moreover have "segment (cb_mem ?b) (cb_start ?b) (cb_wrap ?b) ps1'" "ps = ps1' @ ps2"
        using rest ps ps1 b by simp_all
      moreover have "cb_wrapped ?b" using b True by simp
      moreover have "starts_le (cb_limit ?b) (cb_start ?b) ps1'" using st ps1 b by simp
      ultimately have "cb_holds ?b ps" unfolding cb_holds_def by auto
      then show ?thesis
        using b shape c True False n by (auto simp: cb_shape_def ChunkBuffer2_end_def)
    qed
  next
    case False
    then have b: "?b = buf\<lparr>cb_start := cb_start buf + ?n, cb_used := cb_used buf - ?n\<rparr>"
      using c by (simp add: consumed_def)
    show ?thesis
      using b holds shape c False n by (auto simp: cb_holds_def cb_shape_def ChunkBuffer2_end_def)
  qed
  then show "cb_shape ?b" "cb_holds ?b ps" "ChunkBuffer2_end ?b = ChunkBuffer2_end buf"
    "\<not> cb_wrapped buf \<Longrightarrow> \<not> cb_wrapped ?b \<and> cb_wrap buf \<noteq> cb_start buf + ?n"
    by simp_all
qed

lemma Consume_eq:
  assumes "cb_shape buf" "cb_holds buf (p # ps)"
  shows "ChunkBuffer2_ConsumePacket buf =
    ChunkBuffer2_update_output (if cb_wrapped buf then ChunkBuffer2_update_input (consumed buf (blocks_of p))
                                else consumed buf (blocks_of p))"
  using cb_holds_Cons(2) [OF assms]
  by (simp add: ChunkBuffer2_ConsumePacket_def consumed_def blocks_of_def Let_def)

lemma consumed_fields [simp]:
  "cb_mem (consumed buf n) = cb_mem buf" "cb_size (consumed buf n) = cb_size buf"
  "cb_mtu (consumed buf n) = cb_mtu buf" "cb_input_dest (consumed buf n) = cb_input_dest buf"
  "cb_input_avail (consumed buf n) = cb_input_avail buf"
  by (simp_all add: consumed_def Let_def)

lemma cb_rep_Consume:
  assumes "cb_rep buf (p # ps)"
  shows "cb_rep (ChunkBuffer2_ConsumePacket buf) ps"
proof -
  have shape: "cb_shape buf" and holds: "cb_holds buf (p # ps)" and io: "ChunkBuffer2_update_input buf = buf"
    using assms by (simp_all add: cb_rep_def cb_io_def)
  note c = consumed_shape_holds [OF shape holds]
  let ?b = "consumed buf (blocks_of p)"
  have "ChunkBuffer2_update_input ?b = ?b" if "\<not> cb_wrapped buf"
    unfolding update_input_fixed_iff
    using arg_cong [OF io, of cb_input_dest] arg_cong [OF io, of cb_input_avail] that c(3,4)
    by (simp add: ChunkBuffer2_update_input_def Let_def split: if_splits)
  then have "ChunkBuffer2_update_input (ChunkBuffer2_update_output ?b) = ChunkBuffer2_update_output ?b"
    if "\<not> cb_wrapped buf"
    using that update_io_idem(3) [of ?b] by metis
  then show ?thesis
    using c(1,2) by (simp add: cb_rep_def cb_io_def Consume_eq [OF shape holds] update_io_idem)
qed

text \<open>
  Consuming does not move the place where the next packet is being written, and never
  shrinks it: a producer may be writing there.
\<close>

lemma Consume_keeps_input:
  assumes "cb_rep buf (p # ps)" "cb_input_dest buf = Some d"
  shows "cb_input_dest (ChunkBuffer2_ConsumePacket buf) = Some d"
    "cb_input_avail buf \<le> cb_input_avail (ChunkBuffer2_ConsumePacket buf)"
proof -
  have shape: "cb_shape buf" and holds: "cb_holds buf (p # ps)" and io: "ChunkBuffer2_update_input buf = buf"
    using assms by (simp_all add: cb_rep_def cb_io_def)
  note c = consumed_shape_holds [OF shape holds] cb_holds_Cons [OF shape holds]
  let ?b = "consumed buf (blocks_of p)"
  have "cb_input_dest (ChunkBuffer2_ConsumePacket buf) = Some d \<and>
    cb_input_avail buf \<le> cb_input_avail (ChunkBuffer2_ConsumePacket buf)"
  proof (cases "cb_wrapped buf")
    case True
    let ?e = "ChunkBuffer2_end buf"
    have inp: "d = 4 * (?e + 1)" "cb_input_avail buf = (cb_start buf - ?e - 1) * 4" "\<not> cb_size buf - ?e - 1 < cb_mtu buf"
      "0 < cb_start buf - ?e"
      using True assms(2) arg_cong [OF io, of cb_input_dest] arg_cong [OF io, of cb_input_avail]
      by (auto simp: ChunkBuffer2_update_input_def Let_def split: if_splits)
    have "(if cb_wrapped ?b then cb_start ?b else cb_size ?b) \<ge> cb_start buf"
      using shape blocks_of_pos(1) [of p] by (auto simp: consumed_def Let_def cb_shape_def)
    then show ?thesis
      using True inp c(3)
      by (auto simp: Consume_eq [OF shape holds] ChunkBuffer2_update_input_def Let_def split: if_splits)
  next
    case False
    then show ?thesis using assms(2) by (simp add: Consume_eq [OF shape holds])
  qed
  then show "cb_input_dest (ChunkBuffer2_ConsumePacket buf) = Some d"
    "cb_input_avail buf \<le> cb_input_avail (ChunkBuffer2_ConsumePacket buf)" by simp_all
qed


section \<open>Capacity\<close>

lemma segment_blocks: "segment mem a b ps \<Longrightarrow> b - a = sum_list (map blocks_of ps)"
proof (induction ps arbitrary: a)
  case (Cons p ps)
  then have "b - (a + blocks_of p) = sum_list (map blocks_of ps)" by simp
  then show ?case by simp
qed simp

lemma cb_used_blocks: "cb_holds buf ps \<Longrightarrow> cb_used buf = sum_list (map blocks_of ps)"
  by (auto simp: cb_holds_def dest!: segment_blocks split: if_splits)

lemma sum_blocks_le: "\<forall>p \<in> set ps. blocks_of p \<le> 1 + m \<Longrightarrow> sum_list (map blocks_of ps) \<le> (1 + m) * int (length ps)"
  by (induction ps) (auto simp: algebra_simps)

text \<open>
  Room for a packet of the MTU: always when the data has not wrapped, and when it has, as
  long as there are fewer packets than the buffer was made for.
\<close>

lemma cb_room:
  assumes "cb_rep buf ps" "\<not> cb_wrapped buf \<or> cb_mtu buf < cb_start buf - ChunkBuffer2_end buf"
  shows "cb_input_dest buf = Some (4 * (ChunkBuffer2_end buf + 1)) \<and> 4 * cb_mtu buf \<le> cb_input_avail buf"
proof -
  have shape: "cb_shape buf" and holds: "cb_holds buf ps" and io: "ChunkBuffer2_update_input buf = buf"
    using assms(1) by (simp_all add: cb_rep_def cb_io_def)
  let ?e = "ChunkBuffer2_end buf"
  have "?e \<le> cb_limit buf"
    using assms(2) holds shape by (auto simp: cb_holds_def ChunkBuffer2_end_def cb_shape_def split: if_splits)
  moreover have "cb_mtu buf < (if cb_wrapped buf then cb_start buf - ?e else cb_size buf - ?e)"
    using assms(2) calculation by auto
  moreover have "0 \<le> cb_mtu buf" using shape by (simp add: cb_shape_def)
  ultimately show ?thesis
    using arg_cong [OF io, of cb_input_dest] arg_cong [OF io, of cb_input_avail]
    by (auto simp: ChunkBuffer2_update_input_def Let_def split: if_splits)
qed

lemma cb_empty_not_wrapped: "cb_rep buf [] \<Longrightarrow> \<not> cb_wrapped buf"
  using cb_used_blocks [of buf "[]"] by (simp add: cb_rep_def cb_shape_def)

lemma cb_capacity:
  assumes rep: "cb_rep buf ps" and small: "\<forall>p \<in> set ps. blocks_of p \<le> 1 + cb_mtu buf"
    and few: "int (length ps) < num" and size: "(1 + cb_mtu buf) * (num + 1) \<le> cb_size buf"
  shows "\<not> cb_wrapped buf \<or> cb_mtu buf < cb_start buf - ChunkBuffer2_end buf"
proof (rule disjCI)
  assume "\<not> cb_mtu buf < cb_start buf - ChunkBuffer2_end buf"
  show "\<not> cb_wrapped buf"
  proof
    assume w: "cb_wrapped buf"
    have shape: "cb_shape buf" and holds: "cb_holds buf ps" using rep by (simp_all add: cb_rep_def)
    have m: "0 \<le> cb_mtu buf" "cb_size buf - cb_mtu buf \<le> cb_wrap buf"
      using shape by (auto simp: cb_shape_def)
    have "cb_used buf \<le> (1 + cb_mtu buf) * int (length ps)"
      using cb_used_blocks [OF holds] sum_blocks_le [OF small] by simp
    also have "\<dots> \<le> (1 + cb_mtu buf) * (num - 1)"
      using few m by (intro mult_left_mono) auto
    finally have used: "cb_used buf + 2 * (1 + cb_mtu buf) \<le> cb_size buf"
      using size by (simp add: algebra_simps)
    have "ChunkBuffer2_end buf = cb_used buf - (cb_wrap buf - cb_start buf)"
      using w by (simp add: ChunkBuffer2_end_def)
    with used m \<open>\<not> cb_mtu buf < _\<close> show False by arith
  qed
qed

lemma update_mtu_size [simp]:
  "cb_mtu (ChunkBuffer2_SubmitPacket buf len) = cb_mtu buf" "cb_size (ChunkBuffer2_SubmitPacket buf len) = cb_size buf"
  "cb_mtu (ChunkBuffer2_ConsumePacket buf) = cb_mtu buf" "cb_size (ChunkBuffer2_ConsumePacket buf) = cb_size buf"
  "cb_mtu (producer_writes buf p) = cb_mtu buf" "cb_size (producer_writes buf p) = cb_size buf"
  by (simp_all add: ChunkBuffer2_SubmitPacket_def ChunkBuffer2_ConsumePacket_def producer_writes_def
      Let_def split: option.split)

lemma calc_blocks_spec:
  assumes "0 \<le> chunk_len" "0 \<le> num" "ChunkBuffer2_calc_blocks chunk_len num = r" "r \<noteq> -1"
  shows "r = (1 + bdivide_up chunk_len 4) * (num + 1)" "0 < r" "r \<le> INT_MAX"
proof -
  have d: "0 \<le> bdivide_up chunk_len 4" using bdivide_up_4 [OF assms(1)] by simp
  have ok: "1 + bdivide_up chunk_len 4 \<le> INT_MAX div (num + 1)"
    using assms(3,4) by (auto simp: ChunkBuffer2_calc_blocks_def Let_def split: if_splits)
  show r: "r = (1 + bdivide_up chunk_len 4) * (num + 1)"
    using assms(3,4) by (auto simp: ChunkBuffer2_calc_blocks_def Let_def split: if_splits)
  show "0 < r" unfolding r using d assms(2) by (intro mult_pos_pos) auto
  have "r \<le> INT_MAX div (num + 1) * (num + 1)"
    unfolding r using ok assms(2) by (intro mult_right_mono) auto
  also have "\<dots> = INT_MAX - INT_MAX mod (num + 1)" by (rule minus_mod_eq_div_mult [symmetric])
  also have "\<dots> \<le> INT_MAX" using pos_mod_sign [of "num + 1" INT_MAX] assms(2) by simp
  finally show "r \<le> INT_MAX" .
qed

end
