(* ===== verification/PacketBuffer.thy ===== *)
theory PacketBuffer
  imports ChunkBuffer2
begin

text \<open>
  The packet queue of \<open>flow/PacketBuffer.c\<close>: it receives packets from a
  \<open>PacketRecvInterface\<close> into a \<open>ChunkBuffer2\<close> and sends them on through a
  \<open>PacketPassInterface\<close>. The theory states the contract of the buffer as the locale
  \<open>packet_fifo\<close>, interprets it on the operations of \<open>ChunkBuffer2\<close>, and shows of the
  two completion handlers that no packet is lost, reordered or altered, that the flow
  protocol is obeyed, and that the queue never stalls.
\<close>

section \<open>The contract of a packet queue in shared memory\<close>

locale packet_fifo =
  fixes rep :: "'b \<Rightarrow> bytes list \<Rightarrow> bool"
    and fill :: "'b \<Rightarrow> bytes \<Rightarrow> 'b"
    and submit :: "'b \<Rightarrow> int \<Rightarrow> 'b"
    and consume :: "'b \<Rightarrow> 'b"
    and in_dest :: "'b \<Rightarrow> int option"
    and in_avail :: "'b \<Rightarrow> int"
    and out_dest :: "'b \<Rightarrow> int option"
    and out_avail :: "'b \<Rightarrow> int"
    and peek :: "'b \<Rightarrow> int \<Rightarrow> int \<Rightarrow> bytes"
  assumes in_avail_dest: "\<lbrakk>rep b ps; 0 \<le> in_avail b\<rbrakk> \<Longrightarrow> in_dest b \<noteq> None"
    and submit_rep: "\<lbrakk>rep b ps; int (length p) \<le> in_avail b\<rbrakk> \<Longrightarrow> rep (submit (fill b p) (int (length p))) (ps @ [p])"
    and submit_out: "\<lbrakk>rep b (q # ps); int (length p) \<le> in_avail b\<rbrakk> \<Longrightarrow>
      out_dest (submit (fill b p) (int (length p))) = out_dest b"
    and consume_rep: "rep b (p # ps) \<Longrightarrow> rep (consume b) ps"
    and consume_in_avail: "\<lbrakk>rep b (p # ps); 0 \<le> in_avail b\<rbrakk> \<Longrightarrow> in_avail b \<le> in_avail (consume b)"
    and consume_in_dest: "\<lbrakk>rep b (p # ps); 0 \<le> in_avail b\<rbrakk> \<Longrightarrow> in_dest (consume b) = in_dest b"
    and out_empty: "rep b [] \<Longrightarrow> out_avail b = -1"
    and out_head: "rep b (p # ps) \<Longrightarrow> \<exists>d. out_dest b = Some d \<and> out_avail b = int (length p) \<and> peek b d (out_avail b) = p"
begin

lemma out_avail_iff: "rep b ps \<Longrightarrow> 0 \<le> out_avail b \<longleftrightarrow> ps \<noteq> []"
  by (cases ps) (auto dest: out_empty out_head)

lemma out_len: "rep b (p # ps) \<Longrightarrow> out_avail b = int (length p)"
  by (auto dest: out_head)

lemma peek_head: "\<lbrakk>rep b (p # ps); out_dest b = Some d\<rbrakk> \<Longrightarrow> peek b d (out_avail b) = p"
  using out_head by fastforce

text \<open>Draining the queue reads exactly its packets, in order.\<close>

fun drain :: "nat \<Rightarrow> 'b \<Rightarrow> bytes list" where
  "drain 0 b = []"
| "drain (Suc n) b =
     (case out_dest b of None \<Rightarrow> []
      | Some d \<Rightarrow> peek b d (out_avail b) # drain n (consume b))"

lemma drain_rep: "rep b ps \<Longrightarrow> drain (length ps) b = ps"
proof (induction ps arbitrary: b)
  case (Cons p ps)
  then obtain d where "out_dest b = Some d" "peek b d (out_avail b) = p"
    using out_head by blast
  then show ?case using Cons.IH [OF consume_rep [OF Cons.prems]] by simp
qed simp

text \<open>Submitting a batch that fits appends it.\<close>

fun fill_all :: "'b \<Rightarrow> bytes list \<Rightarrow> 'b option" where
  "fill_all b [] = Some b"
| "fill_all b (p # ps) =
     (if int (length p) \<le> in_avail b then fill_all (submit (fill b p) (int (length p))) ps else None)"

lemma fill_all_rep: "\<lbrakk>rep b qs; fill_all b ps = Some b'\<rbrakk> \<Longrightarrow> rep b' (qs @ ps)"
proof (induction ps arbitrary: b qs)
  case (Cons p ps)
  then show ?case using submit_rep [of b qs p] Cons.IH [of _ "qs @ [p]"] by (auto split: if_splits)
qed simp

lemma fill_drain: "\<lbrakk>rep b []; fill_all b ps = Some b'\<rbrakk> \<Longrightarrow> drain (length ps) b' = ps"
  using fill_all_rep [of b "[]" ps b'] drain_rep by simp

end

section \<open>ChunkBuffer2 meets the contract\<close>

definition cb_peek :: "ChunkBuffer2 \<Rightarrow> int \<Rightarrow> int \<Rightarrow> bytes" where
  "cb_peek buf d n = window (nat d) (nat n) (cb_mem buf)"

lemma cb_avail_dest:
  assumes "cb_rep buf ps" "0 \<le> cb_input_avail buf"
  obtains d where "cb_input_dest buf = Some d"
proof -
  have io: "ChunkBuffer2_update_input buf = buf" using assms(1) by (simp add: cb_rep_def cb_io_def)
  show thesis
    using assms(2) arg_cong [OF io, of cb_input_dest] arg_cong [OF io, of cb_input_avail] that
    by (cases "cb_input_dest buf") (auto simp: ChunkBuffer2_update_input_def Let_def split: if_splits)
qed

lemma cb_output:
  assumes "cb_rep buf ps"
  shows "cb_output_dest buf = (if ps = [] then None else Some (4 * (cb_start buf + 1)))"
    "cb_output_avail buf = (case ps of [] \<Rightarrow> -1 | p # _ \<Rightarrow> int (length p))"
proof -
  have shape: "cb_shape buf" and holds: "cb_holds buf ps" and io: "ChunkBuffer2_update_output buf = buf"
    using assms by (simp_all add: cb_rep_def cb_io_def)
  show "cb_output_dest buf = (if ps = [] then None else Some (4 * (cb_start buf + 1)))"
    "cb_output_avail buf = (case ps of [] \<Rightarrow> -1 | p # _ \<Rightarrow> int (length p))"
    using io cb_holds_Nil [OF shape] cb_holds_Cons(1,2) [OF shape] holds
    by (cases ps; force simp: update_output_fixed_iff)+
qed

lemma Submit_start: "cb_start (ChunkBuffer2_SubmitPacket buf len) = cb_start buf"
  by (simp add: ChunkBuffer2_SubmitPacket_def Let_def)

lemma writes_start: "cb_start (producer_writes buf p) = cb_start buf"
  by (simp add: producer_writes_def split: option.split)

interpretation cbq: packet_fifo cb_rep producer_writes ChunkBuffer2_SubmitPacket ChunkBuffer2_ConsumePacket
  cb_input_dest cb_input_avail cb_output_dest cb_output_avail cb_peek
proof (unfold_locales, goal_cases)
  case (1 b ps)
  then show ?case by (auto elim: cb_avail_dest)
next
  case (2 b ps p)
  then show ?case using cb_avail_dest [of b ps] cb_rep_Submit by (metis of_nat_0_le_iff order_trans)
next
  case (3 b q ps p)
  then have "cb_rep (ChunkBuffer2_SubmitPacket (producer_writes b p) (int (length p))) ((q # ps) @ [p])"
    using cb_avail_dest [of b "q # ps"] cb_rep_Submit by (metis of_nat_0_le_iff order_trans)
  then show ?case using cb_output(1) [OF 3(1)] cb_output(1) by (simp add: Submit_start writes_start)
next
  case (4 b p ps)
  then show ?case by (rule cb_rep_Consume)
next
  case (5 b p ps)
  then show ?case using cb_avail_dest Consume_keeps_input(2) by metis
next
  case (6 b p ps)
  then show ?case using cb_avail_dest Consume_keeps_input(1) by metis
next
  case (7 b)
  then show ?case using cb_output(2) [of b "[]"] by simp
next
  case (8 b p ps)
  then show ?case
    using cb_output [OF 8] cb_holds_Cons(3) [of b p ps] by (simp add: cb_peek_def cb_rep_def)
qed

section \<open>State and handlers\<close>

record PacketBuffer =
  pb_input_mtu :: int
  pb_buf :: ChunkBuffer2

datatype PacketBuffer_call =
    PB_Receiver_Recv "int option"
  | PB_Sender_Send "int option" int

definition PB_input_handler_done :: "PacketBuffer \<Rightarrow> int \<Rightarrow> PacketBuffer \<times> PacketBuffer_call list" where
  "PB_input_handler_done buf in_len =
     (let was_empty = (cb_output_avail (pb_buf buf) < 0);
          cb = ChunkBuffer2_SubmitPacket (pb_buf buf) in_len
      in (buf\<lparr>pb_buf := cb\<rparr>,
          (if cb_input_avail cb \<ge> pb_input_mtu buf then [PB_Receiver_Recv (cb_input_dest cb)] else []) @
          (if was_empty then [PB_Sender_Send (cb_output_dest cb) (cb_output_avail cb)] else [])))"

definition PB_output_handler_done :: "PacketBuffer \<Rightarrow> PacketBuffer \<times> PacketBuffer_call list" where
  "PB_output_handler_done buf =
     (let was_full = (cb_input_avail (pb_buf buf) < pb_input_mtu buf);
          cb = ChunkBuffer2_ConsumePacket (pb_buf buf)
      in (buf\<lparr>pb_buf := cb\<rparr>,
          (if was_full \<and> cb_input_avail cb \<ge> pb_input_mtu buf then [PB_Receiver_Recv (cb_input_dest cb)] else []) @
          (if cb_output_avail cb \<ge> 0 then [PB_Sender_Send (cb_output_dest cb) (cb_output_avail cb)] else [])))"

text \<open>
  \<open>alloc n\<close> stands for \<open>BAllocArray(n, 4)\<close>: \<open>None\<close> when there is no memory, otherwise the
  contents of the fresh block.
\<close>

definition PacketBuffer_Init ::
  "(int \<Rightarrow> bytes option) \<Rightarrow> int \<Rightarrow> int \<Rightarrow> (PacketBuffer \<times> PacketBuffer_call list) option" where
  "PacketBuffer_Init alloc input_mtu num_packets =
     (let num_blocks = ChunkBuffer2_calc_blocks input_mtu num_packets
      in if num_blocks < 0 then None
         else case alloc num_blocks of
           None \<Rightarrow> None
         | Some buf_data \<Rightarrow>
             (let cb = ChunkBuffer2_Init buf_data num_blocks input_mtu
              in Some (\<lparr>pb_input_mtu = input_mtu, pb_buf = cb\<rparr>, [PB_Receiver_Recv (cb_input_dest cb)])))"

section \<open>The buffer between its neighbours\<close>

text \<open>
  The neighbours hold at most one operation each: the receive destination handed to the
  source, and the packet handed to the sink. Starting an operation while one is in progress
  breaks the flow protocol (an assertion of the interfaces); \<open>pb_call\<close> has no result then.
  The histories record what the source wrote and what the sink found in memory when it
  was done.
\<close>

record pb_system =
  sys_buf :: PacketBuffer
  sys_recv :: "int option option"
  sys_send :: "(int option \<times> int) option"
  sys_in :: "bytes list"
  sys_out :: "bytes list"

fun pb_call :: "PacketBuffer_call \<Rightarrow> pb_system \<Rightarrow> pb_system option" where
  "pb_call (PB_Receiver_Recv d) s = (if sys_recv s = None then Some (s\<lparr>sys_recv := Some d\<rparr>) else None)"
| "pb_call (PB_Sender_Send d n) s = (if sys_send s = None then Some (s\<lparr>sys_send := Some (d, n)\<rparr>) else None)"

fun pb_calls :: "PacketBuffer_call list \<Rightarrow> pb_system \<Rightarrow> pb_system option" where
  "pb_calls [] s = Some s"
| "pb_calls (c # cs) s = (case pb_call c s of None \<Rightarrow> None | Some s' \<Rightarrow> pb_calls cs s')"

text \<open>The source completes its receive with packet \<open>p\<close>; the sink completes its send.\<close>

definition pb_source_done :: "bytes \<Rightarrow> pb_system \<Rightarrow> pb_system option" where
  "pb_source_done p s =
     (let b = (sys_buf s)\<lparr>pb_buf := producer_writes (pb_buf (sys_buf s)) p\<rparr>;
          (b', calls) = PB_input_handler_done b (int (length p))
      in pb_calls calls (s\<lparr>sys_buf := b', sys_recv := None, sys_in := sys_in s @ [p]\<rparr>))"

definition pb_sink_done :: "int \<Rightarrow> int \<Rightarrow> pb_system \<Rightarrow> pb_system option" where
  "pb_sink_done d n s =
     (let p = cb_peek (pb_buf (sys_buf s)) d n;
          (b', calls) = PB_output_handler_done (sys_buf s)
      in pb_calls calls (s\<lparr>sys_buf := b', sys_send := None, sys_out := sys_out s @ [p]\<rparr>))"

inductive pb_reach :: "pb_system \<Rightarrow> pb_system \<Rightarrow> bool" for s0 :: pb_system where
  pb_start: "pb_reach s0 s0"
| pb_in: "\<lbrakk>pb_reach s0 s; sys_recv s = Some (Some d); int (length p) \<le> pb_input_mtu (sys_buf s);
    pb_source_done p s = Some s'\<rbrakk> \<Longrightarrow> pb_reach s0 s'"
| pb_out: "\<lbrakk>pb_reach s0 s; sys_send s = Some (Some d, n); pb_sink_done d n s = Some s'\<rbrakk> \<Longrightarrow> pb_reach s0 s'"

definition pb_system_of :: "PacketBuffer \<times> PacketBuffer_call list \<Rightarrow> pb_system option" where
  "pb_system_of r = pb_calls (snd r) \<lparr>sys_buf = fst r, sys_recv = None, sys_send = None, sys_in = [], sys_out = []\<rparr>"

section \<open>The invariant\<close>

definition pb_inv :: "int \<Rightarrow> int \<Rightarrow> pb_system \<Rightarrow> bytes list \<Rightarrow> bool" where
  "pb_inv mtu num s ps \<longleftrightarrow>
     (let cb = pb_buf (sys_buf s)
      in cb_rep cb ps \<and> 0 \<le> mtu \<and> pb_input_mtu (sys_buf s) = mtu \<and> cb_mtu cb = bdivide_up mtu 4 \<and>
         (1 + cb_mtu cb) * (num + 1) \<le> cb_size cb \<and>
         (\<forall>p \<in> set ps. int (length p) \<le> mtu) \<and>
         sys_recv s = (if mtu \<le> cb_input_avail cb then Some (cb_input_dest cb) else None) \<and>
         sys_send s = (if ps = [] then None else Some (cb_output_dest cb, cb_output_avail cb)) \<and>
         sys_in s = sys_out s @ ps)"

lemma pb_inv_source:
  assumes inv: "pb_inv mtu num s ps" and d: "sys_recv s = Some (Some d)" and len: "int (length p) \<le> mtu"
  shows "\<exists>s'. pb_source_done p s = Some s' \<and> pb_inv mtu num s' (ps @ [p])"
proof -
  let ?cb = "pb_buf (sys_buf s)"
  have rep: "cb_rep ?cb ps" and mtu: "mtu \<le> cb_input_avail ?cb"
    using inv d by (auto simp: pb_inv_def Let_def split: if_splits)
  then have fits: "int (length p) \<le> cb_input_avail ?cb" using len by simp
  have out: "cb_output_avail (producer_writes ?cb p) = cb_output_avail ?cb"
    by (simp add: producer_writes_def split: option.split)
  have sub: "cb_rep (ChunkBuffer2_SubmitPacket (producer_writes ?cb p) (int (length p))) (ps @ [p])"
    by (rule cbq.submit_rep [OF rep fits])
  show ?thesis
    using inv len sub cbq.submit_out [of ?cb "hd ps" "tl ps" p, OF _ fits] rep out cbq.out_avail_iff [OF rep]
      cb_output(2) [OF sub] cb_output(2) [OF rep]
    by (cases ps) (auto simp: pb_inv_def pb_source_done_def PB_input_handler_done_def Let_def)
qed

lemma pb_inv_sink:
  assumes inv: "pb_inv mtu num s ps" and d: "sys_send s = Some (Some d, n)"
  shows "\<exists>s'. pb_sink_done d n s = Some s' \<and> pb_inv mtu num s' (tl ps)"
proof -
  let ?cb = "pb_buf (sys_buf s)"
  obtain p qs where ps: "ps = p # qs" and rep: "cb_rep ?cb (p # qs)"
    using inv d by (cases ps) (auto simp: pb_inv_def Let_def)
  have n: "n = cb_output_avail ?cb" "cb_output_dest ?cb = Some d"
    using inv d ps by (auto simp: pb_inv_def Let_def)
  have con: "cb_rep (ChunkBuffer2_ConsumePacket ?cb) qs" by (rule cbq.consume_rep [OF rep])
  have peek: "cb_peek ?cb d n = p" using cbq.peek_head [OF rep n(2)] n(1) by simp
  have "0 \<le> mtu" using inv by (simp add: pb_inv_def Let_def)
  then show ?thesis
    using inv ps con peek cbq.consume_in_avail [OF rep] cbq.consume_in_dest [OF rep] cbq.out_avail_iff [OF con]
    by (auto simp: pb_inv_def pb_sink_done_def PB_output_handler_done_def Let_def)
qed


definition alloc_ok :: "(int \<Rightarrow> bytes option) \<Rightarrow> bool" where
  "alloc_ok alloc \<longleftrightarrow> (\<forall>n m. alloc n = Some m \<longrightarrow> length m = nat (4 * n) \<and> 4 * n \<le> INT_MAX)"

lemma pb_inv_Init:
  assumes "PacketBuffer_Init alloc mtu num = Some r" "alloc_ok alloc" "0 \<le> mtu" "0 < num"
  shows "\<exists>s0. pb_system_of r = Some s0 \<and> pb_inv mtu num s0 []"
proof -
  define n where "n = ChunkBuffer2_calc_blocks mtu num"
  obtain mem where n: "0 \<le> n" and mem: "alloc n = Some mem"
    and r: "r = (\<lparr>pb_input_mtu = mtu, pb_buf = ChunkBuffer2_Init mem n mtu\<rparr>,
        [PB_Receiver_Recv (cb_input_dest (ChunkBuffer2_Init mem n mtu))])"
    using assms(1) by (auto simp: PacketBuffer_Init_def n_def Let_def split: if_splits option.splits)
  let ?cb = "ChunkBuffer2_Init mem n mtu"
  have blocks: "n = (1 + bdivide_up mtu 4) * (num + 1)"
    using calc_blocks_spec [OF assms(3) _ n_def [symmetric]] n assms(4) by simp
  have m: "0 \<le> bdivide_up mtu 4" "mtu \<le> 4 * bdivide_up mtu 4" using bdivide_up_4 [OF assms(3)] by auto
  have "(1 + bdivide_up mtu 4) * 1 \<le> n" unfolding blocks using assms(4) m by (intro mult_left_mono) auto
  then have rep: "cb_rep ?cb []"
    using assms(2,3) mem m by (intro cb_rep_Init) (auto simp: alloc_ok_def)
  have fields: "cb_mtu ?cb = bdivide_up mtu 4" "cb_size ?cb = n" by (simp_all add: ChunkBuffer2_Init_def)
  have "4 * cb_mtu ?cb \<le> cb_input_avail ?cb"
    using cb_room [OF rep] cb_empty_not_wrapped [OF rep] by simp
  then show ?thesis
    using rep assms(3) m fields blocks by (simp add: pb_system_of_def r pb_inv_def)
qed

lemma pb_inv_reach:
  assumes "pb_reach s0 s" "pb_inv mtu num s0 []"
  shows "\<exists>ps. pb_inv mtu num s ps"
  using assms
proof (induction rule: pb_reach.induct)
  case (pb_in s d p s')
  then obtain ps where inv: "pb_inv mtu num s ps" by blast
  moreover from inv have "pb_input_mtu (sys_buf s) = mtu" by (simp add: pb_inv_def Let_def)
  ultimately show ?case using pb_inv_source [OF inv pb_in.hyps(2)] pb_in.hyps(3,4) by (metis option.inject)
next
  case (pb_out s d n s')
  then show ?case using pb_inv_sink by fastforce
qed blast

lemma pb_inv_send: "pb_inv mtu num s ps \<Longrightarrow> sys_send s = None \<longleftrightarrow> ps = []"
  by (simp add: pb_inv_def Let_def)

lemma pb_inv_send_some: "pb_inv mtu num s ps \<Longrightarrow> sys_send s = Some x \<Longrightarrow> \<exists>d n. x = (Some d, n)"
  using cb_output(1) by (auto simp: pb_inv_def Let_def split: if_splits)

text \<open>Fewer packets than asked for: a receive is always in progress.\<close>

lemma pb_inv_room:
  assumes inv: "pb_inv mtu num s ps" and few: "int (length ps) < num"
  shows "\<exists>d. sys_recv s = Some (Some d)"
proof -
  let ?cb = "pb_buf (sys_buf s)"
  have rep: "cb_rep ?cb ps" and mtu: "0 \<le> mtu" and m: "cb_mtu ?cb = bdivide_up mtu 4"
    and size: "(1 + cb_mtu ?cb) * (num + 1) \<le> cb_size ?cb" and le: "\<forall>p \<in> set ps. int (length p) \<le> mtu"
    and recv: "sys_recv s = (if mtu \<le> cb_input_avail ?cb then Some (cb_input_dest ?cb) else None)"
    using inv unfolding pb_inv_def Let_def by blast+
  have "\<forall>p \<in> set ps. blocks_of p \<le> 1 + cb_mtu ?cb"
    using le m by (auto simp: blocks_of_def intro!: bdivide_up_mono)
  then have "\<not> cb_wrapped ?cb \<or> cb_mtu ?cb < cb_start ?cb - ChunkBuffer2_end ?cb"
    by (rule cb_capacity [OF rep _ few size])
  from cb_room [OF rep this] show ?thesis using recv m bdivide_up_4 [OF mtu] by simp
qed

section \<open>Properties\<close>

text \<open>
  C32. The packet buffer is a lossless first-in first-out queue: in every state reached from a
  successful \<open>PacketBuffer_Init\<close> by completed receives (of packets up to the MTU) and
  completed sends, the packets the source delivered are those the sink got, unaltered and in
  the same order, followed by the packets still queued. While fewer than \<open>num_packets\<close> are
  queued a receive is in progress; while any is queued a send is.
\<close>

theorem packet_buffer_fifo:
  assumes "PacketBuffer_Init alloc mtu num = Some r" "alloc_ok alloc" "0 \<le> mtu" "0 < num"
    and "pb_system_of r = Some s0" "pb_reach s0 s"
  shows "\<exists>ps. sys_in s = sys_out s @ ps \<and> (sys_send s \<noteq> None \<longleftrightarrow> ps \<noteq> []) \<and>
    (int (length ps) < num \<longrightarrow> sys_recv s \<noteq> None)"
proof -
  obtain ps where inv: "pb_inv mtu num s ps"
    using pb_inv_Init [OF assms(1-4)] pb_inv_reach [OF assms(6)] assms(5) by auto
  then have "sys_in s = sys_out s @ ps" by (simp add: pb_inv_def Let_def)
  then show ?thesis using pb_inv_send [OF inv] pb_inv_room [OF inv] by fastforce
qed

definition pb_demo_alloc :: "int \<Rightarrow> bytes option" where
  "pb_demo_alloc n = (if 4 * n \<le> INT_MAX then Some (replicate (nat (4 * n)) 0) else None)"

definition pb_demo :: pb_system where
  "pb_demo = (case PacketBuffer_Init pb_demo_alloc 4 1 of None \<Rightarrow> undefined
     | Some r \<Rightarrow> (case pb_system_of r of None \<Rightarrow> undefined | Some s \<Rightarrow> s))"

lemma pb_demo_alloc_ok: "alloc_ok pb_demo_alloc"
  by (simp add: alloc_ok_def pb_demo_alloc_def)

lemmas pb_eval = pb_demo_alloc_def PacketBuffer_Init_def ChunkBuffer2_calc_blocks_def bdivide_up_def
  ChunkBuffer2_Init_def ChunkBuffer2_update_input_def ChunkBuffer2_update_output_def ChunkBuffer2_end_def
  pb_system_of_def pb_source_done_def PB_input_handler_done_def ChunkBuffer2_SubmitPacket_def
  producer_writes_def pb_sink_done_def PB_output_handler_done_def ChunkBuffer2_ConsumePacket_def

theorem packet_buffer_fifo_witness:
  "\<exists>ps. sys_in (the (pb_source_done [1, 2] pb_demo)) = sys_out (the (pb_source_done [1, 2] pb_demo)) @ ps \<and>
     (sys_send (the (pb_source_done [1, 2] pb_demo)) \<noteq> None \<longleftrightarrow> ps \<noteq> []) \<and>
     (int (length ps) < 1 \<longrightarrow> sys_recv (the (pb_source_done [1, 2] pb_demo)) \<noteq> None)"
proof -
  obtain r where r: "PacketBuffer_Init pb_demo_alloc 4 1 = Some r" "pb_system_of r = Some pb_demo"
    by (simp add: pb_demo_def pb_eval)
  have recv: "sys_recv pb_demo = Some (Some 4)" "pb_input_mtu (sys_buf pb_demo) = 4"
    by (simp_all add: pb_demo_def pb_eval)
  have "pb_inv 4 1 pb_demo []" using pb_inv_Init [OF r(1) pb_demo_alloc_ok] r(2) by simp
  from pb_inv_source [OF this recv(1), of "[1, 2]"]
  have "\<exists>s'. pb_source_done [1, 2] pb_demo = Some s'" by auto
  then have "pb_reach pb_demo (the (pb_source_done [1, 2] pb_demo))"
    using pb_in [OF pb_start recv(1), of "[1, 2]"] recv(2) by auto
  from packet_buffer_fifo [OF r(1) pb_demo_alloc_ok _ _ r(2) this] show ?thesis by simp
qed

text \<open>
  The packet buffer obeys the flow protocol and never stalls: in every reachable state a
  receive or a send is in progress, the completion of the receive with any packet up to the
  MTU and the completion of the send are both handled, and neither handler starts an
  operation on a neighbour that is still busy.
\<close>

theorem packet_buffer_live:
  assumes "PacketBuffer_Init alloc mtu num = Some r" "alloc_ok alloc" "0 \<le> mtu" "0 < num"
    and "pb_system_of r = Some s0" "pb_reach s0 s"
  shows "(sys_recv s \<noteq> None \<or> sys_send s \<noteq> None) \<and>
    (\<forall>p. sys_recv s \<noteq> None \<and> int (length p) \<le> mtu \<longrightarrow> pb_source_done p s \<noteq> None) \<and>
    (\<forall>x. sys_send s = Some x \<longrightarrow> (\<exists>d. fst x = Some d \<and> pb_sink_done d (snd x) s \<noteq> None))"
proof -
  obtain ps where inv: "pb_inv mtu num s ps"
    using pb_inv_Init [OF assms(1-4)] pb_inv_reach [OF assms(6)] assms(5) by auto
  have recv: "\<exists>d. sys_recv s = Some (Some d)" if "sys_recv s \<noteq> None"
    using that inv cb_avail_dest [of "pb_buf (sys_buf s)" ps] by (fastforce simp: pb_inv_def Let_def split: if_splits)
  have "sys_recv s \<noteq> None \<or> sys_send s \<noteq> None"
    using pb_inv_send [OF inv] pb_inv_room [OF inv] assms(4) by fastforce
  moreover have "pb_source_done p s \<noteq> None" if "sys_recv s \<noteq> None" "int (length p) \<le> mtu" for p
    using recv [OF that(1)] pb_inv_source [OF inv _ that(2)] by auto
  moreover have "\<exists>d. fst x = Some d \<and> pb_sink_done d (snd x) s \<noteq> None" if "sys_send s = Some x" for x
    using pb_inv_send_some [OF inv that] pb_inv_sink [OF inv] that by fastforce
  ultimately show ?thesis by blast
qed

theorem packet_buffer_live_witness:
  "sys_recv pb_demo \<noteq> None \<and> pb_source_done [7, 8, 9] pb_demo \<noteq> None"
proof -
  obtain r where r: "PacketBuffer_Init pb_demo_alloc 4 1 = Some r" "pb_system_of r = Some pb_demo"
    by (simp add: pb_demo_def pb_eval)
  have recv: "sys_recv pb_demo \<noteq> None" by (simp add: pb_demo_def pb_eval)
  have "int (length [7, 8, 9 :: byte]) \<le> 4" by simp
  with recv packet_buffer_live [OF r(1) pb_demo_alloc_ok _ _ r(2) pb_start] show ?thesis by simp
qed

text \<open>
  Filling a \<open>ChunkBuffer2\<close> and draining it gives the packets back: whatever batch of
  packets is submitted to a freshly initialised buffer, each while it fits \<open>input_avail\<close>,
  reading and consuming as many packets from \<open>output_dest\<close> yields the batch.
\<close>

theorem chunk_buffer_roundtrip:
  assumes "1 + bdivide_up mtu 4 \<le> blocks" "0 \<le> mtu" "length mem = nat (4 * blocks)" "4 * blocks \<le> INT_MAX"
    and "cbq.fill_all (ChunkBuffer2_Init mem blocks mtu) ps = Some buf"
  shows "cbq.drain (length ps) buf = ps"
  using cbq.fill_drain [OF cb_rep_Init [OF assms(1-4)] assms(5)] .

theorem chunk_buffer_roundtrip_witness:
  "cbq.fill_all (ChunkBuffer2_Init (replicate 24 0) 6 4) [[1, 2, 3], [4]] \<noteq> None \<and>
   cbq.drain 2 (the (cbq.fill_all (ChunkBuffer2_Init (replicate 24 0) 6 4) [[1, 2, 3], [4]])) = [[1, 2, 3], [4]]"
proof -
  have "\<exists>b. cbq.fill_all (ChunkBuffer2_Init (replicate 24 0) 6 4) [[1, 2, 3], [4]] = Some b"
    by (simp add: pb_eval)
  then obtain b where "cbq.fill_all (ChunkBuffer2_Init (replicate 24 0) 6 4) [[1, 2, 3], [4]] = Some b" by blast
  moreover from chunk_buffer_roundtrip [OF _ _ _ _ this]
  have "cbq.drain (length [[1, 2, 3], [4 :: byte]]) b = [[1, 2, 3], [4]]" by (simp only: bdivide_up_def) simp
  ultimately show ?thesis by (simp del: cbq.fill_all.simps add: numeral_2_eq_2)
qed

end
