(* ===== verification/BPending.thy ===== *)
theory BPending
  imports Prelude
begin

text \<open>
  The job queue of \<open>base/BPending.c\<close>, on which every asynchronous call of badvpn rests, and the
  list of \<open>structure/SLinkedList_impl.h\<close> it is kept in. The list lives in a store of \<open>next\<close> and
  \<open>prev\<close> pointers, one node per job object; a node that is in no list points to itself. The
  main result is that this pointer structure implements a stack of jobs without duplicates: the
  job set last runs first, setting a pending job again moves it to the front, and no operation
  follows a null pointer or violates an assertion as long as it is applied to initialised jobs.
  The laws the flow interfaces rely on are the locale \<open>job_stack\<close>.
\<close>

section \<open>SLinkedList\<close>

text \<open>
  Nodes are named by elements of \<open>'e\<close>; the null pointer is \<open>None\<close>. The instance is the one
  \<open>base/BPending_list.h\<close> makes, without the \<open>last\<close> pointer. An operation that follows a null
  pointer has no result. \<open>InsertBefore\<close> and \<open>InsertAfter\<close>, which the job queue does not use, are left out.
\<close>

record 'e SLinkedList =
  sl_first :: "'e option"
  sl_next :: "'e \<Rightarrow> 'e option"
  sl_prev :: "'e \<Rightarrow> 'e option"

definition SLinkedListMarkRemoved :: "'e \<Rightarrow> 'e SLinkedList \<Rightarrow> 'e SLinkedList" where
  "SLinkedListMarkRemoved entry l = l\<lparr>sl_next := (sl_next l)(entry := Some entry)\<rparr>"

definition SLinkedListIsRemoved :: "'e \<Rightarrow> 'e SLinkedList \<Rightarrow> bool" where
  "SLinkedListIsRemoved entry l \<longleftrightarrow> Some entry = sl_next l entry"

definition SLinkedList_Init :: "'e SLinkedList \<Rightarrow> 'e SLinkedList" where
  "SLinkedList_Init l = l\<lparr>sl_first := None\<rparr>"

definition SLinkedList_Next :: "'e \<Rightarrow> 'e SLinkedList \<Rightarrow> 'e option" where
  "SLinkedList_Next entry l = sl_next l entry"

definition SLinkedList_Prev :: "'e \<Rightarrow> 'e SLinkedList \<Rightarrow> 'e option" where
  "SLinkedList_Prev entry l = (if Some entry = sl_first l then None else sl_prev l entry)"

definition SLinkedList_Prepend :: "'e \<Rightarrow> 'e SLinkedList \<Rightarrow> 'e SLinkedList" where
  "SLinkedList_Prepend entry l =
     (let l = l\<lparr>sl_next := (sl_next l)(entry := sl_first l)\<rparr>;
          l = (case sl_first l of
                 Some f \<Rightarrow> l\<lparr>sl_prev := (sl_prev l)(f := Some entry)\<rparr>
               | None \<Rightarrow> l)
      in l\<lparr>sl_first := Some entry\<rparr>)"

definition SLinkedList_Remove :: "'e \<Rightarrow> 'e SLinkedList \<Rightarrow> 'e SLinkedList option" where
  "SLinkedList_Remove entry l =
     (if Some entry \<noteq> sl_first l
      then do { p \<leftarrow> sl_prev l entry;
                let l = l\<lparr>sl_next := (sl_next l)(p := sl_next l entry)\<rparr>;
                Some (case sl_next l entry of
                        Some n \<Rightarrow> l\<lparr>sl_prev := (sl_prev l)(n := sl_prev l entry)\<rparr>
                      | None \<Rightarrow> l) }
      else Some (l\<lparr>sl_first := sl_next l entry\<rparr>))"

definition SLinkedList_RemoveFirst :: "'e SLinkedList \<Rightarrow> 'e SLinkedList option" where
  "SLinkedList_RemoveFirst l =
     do { f \<leftarrow> sl_first l; Some (l\<lparr>sl_first := sl_next l f\<rparr>) }"

definition SLinkedList_First :: "'e SLinkedList \<Rightarrow> 'e option" where
  "SLinkedList_First l = sl_first l"

definition SLinkedList_IsEmpty :: "'e SLinkedList \<Rightarrow> bool" where
  "SLinkedList_IsEmpty l \<longleftrightarrow> sl_first l = None"

lemmas slist_defs = SLinkedListMarkRemoved_def SLinkedListIsRemoved_def SLinkedList_Init_def SLinkedList_Prepend_def
  SLinkedList_RemoveFirst_def SLinkedList_First_def SLinkedList_IsEmpty_def SLinkedList_Next_def SLinkedList_Prev_def

section \<open>What a list in the store holds\<close>

text \<open>
  \<open>chain nx pv p xs\<close>: following \<open>nx\<close> from \<open>p\<close> visits \<open>xs\<close> and ends in the null pointer, and
  every entry but the first has its predecessor in \<open>pv\<close>. The \<open>prev\<close> pointer of the first
  entry is not used by the code and may hold anything.
\<close>

fun chain :: "('e \<Rightarrow> 'e option) \<Rightarrow> ('e \<Rightarrow> 'e option) \<Rightarrow> 'e option \<Rightarrow> 'e list \<Rightarrow> bool" where
  "chain nx pv p [] \<longleftrightarrow> p = None"
| "chain nx pv p [x] \<longleftrightarrow> p = Some x \<and> nx x = None"
| "chain nx pv p (x # y # zs) \<longleftrightarrow> p = Some x \<and> pv y = Some x \<and> chain nx pv (nx x) (y # zs)"

definition slist_rep :: "'e SLinkedList \<Rightarrow> 'e list \<Rightarrow> bool" where
  "slist_rep l xs \<longleftrightarrow> chain (sl_next l) (sl_prev l) (sl_first l) xs \<and> distinct xs"

lemma chain_Cons:
  "chain nx pv p (x # xs) \<longleftrightarrow> p = Some x \<and> chain nx pv (nx x) xs \<and> (xs \<noteq> [] \<longrightarrow> pv (hd xs) = Some x)"
  by (cases xs) auto

lemma chain_head: "chain nx pv p xs \<Longrightarrow> p = (if xs = [] then None else Some (hd xs))"
  by (cases xs) (auto simp: chain_Cons)

lemma chain_frame:
  "\<lbrakk>chain nx pv p xs; \<forall>x \<in> set xs. nx' x = nx x; \<forall>x \<in> set (tl xs). pv' x = pv x\<rbrakk> \<Longrightarrow> chain nx' pv' p xs"
proof (induction xs arbitrary: p)
  case (Cons x xs)
  then show ?case by (cases xs) (auto simp: chain_Cons)
qed simp

lemma chain_append:
  "chain nx pv p (xs @ y # ys) \<longleftrightarrow>
     chain (nx(last xs := None)) pv p xs \<and> nx (last xs) = Some y \<and> pv y = Some (last xs) \<and> chain nx pv (Some y) (y # ys)"
  if "xs \<noteq> []" "distinct xs"
  using that
proof (induction xs arbitrary: p rule: list_nonempty_induct)
  case (single x)
  then show ?case by (auto simp: chain_Cons)
next
  case (cons x xs)
  then have "x \<noteq> last xs" using last_in_set [of xs] by auto
  then show ?case using cons by (cases xs) (auto simp: chain_Cons)
qed

lemma chain_not_self: "\<lbrakk>chain nx pv p xs; distinct xs; x \<in> set xs\<rbrakk> \<Longrightarrow> nx x \<noteq> Some x"
proof (induction xs arbitrary: p)
  case (Cons y ys)
  then show ?case using chain_head [of nx pv "nx y" ys] by (cases ys) (auto simp: chain_Cons split: if_splits)
qed simp

lemma slist_rep_first: "slist_rep l xs \<Longrightarrow> sl_first l = (if xs = [] then None else Some (hd xs))"
  using chain_head [of "sl_next l" "sl_prev l" "sl_first l" xs] by (simp add: slist_rep_def)

lemma slist_in_list: "\<lbrakk>slist_rep l xs; x \<in> set xs\<rbrakk> \<Longrightarrow> \<not> SLinkedListIsRemoved x l"
  using chain_not_self by (fastforce simp: slist_rep_def SLinkedListIsRemoved_def)

lemma slist_IsEmpty: "slist_rep l xs \<Longrightarrow> SLinkedList_IsEmpty l \<longleftrightarrow> xs = []"
  by (auto simp: SLinkedList_IsEmpty_def slist_rep_first)

lemma slist_Init: "slist_rep (SLinkedList_Init l) []"
  by (simp add: slist_rep_def SLinkedList_Init_def)

lemma slist_MarkRemoved: "\<lbrakk>slist_rep l xs; x \<notin> set xs\<rbrakk> \<Longrightarrow> slist_rep (SLinkedListMarkRemoved x l) xs"
  by (auto simp: slist_rep_def SLinkedListMarkRemoved_def intro!: chain_frame [of "sl_next l" "sl_prev l"])

lemma slist_Prepend:
  assumes "slist_rep l xs" "x \<notin> set xs"
  shows "slist_rep (SLinkedList_Prepend x l) (x # xs)"
    "sl_next (SLinkedList_Prepend x l) = (sl_next l)(x := sl_first l)"
proof -
  have f: "sl_first l = (if xs = [] then None else Some (hd xs))" by (rule slist_rep_first [OF assms(1)])
  have ch: "chain (sl_next l) (sl_prev l) (sl_first l) xs" and d: "distinct xs" using assms by (auto simp: slist_rep_def)
  have "chain ((sl_next l)(x := sl_first l)) ((sl_prev l)(hd xs := Some x)) (sl_first l) xs" if "xs \<noteq> []"
    using assms(2) d that by (intro chain_frame [OF ch]) (cases xs; auto)+
  then show "slist_rep (SLinkedList_Prepend x l) (x # xs)"
    using assms(2) f d by (cases "xs = []") (simp_all add: slist_rep_def SLinkedList_Prepend_def Let_def chain_Cons)
  show "sl_next (SLinkedList_Prepend x l) = (sl_next l)(x := sl_first l)"
    by (simp add: SLinkedList_Prepend_def Let_def split: option.split)
qed

lemma slist_RemoveFirst:
  assumes "slist_rep l (x # xs)"
  shows "\<exists>l'. SLinkedList_RemoveFirst l = Some l' \<and> slist_rep l' xs \<and> sl_next l' = sl_next l"
  using assms by (auto simp: slist_rep_def SLinkedList_RemoveFirst_def chain_Cons)

lemma slist_Remove:
  assumes rep: "slist_rep l xs" and x: "x \<in> set xs"
  shows "\<exists>l'. SLinkedList_Remove x l = Some l' \<and> slist_rep l' (remove1 x xs) \<and>
    (\<forall>y. y \<notin> set xs \<longrightarrow> sl_next l' y = sl_next l y)"
proof (cases "sl_first l = Some x")
  case True
  with rep x obtain ys where "xs = x # ys" using slist_rep_first [OF rep] by (cases xs) auto
  with rep True show ?thesis by (auto simp: SLinkedList_Remove_def slist_rep_def chain_Cons)
next
  case False
  obtain as bs where xs: "xs = as @ x # bs" "x \<notin> set as" using x by (meson split_list_first)
  with False have as: "as \<noteq> []" using slist_rep_first [OF rep] by auto
  let ?p = "last as"
  have d: "distinct as" "distinct bs" "x \<notin> set bs" "set as \<inter> set bs = {}" "distinct xs"
    using rep xs by (auto simp: slist_rep_def)
  have ch: "chain ((sl_next l)(?p := None)) (sl_prev l) (sl_first l) as" "sl_next l ?p = Some x" "sl_prev l x = Some ?p"
    "chain (sl_next l) (sl_prev l) (Some x) (x # bs)"
    using rep chain_append [OF as d(1)] by (auto simp: slist_rep_def xs)
  have p: "?p \<in> set as" "?p \<noteq> x" using as xs by auto
  have rem: "remove1 x xs = as @ bs" using xs by (simp add: remove1_append)
  show ?thesis
  proof (cases bs)
    case Nil
    have "chain ((sl_next l)(?p := None)) (sl_prev l) (sl_first l) as" by (rule ch(1))
    then show ?thesis
      using False ch p rem Nil d by (auto simp: SLinkedList_Remove_def slist_rep_def)
  next
    case (Cons b cs)
    let ?nx = "(sl_next l)(?p := Some b)" and ?pv = "(sl_prev l)(b := Some ?p)"
    have b: "sl_next l x = Some b" "chain (sl_next l) (sl_prev l) (Some b) (b # cs)" "b \<notin> set as"
      using ch(4) Cons d chain_head [of "sl_next l" "sl_prev l" "sl_next l x" bs] by (auto simp: chain_Cons)
    have "chain (?nx(?p := None)) ?pv (sl_first l) as"
      using b(3) by (intro chain_frame [OF ch(1)]) (auto dest: list.set_sel(2) [OF as])
    moreover have "chain ?nx ?pv (Some b) (b # cs)"
      using d p Cons by (intro chain_frame [OF b(2)]) auto
    ultimately have "chain ?nx ?pv (sl_first l) (as @ b # cs)"
      using chain_append [OF as d(1), of ?nx ?pv "sl_first l" b cs] by simp
    then show ?thesis
      using False ch p rem Cons d b by (auto simp: SLinkedList_Remove_def slist_rep_def xs(1))
  qed
qed


section \<open>Job groups\<close>

text \<open>
  A group with the job objects that were initialised in it: \<open>pg_handler\<close> has the handler and its
  argument of an initialised object (one whose debug object is valid), \<open>None\<close> for other memory;
  \<open>pg_pending\<close> and \<open>pg_ctr\<close> are the fields that exist only without \<open>NDEBUG\<close>. Assertions are
  checked, although the build defines \<open>NDEBUG\<close>: the results show that they hold.
\<close>

record ('e, 'h) BPendingGroup =
  pg_jobs :: "'e SLinkedList"
  pg_handler :: "'e \<rightharpoonup> 'h"
  pg_pending :: "'e \<Rightarrow> bool"
  pg_ctr :: int

definition DebugCounter_Increment :: "int \<Rightarrow> int option" where
  "DebugCounter_Increment c = do { ASSERT (0 \<le> c); Some (if c \<noteq> INT_MAX then c + 1 else c) }"

definition DebugCounter_Decrement :: "int \<Rightarrow> int option" where
  "DebugCounter_Decrement c = do { ASSERT (0 < c); Some (if c \<noteq> INT_MAX then c - 1 else c) }"

definition DebugCounter_Free :: "int \<Rightarrow> unit option" where
  "DebugCounter_Free c = ASSERT (c = 0 \<or> c = INT_MAX)"

definition BPendingGroup_Init :: "('e, 'h) BPendingGroup \<Rightarrow> ('e, 'h) BPendingGroup" where
  "BPendingGroup_Init g = g\<lparr>pg_jobs := SLinkedList_Init (pg_jobs g), pg_handler := Map.empty, pg_ctr := 0\<rparr>"

definition BPendingGroup_Free :: "('e, 'h) BPendingGroup \<Rightarrow> unit option" where
  "BPendingGroup_Free g = do { DebugCounter_Free (pg_ctr g); ASSERT (SLinkedList_IsEmpty (pg_jobs g)) }"

definition BPendingGroup_HasJobs :: "('e, 'h) BPendingGroup \<Rightarrow> bool" where
  "BPendingGroup_HasJobs g \<longleftrightarrow> \<not> SLinkedList_IsEmpty (pg_jobs g)"

text \<open>The handler is called last, so \<open>ExecuteJob\<close> returns it with the group it runs on.\<close>

definition BPendingGroup_ExecuteJob :: "('e, 'h) BPendingGroup \<Rightarrow> ('h \<times> ('e, 'h) BPendingGroup) option" where
  "BPendingGroup_ExecuteJob g =
     do { ASSERT (\<not> SLinkedList_IsEmpty (pg_jobs g));
          p \<leftarrow> SLinkedList_First (pg_jobs g);
          ASSERT (\<not> SLinkedListIsRemoved p (pg_jobs g));
          ASSERT (pg_pending g p);
          jobs \<leftarrow> SLinkedList_RemoveFirst (pg_jobs g);
          h \<leftarrow> pg_handler g p;
          Some (h, g\<lparr>pg_jobs := SLinkedListMarkRemoved p jobs, pg_pending := (pg_pending g)(p := False)\<rparr>) }"

definition BPendingGroup_PeekJob :: "('e, 'h) BPendingGroup \<Rightarrow> 'e option" where
  "BPendingGroup_PeekJob g = SLinkedList_First (pg_jobs g)"

definition BSmallPending_Init :: "'e \<Rightarrow> 'h \<Rightarrow> ('e, 'h) BPendingGroup \<Rightarrow> ('e, 'h) BPendingGroup option" where
  "BSmallPending_Init e h g =
     do { ctr \<leftarrow> DebugCounter_Increment (pg_ctr g);
          Some (g\<lparr>pg_handler := (pg_handler g)(e \<mapsto> h), pg_jobs := SLinkedListMarkRemoved e (pg_jobs g),
                  pg_pending := (pg_pending g)(e := False), pg_ctr := ctr\<rparr>) }"

definition pg_access :: "'e \<Rightarrow> ('e, 'h) BPendingGroup \<Rightarrow> unit option" where
  "pg_access e g =
     do { ASSERT (pg_handler g e \<noteq> None); ASSERT (pg_pending g e = (\<not> SLinkedListIsRemoved e (pg_jobs g))) }"

definition pg_unlink :: "'e \<Rightarrow> ('e, 'h) BPendingGroup \<Rightarrow> 'e SLinkedList option" where
  "pg_unlink e g =
     (if \<not> SLinkedListIsRemoved e (pg_jobs g) then SLinkedList_Remove e (pg_jobs g) else Some (pg_jobs g))"

definition BSmallPending_Free :: "'e \<Rightarrow> ('e, 'h) BPendingGroup \<Rightarrow> ('e, 'h) BPendingGroup option" where
  "BSmallPending_Free e g =
     do { ctr \<leftarrow> DebugCounter_Decrement (pg_ctr g);
          pg_access e g;
          jobs \<leftarrow> pg_unlink e g;
          Some (g\<lparr>pg_jobs := jobs, pg_handler := (pg_handler g)(e := None), pg_ctr := ctr\<rparr>) }"

definition BSmallPending_SetHandler :: "'e \<Rightarrow> 'h \<Rightarrow> ('e, 'h) BPendingGroup \<Rightarrow> ('e, 'h) BPendingGroup option" where
  "BSmallPending_SetHandler e h g =
     do { ASSERT (pg_handler g e \<noteq> None); Some (g\<lparr>pg_handler := (pg_handler g)(e \<mapsto> h)\<rparr>) }"

definition BSmallPending_Set :: "'e \<Rightarrow> ('e, 'h) BPendingGroup \<Rightarrow> ('e, 'h) BPendingGroup option" where
  "BSmallPending_Set e g =
     do { pg_access e g;
          jobs \<leftarrow> pg_unlink e g;
          Some (g\<lparr>pg_jobs := SLinkedList_Prepend e jobs, pg_pending := (pg_pending g)(e := True)\<rparr>) }"

definition BSmallPending_Unset :: "'e \<Rightarrow> ('e, 'h) BPendingGroup \<Rightarrow> ('e, 'h) BPendingGroup option" where
  "BSmallPending_Unset e g =
     do { pg_access e g;
          if \<not> SLinkedListIsRemoved e (pg_jobs g)
          then do { jobs \<leftarrow> SLinkedList_Remove e (pg_jobs g);
                    Some (g\<lparr>pg_jobs := SLinkedListMarkRemoved e jobs, pg_pending := (pg_pending g)(e := False)\<rparr>) }
          else Some g }"

definition BSmallPending_IsSet :: "'e \<Rightarrow> ('e, 'h) BPendingGroup \<Rightarrow> bool option" where
  "BSmallPending_IsSet e g = do { pg_access e g; Some (\<not> SLinkedListIsRemoved e (pg_jobs g)) }"

text \<open>
  \<open>BPending\<close> is a \<open>BSmallPending\<close> that remembers its group. The programs have one group, that of
  the reactor, so the \<open>g\<close> field of every such object is the group of the model.
\<close>

definition BPending_Init :: "'e \<Rightarrow> 'h \<Rightarrow> ('e, 'h) BPendingGroup \<Rightarrow> ('e, 'h) BPendingGroup option" where
  "BPending_Init e h g = BSmallPending_Init e h g"

definition BPending_Free :: "'e \<Rightarrow> ('e, 'h) BPendingGroup \<Rightarrow> ('e, 'h) BPendingGroup option" where
  "BPending_Free e g = BSmallPending_Free e g"

definition BPending_Set :: "'e \<Rightarrow> ('e, 'h) BPendingGroup \<Rightarrow> ('e, 'h) BPendingGroup option" where
  "BPending_Set e g = BSmallPending_Set e g"

definition BPending_Unset :: "'e \<Rightarrow> ('e, 'h) BPendingGroup \<Rightarrow> ('e, 'h) BPendingGroup option" where
  "BPending_Unset e g = BSmallPending_Unset e g"

definition BPending_IsSet :: "'e \<Rightarrow> ('e, 'h) BPendingGroup \<Rightarrow> bool option" where
  "BPending_IsSet e g = BSmallPending_IsSet e g"

section \<open>The stack a group represents\<close>

text \<open>
  \<open>m\<close> has the handlers of the initialised jobs, \<open>js\<close> the pending ones, the next to run first.
\<close>

definition pg_rep :: "('e, 'h) BPendingGroup \<Rightarrow> ('e \<rightharpoonup> 'h) \<Rightarrow> 'e list \<Rightarrow> bool" where
  "pg_rep g m js \<longleftrightarrow>
     slist_rep (pg_jobs g) js \<and> pg_handler g = m \<and> finite (dom m) \<and> set js \<subseteq> dom m \<and>
     (\<forall>e \<in> dom m. pg_pending g e = (e \<in> set js) \<and> SLinkedListIsRemoved e (pg_jobs g) = (e \<notin> set js)) \<and>
     (pg_ctr g = INT_MAX \<or> pg_ctr g = int (card (dom m)))"

lemma pg_repD:
  assumes "pg_rep g m js"
  shows "slist_rep (pg_jobs g) js" "pg_handler g = m" "finite (dom m)" "set js \<subseteq> dom m" "distinct js"
    "pg_ctr g = INT_MAX \<or> pg_ctr g = int (card (dom m))"
    "e \<in> dom m \<Longrightarrow> pg_pending g e = (e \<in> set js)" "e \<in> dom m \<Longrightarrow> SLinkedListIsRemoved e (pg_jobs g) = (e \<notin> set js)"
  using assms by (auto simp: pg_rep_def slist_rep_def)

lemma IsRemoved_iff: "SLinkedListIsRemoved e l \<longleftrightarrow> sl_next l e = Some e"
  by (auto simp: SLinkedListIsRemoved_def)

lemma pg_access_ok: "\<lbrakk>pg_rep g m js; m e \<noteq> None\<rbrakk> \<Longrightarrow> pg_access e g = Some ()"
  using pg_repD(2) [of g m js] pg_repD(7,8) [of g m js e] by (auto simp: pg_access_def ASSERT_def)

lemma pg_unlink_ok:
  assumes "pg_rep g m js" "m e \<noteq> None"
  shows "\<exists>l. pg_unlink e g = Some l \<and> slist_rep l (remove1 e js) \<and> (\<forall>x. x \<notin> set js \<longrightarrow> sl_next l x = sl_next (pg_jobs g) x)"
proof (cases "e \<in> set js")
  case True
  then show ?thesis using slist_Remove [OF pg_repD(1) [OF assms(1)] True] pg_repD(8) [OF assms(1), of e] assms(2)
    by (auto simp: pg_unlink_def)
next
  case False
  then show ?thesis using pg_repD(1) [OF assms(1)] pg_repD(8) [OF assms(1), of e] assms(2)
    by (auto simp: pg_unlink_def remove1_idem)
qed

lemma remove1_set: "distinct xs \<Longrightarrow> set (remove1 x xs) = set xs - {x}"
  by simp

text \<open>The three ways the pending part changes; the counter and the objects stay.\<close>

lemma pg_rep_jobs:
  assumes rep: "pg_rep g m js" and l: "slist_rep l js'" and sub: "set js' \<subseteq> dom m"
    and p: "\<And>x. x \<in> dom m \<Longrightarrow> p x = (x \<in> set js')" and r: "\<And>x. x \<in> dom m \<Longrightarrow> x \<notin> set js' \<Longrightarrow> sl_next l x = Some x"
  shows "pg_rep (g\<lparr>pg_jobs := l, pg_pending := p\<rparr>) m js'"
  using rep l sub p r slist_in_list [OF l] by (auto simp: pg_rep_def IsRemoved_iff)

lemma pg_Init: "pg_rep (BPendingGroup_Init g) Map.empty []"
  by (simp add: pg_rep_def BPendingGroup_Init_def slist_Init)

lemma pg_Set:
  assumes "pg_rep g m js" "m e \<noteq> None"
  shows "\<exists>g'. BSmallPending_Set e g = Some g' \<and> pg_rep g' m (e # remove1 e js)"
proof -
  obtain l where l: "pg_unlink e g = Some l" "slist_rep l (remove1 e js)"
    "\<forall>x. x \<notin> set js \<longrightarrow> sl_next l x = sl_next (pg_jobs g) x"
    using pg_unlink_ok [OF assms] by blast
  note d = pg_repD [OF assms(1)]
  have e: "e \<notin> set (remove1 e js)" using d(5) by simp
  have "pg_rep (g\<lparr>pg_jobs := SLinkedList_Prepend e l, pg_pending := (pg_pending g)(e := True)\<rparr>) m (e # remove1 e js)"
    using slist_Prepend [OF l(2) e] d(4,5,7,8) assms(2) l(3)
    by (intro pg_rep_jobs [OF assms(1)]) (auto simp: IsRemoved_iff)
  then show ?thesis using l(1) pg_access_ok [OF assms] by (simp add: BSmallPending_Set_def)
qed

lemma pg_Unset:
  assumes "pg_rep g m js" "m e \<noteq> None"
  shows "\<exists>g'. BSmallPending_Unset e g = Some g' \<and> pg_rep g' m (remove1 e js)"
proof (cases "e \<in> set js")
  case True
  note d = pg_repD [OF assms(1)]
  obtain l where l: "SLinkedList_Remove e (pg_jobs g) = Some l" "slist_rep l (remove1 e js)"
    "\<forall>x. x \<notin> set js \<longrightarrow> sl_next l x = sl_next (pg_jobs g) x"
    using slist_Remove [OF d(1) True] by blast
  have "pg_rep (g\<lparr>pg_jobs := SLinkedListMarkRemoved e l, pg_pending := (pg_pending g)(e := False)\<rparr>) m (remove1 e js)"
    using slist_MarkRemoved [OF l(2), of e] d(4,5,7,8) l(3)
    by (intro pg_rep_jobs [OF assms(1)]) (auto simp: IsRemoved_iff SLinkedListMarkRemoved_def domIff)
  then show ?thesis using l(1) pg_access_ok [OF assms] d(8) [of e] True assms(2) by (auto simp: BSmallPending_Unset_def)
next
  case False
  then show ?thesis using pg_access_ok [OF assms] pg_repD(8) [OF assms(1), of e] assms
    by (auto simp: BSmallPending_Unset_def remove1_idem)
qed

lemma pg_Execute:
  assumes "pg_rep g m (j # js)"
  shows "\<exists>g' h. m j = Some h \<and> BPendingGroup_ExecuteJob g = Some (h, g') \<and> pg_rep g' m js"
proof -
  note d = pg_repD [OF assms]
  obtain l where l: "SLinkedList_RemoveFirst (pg_jobs g) = Some l" "slist_rep l js" "sl_next l = sl_next (pg_jobs g)"
    using slist_RemoveFirst [OF d(1)] by blast
  obtain h where h: "m j = Some h" using d(4) by auto
  have "pg_rep (g\<lparr>pg_jobs := SLinkedListMarkRemoved j l, pg_pending := (pg_pending g)(j := False)\<rparr>) m js"
    using slist_MarkRemoved [OF l(2), of j] d(4,5,7,8) l(3)
    by (intro pg_rep_jobs [OF assms]) (auto simp: IsRemoved_iff SLinkedListMarkRemoved_def)
  then show ?thesis
    using l(1) h d(2) d(7,8) [of j] slist_rep_first [OF d(1)]
    by (auto simp: BPendingGroup_ExecuteJob_def SLinkedList_First_def SLinkedList_IsEmpty_def)
qed

lemma pg_New:
  assumes "pg_rep g m js" "m e = None"
  shows "\<exists>g'. BSmallPending_Init e h g = Some g' \<and> pg_rep g' (m(e \<mapsto> h)) js"
proof -
  note d = pg_repD [OF assms(1)]
  have e: "e \<notin> dom m" "e \<notin> set js" using assms(2) d(4) by auto
  then have "card (dom (m(e \<mapsto> h))) = Suc (card (dom m))" using d(3) by simp
  then show ?thesis
    using assms slist_MarkRemoved [OF d(1) e(2)] e d(2-8)
    by (auto simp: BSmallPending_Init_def DebugCounter_Increment_def pg_rep_def IsRemoved_iff SLinkedListMarkRemoved_def)
qed

lemma pg_Free_job:
  assumes "pg_rep g m js" "m e \<noteq> None"
  shows "\<exists>g'. BSmallPending_Free e g = Some g' \<and> pg_rep g' (m(e := None)) (remove1 e js)"
proof -
  note d = pg_repD [OF assms(1)]
  obtain l where l: "pg_unlink e g = Some l" "slist_rep l (remove1 e js)"
    "\<forall>x. x \<notin> set js \<longrightarrow> sl_next l x = sl_next (pg_jobs g) x"
    using pg_unlink_ok [OF assms] by blast
  have card: "card (dom m) = Suc (card (dom m - {e}))" by (rule card_Suc_Diff1 [symmetric, OF d(3)]) (simp add: domIff assms(2))
  have "\<forall>x \<in> dom m - {e}. SLinkedListIsRemoved x l = (x \<notin> set js)"
    using d(5,8) l(3) slist_in_list [OF l(2)] by (auto simp: IsRemoved_iff domIff)
  then have "pg_rep (g\<lparr>pg_jobs := l, pg_handler := (pg_handler g)(e := None),
      pg_ctr := (if pg_ctr g \<noteq> INT_MAX then pg_ctr g - 1 else pg_ctr g)\<rparr>) (m(e := None)) (remove1 e js)"
    using d l(2) card by (auto simp: pg_rep_def)
  then show ?thesis
    using l(1) card d(6) pg_access_ok [OF assms] by (auto simp: BSmallPending_Free_def DebugCounter_Decrement_def)
qed

lemma pg_SetHandler:
  assumes "pg_rep g m js" "m e \<noteq> None"
  shows "\<exists>g'. BSmallPending_SetHandler e h g = Some g' \<and> pg_rep g' (m(e \<mapsto> h)) js"
  using assms by (auto simp: BSmallPending_SetHandler_def pg_rep_def insert_absorb domI)

lemma pg_queries:
  assumes "pg_rep g m js"
  shows "m e \<noteq> None \<Longrightarrow> BSmallPending_IsSet e g = Some (e \<in> set js)"
    "BPendingGroup_HasJobs g \<longleftrightarrow> js \<noteq> []"
    "BPendingGroup_PeekJob g = (if js = [] then None else Some (hd js))"
  using pg_access_ok [OF assms, of e] pg_repD(8) [OF assms, of e] slist_rep_first [OF pg_repD(1) [OF assms]]
  by (auto simp: BSmallPending_IsSet_def BPendingGroup_HasJobs_def BPendingGroup_PeekJob_def SLinkedList_First_def
      SLinkedList_IsEmpty_def)

lemma pg_Free_group:
  assumes "pg_rep g m js" "pg_ctr g \<noteq> INT_MAX"
  shows "BPendingGroup_Free g = Some () \<longleftrightarrow> m = Map.empty"
proof -
  note d = pg_repD [OF assms(1)]
  have "pg_ctr g = 0 \<longleftrightarrow> m = Map.empty" using assms(2) d(3,6) by auto
  then show ?thesis
    using assms(2) d(4) slist_IsEmpty [OF d(1)] by (auto simp: BPendingGroup_Free_def DebugCounter_Free_def ASSERT_def)
qed

section \<open>The contract of a job stack\<close>

text \<open>
  What the users of a group rely on: in a group that represents handlers \<open>m\<close> and pending jobs
  \<open>js\<close>, every operation on an initialised job has a result, and this is the group it represents.
\<close>

locale job_stack =
  fixes rep :: "'g \<Rightarrow> ('e \<rightharpoonup> 'h) \<Rightarrow> 'e list \<Rightarrow> bool"
    and job_init :: "'e \<Rightarrow> 'h \<Rightarrow> 'g \<Rightarrow> 'g option"
    and job_free :: "'e \<Rightarrow> 'g \<Rightarrow> 'g option"
    and job_sethandler :: "'e \<Rightarrow> 'h \<Rightarrow> 'g \<Rightarrow> 'g option"
    and job_set :: "'e \<Rightarrow> 'g \<Rightarrow> 'g option"
    and job_unset :: "'e \<Rightarrow> 'g \<Rightarrow> 'g option"
    and job_isset :: "'e \<Rightarrow> 'g \<Rightarrow> bool option"
    and execute :: "'g \<Rightarrow> ('h \<times> 'g) option"
    and peek :: "'g \<Rightarrow> 'e option"
    and has :: "'g \<Rightarrow> bool"
  assumes init_rep: "\<lbrakk>rep g m js; m e = None\<rbrakk> \<Longrightarrow> \<exists>g'. job_init e h g = Some g' \<and> rep g' (m(e \<mapsto> h)) js"
    and free_rep: "\<lbrakk>rep g m js; m e \<noteq> None\<rbrakk> \<Longrightarrow> \<exists>g'. job_free e g = Some g' \<and> rep g' (m(e := None)) (remove1 e js)"
    and sethandler_rep: "\<lbrakk>rep g m js; m e \<noteq> None\<rbrakk> \<Longrightarrow> \<exists>g'. job_sethandler e h g = Some g' \<and> rep g' (m(e \<mapsto> h)) js"
    and set_rep: "\<lbrakk>rep g m js; m e \<noteq> None\<rbrakk> \<Longrightarrow> \<exists>g'. job_set e g = Some g' \<and> rep g' m (e # remove1 e js)"
    and unset_rep: "\<lbrakk>rep g m js; m e \<noteq> None\<rbrakk> \<Longrightarrow> \<exists>g'. job_unset e g = Some g' \<and> rep g' m (remove1 e js)"
    and isset_rep: "\<lbrakk>rep g m js; m e \<noteq> None\<rbrakk> \<Longrightarrow> job_isset e g = Some (e \<in> set js)"
    and execute_rep: "rep g m (j # js) \<Longrightarrow> \<exists>g' h. m j = Some h \<and> execute g = Some (h, g') \<and> rep g' m js"
    and peek_rep: "rep g m js \<Longrightarrow> peek g = (if js = [] then None else Some (hd js))"
    and has_rep: "rep g m js \<Longrightarrow> has g \<longleftrightarrow> js \<noteq> []"
    and distinct_rep: "rep g m js \<Longrightarrow> distinct js \<and> set js \<subseteq> dom m"
begin

text \<open>Setting a job that is not pending pushes it; so does setting it right before it runs.\<close>

lemma set_fresh: "\<lbrakk>rep g m js; m e \<noteq> None; e \<notin> set js\<rbrakk> \<Longrightarrow> \<exists>g'. job_set e g = Some g' \<and> rep g' m (e # js)"
  using set_rep [of g m js e] by (simp add: remove1_idem)

lemma unset_fresh: "\<lbrakk>rep g m js; m e \<noteq> None; e \<notin> set js\<rbrakk> \<Longrightarrow> \<exists>g'. job_unset e g = Some g' \<and> rep g' m js"
  using unset_rep [of g m js e] by (simp add: remove1_idem)

lemma set_execute:
  assumes "rep g m js" "m e = Some h"
  shows "\<exists>g1 g2. job_set e g = Some g1 \<and> execute g1 = Some (h, g2) \<and> rep g2 m (remove1 e js)"
proof -
  obtain g1 where "job_set e g = Some g1" "rep g1 m (e # remove1 e js)" using set_rep [OF assms(1), of e] assms(2) by auto
  then show ?thesis using execute_rep [of g1 m e "remove1 e js"] assms(2) by auto
qed

end

interpretation bp: job_stack pg_rep BSmallPending_Init BSmallPending_Free BSmallPending_SetHandler BSmallPending_Set
  BSmallPending_Unset BSmallPending_IsSet BPendingGroup_ExecuteJob BPendingGroup_PeekJob BPendingGroup_HasJobs
  by unfold_locales
    (simp_all add: pg_New pg_Free_job pg_SetHandler pg_Set pg_Unset pg_queries pg_Execute pg_repD(4,5) del: remove1.simps)

section \<open>Command sequences\<close>

datatype ('e, 'h) pg_cmd =
    PgInit 'e 'h | PgFree 'e | PgSetHandler 'e 'h | PgSet 'e | PgUnset 'e | PgIsSet 'e | PgExecute | PgPeek | PgHasJobs

datatype ('e, 'h) pg_out = PgNone | PgBool bool | PgJob "'e option" | PgRun 'h

text \<open>The abstract stack: \<open>None\<close> for a use of a job that is not initialised (or is, for \<open>PgInit\<close>).\<close>

fun stack_cmd :: "('e, 'h) pg_cmd \<Rightarrow> ('e \<rightharpoonup> 'h) \<times> 'e list \<Rightarrow> ((('e \<rightharpoonup> 'h) \<times> 'e list) \<times> ('e, 'h) pg_out) option" where
  "stack_cmd (PgInit e h) (m, js) = (if m e = None then Some ((m(e \<mapsto> h), js), PgNone) else None)"
| "stack_cmd (PgFree e) (m, js) = (if m e \<noteq> None then Some ((m(e := None), remove1 e js), PgNone) else None)"
| "stack_cmd (PgSetHandler e h) (m, js) = (if m e \<noteq> None then Some ((m(e \<mapsto> h), js), PgNone) else None)"
| "stack_cmd (PgSet e) (m, js) = (if m e \<noteq> None then Some ((m, e # remove1 e js), PgNone) else None)"
| "stack_cmd (PgUnset e) (m, js) = (if m e \<noteq> None then Some ((m, remove1 e js), PgNone) else None)"
| "stack_cmd (PgIsSet e) (m, js) = (if m e \<noteq> None then Some ((m, js), PgBool (e \<in> set js)) else None)"
| "stack_cmd PgExecute (m, js) = (case js of [] \<Rightarrow> None | j # js' \<Rightarrow> map_option (\<lambda>h. ((m, js'), PgRun h)) (m j))"
| "stack_cmd PgPeek (m, js) = Some ((m, js), PgJob (if js = [] then None else Some (hd js)))"
| "stack_cmd PgHasJobs (m, js) = Some ((m, js), PgBool (js \<noteq> []))"

fun group_cmd :: "('e, 'h) pg_cmd \<Rightarrow> ('e, 'h) BPendingGroup \<Rightarrow> (('e, 'h) BPendingGroup \<times> ('e, 'h) pg_out) option" where
  "group_cmd (PgInit e h) g = map_option (\<lambda>g. (g, PgNone)) (BPending_Init e h g)"
| "group_cmd (PgFree e) g = map_option (\<lambda>g. (g, PgNone)) (BPending_Free e g)"
| "group_cmd (PgSetHandler e h) g = map_option (\<lambda>g. (g, PgNone)) (BSmallPending_SetHandler e h g)"
| "group_cmd (PgSet e) g = map_option (\<lambda>g. (g, PgNone)) (BPending_Set e g)"
| "group_cmd (PgUnset e) g = map_option (\<lambda>g. (g, PgNone)) (BPending_Unset e g)"
| "group_cmd (PgIsSet e) g = map_option (\<lambda>b. (g, PgBool b)) (BPending_IsSet e g)"
| "group_cmd PgExecute g = map_option (\<lambda>(h, g). (g, PgRun h)) (BPendingGroup_ExecuteJob g)"
| "group_cmd PgPeek g = Some (g, PgJob (BPendingGroup_PeekJob g))"
| "group_cmd PgHasJobs g = Some (g, PgBool (BPendingGroup_HasJobs g))"

fun run_cmds :: "('c \<Rightarrow> 's \<Rightarrow> ('s \<times> 'o) option) \<Rightarrow> 'c list \<Rightarrow> 's \<Rightarrow> ('s \<times> 'o list) option" where
  "run_cmds f [] s = Some (s, [])"
| "run_cmds f (c # cs) s =
     do { (s', out) \<leftarrow> f c s; (s'', outs) \<leftarrow> run_cmds f cs s'; Some (s'', out # outs) }"

lemmas BPending_defs = BPending_Init_def BPending_Free_def BPending_Set_def BPending_Unset_def BPending_IsSet_def

lemma group_cmd_refines:
  assumes "pg_rep g m js" "stack_cmd c (m, js) = Some ((m', js'), out)"
  shows "\<exists>g'. group_cmd c g = Some (g', out) \<and> pg_rep g' m' js'"
proof (cases c)
  case (PgInit e h)
  then show ?thesis using assms bp.init_rep [OF assms(1), of e h] by (auto simp: BPending_defs split: if_splits)
next
  case (PgFree e)
  then show ?thesis using assms bp.free_rep [OF assms(1), of e] by (auto simp: BPending_defs split: if_splits)
next
  case (PgSetHandler e h)
  then show ?thesis using assms bp.sethandler_rep [OF assms(1), of e h] by (auto split: if_splits)
next
  case (PgSet e)
  then show ?thesis using assms bp.set_rep [OF assms(1), of e] by (auto simp: BPending_defs split: if_splits)
next
  case (PgUnset e)
  then show ?thesis using assms bp.unset_rep [OF assms(1), of e] by (auto simp: BPending_defs split: if_splits)
next
  case (PgIsSet e)
  then show ?thesis using assms bp.isset_rep [OF assms(1), of e] by (auto simp: BPending_defs split: if_splits)
next
  case PgExecute
  with assms obtain j where "js = j # js'" by (auto split: list.splits)
  then show ?thesis using PgExecute assms bp.execute_rep [of g m j js'] by auto
qed (use assms bp.peek_rep [OF assms(1)] bp.has_rep [OF assms(1)] in auto)

lemma run_refines:
  "\<lbrakk>pg_rep g m js; run_cmds stack_cmd cs (m, js) = Some ((m', js'), outs)\<rbrakk>
   \<Longrightarrow> \<exists>g'. run_cmds group_cmd cs g = Some (g', outs) \<and> pg_rep g' m' js'"
proof (induction cs arbitrary: g m js outs)
  case (Cons c cs)
  from Cons.prems(2) obtain m1 js1 out1 outs1 where s: "stack_cmd c (m, js) = Some ((m1, js1), out1)"
    "run_cmds stack_cmd cs (m1, js1) = Some ((m', js'), outs1)" "outs = out1 # outs1"
    by (auto elim!: bind_eq_SomeE)
  from group_cmd_refines [OF Cons.prems(1) s(1)] Cons.IH s(2,3) show ?case by fastforce
qed auto

section \<open>Properties\<close>

text \<open>
  C14. The linked list of pending jobs implements a stack without duplicates. For every sequence of
  operations on a freshly initialised group that never touches a job that is not initialised,
  the pointer code gives the answers the stack gives: the job set last runs first, setting a
  pending job again moves it to the front, unsetting or freeing it takes it out, and running it
  clears it. No null pointer is followed and no assertion fails, whatever the memory
  of the nodes held before. In the end exactly the stacked jobs are pending.
\<close>

theorem job_group_is_stack:
  assumes "run_cmds stack_cmd cs (Map.empty, []) = Some ((m, js), outs)"
  shows "\<exists>g. run_cmds group_cmd cs (BPendingGroup_Init g0) = Some (g, outs) \<and>
    distinct js \<and> (\<forall>e. m e \<noteq> None \<longrightarrow> BPending_IsSet e g = Some (e \<in> set js)) \<and>
    BPendingGroup_PeekJob g = (if js = [] then None else Some (hd js))"
proof -
  obtain g where g: "run_cmds group_cmd cs (BPendingGroup_Init g0) = Some (g, outs)" "pg_rep g m js"
    using run_refines [OF pg_Init assms] by blast
  then show ?thesis
    using bp.isset_rep [OF g(2)] bp.peek_rep [OF g(2)] bp.distinct_rep [OF g(2)] by (auto simp: BPending_defs)
qed

definition job_demo :: "(nat, string) pg_cmd list" where
  "job_demo = [PgInit 1 ''a'', PgInit 2 ''b'', PgInit 3 ''c'', PgSet 1, PgSet 2, PgSet 3, PgSet 1, PgUnset 3, PgExecute]"

definition job_demo_memory :: "(nat, string) BPendingGroup" where
  "job_demo_memory = \<lparr>pg_jobs = \<lparr>sl_first = Some 7, sl_next = (\<lambda>_. Some 2), sl_prev = (\<lambda>_. None)\<rparr>,
     pg_handler = Map.empty, pg_pending = (\<lambda>_. True), pg_ctr = 5\<rparr>"

lemma job_demo_stack: "run_cmds stack_cmd job_demo (Map.empty, []) =
  Some (([1 \<mapsto> ''a'', 2 \<mapsto> ''b'', 3 \<mapsto> ''c''], [2]), replicate 8 PgNone @ [PgRun ''a''])"
  by (simp add: job_demo_def eval_nat_numeral)

theorem job_group_is_stack_witness:
  "\<exists>g. run_cmds group_cmd job_demo (BPendingGroup_Init job_demo_memory) = Some (g, replicate 8 PgNone @ [PgRun ''a'']) \<and>
     BPendingGroup_PeekJob g = Some 2"
  using job_group_is_stack [OF job_demo_stack, of job_demo_memory] by auto

end
