(* ===== verification/Addr.thy ===== *)
theory Addr
  imports Prelude "HOL-Library.List_Lexorder"
begin

text \<open>
  Byte order conversion (\<open>misc/byteorder.h\<close>, little-endian branch), overflow-checked sizes
  (\<open>misc/bsize.h\<close>) and socket addresses (\<open>system/BAddr.h\<close>). Addresses and ports are kept in
  network byte order, as in the code. Link-layer addresses (\<open>BADDR_TYPE_PACKET\<close>) are left out:
  only the code of other programs of the source tree makes them.
\<close>

section \<open>Byte order\<close>

definition badvpn_reverse16 :: "u16 \<Rightarrow> u16" where
  "badvpn_reverse16 x = of_mem16 [mem16 x ! 1, mem16 x ! 0]"

definition badvpn_reverse32 :: "u32 \<Rightarrow> u32" where
  "badvpn_reverse32 x = of_mem32 [mem32 x ! 3, mem32 x ! 2, mem32 x ! 1, mem32 x ! 0]"

definition hton16 :: "u16 \<Rightarrow> u16" where
  "hton16 x = badvpn_reverse16 x"

definition hton32 :: "u32 \<Rightarrow> u32" where
  "hton32 x = badvpn_reverse32 x"

definition ntoh16 :: "u16 \<Rightarrow> u16" where
  "ntoh16 x = hton16 x"

definition ntoh32 :: "u32 \<Rightarrow> u32" where
  "ntoh32 x = hton32 x"

definition htol16 :: "u16 \<Rightarrow> u16" where
  "htol16 x = x"

definition ltoh16 :: "u16 \<Rightarrow> u16" where
  "ltoh16 x = htol16 x"

lemma mem16_rev: "mem16 (badvpn_reverse16 x) = rev (mem16 x)"
  by (simp add: badvpn_reverse16_def) (simp add: mem16_def)

lemma mem32_rev: "mem32 (badvpn_reverse32 x) = rev (mem32 x)"
  by (simp add: badvpn_reverse32_def) (simp add: mem32_def)

lemma reverse16_involution [simp]: "badvpn_reverse16 (badvpn_reverse16 x) = x"
  by (metis mem16_rev of_mem16_mem16 rev_rev_ident)

lemma reverse32_involution [simp]: "badvpn_reverse32 (badvpn_reverse32 x) = x"
  by (metis mem32_rev of_mem32_mem32 rev_rev_ident)

lemma ntoh_hton [simp]:
  "ntoh16 (hton16 x) = x" "hton16 (ntoh16 x) = x" "ntoh32 (hton32 y) = y" "hton32 (ntoh32 y) = y"
  "ltoh16 (htol16 x) = x"
  by (simp_all add: ntoh16_def hton16_def ntoh32_def hton32_def ltoh16_def htol16_def)

lemma ntoh_eq_iff [simp]: "ntoh16 x = ntoh16 x' \<longleftrightarrow> x = x'" "ntoh32 y = ntoh32 y' \<longleftrightarrow> y = y'"
  by (metis ntoh_hton(2), metis ntoh_hton(4))

section \<open>Checked sizes\<close>

abbreviation SIZE_MAX :: nat where
  "SIZE_MAX \<equiv> 4294967295"

text \<open>\<open>size_t\<close> of the 32-bit targets; \<open>value\<close> wraps around with the flag set.\<close>

record bsize_t =
  is_overflow :: bool
  bsize_value :: nat

definition bsize_fromsize :: "nat \<Rightarrow> bsize_t" where
  "bsize_fromsize v = \<lparr>is_overflow = False, bsize_value = v\<rparr>"

definition bsize_add :: "bsize_t \<Rightarrow> bsize_t \<Rightarrow> bsize_t" where
  "bsize_add s1 s2 =
     \<lparr>is_overflow = (is_overflow s1 \<or> is_overflow s2 \<or> bsize_value s2 > SIZE_MAX - bsize_value s1),
      bsize_value = (bsize_value s1 + bsize_value s2) mod (SIZE_MAX + 1)\<rparr>"

definition bsize_max :: "bsize_t \<Rightarrow> bsize_t \<Rightarrow> bsize_t" where
  "bsize_max s1 s2 =
     \<lparr>is_overflow = (is_overflow s1 \<or> is_overflow s2),
      bsize_value = (if bsize_value s1 > bsize_value s2 then bsize_value s1 else bsize_value s2)\<rparr>"

definition bsize_mul :: "bsize_t \<Rightarrow> bsize_t \<Rightarrow> bsize_t" where
  "bsize_mul s1 s2 =
     \<lparr>is_overflow = (is_overflow s1 \<or> is_overflow s2 \<or>
        (bsize_value s1 \<noteq> 0 \<and> bsize_value s2 > SIZE_MAX div bsize_value s1)),
      bsize_value = (bsize_value s1 * bsize_value s2) mod (SIZE_MAX + 1)\<rparr>"

definition bsize_fromint :: "int \<Rightarrow> bsize_t" where
  "bsize_fromint v = \<lparr>is_overflow = (v < 0 \<or> v > int SIZE_MAX), bsize_value = nat (v mod (int SIZE_MAX + 1))\<rparr>"

definition bsize_toint :: "bsize_t \<Rightarrow> int option" where
  "bsize_toint s = (if is_overflow s \<or> int (bsize_value s) > INT_MAX then None else Some (int (bsize_value s)))"

lemmas bsize_defs = bsize_fromsize_def bsize_add_def bsize_max_def bsize_mul_def bsize_fromint_def

lemma bsize_mul_exact:
  assumes "\<not> is_overflow (bsize_mul s1 s2)" "bsize_value s1 \<le> SIZE_MAX"
  shows "bsize_value (bsize_mul s1 s2) = bsize_value s1 * bsize_value s2"
proof (cases "bsize_value s1 = 0")
  case False
  then have "bsize_value s2 \<le> SIZE_MAX div bsize_value s1"
    using assms by (simp add: bsize_mul_def)
  then have "bsize_value s1 * bsize_value s2 \<le> bsize_value s1 * (SIZE_MAX div bsize_value s1)"
    by (rule mult_left_mono) simp
  also have "\<dots> \<le> SIZE_MAX" by (rule times_div_less_eq_dividend)
  finally show ?thesis by (simp add: bsize_mul_def)
qed (simp add: bsize_mul_def)

lemma bsize_add_exact:
  assumes "\<not> is_overflow (bsize_add s1 s2)" "bsize_value s1 \<le> SIZE_MAX"
  shows "bsize_value (bsize_add s1 s2) = bsize_value s1 + bsize_value s2"
proof -
  have "bsize_value s1 + bsize_value s2 < SIZE_MAX + 1" using assms unfolding bsize_add_def by simp linarith
  then show ?thesis by (simp add: bsize_add_def)
qed

section \<open>Addresses\<close>

datatype BIPAddr = BIPAddr_None | BIPAddr_IPv4 u32 | BIPAddr_IPv6 bytes

datatype BAddr =
    BAddr_None
  | BAddr_IPv4 u32 u16
  | BAddr_IPv6 bytes u16

fun BAddr_wf :: "BAddr \<Rightarrow> bool" where
  "BAddr_wf (BAddr_IPv6 ip port) = (length ip = 16)"
| "BAddr_wf _ = True"

fun BAddr_type :: "BAddr \<Rightarrow> int" where
  "BAddr_type BAddr_None = 0"
| "BAddr_type (BAddr_IPv4 ip port) = 1"
| "BAddr_type (BAddr_IPv6 ip port) = 2"

fun BAddr_Compare :: "BAddr \<Rightarrow> BAddr \<Rightarrow> bool" where
  "BAddr_Compare (BAddr_IPv4 ip1 port1) (BAddr_IPv4 ip2 port2) = (ip1 = ip2 \<and> port1 = port2)"
| "BAddr_Compare (BAddr_IPv6 ip1 port1) (BAddr_IPv6 ip2 port2) = (ip1 = ip2 \<and> port1 = port2)"
| "BAddr_Compare _ _ = False"

fun BIPAddr_Compare :: "BIPAddr \<Rightarrow> BIPAddr \<Rightarrow> bool" where
  "BIPAddr_Compare (BIPAddr_IPv4 ip1) (BIPAddr_IPv4 ip2) = (ip1 = ip2)"
| "BIPAddr_Compare (BIPAddr_IPv6 ip1) (BIPAddr_IPv6 ip2) = (ip1 = ip2)"
| "BIPAddr_Compare _ _ = False"

fun BAddr_GetIPAddr :: "BAddr \<Rightarrow> BIPAddr" where
  "BAddr_GetIPAddr (BAddr_IPv4 ip port) = BIPAddr_IPv4 ip"
| "BAddr_GetIPAddr (BAddr_IPv6 ip port) = BIPAddr_IPv6 ip"
| "BAddr_GetIPAddr BAddr_None = BIPAddr_None"

fun BAddr_GetPort :: "BAddr \<Rightarrow> u16" where
  "BAddr_GetPort (BAddr_IPv4 ip port) = port"
| "BAddr_GetPort (BAddr_IPv6 ip port) = port"
| "BAddr_GetPort BAddr_None = 0"

definition B_COMPARE :: "'a :: linorder \<Rightarrow> 'a \<Rightarrow> int" where
  "B_COMPARE a b = of_bool (a > b) - of_bool (a < b)"

fun memcmp :: "bytes \<Rightarrow> bytes \<Rightarrow> int" where
  "memcmp (x # xs) (y # ys) = (if x = y then memcmp xs ys else uint x - uint y)"
| "memcmp _ _ = 0"

fun BAddr_CompareOrder :: "BAddr \<Rightarrow> BAddr \<Rightarrow> int" where
  "BAddr_CompareOrder (BAddr_IPv4 ip1 port1) (BAddr_IPv4 ip2 port2) =
     (let cmp = B_COMPARE (ntoh32 ip1) (ntoh32 ip2)
      in if cmp \<noteq> 0 then cmp else B_COMPARE (ntoh16 port1) (ntoh16 port2))"
| "BAddr_CompareOrder (BAddr_IPv6 ip1 port1) (BAddr_IPv6 ip2 port2) =
     (let cmp = memcmp ip1 ip2
      in if cmp \<noteq> 0 then B_COMPARE cmp 0 else B_COMPARE (ntoh16 port1) (ntoh16 port2))"
| "BAddr_CompareOrder a b = B_COMPARE (BAddr_type a) (BAddr_type b)"

text \<open>The numbers a comparison looks at, in their order of significance.\<close>

fun BAddr_key :: "BAddr \<Rightarrow> int list" where
  "BAddr_key BAddr_None = [0]"
| "BAddr_key (BAddr_IPv4 ip port) = [1, uint (ntoh32 ip), uint (ntoh16 port)]"
| "BAddr_key (BAddr_IPv6 ip port) = 2 # map uint ip @ [uint (ntoh16 port)]"

lemma B_COMPARE_Cons: "B_COMPARE (x # xs) (y # ys) = (if B_COMPARE x y \<noteq> 0 then B_COMPARE x y else B_COMPARE xs ys)"
  for x :: "'a :: linorder"
  by (auto simp: B_COMPARE_def)

lemma B_COMPARE_zero [simp]: "B_COMPARE a b = 0 \<longleftrightarrow> a = b"
  by (auto simp: B_COMPARE_def)

lemma B_COMPARE_refl [simp]: "B_COMPARE a a = 0"
  by simp

lemma uint_eq [simp]: "uint a = uint b \<longleftrightarrow> a = b"
  by (metis word_uint_eqI)

lemma B_COMPARE_uint: "B_COMPARE (uint a) (uint b) = B_COMPARE a b"
  by (simp add: B_COMPARE_def word_less_def)

lemma memcmp_key:
  "length xs = length ys \<Longrightarrow>
   B_COMPARE (map uint xs @ [p]) (map uint ys @ [q]) = (if memcmp xs ys \<noteq> 0 then B_COMPARE (memcmp xs ys) 0 else B_COMPARE p q)"
  by (induction xs ys rule: list_induct2) (auto simp: B_COMPARE_Cons B_COMPARE_uint, auto simp: B_COMPARE_def word_less_def)

lemma CompareOrder_key:
  "\<lbrakk>BAddr_wf a; BAddr_wf b\<rbrakk> \<Longrightarrow> BAddr_CompareOrder a b = B_COMPARE (BAddr_key a) (BAddr_key b)"
  by (cases a; cases b) (simp_all add: B_COMPARE_Cons memcmp_key B_COMPARE_uint Let_def)

lemma BAddr_key_inj: "\<lbrakk>BAddr_wf a; BAddr_wf b; BAddr_key a = BAddr_key b\<rbrakk> \<Longrightarrow> a = b"
  by (cases a; cases b) (auto simp: inj_map_eq_map inj_def)

lemma CompareOrder_zero: "\<lbrakk>BAddr_wf a; BAddr_wf b\<rbrakk> \<Longrightarrow> BAddr_CompareOrder a b = 0 \<longleftrightarrow> a = b"
  using BAddr_key_inj by (auto simp: CompareOrder_key)

lemma CompareOrder_antisym: "\<lbrakk>BAddr_wf a; BAddr_wf b\<rbrakk> \<Longrightarrow> BAddr_CompareOrder b a = - BAddr_CompareOrder a b"
  by (simp add: CompareOrder_key B_COMPARE_def)

lemma CompareOrder_trans:
  "\<lbrakk>BAddr_wf a; BAddr_wf b; BAddr_wf c; BAddr_CompareOrder a b \<le> 0; BAddr_CompareOrder b c \<le> 0\<rbrakk> \<Longrightarrow>
   BAddr_CompareOrder a c \<le> 0"
  by (auto simp: CompareOrder_key B_COMPARE_def of_bool_def split: if_splits)

end
