(* ===== verification/Reactor.thy ===== *)
theory Reactor
  imports BPending Addr
begin

text \<open>
  The event loop, \<open>system/BReactor_badvpn.c\<close> as the Android build compiles it (with \<open>epoll\<close>): jobs, timers,
  file descriptors and limits. One iteration of \<open>BReactor_Exec\<close> is \<open>BReactor_Exec_step\<close>; the handlers
  it calls are the program's, so a run interleaves iterations with arbitrary calls of the reactor's
  functions. The kernel is a parameter: what \<open>epoll_wait\<close> returns and when. The tree of timers (the \<open>CAvl\<close>
  template) and the linked lists are the lists their operations promise. The results: no assertion fails,
  handlers are called only for timers that are due and not removed and for descriptors that are still registered,
  timers never fire early, and the loop blocks only when nothing is left to do.
\<close>

section \<open>State\<close>

datatype timer_state = TIMER_STATE_INACTIVE | TIMER_STATE_RUNNING | TIMER_STATE_EXPIRED

text \<open>\<open>tm_msTime\<close> is the field that a \<open>BTimer\<close> has beside its \<open>BSmallTimer\<close>.\<close>

record BSmallTimer =
  tm_absTime :: int
  tm_state :: timer_state
  tm_is_small :: bool
  tm_msTime :: int

datatype breactor_event = BREACTOR_READ | BREACTOR_WRITE | BREACTOR_ERROR | BREACTOR_HUP

datatype epoll_event = EPOLLIN | EPOLLOUT | EPOLLERR | EPOLLHUP

text \<open>\<open>epoll_returned_ptr\<close> points to an entry of \<open>epoll_results\<close>, here its index.\<close>

record BFileDescriptor =
  bf_fd :: int
  bf_active :: bool
  bf_waitEvents :: "breactor_event set"
  bf_epoll_returned_ptr :: "nat option"

record BReactorLimit =
  bl_limit :: int
  bl_count :: int

text \<open>
  The reactor with the objects its users own, by address: \<open>None\<close> is memory that holds no such object. The first
  \<open>epoll_results_num\<close> entries of \<open>epoll_results\<close> are the list \<open>rc_epoll_results\<close>. \<open>rc_epoll\<close> is the kernel's
  set of descriptors. The debug counters are left out.
\<close>

record ('j, 'h) BReactor =
  rc_exiting :: bool
  rc_exit_code :: int
  rc_pending_jobs :: "('j, 'h) BPendingGroup"
  rc_timers_tree :: "ptr list"
  rc_timers_expired_list :: "ptr list"
  rc_active_limits_list :: "ptr list"
  rc_epoll_results :: "(ptr option \<times> epoll_event set) list"
  rc_epoll_results_pos :: nat
  rc_epoll :: "int \<rightharpoonup> epoll_event set \<times> ptr"
  rc_timer :: "ptr \<rightharpoonup> BSmallTimer"
  rc_fd :: "ptr \<rightharpoonup> BFileDescriptor"
  rc_limit :: "ptr \<rightharpoonup> BReactorLimit"

definition BSYSTEM_MAX_RESULTS :: nat where
  "BSYSTEM_MAX_RESULTS = 64"

section \<open>Timers\<close>

abbreviation INT64_MAX :: int where
  "INT64_MAX \<equiv> 2 ^ 63 - 1"

abbreviation INT64_MIN :: int where
  "INT64_MIN \<equiv> - (2 ^ 63)"

definition btime_add :: "int \<Rightarrow> int \<Rightarrow> int" where
  "btime_add t1 t2 = (if t1 + t2 > INT64_MAX then INT64_MAX else if t1 + t2 < INT64_MIN then INT64_MIN else t1 + t2)"

definition compare_timers :: "(ptr \<rightharpoonup> BSmallTimer) \<Rightarrow> ptr \<Rightarrow> ptr \<Rightarrow> int" where
  "compare_timers h t1 t2 =
     (let cmp = B_COMPARE (tm_absTime (the (h t1))) (tm_absTime (the (h t2)))
      in if cmp \<noteq> 0 then cmp else B_COMPARE t1 t2)"

text \<open>The tree in order.\<close>

fun TimersTree_Insert :: "(ptr \<rightharpoonup> BSmallTimer) \<Rightarrow> ptr \<Rightarrow> ptr list \<Rightarrow> ptr list" where
  "TimersTree_Insert h p [] = [p]"
| "TimersTree_Insert h p (q # qs) = (if compare_timers h p q < 0 then p # q # qs else q # TimersTree_Insert h p qs)"

definition BSmallTimer_Init :: "BSmallTimer \<Rightarrow> ptr \<Rightarrow> ('j, 'h) BReactor \<Rightarrow> ('j, 'h) BReactor" where
  "BSmallTimer_Init mem p r = r\<lparr>rc_timer := (rc_timer r)(p \<mapsto> mem\<lparr>tm_state := TIMER_STATE_INACTIVE, tm_is_small := True\<rparr>)\<rparr>"

definition BTimer_Init :: "BSmallTimer \<Rightarrow> ptr \<Rightarrow> int \<Rightarrow> ('j, 'h) BReactor \<Rightarrow> ('j, 'h) BReactor" where
  "BTimer_Init mem p msTime r =
     r\<lparr>rc_timer := (rc_timer r)(p \<mapsto> mem\<lparr>tm_state := TIMER_STATE_INACTIVE, tm_is_small := False, tm_msTime := msTime\<rparr>)\<rparr>"

definition BSmallTimer_IsRunning :: "ptr \<Rightarrow> ('j, 'h) BReactor \<Rightarrow> bool option" where
  "BSmallTimer_IsRunning p r = map_option (\<lambda>bt. tm_state bt \<noteq> TIMER_STATE_INACTIVE) (rc_timer r p)"

definition BTimer_IsRunning :: "ptr \<Rightarrow> ('j, 'h) BReactor \<Rightarrow> bool option" where
  "BTimer_IsRunning p r = BSmallTimer_IsRunning p r"

definition BReactor_RemoveSmallTimer :: "ptr \<Rightarrow> ('j, 'h) BReactor \<Rightarrow> ('j, 'h) BReactor option" where
  "BReactor_RemoveSmallTimer p r =
     do { bt \<leftarrow> rc_timer r p;
          case tm_state bt of
            TIMER_STATE_INACTIVE \<Rightarrow> Some r
          | TIMER_STATE_EXPIRED \<Rightarrow>
              do { ASSERT (p \<in> set (rc_timers_expired_list r));
                   Some (r\<lparr>rc_timers_expired_list := remove1 p (rc_timers_expired_list r),
                           rc_timer := (rc_timer r)(p \<mapsto> bt\<lparr>tm_state := TIMER_STATE_INACTIVE\<rparr>)\<rparr>) }
          | TIMER_STATE_RUNNING \<Rightarrow>
              do { ASSERT (p \<in> set (rc_timers_tree r));
                   Some (r\<lparr>rc_timers_tree := remove1 p (rc_timers_tree r),
                           rc_timer := (rc_timer r)(p \<mapsto> bt\<lparr>tm_state := TIMER_STATE_INACTIVE\<rparr>)\<rparr>) } }"

datatype timer_mode = BTIMER_SET_ABSOLUTE | BTIMER_SET_RELATIVE

text \<open>\<open>now\<close> is the result of \<open>btime_gettime\<close>.\<close>

definition BReactor_SetSmallTimer :: "int \<Rightarrow> ptr \<Rightarrow> timer_mode \<Rightarrow> int \<Rightarrow> ('j, 'h) BReactor \<Rightarrow> ('j, 'h) BReactor option" where
  "BReactor_SetSmallTimer now p mode t r =
     do { r \<leftarrow> BReactor_RemoveSmallTimer p r;
          bt \<leftarrow> rc_timer r p;
          let t = (if mode = BTIMER_SET_RELATIVE then btime_add now t else t);
          let r = r\<lparr>rc_timer := (rc_timer r)(p \<mapsto> bt\<lparr>tm_absTime := t, tm_state := TIMER_STATE_RUNNING\<rparr>)\<rparr>;
          ASSERT (p \<notin> set (rc_timers_tree r));
          Some (r\<lparr>rc_timers_tree := TimersTree_Insert (rc_timer r) p (rc_timers_tree r)\<rparr>) }"

definition BReactor_SetTimer :: "int \<Rightarrow> ptr \<Rightarrow> ('j, 'h) BReactor \<Rightarrow> ('j, 'h) BReactor option" where
  "BReactor_SetTimer now p r = do { bt \<leftarrow> rc_timer r p; BReactor_SetSmallTimer now p BTIMER_SET_RELATIVE (tm_msTime bt) r }"

definition BReactor_SetTimerAfter :: "int \<Rightarrow> ptr \<Rightarrow> int \<Rightarrow> ('j, 'h) BReactor \<Rightarrow> ('j, 'h) BReactor option" where
  "BReactor_SetTimerAfter now p after r = BReactor_SetSmallTimer now p BTIMER_SET_RELATIVE after r"

definition BReactor_SetTimerAbsolute :: "int \<Rightarrow> ptr \<Rightarrow> int \<Rightarrow> ('j, 'h) BReactor \<Rightarrow> ('j, 'h) BReactor option" where
  "BReactor_SetTimerAbsolute now p t r = BReactor_SetSmallTimer now p BTIMER_SET_ABSOLUTE t r"

definition BReactor_RemoveTimer :: "ptr \<Rightarrow> ('j, 'h) BReactor \<Rightarrow> ('j, 'h) BReactor option" where
  "BReactor_RemoveTimer p r = BReactor_RemoveSmallTimer p r"

text \<open>Moving timers from the front of the tree (the list argument) to the expired list.\<close>

definition expire_timer :: "ptr \<Rightarrow> BSmallTimer \<Rightarrow> ptr list \<Rightarrow> ('j, 'h) BReactor \<Rightarrow> ('j, 'h) BReactor" where
  "expire_timer p bt rest r =
     r\<lparr>rc_timers_tree := rest, rc_timers_expired_list := rc_timers_expired_list r @ [p],
       rc_timer := (rc_timer r)(p \<mapsto> bt\<lparr>tm_state := TIMER_STATE_EXPIRED\<rparr>)\<rparr>"

fun move_expired_loop :: "int \<Rightarrow> ptr list \<Rightarrow> bool \<Rightarrow> ('j, 'h) BReactor \<Rightarrow> (('j, 'h) BReactor \<times> bool) option" where
  "move_expired_loop now [] moved r = Some (r, moved)"
| "move_expired_loop now (p # ps) moved r =
     do { bt \<leftarrow> rc_timer r p;
          ASSERT (tm_state bt = TIMER_STATE_RUNNING);
          if tm_absTime bt > now then Some (r, moved)
          else move_expired_loop now ps True (expire_timer p bt ps r) }"

definition move_expired_timers :: "int \<Rightarrow> ('j, 'h) BReactor \<Rightarrow> (('j, 'h) BReactor \<times> bool) option" where
  "move_expired_timers now r = move_expired_loop now (rc_timers_tree r) False r"

fun move_first_loop :: "int \<Rightarrow> ptr list \<Rightarrow> ('j, 'h) BReactor \<Rightarrow> ('j, 'h) BReactor option" where
  "move_first_loop first_time [] r = Some r"
| "move_first_loop first_time (p # ps) r =
     do { bt \<leftarrow> rc_timer r p;
          ASSERT (tm_state bt = TIMER_STATE_RUNNING);
          ASSERT (tm_absTime bt \<ge> first_time);
          if tm_absTime bt > first_time then Some r
          else move_first_loop first_time ps (expire_timer p bt ps r) }"

definition move_first_timers :: "('j, 'h) BReactor \<Rightarrow> ('j, 'h) BReactor option" where
  "move_first_timers r =
     (case rc_timers_tree r of
        [] \<Rightarrow> None
      | p # ps \<Rightarrow>
          do { bt \<leftarrow> rc_timer r p;
               ASSERT (tm_state bt = TIMER_STATE_RUNNING);
               move_first_loop (tm_absTime bt) ps (expire_timer p bt ps r) })"

section \<open>File descriptors\<close>

definition BFileDescriptor_Init :: "BFileDescriptor \<Rightarrow> ptr \<Rightarrow> int \<Rightarrow> ('j, 'h) BReactor \<Rightarrow> ('j, 'h) BReactor" where
  "BFileDescriptor_Init mem p fd r = r\<lparr>rc_fd := (rc_fd r)(p \<mapsto> mem\<lparr>bf_fd := fd, bf_active := False\<rparr>)\<rparr>"

text \<open>
  \<open>epoll_ctl\<close> with \<open>EPOLL_CTL_ADD\<close> fails for a descriptor that is in the set, and may fail otherwise
  (\<open>ok\<close> is false).
\<close>

definition BReactor_AddFileDescriptor :: "bool \<Rightarrow> ptr \<Rightarrow> ('j, 'h) BReactor \<Rightarrow> (('j, 'h) BReactor \<times> bool) option" where
  "BReactor_AddFileDescriptor ok p r =
     do { bs \<leftarrow> rc_fd r p;
          ASSERT (\<not> bf_active bs);
          if \<not> ok \<or> rc_epoll r (bf_fd bs) \<noteq> None then Some (r, False)
          else Some (r\<lparr>rc_epoll := (rc_epoll r)(bf_fd bs \<mapsto> ({}, p)),
                       rc_fd := (rc_fd r)(p \<mapsto> bs\<lparr>bf_epoll_returned_ptr := None, bf_active := True, bf_waitEvents := {}\<rparr>)\<rparr>, True) }"

definition BReactor_RemoveFileDescriptor :: "ptr \<Rightarrow> ('j, 'h) BReactor \<Rightarrow> ('j, 'h) BReactor option" where
  "BReactor_RemoveFileDescriptor p r =
     do { bs \<leftarrow> rc_fd r p;
          ASSERT (bf_active bs);
          ASSERT (rc_epoll r (bf_fd bs) \<noteq> None);
          let r = r\<lparr>rc_epoll := (rc_epoll r)(bf_fd bs := None), rc_fd := (rc_fd r)(p \<mapsto> bs\<lparr>bf_active := False\<rparr>)\<rparr>;
          case bf_epoll_returned_ptr bs of
            None \<Rightarrow> Some r
          | Some i \<Rightarrow>
              do { ASSERT (i < length (rc_epoll_results r));
                   Some (r\<lparr>rc_epoll_results := (rc_epoll_results r)[i := (None, snd (rc_epoll_results r ! i))]\<rparr>) } }"

definition epoll_events_of :: "breactor_event set \<Rightarrow> epoll_event set" where
  "epoll_events_of events = (if BREACTOR_READ \<in> events then {EPOLLIN} else {}) \<union> (if BREACTOR_WRITE \<in> events then {EPOLLOUT} else {})"

definition BReactor_SetFileDescriptorEvents :: "ptr \<Rightarrow> breactor_event set \<Rightarrow> ('j, 'h) BReactor \<Rightarrow> ('j, 'h) BReactor option" where
  "BReactor_SetFileDescriptorEvents p events r =
     do { bs \<leftarrow> rc_fd r p;
          ASSERT (bf_active bs);
          ASSERT (events \<subseteq> {BREACTOR_READ, BREACTOR_WRITE});
          if bf_waitEvents bs = events then Some r
          else do { ASSERT (rc_epoll r (bf_fd bs) \<noteq> None);
                    Some (r\<lparr>rc_epoll := (rc_epoll r)(bf_fd bs \<mapsto> (epoll_events_of events, p)),
                            rc_fd := (rc_fd r)(p \<mapsto> bs\<lparr>bf_waitEvents := events\<rparr>)\<rparr>) } }"

text \<open>The entries that \<open>epoll_wait\<close> filled in get pointers back from their descriptors.\<close>

fun set_pointers_from :: "nat \<Rightarrow> (ptr option \<times> epoll_event set) list \<Rightarrow> ('j, 'h) BReactor \<Rightarrow> ('j, 'h) BReactor option" where
  "set_pointers_from i [] r = Some r"
| "set_pointers_from i ((q, ev) # es) r =
     do { p \<leftarrow> q;
          bfd \<leftarrow> rc_fd r p;
          ASSERT (bf_active bfd);
          ASSERT (bf_epoll_returned_ptr bfd = None);
          set_pointers_from (Suc i) es (r\<lparr>rc_fd := (rc_fd r)(p \<mapsto> bfd\<lparr>bf_epoll_returned_ptr := Some i\<rparr>)\<rparr>) }"

definition set_epoll_fd_pointers :: "('j, 'h) BReactor \<Rightarrow> ('j, 'h) BReactor option" where
  "set_epoll_fd_pointers r = set_pointers_from 0 (rc_epoll_results r) r"

section \<open>Limits\<close>

definition BReactorLimit_Init :: "ptr \<Rightarrow> int \<Rightarrow> ('j, 'h) BReactor \<Rightarrow> ('j, 'h) BReactor option" where
  "BReactorLimit_Init p limit r =
     do { ASSERT (limit > 0); Some (r\<lparr>rc_limit := (rc_limit r)(p \<mapsto> \<lparr>bl_limit = limit, bl_count = 0\<rparr>)\<rparr>) }"

definition BReactorLimit_Free :: "ptr \<Rightarrow> ('j, 'h) BReactor \<Rightarrow> ('j, 'h) BReactor option" where
  "BReactorLimit_Free p r =
     do { bl \<leftarrow> rc_limit r p;
          ASSERT (bl_count bl > 0 \<longrightarrow> p \<in> set (rc_active_limits_list r));
          Some (r\<lparr>rc_limit := (rc_limit r)(p := None),
                  rc_active_limits_list := (if bl_count bl > 0 then remove1 p (rc_active_limits_list r) else rc_active_limits_list r)\<rparr>) }"

definition BReactorLimit_Increment :: "ptr \<Rightarrow> ('j, 'h) BReactor \<Rightarrow> (('j, 'h) BReactor \<times> bool) option" where
  "BReactorLimit_Increment p r =
     do { bl \<leftarrow> rc_limit r p;
          if bl_count bl \<ge> bl_limit bl then Some (r, False)
          else Some (r\<lparr>rc_limit := (rc_limit r)(p \<mapsto> bl\<lparr>bl_count := bl_count bl + 1\<rparr>),
                       rc_active_limits_list := (if bl_count bl + 1 = 1 then rc_active_limits_list r @ [p] else rc_active_limits_list r)\<rparr>, True) }"

definition BReactorLimit_SetLimit :: "ptr \<Rightarrow> int \<Rightarrow> ('j, 'h) BReactor \<Rightarrow> ('j, 'h) BReactor option" where
  "BReactorLimit_SetLimit p limit r =
     do { bl \<leftarrow> rc_limit r p; ASSERT (limit > 0); Some (r\<lparr>rc_limit := (rc_limit r)(p \<mapsto> bl\<lparr>bl_limit := limit\<rparr>)\<rparr>) }"

fun reset_limits :: "ptr list \<Rightarrow> ('j, 'h) BReactor \<Rightarrow> ('j, 'h) BReactor option" where
  "reset_limits [] r = Some r"
| "reset_limits (p # ps) r =
     do { bl \<leftarrow> rc_limit r p;
          ASSERT (bl_count bl > 0);
          reset_limits ps (r\<lparr>rc_limit := (rc_limit r)(p \<mapsto> bl\<lparr>bl_count := 0\<rparr>), rc_active_limits_list := ps\<rparr>) }"

section \<open>The event loop\<close>

text \<open>
  What \<open>epoll_wait\<close> may do. Each call is paired with the time at which it returns; \<open>we_now\<close> is the
  time when \<open>wait_for_events\<close> begins. An error other than an interruption aborts the program.
\<close>

datatype epoll_result = EpollInterrupted | EpollError | EpollReturned "(ptr \<times> epoll_event set) list"

record wait_env =
  we_now :: int
  we_waits :: "(epoll_result \<times> int) list"

definition timeout_rel_trunc :: "int option \<Rightarrow> int \<Rightarrow> int" where
  "timeout_rel_trunc timeout now = (case timeout of None \<Rightarrow> -1 | Some timeout_abs \<Rightarrow> min (timeout_abs - now) INT_MAX)"

text \<open>
  The wait. \<open>Some None\<close>: the calls given by the environment are used up and the loop still waits. The time of the
  return is kept with the result. (Without a timer the variable \<open>now\<close> of the code stays 0; it is not used then.)
\<close>

fun wait_loop :: "int option \<Rightarrow> int \<Rightarrow> (epoll_result \<times> int) list \<Rightarrow> ('j, 'h) BReactor \<Rightarrow> (('j, 'h) BReactor \<times> int) option option" where
  "wait_loop timeout now [] r = Some None"
| "wait_loop timeout now ((res, now') # rest) r =
     (let try_again =
        (case timeout of
           Some timeout_abs \<Rightarrow>
             if now' \<ge> timeout_abs then map_option (\<lambda>r. Some (r, now')) (move_first_timers r)
             else wait_loop timeout now' rest r
         | None \<Rightarrow> wait_loop timeout now' rest r)
      in case res of
           EpollInterrupted \<Rightarrow> try_again
         | EpollError \<Rightarrow> None
         | EpollReturned events \<Rightarrow>
             do { ASSERT (events = [] \<longrightarrow> timeout \<noteq> None);
                  ASSERT (length events \<le> BSYSTEM_MAX_RESULTS);
                  if events \<noteq> [] then
                    map_option (\<lambda>r. Some (r, now'))
                      (set_epoll_fd_pointers (r\<lparr>rc_epoll_results := map (\<lambda>(p, ev). (Some p, ev)) events\<rparr>))
                  else if (case timeout of Some timeout_abs \<Rightarrow> timeout_rel_trunc timeout now = timeout_abs - now | None \<Rightarrow> True) then
                    map_option (\<lambda>r. Some (r, now')) (move_first_timers r)
                  else try_again })"

definition wait_for_events :: "wait_env \<Rightarrow> ('j, 'h) BReactor \<Rightarrow> (('j, 'h) BReactor \<times> int) option option" where
  "wait_for_events env r =
     do { ASSERT (\<not> BPendingGroup_HasJobs (rc_pending_jobs r));
          ASSERT (rc_timers_expired_list r = []);
          ASSERT (rc_epoll_results_pos r = length (rc_epoll_results r));
          let r = r\<lparr>rc_epoll_results := [], rc_epoll_results_pos := 0\<rparr>;
          (timeout, moved, r) \<leftarrow>
            (case rc_timers_tree r of
               [] \<Rightarrow> Some (None, False, r)
             | p # ps \<Rightarrow>
                 do { first_timer \<leftarrow> rc_timer r p;
                      ASSERT (tm_state first_timer = TIMER_STATE_RUNNING);
                      (r', moved) \<leftarrow> move_expired_timers (we_now env) r;
                      Some (Some (tm_absTime first_timer), moved, r') });
          if moved then Some (Some (r, we_now env))
          else do { res \<leftarrow> wait_loop timeout (we_now env) (we_waits env) r;
                    case res of
                      None \<Rightarrow> Some None
                    | Some (r, now) \<Rightarrow> map_option (\<lambda>r. Some (r, now)) (reset_limits (rc_active_limits_list r) r) } }"

text \<open>What an iteration of \<open>BReactor_Exec\<close> ends with.\<close>

datatype 'h exec =
    ExecReturn int
  | ExecJob 'h
  | ExecTimer ptr
  | ExecFd ptr "breactor_event set"
  | ExecContinue
  | ExecBlocked

definition reported_events :: "breactor_event set \<Rightarrow> epoll_event set \<Rightarrow> breactor_event set" where
  "reported_events waitEvents ev =
     (if BREACTOR_READ \<in> waitEvents \<and> EPOLLIN \<in> ev then {BREACTOR_READ} else {}) \<union>
     (if BREACTOR_WRITE \<in> waitEvents \<and> EPOLLOUT \<in> ev then {BREACTOR_WRITE} else {}) \<union>
     (if EPOLLERR \<in> ev then {BREACTOR_ERROR} else {}) \<union>
     (if EPOLLHUP \<in> ev then {BREACTOR_HUP} else {})"

definition BReactor_Exec_step :: "int \<Rightarrow> wait_env \<Rightarrow> ('j, 'h) BReactor \<Rightarrow> ('h exec \<times> ('j, 'h) BReactor \<times> int) option" where
  "BReactor_Exec_step clock env r =
     (if rc_exiting r then Some (ExecReturn (rc_exit_code r), r, clock)
      else if BPendingGroup_HasJobs (rc_pending_jobs r) then
        do { (h, g) \<leftarrow> BPendingGroup_ExecuteJob (rc_pending_jobs r); Some (ExecJob h, r\<lparr>rc_pending_jobs := g\<rparr>, clock) }
      else case rc_timers_expired_list r of
        p # ps \<Rightarrow>
          do { bt \<leftarrow> rc_timer r p;
               ASSERT (tm_state bt = TIMER_STATE_EXPIRED);
               Some (ExecTimer p, r\<lparr>rc_timers_expired_list := ps,
                                    rc_timer := (rc_timer r)(p \<mapsto> bt\<lparr>tm_state := TIMER_STATE_INACTIVE\<rparr>)\<rparr>, clock) }
      | [] \<Rightarrow>
          if rc_epoll_results_pos r < length (rc_epoll_results r) then
            (let i = rc_epoll_results_pos r; (q, ev) = rc_epoll_results r ! i; r = r\<lparr>rc_epoll_results_pos := i + 1\<rparr>
             in case q of
                  None \<Rightarrow> Some (ExecContinue, r, clock)
                | Some p \<Rightarrow>
                    do { bfd \<leftarrow> rc_fd r p;
                         ASSERT (bf_active bfd);
                         ASSERT (bf_epoll_returned_ptr bfd = Some i);
                         let r = r\<lparr>rc_fd := (rc_fd r)(p \<mapsto> bfd\<lparr>bf_epoll_returned_ptr := None\<rparr>)\<rparr>;
                         let events = reported_events (bf_waitEvents bfd) ev;
                         if events = {} then Some (ExecContinue, r, clock)
                         else Some (ExecFd p events, r, clock) })
          else
            do { res \<leftarrow> wait_for_events env r;
                 Some (case res of Some (r', now) \<Rightarrow> (ExecContinue, r', now) | None \<Rightarrow> (ExecBlocked, r, clock)) })"

definition BReactor_Quit :: "int \<Rightarrow> ('j, 'h) BReactor \<Rightarrow> ('j, 'h) BReactor" where
  "BReactor_Quit code r = r\<lparr>rc_exiting := True, rc_exit_code := code\<rparr>"

text \<open>\<open>efd_ok\<close>: \<open>epoll_create\<close> succeeded, with an empty set.\<close>

definition BReactor_Init :: "bool \<Rightarrow> ('j, 'h) BReactor \<Rightarrow> ('j, 'h) BReactor option" where
  "BReactor_Init efd_ok r =
     (if efd_ok then
        Some (r\<lparr>rc_exiting := False, rc_pending_jobs := BPendingGroup_Init (rc_pending_jobs r), rc_timers_tree := [],
                rc_timers_expired_list := [], rc_active_limits_list := [], rc_epoll := Map.empty,
                rc_epoll_results := [], rc_epoll_results_pos := 0\<rparr>)
      else None)"

definition BReactor_Free :: "('j, 'h) BReactor \<Rightarrow> unit option" where
  "BReactor_Free r =
     do { ASSERT (\<not> BPendingGroup_HasJobs (rc_pending_jobs r)); ASSERT (rc_timers_tree r = []);
          ASSERT (rc_timers_expired_list r = []); ASSERT (rc_active_limits_list r = []);
          BPendingGroup_Free (rc_pending_jobs r) }"

text \<open>One iteration of \<open>BReactor_Synchronize\<close>: \<open>Inl\<close> is its result, \<open>Inr\<close> the handler of the job it runs.\<close>

definition BReactor_Synchronize_step :: "'j \<Rightarrow> ('j, 'h) BReactor \<Rightarrow> ((bool + 'h) \<times> ('j, 'h) BReactor) option" where
  "BReactor_Synchronize_step ref r =
     (if rc_exiting r then Some (Inl False, r)
      else do { ASSERT (BPendingGroup_HasJobs (rc_pending_jobs r));
                if BPendingGroup_PeekJob (rc_pending_jobs r) = Some ref then Some (Inl True, r)
                else do { (h, g) \<leftarrow> BPendingGroup_ExecuteJob (rc_pending_jobs r); Some (Inr h, r\<lparr>rc_pending_jobs := g\<rparr>) } })"

section \<open>Runs\<close>

text \<open>The calls a program makes on the reactor, from handlers or before it runs, and when it may make them.\<close>

datatype ('j, 'h) reactor_call =
    CallJob "('j, 'h) pg_cmd"
  | CallTimerInit ptr BSmallTimer "int option"
  | CallSetTimer ptr
  | CallSetTimerAfter ptr int
  | CallSetTimerAbsolute ptr int
  | CallRemoveTimer ptr
  | CallFdInit ptr BFileDescriptor int
  | CallAddFd bool ptr
  | CallRemoveFd ptr
  | CallSetFdEvents ptr "breactor_event set"
  | CallLimitInit ptr int
  | CallLimitFree ptr
  | CallLimitIncrement ptr
  | CallLimitSet ptr int
  | CallQuit int

fun job_allowed :: "('j, 'h) pg_cmd \<Rightarrow> ('j, 'h) BPendingGroup \<Rightarrow> bool" where
  "job_allowed (PgInit e h) g \<longleftrightarrow> pg_handler g e = None"
| "job_allowed (PgFree e) g \<longleftrightarrow> pg_handler g e \<noteq> None"
| "job_allowed (PgSetHandler e h) g \<longleftrightarrow> pg_handler g e \<noteq> None"
| "job_allowed (PgSet e) g \<longleftrightarrow> pg_handler g e \<noteq> None"
| "job_allowed (PgUnset e) g \<longleftrightarrow> pg_handler g e \<noteq> None"
| "job_allowed (PgIsSet e) g \<longleftrightarrow> pg_handler g e \<noteq> None"
| "job_allowed PgExecute g \<longleftrightarrow> False"
| "job_allowed PgPeek g \<longleftrightarrow> True"
| "job_allowed PgHasJobs g \<longleftrightarrow> True"

definition fd_is_active :: "ptr \<Rightarrow> ('j, 'h) BReactor \<Rightarrow> bool" where
  "fd_is_active p r = (case rc_fd r p of None \<Rightarrow> False | Some bs \<Rightarrow> bf_active bs)"

fun call_allowed :: "('j, 'h) reactor_call \<Rightarrow> ('j, 'h) BReactor \<Rightarrow> bool" where
  "call_allowed (CallJob c) r \<longleftrightarrow> job_allowed c (rc_pending_jobs r)"
| "call_allowed (CallTimerInit p mem ms) r \<longleftrightarrow> p \<notin> set (rc_timers_tree r) \<and> p \<notin> set (rc_timers_expired_list r)"
| "call_allowed (CallSetTimer p) r \<longleftrightarrow> rc_timer r p \<noteq> None"
| "call_allowed (CallSetTimerAfter p t) r \<longleftrightarrow> rc_timer r p \<noteq> None"
| "call_allowed (CallSetTimerAbsolute p t) r \<longleftrightarrow> rc_timer r p \<noteq> None"
| "call_allowed (CallRemoveTimer p) r \<longleftrightarrow> rc_timer r p \<noteq> None"
| "call_allowed (CallFdInit p mem fd) r \<longleftrightarrow> \<not> fd_is_active p r"
| "call_allowed (CallAddFd ok p) r \<longleftrightarrow> rc_fd r p \<noteq> None \<and> \<not> fd_is_active p r"
| "call_allowed (CallRemoveFd p) r \<longleftrightarrow> fd_is_active p r"
| "call_allowed (CallSetFdEvents p ev) r \<longleftrightarrow> fd_is_active p r \<and> ev \<subseteq> {BREACTOR_READ, BREACTOR_WRITE}"
| "call_allowed (CallLimitInit p limit) r \<longleftrightarrow> rc_limit r p = None \<and> limit > 0"
| "call_allowed (CallLimitFree p) r \<longleftrightarrow> rc_limit r p \<noteq> None"
| "call_allowed (CallLimitIncrement p) r \<longleftrightarrow> rc_limit r p \<noteq> None"
| "call_allowed (CallLimitSet p limit) r \<longleftrightarrow> rc_limit r p \<noteq> None \<and> limit > 0"
| "call_allowed (CallQuit code) r \<longleftrightarrow> True"

fun do_call :: "int \<Rightarrow> ('j, 'h) reactor_call \<Rightarrow> ('j, 'h) BReactor \<Rightarrow> ('j, 'h) BReactor option" where
  "do_call now (CallJob c) r = map_option (\<lambda>(g, out). r\<lparr>rc_pending_jobs := g\<rparr>) (group_cmd c (rc_pending_jobs r))"
| "do_call now (CallTimerInit p mem ms) r =
     Some (case ms of None \<Rightarrow> BSmallTimer_Init mem p r | Some msTime \<Rightarrow> BTimer_Init mem p msTime r)"
| "do_call now (CallSetTimer p) r = BReactor_SetTimer now p r"
| "do_call now (CallSetTimerAfter p t) r = BReactor_SetTimerAfter now p t r"
| "do_call now (CallSetTimerAbsolute p t) r = BReactor_SetTimerAbsolute now p t r"
| "do_call now (CallRemoveTimer p) r = BReactor_RemoveTimer p r"
| "do_call now (CallFdInit p mem fd) r = Some (BFileDescriptor_Init mem p fd r)"
| "do_call now (CallAddFd ok p) r = map_option fst (BReactor_AddFileDescriptor ok p r)"
| "do_call now (CallRemoveFd p) r = BReactor_RemoveFileDescriptor p r"
| "do_call now (CallSetFdEvents p ev) r = BReactor_SetFileDescriptorEvents p ev r"
| "do_call now (CallLimitInit p limit) r = BReactorLimit_Init p limit r"
| "do_call now (CallLimitFree p) r = BReactorLimit_Free p r"
| "do_call now (CallLimitIncrement p) r = map_option fst (BReactorLimit_Increment p r)"
| "do_call now (CallLimitSet p limit) r = BReactorLimit_SetLimit p limit r"
| "do_call now (CallQuit code) r = Some (BReactor_Quit code r)"

text \<open>
  What the kernel promises: \<open>epoll_wait\<close> reports descriptors of the set, each once and at most as many as asked
  for; with no descriptor to report it returns when the timeout has passed, and without a timeout not at all; the
  clock does not go back.
\<close>

definition epoll_ok :: "(ptr \<times> epoll_event set) list \<Rightarrow> ('j, 'h) BReactor \<Rightarrow> bool" where
  "epoll_ok events r \<longleftrightarrow>
     distinct (map fst events) \<and> length events \<le> BSYSTEM_MAX_RESULTS \<and> (\<forall>(p, ev) \<in> set events. \<exists>fd want. rc_epoll r fd = Some (want, p))"

fun waits_ok :: "int option \<Rightarrow> int \<Rightarrow> (epoll_result \<times> int) list \<Rightarrow> ('j, 'h) BReactor \<Rightarrow> bool" where
  "waits_ok timeout now [] r \<longleftrightarrow> True"
| "waits_ok timeout now ((res, now') # rest) r \<longleftrightarrow>
     now \<le> now' \<and> waits_ok timeout now' rest r \<and>
     (case res of
        EpollInterrupted \<Rightarrow> True
      | EpollError \<Rightarrow> False
      | EpollReturned events \<Rightarrow>
          epoll_ok events r \<and> (events = [] \<longrightarrow> timeout \<noteq> None \<and> now + timeout_rel_trunc timeout now \<le> now'))"

definition env_ok :: "int \<Rightarrow> wait_env \<Rightarrow> ('j, 'h) BReactor \<Rightarrow> bool" where
  "env_ok clock env r \<longleftrightarrow>
     clock \<le> we_now env \<and>
     waits_ok (case rc_timers_tree r of [] \<Rightarrow> None | p # _ \<Rightarrow> Some (tm_absTime (the (rc_timer r p)))) (we_now env) (we_waits env) r"

text \<open>The states of a reactor with the time, from the initialisation on.\<close>

inductive reactor_reach :: "('j, 'h) BReactor \<Rightarrow> int \<Rightarrow> bool" where
  reach_init: "\<lbrakk>rc_timer r0 = Map.empty; rc_fd r0 = Map.empty; rc_limit r0 = Map.empty; BReactor_Init True r0 = Some r\<rbrakk> \<Longrightarrow> reactor_reach r clock"
| reach_time: "\<lbrakk>reactor_reach r clock; clock \<le> clock'\<rbrakk> \<Longrightarrow> reactor_reach r clock'"
| reach_call: "\<lbrakk>reactor_reach r clock; call_allowed c r; do_call clock c r = Some r'\<rbrakk> \<Longrightarrow> reactor_reach r' clock"
| reach_exec: "\<lbrakk>reactor_reach r clock; env_ok clock env r; BReactor_Exec_step clock env r = Some (res, r', clock')\<rbrakk> \<Longrightarrow> reactor_reach r' clock'"

section \<open>The invariant\<close>

definition timer_before :: "(ptr \<rightharpoonup> BSmallTimer) \<Rightarrow> ptr \<Rightarrow> ptr \<Rightarrow> bool" where
  "timer_before h p q \<longleftrightarrow>
     tm_absTime (the (h p)) < tm_absTime (the (h q)) \<or> tm_absTime (the (h p)) = tm_absTime (the (h q)) \<and> p < q"

definition timers_ok :: "(ptr \<rightharpoonup> BSmallTimer) \<Rightarrow> ptr list \<Rightarrow> ptr list \<Rightarrow> bool" where
  "timers_ok h tree expired \<longleftrightarrow>
     distinct tree \<and> distinct expired \<and> sorted_wrt (timer_before h) tree \<and>
     (\<forall>p. p \<in> set tree \<longleftrightarrow> (\<exists>t. h p = Some t \<and> tm_state t = TIMER_STATE_RUNNING)) \<and>
     (\<forall>p. p \<in> set expired \<longleftrightarrow> (\<exists>t. h p = Some t \<and> tm_state t = TIMER_STATE_EXPIRED))"

definition due :: "(ptr \<rightharpoonup> BSmallTimer) \<Rightarrow> ptr list \<Rightarrow> int \<Rightarrow> bool" where
  "due h expired clock \<longleftrightarrow> (\<forall>p \<in> set expired. tm_absTime (the (h p)) \<le> clock)"

definition fds_ok :: "(ptr \<rightharpoonup> BFileDescriptor) \<Rightarrow> (int \<rightharpoonup> epoll_event set \<times> ptr) \<Rightarrow> bool" where
  "fds_ok h ep \<longleftrightarrow>
     (\<forall>p bs. h p = Some bs \<and> bf_active bs \<longrightarrow>
        ep (bf_fd bs) = Some (epoll_events_of (bf_waitEvents bs), p) \<and> bf_waitEvents bs \<subseteq> {BREACTOR_READ, BREACTOR_WRITE}) \<and>
     (\<forall>fd ev p. ep fd = Some (ev, p) \<longrightarrow> (\<exists>bs. h p = Some bs \<and> bf_active bs \<and> bf_fd bs = fd))"

definition results_ok :: "(ptr \<rightharpoonup> BFileDescriptor) \<Rightarrow> (ptr option \<times> epoll_event set) list \<Rightarrow> nat \<Rightarrow> bool" where
  "results_ok h results pos \<longleftrightarrow>
     pos \<le> length results \<and>
     (\<forall>i p. pos \<le> i \<and> i < length results \<and> fst (results ! i) = Some p \<longrightarrow>
        (\<exists>bs. h p = Some bs \<and> bf_active bs \<and> bf_epoll_returned_ptr bs = Some i)) \<and>
     (\<forall>p bs i. h p = Some bs \<and> bf_active bs \<and> bf_epoll_returned_ptr bs = Some i \<longrightarrow>
        pos \<le> i \<and> i < length results \<and> fst (results ! i) = Some p)"

definition limits_ok :: "(ptr \<rightharpoonup> BReactorLimit) \<Rightarrow> ptr list \<Rightarrow> bool" where
  "limits_ok h active \<longleftrightarrow>
     distinct active \<and> (\<forall>p. p \<in> set active \<longleftrightarrow> (\<exists>bl. h p = Some bl \<and> bl_count bl > 0)) \<and>
     (\<forall>p bl. h p = Some bl \<longrightarrow> 0 \<le> bl_count bl \<and> 0 < bl_limit bl)"

definition rc_inv :: "('j, 'h) BReactor \<Rightarrow> int \<Rightarrow> bool" where
  "rc_inv r clock \<longleftrightarrow>
     (\<exists>m js. pg_rep (rc_pending_jobs r) m js) \<and>
     timers_ok (rc_timer r) (rc_timers_tree r) (rc_timers_expired_list r) \<and> due (rc_timer r) (rc_timers_expired_list r) clock \<and>
     fds_ok (rc_fd r) (rc_epoll r) \<and> results_ok (rc_fd r) (rc_epoll_results r) (rc_epoll_results_pos r) \<and>
     limits_ok (rc_limit r) (rc_active_limits_list r)"

lemma rc_invD:
  assumes "rc_inv r clock"
  shows "\<exists>m js. pg_rep (rc_pending_jobs r) m js" "timers_ok (rc_timer r) (rc_timers_tree r) (rc_timers_expired_list r)"
    "due (rc_timer r) (rc_timers_expired_list r) clock" "fds_ok (rc_fd r) (rc_epoll r)"
    "results_ok (rc_fd r) (rc_epoll_results r) (rc_epoll_results_pos r)" "limits_ok (rc_limit r) (rc_active_limits_list r)"
  using assms by (simp_all add: rc_inv_def)

section \<open>Timers keep the invariant\<close>

lemma timer_before_trans: "\<lbrakk>timer_before h p q; timer_before h q s\<rbrakk> \<Longrightarrow> timer_before h p s"
  by (auto simp: timer_before_def)

lemma compare_timers_less: "compare_timers h p q < 0 \<longleftrightarrow> timer_before h p q"
  by (auto simp: compare_timers_def timer_before_def B_COMPARE_def Let_def)

lemma not_before: "\<lbrakk>\<not> timer_before h p q; p \<noteq> q\<rbrakk> \<Longrightarrow> timer_before h q p"
  by (auto simp: timer_before_def)

lemma set_Insert [simp]: "set (TimersTree_Insert h p ps) = insert p (set ps)"
  by (induction ps) auto

lemma distinct_Insert: "\<lbrakk>distinct ps; p \<notin> set ps\<rbrakk> \<Longrightarrow> distinct (TimersTree_Insert h p ps)"
  by (induction ps) auto

lemma sorted_Insert:
  "\<lbrakk>sorted_wrt (timer_before h) ps; p \<notin> set ps\<rbrakk> \<Longrightarrow> sorted_wrt (timer_before h) (TimersTree_Insert h p ps)"
  by (induction ps) (auto simp: compare_timers_less intro: timer_before_trans not_before)

lemma sorted_timers_cong:
  "\<lbrakk>sorted_wrt (timer_before h) ps; \<forall>p \<in> set ps. tm_absTime (the (h' p)) = tm_absTime (the (h p))\<rbrakk> \<Longrightarrow> sorted_wrt (timer_before h') ps"
  by (induction ps) (auto simp: timer_before_def)

lemma timers_okD:
  assumes "timers_ok h tree expired"
  shows "distinct tree" "distinct expired" "sorted_wrt (timer_before h) tree"
    "p \<in> set tree \<longleftrightarrow> (\<exists>t. h p = Some t \<and> tm_state t = TIMER_STATE_RUNNING)"
    "p \<in> set expired \<longleftrightarrow> (\<exists>t. h p = Some t \<and> tm_state t = TIMER_STATE_EXPIRED)"
  using assms by (simp_all add: timers_ok_def)

text \<open>A timer that is in neither list may be overwritten; one that is taken out becomes inactive.\<close>

lemma timers_ok_inactive:
  assumes "timers_ok h tree expired" "h p = Some bt" "t = bt\<lparr>tm_state := TIMER_STATE_INACTIVE\<rparr>"
  shows "timers_ok (h(p \<mapsto> t)) (remove1 p tree) (remove1 p expired)"
proof -
  note d = timers_okD [OF assms(1)]
  have "sorted_wrt (timer_before (h(p \<mapsto> t))) (remove1 p tree)"
    using sorted_wrt_remove1 [OF d(3), of p] by (rule sorted_timers_cong) (use assms d(1) in auto)
  then show ?thesis using d assms by (auto simp: timers_ok_def)
qed

lemma timers_ok_fresh:
  assumes "timers_ok h tree expired" "p \<notin> set tree" "p \<notin> set expired" "tm_state t = TIMER_STATE_INACTIVE"
  shows "timers_ok (h(p \<mapsto> t)) tree expired"
proof -
  note d = timers_okD [OF assms(1)]
  have "sorted_wrt (timer_before (h(p \<mapsto> t))) tree" using d(3) by (rule sorted_timers_cong) (use assms in auto)
  then show ?thesis using d assms by (auto simp: timers_ok_def)
qed

lemma timers_ok_insert:
  assumes "timers_ok h tree expired" "p \<notin> set tree" "p \<notin> set expired" "tm_state t = TIMER_STATE_RUNNING"
  shows "timers_ok (h(p \<mapsto> t)) (TimersTree_Insert (h(p \<mapsto> t)) p tree) expired"
proof -
  note d = timers_okD [OF assms(1)]
  have "sorted_wrt (timer_before (h(p \<mapsto> t))) tree" using d(3) by (rule sorted_timers_cong) (use assms in auto)
  then show ?thesis using d assms sorted_Insert distinct_Insert by (auto simp: timers_ok_def)
qed

lemma timers_ok_expire:
  assumes "timers_ok h (p # ps) expired" "h p = Some bt"
  shows "timers_ok (h(p \<mapsto> bt\<lparr>tm_state := TIMER_STATE_EXPIRED\<rparr>)) ps (expired @ [p])" "tm_state bt = TIMER_STATE_RUNNING"
proof -
  note d = timers_okD [OF assms(1)]
  have st: "tm_state bt = TIMER_STATE_RUNNING" using d(4) [of p] assms(2) by auto
  then have "p \<notin> set expired" using d(5) [of p] assms(2) by auto
  moreover have "sorted_wrt (timer_before (h(p \<mapsto> bt\<lparr>tm_state := TIMER_STATE_EXPIRED\<rparr>))) ps"
    by (rule sorted_timers_cong [of h]) (use d(1,3) in auto)
  ultimately show "timers_ok (h(p \<mapsto> bt\<lparr>tm_state := TIMER_STATE_EXPIRED\<rparr>)) ps (expired @ [p])"
    using d assms(2) by (auto simp: timers_ok_def)
  show "tm_state bt = TIMER_STATE_RUNNING" by (rule st)
qed

lemma due_cong: "\<lbrakk>due h ps clock; \<forall>p \<in> set ps'. p \<in> set ps \<and> tm_absTime (the (h' p)) = tm_absTime (the (h p))\<rbrakk> \<Longrightarrow> due h' ps' clock"
  by (auto simp: due_def)

lemma RemoveSmallTimer_inv:
  assumes "rc_inv r clock" "rc_timer r p \<noteq> None"
  shows "\<exists>r' t. BReactor_RemoveSmallTimer p r = Some r' \<and> rc_inv r' clock \<and> rc_timer r' p = Some t \<and>
    p \<notin> set (rc_timers_tree r') \<and> p \<notin> set (rc_timers_expired_list r')"
proof -
  obtain bt where bt: "rc_timer r p = Some bt" using assms(2) by auto
  note i = rc_invD [OF assms(1)] and d = timers_okD [OF rc_invD(2) [OF assms(1)]]
  note ok = timers_ok_inactive [OF i(2) bt refl]
  have due: "due ((rc_timer r)(p \<mapsto> bt\<lparr>tm_state := TIMER_STATE_INACTIVE\<rparr>)) (remove1 p (rc_timers_expired_list r)) clock"
    using i(3) by (rule due_cong) (use bt in \<open>auto dest: set_mp [OF set_remove1_subset]\<close>)
  show ?thesis
    using i bt ok due d(4,5) [of p] remove1_idem [of p "rc_timers_tree r"] remove1_idem [of p "rc_timers_expired_list r"] d(1,2)
    by (cases "tm_state bt") (auto simp: BReactor_RemoveSmallTimer_def rc_inv_def)
qed

lemma SetSmallTimer_inv:
  assumes "rc_inv r clock" "rc_timer r p \<noteq> None"
  shows "\<exists>r'. BReactor_SetSmallTimer now p mode t r = Some r' \<and> rc_inv r' clock"
proof -
  obtain r1 bt where r1: "BReactor_RemoveSmallTimer p r = Some r1" "rc_inv r1 clock" "rc_timer r1 p = Some bt"
    "p \<notin> set (rc_timers_tree r1)" "p \<notin> set (rc_timers_expired_list r1)"
    using RemoveSmallTimer_inv [OF assms] by auto
  note i = rc_invD [OF r1(2)]
  define bt' where "bt' = bt\<lparr>tm_absTime := (if mode = BTIMER_SET_RELATIVE then btime_add now t else t), tm_state := TIMER_STATE_RUNNING\<rparr>"
  have "timers_ok ((rc_timer r1)(p \<mapsto> bt')) (TimersTree_Insert ((rc_timer r1)(p \<mapsto> bt')) p (rc_timers_tree r1)) (rc_timers_expired_list r1)"
    by (rule timers_ok_insert [OF i(2) r1(4,5)]) (simp add: bt'_def)
  moreover have "due ((rc_timer r1)(p \<mapsto> bt')) (rc_timers_expired_list r1) clock"
    using i(3) by (rule due_cong) (use r1(5) in auto)
  ultimately show ?thesis using r1 i by (simp add: BReactor_SetSmallTimer_def Let_def rc_inv_def bt'_def)
qed

text \<open>The timers in front of the tree that are due at a time are moved, in order.\<close>

abbreviation early :: "int \<Rightarrow> ('j, 'h) BReactor \<Rightarrow> ptr \<Rightarrow> bool" where
  "early now r p \<equiv> tm_absTime (the (rc_timer r p)) \<le> now"

definition expired_upto :: "int \<Rightarrow> ('j, 'h) BReactor \<Rightarrow> ('j, 'h) BReactor \<Rightarrow> bool" where
  "expired_upto now r r' \<longleftrightarrow>
     (\<exists>h. r' = r\<lparr>rc_timers_tree := dropWhile (early now r) (rc_timers_tree r),
             rc_timers_expired_list := rc_timers_expired_list r @ takeWhile (early now r) (rc_timers_tree r), rc_timer := h\<rparr> \<and>
          timers_ok h (rc_timers_tree r') (rc_timers_expired_list r') \<and>
          (\<forall>q. map_option tm_absTime (h q) = map_option tm_absTime (rc_timer r q)))"

lemma absTime_the: "\<lbrakk>map_option tm_absTime (h q) = map_option tm_absTime (h' q); h' q \<noteq> None\<rbrakk> \<Longrightarrow> tm_absTime (the (h q)) = tm_absTime (the (h' q))"
  by auto

lemma expired_upto_step:
  assumes tree: "rc_timers_tree r = p # ps" and p: "rc_timer r p = Some bt" "tm_absTime bt \<le> now"
    and ok: "timers_ok (rc_timer r) (p # ps) (rc_timers_expired_list r)"
    and rec: "expired_upto now (expire_timer p bt ps r) r'"
  shows "expired_upto now r r'"
proof -
  let ?r = "expire_timer p bt ps r"
  have "early now ?r q \<longleftrightarrow> early now r q" for q using p by (simp add: expire_timer_def)
  then have early: "early now ?r = early now r" by blast
  obtain h where h: "r' = ?r\<lparr>rc_timers_tree := dropWhile (early now r) ps,
      rc_timers_expired_list := rc_timers_expired_list r @ [p] @ takeWhile (early now r) ps, rc_timer := h\<rparr>"
      "timers_ok h (rc_timers_tree r') (rc_timers_expired_list r')" "\<forall>q. map_option tm_absTime (h q) = map_option tm_absTime (rc_timer ?r q)"
    using rec unfolding expired_upto_def early by (auto simp: expire_timer_def)
  have "\<forall>q. map_option tm_absTime (h q) = map_option tm_absTime (rc_timer r q)" using h(3) p by (auto simp: expire_timer_def)
  moreover have "r' = r\<lparr>rc_timers_tree := dropWhile (early now r) (rc_timers_tree r),
      rc_timers_expired_list := rc_timers_expired_list r @ takeWhile (early now r) (rc_timers_tree r), rc_timer := h\<rparr>"
    using h(1) tree p by (simp add: expire_timer_def)
  ultimately show ?thesis using h(2) by (auto simp: expired_upto_def)
qed

lemma expired_upto_stop:
  "\<lbrakk>timers_ok (rc_timer r) (rc_timers_tree r) (rc_timers_expired_list r); rc_timers_tree r \<noteq> [] \<longrightarrow> \<not> early now r (hd (rc_timers_tree r))\<rbrakk> \<Longrightarrow>
     expired_upto now r r"
  unfolding expired_upto_def by (rule exI [of _ "rc_timer r"], cases "rc_timers_tree r"; cases r) auto

lemma move_expired_loop_spec:
  "\<lbrakk>timers_ok (rc_timer r) ps (rc_timers_expired_list r); rc_timers_tree r = ps\<rbrakk> \<Longrightarrow>
     \<exists>r'. move_expired_loop now ps moved r = Some (r', moved \<or> (ps \<noteq> [] \<and> early now r (hd ps))) \<and> expired_upto now r r'"
proof (induction ps arbitrary: r moved)
  case Nil
  then show ?case using expired_upto_stop [of r now] by simp
next
  case (Cons p ps)
  obtain bt where bt: "rc_timer r p = Some bt" using timers_okD(4) [OF Cons.prems(1), of p] by auto
  note e = timers_ok_expire [OF Cons.prems(1) bt]
  show ?case
  proof (cases "tm_absTime bt > now")
    case True
    then show ?thesis using bt e(2) Cons.prems expired_upto_stop [of r now] by simp
  next
    case False
    have "timers_ok (rc_timer (expire_timer p bt ps r)) ps (rc_timers_expired_list (expire_timer p bt ps r))" "rc_timers_tree (expire_timer p bt ps r) = ps"
      using e(1) by (simp_all add: expire_timer_def)
    from Cons.IH [OF this, of True] show ?thesis
      using False bt e(2) expired_upto_step [OF Cons.prems(2) bt _ Cons.prems(1)] by fastforce
  qed
qed

lemma move_first_loop_spec:
  "\<lbrakk>timers_ok (rc_timer r) ps (rc_timers_expired_list r); rc_timers_tree r = ps; \<forall>p \<in> set ps. first_time \<le> tm_absTime (the (rc_timer r p))\<rbrakk> \<Longrightarrow>
     \<exists>r'. move_first_loop first_time ps r = Some r' \<and> expired_upto first_time r r'"
proof (induction ps arbitrary: r)
  case Nil
  then show ?case using expired_upto_stop [of r first_time] by simp
next
  case (Cons p ps)
  obtain bt where bt: "rc_timer r p = Some bt" using timers_okD(4) [OF Cons.prems(1), of p] by auto
  note e = timers_ok_expire [OF Cons.prems(1) bt]
  show ?case
  proof (cases "tm_absTime bt > first_time")
    case True
    then show ?thesis using bt e(2) Cons.prems expired_upto_stop [of r first_time] by simp
  next
    case False
    have "timers_ok (rc_timer (expire_timer p bt ps r)) ps (rc_timers_expired_list (expire_timer p bt ps r))" "rc_timers_tree (expire_timer p bt ps r) = ps"
      "\<forall>q \<in> set ps. first_time \<le> tm_absTime (the (rc_timer (expire_timer p bt ps r) q))"
      using e(1) Cons.prems(3) timers_okD(1) [OF Cons.prems(1)] by (auto simp: expire_timer_def)
    from Cons.IH [OF this] show ?thesis
      using False bt e(2) Cons.prems(3) expired_upto_step [OF Cons.prems(2) bt _ Cons.prems(1)] by fastforce
  qed
qed

lemma move_first_timers_spec:
  assumes "timers_ok (rc_timer r) (rc_timers_tree r) (rc_timers_expired_list r)" "rc_timers_tree r = p # ps"
  shows "\<exists>r'. move_first_timers r = Some r' \<and> expired_upto (tm_absTime (the (rc_timer r p))) r r'"
proof -
  obtain bt where bt: "rc_timer r p = Some bt" using timers_okD(4) [OF assms(1), of p] assms(2) by auto
  have ok: "timers_ok (rc_timer r) (p # ps) (rc_timers_expired_list r)" using assms by simp
  note e = timers_ok_expire [OF ok bt]
  let ?r = "expire_timer p bt ps r"
  have "\<forall>q \<in> set ps. tm_absTime bt \<le> tm_absTime (the (rc_timer r q))" "p \<notin> set ps"
    using timers_okD(1,3) [OF ok] bt by (auto simp: timer_before_def)
  then have "timers_ok (rc_timer ?r) ps (rc_timers_expired_list ?r)" "rc_timers_tree ?r = ps" "\<forall>q \<in> set ps. tm_absTime bt \<le> tm_absTime (the (rc_timer ?r q))"
    using e(1) by (auto simp: expire_timer_def)
  from move_first_loop_spec [OF this] show ?thesis
    using e(2) bt assms(2) expired_upto_step [OF assms(2) bt _ ok] by (fastforce simp: move_first_timers_def)
qed

text \<open>Moving timers that are due at the time keeps the invariant.\<close>

lemma expired_upto_inv:
  assumes "rc_inv r clock" "expired_upto now r r'" "clock \<le> clock'" "now \<le> clock'"
  shows "rc_inv r' clock'" "rc_epoll_results r' = rc_epoll_results r" "rc_active_limits_list r' = rc_active_limits_list r"
    "rc_timers_expired_list r' = rc_timers_expired_list r @ takeWhile (early now r) (rc_timers_tree r)"
proof -
  note i = rc_invD [OF assms(1)]
  obtain h where r': "r' = r\<lparr>rc_timers_tree := dropWhile (early now r) (rc_timers_tree r),
      rc_timers_expired_list := rc_timers_expired_list r @ takeWhile (early now r) (rc_timers_tree r), rc_timer := h\<rparr>"
    and ok: "timers_ok h (rc_timers_tree r') (rc_timers_expired_list r')" and h: "\<forall>q. map_option tm_absTime (h q) = map_option tm_absTime (rc_timer r q)"
    using assms(2) by (auto simp: expired_upto_def)
  have known: "rc_timer r q \<noteq> None" if "q \<in> set (rc_timers_tree r) \<union> set (rc_timers_expired_list r)" for q
    using that timers_okD(4,5) [OF i(2), of q] by auto
  have "due h (rc_timers_expired_list r') clock'"
    unfolding due_def
  proof
    fix q assume "q \<in> set (rc_timers_expired_list r')"
    then consider "q \<in> set (rc_timers_expired_list r)" | "q \<in> set (rc_timers_tree r)" "early now r q" using r' by (auto dest: set_takeWhileD)
    then show "tm_absTime (the (h q)) \<le> clock'"
      using absTime_the [of h q "rc_timer r"] h known [of q] i(3) assms(3,4) by cases (auto simp: due_def)
  qed
  then show "rc_inv r' clock'" using i ok r' by (simp add: rc_inv_def)
  show "rc_epoll_results r' = rc_epoll_results r" "rc_active_limits_list r' = rc_active_limits_list r"
    "rc_timers_expired_list r' = rc_timers_expired_list r @ takeWhile (early now r) (rc_timers_tree r)" using r' by simp_all
qed

section \<open>Descriptors and limits keep the invariant\<close>

lemma fds_okD:
  assumes "fds_ok h ep"
  shows "\<lbrakk>h p = Some bs; bf_active bs\<rbrakk> \<Longrightarrow> ep (bf_fd bs) = Some (epoll_events_of (bf_waitEvents bs), p)"
    "\<lbrakk>h p = Some bs; bf_active bs\<rbrakk> \<Longrightarrow> bf_waitEvents bs \<subseteq> {BREACTOR_READ, BREACTOR_WRITE}"
    "ep fd = Some (ev, p) \<Longrightarrow> \<exists>bs. h p = Some bs \<and> bf_active bs \<and> bf_fd bs = fd"
  using assms by (auto simp: fds_ok_def)

lemma fds_ok_inactive:
  assumes "fds_ok h ep" "h p = None \<or> \<not> bf_active (the (h p))" "\<not> bf_active bs"
  shows "fds_ok (h(p \<mapsto> bs)) ep"
proof -
  have "q \<noteq> p" if "ep fd = Some (ev, q)" for fd ev q using fds_okD(3) [OF assms(1) that] assms(2) by auto
  then show ?thesis using assms(1,3) by (fastforce simp: fds_ok_def)
qed

lemma results_ok_inactive:
  "\<lbrakk>results_ok h results pos; h p = None \<or> \<not> bf_active (the (h p)); \<not> bf_active bs\<rbrakk> \<Longrightarrow> results_ok (h(p \<mapsto> bs)) results pos"
  by (fastforce simp: results_ok_def)

lemma fd_is_activeD: "fd_is_active p r \<longleftrightarrow> (\<exists>bs. rc_fd r p = Some bs \<and> bf_active bs)"
  by (auto simp: fd_is_active_def split: option.splits)

lemma results_okD:
  assumes "results_ok h results pos"
  shows "pos \<le> length results"
    "\<lbrakk>pos \<le> i; i < length results; fst (results ! i) = Some p\<rbrakk> \<Longrightarrow> \<exists>bs. h p = Some bs \<and> bf_active bs \<and> bf_epoll_returned_ptr bs = Some i"
    "\<lbrakk>h p = Some bs; bf_active bs; bf_epoll_returned_ptr bs = Some i\<rbrakk> \<Longrightarrow> pos \<le> i \<and> i < length results \<and> fst (results ! i) = Some p"
  using assms unfolding results_ok_def by blast+

lemma results_okI:
  assumes "pos \<le> length results"
    "\<And>i p. \<lbrakk>pos \<le> i; i < length results; fst (results ! i) = Some p\<rbrakk> \<Longrightarrow> \<exists>bs. h p = Some bs \<and> bf_active bs \<and> bf_epoll_returned_ptr bs = Some i"
    "\<And>p bs i. \<lbrakk>h p = Some bs; bf_active bs; bf_epoll_returned_ptr bs = Some i\<rbrakk> \<Longrightarrow> pos \<le> i \<and> i < length results \<and> fst (results ! i) = Some p"
  shows "results_ok h results pos"
  using assms unfolding results_ok_def by blast

lemma AddFd_inv:
  assumes inv: "rc_inv r clock" and p: "rc_fd r p = Some bs" "\<not> bf_active bs"
  shows "\<exists>r' b. BReactor_AddFileDescriptor ok p r = Some (r', b) \<and> rc_inv r' clock"
proof (cases "\<not> ok \<or> rc_epoll r (bf_fd bs) \<noteq> None")
  case True
  then show ?thesis using inv p by (auto simp: BReactor_AddFileDescriptor_def)
next
  case False
  note i = rc_invD [OF inv]
  let ?bs = "bs\<lparr>bf_epoll_returned_ptr := None, bf_active := True, bf_waitEvents := {}\<rparr>"
  have "q \<noteq> p" if "rc_epoll r fd = Some (ev, q)" for fd ev q using fds_okD(3) [OF i(4) that] p by auto
  moreover have "bf_fd cs \<noteq> bf_fd bs" if "rc_fd r q = Some cs" "bf_active cs" for q cs using fds_okD(1) [OF i(4) that] False by auto
  ultimately have "fds_ok ((rc_fd r)(p \<mapsto> ?bs)) ((rc_epoll r)(bf_fd bs \<mapsto> ({}, p)))"
    using i(4) by (fastforce simp: fds_ok_def epoll_events_of_def)
  moreover have "results_ok ((rc_fd r)(p \<mapsto> ?bs)) (rc_epoll_results r) (rc_epoll_results_pos r)"
    using i(5) p by (fastforce simp: results_ok_def)
  ultimately show ?thesis using i p False by (auto simp: BReactor_AddFileDescriptor_def rc_inv_def)
qed

lemma RemoveFd_inv:
  assumes inv: "rc_inv r clock" and p: "rc_fd r p = Some bs" "bf_active bs"
  shows "\<exists>r'. BReactor_RemoveFileDescriptor p r = Some r' \<and> rc_inv r' clock \<and> \<not> fd_is_active p r'"
proof -
  note i = rc_invD [OF inv]
  have ep: "rc_epoll r (bf_fd bs) = Some (epoll_events_of (bf_waitEvents bs), p)" by (rule fds_okD(1) [OF i(4) p])
  let ?h = "(rc_fd r)(p \<mapsto> bs\<lparr>bf_active := False\<rparr>)" and ?ep = "(rc_epoll r)(bf_fd bs := None)"
  have "\<exists>cs. ?h q = Some cs \<and> bf_active cs \<and> bf_fd cs = fd" if "?ep fd = Some (ev, q)" for fd ev q
    using that fds_okD(3) [OF i(4), of fd ev q] p by (auto split: if_splits)
  moreover have "?ep (bf_fd cs) = Some (epoll_events_of (bf_waitEvents cs), q) \<and> bf_waitEvents cs \<subseteq> {BREACTOR_READ, BREACTOR_WRITE}"
    if "?h q = Some cs" "bf_active cs" for q cs
    using that fds_okD(1,2) [OF i(4), of q cs] ep by (auto split: if_splits)
  ultimately have fds: "fds_ok ?h ?ep" unfolding fds_ok_def by blast
  show ?thesis
  proof (cases "bf_epoll_returned_ptr bs")
    case None
    have "results_ok ?h (rc_epoll_results r) (rc_epoll_results_pos r)"
    proof (rule results_okI)
      fix k q assume "rc_epoll_results_pos r \<le> k" "k < length (rc_epoll_results r)" "fst (rc_epoll_results r ! k) = Some q"
      from results_okD(2) [OF i(5) this] None p show "\<exists>bs. ?h q = Some bs \<and> bf_active bs \<and> bf_epoll_returned_ptr bs = Some k" by auto
    qed (use results_okD(1,3) [OF i(5)] in \<open>auto split: if_splits\<close>)
    then show ?thesis using i fds ep p None by (simp add: BReactor_RemoveFileDescriptor_def rc_inv_def fd_is_activeD)
  next
    case (Some k)
    have k: "rc_epoll_results_pos r \<le> k" "k < length (rc_epoll_results r)" "fst (rc_epoll_results r ! k) = Some p"
      using i(5) p Some by (auto simp: results_ok_def)
    let ?res = "(rc_epoll_results r)[k := (None, snd (rc_epoll_results r ! k))]"
    have "results_ok ?h ?res (rc_epoll_results_pos r)"
    proof (rule results_okI)
      fix j q assume j: "rc_epoll_results_pos r \<le> j" "j < length ?res" "fst (?res ! j) = Some q"
      then have "j \<noteq> k" using k(2) by auto
      with j results_okD(2) [OF i(5), of j q] p Some show "\<exists>bs. ?h q = Some bs \<and> bf_active bs \<and> bf_epoll_returned_ptr bs = Some j" by auto
    next
      fix q cs j assume q: "?h q = Some cs" "bf_active cs" "bf_epoll_returned_ptr cs = Some j"
      then have "q \<noteq> p" by auto
      moreover from this have "j \<noteq> k" using q k(3) results_okD(3) [OF i(5), of q cs j] by auto
      ultimately show "rc_epoll_results_pos r \<le> j \<and> j < length ?res \<and> fst (?res ! j) = Some q"
        using q results_okD(3) [OF i(5), of q cs j] by simp
    qed (use results_okD(1) [OF i(5)] in simp)
    then show ?thesis using i fds ep p Some k by (simp add: BReactor_RemoveFileDescriptor_def rc_inv_def fd_is_activeD)
  qed
qed

lemma SetFdEvents_inv:
  assumes inv: "rc_inv r clock" and p: "rc_fd r p = Some bs" "bf_active bs" and ev: "ev \<subseteq> {BREACTOR_READ, BREACTOR_WRITE}"
  shows "\<exists>r'. BReactor_SetFileDescriptorEvents p ev r = Some r' \<and> rc_inv r' clock"
proof (cases "bf_waitEvents bs = ev")
  case True
  then show ?thesis using inv p ev by (auto simp: BReactor_SetFileDescriptorEvents_def)
next
  case False
  note i = rc_invD [OF inv]
  have ep: "rc_epoll r (bf_fd bs) = Some (epoll_events_of (bf_waitEvents bs), p)" by (rule fds_okD(1) [OF i(4) p])
  have other: "bf_fd cs \<noteq> bf_fd bs" if "rc_fd r q = Some cs" "bf_active cs" "q \<noteq> p" for q cs
    using fds_okD(1) [OF i(4) that(1,2)] ep that(3) by auto
  let ?h = "(rc_fd r)(p \<mapsto> bs\<lparr>bf_waitEvents := ev\<rparr>)" and ?ep = "(rc_epoll r)(bf_fd bs \<mapsto> (epoll_events_of ev, p))"
  have "\<exists>cs. ?h q = Some cs \<and> bf_active cs \<and> bf_fd cs = fd" if "?ep fd = Some (e, q)" for fd e q
    using that fds_okD(3) [OF i(4), of fd e q] p by (auto split: if_splits)
  moreover have "?ep (bf_fd cs) = Some (epoll_events_of (bf_waitEvents cs), q) \<and> bf_waitEvents cs \<subseteq> {BREACTOR_READ, BREACTOR_WRITE}"
    if "?h q = Some cs" "bf_active cs" for q cs
    using that fds_okD(1,2) [OF i(4), of q cs] other [of q cs] ev p by (auto split: if_splits)
  ultimately have "fds_ok ?h ?ep" unfolding fds_ok_def by blast
  moreover have "results_ok ?h (rc_epoll_results r) (rc_epoll_results_pos r)" using i(5) p by (fastforce simp: results_ok_def)
  ultimately show ?thesis using i ep p ev False by (simp add: BReactor_SetFileDescriptorEvents_def rc_inv_def)
qed

lemma limits_okD:
  assumes "limits_ok h active"
  shows "distinct active" "p \<in> set active \<longleftrightarrow> (\<exists>bl. h p = Some bl \<and> bl_count bl > 0)" "h p = Some bl \<Longrightarrow> 0 \<le> bl_count bl \<and> 0 < bl_limit bl"
  using assms by (auto simp: limits_ok_def)

lemma limit_calls_inv:
  assumes inv: "rc_inv r clock"
  shows "\<lbrakk>rc_limit r p = None; limit > 0\<rbrakk> \<Longrightarrow> \<exists>r'. BReactorLimit_Init p limit r = Some r' \<and> rc_inv r' clock"
    "rc_limit r p = Some bl \<Longrightarrow> \<exists>r'. BReactorLimit_Free p r = Some r' \<and> rc_inv r' clock"
    "rc_limit r p = Some bl \<Longrightarrow> \<exists>r' b. BReactorLimit_Increment p r = Some (r', b) \<and> rc_inv r' clock"
    "\<lbrakk>rc_limit r p = Some bl; limit > 0\<rbrakk> \<Longrightarrow> \<exists>r'. BReactorLimit_SetLimit p limit r = Some r' \<and> rc_inv r' clock"
proof -
  note i = rc_invD [OF inv] and l = limits_okD [OF rc_invD(6) [OF inv]]
  show "\<exists>r'. BReactorLimit_Init p limit r = Some r' \<and> rc_inv r' clock" if "rc_limit r p = None" "limit > 0"
    using i l that by (auto simp: BReactorLimit_Init_def rc_inv_def limits_ok_def)
  show "\<exists>r'. BReactorLimit_Free p r = Some r' \<and> rc_inv r' clock" if "rc_limit r p = Some bl"
    using i l(1) l(2) [of p] l(2,3) that by (auto simp: BReactorLimit_Free_def rc_inv_def limits_ok_def)
  show "\<exists>r' b. BReactorLimit_Increment p r = Some (r', b) \<and> rc_inv r' clock" if "rc_limit r p = Some bl"
  proof -
    have "bl_count bl = 0 \<or> 0 < bl_count bl" using l(3) [OF that] by auto
    then show ?thesis
      using inv i l(1) l(2) [of p] l(2) l(3) that by (elim disjE) (auto simp: BReactorLimit_Increment_def rc_inv_def limits_ok_def)
  qed
  show "\<exists>r'. BReactorLimit_SetLimit p limit r = Some r' \<and> rc_inv r' clock" if "rc_limit r p = Some bl" "limit > 0"
    using i l(1) l(2) [of p] l(2) l(3) [OF that(1)] l(3) that by (auto simp: BReactorLimit_SetLimit_def rc_inv_def limits_ok_def)
qed

lemma reset_limits_inv:
  "\<lbrakk>rc_inv r clock; rc_active_limits_list r = ps\<rbrakk> \<Longrightarrow>
     \<exists>h. reset_limits ps r = Some (r\<lparr>rc_limit := h, rc_active_limits_list := []\<rparr>) \<and> rc_inv (r\<lparr>rc_limit := h, rc_active_limits_list := []\<rparr>) clock"
proof (induction ps arbitrary: r)
  case Nil
  then show ?case by (intro exI [of _ "rc_limit r"]) (cases r, auto)
next
  case (Cons p ps)
  note i = rc_invD [OF Cons.prems(1)] and l = limits_okD [OF rc_invD(6) [OF Cons.prems(1)]]
  obtain bl where bl: "rc_limit r p = Some bl" "bl_count bl > 0" using l(2) [of p] Cons.prems(2) by auto
  let ?r = "r\<lparr>rc_limit := (rc_limit r)(p \<mapsto> bl\<lparr>bl_count := 0\<rparr>), rc_active_limits_list := ps\<rparr>"
  have "limits_ok ((rc_limit r)(p \<mapsto> bl\<lparr>bl_count := 0\<rparr>)) ps"
    using l(1) l(2) l(3) [OF bl(1)] l(3) Cons.prems(2) by (auto simp: limits_ok_def)
  then have "rc_inv ?r clock" using i by (simp add: rc_inv_def)
  from Cons.IH [OF this] bl show ?case by auto
qed

lemma call_inv:
  assumes inv: "rc_inv r clock" and ok: "call_allowed c r"
  shows "\<exists>r'. do_call now c r = Some r' \<and> rc_inv r' clock"
proof -
  note i = rc_invD [OF inv]
  show ?thesis
  proof (cases c)
    case (CallJob cmd)
    obtain m js where rep: "pg_rep (rc_pending_jobs r) m js" using i(1) by blast
    then have "stack_cmd cmd (m, js) \<noteq> None" using ok CallJob pg_repD(2) [OF rep] by (cases cmd) auto
    then obtain m' js' out where "stack_cmd cmd (m, js) = Some ((m', js'), out)" by (cases "stack_cmd cmd (m, js)") auto
    from group_cmd_refines [OF rep this] obtain g' where "group_cmd cmd (rc_pending_jobs r) = Some (g', out)" "pg_rep g' m' js'" by blast
    then show ?thesis using CallJob i by (simp add: rc_inv_def) blast
  next
    case (CallTimerInit p mem ms)
    then have p: "p \<notin> set (rc_timers_tree r)" "p \<notin> set (rc_timers_expired_list r)" using ok by auto
    have "due ((rc_timer r)(p \<mapsto> t)) (rc_timers_expired_list r) clock" for t using i(3) by (rule due_cong) (use p in auto)
    then show ?thesis
      using CallTimerInit i timers_ok_fresh [OF i(2) p] by (auto simp: rc_inv_def BSmallTimer_Init_def BTimer_Init_def split: option.splits)
  next
    case (CallFdInit p mem fd)
    then show ?thesis
      using ok i fds_ok_inactive [OF i(4), of p] results_ok_inactive [OF i(5), of p]
      by (auto simp: rc_inv_def BFileDescriptor_Init_def fd_is_active_def split: option.splits)
  next
    case (CallAddFd b p)
    then show ?thesis using ok AddFd_inv [OF inv, of p _ b] by (fastforce simp: fd_is_activeD)
  next
    case (CallRemoveFd p)
    then show ?thesis using ok RemoveFd_inv [OF inv, of p] by (fastforce simp: fd_is_activeD)
  next
    case (CallSetFdEvents p ev)
    then show ?thesis using ok SetFdEvents_inv [OF inv, of p _ ev] by (fastforce simp: fd_is_activeD)
  next
    case (CallLimitInit p limit)
    then show ?thesis using ok limit_calls_inv(1) [OF inv, of p limit] by simp
  next
    case (CallLimitFree p)
    then show ?thesis using ok limit_calls_inv(2) [OF inv, of p] by auto
  next
    case (CallLimitIncrement p)
    then show ?thesis using ok limit_calls_inv(3) [OF inv, of p] by fastforce
  next
    case (CallLimitSet p limit)
    then show ?thesis using ok limit_calls_inv(4) [OF inv, of p _ limit] by auto
  next
    case (CallQuit code)
    then show ?thesis using inv by (simp add: BReactor_Quit_def rc_inv_def)
  next
    case (CallRemoveTimer p)
    then show ?thesis using ok RemoveSmallTimer_inv [OF inv, of p] by (auto simp: BReactor_RemoveTimer_def)
  qed (use ok SetSmallTimer_inv [OF inv] in \<open>auto simp: BReactor_SetTimer_def BReactor_SetTimerAfter_def BReactor_SetTimerAbsolute_def\<close>)
qed

section \<open>The loop keeps the invariant\<close>

lemma set_pointers_spec:
  "\<lbrakk>distinct (map fst es); \<forall>(p, ev) \<in> set es. \<exists>bs. rc_fd r p = Some bs \<and> bf_active bs \<and> bf_epoll_returned_ptr bs = None\<rbrakk> \<Longrightarrow>
     \<exists>h. set_pointers_from i (map (\<lambda>(p, ev). (Some p, ev)) es) r = Some (r\<lparr>rc_fd := h\<rparr>) \<and>
       (\<forall>k < length es. h (fst (es ! k)) = Some ((the (rc_fd r (fst (es ! k))))\<lparr>bf_epoll_returned_ptr := Some (i + k)\<rparr>)) \<and>
       (\<forall>p. p \<notin> fst ` set es \<longrightarrow> h p = rc_fd r p)"
proof (induction es arbitrary: i r)
  case Nil
  then show ?case by (intro exI [of _ "rc_fd r"]) (cases r, simp)
next
  case (Cons e es)
  obtain p ev where e: "e = (p, ev)" by (cases e)
  obtain bs where bs: "rc_fd r p = Some bs" "bf_active bs" "bf_epoll_returned_ptr bs = None" using Cons.prems(2) e by auto
  let ?r = "r\<lparr>rc_fd := (rc_fd r)(p \<mapsto> bs\<lparr>bf_epoll_returned_ptr := Some i\<rparr>)\<rparr>"
  have p: "p \<notin> fst ` set es" using Cons.prems(1) e by auto
  have "\<forall>(q, ev) \<in> set es. \<exists>bs. rc_fd ?r q = Some bs \<and> bf_active bs \<and> bf_epoll_returned_ptr bs = None" using Cons.prems(2) p by force
  from Cons.IH [OF _ this, of "Suc i"] Cons.prems(1)
  obtain h where h: "set_pointers_from (Suc i) (map (\<lambda>(p, ev). (Some p, ev)) es) ?r = Some (?r\<lparr>rc_fd := h\<rparr>)"
    "\<forall>k < length es. h (fst (es ! k)) = Some ((the (rc_fd ?r (fst (es ! k))))\<lparr>bf_epoll_returned_ptr := Some (Suc i + k)\<rparr>)"
    "\<forall>q. q \<notin> fst ` set es \<longrightarrow> h q = rc_fd ?r q" by auto
  have "h (fst ((e # es) ! k)) = Some ((the (rc_fd r (fst ((e # es) ! k))))\<lparr>bf_epoll_returned_ptr := Some (i + k)\<rparr>)" if "k < length (e # es)" for k
  proof (cases k)
    case 0
    then show ?thesis using h(3) p e bs by simp
  next
    case (Suc j)
    then have "fst (es ! j) \<noteq> p" using p that by force
    then show ?thesis using h(2) Suc that by simp
  qed
  then show ?case using h(1,3) e bs by (intro exI [of _ h]) auto
qed

lemma set_epoll_fd_pointers_inv:
  assumes inv: "rc_inv r clock" and res: "rc_epoll_results r = []" "rc_epoll_results_pos r = 0" and ok: "epoll_ok events r"
  shows "\<exists>r'. set_epoll_fd_pointers (r\<lparr>rc_epoll_results := map (\<lambda>(p, ev). (Some p, ev)) events\<rparr>) = Some r' \<and> rc_inv r' clock \<and>
    rc_timers_expired_list r' = rc_timers_expired_list r \<and> rc_timers_tree r' = rc_timers_tree r \<and> rc_epoll_results_pos r' < length (rc_epoll_results r') + of_bool (events = []) \<and>
    rc_active_limits_list r' = rc_active_limits_list r"
proof -
  note i = rc_invD [OF inv]
  let ?results = "map (\<lambda>(p, ev). (Some p, ev)) events"
  let ?r = "r\<lparr>rc_epoll_results := ?results\<rparr>"
  have none: "bf_epoll_returned_ptr bs = None" if "rc_fd r p = Some bs" "bf_active bs" for p bs
    using results_okD(3) [OF i(5) that] res by (cases "bf_epoll_returned_ptr bs") auto
  have ready: "\<exists>bs. rc_fd r p = Some bs \<and> bf_active bs \<and> bf_epoll_returned_ptr bs = None" if "(p, ev) \<in> set events" for p ev
    using that ok fds_okD(3) [OF i(4)] none by (fastforce simp: epoll_ok_def)
  have dist: "distinct (map fst events)" using ok by (simp add: epoll_ok_def)
  obtain h where h: "set_pointers_from 0 ?results ?r = Some (?r\<lparr>rc_fd := h\<rparr>)"
    "\<And>k. k < length events \<Longrightarrow> h (fst (events ! k)) = Some ((the (rc_fd r (fst (events ! k))))\<lparr>bf_epoll_returned_ptr := Some k\<rparr>)"
    "\<And>p. p \<notin> fst ` set events \<Longrightarrow> h p = rc_fd r p"
    using set_pointers_spec [OF dist, of ?r 0] ready by auto
  have found: "\<exists>k < length events. p = fst (events ! k)" if "p \<in> fst ` set events" for p using that by (force simp: in_set_conv_nth)
  have same: "\<exists>bs'. rc_fd r p = Some bs' \<and> bf_active bs' = bf_active bs \<and> bf_fd bs' = bf_fd bs \<and> bf_waitEvents bs' = bf_waitEvents bs" if "h p = Some bs" for p bs
  proof (cases "p \<in> fst ` set events")
    case True
    then obtain k where "k < length events" "p = fst (events ! k)" using found by blast
    then show ?thesis using h(2) [of k] that ready [of p "snd (events ! k)"] nth_mem [of k events] by auto
  qed (use h(3) that in auto)
  have kept: "\<exists>bs'. h p = Some bs' \<and> bf_active bs' = bf_active bs \<and> bf_fd bs' = bf_fd bs" if "rc_fd r p = Some bs" for p bs
  proof (cases "p \<in> fst ` set events")
    case True
    then obtain k where "k < length events" "p = fst (events ! k)" using found by blast
    then show ?thesis using h(2) [of k] that by auto
  qed (use h(3) that in auto)
  have "fds_ok h (rc_epoll r)"
    unfolding fds_ok_def
  proof (intro conjI allI impI)
    fix p bs assume "h p = Some bs \<and> bf_active bs"
    with same [of p bs] fds_okD(1,2) [OF i(4), of p]
    show "rc_epoll r (bf_fd bs) = Some (epoll_events_of (bf_waitEvents bs), p)" "bf_waitEvents bs \<subseteq> {BREACTOR_READ, BREACTOR_WRITE}" by auto
  next
    fix fd ev p assume "rc_epoll r fd = Some (ev, p)"
    from fds_okD(3) [OF i(4) this] kept [of p] show "\<exists>bs. h p = Some bs \<and> bf_active bs \<and> bf_fd bs = fd" by auto
  qed
  moreover have "results_ok h ?results 0"
  proof (rule results_okI)
    fix k p assume "k < length ?results" "fst (?results ! k) = Some p"
    then have k: "k < length events" "p = fst (events ! k)" by (auto simp: case_prod_beta)
    then show "\<exists>bs. h p = Some bs \<and> bf_active bs \<and> bf_epoll_returned_ptr bs = Some k"
      using h(2) [of k] ready [of p "snd (events ! k)"] nth_mem [of k events] by auto
  next
    fix p bs k assume p: "h p = Some bs" "bf_active bs" "bf_epoll_returned_ptr bs = Some k"
    then have "p \<in> fst ` set events" using h(3) [of p] none [of p bs] by (metis option.distinct(1))
    then obtain j where j: "j < length events" "p = fst (events ! j)" using found by blast
    then have "j = k" using h(2) [of j] p by auto
    then show "0 \<le> k \<and> k < length ?results \<and> fst (?results ! k) = Some p" using j by (simp add: case_prod_beta)
  qed simp
  ultimately show ?thesis using i h(1) res by (auto simp: set_epoll_fd_pointers_def rc_inv_def)
qed

text \<open>
  How a wait ends: after it the loop has timers to dispatch or descriptors to look at.
\<close>

definition woken :: "('j, 'h) BReactor \<Rightarrow> bool" where
  "woken r \<longleftrightarrow> rc_timers_expired_list r \<noteq> [] \<or> rc_epoll_results_pos r < length (rc_epoll_results r)"

lemma rc_inv_later: "\<lbrakk>rc_inv r clock; clock \<le> clock'\<rbrakk> \<Longrightarrow> rc_inv r clock'"
  by (fastforce simp: rc_inv_def due_def)

text \<open>A wait moves the timers of the tree that are due at some time, in order, and leaves the others.\<close>

definition timers_cut :: "int \<Rightarrow> ('j, 'h) BReactor \<Rightarrow> ('j, 'h) BReactor \<Rightarrow> bool" where
  "timers_cut t r r' \<longleftrightarrow>
     rc_timers_expired_list r' = filter (early t r) (rc_timers_tree r) \<and>
     rc_timers_tree r' = filter (\<lambda>p. \<not> early t r p) (rc_timers_tree r)"

lemma sorted_cut:
  "sorted_wrt (timer_before (rc_timer r)) ps \<Longrightarrow>
     takeWhile (early t r) ps = filter (early t r) ps \<and> dropWhile (early t r) ps = filter (\<lambda>p. \<not> early t r p) ps"
proof (induction ps)
  case (Cons p ps)
  have "filter (early t r) ps = []" "filter (\<lambda>q. \<not> early t r q) ps = ps" if "\<not> early t r p"
    using that Cons.prems by (auto simp: filter_empty_conv filter_id_conv timer_before_def)
  then show ?case using Cons by auto
qed simp

lemma expired_upto_cut:
  assumes "timers_ok (rc_timer r) (rc_timers_tree r) (rc_timers_expired_list r)" "rc_timers_expired_list r = []" "expired_upto t r r'"
  shows "timers_cut t r r'"
  using assms(2,3) sorted_cut [OF timers_okD(3) [OF assms(1)], of t] by (auto simp: timers_cut_def expired_upto_def)

lemma timers_cut_none:
  assumes ok: "timers_ok (rc_timer r) (rc_timers_tree r) (rc_timers_expired_list r)"
    and first: "\<And>p ps. rc_timers_tree r = p # ps \<Longrightarrow> t < tm_absTime (the (rc_timer r p))"
    and same: "rc_timers_tree r' = rc_timers_tree r" "rc_timers_expired_list r' = []"
  shows "timers_cut t r r'"
proof (cases "rc_timers_tree r")
  case (Cons p ps)
  with first [OF Cons] sorted_cut [OF timers_okD(3) [OF ok], of t] same show ?thesis by (auto simp: timers_cut_def)
qed (use same in \<open>simp add: timers_cut_def\<close>)

lemma move_first_inv:
  assumes inv: "rc_inv r clock" and tree: "rc_timers_tree r = p # ps" and t: "tm_absTime (the (rc_timer r p)) \<le> now'" "clock \<le> now'"
    and none: "rc_timers_expired_list r = []"
  shows "\<exists>r'. move_first_timers r = Some r' \<and> rc_inv r' now' \<and> woken r' \<and> timers_cut (tm_absTime (the (rc_timer r p))) r r'"
proof -
  obtain r' where r': "move_first_timers r = Some r'" "expired_upto (tm_absTime (the (rc_timer r p))) r r'"
    using move_first_timers_spec [OF rc_invD(2) [OF inv] tree] by blast
  from expired_upto_inv [OF inv r'(2) t(2,1)] expired_upto_cut [OF rc_invD(2) [OF inv] none r'(2)] r'(1) tree
  show ?thesis by (auto simp: woken_def)
qed

definition wait_done :: "('j, 'h) BReactor \<Rightarrow> int \<Rightarrow> ('j, 'h) BReactor \<Rightarrow> int \<Rightarrow> bool" where
  "wait_done r start r' now' \<longleftrightarrow> rc_inv r' now' \<and> start \<le> now' \<and> woken r' \<and> (\<exists>t. start \<le> t \<and> t \<le> now' \<and> timers_cut t r r')"

definition still_waiting :: "int option \<Rightarrow> (epoll_result \<times> int) list \<Rightarrow> bool" where
  "still_waiting timeout waits \<longleftrightarrow>
     (\<forall>(res, now') \<in> set waits. res \<in> {EpollInterrupted, EpollReturned []} \<and> (\<forall>ta. timeout = Some ta \<longrightarrow> now' < ta))"

lemma wait_loop_inv:
  assumes inv: "rc_inv r clock" and res: "rc_epoll_results r = []" "rc_epoll_results_pos r = 0" "rc_timers_expired_list r = []"
    and timeout: "timeout = (case rc_timers_tree r of [] \<Rightarrow> None | p # _ \<Rightarrow> Some (tm_absTime (the (rc_timer r p))))"
    and start: "clock \<le> start" "\<And>ta. timeout = Some ta \<Longrightarrow> start < ta"
    and ok: "waits_ok timeout now waits r" "start \<le> now"
  shows "(\<exists>r' now'. wait_loop timeout now waits r = Some (Some (r', now')) \<and> wait_done r start r' now') \<or>
    wait_loop timeout now waits r = Some None \<and> still_waiting timeout waits"
  using ok
proof (induction waits arbitrary: now)
  case (Cons w waits)
  obtain out now' where w: "w = (out, now')" by (cases w)
  have t: "now \<le> now'" "waits_ok timeout now' waits r" "start \<le> now'" "clock \<le> now'" using Cons.prems w start by auto
  let ?good = "\<lambda>y. (\<exists>r' now'. y = Some (Some (r', now')) \<and> wait_done r start r' now') \<or>
    y = Some None \<and> still_waiting timeout ((out, now') # waits)"
  have first: "?good (map_option (\<lambda>r. Some (r, now')) (move_first_timers r))" if ta: "timeout = Some ta" "ta \<le> now'" for ta
  proof -
    obtain p ps where tree: "rc_timers_tree r = p # ps" "ta = tm_absTime (the (rc_timer r p))"
      using timeout ta(1) by (cases "rc_timers_tree r") auto
    from move_first_inv [OF inv tree(1) _ t(4) res(3)] ta start(2) [OF ta(1)] t(3) tree(2)
    show ?thesis by (fastforce simp: wait_done_def)
  qed
  have again: "?good (case timeout of Some ta \<Rightarrow> if now' \<ge> ta then map_option (\<lambda>r. Some (r, now')) (move_first_timers r) else wait_loop timeout now' waits r
       | None \<Rightarrow> wait_loop timeout now' waits r)" if "out \<in> {EpollInterrupted, EpollReturned []}"
    using first Cons.IH [OF t(2,3)] that by (cases timeout) (auto simp: still_waiting_def)
  show ?case
  proof (cases out)
    case EpollInterrupted
    then show ?thesis using again w by simp
  next
    case EpollError
    then show ?thesis using Cons.prems w by simp
  next
    case (EpollReturned events)
    then have ev: "epoll_ok events r" "events = [] \<longrightarrow> timeout \<noteq> None \<and> now + timeout_rel_trunc timeout now \<le> now'" "length events \<le> BSYSTEM_MAX_RESULTS"
      using Cons.prems w by (auto simp: epoll_ok_def)
    show ?thesis
    proof (cases "events = []")
      case True
      then obtain ta where ta: "timeout = Some ta" "now + timeout_rel_trunc timeout now \<le> now'" using ev(2) by auto
      show ?thesis
      proof (cases "timeout_rel_trunc timeout now = ta - now")
        case True
        then show ?thesis using ta \<open>events = []\<close> EpollReturned w first [of ta] by (simp add: BSYSTEM_MAX_RESULTS_def)
      next
        case False
        with again ta(1) show ?thesis using \<open>events = []\<close> EpollReturned w
          by (simp add: BSYSTEM_MAX_RESULTS_def split del: if_split cong: if_cong)
      qed
    next
      case False
      obtain r' where r': "set_epoll_fd_pointers (r\<lparr>rc_epoll_results := map (\<lambda>(p, ev). (Some p, ev)) events\<rparr>) = Some r'" "rc_inv r' now'"
        "rc_timers_expired_list r' = []" "rc_timers_tree r' = rc_timers_tree r" "rc_epoll_results_pos r' < length (rc_epoll_results r')"
        using set_epoll_fd_pointers_inv [OF rc_inv_later [OF inv t(4)] res(1,2) ev(1)] False res(3) by auto
      have "timers_cut start r r'" by (rule timers_cut_none [OF rc_invD(2) [OF inv] _ r'(4,3)]) (use start(2) timeout in auto)
      then have "wait_done r start r' now'" using r' t(3) by (auto simp: wait_done_def woken_def)
      then show ?thesis using EpollReturned w ev(3) r'(1) False by auto
    qed
  qed
qed (simp add: still_waiting_def)

lemma epoll_ok_results [simp]: "epoll_ok events (r\<lparr>rc_epoll_results := es, rc_epoll_results_pos := i\<rparr>) = epoll_ok events r"
  by (simp add: epoll_ok_def)

lemma waits_ok_results [simp]: "waits_ok timeout now waits (r\<lparr>rc_epoll_results := es, rc_epoll_results_pos := i\<rparr>) = waits_ok timeout now waits r"
  by (induction waits arbitrary: now) (auto split: epoll_result.splits)

lemma results_ok_cleared: "results_ok h results (length results) \<Longrightarrow> results_ok h [] 0"
  by (fastforce simp: results_ok_def)

lemma timers_cut_cleared [simp]: "timers_cut t (r\<lparr>rc_epoll_results := es, rc_epoll_results_pos := i\<rparr>) r' = timers_cut t r r'"
  by (simp add: timers_cut_def)

text \<open>The reactor has nothing to dispatch.\<close>

definition idle :: "('j, 'h) BReactor \<Rightarrow> bool" where
  "idle r \<longleftrightarrow> \<not> BPendingGroup_HasJobs (rc_pending_jobs r) \<and> rc_timers_expired_list r = [] \<and> rc_epoll_results_pos r = length (rc_epoll_results r)"

definition first_timeout :: "('j, 'h) BReactor \<Rightarrow> int option" where
  "first_timeout r = (case rc_timers_tree r of [] \<Rightarrow> None | p # _ \<Rightarrow> Some (tm_absTime (the (rc_timer r p))))"

lemma idle_cleared:
  assumes "rc_inv r clock" "idle r" "r0 = r\<lparr>rc_epoll_results := [], rc_epoll_results_pos := 0\<rparr>"
  shows "rc_inv r0 clock" "rc_timers_expired_list r0 = []" "rc_timers_tree r0 = rc_timers_tree r" "rc_timer r0 = rc_timer r"
  using assms rc_invD [OF assms(1)] results_ok_cleared [of "rc_fd r" "rc_epoll_results r"] by (simp_all add: rc_inv_def idle_def)

text \<open>When the first timer is due already, the timers that are due are moved and the loop does not wait.\<close>

lemma wait_at_once:
  assumes inv: "rc_inv r clock" and idle: "idle r" and env: "clock \<le> we_now env" and tree: "rc_timers_tree r = p # ps"
    and due: "tm_absTime (the (rc_timer r p)) \<le> we_now env"
  shows "\<exists>r'. wait_for_events env r = Some (Some (r', we_now env)) \<and> wait_done r (we_now env) r' (we_now env)"
proof -
  let ?r = "r\<lparr>rc_epoll_results := [], rc_epoll_results_pos := 0\<rparr>"
  note c = idle_cleared [OF inv idle refl] and t = timers_okD [OF rc_invD(2) [OF inv]]
  obtain bt where bt: "rc_timer r p = Some bt" "tm_state bt = TIMER_STATE_RUNNING" using t(4) [of p] tree by auto
  obtain r' where r': "move_expired_timers (we_now env) ?r = Some (r', True)" "expired_upto (we_now env) ?r r'"
    using move_expired_loop_spec [of ?r "rc_timers_tree ?r" "we_now env" False] rc_invD(2) [OF c(1)] tree due
    by (auto simp: move_expired_timers_def)
  have "wait_done r (we_now env) r' (we_now env)"
    using expired_upto_inv [OF c(1) r'(2) env order_refl] expired_upto_cut [OF rc_invD(2) [OF c(1)] c(2) r'(2)] tree due
    by (auto simp: wait_done_def woken_def)
  then show ?thesis using idle bt tree r'(1) by (auto simp: wait_for_events_def idle_def)
qed

lemma wait_for_events_inv:
  assumes inv: "rc_inv r clock" and idle: "idle r" and env: "env_ok clock env r"
  shows "(\<exists>r' now'. wait_for_events env r = Some (Some (r', now')) \<and> wait_done r (we_now env) r' now') \<or>
    wait_for_events env r = Some None \<and> still_waiting (first_timeout r) (we_waits env)"
proof (cases "\<exists>p ps. rc_timers_tree r = p # ps \<and> tm_absTime (the (rc_timer r p)) \<le> we_now env")
  case True
  then show ?thesis using wait_at_once [OF inv idle] env by (fastforce simp: env_ok_def)
next
  case False
  let ?r = "r\<lparr>rc_epoll_results := [], rc_epoll_results_pos := 0\<rparr>"
  note c = idle_cleared [OF inv idle refl] and t = timers_okD [OF rc_invD(2) [OF inv]]
  have start: "\<And>ta. first_timeout r = Some ta \<Longrightarrow> we_now env < ta" using False by (auto simp: first_timeout_def split: list.splits)
  have tmo: "first_timeout r = (case rc_timers_tree ?r of [] \<Rightarrow> None | p # _ \<Rightarrow> Some (tm_absTime (the (rc_timer ?r p))))"
    by (simp add: first_timeout_def split: list.split)
  have loop: "(\<exists>r' now'. wait_loop (first_timeout r) (we_now env) (we_waits env) ?r = Some (Some (r', now')) \<and> wait_done ?r (we_now env) r' now') \<or>
    wait_loop (first_timeout r) (we_now env) (we_waits env) ?r = Some None \<and> still_waiting (first_timeout r) (we_waits env)"
    using env by (intro wait_loop_inv [OF c(1) _ _ c(2) tmo _ start]) (auto simp: env_ok_def first_timeout_def)
  have step: "wait_for_events env r = do { res \<leftarrow> wait_loop (first_timeout r) (we_now env) (we_waits env) ?r;
        case res of None \<Rightarrow> Some None | Some (r, now) \<Rightarrow> map_option (\<lambda>r. Some (r, now)) (reset_limits (rc_active_limits_list r) r) }"
  proof (cases "rc_timers_tree r")
    case Nil
    then show ?thesis using idle by (simp add: wait_for_events_def idle_def first_timeout_def)
  next
    case (Cons p ps)
    obtain bt where bt: "rc_timer r p = Some bt" "tm_state bt = TIMER_STATE_RUNNING" using t(4) [of p] Cons by auto
    have "move_expired_timers (we_now env) ?r = Some (?r, False)" using False Cons bt by (simp add: move_expired_timers_def)
    then show ?thesis using idle Cons bt by (simp add: wait_for_events_def idle_def first_timeout_def)
  qed
  from loop show ?thesis
  proof
    assume "\<exists>r' now'. wait_loop (first_timeout r) (we_now env) (we_waits env) ?r = Some (Some (r', now')) \<and> wait_done ?r (we_now env) r' now'"
    then obtain r' now' where r': "wait_loop (first_timeout r) (we_now env) (we_waits env) ?r = Some (Some (r', now'))" "wait_done ?r (we_now env) r' now'" by blast
    then obtain h where h: "reset_limits (rc_active_limits_list r') r' = Some (r'\<lparr>rc_limit := h, rc_active_limits_list := []\<rparr>)"
        "rc_inv (r'\<lparr>rc_limit := h, rc_active_limits_list := []\<rparr>) now'"
      using reset_limits_inv [OF _ refl] by (fastforce simp: wait_done_def)
    have "wait_done r (we_now env) (r'\<lparr>rc_limit := h, rc_active_limits_list := []\<rparr>) now'"
      using r'(2) h(2) by (auto simp: wait_done_def woken_def timers_cut_def)
    then show ?thesis using step r'(1) h(1) by auto
  qed (use step in simp)
qed

section \<open>One iteration\<close>

lemma reported_sound: "reported_events want ev \<subseteq> want \<union> {BREACTOR_ERROR, BREACTOR_HUP}"
  by (auto simp: reported_events_def)

text \<open>What an iteration does, by its result.\<close>

definition exec_ok :: "int \<Rightarrow> wait_env \<Rightarrow> ('j, 'h) BReactor \<Rightarrow> 'h exec \<Rightarrow> ('j, 'h) BReactor \<Rightarrow> bool" where
  "exec_ok clock env r res r' =
     (case res of
        ExecReturn code \<Rightarrow> rc_exiting r \<and> code = rc_exit_code r
      | ExecJob h \<Rightarrow> (\<exists>j. BPendingGroup_PeekJob (rc_pending_jobs r) = Some j \<and> pg_handler (rc_pending_jobs r) j = Some h)
      | ExecTimer p \<Rightarrow>
          \<not> BPendingGroup_HasJobs (rc_pending_jobs r) \<and>
          (\<exists>bt. rc_timer r p = Some bt \<and> tm_state bt = TIMER_STATE_EXPIRED \<and> tm_absTime bt \<le> clock) \<and> BSmallTimer_IsRunning p r' = Some False
      | ExecFd p events \<Rightarrow>
          \<not> BPendingGroup_HasJobs (rc_pending_jobs r) \<and> rc_timers_expired_list r = [] \<and> events \<noteq> {} \<and>
          (\<exists>bs. rc_fd r p = Some bs \<and> bf_active bs \<and> events \<subseteq> bf_waitEvents bs \<union> {BREACTOR_ERROR, BREACTOR_HUP})
      | ExecContinue \<Rightarrow> rc_epoll_results_pos r < length (rc_epoll_results r) \<or> idle r \<and> woken r'
      | ExecBlocked \<Rightarrow> idle r \<and> r' = r \<and> still_waiting (first_timeout r) (we_waits env))"

lemma exec_job:
  assumes inv: "rc_inv r clock" and s: "\<not> rc_exiting r" "BPendingGroup_HasJobs (rc_pending_jobs r)"
  shows "\<exists>h r'. BReactor_Exec_step clock env r = Some (ExecJob h, r', clock) \<and> rc_inv r' clock \<and> exec_ok clock env r (ExecJob h) r'"
proof -
  obtain m js where rep: "pg_rep (rc_pending_jobs r) m js" using rc_invD(1) [OF inv] by blast
  note q = pg_queries [OF rep]
  obtain j js' where js: "js = j # js'" using q(2) s(2) by (cases js) auto
  obtain g' h where g: "m j = Some h" "BPendingGroup_ExecuteJob (rc_pending_jobs r) = Some (h, g')" "pg_rep g' m js'"
    using pg_Execute [of "rc_pending_jobs r" m j js'] rep js by blast
  have "rc_inv (r\<lparr>rc_pending_jobs := g'\<rparr>) clock" using rc_invD [OF inv] g(3) by (auto simp: rc_inv_def)
  then show ?thesis using s g q(3) js pg_repD(2) [OF rep] by (auto simp: BReactor_Exec_step_def exec_ok_def)
qed

lemma exec_timer:
  assumes inv: "rc_inv r clock" and s: "\<not> rc_exiting r" "\<not> BPendingGroup_HasJobs (rc_pending_jobs r)" "rc_timers_expired_list r = p # ps"
  shows "\<exists>r'. BReactor_Exec_step clock env r = Some (ExecTimer p, r', clock) \<and> rc_inv r' clock \<and> exec_ok clock env r (ExecTimer p) r'"
proof -
  note i = rc_invD [OF inv] and t = timers_okD [OF rc_invD(2) [OF inv]]
  obtain bt where bt: "rc_timer r p = Some bt" "tm_state bt = TIMER_STATE_EXPIRED" using t(5) [of p] s(3) by auto
  let ?h = "(rc_timer r)(p \<mapsto> bt\<lparr>tm_state := TIMER_STATE_INACTIVE\<rparr>)"
  have "p \<notin> set (rc_timers_tree r)" using t(4) [of p] bt by auto
  then have "timers_ok ?h (rc_timers_tree r) ps"
    using timers_ok_inactive [OF i(2) bt(1) refl] s(3) bt by (simp add: remove1_idem)
  moreover have "due ?h ps clock" using i(3) by (rule due_cong) (use s(3) bt in auto)
  moreover have "tm_absTime bt \<le> clock" using i(3) s(3) bt by (auto simp: due_def)
  ultimately show ?thesis
    using i s bt by (auto simp: BReactor_Exec_step_def exec_ok_def rc_inv_def BSmallTimer_IsRunning_def)
qed

lemma fds_ok_same:
  assumes ok: "fds_ok h ep" and bs: "h p = Some bs" "bf_active bs' = bf_active bs" "bf_fd bs' = bf_fd bs" "bf_waitEvents bs' = bf_waitEvents bs"
  shows "fds_ok (h(p \<mapsto> bs')) ep"
proof -
  have kept: "(\<exists>bs'. h q = Some bs' \<and> bf_active bs' \<and> bf_fd bs' = fd) \<Longrightarrow> \<exists>b. (h(p \<mapsto> bs')) q = Some b \<and> bf_active b \<and> bf_fd b = fd" for q fd
    using bs by (cases "q = p") auto
  have same: "(h(p \<mapsto> bs')) q = Some b \<Longrightarrow> \<exists>b'. h q = Some b' \<and> bf_active b' = bf_active b \<and> bf_fd b' = bf_fd b \<and> bf_waitEvents b' = bf_waitEvents b" for q b
    using bs by (cases "q = p") auto
  show ?thesis unfolding fds_ok_def
  proof (intro conjI allI impI)
    fix q b assume "(h(p \<mapsto> bs')) q = Some b \<and> bf_active b"
    with same [of q b] fds_okD(1,2) [OF ok, of q]
    show "ep (bf_fd b) = Some (epoll_events_of (bf_waitEvents b), q)" "bf_waitEvents b \<subseteq> {BREACTOR_READ, BREACTOR_WRITE}" by auto
  next
    fix fd ev q assume "ep fd = Some (ev, q)"
    from kept [OF fds_okD(3) [OF ok this]] show "\<exists>b. (h(p \<mapsto> bs')) q = Some b \<and> bf_active b \<and> bf_fd b = fd" .
  qed
qed

lemma exec_fd:
  assumes inv: "rc_inv r clock" and s: "\<not> rc_exiting r" "\<not> BPendingGroup_HasJobs (rc_pending_jobs r)" "rc_timers_expired_list r = []"
    and pos: "rc_epoll_results_pos r < length (rc_epoll_results r)"
  shows "\<exists>res r'. BReactor_Exec_step clock env r = Some (res, r', clock) \<and> rc_inv r' clock \<and> exec_ok clock env r res r'"
proof -
  note i = rc_invD [OF inv] and ro = results_okD [OF rc_invD(5) [OF inv]]
  let ?i = "rc_epoll_results_pos r"
  obtain q ev where qe: "rc_epoll_results r ! ?i = (q, ev)" by (cases "rc_epoll_results r ! ?i")
  have next_pos: "results_ok (rc_fd r) (rc_epoll_results r) (?i + 1)" if "q = None"
  proof (rule results_okI)
    fix p bs k assume "rc_fd r p = Some bs" "bf_active bs" "bf_epoll_returned_ptr bs = Some k"
    with ro(3) [of p bs k] qe that show "?i + 1 \<le> k \<and> k < length (rc_epoll_results r) \<and> fst (rc_epoll_results r ! k) = Some p"
      by (cases "k = ?i") auto
  qed (use pos ro(2) in auto)
  show ?thesis
  proof (cases q)
    case None
    then show ?thesis using s pos qe next_pos i by (auto simp: BReactor_Exec_step_def exec_ok_def rc_inv_def)
  next
    case (Some p)
    obtain bs where bs: "rc_fd r p = Some bs" "bf_active bs" "bf_epoll_returned_ptr bs = Some ?i" using ro(2) [of ?i p] pos qe Some by auto
    let ?h = "(rc_fd r)(p \<mapsto> bs\<lparr>bf_epoll_returned_ptr := None\<rparr>)"
    have "results_ok ?h (rc_epoll_results r) (?i + 1)"
    proof (rule results_okI)
      fix k p' assume k: "?i + 1 \<le> k" "k < length (rc_epoll_results r)" "fst (rc_epoll_results r ! k) = Some p'"
      then obtain bs' where "rc_fd r p' = Some bs'" "bf_active bs'" "bf_epoll_returned_ptr bs' = Some k" using ro(2) [of k p'] by auto
      then show "\<exists>bs'. ?h p' = Some bs' \<and> bf_active bs' \<and> bf_epoll_returned_ptr bs' = Some k" using bs k(1) by (cases "p' = p") auto
    next
      fix p' bs' k assume k: "?h p' = Some bs'" "bf_active bs'" "bf_epoll_returned_ptr bs' = Some k"
      then have "p' \<noteq> p" using bs by auto
      then show "?i + 1 \<le> k \<and> k < length (rc_epoll_results r) \<and> fst (rc_epoll_results r ! k) = Some p'"
        using ro(3) [of p' bs' k] k qe Some by (cases "k = ?i") auto
    qed (use pos in auto)
    moreover have "fds_ok ?h (rc_epoll r)" by (rule fds_ok_same [OF i(4) bs(1)]) simp_all
    ultimately have "rc_inv (r\<lparr>rc_epoll_results_pos := ?i + 1, rc_fd := ?h\<rparr>) clock" using i by (simp add: rc_inv_def)
    then show ?thesis
      using s pos qe Some bs reported_sound [of "bf_waitEvents bs" ev] by (auto simp: BReactor_Exec_step_def exec_ok_def Let_def)
  qed
qed

lemma exec_wait:
  assumes inv: "rc_inv r clock" and s: "\<not> rc_exiting r" "idle r" and env: "env_ok clock env r"
  shows "(\<exists>r' clock'. BReactor_Exec_step clock env r = Some (ExecContinue, r', clock') \<and> wait_done r (we_now env) r' clock') \<or>
    BReactor_Exec_step clock env r = Some (ExecBlocked, r, clock) \<and> still_waiting (first_timeout r) (we_waits env)"
  using wait_for_events_inv [OF inv s(2) env] s by (auto simp: BReactor_Exec_step_def idle_def)

lemma exec_step_inv:
  assumes inv: "rc_inv r clock" and env: "env_ok clock env r"
  shows "\<exists>res r' clock'. BReactor_Exec_step clock env r = Some (res, r', clock') \<and> rc_inv r' clock' \<and> clock \<le> clock' \<and> exec_ok clock env r res r'"
proof -
  consider "rc_exiting r" | "\<not> rc_exiting r" "BPendingGroup_HasJobs (rc_pending_jobs r)"
    | p ps where "\<not> rc_exiting r" "\<not> BPendingGroup_HasJobs (rc_pending_jobs r)" "rc_timers_expired_list r = p # ps"
    | "\<not> rc_exiting r" "\<not> BPendingGroup_HasJobs (rc_pending_jobs r)" "rc_timers_expired_list r = []" "rc_epoll_results_pos r < length (rc_epoll_results r)"
    | "\<not> rc_exiting r" "idle r"
    using results_okD(1) [OF rc_invD(5) [OF inv]] by (cases "rc_timers_expired_list r") (auto simp: idle_def nat_less_le)
  then show ?thesis
  proof cases
    case 1
    then show ?thesis using inv by (simp add: BReactor_Exec_step_def exec_ok_def)
  next
    case 2
    from exec_job [OF inv this] show ?thesis by blast
  next
    case 3
    from exec_timer [OF inv this] show ?thesis by blast
  next
    case 4
    from exec_fd [OF inv this] show ?thesis by blast
  next
    case 5
    from exec_wait [OF inv this env] env inv 5(2) show ?thesis by (auto simp: wait_done_def exec_ok_def env_ok_def)
  qed
qed

lemma reach_rc_inv: "reactor_reach r clock \<Longrightarrow> rc_inv r clock"
proof (induction rule: reactor_reach.induct)
  case (reach_init r0 r clock)
  then have "pg_rep (rc_pending_jobs r) Map.empty []" using pg_Init [of "rc_pending_jobs r0"] by (auto simp: BReactor_Init_def)
  then show ?case using reach_init
    by (auto simp: BReactor_Init_def rc_inv_def timers_ok_def due_def fds_ok_def results_ok_def limits_ok_def)
next
  case (reach_call r clock c r')
  then show ?case using call_inv [of r clock c clock] by auto
next
  case (reach_exec r clock env res r' clock')
  then show ?case using exec_step_inv [of r clock env] by auto
qed (rule rc_inv_later)

text \<open>\<open>BReactor_Synchronize\<close> waits for a job that is pending: it never finds the stack empty, and it stops with 1 only when that job is next.\<close>

lemma Synchronize_step_inv:
  assumes inv: "rc_inv r clock" and ref: "BSmallPending_IsSet ref (rc_pending_jobs r) = Some True" "pg_handler (rc_pending_jobs r) ref \<noteq> None"
  shows "\<exists>res r'. BReactor_Synchronize_step ref r = Some (res, r') \<and> rc_inv r' clock \<and>
    (res = Inl True \<longrightarrow> BPendingGroup_PeekJob (rc_pending_jobs r') = Some ref) \<and> (res = Inl False \<longrightarrow> rc_exiting r') \<and>
    (\<forall>h. res = Inr h \<longrightarrow> BSmallPending_IsSet ref (rc_pending_jobs r') = Some True)"
proof -
  obtain m js where rep: "pg_rep (rc_pending_jobs r) m js" using rc_invD(1) [OF inv] by blast
  note q = pg_queries [OF rep]
  have m: "m ref \<noteq> None" using ref(2) pg_repD(2) [OF rep] by simp
  then have "ref \<in> set js" using q(1) [OF m] ref(1) by simp
  then obtain j js' where js: "js = j # js'" by (cases js) auto
  obtain g' h where g: "BPendingGroup_ExecuteJob (rc_pending_jobs r) = Some (h, g')" "pg_rep g' m js'"
    using pg_Execute [of "rc_pending_jobs r" m j js'] rep js by blast
  have "rc_inv (r\<lparr>rc_pending_jobs := g'\<rparr>) clock" using rc_invD [OF inv] g(2) by (auto simp: rc_inv_def)
  then show ?thesis
    using inv g(1) q(2,3) js \<open>ref \<in> set js\<close> pg_queries(1) [OF g(2) m] by (auto simp: BReactor_Synchronize_step_def)
qed

text \<open>Setting a timer makes it run with its new time; a removed timer does not run.\<close>

lemma set_timer_running:
  assumes "rc_inv r clock" "rc_timer r p \<noteq> None"
  shows "\<exists>r' t. BReactor_SetTimerAfter now p after r = Some r' \<and> rc_timer r' p = Some t \<and> tm_absTime t = btime_add now after \<and>
      BTimer_IsRunning p r' = Some True"
    "\<exists>r'. BReactor_RemoveTimer p r = Some r' \<and> BTimer_IsRunning p r' = Some False"
proof -
  obtain r1 t where r1: "BReactor_RemoveSmallTimer p r = Some r1" "rc_inv r1 clock" "rc_timer r1 p = Some t"
      "p \<notin> set (rc_timers_tree r1)" "p \<notin> set (rc_timers_expired_list r1)"
    using RemoveSmallTimer_inv [OF assms] by blast
  then have "tm_state t = TIMER_STATE_INACTIVE"
    using timers_okD(4,5) [OF rc_invD(2) [OF r1(2)], of p] by (cases "tm_state t") auto
  then show "\<exists>r'. BReactor_RemoveTimer p r = Some r' \<and> BTimer_IsRunning p r' = Some False"
    using r1 by (auto simp: BReactor_RemoveTimer_def BTimer_IsRunning_def BSmallTimer_IsRunning_def)
  show "\<exists>r' t. BReactor_SetTimerAfter now p after r = Some r' \<and> rc_timer r' p = Some t \<and> tm_absTime t = btime_add now after \<and>
      BTimer_IsRunning p r' = Some True"
    using r1 by (auto simp: BReactor_SetTimerAfter_def BReactor_SetSmallTimer_def BTimer_IsRunning_def BSmallTimer_IsRunning_def Let_def)
qed

section \<open>The properties\<close>

text \<open>
  C12. The event loop is safe: in every state that a program reaches with calls it may make, under what the kernel promises, no
  assertion of the reactor fails, in a call or in an iteration, and the clock does not go back. The loop returns only after
  a quit, with its code. It runs the job on top of the stack; without jobs the handler of a timer that was set, was not removed
  since and is due, and that is not running any more; without such timers the handler of a descriptor that is still
  registered, with at least one event that it waits for (or an error or hang-up). It blocks only when no job, no due timer and
  no reported descriptor is left.
\<close>

theorem reactor_safe:
  assumes "reactor_reach r clock"
  shows "(call_allowed c r \<longrightarrow> (\<exists>r'. do_call clock c r = Some r')) \<and>
    (env_ok clock env r \<longrightarrow>
       (\<exists>res r' clock'. BReactor_Exec_step clock env r = Some (res, r', clock') \<and> clock \<le> clock' \<and> exec_ok clock env r res r'))"
  using call_inv [OF reach_rc_inv [OF assms]] exec_step_inv [OF reach_rc_inv [OF assms]] by blast

text \<open>
  C13. Timers: when nothing is left to dispatch the loop waits, and every way the wait ends leaves something to
  dispatch. There is a time between its begin and its end such that exactly the timers that are due then have
  expired, in the order of their times, so none fires early and none that was due at the begin is left behind; only
  those have been taken out of the running timers. The wait goes on only while every \<open>epoll_wait\<close> so far was
  interrupted or had nothing to report and ended before the first timer is due.
\<close>

theorem reactor_timers:
  assumes "reactor_reach r clock" "env_ok clock env r" "\<not> rc_exiting r" "idle r"
  shows "(\<exists>r' clock' t. BReactor_Exec_step clock env r = Some (ExecContinue, r', clock') \<and> woken r' \<and>
       we_now env \<le> t \<and> t \<le> clock' \<and> sorted (map (\<lambda>p. tm_absTime (the (rc_timer r p))) (rc_timers_tree r)) \<and>
       rc_timers_expired_list r' = filter (\<lambda>p. tm_absTime (the (rc_timer r p)) \<le> t) (rc_timers_tree r) \<and>
       rc_timers_tree r' = filter (\<lambda>p. \<not> tm_absTime (the (rc_timer r p)) \<le> t) (rc_timers_tree r)) \<or>
    BReactor_Exec_step clock env r = Some (ExecBlocked, r, clock) \<and>
      (\<forall>(res, now') \<in> set (we_waits env). res \<in> {EpollInterrupted, EpollReturned []} \<and> (\<forall>ta. first_timeout r = Some ta \<longrightarrow> now' < ta))"
proof -
  note inv = reach_rc_inv [OF assms(1)]
  have "sorted_wrt (\<lambda>p q. tm_absTime (the (rc_timer r p)) \<le> tm_absTime (the (rc_timer r q))) (rc_timers_tree r)"
    using timers_okD(3) [OF rc_invD(2) [OF inv]] by (rule sorted_wrt_mono_rel [rotated]) (auto simp: timer_before_def)
  then have "sorted (map (\<lambda>p. tm_absTime (the (rc_timer r p))) (rc_timers_tree r))" by (simp add: sorted_wrt_map)
  with exec_wait [OF inv assms(3,4,2)] show ?thesis by (auto simp: wait_done_def timers_cut_def still_waiting_def)
qed

fun do_calls :: "int \<Rightarrow> ('j, 'h) reactor_call list \<Rightarrow> ('j, 'h) BReactor \<Rightarrow> ('j, 'h) BReactor option" where
  "do_calls now [] r = Some r"
| "do_calls now (c # cs) r = do { ASSERT (call_allowed c r); r \<leftarrow> do_call now c r; do_calls now cs r }"

definition reactor_demo_memory :: "(nat, string) BReactor" where
  "reactor_demo_memory = \<lparr>rc_exiting = True, rc_exit_code = 0, rc_pending_jobs = job_demo_memory, rc_timers_tree = [9], rc_timers_expired_list = [9],
     rc_active_limits_list = [], rc_epoll_results = [], rc_epoll_results_pos = 3, rc_epoll = Map.empty,
     rc_timer = Map.empty, rc_fd = Map.empty, rc_limit = Map.empty\<rparr>"

definition demo_timer :: BSmallTimer where
  "demo_timer = \<lparr>tm_absTime = 0, tm_state = TIMER_STATE_EXPIRED, tm_is_small = False, tm_msTime = 0\<rparr>"

definition demo_fd :: BFileDescriptor where
  "demo_fd = \<lparr>bf_fd = 0, bf_active = True, bf_waitEvents = {}, bf_epoll_returned_ptr = Some 4\<rparr>"

definition reactor_demo_calls :: "(nat, string) reactor_call list" where
  "reactor_demo_calls = [CallTimerInit 1 demo_timer None, CallTimerInit 2 demo_timer (Some 250), CallSetTimer 2, CallSetTimerAfter 1 100,
     CallFdInit 1 demo_fd 5, CallAddFd True 1, CallSetFdEvents 1 {BREACTOR_READ}, CallLimitInit 1 2, CallLimitIncrement 1]"

definition reactor_demo :: "(nat, string) BReactor" where
  "reactor_demo = \<lparr>rc_exiting = False, rc_exit_code = 0, rc_pending_jobs = BPendingGroup_Init job_demo_memory, rc_timers_tree = [1, 2],
     rc_timers_expired_list = [], rc_active_limits_list = [1], rc_epoll_results = [], rc_epoll_results_pos = 0, rc_epoll = [5 \<mapsto> ({EPOLLIN}, 1)],
     rc_timer = [2 \<mapsto> \<lparr>tm_absTime = 250, tm_state = TIMER_STATE_RUNNING, tm_is_small = False, tm_msTime = 250\<rparr>,
       1 \<mapsto> \<lparr>tm_absTime = 100, tm_state = TIMER_STATE_RUNNING, tm_is_small = True, tm_msTime = 0\<rparr>],
     rc_fd = [1 \<mapsto> \<lparr>bf_fd = 5, bf_active = True, bf_waitEvents = {BREACTOR_READ}, bf_epoll_returned_ptr = None\<rparr>],
     rc_limit = [1 \<mapsto> \<lparr>bl_limit = 2, bl_count = 1\<rparr>]\<rparr>"

definition reactor_demo_env :: wait_env where
  "reactor_demo_env = \<lparr>we_now = 30, we_waits = [(EpollInterrupted, 40), (EpollReturned [], 101)]\<rparr>"

lemma calls_reach: "\<lbrakk>reactor_reach r now; do_calls now cs r = Some r'\<rbrakk> \<Longrightarrow> reactor_reach r' now"
  by (induction cs arbitrary: r) (auto simp: bind_eq_Some_conv ASSERT_def split: if_splits intro: reach_call)

lemma demo_runs: "do_calls 0 reactor_demo_calls (the (BReactor_Init True reactor_demo_memory)) = Some reactor_demo"
  by (simp add: reactor_demo_calls_def reactor_demo_memory_def reactor_demo_def BReactor_Init_def
    BSmallTimer_Init_def BTimer_Init_def BReactor_SetTimer_def BReactor_SetTimerAfter_def BReactor_SetSmallTimer_def BReactor_RemoveSmallTimer_def
    btime_add_def compare_timers_def B_COMPARE_def BFileDescriptor_Init_def fd_is_active_def BReactor_AddFileDescriptor_def BReactor_SetFileDescriptorEvents_def
    epoll_events_of_def BReactorLimit_Init_def BReactorLimit_Increment_def demo_timer_def demo_fd_def)

lemma demo_reach: "reactor_reach reactor_demo 0"
proof (rule calls_reach [OF _ demo_runs])
  show "reactor_reach (the (BReactor_Init True reactor_demo_memory)) 0"
    by (rule reach_init [of reactor_demo_memory]) (simp_all add: reactor_demo_memory_def BReactor_Init_def)
qed

lemma demo_wait: "env_ok 0 reactor_demo_env reactor_demo" "idle reactor_demo" "\<not> rc_exiting reactor_demo"
  by (simp_all add: env_ok_def reactor_demo_env_def reactor_demo_def timeout_rel_trunc_def epoll_ok_def BSYSTEM_MAX_RESULTS_def idle_def
    BPendingGroup_HasJobs_def BPendingGroup_Init_def SLinkedList_Init_def SLinkedList_IsEmpty_def)

theorem reactor_safe_witness:
  "(\<exists>r'. do_call 0 (CallRemoveFd 1) reactor_demo = Some r') \<and>
   (\<exists>res r' clock'. BReactor_Exec_step 0 reactor_demo_env reactor_demo = Some (res, r', clock') \<and> exec_ok 0 reactor_demo_env reactor_demo res r')"
  using reactor_safe [OF demo_reach, of "CallRemoveFd 1" reactor_demo_env] demo_wait(1)
  by (auto simp: fd_is_active_def reactor_demo_def)

lemma demo_timers: "rc_timers_tree reactor_demo = [1, 2]" "first_timeout reactor_demo = Some 100" "we_now reactor_demo_env = 30"
    "(EpollReturned [], 101) \<in> set (we_waits reactor_demo_env)"
  by (simp_all add: reactor_demo_def first_timeout_def reactor_demo_env_def)

theorem reactor_timers_witness:
  "\<exists>r' clock' t. BReactor_Exec_step 0 reactor_demo_env reactor_demo = Some (ExecContinue, r', clock') \<and> woken r' \<and> 30 \<le> t \<and> t \<le> clock' \<and>
     rc_timers_expired_list r' = filter (\<lambda>p. tm_absTime (the (rc_timer reactor_demo p)) \<le> t) [1, 2]"
  using reactor_timers [OF demo_reach demo_wait(1,3,2)] demo_timers by fastforce

end
