(* ===== verification/FlowIf.thy ===== *)
theory FlowIf
  imports BPending "HOL-Library.Sublist"
begin

text \<open>
  The interfaces between flow elements: \<open>flow/PacketPassInterface.[ch]\<close> (the user sends packets to
  the provider), \<open>flow/PacketRecvInterface.[ch]\<close> (the user receives packets from the provider),
  \<open>flow/StreamPassInterface.[ch]\<close> (the user sends bytes, the provider takes some of them) and
  \<open>flow/StreamRecvInterface.[ch]\<close> (the user offers a buffer, the provider fills some of it). An
  interface never calls its other side directly: a request or a completion sets a job of the
  group, and the job calls the handler later. The results are the protocol of each
  interface, as an invariant that ties its state to its pending jobs, kept by every operation,
  under which no assertion fails, in particular not the one of a job that runs.
\<close>

type_synonym 'j jobs = "('j, 'j) BPendingGroup"

text \<open>
  A job is named by its object; the handler of the job \<open>j\<close> is \<open>j\<close>. Addresses are integers,
  \<open>None\<close> is the null pointer. The four headers number the states alike.
\<close>

datatype if_state = STATE_NONE | STATE_OPERATION_PENDING | STATE_BUSY | STATE_DONE_PENDING

section \<open>PacketPassInterface\<close>

record 'j PacketPassInterface =
  ppi_mtu :: int
  ppi_handler_requestcancel :: bool
  ppi_handler_done :: bool
  ppi_job_operation :: 'j
  ppi_job_operation_data :: "int option"
  ppi_job_operation_len :: int
  ppi_job_requestcancel :: 'j
  ppi_job_done :: 'j
  ppi_state :: if_state
  ppi_cancel_requested :: bool

text \<open>
  \<open>i0\<close> is the memory of the object, with the names of its jobs. The handler pointers are modelled by whether
  they are set; which function a set one points to is fixed by the element that owns the interface.
\<close>

definition PacketPassInterface_Init ::
  "int \<Rightarrow> 'j PacketPassInterface \<Rightarrow> 'j jobs \<Rightarrow> ('j PacketPassInterface \<times> 'j jobs) option" where
  "PacketPassInterface_Init mtu i0 g =
     do { ASSERT (0 \<le> mtu);
          g \<leftarrow> BPending_Init (ppi_job_operation i0) (ppi_job_operation i0) g;
          g \<leftarrow> BPending_Init (ppi_job_requestcancel i0) (ppi_job_requestcancel i0) g;
          g \<leftarrow> BPending_Init (ppi_job_done i0) (ppi_job_done i0) g;
          Some (i0\<lparr>ppi_mtu := mtu, ppi_handler_requestcancel := False, ppi_handler_done := False,
                   ppi_state := STATE_NONE\<rparr>, g) }"

definition PacketPassInterface_Free :: "'j PacketPassInterface \<Rightarrow> 'j jobs \<Rightarrow> 'j jobs option" where
  "PacketPassInterface_Free i g =
     do { g \<leftarrow> BPending_Free (ppi_job_done i) g;
          g \<leftarrow> BPending_Free (ppi_job_requestcancel i) g;
          BPending_Free (ppi_job_operation i) g }"

definition PacketPassInterface_EnableCancel :: "'j PacketPassInterface \<Rightarrow> 'j PacketPassInterface option" where
  "PacketPassInterface_EnableCancel i =
     do { ASSERT (\<not> ppi_handler_requestcancel i); ASSERT (\<not> ppi_handler_done i);
          Some (i\<lparr>ppi_handler_requestcancel := True\<rparr>) }"

definition PacketPassInterface_Done ::
  "'j PacketPassInterface \<Rightarrow> 'j jobs \<Rightarrow> ('j PacketPassInterface \<times> 'j jobs) option" where
  "PacketPassInterface_Done i g =
     do { ASSERT (ppi_state i = STATE_BUSY);
          g \<leftarrow> BPending_Unset (ppi_job_requestcancel i) g;
          g \<leftarrow> BPending_Set (ppi_job_done i) g;
          Some (i\<lparr>ppi_state := STATE_DONE_PENDING\<rparr>, g) }"

definition PacketPassInterface_GetMTU :: "'j PacketPassInterface \<Rightarrow> int" where
  "PacketPassInterface_GetMTU i = ppi_mtu i"

definition PacketPassInterface_Sender_Init :: "'j PacketPassInterface \<Rightarrow> 'j PacketPassInterface option" where
  "PacketPassInterface_Sender_Init i = do { ASSERT (\<not> ppi_handler_done i); Some (i\<lparr>ppi_handler_done := True\<rparr>) }"

definition PacketPassInterface_Sender_Send ::
  "int option \<Rightarrow> int \<Rightarrow> 'j PacketPassInterface \<Rightarrow> 'j jobs \<Rightarrow> ('j PacketPassInterface \<times> 'j jobs) option" where
  "PacketPassInterface_Sender_Send data data_len i g =
     do { ASSERT (0 \<le> data_len); ASSERT (data_len \<le> ppi_mtu i);
          ASSERT (\<not> 0 < data_len \<or> data \<noteq> None);
          ASSERT (ppi_state i = STATE_NONE); ASSERT (ppi_handler_done i);
          g \<leftarrow> BPending_Set (ppi_job_operation i) g;
          Some (i\<lparr>ppi_job_operation_data := data, ppi_job_operation_len := data_len,
                  ppi_state := STATE_OPERATION_PENDING, ppi_cancel_requested := False\<rparr>, g) }"

definition PacketPassInterface_Sender_RequestCancel ::
  "'j PacketPassInterface \<Rightarrow> 'j jobs \<Rightarrow> ('j PacketPassInterface \<times> 'j jobs) option" where
  "PacketPassInterface_Sender_RequestCancel i g =
     do { ASSERT (ppi_state i = STATE_OPERATION_PENDING \<or> ppi_state i = STATE_BUSY \<or> ppi_state i = STATE_DONE_PENDING);
          ASSERT (ppi_handler_requestcancel i);
          if ppi_cancel_requested i then Some (i, g)
          else let i = i\<lparr>ppi_cancel_requested := True\<rparr>
               in if ppi_state i = STATE_OPERATION_PENDING
                  then do { g \<leftarrow> BPending_Unset (ppi_job_operation i) g;
                            g \<leftarrow> BPending_Set (ppi_job_done i) g;
                            Some (i\<lparr>ppi_state := STATE_DONE_PENDING\<rparr>, g) }
                  else if ppi_state i = STATE_BUSY
                  then do { g \<leftarrow> BPending_Set (ppi_job_requestcancel i) g; Some (i, g) }
                  else Some (i, g) }"

definition PacketPassInterface_HasCancel :: "'j PacketPassInterface \<Rightarrow> bool" where
  "PacketPassInterface_HasCancel i = ppi_handler_requestcancel i"

text \<open>The jobs: each ends in a call of the handler, whose arguments are returned with the new state.\<close>

definition PacketPassInterface_job_operation ::
  "'j PacketPassInterface \<Rightarrow> ('j PacketPassInterface \<times> int option \<times> int) option" where
  "PacketPassInterface_job_operation i =
     do { ASSERT (ppi_state i = STATE_OPERATION_PENDING);
          Some (i\<lparr>ppi_state := STATE_BUSY\<rparr>, ppi_job_operation_data i, ppi_job_operation_len i) }"

definition PacketPassInterface_job_requestcancel :: "'j PacketPassInterface \<Rightarrow> unit option" where
  "PacketPassInterface_job_requestcancel i =
     do { ASSERT (ppi_state i = STATE_BUSY); ASSERT (ppi_cancel_requested i); ASSERT (ppi_handler_requestcancel i) }"

definition PacketPassInterface_job_done :: "'j PacketPassInterface \<Rightarrow> 'j PacketPassInterface option" where
  "PacketPassInterface_job_done i =
     do { ASSERT (ppi_state i = STATE_DONE_PENDING); Some (i\<lparr>ppi_state := STATE_NONE\<rparr>) }"

section \<open>PacketRecvInterface\<close>

record 'j PacketRecvInterface =
  pri_mtu :: int
  pri_handler_done :: bool
  pri_job_operation :: 'j
  pri_job_operation_data :: "int option"
  pri_job_done :: 'j
  pri_job_done_len :: int
  pri_state :: if_state

definition PacketRecvInterface_Init ::
  "int \<Rightarrow> 'j PacketRecvInterface \<Rightarrow> 'j jobs \<Rightarrow> ('j PacketRecvInterface \<times> 'j jobs) option" where
  "PacketRecvInterface_Init mtu i0 g =
     do { ASSERT (0 \<le> mtu);
          g \<leftarrow> BPending_Init (pri_job_operation i0) (pri_job_operation i0) g;
          g \<leftarrow> BPending_Init (pri_job_done i0) (pri_job_done i0) g;
          Some (i0\<lparr>pri_mtu := mtu, pri_handler_done := False, pri_state := STATE_NONE\<rparr>, g) }"

definition PacketRecvInterface_Free :: "'j PacketRecvInterface \<Rightarrow> 'j jobs \<Rightarrow> 'j jobs option" where
  "PacketRecvInterface_Free i g =
     do { g \<leftarrow> BPending_Free (pri_job_done i) g; BPending_Free (pri_job_operation i) g }"

definition PacketRecvInterface_Done ::
  "int \<Rightarrow> 'j PacketRecvInterface \<Rightarrow> 'j jobs \<Rightarrow> ('j PacketRecvInterface \<times> 'j jobs) option" where
  "PacketRecvInterface_Done data_len i g =
     do { ASSERT (0 \<le> data_len); ASSERT (data_len \<le> pri_mtu i); ASSERT (pri_state i = STATE_BUSY);
          g \<leftarrow> BPending_Set (pri_job_done i) g;
          Some (i\<lparr>pri_job_done_len := data_len, pri_state := STATE_DONE_PENDING\<rparr>, g) }"

definition PacketRecvInterface_GetMTU :: "'j PacketRecvInterface \<Rightarrow> int" where
  "PacketRecvInterface_GetMTU i = pri_mtu i"

definition PacketRecvInterface_Receiver_Init :: "'j PacketRecvInterface \<Rightarrow> 'j PacketRecvInterface option" where
  "PacketRecvInterface_Receiver_Init i = do { ASSERT (\<not> pri_handler_done i); Some (i\<lparr>pri_handler_done := True\<rparr>) }"

definition PacketRecvInterface_Receiver_Recv ::
  "int option \<Rightarrow> 'j PacketRecvInterface \<Rightarrow> 'j jobs \<Rightarrow> ('j PacketRecvInterface \<times> 'j jobs) option" where
  "PacketRecvInterface_Receiver_Recv data i g =
     do { ASSERT (\<not> 0 < pri_mtu i \<or> data \<noteq> None);
          ASSERT (pri_state i = STATE_NONE); ASSERT (pri_handler_done i);
          g \<leftarrow> BPending_Set (pri_job_operation i) g;
          Some (i\<lparr>pri_job_operation_data := data, pri_state := STATE_OPERATION_PENDING\<rparr>, g) }"

definition PacketRecvInterface_job_operation ::
  "'j PacketRecvInterface \<Rightarrow> ('j PacketRecvInterface \<times> int option) option" where
  "PacketRecvInterface_job_operation i =
     do { ASSERT (pri_state i = STATE_OPERATION_PENDING);
          Some (i\<lparr>pri_state := STATE_BUSY\<rparr>, pri_job_operation_data i) }"

definition PacketRecvInterface_job_done :: "'j PacketRecvInterface \<Rightarrow> ('j PacketRecvInterface \<times> int) option" where
  "PacketRecvInterface_job_done i =
     do { ASSERT (pri_state i = STATE_DONE_PENDING); Some (i\<lparr>pri_state := STATE_NONE\<rparr>, pri_job_done_len i) }"

section \<open>StreamPassInterface\<close>

record 'j StreamPassInterface =
  spi_handler_done :: bool
  spi_job_operation :: 'j
  spi_job_operation_data :: "int option"
  spi_job_operation_len :: int
  spi_job_done :: 'j
  spi_job_done_len :: int
  spi_state :: if_state

definition StreamPassInterface_Init ::
  "'j StreamPassInterface \<Rightarrow> 'j jobs \<Rightarrow> ('j StreamPassInterface \<times> 'j jobs) option" where
  "StreamPassInterface_Init i0 g =
     do { g \<leftarrow> BPending_Init (spi_job_operation i0) (spi_job_operation i0) g;
          g \<leftarrow> BPending_Init (spi_job_done i0) (spi_job_done i0) g;
          Some (i0\<lparr>spi_handler_done := False, spi_state := STATE_NONE\<rparr>, g) }"

definition StreamPassInterface_Free :: "'j StreamPassInterface \<Rightarrow> 'j jobs \<Rightarrow> 'j jobs option" where
  "StreamPassInterface_Free i g =
     do { g \<leftarrow> BPending_Free (spi_job_done i) g; BPending_Free (spi_job_operation i) g }"

definition StreamPassInterface_Done ::
  "int \<Rightarrow> 'j StreamPassInterface \<Rightarrow> 'j jobs \<Rightarrow> ('j StreamPassInterface \<times> 'j jobs) option" where
  "StreamPassInterface_Done data_len i g =
     do { ASSERT (spi_state i = STATE_BUSY); ASSERT (0 < data_len); ASSERT (data_len \<le> spi_job_operation_len i);
          g \<leftarrow> BPending_Set (spi_job_done i) g;
          Some (i\<lparr>spi_job_done_len := data_len, spi_state := STATE_DONE_PENDING\<rparr>, g) }"

definition StreamPassInterface_Sender_Init :: "'j StreamPassInterface \<Rightarrow> 'j StreamPassInterface option" where
  "StreamPassInterface_Sender_Init i = do { ASSERT (\<not> spi_handler_done i); Some (i\<lparr>spi_handler_done := True\<rparr>) }"

definition StreamPassInterface_Sender_Send ::
  "int option \<Rightarrow> int \<Rightarrow> 'j StreamPassInterface \<Rightarrow> 'j jobs \<Rightarrow> ('j StreamPassInterface \<times> 'j jobs) option" where
  "StreamPassInterface_Sender_Send data data_len i g =
     do { ASSERT (0 < data_len); ASSERT (data \<noteq> None);
          ASSERT (spi_state i = STATE_NONE); ASSERT (spi_handler_done i);
          g \<leftarrow> BPending_Set (spi_job_operation i) g;
          Some (i\<lparr>spi_job_operation_data := data, spi_job_operation_len := data_len,
                  spi_state := STATE_OPERATION_PENDING\<rparr>, g) }"

definition StreamPassInterface_job_operation ::
  "'j StreamPassInterface \<Rightarrow> ('j StreamPassInterface \<times> int option \<times> int) option" where
  "StreamPassInterface_job_operation i =
     do { ASSERT (spi_state i = STATE_OPERATION_PENDING);
          Some (i\<lparr>spi_state := STATE_BUSY\<rparr>, spi_job_operation_data i, spi_job_operation_len i) }"

definition StreamPassInterface_job_done :: "'j StreamPassInterface \<Rightarrow> ('j StreamPassInterface \<times> int) option" where
  "StreamPassInterface_job_done i =
     do { ASSERT (spi_state i = STATE_DONE_PENDING); Some (i\<lparr>spi_state := STATE_NONE\<rparr>, spi_job_done_len i) }"

section \<open>StreamRecvInterface\<close>

record 'j StreamRecvInterface =
  sri_handler_done :: bool
  sri_job_operation :: 'j
  sri_job_operation_data :: "int option"
  sri_job_operation_len :: int
  sri_job_done :: 'j
  sri_job_done_len :: int
  sri_state :: if_state

definition StreamRecvInterface_Init ::
  "'j StreamRecvInterface \<Rightarrow> 'j jobs \<Rightarrow> ('j StreamRecvInterface \<times> 'j jobs) option" where
  "StreamRecvInterface_Init i0 g =
     do { g \<leftarrow> BPending_Init (sri_job_operation i0) (sri_job_operation i0) g;
          g \<leftarrow> BPending_Init (sri_job_done i0) (sri_job_done i0) g;
          Some (i0\<lparr>sri_handler_done := False, sri_state := STATE_NONE\<rparr>, g) }"

definition StreamRecvInterface_Free :: "'j StreamRecvInterface \<Rightarrow> 'j jobs \<Rightarrow> 'j jobs option" where
  "StreamRecvInterface_Free i g =
     do { g \<leftarrow> BPending_Free (sri_job_done i) g; BPending_Free (sri_job_operation i) g }"

definition StreamRecvInterface_Done ::
  "int \<Rightarrow> 'j StreamRecvInterface \<Rightarrow> 'j jobs \<Rightarrow> ('j StreamRecvInterface \<times> 'j jobs) option" where
  "StreamRecvInterface_Done data_len i g =
     do { ASSERT (sri_state i = STATE_BUSY); ASSERT (0 < data_len); ASSERT (data_len \<le> sri_job_operation_len i);
          g \<leftarrow> BPending_Set (sri_job_done i) g;
          Some (i\<lparr>sri_job_done_len := data_len, sri_state := STATE_DONE_PENDING\<rparr>, g) }"

definition StreamRecvInterface_Receiver_Init :: "'j StreamRecvInterface \<Rightarrow> 'j StreamRecvInterface option" where
  "StreamRecvInterface_Receiver_Init i = do { ASSERT (\<not> sri_handler_done i); Some (i\<lparr>sri_handler_done := True\<rparr>) }"

definition StreamRecvInterface_Receiver_Recv ::
  "int option \<Rightarrow> int \<Rightarrow> 'j StreamRecvInterface \<Rightarrow> 'j jobs \<Rightarrow> ('j StreamRecvInterface \<times> 'j jobs) option" where
  "StreamRecvInterface_Receiver_Recv data data_len i g =
     do { ASSERT (0 < data_len); ASSERT (data \<noteq> None);
          ASSERT (sri_state i = STATE_NONE); ASSERT (sri_handler_done i);
          g \<leftarrow> BPending_Set (sri_job_operation i) g;
          Some (i\<lparr>sri_job_operation_data := data, sri_job_operation_len := data_len,
                  sri_state := STATE_OPERATION_PENDING\<rparr>, g) }"

definition StreamRecvInterface_job_operation ::
  "'j StreamRecvInterface \<Rightarrow> ('j StreamRecvInterface \<times> int option \<times> int) option" where
  "StreamRecvInterface_job_operation i =
     do { ASSERT (sri_state i = STATE_OPERATION_PENDING);
          Some (i\<lparr>sri_state := STATE_BUSY\<rparr>, sri_job_operation_data i, sri_job_operation_len i) }"

definition StreamRecvInterface_job_done :: "'j StreamRecvInterface \<Rightarrow> ('j StreamRecvInterface \<times> int) option" where
  "StreamRecvInterface_job_done i =
     do { ASSERT (sri_state i = STATE_DONE_PENDING); Some (i\<lparr>sri_state := STATE_NONE\<rparr>, sri_job_done_len i) }"

section \<open>The protocol\<close>

text \<open>
  \<open>owns m s\<close>: the jobs \<open>s\<close> are distinct and initialised. The pending jobs \<open>js\<close> of the group
  say in which state the interface is.
\<close>

definition owns :: "('j \<rightharpoonup> 'j) \<Rightarrow> 'j list \<Rightarrow> bool" where
  "owns m s \<longleftrightarrow> distinct s \<and> (\<forall>j \<in> set s. m j = Some j)"

abbreviation ppi_jobs :: "'j PacketPassInterface \<Rightarrow> 'j list" where
  "ppi_jobs i \<equiv> [ppi_job_operation i, ppi_job_requestcancel i, ppi_job_done i]"

abbreviation pri_jobs :: "'j PacketRecvInterface \<Rightarrow> 'j list" where
  "pri_jobs i \<equiv> [pri_job_operation i, pri_job_done i]"

abbreviation spi_jobs :: "'j StreamPassInterface \<Rightarrow> 'j list" where
  "spi_jobs i \<equiv> [spi_job_operation i, spi_job_done i]"

abbreviation sri_jobs :: "'j StreamRecvInterface \<Rightarrow> 'j list" where
  "sri_jobs i \<equiv> [sri_job_operation i, sri_job_done i]"

definition ppi_ok :: "'j PacketPassInterface \<Rightarrow> 'j set \<Rightarrow> bool" where
  "ppi_ok i J \<longleftrightarrow>
     (ppi_job_operation i \<in> J) = (ppi_state i = STATE_OPERATION_PENDING) \<and>
     (ppi_job_done i \<in> J) = (ppi_state i = STATE_DONE_PENDING) \<and>
     (ppi_job_requestcancel i \<in> J \<longrightarrow> ppi_state i = STATE_BUSY \<and> ppi_cancel_requested i \<and> ppi_handler_requestcancel i)"

definition pri_ok :: "'j PacketRecvInterface \<Rightarrow> 'j set \<Rightarrow> bool" where
  "pri_ok i J \<longleftrightarrow>
     (pri_job_operation i \<in> J) = (pri_state i = STATE_OPERATION_PENDING) \<and>
     (pri_job_done i \<in> J) = (pri_state i = STATE_DONE_PENDING)"

definition spi_ok :: "'j StreamPassInterface \<Rightarrow> 'j set \<Rightarrow> bool" where
  "spi_ok i J \<longleftrightarrow>
     (spi_job_operation i \<in> J) = (spi_state i = STATE_OPERATION_PENDING) \<and>
     (spi_job_done i \<in> J) = (spi_state i = STATE_DONE_PENDING)"

definition sri_ok :: "'j StreamRecvInterface \<Rightarrow> 'j set \<Rightarrow> bool" where
  "sri_ok i J \<longleftrightarrow>
     (sri_job_operation i \<in> J) = (sri_state i = STATE_OPERATION_PENDING) \<and>
     (sri_job_done i \<in> J) = (sri_state i = STATE_DONE_PENDING)"

lemmas ppi_defs = PacketPassInterface_Done_def PacketPassInterface_Sender_Send_def PacketPassInterface_Sender_RequestCancel_def
  PacketPassInterface_job_operation_def PacketPassInterface_job_requestcancel_def PacketPassInterface_job_done_def
lemmas pri_defs = PacketRecvInterface_Done_def PacketRecvInterface_Receiver_Recv_def
  PacketRecvInterface_job_operation_def PacketRecvInterface_job_done_def
lemmas spi_defs = StreamPassInterface_Done_def StreamPassInterface_Sender_Send_def
  StreamPassInterface_job_operation_def StreamPassInterface_job_done_def

lemmas sri_defs = StreamRecvInterface_Done_def StreamRecvInterface_Receiver_Recv_def
  StreamRecvInterface_job_operation_def StreamRecvInterface_job_done_def

lemma owns_job: "owns m s \<Longrightarrow> j \<in> set s \<Longrightarrow> m j = Some j"
  by (simp add: owns_def)

lemma set_job:
  assumes "pg_rep g m js" "owns m s" "j \<in> set s" "j \<notin> set js"
  shows "\<exists>g'. BPending_Set j g = Some g' \<and> pg_rep g' m (j # js)"
  using bp.set_fresh [OF assms(1), of j] assms(4) owns_job [OF assms(2,3)] by (simp add: BPending_defs)

lemma unset_job:
  assumes "pg_rep g m js" "owns m s" "j \<in> set s"
  shows "\<exists>g'. BPending_Unset j g = Some g' \<and> pg_rep g' m (remove1 j js)"
  using bp.unset_rep [OF assms(1), of j] owns_job [OF assms(2,3)] by (simp add: BPending_defs)

lemma new_job:
  assumes "pg_rep g m js" "m j = None"
  shows "\<exists>g'. BPending_Init j j g = Some g' \<and> pg_rep g' (m(j \<mapsto> j)) js"
  using bp.init_rep [OF assms] by (simp add: BPending_defs)

text \<open>What each operation does to the pending jobs.\<close>

lemma ppi_Send:
  assumes "pg_rep g m js" "owns m (ppi_jobs i)" "ppi_ok i (set js)"
    and "ppi_state i = STATE_NONE" "ppi_handler_done i" "0 \<le> len" "len \<le> ppi_mtu i" "\<not> 0 < len \<or> d \<noteq> None"
  shows "\<exists>g'. PacketPassInterface_Sender_Send d len i g =
      Some (i\<lparr>ppi_job_operation_data := d, ppi_job_operation_len := len, ppi_state := STATE_OPERATION_PENDING,
              ppi_cancel_requested := False\<rparr>, g') \<and> pg_rep g' m (ppi_job_operation i # js)"
  using set_job [OF assms(1,2), of "ppi_job_operation i"] assms(3-) by (auto simp: ppi_defs ppi_ok_def)

lemma ppi_Done:
  assumes "pg_rep g m js" "owns m (ppi_jobs i)" "ppi_ok i (set js)" "ppi_state i = STATE_BUSY"
  shows "\<exists>g'. PacketPassInterface_Done i g = Some (i\<lparr>ppi_state := STATE_DONE_PENDING\<rparr>, g') \<and>
    pg_rep g' m (ppi_job_done i # remove1 (ppi_job_requestcancel i) js)"
proof -
  obtain g1 where g1: "BPending_Unset (ppi_job_requestcancel i) g = Some g1" "pg_rep g1 m (remove1 (ppi_job_requestcancel i) js)"
    using unset_job [OF assms(1,2), of "ppi_job_requestcancel i"] by auto
  have "ppi_job_done i \<notin> set (remove1 (ppi_job_requestcancel i) js)"
    using assms(3,4) by (auto simp: ppi_ok_def dest: subsetD [OF set_remove1_subset])
  from set_job [OF g1(2) assms(2) _ this] g1(1) assms(4) show ?thesis by (auto simp: ppi_defs)
qed

lemma pri_Recv:
  assumes "pg_rep g m js" "owns m (pri_jobs i)" "pri_ok i (set js)" "pri_state i = STATE_NONE" "pri_handler_done i"
    "\<not> 0 < pri_mtu i \<or> d \<noteq> None"
  shows "\<exists>g'. PacketRecvInterface_Receiver_Recv d i g =
      Some (i\<lparr>pri_job_operation_data := d, pri_state := STATE_OPERATION_PENDING\<rparr>, g') \<and> pg_rep g' m (pri_job_operation i # js)"
  using set_job [OF assms(1,2), of "pri_job_operation i"] assms(3-) by (auto simp: pri_defs pri_ok_def)

lemma pri_Done:
  assumes "pg_rep g m js" "owns m (pri_jobs i)" "pri_ok i (set js)" "pri_state i = STATE_BUSY" "0 \<le> len" "len \<le> pri_mtu i"
  shows "\<exists>g'. PacketRecvInterface_Done len i g =
      Some (i\<lparr>pri_job_done_len := len, pri_state := STATE_DONE_PENDING\<rparr>, g') \<and> pg_rep g' m (pri_job_done i # js)"
  using set_job [OF assms(1,2), of "pri_job_done i"] assms(3-) by (auto simp: pri_defs pri_ok_def)

lemma spi_Send:
  assumes "pg_rep g m js" "owns m (spi_jobs i)" "spi_ok i (set js)" "spi_state i = STATE_NONE" "spi_handler_done i"
    "0 < len" "d \<noteq> None"
  shows "\<exists>g'. StreamPassInterface_Sender_Send d len i g =
      Some (i\<lparr>spi_job_operation_data := d, spi_job_operation_len := len, spi_state := STATE_OPERATION_PENDING\<rparr>, g') \<and>
    pg_rep g' m (spi_job_operation i # js)"
  using set_job [OF assms(1,2), of "spi_job_operation i"] assms(3-) by (auto simp: spi_defs spi_ok_def)

lemma spi_Done:
  assumes "pg_rep g m js" "owns m (spi_jobs i)" "spi_ok i (set js)" "spi_state i = STATE_BUSY" "0 < len"
    "len \<le> spi_job_operation_len i"
  shows "\<exists>g'. StreamPassInterface_Done len i g =
      Some (i\<lparr>spi_job_done_len := len, spi_state := STATE_DONE_PENDING\<rparr>, g') \<and> pg_rep g' m (spi_job_done i # js)"
  using set_job [OF assms(1,2), of "spi_job_done i"] assms(3-) by (auto simp: spi_defs spi_ok_def)

lemma sri_Recv:
  assumes "pg_rep g m js" "owns m (sri_jobs i)" "sri_ok i (set js)" "sri_state i = STATE_NONE" "sri_handler_done i"
    "0 < len" "d \<noteq> None"
  shows "\<exists>g'. StreamRecvInterface_Receiver_Recv d len i g =
      Some (i\<lparr>sri_job_operation_data := d, sri_job_operation_len := len, sri_state := STATE_OPERATION_PENDING\<rparr>, g') \<and>
    pg_rep g' m (sri_job_operation i # js)"
  using set_job [OF assms(1,2), of "sri_job_operation i"] assms(3-) by (auto simp: sri_defs sri_ok_def)

lemma sri_Done:
  assumes "pg_rep g m js" "owns m (sri_jobs i)" "sri_ok i (set js)" "sri_state i = STATE_BUSY" "0 < len"
    "len \<le> sri_job_operation_len i"
  shows "\<exists>g'. StreamRecvInterface_Done len i g =
      Some (i\<lparr>sri_job_done_len := len, sri_state := STATE_DONE_PENDING\<rparr>, g') \<and> pg_rep g' m (sri_job_done i # js)"
  using set_job [OF assms(1,2), of "sri_job_done i"] assms(3-) by (auto simp: sri_defs sri_ok_def)

lemma ppi_Init:
  assumes "pg_rep g m js" "0 \<le> mtu" "distinct (ppi_jobs i0)" "\<forall>j \<in> set (ppi_jobs i0). m j = None"
  shows "\<exists>g'. PacketPassInterface_Init mtu i0 g =
      Some (i0\<lparr>ppi_mtu := mtu, ppi_handler_requestcancel := False, ppi_handler_done := False, ppi_state := STATE_NONE\<rparr>, g') \<and>
    pg_rep g' (m(ppi_job_operation i0 \<mapsto> ppi_job_operation i0, ppi_job_requestcancel i0 \<mapsto> ppi_job_requestcancel i0,
      ppi_job_done i0 \<mapsto> ppi_job_done i0)) js"
proof -
  obtain g1 where g1: "BPending_Init (ppi_job_operation i0) (ppi_job_operation i0) g = Some g1"
    "pg_rep g1 (m(ppi_job_operation i0 \<mapsto> ppi_job_operation i0)) js" using new_job [OF assms(1)] assms(4) by auto
  obtain g2 where g2: "BPending_Init (ppi_job_requestcancel i0) (ppi_job_requestcancel i0) g1 = Some g2"
    "pg_rep g2 (m(ppi_job_operation i0 \<mapsto> ppi_job_operation i0, ppi_job_requestcancel i0 \<mapsto> ppi_job_requestcancel i0)) js"
    using new_job [OF g1(2), of "ppi_job_requestcancel i0"] assms(3,4) by auto
  from new_job [OF g2(2), of "ppi_job_done i0"] g1(1) g2(1) assms(2-4) show ?thesis
    by (auto simp: PacketPassInterface_Init_def)
qed

lemma pri_Init:
  assumes "pg_rep g m js" "0 \<le> mtu" "distinct (pri_jobs i0)" "\<forall>j \<in> set (pri_jobs i0). m j = None"
  shows "\<exists>g'. PacketRecvInterface_Init mtu i0 g =
      Some (i0\<lparr>pri_mtu := mtu, pri_handler_done := False, pri_state := STATE_NONE\<rparr>, g') \<and>
    pg_rep g' (m(pri_job_operation i0 \<mapsto> pri_job_operation i0, pri_job_done i0 \<mapsto> pri_job_done i0)) js"
proof -
  obtain g1 where g1: "BPending_Init (pri_job_operation i0) (pri_job_operation i0) g = Some g1"
    "pg_rep g1 (m(pri_job_operation i0 \<mapsto> pri_job_operation i0)) js" using new_job [OF assms(1)] assms(4) by auto
  from new_job [OF g1(2), of "pri_job_done i0"] g1(1) assms(2-4) show ?thesis by (auto simp: PacketRecvInterface_Init_def)
qed

lemma spi_Init:
  assumes "pg_rep g m js" "distinct (spi_jobs i0)" "\<forall>j \<in> set (spi_jobs i0). m j = None"
  shows "\<exists>g'. StreamPassInterface_Init i0 g = Some (i0\<lparr>spi_handler_done := False, spi_state := STATE_NONE\<rparr>, g') \<and>
    pg_rep g' (m(spi_job_operation i0 \<mapsto> spi_job_operation i0, spi_job_done i0 \<mapsto> spi_job_done i0)) js"
proof -
  obtain g1 where g1: "BPending_Init (spi_job_operation i0) (spi_job_operation i0) g = Some g1"
    "pg_rep g1 (m(spi_job_operation i0 \<mapsto> spi_job_operation i0)) js" using new_job [OF assms(1)] assms(3) by auto
  from new_job [OF g1(2), of "spi_job_done i0"] g1(1) assms(2-3) show ?thesis by (auto simp: StreamPassInterface_Init_def)
qed

lemma sri_Init:
  assumes "pg_rep g m js" "distinct (sri_jobs i0)" "\<forall>j \<in> set (sri_jobs i0). m j = None"
  shows "\<exists>g'. StreamRecvInterface_Init i0 g = Some (i0\<lparr>sri_handler_done := False, sri_state := STATE_NONE\<rparr>, g') \<and>
    pg_rep g' (m(sri_job_operation i0 \<mapsto> sri_job_operation i0, sri_job_done i0 \<mapsto> sri_job_done i0)) js"
proof -
  obtain g1 where g1: "BPending_Init (sri_job_operation i0) (sri_job_operation i0) g = Some g1"
    "pg_rep g1 (m(sri_job_operation i0 \<mapsto> sri_job_operation i0)) js" using new_job [OF assms(1)] assms(3) by auto
  from new_job [OF g1(2), of "sri_job_done i0"] g1(1) assms(2-3) show ?thesis by (auto simp: StreamRecvInterface_Init_def)
qed

section \<open>A user and a provider\<close>

text \<open>
  A \<open>PacketPassInterface\<close> between a user and a provider that both keep to the documented protocol:
  the user sends when its last packet is done, and may ask for cancellation of the packet in
  progress; the provider reports completion of a packet it was handed. Each knows only what it
  called and which of its handlers were called: \<open>ps_sending\<close> is the user's view, \<open>ps_busy\<close> the
  provider's. The jobs run one at a time, in between.
\<close>

record 'j ppi_sys =
  ps_if :: "'j PacketPassInterface"
  ps_group :: "'j jobs"
  ps_sending :: bool
  ps_busy :: bool
  ps_sent :: "(int option \<times> int) list"
  ps_handed :: "(int option \<times> int) list"
  ps_cancels :: nat
  ps_dones :: nat

datatype ppi_event = Ev_Send "int option" int | Ev_RequestCancel | Ev_Done | Ev_Run

fun ppi_allowed :: "ppi_event \<Rightarrow> 'j ppi_sys \<Rightarrow> bool" where
  "ppi_allowed (Ev_Send d len) s \<longleftrightarrow>
     \<not> ps_sending s \<and> 0 \<le> len \<and> len \<le> PacketPassInterface_GetMTU (ps_if s) \<and> (0 < len \<longrightarrow> d \<noteq> None)"
| "ppi_allowed Ev_RequestCancel s \<longleftrightarrow> ps_sending s \<and> PacketPassInterface_HasCancel (ps_if s)"
| "ppi_allowed Ev_Done s \<longleftrightarrow> ps_busy s"
| "ppi_allowed Ev_Run s \<longleftrightarrow> BPendingGroup_HasJobs (ps_group s)"

definition ppi_run_job :: "'j ppi_sys \<Rightarrow> 'j ppi_sys option" where
  "ppi_run_job s =
     do { (j, g) \<leftarrow> BPendingGroup_ExecuteJob (ps_group s);
          let s = s\<lparr>ps_group := g\<rparr>;
          if j = ppi_job_operation (ps_if s)
          then do { (i, d, len) \<leftarrow> PacketPassInterface_job_operation (ps_if s);
                    Some (s\<lparr>ps_if := i, ps_busy := True, ps_handed := ps_handed s @ [(d, len)]\<rparr>) }
          else if j = ppi_job_requestcancel (ps_if s)
          then do { PacketPassInterface_job_requestcancel (ps_if s); Some (s\<lparr>ps_cancels := Suc (ps_cancels s)\<rparr>) }
          else if j = ppi_job_done (ps_if s)
          then do { i \<leftarrow> PacketPassInterface_job_done (ps_if s);
                    ASSERT (ppi_handler_done i);
                    Some (s\<lparr>ps_if := i, ps_sending := False, ps_dones := Suc (ps_dones s)\<rparr>) }
          else None }"

fun ppi_step :: "ppi_event \<Rightarrow> 'j ppi_sys \<Rightarrow> 'j ppi_sys option" where
  "ppi_step (Ev_Send d len) s =
     do { (i, g) \<leftarrow> PacketPassInterface_Sender_Send d len (ps_if s) (ps_group s);
          Some (s\<lparr>ps_if := i, ps_group := g, ps_sending := True, ps_sent := ps_sent s @ [(d, len)]\<rparr>) }"
| "ppi_step Ev_RequestCancel s =
     do { (i, g) \<leftarrow> PacketPassInterface_Sender_RequestCancel (ps_if s) (ps_group s);
          Some (s\<lparr>ps_if := i, ps_group := g\<rparr>) }"
| "ppi_step Ev_Done s =
     do { (i, g) \<leftarrow> PacketPassInterface_Done (ps_if s) (ps_group s);
          Some (s\<lparr>ps_if := i, ps_group := g, ps_busy := False\<rparr>) }"
| "ppi_step Ev_Run s = ppi_run_job s"

text \<open>The interface with its user, alone in a fresh group; \<open>cancel\<close>: the provider enables cancellation.\<close>

definition ppi_start :: "bool \<Rightarrow> int \<Rightarrow> 'j PacketPassInterface \<Rightarrow> 'j jobs \<Rightarrow> 'j ppi_sys option" where
  "ppi_start cancel mtu i0 g0 =
     do { (i, g) \<leftarrow> PacketPassInterface_Init mtu i0 (BPendingGroup_Init g0);
          i \<leftarrow> (if cancel then PacketPassInterface_EnableCancel i else Some i);
          i \<leftarrow> PacketPassInterface_Sender_Init i;
          Some \<lparr>ps_if = i, ps_group = g, ps_sending = False, ps_busy = False, ps_sent = [], ps_handed = [],
                ps_cancels = 0, ps_dones = 0\<rparr> }"

inductive ppi_reach :: "'j ppi_sys \<Rightarrow> 'j ppi_sys \<Rightarrow> bool" for s0 :: "'j ppi_sys" where
  ppi_reach_start: "ppi_reach s0 s0"
| ppi_reach_step: "\<lbrakk>ppi_reach s0 s; ppi_allowed ev s; ppi_step ev s = Some s'\<rbrakk> \<Longrightarrow> ppi_reach s0 s'"

text \<open>The group has the jobs of the interface and no others.\<close>

definition ppi_linked :: "'j PacketPassInterface \<Rightarrow> 'j jobs \<Rightarrow> bool" where
  "ppi_linked i g \<longleftrightarrow>
     (\<exists>m js. pg_rep g m js \<and> owns m (ppi_jobs i) \<and> dom m = set (ppi_jobs i) \<and> ppi_ok i (set js))"

lemma ppi_linkedI:
  "\<lbrakk>pg_rep g m js; owns m (ppi_jobs i); dom m = set (ppi_jobs i); ppi_ok i (set js)\<rbrakk> \<Longrightarrow> ppi_linked i g"
  by (auto simp: ppi_linked_def)

definition ppi_sys_inv :: "'j ppi_sys \<Rightarrow> bool" where
  "ppi_sys_inv s \<longleftrightarrow>
     ppi_linked (ps_if s) (ps_group s) \<and>
     ppi_handler_done (ps_if s) \<and> 0 \<le> ppi_mtu (ps_if s) \<and>
     ps_sending s = (ppi_state (ps_if s) \<noteq> STATE_NONE) \<and> ps_busy s = (ppi_state (ps_if s) = STATE_BUSY) \<and>
     length (ps_sent s) = ps_dones s + (if ps_sending s then 1 else 0) \<and>
     (ps_sending s \<longrightarrow> last (ps_sent s) = (ppi_job_operation_data (ps_if s), ppi_job_operation_len (ps_if s))) \<and>
     subseq (ps_handed s) (if ppi_state (ps_if s) = STATE_OPERATION_PENDING then butlast (ps_sent s) else ps_sent s) \<and>
     (ps_busy s \<longrightarrow> ps_handed s \<noteq> [] \<and> last (ps_handed s) = last (ps_sent s)) \<and>
     ps_cancels s + (if ps_busy s \<and> (\<not> ppi_cancel_requested (ps_if s) \<or>
        BPending_IsSet (ppi_job_requestcancel (ps_if s)) (ps_group s) = Some True) then 1 else 0) \<le> length (ps_handed s)"

lemma ppi_sys_invE:
  assumes "ppi_sys_inv s"
  obtains m js where "pg_rep (ps_group s) m js" "owns m (ppi_jobs (ps_if s))" "dom m = set (ppi_jobs (ps_if s))"
    "ppi_ok (ps_if s) (set js)" "set js \<subseteq> set (ppi_jobs (ps_if s))" "distinct js"
    "BPending_IsSet (ppi_job_requestcancel (ps_if s)) (ps_group s) = Some (ppi_job_requestcancel (ps_if s) \<in> set js)"
proof -
  obtain m js where s: "pg_rep (ps_group s) m js" "owns m (ppi_jobs (ps_if s))" "dom m = set (ppi_jobs (ps_if s))"
    "ppi_ok (ps_if s) (set js)"
    using assms by (auto simp: ppi_sys_inv_def ppi_linked_def)
  have "m (ppi_job_requestcancel (ps_if s)) \<noteq> None" using owns_job [OF s(2)] by simp
  then show thesis
    using that s bp.distinct_rep [OF s(1)] bp.isset_rep [OF s(1), of "ppi_job_requestcancel (ps_if s)"] by (simp add: BPending_defs)
qed

lemma isset_job: "\<lbrakk>pg_rep g m js; owns m s; j \<in> set s\<rbrakk> \<Longrightarrow> BPending_IsSet j g = Some (j \<in> set js)"
  using bp.isset_rep [of g m js j] owns_job [of m s j] by (simp add: BPending_defs)

lemma subseq_butlast: "subseq xs (butlast ys) \<Longrightarrow> subseq xs ys"
  by (metis append_butlast_last_id butlast.simps(1) subseq_rev_drop_many)

lemma ppi_sys_Send:
  assumes inv: "ppi_sys_inv s" and ok: "ppi_allowed (Ev_Send d len) s"
  shows "\<exists>s'. ppi_step (Ev_Send d len) s = Some s' \<and> ppi_sys_inv s'"
proof -
  let ?i = "ps_if s"
  obtain m js where s: "pg_rep (ps_group s) m js" "owns m (ppi_jobs ?i)" "dom m = set (ppi_jobs ?i)" "ppi_ok ?i (set js)"
    by (rule ppi_sys_invE [OF inv])
  have st: "ppi_state ?i = STATE_NONE" "ppi_handler_done ?i" using inv ok by (auto simp: ppi_sys_inv_def)
  obtain g where g: "PacketPassInterface_Sender_Send d len ?i (ps_group s) =
      Some (?i\<lparr>ppi_job_operation_data := d, ppi_job_operation_len := len, ppi_state := STATE_OPERATION_PENDING,
              ppi_cancel_requested := False\<rparr>, g)" "pg_rep g m (ppi_job_operation ?i # js)"
    using ppi_Send [OF s(1,2,4) st, of len d] ok by (auto simp: PacketPassInterface_GetMTU_def)
  have "ppi_linked (?i\<lparr>ppi_job_operation_data := d, ppi_job_operation_len := len, ppi_state := STATE_OPERATION_PENDING,
      ppi_cancel_requested := False\<rparr>) g"
    using s(2-4) st by (intro ppi_linkedI [OF g(2)]) (auto simp: ppi_ok_def owns_def)
  then show ?thesis using g(1) inv st ok by (simp add: ppi_sys_inv_def)
qed

lemma ppi_sys_Done:
  assumes inv: "ppi_sys_inv s" and ok: "ppi_allowed Ev_Done s"
  shows "\<exists>s'. ppi_step Ev_Done s = Some s' \<and> ppi_sys_inv s'"
proof -
  let ?i = "ps_if s"
  obtain m js where s: "pg_rep (ps_group s) m js" "owns m (ppi_jobs ?i)" "dom m = set (ppi_jobs ?i)" "ppi_ok ?i (set js)" "distinct js"
    by (rule ppi_sys_invE [OF inv])
  have st: "ppi_state ?i = STATE_BUSY" using inv ok by (auto simp: ppi_sys_inv_def)
  obtain g where g: "PacketPassInterface_Done ?i (ps_group s) = Some (?i\<lparr>ppi_state := STATE_DONE_PENDING\<rparr>, g)"
    "pg_rep g m (ppi_job_done ?i # remove1 (ppi_job_requestcancel ?i) js)"
    using ppi_Done [OF s(1,2,4) st] by blast
  have "ppi_linked (?i\<lparr>ppi_state := STATE_DONE_PENDING\<rparr>) g"
    using s(2-5) st by (intro ppi_linkedI [OF g(2)]) (auto simp: ppi_ok_def owns_def)
  then show ?thesis using g(1) inv st ok by (auto simp: ppi_sys_inv_def split: if_splits)
qed

lemma ppi_sys_RequestCancel:
  assumes inv: "ppi_sys_inv s" and ok: "ppi_allowed Ev_RequestCancel s"
  shows "\<exists>s'. ppi_step Ev_RequestCancel s = Some s' \<and> ppi_sys_inv s'"
proof -
  let ?i = "ps_if s" and ?c = "ppi_job_requestcancel (ps_if s)"
  obtain m js where s: "pg_rep (ps_group s) m js" "owns m (ppi_jobs ?i)" "dom m = set (ppi_jobs ?i)" "ppi_ok ?i (set js)" "distinct js"
    "BPending_IsSet ?c (ps_group s) = Some (?c \<in> set js)"
    by (rule ppi_sys_invE [OF inv])
  have st: "ppi_state ?i \<noteq> STATE_NONE" "ppi_handler_requestcancel ?i"
    using inv ok by (auto simp: ppi_sys_inv_def PacketPassInterface_HasCancel_def)
  consider (again) "ppi_cancel_requested ?i" | (pending) "\<not> ppi_cancel_requested ?i" "ppi_state ?i = STATE_OPERATION_PENDING"
    | (busy) "\<not> ppi_cancel_requested ?i" "ppi_state ?i = STATE_BUSY"
    | (finished) "\<not> ppi_cancel_requested ?i" "ppi_state ?i = STATE_DONE_PENDING"
    using st(1) by (cases "ppi_state ?i") auto
  then show ?thesis
  proof cases
    case again
    then show ?thesis using st inv by (cases "ppi_state ?i") (auto simp: PacketPassInterface_Sender_RequestCancel_def)
  next
    case pending
    obtain g1 where g1: "BPending_Unset (ppi_job_operation ?i) (ps_group s) = Some g1" "pg_rep g1 m (remove1 (ppi_job_operation ?i) js)"
      using unset_job [OF s(1,2)] by force
    have "ppi_job_done ?i \<notin> set (remove1 (ppi_job_operation ?i) js)"
      using s(4,5) pending by (auto simp: ppi_ok_def)
    from set_job [OF g1(2) s(2) _ this] obtain g where g: "BPending_Set (ppi_job_done ?i) g1 = Some g"
      "pg_rep g m (ppi_job_done ?i # remove1 (ppi_job_operation ?i) js)" by auto
    let ?i' = "?i\<lparr>ppi_cancel_requested := True, ppi_state := STATE_DONE_PENDING\<rparr>"
    have "ppi_linked ?i' g"
      using s(2-5) pending by (intro ppi_linkedI [OF g(2)]) (auto simp: ppi_ok_def owns_def)
    moreover have "subseq (ps_handed s) (ps_sent s)"
      using inv pending subseq_butlast by (auto simp: ppi_sys_inv_def)
    ultimately show ?thesis
      using pending st g1(1) g(1) inv by (simp add: PacketPassInterface_Sender_RequestCancel_def ppi_sys_inv_def)
  next
    case busy
    then have "?c \<notin> set js" using s(4) by (auto simp: ppi_ok_def)
    from set_job [OF s(1,2) _ this] obtain g where g: "BPending_Set ?c (ps_group s) = Some g" "pg_rep g m (?c # js)" by auto
    have "ppi_linked (?i\<lparr>ppi_cancel_requested := True\<rparr>) g"
      using s(2-4) busy st by (intro ppi_linkedI [OF g(2)]) (auto simp: ppi_ok_def owns_def)
    then show ?thesis
      using busy st g(1) inv by (auto simp: PacketPassInterface_Sender_RequestCancel_def ppi_sys_inv_def)
  next
    case finished
    have "ppi_linked (?i\<lparr>ppi_cancel_requested := True\<rparr>) (ps_group s)"
      using s(2-4) finished by (intro ppi_linkedI [OF s(1)]) (auto simp: ppi_ok_def)
    then show ?thesis using finished st inv by (simp add: PacketPassInterface_Sender_RequestCancel_def ppi_sys_inv_def)
  qed
qed

lemma ppi_sys_run:
  assumes inv: "ppi_sys_inv s" and ok: "ppi_allowed Ev_Run s"
  shows "\<exists>s'. ppi_step Ev_Run s = Some s' \<and> ppi_sys_inv s'"
proof -
  let ?i = "ps_if s"
  obtain m js where s: "pg_rep (ps_group s) m js" "owns m (ppi_jobs ?i)" "dom m = set (ppi_jobs ?i)" "ppi_ok ?i (set js)" "distinct js"
    "set js \<subseteq> set (ppi_jobs ?i)"
    "BPending_IsSet (ppi_job_requestcancel ?i) (ps_group s) = Some (ppi_job_requestcancel ?i \<in> set js)"
    by (rule ppi_sys_invE [OF inv])
  have h: "ppi_handler_done ?i" "ps_sending s = (ppi_state ?i \<noteq> STATE_NONE)" "ps_busy s = (ppi_state ?i = STATE_BUSY)"
    using inv by (auto simp: ppi_sys_inv_def)
  obtain j ks where js: "js = j # ks" using ok bp.has_rep [OF s(1)] by (cases js) auto
  obtain g where g: "BPendingGroup_ExecuteJob (ps_group s) = Some (j, g)" "pg_rep g m ks"
    using bp.execute_rep [OF s(1) [unfolded js]] owns_job [OF s(2), of j] s(6) js by auto
  have d: "distinct (ppi_jobs ?i)" "j \<notin> set ks" using s(2,5) js by (auto simp: owns_def)
  have c: "BPending_IsSet (ppi_job_requestcancel ?i) g = Some (ppi_job_requestcancel ?i \<in> set ks)"
    by (rule isset_job [OF g(2) s(2)]) simp
  consider (operation) "j = ppi_job_operation ?i" | (cancel) "j = ppi_job_requestcancel ?i" | (completed) "j = ppi_job_done ?i"
    using s(6) js by auto
  then show ?thesis
  proof cases
    case operation
    then have st: "ppi_state ?i = STATE_OPERATION_PENDING" using s(4) js by (auto simp: ppi_ok_def)
    then have ne: "ps_sent s \<noteq> []" using inv h by (auto simp: ppi_sys_inv_def)
    have sub: "subseq (ps_handed s @ [last (ps_sent s)]) (ps_sent s)"
    proof -
      have "subseq (ps_handed s @ [last (ps_sent s)]) (butlast (ps_sent s) @ [last (ps_sent s)])"
        using inv st by (intro list_emb_append_mono) (auto simp: ppi_sys_inv_def)
      then show ?thesis using ne by simp
    qed
    have "ppi_linked (?i\<lparr>ppi_state := STATE_BUSY\<rparr>) g"
      using s(2-4) js st operation d by (intro ppi_linkedI [OF g(2)]) (auto simp: ppi_ok_def)
    then show ?thesis
      using g(1) inv h st operation sub c by (simp add: ppi_run_job_def ppi_defs ppi_sys_inv_def Let_def)
  next
    case cancel
    then have st: "ppi_state ?i = STATE_BUSY" "ppi_cancel_requested ?i" "ppi_handler_requestcancel ?i"
      using s(4) js by (auto simp: ppi_ok_def)
    have "ppi_linked ?i g" using s(2-4) js cancel d by (intro ppi_linkedI [OF g(2)]) (auto simp: ppi_ok_def)
    then show ?thesis
      using g(1) inv h st cancel s(7) d c js by (auto simp: ppi_run_job_def ppi_defs ppi_sys_inv_def Let_def)
  next
    case completed
    then have st: "ppi_state ?i = STATE_DONE_PENDING" using s(4) js by (auto simp: ppi_ok_def)
    have "ppi_linked (?i\<lparr>ppi_state := STATE_NONE\<rparr>) g"
      using s(2-4) js st completed d by (intro ppi_linkedI [OF g(2)]) (auto simp: ppi_ok_def)
    then show ?thesis
      using g(1) inv h st completed d c by (auto simp: ppi_run_job_def ppi_defs ppi_sys_inv_def Let_def)
  qed
qed

lemma ppi_sys_step: "\<lbrakk>ppi_sys_inv s; ppi_allowed ev s\<rbrakk> \<Longrightarrow> \<exists>s'. ppi_step ev s = Some s' \<and> ppi_sys_inv s'"
  by (cases ev) (auto intro: ppi_sys_Send ppi_sys_Done ppi_sys_RequestCancel ppi_sys_run simp del: ppi_step.simps ppi_allowed.simps)

lemma ppi_start_inv:
  assumes "0 \<le> mtu" "distinct (ppi_jobs i0)"
  shows "\<exists>s0. ppi_start cancel mtu i0 g0 = Some s0 \<and> ppi_sys_inv s0"
proof -
  let ?m = "[ppi_job_operation i0 \<mapsto> ppi_job_operation i0, ppi_job_requestcancel i0 \<mapsto> ppi_job_requestcancel i0,
    ppi_job_done i0 \<mapsto> ppi_job_done i0]"
  obtain g where g: "PacketPassInterface_Init mtu i0 (BPendingGroup_Init g0) =
      Some (i0\<lparr>ppi_mtu := mtu, ppi_handler_requestcancel := False, ppi_handler_done := False, ppi_state := STATE_NONE\<rparr>, g)"
    "pg_rep g ?m []"
    using ppi_Init [OF pg_Init assms] by auto
  have "ppi_linked i g" if "ppi_jobs i = ppi_jobs i0" "ppi_state i = STATE_NONE" for i
    using assms(2) that by (intro ppi_linkedI [OF g(2)]) (auto simp: owns_def ppi_ok_def)
  then show ?thesis
    using g(1) assms(1) by (cases cancel)
      (simp_all add: ppi_start_def PacketPassInterface_EnableCancel_def PacketPassInterface_Sender_Init_def ppi_sys_inv_def)
qed

lemma ppi_reach_inv: "\<lbrakk>ppi_reach s0 s; ppi_sys_inv s0\<rbrakk> \<Longrightarrow> ppi_sys_inv s"
proof (induction rule: ppi_reach.induct)
  case (ppi_reach_step s ev s')
  then show ?case using ppi_sys_step [of s ev] by auto
qed

text \<open>
  C15. The protocol of a packet interface. Whatever a user and a provider do that the protocol
  allows them by the calls they made and got, in any order with the running of jobs, no assertion
  fails: every allowed call and every pending job has a result. Each packet sent is completed exactly
  once; the packets handed to the provider are sent ones, in order and each with the data and length of
  its request; the one the provider is busy with is the last one sent; and the cancellation handler runs no more
  often than packets are handed over.
\<close>

theorem packet_pass_protocol:
  assumes "0 \<le> mtu" "distinct (ppi_jobs i0)"
  shows "\<exists>s0. ppi_start cancel mtu i0 g0 = Some s0 \<and>
    (\<forall>s. ppi_reach s0 s \<longrightarrow>
      (\<forall>ev. ppi_allowed ev s \<longrightarrow> ppi_step ev s \<noteq> None) \<and>
      length (ps_sent s) = ps_dones s + (if ps_sending s then 1 else 0) \<and>
      subseq (ps_handed s) (ps_sent s) \<and>
      (ps_busy s \<longrightarrow> ps_sending s \<and> ps_handed s \<noteq> [] \<and> last (ps_handed s) = last (ps_sent s)) \<and>
      ps_cancels s \<le> length (ps_handed s))"
proof -
  obtain s0 where s0: "ppi_start cancel mtu i0 g0 = Some s0" "ppi_sys_inv s0" using ppi_start_inv [OF assms] by blast
  have "(\<forall>ev. ppi_allowed ev s \<longrightarrow> ppi_step ev s \<noteq> None) \<and>
      length (ps_sent s) = ps_dones s + (if ps_sending s then 1 else 0) \<and>
      subseq (ps_handed s) (ps_sent s) \<and>
      (ps_busy s \<longrightarrow> ps_sending s \<and> ps_handed s \<noteq> [] \<and> last (ps_handed s) = last (ps_sent s)) \<and>
      ps_cancels s \<le> length (ps_handed s)" if "ppi_reach s0 s" for s
  proof -
    have inv: "ppi_sys_inv s" by (rule ppi_reach_inv [OF that s0(2)])
    have "subseq (ps_handed s) (ps_sent s)"
      using inv subseq_butlast [of "ps_handed s" "ps_sent s"] by (auto simp: ppi_sys_inv_def split: if_splits)
    then show ?thesis
      using inv ppi_sys_step [OF inv] by (fastforce simp: ppi_sys_inv_def)
  qed
  with s0(1) show ?thesis by blast
qed

definition demo_ppi :: "nat PacketPassInterface" where
  "demo_ppi = \<lparr>ppi_mtu = 0, ppi_handler_requestcancel = False, ppi_handler_done = False, ppi_job_operation = 1,
     ppi_job_operation_data = None, ppi_job_operation_len = 0, ppi_job_requestcancel = 2, ppi_job_done = 3,
     ppi_state = STATE_NONE, ppi_cancel_requested = False\<rparr>"

definition demo_jobs :: "nat jobs" where
  "demo_jobs = \<lparr>pg_jobs = \<lparr>sl_first = None, sl_next = (\<lambda>_. None), sl_prev = (\<lambda>_. None)\<rparr>, pg_handler = Map.empty,
     pg_pending = (\<lambda>_. False), pg_ctr = 0\<rparr>"

theorem packet_pass_protocol_witness:
  "\<exists>s0. ppi_start True 100 demo_ppi demo_jobs = Some s0 \<and> ppi_step (Ev_Send (Some 8) 20) s0 \<noteq> None"
proof -
  have d: "distinct (ppi_jobs demo_ppi)" by (simp add: demo_ppi_def)
  obtain s0 where s0: "ppi_start True 100 demo_ppi demo_jobs = Some s0"
    and ok: "\<forall>s. ppi_reach s0 s \<longrightarrow> (\<forall>ev. ppi_allowed ev s \<longrightarrow> ppi_step ev s \<noteq> None)"
    using packet_pass_protocol [of 100 demo_ppi True demo_jobs] d by auto
  have "ppi_allowed (Ev_Send (Some 8) 20) s0"
    using s0 by (auto simp: ppi_start_def PacketPassInterface_Init_def PacketPassInterface_EnableCancel_def
        PacketPassInterface_Sender_Init_def PacketPassInterface_GetMTU_def elim!: bind_eq_SomeE)
  with s0 ok ppi_reach_start show ?thesis by blast
qed

end
