(* ===== verification/Flow.thy ===== *)
theory Flow
  imports FlowIf PacketProto PacketBuffer
begin

text \<open>
  The flow elements of tun2socks' packet paths, run by the job queue: \<open>flow/BufferWriter.c\<close>,
  \<open>flow/PacketProtoEncoder.c\<close> (its handlers on pointers; \<open>PacketProto\<close> has them by value),
  \<open>flow/PacketBuffer.c\<close>, and \<open>flow/PacketProtoFlow.c\<close>, which chains the three:
  packets written into the buffer writer leave the output interface framed. The elements share one
  memory, the block of the packet buffer, in which the client writes a packet, the encoder its
  header, and from which the consumer reads. The main result is that the frames the consumer gets are
  those of the packets written, in order, for every interleaving of jobs, client and consumer.
\<close>

section \<open>BufferWriter\<close>

record 'j BufferWriter =
  bw_recv_interface :: "'j PacketRecvInterface"
  bw_out_have :: bool
  bw_out :: "int option"
  bw_d_mtu :: int
  bw_d_writing :: bool

definition BufferWriter_output_handler_recv :: "int option \<Rightarrow> 'j BufferWriter \<Rightarrow> 'j BufferWriter option" where
  "BufferWriter_output_handler_recv data bw =
     do { ASSERT (\<not> bw_out_have bw); Some (bw\<lparr>bw_out_have := True, bw_out := data\<rparr>) }"

definition BufferWriter_Init :: "int \<Rightarrow> 'j BufferWriter \<Rightarrow> 'j jobs \<Rightarrow> ('j BufferWriter \<times> 'j jobs) option" where
  "BufferWriter_Init mtu bw g =
     do { ASSERT (0 \<le> mtu);
          (i, g) \<leftarrow> PacketRecvInterface_Init mtu (bw_recv_interface bw) g;
          Some (bw\<lparr>bw_recv_interface := i, bw_out_have := False, bw_d_mtu := mtu, bw_d_writing := False\<rparr>, g) }"

definition BufferWriter_Free :: "'j BufferWriter \<Rightarrow> 'j jobs \<Rightarrow> 'j jobs option" where
  "BufferWriter_Free bw g = PacketRecvInterface_Free (bw_recv_interface bw) g"

text \<open>The result: whether a packet can be written, and where.\<close>

definition BufferWriter_StartPacket :: "'j BufferWriter \<Rightarrow> ('j BufferWriter \<times> int option option) option" where
  "BufferWriter_StartPacket bw =
     do { ASSERT (\<not> bw_d_writing bw);
          if \<not> bw_out_have bw then Some (bw, None)
          else Some (bw\<lparr>bw_d_writing := True\<rparr>, Some (bw_out bw)) }"

definition BufferWriter_EndPacket :: "int \<Rightarrow> 'j BufferWriter \<Rightarrow> 'j jobs \<Rightarrow> ('j BufferWriter \<times> 'j jobs) option" where
  "BufferWriter_EndPacket len bw g =
     do { ASSERT (0 \<le> len); ASSERT (len \<le> bw_d_mtu bw); ASSERT (bw_out_have bw); ASSERT (bw_d_writing bw);
          (i, g) \<leftarrow> PacketRecvInterface_Done len (bw_recv_interface bw) g;
          Some (bw\<lparr>bw_out_have := False, bw_recv_interface := i, bw_d_writing := False\<rparr>, g) }"

section \<open>PacketProtoFlow\<close>

datatype flow_job = WriterOp | WriterDone | EncoderOp | EncoderDone | OutputOp | OutputCancel | OutputDone

text \<open>
  The object, the interface it sends to, and the job group. The \<open>pf_encoder\<close> fields are those of its
  \<open>PacketProtoEncoder\<close>. Two histories are kept: the packets the client wrote and what the
  consumer found in memory when it completed a packet.
\<close>

record PacketProtoFlow =
  pf_ainput :: "flow_job BufferWriter"
  pf_encoder_output :: "flow_job PacketRecvInterface"
  pf_encoder_output_packet :: "int option"
  pf_buffer :: PacketBuffer
  pf_output :: "flow_job PacketPassInterface"
  pf_group :: "flow_job jobs"
  pf_written :: "bytes list"
  pf_taken :: "bytes list"

abbreviation pf_mem :: "PacketProtoFlow \<Rightarrow> bytes" where
  "pf_mem f \<equiv> cb_mem (pb_buf (pf_buffer f))"

definition pf_poke :: "int \<Rightarrow> bytes \<Rightarrow> PacketProtoFlow \<Rightarrow> PacketProtoFlow" where
  "pf_poke d bs f =
     f\<lparr>pf_buffer := (pf_buffer f)\<lparr>pb_buf := (pb_buf (pf_buffer f))\<lparr>cb_mem := write_at (nat d) bs (pf_mem f)\<rparr>\<rparr>\<rparr>"

definition PF_encoder_output_handler_recv :: "int option \<Rightarrow> PacketProtoFlow \<Rightarrow> PacketProtoFlow option" where
  "PF_encoder_output_handler_recv data f =
     do { ASSERT (pf_encoder_output_packet f = None); ASSERT (data \<noteq> None);
          (i, g) \<leftarrow> PacketRecvInterface_Receiver_Recv (map_option (\<lambda>d. d + 2) data)
            (bw_recv_interface (pf_ainput f)) (pf_group f);
          Some (f\<lparr>pf_encoder_output_packet := data, pf_ainput := (pf_ainput f)\<lparr>bw_recv_interface := i\<rparr>, pf_group := g\<rparr>) }"

definition PF_encoder_input_handler_done :: "int \<Rightarrow> PacketProtoFlow \<Rightarrow> PacketProtoFlow option" where
  "PF_encoder_input_handler_done in_len f =
     do { d \<leftarrow> pf_encoder_output_packet f;
          let f = pf_poke d (mem16 (of_int in_len)) f;
          (i, g) \<leftarrow> PacketRecvInterface_Done (int (PACKETPROTO_ENCLEN (nat in_len))) (pf_encoder_output f) (pf_group f);
          Some (f\<lparr>pf_encoder_output_packet := None, pf_encoder_output := i, pf_group := g\<rparr>) }"

text \<open>The calls of the packet buffer go to the encoder's output and to the output interface.\<close>

fun pf_call :: "PacketBuffer_call \<Rightarrow> PacketProtoFlow \<Rightarrow> PacketProtoFlow option" where
  "pf_call (PB_Receiver_Recv d) f =
     do { (i, g) \<leftarrow> PacketRecvInterface_Receiver_Recv d (pf_encoder_output f) (pf_group f);
          Some (f\<lparr>pf_encoder_output := i, pf_group := g\<rparr>) }"
| "pf_call (PB_Sender_Send d n) f =
     do { (i, g) \<leftarrow> PacketPassInterface_Sender_Send d n (pf_output f) (pf_group f);
          Some (f\<lparr>pf_output := i, pf_group := g\<rparr>) }"

fun pf_calls :: "PacketBuffer_call list \<Rightarrow> PacketProtoFlow \<Rightarrow> PacketProtoFlow option" where
  "pf_calls [] f = Some f"
| "pf_calls (c # cs) f = do { f \<leftarrow> pf_call c f; pf_calls cs f }"

text \<open>
  \<open>PacketProtoFlow_Init\<close> on memory \<open>f\<close>, whose output interface is initialised. \<open>alloc\<close> is
  \<open>BAllocArray\<close>. The result \<open>Inl\<close> is the failure return, with what has been initialised freed
  again. The output keeps its user then: \<open>PacketBuffer_Init\<close> does not undo \<open>Sender_Init\<close>.
\<close>

definition PacketProtoFlow_Init ::
  "(int \<Rightarrow> bytes option) \<Rightarrow> int \<Rightarrow> int \<Rightarrow> PacketProtoFlow \<Rightarrow> (PacketProtoFlow + PacketProtoFlow) option" where
  "PacketProtoFlow_Init alloc input_mtu num_packets f =
     do { ASSERT (0 \<le> input_mtu); ASSERT (input_mtu \<le> int PACKETPROTO_MAXPAYLOAD); ASSERT (0 < num_packets);
          ASSERT (int (PACKETPROTO_ENCLEN (nat input_mtu)) \<le> PacketPassInterface_GetMTU (pf_output f));
          (bw, g) \<leftarrow> BufferWriter_Init input_mtu (pf_ainput f) (pf_group f);
          ASSERT (PacketRecvInterface_GetMTU (bw_recv_interface bw) \<le> int PACKETPROTO_MAXPAYLOAD);
          i \<leftarrow> PacketRecvInterface_Receiver_Init (bw_recv_interface bw);
          let bw = bw\<lparr>bw_recv_interface := i\<rparr>;
          (e, g) \<leftarrow> PacketRecvInterface_Init (int (PACKETPROTO_ENCLEN (nat (PacketRecvInterface_GetMTU i)))) (pf_encoder_output f) g;
          ASSERT (PacketRecvInterface_GetMTU e \<le> PacketPassInterface_GetMTU (pf_output f));
          e \<leftarrow> PacketRecvInterface_Receiver_Init e;
          out \<leftarrow> PacketPassInterface_Sender_Init (pf_output f);
          let f = f\<lparr>pf_ainput := bw, pf_encoder_output := e, pf_encoder_output_packet := None, pf_output := out, pf_group := g\<rparr>;
          case PacketBuffer_Init alloc (PacketRecvInterface_GetMTU e) num_packets of
            None \<Rightarrow> do { g \<leftarrow> PacketRecvInterface_Free (pf_encoder_output f) g;
                         g \<leftarrow> BufferWriter_Free (pf_ainput f) g;
                         Some (Inl (f\<lparr>pf_group := g\<rparr>)) }
          | Some (buf, calls) \<Rightarrow> map_option Inr (pf_calls calls (f\<lparr>pf_buffer := buf\<rparr>)) }"

definition PacketProtoFlow_Free :: "PacketProtoFlow \<Rightarrow> PacketProtoFlow option" where
  "PacketProtoFlow_Free f =
     do { g \<leftarrow> PacketRecvInterface_Free (pf_encoder_output f) (pf_group f);
          g \<leftarrow> BufferWriter_Free (pf_ainput f) g;
          Some (f\<lparr>pf_group := g\<rparr>) }"

section \<open>Running a flow\<close>

text \<open>
  \<open>pf_run_job\<close> runs the next job. When the output interface hands a packet to the consumer nothing
  else happens: the consumer completes it in a later event. Its cancel request has no effect on the flow.
\<close>

definition pf_job :: "flow_job \<Rightarrow> PacketProtoFlow \<Rightarrow> PacketProtoFlow option" where
  "pf_job j f =
     (case j of
        WriterOp \<Rightarrow>
          do { (i, d) \<leftarrow> PacketRecvInterface_job_operation (bw_recv_interface (pf_ainput f));
               bw \<leftarrow> BufferWriter_output_handler_recv d ((pf_ainput f)\<lparr>bw_recv_interface := i\<rparr>);
               Some (f\<lparr>pf_ainput := bw\<rparr>) }
      | WriterDone \<Rightarrow>
          do { (i, len) \<leftarrow> PacketRecvInterface_job_done (bw_recv_interface (pf_ainput f));
               PF_encoder_input_handler_done len (f\<lparr>pf_ainput := (pf_ainput f)\<lparr>bw_recv_interface := i\<rparr>\<rparr>) }
      | EncoderOp \<Rightarrow>
          do { (i, d) \<leftarrow> PacketRecvInterface_job_operation (pf_encoder_output f);
               PF_encoder_output_handler_recv d (f\<lparr>pf_encoder_output := i\<rparr>) }
      | EncoderDone \<Rightarrow>
          do { (i, len) \<leftarrow> PacketRecvInterface_job_done (pf_encoder_output f);
               ASSERT (0 \<le> len); ASSERT (len \<le> pb_input_mtu (pf_buffer f));
               (let (b, calls) = PB_input_handler_done (pf_buffer f) len
                in pf_calls calls (f\<lparr>pf_encoder_output := i, pf_buffer := b\<rparr>)) }
      | OutputOp \<Rightarrow>
          do { (i, d, len) \<leftarrow> PacketPassInterface_job_operation (pf_output f); Some (f\<lparr>pf_output := i\<rparr>) }
      | OutputCancel \<Rightarrow> do { PacketPassInterface_job_requestcancel (pf_output f); Some f }
      | OutputDone \<Rightarrow>
          do { i \<leftarrow> PacketPassInterface_job_done (pf_output f);
               (let (b, calls) = PB_output_handler_done (pf_buffer f)
                in pf_calls calls (f\<lparr>pf_output := i, pf_buffer := b\<rparr>)) })"

definition pf_run_job :: "PacketProtoFlow \<Rightarrow> PacketProtoFlow option" where
  "pf_run_job f =
     do { (j, g) \<leftarrow> BPendingGroup_ExecuteJob (pf_group f); pf_job j (f\<lparr>pf_group := g\<rparr>) }"

text \<open>The client: it starts a packet, and ends one after writing \<open>p\<close> at the address it got.\<close>

definition pf_start :: "PacketProtoFlow \<Rightarrow> (PacketProtoFlow \<times> bool) option" where
  "pf_start f =
     do { (bw, r) \<leftarrow> BufferWriter_StartPacket (pf_ainput f); Some (f\<lparr>pf_ainput := bw\<rparr>, r \<noteq> None) }"

definition pf_end :: "bytes \<Rightarrow> PacketProtoFlow \<Rightarrow> PacketProtoFlow option" where
  "pf_end p f =
     do { d \<leftarrow> bw_out (pf_ainput f);
          let f = pf_poke d p f;
          (bw, g) \<leftarrow> BufferWriter_EndPacket (int (length p)) (pf_ainput f) (pf_group f);
          Some (f\<lparr>pf_ainput := bw, pf_group := g, pf_written := pf_written f @ [p]\<rparr>) }"

text \<open>The consumer: it reads the packet it was handed and completes it.\<close>

definition pf_take :: "PacketProtoFlow \<Rightarrow> PacketProtoFlow option" where
  "pf_take f =
     do { d \<leftarrow> ppi_job_operation_data (pf_output f);
          let p = cb_peek (pb_buf (pf_buffer f)) d (ppi_job_operation_len (pf_output f));
          (i, g) \<leftarrow> PacketPassInterface_Done (pf_output f) (pf_group f);
          Some (f\<lparr>pf_output := i, pf_group := g, pf_taken := pf_taken f @ [p]\<rparr>) }"

datatype flow_event = FlowRun | FlowStart | FlowEnd bytes | FlowTake

fun pf_allowed :: "flow_event \<Rightarrow> PacketProtoFlow \<Rightarrow> bool" where
  "pf_allowed FlowRun f \<longleftrightarrow> BPendingGroup_HasJobs (pf_group f)"
| "pf_allowed FlowStart f \<longleftrightarrow> \<not> bw_d_writing (pf_ainput f)"
| "pf_allowed (FlowEnd p) f \<longleftrightarrow> bw_d_writing (pf_ainput f) \<and> int (length p) \<le> bw_d_mtu (pf_ainput f)"
| "pf_allowed FlowTake f \<longleftrightarrow> ppi_state (pf_output f) = STATE_BUSY"

fun pf_step :: "flow_event \<Rightarrow> PacketProtoFlow \<Rightarrow> PacketProtoFlow option" where
  "pf_step FlowRun f = pf_run_job f"
| "pf_step FlowStart f = map_option fst (pf_start f)"
| "pf_step (FlowEnd p) f = pf_end p f"
| "pf_step FlowTake f = pf_take f"

inductive pf_reach :: "PacketProtoFlow \<Rightarrow> PacketProtoFlow \<Rightarrow> bool" for f0 :: PacketProtoFlow where
  pf_reach_start: "pf_reach f0 f0"
| pf_reach_step: "\<lbrakk>pf_reach f0 f; pf_allowed ev f; pf_step ev f = Some f'\<rbrakk> \<Longrightarrow> pf_reach f0 f'"

section \<open>Writing into the free part of the buffer\<close>

lemma write_at_same: "\<lbrakk>window d (length q) mem = q; d + length q \<le> length mem\<rbrakk> \<Longrightarrow> write_at d q mem = mem"
  unfolding write_at_def window_def by (metis add.commute append_take_drop_id drop_drop)

lemma write_at_part:
  assumes "d \<le> e" "e + length q \<le> length mem"
  shows "write_at e q mem = write_at d (window d (e - d) mem @ q) mem"
proof -
  have "take d mem @ window d (e - d) mem = take e mem" using assms(1) by (simp add: window_def take_add [symmetric])
  then show ?thesis using assms by (simp add: write_at_def flip: append_assoc)
qed

lemma window_split: "window d (n + k) mem = window d n mem @ window (d + n) k mem"
  unfolding window_def take_add drop_drop by (simp add: add.commute)

text \<open>
  The bytes from where the next packet goes on belong to the producer: writing there changes
  nothing of what the buffer holds.
\<close>

lemma cb_rep_producer:
  assumes "cb_rep buf ps" "cb_input_dest buf = Some d" "int (length p) \<le> cb_input_avail buf"
  shows "cb_rep (buf\<lparr>cb_mem := write_at (nat d) p (cb_mem buf)\<rparr>) ps"
    "nat d + length p \<le> length (cb_mem buf)"
proof -
  let ?e = "ChunkBuffer2_end buf" and ?n = "blocks_of p" and ?m = "write_at (nat d) p (cb_mem buf)"
  note room = input_room [OF assms]
  have shape: "cb_shape buf" and holds: "cb_holds buf ps" and io: "cb_io buf" using assms(1) by (simp_all add: cb_rep_def)
  have n: "1 \<le> ?n" by (rule blocks_of_pos)
  have mem: "nat (4 * (?e + ?n)) \<le> length (cb_mem buf)"
    using room(3) shape by (auto simp: cb_shape_def split: if_splits)
  have fits: "nat d + length p \<le> nat (4 * (?e + ?n))" using packet_fits(1) [OF room(2), of p] room(1) by simp
  then show len: "nat d + length p \<le> length (cb_mem buf)" using mem by simp
  have out: "window i k ?m = window i k (cb_mem buf)" if "i + k \<le> nat (4 * ?e) \<or> nat (4 * (?e + ?n)) \<le> i" for i k
    using that
  proof
    assume "i + k \<le> nat (4 * ?e)"
    then show ?thesis using room(1,2) len by (intro window_write_at_before) auto
  next
    assume "nat (4 * (?e + ?n)) \<le> i"
    then show ?thesis using fits len by (intro window_write_at_after) auto
  qed
  have keep: "segment ?m a c qs" if "segment (cb_mem buf) a c qs" "0 \<le> a" "c \<le> ?e \<or> ?e + ?n \<le> a" for a c qs
  proof (rule segment_frame [OF that(1,2)])
    fix i k assume "nat (4 * a) \<le> i" "i + k \<le> nat (4 * c)"
    then show "window i k ?m = window i k (cb_mem buf)"
      using that(2,3) room(2) n by (intro out) (auto simp: nat_le_iff)
  qed
  have e: "?e = (if cb_wrapped buf then cb_used buf - (cb_wrap buf - cb_start buf) else cb_start buf + cb_used buf)"
    by (simp add: ChunkBuffer2_end_def)
  have "cb_holds (buf\<lparr>cb_mem := ?m\<rparr>) ps"
  proof (cases "cb_wrapped buf")
    case True
    then obtain ps1 ps2 where s: "ps = ps1 @ ps2" "segment (cb_mem buf) (cb_start buf) (cb_wrap buf) ps1"
      "starts_le (cb_limit buf) (cb_start buf) ps1" "segment (cb_mem buf) 0 ?e ps2"
      using holds e by (auto simp: cb_holds_def)
    have "segment ?m (cb_start buf) (cb_wrap buf) ps1" "segment ?m 0 ?e ps2"
      using keep [OF s(2)] keep [OF s(4)] room(3) True shape by (auto simp: cb_shape_def)
    with True s e show ?thesis by (auto simp: cb_holds_def)
  next
    case False
    then have "segment ?m (cb_start buf) ?e ps" using keep [of "cb_start buf" ?e ps] holds e shape by (auto simp: cb_holds_def cb_shape_def)
    with False holds e show ?thesis by (auto simp: cb_holds_def)
  qed
  moreover have "cb_shape (buf\<lparr>cb_mem := ?m\<rparr>)" using shape len by (simp add: cb_shape_def)
  moreover have "cb_io (buf\<lparr>cb_mem := ?m\<rparr>)"
  proof -
    have "ChunkBuffer2_update_input (buf\<lparr>cb_mem := ?m\<rparr>) = (ChunkBuffer2_update_input buf)\<lparr>cb_mem := ?m\<rparr>"
      by (simp add: ChunkBuffer2_update_input_def ChunkBuffer2_end_def Let_def)
    moreover have "block_len ?m (cb_start buf) = block_len (cb_mem buf) (cb_start buf)" if "0 < cb_used buf"
      unfolding block_len_def
      by (subst out) (use that e shape room(2,3) n in \<open>auto simp: cb_shape_def split: if_splits\<close>)
    ultimately show ?thesis using io by (simp add: cb_io_def update_output_fixed_iff split: if_splits)
  qed
  ultimately show "cb_rep (buf\<lparr>cb_mem := ?m\<rparr>) ps" by (simp add: cb_rep_def)
qed

section \<open>The invariant\<close>

text \<open>
  The flow seen as the packet buffer between its neighbours: the packet in progress between client
  and encoder is not yet in, the packet whose completion is pending is not yet out.
\<close>

definition pf_inflight :: "PacketProtoFlow \<Rightarrow> bool" where
  "pf_inflight f \<longleftrightarrow> pri_state (bw_recv_interface (pf_ainput f)) = STATE_DONE_PENDING \<or>
     pri_state (pf_encoder_output f) = STATE_DONE_PENDING"

definition pf_abs :: "PacketProtoFlow \<Rightarrow> pb_system" where
  "pf_abs f =
     \<lparr>sys_buf = pf_buffer f,
      sys_recv = (if pri_state (pf_encoder_output f) = STATE_NONE then None else Some (pri_job_operation_data (pf_encoder_output f))),
      sys_send = (if ppi_state (pf_output f) = STATE_NONE then None
                  else Some (ppi_job_operation_data (pf_output f), ppi_job_operation_len (pf_output f))),
      sys_in = map frame (if pf_inflight f then butlast (pf_written f) else pf_written f),
      sys_out = (if ppi_state (pf_output f) = STATE_DONE_PENDING then butlast (pf_taken f) else pf_taken f)\<rparr>"

abbreviation flow_jobs :: "flow_job list" where
  "flow_jobs \<equiv> [WriterOp, WriterDone, EncoderOp, EncoderDone, OutputOp, OutputCancel, OutputDone]"

text \<open>
  The work that is pending, as jobs still to run: running one job may set up to two others, but never
  one that is as heavy.
\<close>

fun in_weight :: "if_state \<Rightarrow> if_state \<Rightarrow> nat" where
  "in_weight w e = (case e of STATE_NONE \<Rightarrow> 0 | STATE_OPERATION_PENDING \<Rightarrow> 2 | STATE_DONE_PENDING \<Rightarrow> 4
     | STATE_BUSY \<Rightarrow> (case w of STATE_OPERATION_PENDING \<Rightarrow> 1 | STATE_DONE_PENDING \<Rightarrow> 5 | _ \<Rightarrow> 0))"

fun out_weight :: "if_state \<Rightarrow> nat" where
  "out_weight STATE_OPERATION_PENDING = 1"
| "out_weight STATE_DONE_PENDING = 4"
| "out_weight _ = 0"

definition pf_weight :: "PacketProtoFlow \<Rightarrow> nat" where
  "pf_weight f = in_weight (pri_state (bw_recv_interface (pf_ainput f))) (pri_state (pf_encoder_output f)) +
     out_weight (ppi_state (pf_output f))"

text \<open>
  The interfaces are wired to the jobs, and their states agree with the pending jobs \<open>js\<close>. The
  flow never asks for cancellation.
\<close>

definition pf_wired :: "PacketProtoFlow \<Rightarrow> bool" where
  "pf_wired f \<longleftrightarrow>
     pri_jobs (bw_recv_interface (pf_ainput f)) = [WriterOp, WriterDone] \<and> pri_jobs (pf_encoder_output f) = [EncoderOp, EncoderDone] \<and>
     ppi_jobs (pf_output f) = [OutputOp, OutputCancel, OutputDone]"

definition pf_linked :: "PacketProtoFlow \<Rightarrow> flow_job list \<Rightarrow> bool" where
  "pf_linked f js \<longleftrightarrow>
     pf_wired f \<and> (\<exists>m. pg_rep (pf_group f) m js \<and> owns m flow_jobs) \<and>
     pri_ok (bw_recv_interface (pf_ainput f)) (set js) \<and> pri_ok (pf_encoder_output f) (set js) \<and> ppi_ok (pf_output f) (set js) \<and>
     pri_handler_done (bw_recv_interface (pf_ainput f)) \<and> pri_handler_done (pf_encoder_output f) \<and> ppi_handler_done (pf_output f) \<and>
     OutputCancel \<notin> set js"

text \<open>
  The stages of a packet on its way into the buffer: nobody asked for one; the encoder is asked; the
  writer is asked, has the address, or was given a packet; the encoder is finished.
\<close>

definition pf_stage :: "PacketProtoFlow \<Rightarrow> bool" where
  "pf_stage f \<longleftrightarrow>
     (let bw = pf_ainput f; w = bw_recv_interface bw; e = pf_encoder_output f; p = last (pf_written f)
      in (bw_out_have bw \<longleftrightarrow> pri_state w = STATE_BUSY) \<and> (bw_d_writing bw \<longrightarrow> bw_out_have bw) \<and>
         (case pri_state e of
            STATE_BUSY \<Rightarrow> pri_state w \<noteq> STATE_NONE \<and>
              (\<exists>d. pri_job_operation_data e = Some d \<and> pf_encoder_output_packet f = Some d \<and> pri_job_operation_data w = Some (d + 2) \<and>
                 (bw_out_have bw \<longrightarrow> bw_out bw = Some (d + 2)) \<and>
                 (pri_state w = STATE_DONE_PENDING \<longrightarrow> pf_written f \<noteq> [] \<and> pri_job_done_len w = int (length p) \<and>
                    int (length p) \<le> pri_mtu w \<and> window (nat (d + 2)) (length p) (pf_mem f) = p))
          | STATE_DONE_PENDING \<Rightarrow> pri_state w = STATE_NONE \<and> pf_encoder_output_packet f = None \<and>
              (\<exists>d. pri_job_operation_data e = Some d \<and> pf_written f \<noteq> [] \<and> pri_job_done_len e = int (length (frame p)) \<and>
                 int (length p) \<le> pri_mtu w \<and> window (nat d) (length (frame p)) (pf_mem f) = frame p)
          | _ \<Rightarrow> pri_state w = STATE_NONE \<and> pf_encoder_output_packet f = None))"

definition pf_mtus :: "int \<Rightarrow> PacketProtoFlow \<Rightarrow> bool" where
  "pf_mtus mtu f \<longleftrightarrow>
     0 \<le> mtu \<and> mtu \<le> int PACKETPROTO_MAXPAYLOAD \<and> pri_mtu (bw_recv_interface (pf_ainput f)) = mtu \<and> bw_d_mtu (pf_ainput f) = mtu \<and>
     pri_mtu (pf_encoder_output f) = mtu + 2 \<and> mtu + 2 \<le> ppi_mtu (pf_output f)"

definition pf_inv :: "int \<Rightarrow> int \<Rightarrow> PacketProtoFlow \<Rightarrow> bytes list \<Rightarrow> bool" where
  "pf_inv mtu num f ps \<longleftrightarrow>
     (\<exists>js. pf_linked f js) \<and> pf_mtus mtu f \<and> pf_stage f \<and> pb_inv (mtu + 2) num (pf_abs f) ps \<and>
     (ppi_state (pf_output f) = STATE_DONE_PENDING \<longrightarrow> pf_taken f = butlast (pf_taken f) @ [hd ps])"

text \<open>What the packet buffer's view says of the output and of the input side.\<close>

lemma pb_inv_sent:
  assumes "pb_inv M num s ps" "sys_send s = Some (d, n)"
  shows "ps \<noteq> []" "d \<noteq> None" "0 \<le> n" "n \<le> M" "n = int (length (hd ps))" "\<exists>a. d = Some a \<and> cb_peek (pb_buf (sys_buf s)) a n = hd ps"
proof -
  let ?cb = "pb_buf (sys_buf s)"
  obtain p qs where ps: "ps = p # qs" using assms by (cases ps) (auto simp: pb_inv_def Let_def)
  have rep: "cb_rep ?cb (p # qs)" and s: "d = cb_output_dest ?cb" "n = cb_output_avail ?cb" "int (length p) \<le> M"
    using assms ps by (auto simp: pb_inv_def Let_def)
  from cbq.out_head [OF rep] obtain a where "cb_output_dest ?cb = Some a" "cb_output_avail ?cb = int (length p)" "cb_peek ?cb a (cb_output_avail ?cb) = p" by blast
  with s ps show "ps \<noteq> []" "d \<noteq> None" "0 \<le> n" "n \<le> M" "n = int (length (hd ps))" "\<exists>a. d = Some a \<and> cb_peek ?cb a n = hd ps" by auto
qed

lemma pb_inv_recv:
  assumes "pb_inv M num s ps" "sys_recv s = Some d"
  shows "\<exists>a. d = Some a \<and> cb_input_dest (pb_buf (sys_buf s)) = Some a" "M \<le> cb_input_avail (pb_buf (sys_buf s))"
    "cb_rep (pb_buf (sys_buf s)) ps" "0 \<le> M"
proof -
  have s: "cb_rep (pb_buf (sys_buf s)) ps" "0 \<le> M" "M \<le> cb_input_avail (pb_buf (sys_buf s))" "d = cb_input_dest (pb_buf (sys_buf s))"
    using assms by (auto simp: pb_inv_def Let_def split: if_splits)
  then show "\<exists>a. d = Some a \<and> cb_input_dest (pb_buf (sys_buf s)) = Some a" using cbq.in_avail_dest [OF s(1)] by fastforce
  show "M \<le> cb_input_avail (pb_buf (sys_buf s))" "cb_rep (pb_buf (sys_buf s)) ps" "0 \<le> M" by fact+
qed

lemma pf_abs_buf [simp]: "sys_buf (pf_abs f) = pf_buffer f"
  by (simp add: pf_abs_def)

text \<open>Writing a piece of the next packet keeps the view.\<close>

lemma pf_poke_abs [simp]:
  "pf_abs (pf_poke a bs f) = (pf_abs f)\<lparr>sys_buf := (pf_buffer f)\<lparr>pb_buf := (pb_buf (pf_buffer f))\<lparr>cb_mem := write_at (nat a) bs (pf_mem f)\<rparr>\<rparr>\<rparr>"
  by (simp add: pf_abs_def pf_poke_def pf_inflight_def)

lemma pb_inv_mem:
  "\<lbrakk>pb_inv M num s ps; cb_rep ((pb_buf (sys_buf s))\<lparr>cb_mem := m\<rparr>) ps\<rbrakk> \<Longrightarrow>
   pb_inv M num (s\<lparr>sys_buf := (sys_buf s)\<lparr>pb_buf := (pb_buf (sys_buf s))\<lparr>cb_mem := m\<rparr>\<rparr>\<rparr>) ps"
  by (auto simp: pb_inv_def Let_def)

lemma poke_inv:
  assumes inv: "pb_inv M num s ps" and d: "sys_recv s = Some (Some d)" and a: "d \<le> a" "a + int (length bs) \<le> d + M"
  shows "pb_inv M num (s\<lparr>sys_buf := (sys_buf s)\<lparr>pb_buf := (pb_buf (sys_buf s))\<lparr>cb_mem := write_at (nat a) bs (cb_mem (pb_buf (sys_buf s)))\<rparr>\<rparr>\<rparr>) ps"
    "nat a + length bs \<le> length (cb_mem (pb_buf (sys_buf s)))" "0 \<le> d"
proof -
  let ?cb = "pb_buf (sys_buf s)"
  let ?p = "window (nat d) (nat a - nat d) (cb_mem ?cb) @ bs"
  note r = pb_inv_recv [OF inv d]
  have dest: "cb_input_dest ?cb = Some d" using r(1) by auto
  show "0 \<le> d" using input_room(1,2) [OF r(3) dest, of "[]"] r(2,4) by simp
  then have na: "nat d \<le> nat a" "nat a - nat d = nat (a - d)" using a by auto
  have "length ?p \<le> nat (a - d) + length bs" by (simp add: na(2))
  then have "int (length ?p) \<le> cb_input_avail ?cb" using r(2) a by linarith
  note w = cb_rep_producer [OF r(3) dest this]
  have "int (nat (a - d) + length bs) \<le> cb_input_avail ?cb" using r(2) a by simp
  then have "nat d + length (replicate (nat (a - d) + length bs) (0::byte)) \<le> length (cb_mem ?cb)"
    by (intro cb_rep_producer(2) [OF r(3) dest]) simp
  then show len: "nat a + length bs \<le> length (cb_mem ?cb)" using na \<open>0 \<le> d\<close> a by simp
  show "pb_inv M num (s\<lparr>sys_buf := (sys_buf s)\<lparr>pb_buf := ?cb\<lparr>cb_mem := write_at (nat a) bs (cb_mem ?cb)\<rparr>\<rparr>\<rparr>) ps"
    using w(1) unfolding write_at_part [OF na(1) len] by (intro pb_inv_mem [OF inv])
qed

section \<open>The calls of the buffer\<close>

text \<open>A call that the buffer's view accepts is one the interfaces accept.\<close>

lemma pf_linkedI:
  assumes "pf_wired f" "pg_rep (pf_group f) m js" "owns m flow_jobs"
    "pri_ok (bw_recv_interface (pf_ainput f)) (set js)" "pri_ok (pf_encoder_output f) (set js)" "ppi_ok (pf_output f) (set js)"
    "pri_handler_done (bw_recv_interface (pf_ainput f))" "pri_handler_done (pf_encoder_output f)" "ppi_handler_done (pf_output f)"
    "OutputCancel \<notin> set js"
  shows "pf_linked f js"
  using assms by (auto simp: pf_linked_def)

lemma pf_linkedE:
  assumes "pf_linked f js"
  obtains m where "pg_rep (pf_group f) m js" "owns m flow_jobs"
    "owns m (pri_jobs (bw_recv_interface (pf_ainput f)))" "owns m (pri_jobs (pf_encoder_output f))" "owns m (ppi_jobs (pf_output f))"
    "pf_wired f" "pri_ok (bw_recv_interface (pf_ainput f)) (set js)" "pri_ok (pf_encoder_output f) (set js)" "ppi_ok (pf_output f) (set js)"
    "pri_handler_done (bw_recv_interface (pf_ainput f))" "pri_handler_done (pf_encoder_output f)" "ppi_handler_done (pf_output f)"
    "OutputCancel \<notin> set js"
  using assms by (auto simp: pf_linked_def pf_wired_def owns_def)

lemmas wiring = pf_wired_def pri_ok_def ppi_ok_def

fun call_ok :: "int \<Rightarrow> PacketBuffer_call \<Rightarrow> bool" where
  "call_ok M (PB_Receiver_Recv d) \<longleftrightarrow> d \<noteq> None"
| "call_ok M (PB_Sender_Send d n) \<longleftrightarrow> d \<noteq> None \<and> 0 \<le> n \<and> n \<le> M"

text \<open>What the calls change: an idle interface may have an operation pending after them.\<close>

definition pf_called :: "PacketProtoFlow \<Rightarrow> PacketProtoFlow \<Rightarrow> bool" where
  "pf_called f f' \<longleftrightarrow>
     (pri_state (pf_encoder_output f') = pri_state (pf_encoder_output f) \<or>
       pri_state (pf_encoder_output f) = STATE_NONE \<and> pri_state (pf_encoder_output f') = STATE_OPERATION_PENDING) \<and>
     (ppi_state (pf_output f') = ppi_state (pf_output f) \<or>
       ppi_state (pf_output f) = STATE_NONE \<and> ppi_state (pf_output f') = STATE_OPERATION_PENDING) \<and>
     (pri_state (pf_encoder_output f) \<noteq> STATE_NONE \<longrightarrow> pf_encoder_output f' = pf_encoder_output f) \<and>
     pri_mtu (pf_encoder_output f') = pri_mtu (pf_encoder_output f) \<and> ppi_mtu (pf_output f') = ppi_mtu (pf_output f) \<and>
     pf_ainput f' = pf_ainput f \<and> pf_encoder_output_packet f' = pf_encoder_output_packet f \<and> pf_buffer f' = pf_buffer f \<and>
     pf_written f' = pf_written f \<and> pf_taken f' = pf_taken f"

lemma pf_called_refl: "pf_called f f"
  by (simp add: pf_called_def)

lemma pf_called_trans: "\<lbrakk>pf_called f f'; pf_called f' f''\<rbrakk> \<Longrightarrow> pf_called f f''"
  by (auto simp: pf_called_def)

lemma pf_call_sim:
  assumes "pb_call c (pf_abs f) = Some s" "pf_linked f js" "call_ok (ppi_mtu (pf_output f)) c"
  shows "\<exists>f' js'. pf_call c f = Some f' \<and> pf_abs f' = s \<and> pf_linked f' js' \<and> pf_called f f'"
proof (rule pf_linkedE [OF assms(2)])
  fix m assume m: "pg_rep (pf_group f) m js" "owns m flow_jobs" "owns m (pri_jobs (pf_encoder_output f))" "owns m (ppi_jobs (pf_output f))"
    "pf_wired f" "pri_ok (bw_recv_interface (pf_ainput f)) (set js)" "pri_ok (pf_encoder_output f) (set js)" "ppi_ok (pf_output f) (set js)"
    "pri_handler_done (bw_recv_interface (pf_ainput f))" "pri_handler_done (pf_encoder_output f)" "ppi_handler_done (pf_output f)"
    "OutputCancel \<notin> set js"
  show ?thesis
  proof (cases c)
    case (PB_Receiver_Recv d)
    then have st: "pri_state (pf_encoder_output f) = STATE_NONE" using assms(1) by (auto simp: pf_abs_def split: if_splits)
    then obtain g where g: "PacketRecvInterface_Receiver_Recv d (pf_encoder_output f) (pf_group f) =
        Some ((pf_encoder_output f)\<lparr>pri_job_operation_data := d, pri_state := STATE_OPERATION_PENDING\<rparr>, g)"
      "pg_rep g m (pri_job_operation (pf_encoder_output f) # js)"
      using pri_Recv [OF m(1,3,7) st m(10), of d] PB_Receiver_Recv assms(3) by auto
    let ?f = "f\<lparr>pf_encoder_output := (pf_encoder_output f)\<lparr>pri_job_operation_data := d, pri_state := STATE_OPERATION_PENDING\<rparr>, pf_group := g\<rparr>"
    have "pf_linked ?f (EncoderOp # js)"
      using m g(2) st by (intro pf_linkedI [of _ m]) (auto simp: wiring)
    then show ?thesis
      using PB_Receiver_Recv g(1) st assms(1) by (intro exI [of _ ?f]) (auto simp: pf_abs_def pf_inflight_def pf_called_def)
  next
    case (PB_Sender_Send d n)
    then have st: "ppi_state (pf_output f) = STATE_NONE" using assms(1) by (auto simp: pf_abs_def split: if_splits)
    let ?i = "(pf_output f)\<lparr>ppi_job_operation_data := d, ppi_job_operation_len := n, ppi_state := STATE_OPERATION_PENDING,
          ppi_cancel_requested := False\<rparr>"
    obtain g where g: "PacketPassInterface_Sender_Send d n (pf_output f) (pf_group f) = Some (?i, g)"
      "pg_rep g m (ppi_job_operation (pf_output f) # js)"
      using ppi_Send [OF m(1,4,8) st m(11), of n d] PB_Sender_Send assms(3) by auto
    let ?f = "f\<lparr>pf_output := ?i, pf_group := g\<rparr>"
    have "pf_linked ?f (OutputOp # js)"
      using m g(2) st by (intro pf_linkedI [of _ m]) (auto simp: wiring)
    then show ?thesis
      using PB_Sender_Send g(1) st assms(1) by (intro exI [of _ ?f]) (auto simp: pf_abs_def pf_inflight_def pf_called_def)
  qed
qed

lemma pf_calls_sim:
  assumes "pb_calls cs (pf_abs f) = Some s" "pf_linked f js" "\<forall>c \<in> set cs. call_ok (ppi_mtu (pf_output f)) c"
  shows "\<exists>f' js'. pf_calls cs f = Some f' \<and> pf_abs f' = s \<and> pf_linked f' js' \<and> pf_called f f'"
  using assms
proof (induction cs arbitrary: f js)
  case Nil
  then show ?case using pf_called_refl by auto
next
  case (Cons c cs)
  then obtain s1 where s1: "pb_call c (pf_abs f) = Some s1" "pb_calls cs s1 = Some s" by (auto split: option.splits)
  have ok: "call_ok (ppi_mtu (pf_output f)) c" using Cons.prems(3) by simp
  from pf_call_sim [OF s1(1) Cons.prems(2) ok] obtain f1 js1
    where f1: "pf_call c f = Some f1" "pf_abs f1 = s1" "pf_linked f1 js1" "pf_called f f1" by blast
  then have "ppi_mtu (pf_output f1) = ppi_mtu (pf_output f)" by (simp add: pf_called_def)
  with Cons.IH [of f1 js1] f1 s1(2) Cons.prems(3) show ?case using pf_called_trans by fastforce
qed

fun call_made :: "PacketBuffer_call \<Rightarrow> pb_system \<Rightarrow> bool" where
  "call_made (PB_Receiver_Recv d) s \<longleftrightarrow> sys_recv s = Some d"
| "call_made (PB_Sender_Send d n) s \<longleftrightarrow> sys_send s = Some (d, n)"

lemma pb_call_made: "pb_call c s = Some s' \<Longrightarrow> call_made c s'"
  by (cases c) (auto split: if_splits)

lemma pb_calls_keep: "\<lbrakk>pb_calls cs s = Some s'; call_made c s\<rbrakk> \<Longrightarrow> call_made c s'"
proof (induction cs arbitrary: s)
  case (Cons d cs)
  then obtain s1 where s1: "pb_call d s = Some s1" "pb_calls cs s1 = Some s'" by (auto split: option.splits)
  then have "call_made c s1" using Cons.prems(2) by (cases c; cases d) (auto split: if_splits)
  with Cons.IH s1(2) show ?case by blast
qed simp

lemma pb_calls_made: "\<lbrakk>pb_calls cs s = Some s'; c \<in> set cs\<rbrakk> \<Longrightarrow> call_made c s'"
proof (induction cs arbitrary: s)
  case (Cons d cs)
  then obtain s1 where "pb_call d s = Some s1" "pb_calls cs s1 = Some s'" by (auto split: option.splits)
  then show ?case using Cons pb_call_made [of d s s1] pb_calls_keep [of cs s1 s' d] by auto
qed simp

lemma pb_inv_calls_ok:
  assumes "pb_inv M num s' ps" "pb_calls cs s = Some s'" "M \<le> M'"
  shows "\<forall>c \<in> set cs. call_ok M' c"
proof
  fix c assume "c \<in> set cs"
  from pb_calls_made [OF assms(2) this] show "call_ok M' c"
    using pb_inv_sent(2-4) [OF assms(1)] pb_inv_recv(1) [OF assms(1)] assms(3)
    by (cases c) force+
qed

text \<open>Together: the buffer's handlers run on the interfaces as they run on the buffer's view.\<close>

lemma pf_calls_inv:
  assumes calls: "pb_calls cs (pf_abs f) = Some s'" and inv: "pb_inv (mtu + 2) num s' ps"
    and f: "pf_linked f js" "pf_mtus mtu f" "pf_stage f"
    and out: "ppi_state (pf_output f) = STATE_DONE_PENDING \<longrightarrow> pf_taken f = butlast (pf_taken f) @ [hd ps]"
  shows "\<exists>f'. pf_calls cs f = Some f' \<and> pf_inv mtu num f' ps \<and> pf_called f f'"
proof -
  have "mtu + 2 \<le> ppi_mtu (pf_output f)" using f(2) by (simp add: pf_mtus_def)
  from pf_calls_sim [OF calls f(1) pb_inv_calls_ok [OF inv calls this]] obtain f' js'
    where f': "pf_calls cs f = Some f'" "pf_abs f' = s'" "pf_linked f' js'" "pf_called f f'" by blast
  have "pf_stage f'"
    using f(3) f'(4) by (cases "pri_state (pf_encoder_output f)") (auto simp: pf_stage_def pf_called_def Let_def)
  moreover have "pf_mtus mtu f'" "ppi_state (pf_output f') = STATE_DONE_PENDING \<longrightarrow> pf_taken f' = butlast (pf_taken f') @ [hd ps]"
    using f(2) f'(4) out by (auto simp: pf_mtus_def pf_called_def)
  ultimately show ?thesis using f' inv by (auto simp: pf_inv_def)
qed

section \<open>The events keep the invariant\<close>

lemma pf_invE:
  assumes "pf_inv mtu num f ps"
  obtains js where "pf_linked f js" "pf_mtus mtu f" "pf_stage f" "pb_inv (mtu + 2) num (pf_abs f) ps"
    "ppi_state (pf_output f) = STATE_DONE_PENDING \<longrightarrow> pf_taken f = butlast (pf_taken f) @ [hd ps]"
  using assms by (auto simp: pf_inv_def)

lemma pf_stage_cong:
  "\<lbrakk>pf_ainput f' = pf_ainput f; pf_encoder_output f' = pf_encoder_output f;
    pf_encoder_output_packet f' = pf_encoder_output_packet f; pf_written f' = pf_written f; pf_mem f' = pf_mem f\<rbrakk> \<Longrightarrow> pf_stage f' = pf_stage f"
  by (cases "pri_state (pf_encoder_output f)") (simp_all add: pf_stage_def Let_def)

lemma pf_start_inv:
  assumes "pf_inv mtu num f ps" "\<not> bw_d_writing (pf_ainput f)"
  shows "\<exists>f' b. pf_start f = Some (f', b) \<and> pf_inv mtu num f' ps \<and> b = bw_out_have (pf_ainput f) \<and> bw_d_writing (pf_ainput f') = b"
proof (cases "bw_out_have (pf_ainput f)")
  case True
  let ?f = "f\<lparr>pf_ainput := (pf_ainput f)\<lparr>bw_d_writing := True\<rparr>\<rparr>"
  have "pf_inv mtu num ?f ps"
  proof (rule pf_invE [OF assms(1)])
    fix js assume f: "pf_linked f js" "pf_mtus mtu f" "pf_stage f" "pb_inv (mtu + 2) num (pf_abs f) ps"
      "ppi_state (pf_output f) = STATE_DONE_PENDING \<longrightarrow> pf_taken f = butlast (pf_taken f) @ [hd ps]"
    have "pf_linked ?f js" using f(1) by (simp add: pf_linked_def pf_wired_def)
    moreover have "pf_stage ?f" using f(3) True by (cases "pri_state (pf_encoder_output f)") (auto simp: pf_stage_def Let_def)
    moreover have "pf_abs ?f = pf_abs f" by (simp add: pf_abs_def pf_inflight_def)
    ultimately show ?thesis using f by (auto simp: pf_inv_def pf_mtus_def)
  qed
  then show ?thesis using assms(2) True by (simp add: pf_start_def BufferWriter_StartPacket_def)
next
  case False
  then show ?thesis using assms by (simp add: pf_start_def BufferWriter_StartPacket_def)
qed

lemma pf_take_inv:
  assumes inv: "pf_inv mtu num f ps" and st: "ppi_state (pf_output f) = STATE_BUSY"
  shows "\<exists>f'. pf_take f = Some f' \<and> pf_inv mtu num f' ps \<and> pf_taken f' = pf_taken f @ [hd ps] \<and> ps \<noteq> [] \<and> pf_written f' = pf_written f"
proof (rule pf_invE [OF inv])
  fix js assume f: "pf_linked f js" "pf_mtus mtu f" "pf_stage f" "pb_inv (mtu + 2) num (pf_abs f) ps"
  let ?i = "(pf_output f)\<lparr>ppi_state := STATE_DONE_PENDING\<rparr>"
  have s: "sys_send (pf_abs f) = Some (ppi_job_operation_data (pf_output f), ppi_job_operation_len (pf_output f))"
    using st by (simp add: pf_abs_def)
  from pb_inv_sent(1,6) [OF f(4) s] obtain a where a: "ppi_job_operation_data (pf_output f) = Some a" "ps \<noteq> []"
    "cb_peek (pb_buf (pf_buffer f)) a (ppi_job_operation_len (pf_output f)) = hd ps" by (auto simp: pf_abs_def)
  show ?thesis
  proof (rule pf_linkedE [OF f(1)])
    fix m assume m: "pg_rep (pf_group f) m js" "owns m flow_jobs" "owns m (ppi_jobs (pf_output f))" "pf_wired f"
      "pri_ok (bw_recv_interface (pf_ainput f)) (set js)" "pri_ok (pf_encoder_output f) (set js)" "ppi_ok (pf_output f) (set js)"
      "pri_handler_done (bw_recv_interface (pf_ainput f))" "pri_handler_done (pf_encoder_output f)" "ppi_handler_done (pf_output f)"
      "OutputCancel \<notin> set js"
    obtain g where g: "PacketPassInterface_Done (pf_output f) (pf_group f) = Some (?i, g)" "pg_rep g m (OutputDone # remove1 OutputCancel js)"
      using ppi_Done [OF m(1,3,7) st] m(4) by (auto simp: pf_wired_def)
    let ?f = "f\<lparr>pf_output := ?i, pf_group := g, pf_taken := pf_taken f @ [hd ps]\<rparr>"
    have d: "distinct js" using bp.distinct_rep [OF m(1)] by simp
    have "pf_linked ?f (OutputDone # remove1 OutputCancel js)"
      using m g(2) st d by (intro pf_linkedI [of _ m]) (auto simp: wiring)
    moreover have "pf_abs ?f = pf_abs f" using st by (simp add: pf_abs_def pf_inflight_def)
    ultimately have "pf_inv mtu num ?f ps"
      using f a(2) pf_stage_cong [of ?f f] by (auto simp: pf_inv_def pf_mtus_def)
    then show ?thesis using g(1) a by (simp add: pf_take_def Let_def)
  qed
qed

lemma pf_stage_busy:
  assumes "pf_stage f" "pri_state (bw_recv_interface (pf_ainput f)) \<noteq> STATE_NONE"
  obtains d where "pri_state (pf_encoder_output f) = STATE_BUSY" "pri_job_operation_data (pf_encoder_output f) = Some d"
    "pf_encoder_output_packet f = Some d" "pri_job_operation_data (bw_recv_interface (pf_ainput f)) = Some (d + 2)"
    "bw_out_have (pf_ainput f) \<longrightarrow> bw_out (pf_ainput f) = Some (d + 2)"
    "bw_out_have (pf_ainput f) \<longleftrightarrow> pri_state (bw_recv_interface (pf_ainput f)) = STATE_BUSY"
    "pri_state (bw_recv_interface (pf_ainput f)) = STATE_DONE_PENDING \<longrightarrow> pf_written f \<noteq> [] \<and>
       pri_job_done_len (bw_recv_interface (pf_ainput f)) = int (length (last (pf_written f))) \<and>
       int (length (last (pf_written f))) \<le> pri_mtu (bw_recv_interface (pf_ainput f)) \<and>
       window (nat (d + 2)) (length (last (pf_written f))) (pf_mem f) = last (pf_written f)"
  using assms by (cases "pri_state (pf_encoder_output f)") (auto simp: pf_stage_def Let_def)

lemma pf_end_inv:
  assumes inv: "pf_inv mtu num f ps" and w: "bw_d_writing (pf_ainput f)" and len: "int (length p) \<le> bw_d_mtu (pf_ainput f)"
  shows "\<exists>f'. pf_end p f = Some f' \<and> pf_inv mtu num f' ps \<and> pf_written f' = pf_written f @ [p] \<and> pf_taken f' = pf_taken f"
proof (rule pf_invE [OF inv])
  fix js assume f: "pf_linked f js" "pf_mtus mtu f" "pf_stage f" "pb_inv (mtu + 2) num (pf_abs f) ps"
    "ppi_state (pf_output f) = STATE_DONE_PENDING \<longrightarrow> pf_taken f = butlast (pf_taken f) @ [hd ps]"
  let ?w = "bw_recv_interface (pf_ainput f)"
  have have_out: "bw_out_have (pf_ainput f)" and st: "pri_state ?w = STATE_BUSY" using f(3) w by (auto simp: pf_stage_def Let_def)
  obtain d where d: "pri_state (pf_encoder_output f) = STATE_BUSY" "pri_job_operation_data (pf_encoder_output f) = Some d"
    "pf_encoder_output_packet f = Some d" "pri_job_operation_data ?w = Some (d + 2)" "bw_out (pf_ainput f) = Some (d + 2)"
    using pf_stage_busy [OF f(3)] st have_out by (metis if_state.distinct(3))
  have mtu: "bw_d_mtu (pf_ainput f) = mtu" "pri_mtu ?w = mtu" using f(2) by (auto simp: pf_mtus_def)
  have recv: "sys_recv (pf_abs f) = Some (Some d)" using d by (simp add: pf_abs_def)
  note poke = poke_inv [OF f(4) recv, of "d + 2" p]
  let ?m = "write_at (nat (d + 2)) p (pf_mem f)"
  have wlen: "nat (d + 2) + length p \<le> length (pf_mem f)" using poke(2) len mtu by (simp add: pf_abs_def)
  show ?thesis
  proof (rule pf_linkedE [OF f(1)])
    fix m assume m: "pg_rep (pf_group f) m js" "owns m flow_jobs" "owns m (pri_jobs ?w)" "pf_wired f"
      "pri_ok ?w (set js)" "pri_ok (pf_encoder_output f) (set js)" "ppi_ok (pf_output f) (set js)"
      "pri_handler_done ?w" "pri_handler_done (pf_encoder_output f)" "ppi_handler_done (pf_output f)" "OutputCancel \<notin> set js"
    let ?i = "?w\<lparr>pri_job_done_len := int (length p), pri_state := STATE_DONE_PENDING\<rparr>"
    obtain g where g: "PacketRecvInterface_Done (int (length p)) ?w (pf_group f) = Some (?i, g)" "pg_rep g m (WriterDone # js)"
      using pri_Done [OF m(1,3,5) st, of "int (length p)"] len mtu m(4) by (auto simp: pf_wired_def)
    let ?f = "(pf_poke (d + 2) p f)\<lparr>pf_ainput := (pf_ainput f)\<lparr>bw_out_have := False, bw_recv_interface := ?i, bw_d_writing := False\<rparr>,
        pf_group := g, pf_written := pf_written f @ [p]\<rparr>"
    have "pf_linked ?f (WriterDone # js)"
      using m g(2) st by (intro pf_linkedI [of _ m]) (auto simp: wiring pf_poke_def)
    moreover have "pf_stage ?f" using d st len mtu wlen by (auto simp: pf_stage_def pf_poke_def Let_def)
    moreover have "pf_abs ?f = (pf_abs f)\<lparr>sys_buf := (pf_buffer f)\<lparr>pb_buf := (pb_buf (pf_buffer f))\<lparr>cb_mem := ?m\<rparr>\<rparr>\<rparr>"
      using d st by (simp add: pf_abs_def pf_inflight_def pf_poke_def)
    then have "pb_inv (mtu + 2) num (pf_abs ?f) ps" using poke(1) len mtu by simp
    ultimately have "pf_inv mtu num ?f ps"
      using f(2,5) by (auto simp: pf_inv_def pf_mtus_def pf_poke_def)
    then show ?thesis
      using g(1) d(5) have_out w len by (auto simp: pf_end_def BufferWriter_EndPacket_def pf_poke_def Let_def)
  qed
qed

text \<open>
  A job \<open>j\<close> has been taken off the queue; the interfaces are still in the states that go with it.
\<close>

definition pf_popped :: "flow_job \<Rightarrow> PacketProtoFlow \<Rightarrow> flow_job list \<Rightarrow> (flow_job \<rightharpoonup> flow_job) \<Rightarrow> bool" where
  "pf_popped j f ks m \<longleftrightarrow>
     pg_rep (pf_group f) m ks \<and> owns m flow_jobs \<and> j \<notin> set ks \<and> pf_wired f \<and>
     (WriterOp \<in> insert j (set ks)) = (pri_state (bw_recv_interface (pf_ainput f)) = STATE_OPERATION_PENDING) \<and>
     (WriterDone \<in> insert j (set ks)) = (pri_state (bw_recv_interface (pf_ainput f)) = STATE_DONE_PENDING) \<and>
     (EncoderOp \<in> insert j (set ks)) = (pri_state (pf_encoder_output f) = STATE_OPERATION_PENDING) \<and>
     (EncoderDone \<in> insert j (set ks)) = (pri_state (pf_encoder_output f) = STATE_DONE_PENDING) \<and>
     (OutputOp \<in> insert j (set ks)) = (ppi_state (pf_output f) = STATE_OPERATION_PENDING) \<and>
     (OutputDone \<in> insert j (set ks)) = (ppi_state (pf_output f) = STATE_DONE_PENDING) \<and>
     OutputCancel \<notin> insert j (set ks) \<and>
     pri_handler_done (bw_recv_interface (pf_ainput f)) \<and> pri_handler_done (pf_encoder_output f) \<and> ppi_handler_done (pf_output f)"

lemma pf_poppedD:
  assumes "pf_popped j f ks m"
  shows "pg_rep (pf_group f) m ks" "owns m flow_jobs" "j \<notin> set ks" "pf_wired f"
    "(WriterOp \<in> insert j (set ks)) = (pri_state (bw_recv_interface (pf_ainput f)) = STATE_OPERATION_PENDING)"
    "(WriterDone \<in> insert j (set ks)) = (pri_state (bw_recv_interface (pf_ainput f)) = STATE_DONE_PENDING)"
    "(EncoderOp \<in> insert j (set ks)) = (pri_state (pf_encoder_output f) = STATE_OPERATION_PENDING)"
    "(EncoderDone \<in> insert j (set ks)) = (pri_state (pf_encoder_output f) = STATE_DONE_PENDING)"
    "(OutputOp \<in> insert j (set ks)) = (ppi_state (pf_output f) = STATE_OPERATION_PENDING)"
    "(OutputDone \<in> insert j (set ks)) = (ppi_state (pf_output f) = STATE_DONE_PENDING)"
    "OutputCancel \<notin> insert j (set ks)"
    "pri_handler_done (bw_recv_interface (pf_ainput f))" "pri_handler_done (pf_encoder_output f)" "ppi_handler_done (pf_output f)"
  using assms unfolding pf_popped_def by blast+

lemma pf_linked_states:
  assumes "pf_wired f" "pg_rep (pf_group f) m js" "owns m flow_jobs"
    "(WriterOp \<in> set js) = (pri_state (bw_recv_interface (pf_ainput f)) = STATE_OPERATION_PENDING)"
    "(WriterDone \<in> set js) = (pri_state (bw_recv_interface (pf_ainput f)) = STATE_DONE_PENDING)"
    "(EncoderOp \<in> set js) = (pri_state (pf_encoder_output f) = STATE_OPERATION_PENDING)"
    "(EncoderDone \<in> set js) = (pri_state (pf_encoder_output f) = STATE_DONE_PENDING)"
    "(OutputOp \<in> set js) = (ppi_state (pf_output f) = STATE_OPERATION_PENDING)"
    "(OutputDone \<in> set js) = (ppi_state (pf_output f) = STATE_DONE_PENDING)"
    "OutputCancel \<notin> set js"
    "pri_handler_done (bw_recv_interface (pf_ainput f))" "pri_handler_done (pf_encoder_output f)" "ppi_handler_done (pf_output f)"
  shows "pf_linked f js"
  using assms by (intro pf_linkedI [of f m]) (simp_all add: wiring)

lemma pf_pop:
  assumes inv: "pf_inv mtu num f ps" and jobs: "BPendingGroup_HasJobs (pf_group f)"
  obtains j g ks m where "BPendingGroup_ExecuteJob (pf_group f) = Some (j, g)" "pf_popped j (f\<lparr>pf_group := g\<rparr>) ks m"
proof (rule pf_invE [OF inv])
  fix js assume "pf_linked f js"
  then show thesis
  proof (rule pf_linkedE)
    fix m assume m: "pg_rep (pf_group f) m js" "owns m flow_jobs" "pf_wired f"
      "pri_ok (bw_recv_interface (pf_ainput f)) (set js)" "pri_ok (pf_encoder_output f) (set js)" "ppi_ok (pf_output f) (set js)"
      "pri_handler_done (bw_recv_interface (pf_ainput f))" "pri_handler_done (pf_encoder_output f)" "ppi_handler_done (pf_output f)"
      "OutputCancel \<notin> set js"
    obtain j ks where js: "js = j # ks" using jobs bp.has_rep [OF m(1)] by (cases js) auto
    have "m j = Some j" using owns_job [OF m(2), of j] by (cases j) auto
    then obtain g where g: "BPendingGroup_ExecuteJob (pf_group f) = Some (j, g)" "pg_rep g m ks"
      using bp.execute_rep [OF m(1) [unfolded js]] by auto
    have "j \<notin> set ks" using bp.distinct_rep [OF m(1)] js by simp
    moreover have w: "pri_job_operation (bw_recv_interface (pf_ainput f)) = WriterOp" "pri_job_done (bw_recv_interface (pf_ainput f)) = WriterDone"
      "pri_job_operation (pf_encoder_output f) = EncoderOp" "pri_job_done (pf_encoder_output f) = EncoderDone"
      "ppi_job_operation (pf_output f) = OutputOp" "ppi_job_requestcancel (pf_output f) = OutputCancel" "ppi_job_done (pf_output f) = OutputDone"
      using m(3) by (simp_all add: pf_wired_def)
    moreover have "pf_wired (f\<lparr>pf_group := g\<rparr>)" using m(3) by (simp add: pf_wired_def)
    ultimately have "pf_popped j (f\<lparr>pf_group := g\<rparr>) ks m"
      using g(2) m(2,7-10) m(4-5) [unfolded pri_ok_def w js] m(6) [unfolded ppi_ok_def w js] js
      unfolding pf_popped_def list.set by simp
    with that g(1) show thesis by blast
  qed
qed

definition pf_rest :: "int \<Rightarrow> int \<Rightarrow> PacketProtoFlow \<Rightarrow> bytes list \<Rightarrow> bool" where
  "pf_rest mtu num f ps \<longleftrightarrow>
     pf_mtus mtu f \<and> pf_stage f \<and> pb_inv (mtu + 2) num (pf_abs f) ps \<and>
     (ppi_state (pf_output f) = STATE_DONE_PENDING \<longrightarrow> pf_taken f = butlast (pf_taken f) @ [hd ps])"

lemma pf_inv_rest: "pf_inv mtu num f ps \<longleftrightarrow> (\<exists>js. pf_linked f js) \<and> pf_rest mtu num f ps"
  by (auto simp: pf_inv_def pf_rest_def)

lemma pf_rest_group: "pf_rest mtu num (f\<lparr>pf_group := g\<rparr>) ps = pf_rest mtu num f ps"
proof -
  have "pf_abs (f\<lparr>pf_group := g\<rparr>) = pf_abs f" by (simp add: pf_abs_def pf_inflight_def)
  then show ?thesis using pf_stage_cong [of "f\<lparr>pf_group := g\<rparr>" f] by (simp add: pf_rest_def pf_mtus_def)
qed

lemma job_WriterOp:
  assumes pop: "pf_popped WriterOp f ks m" and rest: "pf_rest mtu num f ps"
  shows "\<exists>f'. pf_job WriterOp f = Some f' \<and> pf_inv mtu num f' ps \<and> pf_written f' = pf_written f \<and> pf_taken f' = pf_taken f \<and>
    pf_weight f' < pf_weight f"
proof -
  note p = pf_poppedD [OF pop]
  let ?w = "bw_recv_interface (pf_ainput f)"
  have st: "pri_state ?w = STATE_OPERATION_PENDING" using p(5-11) by simp_all
  have r: "pf_mtus mtu f" "pf_stage f" "pb_inv (mtu + 2) num (pf_abs f) ps"
    "ppi_state (pf_output f) = STATE_DONE_PENDING \<longrightarrow> pf_taken f = butlast (pf_taken f) @ [hd ps]"
    using rest by (auto simp: pf_rest_def)
  obtain d where d: "pri_state (pf_encoder_output f) = STATE_BUSY" "pri_job_operation_data (pf_encoder_output f) = Some d"
    "pf_encoder_output_packet f = Some d" "pri_job_operation_data ?w = Some (d + 2)" "\<not> bw_out_have (pf_ainput f)"
    by (rule pf_stage_busy [OF r(2)]) (use st in auto)
  let ?f = "f\<lparr>pf_ainput := (pf_ainput f)\<lparr>bw_recv_interface := ?w\<lparr>pri_state := STATE_BUSY\<rparr>, bw_out_have := True, bw_out := Some (d + 2)\<rparr>\<rparr>"
  have "pf_linked ?f ks"
    using p st by (intro pf_linked_states [of _ m]) (simp_all add: pf_wired_def)
  moreover have "pf_stage ?f" using d by (simp add: pf_stage_def Let_def)
  moreover have "pf_abs ?f = pf_abs f" using d st by (simp add: pf_abs_def pf_inflight_def)
  moreover have "pf_mtus mtu ?f" using r(1) by (simp add: pf_mtus_def)
  ultimately have "pf_inv mtu num ?f ps" using r(3,4) by (auto simp: pf_inv_def)
  then show ?thesis using d st by (simp add: pf_job_def pri_defs BufferWriter_output_handler_recv_def pf_weight_def)
qed

lemma job_EncoderOp:
  assumes pop: "pf_popped EncoderOp f ks m" and rest: "pf_rest mtu num f ps"
  shows "\<exists>f'. pf_job EncoderOp f = Some f' \<and> pf_inv mtu num f' ps \<and> pf_written f' = pf_written f \<and> pf_taken f' = pf_taken f \<and>
    pf_weight f' < pf_weight f"
proof -
  note p = pf_poppedD [OF pop]
  let ?w = "bw_recv_interface (pf_ainput f)" and ?e = "pf_encoder_output f"
  have st: "pri_state ?e = STATE_OPERATION_PENDING" using p(5-11) by simp_all
  have r: "pf_mtus mtu f" "pf_stage f" "pb_inv (mtu + 2) num (pf_abs f) ps"
    "ppi_state (pf_output f) = STATE_DONE_PENDING \<longrightarrow> pf_taken f = butlast (pf_taken f) @ [hd ps]"
    using rest by (auto simp: pf_rest_def)
  have w: "pri_state ?w = STATE_NONE" "pf_encoder_output_packet f = None" "\<not> bw_out_have (pf_ainput f)" "\<not> bw_d_writing (pf_ainput f)"
    using r(2) st by (auto simp: pf_stage_def Let_def)
  have "sys_recv (pf_abs f) = Some (pri_job_operation_data ?e)" using st by (simp add: pf_abs_def)
  from pb_inv_recv(1) [OF r(3) this] obtain d where d: "pri_job_operation_data ?e = Some d" by auto
  have m: "pg_rep (pf_group f) m ks" "owns m (pri_jobs ?w)" "pri_ok ?w (set ks)" "pri_handler_done ?w"
    using p w(1) by (simp_all add: pf_wired_def pri_ok_def owns_def)
  obtain g where g: "PacketRecvInterface_Receiver_Recv (Some (d + 2)) ?w (pf_group f) =
      Some (?w\<lparr>pri_job_operation_data := Some (d + 2), pri_state := STATE_OPERATION_PENDING\<rparr>, g)"
    "pg_rep g m (pri_job_operation ?w # ks)" using pri_Recv [OF m(1-3) w(1) m(4), of "Some (d + 2)"] by auto
  let ?f = "f\<lparr>pf_encoder_output := ?e\<lparr>pri_state := STATE_BUSY\<rparr>, pf_encoder_output_packet := Some d, pf_ainput := (pf_ainput f)\<lparr>bw_recv_interface :=
      ?w\<lparr>pri_job_operation_data := Some (d + 2), pri_state := STATE_OPERATION_PENDING\<rparr>\<rparr>, pf_group := g\<rparr>"
  have "pf_linked ?f (WriterOp # ks)"
    using p st w(1) g(2) by (intro pf_linked_states [of _ m]) (simp_all add: pf_wired_def)
  moreover have "pf_stage ?f" using d w by (simp add: pf_stage_def Let_def)
  moreover have "pf_abs ?f = pf_abs f" using d st w by (simp add: pf_abs_def pf_inflight_def)
  moreover have "pf_mtus mtu ?f" using r(1) by (simp add: pf_mtus_def)
  ultimately have "pf_inv mtu num ?f ps" using r(3,4) by (auto simp: pf_inv_def)
  then show ?thesis using d st w g(1) by (simp add: pf_job_def pri_defs(3,4) PF_encoder_output_handler_recv_def pf_weight_def)
qed

lemma job_OutputOp:
  assumes pop: "pf_popped OutputOp f ks m" and rest: "pf_rest mtu num f ps"
  shows "\<exists>f'. pf_job OutputOp f = Some f' \<and> pf_inv mtu num f' ps \<and> pf_written f' = pf_written f \<and> pf_taken f' = pf_taken f \<and>
    pf_weight f' < pf_weight f"
proof -
  note p = pf_poppedD [OF pop]
  have st: "ppi_state (pf_output f) = STATE_OPERATION_PENDING" using p(5-11) by simp_all
  let ?f = "f\<lparr>pf_output := (pf_output f)\<lparr>ppi_state := STATE_BUSY\<rparr>\<rparr>"
  have "pf_linked ?f ks" using p st by (intro pf_linked_states [of _ m]) (simp_all add: pf_wired_def)
  moreover have "pf_abs ?f = pf_abs f" using st by (simp add: pf_abs_def pf_inflight_def)
  ultimately have "pf_inv mtu num ?f ps"
    using rest pf_stage_cong [of ?f f] by (auto simp: pf_inv_rest pf_rest_def pf_mtus_def)
  then show ?thesis using st by (cases "pri_state (pf_encoder_output f)") (simp_all add: pf_job_def ppi_defs pf_weight_def)
qed

lemma job_WriterDone:
  assumes pop: "pf_popped WriterDone f ks m" and rest: "pf_rest mtu num f ps"
  shows "\<exists>f'. pf_job WriterDone f = Some f' \<and> pf_inv mtu num f' ps \<and> pf_written f' = pf_written f \<and> pf_taken f' = pf_taken f \<and>
    pf_weight f' < pf_weight f"
proof -
  note p = pf_poppedD [OF pop]
  let ?w = "bw_recv_interface (pf_ainput f)" and ?e = "pf_encoder_output f"
  let ?p = "last (pf_written f)"
  have st: "pri_state ?w = STATE_DONE_PENDING" using p(5-11) by simp
  have r: "pf_mtus mtu f" "pf_stage f" "pb_inv (mtu + 2) num (pf_abs f) ps"
    "ppi_state (pf_output f) = STATE_DONE_PENDING \<longrightarrow> pf_taken f = butlast (pf_taken f) @ [hd ps]"
    using rest by (auto simp: pf_rest_def)
  obtain d where d: "pri_state ?e = STATE_BUSY" "pri_job_operation_data ?e = Some d" "pf_encoder_output_packet f = Some d"
    "\<not> bw_out_have (pf_ainput f)" "pf_written f \<noteq> []" "pri_job_done_len ?w = int (length ?p)" "int (length ?p) \<le> mtu"
    "window (nat (d + 2)) (length ?p) (pf_mem f) = ?p"
    by (rule pf_stage_busy [OF r(2)]) (use st r(1) in \<open>auto simp: pf_mtus_def\<close>)
  have nw: "\<not> bw_d_writing (pf_ainput f)" using r(2) d(4) by (auto simp: pf_stage_def Let_def)
  have recv: "sys_recv (pf_abs f) = Some (Some d)" using d by (simp add: pf_abs_def)
  let ?h = "mem16 (of_int (int (length ?p)))"
  have mtu: "0 \<le> mtu" "pri_mtu ?e = mtu + 2" using r(1) by (auto simp: pf_mtus_def)
  note poke = poke_inv [OF r(3) recv, of d ?h]
  let ?m = "write_at (nat d) ?h (pf_mem f)"
  have wlen: "nat d + 2 \<le> length (pf_mem f)" "0 \<le> d" using poke(2,3) mtu by simp_all
  have "window (nat d) (2 + length ?p) ?m = ?h @ window (nat d + 2) (length ?p) (pf_mem f)"
    unfolding window_split using wlen window_write_at_same [of "nat d" "pf_mem f" ?h]
      window_write_at_after [of "nat d" ?h "nat d + 2" "pf_mem f"] by simp
  moreover have "nat (d + 2) = nat d + 2" using wlen by simp
  ultimately have fr: "window (nat d) (length (frame ?p)) ?m = frame ?p"
    using d(8) by (simp add: length_frame) (simp add: frame_def)
  have m: "owns m (pri_jobs ?e)" "pri_ok ?e (set ks)" using p d(1) by (simp_all add: pf_wired_def pri_ok_def owns_def)
  have len: "int (PACKETPROTO_ENCLEN (nat (int (length ?p)))) = int (length (frame ?p))"
    by (simp add: PACKETPROTO_ENCLEN_def length_frame)
  let ?i = "?e\<lparr>pri_job_done_len := int (length (frame ?p)), pri_state := STATE_DONE_PENDING\<rparr>"
  obtain g where g: "PacketRecvInterface_Done (int (length (frame ?p))) ?e (pf_group f) = Some (?i, g)" "pg_rep g m (EncoderDone # ks)"
    using pri_Done [OF p(1) m d(1), of "int (length (frame ?p))"] d(7) mtu p(4) by (auto simp: length_frame pf_wired_def)
  let ?f = "(pf_poke d ?h f)\<lparr>pf_ainput := (pf_ainput f)\<lparr>bw_recv_interface := ?w\<lparr>pri_state := STATE_NONE\<rparr>\<rparr>,
    pf_encoder_output_packet := None, pf_encoder_output := ?i, pf_group := g\<rparr>"
  have "pf_linked ?f (EncoderDone # ks)"
    using p st d(1) g(2) by (intro pf_linked_states [of _ m]) (simp_all add: pf_wired_def pf_poke_def)
  moreover have "pf_stage ?f" using d nw fr r(1) by (simp add: pf_stage_def Let_def pf_poke_def pf_mtus_def)
  moreover have "pf_abs ?f = (pf_abs f)\<lparr>sys_buf := (pf_buffer f)\<lparr>pb_buf := (pb_buf (pf_buffer f))\<lparr>cb_mem := ?m\<rparr>\<rparr>\<rparr>"
    using d(1) st by (simp add: pf_abs_def pf_inflight_def pf_poke_def)
  then have "pb_inv (mtu + 2) num (pf_abs ?f) ps" using poke(1) mtu by simp
  moreover have "pf_mtus mtu ?f" using r(1) by (simp add: pf_mtus_def pf_poke_def)
  ultimately have "pf_inv mtu num ?f ps" using r(4) by (auto simp: pf_inv_def pf_poke_def)
  moreover have "pf_job WriterDone f = Some ?f"
    using st d(3,6) g(1) len by (simp add: pf_job_def pri_defs(3,4) PF_encoder_input_handler_done_def pf_poke_def Let_def)
  ultimately show ?thesis using st d(1) by (simp add: pf_poke_def pf_weight_def)
qed

lemma job_EncoderDone:
  assumes pop: "pf_popped EncoderDone f ks m" and rest: "pf_rest mtu num f ps"
  shows "\<exists>f' ps'. pf_job EncoderDone f = Some f' \<and> pf_inv mtu num f' ps' \<and> pf_written f' = pf_written f \<and> pf_taken f' = pf_taken f \<and>
    pf_weight f' < pf_weight f"
proof -
  note p = pf_poppedD [OF pop]
  let ?w = "bw_recv_interface (pf_ainput f)" and ?e = "pf_encoder_output f"
  let ?q = "frame (last (pf_written f))"
  have st: "pri_state ?e = STATE_DONE_PENDING" using p(5-11) by simp
  have r: "pf_mtus mtu f" "pf_stage f" "pb_inv (mtu + 2) num (pf_abs f) ps"
    "ppi_state (pf_output f) = STATE_DONE_PENDING \<longrightarrow> pf_taken f = butlast (pf_taken f) @ [hd ps]"
    using rest by (auto simp: pf_rest_def)
  obtain d where d: "pri_state ?w = STATE_NONE" "pf_encoder_output_packet f = None" "pri_job_operation_data ?e = Some d" "pf_written f \<noteq> []"
    "pri_job_done_len ?e = int (length ?q)" "int (length ?q) \<le> mtu + 2" "window (nat d) (length ?q) (pf_mem f) = ?q"
    using r(1,2) st by (auto simp: pf_stage_def Let_def pf_mtus_def length_frame)
  have recv: "sys_recv (pf_abs f) = Some (Some d)" using d(3) st by (simp add: pf_abs_def)
  obtain s' where s': "pb_source_done ?q (pf_abs f) = Some s'" "pb_inv (mtu + 2) num s' (ps @ [?q])"
    using pb_inv_source [OF r(3) recv d(6)] by blast
  have dest: "cb_input_dest (pb_buf (pf_buffer f)) = Some d" using pb_inv_recv(1) [OF r(3) recv] by simp
  have "nat d + length ?q \<le> length (pf_mem f)" using poke_inv(2) [OF r(3) recv, of d ?q] d(6) by simp
  then have pw: "producer_writes (pb_buf (pf_buffer f)) ?q = pb_buf (pf_buffer f)"
    using d(7) dest by (simp add: producer_writes_def write_at_same)
  obtain b calls where b: "PB_input_handler_done (pf_buffer f) (int (length ?q)) = (b, calls)" by fastforce
  let ?f = "f\<lparr>pf_encoder_output := ?e\<lparr>pri_state := STATE_NONE\<rparr>, pf_buffer := b\<rparr>"
  have "sys_in (pf_abs f) @ [?q] = map frame (pf_written f)"
    using st d(4) by (cases "pf_written f" rule: rev_cases) (simp_all add: pf_abs_def pf_inflight_def)
  then have abs: "pf_abs ?f = (pf_abs f)\<lparr>sys_buf := b, sys_recv := None, sys_in := sys_in (pf_abs f) @ [?q]\<rparr>"
    using d(1) by (simp add: pf_abs_def pf_inflight_def)
  have calls: "pb_calls calls (pf_abs ?f) = Some s'"
    using s'(1) pw b by (simp add: pb_source_done_def abs)
  have "pf_linked ?f ks" using p st by (intro pf_linked_states [of _ m]) (simp_all add: pf_wired_def)
  moreover have "pf_stage ?f" using r(2) d(1,2) by (auto simp: pf_stage_def Let_def)
  moreover have "pf_mtus mtu ?f" using r(1) by (simp add: pf_mtus_def)
  moreover have "ppi_state (pf_output ?f) = STATE_DONE_PENDING \<longrightarrow> pf_taken ?f = butlast (pf_taken ?f) @ [hd (ps @ [?q])]"
    using r(4) pb_inv_send [OF r(3)] by (auto simp: pf_abs_def)
  ultimately obtain f' where f': "pf_calls calls ?f = Some f'" "pf_inv mtu num f' (ps @ [?q])" "pf_called ?f f'"
    using pf_calls_inv [OF calls s'(2)] by blast
  have "pb_input_mtu (pf_buffer f) = mtu + 2" using r(3) by (simp add: pb_inv_def Let_def)
  then have "pf_job EncoderDone f = Some f'"
    using st d(5,6) b f'(1) by (simp add: pf_job_def pri_defs(3,4))
  moreover have "pf_weight f' < pf_weight f" using f'(3) st d(1) by (auto simp: pf_called_def pf_weight_def)
  ultimately show ?thesis using f'(2,3) by (auto simp: pf_called_def)
qed

lemma Consume_mem: "cb_mem (pb_buf (fst (PB_output_handler_done b))) = cb_mem (pb_buf b)"
  by (simp add: PB_output_handler_done_def ChunkBuffer2_ConsumePacket_def Let_def)

lemma job_OutputDone:
  assumes pop: "pf_popped OutputDone f ks m" and rest: "pf_rest mtu num f ps"
  shows "\<exists>f' ps'. pf_job OutputDone f = Some f' \<and> pf_inv mtu num f' ps' \<and> pf_written f' = pf_written f \<and> pf_taken f' = pf_taken f \<and>
    pf_weight f' < pf_weight f"
proof -
  note p = pf_poppedD [OF pop]
  let ?i = "pf_output f"
  have st: "ppi_state ?i = STATE_DONE_PENDING" using p(5-11) by simp
  have r: "pf_mtus mtu f" "pf_stage f" "pb_inv (mtu + 2) num (pf_abs f) ps" "pf_taken f = butlast (pf_taken f) @ [hd ps]"
    using rest st by (auto simp: pf_rest_def)
  have snd: "sys_send (pf_abs f) = Some (ppi_job_operation_data ?i, ppi_job_operation_len ?i)" using st by (simp add: pf_abs_def)
  from pb_inv_sent(6) [OF r(3) this] obtain d where d: "ppi_job_operation_data ?i = Some d"
    "cb_peek (pb_buf (pf_buffer f)) d (ppi_job_operation_len ?i) = hd ps" by auto
  obtain s' where s': "pb_sink_done d (ppi_job_operation_len ?i) (pf_abs f) = Some s'" "pb_inv (mtu + 2) num s' (tl ps)"
    using pb_inv_sink [OF r(3) snd [unfolded d(1)]] by blast
  obtain b calls where b: "PB_output_handler_done (pf_buffer f) = (b, calls)" by fastforce
  let ?f = "f\<lparr>pf_output := ?i\<lparr>ppi_state := STATE_NONE\<rparr>, pf_buffer := b\<rparr>"
  have "sys_out (pf_abs f) @ [hd ps] = pf_taken f" using r(4) st by (simp add: pf_abs_def)
  then have abs: "pf_abs ?f = (pf_abs f)\<lparr>sys_buf := b, sys_send := None, sys_out := sys_out (pf_abs f) @ [hd ps]\<rparr>"
    by (simp add: pf_abs_def pf_inflight_def)
  have calls: "pb_calls calls (pf_abs ?f) = Some s'"
    using s'(1) d(2) b by (simp add: pb_sink_done_def abs Let_def)
  have "pf_linked ?f ks" using p st by (intro pf_linked_states [of _ m]) (simp_all add: pf_wired_def)
  moreover have "pf_mem ?f = pf_mem f" using Consume_mem [of "pf_buffer f"] b by simp
  then have "pf_stage ?f" using r(2) pf_stage_cong [of ?f f] by simp
  moreover have "pf_mtus mtu ?f" using r(1) by (simp add: pf_mtus_def)
  ultimately obtain f' where f': "pf_calls calls ?f = Some f'" "pf_inv mtu num f' (tl ps)" "pf_called ?f f'"
    using pf_calls_inv [OF calls s'(2)] by fastforce
  then have "pf_job OutputDone f = Some f'" using st b by (simp add: pf_job_def ppi_defs(6))
  moreover have "pf_weight f' < pf_weight f"
    using f'(3) st by (cases "pri_state (pf_encoder_output f)") (auto simp: pf_called_def pf_weight_def)
  ultimately show ?thesis using f'(2,3) by (auto simp: pf_called_def)
qed

lemma pf_run_inv:
  assumes inv: "pf_inv mtu num f ps" and jobs: "BPendingGroup_HasJobs (pf_group f)"
  shows "\<exists>f' ps'. pf_run_job f = Some f' \<and> pf_inv mtu num f' ps' \<and> pf_written f' = pf_written f \<and> pf_taken f' = pf_taken f \<and>
    pf_weight f' < pf_weight f"
proof (rule pf_pop [OF inv jobs])
  fix j g ks m assume g: "BPendingGroup_ExecuteJob (pf_group f) = Some (j, g)" and pop: "pf_popped j (f\<lparr>pf_group := g\<rparr>) ks m"
  have rest: "pf_rest mtu num (f\<lparr>pf_group := g\<rparr>) ps" using inv by (simp add: pf_rest_group pf_inv_rest)
  have w: "pf_weight (f\<lparr>pf_group := g\<rparr>) = pf_weight f" by (simp add: pf_weight_def)
  have "\<exists>f' ps'. pf_job j (f\<lparr>pf_group := g\<rparr>) = Some f' \<and> pf_inv mtu num f' ps' \<and> pf_written f' = pf_written f \<and> pf_taken f' = pf_taken f \<and>
    pf_weight f' < pf_weight f"
  proof (cases j)
    case WriterOp
    then show ?thesis using job_WriterOp [OF pop [unfolded WriterOp] rest] w by auto
  next
    case WriterDone
    then show ?thesis using job_WriterDone [OF pop [unfolded WriterDone] rest] w by auto
  next
    case EncoderOp
    then show ?thesis using job_EncoderOp [OF pop [unfolded EncoderOp] rest] w by auto
  next
    case EncoderDone
    then show ?thesis using job_EncoderDone [OF pop [unfolded EncoderDone] rest] w by auto
  next
    case OutputOp
    then show ?thesis using job_OutputOp [OF pop [unfolded OutputOp] rest] w by auto
  next
    case OutputCancel
    then show ?thesis using pf_poppedD(11) [OF pop] by simp
  next
    case OutputDone
    then show ?thesis using job_OutputDone [OF pop [unfolded OutputDone] rest] w by auto
  qed
  then show ?thesis using g by (simp add: pf_run_job_def)
qed

section \<open>From initialisation on\<close>

text \<open>The flow and the interface it sends to, in a fresh group.\<close>

definition pf_create :: "(int \<Rightarrow> bytes option) \<Rightarrow> int \<Rightarrow> int \<Rightarrow> int \<Rightarrow> PacketProtoFlow \<Rightarrow> (PacketProtoFlow + PacketProtoFlow) option" where
  "pf_create alloc mtu num out_mtu f0 =
     do { (i, g) \<leftarrow> PacketPassInterface_Init out_mtu (pf_output f0) (BPendingGroup_Init (pf_group f0));
          PacketProtoFlow_Init alloc mtu num (f0\<lparr>pf_output := i, pf_group := g, pf_written := [], pf_taken := []\<rparr>) }"

abbreviation flow_m :: "flow_job \<rightharpoonup> flow_job" where
  "flow_m \<equiv> [OutputOp \<mapsto> OutputOp, OutputCancel \<mapsto> OutputCancel, OutputDone \<mapsto> OutputDone,
     WriterOp \<mapsto> WriterOp, WriterDone \<mapsto> WriterDone, EncoderOp \<mapsto> EncoderOp, EncoderDone \<mapsto> EncoderDone]"

lemma pf_create_parts:
  assumes wired: "pf_wired f0"
    and mtu: "0 \<le> mtu" "mtu \<le> int PACKETPROTO_MAXPAYLOAD" "mtu + 2 \<le> out_mtu" and num: "0 < num"
  obtains f where "pg_rep (pf_group f) flow_m []" "pf_wired f" "pf_mtus mtu f" "pf_stage f" "pf_written f = []" "pf_taken f = []"
    "pri_state (bw_recv_interface (pf_ainput f)) = STATE_NONE" "pri_state (pf_encoder_output f) = STATE_NONE" "ppi_state (pf_output f) = STATE_NONE"
    "pri_handler_done (bw_recv_interface (pf_ainput f))" "pri_handler_done (pf_encoder_output f)" "ppi_handler_done (pf_output f)"
    "pf_create alloc mtu num out_mtu f0 =
       (case PacketBuffer_Init alloc (mtu + 2) num of
          None \<Rightarrow> do { g \<leftarrow> PacketRecvInterface_Free (pf_encoder_output f) (pf_group f);
                       g \<leftarrow> BufferWriter_Free (pf_ainput f) g;
                       Some (Inl (f\<lparr>pf_group := g\<rparr>)) }
        | Some (buf, calls) \<Rightarrow> map_option Inr (pf_calls calls (f\<lparr>pf_buffer := buf\<rparr>)))"
proof -
  have enc: "int (PACKETPROTO_ENCLEN (nat mtu)) = mtu + 2" using mtu by (simp add: PACKETPROTO_ENCLEN_def)
  have w: "pri_job_operation (bw_recv_interface (pf_ainput f0)) = WriterOp" "pri_job_done (bw_recv_interface (pf_ainput f0)) = WriterDone"
    "pri_job_operation (pf_encoder_output f0) = EncoderOp" "pri_job_done (pf_encoder_output f0) = EncoderDone"
    "ppi_job_operation (pf_output f0) = OutputOp" "ppi_job_requestcancel (pf_output f0) = OutputCancel" "ppi_job_done (pf_output f0) = OutputDone"
    using wired by (simp_all add: pf_wired_def)
  obtain g1 where g1: "PacketPassInterface_Init out_mtu (pf_output f0) (BPendingGroup_Init (pf_group f0)) =
      Some ((pf_output f0)\<lparr>ppi_mtu := out_mtu, ppi_handler_requestcancel := False, ppi_handler_done := False, ppi_state := STATE_NONE\<rparr>, g1)"
    "pg_rep g1 [OutputOp \<mapsto> OutputOp, OutputCancel \<mapsto> OutputCancel, OutputDone \<mapsto> OutputDone] []"
    using ppi_Init [OF pg_Init, of out_mtu "pf_output f0" "pf_group f0"] mtu w by auto
  obtain g2 where g2: "PacketRecvInterface_Init mtu (bw_recv_interface (pf_ainput f0)) g1 =
      Some ((bw_recv_interface (pf_ainput f0))\<lparr>pri_mtu := mtu, pri_handler_done := False, pri_state := STATE_NONE\<rparr>, g2)"
    "pg_rep g2 [OutputOp \<mapsto> OutputOp, OutputCancel \<mapsto> OutputCancel, OutputDone \<mapsto> OutputDone, WriterOp \<mapsto> WriterOp, WriterDone \<mapsto> WriterDone] []"
    using pri_Init [OF g1(2), of mtu "bw_recv_interface (pf_ainput f0)"] mtu w by auto
  obtain g3 where g3: "PacketRecvInterface_Init (mtu + 2) (pf_encoder_output f0) g2 =
      Some ((pf_encoder_output f0)\<lparr>pri_mtu := mtu + 2, pri_handler_done := False, pri_state := STATE_NONE\<rparr>, g3)" "pg_rep g3 flow_m []"
    using pri_Init [OF g2(2), of "mtu + 2" "pf_encoder_output f0"] mtu w by auto
  let ?f = "f0\<lparr>pf_written := [], pf_taken := [],
      pf_ainput := (pf_ainput f0)\<lparr>bw_out_have := False, bw_d_mtu := mtu, bw_d_writing := False,
        bw_recv_interface := (bw_recv_interface (pf_ainput f0))\<lparr>pri_mtu := mtu, pri_state := STATE_NONE, pri_handler_done := True\<rparr>\<rparr>,
      pf_encoder_output := (pf_encoder_output f0)\<lparr>pri_mtu := mtu + 2, pri_state := STATE_NONE, pri_handler_done := True\<rparr>,
      pf_encoder_output_packet := None,
      pf_output := (pf_output f0)\<lparr>ppi_mtu := out_mtu, ppi_handler_requestcancel := False, ppi_state := STATE_NONE, ppi_handler_done := True\<rparr>,
      pf_group := g3\<rparr>"
  have "pf_create alloc mtu num out_mtu f0 =
       (case PacketBuffer_Init alloc (mtu + 2) num of
          None \<Rightarrow> do { g \<leftarrow> PacketRecvInterface_Free (pf_encoder_output ?f) (pf_group ?f);
                       g \<leftarrow> BufferWriter_Free (pf_ainput ?f) g;
                       Some (Inl (?f\<lparr>pf_group := g\<rparr>)) }
        | Some (buf, calls) \<Rightarrow> map_option Inr (pf_calls calls (?f\<lparr>pf_buffer := buf\<rparr>)))"
    using g1(1) g2(1) g3(1) mtu num enc
    by (simp add: pf_create_def PacketProtoFlow_Init_def BufferWriter_Init_def PacketRecvInterface_Receiver_Init_def
        PacketPassInterface_Sender_Init_def PacketPassInterface_GetMTU_def PacketRecvInterface_GetMTU_def Let_def split: option.split)
  then show thesis
    using w g3(2) mtu by (intro that [of ?f]) (simp_all add: pf_wired_def pf_mtus_def pf_stage_def)
qed

lemma pf_create_inv:
  assumes wired: "pf_wired f0" and alloc: "alloc_ok alloc"
    and mtu: "0 \<le> mtu" "mtu \<le> int PACKETPROTO_MAXPAYLOAD" "mtu + 2 \<le> out_mtu" and num: "0 < num"
    and mem: "PacketBuffer_Init alloc (mtu + 2) num = Some (buf, calls)"
  shows "\<exists>f. pf_create alloc mtu num out_mtu f0 = Some (Inr f) \<and> pf_inv mtu num f [] \<and> pf_written f = [] \<and> pf_taken f = []"
proof (rule pf_create_parts [OF wired mtu num, of alloc])
  fix f
  assume f: "pg_rep (pf_group f) flow_m []" "pf_wired f" "pf_mtus mtu f" "pf_stage f" "pf_written f = []" "pf_taken f = []"
    "pri_state (bw_recv_interface (pf_ainput f)) = STATE_NONE" "pri_state (pf_encoder_output f) = STATE_NONE" "ppi_state (pf_output f) = STATE_NONE"
    "pri_handler_done (bw_recv_interface (pf_ainput f))" "pri_handler_done (pf_encoder_output f)" "ppi_handler_done (pf_output f)"
    and create: "pf_create alloc mtu num out_mtu f0 =
       (case PacketBuffer_Init alloc (mtu + 2) num of
          None \<Rightarrow> do { g \<leftarrow> PacketRecvInterface_Free (pf_encoder_output f) (pf_group f);
                       g \<leftarrow> BufferWriter_Free (pf_ainput f) g;
                       Some (Inl (f\<lparr>pf_group := g\<rparr>)) }
        | Some (buf, calls) \<Rightarrow> map_option Inr (pf_calls calls (f\<lparr>pf_buffer := buf\<rparr>)))"
  let ?f = "f\<lparr>pf_buffer := buf\<rparr>"
  obtain s0 where s0: "pb_system_of (buf, calls) = Some s0" "pb_inv (mtu + 2) num s0 []"
    using pb_inv_Init [OF mem alloc _ num] mtu by auto
  have "pf_abs ?f = \<lparr>sys_buf = buf, sys_recv = None, sys_send = None, sys_in = [], sys_out = []\<rparr>"
    using f(5-9) by (simp add: pf_abs_def pf_inflight_def)
  then have calls: "pb_calls calls (pf_abs ?f) = Some s0" using s0(1) by (simp add: pb_system_of_def)
  have "pf_linked ?f []"
    using f by (intro pf_linked_states [of _ flow_m]) (simp_all add: pf_wired_def owns_def)
  moreover have "pf_mtus mtu ?f" "pf_stage ?f" using f(3,4,7,8) by (auto simp: pf_mtus_def pf_stage_def Let_def)
  ultimately obtain f' where "pf_calls calls ?f = Some f'" "pf_inv mtu num f' []" "pf_called ?f f'"
    using pf_calls_inv [OF calls s0(2)] f(9) by force
  then show ?thesis using create mem f(5,6) by (auto simp: pf_called_def)
qed

lemma pf_step_inv:
  assumes "pf_inv mtu num f ps" "pf_allowed ev f"
  shows "\<exists>f' ps'. pf_step ev f = Some f' \<and> pf_inv mtu num f' ps'"
proof (cases ev)
  case FlowRun
  then show ?thesis using pf_run_inv [OF assms(1)] assms(2) by auto
next
  case FlowStart
  then show ?thesis using pf_start_inv [OF assms(1)] assms(2) by force
next
  case (FlowEnd p)
  then show ?thesis using pf_end_inv [OF assms(1), of p] assms(2) by auto
next
  case FlowTake
  then show ?thesis using pf_take_inv [OF assms(1)] assms(2) by auto
qed

lemma pf_reach_inv: "\<lbrakk>pf_reach f0 f; pf_inv mtu num f0 ps0\<rbrakk> \<Longrightarrow> \<exists>ps. pf_inv mtu num f ps"
proof (induction rule: pf_reach.induct)
  case (pf_reach_step f ev f')
  then obtain ps where "pf_inv mtu num f ps" by blast
  from pf_step_inv [OF this pf_reach_step.hyps(2)] pf_reach_step.hyps(3) show ?case by auto
qed blast

text \<open>What has been written is what has been taken, what is queued, and what is on its way in.\<close>

lemma pf_inv_stream:
  assumes "pf_inv mtu num f ps"
  shows "map frame (pf_written f) = pf_taken f @ (if ppi_state (pf_output f) = STATE_DONE_PENDING then tl ps else ps) @
    (if pf_inflight f then [frame (last (pf_written f))] else [])"
proof -
  have "sys_in (pf_abs f) = sys_out (pf_abs f) @ ps" using assms by (auto simp: pf_inv_def pb_inv_def Let_def)
  moreover have "ppi_state (pf_output f) = STATE_DONE_PENDING \<Longrightarrow> pf_taken f = butlast (pf_taken f) @ [hd ps] \<and> ps \<noteq> []"
    using assms pb_inv_send [of "mtu + 2" num "pf_abs f" ps] by (auto simp: pf_inv_def pf_abs_def)
  moreover have "pf_inflight f \<Longrightarrow> pf_written f \<noteq> []"
    using assms by (cases "pri_state (pf_encoder_output f)") (auto simp: pf_inv_def pf_stage_def pf_inflight_def Let_def)
  moreover have "map frame (pf_written f) = sys_in (pf_abs f) @ (if pf_inflight f then [frame (last (pf_written f))] else [])"
    using calculation(3) by (cases "pf_written f" rule: rev_cases) (auto simp: pf_abs_def)
  moreover have "sys_out (pf_abs f) @ ps = pf_taken f @ (if ppi_state (pf_output f) = STATE_DONE_PENDING then tl ps else ps)"
    using calculation(2) by (cases ps) (auto simp: pf_abs_def)
  ultimately show ?thesis by (metis append.assoc)
qed

text \<open>
  \<open>BReactor_Exec\<close> runs jobs until none is left. \<open>None\<close> would be a failed assertion, or a
  run of jobs that never ends.
\<close>

partial_function (option) pf_run_jobs :: "PacketProtoFlow \<Rightarrow> PacketProtoFlow option" where
  "pf_run_jobs f = (if BPendingGroup_HasJobs (pf_group f) then do { f \<leftarrow> pf_run_job f; pf_run_jobs f } else Some f)"

lemma pf_settles:
  "pf_inv mtu num f ps \<Longrightarrow> \<exists>f' ps'. pf_run_jobs f = Some f' \<and> pf_inv mtu num f' ps' \<and> \<not> BPendingGroup_HasJobs (pf_group f') \<and>
     pf_written f' = pf_written f \<and> pf_taken f' = pf_taken f"
proof (induction "pf_weight f" arbitrary: f ps rule: less_induct)
  case less
  show ?case
  proof (cases "BPendingGroup_HasJobs (pf_group f)")
    case True
    from pf_run_inv [OF less.prems True] obtain f1 ps1 where f1: "pf_run_job f = Some f1" "pf_inv mtu num f1 ps1"
      "pf_written f1 = pf_written f" "pf_taken f1 = pf_taken f" "pf_weight f1 < pf_weight f" by blast
    from less.hyps [OF f1(5,2)] f1 True show ?thesis by (subst pf_run_jobs.simps) auto
  next
    case False
    with less.prems show ?thesis by (subst pf_run_jobs.simps) auto
  qed
qed

lemma pf_quiet:
  assumes inv: "pf_inv mtu num f ps" and quiet: "\<not> BPendingGroup_HasJobs (pf_group f)"
  shows "bw_out_have (pf_ainput f) \<or> int (length ps) \<ge> num" "ppi_state (pf_output f) = STATE_BUSY \<or> ps = []" "\<not> pf_inflight f"
    "ppi_state (pf_output f) \<noteq> STATE_DONE_PENDING"
proof (rule_tac [!] pf_invE [OF inv])
  fix js assume f: "pf_linked f js" "pf_stage f" "pb_inv (mtu + 2) num (pf_abs f) ps"
  have "js = []" using f(1) quiet bp.has_rep by (auto simp: pf_linked_def)
  then have st: "pri_state (bw_recv_interface (pf_ainput f)) \<noteq> STATE_OPERATION_PENDING" "pri_state (bw_recv_interface (pf_ainput f)) \<noteq> STATE_DONE_PENDING"
    "pri_state (pf_encoder_output f) \<noteq> STATE_OPERATION_PENDING" "pri_state (pf_encoder_output f) \<noteq> STATE_DONE_PENDING"
    "ppi_state (pf_output f) \<noteq> STATE_OPERATION_PENDING" "ppi_state (pf_output f) \<noteq> STATE_DONE_PENDING"
    using f(1) by (auto simp: pf_linked_def pri_ok_def ppi_ok_def)
  show "\<not> pf_inflight f" "ppi_state (pf_output f) \<noteq> STATE_DONE_PENDING" using st by (simp_all add: pf_inflight_def)
  show "ppi_state (pf_output f) = STATE_BUSY \<or> ps = []"
    using st pb_inv_send [OF f(3)] by (cases "ppi_state (pf_output f)") (auto simp: pf_abs_def)
  show "bw_out_have (pf_ainput f) \<or> int (length ps) \<ge> num"
  proof (cases "pri_state (pf_encoder_output f)")
    case STATE_NONE
    then have "sys_recv (pf_abs f) = None" by (simp add: pf_abs_def)
    then show ?thesis using pb_inv_room [OF f(3)] by (cases "int (length ps) < num") auto
  next
    case STATE_BUSY
    then have "pri_state (bw_recv_interface (pf_ainput f)) = STATE_BUSY"
      using f(2) st by (cases "pri_state (bw_recv_interface (pf_ainput f))") (auto simp: pf_stage_def Let_def)
    then show ?thesis using f(2) by (auto simp: pf_stage_def Let_def)
  qed (use st in auto)
qed

text \<open>Without memory for the buffer the interfaces of the flow are freed again.\<close>

lemma free_job:
  assumes "pg_rep g m js" "m j \<noteq> None"
  shows "\<exists>g'. BPending_Free j g = Some g' \<and> pg_rep g' (m(j := None)) (remove1 j js)"
  using bp.free_rep [OF assms] by (simp add: BPending_defs)

lemma pri_Free:
  assumes "pg_rep g m js" "owns m (pri_jobs i)"
  shows "\<exists>g'. PacketRecvInterface_Free i g = Some g' \<and>
    pg_rep g' (m(pri_job_done i := None, pri_job_operation i := None)) (remove1 (pri_job_operation i) (remove1 (pri_job_done i) js))"
proof -
  have m: "m (pri_job_done i) \<noteq> None" "(m(pri_job_done i := None)) (pri_job_operation i) \<noteq> None"
    using assms(2) by (auto simp: owns_def)
  obtain g1 where g1: "BPending_Free (pri_job_done i) g = Some g1" "pg_rep g1 (m(pri_job_done i := None)) (remove1 (pri_job_done i) js)"
    using free_job [OF assms(1) m(1)] by blast
  obtain g2 where g2: "BPending_Free (pri_job_operation i) g1 = Some g2"
    "pg_rep g2 (m(pri_job_done i := None, pri_job_operation i := None)) (remove1 (pri_job_operation i) (remove1 (pri_job_done i) js))"
    using free_job [OF g1(2) m(2)] by blast
  have "PacketRecvInterface_Free i g = Some g2" using g1(1) g2(1) by (simp add: PacketRecvInterface_Free_def)
  with g2(2) show ?thesis by blast
qed

lemma pf_create_fails:
  assumes "pf_wired f0" "0 \<le> mtu" "mtu \<le> int PACKETPROTO_MAXPAYLOAD" "mtu + 2 \<le> out_mtu" "0 < num"
    and mem: "PacketBuffer_Init alloc (mtu + 2) num = None"
  shows "\<exists>f. pf_create alloc mtu num out_mtu f0 = Some (Inl f) \<and> \<not> BPendingGroup_HasJobs (pf_group f) \<and>
    dom (pg_handler (pf_group f)) = {OutputOp, OutputCancel, OutputDone} \<and> ppi_handler_done (pf_output f)"
proof (rule pf_create_parts [OF assms(1-5), of alloc])
  fix f
  assume f: "pg_rep (pf_group f) flow_m []" "pf_wired f" "ppi_handler_done (pf_output f)"
    and create: "pf_create alloc mtu num out_mtu f0 =
       (case PacketBuffer_Init alloc (mtu + 2) num of
          None \<Rightarrow> do { g \<leftarrow> PacketRecvInterface_Free (pf_encoder_output f) (pf_group f);
                       g \<leftarrow> BufferWriter_Free (pf_ainput f) g;
                       Some (Inl (f\<lparr>pf_group := g\<rparr>)) }
        | Some (buf, calls) \<Rightarrow> map_option Inr (pf_calls calls (f\<lparr>pf_buffer := buf\<rparr>)))"
  have w: "pri_jobs (pf_encoder_output f) = [EncoderOp, EncoderDone]" "pri_jobs (bw_recv_interface (pf_ainput f)) = [WriterOp, WriterDone]"
    using f(2) by (simp_all add: pf_wired_def)
  have "owns flow_m (pri_jobs (pf_encoder_output f))" unfolding w by (simp add: owns_def)
  from pri_Free [OF f(1) this] w obtain g1 where g1: "PacketRecvInterface_Free (pf_encoder_output f) (pf_group f) = Some g1"
    "pg_rep g1 (flow_m(EncoderDone := None, EncoderOp := None)) []" by auto
  have "owns (flow_m(EncoderDone := None, EncoderOp := None)) (pri_jobs (bw_recv_interface (pf_ainput f)))" unfolding w by (simp add: owns_def)
  from pri_Free [OF g1(2) this] w obtain g2 where g2: "BufferWriter_Free (pf_ainput f) g1 = Some g2"
    "pg_rep g2 (flow_m(EncoderDone := None, EncoderOp := None, WriterDone := None, WriterOp := None)) []" by (auto simp: BufferWriter_Free_def)
  then show ?thesis
    using create mem g1(1) f(3) bp.has_rep [OF g2(2)] pg_repD(2) [OF g2(2)] by auto
qed

section \<open>Properties\<close>

text \<open>
  C11. A packet flow delivers exactly what is written to it. Once \<open>PacketProtoFlow_Init\<close> had the
  memory for its buffer, then in every state reached by jobs, by the client starting and ending packets
  of up to \<open>input_mtu\<close> bytes and by the consumer completing packets, in any order, no assertion
  fails at the next allowed event, and what the consumer read from the shared memory so far are the frames of
  the packets the client wrote, each whole and in the order they were written.
\<close>

theorem packetproto_flow_frames:
  assumes "pf_wired f0" "alloc_ok alloc" "0 \<le> mtu" "mtu \<le> int PACKETPROTO_MAXPAYLOAD" "mtu + 2 \<le> out_mtu" "0 < num"
    and "PacketBuffer_Init alloc (mtu + 2) num \<noteq> None"
  shows "\<exists>f1. pf_create alloc mtu num out_mtu f0 = Some (Inr f1) \<and>
    (\<forall>f. pf_reach f1 f \<longrightarrow>
      (\<forall>ev. pf_allowed ev f \<longrightarrow> pf_step ev f \<noteq> None) \<and>
      (\<exists>rest. map frame (pf_written f) = pf_taken f @ rest))"
proof -
  obtain buf calls where mem: "PacketBuffer_Init alloc (mtu + 2) num = Some (buf, calls)" using assms(7) by auto
  obtain f1 where f1: "pf_create alloc mtu num out_mtu f0 = Some (Inr f1)" "pf_inv mtu num f1 []"
    using pf_create_inv [OF assms(1-6) mem] by blast
  have "(\<forall>ev. pf_allowed ev f \<longrightarrow> pf_step ev f \<noteq> None) \<and> (\<exists>rest. map frame (pf_written f) = pf_taken f @ rest)"
    if "pf_reach f1 f" for f
    using pf_reach_inv [OF that f1(2)] pf_step_inv pf_inv_stream by fast
  with f1(1) show ?thesis by blast
qed

definition demo_flow :: PacketProtoFlow where
  "demo_flow = \<lparr>pf_ainput = \<lparr>bw_recv_interface = \<lparr>pri_mtu = 0, pri_handler_done = False, pri_job_operation = WriterOp,
       pri_job_operation_data = None, pri_job_done = WriterDone, pri_job_done_len = 0, pri_state = STATE_NONE\<rparr>,
       bw_out_have = False, bw_out = None, bw_d_mtu = 0, bw_d_writing = False\<rparr>,
     pf_encoder_output = \<lparr>pri_mtu = 0, pri_handler_done = False, pri_job_operation = EncoderOp,
       pri_job_operation_data = None, pri_job_done = EncoderDone, pri_job_done_len = 0, pri_state = STATE_NONE\<rparr>,
     pf_encoder_output_packet = None, pf_buffer = sys_buf pb_demo,
     pf_output = \<lparr>ppi_mtu = 0, ppi_handler_requestcancel = False, ppi_handler_done = False, ppi_job_operation = OutputOp,
       ppi_job_operation_data = None, ppi_job_operation_len = 0, ppi_job_requestcancel = OutputCancel, ppi_job_done = OutputDone,
       ppi_state = STATE_NONE, ppi_cancel_requested = False\<rparr>,
     pf_group = \<lparr>pg_jobs = \<lparr>sl_first = None, sl_next = (\<lambda>_. None), sl_prev = (\<lambda>_. None)\<rparr>, pg_handler = Map.empty,
       pg_pending = (\<lambda>_. False), pg_ctr = 0\<rparr>,
     pf_written = [], pf_taken = []\<rparr>"

lemma demo_flow_wired: "pf_wired demo_flow"
  by (simp add: demo_flow_def pf_wired_def)

lemma demo_flow_memory: "PacketBuffer_Init pb_demo_alloc 6 1 \<noteq> None"
  by (simp add: PacketBuffer_Init_def pb_demo_alloc_def ChunkBuffer2_calc_blocks_def bdivide_up_def Let_def)

theorem packetproto_flow_frames_witness:
  "\<exists>f1. pf_create pb_demo_alloc 4 1 6 demo_flow = Some (Inr f1) \<and>
     (\<forall>f. pf_reach f1 f \<longrightarrow> (\<exists>rest. map frame (pf_written f) = pf_taken f @ rest))"
  using packetproto_flow_frames [OF demo_flow_wired pb_demo_alloc_ok, of 4 6 1] demo_flow_memory
  by (auto simp: PACKETPROTO_MAXPAYLOAD_def)

text \<open>
  C17. A packet flow never stalls. From every reachable state the jobs of the flow run out after
  finitely many steps, without taking or losing a packet, and then the client can write a
  packet unless at least \<open>num_packets\<close> are waiting, and the consumer is at work on a packet unless it
  has got them all.
\<close>

theorem packetproto_flow_settles:
  assumes "pf_wired f0" "alloc_ok alloc" "0 \<le> mtu" "mtu \<le> int PACKETPROTO_MAXPAYLOAD" "mtu + 2 \<le> out_mtu" "0 < num"
    and "PacketBuffer_Init alloc (mtu + 2) num \<noteq> None"
  shows "\<exists>f1. pf_create alloc mtu num out_mtu f0 = Some (Inr f1) \<and>
    (\<forall>f. pf_reach f1 f \<longrightarrow>
      (\<exists>f'. pf_run_jobs f = Some f' \<and> \<not> BPendingGroup_HasJobs (pf_group f') \<and>
        pf_written f' = pf_written f \<and> pf_taken f' = pf_taken f \<and>
        (bw_out_have (pf_ainput f') \<or> int (length (pf_taken f')) + num \<le> int (length (pf_written f'))) \<and>
        (ppi_state (pf_output f') = STATE_BUSY \<or> pf_taken f' = map frame (pf_written f'))))"
proof -
  obtain buf calls where mem: "PacketBuffer_Init alloc (mtu + 2) num = Some (buf, calls)" using assms(7) by auto
  obtain f1 where f1: "pf_create alloc mtu num out_mtu f0 = Some (Inr f1)" "pf_inv mtu num f1 []"
    using pf_create_inv [OF assms(1-6) mem] by blast
  have "\<exists>f'. pf_run_jobs f = Some f' \<and> \<not> BPendingGroup_HasJobs (pf_group f') \<and>
        pf_written f' = pf_written f \<and> pf_taken f' = pf_taken f \<and>
        (bw_out_have (pf_ainput f') \<or> int (length (pf_taken f')) + num \<le> int (length (pf_written f'))) \<and>
        (ppi_state (pf_output f') = STATE_BUSY \<or> pf_taken f' = map frame (pf_written f'))"
    if reach: "pf_reach f1 f" for f
  proof -
    obtain ps where "pf_inv mtu num f ps" using pf_reach_inv [OF reach f1(2)] by blast
    from pf_settles [OF this] obtain f' ps' where f': "pf_run_jobs f = Some f'" "pf_inv mtu num f' ps'"
      "\<not> BPendingGroup_HasJobs (pf_group f')" "pf_written f' = pf_written f" "pf_taken f' = pf_taken f" by blast
    note q = pf_quiet [OF f'(2,3)]
    have eq: "map frame (pf_written f') = pf_taken f' @ ps'" using pf_inv_stream [OF f'(2)] q(3,4) by simp
    have "length (pf_written f') = length (pf_taken f') + length ps'" using arg_cong [OF eq, of length] by simp
    with f' q(1,2) eq show ?thesis by (intro exI [of _ f']) auto
  qed
  with f1(1) show ?thesis by blast
qed

theorem packetproto_flow_settles_witness:
  "\<exists>f1 f'. pf_create pb_demo_alloc 4 1 6 demo_flow = Some (Inr f1) \<and> pf_run_jobs f1 = Some f' \<and>
     \<not> BPendingGroup_HasJobs (pf_group f')"
  using packetproto_flow_settles [OF demo_flow_wired pb_demo_alloc_ok, of 4 6 1] demo_flow_memory pf_reach_start
  by (force simp: PACKETPROTO_MAXPAYLOAD_def)

text \<open>A run of the flow, event by event, and one in which a packet goes through.\<close>

fun pf_exec :: "flow_event list \<Rightarrow> PacketProtoFlow \<Rightarrow> PacketProtoFlow option" where
  "pf_exec [] f = Some f"
| "pf_exec (ev # evs) f = (if pf_allowed ev f then do { f \<leftarrow> pf_step ev f; pf_exec evs f } else None)"

lemma pf_exec_reach: "\<lbrakk>pf_exec evs f = Some f'; pf_reach f1 f\<rbrakk> \<Longrightarrow> pf_reach f1 f'"
  by (induction evs arbitrary: f) (auto split: if_splits Option.bind_splits intro: pf_reach_step)

lemma maxpayload_int [code_unfold]: "int PACKETPROTO_MAXPAYLOAD = 65535"
  by (simp add: PACKETPROTO_MAXPAYLOAD_def)

definition demo_packet_through :: "(PacketProtoFlow \<times> PacketProtoFlow) option" where
  "demo_packet_through =
     (case pf_create pb_demo_alloc 4 1 6 demo_flow of
        Some (Inr f1) \<Rightarrow>
          map_option (Pair f1) (pf_exec [FlowRun, FlowRun, FlowStart, FlowEnd [7, 8], FlowRun, FlowRun, FlowRun, FlowTake] f1)
      | _ \<Rightarrow> None)"

lemma demo_packet_taken: "map_option (\<lambda>(f1, f). (pf_written f, pf_taken f)) demo_packet_through = Some ([[7, 8]], [[2, 0, 7, 8]])"
  by code_simp

lemma demo_flow_run:
  "\<exists>f1 f. pf_create pb_demo_alloc 4 1 6 demo_flow = Some (Inr f1) \<and> pf_reach f1 f \<and> pf_written f = [[7, 8]] \<and> pf_taken f = [[2, 0, 7, 8]]"
proof -
  obtain f1 f where f: "demo_packet_through = Some (f1, f)" "pf_written f = [[7, 8]]" "pf_taken f = [[2, 0, 7, 8]]"
    using demo_packet_taken by auto
  then have "pf_create pb_demo_alloc 4 1 6 demo_flow = Some (Inr f1)" "pf_reach f1 f"
    by (auto simp: demo_packet_through_def simp del: pf_exec.simps split: option.splits sum.splits dest!: pf_exec_reach intro: pf_reach_start)
  with f(2,3) show ?thesis by blast
qed

text \<open>Only packets of up to the MTU are written.\<close>

lemma pf_written_small:
  assumes "pf_reach f1 f" "pf_inv mtu num f1 ps0" "pf_written f1 = []" "p \<in> set (pf_written f)"
  shows "int (length p) \<le> mtu"
  using assms(1,4)
proof (induction rule: pf_reach.induct)
  case pf_reach_start
  then show ?case using assms(3) by simp
next
  case (pf_reach_step f ev f')
  obtain ps where inv: "pf_inv mtu num f ps" using pf_reach_inv [OF pf_reach_step.hyps(1) assms(2)] by blast
  then have mtu: "bw_d_mtu (pf_ainput f) = mtu" by (simp add: pf_inv_def pf_mtus_def)
  show ?case
  proof (cases ev)
    case FlowRun
    then show ?thesis using pf_run_inv [OF inv] pf_reach_step by auto
  next
    case (FlowEnd q)
    then have "pf_written f' = pf_written f @ [q]" using pf_reach_step.hyps(3) by (auto simp: pf_end_def pf_poke_def split: Option.bind_splits)
    then show ?thesis using pf_reach_step FlowEnd mtu by auto
  qed (use pf_reach_step in \<open>auto simp: pf_start_def pf_take_def Let_def split: Option.bind_splits\<close>)
qed

end
