(* ===== verification/StreamSender.thy ===== *)
theory StreamSender
  imports FlowIf
begin

text \<open>
  \<open>flow/PacketStreamSender.c\<close>: it takes packets from a \<open>PacketPassInterface\<close> and writes their bytes to a
  \<open>StreamPassInterface\<close>, whose provider (the connection to the server) accepts any positive number of
  the bytes offered. The result: the stream is the concatenation of the packets, whatever the
  sizes of the partial writes, and a packet is completed when its last byte is written and not before.
\<close>

section \<open>State and handlers\<close>

datatype send_job = InputOp | InputCancel | InputDone | StreamOp | StreamDone

text \<open>The object with the stream interface \<open>output\<close> points to and the job group.\<close>

record PacketStreamSender =
  pss_input :: "send_job PacketPassInterface"
  pss_output :: "send_job StreamPassInterface"
  pss_in_len :: int
  pss_in :: "int option"
  pss_in_used :: int
  pss_group :: "send_job jobs"

definition PSS_send_data :: "PacketStreamSender \<Rightarrow> PacketStreamSender option" where
  "PSS_send_data s =
     do { ASSERT (0 \<le> pss_in_len s);
          if pss_in_used s < pss_in_len s
          then do { (i, g) \<leftarrow> StreamPassInterface_Sender_Send (map_option (\<lambda>a. a + pss_in_used s) (pss_in s))
                      (pss_in_len s - pss_in_used s) (pss_output s) (pss_group s);
                    Some (s\<lparr>pss_output := i, pss_group := g\<rparr>) }
          else do { (i, g) \<leftarrow> PacketPassInterface_Done (pss_input s) (pss_group s);
                    Some (s\<lparr>pss_in_len := -1, pss_input := i, pss_group := g\<rparr>) } }"

definition PSS_input_handler_send :: "int option \<Rightarrow> int \<Rightarrow> PacketStreamSender \<Rightarrow> PacketStreamSender option" where
  "PSS_input_handler_send data data_len s =
     do { ASSERT (pss_in_len s = -1); ASSERT (0 \<le> data_len);
          PSS_send_data (s\<lparr>pss_in_len := data_len, pss_in := data, pss_in_used := 0\<rparr>) }"

definition PSS_output_handler_done :: "int \<Rightarrow> PacketStreamSender \<Rightarrow> PacketStreamSender option" where
  "PSS_output_handler_done data_len s =
     do { ASSERT (0 \<le> pss_in_len s); ASSERT (0 < data_len); ASSERT (data_len \<le> pss_in_len s - pss_in_used s);
          PSS_send_data (s\<lparr>pss_in_used := pss_in_used s + data_len\<rparr>) }"

definition PacketStreamSender_Init :: "int \<Rightarrow> PacketStreamSender \<Rightarrow> PacketStreamSender option" where
  "PacketStreamSender_Init mtu s =
     do { ASSERT (0 \<le> mtu);
          (i, g) \<leftarrow> PacketPassInterface_Init mtu (pss_input s) (pss_group s);
          out \<leftarrow> StreamPassInterface_Sender_Init (pss_output s);
          Some (s\<lparr>pss_input := i, pss_output := out, pss_in_len := -1, pss_group := g\<rparr>) }"

definition PacketStreamSender_Free :: "PacketStreamSender \<Rightarrow> PacketStreamSender option" where
  "PacketStreamSender_Free s =
     do { g \<leftarrow> PacketPassInterface_Free (pss_input s) (pss_group s); Some (s\<lparr>pss_group := g\<rparr>) }"

section \<open>The sender between a producer and a stream\<close>

text \<open>
  The producer puts a packet anywhere in its memory and sends it; until the packet is done it
  leaves the memory alone. The stream, when it has been offered bytes, reads some of them and
  reports how many. The histories: the packets sent and the bytes that went into the stream.
\<close>

record send_sys =
  ss_sender :: PacketStreamSender
  ss_mem :: bytes
  ss_packets :: "bytes list"
  ss_stream :: bytes

definition ss_job :: "send_job \<Rightarrow> PacketStreamSender \<Rightarrow> PacketStreamSender option" where
  "ss_job j s =
     (case j of
        InputOp \<Rightarrow>
          do { (i, d, len) \<leftarrow> PacketPassInterface_job_operation (pss_input s);
               PSS_input_handler_send d len (s\<lparr>pss_input := i\<rparr>) }
      | InputCancel \<Rightarrow> do { PacketPassInterface_job_requestcancel (pss_input s); None }
      | InputDone \<Rightarrow> do { i \<leftarrow> PacketPassInterface_job_done (pss_input s); Some (s\<lparr>pss_input := i\<rparr>) }
      | StreamOp \<Rightarrow>
          do { (i, d, len) \<leftarrow> StreamPassInterface_job_operation (pss_output s); Some (s\<lparr>pss_output := i\<rparr>) }
      | StreamDone \<Rightarrow>
          do { (i, len) \<leftarrow> StreamPassInterface_job_done (pss_output s);
               PSS_output_handler_done len (s\<lparr>pss_output := i\<rparr>) })"

definition ss_run_job :: "send_sys \<Rightarrow> send_sys option" where
  "ss_run_job y =
     do { (j, g) \<leftarrow> BPendingGroup_ExecuteJob (pss_group (ss_sender y));
          s \<leftarrow> ss_job j ((ss_sender y)\<lparr>pss_group := g\<rparr>);
          Some (y\<lparr>ss_sender := s\<rparr>) }"

definition ss_send :: "bytes \<Rightarrow> int \<Rightarrow> bytes \<Rightarrow> send_sys \<Rightarrow> send_sys option" where
  "ss_send mem d p y =
     do { (i, g) \<leftarrow> PacketPassInterface_Sender_Send (Some d) (int (length p)) (pss_input (ss_sender y)) (pss_group (ss_sender y));
          Some (y\<lparr>ss_sender := (ss_sender y)\<lparr>pss_input := i, pss_group := g\<rparr>, ss_mem := mem, ss_packets := ss_packets y @ [p]\<rparr>) }"

definition ss_write :: "int \<Rightarrow> send_sys \<Rightarrow> send_sys option" where
  "ss_write n y =
     do { d \<leftarrow> spi_job_operation_data (pss_output (ss_sender y));
          (i, g) \<leftarrow> StreamPassInterface_Done n (pss_output (ss_sender y)) (pss_group (ss_sender y));
          Some (y\<lparr>ss_sender := (ss_sender y)\<lparr>pss_output := i, pss_group := g\<rparr>,
                  ss_stream := ss_stream y @ window (nat d) (nat n) (ss_mem y)\<rparr>) }"

datatype send_event = SendRun | SendPacket bytes int bytes | SendWrite int

fun ss_allowed :: "send_event \<Rightarrow> send_sys \<Rightarrow> bool" where
  "ss_allowed SendRun y \<longleftrightarrow> BPendingGroup_HasJobs (pss_group (ss_sender y))"
| "ss_allowed (SendPacket mem d p) y \<longleftrightarrow>
     ppi_state (pss_input (ss_sender y)) = STATE_NONE \<and> int (length p) \<le> PacketPassInterface_GetMTU (pss_input (ss_sender y)) \<and>
     0 \<le> d \<and> window (nat d) (length p) mem = p"
| "ss_allowed (SendWrite n) y \<longleftrightarrow>
     spi_state (pss_output (ss_sender y)) = STATE_BUSY \<and> 0 < n \<and> n \<le> spi_job_operation_len (pss_output (ss_sender y))"

fun ss_step :: "send_event \<Rightarrow> send_sys \<Rightarrow> send_sys option" where
  "ss_step SendRun y = ss_run_job y"
| "ss_step (SendPacket mem d p) y = ss_send mem d p y"
| "ss_step (SendWrite n) y = ss_write n y"

text \<open>A sender on a fresh group, with its producer attached.\<close>

definition ss_create :: "int \<Rightarrow> PacketStreamSender \<Rightarrow> send_sys option" where
  "ss_create mtu s0 =
     do { (out, g) \<leftarrow> StreamPassInterface_Init (pss_output s0) (BPendingGroup_Init (pss_group s0));
          s \<leftarrow> PacketStreamSender_Init mtu (s0\<lparr>pss_output := out, pss_group := g\<rparr>);
          i \<leftarrow> PacketPassInterface_Sender_Init (pss_input s);
          Some \<lparr>ss_sender = s\<lparr>pss_input := i\<rparr>, ss_mem = [], ss_packets = [], ss_stream = []\<rparr> }"

inductive ss_reach :: "send_sys \<Rightarrow> send_sys \<Rightarrow> bool" for y0 :: send_sys where
  ss_reach_start: "ss_reach y0 y0"
| ss_reach_step: "\<lbrakk>ss_reach y0 y; ss_allowed ev y; ss_step ev y = Some y'\<rbrakk> \<Longrightarrow> ss_reach y0 y'"

section \<open>The invariant\<close>

abbreviation send_jobs :: "send_job list" where
  "send_jobs \<equiv> [InputOp, InputCancel, InputDone, StreamOp, StreamDone]"

definition pss_wired :: "PacketStreamSender \<Rightarrow> bool" where
  "pss_wired s \<longleftrightarrow> ppi_jobs (pss_input s) = [InputOp, InputCancel, InputDone] \<and> spi_jobs (pss_output s) = [StreamOp, StreamDone]"

text \<open>\<open>J\<close> is the set of jobs that are pending, with the one just taken off the queue.\<close>

definition pss_linked :: "PacketStreamSender \<Rightarrow> send_job list \<Rightarrow> send_job set \<Rightarrow> (send_job \<rightharpoonup> send_job) \<Rightarrow> bool" where
  "pss_linked s js J m \<longleftrightarrow>
     pss_wired s \<and> pg_rep (pss_group s) m js \<and> owns m send_jobs \<and> ppi_handler_done (pss_input s) \<and> spi_handler_done (pss_output s) \<and>
     (InputOp \<in> J) = (ppi_state (pss_input s) = STATE_OPERATION_PENDING) \<and> (InputDone \<in> J) = (ppi_state (pss_input s) = STATE_DONE_PENDING) \<and>
     (StreamOp \<in> J) = (spi_state (pss_output s) = STATE_OPERATION_PENDING) \<and> (StreamDone \<in> J) = (spi_state (pss_output s) = STATE_DONE_PENDING) \<and>
     InputCancel \<notin> J"

text \<open>How much of the last packet is in the stream, by the stage of its transmission.\<close>

definition ss_stage :: "send_sys \<Rightarrow> bool" where
  "ss_stage y \<longleftrightarrow>
     (let s = ss_sender y; i = pss_input s; out = pss_output s; p = last (ss_packets y); sent = concat (butlast (ss_packets y))
      in 0 \<le> ppi_mtu i \<and>
         (case ppi_state i of
            STATE_OPERATION_PENDING \<Rightarrow>
              spi_state out = STATE_NONE \<and> pss_in_len s = -1 \<and> ss_packets y \<noteq> [] \<and> ss_stream y = sent \<and>
              (\<exists>d. ppi_job_operation_data i = Some d \<and> 0 \<le> d \<and> ppi_job_operation_len i = int (length p) \<and> window (nat d) (length p) (ss_mem y) = p)
          | STATE_BUSY \<Rightarrow>
              spi_state out \<noteq> STATE_NONE \<and> pss_in_len s = int (length p) \<and> ss_packets y \<noteq> [] \<and>
              0 \<le> pss_in_used s \<and> pss_in_used s < int (length p) \<and>
              (\<exists>d. pss_in s = Some d \<and> 0 \<le> d \<and> window (nat d) (length p) (ss_mem y) = p \<and> spi_job_operation_data out = Some (d + pss_in_used s)) \<and>
              spi_job_operation_len out = int (length p) - pss_in_used s \<and>
              (if spi_state out = STATE_DONE_PENDING
               then 0 < spi_job_done_len out \<and> spi_job_done_len out \<le> int (length p) - pss_in_used s \<and>
                    ss_stream y = sent @ take (nat (pss_in_used s + spi_job_done_len out)) p
               else ss_stream y = sent @ take (nat (pss_in_used s)) p)
          | _ \<Rightarrow> spi_state out = STATE_NONE \<and> pss_in_len s = -1 \<and> ss_stream y = concat (ss_packets y)))"

definition ss_inv :: "send_sys \<Rightarrow> bool" where
  "ss_inv y \<longleftrightarrow> (\<exists>js m. pss_linked (ss_sender y) js (set js) m) \<and> ss_stage y"

lemma ss_invI: "\<lbrakk>pss_linked (ss_sender y) js (set js) m; ss_stage y\<rbrakk> \<Longrightarrow> ss_inv y"
  by (auto simp: ss_inv_def)

lemma pss_linkedD:
  assumes "pss_linked s js J m"
  shows "pss_wired s" "pg_rep (pss_group s) m js" "owns m send_jobs" "ppi_handler_done (pss_input s)" "spi_handler_done (pss_output s)"
    "(InputOp \<in> J) = (ppi_state (pss_input s) = STATE_OPERATION_PENDING)" "(InputDone \<in> J) = (ppi_state (pss_input s) = STATE_DONE_PENDING)"
    "(StreamOp \<in> J) = (spi_state (pss_output s) = STATE_OPERATION_PENDING)" "(StreamDone \<in> J) = (spi_state (pss_output s) = STATE_DONE_PENDING)"
    "InputCancel \<notin> J"
  using assms unfolding pss_linked_def by blast+

lemma pss_linkedI:
  assumes "pss_wired s" "pg_rep (pss_group s) m js" "owns m send_jobs" "ppi_handler_done (pss_input s)" "spi_handler_done (pss_output s)"
    "(InputOp \<in> J) = (ppi_state (pss_input s) = STATE_OPERATION_PENDING)" "(InputDone \<in> J) = (ppi_state (pss_input s) = STATE_DONE_PENDING)"
    "(StreamOp \<in> J) = (spi_state (pss_output s) = STATE_OPERATION_PENDING)" "(StreamDone \<in> J) = (spi_state (pss_output s) = STATE_DONE_PENDING)"
    "InputCancel \<notin> J"
  shows "pss_linked s js J m"
  using assms unfolding pss_linked_def by blast

lemma pss_owned:
  assumes "pss_linked s js (set js) m"
  shows "owns m (ppi_jobs (pss_input s))" "owns m (spi_jobs (pss_output s))" "ppi_ok (pss_input s) (set js)" "spi_ok (pss_output s) (set js)"
  using pss_linkedD [OF assms] by (simp_all add: pss_wired_def owns_def ppi_ok_def spi_ok_def)

section \<open>Sending the rest of a packet\<close>

text \<open>
  \<open>send_data\<close> with \<open>k\<close> bytes of the packet written: it offers the rest to the stream, or
  completes the packet when there is none.
\<close>

definition ss_weight :: "PacketStreamSender \<Rightarrow> nat" where
  "ss_weight s = (case ppi_state (pss_input s) of STATE_OPERATION_PENDING \<Rightarrow> 2 | STATE_DONE_PENDING \<Rightarrow> 1 | _ \<Rightarrow> 0) +
     (case spi_state (pss_output s) of STATE_OPERATION_PENDING \<Rightarrow> 1 | STATE_DONE_PENDING \<Rightarrow> 2 | _ \<Rightarrow> 0)"

lemma send_data_inv:
  assumes l: "pss_linked (ss_sender y) js (set js) m" and st: "ppi_state (pss_input (ss_sender y)) = STATE_BUSY" "spi_state (pss_output (ss_sender y)) = STATE_NONE"
    and p: "ss_packets y \<noteq> []" "p = last (ss_packets y)" and len: "pss_in_len (ss_sender y) = int (length p)"
    and used: "pss_in_used (ss_sender y) = int k" "k \<le> length p" and d: "pss_in (ss_sender y) = Some d" "0 \<le> d" "window (nat d) (length p) (ss_mem y) = p"
    and stream: "ss_stream y = concat (butlast (ss_packets y)) @ take k p" and mtu: "0 \<le> ppi_mtu (pss_input (ss_sender y))"
  shows "\<exists>s. PSS_send_data (ss_sender y) = Some s \<and> ss_inv (y\<lparr>ss_sender := s\<rparr>) \<and> ss_weight s = 1"
proof (cases "k < length p")
  case True
  let ?out = "pss_output (ss_sender y)"
  let ?out' = "?out\<lparr>spi_job_operation_data := Some (d + int k), spi_job_operation_len := int (length p) - int k, spi_state := STATE_OPERATION_PENDING\<rparr>"
  obtain g where g: "StreamPassInterface_Sender_Send (Some (d + int k)) (int (length p) - int k) ?out (pss_group (ss_sender y)) = Some (?out', g)"
    "pg_rep g m (StreamOp # js)"
    using spi_Send [OF pss_linkedD(2) [OF l] pss_owned(2,4) [OF l] st(2) pss_linkedD(5) [OF l], of "int (length p) - int k" "Some (d + int k)"] True
      pss_linkedD(1) [OF l] by (auto simp: pss_wired_def)
  let ?s = "(ss_sender y)\<lparr>pss_output := ?out', pss_group := g\<rparr>"
  have "pss_linked ?s (StreamOp # js) (set (StreamOp # js)) m"
    using pss_linkedD [OF l] g(2) st by (intro pss_linkedI) (simp_all add: pss_wired_def)
  moreover have "ss_stage (y\<lparr>ss_sender := ?s\<rparr>)"
    using st p len used d stream mtu True by (simp add: ss_stage_def Let_def)
  ultimately have "ss_inv (y\<lparr>ss_sender := ?s\<rparr>)" by (intro ss_invI [where js = "StreamOp # js" and m = m]) simp_all
  then show ?thesis using g(1) len used d True st by (simp add: PSS_send_data_def ss_weight_def)
next
  case False
  let ?i = "(pss_input (ss_sender y))\<lparr>ppi_state := STATE_DONE_PENDING\<rparr>"
  have d: "InputCancel \<notin> set js" by (rule pss_linkedD(10) [OF l])
  obtain g where g: "PacketPassInterface_Done (pss_input (ss_sender y)) (pss_group (ss_sender y)) = Some (?i, g)" "pg_rep g m (InputDone # js)"
    using ppi_Done [OF pss_linkedD(2) [OF l] pss_owned(1,3) [OF l] st(1)] pss_linkedD(1) [OF l] d by (auto simp: pss_wired_def remove1_idem)
  let ?s = "(ss_sender y)\<lparr>pss_in_len := -1, pss_input := ?i, pss_group := g\<rparr>"
  have "pss_linked ?s (InputDone # js) (set (InputDone # js)) m"
    using pss_linkedD [OF l] g(2) st by (intro pss_linkedI) (simp_all add: pss_wired_def)
  moreover have "concat (butlast (ss_packets y)) @ p = concat (ss_packets y)"
    using p by (cases "ss_packets y" rule: rev_cases) simp_all
  then have "ss_stage (y\<lparr>ss_sender := ?s\<rparr>)"
    using st stream mtu False used by (simp add: ss_stage_def Let_def)
  ultimately have "ss_inv (y\<lparr>ss_sender := ?s\<rparr>)" by (intro ss_invI [where js = "InputDone # js" and m = m]) simp_all
  then show ?thesis using g(1) len used False st by (simp add: PSS_send_data_def ss_weight_def)
qed

section \<open>The events keep the invariant\<close>

lemma ss_send_inv:
  assumes inv: "ss_inv y" and ok: "ss_allowed (SendPacket mem d p) y"
  shows "\<exists>y'. ss_send mem d p y = Some y' \<and> ss_inv y'"
proof -
  obtain js m where l: "pss_linked (ss_sender y) js (set js) m" and stage: "ss_stage y" using inv by (auto simp: ss_inv_def)
  let ?i = "pss_input (ss_sender y)"
  have st: "ppi_state ?i = STATE_NONE" using ok by simp
  let ?i' = "?i\<lparr>ppi_job_operation_data := Some d, ppi_job_operation_len := int (length p), ppi_state := STATE_OPERATION_PENDING,
    ppi_cancel_requested := False\<rparr>"
  obtain g where g: "PacketPassInterface_Sender_Send (Some d) (int (length p)) ?i (pss_group (ss_sender y)) = Some (?i', g)"
    "pg_rep g m (InputOp # js)"
    using ppi_Send [OF pss_linkedD(2) [OF l] pss_owned(1,3) [OF l] st pss_linkedD(4) [OF l], of "int (length p)" "Some d"] ok pss_linkedD(1) [OF l]
    by (auto simp: PacketPassInterface_GetMTU_def pss_wired_def)
  let ?y = "y\<lparr>ss_sender := (ss_sender y)\<lparr>pss_input := ?i', pss_group := g\<rparr>, ss_mem := mem, ss_packets := ss_packets y @ [p]\<rparr>"
  have "pss_linked (ss_sender ?y) (InputOp # js) (set (InputOp # js)) m"
    using pss_linkedD [OF l] g(2) st by (intro pss_linkedI) (simp_all add: pss_wired_def)
  moreover have "ss_stage ?y" using stage st ok by (simp add: ss_stage_def Let_def)
  ultimately have "ss_inv ?y" by (rule ss_invI)
  then show ?thesis using g(1) by (simp add: ss_send_def)
qed

lemma ss_stage_busy:
  assumes "ss_stage y" "spi_state (pss_output (ss_sender y)) \<noteq> STATE_NONE"
  obtains d k where "ppi_state (pss_input (ss_sender y)) = STATE_BUSY" "ss_packets y \<noteq> []"
    "pss_in_len (ss_sender y) = int (length (last (ss_packets y)))" "pss_in_used (ss_sender y) = int k" "k < length (last (ss_packets y))"
    "pss_in (ss_sender y) = Some d" "0 \<le> d" "window (nat d) (length (last (ss_packets y))) (ss_mem y) = last (ss_packets y)"
    "spi_job_operation_data (pss_output (ss_sender y)) = Some (d + int k)"
    "spi_job_operation_len (pss_output (ss_sender y)) = int (length (last (ss_packets y))) - int k"
    "spi_state (pss_output (ss_sender y)) = STATE_DONE_PENDING \<longrightarrow> 0 < spi_job_done_len (pss_output (ss_sender y)) \<and>
       spi_job_done_len (pss_output (ss_sender y)) \<le> int (length (last (ss_packets y))) - int k \<and>
       ss_stream y = concat (butlast (ss_packets y)) @ take (k + nat (spi_job_done_len (pss_output (ss_sender y)))) (last (ss_packets y))"
    "spi_state (pss_output (ss_sender y)) \<noteq> STATE_DONE_PENDING \<longrightarrow>
       ss_stream y = concat (butlast (ss_packets y)) @ take k (last (ss_packets y))"
    "0 \<le> ppi_mtu (pss_input (ss_sender y))"
proof -
  have st: "ppi_state (pss_input (ss_sender y)) = STATE_BUSY"
    using assms by (cases "ppi_state (pss_input (ss_sender y))") (simp_all add: ss_stage_def Let_def)
  then have f: "ss_packets y \<noteq> []" "pss_in_len (ss_sender y) = int (length (last (ss_packets y)))" "0 \<le> pss_in_used (ss_sender y)"
    "pss_in_used (ss_sender y) < int (length (last (ss_packets y)))"
    "\<exists>d. pss_in (ss_sender y) = Some d \<and> 0 \<le> d \<and> window (nat d) (length (last (ss_packets y))) (ss_mem y) = last (ss_packets y) \<and>
       spi_job_operation_data (pss_output (ss_sender y)) = Some (d + pss_in_used (ss_sender y))"
    "spi_job_operation_len (pss_output (ss_sender y)) = int (length (last (ss_packets y))) - pss_in_used (ss_sender y)"
    "if spi_state (pss_output (ss_sender y)) = STATE_DONE_PENDING
     then 0 < spi_job_done_len (pss_output (ss_sender y)) \<and>
       spi_job_done_len (pss_output (ss_sender y)) \<le> int (length (last (ss_packets y))) - pss_in_used (ss_sender y) \<and>
       ss_stream y = concat (butlast (ss_packets y)) @ take (nat (pss_in_used (ss_sender y) + spi_job_done_len (pss_output (ss_sender y)))) (last (ss_packets y))
     else ss_stream y = concat (butlast (ss_packets y)) @ take (nat (pss_in_used (ss_sender y))) (last (ss_packets y))"
    "0 \<le> ppi_mtu (pss_input (ss_sender y))"
    using assms(1) by (simp_all add: ss_stage_def Let_def)
  obtain k where k: "pss_in_used (ss_sender y) = int k" using f(3) nonneg_int_cases by blast
  obtain d where d: "pss_in (ss_sender y) = Some d" "0 \<le> d" "window (nat d) (length (last (ss_packets y))) (ss_mem y) = last (ss_packets y)"
    "spi_job_operation_data (pss_output (ss_sender y)) = Some (d + int k)" using f(5) k by auto
  show thesis
    by (rule that [of k d]) (use st f d k in \<open>auto simp: nat_add_distrib\<close>)
qed

lemma ss_write_inv:
  assumes inv: "ss_inv y" and ok: "ss_allowed (SendWrite n) y"
  shows "\<exists>y'. ss_write n y = Some y' \<and> ss_inv y'"
proof -
  obtain js m where l: "pss_linked (ss_sender y) js (set js) m" and stage: "ss_stage y" using inv by (auto simp: ss_inv_def)
  let ?out = "pss_output (ss_sender y)" and ?p = "last (ss_packets y)"
  have st: "spi_state ?out = STATE_BUSY" and n: "0 < n" "n \<le> spi_job_operation_len ?out" using ok by auto
  obtain d k where b: "ppi_state (pss_input (ss_sender y)) = STATE_BUSY" "ss_packets y \<noteq> []"
    "pss_in_len (ss_sender y) = int (length ?p)" "pss_in_used (ss_sender y) = int k" "k < length ?p"
    "pss_in (ss_sender y) = Some d" "0 \<le> d" "window (nat d) (length ?p) (ss_mem y) = ?p"
    "spi_job_operation_data ?out = Some (d + int k)" "spi_job_operation_len ?out = int (length ?p) - int k"
    "ss_stream y = concat (butlast (ss_packets y)) @ take k ?p" "0 \<le> ppi_mtu (pss_input (ss_sender y))"
    by (rule ss_stage_busy [OF stage]) (use st in auto)
  let ?out' = "?out\<lparr>spi_job_done_len := n, spi_state := STATE_DONE_PENDING\<rparr>"
  obtain g where g: "StreamPassInterface_Done n ?out (pss_group (ss_sender y)) = Some (?out', g)" "pg_rep g m (StreamDone # js)"
    using spi_Done [OF pss_linkedD(2) [OF l] pss_owned(2,4) [OF l] st n] pss_linkedD(1) [OF l] by (auto simp: pss_wired_def)
  have "window (nat (d + int k)) (nat n) (ss_mem y) = take (nat n) (drop k ?p)"
  proof -
    have nd: "nat (d + int k) = nat d + k" using b(7) by (simp add: nat_add_distrib)
    have "take (nat n) (drop k ?p) = take (nat n) (drop k (window (nat d) (length ?p) (ss_mem y)))" using b(8) by simp
    also have "\<dots> = window (nat d + k) (nat n) (ss_mem y)"
      using n b(5,10) by (simp add: drop_window take_window)
    finally show ?thesis using nd by simp
  qed
  then have stream: "ss_stream y @ window (nat (d + int k)) (nat n) (ss_mem y) = concat (butlast (ss_packets y)) @ take (k + nat n) ?p"
    using b(11) by (simp add: take_add)
  let ?y = "y\<lparr>ss_sender := (ss_sender y)\<lparr>pss_output := ?out', pss_group := g\<rparr>,
    ss_stream := ss_stream y @ window (nat (d + int k)) (nat n) (ss_mem y)\<rparr>"
  have "pss_linked (ss_sender ?y) (StreamDone # js) (set (StreamDone # js)) m"
    using pss_linkedD [OF l] g(2) st by (intro pss_linkedI) (simp_all add: pss_wired_def)
  moreover have "ss_stage ?y"
    using b n stream by (simp add: ss_stage_def Let_def nat_add_distrib)
  ultimately have "ss_inv ?y" by (rule ss_invI)
  then show ?thesis using g(1) b(9) by (simp add: ss_write_def)
qed

lemma ss_run_inv:
  assumes inv: "ss_inv y" and jobs: "BPendingGroup_HasJobs (pss_group (ss_sender y))"
  shows "\<exists>y'. ss_run_job y = Some y' \<and> ss_inv y' \<and> ss_packets y' = ss_packets y \<and> ss_stream y' = ss_stream y \<and>
    ss_weight (ss_sender y') < ss_weight (ss_sender y)"
proof -
  obtain js m where l: "pss_linked (ss_sender y) js (set js) m" and stage: "ss_stage y" using inv by (auto simp: ss_inv_def)
  note d = pss_linkedD [OF l]
  obtain j ks where js: "js = j # ks" using jobs bp.has_rep [OF d(2)] by (cases js) auto
  have "m j = Some j" using owns_job [OF d(3), of j] by (cases j) auto
  then obtain g where g: "BPendingGroup_ExecuteJob (pss_group (ss_sender y)) = Some (j, g)" "pg_rep g m ks"
    using bp.execute_rep [OF d(2) [unfolded js]] by auto
  have nk: "j \<notin> set ks" using bp.distinct_rep [OF d(2)] js by simp
  note d = d(1,3-5) d(6-10) [unfolded js list.set]
  let ?s = "(ss_sender y)\<lparr>pss_group := g\<rparr>" and ?i = "pss_input (ss_sender y)" and ?out = "pss_output (ss_sender y)"
  have "\<exists>s. ss_job j ?s = Some s \<and> ss_inv (y\<lparr>ss_sender := s\<rparr>) \<and> ss_weight s < ss_weight (ss_sender y)"
  proof (cases j)
    case InputOp
    have st: "ppi_state ?i = STATE_OPERATION_PENDING" using d InputOp by simp
    then obtain a where a: "spi_state ?out = STATE_NONE" "pss_in_len (ss_sender y) = -1" "ss_packets y \<noteq> []"
      "ss_stream y = concat (butlast (ss_packets y))" "ppi_job_operation_data ?i = Some a" "0 \<le> a"
      "ppi_job_operation_len ?i = int (length (last (ss_packets y)))" "window (nat a) (length (last (ss_packets y))) (ss_mem y) = last (ss_packets y)"
      "0 \<le> ppi_mtu ?i"
      using stage by (auto simp: ss_stage_def Let_def)
    let ?s1 = "?s\<lparr>pss_input := ?i\<lparr>ppi_state := STATE_BUSY\<rparr>, pss_in_len := int (length (last (ss_packets y))), pss_in := Some a, pss_in_used := 0\<rparr>"
    have "pss_linked ?s1 ks (set ks) m"
      using d g(2) nk st a(1) InputOp by (intro pss_linkedI) (simp_all add: pss_wired_def)
    then have "\<exists>s. PSS_send_data ?s1 = Some s \<and> ss_inv (y\<lparr>ss_sender := s\<rparr>) \<and> ss_weight s = 1"
      using send_data_inv [of "y\<lparr>ss_sender := ?s1\<rparr>" ks m "last (ss_packets y)" 0 a] a by simp
    then show ?thesis
      using InputOp st a by (auto simp: ss_job_def ppi_defs(4) PSS_input_handler_send_def ss_weight_def)
  next
    case InputCancel
    then show ?thesis using d by simp
  next
    case InputDone
    have st: "ppi_state ?i = STATE_DONE_PENDING" using d InputDone by simp
    let ?s1 = "?s\<lparr>pss_input := ?i\<lparr>ppi_state := STATE_NONE\<rparr>\<rparr>"
    have "pss_linked ?s1 ks (set ks) m"
      using d g(2) nk st InputDone by (intro pss_linkedI) (simp_all add: pss_wired_def)
    moreover have "ss_stage (y\<lparr>ss_sender := ?s1\<rparr>)" using stage st by (simp add: ss_stage_def Let_def)
    ultimately have "ss_inv (y\<lparr>ss_sender := ?s1\<rparr>)" by (intro ss_invI [where js = ks and m = m]) simp_all
    then show ?thesis using InputDone st by (simp add: ss_job_def ppi_defs(6) ss_weight_def)
  next
    case StreamOp
    have st: "spi_state ?out = STATE_OPERATION_PENDING" using d StreamOp by simp
    have b: "ppi_state ?i = STATE_BUSY" by (rule ss_stage_busy [OF stage]) (use st in auto)
    let ?s1 = "?s\<lparr>pss_output := ?out\<lparr>spi_state := STATE_BUSY\<rparr>\<rparr>"
    have "pss_linked ?s1 ks (set ks) m"
      using d g(2) nk st b StreamOp by (intro pss_linkedI) (simp_all add: pss_wired_def)
    moreover have "ss_stage (y\<lparr>ss_sender := ?s1\<rparr>)" using stage st b by (simp add: ss_stage_def Let_def)
    ultimately have "ss_inv (y\<lparr>ss_sender := ?s1\<rparr>)" by (intro ss_invI [where js = ks and m = m]) simp_all
    then show ?thesis using StreamOp st b by (simp add: ss_job_def spi_defs(3) ss_weight_def)
  next
    case StreamDone
    have st: "spi_state ?out = STATE_DONE_PENDING" using d StreamDone by simp
    let ?p = "last (ss_packets y)"
    obtain a k where b: "ppi_state ?i = STATE_BUSY" "ss_packets y \<noteq> []" "pss_in_len (ss_sender y) = int (length ?p)"
      "pss_in_used (ss_sender y) = int k" "k < length ?p" "pss_in (ss_sender y) = Some a" "0 \<le> a" "window (nat a) (length ?p) (ss_mem y) = ?p"
      "0 < spi_job_done_len ?out" "spi_job_done_len ?out \<le> int (length ?p) - int k"
      "ss_stream y = concat (butlast (ss_packets y)) @ take (k + nat (spi_job_done_len ?out)) ?p" "0 \<le> ppi_mtu ?i"
      by (rule ss_stage_busy [OF stage]) (use st in auto)
    let ?s1 = "?s\<lparr>pss_output := ?out\<lparr>spi_state := STATE_NONE\<rparr>, pss_in_used := int k + spi_job_done_len ?out\<rparr>"
    have "pss_linked ?s1 ks (set ks) m"
      using d g(2) nk st b(1) StreamDone by (intro pss_linkedI) (simp_all add: pss_wired_def)
    then have "\<exists>s. PSS_send_data ?s1 = Some s \<and> ss_inv (y\<lparr>ss_sender := s\<rparr>) \<and> ss_weight s = 1"
      using send_data_inv [of "y\<lparr>ss_sender := ?s1\<rparr>" ks m ?p "k + nat (spi_job_done_len ?out)" a] b by simp
    then show ?thesis
      using StreamDone st b by (auto simp: ss_job_def spi_defs(4) PSS_output_handler_done_def ss_weight_def)
  qed
  then show ?thesis using g(1) by (auto simp: ss_run_job_def)
qed

lemma ss_step_inv: "\<lbrakk>ss_inv y; ss_allowed ev y\<rbrakk> \<Longrightarrow> \<exists>y'. ss_step ev y = Some y' \<and> ss_inv y'"
  using ss_run_inv ss_send_inv ss_write_inv by (cases ev) (auto simp del: ss_allowed.simps(2,3), fastforce)

lemma ss_create_inv:
  assumes "pss_wired s0" "0 \<le> mtu"
  shows "\<exists>y. ss_create mtu s0 = Some y \<and> ss_inv y \<and> ss_packets y = [] \<and> ppi_mtu (pss_input (ss_sender y)) = mtu"
proof -
  have w: "ppi_job_operation (pss_input s0) = InputOp" "ppi_job_requestcancel (pss_input s0) = InputCancel" "ppi_job_done (pss_input s0) = InputDone"
    "spi_job_operation (pss_output s0) = StreamOp" "spi_job_done (pss_output s0) = StreamDone"
    using assms(1) by (simp_all add: pss_wired_def)
  obtain g1 where g1: "StreamPassInterface_Init (pss_output s0) (BPendingGroup_Init (pss_group s0)) =
      Some ((pss_output s0)\<lparr>spi_handler_done := False, spi_state := STATE_NONE\<rparr>, g1)" "pg_rep g1 [StreamOp \<mapsto> StreamOp, StreamDone \<mapsto> StreamDone] []"
    using spi_Init [OF pg_Init, of "pss_output s0" "pss_group s0"] w by auto
  let ?m = "[StreamOp \<mapsto> StreamOp, StreamDone \<mapsto> StreamDone, InputOp \<mapsto> InputOp, InputCancel \<mapsto> InputCancel, InputDone \<mapsto> InputDone]"
  obtain g2 where g2: "PacketPassInterface_Init mtu (pss_input s0) g1 =
      Some ((pss_input s0)\<lparr>ppi_mtu := mtu, ppi_handler_requestcancel := False, ppi_handler_done := False, ppi_state := STATE_NONE\<rparr>, g2)" "pg_rep g2 ?m []"
    using ppi_Init [OF g1(2), of mtu "pss_input s0"] w assms(2) by auto
  let ?s = "s0\<lparr>pss_output := (pss_output s0)\<lparr>spi_state := STATE_NONE, spi_handler_done := True\<rparr>, pss_in_len := -1, pss_group := g2,
      pss_input := (pss_input s0)\<lparr>ppi_mtu := mtu, ppi_handler_requestcancel := False, ppi_state := STATE_NONE, ppi_handler_done := True\<rparr>\<rparr>"
  let ?y = "\<lparr>ss_sender = ?s, ss_mem = [], ss_packets = [], ss_stream = []\<rparr>"
  have "pss_linked ?s [] (set []) ?m" using w g2(2) by (intro pss_linkedI) (simp_all add: pss_wired_def owns_def)
  moreover have "ss_stage ?y" using assms(2) by (simp add: ss_stage_def Let_def)
  ultimately have "ss_inv ?y" by (intro ss_invI [where js = "[]" and m = ?m]) simp_all
  moreover have "ss_create mtu s0 = Some ?y"
    using g1(1) g2(1) assms(2)
    by (simp add: ss_create_def PacketStreamSender_Init_def StreamPassInterface_Sender_Init_def PacketPassInterface_Sender_Init_def)
  ultimately show ?thesis by simp
qed

lemma ss_reach_inv: "\<lbrakk>ss_reach y0 y; ss_inv y0\<rbrakk> \<Longrightarrow> ss_inv y"
proof (induction rule: ss_reach.induct)
  case (ss_reach_step y ev y')
  then show ?case using ss_step_inv [of y ev] by auto
qed

lemma ss_inv_stream:
  assumes "ss_inv y"
  shows "\<exists>rest. concat (ss_packets y) = ss_stream y @ rest"
    "ppi_state (pss_input (ss_sender y)) = STATE_NONE \<Longrightarrow> ss_stream y = concat (ss_packets y)"
proof -
  have stage: "ss_stage y" using assms by (simp add: ss_inv_def)
  have all: "concat (butlast (ss_packets y)) @ last (ss_packets y) = concat (ss_packets y)" if "ss_packets y \<noteq> []"
    using that by (cases "ss_packets y" rule: rev_cases) simp_all
  have part: "\<exists>rest. concat (ss_packets y) = (concat (butlast (ss_packets y)) @ take n (last (ss_packets y))) @ rest" if "ss_packets y \<noteq> []" for n
    using all [OF that] by (metis append.assoc append_take_drop_id)
  show "\<exists>rest. concat (ss_packets y) = ss_stream y @ rest"
    using stage all part by (cases "ppi_state (pss_input (ss_sender y))") (auto simp: ss_stage_def Let_def split: if_splits)
  show "ppi_state (pss_input (ss_sender y)) = STATE_NONE \<Longrightarrow> ss_stream y = concat (ss_packets y)"
    using stage by (simp add: ss_stage_def Let_def)
qed

partial_function (option) ss_run_jobs :: "send_sys \<Rightarrow> send_sys option" where
  "ss_run_jobs y = (if BPendingGroup_HasJobs (pss_group (ss_sender y)) then do { y \<leftarrow> ss_run_job y; ss_run_jobs y } else Some y)"

lemma ss_settles:
  "ss_inv y \<Longrightarrow> \<exists>y'. ss_run_jobs y = Some y' \<and> ss_inv y' \<and> \<not> BPendingGroup_HasJobs (pss_group (ss_sender y')) \<and>
     ss_packets y' = ss_packets y \<and> ss_stream y' = ss_stream y"
proof (induction "ss_weight (ss_sender y)" arbitrary: y rule: less_induct)
  case less
  show ?case
  proof (cases "BPendingGroup_HasJobs (pss_group (ss_sender y))")
    case True
    from ss_run_inv [OF less.prems True] obtain y1 where y1: "ss_run_job y = Some y1" "ss_inv y1" "ss_packets y1 = ss_packets y"
      "ss_stream y1 = ss_stream y" "ss_weight (ss_sender y1) < ss_weight (ss_sender y)" by blast
    from less.hyps [OF y1(5,2)] y1 True show ?thesis by (subst ss_run_jobs.simps) auto
  next
    case False
    with less.prems show ?thesis by (subst ss_run_jobs.simps) auto
  qed
qed

lemma ss_quiet:
  assumes inv: "ss_inv y" and quiet: "\<not> BPendingGroup_HasJobs (pss_group (ss_sender y))"
  shows "ppi_state (pss_input (ss_sender y)) = STATE_NONE \<or> spi_state (pss_output (ss_sender y)) = STATE_BUSY"
proof -
  obtain js m where l: "pss_linked (ss_sender y) js (set js) m" and stage: "ss_stage y" using inv by (auto simp: ss_inv_def)
  have "js = []" using quiet bp.has_rep [OF pss_linkedD(2) [OF l]] by simp
  then have st: "ppi_state (pss_input (ss_sender y)) \<noteq> STATE_OPERATION_PENDING" "ppi_state (pss_input (ss_sender y)) \<noteq> STATE_DONE_PENDING"
    "spi_state (pss_output (ss_sender y)) \<noteq> STATE_OPERATION_PENDING" "spi_state (pss_output (ss_sender y)) \<noteq> STATE_DONE_PENDING"
    using pss_linkedD [OF l] by simp_all
  show ?thesis
    using st stage by (cases "ppi_state (pss_input (ss_sender y))"; cases "spi_state (pss_output (ss_sender y))")
      (simp_all add: ss_stage_def Let_def)
qed

section \<open>Properties\<close>

text \<open>
  C16. The stream is the concatenation of the packets. In every state reached by packets of up to
  the MTU being sent (one at a time, as the interface demands), by the stream accepting any positive
  number of the bytes it is offered, and by jobs, no assertion fails at the next allowed event; the bytes in
  the stream are a prefix of the packets sent, one after the other; and when the sender reports a packet
  done, all of them are in the stream. The jobs always run out, and then the sender is ready for the next packet
  or the stream has bytes to write.
\<close>

theorem stream_sender_concatenates:
  assumes "pss_wired s0" "0 \<le> mtu"
  shows "\<exists>y0. ss_create mtu s0 = Some y0 \<and>
    (\<forall>y. ss_reach y0 y \<longrightarrow>
      (\<forall>ev. ss_allowed ev y \<longrightarrow> ss_step ev y \<noteq> None) \<and>
      (\<exists>rest. concat (ss_packets y) = ss_stream y @ rest) \<and>
      (ppi_state (pss_input (ss_sender y)) = STATE_NONE \<longrightarrow> ss_stream y = concat (ss_packets y)) \<and>
      (\<exists>y'. ss_run_jobs y = Some y' \<and> ss_stream y' = ss_stream y \<and>
        (ppi_state (pss_input (ss_sender y')) = STATE_NONE \<or> spi_state (pss_output (ss_sender y')) = STATE_BUSY)))"
proof -
  obtain y0 where y0: "ss_create mtu s0 = Some y0" "ss_inv y0" using ss_create_inv [OF assms] by blast
  have "(\<forall>ev. ss_allowed ev y \<longrightarrow> ss_step ev y \<noteq> None) \<and>
      (\<exists>rest. concat (ss_packets y) = ss_stream y @ rest) \<and>
      (ppi_state (pss_input (ss_sender y)) = STATE_NONE \<longrightarrow> ss_stream y = concat (ss_packets y)) \<and>
      (\<exists>y'. ss_run_jobs y = Some y' \<and> ss_stream y' = ss_stream y \<and>
        (ppi_state (pss_input (ss_sender y')) = STATE_NONE \<or> spi_state (pss_output (ss_sender y')) = STATE_BUSY))"
    if reach: "ss_reach y0 y" for y
  proof -
    have inv: "ss_inv y" by (rule ss_reach_inv [OF reach y0(2)])
    obtain y' where y': "ss_run_jobs y = Some y'" "ss_inv y'" "\<not> BPendingGroup_HasJobs (pss_group (ss_sender y'))" "ss_stream y' = ss_stream y"
      using ss_settles [OF inv] by blast
    have "ss_step ev y \<noteq> None" if "ss_allowed ev y" for ev using ss_step_inv [OF inv that] by auto
    then show ?thesis using ss_inv_stream [OF inv] ss_quiet [OF y'(2,3)] y'(1,4) by blast
  qed
  with y0(1) show ?thesis by blast
qed

definition demo_sender :: PacketStreamSender where
  "demo_sender = \<lparr>pss_input = \<lparr>ppi_mtu = 0, ppi_handler_requestcancel = False, ppi_handler_done = False, ppi_job_operation = InputOp,
       ppi_job_operation_data = None, ppi_job_operation_len = 0, ppi_job_requestcancel = InputCancel, ppi_job_done = InputDone,
       ppi_state = STATE_NONE, ppi_cancel_requested = False\<rparr>,
     pss_output = \<lparr>spi_handler_done = False, spi_job_operation = StreamOp, spi_job_operation_data = None, spi_job_operation_len = 0,
       spi_job_done = StreamDone, spi_job_done_len = 0, spi_state = STATE_NONE\<rparr>,
     pss_in_len = 0, pss_in = None, pss_in_used = 0,
     pss_group = \<lparr>pg_jobs = \<lparr>sl_first = None, sl_next = (\<lambda>_. None), sl_prev = (\<lambda>_. None)\<rparr>, pg_handler = Map.empty,
       pg_pending = (\<lambda>_. False), pg_ctr = 0\<rparr>\<rparr>"

lemma demo_sender_wired: "pss_wired demo_sender"
  by (simp add: demo_sender_def pss_wired_def)

theorem stream_sender_concatenates_witness:
  "\<exists>y0. ss_create 10 demo_sender = Some y0 \<and>
     (\<forall>y. ss_reach y0 y \<longrightarrow> ppi_state (pss_input (ss_sender y)) = STATE_NONE \<longrightarrow> ss_stream y = concat (ss_packets y))"
  using stream_sender_concatenates [OF demo_sender_wired, of 10] by auto

text \<open>A run of the sender, event by event, and one in which a packet goes out in two writes.\<close>

fun ss_exec :: "send_event list \<Rightarrow> send_sys \<Rightarrow> send_sys option" where
  "ss_exec [] y = Some y"
| "ss_exec (ev # evs) y = (if ss_allowed ev y then do { y \<leftarrow> ss_step ev y; ss_exec evs y } else None)"

lemma ss_exec_reach: "\<lbrakk>ss_exec evs y = Some y'; ss_reach y0 y\<rbrakk> \<Longrightarrow> ss_reach y0 y'"
  by (induction evs arbitrary: y) (auto split: if_splits Option.bind_splits intro: ss_reach_step)

definition demo_two_writes :: "(send_sys \<times> send_sys) option" where
  "demo_two_writes =
     (case ss_create 10 demo_sender of
        Some y0 \<Rightarrow> map_option (Pair y0) (ss_exec [SendPacket [0, 2, 0, 7, 8] 1 [2, 0, 7, 8], SendRun, SendRun, SendWrite 1,
          SendRun, SendRun, SendWrite 3, SendRun, SendRun] y0)
      | None \<Rightarrow> None)"

lemma demo_packet_streamed:
  "map_option (\<lambda>(y0, y). (ss_packets y, ss_stream y, ppi_state (pss_input (ss_sender y)))) demo_two_writes =
     Some ([[2, 0, 7, 8]], [2, 0, 7, 8], STATE_NONE)"
  by code_simp

lemma demo_sender_run:
  "\<exists>y0 y. ss_create 10 demo_sender = Some y0 \<and> ss_reach y0 y \<and> ss_packets y = [[2, 0, 7, 8]] \<and> ppi_state (pss_input (ss_sender y)) = STATE_NONE"
proof -
  obtain y0 y where y: "demo_two_writes = Some (y0, y)" "ss_packets y = [[2, 0, 7, 8]]" "ppi_state (pss_input (ss_sender y)) = STATE_NONE"
    using demo_packet_streamed by auto
  then have "ss_create 10 demo_sender = Some y0" "ss_reach y0 y"
    by (auto simp: demo_two_writes_def simp del: ss_exec.simps split: option.splits dest!: ss_exec_reach intro: ss_reach_start)
  with y(2,3) show ?thesis by blast
qed

end
