(* ===== verification/ParseNumber.thy ===== *)
theory ParseNumber
  imports Prelude
begin

text \<open>
  Numbers in text, \<open>misc/parse_number.h\<close>: parsing of decimal and hexadecimal numbers of 64 bits with
  the check for overflow, and printing of decimal numbers. A \<open>MemRef\<close> (\<open>misc/memref.h\<close>), a pointer with a
  length, is the string it spans. The results: the parsers accept exactly the
  numbers that fit and return their value, and parsing inverts printing.
\<close>

section \<open>Digits\<close>

definition decode_decimal_digit :: "char \<Rightarrow> int" where
  "decode_decimal_digit c =
     (case map_of [(CHR ''0'', 0), (CHR ''1'', 1), (CHR ''2'', 2), (CHR ''3'', 3), (CHR ''4'', 4), (CHR ''5'', 5),
        (CHR ''6'', 6), (CHR ''7'', 7), (CHR ''8'', 8), (CHR ''9'', 9)] c of
        Some d \<Rightarrow> d | None \<Rightarrow> -1)"

definition decode_hex_digit :: "char \<Rightarrow> int" where
  "decode_hex_digit c =
     (case map_of [(CHR ''0'', 0), (CHR ''1'', 1), (CHR ''2'', 2), (CHR ''3'', 3), (CHR ''4'', 4), (CHR ''5'', 5),
        (CHR ''6'', 6), (CHR ''7'', 7), (CHR ''8'', 8), (CHR ''9'', 9),
        (CHR ''A'', 10), (CHR ''a'', 10), (CHR ''B'', 11), (CHR ''b'', 11), (CHR ''C'', 12), (CHR ''c'', 12),
        (CHR ''D'', 13), (CHR ''d'', 13), (CHR ''E'', 14), (CHR ''e'', 14), (CHR ''F'', 15), (CHR ''f'', 15)] c of
        Some d \<Rightarrow> d | None \<Rightarrow> -1)"

abbreviation char_code :: "char \<Rightarrow> nat" where
  "char_code c \<equiv> of_char c"

section \<open>Parsing\<close>

definition parse_number__uintmax_max_str :: string where
  "parse_number__uintmax_max_str = ''18446744073709551615''"

fun no_overflow_loop :: "string \<Rightarrow> u64 \<Rightarrow> u64 option" where
  "no_overflow_loop [] n = Some n"
| "no_overflow_loop (c # cs) n =
     (if char_code c < char_code CHR ''0'' \<or> char_code c > char_code CHR ''9'' then None
      else no_overflow_loop cs (10 * n + of_nat (char_code c - char_code CHR ''0'')))"

definition parse__no_overflow :: "string \<Rightarrow> u64 option" where
  "parse__no_overflow str = no_overflow_loop str 0"

text \<open>\<open>memcmp\<close> of two blocks of one size: whether the first is greater.\<close>

fun memcmp_gt :: "string \<Rightarrow> string \<Rightarrow> bool" where
  "memcmp_gt (x # xs) (y # ys) \<longleftrightarrow> char_code x > char_code y \<or> x = y \<and> memcmp_gt xs ys"
| "memcmp_gt _ _ \<longleftrightarrow> False"

definition parse_unsigned_integer :: "string \<Rightarrow> u64 option" where
  "parse_unsigned_integer str =
     (if length str = 0 then None
      else let str = dropWhile (\<lambda>c. c = CHR ''0'') str
           in if length str > length parse_number__uintmax_max_str \<or>
                 (length str = length parse_number__uintmax_max_str \<and> memcmp_gt str parse_number__uintmax_max_str)
              then None else parse__no_overflow str)"

fun hex_integer_loop :: "string \<Rightarrow> u64 \<Rightarrow> u64 option" where
  "hex_integer_loop [] n = Some n"
| "hex_integer_loop (c # cs) n =
     (let digit = decode_hex_digit c
      in if digit < 0 then None
         else if n > 0xFFFFFFFFFFFFFFFF div 16 then None
         else let n = n * 16
              in if of_int digit > 0xFFFFFFFFFFFFFFFF - n then None
                 else hex_integer_loop cs (n + of_int digit))"

definition parse_unsigned_hex_integer :: "string \<Rightarrow> u64 option" where
  "parse_unsigned_hex_integer str = (if length str = 0 then None else hex_integer_loop str 0)"

definition parse_signmag_integer :: "string \<Rightarrow> (int \<times> u64) option" where
  "parse_signmag_integer str =
     (let (sign, str) = (if length str > 0 \<and> (str ! 0 = CHR ''+'' \<or> str ! 0 = CHR ''-'')
                         then (1 - 2 * (if str ! 0 = CHR ''-'' then 1 else 0), drop 1 str) else (1, str))
      in map_option (\<lambda>mag. (sign, mag)) (parse_unsigned_integer str))"

section \<open>Printing\<close>

text \<open>Both loops run once at least; \<open>x / 10\<close> is smaller than a positive \<open>x\<close>.\<close>

function repr_size_loop :: "u64 \<Rightarrow> nat \<Rightarrow> nat" where
  "repr_size_loop x n =
     (let n = n + 1; x' = x div 10
      in if x' > 0 then repr_size_loop x' n else n)"
  by pat_completeness auto
termination
proof (relation "measure (\<lambda>(x, n). unat x)")
  fix x :: u64 and n m :: nat and x' :: u64 assume "x' = x div 10" "0 < x'"
  then show "((x', m), x, n) \<in> measure (\<lambda>(x, n). unat x)"
    by (auto simp: unat_div word_less_nat_alt div_eq_0_iff intro!: div_less_dividend)
qed simp

declare repr_size_loop.simps [simp del]

definition compute_decimal_repr_size :: "u64 \<Rightarrow> nat" where
  "compute_decimal_repr_size x = repr_size_loop x 0"

text \<open>The digits from the end on; \<open>acc\<close> is what has been written behind the current position.\<close>

function generate_loop :: "u64 \<Rightarrow> string \<Rightarrow> string" where
  "generate_loop x acc =
     (let acc = char_of (char_code CHR ''0'' + unat (x mod 10)) # acc; x' = x div 10
      in if x' > 0 then generate_loop x' acc else acc)"
  by pat_completeness auto
termination
proof (relation "measure (\<lambda>(x, acc). unat x)")
  fix x :: u64 and acc acc' :: string and x' :: u64 assume "x' = x div 10" "0 < x'"
  then show "((x', acc'), x, acc) \<in> measure (\<lambda>(x, acc). unat x)"
    by (auto simp: unat_div word_less_nat_alt div_eq_0_iff intro!: div_less_dividend)
qed simp

declare generate_loop.simps [simp del]

text \<open>
  \<open>generate_decimal_repr\<close> writes into \<open>repr_size\<close> bytes, which has to be the number of digits.
\<close>

definition generate_decimal_repr :: "u64 \<Rightarrow> nat \<Rightarrow> string option" where
  "generate_decimal_repr x repr_size =
     do { ASSERT (repr_size = compute_decimal_repr_size x); Some (generate_loop x []) }"

definition generate_decimal_repr_string :: "u64 \<Rightarrow> (string \<times> nat) option" where
  "generate_decimal_repr_string x =
     do { let repr_size = compute_decimal_repr_size x;
          out \<leftarrow> generate_decimal_repr x repr_size;
          Some (out @ [CHR 0x00], repr_size) }"

section \<open>What the text of a number means\<close>

definition is_digit :: "char \<Rightarrow> bool" where
  "is_digit c \<longleftrightarrow> 48 \<le> char_code c \<and> char_code c \<le> 57"

definition digit_val :: "char \<Rightarrow> nat" where
  "digit_val c = char_code c - 48"

definition dec_value :: "string \<Rightarrow> nat" where
  "dec_value cs = foldl (\<lambda>n c. 10 * n + digit_val c) 0 cs"

fun dec_string :: "nat \<Rightarrow> string" where
  "dec_string n = (if n < 10 then [char_of (48 + n)] else dec_string (n div 10) @ [char_of (48 + n mod 10)])"

declare dec_string.simps [simp del]

abbreviation dec_from :: "nat \<Rightarrow> string \<Rightarrow> nat" where
  "dec_from \<equiv> foldl (\<lambda>n c. 10 * n + digit_val c)"

lemma dec_from_shift: "dec_from n cs = n * 10 ^ length cs + dec_value cs"
proof (induction cs arbitrary: n)
  case (Cons c cs)
  have "dec_value (c # cs) = digit_val c * 10 ^ length cs + dec_value cs"
    unfolding dec_value_def using Cons [of "digit_val c"] by (simp add: dec_value_def)
  then show ?case using Cons [of "10 * n + digit_val c"] by (simp add: algebra_simps)
qed (simp add: dec_value_def)

lemma dec_value_simps [simp]:
  "dec_value [] = 0" "dec_value (c # cs) = digit_val c * 10 ^ length cs + dec_value cs"
  "dec_value (cs @ ds) = dec_value cs * 10 ^ length ds + dec_value ds"
  using dec_from_shift [of "digit_val c" cs] dec_from_shift [of "dec_value cs" ds] by (simp_all add: dec_value_def)

lemma digit_val_less: "is_digit c \<Longrightarrow> digit_val c < 10"
  unfolding is_digit_def digit_val_def by linarith

lemma dec_value_less: "list_all is_digit cs \<Longrightarrow> dec_value cs < 10 ^ length cs"
proof (induction cs)
  case (Cons c cs)
  have "digit_val c \<le> 9" using Cons.prems digit_val_less [of c] by simp
  then have "digit_val c * 10 ^ length cs \<le> 9 * 10 ^ length cs" by (rule mult_le_mono1)
  moreover have "dec_value cs < 10 ^ length cs" using Cons by simp
  ultimately have "digit_val c * 10 ^ length cs + dec_value cs < 10 * 10 ^ length cs" by linarith
  then show ?case by simp
qed simp

lemma digit_val_zero: "is_digit c \<Longrightarrow> digit_val c = 0 \<longleftrightarrow> c = CHR ''0''"
proof
  assume "is_digit c" "digit_val c = 0"
  then have "char_code c = char_code CHR ''0''" by (simp add: is_digit_def digit_val_def)
  then show "c = CHR ''0''" by (metis char_of_char)
qed (simp add: digit_val_def)

lemma char_code_eq: "char_code c = char_code d \<longleftrightarrow> c = d"
  by (metis char_of_char)

lemma loop_digits:
  assumes "list_all is_digit cs"
  shows "no_overflow_loop cs w = Some (of_nat (dec_from (unat w) cs))"
  using assms
proof (induction cs arbitrary: w)
  case (Cons c cs)
  have "dec_from (unat (10 * w + of_nat (digit_val c))) cs = unat (10 * w + of_nat (digit_val c)) * 10 ^ length cs + dec_value cs"
    by (rule dec_from_shift)
  then have "(of_nat (dec_from (unat (10 * w + of_nat (digit_val c))) cs) :: u64) =
      (10 * w + of_nat (digit_val c)) * 10 ^ length cs + of_nat (dec_value cs)" by simp
  also have "\<dots> = of_nat (dec_from (unat w) (c # cs))" unfolding dec_from_shift by (simp add: algebra_simps)
  finally show ?case using Cons by (simp add: is_digit_def digit_val_def)
qed simp

lemma loop_rejects: "\<not> list_all is_digit cs \<Longrightarrow> no_overflow_loop cs w = None"
  by (induction cs arbitrary: w) (auto simp: is_digit_def)

lemma memcmp_dec:
  "\<lbrakk>list_all is_digit xs; list_all is_digit ys; length xs = length ys\<rbrakk> \<Longrightarrow> memcmp_gt xs ys \<longleftrightarrow> dec_value xs > dec_value ys"
proof (induction xs ys rule: memcmp_gt.induct)
  case (1 x xs y ys)
  let ?k = "10 ^ length ys :: nat"
  have b: "dec_value xs < ?k" "dec_value ys < ?k" using 1 dec_value_less [of xs] dec_value_less [of ys] by auto
  consider "char_code x < char_code y" | "char_code x > char_code y" | "x = y" using char_code_eq by (metis linorder_neqE_nat)
  then show ?case
  proof cases
    case 1
    then have "digit_val x + 1 \<le> digit_val y" using "1.prems" by (auto simp: is_digit_def digit_val_def)
    then have "(digit_val x + 1) * ?k \<le> digit_val y * ?k" by (rule mult_le_mono1)
    then show ?thesis using 1 b "1.prems" by (auto simp: algebra_simps)
  next
    case 2
    then have "digit_val y + 1 \<le> digit_val x" using "1.prems" by (auto simp: is_digit_def digit_val_def)
    then have "(digit_val y + 1) * ?k \<le> digit_val x * ?k" by (rule mult_le_mono1)
    then show ?thesis using 2 b "1.prems" by (auto simp: algebra_simps)
  next
    case 3
    then show ?thesis using 1 by simp
  qed
qed auto

lemma strip_zeros:
  assumes "list_all is_digit cs"
  shows "list_all is_digit (dropWhile (\<lambda>c. c = CHR ''0'') cs)" "dec_value (dropWhile (\<lambda>c. c = CHR ''0'') cs) = dec_value cs"
  using assms by (induction cs) (auto simp: digit_val_def)

lemma strip_zeros_digits: "list_all is_digit (dropWhile (\<lambda>c. c = CHR ''0'') cs) \<longleftrightarrow> list_all is_digit cs"
  by (induction cs) (auto simp: is_digit_def)

lemma stripped_large:
  assumes "list_all is_digit cs" "length (dropWhile (\<lambda>c. c = CHR ''0'') cs) > k"
  shows "10 ^ k \<le> dec_value cs"
proof -
  obtain c ds where s: "dropWhile (\<lambda>c. c = CHR ''0'') cs = c # ds" using assms(2) by (cases "dropWhile (\<lambda>c. c = CHR ''0'') cs") auto
  then have "c \<noteq> CHR ''0''" by (metis (mono_tags, lifting) hd_dropWhile list.distinct(1) list.sel(1))
  moreover have "is_digit c" using strip_zeros(1) [OF assms(1)] s by simp
  ultimately have "1 \<le> digit_val c" using digit_val_zero [of c] by linarith
  have "(10::nat) ^ k \<le> 10 ^ length ds" using assms(2) s by (intro power_increasing) auto
  also have "\<dots> \<le> digit_val c * 10 ^ length ds" using \<open>1 \<le> digit_val c\<close> by simp
  also have "\<dots> \<le> dec_value cs" using strip_zeros(2) [OF assms(1)] s by simp
  finally show ?thesis .
qed

lemma uintmax_str: "length parse_number__uintmax_max_str = 20" "list_all is_digit parse_number__uintmax_max_str"
  "dec_value parse_number__uintmax_max_str = 2 ^ 64 - 1"
  by (simp_all add: parse_number__uintmax_max_str_def is_digit_def digit_val_def)

lemma parse_unsigned_integer_spec:
  "parse_unsigned_integer s =
     (if s \<noteq> [] \<and> list_all is_digit s \<and> dec_value s < 2 ^ 64 then Some (of_nat (dec_value s)) else None)"
proof (cases "s \<noteq> [] \<and> list_all is_digit s")
  case True
  let ?t = "dropWhile (\<lambda>c. c = CHR ''0'') s"
  have t: "list_all is_digit ?t" "dec_value ?t = dec_value s" using strip_zeros True by auto
  consider (long) "length ?t > 20" | (equal) "length ?t = 20" | (short) "length ?t < 20" by linarith
  then show ?thesis
  proof cases
    case long
    then have "10 ^ 20 \<le> dec_value s" using True by (intro stripped_large) auto
    with True long show ?thesis by (simp add: parse_unsigned_integer_def uintmax_str Let_def)
  next
    case equal
    then have "memcmp_gt ?t parse_number__uintmax_max_str \<longleftrightarrow> dec_value s > 2 ^ 64 - 1"
      using memcmp_dec [OF t(1) uintmax_str(2)] t(2) uintmax_str by simp
    with True equal show ?thesis
      using loop_digits [OF t(1), of 0] t(2) by (auto simp: parse_unsigned_integer_def uintmax_str Let_def parse__no_overflow_def dec_value_def)
  next
    case short
    have "dec_value s < 10 ^ length ?t" using dec_value_less [OF t(1)] t(2) by simp
    also have "\<dots> \<le> 10 ^ 19" using short by (intro power_increasing) auto
    finally have "dec_value s < 2 ^ 64" by simp
    with True short show ?thesis
      using loop_digits [OF t(1), of 0] t(2) by (auto simp: parse_unsigned_integer_def uintmax_str Let_def parse__no_overflow_def dec_value_def)
  qed
next
  case False
  then show ?thesis
    using loop_rejects [of "dropWhile (\<lambda>c. c = CHR ''0'') s"] strip_zeros_digits [of s]
    by (auto simp: parse_unsigned_integer_def Let_def parse__no_overflow_def)
qed

section \<open>Hexadecimal numbers\<close>

definition hex_value :: "string \<Rightarrow> nat" where
  "hex_value cs = foldl (\<lambda>n c. 16 * n + nat (decode_hex_digit c)) 0 cs"

abbreviation hex_from :: "nat \<Rightarrow> string \<Rightarrow> nat" where
  "hex_from \<equiv> foldl (\<lambda>n c. 16 * n + nat (decode_hex_digit c))"

lemma hex_digit_bound: "decode_hex_digit c \<le> 15"
  unfolding decode_hex_digit_def by (auto split: option.splits if_splits)

lemma hex_from_mono: "n \<le> hex_from n cs"
proof (induction cs arbitrary: n)
  case (Cons c cs)
  have "n \<le> 16 * n + nat (decode_hex_digit c)" by simp
  then show ?case using Cons [of "16 * n + nat (decode_hex_digit c)"] by simp
qed simp

lemma hex_step_ok:
  assumes "0 \<le> e" "e \<le> 15" "16 * unat w + nat e < 2 ^ 64"
  shows "unat (w * 16 + of_int e :: u64) = 16 * unat w + nat e" "\<not> w > 0xFFFFFFFFFFFFFFFF div 16" "\<not> of_int e > 0xFFFFFFFFFFFFFFFF - w * 16"
proof -
  have w16: "unat (w * 16) = unat w * 16" using assms(3) by (subst unat_word_ariths(2)) simp
  have du: "unat (of_int e :: u64) = nat e" using assms(1,2) by (simp add: unat_eq_nat_uint uint_word_of_int)
  show "unat (w * 16 + of_int e :: u64) = 16 * unat w + nat e"
    unfolding unat_word_ariths(1) w16 du using assms(3) by simp
  show "\<not> w > 0xFFFFFFFFFFFFFFFF div 16" using assms(3) unfolding word_less_nat_alt unat_div by simp
  have "unat (0xFFFFFFFFFFFFFFFF - w * 16) = unat (0xFFFFFFFFFFFFFFFF :: u64) - unat (w * 16)"
    by (rule unat_sub) (use w16 assms(3) in \<open>simp add: word_le_nat_alt\<close>)
  then show "\<not> of_int e > 0xFFFFFFFFFFFFFFFF - w * 16" unfolding word_less_nat_alt du w16 using assms(3) by simp
qed

lemma hex_step_big:
  assumes "0 \<le> e" "e \<le> 15" "\<not> 16 * unat (w :: u64) + nat e < 2 ^ 64"
  shows "w > 0xFFFFFFFFFFFFFFFF div 16"
  unfolding word_less_nat_alt unat_div using assms by simp

lemma hex_loop_spec:
  "hex_integer_loop cs w =
     (if (\<forall>c \<in> set cs. 0 \<le> decode_hex_digit c) \<and> hex_from (unat w) cs < 2 ^ 64 then Some (of_nat (hex_from (unat w) cs)) else None)"
proof (induction cs arbitrary: w)
  case Nil
  have "unat w < 2 ^ 64" using unsigned_less [of w, where 'a = nat] by simp
  then show ?case by simp
next
  case (Cons c cs)
  let ?d = "decode_hex_digit c" and ?n = "16 * unat w + nat (decode_hex_digit c)"
  show ?case
  proof (cases "0 \<le> ?d \<and> ?n < 2 ^ 64")
    case True
    note step = hex_step_ok [OF conjunct1 [OF True] hex_digit_bound conjunct2 [OF True]]
    have "hex_integer_loop (c # cs) w = hex_integer_loop cs (w * 16 + of_int ?d)"
      using True step(2,3) by (simp only: hex_integer_loop.simps Let_def if_False if_True not_less [symmetric])
    then show ?thesis using Cons [of "w * 16 + of_int ?d"] step(1) True by simp
  next
    case False
    have rej: "hex_integer_loop (c # cs) w = None"
      using False hex_step_big [OF _ hex_digit_bound, of c w] by (simp only: hex_integer_loop.simps Let_def) (auto simp: not_le)
    have "\<not> (0 \<le> ?d \<and> hex_from (unat w) (c # cs) < 2 ^ 64)"
    proof
      assume a: "0 \<le> ?d \<and> hex_from (unat w) (c # cs) < 2 ^ 64"
      then have "?n < 2 ^ 64" using hex_from_mono [of ?n cs] unfolding foldl.simps by (meson order_le_less_trans)
      with a False show False by blast
    qed
    then show ?thesis unfolding rej by auto
  qed
qed

lemma parse_unsigned_hex_integer_spec:
  "parse_unsigned_hex_integer s =
     (if s \<noteq> [] \<and> (\<forall>c \<in> set s. 0 \<le> decode_hex_digit c) \<and> hex_value s < 2 ^ 64 then Some (of_nat (hex_value s)) else None)"
  by (simp add: parse_unsigned_hex_integer_def hex_loop_spec hex_value_def)

section \<open>Printing\<close>

lemma dec_string_digits: "list_all is_digit (dec_string n)" "dec_string n \<noteq> []"
proof -
  show "list_all is_digit (dec_string n)"
  proof (induction n rule: dec_string.induct)
    case (1 n)
    have "is_digit (char_of (48 + m))" if "m < 10" for m :: nat using that by (simp add: is_digit_def)
    with 1 show ?case by (subst dec_string.simps) simp
  qed
  show "dec_string n \<noteq> []" by (subst dec_string.simps) simp
qed

lemma dec_value_string [simp]: "dec_value (dec_string n) = n"
proof (induction n rule: dec_string.induct)
  case (1 n)
  then show ?case by (subst dec_string.simps) (simp add: digit_val_def)
qed

lemma length_dec_string: "length (dec_string n) \<le> k \<longleftrightarrow> n < 10 ^ k" if "0 < k"
  using that
proof (induction n arbitrary: k rule: dec_string.induct)
  case (1 n)
  show ?case
  proof (cases "n < 10")
    case True
    have "n < 10 ^ k" using True self_le_power [of "10::nat" k] 1(2) by simp
    then show ?thesis using True 1(2) by (subst dec_string.simps) simp
  next
    case False
    then have l: "length (dec_string n) = Suc (length (dec_string (n div 10)))" by (subst dec_string.simps) simp
    show ?thesis
    proof (cases "k = 1")
      case True
      then show ?thesis using l False dec_string_digits(2) [of "n div 10"] by (cases "dec_string (n div 10)") auto
    next
      case False2: False
      then obtain j where j: "k = Suc j" "0 < j" using 1(2) by (cases k) auto
      then show ?thesis using 1(1) [OF False j(2)] l by (simp add: less_mult_imp_div_less div_less_iff_less_mult mult.commute)
    qed
  qed
qed

lemma generate_loop_string: "generate_loop x acc = dec_string (unat x) @ acc"
proof (induction x acc rule: generate_loop.induct)
  case (1 x acc)
  show ?case
  proof (cases "x div 10 > 0")
    case True
    then have "\<not> unat x < 10" by (simp add: word_less_nat_alt unat_div div_eq_0_iff)
    then have "dec_string (unat x) = dec_string (unat x div 10) @ [char_of (48 + unat x mod 10)]" by (subst dec_string.simps) simp
    then show ?thesis using 1 True by (subst generate_loop.simps) (simp add: Let_def unat_div unat_mod)
  next
    case False
    then have "unat x < 10" by (simp add: word_less_nat_alt unat_div div_eq_0_iff)
    then show ?thesis using False by (subst generate_loop.simps, subst dec_string.simps) (simp add: Let_def unat_mod)
  qed
qed

lemma repr_size_string: "repr_size_loop x n = n + length (dec_string (unat x))"
proof (induction x n rule: repr_size_loop.induct)
  case (1 x n)
  show ?case
  proof (cases "x div 10 > 0")
    case True
    then have "\<not> unat x < 10" by (simp add: word_less_nat_alt unat_div div_eq_0_iff)
    then have "length (dec_string (unat x)) = Suc (length (dec_string (unat x div 10)))" by (subst dec_string.simps) simp
    then show ?thesis using 1 True by (subst repr_size_loop.simps) (simp add: Let_def unat_div)
  next
    case False
    then have "unat x < 10" by (simp add: word_less_nat_alt unat_div div_eq_0_iff)
    then show ?thesis using False by (subst repr_size_loop.simps, subst dec_string.simps) (simp add: Let_def)
  qed
qed

lemma parse_dec_string: "n < 2 ^ 64 \<Longrightarrow> parse_unsigned_integer (dec_string n) = Some (of_nat n)"
  using dec_string_digits [of n] by (simp add: parse_unsigned_integer_spec)

section \<open>Properties\<close>

text \<open>
  C18. Parsing of numbers is exact. A decimal text is accepted precisely when it is not empty, has
  only digits and its value fits into 64 bits, and then the result is this value, however many
  leading zeros there are; the same holds of hexadecimal text. The wrap-around of the machine
  arithmetic never shows. Printing writes exactly the digits it reserved room for, and parsing
  what was printed gives the number back.
\<close>

theorem number_text_exact:
  "parse_unsigned_integer s =
     (if s \<noteq> [] \<and> list_all is_digit s \<and> dec_value s < 2 ^ 64 then Some (of_nat (dec_value s)) else None) \<and>
   parse_unsigned_hex_integer s =
     (if s \<noteq> [] \<and> (\<forall>c \<in> set s. 0 \<le> decode_hex_digit c) \<and> hex_value s < 2 ^ 64 then Some (of_nat (hex_value s)) else None) \<and>
   (\<exists>out. generate_decimal_repr_string x = Some (out @ [CHR 0x00], length out) \<and> parse_unsigned_integer out = Some x)"
proof -
  have "generate_decimal_repr_string x = Some (dec_string (unat x) @ [CHR 0x00], length (dec_string (unat x)))"
    by (simp add: generate_decimal_repr_string_def generate_decimal_repr_def compute_decimal_repr_size_def
        generate_loop_string repr_size_string Let_def)
  moreover have "parse_unsigned_integer (dec_string (unat x)) = Some x"
    using parse_dec_string [of "unat x"] unsigned_less [of x, where 'a = nat] by simp
  ultimately show ?thesis using parse_unsigned_integer_spec [of s] parse_unsigned_hex_integer_spec [of s] by blast
qed

theorem number_text_exact_witness:
  "parse_unsigned_integer ''18446744073709551616'' = None \<and> parse_unsigned_integer ''0042'' = Some 42"
  using number_text_exact [of "''18446744073709551616''" 0] number_text_exact [of "''0042''" 0]
  by (simp add: is_digit_def digit_val_def)

end
