(* ===== verification/IpText.thy ===== *)
theory IpText
  imports Addr ParseNumber
begin

text \<open>
  IPv4 addresses, prefixes and masks in text and in memory, \<open>misc/ipaddr.h\<close>. An address is a
  \<open>uint32_t\<close> whose bytes in memory are the address in network order. The results: parsing inverts
  printing, the printed forms fit the buffers the callers declare, masks and prefix lengths convert
  into each other without loss, and the network test compares the leading bits.
\<close>

section \<open>Parsing\<close>

text \<open>
  One round of the loop per component; \<open>acc\<close> holds the bytes written so far. The loop ends at
  the latest in the round \<open>i = 3\<close>; that it always makes the text shorter is what shows termination.
\<close>

lemma rest_shorter: "takeWhile P xs \<noteq> [] \<Longrightarrow> length xs - Suc n < length xs"
  by (cases xs) auto

function parse_ipv4_loop :: "nat \<Rightarrow> string \<Rightarrow> bytes \<Rightarrow> bytes option" where
  "parse_ipv4_loop i name acc =
     (let j = length (takeWhile (\<lambda>c. c \<noteq> CHR ''.'') name)
      in if (j = length name \<and> i < 3) \<or> (j < length name \<and> i = 3) then None
         else if j < 1 \<or> j > 3 then None
         else case parse_unsigned_integer (take j name) of
                None \<Rightarrow> None
              | Some d \<Rightarrow> if d > 255 then None
                  else if i = 3 then Some (acc @ [ucast d])
                  else parse_ipv4_loop (i + 1) (drop (j + 1) name) (acc @ [ucast d]))"
  by pat_completeness auto
termination by (relation "measure (\<lambda>(i, name, acc). length name)") (auto intro: rest_shorter)

declare parse_ipv4_loop.simps [simp del]

definition ipaddr_parse_ipv4_addr :: "string \<Rightarrow> u32 option" where
  "ipaddr_parse_ipv4_addr name = map_option of_mem32 (parse_ipv4_loop 0 name [])"

definition ipaddr_parse_ipv4_prefix :: "string \<Rightarrow> int option" where
  "ipaddr_parse_ipv4_prefix str =
     (case parse_unsigned_integer str of None \<Rightarrow> None | Some d \<Rightarrow> if d > 32 then None else Some (uint d))"

record ipv4_ifaddr =
  ifa_addr :: u32
  ifa_prefix :: int

definition MemRef_FindChar :: "string \<Rightarrow> char \<Rightarrow> nat option" where
  "MemRef_FindChar str ch =
     (let i = length (takeWhile (\<lambda>c. c \<noteq> ch) str) in if i < length str then Some i else None)"

definition ipaddr_parse_ipv4_ifaddr :: "string \<Rightarrow> ipv4_ifaddr option" where
  "ipaddr_parse_ipv4_ifaddr str =
     do { slash_pos \<leftarrow> MemRef_FindChar str CHR ''/'';
          addr \<leftarrow> ipaddr_parse_ipv4_addr (take slash_pos str);
          prefix \<leftarrow> ipaddr_parse_ipv4_prefix (drop (slash_pos + 1) str);
          Some \<lparr>ifa_addr = addr, ifa_prefix = prefix\<rparr> }"

section \<open>Masks\<close>

text \<open>
  \<open>mask_bits n\<close> is \<open>t\<close> after \<open>n\<close> rounds of \<open>t |= 1 << (32 - i - 1)\<close>. (In the round \<open>i = 0\<close> the C code
  shifts a signed 1 into the sign bit, which the compilers of the build define as the bit pattern used here.)
\<close>

fun mask_bits :: "nat \<Rightarrow> u32" where
  "mask_bits 0 = 0"
| "mask_bits (Suc i) = mask_bits i OR push_bit (32 - i - 1) 1"

definition ipaddr_ipv4_mask_from_prefix :: "int \<Rightarrow> u32 option" where
  "ipaddr_ipv4_mask_from_prefix prefix =
     do { ASSERT (0 \<le> prefix); ASSERT (prefix \<le> 32); Some (hton32 (mask_bits (nat prefix))) }"

fun prefix_loop :: "u32 \<Rightarrow> u32 \<Rightarrow> nat \<Rightarrow> nat \<Rightarrow> nat option" where
  "prefix_loop netmask t i 0 = None"
| "prefix_loop netmask t i (Suc rounds) =
     (if ntoh32 netmask = t then Some i
      else prefix_loop netmask (if i < 32 then t OR push_bit (32 - i - 1) 1 else t) (i + 1) rounds)"

definition ipaddr_ipv4_prefix_from_mask :: "u32 \<Rightarrow> int option" where
  "ipaddr_ipv4_prefix_from_mask netmask = map_option int (prefix_loop netmask 0 0 33)"

definition ipaddr_ipv4_ifaddr_from_addr_mask :: "u32 \<Rightarrow> u32 \<Rightarrow> ipv4_ifaddr option" where
  "ipaddr_ipv4_ifaddr_from_addr_mask addr netmask =
     map_option (\<lambda>prefix. \<lparr>ifa_addr = addr, ifa_prefix = prefix\<rparr>) (ipaddr_ipv4_prefix_from_mask netmask)"

definition ipaddr_ipv4_addrs_in_network :: "u32 \<Rightarrow> u32 \<Rightarrow> int \<Rightarrow> bool option" where
  "ipaddr_ipv4_addrs_in_network addr1 addr2 netprefix =
     do { ASSERT (0 \<le> netprefix); ASSERT (netprefix \<le> 32);
          netmask \<leftarrow> ipaddr_ipv4_mask_from_prefix netprefix;
          Some (addr1 AND netmask = addr2 AND netmask) }"

section \<open>Printing\<close>

text \<open>\<open>sprintf\<close> writes a terminating zero after the text; it is counted in the bounds below.\<close>

definition IPADDR_PRINT_MAX :: nat where
  "IPADDR_PRINT_MAX = 19"

definition ipaddr_print_addr :: "u32 \<Rightarrow> string" where
  "ipaddr_print_addr addr =
     (let b = mem32 addr
      in dec_string (unat (b ! 0)) @ ''.'' @ dec_string (unat (b ! 1)) @ ''.'' @
         dec_string (unat (b ! 2)) @ ''.'' @ dec_string (unat (b ! 3)))"

definition ipaddr_print_ifaddr :: "ipv4_ifaddr \<Rightarrow> string option" where
  "ipaddr_print_ifaddr ifaddr =
     do { ASSERT (0 \<le> ifa_prefix ifaddr); ASSERT (ifa_prefix ifaddr \<le> 32);
          Some (ipaddr_print_addr (ifa_addr ifaddr) @ ''/'' @ dec_string (nat (ifa_prefix ifaddr))) }"

section \<open>Text\<close>

lemma dec_string_no: "\<not> is_digit ch \<Longrightarrow> ch \<notin> set (dec_string n)"
  using dec_string_digits(1) [of n] by (auto simp: list_all_iff)

lemma takeWhile_text: "\<not> is_digit ch \<Longrightarrow> takeWhile (\<lambda>c. c \<noteq> ch) (dec_string n @ ch # rest) = dec_string n"
  "\<not> is_digit ch \<Longrightarrow> takeWhile (\<lambda>c. c \<noteq> ch) (dec_string n) = dec_string n"
  using dec_string_no [of ch n] by (auto simp: takeWhile_append takeWhile_eq_all_conv)

lemma length_byte_text: "length (dec_string (unat (b :: byte))) \<le> 3" "0 < length (dec_string (unat b))"
  using length_dec_string [of 3 "unat b"] unsigned_less [of b, where 'a = nat] dec_string_digits(2) [of "unat b"] by auto

lemma parse_byte_text: "parse_unsigned_integer (dec_string (unat (b :: byte))) = Some (ucast b)" "\<not> (ucast b :: u64) > 255"
proof -
  have b: "unat b < 256" using unsigned_less [of b, where 'a = nat] by simp
  have u: "(of_nat (unat b) :: u64) = ucast b" by simp
  show "parse_unsigned_integer (dec_string (unat b)) = Some (ucast b)"
    using parse_dec_string [of "unat b"] b u by simp
  show "\<not> (ucast b :: u64) > 255" using b by (simp add: word_less_nat_alt unsigned_ucast_eq take_bit_nat_eq_self)
qed

lemma not_digit [simp]: "\<not> is_digit CHR ''.''" "\<not> is_digit CHR ''/''" "\<not> is_digit CHR '':''"
  by (simp_all add: is_digit_def)

lemma parse_component:
  "i < 3 \<Longrightarrow> parse_ipv4_loop i (dec_string (unat (b :: byte)) @ CHR ''.'' # rest) acc = parse_ipv4_loop (i + 1) rest (acc @ [b])"
  "parse_ipv4_loop 3 (dec_string (unat b)) acc = Some (acc @ [b])"
proof -
  have bb: "(ucast (ucast b :: u64) :: byte) = b" by (rule bit_word_eqI) (simp add: bit_simps)
  show "parse_ipv4_loop i (dec_string (unat b) @ CHR ''.'' # rest) acc = parse_ipv4_loop (i + 1) rest (acc @ [b])" if "i < 3"
    using that length_byte_text [of b] parse_byte_text [of b] bb
    by (subst parse_ipv4_loop.simps) (simp add: Let_def takeWhile_text)
  show "parse_ipv4_loop 3 (dec_string (unat b)) acc = Some (acc @ [b])"
    using length_byte_text [of b] parse_byte_text [of b] bb
    by (subst parse_ipv4_loop.simps) (simp add: Let_def takeWhile_text)
qed

lemma parse_print_addr: "ipaddr_parse_ipv4_addr (ipaddr_print_addr addr) = Some addr"
proof -
  obtain a b c d where m: "mem32 addr = [a, b, c, d]" using list_length_4 [OF length_mem32] by blast
  have "parse_ipv4_loop 0 (ipaddr_print_addr addr) [] = Some [a, b, c, d]"
    using parse_component(1) [of 0 a] parse_component(1) [of 1 b] parse_component(1) [of 2 c] parse_component(2) [of d]
    by (simp add: ipaddr_print_addr_def m numeral_2_eq_2 numeral_3_eq_3)
  then show ?thesis using of_mem32_mem32 [of addr] by (simp add: ipaddr_parse_ipv4_addr_def m)
qed

lemma slash_free: "CHR ''/'' \<notin> set (ipaddr_print_addr addr)"
  by (simp add: ipaddr_print_addr_def Let_def dec_string_no)

lemma find_slash: "CHR ''/'' \<notin> set xs \<Longrightarrow> MemRef_FindChar (xs @ CHR ''/'' # ys) CHR ''/'' = Some (length xs)"
  by (auto simp: MemRef_FindChar_def Let_def takeWhile_append)

lemma parse_prefix_text: "n \<le> 32 \<Longrightarrow> ipaddr_parse_ipv4_prefix (dec_string n) = Some (int n)"
  using parse_dec_string [of n] by (simp add: ipaddr_parse_ipv4_prefix_def word_less_nat_alt unat_of_nat uint_nat)

lemma length_print_addr: "length (ipaddr_print_addr addr) \<le> 15"
  using length_byte_text(1) [of "mem32 addr ! 0"] length_byte_text(1) [of "mem32 addr ! 1"]
    length_byte_text(1) [of "mem32 addr ! 2"] length_byte_text(1) [of "mem32 addr ! 3"]
  by (simp add: ipaddr_print_addr_def Let_def)

section \<open>Masks and bits\<close>

lemma bit_mask_bits: "n \<le> 32 \<Longrightarrow> bit (mask_bits n) k \<longleftrightarrow> 32 - n \<le> k \<and> k < 32"
proof (induction n)
  case (Suc n)
  then show ?case by (auto simp: bit_simps)
qed simp

lemma mask_bits_inj: "\<lbrakk>m \<le> 32; n \<le> 32; mask_bits m = mask_bits n\<rbrakk> \<Longrightarrow> m = n"
proof (rule ccontr)
  assume a: "m \<le> 32" "n \<le> 32" "mask_bits m = mask_bits n" "m \<noteq> n"
  have "32 - m \<le> k \<and> k < 32 \<longleftrightarrow> 32 - n \<le> k \<and> k < 32" for k
    using bit_mask_bits [of m k] bit_mask_bits [of n k] a by simp
  from this [of "32 - m"] this [of "32 - n"] a show False by (cases "m = 0"; cases "n = 0") auto
qed

lemma prefix_loop_spec:
  "i + rounds = 33 \<Longrightarrow> prefix_loop netmask (mask_bits i) i rounds = Some n \<longleftrightarrow> i \<le> n \<and> n \<le> 32 \<and> ntoh32 netmask = mask_bits n"
proof (induction rounds arbitrary: i)
  case (Suc r)
  show ?case
  proof (cases "ntoh32 netmask = mask_bits i")
    case True
    then have "prefix_loop netmask (mask_bits i) i (Suc r) = Some i" by simp
    moreover have "i \<le> 32" using Suc.prems by simp
    ultimately show ?thesis using True mask_bits_inj [of i n] by (metis le_refl option.inject)
  next
    case False
    then have ne: "i \<le> n \<and> ntoh32 netmask = mask_bits n \<longleftrightarrow> Suc i \<le> n \<and> ntoh32 netmask = mask_bits n"
      by (metis Suc_leD Suc_leI le_neq_implies_less)
    show ?thesis
    proof (cases "i < 32")
      case True
      then have "prefix_loop netmask (mask_bits i) i (Suc r) = prefix_loop netmask (mask_bits (Suc i)) (Suc i) r" using False by simp
      then show ?thesis using Suc.IH [of "Suc i"] Suc.prems ne by auto
    next
      case i: False
      then have "r = 0" "i = 32" using Suc.prems by auto
      then have "prefix_loop netmask (mask_bits i) i (Suc r) = None" using False by simp
      then show ?thesis using ne \<open>i = 32\<close> by auto
    qed
  qed
qed auto

lemma prefix_from_mask_spec: "ipaddr_ipv4_prefix_from_mask netmask = Some p \<longleftrightarrow> ipaddr_ipv4_mask_from_prefix p = Some netmask"
proof
  assume "ipaddr_ipv4_prefix_from_mask netmask = Some p"
  then obtain n where "p = int n" "prefix_loop netmask (mask_bits 0) 0 33 = Some n" by (auto simp: ipaddr_ipv4_prefix_from_mask_def)
  then have "n \<le> 32" "ntoh32 netmask = mask_bits n" "p = int n" using prefix_loop_spec [of 0 33 netmask n] by auto
  then show "ipaddr_ipv4_mask_from_prefix p = Some netmask" using ntoh_hton(4) [of netmask] by (simp add: ipaddr_ipv4_mask_from_prefix_def)
next
  assume "ipaddr_ipv4_mask_from_prefix p = Some netmask"
  then have "0 \<le> p" "p \<le> 32" "netmask = hton32 (mask_bits (nat p))" by (auto simp: ipaddr_ipv4_mask_from_prefix_def split: if_splits)
  then show "ipaddr_ipv4_prefix_from_mask netmask = Some p"
    using prefix_loop_spec [of 0 33 netmask "nat p"] by (simp add: ipaddr_ipv4_prefix_from_mask_def nat_le_iff)
qed

lemma hton32_AND: "hton32 (x AND y) = hton32 x AND hton32 y"
  by (rule bit_word_eqI) (auto simp: hton32_def badvpn_reverse32_def of_mem32_def mem32_def bit_simps)

lemma ntoh32_AND: "ntoh32 (x AND y) = ntoh32 x AND ntoh32 y"
  by (simp add: ntoh32_def hton32_AND)

lemma AND_mask_eq: "n \<le> 32 \<Longrightarrow> a AND mask_bits n = b AND mask_bits n \<longleftrightarrow> (\<forall>k. 32 - n \<le> k \<and> k < 32 \<longrightarrow> bit a k = bit b k)"
  by (auto simp: bit_eq_iff bit_and_iff bit_mask_bits)

lemma in_network_spec:
  assumes "0 \<le> p" "p \<le> 32"
  shows "ipaddr_ipv4_addrs_in_network a b p =
    Some (\<forall>k. 32 - nat p \<le> k \<and> k < 32 \<longrightarrow> bit (ntoh32 a) k = bit (ntoh32 b) k)"
proof -
  let ?t = "mask_bits (nat p)"
  have "a AND hton32 ?t = b AND hton32 ?t \<longleftrightarrow> ntoh32 (a AND hton32 ?t) = ntoh32 (b AND hton32 ?t)" by simp
  also have "\<dots> \<longleftrightarrow> ntoh32 a AND ?t = ntoh32 b AND ?t"
    by (simp add: ntoh32_AND del: ntoh_eq_iff)
  also have "\<dots> \<longleftrightarrow> (\<forall>k. 32 - nat p \<le> k \<and> k < 32 \<longrightarrow> bit (ntoh32 a) k = bit (ntoh32 b) k)"
    by (rule AND_mask_eq) (use assms in auto)
  finally show ?thesis using assms by (simp add: ipaddr_ipv4_addrs_in_network_def ipaddr_ipv4_mask_from_prefix_def)
qed

section \<open>Properties\<close>

text \<open>
  IPv4 addresses survive the way through text. Parsing a printed address gives the address
  back, parsing a printed address with prefix gives both back, and the printed forms fit the
  \<open>IPADDR_PRINT_MAX\<close> bytes that callers reserve, terminating zero included.
\<close>

theorem ipv4_text_roundtrip:
  assumes "0 \<le> p" "p \<le> 32"
  shows "ipaddr_parse_ipv4_addr (ipaddr_print_addr addr) = Some addr \<and>
    (\<exists>str. ipaddr_print_ifaddr \<lparr>ifa_addr = addr, ifa_prefix = p\<rparr> = Some str \<and>
       ipaddr_parse_ipv4_ifaddr str = Some \<lparr>ifa_addr = addr, ifa_prefix = p\<rparr> \<and> length str + 1 \<le> IPADDR_PRINT_MAX)"
proof -
  let ?str = "ipaddr_print_addr addr @ CHR ''/'' # dec_string (nat p)"
  have "ipaddr_parse_ipv4_ifaddr ?str = Some \<lparr>ifa_addr = addr, ifa_prefix = p\<rparr>"
    using find_slash [OF slash_free] parse_print_addr parse_prefix_text [of "nat p"] assms
    by (simp add: ipaddr_parse_ipv4_ifaddr_def)
  moreover have "length (dec_string (nat p)) \<le> 2" using length_dec_string [of 2 "nat p"] assms by simp
  then have "length ?str + 1 \<le> IPADDR_PRINT_MAX" using length_print_addr [of addr] by (simp add: IPADDR_PRINT_MAX_def)
  ultimately show ?thesis using parse_print_addr assms by (simp add: ipaddr_print_ifaddr_def)
qed

theorem ipv4_text_roundtrip_witness:
  "\<exists>str. ipaddr_print_ifaddr \<lparr>ifa_addr = 0x0100A8C0, ifa_prefix = 24\<rparr> = Some str \<and>
     ipaddr_parse_ipv4_ifaddr str = Some \<lparr>ifa_addr = 0x0100A8C0, ifa_prefix = 24\<rparr>"
  using ipv4_text_roundtrip [of 24 "0x0100A8C0"] by auto

text \<open>
  Masks and prefix lengths. The mask of a prefix length has exactly the leading bits set, a
  mask is recognised with a prefix length exactly when it is the mask of that length, and two
  addresses are in one network exactly when their leading bits agree.
\<close>

theorem ipv4_masks:
  assumes "0 \<le> p" "p \<le> 32"
  shows "(\<exists>m. ipaddr_ipv4_mask_from_prefix p = Some m \<and>
      (\<forall>k. bit (ntoh32 m) k \<longleftrightarrow> 32 - nat p \<le> k \<and> k < 32)) \<and>
    (\<forall>m q. ipaddr_ipv4_prefix_from_mask m = Some q \<longleftrightarrow> ipaddr_ipv4_mask_from_prefix q = Some m) \<and>
    ipaddr_ipv4_addrs_in_network a b p = Some (\<forall>k. 32 - nat p \<le> k \<and> k < 32 \<longrightarrow> bit (ntoh32 a) k = bit (ntoh32 b) k)"
  using assms prefix_from_mask_spec in_network_spec [OF assms, of a b] bit_mask_bits [of "nat p"]
  by (simp add: ipaddr_ipv4_mask_from_prefix_def)

theorem ipv4_masks_witness:
  "\<forall>m q. ipaddr_ipv4_prefix_from_mask m = Some q \<longleftrightarrow> ipaddr_ipv4_mask_from_prefix q = Some m"
  using ipv4_masks [of 24 0 0] by simp

end
