(* ===== verification/Ip6Text.thy ===== *)
theory Ip6Text
  imports IpText
begin

text \<open>
  IPv6 addresses in text and in memory, \<open>misc/ipaddr6.h\<close>: the parser of \<open>tun2socks\<close>' option for the
  interface address, with compression and with an IPv4 ending, the printer, and masks and
  prefix lengths. The results: the parser never reads or writes outside its buffers, on any text;
  parsing inverts printing; the printed text fits the buffers of the callers.
\<close>

section \<open>The parser\<close>

text \<open>
  A result \<open>None\<close> is an access outside a buffer: \<open>read_char\<close> is \<open>name.ptr[i]\<close> and fails behind the end of the text,
  \<open>put_byte\<close> fails behind the end of an array. The first loop ends in one of three ways: the
  function returns 0, the text is used up, or a dot announces an IPv4 ending. The local variables are
  \<open>i\<close>, \<open>num_blocks\<close>, \<open>compress_pos\<close>, \<open>block\<close> and \<open>empty\<close> (here \<open>is_empty\<close>); \<open>out\<close> holds the 16 bytes of \<open>out_addr\<close>.
\<close>

definition read_char :: "string \<Rightarrow> nat \<Rightarrow> char option" where
  "read_char name i = (if i < length name then Some (name ! i) else None)"

definition put_byte :: "nat \<Rightarrow> byte \<Rightarrow> bytes \<Rightarrow> bytes option" where
  "put_byte i b out = (if i < length out then Some (out[i := b]) else None)"

definition put_block :: "nat \<Rightarrow> u16 \<Rightarrow> bytes \<Rightarrow> bytes option" where
  "put_block num_blocks block out =
     do { out \<leftarrow> put_byte (2 * num_blocks) (ucast (drop_bit 8 block)) out;
          put_byte (2 * num_blocks + 1) (ucast (block AND 0xFF)) out }"

datatype parse6 =
    Parse6_Fail
  | Parse6_End nat int u16 bool bytes
  | Parse6_Dot nat nat int bool bytes

function parse6_loop :: "string \<Rightarrow> nat \<Rightarrow> nat \<Rightarrow> int \<Rightarrow> u16 \<Rightarrow> bool \<Rightarrow> bytes \<Rightarrow> parse6 option" where
  "parse6_loop name i num_blocks compress_pos block is_empty out =
     (if \<not> i < length name then Some (Parse6_End num_blocks compress_pos block is_empty out)
      else do {
        c \<leftarrow> read_char name i;
        if c = CHR ''.'' then Some (Parse6_Dot i num_blocks compress_pos is_empty out)
        else if c = CHR '':'' then do {
          is_double \<leftarrow> (if i + 1 < length name then map_option (\<lambda>d. d = CHR '':'') (read_char name (i + 1)) else Some False);
          if i > 0 \<and> (is_empty \<or> num_blocks = 7) then Some Parse6_Fail
          else if \<not> i > 0 \<and> \<not> is_double then Some Parse6_Fail
          else do {
            (num_blocks, block, is_empty, out) \<leftarrow>
              (if i > 0 then map_option (\<lambda>out. (num_blocks + 1, 0, True, out)) (put_block num_blocks block out)
               else Some (num_blocks, block, is_empty, out));
            if is_double \<and> compress_pos \<noteq> -1 then Some Parse6_Fail
            else parse6_loop name (i + 1 + (if is_double then 1 else 0)) num_blocks
                   (if is_double then int num_blocks else compress_pos) block is_empty out } }
        else
          (let digit = decode_hex_digit c
           in if digit < 0 then Some Parse6_Fail
              else if unat block > 65535 div 16 then Some Parse6_Fail
              else let block = block * 16
                   in if digit > 65535 - int (unat block) then Some Parse6_Fail
                      else parse6_loop name (i + 1) num_blocks compress_pos (block + of_int digit) False out) })"
  by pat_completeness auto
termination by (relation "measure (\<lambda>(name, i, num_blocks, compress_pos, block, is_empty, out). length name - i)") auto

declare parse6_loop.simps [simp del]

text \<open>\<open>ipv4_done\<close>: the blocks behind the compressed position move to the end, zeros fill the gap.\<close>

definition parse6_done :: "nat \<Rightarrow> int \<Rightarrow> bytes \<Rightarrow> bytes option option" where
  "parse6_done num_blocks compress_pos out =
     (if compress_pos = -1 \<and> num_blocks \<noteq> 8 then Some None
      else let compress_pos = (if compress_pos = -1 then 0 else compress_pos);
               num_rear = int num_blocks - compress_pos
           in if 0 \<le> compress_pos \<and> 0 \<le> num_rear \<and> num_rear \<le> 8 \<and> 2 * int num_blocks \<le> int (length out) \<and> length out = 16 \<and>
                 0 \<le> 8 - num_rear - compress_pos
              then let out = write_at (nat (2 * (8 - num_rear))) (window (nat (2 * compress_pos)) (nat (2 * num_rear)) out) out
                   in Some (Some (write_at (nat (2 * compress_pos)) (replicate (nat (2 * (8 - num_rear - compress_pos))) 0) out))
              else None)"

text \<open>The IPv4 ending: back to the character after the last colon, then four decimal numbers.\<close>

fun back_to_colon :: "string \<Rightarrow> nat \<Rightarrow> nat option" where
  "back_to_colon name 0 = None"
| "back_to_colon name (Suc i) =
     do { c \<leftarrow> read_char name i; if c \<noteq> CHR '':'' then back_to_colon name i else Some (Suc i) }"

function ending_loop :: "string \<Rightarrow> nat \<Rightarrow> nat \<Rightarrow> byte \<Rightarrow> bool \<Rightarrow> bytes \<Rightarrow> (nat \<times> byte \<times> bool \<times> bytes) option option" where
  "ending_loop name i cur_byte byte is_empty bs =
     (if \<not> i < length name then Some (Some (cur_byte, byte, is_empty, bs))
      else do {
        c \<leftarrow> read_char name i;
        if c = CHR ''.'' then
          (if is_empty \<or> cur_byte = 3 then Some None
           else do { bs \<leftarrow> put_byte cur_byte byte bs; ending_loop name (i + 1) (cur_byte + 1) 0 True bs })
        else if \<not> is_empty \<and> byte = 0 then Some None
        else let digit = decode_decimal_digit c
             in if digit < 0 then Some None
                else if unat byte > 255 div 10 then Some None
                else let byte = byte * 10
                     in if digit > 255 - int (unat byte) then Some None
                        else ending_loop name (i + 1) cur_byte (byte + of_int digit) False bs })"
  by pat_completeness auto
termination by (relation "measure (\<lambda>(name, i, cur_byte, byte, is_empty, bs). length name - i)") auto

declare ending_loop.simps [simp del]

text \<open>\<open>bs0\<close> is the uninitialised array \<open>bytes\<close>.\<close>

definition parse6_ending :: "string \<Rightarrow> bytes \<Rightarrow> nat \<Rightarrow> nat \<Rightarrow> int \<Rightarrow> bool \<Rightarrow> bytes \<Rightarrow> bytes option option" where
  "parse6_ending name bs0 i num_blocks compress_pos is_empty out =
     (if is_empty \<or> (num_blocks = 0 \<and> compress_pos = -1) then Some None
      else do {
        i \<leftarrow> back_to_colon name i;
        r \<leftarrow> ending_loop name i 0 0 True bs0;
        case r of
          None \<Rightarrow> Some None
        | Some (cur_byte, byte, is_empty, bs) \<Rightarrow>
            if cur_byte \<noteq> 3 \<or> is_empty then Some None
            else do {
              bs \<leftarrow> put_byte cur_byte byte bs;
              if 8 - int num_blocks < 2 then Some None
              else if 2 * num_blocks + 4 \<le> length out \<and> length bs = 4
              then parse6_done (num_blocks + 2) compress_pos (write_at (2 * num_blocks) bs out)
              else None } })"

definition ipaddr6_parse_ipv6_addr :: "bytes \<Rightarrow> string \<Rightarrow> bytes \<Rightarrow> bytes option option" where
  "ipaddr6_parse_ipv6_addr bs0 name out =
     do { r \<leftarrow> parse6_loop name 0 0 (-1) 0 True out;
          case r of
            Parse6_Fail \<Rightarrow> Some None
          | Parse6_End num_blocks compress_pos block is_empty out \<Rightarrow>
              (if \<not> is_empty then do { out \<leftarrow> put_block num_blocks block out; parse6_done (num_blocks + 1) compress_pos out }
               else if int num_blocks \<noteq> compress_pos then Some None
               else parse6_done num_blocks compress_pos out)
          | Parse6_Dot i num_blocks compress_pos is_empty out \<Rightarrow> parse6_ending name bs0 i num_blocks compress_pos is_empty out }"

definition ipaddr6_parse_ipv6_prefix :: "string \<Rightarrow> int option" where
  "ipaddr6_parse_ipv6_prefix str =
     (case parse_unsigned_integer str of None \<Rightarrow> None | Some d \<Rightarrow> if d > 128 then None else Some (uint d))"

record ipv6_ifaddr =
  ifa6_addr :: bytes
  ifa6_prefix :: int

definition ipaddr6_parse_ipv6_ifaddr :: "bytes \<Rightarrow> string \<Rightarrow> bytes \<Rightarrow> ipv6_ifaddr option option" where
  "ipaddr6_parse_ipv6_ifaddr bs0 str out =
     (case MemRef_FindChar str CHR ''/'' of
        None \<Rightarrow> Some None
      | Some slash_pos \<Rightarrow>
          do { r \<leftarrow> ipaddr6_parse_ipv6_addr bs0 (take slash_pos str) out;
               Some (case (r, ipaddr6_parse_ipv6_prefix (drop (slash_pos + 1) str)) of
                       (Some addr, Some prefix) \<Rightarrow> Some \<lparr>ifa6_addr = addr, ifa6_prefix = prefix\<rparr>
                     | _ \<Rightarrow> None) })"

section \<open>Masks\<close>

fun byte_mask :: "nat \<Rightarrow> byte" where
  "byte_mask 0 = 0"
| "byte_mask (Suc i) = byte_mask i OR push_bit (8 - i - 1) 1"

definition ipaddr6_ipv6_mask_from_prefix :: "int \<Rightarrow> bytes option" where
  "ipaddr6_ipv6_mask_from_prefix prefix =
     do { ASSERT (0 \<le> prefix); ASSERT (prefix \<le> 128);
          let quot = nat (prefix div 8); let rem = nat (prefix mod 8); let out = replicate quot 0xFF @ replicate (16 - quot) 0;
          if rem = 0 then Some out else put_byte quot (byte_mask rem) out }"

fun byte_prefix_loop :: "byte \<Rightarrow> byte \<Rightarrow> nat \<Rightarrow> nat \<Rightarrow> nat option" where
  "byte_prefix_loop b t j 0 = None"
| "byte_prefix_loop b t j (Suc rounds) =
     (if b = t then Some j else byte_prefix_loop b (if j < 8 then t OR push_bit (8 - j - 1) 1 else t) (j + 1) rounds)"

definition ipaddr6_ipv6_prefix_from_mask :: "bytes \<Rightarrow> int option" where
  "ipaddr6_ipv6_prefix_from_mask netmask =
     (let i = length (takeWhile (\<lambda>b. b = 0xFF) netmask)
      in if \<not> i < 16 then Some (8 * int i)
         else case byte_prefix_loop (netmask ! i) 0 0 9 of
                None \<Rightarrow> None
              | Some j \<Rightarrow> if \<forall>b \<in> set (drop (i + 1) netmask). b = 0 then Some (8 * int i + int j) else None)"

definition ipaddr6_ipv6_ifaddr_from_addr_mask :: "bytes \<Rightarrow> bytes \<Rightarrow> ipv6_ifaddr option" where
  "ipaddr6_ipv6_ifaddr_from_addr_mask addr netmask =
     map_option (\<lambda>prefix. \<lparr>ifa6_addr = addr, ifa6_prefix = prefix\<rparr>) (ipaddr6_ipv6_prefix_from_mask netmask)"

definition ipaddr6_ipv6_addrs_in_network :: "bytes \<Rightarrow> bytes \<Rightarrow> int \<Rightarrow> bool option" where
  "ipaddr6_ipv6_addrs_in_network addr1 addr2 netprefix =
     do { ASSERT (0 \<le> netprefix); ASSERT (netprefix \<le> 128);
          let quot = nat (netprefix div 8); let rem = nat (netprefix mod 8);
          if take quot addr1 \<noteq> take quot addr2 then Some False
          else if rem = 0 then Some True
          else Some (addr1 ! quot AND byte_mask rem = addr2 ! quot AND byte_mask rem) }"

section \<open>Printing\<close>

definition IPADDR6_PRINT_MAX :: nat where
  "IPADDR6_PRINT_MAX = 44"

definition hex_char :: "nat \<Rightarrow> char" where
  "hex_char n = ''0123456789abcdef'' ! n"

fun hex_string :: "nat \<Rightarrow> string" where
  "hex_string n = (if n < 16 then [hex_char n] else hex_string (n div 16) @ [hex_char (n mod 16)])"

declare hex_string.simps [simp del]

definition addr_block :: "bytes \<Rightarrow> nat \<Rightarrow> u16" where
  "addr_block addr i = push_bit 8 (ucast (addr ! (2 * i))) OR ucast (addr ! (2 * i + 1))"

text \<open>One round of the search for the longest run of zero blocks.\<close>

definition zero_run_step :: "bytes \<Rightarrow> nat \<Rightarrow> nat \<times> nat \<times> nat \<times> nat \<Rightarrow> nat \<times> nat \<times> nat \<times> nat" where
  "zero_run_step addr i = (\<lambda>(largest_start, largest_len, current_start, current_len).
     if addr ! (2 * i) = 0 \<and> addr ! (2 * i + 1) = 0
     then let current_len = current_len + 1
          in if current_len > largest_len then (current_start, current_len, current_start, current_len)
             else (largest_start, largest_len, current_start, current_len)
     else (largest_start, largest_len, i + 1, 0))"

definition zero_run :: "bytes \<Rightarrow> nat \<times> nat" where
  "zero_run addr = (case fold (zero_run_step addr) [0..<8] (0, 0, 0, 0) of (ls, ll, _, _) \<Rightarrow> (ls, ll))"

definition ipaddr6_print_addr :: "bytes \<Rightarrow> string" where
  "ipaddr6_print_addr addr =
     (let (largest_start, largest_len) = zero_run addr
      in if largest_len > 1
         then concat (map (\<lambda>i. hex_string (unat (addr_block addr i)) @ '':'') [0..<largest_start]) @
              (if largest_start = 0 then '':'' else '''') @
              concat (map (\<lambda>i. '':'' @ hex_string (unat (addr_block addr i))) [largest_start + largest_len..<8]) @
              (if largest_start + largest_len = 8 then '':'' else '''')
         else concat (map (\<lambda>i. (if i = 0 then '''' else '':'') @ hex_string (unat (addr_block addr i))) [0..<8]))"

definition ipaddr6_print_ifaddr :: "ipv6_ifaddr \<Rightarrow> string option" where
  "ipaddr6_print_ifaddr ifa =
     do { ASSERT (0 \<le> ifa6_prefix ifa); ASSERT (ifa6_prefix ifa \<le> 128);
          Some (ipaddr6_print_addr (ifa6_addr ifa) @ ''/'' @ dec_string (nat (ifa6_prefix ifa))) }"

section \<open>No access outside the buffers\<close>

text \<open>One round of the first loop: both reads are inside the text.\<close>

lemma parse6_loop_step:
  "parse6_loop name i num_blocks compress_pos block is_empty out =
     (if \<not> i < length name then Some (Parse6_End num_blocks compress_pos block is_empty out)
      else if name ! i = CHR ''.'' then Some (Parse6_Dot i num_blocks compress_pos is_empty out)
      else if name ! i = CHR '':'' then
        (let is_double = (i + 1 < length name \<and> name ! (i + 1) = CHR '':'')
         in if i > 0 \<and> (is_empty \<or> num_blocks = 7) then Some Parse6_Fail
            else if \<not> i > 0 \<and> \<not> is_double then Some Parse6_Fail
            else do {
              (num_blocks, block, is_empty, out) \<leftarrow>
                (if i > 0 then map_option (\<lambda>out. (num_blocks + 1, 0, True, out)) (put_block num_blocks block out)
                 else Some (num_blocks, block, is_empty, out));
              if is_double \<and> compress_pos \<noteq> -1 then Some Parse6_Fail
              else parse6_loop name (i + 1 + (if is_double then 1 else 0)) num_blocks
                     (if is_double then int num_blocks else compress_pos) block is_empty out })
      else
        (let digit = decode_hex_digit (name ! i)
         in if digit < 0 then Some Parse6_Fail
            else if unat block > 65535 div 16 then Some Parse6_Fail
            else let block = block * 16
                 in if digit > 65535 - int (unat block) then Some Parse6_Fail
                    else parse6_loop name (i + 1) num_blocks compress_pos (block + of_int digit) False out))"
proof (cases "i < length name")
  case True
  then show ?thesis
    by (subst parse6_loop.simps, cases "i + 1 < length name"; cases "name ! (i + 1) = CHR '':''") (simp_all only: read_char_def Let_def if_True if_False
      simp_thms option.map bind.bind_lunit)
qed (subst parse6_loop.simps, simp)

text \<open>What holds at the head of the first loop.\<close>

definition parse6_inv :: "string \<Rightarrow> nat \<Rightarrow> nat \<Rightarrow> int \<Rightarrow> bytes \<Rightarrow> bool" where
  "parse6_inv name i num_blocks compress_pos out \<longleftrightarrow>
     num_blocks \<le> 7 \<and> length out = 16 \<and> (compress_pos = -1 \<or> 0 \<le> compress_pos \<and> compress_pos \<le> int num_blocks) \<and>
     i \<le> length name \<and> (num_blocks > 0 \<or> compress_pos \<noteq> -1 \<longrightarrow> CHR '':'' \<in> set (take i name))"

text \<open>
  Two runs on buffers that agree in what has been written: the rest of the buffers, which is not
  initialised, has no influence on the result.
\<close>

definition agree :: "nat \<Rightarrow> bytes \<Rightarrow> bytes \<Rightarrow> bool" where
  "agree n xs ys \<longleftrightarrow> take n xs = take n ys \<and> length xs = length ys"

fun parse6_same :: "string \<Rightarrow> parse6 \<Rightarrow> parse6 \<Rightarrow> bool" where
  "parse6_same name Parse6_Fail r \<longleftrightarrow> r = Parse6_Fail"
| "parse6_same name (Parse6_End num_blocks compress_pos block is_empty out) r \<longleftrightarrow>
     parse6_inv name (length name) num_blocks compress_pos out \<and>
     (\<exists>out'. r = Parse6_End num_blocks compress_pos block is_empty out' \<and> agree (2 * num_blocks) out out')"
| "parse6_same name (Parse6_Dot i num_blocks compress_pos is_empty out) r \<longleftrightarrow>
     parse6_inv name i num_blocks compress_pos out \<and>
     (\<exists>out'. r = Parse6_Dot i num_blocks compress_pos is_empty out' \<and> agree (2 * num_blocks) out out')"

lemma agree_update:
  "\<lbrakk>agree n xs ys; n < length xs\<rbrakk> \<Longrightarrow> agree (Suc n) (xs[n := b]) (ys[n := b])"
  by (simp add: agree_def take_Suc_conv_app_nth)

lemma agree_write:
  "\<lbrakk>agree n xs ys; n + length bs \<le> length xs\<rbrakk> \<Longrightarrow> agree (n + length bs) (write_at n bs xs) (write_at n bs ys)"
  by (auto simp: agree_def write_at_def)

lemma put_block_ok:
  assumes "num_blocks \<le> 7" "length out = 16" "agree (2 * num_blocks) out out'"
  shows "\<exists>o1 o2. put_block num_blocks block out = Some o1 \<and> put_block num_blocks block out' = Some o2 \<and>
    length o1 = 16 \<and> agree (2 * Suc num_blocks) o1 o2"
proof -
  have "length out' = 16" using assms by (simp add: agree_def)
  then show ?thesis
    using assms agree_update [OF agree_update [OF assms(3)]] by (simp add: put_block_def put_byte_def)
qed

lemma in_take_Suc: "\<lbrakk>x \<in> set (take i name); i \<le> j\<rbrakk> \<Longrightarrow> x \<in> set (take j name)"
  using set_take_subset_set_take [of i j name] by auto

abbreviation parse6_runs :: "string \<Rightarrow> nat \<Rightarrow> nat \<Rightarrow> int \<Rightarrow> u16 \<Rightarrow> bool \<Rightarrow> bytes \<Rightarrow> bytes \<Rightarrow> bool" where
  "parse6_runs name i num_blocks compress_pos block is_empty out out' \<equiv>
     \<exists>r r'. parse6_loop name i num_blocks compress_pos block is_empty out = Some r \<and>
       parse6_loop name i num_blocks compress_pos block is_empty out' = Some r' \<and> parse6_same name r r'"

lemma parse6_loop_good:
  "\<lbrakk>parse6_inv name i num_blocks compress_pos out; agree (2 * num_blocks) out out'\<rbrakk> \<Longrightarrow>
     parse6_runs name i num_blocks compress_pos block is_empty out out'"
proof (induction "length name - i" arbitrary: i num_blocks compress_pos block is_empty out out' rule: less_induct)
  case less
  note inv = less.prems(1)
  consider (ends) "\<not> i < length name" | (dot) "i < length name" "name ! i = CHR ''.''"
    | (colon) "i < length name" "name ! i = CHR '':''" | (digit) "i < length name" "name ! i \<noteq> CHR ''.''" "name ! i \<noteq> CHR '':''" by blast
  then show ?case
  proof cases
    case ends
    then show ?thesis using less.prems by (subst (1 2) parse6_loop_step) (auto simp: parse6_inv_def)
  next
    case dot
    then show ?thesis using less.prems by (subst (1 2) parse6_loop_step) simp
  next
    case colon
    have c: "CHR '':'' \<in> set (take (Suc i) name)" using colon by (simp add: take_Suc_conv_app_nth)
    have IH: "parse6_runs name j n cp b e o1 o2"
      if "i < j" "j \<le> length name" "n \<le> 7" "length o1 = 16" "cp = -1 \<or> 0 \<le> cp \<and> cp \<le> int n" "agree (2 * n) o1 o2" for j n cp b e o1 o2
      using that colon(1) in_take_Suc [OF c, of j] by (intro less.hyps) (auto simp: parse6_inv_def)
    have n: "num_blocks \<le> 7" "length out = 16" "compress_pos = -1 \<or> 0 \<le> compress_pos \<and> compress_pos \<le> int num_blocks"
      using inv by (auto simp: parse6_inv_def)
    obtain o1 o2 where p: "put_block num_blocks block out = Some o1" "put_block num_blocks block out' = Some o2"
      "length o1 = 16" "agree (2 * Suc num_blocks) o1 o2"
      using put_block_ok [OF n(1,2) less.prems(2), of block] by auto
    have "parse6_runs name (Suc i) (Suc num_blocks) compress_pos 0 True o1 o2" if "num_blocks \<noteq> 7"
      using that n p colon by (intro IH) auto
    moreover have "parse6_runs name (Suc (Suc i)) (Suc num_blocks) (1 + int num_blocks) 0 True o1 o2"
      if "num_blocks \<noteq> 7" "Suc i < length name"
      using that n p colon by (intro IH) auto
    moreover have "parse6_runs name (Suc (Suc i)) num_blocks (int num_blocks) block is_empty out out'" if "Suc i < length name"
      using that n colon less.prems(2) by (intro IH) auto
    ultimately show ?thesis
      using colon p
      by (subst (1 2) parse6_loop_step, cases "i = 0"; cases "Suc i < length name \<and> name ! Suc i = CHR '':''"; cases "is_empty \<or> num_blocks = 7")
        (simp_all add: Let_def, blast)
  next
    case digit
    have "parse6_inv name (i + 1) num_blocks compress_pos out"
      using inv digit(1) in_take_Suc [of _ i name "i + 1"] by (auto simp: parse6_inv_def)
    then have "parse6_runs name (i + 1) num_blocks compress_pos b False out out'" for b
      using digit(1) less.prems(2) by (intro less.hyps) simp_all
    then show ?thesis using digit by (subst (1 2) parse6_loop_step) (simp add: Let_def)
  qed
qed

lemma back_to_colon_ok: "\<lbrakk>CHR '':'' \<in> set (take i name); i \<le> length name\<rbrakk> \<Longrightarrow> \<exists>j. back_to_colon name i = Some j"
  by (induction i) (auto simp: take_Suc_conv_app_nth read_char_def)

lemma ending_loop_ok:
  "\<lbrakk>cur_byte \<le> 3; length bs = 4; agree cur_byte bs bs'\<rbrakk> \<Longrightarrow>
     (ending_loop name i cur_byte byte is_empty bs = Some None \<and> ending_loop name i cur_byte byte is_empty bs' = Some None) \<or>
     (\<exists>c b e b1 b2. ending_loop name i cur_byte byte is_empty bs = Some (Some (c, b, e, b1)) \<and>
        ending_loop name i cur_byte byte is_empty bs' = Some (Some (c, b, e, b2)) \<and> c \<le> 3 \<and> length b1 = 4 \<and> agree c b1 b2)"
proof (induction "length name - i" arbitrary: i cur_byte byte is_empty bs bs' rule: less_induct)
  case less
  have len: "length bs' = 4" using less.prems by (simp add: agree_def)
  show ?case
  proof (cases "i < length name")
    case True
    then show ?thesis
      using len less.prems less.hyps [of "i + 1" "cur_byte + 1" "bs[cur_byte := byte]" "bs'[cur_byte := byte]" 0 True]
        agree_update [OF less.prems(3), of byte] less.hyps [of "i + 1" cur_byte bs bs' _ False]
      by (subst (1 2 3 4) ending_loop.simps, cases "name ! i = CHR ''.''") (simp_all add: read_char_def put_byte_def Let_def)
  qed (use less.prems in \<open>simp add: ending_loop.simps\<close>)
qed

lemma parse6_done_ok:
  assumes "length out = 16" "num_blocks \<le> 8" "compress_pos = -1 \<or> 0 \<le> compress_pos \<and> compress_pos \<le> int num_blocks" "agree (2 * num_blocks) out out'"
  shows "\<exists>r. parse6_done num_blocks compress_pos out = Some r \<and> parse6_done num_blocks compress_pos out' = Some r \<and> (\<forall>a. r = Some a \<longrightarrow> length a = 16)"
proof (cases "compress_pos = -1 \<and> num_blocks \<noteq> 8")
  case False
  define cp where "cp = nat (if compress_pos = -1 then 0 else compress_pos)"
  have cp: "(if compress_pos = -1 then 0 else compress_pos) = int cp" "cp \<le> num_blocks" using assms(3) False by (auto simp: cp_def)
  have len: "length out' = 16" using assms by (simp add: agree_def)
  let ?k = "2 * (num_blocks - cp)" and ?m = "2 * (8 - (num_blocks - cp))"
  have nums: "nat (2 * (8 - (int num_blocks - int cp))) = ?m" "nat (2 * (int num_blocks - int cp)) = ?k" "nat (2 * int cp) = 2 * cp"
    "nat (2 * (8 - (int num_blocks - int cp) - int cp)) = 2 * (8 - num_blocks)" using assms(2) cp(2) by auto
  have eq: "write_at (2 * cp) (replicate (2 * (8 - num_blocks)) 0) (write_at ?m (window (2 * cp) ?k xs) xs) =
      take (2 * cp) xs @ replicate (2 * (8 - num_blocks)) 0 @ window (2 * cp) ?k xs" if "length xs = 16" for xs :: bytes
    using that assms(2) cp(2) by (simp add: write_at_def window_def)
  have "window (2 * cp) ?k out = window (2 * cp) ?k out'" "take (2 * cp) out = take (2 * cp) out'"
    using assms(4) cp(2) by (auto simp: agree_def window_def take_drop dest: arg_cong [of _ _ "take (2 * cp)"] simp flip: distrib_left)
  moreover have "parse6_done num_blocks compress_pos xs = Some (Some (take (2 * cp) xs @ replicate (2 * (8 - num_blocks)) 0 @ window (2 * cp) ?k xs))"
    if "length xs = 16" for xs
    unfolding parse6_done_def Let_def cp(1) nums eq [OF that] using False cp(2) assms(2) that by simp
  ultimately show ?thesis using assms(1,2) len cp(2) by simp
qed (use assms in \<open>simp add: parse6_done_def\<close>)

abbreviation result_ok :: "bytes option option \<Rightarrow> bytes option option \<Rightarrow> bool" where
  "result_ok x y \<equiv> \<exists>r. x = Some r \<and> y = Some r \<and> (\<forall>a. r = Some a \<longrightarrow> length a = 16)"

lemma parse6_ending_ok:
  assumes "parse6_inv name i num_blocks compress_pos out" "length bs0 = 4" "length bs0' = 4" "agree (2 * num_blocks) out out'"
  shows "result_ok (parse6_ending name bs0 i num_blocks compress_pos is_empty out) (parse6_ending name bs0' i num_blocks compress_pos is_empty out')"
proof (cases "is_empty \<or> (num_blocks = 0 \<and> compress_pos = -1)")
  case False
  then obtain j where j: "back_to_colon name i = Some j"
    using assms(1) back_to_colon_ok [of i name] by (auto simp: parse6_inv_def)
  have len: "length out = 16" "length out' = 16" using assms by (auto simp: parse6_inv_def agree_def)
  from ending_loop_ok [of 0 bs0 bs0' name j 0 True] assms(2,3)
  consider "ending_loop name j 0 0 True bs0 = Some None" "ending_loop name j 0 0 True bs0' = Some None"
    | (go) c b e b1 b2 where "ending_loop name j 0 0 True bs0 = Some (Some (c, b, e, b1))"
      "ending_loop name j 0 0 True bs0' = Some (Some (c, b, e, b2))" "c \<le> 3" "length b1 = 4" "agree c b1 b2"
    by (auto simp: agree_def)
  then show ?thesis
  proof cases
    case go
    have b2: "length b2 = 4" using go by (simp add: agree_def)
    have same: "b1[3 := b] = b2[3 := b]" if "c = 3"
      using agree_update [OF go(5), of b] go(4) b2 that by (simp add: agree_def)
    let ?w = "\<lambda>xs. write_at (2 * num_blocks) (b1[3 := b]) xs"
    have "result_ok (parse6_done (num_blocks + 2) compress_pos (?w out)) (parse6_done (num_blocks + 2) compress_pos (?w out'))" if "num_blocks \<le> 6"
    proof (rule parse6_done_ok)
      have eq: "2 * (num_blocks + 2) = 2 * num_blocks + length (b1[3 := b])" using go(4) by simp
      show "agree (2 * (num_blocks + 2)) (?w out) (?w out')"
        unfolding eq by (rule agree_write [OF assms(4)]) (use len that go(4) in simp)
    qed (use that assms(1) len go(4) in \<open>auto simp: parse6_inv_def\<close>)
    then show ?thesis
      using False j go b2 same len by (auto simp: parse6_ending_def put_byte_def)
  qed (use False j in \<open>simp add: parse6_ending_def\<close>)
qed (auto simp: parse6_ending_def)

lemma parse6_addr_ok:
  assumes "length out = 16" "length out' = 16" "length bs0 = 4" "length bs0' = 4"
  shows "result_ok (ipaddr6_parse_ipv6_addr bs0 name out) (ipaddr6_parse_ipv6_addr bs0' name out')"
proof -
  have "parse6_inv name 0 0 (-1) out" "agree (2 * 0) out out'" using assms by (simp_all add: parse6_inv_def agree_def)
  from parse6_loop_good [OF this] obtain r r' where r: "parse6_loop name 0 0 (-1) 0 True out = Some r"
    "parse6_loop name 0 0 (-1) 0 True out' = Some r'" "parse6_same name r r'" by blast
  show ?thesis
  proof (cases r)
    case Parse6_Fail
    then show ?thesis using r by (simp add: ipaddr6_parse_ipv6_addr_def)
  next
    case (Parse6_End nb cp block e o1)
    then obtain o1' where r': "r' = Parse6_End nb cp block e o1'" "agree (2 * nb) o1 o1'" and inv: "parse6_inv name (length name) nb cp o1"
      using r(3) by auto
    have n: "nb \<le> 7" "length o1 = 16" "cp = -1 \<or> 0 \<le> cp \<and> cp \<le> int nb" using inv by (auto simp: parse6_inv_def)
    obtain p p' where "put_block nb block o1 = Some p" "put_block nb block o1' = Some p'" "length p = 16" "agree (2 * Suc nb) p p'"
      using put_block_ok [OF n(1,2) r'(2), of block] by auto
    moreover from this have "result_ok (parse6_done (Suc nb) cp p) (parse6_done (Suc nb) cp p')" using n by (intro parse6_done_ok) auto
    moreover have "result_ok (parse6_done nb cp o1) (parse6_done nb cp o1')" using n r'(2) by (intro parse6_done_ok) auto
    ultimately show ?thesis using r(1,2) Parse6_End r'(1) by (simp add: ipaddr6_parse_ipv6_addr_def)
  next
    case (Parse6_Dot i nb cp e o1)
    then show ?thesis
      using r parse6_ending_ok [OF _ assms(3,4), of name i nb cp o1 _ e] by (auto simp: ipaddr6_parse_ipv6_addr_def)
  qed
qed

section \<open>Parsing what is printed\<close>

definition block_bytes :: "u16 list \<Rightarrow> bytes" where
  "block_bytes bs = concat (map (\<lambda>b. [ucast (drop_bit 8 b), ucast (b AND 0xFF)]) bs)"

lemma block_bytes_simps [simp]:
  "block_bytes [] = []" "block_bytes (b # bs) = ucast (drop_bit 8 b) # ucast (b AND 0xFF) # block_bytes bs"
  "block_bytes (as @ bs) = block_bytes as @ block_bytes bs" "length (block_bytes bs) = 2 * length bs"
  by (simp_all add: block_bytes_def length_concat comp_def sum_list_triv)

lemma put_block_next:
  "put_block (length bs) b (block_bytes bs @ r1 # r2 # rs) = Some (block_bytes (bs @ [b]) @ rs)"
  by (simp add: put_block_def put_byte_def list_update_append nth_append)

lemma hex_char_facts:
  assumes "n < 16"
  shows "decode_hex_digit (hex_char n) = int n" "hex_char n \<noteq> CHR ''.''" "hex_char n \<noteq> CHR '':''" "hex_char n \<noteq> CHR ''/''"
proof -
  have "n \<in> set [0..<16]" using assms by simp
  then have "decode_hex_digit (hex_char n) = int n \<and> hex_char n \<noteq> CHR ''.'' \<and> hex_char n \<noteq> CHR '':'' \<and> hex_char n \<noteq> CHR ''/''"
    by (simp add: upt_rec, elim disjE) (simp_all add: hex_char_def decode_hex_digit_def)
  then show "decode_hex_digit (hex_char n) = int n" "hex_char n \<noteq> CHR ''.''" "hex_char n \<noteq> CHR '':''" "hex_char n \<noteq> CHR ''/''" by simp_all
qed

lemma hex_string_chars: "c \<in> set (hex_string n) \<Longrightarrow> \<exists>k < 16. c = hex_char k"
proof (induction n rule: hex_string.induct)
  case (1 n)
  then show ?case by (subst (asm) (2) hex_string.simps) (auto split: if_splits intro: exI [of _ "n mod 16"])
qed

lemma hex_string_not_Nil [simp]: "hex_string n \<noteq> []"
  by (subst hex_string.simps) simp

lemma hex_string_length: "n < 16 ^ Suc k \<Longrightarrow> length (hex_string n) \<le> Suc k"
proof (induction k arbitrary: n)
  case 0
  then show ?case by (subst hex_string.simps) simp
next
  case (Suc k)
  then have "length (hex_string (n div 16)) \<le> Suc k" by (intro Suc.IH) (auto simp: less_mult_imp_div_less)
  then show ?case by (subst hex_string.simps) simp
qed

text \<open>A hexadecimal digit extends the current block.\<close>

lemma parse6_digit:
  assumes "i < length name" "name ! i = hex_char d" "d < 16" "n * 16 + d < 65536"
  shows "parse6_loop name i nb cp (of_nat n) e out = parse6_loop name (i + 1) nb cp (of_nat (n * 16 + d)) False out"
proof -
  have "of_nat n * 16 = (of_nat (n * 16) :: u16)" by simp
  then have n: "unat (of_nat n :: u16) = n" "unat (of_nat n * 16 :: u16) = n * 16"
    using assms(4) unat_of_nat [of n, where 'a = 16] unat_of_nat [of "n * 16", where 'a = 16] by (simp_all del: of_nat_mult)
  show ?thesis
    using assms hex_char_facts [OF assms(3)] n arg_cong [OF n(2), of int] by (subst parse6_loop_step) (simp add: Let_def)
qed

lemma parse6_hex:
  "\<lbrakk>name = pre @ hex_string n @ suf; n < 65536\<rbrakk> \<Longrightarrow>
     parse6_loop name (length pre) nb cp 0 True out = parse6_loop name (length pre + length (hex_string n)) nb cp (of_nat n) False out"
proof (induction n arbitrary: suf rule: hex_string.induct)
  case (1 n)
  show ?case
  proof (cases "n < 16")
    case True
    then have h: "hex_string n = [hex_char n]" by (subst hex_string.simps) simp
    then have c: "name ! length pre = hex_char n" "length pre < length name" using "1.prems"(1) by simp_all
    show ?thesis using parse6_digit [OF c(2,1) True, of 0 nb cp True out] True unfolding h by simp
  next
    case False
    let ?h = "hex_string (n div 16)"
    have h: "hex_string n = ?h @ [hex_char (n mod 16)]" using False by (subst hex_string.simps) simp
    have "name = pre @ ?h @ (hex_char (n mod 16) # suf)" using "1.prems"(1) h by simp
    from "1.IH" [OF False this] "1.prems"(2)
    have IH: "parse6_loop name (length pre) nb cp 0 True out = parse6_loop name (length pre + length ?h) nb cp (of_nat (n div 16)) False out" by simp
    have c: "name ! (length pre + length ?h) = hex_char (n mod 16)" "length pre + length ?h < length name"
      using "1.prems"(1) h by (simp_all add: nth_append)
    show ?thesis
      unfolding IH h using parse6_digit [OF c(2,1), of "n div 16" nb cp False out] "1.prems"(2) by simp
  qed
qed

text \<open>A colon ends a block; two colons mark the place of the zeros.\<close>

lemma parse6_colon:
  assumes "i < length name" "name ! i = CHR '':''" "0 < i" "i + 1 < length name \<longrightarrow> name ! (i + 1) \<noteq> CHR '':''" "length bs < 7"
  shows "parse6_loop name i (length bs) cp b False (block_bytes bs @ r1 # r2 # rs) =
    parse6_loop name (i + 1) (length (bs @ [b])) cp 0 True (block_bytes (bs @ [b]) @ rs)"
  using assms by (subst parse6_loop_step, cases "i + 1 < length name") (simp_all add: put_block_next Let_def)

lemma parse6_double_colon:
  assumes "i + 1 < length name" "name ! i = CHR '':''" "0 < i" "name ! (i + 1) = CHR '':''" "length bs < 7"
  shows "parse6_loop name i (length bs) (-1) b False (block_bytes bs @ r1 # r2 # rs) =
    parse6_loop name (i + 2) (length (bs @ [b])) (int (length (bs @ [b]))) 0 True (block_bytes (bs @ [b]) @ rs)"
  using assms by (subst parse6_loop_step) (simp add: put_block_next Let_def)

abbreviation block_text :: "u16 \<Rightarrow> string" where
  "block_text b \<equiv> hex_string (unat b)"

lemma parse6_block:
  assumes "name = pre @ block_text b @ suf"
  shows "parse6_loop name (length pre) nb cp 0 True out = parse6_loop name (length pre + length (block_text b)) nb cp b False out"
  using parse6_hex [OF assms] unsigned_less [of b, where 'a = nat] by simp

lemma block_text_head: "hd (block_text b @ suf) \<noteq> CHR '':''"
  using hex_string_chars [of "hd (block_text b)" "unat b"] hex_char_facts(3) by (metis hd_append2 hd_in_set hex_string_not_Nil)

text \<open>The blocks in front of the zeros, with the two colons behind them.\<close>

lemma parse6_front:
  assumes "name = pre @ concat (map (\<lambda>b. block_text b @ '':'') as) @ '':'' @ suf" "as \<noteq> []" "length bs + length as \<le> 7" "length rs = 16 - 2 * length bs"
  shows "parse6_loop name (length pre) (length bs) (-1) 0 True (block_bytes bs @ rs) =
    parse6_loop name (length name - length suf) (length (bs @ as)) (int (length (bs @ as))) 0 True (block_bytes (bs @ as) @ drop (2 * length as) rs)"
  using assms
proof (induction as arbitrary: pre bs rs)
  case (Cons a as)
  obtain r1 r2 rs' where rs: "rs = r1 # r2 # rs'" using Cons.prems(3,4) by (cases rs; cases "tl rs") auto
  let ?pre = "pre @ block_text a" and ?rest = "concat (map (\<lambda>b. block_text b @ '':'') as) @ '':'' @ suf"
  have name: "name = ?pre @ '':'' @ ?rest" using Cons.prems(1) by simp
  then have at: "name ! length ?pre = CHR '':''" "length ?pre < length name" "0 < length ?pre" by (simp_all add: nth_append)
  have step: "parse6_loop name (length pre) (length bs) (-1) 0 True (block_bytes bs @ rs) = parse6_loop name (length ?pre) (length bs) (-1) a False (block_bytes bs @ rs)"
    using parse6_block [of name pre a] name by simp
  show ?case
  proof (cases "as = []")
    case True
    then have "name ! (length ?pre + 1) = CHR '':''" "length ?pre + 1 < length name" using name by (simp_all add: nth_append)
    then show ?thesis
      unfolding step unfolding rs using parse6_double_colon [OF _ at(1,3), of bs a r1 r2 rs'] Cons.prems(3) True name by simp
  next
    case False
    then have "name ! (length ?pre + 1) \<noteq> CHR '':''"
      using name block_text_head by (cases as) (auto simp: nth_append hd_conv_nth)
    then have "parse6_loop name (length ?pre) (length bs) (-1) a False (block_bytes bs @ rs) =
        parse6_loop name (length (?pre @ '':'')) (length (bs @ [a])) (-1) 0 True (block_bytes (bs @ [a]) @ rs')"
      unfolding rs using parse6_colon [OF at(2,1,3), of bs "-1" a r1 r2 rs'] Cons.prems(3) False by (cases as) simp_all
    also have "\<dots> = parse6_loop name (length name - length suf) (length ((bs @ [a]) @ as)) (int (length ((bs @ [a]) @ as))) 0 True
        (block_bytes ((bs @ [a]) @ as) @ drop (2 * length as) rs')"
      using Cons.prems(3,4) False name rs by (intro Cons.IH) simp_all
    finally show ?thesis unfolding step by (simp add: rs)
  qed
qed simp

text \<open>The last blocks, separated by colons.\<close>

lemma parse6_last:
  assumes "name = pre @ block_text b @ concat (map (\<lambda>b. '':'' @ block_text b) cs)" "length bs + length cs \<le> 7" "length rs = 16 - 2 * length bs"
  shows "parse6_loop name (length pre) (length bs) cp 0 True (block_bytes bs @ rs) =
    Some (Parse6_End (length (bs @ cs)) cp (last (b # cs)) False (block_bytes (bs @ butlast (b # cs)) @ drop (2 * length cs) rs))"
  using assms
proof (induction cs arbitrary: pre b bs rs)
  case Nil
  then have "parse6_loop name (length name) (length bs) cp b False (block_bytes bs @ rs) = Some (Parse6_End (length bs) cp b False (block_bytes bs @ rs))"
    by (subst parse6_loop_step) simp
  then show ?case using parse6_block [of name pre b "[]"] Nil.prems(1) by simp
next
  case (Cons c cs)
  obtain r1 r2 rs' where rs: "rs = r1 # r2 # rs'" using Cons.prems(2,3) by (cases rs; cases "tl rs") auto
  let ?pre = "pre @ block_text b" and ?rest = "block_text c @ concat (map (\<lambda>b. '':'' @ block_text b) cs)"
  have name: "name = ?pre @ '':'' @ ?rest" using Cons.prems(1) by simp
  then have at: "name ! length ?pre = CHR '':''" "length ?pre < length name" "0 < length ?pre" by (simp_all add: nth_append)
  have step: "parse6_loop name (length pre) (length bs) cp 0 True (block_bytes bs @ rs) = parse6_loop name (length ?pre) (length bs) cp b False (block_bytes bs @ rs)"
    using parse6_block [of name pre b] name by simp
  have "name ! (length ?pre + 1) \<noteq> CHR '':''"
    using name block_text_head [of c "concat (map (\<lambda>b. '':'' @ block_text b) cs)"] by (simp add: nth_append hd_conv_nth split: if_splits)
  then have "parse6_loop name (length ?pre) (length bs) cp b False (block_bytes bs @ rs) =
      parse6_loop name (length (?pre @ '':'')) (length (bs @ [b])) cp 0 True (block_bytes (bs @ [b]) @ rs')"
    unfolding rs using parse6_colon [OF at(2,1,3), of bs cp b r1 r2 rs'] Cons.prems(2) by simp
  also have "\<dots> = Some (Parse6_End (length ((bs @ [b]) @ cs)) cp (last (c # cs)) False
      (block_bytes ((bs @ [b]) @ butlast (c # cs)) @ drop (2 * length cs) rs'))"
    using Cons.prems(2,3) name rs by (intro Cons.IH) simp_all
  finally show ?case unfolding step by (simp add: rs)
qed

lemma parse6_done_gap:
  assumes "length as + length cs \<le> 8" "length rs = 16 - 2 * (length as + length cs)"
  shows "parse6_done (length (as @ cs)) (int (length as)) (block_bytes (as @ cs) @ rs) =
    Some (Some (block_bytes (as @ replicate (8 - (length as + length cs)) 0 @ cs)))"
proof -
  have "block_bytes (replicate n 0) = replicate (2 * n) 0" for n by (induction n) simp_all
  moreover have "window (2 * length as) (2 * length cs) (block_bytes (as @ cs) @ rs) = block_bytes cs" by (simp add: window_def)
  moreover have "2 * (8 - (length as + length cs)) = 16 - 2 * length cs - 2 * length as" by simp
  ultimately show ?thesis
    using assms by (simp add: parse6_done_def Let_def write_at_def nat_diff_distrib nat_mult_distrib nat_add_distrib)
qed

lemma parse6_full:
  assumes "length bs = 8" "bs = b # cs" "length out = 16"
  shows "ipaddr6_parse_ipv6_addr bs0 (block_text b @ concat (map (\<lambda>b. '':'' @ block_text b) cs)) out = Some (Some (block_bytes bs))"
proof -
  let ?name = "block_text b @ concat (map (\<lambda>b. '':'' @ block_text b) cs)"
  have cs: "length cs = 7" using assms by simp
  have "length (drop 14 out) = 2" using assms by simp
  then obtain r1 r2 where r: "drop 14 out = [r1, r2]" using list_length_2 by blast
  have bl: "length (butlast bs) = 7" "butlast bs @ [last bs] = bs" using assms by auto
  have loop: "parse6_loop ?name 0 0 (-1) 0 True out = Some (Parse6_End 7 (-1) (last bs) False (block_bytes (butlast bs) @ [r1, r2]))"
    using parse6_last [of ?name "[]" b cs "[]" out "-1"] cs assms r by simp
  have put: "put_block 7 (last bs) (block_bytes (butlast bs) @ [r1, r2]) = Some (block_bytes bs)"
    using put_block_next [of "butlast bs" "last bs" r1 r2 "[]"] bl by simp
  have fin: "parse6_done 8 (-1) (block_bytes bs) = Some (Some (block_bytes bs))"
    using assms(1) by (simp add: parse6_done_def Let_def write_at_def window_def)
  show ?thesis using loop put fin by (simp add: ipaddr6_parse_ipv6_addr_def)
qed

lemma parse6_compressed:
  assumes "length as + length cs \<le> 7" "length out = 16"
  shows "ipaddr6_parse_ipv6_addr bs0
      (concat (map (\<lambda>b. block_text b @ '':'') as) @ (if as = [] then '':'' else '''') @
       concat (map (\<lambda>b. '':'' @ block_text b) cs) @ (if cs = [] then '':'' else '''')) out =
    Some (Some (block_bytes (as @ replicate (8 - (length as + length cs)) 0 @ cs)))"
    (is "ipaddr6_parse_ipv6_addr bs0 ?name out = _")
proof -
  define front where "front = concat (map (\<lambda>b. block_text b @ '':'') as) @ (if as = [] then '':'' else '''') @ '':''"
  define tl_text where "tl_text = (case cs of [] \<Rightarrow> '''' | c # cs' \<Rightarrow> block_text c @ concat (map (\<lambda>b. '':'' @ block_text b) cs'))"
  have name: "?name = front @ tl_text" by (cases cs) (simp_all add: front_def tl_text_def)
  have head: "parse6_loop ?name 0 0 (-1) 0 True out =
      parse6_loop ?name (length front) (length as) (int (length as)) 0 True (block_bytes as @ drop (2 * length as) out)"
  proof (cases "as = []")
    case True
    then show ?thesis unfolding name by (subst parse6_loop_step) (simp add: front_def Let_def)
  next
    case False
    then show ?thesis unfolding name using parse6_front [of "front @ tl_text" "[]" as tl_text "[]" out] assms by (simp add: front_def)
  qed
  show ?thesis
  proof (cases cs)
    case Nil
    have "parse6_loop ?name (length front) (length as) (int (length as)) 0 True (block_bytes as @ drop (2 * length as) out) =
        Some (Parse6_End (length as) (int (length as)) 0 True (block_bytes as @ drop (2 * length as) out))"
      unfolding name using Nil by (subst parse6_loop_step) (simp add: tl_text_def)
    then show ?thesis
      using head parse6_done_gap [of as "[]" "drop (2 * length as) out"] assms Nil by (simp add: ipaddr6_parse_ipv6_addr_def)
  next
    case (Cons c cs')
    let ?rs = "drop (2 * length cs') (drop (2 * length as) out)"
    have loop: "parse6_loop ?name (length front) (length as) (int (length as)) 0 True (block_bytes as @ drop (2 * length as) out) =
        Some (Parse6_End (length (as @ cs')) (int (length as)) (last cs) False (block_bytes (as @ butlast cs) @ ?rs))"
      unfolding name using parse6_last [of "front @ tl_text" front c cs' as "drop (2 * length as) out" "int (length as)"] Cons assms by (simp add: tl_text_def)
    have "2 \<le> length ?rs" using assms Cons by simp
    then obtain r1 r2 rs where r: "?rs = r1 # r2 # rs" by (cases ?rs; cases "tl ?rs") auto
    have len: "length rs = 16 - 2 * (length as + length cs)" using arg_cong [OF r, of length] assms Cons by simp
    have cs: "butlast cs @ [last cs] = cs" "length (as @ butlast cs) = length (as @ cs')" using Cons by auto
    have "put_block (length (as @ cs')) (last cs) (block_bytes (as @ butlast cs) @ ?rs) = Some (block_bytes (as @ cs) @ rs)"
      unfolding r cs(2) [symmetric] put_block_next append_assoc cs(1) ..
    then show ?thesis
      using head loop parse6_done_gap [of as cs rs] len assms Cons by (simp add: ipaddr6_parse_ipv6_addr_def)
  qed
qed

section \<open>Printing\<close>

lemma addr_block_bytes:
  "ucast (drop_bit 8 (push_bit 8 (ucast a) OR ucast b :: u16)) = (a :: byte)"
  "ucast ((push_bit 8 (ucast a) OR ucast b :: u16) AND 0xFF) = (b :: byte)"
proof -
  have ff: "(0xFF :: u16) = mask 8" by (simp add: mask_eq_exp_minus_1)
  show "ucast ((push_bit 8 (ucast a) OR ucast b :: u16) AND 0xFF) = b"
    unfolding ff by (rule bit_word_eqI) (auto simp: bit_simps)
  show "ucast (drop_bit 8 (push_bit 8 (ucast a) OR ucast b :: u16)) = a"
    by (rule bit_word_eqI) (auto simp: bit_simps dest: bit_imp_le_length)
qed

lemma block_bytes_addr: "length addr = 2 * n \<Longrightarrow> block_bytes (map (addr_block addr) [0..<n]) = addr"
proof (induction n arbitrary: addr)
  case (Suc n)
  then obtain a b rest where addr: "addr = a # b # rest" "length rest = 2 * n" by (cases addr; cases "tl addr") auto
  have "addr_block addr (Suc i) = addr_block rest i" for i by (simp add: addr_block_def addr)
  then have "map (addr_block addr) [0..<Suc n] = addr_block addr 0 # map (addr_block rest) [0..<n]"
    by (simp add: upt_conv_Cons map_Suc_upt [symmetric] del: upt_Suc)
  moreover have "addr_block addr 0 = push_bit 8 (ucast a) OR ucast b" by (simp add: addr_block_def addr)
  ultimately show ?case using Suc.IH [OF addr(2)] addr_block_bytes [of a b] addr(1) by (simp del: upt_Suc drop_bit_or)
qed simp

definition zero_blocks :: "bytes \<Rightarrow> nat \<Rightarrow> nat \<Rightarrow> bool" where
  "zero_blocks addr start len \<longleftrightarrow> (\<forall>i. start \<le> i \<and> i < start + len \<longrightarrow> addr_block addr i = 0)"

fun zero_run_ok :: "bytes \<Rightarrow> nat \<Rightarrow> nat \<times> nat \<times> nat \<times> nat \<Rightarrow> bool" where
  "zero_run_ok addr n (ls, ll, cs, cl) \<longleftrightarrow> ls + ll \<le> n \<and> zero_blocks addr ls ll \<and> cs + cl = n \<and> zero_blocks addr cs cl"

lemma zero_run_step_ok: "zero_run_ok addr n t \<Longrightarrow> zero_run_ok addr (Suc n) (zero_run_step addr n t)"
proof (cases t)
  case (fields ls ll cs cl)
  assume t: "zero_run_ok addr n t"
  show ?thesis
  proof (cases "addr ! (2 * n) = 0 \<and> addr ! (2 * n + 1) = 0")
    case True
    then have "addr_block addr n = 0" by (simp add: addr_block_def)
    then have "zero_blocks addr cs (Suc cl)" using t fields by (auto simp: zero_blocks_def less_Suc_eq)
    then show ?thesis using True t fields by (simp add: zero_run_step_def Let_def)
  next
    case False
    then show ?thesis using t fields by (auto simp: zero_run_step_def zero_blocks_def)
  qed
qed

lemma zero_run_facts:
  assumes "zero_run addr = (start, len)"
  shows "start + len \<le> 8" "zero_blocks addr start len"
proof -
  have "zero_run_ok addr n (fold (zero_run_step addr) [0..<n] (0, 0, 0, 0))" for n
    by (induction n) (simp_all add: zero_run_step_ok, simp add: zero_blocks_def)
  from this [of 8] show "start + len \<le> 8" "zero_blocks addr start len"
    using assms by (auto simp: zero_run_def simp del: upt_rec_numeral split: prod.splits)
qed

lemma addr_around_run:
  assumes "length addr = 16" "start + len \<le> 8" "zero_blocks addr start len"
  shows "block_bytes (map (addr_block addr) [0..<start] @ replicate len 0 @ map (addr_block addr) [start + len..<8]) = addr"
proof -
  have "map (addr_block addr) [start..<start + len] = replicate len 0"
    using assms(3) by (intro nth_equalityI) (auto simp: zero_blocks_def)
  moreover have "[0..<8] = [0..<start] @ [start..<start + len] @ [start + len..<8]"
    using upt_add_eq_append [of 0 start "8 - start"] upt_add_eq_append [of start "start + len" "8 - start - len"] assms(2) by simp
  ultimately show ?thesis using block_bytes_addr [of addr 8] assms(1) by (simp del: upt_rec_numeral block_bytes_simps)
qed

lemma print_addr6_full:
  "\<lbrakk>zero_run addr = (start, len); \<not> len > 1\<rbrakk> \<Longrightarrow>
     ipaddr6_print_addr addr = block_text (addr_block addr 0) @ concat (map (\<lambda>b. '':'' @ block_text b) (map (addr_block addr) [1..<8]))"
  by (simp add: ipaddr6_print_addr_def upt_rec)

lemma parse_print_addr6:
  assumes "length addr = 16" "length out = 16"
  shows "ipaddr6_parse_ipv6_addr bs0 (ipaddr6_print_addr addr) out = Some (Some addr)"
proof -
  obtain start len where run: "zero_run addr = (start, len)" by (cases "zero_run addr")
  note z = zero_run_facts [OF run]
  show ?thesis
  proof (cases "len > 1")
    case True
    let ?as = "map (addr_block addr) [0..<start]" and ?cs = "map (addr_block addr) [start + len..<8]"
    have "8 - (length ?as + length ?cs) = len" "length ?as + length ?cs \<le> 7" using z(1) True by simp_all
    moreover have "ipaddr6_print_addr addr = concat (map (\<lambda>b. block_text b @ '':'') ?as) @ (if ?as = [] then '':'' else '''') @
       concat (map (\<lambda>b. '':'' @ block_text b) ?cs) @ (if ?cs = [] then '':'' else '''')"
      using run True z(1) by (auto simp: ipaddr6_print_addr_def comp_def simp del: upt_rec_numeral)
    ultimately show ?thesis
      using parse6_compressed [of ?as ?cs out bs0] assms(2) addr_around_run [OF assms(1) z] by (simp del: upt_rec_numeral block_bytes_simps)
  next
    case False
    let ?bs = "map (addr_block addr) [0..<8]"
    have eq: "?bs = addr_block addr 0 # map (addr_block addr) [1..<8]" by (simp add: upt_conv_Cons)
    show ?thesis
      using print_addr6_full [OF run False] parse6_full [OF _ eq assms(2), of bs0] block_bytes_addr [of addr 8] assms(1) by (simp del: upt_rec_numeral block_bytes_simps)
  qed
qed

lemma block_text_length: "length (block_text b) \<le> 4"
  using hex_string_length [of "unat b" 3] unsigned_less [of b, where 'a = nat] by simp

lemma concat_length_le: "(\<And>x. x \<in> set xs \<Longrightarrow> length (f x) \<le> k) \<Longrightarrow> length (concat (map f xs)) \<le> k * length xs"
  by (induction xs) (auto simp: add_mono)

lemma length_print_addr6: "length (ipaddr6_print_addr addr) \<le> 39"
proof -
  obtain start len where run: "zero_run addr = (start, len)" by (cases "zero_run addr")
  note z = zero_run_facts(1) [OF run]
  show ?thesis
  proof (cases "len > 1")
    case True
    have "length (concat (map (\<lambda>i. block_text (addr_block addr i) @ '':'') [0..<start])) \<le> 5 * start"
      using concat_length_le [of "[0..<start]" "\<lambda>i. block_text (addr_block addr i) @ '':''" 5] block_text_length by simp
    moreover have "length (concat (map (\<lambda>i. '':'' @ block_text (addr_block addr i)) [start + len..<8])) \<le> 5 * (8 - (start + len))"
      using concat_length_le [of "[start + len..<8]" "\<lambda>i. '':'' @ block_text (addr_block addr i)" 5] block_text_length by simp
    ultimately show ?thesis using run True z by (auto simp: ipaddr6_print_addr_def simp del: upt_rec_numeral)
  next
    case False
    have "length (concat (map (\<lambda>b. '':'' @ block_text b) (map (addr_block addr) [1..<8]))) \<le> 5 * length (map (addr_block addr) [1..<8])"
      using block_text_length by (intro concat_length_le) simp
    then show ?thesis using print_addr6_full [OF run False] block_text_length [of "addr_block addr 0"] by (simp del: upt_rec_numeral)
  qed
qed

lemma slash_free6: "CHR ''/'' \<notin> set (ipaddr6_print_addr addr)"
proof -
  have "CHR ''/'' \<notin> set (block_text b)" for b using hex_string_chars [of _ "unat b"] hex_char_facts(4) by metis
  then show ?thesis by (auto simp: ipaddr6_print_addr_def split: prod.splits if_splits)
qed

lemma parse_prefix6_text: "n \<le> 128 \<Longrightarrow> ipaddr6_parse_ipv6_prefix (dec_string n) = Some (int n)"
  using parse_dec_string [of n] by (simp add: ipaddr6_parse_ipv6_prefix_def word_less_nat_alt unat_of_nat uint_nat)

section \<open>Masks and prefix lengths\<close>

lemma byte_masks:
  "list_all (\<lambda>n. (byte_mask n = 0xFF) = (n = 8) \<and> byte_prefix_loop (byte_mask n) 0 0 9 = Some n) [0..<9]"
  by code_simp

lemma byte_mask_facts:
  assumes "n \<le> 8"
  shows "byte_mask n = 0xFF \<longleftrightarrow> n = 8" "byte_prefix_loop (byte_mask n) 0 0 9 = Some n"
proof -
  have "n \<in> set [0..<9]" using assms by simp
  with byte_masks show "byte_mask n = 0xFF \<longleftrightarrow> n = 8" "byte_prefix_loop (byte_mask n) 0 0 9 = Some n"
    unfolding list_all_iff by blast+
qed

text \<open>The mask of a prefix length is recognised as that of this length.\<close>

lemma mask6_roundtrip:
  assumes "0 \<le> p" "p \<le> 128"
  shows "\<exists>m. ipaddr6_ipv6_mask_from_prefix p = Some m \<and> length m = 16 \<and> ipaddr6_ipv6_prefix_from_mask m = Some p"
proof (cases "p = 128")
  case True
  then show ?thesis by (simp add: ipaddr6_ipv6_mask_from_prefix_def ipaddr6_ipv6_prefix_from_mask_def)
next
  case False
  define q r where "q = nat (p div 8)" and "r = nat (p mod 8)"
  have qr: "p = 8 * int q + int r" "q < 16" "r < 8" using assms False by (auto simp: q_def r_def)
  let ?m = "replicate q 0xFF @ byte_mask r # replicate (15 - q) 0"
  have "16 - q = Suc (15 - q)" using qr(2) by simp
  then have "replicate (16 - q) (0 :: byte) = 0 # replicate (15 - q) 0" by (simp only: replicate_Suc)
  then have "ipaddr6_ipv6_mask_from_prefix p = Some ?m"
    using assms qr(2) by (simp add: ipaddr6_ipv6_mask_from_prefix_def put_byte_def list_update_append Let_def q_def [symmetric] r_def [symmetric])
  moreover have "takeWhile (\<lambda>b. b = 0xFF) ?m = replicate q 0xFF"
    using byte_mask_facts(1) [of r] qr(3) by (simp add: takeWhile_append)
  then have "ipaddr6_ipv6_prefix_from_mask ?m = Some p"
    using qr byte_mask_facts(2) [of r] by (simp add: ipaddr6_ipv6_prefix_from_mask_def Let_def nth_append)
  ultimately show ?thesis using qr(2) by simp
qed

section \<open>Properties\<close>

text \<open>
  C27. The IPv6 parser is safe on every text: it ends, it accesses nothing outside the text, the
  address and its local array, and what it returns does not depend on what the memory of the two
  buffers held before. When it accepts, all 16 bytes of the address are determined.
\<close>

theorem ipv6_parser_safe:
  assumes "length out = 16" "length out' = 16" "length bs0 = 4" "length bs0' = 4"
  shows "\<exists>r. ipaddr6_parse_ipv6_addr bs0 name out = Some r \<and> ipaddr6_parse_ipv6_addr bs0' name out' = Some r \<and>
    (\<forall>a. r = Some a \<longrightarrow> length a = 16)"
  by (rule parse6_addr_ok [OF assms])

theorem ipv6_parser_safe_witness:
  "\<exists>r. ipaddr6_parse_ipv6_addr [0, 0, 0, 0] ''1::2.3.4'' (replicate 16 0) = Some r \<and>
     ipaddr6_parse_ipv6_addr [9, 9, 9, 9] ''1::2.3.4'' (replicate 16 7) = Some r \<and> (\<forall>a. r = Some a \<longrightarrow> length a = 16)"
  by (rule ipv6_parser_safe) simp_all

text \<open>
  C26. IPv6 addresses in text. Parsing what \<open>ipaddr6_print_addr\<close> printed gives the address back, and
  the same for interface addresses, whose text with its terminating zero fits
  \<open>IPADDR6_PRINT_MAX\<close>. The mask of a prefix length is recognised as that of this length.
\<close>

theorem ipv6_text_roundtrip:
  assumes "length addr = 16" "0 \<le> p" "p \<le> 128" "length out = 16"
  shows "ipaddr6_parse_ipv6_addr bs0 (ipaddr6_print_addr addr) out = Some (Some addr) \<and>
    (\<exists>str. ipaddr6_print_ifaddr \<lparr>ifa6_addr = addr, ifa6_prefix = p\<rparr> = Some str \<and> length str + 1 \<le> IPADDR6_PRINT_MAX \<and>
       ipaddr6_parse_ipv6_ifaddr bs0 str out = Some (Some \<lparr>ifa6_addr = addr, ifa6_prefix = p\<rparr>)) \<and>
    (\<exists>m. ipaddr6_ipv6_mask_from_prefix p = Some m \<and>
       ipaddr6_ipv6_ifaddr_from_addr_mask addr m = Some \<lparr>ifa6_addr = addr, ifa6_prefix = p\<rparr>)"
proof -
  let ?str = "ipaddr6_print_addr addr @ CHR ''/'' # dec_string (nat p)"
  note addr = parse_print_addr6 [OF assms(1,4), of bs0]
  have "ipaddr6_parse_ipv6_ifaddr bs0 ?str out = Some (Some \<lparr>ifa6_addr = addr, ifa6_prefix = p\<rparr>)"
    using find_slash [OF slash_free6 [of addr]] addr parse_prefix6_text [of "nat p"] assms by (simp add: ipaddr6_parse_ipv6_ifaddr_def)
  moreover have "length (dec_string (nat p)) \<le> 3" using length_dec_string [of 3 "nat p"] assms by simp
  then have "length ?str + 1 \<le> IPADDR6_PRINT_MAX" using length_print_addr6 [of addr] by (simp add: IPADDR6_PRINT_MAX_def)
  ultimately show ?thesis
    using addr assms(2,3) mask6_roundtrip [OF assms(2,3)] by (auto simp: ipaddr6_print_ifaddr_def ipaddr6_ipv6_ifaddr_from_addr_mask_def)
qed

theorem ipv6_text_roundtrip_witness:
  "ipaddr6_parse_ipv6_addr [0, 0, 0, 0] (ipaddr6_print_addr ([0, 171, 0, 0, 0, 0, 0, 0, 0, 0, 0, 0, 0, 0, 0, 1])) (replicate 16 0) = Some (Some ([0, 171, 0, 0, 0, 0, 0, 0, 0, 0, 0, 0, 0, 0, 0, 1])) \<and>
   ipaddr6_print_addr ([0, 171, 0, 0, 0, 0, 0, 0, 0, 0, 0, 0, 0, 0, 0, 1]) = ''ab::1''"
proof -
  have "ipaddr6_print_addr ([0, 171, 0, 0, 0, 0, 0, 0, 0, 0, 0, 0, 0, 0, 0, 1]) = ''ab::1''" by code_simp
  then show ?thesis using ipv6_text_roundtrip [of "[0, 171, 0, 0, 0, 0, 0, 0, 0, 0, 0, 0, 0, 0, 0, 1]" 64 "replicate 16 0" "[0, 0, 0, 0]"] by simp
qed

end
