(* ===== verification/SocksClient.thy ===== *)
theory SocksClient
  imports Addr
begin

text \<open>
  The SOCKS5 client of \<open>socksclient/BSocksClient.c\<close>: greeting, optional username/password
  authentication and the CONNECT request, driven by completion handlers. The connector, the
  connection and the interfaces are the calls that the handlers make; \<open>realloc\<close> is a
  parameter. The theory shows that the client reports the connection as up only after a
  complete and valid exchange for the requested destination, for every way the server's
  bytes are split into reads, that it stays within its buffer, and that it releases every
  resource exactly once.
\<close>

section \<open>Constants and data\<close>

definition SOCKS_VERSION :: byte where "SOCKS_VERSION = 5"
definition SOCKS_METHOD_NO_AUTHENTICATION_REQUIRED :: byte where "SOCKS_METHOD_NO_AUTHENTICATION_REQUIRED = 0"
definition SOCKS_METHOD_USERNAME_PASSWORD :: byte where "SOCKS_METHOD_USERNAME_PASSWORD = 2"
definition SOCKS_CMD_CONNECT :: byte where "SOCKS_CMD_CONNECT = 1"
definition SOCKS_ATYP_IPV4 :: byte where "SOCKS_ATYP_IPV4 = 1"
definition SOCKS_ATYP_IPV6 :: byte where "SOCKS_ATYP_IPV6 = 4"
definition SOCKS_REP_SUCCEEDED :: byte where "SOCKS_REP_SUCCEEDED = 0"

lemmas socks_consts = SOCKS_VERSION_def SOCKS_METHOD_NO_AUTHENTICATION_REQUIRED_def
  SOCKS_METHOD_USERNAME_PASSWORD_def SOCKS_CMD_CONNECT_def SOCKS_ATYP_IPV4_def SOCKS_ATYP_IPV6_def
  SOCKS_REP_SUCCEEDED_def

datatype BSocksClient_event = BSOCKSCLIENT_EVENT_ERROR | BSOCKSCLIENT_EVENT_UP | BSOCKSCLIENT_EVENT_ERROR_CLOSED

datatype BConnection_event = BCONNECTION_EVENT_ERROR | BCONNECTION_EVENT_RECVCLOSED

datatype BSocksClient_auth_info = BSocksClient_auth_none | BSocksClient_auth_password bytes bytes

fun auth_type :: "BSocksClient_auth_info \<Rightarrow> byte" where
  "auth_type BSocksClient_auth_none = SOCKS_METHOD_NO_AUTHENTICATION_REQUIRED"
| "auth_type (BSocksClient_auth_password username password) = SOCKS_METHOD_USERNAME_PASSWORD"

datatype BSocksClient_state =
    STATE_CONNECTING | STATE_SENDING_HELLO | STATE_SENT_HELLO | STATE_SENDING_PASSWORD
  | STATE_SENT_PASSWORD | STATE_SENDING_REQUEST | STATE_SENT_REQUEST
  | STATE_RECEIVED_REPLY_HEADER | STATE_UP

record BSocksClient =
  sc_auth_info :: "BSocksClient_auth_info list"
  sc_dest_addr :: BAddr
  sc_state :: BSocksClient_state
  sc_buffer :: "bytes option"
  sc_recv_dest :: nat
  sc_recv_len :: nat
  sc_recv_total :: nat

text \<open>The calls the client makes on the objects it is built on.\<close>

datatype BSocksClient_call =
    SC_BConnector_Init | SC_BConnector_Free
  | SC_BConnection_Init | SC_BConnection_Free
  | SC_RecvAsync_Init | SC_RecvAsync_Free
  | SC_SendAsync_Init | SC_SendAsync_Free
  | SC_Sender_Init | SC_Sender_Free
  | SC_Send bytes
  | SC_Recv nat nat
  | SC_handler BSocksClient_event

type_synonym sc_result = "BSocksClient \<times> BSocksClient_call list"

text \<open>\<open>realloc old n\<close>: the contents of the resized block, \<open>None\<close> when there is no memory.\<close>

type_synonym realloc_fn = "bytes option \<Rightarrow> nat \<Rightarrow> bytes option"

section \<open>Helpers\<close>

definition sc_report_error :: "BSocksClient \<Rightarrow> BSocksClient_event \<Rightarrow> sc_result" where
  "sc_report_error c error = (c, [SC_handler error])"

definition init_control_io :: "BSocksClient_call list" where
  "init_control_io = [SC_RecvAsync_Init, SC_SendAsync_Init, SC_Sender_Init]"

definition free_control_io :: "BSocksClient_call list" where
  "free_control_io = [SC_Sender_Free, SC_SendAsync_Free, SC_RecvAsync_Free]"

definition init_up_io :: "BSocksClient_call list" where
  "init_up_io = [SC_RecvAsync_Init, SC_SendAsync_Init]"

definition free_up_io :: "BSocksClient_call list" where
  "free_up_io = [SC_SendAsync_Free, SC_RecvAsync_Free]"

definition BRealloc :: "realloc_fn \<Rightarrow> realloc_fn" where
  "BRealloc realloc m n = (if n = 0 then realloc m 1 else realloc m n)"

definition reserve_buffer :: "realloc_fn \<Rightarrow> BSocksClient \<Rightarrow> bsize_t \<Rightarrow> BSocksClient option" where
  "reserve_buffer realloc c sz =
     (if is_overflow sz then None
      else case BRealloc realloc (sc_buffer c) (bsize_value sz) of
        None \<Rightarrow> None
      | Some buffer \<Rightarrow> Some (c\<lparr>sc_buffer := Some buffer\<rparr>))"

definition do_receive :: "BSocksClient \<Rightarrow> sc_result" where
  "do_receive c = (c, [SC_Recv (sc_recv_dest c + sc_recv_len c) (sc_recv_total c - sc_recv_len c)])"

definition start_receive :: "BSocksClient \<Rightarrow> nat \<Rightarrow> nat \<Rightarrow> sc_result" where
  "start_receive c dest tot =
     do_receive (c\<lparr>sc_recv_dest := dest, sc_recv_len := 0, sc_recv_total := tot\<rparr>)"

text \<open>\<open>buffer_write off src o\<close>: \<open>memcpy(o->buffer + off, src, \<dots>)\<close>.\<close>

definition buffer_write :: "nat \<Rightarrow> bytes \<Rightarrow> BSocksClient \<Rightarrow> BSocksClient" where
  "buffer_write off bs c = c\<lparr>sc_buffer := Some (write_at off bs (the (sc_buffer c)))\<rparr>"

definition buffer_send :: "nat \<Rightarrow> BSocksClient \<Rightarrow> BSocksClient_call" where
  "buffer_send n c = SC_Send (take n (the (sc_buffer c)))"

section \<open>Handlers\<close>

fun write_methods :: "nat \<Rightarrow> BSocksClient_auth_info list \<Rightarrow> BSocksClient \<Rightarrow> BSocksClient" where
  "write_methods i [] c = c"
| "write_methods i (ai # ais) c = write_methods (i + 1) ais (buffer_write (2 + i) [auth_type ai] c)"

definition sc_connector_handler :: "realloc_fn \<Rightarrow> bool \<Rightarrow> BSocksClient \<Rightarrow> bool \<Rightarrow> sc_result" where
  "sc_connector_handler realloc con_ok c is_error =
     (let num = length (sc_auth_info c);
          sz = bsize_add (bsize_fromsize 2) (bsize_mul (bsize_fromsize num) (bsize_fromsize 1));
          fail0 = (\<lambda>calls. (c, calls @ [SC_handler BSOCKSCLIENT_EVENT_ERROR]));
          up = SC_BConnection_Init # init_control_io;
          fail1 = fail0 (up @ free_control_io @ [SC_BConnection_Free])
      in if is_error then fail0 []
         else if \<not> con_ok then fail0 []
         else if num = 0 \<or> num > 255 then fail1
         else case reserve_buffer realloc c sz of
           None \<Rightarrow> fail1
         | Some o1 \<Rightarrow>
             (let o2 = write_methods 0 (sc_auth_info c) (buffer_write 0 [SOCKS_VERSION, of_nat num] o1)
              in (o2\<lparr>sc_state := STATE_SENDING_HELLO\<rparr>, up @ [buffer_send (bsize_value sz) o2])))"

definition sc_connection_handler :: "BSocksClient \<Rightarrow> BConnection_event \<Rightarrow> sc_result" where
  "sc_connection_handler c event =
     (if sc_state c = STATE_UP \<and> event = BCONNECTION_EVENT_RECVCLOSED
      then sc_report_error c BSOCKSCLIENT_EVENT_ERROR_CLOSED
      else sc_report_error c BSOCKSCLIENT_EVENT_ERROR)"

fun socks_addr :: "BAddr \<Rightarrow> bytes" where
  "socks_addr (BAddr_IPv4 ip port) = mem32 ip @ mem16 port"
| "socks_addr (BAddr_IPv6 ip port) = ip @ mem16 port"
| "socks_addr BAddr_None = []"

fun socks_atyp :: "BAddr \<Rightarrow> byte" where
  "socks_atyp (BAddr_IPv4 ip port) = SOCKS_ATYP_IPV4"
| "socks_atyp (BAddr_IPv6 ip port) = SOCKS_ATYP_IPV6"
| "socks_atyp BAddr_None = 0"

definition auth_finished :: "realloc_fn \<Rightarrow> BSocksClient \<Rightarrow> sc_result" where
  "auth_finished realloc c =
     (let size0 = bsize_fromsize 4;
          sz = (case sc_dest_addr c of
                    BAddr_IPv4 _ _ \<Rightarrow> bsize_add size0 (bsize_fromsize 6)
                  | BAddr_IPv6 _ _ \<Rightarrow> bsize_add size0 (bsize_fromsize 18)
                  | BAddr_None \<Rightarrow> size0)
      in case reserve_buffer realloc c sz of
           None \<Rightarrow> sc_report_error c BSOCKSCLIENT_EVENT_ERROR
         | Some o1 \<Rightarrow>
             (let o2 = buffer_write 4 (socks_addr (sc_dest_addr c)) o1;
                  o3 = buffer_write 0 [SOCKS_VERSION, SOCKS_CMD_CONNECT, 0, socks_atyp (sc_dest_addr c)] o2
              in (o3\<lparr>sc_state := STATE_SENDING_REQUEST\<rparr>, [buffer_send (bsize_value sz) o3])))"

fun find_auth :: "byte \<Rightarrow> BSocksClient_auth_info list \<Rightarrow> BSocksClient_auth_info option" where
  "find_auth m [] = None"
| "find_auth m (ai # ais) = (if auth_type ai = m then Some ai else find_auth m ais)"

definition received_hello :: "realloc_fn \<Rightarrow> BSocksClient \<Rightarrow> sc_result" where
  "received_hello realloc c =
     (let imsg = take 2 (the (sc_buffer c));
          fail = sc_report_error c BSOCKSCLIENT_EVENT_ERROR
      in if imsg ! 0 \<noteq> SOCKS_VERSION then fail
         else case find_auth (imsg ! 1) (sc_auth_info c) of
           None \<Rightarrow> fail
         | Some BSocksClient_auth_none \<Rightarrow> auth_finished realloc c
         | Some (BSocksClient_auth_password username password) \<Rightarrow>
             if length username = 0 \<or> length username > 255 \<or> length password = 0 \<or> length password > 255
             then fail
             else (let sz = bsize_fromsize (1 + 1 + length username + 1 + length password)
                   in case reserve_buffer realloc c sz of
                        None \<Rightarrow> fail
                      | Some o1 \<Rightarrow>
                          (let o2 = buffer_write 0 [1, of_nat (length username)] o1;
                               o3 = buffer_write 2 username o2;
                               o4 = buffer_write (2 + length username) [of_nat (length password)] o3;
                               o5 = buffer_write (3 + length username) password o4
                           in (o5\<lparr>sc_state := STATE_SENDING_PASSWORD\<rparr>, [buffer_send (bsize_value sz) o5]))))"

definition received_reply_header :: "BSocksClient \<Rightarrow> sc_result" where
  "received_reply_header c =
     (let imsg = take 4 (the (sc_buffer c));
          fail = sc_report_error c BSOCKSCLIENT_EVENT_ERROR;
          rest = (\<lambda>addr_len. let (o1, calls) = start_receive c 4 addr_len
                             in (o1\<lparr>sc_state := STATE_RECEIVED_REPLY_HEADER\<rparr>, calls))
      in if imsg ! 0 \<noteq> SOCKS_VERSION then fail
         else if imsg ! 1 \<noteq> SOCKS_REP_SUCCEEDED then fail
         else if imsg ! 3 = SOCKS_ATYP_IPV4 then rest 6
         else if imsg ! 3 = SOCKS_ATYP_IPV6 then rest 18
         else fail)"

definition received_password_reply :: "realloc_fn \<Rightarrow> BSocksClient \<Rightarrow> sc_result" where
  "received_password_reply realloc c =
     (if the (sc_buffer c) ! 0 \<noteq> 1 then sc_report_error c BSOCKSCLIENT_EVENT_ERROR
      else if the (sc_buffer c) ! 1 \<noteq> 0 then sc_report_error c BSOCKSCLIENT_EVENT_ERROR
      else auth_finished realloc c)"

definition received_reply_rest :: "BSocksClient \<Rightarrow> sc_result" where
  "received_reply_rest c =
     (c\<lparr>sc_buffer := None, sc_state := STATE_UP\<rparr>,
      free_control_io @ init_up_io @ [SC_handler BSOCKSCLIENT_EVENT_UP])"

definition sc_recv_handler_done :: "realloc_fn \<Rightarrow> BSocksClient \<Rightarrow> nat \<Rightarrow> sc_result" where
  "sc_recv_handler_done realloc o0 data_len =
     (let c = o0\<lparr>sc_recv_len := sc_recv_len o0 + data_len\<rparr>
      in if sc_recv_len c < sc_recv_total c then do_receive c
         else case sc_state c of
           STATE_SENT_HELLO \<Rightarrow> received_hello realloc c
         | STATE_SENT_REQUEST \<Rightarrow> received_reply_header c
         | STATE_SENT_PASSWORD \<Rightarrow> received_password_reply realloc c
         | STATE_RECEIVED_REPLY_HEADER \<Rightarrow> received_reply_rest c
         | _ \<Rightarrow> (c, []))"

text \<open>The three cases of \<open>send_handler_done\<close> differ in the buffer size, the amount to receive and the next state.\<close>

definition sent_receive :: "realloc_fn \<Rightarrow> BSocksClient \<Rightarrow> bsize_t \<Rightarrow> nat \<Rightarrow> BSocksClient_state \<Rightarrow> sc_result" where
  "sent_receive realloc c sz tot next =
     (case reserve_buffer realloc c sz of
        None \<Rightarrow> sc_report_error c BSOCKSCLIENT_EVENT_ERROR
      | Some o1 \<Rightarrow> (let (o2, calls) = start_receive o1 0 tot in (o2\<lparr>sc_state := next\<rparr>, calls)))"

definition sc_send_handler_done :: "realloc_fn \<Rightarrow> BSocksClient \<Rightarrow> sc_result" where
  "sc_send_handler_done realloc c =
     (case sc_state c of
        STATE_SENDING_HELLO \<Rightarrow>
          (let sz = bsize_fromsize 2 in sent_receive realloc c sz (bsize_value sz) STATE_SENT_HELLO)
      | STATE_SENDING_REQUEST \<Rightarrow>
          (let sz = bsize_add (bsize_fromsize 4) (bsize_max (bsize_fromsize 6) (bsize_fromsize 18))
           in sent_receive realloc c sz 4 STATE_SENT_REQUEST)
      | STATE_SENDING_PASSWORD \<Rightarrow>
          (let sz = bsize_fromsize 2 in sent_receive realloc c sz (bsize_value sz) STATE_SENT_PASSWORD)
      | _ \<Rightarrow> (c, []))"

definition BSocksClient_Init :: "bool \<Rightarrow> BSocksClient_auth_info list \<Rightarrow> BAddr \<Rightarrow> sc_result option" where
  "BSocksClient_Init connector_ok auth_info dest_addr =
     (if \<not> connector_ok then None
      else Some (\<lparr>sc_auth_info = auth_info, sc_dest_addr = dest_addr, sc_state = STATE_CONNECTING, sc_buffer = None,
                  sc_recv_dest = 0, sc_recv_len = 0, sc_recv_total = 0\<rparr>, [SC_BConnector_Init]))"

definition BSocksClient_Free :: "BSocksClient \<Rightarrow> sc_result" where
  "BSocksClient_Free c =
     (c\<lparr>sc_buffer := None\<rparr>,
      (if sc_state c \<noteq> STATE_CONNECTING
       then (if sc_state c = STATE_UP then free_up_io else free_control_io) @ [SC_BConnection_Free]
       else []) @ [SC_BConnector_Free])"

section \<open>The messages\<close>

definition hello_msg :: "BSocksClient_auth_info list \<Rightarrow> bytes" where
  "hello_msg ais = [SOCKS_VERSION, of_nat (length ais)] @ map auth_type ais"

fun auth_msg :: "BSocksClient_auth_info \<Rightarrow> bytes" where
  "auth_msg BSocksClient_auth_none = []"
| "auth_msg (BSocksClient_auth_password u p) = [1, of_nat (length u)] @ u @ [of_nat (length p)] @ p"

definition request_msg :: "BAddr \<Rightarrow> bytes" where
  "request_msg a = [SOCKS_VERSION, SOCKS_CMD_CONNECT, 0, socks_atyp a] @ socks_addr a"

fun auth_usable :: "BSocksClient_auth_info \<Rightarrow> bool" where
  "auth_usable BSocksClient_auth_none = True"
| "auth_usable (BSocksClient_auth_password u p) = (0 < length u \<and> length u \<le> 255 \<and> 0 < length p \<and> length p \<le> 255)"

fun auth_reply :: "BSocksClient_auth_info \<Rightarrow> bytes" where
  "auth_reply BSocksClient_auth_none = []"
| "auth_reply (BSocksClient_auth_password u p) = [1, 0]"

fun addr_reply_len :: "byte \<Rightarrow> nat option" where
  "addr_reply_len atyp = (if atyp = SOCKS_ATYP_IPV4 then Some 6 else if atyp = SOCKS_ATYP_IPV6 then Some 18 else None)"

text \<open>
  \<open>server_accepts ais ai bs\<close>: the bytes \<open>bs\<close> are a complete positive answer of the server, which
  picked the authentication \<open>ai\<close> out of those offered.
\<close>

definition server_accepts :: "BSocksClient_auth_info list \<Rightarrow> BSocksClient_auth_info \<Rightarrow> bytes \<Rightarrow> bool" where
  "server_accepts ais ai bs \<longleftrightarrow> find_auth (auth_type ai) ais = Some ai \<and> auth_usable ai \<and>
     (\<exists>rsv atyp addr. addr_reply_len atyp = Some (length addr) \<and>
        bs = [SOCKS_VERSION, auth_type ai] @ auth_reply ai @ [SOCKS_VERSION, SOCKS_REP_SUCCEEDED, rsv, atyp] @ addr)"

section \<open>The client and its environment\<close>

record sc_resources =
  r_connector :: bool
  r_con :: bool
  r_recv :: bool
  r_send :: bool
  r_sender :: bool

record sc_system =
  s_c :: BSocksClient
  s_res :: sc_resources
  s_send :: "bytes option"
  s_recv :: "(nat \<times> nat) option"
  s_sent :: bytes
  s_got :: bytes
  s_events :: "BSocksClient_event list"

text \<open>
  A call that its object does not permit (an initialised object initialised again, a freed one
  freed again, a second operation while one is in progress, a receive that does not fit the
  buffer) has no result.
\<close>

fun sc_call :: "BSocksClient_call \<Rightarrow> sc_system \<Rightarrow> sc_system option" where
  "sc_call SC_BConnector_Init s =
     (if r_connector (s_res s) then None else Some (s\<lparr>s_res := (s_res s)\<lparr>r_connector := True\<rparr>\<rparr>))"
| "sc_call SC_BConnector_Free s =
     (if \<not> r_connector (s_res s) then None else Some (s\<lparr>s_res := (s_res s)\<lparr>r_connector := False\<rparr>\<rparr>))"
| "sc_call SC_BConnection_Init s =
     (if r_con (s_res s) then None else Some (s\<lparr>s_res := (s_res s)\<lparr>r_con := True\<rparr>\<rparr>))"
| "sc_call SC_BConnection_Free s =
     (if \<not> r_con (s_res s) \<or> r_recv (s_res s) \<or> r_send (s_res s) then None
      else Some (s\<lparr>s_res := (s_res s)\<lparr>r_con := False\<rparr>\<rparr>))"
| "sc_call SC_RecvAsync_Init s =
     (if \<not> r_con (s_res s) \<or> r_recv (s_res s) then None else Some (s\<lparr>s_res := (s_res s)\<lparr>r_recv := True\<rparr>\<rparr>))"
| "sc_call SC_RecvAsync_Free s =
     (if \<not> r_recv (s_res s) then None else Some (s\<lparr>s_res := (s_res s)\<lparr>r_recv := False\<rparr>, s_recv := None\<rparr>))"
| "sc_call SC_SendAsync_Init s =
     (if \<not> r_con (s_res s) \<or> r_send (s_res s) then None else Some (s\<lparr>s_res := (s_res s)\<lparr>r_send := True\<rparr>\<rparr>))"
| "sc_call SC_SendAsync_Free s =
     (if \<not> r_send (s_res s) \<or> r_sender (s_res s) then None else Some (s\<lparr>s_res := (s_res s)\<lparr>r_send := False\<rparr>\<rparr>))"
| "sc_call SC_Sender_Init s =
     (if \<not> r_send (s_res s) \<or> r_sender (s_res s) then None else Some (s\<lparr>s_res := (s_res s)\<lparr>r_sender := True\<rparr>\<rparr>))"
| "sc_call SC_Sender_Free s =
     (if \<not> r_sender (s_res s) then None else Some (s\<lparr>s_res := (s_res s)\<lparr>r_sender := False\<rparr>, s_send := None\<rparr>))"
| "sc_call (SC_Send bs) s =
     (if \<not> r_sender (s_res s) \<or> s_send s \<noteq> None then None else Some (s\<lparr>s_send := Some bs\<rparr>))"
| "sc_call (SC_Recv off n) s =
     (if \<not> r_recv (s_res s) \<or> s_recv s \<noteq> None \<or> n = 0 then None
      else case sc_buffer (s_c s) of None \<Rightarrow> None
        | Some b \<Rightarrow> if length b < off + n then None else Some (s\<lparr>s_recv := Some (off, n)\<rparr>))"
| "sc_call (SC_handler e) s = Some (s\<lparr>s_events := s_events s @ [e]\<rparr>)"

fun sc_calls :: "BSocksClient_call list \<Rightarrow> sc_system \<Rightarrow> sc_system option" where
  "sc_calls [] s = Some s"
| "sc_calls (x # xs) s = (case sc_call x s of None \<Rightarrow> None | Some s' \<Rightarrow> sc_calls xs s')"

definition sc_run :: "sc_result \<Rightarrow> sc_system \<Rightarrow> sc_system option" where
  "sc_run r s = sc_calls (snd r) (s\<lparr>s_c := fst r\<rparr>)"

definition sc_initial :: "BSocksClient_auth_info list \<Rightarrow> BAddr \<Rightarrow> sc_system option" where
  "sc_initial ais dest =
     (case BSocksClient_Init True ais dest of None \<Rightarrow> None
      | Some r \<Rightarrow> sc_run r \<lparr>s_c = fst r, s_res = \<lparr>r_connector = False, r_con = False, r_recv = False, r_send = False, r_sender = False\<rparr>,
          s_send = None, s_recv = None, s_sent = [], s_got = [], s_events = []\<rparr>)"

text \<open>What the environment does: the connection attempt ends, a send completes, data arrives, the connection breaks.\<close>

definition ev_connect :: "realloc_fn \<Rightarrow> bool \<Rightarrow> bool \<Rightarrow> sc_system \<Rightarrow> sc_system option" where
  "ev_connect realloc con_ok is_error s = sc_run (sc_connector_handler realloc con_ok (s_c s) is_error) s"

definition ev_sent :: "realloc_fn \<Rightarrow> sc_system \<Rightarrow> sc_system option" where
  "ev_sent realloc s =
     sc_run (sc_send_handler_done realloc (s_c s)) (s\<lparr>s_send := None, s_sent := s_sent s @ the (s_send s)\<rparr>)"

definition ev_data :: "realloc_fn \<Rightarrow> bytes \<Rightarrow> sc_system \<Rightarrow> sc_system option" where
  "ev_data realloc bs s =
     sc_run (sc_recv_handler_done realloc (buffer_write (fst (the (s_recv s))) bs (s_c s)) (length bs))
       (s\<lparr>s_recv := None, s_got := s_got s @ bs\<rparr>)"

definition ev_broken :: "BConnection_event \<Rightarrow> sc_system \<Rightarrow> sc_system option" where
  "ev_broken e s = sc_run (sc_connection_handler (s_c s) e) s"

definition realloc_ok :: "realloc_fn \<Rightarrow> bool" where
  "realloc_ok realloc \<longleftrightarrow> (\<forall>m n b. realloc m n = Some b \<longrightarrow> length b = n)"

definition realloc_total :: "realloc_fn \<Rightarrow> bool" where
  "realloc_total realloc \<longleftrightarrow> (\<forall>m n. realloc m n \<noteq> None)"

definition sc_alive :: "sc_system \<Rightarrow> bool" where
  "sc_alive s \<longleftrightarrow> BSOCKSCLIENT_EVENT_ERROR \<notin> set (s_events s) \<and> BSOCKSCLIENT_EVENT_ERROR_CLOSED \<notin> set (s_events s)"

inductive sc_reach :: "sc_system \<Rightarrow> sc_system \<Rightarrow> bool" for s0 where
  sc_start: "sc_reach s0 s0"
| sc_connect: "\<lbrakk>sc_reach s0 s; sc_alive s; sc_state (s_c s) = STATE_CONNECTING; realloc_ok realloc;
    ev_connect realloc con_ok is_error s = Some s'\<rbrakk> \<Longrightarrow> sc_reach s0 s'"
| sc_sent: "\<lbrakk>sc_reach s0 s; sc_alive s; s_send s \<noteq> None; realloc_ok realloc; ev_sent realloc s = Some s'\<rbrakk> \<Longrightarrow> sc_reach s0 s'"
| sc_data: "\<lbrakk>sc_reach s0 s; sc_alive s; s_recv s = Some (off, n); bs \<noteq> []; length bs \<le> n; realloc_ok realloc;
    ev_data realloc bs s = Some s'\<rbrakk> \<Longrightarrow> sc_reach s0 s'"
| sc_broken: "\<lbrakk>sc_reach s0 s; sc_alive s; sc_state (s_c s) \<noteq> STATE_CONNECTING; ev_broken e s = Some s'\<rbrakk> \<Longrightarrow> sc_reach s0 s'"

section \<open>The invariant\<close>

fun res_of :: "BSocksClient_state \<Rightarrow> sc_resources" where
  "res_of STATE_CONNECTING = \<lparr>r_connector = True, r_con = False, r_recv = False, r_send = False, r_sender = False\<rparr>"
| "res_of STATE_UP = \<lparr>r_connector = True, r_con = True, r_recv = True, r_send = True, r_sender = False\<rparr>"
| "res_of _ = \<lparr>r_connector = True, r_con = True, r_recv = True, r_send = True, r_sender = True\<rparr>"

text \<open>A receive of \<open>tot\<close> bytes at \<open>dest\<close> of a buffer of \<open>size\<close> bytes, \<open>got\<close> the bytes that arrived so far.\<close>

definition receiving :: "sc_system \<Rightarrow> nat \<Rightarrow> nat \<Rightarrow> nat \<Rightarrow> bytes \<Rightarrow> bool" where
  "receiving s dest tot sz got \<longleftrightarrow>
     (\<exists>b. sc_buffer (s_c s) = Some b \<and> length b = sz \<and> dest + tot \<le> sz \<and>
        sc_recv_dest (s_c s) = dest \<and> sc_recv_total (s_c s) = tot \<and> sc_recv_len (s_c s) < tot \<and>
        s_send s = None \<and> s_recv s = Some (dest + sc_recv_len (s_c s), tot - sc_recv_len (s_c s)) \<and>
        got = window dest (sc_recv_len (s_c s)) b)"

definition sending :: "sc_system \<Rightarrow> bytes \<Rightarrow> bool" where
  "sending s bs \<longleftrightarrow> s_send s = Some bs \<and> s_recv s = None \<and> sc_buffer (s_c s) \<noteq> None"

text \<open>The authentication \<open>ai\<close> was agreed on and passed.\<close>

definition authed :: "BSocksClient_auth_info list \<Rightarrow> BSocksClient_auth_info \<Rightarrow> bytes \<Rightarrow> bytes \<Rightarrow> bool" where
  "authed ais ai sent got \<longleftrightarrow> find_auth (auth_type ai) ais = Some ai \<and> auth_usable ai \<and>
     sent = hello_msg ais @ auth_msg ai \<and> got = [SOCKS_VERSION, auth_type ai] @ auth_reply ai"

definition sc_progress :: "BSocksClient_auth_info list \<Rightarrow> BAddr \<Rightarrow> sc_system \<Rightarrow> bool" where
  "sc_progress ais dest s \<longleftrightarrow>
     (case sc_state (s_c s) of
        STATE_CONNECTING \<Rightarrow> s_send s = None \<and> s_recv s = None \<and> s_sent s = [] \<and> s_got s = [] \<and> sc_buffer (s_c s) = None
      | STATE_SENDING_HELLO \<Rightarrow> sending s (hello_msg ais) \<and> s_sent s = [] \<and> s_got s = []
      | STATE_SENT_HELLO \<Rightarrow> receiving s 0 2 2 (s_got s) \<and> s_sent s = hello_msg ais
      | STATE_SENDING_PASSWORD \<Rightarrow> (\<exists>u p. let ai = BSocksClient_auth_password u p in
          find_auth (auth_type ai) ais = Some ai \<and> auth_usable ai \<and> sending s (auth_msg ai) \<and>
          s_sent s = hello_msg ais \<and> s_got s = [SOCKS_VERSION, auth_type ai])
      | STATE_SENT_PASSWORD \<Rightarrow> (\<exists>u p got. let ai = BSocksClient_auth_password u p in
          find_auth (auth_type ai) ais = Some ai \<and> auth_usable ai \<and> receiving s 0 2 2 got \<and>
          s_sent s = hello_msg ais @ auth_msg ai \<and> s_got s = [SOCKS_VERSION, auth_type ai] @ got)
      | STATE_SENDING_REQUEST \<Rightarrow> (\<exists>ai. authed ais ai (s_sent s) (s_got s)) \<and> sending s (request_msg dest)
      | STATE_SENT_REQUEST \<Rightarrow> (\<exists>ai sent got0 got. authed ais ai sent got0 \<and> receiving s 0 4 22 got \<and>
          s_sent s = sent @ request_msg dest \<and> s_got s = got0 @ got)
      | STATE_RECEIVED_REPLY_HEADER \<Rightarrow> (\<exists>ai sent got0 rsv atyp tot got. authed ais ai sent got0 \<and>
          addr_reply_len atyp = Some tot \<and> receiving s 4 tot 22 got \<and> s_sent s = sent @ request_msg dest \<and>
          s_got s = got0 @ [SOCKS_VERSION, SOCKS_REP_SUCCEEDED, rsv, atyp] @ got)
      | STATE_UP \<Rightarrow> s_send s = None \<and> s_recv s = None)"

definition sc_inv :: "BSocksClient_auth_info list \<Rightarrow> BAddr \<Rightarrow> sc_system \<Rightarrow> bool" where
  "sc_inv ais dest s \<longleftrightarrow>
     sc_auth_info (s_c s) = ais \<and> sc_dest_addr (s_c s) = dest \<and> s_res s = res_of (sc_state (s_c s)) \<and>
     (sc_alive s \<longrightarrow> sc_progress ais dest s) \<and>
     (BSOCKSCLIENT_EVENT_UP \<in> set (s_events s) \<longleftrightarrow> sc_state (s_c s) = STATE_UP) \<and>
     (sc_state (s_c s) = STATE_UP \<longrightarrow>
        (\<exists>ai. server_accepts ais ai (s_got s) \<and> s_sent s = hello_msg ais @ auth_msg ai @ request_msg dest))"

section \<open>Building messages\<close>

lemma reserve_buffer_cases:
  assumes "realloc_ok realloc" "0 < bsize_value sz"
  obtains "reserve_buffer realloc c sz = None" "realloc_total realloc \<longrightarrow> is_overflow sz"
  | b where "reserve_buffer realloc c sz = Some (c\<lparr>sc_buffer := Some b\<rparr>)" "length b = bsize_value sz"
proof (cases "reserve_buffer realloc c sz")
  case None
  then show thesis
    using that(1) assms(2)
    by (cases "is_overflow sz") (auto simp: reserve_buffer_def BRealloc_def realloc_total_def split: option.splits if_splits)
next
  case (Some c')
  then show thesis
    using that(2) assms by (auto simp: reserve_buffer_def BRealloc_def realloc_ok_def split: option.splits if_splits)
qed

lemma buffer_write_Some:
  "sc_buffer c = Some b \<Longrightarrow> buffer_write off bs c = c\<lparr>sc_buffer := Some (write_at off bs b)\<rparr>"
  by (simp add: buffer_write_def)

lemma write_methods_buffer:
  "\<lbrakk>sc_buffer c = Some b; length b = 2 + i + length ais\<rbrakk> \<Longrightarrow>
   write_methods i ais c = c\<lparr>sc_buffer := Some (take (2 + i) b @ map auth_type ais)\<rparr>"
proof (induction ais arbitrary: i b c)
  case (Cons ai ais)
  let ?b = "write_at (2 + i) [auth_type ai] b"
  have "take (2 + (i + 1)) ?b = take (2 + i) b @ [auth_type ai]"
    using Cons.prems(2) by (simp add: write_at_def)
  then show ?case
    using Cons.IH [of "c\<lparr>sc_buffer := Some ?b\<rparr>" ?b "i + 1"] Cons.prems by (simp add: buffer_write_Some)
qed simp

lemma hello_buffer:
  assumes "sc_buffer c = Some b" "length b = 2 + length ais"
  shows "write_methods 0 ais (buffer_write 0 [SOCKS_VERSION, of_nat (length ais)] c) = c\<lparr>sc_buffer := Some (hello_msg ais)\<rparr>"
proof -
  let ?b = "write_at 0 [SOCKS_VERSION, of_nat (length ais)] b"
  have "length ?b = 2 + 0 + length ais" "take 2 ?b = [SOCKS_VERSION, of_nat (length ais)]"
    using assms(2) by (simp_all add: write_at_def)
  then show ?thesis
    using write_methods_buffer [of "c\<lparr>sc_buffer := Some ?b\<rparr>" ?b 0 ais] assms(1)
    by (simp add: buffer_write_Some hello_msg_def)
qed

lemma write_at_prefix: "length b = length x + n \<Longrightarrow> write_at 0 x b = x @ drop (length x) b"
  by (simp add: write_at_def)

lemma write_at_mid: "length b = length x + length y + n \<Longrightarrow> write_at (length x) y (x @ drop (length x) b) = x @ y @ drop (length x + length y) b"
  by (simp add: write_at_def add.commute)

lemma password_buffer:
  assumes "sc_buffer c = Some b" "length b = 3 + length u + length p"
  shows "buffer_write (3 + length u) p (buffer_write (2 + length u) [of_nat (length p)]
           (buffer_write 2 u (buffer_write 0 [1, of_nat (length u)] c))) =
         c\<lparr>sc_buffer := Some (auth_msg (BSocksClient_auth_password u p))\<rparr>"
proof -
  have "write_at (3 + length u) p (write_at (2 + length u) [of_nat (length p)]
          (write_at 2 u (write_at 0 [1, of_nat (length u)] b))) = auth_msg (BSocksClient_auth_password u p)"
    using assms(2) by (simp add: write_at_def eval_nat_numeral)
  then show ?thesis using assms(1) by (simp add: buffer_write_Some)
qed

definition dest_ok :: "BAddr \<Rightarrow> bool" where
  "dest_ok a \<longleftrightarrow> BAddr_wf a \<and> a \<noteq> BAddr_None"

lemma request_buffer:
  assumes "sc_buffer c = Some b" "length b = 4 + length (socks_addr a)"
  shows "buffer_write 0 [SOCKS_VERSION, SOCKS_CMD_CONNECT, 0, socks_atyp a] (buffer_write 4 (socks_addr a) c) =
         c\<lparr>sc_buffer := Some (request_msg a)\<rparr>"
  using assms by (simp add: buffer_write_Some request_msg_def write_at_def)

lemma socks_addr_length: "dest_ok a \<Longrightarrow> length (socks_addr a) = (case a of BAddr_IPv4 _ _ \<Rightarrow> 6 | _ \<Rightarrow> 18)"
  by (cases a) (simp_all add: dest_ok_def)

section \<open>Every step keeps the invariant\<close>

lemma sc_calls_append: "sc_calls (xs @ ys) s = (case sc_calls xs s of None \<Rightarrow> None | Some s' \<Rightarrow> sc_calls ys s')"
  by (induction xs arbitrary: s) (auto split: option.splits)

text \<open>What the failure and the success of a handler have in common.\<close>

definition sc_frame :: "BSocksClient_auth_info list \<Rightarrow> BAddr \<Rightarrow> BSocksClient \<Rightarrow> sc_system \<Rightarrow> bool" where
  "sc_frame ais dest c s \<longleftrightarrow> sc_auth_info c = ais \<and> sc_dest_addr c = dest \<and> s_res s = res_of (sc_state c) \<and>
     sc_state c \<notin> {STATE_CONNECTING, STATE_UP} \<and> s_send s = None \<and> s_recv s = None \<and>
     BSOCKSCLIENT_EVENT_UP \<notin> set (s_events s) \<and> sc_alive s"

lemma res_of_control: "st \<notin> {STATE_CONNECTING, STATE_UP} \<Longrightarrow>
  res_of st = \<lparr>r_connector = True, r_con = True, r_recv = True, r_send = True, r_sender = True\<rparr>"
  by (cases st) auto

lemma sc_alive_update [simp]: "sc_alive (s\<lparr>s_c := c\<rparr>) = sc_alive s" "sc_alive (s\<lparr>s_send := x\<rparr>) = sc_alive s"
  "sc_alive (s\<lparr>s_recv := y\<rparr>) = sc_alive s" "sc_alive (s\<lparr>s_got := z\<rparr>) = sc_alive s" "sc_alive (s\<lparr>s_sent := w\<rparr>) = sc_alive s"
  "sc_alive (s\<lparr>s_res := r\<rparr>) = sc_alive s" "sc_alive (s\<lparr>s_events := []\<rparr>)"
  by (simp_all add: sc_alive_def)

lemma report_error_inv:
  assumes "sc_frame ais dest c s"
  shows "\<exists>s'. sc_run (sc_report_error c BSOCKSCLIENT_EVENT_ERROR) s = Some s' \<and> sc_inv ais dest s' \<and> \<not> sc_alive s' \<and> s_got s' = s_got s"
  using assms by (simp add: sc_run_def sc_report_error_def sc_inv_def sc_frame_def sc_alive_def)

lemma sending_inv:
  assumes "sc_frame ais dest c s" "sc_buffer c = Some b" "st \<notin> {STATE_CONNECTING, STATE_UP}"
    "sc_progress ais dest (s\<lparr>s_c := c\<lparr>sc_state := st\<rparr>, s_send := Some bs\<rparr>)"
  shows "\<exists>s'. sc_run (c\<lparr>sc_state := st\<rparr>, [SC_Send bs]) s = Some s' \<and> sc_inv ais dest s' \<and> sc_alive s' \<and> s_got s' = s_got s"
  using assms res_of_control [of "sc_state c"] res_of_control [of st]
  by (simp add: sc_run_def sc_inv_def sc_frame_def)

lemma auth_finished_inv:
  assumes "sc_frame ais dest c s" "authed ais ai (s_sent s) (s_got s)" "dest_ok dest" "realloc_ok realloc"
  shows "\<exists>s'. sc_run (auth_finished realloc c) s = Some s' \<and> sc_inv ais dest s' \<and> s_got s' = s_got s \<and>
    (realloc_total realloc \<longrightarrow> sc_alive s')"
proof -
  define sz where "sz = (case dest of BAddr_IPv4 _ _ \<Rightarrow> bsize_add (bsize_fromsize 4) (bsize_fromsize 6)
                  | BAddr_IPv6 _ _ \<Rightarrow> bsize_add (bsize_fromsize 4) (bsize_fromsize 18)
                  | BAddr_None \<Rightarrow> bsize_fromsize 4)"
  have sz: "\<not> is_overflow sz" "bsize_value sz = 4 + length (socks_addr dest)" "0 < bsize_value sz"
    using assms(3) by (cases dest; simp add: sz_def bsize_defs dest_ok_def)+
  have dest: "sc_dest_addr c = dest" using assms(1) by (simp add: sc_frame_def)
  from assms(4) sz(3) show ?thesis
  proof (cases rule: reserve_buffer_cases [of realloc sz c])
    case 1
    then show ?thesis
      using report_error_inv [OF assms(1)] sz(1) dest by (auto simp: auth_finished_def Let_def sz_def)
  next
    case (2 b)
    let ?c = "c\<lparr>sc_buffer := Some (request_msg dest)\<rparr>"
    have "auth_finished realloc c = (?c\<lparr>sc_state := STATE_SENDING_REQUEST\<rparr>, [SC_Send (request_msg dest)])"
      using 2 dest request_buffer [of "c\<lparr>sc_buffer := Some b\<rparr>" b dest] sz(2)
      by (simp add: auth_finished_def Let_def sz_def [symmetric] buffer_send_def request_msg_def)
    moreover have "sc_frame ais dest ?c s" using assms(1) by (simp add: sc_frame_def)
    moreover have "sc_progress ais dest (s\<lparr>s_c := ?c\<lparr>sc_state := STATE_SENDING_REQUEST\<rparr>, s_send := Some (request_msg dest)\<rparr>)"
      using assms(1,2) by (auto simp: sc_progress_def sending_def sc_frame_def)
    ultimately show ?thesis using sending_inv [of ais dest ?c s _ STATE_SENDING_REQUEST "request_msg dest"] by auto
  qed
qed

lemma find_auth_type: "find_auth m ais = Some ai \<Longrightarrow> auth_type ai = m"
  by (induction ais) (auto split: if_splits)

lemma take_2_eq: "length b = 2 \<Longrightarrow> b = [b ! 0, b ! 1]"
  by (auto dest!: list_length_2)

lemma received_hello_inv:
  assumes frame: "sc_frame ais dest c s" and b: "sc_buffer c = Some b" "length b = 2" and got: "s_got s = b"
    and sent: "s_sent s = hello_msg ais" and ok: "dest_ok dest" "realloc_ok realloc"
  shows "\<exists>s'. sc_run (received_hello realloc c) s = Some s' \<and> sc_inv ais dest s' \<and> s_got s' = s_got s \<and>
    (realloc_total realloc \<longrightarrow> (\<exists>rest ai. server_accepts ais ai (s_got s @ rest)) \<longrightarrow> sc_alive s')"
proof (cases "b ! 0 = SOCKS_VERSION \<and> (\<exists>ai. find_auth (b ! 1) ais = Some ai \<and> auth_usable ai)")
  case False
  have ais: "sc_auth_info c = ais" using frame by (simp add: sc_frame_def)
  have "received_hello realloc c = sc_report_error c BSOCKSCLIENT_EVENT_ERROR"
    using False b ais unfolding received_hello_def Let_def
    by (auto split: option.split BSocksClient_auth_info.split)
  moreover have "\<not> server_accepts ais ai (b @ rest)" for ai rest
    using False b(2) by (auto simp: server_accepts_def nth_append dest!: list_length_2)
  ultimately show ?thesis using report_error_inv [OF frame] got by auto
next
  case True
  then obtain ai where ai: "find_auth (b ! 1) ais = Some ai" "auth_usable ai" and v: "b ! 0 = SOCKS_VERSION" by blast
  have ty: "auth_type ai = b ! 1" using ai(1) by (rule find_auth_type)
  have gotb: "s_got s = [SOCKS_VERSION, auth_type ai]" using got take_2_eq [OF b(2)] v ty by simp
  have ais: "sc_auth_info c = ais" using frame by (simp add: sc_frame_def)
  show ?thesis
  proof (cases ai)
    case BSocksClient_auth_none
    then have "received_hello realloc c = auth_finished realloc c"
      using b v ai ais by (simp add: received_hello_def)
    moreover have "authed ais ai (s_sent s) (s_got s)"
      using ai ty sent gotb BSocksClient_auth_none by (simp add: authed_def)
    ultimately show ?thesis using auth_finished_inv [OF frame _ ok] by auto
  next
    case (BSocksClient_auth_password u p)
    let ?n = "bsize_fromsize (1 + 1 + length u + 1 + length p)"
    have eq: "received_hello realloc c = (case reserve_buffer realloc c ?n of
         None \<Rightarrow> sc_report_error c BSOCKSCLIENT_EVENT_ERROR
       | Some o1 \<Rightarrow> (let o5 = buffer_write (3 + length u) p (buffer_write (2 + length u) [of_nat (length p)]
           (buffer_write 2 u (buffer_write 0 [1, of_nat (length u)] o1)))
           in (o5\<lparr>sc_state := STATE_SENDING_PASSWORD\<rparr>, [buffer_send (bsize_value ?n) o5])))"
      using b v ai ais BSocksClient_auth_password by (auto simp: received_hello_def Let_def split: option.splits)
    have pos: "0 < bsize_value ?n" "\<not> is_overflow ?n" by (simp_all add: bsize_fromsize_def)
    from ok(2) pos(1) show ?thesis
    proof (cases rule: reserve_buffer_cases [of realloc ?n c])
      case 1
      then show ?thesis using report_error_inv [OF frame] pos eq by auto
    next
      case (2 b1)
      let ?m = "auth_msg ai"
      let ?c = "c\<lparr>sc_buffer := Some ?m\<rparr>"
      have "length b1 = 3 + length u + length p" using 2(2) by (simp add: bsize_fromsize_def)
      then have "received_hello realloc c = (?c\<lparr>sc_state := STATE_SENDING_PASSWORD\<rparr>, [SC_Send ?m])"
        using 2 eq password_buffer [of "c\<lparr>sc_buffer := Some b1\<rparr>" b1 u p] BSocksClient_auth_password
        by (simp add: buffer_send_def bsize_fromsize_def)
      moreover have "sc_frame ais dest ?c s" using frame by (simp add: sc_frame_def)
      moreover have "sc_progress ais dest (s\<lparr>s_c := ?c\<lparr>sc_state := STATE_SENDING_PASSWORD\<rparr>, s_send := Some ?m\<rparr>)"
        using frame ai ty sent gotb BSocksClient_auth_password
        by (auto simp: sc_progress_def sending_def sc_frame_def Let_def)
      ultimately show ?thesis using sending_inv [of ais dest ?c s _ STATE_SENDING_PASSWORD ?m] by auto
    qed
  qed
qed

lemma received_password_reply_inv:
  assumes frame: "sc_frame ais dest c s" and b: "sc_buffer c = Some b" "length b = 2"
    and ai: "ai = BSocksClient_auth_password u p" "find_auth (auth_type ai) ais = Some ai" "auth_usable ai"
    and got: "s_got s = [SOCKS_VERSION, auth_type ai] @ b" and sent: "s_sent s = hello_msg ais @ auth_msg ai"
    and ok: "dest_ok dest" "realloc_ok realloc"
  shows "\<exists>s'. sc_run (received_password_reply realloc c) s = Some s' \<and> sc_inv ais dest s' \<and> s_got s' = s_got s \<and>
    (realloc_total realloc \<longrightarrow> (\<exists>rest ai. server_accepts ais ai (s_got s @ rest)) \<longrightarrow> sc_alive s')"
proof (cases "b = [1, 0]")
  case True
  then have "authed ais ai (s_sent s) (s_got s)" using ai sent got by (simp add: authed_def)
  then show ?thesis
    using auth_finished_inv [OF frame _ ok] True b by (auto simp: received_password_reply_def)
next
  case False
  then have "b ! 0 \<noteq> 1 \<or> b ! 1 \<noteq> 0" using take_2_eq [OF b(2)] by auto
  then have "received_password_reply realloc c = sc_report_error c BSOCKSCLIENT_EVENT_ERROR"
    using b by (auto simp: received_password_reply_def)
  moreover have "\<not> server_accepts ais ai' (s_got s @ rest)" for ai' rest
    using False b(2) got ai by (auto simp: server_accepts_def dest!: list_length_2)
  ultimately show ?thesis using report_error_inv [OF frame] by auto
qed

lemma server_accepts_after_auth:
  assumes "server_accepts ais ai' (got0 @ rest)" "authed ais ai sent got0"
  shows "\<exists>rsv atyp addr. rest = [SOCKS_VERSION, SOCKS_REP_SUCCEEDED, rsv, atyp] @ addr \<and> addr_reply_len atyp = Some (length addr)"
proof -
  obtain rsv atyp addr where acc: "find_auth (auth_type ai') ais = Some ai'" "addr_reply_len atyp = Some (length addr)"
    "got0 @ rest = [SOCKS_VERSION, auth_type ai'] @ auth_reply ai' @ [SOCKS_VERSION, SOCKS_REP_SUCCEEDED, rsv, atyp] @ addr"
    using assms(1) unfolding server_accepts_def by blast
  have ai: "find_auth (auth_type ai) ais = Some ai" "got0 = [SOCKS_VERSION, auth_type ai] @ auth_reply ai"
    using assms(2) unfolding authed_def by blast+
  have "auth_type ai' = auth_type ai" using acc(3) ai(2) by simp
  then have "ai' = ai" using acc(1) ai(1) by (metis option.inject)
  then have "rest = [SOCKS_VERSION, SOCKS_REP_SUCCEEDED, rsv, atyp] @ addr" using acc(3) ai(2) by simp
  then show ?thesis using acc(2) by blast
qed

lemma received_reply_header_inv:
  assumes frame: "sc_frame ais dest c s" and b: "sc_buffer c = Some b" "length b = 22"
    and authed: "authed ais ai sent got0" and got: "s_got s = got0 @ take 4 b" and sent: "s_sent s = sent @ request_msg dest"
  shows "\<exists>s'. sc_run (received_reply_header c) s = Some s' \<and> sc_inv ais dest s' \<and> s_got s' = s_got s \<and>
    ((\<exists>rest ai. server_accepts ais ai (s_got s @ rest)) \<longrightarrow> sc_alive s')"
proof -
  obtain v r rsv atyp where h: "take 4 b = [v, r, rsv, atyp]" using list_length_4 [of "take 4 b"] b(2) by auto
  show ?thesis
  proof (cases "v = SOCKS_VERSION \<and> r = SOCKS_REP_SUCCEEDED \<and> addr_reply_len atyp \<noteq> None")
    case False
    then have "received_reply_header c = sc_report_error c BSOCKSCLIENT_EVENT_ERROR"
      using b(1) h by (auto simp: received_reply_header_def Let_def split: if_splits)
    moreover have "\<not> server_accepts ais ai' (s_got s @ rest)" for ai' rest
      using server_accepts_after_auth [OF _ authed, of ai' "take 4 b @ rest"] got h False
      by (auto simp del: addr_reply_len.simps)
    ultimately show ?thesis using report_error_inv [OF frame] by auto
  next
    case True
    then obtain tot where tot: "addr_reply_len atyp = Some tot" by auto
    then have eq: "received_reply_header c =
        (c\<lparr>sc_recv_dest := 4, sc_recv_len := 0, sc_recv_total := tot, sc_state := STATE_RECEIVED_REPLY_HEADER\<rparr>, [SC_Recv 4 tot])"
      using b(1) h True
      by (auto simp: received_reply_header_def start_receive_def do_receive_def Let_def split: if_splits)
    let ?s = "s\<lparr>s_c := c\<lparr>sc_recv_dest := 4, sc_recv_len := 0, sc_recv_total := tot, sc_state := STATE_RECEIVED_REPLY_HEADER\<rparr>,
      s_recv := Some (4, tot)\<rparr>"
    have len: "tot \<le> 18" "0 < tot" using tot by (auto split: if_splits)
    then have "receiving ?s 4 tot 22 []" using b frame by (simp add: receiving_def sc_frame_def)
    moreover have "s_got ?s = got0 @ [SOCKS_VERSION, SOCKS_REP_SUCCEEDED, rsv, atyp] @ []" using got h True by simp
    ultimately have "sc_progress ais dest ?s"
      using authed tot sent by (fastforce simp: sc_progress_def simp del: addr_reply_len.simps)
    then have "sc_inv ais dest ?s" "sc_alive ?s"
      using frame res_of_control [of "sc_state c"] by (auto simp: sc_inv_def sc_frame_def)
    moreover have "sc_run (received_reply_header c) s = Some ?s"
      using eq b len frame res_of_control [of "sc_state c"] by (simp add: sc_run_def sc_frame_def)
    ultimately show ?thesis by simp
  qed
qed

lemma received_reply_rest_inv:
  assumes frame: "sc_frame ais dest c s" and authed: "authed ais ai sent got0" and tot: "addr_reply_len atyp = Some (length got)"
    and got: "s_got s = got0 @ [SOCKS_VERSION, SOCKS_REP_SUCCEEDED, rsv, atyp] @ got" and sent: "s_sent s = sent @ request_msg dest"
  shows "\<exists>s'. sc_run (received_reply_rest c) s = Some s' \<and> sc_inv ais dest s' \<and> sc_alive s' \<and> s_got s' = s_got s"
proof -
  have "server_accepts ais ai (s_got s)"
    using authed tot got by (auto simp: server_accepts_def authed_def)
  moreover have "s_sent s = hello_msg ais @ auth_msg ai @ request_msg dest" using authed sent by (simp add: authed_def)
  ultimately show ?thesis
    using frame res_of_control [of "sc_state c"]
    by (auto simp: received_reply_rest_def sc_run_def free_control_io_def init_up_io_def sc_inv_def sc_frame_def sc_progress_def sc_alive_def)
qed

lemma receiving_data:
  assumes r: "receiving s dest tot sz got" and recv: "s_recv s = Some (off, n)" and len: "length bs \<le> n"
  defines "c \<equiv> (buffer_write off bs (s_c s))\<lparr>sc_recv_len := sc_recv_len (s_c s) + length bs\<rparr>"
  shows "\<exists>b. c = (s_c s)\<lparr>sc_buffer := Some b, sc_recv_len := sc_recv_len (s_c s) + length bs\<rparr> \<and> length b = sz \<and>
    window dest (sc_recv_len (s_c s) + length bs) b = got @ bs \<and> sc_recv_len (s_c s) + length bs \<le> tot"
proof -
  obtain b where b: "sc_buffer (s_c s) = Some b" "length b = sz" "dest + tot \<le> sz"
    and l: "sc_recv_len (s_c s) < tot" "off = dest + sc_recv_len (s_c s)" "n = tot - sc_recv_len (s_c s)"
      "got = window dest (sc_recv_len (s_c s)) b"
    using r recv by (auto simp: receiving_def)
  have "window dest (sc_recv_len (s_c s) + length bs) (write_at off bs b) = got @ bs"
    using window_write_at_extend [of dest "sc_recv_len (s_c s)" off bs b] b l len by simp
  then show ?thesis using b l len by (intro exI [of _ "write_at off bs b"]) (simp add: c_def buffer_write_Some)
qed

section \<open>The events keep the invariant\<close>

text \<open>Data arrives: either more is needed, or the handler of the state runs on the complete block.\<close>

lemma ev_data_more:
  assumes inv: "sc_inv ais dest s" and alive: "sc_alive s" and r: "receiving s d tot sz got"
    and recv: "s_recv s = Some (off, n)" and len: "bs \<noteq> []" "length bs \<le> n"
    and more: "sc_recv_len (s_c s) + length bs < tot" and st: "sc_state (s_c s) \<notin> {STATE_CONNECTING, STATE_UP}"
    and prog: "\<And>s'. \<lbrakk>receiving s' d tot sz (got @ bs); s_got s' = s_got s @ bs; s_sent s' = s_sent s;
      sc_state (s_c s') = sc_state (s_c s)\<rbrakk> \<Longrightarrow> sc_progress ais dest s'"
  shows "\<exists>s'. ev_data realloc bs s = Some s' \<and> sc_inv ais dest s' \<and> s_got s' = s_got s @ bs \<and> sc_alive s'"
proof -
  obtain b where b: "(buffer_write off bs (s_c s))\<lparr>sc_recv_len := sc_recv_len (s_c s) + length bs\<rparr> =
      (s_c s)\<lparr>sc_buffer := Some b, sc_recv_len := sc_recv_len (s_c s) + length bs\<rparr>" "length b = sz"
      "window d (sc_recv_len (s_c s) + length bs) b = got @ bs"
    using receiving_data [OF r recv len(2)] by blast
  have t: "sc_recv_total (s_c s) = tot" "sc_recv_dest (s_c s) = d" "s_send s = None" "d + tot \<le> sz"
    using r by (auto simp: receiving_def)
  let ?s = "s\<lparr>s_recv := Some (d + (sc_recv_len (s_c s) + length bs), tot - (sc_recv_len (s_c s) + length bs)), s_got := s_got s @ bs,
      s_c := (s_c s)\<lparr>sc_buffer := Some b, sc_recv_len := sc_recv_len (s_c s) + length bs\<rparr>\<rparr>"
  have "r_recv (s_res s)" using inv res_of_control [OF st] by (simp add: sc_inv_def)
  moreover have "sc_recv_len (buffer_write off bs (s_c s)) = sc_recv_len (s_c s)" by (simp add: buffer_write_def)
  ultimately have "ev_data realloc bs s = Some ?s"
    using b t more recv
    by (simp add: ev_data_def sc_recv_handler_done_def do_receive_def sc_run_def)
  moreover have "receiving ?s d tot sz (got @ bs)" using b t more by (simp add: receiving_def)
  then have "sc_progress ais dest ?s" by (rule prog) simp_all
  then have "sc_inv ais dest ?s" using inv st by (simp add: sc_inv_def)
  ultimately show ?thesis using alive by simp
qed

lemma ev_data_done:
  assumes inv: "sc_inv ais dest s" and alive: "sc_alive s" and r: "receiving s d tot sz got"
    and recv: "s_recv s = Some (off, n)" and len: "length bs \<le> n"
    and fin: "\<not> sc_recv_len (s_c s) + length bs < tot"
    and st: "sc_state (s_c s) \<notin> {STATE_CONNECTING, STATE_UP}"
  shows "\<exists>c b. sc_recv_handler_done realloc (buffer_write off bs (s_c s)) (length bs) =
        (case sc_state (s_c s) of
           STATE_SENT_HELLO \<Rightarrow> received_hello realloc c
         | STATE_SENT_REQUEST \<Rightarrow> received_reply_header c
         | STATE_SENT_PASSWORD \<Rightarrow> received_password_reply realloc c
         | STATE_RECEIVED_REPLY_HEADER \<Rightarrow> received_reply_rest c
         | _ \<Rightarrow> (c, [])) \<and>
    sc_frame ais dest c (s\<lparr>s_recv := None, s_got := s_got s @ bs\<rparr>) \<and>
    sc_buffer c = Some b \<and> length b = sz \<and> window d tot b = got @ bs \<and> length (got @ bs) = tot"
proof -
  obtain b where b: "(buffer_write off bs (s_c s))\<lparr>sc_recv_len := sc_recv_len (s_c s) + length bs\<rparr> =
      (s_c s)\<lparr>sc_buffer := Some b, sc_recv_len := sc_recv_len (s_c s) + length bs\<rparr>" "length b = sz"
      "window d (sc_recv_len (s_c s) + length bs) b = got @ bs" "sc_recv_len (s_c s) + length bs \<le> tot"
    using receiving_data [OF r recv len] by blast
  let ?c = "(s_c s)\<lparr>sc_buffer := Some b, sc_recv_len := sc_recv_len (s_c s) + length bs\<rparr>"
  have t: "sc_recv_total (s_c s) = tot" "s_send s = None" "d + tot \<le> sz" using r by (auto simp: receiving_def)
  have tot: "sc_recv_len (s_c s) + length bs = tot" using b(4) fin by simp
  have "length (window d tot b) = tot" using t(3) b(2) by simp
  then have got: "length (got @ bs) = tot" unfolding b(3) [unfolded tot, symmetric] .
  have "sc_recv_len (buffer_write off bs (s_c s)) = sc_recv_len (s_c s)" by (simp add: buffer_write_def)
  then have "sc_recv_handler_done realloc (buffer_write off bs (s_c s)) (length bs) =
        (case sc_state (s_c s) of
           STATE_SENT_HELLO \<Rightarrow> received_hello realloc ?c
         | STATE_SENT_REQUEST \<Rightarrow> received_reply_header ?c
         | STATE_SENT_PASSWORD \<Rightarrow> received_password_reply realloc ?c
         | STATE_RECEIVED_REPLY_HEADER \<Rightarrow> received_reply_rest ?c
         | _ \<Rightarrow> (?c, []))"
    using b(1) t tot by (simp add: sc_recv_handler_done_def Let_def split: BSocksClient_state.split)
  moreover have "sc_frame ais dest ?c (s\<lparr>s_recv := None, s_got := s_got s @ bs\<rparr>)"
    using inv alive st t by (simp add: sc_frame_def sc_inv_def)
  ultimately show ?thesis using b tot got by (intro exI [of _ ?c] exI [of _ b]) simp
qed

lemma ev_data_hello:
  assumes inv: "sc_inv ais dest s" and alive: "sc_alive s" and recv: "s_recv s = Some (off, n)"
    and len: "bs \<noteq> []" "length bs \<le> n" and ok: "dest_ok dest" "realloc_ok realloc"
    and state: "sc_state (s_c s) = STATE_SENT_HELLO"
  shows "\<exists>s'. ev_data realloc bs s = Some s' \<and> sc_inv ais dest s' \<and> s_got s' = s_got s @ bs \<and>
    (realloc_total realloc \<longrightarrow> (\<exists>rest ai. server_accepts ais ai (s_got s @ bs @ rest)) \<longrightarrow> sc_alive s')"
proof -
  have prog: "sc_progress ais dest s" using inv alive by (simp add: sc_inv_def)
  let ?s = "s\<lparr>s_recv := None, s_got := s_got s @ bs\<rparr>"
  have ev: "ev_data realloc bs s = sc_run (sc_recv_handler_done realloc (buffer_write off bs (s_c s)) (length bs)) ?s"
    using recv by (simp add: ev_data_def)
  have r: "receiving s 0 2 2 (s_got s)" and sent: "s_sent s = hello_msg ais" using prog state by (simp_all add: sc_progress_def)
  show ?thesis
  proof (cases "sc_recv_len (s_c s) + length bs < 2")
    case True
    have "\<exists>s'. ev_data realloc bs s = Some s' \<and> sc_inv ais dest s' \<and> s_got s' = s_got s @ bs \<and> sc_alive s'"
      by (rule ev_data_more [OF inv alive r recv len True])
        (use state sent in \<open>fastforce simp: sc_progress_def\<close>)+
    then show ?thesis by blast
  next
    case False
    have st: "sc_state (s_c s) \<notin> {STATE_CONNECTING, STATE_UP}" using state by simp
    from ev_data_done [OF inv alive r recv len(2) False st, of realloc] obtain c b where
      h: "sc_recv_handler_done realloc (buffer_write off bs (s_c s)) (length bs) = received_hello realloc c"
      "sc_frame ais dest c ?s" "sc_buffer c = Some b" "length b = 2" "window 0 2 b = s_got s @ bs"
      using state by auto
    have "s_got ?s = b" using h(4,5) window_all [of b] by simp
    from received_hello_inv [OF h(2,3,4) this _ ok] show ?thesis using sent ev h(1) by (simp add: append_assoc)
  qed
qed

lemma ev_data_password:
  assumes inv: "sc_inv ais dest s" and alive: "sc_alive s" and recv: "s_recv s = Some (off, n)"
    and len: "bs \<noteq> []" "length bs \<le> n" and ok: "dest_ok dest" "realloc_ok realloc"
    and state: "sc_state (s_c s) = STATE_SENT_PASSWORD"
  shows "\<exists>s'. ev_data realloc bs s = Some s' \<and> sc_inv ais dest s' \<and> s_got s' = s_got s @ bs \<and>
    (realloc_total realloc \<longrightarrow> (\<exists>rest ai. server_accepts ais ai (s_got s @ bs @ rest)) \<longrightarrow> sc_alive s')"
proof -
  have prog: "sc_progress ais dest s" using inv alive by (simp add: sc_inv_def)
  let ?s = "s\<lparr>s_recv := None, s_got := s_got s @ bs\<rparr>"
  have ev: "ev_data realloc bs s = sc_run (sc_recv_handler_done realloc (buffer_write off bs (s_c s)) (length bs)) ?s"
    using recv by (simp add: ev_data_def)
  obtain u p got where ai: "find_auth (auth_type (BSocksClient_auth_password u p)) ais = Some (BSocksClient_auth_password u p)"
      "auth_usable (BSocksClient_auth_password u p)" and r: "receiving s 0 2 2 got"
    and sent: "s_sent s = hello_msg ais @ auth_msg (BSocksClient_auth_password u p)"
    and got: "s_got s = [SOCKS_VERSION, auth_type (BSocksClient_auth_password u p)] @ got"
    using prog state by (auto simp: sc_progress_def Let_def)
  show ?thesis
  proof (cases "sc_recv_len (s_c s) + length bs < 2")
    case True
    have "\<exists>s'. ev_data realloc bs s = Some s' \<and> sc_inv ais dest s' \<and> s_got s' = s_got s @ bs \<and> sc_alive s'"
      by (rule ev_data_more [OF inv alive r recv len True])
        (use state sent got ai in \<open>fastforce simp: sc_progress_def Let_def\<close>)+
    then show ?thesis by blast
  next
    case False
    have st: "sc_state (s_c s) \<notin> {STATE_CONNECTING, STATE_UP}" using state by simp
    from ev_data_done [OF inv alive r recv len(2) False st, of realloc] obtain c b where
      h: "sc_recv_handler_done realloc (buffer_write off bs (s_c s)) (length bs) = received_password_reply realloc c"
      "sc_frame ais dest c ?s" "sc_buffer c = Some b" "length b = 2" "window 0 2 b = got @ bs"
      using state by auto
    have "b = got @ bs" using h(4,5) window_all [of b] by simp
    then have "s_got ?s = [SOCKS_VERSION, auth_type (BSocksClient_auth_password u p)] @ b" using got by simp
    from received_password_reply_inv [OF h(2,3,4) refl ai this _ ok] show ?thesis
      using sent ev h(1) by (simp add: append_assoc)
  qed
qed

lemma ev_data_request:
  assumes inv: "sc_inv ais dest s" and alive: "sc_alive s" and recv: "s_recv s = Some (off, n)"
    and len: "bs \<noteq> []" "length bs \<le> n" and ok: "dest_ok dest" "realloc_ok realloc"
    and state: "sc_state (s_c s) = STATE_SENT_REQUEST"
  shows "\<exists>s'. ev_data realloc bs s = Some s' \<and> sc_inv ais dest s' \<and> s_got s' = s_got s @ bs \<and>
    (realloc_total realloc \<longrightarrow> (\<exists>rest ai. server_accepts ais ai (s_got s @ bs @ rest)) \<longrightarrow> sc_alive s')"
proof -
  have prog: "sc_progress ais dest s" using inv alive by (simp add: sc_inv_def)
  let ?s = "s\<lparr>s_recv := None, s_got := s_got s @ bs\<rparr>"
  have ev: "ev_data realloc bs s = sc_run (sc_recv_handler_done realloc (buffer_write off bs (s_c s)) (length bs)) ?s"
    using recv by (simp add: ev_data_def)
  obtain ai sent got0 got where a: "authed ais ai sent got0" and r: "receiving s 0 4 22 got"
    and sent: "s_sent s = sent @ request_msg dest" and got: "s_got s = got0 @ got"
    using prog state by (auto simp: sc_progress_def)
  show ?thesis
  proof (cases "sc_recv_len (s_c s) + length bs < 4")
    case True
    have "\<exists>s'. ev_data realloc bs s = Some s' \<and> sc_inv ais dest s' \<and> s_got s' = s_got s @ bs \<and> sc_alive s'"
      by (rule ev_data_more [OF inv alive r recv len True])
        (use state sent got a in \<open>fastforce simp: sc_progress_def\<close>)+
    then show ?thesis by blast
  next
    case False
    have st: "sc_state (s_c s) \<notin> {STATE_CONNECTING, STATE_UP}" using state by simp
    from ev_data_done [OF inv alive r recv len(2) False st, of realloc] obtain c b where
      h: "sc_recv_handler_done realloc (buffer_write off bs (s_c s)) (length bs) = received_reply_header c"
      "sc_frame ais dest c ?s" "sc_buffer c = Some b" "length b = 22" "window 0 4 b = got @ bs"
      using state by auto
    have "s_got ?s = got0 @ take 4 b" using h(5) got by (simp add: window_def)
    from received_reply_header_inv [OF h(2,3,4) a this] show ?thesis using sent ev h(1) by auto
  qed
qed

lemma ev_data_reply:
  assumes inv: "sc_inv ais dest s" and alive: "sc_alive s" and recv: "s_recv s = Some (off, n)"
    and len: "bs \<noteq> []" "length bs \<le> n" and ok: "dest_ok dest" "realloc_ok realloc"
    and state: "sc_state (s_c s) = STATE_RECEIVED_REPLY_HEADER"
  shows "\<exists>s'. ev_data realloc bs s = Some s' \<and> sc_inv ais dest s' \<and> s_got s' = s_got s @ bs \<and>
    (realloc_total realloc \<longrightarrow> (\<exists>rest ai. server_accepts ais ai (s_got s @ bs @ rest)) \<longrightarrow> sc_alive s')"
proof -
  have prog: "sc_progress ais dest s" using inv alive by (simp add: sc_inv_def)
  let ?s = "s\<lparr>s_recv := None, s_got := s_got s @ bs\<rparr>"
  have ev: "ev_data realloc bs s = sc_run (sc_recv_handler_done realloc (buffer_write off bs (s_c s)) (length bs)) ?s"
    using recv by (simp add: ev_data_def)
  obtain ai sent got0 rsv atyp tot got where a: "authed ais ai sent got0" and r: "receiving s 4 tot 22 got"
    and t: "addr_reply_len atyp = Some tot" and sent: "s_sent s = sent @ request_msg dest"
    and got: "s_got s = got0 @ [SOCKS_VERSION, SOCKS_REP_SUCCEEDED, rsv, atyp] @ got"
    using prog state by (auto simp: sc_progress_def simp del: addr_reply_len.simps)
  show ?thesis
  proof (cases "sc_recv_len (s_c s) + length bs < tot")
    case True
    have "\<exists>s'. ev_data realloc bs s = Some s' \<and> sc_inv ais dest s' \<and> s_got s' = s_got s @ bs \<and> sc_alive s'"
      by (rule ev_data_more [OF inv alive r recv len True])
        (use state sent got a t in \<open>fastforce simp: sc_progress_def simp del: addr_reply_len.simps\<close>)+
    then show ?thesis by blast
  next
    case False
    have st: "sc_state (s_c s) \<notin> {STATE_CONNECTING, STATE_UP}" using state by simp
    from ev_data_done [OF inv alive r recv len(2) False st, of realloc] obtain c where
      h: "sc_recv_handler_done realloc (buffer_write off bs (s_c s)) (length bs) = received_reply_rest c"
      "sc_frame ais dest c ?s" "length (got @ bs) = tot"
      using state by auto
    have "s_got ?s = got0 @ [SOCKS_VERSION, SOCKS_REP_SUCCEEDED, rsv, atyp] @ got @ bs" using got by simp
    from received_reply_rest_inv [OF h(2) a _ this] show ?thesis using sent ev h(1,3) t by auto
  qed
qed

lemma ev_data_inv:
  assumes inv: "sc_inv ais dest s" and alive: "sc_alive s" and recv: "s_recv s = Some (off, n)"
    and len: "bs \<noteq> []" "length bs \<le> n" and ok: "dest_ok dest" "realloc_ok realloc"
  shows "\<exists>s'. ev_data realloc bs s = Some s' \<and> sc_inv ais dest s' \<and> s_got s' = s_got s @ bs \<and>
    (realloc_total realloc \<longrightarrow> (\<exists>rest ai. server_accepts ais ai (s_got s @ bs @ rest)) \<longrightarrow> sc_alive s')"
proof -
  have "sc_progress ais dest s" using inv alive by (simp add: sc_inv_def)
  then consider "sc_state (s_c s) = STATE_SENT_HELLO" | "sc_state (s_c s) = STATE_SENT_PASSWORD"
    | "sc_state (s_c s) = STATE_SENT_REQUEST" | "sc_state (s_c s) = STATE_RECEIVED_REPLY_HEADER"
    using recv by (cases "sc_state (s_c s)") (auto simp: sc_progress_def sending_def)
  then show ?thesis
    using ev_data_hello [OF assms] ev_data_password [OF assms] ev_data_request [OF assms] ev_data_reply [OF assms]
    by cases blast+
qed

lemma sent_receive_inv:
  assumes frame: "sc_frame ais dest c s" and sz: "0 < bsize_value sz" "\<not> is_overflow sz" "0 < tot" "tot \<le> bsize_value sz"
    and st: "st \<notin> {STATE_CONNECTING, STATE_UP}" and ok: "realloc_ok realloc"
    and prog: "\<And>s'. \<lbrakk>receiving s' 0 tot (bsize_value sz) []; s_sent s' = s_sent s; s_got s' = s_got s; sc_state (s_c s') = st\<rbrakk> \<Longrightarrow>
      sc_progress ais dest s'"
  shows "\<exists>s'. sc_run (sent_receive realloc c sz tot st) s = Some s' \<and> sc_inv ais dest s' \<and> s_got s' = s_got s \<and> s_send s' = None \<and>
    sc_state (s_c s') \<noteq> STATE_CONNECTING \<and> (realloc_total realloc \<longrightarrow> sc_alive s')"
  using ok sz(1)
proof (cases rule: reserve_buffer_cases [of realloc sz c])
  case 1
  then show ?thesis
    using frame sz(2) by (simp add: sent_receive_def sc_run_def sc_report_error_def sc_inv_def sc_frame_def sc_alive_def)
next
  case (2 b)
  let ?s = "s\<lparr>s_c := c\<lparr>sc_buffer := Some b, sc_recv_dest := 0, sc_recv_len := 0, sc_recv_total := tot, sc_state := st\<rparr>,
    s_recv := Some (0, tot)\<rparr>"
  have "receiving ?s 0 tot (bsize_value sz) []" using 2 sz frame by (simp add: receiving_def sc_frame_def)
  then have "sc_progress ais dest ?s" by (rule prog) simp_all
  then have "sc_inv ais dest ?s" "sc_alive ?s"
    using frame st res_of_control [of "sc_state c"] res_of_control [of st] by (auto simp: sc_inv_def sc_frame_def)
  moreover have "sc_run (sent_receive realloc c sz tot st) s = Some ?s"
    using 2 sz frame res_of_control [of "sc_state c"]
    by (simp add: sent_receive_def start_receive_def do_receive_def sc_run_def sc_frame_def)
  moreover have "s_send ?s = None" using frame by (simp add: sc_frame_def)
  ultimately show ?thesis using st by simp
qed

lemma sending_state:
  assumes "sc_progress ais dest s" "s_send s \<noteq> None"
  shows "sc_state (s_c s) \<in> {STATE_SENDING_HELLO, STATE_SENDING_PASSWORD, STATE_SENDING_REQUEST}"
  using assms by (cases "sc_state (s_c s)") (auto simp: sc_progress_def receiving_def Let_def)

lemma ev_sent_inv:
  assumes inv: "sc_inv ais dest s" and alive: "sc_alive s" and send: "s_send s \<noteq> None" and ok: "realloc_ok realloc"
  shows "\<exists>s'. ev_sent realloc s = Some s' \<and> sc_inv ais dest s' \<and> s_got s' = s_got s \<and> s_send s' = None \<and>
    sc_state (s_c s') \<noteq> STATE_CONNECTING \<and> (realloc_total realloc \<longrightarrow> sc_alive s')"
proof -
  have prog: "sc_progress ais dest s" using inv alive by (simp add: sc_inv_def)
  note st = sending_state [OF prog send]
  let ?s = "s\<lparr>s_send := None, s_sent := s_sent s @ the (s_send s)\<rparr>"
  have "s_recv s = None" using prog st by (auto simp: sc_progress_def sending_def Let_def)
  then have frame: "sc_frame ais dest (s_c s) ?s" using inv alive st by (auto simp: sc_frame_def sc_inv_def)
  consider "sc_state (s_c s) = STATE_SENDING_HELLO" | "sc_state (s_c s) = STATE_SENDING_PASSWORD" | "sc_state (s_c s) = STATE_SENDING_REQUEST"
    using st by auto
  then show ?thesis
  proof cases
    case 1
    have "\<exists>s'. sc_run (sent_receive realloc (s_c s) (bsize_fromsize 2) 2 STATE_SENT_HELLO) ?s = Some s' \<and> sc_inv ais dest s' \<and>
      s_got s' = s_got ?s \<and> s_send s' = None \<and> sc_state (s_c s') \<noteq> STATE_CONNECTING \<and> (realloc_total realloc \<longrightarrow> sc_alive s')"
      by (rule sent_receive_inv [OF frame _ _ _ _ _ ok])
        (use 1 prog in \<open>auto simp: bsize_fromsize_def sc_progress_def sending_def\<close>)
    then show ?thesis using 1 by (simp add: ev_sent_def sc_send_handler_done_def bsize_fromsize_def)
  next
    case 2
    have "\<exists>s'. sc_run (sent_receive realloc (s_c s) (bsize_fromsize 2) 2 STATE_SENT_PASSWORD) ?s = Some s' \<and> sc_inv ais dest s' \<and>
      s_got s' = s_got ?s \<and> s_send s' = None \<and> sc_state (s_c s') \<noteq> STATE_CONNECTING \<and> (realloc_total realloc \<longrightarrow> sc_alive s')"
      by (rule sent_receive_inv [OF frame _ _ _ _ _ ok])
        (use 2 prog in \<open>fastforce simp: bsize_fromsize_def sc_progress_def sending_def Let_def\<close>)+
    then show ?thesis using 2 by (simp add: ev_sent_def sc_send_handler_done_def bsize_fromsize_def)
  next
    case 3
    let ?n = "bsize_add (bsize_fromsize 4) (bsize_max (bsize_fromsize 6) (bsize_fromsize 18))"
    have "\<exists>s'. sc_run (sent_receive realloc (s_c s) ?n 4 STATE_SENT_REQUEST) ?s = Some s' \<and> sc_inv ais dest s' \<and>
      s_got s' = s_got ?s \<and> s_send s' = None \<and> sc_state (s_c s') \<noteq> STATE_CONNECTING \<and> (realloc_total realloc \<longrightarrow> sc_alive s')"
      by (rule sent_receive_inv [OF frame _ _ _ _ _ ok])
        (use 3 prog in \<open>fastforce simp: bsize_defs sc_progress_def sending_def\<close>)+
    then show ?thesis using 3 by (simp add: ev_sent_def sc_send_handler_done_def)
  qed
qed

lemma ev_connect_inv:
  assumes inv: "sc_inv ais dest s" and alive: "sc_alive s" and st: "sc_state (s_c s) = STATE_CONNECTING" and ok: "realloc_ok realloc"
  shows "\<exists>s'. ev_connect realloc con_ok is_error s = Some s' \<and> sc_inv ais dest s' \<and>
    (realloc_total realloc \<and> con_ok \<and> \<not> is_error \<and> ais \<noteq> [] \<and> length ais \<le> 255 \<longrightarrow>
       sc_alive s' \<and> sc_state (s_c s') = STATE_SENDING_HELLO)"
proof -
  have prog: "sc_progress ais dest s" and ais: "sc_auth_info (s_c s) = ais" using inv alive by (simp_all add: sc_inv_def)
  let ?n = "bsize_add (bsize_fromsize 2) (bsize_mul (bsize_fromsize (length ais)) (bsize_fromsize 1))"
  have fail: ?thesis if "is_error \<or> \<not> con_ok \<or> ais = [] \<or> 255 < length ais \<or> reserve_buffer realloc (s_c s) ?n = None \<and> \<not> realloc_total realloc"
    using that inv st ais
    by (auto simp: ev_connect_def sc_connector_handler_def Let_def sc_run_def init_control_io_def free_control_io_def sc_inv_def sc_alive_def)
  show ?thesis
  proof (cases "is_error \<or> \<not> con_ok \<or> ais = [] \<or> 255 < length ais")
    case True
    then show ?thesis by (rule disjE) (use fail in blast)+
  next
    case False
    then have n: "bsize_value ?n = 2 + length ais" "\<not> is_overflow ?n" by (auto simp: bsize_defs div_greater_zero_iff)
    have "0 < bsize_value ?n" using n by simp
    with ok show ?thesis
    proof (cases rule: reserve_buffer_cases [of realloc ?n "s_c s"])
      case 1
      then show ?thesis using fail n by blast
    next
      case (2 b)
      let ?c = "(s_c s)\<lparr>sc_buffer := Some (hello_msg ais), sc_state := STATE_SENDING_HELLO\<rparr>"
      let ?s = "s\<lparr>s_c := ?c, s_res := res_of STATE_SENDING_HELLO, s_send := Some (hello_msg ais)\<rparr>"
      have "sc_connector_handler realloc con_ok (s_c s) is_error =
          (?c, SC_BConnection_Init # init_control_io @ [SC_Send (hello_msg ais)])"
        using False 2 n ais hello_buffer [of "(s_c s)\<lparr>sc_buffer := Some b\<rparr>" b ais]
        by (simp add: sc_connector_handler_def Let_def buffer_send_def hello_msg_def)
      then have "ev_connect realloc con_ok is_error s = Some ?s"
        using inv st prog by (simp add: ev_connect_def sc_run_def init_control_io_def sc_inv_def sc_progress_def)
      moreover have "sc_inv ais dest ?s"
        using inv alive st prog by (auto simp: sc_inv_def sc_progress_def sending_def)
      ultimately show ?thesis using alive by simp
    qed
  qed
qed

lemma ev_broken_inv:
  assumes "sc_inv ais dest s" "sc_state (s_c s) \<noteq> STATE_CONNECTING"
  shows "\<exists>s'. ev_broken e s = Some s' \<and> sc_inv ais dest s' \<and> \<not> sc_alive s'"
  using assms by (simp add: ev_broken_def sc_connection_handler_def sc_report_error_def sc_run_def sc_inv_def sc_alive_def)

lemma sc_initial_inv: "\<exists>s0. sc_initial ais dest = Some s0 \<and> sc_inv ais dest s0 \<and> sc_alive s0 \<and> sc_state (s_c s0) = STATE_CONNECTING"
  by (simp add: sc_initial_def BSocksClient_Init_def sc_run_def sc_inv_def sc_progress_def sc_alive_def)

lemma sc_reach_inv:
  assumes "sc_reach s0 s" "sc_initial ais dest = Some s0" "dest_ok dest"
  shows "sc_inv ais dest s"
  using assms
proof (induction rule: sc_reach.induct)
  case sc_start
  then show ?case using sc_initial_inv [of ais dest] by auto
next
  case (sc_connect s realloc con_ok is_error s')
  then show ?case using ev_connect_inv [of ais dest s realloc con_ok is_error] by auto
next
  case (sc_sent s realloc s')
  then show ?case using ev_sent_inv [of ais dest s realloc] by auto
next
  case (sc_data s off n bs realloc s')
  then show ?case using ev_data_inv [of ais dest s off n bs realloc] by auto
next
  case (sc_broken s e s')
  then show ?case using ev_broken_inv [of ais dest s e] by auto
qed

lemma BSocksClient_Free_releases:
  assumes "sc_inv ais dest s"
  shows "\<exists>s'. sc_run (BSocksClient_Free (s_c s)) s = Some s' \<and>
    s_res s' = \<lparr>r_connector = False, r_con = False, r_recv = False, r_send = False, r_sender = False\<rparr> \<and>
    sc_buffer (s_c s') = None"
  using assms
  by (cases "sc_state (s_c s)") (auto simp: BSocksClient_Free_def sc_run_def free_control_io_def free_up_io_def sc_inv_def)

section \<open>A server that accepts\<close>

text \<open>
  The exchange with a server whose whole answer is \<open>bs\<close>: pending sends complete, and the
  \<open>i\<close>-th read returns at most \<open>ks ! i + 1\<close> bytes. The list \<open>ks\<close> also bounds the number of steps.
\<close>

fun sc_serve :: "realloc_fn \<Rightarrow> nat list \<Rightarrow> bytes \<Rightarrow> sc_system \<Rightarrow> sc_system option" where
  "sc_serve realloc [] bs s = Some s"
| "sc_serve realloc (k # ks) bs s =
     (if \<not> sc_alive s then Some s
      else if s_send s \<noteq> None then (case ev_sent realloc s of None \<Rightarrow> None | Some s' \<Rightarrow> sc_serve realloc ks bs s')
      else case s_recv s of None \<Rightarrow> Some s
        | Some (off, n) \<Rightarrow>
            if bs = [] then Some s
            else (case ev_data realloc (take (min n (Suc k)) bs) s of None \<Rightarrow> None
                  | Some s' \<Rightarrow> sc_serve realloc ks (drop (min n (Suc k)) bs) s'))"

lemma server_accepts_length: "server_accepts ais ai bs \<Longrightarrow> 12 \<le> length bs"
  by (auto simp: server_accepts_def split: if_splits)

lemma receiving_got: "receiving s d tot sz got \<Longrightarrow> length got < tot"
  by (auto simp: receiving_def)

lemma accepted_not_waiting:
  assumes prog: "sc_progress ais dest s" and recv: "s_recv s \<noteq> None" and acc: "server_accepts ais ai (s_got s @ bs)"
  shows "bs \<noteq> []"
proof
  assume bs: "bs = []"
  then have len: "12 \<le> length (s_got s)" using server_accepts_length [OF acc] by simp
  show False
  proof (cases "sc_state (s_c s)")
    case STATE_SENT_HELLO
    then show False using prog len by (auto simp: sc_progress_def dest!: receiving_got)
  next
    case STATE_SENT_PASSWORD
    then show False using prog len by (auto simp: sc_progress_def Let_def dest!: receiving_got)
  next
    case STATE_SENT_REQUEST
    then obtain ai sent got0 got where "authed ais ai sent got0" "length got < 4" "s_got s = got0 @ got"
      using prog by (auto simp: sc_progress_def dest!: receiving_got)
    moreover then have "length got0 \<le> 4" by (cases ai) (auto simp: authed_def)
    ultimately show False using len by simp
  next
    case STATE_RECEIVED_REPLY_HEADER
    then obtain ai sent got0 rsv atyp tot got where a: "authed ais ai sent got0" and t: "addr_reply_len atyp = Some tot" "length got < tot"
      and got: "s_got s = got0 @ [SOCKS_VERSION, SOCKS_REP_SUCCEEDED, rsv, atyp] @ got"
      using prog by (auto simp: sc_progress_def simp del: addr_reply_len.simps dest!: receiving_got)
    have "server_accepts ais ai' (got0 @ ([SOCKS_VERSION, SOCKS_REP_SUCCEEDED, rsv, atyp] @ got)) \<Longrightarrow> tot = length got" for ai'
      using server_accepts_after_auth [OF _ a] t by (fastforce simp del: addr_reply_len.simps)
    then show False using acc got bs t by auto
  qed (use prog recv in \<open>auto simp: sc_progress_def sending_def Let_def\<close>)
qed

lemma sc_serve_up:
  assumes acc: "server_accepts ais ai script" and ok: "dest_ok dest" "realloc_ok realloc" "realloc_total realloc"
  shows "\<lbrakk>sc_reach s0 s; sc_inv ais dest s; sc_alive s; sc_state (s_c s) \<noteq> STATE_CONNECTING; s_got s @ bs = script;
    2 * length bs + of_bool (s_send s \<noteq> None) \<le> length ks\<rbrakk> \<Longrightarrow>
    \<exists>s'. sc_serve realloc ks bs s = Some s' \<and> sc_reach s0 s' \<and> sc_inv ais dest s' \<and> sc_alive s' \<and> sc_state (s_c s') = STATE_UP"
proof (induction ks arbitrary: s bs)
  case Nil
  then have prog: "sc_progress ais dest s" by (simp add: sc_inv_def)
  have "s_recv s = None" using accepted_not_waiting [OF prog, of ai bs] acc Nil by (cases "s_recv s") auto
  then have "sc_state (s_c s) = STATE_UP"
    using prog Nil.prems by (cases "sc_state (s_c s)") (auto simp: sc_progress_def sending_def receiving_def Let_def split: if_splits)
  then show ?case using Nil by simp
next
  case (Cons k ks)
  have prog: "sc_progress ais dest s" using Cons.prems by (simp add: sc_inv_def)
  show ?case
  proof (cases "s_send s")
    case (Some msg)
    then obtain s' where s': "ev_sent realloc s = Some s'" "sc_inv ais dest s'" "s_got s' = s_got s" "s_send s' = None"
        "sc_state (s_c s') \<noteq> STATE_CONNECTING" "sc_alive s'"
      using ev_sent_inv [OF Cons.prems(2,3) _ ok(2)] ok(3) by auto
    have "sc_reach s0 s'" by (rule sc_sent [OF Cons.prems(1,3) _ ok(2) s'(1)]) (simp add: Some)
    then show ?thesis using Cons.IH [OF _ s'(2,6,5), of bs] s' Cons.prems Some by simp
  next
    case None
    show ?thesis
    proof (cases "s_recv s")
      case recv: None
      then have "sc_state (s_c s) = STATE_UP"
        using prog None Cons.prems(4) by (cases "sc_state (s_c s)") (auto simp: sc_progress_def sending_def receiving_def Let_def)
      then show ?thesis using Cons.prems None recv by simp
    next
      case recv: (Some r)
      obtain off n where r: "r = (off, n)" by fastforce
      have n: "0 < n" using prog recv r by (cases "sc_state (s_c s)") (auto simp: sc_progress_def sending_def receiving_def Let_def)
      have bs: "bs \<noteq> []" using accepted_not_waiting [OF prog, of ai bs] acc recv Cons.prems(5) by simp
      let ?m = "min n (Suc k)"
      have d: "take ?m bs \<noteq> []" "length (take ?m bs) \<le> n" using n bs by auto
      have "\<exists>rest ai. server_accepts ais ai (s_got s @ take ?m bs @ rest)"
        using acc Cons.prems(5) by (intro exI [of _ "drop ?m bs"] exI [of _ ai]) simp
      then obtain s' where s': "ev_data realloc (take ?m bs) s = Some s'" "sc_inv ais dest s'" "s_got s' = s_got s @ take ?m bs" "sc_alive s'"
        using ev_data_inv [OF Cons.prems(2,3) recv [unfolded r] d ok(1,2)] ok(3) by auto
      have "sc_state (s_c s') \<noteq> STATE_CONNECTING" using s' d(1) by (auto simp: sc_inv_def sc_progress_def)
      moreover have "s_got s' @ drop ?m bs = script" using s'(3) Cons.prems(5) by simp
      moreover have "length (drop ?m bs) < length bs" using n bs by simp
      then have "2 * length (drop ?m bs) + of_bool (s_send s' \<noteq> None) \<le> length ks"
        using Cons.prems(6) None by (auto simp: of_bool_def split: if_splits)
      ultimately show ?thesis using Cons.IH [OF _ s'(2,4)] s'(1) None recv r bs Cons.prems(3) sc_data [OF Cons.prems(1,3) recv [unfolded r] d ok(2) s'(1)] by simp
    qed
  qed
qed

lemma connected_serve_up:
  assumes acc: "server_accepts ais ai bs" and ok: "dest_ok dest" "realloc_ok realloc" "realloc_total realloc"
    and len: "length ais \<le> 255" "2 * length bs + 1 \<le> length ks"
  shows "\<exists>s0 s1 s. sc_initial ais dest = Some s0 \<and> ev_connect realloc True False s0 = Some s1 \<and>
    sc_serve realloc ks bs s1 = Some s \<and> sc_reach s0 s \<and> sc_inv ais dest s \<and> sc_alive s \<and> sc_state (s_c s) = STATE_UP"
proof -
  obtain s0 where s0: "sc_initial ais dest = Some s0" "sc_inv ais dest s0" "sc_alive s0" "sc_state (s_c s0) = STATE_CONNECTING"
    using sc_initial_inv by blast
  have "ais \<noteq> []" using acc by (auto simp: server_accepts_def)
  then obtain s1 where s1: "ev_connect realloc True False s0 = Some s1" "sc_inv ais dest s1" "sc_alive s1"
      "sc_state (s_c s1) = STATE_SENDING_HELLO"
    using ev_connect_inv [OF s0(2,3,4) ok(2), of True False] ok(3) len(1) by auto
  have "sc_reach s0 s1" by (rule sc_connect [OF sc_start s0(3,4) ok(2) s1(1)])
  moreover have "s_got s1 @ bs = bs" using s1 by (simp add: sc_inv_def sc_progress_def)
  moreover have "2 * length bs + of_bool (s_send s1 \<noteq> None) \<le> length ks" using len(2) by (simp add: of_bool_def)
  ultimately show ?thesis using sc_serve_up [OF acc ok _ s1(2,3)] s0(1) s1(1,4) by (metis BSocksClient_state.distinct(1))
qed

section \<open>Properties\<close>

definition demo_realloc :: realloc_fn where
  "demo_realloc m n = Some (replicate n 0)"

definition demo_dest :: BAddr where
  "demo_dest = BAddr_IPv4 0x0100007F 0x5000"

definition demo_reply :: bytes where
  "demo_reply = [5, 0, 5, 0, 0, 1, 10, 0, 0, 1, 4, 56]"

lemma demo_ok: "realloc_ok demo_realloc" "realloc_total demo_realloc" "dest_ok demo_dest"
  "server_accepts [BSocksClient_auth_none] BSocksClient_auth_none demo_reply"
  by (simp_all add: realloc_ok_def realloc_total_def demo_realloc_def dest_ok_def demo_dest_def demo_reply_def
      server_accepts_def socks_consts)

lemma demo_run:
  assumes "2 * length demo_reply + 1 \<le> length ks"
  shows "\<exists>s0 s1 s. sc_initial [BSocksClient_auth_none] demo_dest = Some s0 \<and> ev_connect demo_realloc True False s0 = Some s1 \<and>
    sc_serve demo_realloc ks demo_reply s1 = Some s \<and> sc_reach s0 s \<and> sc_inv [BSocksClient_auth_none] demo_dest s \<and>
    sc_state (s_c s) = STATE_UP"
  using connected_serve_up [OF demo_ok(4,3,1,2), of ks] assms by fastforce

text \<open>
  C33. The client reports the connection as up only after a complete and valid SOCKS5 exchange:
  in every reachable state in which \<open>BSOCKSCLIENT_EVENT_UP\<close> was reported, what the client sent
  is its greeting, the message of an authentication it offered and the server picked, and the
  CONNECT request for its destination, and what it received is the server's positive answer to
  each of them, to the byte.
\<close>

theorem socks_up_only_after_exchange:
  assumes "sc_initial ais dest = Some s0" "dest_ok dest" "sc_reach s0 s" "BSOCKSCLIENT_EVENT_UP \<in> set (s_events s)"
  shows "\<exists>ai. server_accepts ais ai (s_got s) \<and> s_sent s = hello_msg ais @ auth_msg ai @ request_msg dest"
  using sc_reach_inv [OF assms(3,1,2)] assms(4) by (simp add: sc_inv_def)

theorem socks_up_only_after_exchange_witness:
  "\<exists>s :: sc_system. BSOCKSCLIENT_EVENT_UP \<in> set (s_events s) \<and> (\<exists>ai. server_accepts [BSocksClient_auth_none] ai (s_got s) \<and>
     s_sent s = hello_msg [BSocksClient_auth_none] @ auth_msg ai @ request_msg demo_dest)"
proof -
  have "2 * length demo_reply + 1 \<le> length (replicate 25 (0 :: nat))" by (simp add: demo_reply_def)
  from demo_run [OF this] obtain s0 s where s: "sc_initial [BSocksClient_auth_none] demo_dest = Some s0" "sc_reach s0 s"
    "BSOCKSCLIENT_EVENT_UP \<in> set (s_events s)" by (auto simp: sc_inv_def)
  from socks_up_only_after_exchange [OF s(1) demo_ok(3) s(2,3)] s(3) show ?thesis by blast
qed

text \<open>
  C34. A server that accepts gets the client up, however the network splits its bytes: if
  memory does not run out, the connection succeeds and the server's answer is positive,
  then for every sequence \<open>ks\<close> of read sizes (long enough for one step per byte and
  message) the exchange ends with the client up and no error reported.
\<close>

theorem socks_reaches_up:
  assumes "sc_initial ais dest = Some s0" "dest_ok dest" "length ais \<le> 255"
    and "realloc_ok realloc" "realloc_total realloc" "server_accepts ais ai bs" "2 * length bs + 1 \<le> length ks"
  shows "\<exists>s1 s. ev_connect realloc True False s0 = Some s1 \<and> sc_serve realloc ks bs s1 = Some s \<and>
    sc_state (s_c s) = STATE_UP \<and> BSOCKSCLIENT_EVENT_UP \<in> set (s_events s) \<and> sc_alive s"
  using connected_serve_up [OF assms(6,2,4,5,3,7)] assms(1) by (auto simp: sc_inv_def)

theorem socks_reaches_up_witness:
  "\<exists>s0 s1 s. ev_connect demo_realloc True False s0 = Some s1 \<and>
     sc_serve demo_realloc ([1, 1, 0, 2] @ replicate 30 0) demo_reply s1 = Some s \<and> sc_state (s_c s) = STATE_UP"
proof -
  obtain s0 where s0: "sc_initial [BSocksClient_auth_none] demo_dest = Some s0" using sc_initial_inv by blast
  have "2 * length demo_reply + 1 \<le> length ([1, 1, 0, 2] @ replicate 30 (0 :: nat))" by (simp add: demo_reply_def)
  from socks_reaches_up [OF s0 demo_ok(3) _ demo_ok(1,2,4) this] show ?thesis by (simp del: sc_serve.simps) blast
qed

text \<open>
  The client never misuses the objects it is built on and leaks none of them: in every
  reachable state each possible event is handled without a call that its object forbids (a
  receive beyond the buffer, a second operation at a time, a double initialisation or
  release), and \<open>BSocksClient_Free\<close> then releases every object exactly once, and the buffer.
\<close>

theorem socks_resources:
  assumes "sc_initial ais dest = Some s0" "dest_ok dest" "sc_reach s0 s"
  shows "(\<exists>s'. sc_run (BSocksClient_Free (s_c s)) s = Some s' \<and> sc_buffer (s_c s') = None \<and>
      s_res s' = \<lparr>r_connector = False, r_con = False, r_recv = False, r_send = False, r_sender = False\<rparr>) \<and>
    (sc_alive s \<longrightarrow> (\<forall>realloc. realloc_ok realloc \<longrightarrow>
      (sc_state (s_c s) = STATE_CONNECTING \<longrightarrow> (\<forall>con_ok is_error. ev_connect realloc con_ok is_error s \<noteq> None)) \<and>
      (s_send s \<noteq> None \<longrightarrow> ev_sent realloc s \<noteq> None) \<and>
      (\<forall>off n bs. s_recv s = Some (off, n) \<and> bs \<noteq> [] \<and> length bs \<le> n \<longrightarrow> ev_data realloc bs s \<noteq> None) \<and>
      (\<forall>e. sc_state (s_c s) \<noteq> STATE_CONNECTING \<longrightarrow> ev_broken e s \<noteq> None)))"
proof -
  note inv = sc_reach_inv [OF assms(3,1,2)]
  have "ev_connect realloc con_ok is_error s \<noteq> None"
    if "sc_alive s" "realloc_ok realloc" "sc_state (s_c s) = STATE_CONNECTING" for realloc con_ok is_error
    using ev_connect_inv [OF inv that(1,3,2)] by blast
  moreover have "ev_sent realloc s \<noteq> None" if "sc_alive s" "realloc_ok realloc" "s_send s \<noteq> None" for realloc
    using ev_sent_inv [OF inv that(1,3,2)] by blast
  moreover have "ev_data realloc bs s \<noteq> None"
    if "sc_alive s" "realloc_ok realloc" "s_recv s = Some (off, n)" "bs \<noteq> []" "length bs \<le> n" for realloc off n bs
    using ev_data_inv [OF inv that(1,3,4,5) assms(2) that(2)] by blast
  moreover have "ev_broken e s \<noteq> None" if "sc_state (s_c s) \<noteq> STATE_CONNECTING" for e
    using ev_broken_inv [OF inv that] by blast
  ultimately show ?thesis using BSocksClient_Free_releases [OF inv] by blast
qed

theorem socks_resources_witness:
  "\<exists>s0. sc_initial [BSocksClient_auth_none] demo_dest = Some s0 \<and> ev_connect demo_realloc True False s0 \<noteq> None"
proof -
  obtain s0 where s0: "sc_initial [BSocksClient_auth_none] demo_dest = Some s0" "sc_alive s0" "sc_state (s_c s0) = STATE_CONNECTING"
    using sc_initial_inv by blast
  from socks_resources [OF s0(1) demo_ok(3) sc_start] demo_ok(1) s0 show ?thesis by blast
qed

end
