(* ===== verification/Bavl.thy ===== *)
theory Bavl
  imports Addr
begin

text \<open>
  The AVL tree of \<open>structure/BAVL.h\<close>, on which the connection tables are built: nodes are embedded
  in the objects of the client and linked by parent and child pointers. The operations below are
  those of the header, statement by statement, on a memory of nodes; a null or dangling pointer
  that is followed and a violated \<open>ASSERT\<close> give \<open>None\<close>, and so does a loop that does not end. The
  contract of the comparator is the locale \<open>bavl_comparator\<close>, which the comparators of addresses and
  of connection identifiers meet. What the operations compute is shown in \<open>BavlInv\<close>.
\<close>

section \<open>Comparators\<close>

locale bavl_comparator =
  fixes cmp :: "'k \<Rightarrow> 'k \<Rightarrow> int" and dom_ok :: "'k \<Rightarrow> bool"
  assumes cmp_range: "\<lbrakk>dom_ok a; dom_ok b\<rbrakk> \<Longrightarrow> cmp a b \<in> {-1, 0, 1}"
    and cmp_zero: "\<lbrakk>dom_ok a; dom_ok b\<rbrakk> \<Longrightarrow> cmp a b = 0 \<longleftrightarrow> a = b"
    and cmp_antisym: "\<lbrakk>dom_ok a; dom_ok b\<rbrakk> \<Longrightarrow> cmp b a = - cmp a b"
    and cmp_trans: "\<lbrakk>dom_ok a; dom_ok b; dom_ok c; cmp a b = -1; cmp b c = -1\<rbrakk> \<Longrightarrow> cmp a c = -1"

definition uint16_comparator :: "u16 \<Rightarrow> u16 \<Rightarrow> int" where
  "uint16_comparator v1 v2 = B_COMPARE v1 v2"

interpretation conid_cmp: bavl_comparator uint16_comparator "\<lambda>_. True"
  by unfold_locales (auto simp: uint16_comparator_def B_COMPARE_def of_bool_def split: if_splits)

interpretation addr_cmp: bavl_comparator BAddr_CompareOrder BAddr_wf
proof (unfold_locales, goal_cases)
  case (1 a b)
  then show ?case by (auto simp: CompareOrder_key B_COMPARE_def)
next
  case (2 a b)
  then show ?case by (rule CompareOrder_zero)
next
  case (3 a b)
  then show ?case by (rule CompareOrder_antisym)
next
  case (4 a b c)
  then show ?case by (auto simp: CompareOrder_key B_COMPARE_def of_bool_def split: if_splits)
qed

section \<open>Nodes\<close>

text \<open>
  The array \<open>link[2]\<close> is indexed by a side, \<open>True\<close> for 1. The value of a node and the comparator are
  arguments of the operations that use them.
\<close>

record BAVLNode =
  nd_parent :: "ptr option"
  nd_link :: "bool \<Rightarrow> ptr option"
  nd_balance :: int

record BAVL =
  av_root :: "ptr option"
  av_mem :: "ptr \<rightharpoonup> BAVLNode"

definition parent_of :: "ptr \<Rightarrow> BAVL \<Rightarrow> ptr option option" where
  "parent_of p t = map_option nd_parent (av_mem t p)"

definition link_of :: "ptr \<Rightarrow> bool \<Rightarrow> BAVL \<Rightarrow> ptr option option" where
  "link_of p s t = map_option (\<lambda>n. nd_link n s) (av_mem t p)"

definition balance_of :: "ptr \<Rightarrow> BAVL \<Rightarrow> int option" where
  "balance_of p t = map_option nd_balance (av_mem t p)"

definition set_node :: "ptr \<Rightarrow> (BAVLNode \<Rightarrow> BAVLNode) \<Rightarrow> BAVL \<Rightarrow> BAVL option" where
  "set_node p f t = do { n \<leftarrow> av_mem t p; Some (t\<lparr>av_mem := (av_mem t)(p \<mapsto> f n)\<rparr>) }"

definition set_parent :: "ptr \<Rightarrow> ptr option \<Rightarrow> BAVL \<Rightarrow> BAVL option" where
  "set_parent p v = set_node p (\<lambda>n. n\<lparr>nd_parent := v\<rparr>)"

definition set_link :: "ptr \<Rightarrow> bool \<Rightarrow> ptr option \<Rightarrow> BAVL \<Rightarrow> BAVL option" where
  "set_link p s v = set_node p (\<lambda>n. n\<lparr>nd_link := (nd_link n)(s := v)\<rparr>)"

definition set_balance :: "ptr \<Rightarrow> int \<Rightarrow> BAVL \<Rightarrow> BAVL option" where
  "set_balance p b = set_node p (\<lambda>n. n\<lparr>nd_balance := b\<rparr>)"

text \<open>Recurring statements: \<open>if (x) x->parent = p\<close>, and replacing the pointer to \<open>old\<close> in its parent \<open>pp\<close> or at the root.\<close>

definition adopt :: "ptr option \<Rightarrow> ptr \<Rightarrow> BAVL \<Rightarrow> BAVL option" where
  "adopt x p t = (case x of None \<Rightarrow> Some t | Some c \<Rightarrow> set_parent c (Some p) t)"

definition relink :: "ptr option \<Rightarrow> ptr \<Rightarrow> ptr option \<Rightarrow> BAVL \<Rightarrow> BAVL option" where
  "relink pp old new t = (case pp of None \<Rightarrow> Some (t\<lparr>av_root := new\<rparr>)
     | Some q \<Rightarrow> do { r \<leftarrow> link_of q True t; set_link q (r = Some old) new t })"

definition BAVL_OPTNEG :: "int \<Rightarrow> bool \<Rightarrow> int" where
  "BAVL_OPTNEG a neg = (if neg then - a else a)"

section \<open>Rebalancing\<close>

definition BAVL_rotate :: "ptr \<Rightarrow> bool \<Rightarrow> BAVL \<Rightarrow> BAVL option" where
  "BAVL_rotate r dir t = do {
     nr0 \<leftarrow> link_of r (\<not> dir) t;
     nr \<leftarrow> nr0;
     x \<leftarrow> link_of nr dir t;
     t1 \<leftarrow> set_link r (\<not> dir) x t;
     x1 \<leftarrow> link_of r (\<not> dir) t1;
     t2 \<leftarrow> adopt x1 r t1;
     t3 \<leftarrow> set_link nr dir (Some r) t2;
     pp \<leftarrow> parent_of r t3;
     t4 \<leftarrow> set_parent nr pp t3;
     t5 \<leftarrow> relink pp r (Some nr) t4;
     set_parent r (Some nr) t5 }"

definition BAVL_transform :: "ptr \<Rightarrow> int \<Rightarrow> BAVL \<Rightarrow> (ptr \<times> int \<times> BAVL) option" where
  "BAVL_transform node delta t = do {
     b \<leftarrow> balance_of node t;
     if b = 2 \<or> b = -2 then do {
       let bside = (b = 2);
       let bsidef = (if b = 2 then 1 else -1);
       c0 \<leftarrow> link_of node bside t;
       child \<leftarrow> c0;
       cb \<leftarrow> balance_of child t;
       if cb * bsidef = 1 then do {
         t1 \<leftarrow> BAVL_rotate node (\<not> bside) t;
         t2 \<leftarrow> set_balance node 0 t1;
         t3 \<leftarrow> set_balance child 0 t2;
         Some (child, delta - 1, t3) }
       else if cb * bsidef = 0 then do {
         t1 \<leftarrow> BAVL_rotate node (\<not> bside) t;
         t2 \<leftarrow> set_balance node (1 * bsidef) t1;
         t3 \<leftarrow> set_balance child (-1 * bsidef) t2;
         Some (child, delta, t3) }
       else if cb * bsidef = -1 then do {
         g0 \<leftarrow> link_of child (\<not> bside) t;
         gchild \<leftarrow> g0;
         t1 \<leftarrow> BAVL_rotate child bside t;
         t2 \<leftarrow> BAVL_rotate node (\<not> bside) t1;
         gb \<leftarrow> balance_of gchild t2;
         t3 \<leftarrow> set_balance node (- max 0 (gb * bsidef) * bsidef) t2;
         t4 \<leftarrow> set_balance child (max 0 (- gb * bsidef) * bsidef) t3;
         t5 \<leftarrow> set_balance gchild 0 t4;
         Some (gchild, delta - 1, t5) }
       else None }
     else Some (node, delta, t) }"

partial_function (option) BAVL_rebalance :: "ptr \<Rightarrow> bool \<Rightarrow> int \<Rightarrow> BAVL \<Rightarrow> BAVL option" where
  "BAVL_rebalance node side deltac t = do {
     _ \<leftarrow> ASSERT (-1 \<le> deltac \<and> deltac \<le> 1);
     b \<leftarrow> balance_of node t;
     _ \<leftarrow> ASSERT (-1 \<le> b \<and> b \<le> 1);
     if deltac = 0 then Some t
     else do {
       let delta = max deltac (BAVL_OPTNEG b side) - max 0 (BAVL_OPTNEG b side);
       _ \<leftarrow> ASSERT (-1 \<le> delta \<and> delta \<le> 1);
       t1 \<leftarrow> set_balance node (b - BAVL_OPTNEG deltac side) t;
       (node2, delta2, t2) \<leftarrow> BAVL_transform node delta t1;
       _ \<leftarrow> ASSERT (-1 \<le> delta2 \<and> delta2 \<le> 1);
       pp \<leftarrow> parent_of node2 t2;
       (case pp of None \<Rightarrow> Some t2
        | Some q \<Rightarrow> do { r \<leftarrow> link_of q True t2; BAVL_rebalance q (r = Some node2) delta2 t2 }) } }"

section \<open>Insertion and removal\<close>

definition BAVL_Init :: "(ptr \<rightharpoonup> BAVLNode) \<Rightarrow> BAVL" where
  "BAVL_Init m = \<lparr>av_root = None, av_mem = m\<rparr>"

definition BAVL_compare_values :: "('k \<Rightarrow> 'k \<Rightarrow> int) \<Rightarrow> 'k \<Rightarrow> 'k \<Rightarrow> int option" where
  "BAVL_compare_values cmp v1 v2 = do {
     let res = cmp v1 v2;
     _ \<leftarrow> ASSERT (res = -1 \<or> res = 0 \<or> res = 1);
     Some res }"

text \<open>The search loop of insertion and of the lookups: the last node it visits and its comparison.\<close>

partial_function (option) BAVL_descend :: "('k \<Rightarrow> 'k \<Rightarrow> int) \<Rightarrow> (ptr \<Rightarrow> 'k) \<Rightarrow> BAVL \<Rightarrow> 'k \<Rightarrow> ptr \<Rightarrow> (int \<times> ptr) option" where
  "BAVL_descend cmp val t v c = do {
     comp \<leftarrow> BAVL_compare_values cmp v (val c);
     if comp = 0 then Some (0, c)
     else do {
       l \<leftarrow> link_of c (comp = 1) t;
       (case l of None \<Rightarrow> Some (comp, c) | Some d \<Rightarrow> BAVL_descend cmp val t v d) } }"

definition BAVL_Insert :: "('k \<Rightarrow> 'k \<Rightarrow> int) \<Rightarrow> (ptr \<Rightarrow> 'k) \<Rightarrow> ptr \<Rightarrow> BAVL \<Rightarrow> (bool \<times> ptr option \<times> BAVL) option" where
  "BAVL_Insert cmp val node t = (case av_root t of
     None \<Rightarrow> do {
       t1 \<leftarrow> set_node node (\<lambda>_. \<lparr>nd_parent = None, nd_link = (\<lambda>_. None), nd_balance = 0\<rparr>) (t\<lparr>av_root := Some node\<rparr>);
       Some (True, None, t1) }
   | Some root \<Rightarrow> do {
       (comp, c) \<leftarrow> BAVL_descend cmp val t (val node) root;
       if comp = 0 then Some (False, Some c, t)
       else do {
         let side = (comp = 1);
         t1 \<leftarrow> set_link c side (Some node) t;
         t2 \<leftarrow> set_node node (\<lambda>_. \<lparr>nd_parent = Some c, nd_link = (\<lambda>_. None), nd_balance = 0\<rparr>) t1;
         t3 \<leftarrow> BAVL_rebalance c side 1 t2;
         Some (True, Some c, t3) } })"

partial_function (option) BAVL_subtree_end :: "bool \<Rightarrow> BAVL \<Rightarrow> ptr \<Rightarrow> ptr option" where
  "BAVL_subtree_end side t n = do {
     l \<leftarrow> link_of n side t;
     (case l of None \<Rightarrow> Some n | Some c \<Rightarrow> BAVL_subtree_end side t c) }"

definition BAVL_subtree_max :: "BAVL \<Rightarrow> ptr \<Rightarrow> ptr option" where
  "BAVL_subtree_max t n = BAVL_subtree_end True t n"

definition BAVL_replace_subtree :: "ptr \<Rightarrow> ptr option \<Rightarrow> BAVL \<Rightarrow> BAVL option" where
  "BAVL_replace_subtree dest n t = do {
     pp \<leftarrow> parent_of dest t;
     t1 \<leftarrow> relink pp dest n t;
     (case n of None \<Rightarrow> Some t1
      | Some c \<Rightarrow> do { pp1 \<leftarrow> parent_of dest t1; set_parent c pp1 t1 }) }"

definition swap_adjacent :: "ptr \<Rightarrow> ptr \<Rightarrow> BAVL \<Rightarrow> BAVL option" where
  "swap_adjacent n1 n2 t = do {
     r \<leftarrow> link_of n1 True t;
     let side = (r = Some n2);
     c \<leftarrow> link_of n1 (\<not> side) t;
     l0 \<leftarrow> link_of n2 False t;
     t1 \<leftarrow> set_link n1 False l0 t;
     t2 \<leftarrow> adopt l0 n1 t1;
     l1 \<leftarrow> link_of n2 True t2;
     t3 \<leftarrow> set_link n1 True l1 t2;
     t4 \<leftarrow> adopt l1 n1 t3;
     pp \<leftarrow> parent_of n1 t4;
     t5 \<leftarrow> set_parent n2 pp t4;
     t6 \<leftarrow> relink pp n1 (Some n2) t5;
     t7 \<leftarrow> set_link n2 side (Some n1) t6;
     t8 \<leftarrow> set_parent n1 (Some n2) t7;
     t9 \<leftarrow> set_link n2 (\<not> side) c t8;
     adopt c n2 t9 }"

definition swap_children :: "bool \<Rightarrow> ptr \<Rightarrow> ptr \<Rightarrow> BAVL \<Rightarrow> BAVL option" where
  "swap_children side n1 n2 t = do {
     temp \<leftarrow> link_of n1 side t;
     x \<leftarrow> link_of n2 side t;
     t1 \<leftarrow> set_link n1 side x t;
     t2 \<leftarrow> adopt x n1 t1;
     t3 \<leftarrow> set_link n2 side temp t2;
     adopt temp n2 t3 }"

definition swap_distant :: "ptr \<Rightarrow> ptr \<Rightarrow> BAVL \<Rightarrow> BAVL option" where
  "swap_distant n1 n2 t = do {
     temp \<leftarrow> parent_of n1 t;
     pp \<leftarrow> parent_of n2 t;
     t1 \<leftarrow> set_parent n1 pp t;
     t2 \<leftarrow> relink pp n2 (Some n1) t1;
     t3 \<leftarrow> set_parent n2 temp t2;
     t4 \<leftarrow> relink temp n1 (Some n2) t3;
     t5 \<leftarrow> swap_children False n1 n2 t4;
     swap_children True n1 n2 t5 }"

definition BAVL_swap_nodes :: "ptr \<Rightarrow> ptr \<Rightarrow> BAVL \<Rightarrow> BAVL option" where
  "BAVL_swap_nodes n1 n2 t = do {
     p1 \<leftarrow> parent_of n1 t;
     p2 \<leftarrow> parent_of n2 t;
     t1 \<leftarrow> (if p2 = Some n1 \<or> p1 = Some n2
            then (if p1 = Some n2 then swap_adjacent n2 n1 t else swap_adjacent n1 n2 t)
            else swap_distant n1 n2 t);
     b1 \<leftarrow> balance_of n1 t1;
     b2 \<leftarrow> balance_of n2 t1;
     t2 \<leftarrow> set_balance n1 b2 t1;
     set_balance n2 b1 t2 }"

text \<open>The second half of the removal, of a node that has at most one child.\<close>

definition BAVL_unlink :: "ptr \<Rightarrow> BAVL \<Rightarrow> BAVL option" where
  "BAVL_unlink node t = do {
     k0 \<leftarrow> link_of node False t;
     k1 \<leftarrow> link_of node True t;
     _ \<leftarrow> ASSERT (\<not> (k0 \<noteq> None \<and> k1 \<noteq> None));
     parent \<leftarrow> parent_of node t;
     let child = (if k0 \<noteq> None then k0 else k1);
     (case parent of
        Some q \<Rightarrow> do {
          r \<leftarrow> link_of q True t;
          t1 \<leftarrow> BAVL_replace_subtree node child t;
          BAVL_rebalance q (r = Some node) (-1) t1 }
      | None \<Rightarrow> BAVL_replace_subtree node child t) }"

definition BAVL_Remove :: "ptr \<Rightarrow> BAVL \<Rightarrow> BAVL option" where
  "BAVL_Remove node t = do {
     l0 \<leftarrow> link_of node False t;
     l1 \<leftarrow> link_of node True t;
     t1 \<leftarrow> (case (l0, l1) of
            (Some l, Some r) \<Rightarrow> do {
              mx \<leftarrow> BAVL_subtree_max t l;
              BAVL_swap_nodes node mx t }
          | _ \<Rightarrow> Some t);
     BAVL_unlink node t1 }"

section \<open>Lookup and traversal\<close>

definition BAVL_IsEmpty :: "BAVL \<Rightarrow> bool" where
  "BAVL_IsEmpty t \<longleftrightarrow> av_root t = None"

definition BAVL_Lookup :: "('k \<Rightarrow> 'k \<Rightarrow> int) \<Rightarrow> (ptr \<Rightarrow> 'k) \<Rightarrow> BAVL \<Rightarrow> 'k \<Rightarrow> ptr option option" where
  "BAVL_Lookup cmp val t v = (case av_root t of None \<Rightarrow> Some None
     | Some root \<Rightarrow> do { (comp, c) \<leftarrow> BAVL_descend cmp val t v root; Some (Some c) })"

definition BAVL_LookupExact :: "('k \<Rightarrow> 'k \<Rightarrow> int) \<Rightarrow> (ptr \<Rightarrow> 'k) \<Rightarrow> BAVL \<Rightarrow> 'k \<Rightarrow> ptr option option" where
  "BAVL_LookupExact cmp val t v = (case av_root t of None \<Rightarrow> Some None
     | Some root \<Rightarrow> do { (comp, c) \<leftarrow> BAVL_descend cmp val t v root; Some (if comp = 0 then Some c else None) })"

definition BAVL_GetFirst :: "BAVL \<Rightarrow> ptr option option" where
  "BAVL_GetFirst t = (case av_root t of None \<Rightarrow> Some None
     | Some root \<Rightarrow> do { n \<leftarrow> BAVL_subtree_end False t root; Some (Some n) })"

definition BAVL_GetLast :: "BAVL \<Rightarrow> ptr option option" where
  "BAVL_GetLast t = (case av_root t of None \<Rightarrow> Some None
     | Some root \<Rightarrow> do { n \<leftarrow> BAVL_subtree_end True t root; Some (Some n) })"

text \<open>The parent of the first node on the way up that is not the child on the given side.\<close>

partial_function (option) BAVL_climb :: "bool \<Rightarrow> BAVL \<Rightarrow> ptr \<Rightarrow> ptr option option" where
  "BAVL_climb side t n = do {
     pp \<leftarrow> parent_of n t;
     (case pp of None \<Rightarrow> Some None
      | Some q \<Rightarrow> do {
          r \<leftarrow> link_of q side t;
          if r = Some n then BAVL_climb side t q else Some (Some q) }) }"

definition BAVL_step :: "bool \<Rightarrow> BAVL \<Rightarrow> ptr \<Rightarrow> ptr option option" where
  "BAVL_step side t n = do {
     l \<leftarrow> link_of n side t;
     (case l of Some c \<Rightarrow> do { m \<leftarrow> BAVL_subtree_end (\<not> side) t c; Some (Some m) }
      | None \<Rightarrow> BAVL_climb side t n) }"

definition BAVL_GetNext :: "BAVL \<Rightarrow> ptr \<Rightarrow> ptr option option" where
  "BAVL_GetNext t n = BAVL_step True t n"

definition BAVL_GetPrev :: "BAVL \<Rightarrow> ptr \<Rightarrow> ptr option option" where
  "BAVL_GetPrev t n = BAVL_step False t n"

section \<open>Verification at run time\<close>

partial_function (option) BAVL_assert_recurser :: "('k \<Rightarrow> 'k \<Rightarrow> int) \<Rightarrow> (ptr \<Rightarrow> 'k) \<Rightarrow> BAVL \<Rightarrow> ptr \<Rightarrow> int option" where
  "BAVL_assert_recurser cmp val t n = do {
     b \<leftarrow> balance_of n t;
     _ \<leftarrow> ASSERT (-1 \<le> b \<and> b \<le> 1);
     l0 \<leftarrow> link_of n False t;
     height_left \<leftarrow> (case l0 of None \<Rightarrow> Some 0
       | Some c \<Rightarrow> do {
           pc \<leftarrow> parent_of c t;
           _ \<leftarrow> ASSERT (pc = Some n);
           comp \<leftarrow> BAVL_compare_values cmp (val c) (val n);
           _ \<leftarrow> ASSERT (comp = -1);
           BAVL_assert_recurser cmp val t c });
     l1 \<leftarrow> link_of n True t;
     height_right \<leftarrow> (case l1 of None \<Rightarrow> Some 0
       | Some c \<Rightarrow> do {
           pc \<leftarrow> parent_of c t;
           _ \<leftarrow> ASSERT (pc = Some n);
           comp \<leftarrow> BAVL_compare_values cmp (val c) (val n);
           _ \<leftarrow> ASSERT (comp = 1);
           BAVL_assert_recurser cmp val t c });
     _ \<leftarrow> ASSERT (b = height_right - height_left);
     Some (max height_left height_right + 1) }"

definition BAVL_Verify :: "('k \<Rightarrow> 'k \<Rightarrow> int) \<Rightarrow> (ptr \<Rightarrow> 'k) \<Rightarrow> BAVL \<Rightarrow> unit option" where
  "BAVL_Verify cmp val t = (case av_root t of None \<Rightarrow> Some ()
     | Some root \<Rightarrow> do {
         pp \<leftarrow> parent_of root t;
         _ \<leftarrow> ASSERT (pp = None);
         _ \<leftarrow> BAVL_assert_recurser cmp val t root;
         Some () })"

end
