(* ===== verification/BavlInv.thy ===== *)
theory BavlInv
  imports Bavl
begin

text \<open>
  The correctness of the AVL tree. The heap of nodes is related to inductive trees by \<open>at\<close> (a subtree
  hangs below a parent pointer) and \<open>seg\<close> (the way from a position up to the root, as a list of
  frames); a frame lemma for each says that writing a node elsewhere leaves it alone. The writes of
  a rotation, of a swap and of a replacement then come out as changes of the inductive tree, and
  the height arithmetic of the rebalancing is done on the inductive trees alone.
\<close>

section \<open>Trees and contexts\<close>

datatype bt = Tip | Bt bt ptr int bt

fun inord :: "bt \<Rightarrow> ptr list" where
  "inord Tip = []"
| "inord (Bt l p b r) = inord l @ p # inord r"

abbreviation ptrs :: "bt \<Rightarrow> ptr set" where
  "ptrs t \<equiv> set (inord t)"

fun ht :: "bt \<Rightarrow> int" where
  "ht Tip = 0"
| "ht (Bt l p b r) = max (ht l) (ht r) + 1"

fun avl :: "bt \<Rightarrow> bool" where
  "avl Tip = True"
| "avl (Bt l p b r) \<longleftrightarrow> avl l \<and> avl r \<and> b = ht r - ht l \<and> -1 \<le> b \<and> b \<le> 1"

text \<open>A node whose child on the side \<open>s\<close> is \<open>x\<close>.\<close>

definition bn :: "bool \<Rightarrow> bt \<Rightarrow> ptr \<Rightarrow> int \<Rightarrow> bt \<Rightarrow> bt" where
  "bn s x p b y = (if s then Bt y p b x else Bt x p b y)"

type_synonym frame = "bool \<times> ptr \<times> int \<times> bt"

fun plug :: "bt \<Rightarrow> frame list \<Rightarrow> bt" where
  "plug t [] = t"
| "plug t ((s, p, b, y) # c) = plug (bn s t p b y) c"

fun cl :: "frame list \<Rightarrow> ptr list" where
  "cl [] = []"
| "cl ((s, p, b, y) # c) = (if s then cl c @ inord y @ [p] else cl c)"

fun cr :: "frame list \<Rightarrow> ptr list" where
  "cr [] = []"
| "cr ((s, p, b, y) # c) = (if s then cr c else p # inord y @ cr c)"

fun cptrs :: "frame list \<Rightarrow> ptr set" where
  "cptrs [] = {}"
| "cptrs ((s, p, b, y) # c) = insert p (set (inord y) \<union> cptrs c)"

lemma set_cl_cr: "set (cl c) \<union> set (cr c) = cptrs c"
  by (induction c rule: cptrs.induct) auto

lemma inord_bn: "inord (bn s x p b y) = (if s then inord y @ p # inord x else inord x @ p # inord y)"
  by (simp add: bn_def)

lemma ptrs_bn [simp]: "ptrs (bn s x p b y) = insert p (ptrs x \<union> ptrs y)"
  by (auto simp: bn_def)

lemma distinct_bn [simp]:
  "distinct (inord (bn s x p b y)) \<longleftrightarrow>
   distinct (inord x) \<and> distinct (inord y) \<and> p \<notin> ptrs x \<and> p \<notin> ptrs y \<and> ptrs x \<inter> ptrs y = {}"
  by (auto simp: bn_def)

lemma ht_bn [simp]: "ht (bn s x p b y) = max (ht x) (ht y) + 1"
  by (simp add: bn_def max.commute)

lemma avl_bn [simp]:
  "avl (bn s x p b y) \<longleftrightarrow> avl x \<and> avl y \<and> b = (if s then ht x - ht y else ht y - ht x) \<and> -1 \<le> b \<and> b \<le> 1"
  by (auto simp: bn_def)

lemma bn_not_Tip [simp]: "bn s x p b y \<noteq> Tip" "Tip \<noteq> bn s x p b y"
  by (simp_all add: bn_def)

lemma ht_nonneg: "0 \<le> ht t"
  by (induction t) auto

lemma ht_0 [simp]: "ht t = 0 \<longleftrightarrow> t = Tip"
proof (cases t)
  case (Bt l p b r)
  then show ?thesis using ht_nonneg [of l] by simp
qed simp

lemma bt_side: "t = Tip \<or> (\<exists>x p b y. t = bn s x p b y)"
  by (cases t; cases s) (auto simp: bn_def)

lemma inord_plug: "inord (plug t c) = cl c @ inord t @ cr c"
  by (induction t c rule: plug.induct) (simp_all add: inord_bn)

lemma plug_append: "plug t (c @ d) = plug (plug t c) d"
  by (induction t c rule: plug.induct) simp_all

fun cdist :: "frame list \<Rightarrow> bool" where
  "cdist [] = True"
| "cdist ((s, p, b, y) # c) \<longleftrightarrow> distinct (inord y) \<and> p \<notin> ptrs y \<and> p \<notin> cptrs c \<and> ptrs y \<inter> cptrs c = {} \<and> cdist c"

lemma distinct_cdist: "distinct (cl c @ cr c) \<longleftrightarrow> cdist c"
  by (induction c rule: cdist.induct) (auto simp flip: set_cl_cr)

lemma distinct_plug:
  "distinct (inord (plug t c)) \<longleftrightarrow> distinct (inord t) \<and> cdist c \<and> ptrs t \<inter> cptrs c = {}"
  by (auto simp: inord_plug simp flip: distinct_cdist set_cl_cr)

section \<open>The heap of a tree\<close>

fun at :: "(ptr \<rightharpoonup> BAVLNode) \<Rightarrow> ptr option \<Rightarrow> bt \<Rightarrow> ptr option \<Rightarrow> bool" where
  "at m par Tip r \<longleftrightarrow> r = None"
| "at m par (Bt x p b y) r \<longleftrightarrow> r = Some p \<and>
     (\<exists>lk. m p = Some \<lparr>nd_parent = par, nd_link = lk, nd_balance = b\<rparr> \<and>
        at m (Some p) x (lk False) \<and> at m (Some p) y (lk True))"

fun seg :: "(ptr \<rightharpoonup> BAVLNode) \<Rightarrow> frame list \<Rightarrow> ptr option \<Rightarrow> ptr option \<Rightarrow> ptr option \<Rightarrow> ptr option \<Rightarrow> bool" where
  "seg m [] ptop tp par r \<longleftrightarrow> par = ptop \<and> r = tp"
| "seg m ((s, p, b, y) # c) ptop tp par r \<longleftrightarrow> par = Some p \<and>
     (\<exists>pp lk. m p = Some \<lparr>nd_parent = pp, nd_link = lk, nd_balance = b\<rparr> \<and> lk s = r \<and>
        at m (Some p) y (lk (\<not> s)) \<and> seg m c ptop tp pp (Some p))"

lemma at_bn:
  "at m par (bn s x p b y) r \<longleftrightarrow> r = Some p \<and>
     (\<exists>lk. m p = Some \<lparr>nd_parent = par, nd_link = lk, nd_balance = b\<rparr> \<and>
        at m (Some p) x (lk s) \<and> at m (Some p) y (lk (\<not> s)))"
  by (auto simp: bn_def)

lemma at_top: "at m par t r \<Longrightarrow> r = None \<longleftrightarrow> t = Tip"
  by (cases t) auto

lemma at_top_in: "at m par t (Some x) \<Longrightarrow> x \<in> ptrs t"
  by (cases t) auto

lemma at_frame: "(\<And>x. x \<in> ptrs t \<Longrightarrow> m' x = m x) \<Longrightarrow> at m' par t r \<longleftrightarrow> at m par t r"
  by (induction t arbitrary: par r) auto

lemma at_other [simp]: "p \<notin> ptrs t \<Longrightarrow> at (m(p := v)) par t r \<longleftrightarrow> at m par t r"
  by (rule at_frame) auto

lemma seg_frame: "(\<And>x. x \<in> cptrs c \<Longrightarrow> m' x = m x) \<Longrightarrow> seg m' c ptop tp par r \<longleftrightarrow> seg m c ptop tp par r"
proof (induction c arbitrary: par r)
  case (Cons f c)
  obtain s p b y where f: "f = (s, p, b, y)" by (cases f)
  have y: "at m' q y u = at m q y u" for q u using Cons.prems by (intro at_frame) (auto simp: f)
  have c: "seg m' c ptop tp q u = seg m c ptop tp q u" for q u using Cons by (simp add: f)
  show ?case using Cons.prems [of p] by (simp add: f y c)
qed simp

lemma seg_other [simp]: "p \<notin> cptrs c \<Longrightarrow> seg (m(p := v)) c ptop tp par r \<longleftrightarrow> seg m c ptop tp par r"
  by (rule seg_frame) auto

lemma seg_append: "seg m (c @ d) ptop tp par r \<longleftrightarrow> (\<exists>pp q. seg m c pp q par r \<and> seg m d ptop tp pp q)"
proof (induction c arbitrary: par r)
  case (Cons f c)
  then show ?case by (cases f) auto
qed simp

lemma at_plug: "at m ptop (plug t c) tp \<longleftrightarrow> (\<exists>par r. seg m c ptop tp par r \<and> at m par t r)"
proof (induction t c rule: plug.induct)
  case (2 t s p b y c)
  then show ?case by (simp add: at_bn) blast
qed simp

lemma at_parent:
  "\<lbrakk>at m par t (Some x); m x = Some n; distinct (inord t)\<rbrakk> \<Longrightarrow> at (m(x \<mapsto> n\<lparr>nd_parent := par'\<rparr>)) par' t (Some x)"
  by (cases t) auto

lemmas node_ops = link_of_def parent_of_def balance_of_def set_node_def set_parent_def set_link_def
  set_balance_def adopt_def relink_def

definition holds :: "BAVL \<Rightarrow> bt \<Rightarrow> bool" where
  "holds t x \<longleftrightarrow> at (av_mem t) None x (av_root t) \<and> distinct (inord x)"

definition outside :: "ptr set \<Rightarrow> BAVL \<Rightarrow> BAVL \<Rightarrow> bool" where
  "outside S t t' \<longleftrightarrow> (\<forall>p. p \<notin> S \<longrightarrow> av_mem t' p = av_mem t p)"

lemma outside_trans: "\<lbrakk>outside S t t'; outside S t' t''\<rbrakk> \<Longrightarrow> outside S t t''"
  by (simp add: outside_def)

lemma holds_plug:
  "holds t (plug x c) \<longleftrightarrow> distinct (inord x) \<and> cdist c \<and> ptrs x \<inter> cptrs c = {} \<and>
     (\<exists>par r. seg (av_mem t) c None (av_root t) par r \<and> at (av_mem t) par x r)"
  by (auto simp: holds_def at_plug distinct_plug)

text \<open>
  Replacing a subtree: the pointer to it in its parent, or the root, is redirected.
\<close>

lemma relink_frames:
  assumes "seg (av_mem t) c ptop tp par (Some old)" "cdist c" "old \<notin> cptrs c" "c \<noteq> []"
  obtains t' where "relink par old new t = Some t'" "seg (av_mem t') c ptop tp par new" "av_root t' = av_root t"
    "\<And>p. p \<notin> cptrs c \<Longrightarrow> av_mem t' p = av_mem t p"
proof -
  obtain s p b y d where c: "c = (s, p, b, y) # d" using assms(4) by (cases c) auto
  obtain pp lk where n: "par = Some p" "av_mem t p = Some \<lparr>nd_parent = pp, nd_link = lk, nd_balance = b\<rparr>" "lk s = Some old"
    "at (av_mem t) (Some p) y (lk (\<not> s))" "seg (av_mem t) d ptop tp pp (Some p)"
    using assms(1) by (auto simp: c)
  have "old \<notin> ptrs y" using assms(3) by (simp add: c)
  then have side: "lk True = Some old \<longleftrightarrow> s" using n(3,4) at_top_in by (cases s) fastforce+
  have pd: "p \<notin> ptrs y" "p \<notin> cptrs d" using assms(2) by (auto simp: c)
  let ?n = "\<lparr>nd_parent = pp, nd_link = lk(s := new), nd_balance = b\<rparr>"
  show ?thesis
  proof (rule that [of "t\<lparr>av_mem := (av_mem t)(p \<mapsto> ?n)\<rparr>"])
    show "relink par old new t = Some (t\<lparr>av_mem := (av_mem t)(p \<mapsto> ?n)\<rparr>)"
      using n(1-3) side by (simp add: node_ops)
  qed (use n pd in \<open>auto simp: c\<close>)
qed

lemma relink_seg:
  assumes "seg (av_mem t) c None (av_root t) par (Some old)" "cdist c" "old \<notin> cptrs c"
  obtains t' where "relink par old new t = Some t'" "seg (av_mem t') c None (av_root t') par new"
    "\<And>p. p \<notin> cptrs c \<Longrightarrow> av_mem t' p = av_mem t p"
proof (cases "c = []")
  case True
  then show ?thesis using assms that [of "t\<lparr>av_root := new\<rparr>"] by (simp add: relink_def)
next
  case False
  obtain t' where "relink par old new t = Some t'" "seg (av_mem t') c None (av_root t) par new" "av_root t' = av_root t"
    "\<And>p. p \<notin> cptrs c \<Longrightarrow> av_mem t' p = av_mem t p"
    by (rule relink_frames [OF assms False, of new]) blast
  then show ?thesis using that [of t'] by simp
qed

lemma seg_top_parent:
  assumes "seg m c q (Some z) par r" "c \<noteq> []" "cdist c"
  shows "\<exists>n. m z = Some n \<and> z \<in> cptrs c \<and> seg (m(z \<mapsto> n\<lparr>nd_parent := p\<rparr>)) c p (Some z) par r"
  using assms
proof (induction c arbitrary: par r)
  case (Cons f c)
  obtain s x b y where f: "f = (s, x, b, y)" by (cases f)
  obtain pp lk where x: "m x = Some \<lparr>nd_parent = pp, nd_link = lk, nd_balance = b\<rparr>" "lk s = r" "at m (Some x) y (lk (\<not> s))"
    "seg m c q (Some z) pp (Some x)" "par = Some x" "x \<notin> ptrs y"
    using Cons.prems(1,3) by (auto simp: f)
  show ?case
  proof (cases "c = []")
    case True
    then show ?thesis using x by (auto simp: f at_other [unfolded fun_upd_def])
  next
    case False
    obtain n where n: "m z = Some n" "z \<in> cptrs c" "seg (m(z \<mapsto> n\<lparr>nd_parent := p\<rparr>)) c p (Some z) pp (Some x)"
      using Cons.IH [OF x(4) False] Cons.prems(3) by (auto simp: f fun_upd_def)
    then have "z \<noteq> x" "z \<notin> ptrs y" using Cons.prems(3) by (auto simp: f)
    then show ?thesis using n x by (auto simp: f fun_upd_def at_other [unfolded fun_upd_def])
  qed
qed simp

lemma adopt_seg:
  assumes "seg (av_mem t) c q (Some z) par r" "c \<noteq> []" "cdist c"
  obtains t' where "adopt (Some z) p t = Some t'" "seg (av_mem t') c (Some p) (Some z) par r" "av_root t' = av_root t"
    "\<And>y. y \<notin> cptrs c \<Longrightarrow> av_mem t' y = av_mem t y"
proof -
  obtain n where n: "av_mem t z = Some n" "z \<in> cptrs c" "seg ((av_mem t)(z \<mapsto> n\<lparr>nd_parent := Some p\<rparr>)) c (Some p) (Some z) par r"
    using seg_top_parent [OF assms] by blast
  show ?thesis
    by (rule that [of "t\<lparr>av_mem := (av_mem t)(z \<mapsto> n\<lparr>nd_parent := Some p\<rparr>)\<rparr>"]) (use n in \<open>auto simp: node_ops\<close>)
qed

lemma adopt_at:
  assumes "at (av_mem t) q x u" "distinct (inord x)"
  obtains t' where "adopt u p t = Some t'" "at (av_mem t') (Some p) x u" "av_root t' = av_root t"
    "\<And>y. y \<notin> ptrs x \<Longrightarrow> av_mem t' y = av_mem t y"
proof (cases u)
  case None
  then show ?thesis using assms that [of t] by (cases x) (auto simp: adopt_def)
next
  case (Some y)
  obtain n where n: "av_mem t y = Some n" using assms(1) Some by (cases x) auto
  have y: "y \<in> ptrs x" using assms(1) Some at_top_in by simp
  show ?thesis
    by (rule that [of "t\<lparr>av_mem := (av_mem t)(y \<mapsto> n\<lparr>nd_parent := Some p\<rparr>)\<rparr>"])
      (use assms n y Some at_parent in \<open>auto simp: node_ops\<close>)
qed

lemma rotate_holds:
  assumes "holds t (plug (bn (\<not> d) (bn d B nr nb C) r rb A) c)"
  obtains t' where "BAVL_rotate r d t = Some t'" "holds t' (plug (bn d (bn (\<not> d) B r rb A) nr nb C) c)"
    "outside (insert r (insert nr (ptrs B)) \<union> cptrs c) t t'"
proof -
  obtain par lr ln where s: "seg (av_mem t) c None (av_root t) par (Some r)"
    and r: "av_mem t r = Some \<lparr>nd_parent = par, nd_link = lr, nd_balance = rb\<rparr>" "lr (\<not> d) = Some nr" "at (av_mem t) (Some r) A (lr d)"
    and n: "av_mem t nr = Some \<lparr>nd_parent = Some r, nd_link = ln, nd_balance = nb\<rparr>"
      "at (av_mem t) (Some nr) B (ln d)" "at (av_mem t) (Some nr) C (ln (\<not> d))"
    and dist: "distinct (inord (bn (\<not> d) (bn d B nr nb C) r rb A))" "cdist c"
      "ptrs (bn (\<not> d) (bn d B nr nb C) r rb A) \<inter> cptrs c = {}"
    using assms by (auto simp: holds_plug at_bn)
  have d': "r \<noteq> nr" "r \<notin> ptrs A" "r \<notin> ptrs B" "r \<notin> ptrs C" "nr \<notin> ptrs A" "nr \<notin> ptrs B" "nr \<notin> ptrs C" "r \<notin> cptrs c"
    "nr \<notin> cptrs c" "ptrs A \<inter> ptrs B = {}" "ptrs A \<inter> ptrs C = {}" "ptrs B \<inter> ptrs C = {}" "ptrs A \<inter> cptrs c = {}"
    "ptrs B \<inter> cptrs c = {}" "ptrs C \<inter> cptrs c = {}" "distinct (inord A)" "distinct (inord B)" "distinct (inord C)" "ptrs C \<inter> ptrs B = {}"
    using dist by auto
  let ?t1 = "t\<lparr>av_mem := (av_mem t)(r \<mapsto> \<lparr>nd_parent = par, nd_link = lr(\<not> d := ln d), nd_balance = rb\<rparr>)\<rparr>"
  obtain t2 where t2: "adopt (ln d) r ?t1 = Some t2" "at (av_mem t2) (Some r) B (ln d)" "av_root t2 = av_root t"
    "\<And>y. y \<notin> ptrs B \<Longrightarrow> av_mem t2 y = av_mem ?t1 y"
    using adopt_at [of ?t1 "Some nr" B "ln d" r] n(2) d' by auto
  let ?t4 = "t2\<lparr>av_mem := (av_mem t2)(nr \<mapsto> \<lparr>nd_parent = par, nd_link = ln(d := Some r), nd_balance = nb\<rparr>)\<rparr>"
  have s4: "seg (av_mem ?t4) c None (av_root ?t4) par (Some r)"
  proof -
    have "seg (av_mem t2) c None (av_root t) par (Some r)"
    proof (rule seg_frame [THEN iffD2, rotated])
      fix x
      assume "x \<in> cptrs c"
      then have "x \<notin> ptrs B" "x \<noteq> r" using d' by auto
      then show "av_mem t2 x = av_mem t x" using t2(4) by simp
    qed (rule s)
    then show ?thesis using d' t2(3) by simp
  qed
  obtain t5 where t5: "relink par r (Some nr) ?t4 = Some t5" "seg (av_mem t5) c None (av_root t5) par (Some nr)"
    "\<And>p. p \<notin> cptrs c \<Longrightarrow> av_mem t5 p = av_mem ?t4 p"
    using relink_seg [OF s4 dist(2) d'(8)] by blast
  let ?t6 = "t5\<lparr>av_mem := (av_mem t5)(r \<mapsto> \<lparr>nd_parent = Some nr, nd_link = lr(\<not> d := ln d), nd_balance = rb\<rparr>)\<rparr>"
  have r2: "av_mem t2 r = Some \<lparr>nd_parent = par, nd_link = lr(\<not> d := ln d), nd_balance = rb\<rparr>"
    "av_mem t2 nr = av_mem t nr" using t2(4) d' by auto
  have ABC: "at (av_mem t5) q x u \<longleftrightarrow> at (av_mem t2) q x u" if "x = A \<or> x = B \<or> x = C" for q x u
    using that t5(3) d' by (intro at_frame) (auto simp: disjoint_iff)
  have AC: "at (av_mem t2) q x u \<longleftrightarrow> at (av_mem t) q x u" if "x = A \<or> x = C" for q x u
    using that t2(4) d' by (intro at_frame) (auto simp: disjoint_iff)
  show ?thesis
  proof (rule that [of ?t6])
    show "BAVL_rotate r d t = Some ?t6"
      using r n t2(1) t5 d' r2 by (simp add: BAVL_rotate_def link_of_def set_link_def set_node_def parent_of_def set_parent_def)
    show "holds ?t6 (plug (bn d (bn (\<not> d) B r rb A) nr nb C) c)"
      using dist t5(2) d' r2 r n ABC AC t2(2) t5(3) by (auto simp: holds_plug at_bn)
    show "outside (insert r (insert nr (ptrs B)) \<union> cptrs c) t ?t6"
      using t5(3) t2(4) by (auto simp: outside_def)
  qed
qed

section \<open>Rebalancing\<close>

lemma bn_flip: "bn (\<not> s) x p b y = bn s y p b x"
  by (simp add: bn_def)

lemma set_balance_holds:
  assumes "holds t (plug (bn s x p b y) c)"
  obtains t' where "set_balance p b' t = Some t'" "holds t' (plug (bn s x p b' y) c)" "outside {p} t t'"
proof -
  obtain par lk where n: "av_mem t p = Some \<lparr>nd_parent = par, nd_link = lk, nd_balance = b\<rparr>"
    using assms by (auto simp: holds_plug at_bn)
  show ?thesis
    by (rule that [of "t\<lparr>av_mem := (av_mem t)(p \<mapsto> \<lparr>nd_parent = par, nd_link = lk, nd_balance = b'\<rparr>)\<rparr>"])
      (use n assms in \<open>auto simp: node_ops outside_def holds_plug at_bn\<close>)
qed

lemma holds_reads:
  assumes "holds t (plug (bn s x p b y) c)"
  shows "balance_of p t = Some b"
    and "c = [] \<Longrightarrow> parent_of p t = Some None"
    and "c = (s', q, b', z) # d \<Longrightarrow> parent_of p t = Some (Some q) \<and> link_of q s' t = Some (Some p) \<and> (\<exists>r. link_of q True t = Some r \<and> (r = Some p \<longleftrightarrow> s'))"
    and "x = bn s1 x1 p1 b1 y1 \<Longrightarrow> link_of p s t = Some (Some p1)"
    and "x = Tip \<Longrightarrow> link_of p s t = Some None"
proof -
  assume c: "c = (s', q, b', z) # d"
  obtain lk where "link_of q True t = Some (lk True)" "parent_of p t = Some (Some q)" "lk s' = Some p" "at (av_mem t) (Some q) z (lk (\<not> s'))"
    "link_of q s' t = Some (lk s')"
    using assms by (auto simp: c holds_plug at_bn node_ops simp del: ptrs_bn distinct_bn)
  moreover have "p \<notin> ptrs z" using assms by (auto simp: c holds_plug)
  ultimately show "parent_of p t = Some (Some q) \<and> link_of q s' t = Some (Some p) \<and> (\<exists>r. link_of q True t = Some r \<and> (r = Some p \<longleftrightarrow> s'))"
    using at_top_in by (cases s') fastforce+
qed (use assms [unfolded holds_plug] in \<open>auto simp: at_bn node_ops\<close>)

lemma outside_mono: "\<lbrakk>outside S t t'; S \<subseteq> S'\<rbrakk> \<Longrightarrow> outside S' t t'"
  by (auto simp: outside_def)

lemma transform_heavy:
  assumes h: "holds t (plug (bn s ch p (if s then 2 else -2) a) c)" and avl: "avl ch" "avl a" and ht: "ht ch = ht a + 2"
  obtains t' X q x' b' y' where "BAVL_transform p delta t = Some (q, delta + (ht X - ht ch - 1), t')" "holds t' (plug X c)" "avl X"
    "inord X = inord (bn s ch p 0 a)" "X = bn s x' q b' y'" "ht X = ht ch + 1 \<or> ht X = ht ch"
    "outside (insert p (ptrs ch \<union> ptrs a) \<union> cptrs c) t t'"
proof -
  note found = that
  obtain g q cb e where ch: "ch = bn (\<not> s) g q cb e" using bt_side [of ch "\<not> s"] ht ht_nonneg [of a] by auto
  let ?f = "if s then 1 else -1 :: int"
  have cb: "cb * ?f = ht e - ht g" "-1 \<le> ht e - ht g" "ht e - ht g \<le> 1"
    using avl(1) by (auto simp: ch split: if_splits)
  have reads: "balance_of p t = Some (if s then 2 else -2)" "link_of p s t = Some (Some q)"
    using holds_reads [OF h] by (auto simp: ch)
  have hq: "holds t (plug (bn (\<not> s) g q cb e) ((s, p, if s then 2 else -2, a) # c))" using h by (simp add: ch)
  have readq: "balance_of q t = Some cb" by (rule holds_reads(1) [OF hq])
  have unf: "BAVL_transform p delta t =
    (if cb * ?f = 1 then do {
         t1 \<leftarrow> BAVL_rotate p (\<not> s) t; t2 \<leftarrow> set_balance p 0 t1; t3 \<leftarrow> set_balance q 0 t2; Some (q, delta - 1, t3) }
       else if cb * ?f = 0 then do {
         t1 \<leftarrow> BAVL_rotate p (\<not> s) t; t2 \<leftarrow> set_balance p ?f t1; t3 \<leftarrow> set_balance q (- ?f) t2; Some (q, delta, t3) }
       else do {
         g0 \<leftarrow> link_of q (\<not> s) t; gchild \<leftarrow> g0; t1 \<leftarrow> BAVL_rotate q s t; t2 \<leftarrow> BAVL_rotate p (\<not> s) t1;
         gb \<leftarrow> balance_of gchild t2; t3 \<leftarrow> set_balance p (- max 0 (gb * ?f) * ?f) t2;
         t4 \<leftarrow> set_balance q (max 0 (- gb * ?f) * ?f) t3; t5 \<leftarrow> set_balance gchild 0 t4; Some (gchild, delta - 1, t5) })"
    using reads readq cb by (cases s) (auto simp: BAVL_transform_def Let_def)
  obtain t1 where t1: "BAVL_rotate p (\<not> s) t = Some t1" "holds t1 (plug (bn (\<not> s) (bn s g p (if s then 2 else -2) a) q cb e) c)"
    "outside (insert p (insert q (ptrs g)) \<union> cptrs c) t t1"
    using rotate_holds [of t "\<not> s" g q cb e p "if s then 2 else -2" a c] h unfolding ch not_not by blast
  have single: thesis if f: "cb * ?f = 1 \<or> cb * ?f = 0"
  proof -
    let ?b = "if cb * ?f = 1 then 0 else ?f"
    obtain t2 where t2: "set_balance p ?b t1 = Some t2" "holds t2 (plug (bn (\<not> s) (bn s g p ?b a) q cb e) c)" "outside {p} t1 t2"
      using set_balance_holds [of t1 s g p _ a "(\<not> s, q, cb, e) # c" ?b] t1(2) by auto
    obtain t3 where t3: "set_balance q (- ?b) t2 = Some t3" "holds t3 (plug (bn (\<not> s) (bn s g p ?b a) q (- ?b) e) c)" "outside {q} t2 t3"
      using set_balance_holds [OF t2(2), of "- ?b"] by blast
    let ?X = "bn (\<not> s) (bn s g p ?b a) q (- ?b) e"
    have X: "BAVL_transform p delta t = Some (q, delta + (ht ?X - ht ch - 1), t3)"
      using t1(1) t2(1) t3(1) f cb ht unfolding unf by (auto simp: ch)
    show thesis
      by (rule found [OF X t3(2), of e "- ?b" "bn s g p ?b a"])
        (use f cb avl ht t1(3) t2(3) t3(3) in \<open>auto simp: ch inord_bn bn_flip outside_def\<close>)
  qed
  have double: thesis if f: "cb * ?f = -1"
  proof -
    let ?p = "if s then 2 else -2 :: int"
    have "ht g = ht e + 1" using f cb(1) by simp
    then obtain B k gb C where g: "g = bn s B k gb C" using bt_side [of g s] ht_nonneg [of e] by auto
    have gb: "gb * ?f = ht B - ht C" "-1 \<le> ht B - ht C" "ht B - ht C \<le> 1" using avl(1) by (auto simp: ch g split: if_splits)
    have k: "link_of q (\<not> s) t = Some (Some k)" using holds_reads(4) [OF hq] by (simp add: g)
    obtain t1 where t1: "BAVL_rotate q s t = Some t1" "holds t1 (plug (bn s (bn (\<not> s) B q cb e) k gb C) ((s, p, ?p, a) # c))"
      "outside (insert q (insert k (ptrs B)) \<union> cptrs ((s, p, ?p, a) # c)) t t1"
      using rotate_holds [of t s B k gb C q cb e] hq unfolding g by blast
    let ?q = "\<lambda>b. bn (\<not> s) B q b e"
    have h1: "holds t1 (plug (bn (\<not> \<not> s) (bn (\<not> s) C k gb (?q cb)) p ?p a) c)" using t1(2) by (simp add: bn_flip)
    obtain t2 where t2: "BAVL_rotate p (\<not> s) t1 = Some t2" "holds t2 (plug (bn (\<not> s) (bn s C p ?p a) k gb (?q cb)) c)"
      "outside (insert p (insert k (ptrs C)) \<union> cptrs c) t1 t2"
      using rotate_holds [OF h1] unfolding not_not by blast
    let ?bp = "- max 0 (gb * ?f) * ?f" and ?bq = "max 0 (- gb * ?f) * ?f"
    obtain t3 where t3: "set_balance p ?bp t2 = Some t3" "holds t3 (plug (bn (\<not> s) (bn s C p ?bp a) k gb (?q cb)) c)" "outside {p} t2 t3"
      using set_balance_holds [of t2 s C p ?p a "(\<not> s, k, gb, ?q cb) # c" ?bp] t2(2) by auto
    obtain t4 where t4: "set_balance q ?bq t3 = Some t4" "holds t4 (plug (bn (\<not> s) (bn s C p ?bp a) k gb (?q ?bq)) c)" "outside {q} t3 t4"
      using set_balance_holds [of t3 "\<not> s" B q cb e "(s, k, gb, bn s C p ?bp a) # c" ?bq] t3(2) by (auto simp: bn_flip)
    obtain t5 where t5: "set_balance k 0 t4 = Some t5" "holds t5 (plug (bn (\<not> s) (bn s C p ?bp a) k 0 (?q ?bq)) c)" "outside {k} t4 t5"
      using set_balance_holds [OF t4(2), of 0] by blast
    let ?X = "bn (\<not> s) (bn s C p ?bp a) k 0 (?q ?bq)"
    have hts: "max (ht B) (ht C) = ht a" "ht e = ht a" using ht f cb gb by (auto simp: ch g)
    then have "ht ?X - ht ch - 1 = -1" using ht by simp
    then have X: "BAVL_transform p delta t = Some (k, delta + (ht ?X - ht ch - 1), t5)"
      using t1(1) t2(1) t3(1) t4(1) t5(1) f k holds_reads(1) [OF t2(2)] unfolding unf by simp
    have bal: "avl ?X" using avl gb hts by (auto simp: ch g)
    show thesis
      by (rule found [OF X t5(2) bal, of "?q ?bq" 0 "bn s C p ?bp a"])
        (use ht hts t1(3) t2(3) t3(3) t4(3) t5(3) in \<open>auto simp: ch g inord_bn bn_flip outside_def\<close>)
  qed
  show ?thesis using single double cb by linarith
qed

text \<open>The frames of a context are balanced around a hole of height \<open>h\<close>.\<close>

fun cavl :: "frame list \<Rightarrow> int \<Rightarrow> bool" where
  "cavl [] h = True"
| "cavl ((s, p, b, y) # c) h \<longleftrightarrow> avl y \<and> b = (if s then h - ht y else ht y - h) \<and> -1 \<le> b \<and> b \<le> 1 \<and>
     cavl c (max h (ht y) + 1)"

lemma avl_plug: "avl (plug t c) \<longleftrightarrow> avl t \<and> cavl c (ht t)"
  by (induction t c rule: plug.induct) auto

lemma transform_light:
  assumes "holds t (plug (bn s x p b y) c)" "-1 \<le> b" "b \<le> 1"
  shows "BAVL_transform p delta t = Some (p, delta, t)"
  using holds_reads(1) [OF assms(1)] assms(2,3) by (simp add: BAVL_transform_def)

lemma transform_holds:
  assumes h: "holds t (plug (bn s x p b y) c)" and avl: "avl x" "avl y"
    and b: "b = (if s then ht x - ht y else ht y - ht x)" "-2 \<le> b" "b \<le> 2"
  obtains t' X s' x' q b' y' where "BAVL_transform p delta t = Some (q, delta + (ht X - (max (ht x) (ht y) + 1)), t')"
    "holds t' (plug X c)" "avl X" "inord X = inord (bn s x p 0 y)" "X = bn s' x' q b' y'"
    "ht X = max (ht x) (ht y) + 1 \<or> ht X = max (ht x) (ht y)" "-1 \<le> b \<and> b \<le> 1 \<longrightarrow> ht X = max (ht x) (ht y) + 1"
    "outside (insert p (ptrs x \<union> ptrs y) \<union> cptrs c) t t'"
proof -
  consider "-1 \<le> b \<and> b \<le> 1" | "ht x = ht y + 2" "b = (if s then 2 else -2)" | "ht y = ht x + 2" "b = (if \<not> s then 2 else -2)"
    using b by (cases s) (auto, linarith+)
  then show thesis
  proof cases
    case 1
    show thesis
      by (rule that [of p "bn s x p b y" t s x b y]) (use 1 h avl b transform_light [OF h] in \<open>auto simp: outside_def inord_bn\<close>)
  next
    case 2
    have h2: "holds t (plug (bn s x p (if s then 2 else -2) y) c)" using h by (simp add: 2(2))
    obtain t' X q x' b' y' where X: "BAVL_transform p delta t = Some (q, delta + (ht X - ht x - 1), t')" "holds t' (plug X c)" "avl X"
      "inord X = inord (bn s x p 0 y)" "X = bn s x' q b' y'" "ht X = ht x + 1 \<or> ht X = ht x"
      "outside (insert p (ptrs x \<union> ptrs y) \<union> cptrs c) t t'"
      by (rule transform_heavy [OF h2 avl 2(1), of delta])
    have "max (ht x) (ht y) = ht x" using 2(1) by simp
    then show thesis using that [of q X t' s x' b' y'] X 2(2) by (simp add: algebra_simps split: if_splits)
  next
    case 3
    have h3: "holds t (plug (bn (\<not> s) y p (if \<not> s then 2 else -2) x) c)" using h unfolding 3(2) bn_flip .
    obtain t' X q x' b' y' where X: "BAVL_transform p delta t = Some (q, delta + (ht X - ht y - 1), t')" "holds t' (plug X c)" "avl X"
      "inord X = inord (bn (\<not> s) y p 0 x)" "X = bn (\<not> s) x' q b' y'" "ht X = ht y + 1 \<or> ht X = ht y"
      "outside (insert p (ptrs y \<union> ptrs x) \<union> cptrs c) t t'"
      by (rule transform_heavy [OF h3 avl(2,1) 3(1), of delta])
    have "max (ht x) (ht y) = ht y" using 3(1) by simp
    then show thesis using that [of q X t' "\<not> s" x' b' y'] X 3(2) by (simp add: bn_flip Un_commute algebra_simps split: if_splits)
  qed
qed

text \<open>One level of the rebalancing, up to the continuation with the parent.\<close>

lemma rebalance_level:
  assumes h: "holds t (plug (bn s x p b y) c)" and avl: "avl x" "avl y" and b: "b = (if s then ht x - d - ht y else ht y - (ht x - d))"
    "-1 \<le> b" "b \<le> 1" and d: "-1 \<le> d" "d \<le> 1" "d \<noteq> 0"
  obtains t2 X s' x' q b' y' e where "e = ht X - (max (ht x - d) (ht y) + 1)" "-1 \<le> e" "e \<le> 1"
    "BAVL_rebalance p s d t = do { pp \<leftarrow> parent_of q t2; (case pp of None \<Rightarrow> Some t2
        | Some u \<Rightarrow> do { r \<leftarrow> link_of u True t2; BAVL_rebalance u (r = Some q) e t2 }) }"
    "holds t2 (plug X c)" "avl X" "inord X = inord (bn s x p b y)" "X = bn s' x' q b' y'"
    "outside (insert p (ptrs x \<union> ptrs y) \<union> cptrs c) t t2"
proof -
  define delta where "delta = max d (BAVL_OPTNEG b s) - max 0 (BAVL_OPTNEG b s)"
  have delta: "delta = max (ht x) (ht y) - max (ht x - d) (ht y)" "-1 \<le> delta" "delta \<le> 1"
    unfolding delta_def using b d by (auto simp: BAVL_OPTNEG_def)
  let ?b = "b - BAVL_OPTNEG d s"
  have b2: "?b = (if s then ht x - ht y else ht y - ht x)" "-2 \<le> ?b" "?b \<le> 2" using b d by (auto simp: BAVL_OPTNEG_def)
  obtain t1 where t1: "set_balance p ?b t = Some t1" "holds t1 (plug (bn s x p ?b y) c)" "outside {p} t t1"
    using set_balance_holds [OF h, of ?b] by blast
  obtain t2 X s' x' q b' y' where X: "BAVL_transform p delta t1 = Some (q, delta + (ht X - (max (ht x) (ht y) + 1)), t2)"
    "holds t2 (plug X c)" "avl X" "inord X = inord (bn s x p 0 y)" "X = bn s' x' q b' y'"
    "ht X = max (ht x) (ht y) + 1 \<or> ht X = max (ht x) (ht y)" "-1 \<le> ?b \<and> ?b \<le> 1 \<longrightarrow> ht X = max (ht x) (ht y) + 1"
    "outside (insert p (ptrs x \<union> ptrs y) \<union> cptrs c) t1 t2"
    by (rule transform_holds [OF t1(2) avl b2, of delta])
  let ?e = "delta + (ht X - (max (ht x) (ht y) + 1))"
  have e: "?e = ht X - (max (ht x - d) (ht y) + 1)" using delta(1) by simp
  have er: "-1 \<le> ?e \<and> ?e \<le> 1"
  proof (cases "-1 \<le> ?b \<and> ?b \<le> 1")
    case True
    then show ?thesis using X(7) delta by simp
  next
    case False
    then have "delta = (if d = 1 then 1 else 0)" using b d delta(1) b2(1) by (auto split: if_splits)
    then show ?thesis using X(6) d by auto
  qed
  show thesis
  proof (rule that [of ?e X q t2 s' x' b' y'])
    show "BAVL_rebalance p s d t = do { pp \<leftarrow> parent_of q t2; (case pp of None \<Rightarrow> Some t2
        | Some u \<Rightarrow> do { r \<leftarrow> link_of u True t2; BAVL_rebalance u (r = Some q) ?e t2 }) }"
      using holds_reads(1) [OF h] t1(1) X(1) b(2,3) d er delta(2,3)
      by (subst BAVL_rebalance.simps) (simp add: Let_def flip: delta_def)
    show "inord X = inord (bn s x p b y)" using X(4) by (simp add: inord_bn)
    show "outside (insert p (ptrs x \<union> ptrs y) \<union> cptrs c) t t2" using X(8) t1(3) by (auto simp: outside_def)
  qed (use e er X(2,3,5) in simp_all)
qed

lemma rebalance_holds:
  assumes "holds t (plug (bn s x p b y) c)" "avl x" "avl y" "b = (if s then ht x - d - ht y else ht y - (ht x - d))"
    "-1 \<le> b" "b \<le> 1" "-1 \<le> d" "d \<le> 1" "cavl c (max (ht x - d) (ht y) + 1)"
  shows "\<exists>t' X. BAVL_rebalance p s d t = Some t' \<and> holds t' X \<and> avl X \<and> inord X = inord (plug (bn s x p b y) c) \<and>
    outside (insert p (ptrs x \<union> ptrs y) \<union> cptrs c) t t'"
  using assms
proof (induction c arbitrary: t s x p b y d)
  case Nil
  show ?case
  proof (cases "d = 0")
    case True
    then show ?thesis using Nil holds_reads(1) [OF Nil(1)]
      by (intro exI [of _ t] exI [of _ "bn s x p b y"]) (auto simp: BAVL_rebalance.simps outside_def)
  next
    case False
    obtain t2 X s' x' q b' y' e where e: "e = ht X - (max (ht x - d) (ht y) + 1)" "-1 \<le> e" "e \<le> 1"
      and X: "BAVL_rebalance p s d t = do { pp \<leftarrow> parent_of q t2; (case pp of None \<Rightarrow> Some t2
        | Some u \<Rightarrow> do { r \<leftarrow> link_of u True t2; BAVL_rebalance u (r = Some q) e t2 }) }"
      "holds t2 (plug X [])" "avl X" "inord X = inord (bn s x p b y)" "X = bn s' x' q b' y'"
      "outside (insert p (ptrs x \<union> ptrs y) \<union> cptrs []) t t2"
      by (rule rebalance_level [OF Nil(1-8) False])
    have "parent_of q t2 = Some None" using holds_reads(2) [of t2 s' x' q b' y' "[]"] X(2,5) by simp
    then show ?thesis using X by auto
  qed
next
  case (Cons f c)
  obtain s' u b' z where f: "f = (s', u, b', z)" by (cases f)
  show ?case
  proof (cases "d = 0")
    case True
    then have "avl (plug (bn s x p b y) (f # c))" using Cons.prems by (auto simp: avl_plug)
    then show ?thesis using True Cons.prems holds_reads(1) [OF Cons.prems(1)]
      by (intro exI [of _ t] exI [of _ "plug (bn s x p b y) (f # c)"]) (auto simp: BAVL_rebalance.simps outside_def)
  next
    case False
    obtain t2 X s2 x2 q b2 y2 e where X: "e = ht X - (max (ht x - d) (ht y) + 1)" "-1 \<le> e" "e \<le> 1"
      "BAVL_rebalance p s d t = do { pp \<leftarrow> parent_of q t2; (case pp of None \<Rightarrow> Some t2
        | Some u \<Rightarrow> do { r \<leftarrow> link_of u True t2; BAVL_rebalance u (r = Some q) e t2 }) }"
      "holds t2 (plug X (f # c))" "avl X" "inord X = inord (bn s x p b y)" "X = bn s2 x2 q b2 y2"
      "outside (insert p (ptrs x \<union> ptrs y) \<union> cptrs (f # c)) t t2"
      by (rule rebalance_level [OF Cons.prems(1-8) False])
    have up: "BAVL_rebalance p s d t = BAVL_rebalance u s' e t2"
      using holds_reads(3) [of t2 s2 x2 q b2 y2 "f # c" s' u b' z c] X(4,5,8) by (auto simp: f)
    have c: "avl z" "b' = (if s' then ht X - e - ht z else ht z - (ht X - e))" "-1 \<le> b'" "b' \<le> 1" "cavl c (max (ht X - e) (ht z) + 1)"
      using Cons.prems(9) X(1) by (auto simp: f)
    obtain t' Y where Y: "BAVL_rebalance u s' e t2 = Some t'" "holds t' Y" "avl Y" "inord Y = inord (plug (bn s' X u b' z) c)"
      "outside (insert u (ptrs X \<union> ptrs z) \<union> cptrs c) t2 t'"
      using Cons.IH [of t2 s' X u b' z e] X c by (auto simp: f)
    have "ptrs X = insert p (ptrs x \<union> ptrs y)" using X(7) by (metis ptrs_bn)
    then show ?thesis using Y X(7,9) by (intro exI [of _ t'] exI [of _ Y]) (auto simp: up f inord_plug inord_bn outside_def)
  qed
qed

section \<open>Removal\<close>

fun top_ptr :: "bt \<Rightarrow> ptr option" where
  "top_ptr Tip = None"
| "top_ptr (Bt l p b r) = Some p"

lemma top_ptr_bn [simp]: "top_ptr (bn s x p b y) = Some p"
  by (simp add: bn_def)

lemma at_top_ptr: "at m par x r \<Longrightarrow> r = top_ptr x"
  by (cases x) auto

lemma cl_cr_append: "cl (c @ d) = cl d @ cl c" "cr (c @ d) = cr c @ cr d"
  by (induction c rule: cl.induct) simp_all

lemma cptrs_append: "cptrs (c @ d) = cptrs c \<union> cptrs d"
  by (induction c rule: cptrs.induct) auto

lemma cdist_append: "cdist (c @ d) \<longleftrightarrow> cdist c \<and> cdist d \<and> cptrs c \<inter> cptrs d = {}"
  by (induction c rule: cdist.induct) (auto simp: cptrs_append)

lemma replace_holds:
  assumes "holds t (plug (bn s x n b Tip) c)"
  obtains t' where "BAVL_replace_subtree n (top_ptr x) t = Some t'" "holds t' (plug x c)" "outside (ptrs x \<union> cptrs c) t t'"
proof -
  obtain par lk where s: "seg (av_mem t) c None (av_root t) par (Some n)" and x: "at (av_mem t) (Some n) x (lk s)"
    and n: "av_mem t n = Some \<lparr>nd_parent = par, nd_link = lk, nd_balance = b\<rparr>"
    and d: "distinct (inord x)" "n \<notin> ptrs x" "cdist c" "n \<notin> cptrs c" "ptrs x \<inter> cptrs c = {}"
    using assms by (auto simp: holds_plug at_bn)
  obtain t1 where t1: "relink par n (top_ptr x) t = Some t1" "seg (av_mem t1) c None (av_root t1) par (top_ptr x)"
    "\<And>p. p \<notin> cptrs c \<Longrightarrow> av_mem t1 p = av_mem t p"
    using relink_seg [OF s d(3,4), of "top_ptr x"] by blast
  have x1: "at (av_mem t1) (Some n) x (top_ptr x)"
    using x at_top_ptr [OF x] t1(3) d(5) by (subst at_frame [of _ "av_mem t1" "av_mem t"]) auto
  have n1: "parent_of n t = Some par" "parent_of n t1 = Some par" using n t1(3) [OF d(4)] by (simp_all add: parent_of_def)
  show ?thesis
  proof (cases x)
    case Tip
    show ?thesis
      by (rule that [of t1]) (use Tip t1 d n1 in \<open>auto simp: BAVL_replace_subtree_def holds_plug outside_def\<close>)
  next
    case (Bt l p b' r)
    obtain k where k: "av_mem t1 p = Some k" using x1 by (auto simp: Bt)
    let ?t = "t1\<lparr>av_mem := (av_mem t1)(p \<mapsto> k\<lparr>nd_parent := par\<rparr>)\<rparr>"
    have p: "p \<notin> cptrs c" "p \<in> ptrs x" using d(5) Bt by auto
    have "at (av_mem ?t) par x (Some p)" using at_parent [of "av_mem t1" "Some n" x p k] x1 k d(1) by (simp add: Bt)
    moreover have "seg (av_mem ?t) c None (av_root ?t) par (Some p)" using t1(2) p by (simp add: Bt)
    ultimately have "holds ?t (plug x c)" using d unfolding holds_plug by blast
    moreover have "BAVL_replace_subtree n (top_ptr x) t = Some ?t"
      using t1(1) n1 k by (simp add: BAVL_replace_subtree_def Bt set_parent_def set_node_def)
    moreover have "outside (ptrs x \<union> cptrs c) t ?t" using t1(3) p by (auto simp: outside_def)
    ultimately show ?thesis using that by blast
  qed
qed

lemma seg_ends: "\<lbrakk>seg m c ptop tp par r; c \<noteq> []\<rbrakk> \<Longrightarrow> (\<exists>y \<in> cptrs c. par = Some y) \<and> (\<exists>z \<in> cptrs c. tp = Some z)"
proof (induction c arbitrary: par r)
  case (Cons f c)
  then show ?case by (cases f; cases "c = []") auto
qed simp

lemma adopt_None: "adopt None p t = Some t"
  by (simp add: adopt_def)

text \<open>Two nodes of which one is the left child of the other and has no right child.\<close>

lemma swap_adjacent_holds:
  assumes h: "holds t (plug (Bt (Bt Q m bm Tip) n b r) c)"
  obtains t' where "swap_adjacent n m t = Some t'" "holds t' (plug (Bt (Bt Q n b Tip) m bm r) c)"
    "outside (insert n (insert m (ptrs Q \<union> ptrs r)) \<union> cptrs c) t t'"
proof -
  obtain par ln lm where s: "seg (av_mem t) c None (av_root t) par (Some n)"
    and n: "av_mem t n = Some \<lparr>nd_parent = par, nd_link = ln, nd_balance = b\<rparr>" "ln False = Some m" "at (av_mem t) (Some n) r (ln True)"
    and m: "av_mem t m = Some \<lparr>nd_parent = Some n, nd_link = lm, nd_balance = bm\<rparr>" "lm True = None" "at (av_mem t) (Some m) Q (lm False)"
    using h by (auto simp: holds_plug)
  have d: "n \<noteq> m" "n \<notin> ptrs Q" "n \<notin> ptrs r" "m \<notin> ptrs Q" "m \<notin> ptrs r" "n \<notin> cptrs c" "m \<notin> cptrs c" "ptrs Q \<inter> ptrs r = {}"
      "ptrs r \<inter> ptrs Q = {}" "ptrs Q \<inter> cptrs c = {}" "ptrs r \<inter> cptrs c = {}" "distinct (inord Q)" "distinct (inord r)" "cdist c"
    using h by (auto simp: holds_plug)
  have side: "ln True \<noteq> Some m" using at_top_in n(3) d(5) by auto
  let ?t1 = "t\<lparr>av_mem := (av_mem t)(n \<mapsto> \<lparr>nd_parent = par, nd_link = ln(False := lm False), nd_balance = b\<rparr>)\<rparr>"
  obtain t2 where t2: "adopt (lm False) n ?t1 = Some t2" "at (av_mem t2) (Some n) Q (lm False)" "av_root t2 = av_root t"
    "\<And>y. y \<notin> ptrs Q \<Longrightarrow> av_mem t2 y = av_mem ?t1 y"
    using adopt_at [of ?t1 "Some m" Q "lm False" n] m(3) d by auto
  let ?n = "\<lambda>pp. \<lparr>nd_parent = pp, nd_link = ln(False := lm False, True := None), nd_balance = b\<rparr>"
  let ?t5 = "t2\<lparr>av_mem := (av_mem t2)(n \<mapsto> ?n par, m \<mapsto> \<lparr>nd_parent = par, nd_link = lm, nd_balance = bm\<rparr>)\<rparr>"
  have s5: "seg (av_mem ?t5) c None (av_root ?t5) par (Some n)"
  proof -
    have "av_mem t2 x = av_mem t x" if "x \<in> cptrs c" for x
    proof -
      have "x \<notin> ptrs Q" "x \<noteq> n" using d that by auto
      then show ?thesis using t2(4) by simp
    qed
    then have "seg (av_mem t2) c None (av_root t) par (Some n)" using s seg_frame by metis
    then show ?thesis using d t2(3) by simp
  qed
  obtain t6 where t6: "relink par n (Some m) ?t5 = Some t6" "seg (av_mem t6) c None (av_root t6) par (Some m)"
    "\<And>p. p \<notin> cptrs c \<Longrightarrow> av_mem t6 p = av_mem ?t5 p"
    using relink_seg [OF s5 d(14) d(6), of "Some m"] by blast
  let ?t9 = "t6\<lparr>av_mem := (av_mem t6)(m \<mapsto> \<lparr>nd_parent = par, nd_link = lm(False := Some n), nd_balance = bm\<rparr>, n \<mapsto> ?n (Some m), m \<mapsto> \<lparr>nd_parent = par, nd_link = lm(False := Some n, True := ln True), nd_balance = bm\<rparr>)\<rparr>"
  have keep: "at (av_mem ?t9) q x u \<longleftrightarrow> at (av_mem t2) q x u" if "x = Q \<or> x = r" for q x u
    using that t6(3) d by (intro at_frame) (auto simp: disjoint_iff)
  have r2: "at (av_mem t2) (Some n) r (ln True)"
    using n(3) t2(4) d by (subst at_frame [of _ "av_mem t2" "av_mem t"]) (auto simp: disjoint_iff)
  have r9: "at (av_mem ?t9) (Some n) r (ln True)" using r2 keep [of r "Some n" "ln True"] by simp
  obtain t10 where t10: "adopt (ln True) m ?t9 = Some t10" "at (av_mem t10) (Some m) r (ln True)" "av_root t10 = av_root t6"
    "\<And>y. y \<notin> ptrs r \<Longrightarrow> av_mem t10 y = av_mem ?t9 y"
    using adopt_at [OF r9 d(13), of m] by auto
  have run: "swap_adjacent n m t = Some t10"
    using n m t2(1) t6(1) t10(1) side d t2(4) [of n] t2(4) [of m] t6(3) [of n] t6(3) [of m]
    by (simp add: swap_adjacent_def link_of_def parent_of_def set_link_def set_parent_def set_node_def adopt_None Let_def)
  have n10: "av_mem t10 n = Some (?n (Some m))"
    "av_mem t10 m = Some \<lparr>nd_parent = par, nd_link = lm(False := Some n, True := ln True), nd_balance = bm\<rparr>"
    using t10(4) d by auto
  have Q10: "at (av_mem t10) (Some n) Q (lm False)"
  proof -
    have "at (av_mem t10) (Some n) Q (lm False) \<longleftrightarrow> at (av_mem ?t9) (Some n) Q (lm False)"
      by (rule at_frame) (use t10(4) d in \<open>auto simp: disjoint_iff\<close>)
    then show ?thesis using keep [of Q "Some n" "lm False"] t2(2) by blast
  qed
  have s10: "seg (av_mem t10) c None (av_root t10) par (Some m)"
  proof -
    have "av_mem t10 x = av_mem t6 x" if "x \<in> cptrs c" for x
    proof -
      have "x \<notin> ptrs r" "x \<noteq> n" "x \<noteq> m" using d that by auto
      then show ?thesis using t10(4) by simp
    qed
    then show ?thesis using t6(2) seg_frame unfolding t10(3) by metis
  qed
  show ?thesis
  proof (rule that [OF run])
    show "holds t10 (plug (Bt (Bt Q n b Tip) m bm r) c)"
      using s10 n10 Q10 t10(2) d by (auto simp: holds_plug)
    show "outside (insert n (insert m (ptrs Q \<union> ptrs r)) \<union> cptrs c) t t10"
      using t10(4) t6(3) t2(4) by (simp add: outside_def)
  qed
qed

text \<open>Two nodes with others in between.\<close>

lemma at_off: "\<lbrakk>at m par x r; ptrs x \<inter> S = {}; \<And>p. p \<notin> S \<Longrightarrow> m' p = m p\<rbrakk> \<Longrightarrow> at m' par x r"
  by (subst at_frame [of x m' m]) auto

lemma seg_off: "\<lbrakk>seg m c ptop tp par r; cptrs c \<inter> S = {}; \<And>p. p \<notin> S \<Longrightarrow> m' p = m p\<rbrakk> \<Longrightarrow> seg m' c ptop tp par r"
  by (subst seg_frame [of c m' m]) auto

lemma swap_distant_holds:
  assumes h: "holds t (plug (Bt Q m bm Tip) (fs @ (False, n, b, r) # c))" and fs: "fs \<noteq> []"
  obtains t' where "swap_distant n m t = Some t'" "holds t' (plug (Bt Q n b Tip) (fs @ (False, m, bm, r) # c))"
    "outside (insert n (insert m (ptrs Q \<union> ptrs r)) \<union> cptrs fs \<union> cptrs c) t t'"
    "\<exists>par y. parent_of n t = Some par \<and> parent_of m t = Some y \<and> par \<noteq> Some m \<and> y \<noteq> Some n"
proof -
  obtain par ln lm pm where sc: "seg (av_mem t) c None (av_root t) par (Some n)"
    and sf0: "seg (av_mem t) fs (Some n) (ln False) pm (Some m)"
    and n: "av_mem t n = Some \<lparr>nd_parent = par, nd_link = ln, nd_balance = b\<rparr>" "at (av_mem t) (Some n) r (ln True)"
    and m: "av_mem t m = Some \<lparr>nd_parent = pm, nd_link = lm, nd_balance = bm\<rparr>" "lm True = None" "at (av_mem t) (Some m) Q (lm False)"
    using h by (auto simp: holds_plug seg_append)
  have d: "n \<noteq> m" "n \<notin> ptrs Q" "n \<notin> ptrs r" "m \<notin> ptrs Q" "m \<notin> ptrs r" "n \<notin> cptrs c" "m \<notin> cptrs c" "n \<notin> cptrs fs" "m \<notin> cptrs fs"
    "distinct (inord Q)" "distinct (inord r)" "cdist c" "cdist fs"
    using h by (auto simp: holds_plug cdist_append cptrs_append)
  have dis: "ptrs Q \<inter> ptrs r = {}" "ptrs Q \<inter> cptrs c = {}" "ptrs Q \<inter> cptrs fs = {}" "ptrs r \<inter> cptrs c = {}" "ptrs r \<inter> cptrs fs = {}"
    "cptrs fs \<inter> cptrs c = {}"
    using h by (auto simp: holds_plug cdist_append cptrs_append)
  obtain y z where yz: "pm = Some y" "ln False = Some z" "y \<in> cptrs fs" "z \<in> cptrs fs" using seg_ends [OF sf0 fs] by auto
  let ?t1 = "t\<lparr>av_mem := (av_mem t)(n \<mapsto> \<lparr>nd_parent = Some y, nd_link = ln, nd_balance = b\<rparr>)\<rparr>"
  have sf1: "seg (av_mem ?t1) fs (Some n) (Some z) (Some y) (Some m)" using sf0 d yz by simp
  obtain t2 where t2: "relink (Some y) m (Some n) ?t1 = Some t2" "seg (av_mem t2) fs (Some n) (Some z) (Some y) (Some n)" "av_root t2 = av_root t"
    "\<And>p. p \<notin> cptrs fs \<Longrightarrow> av_mem t2 p = av_mem ?t1 p"
    using relink_frames [OF sf1 d(13) d(9) fs, of "Some n"] by auto
  let ?t3 = "t2\<lparr>av_mem := (av_mem t2)(m \<mapsto> \<lparr>nd_parent = par, nd_link = lm, nd_balance = bm\<rparr>)\<rparr>"
  have "seg (av_mem ?t3) c None (av_root t) par (Some n)" using sc by (rule seg_off [of _ _ _ _ _ _ "{n, m} \<union> cptrs fs"]) (use dis d t2(4) in auto)
  then have sc3: "seg (av_mem ?t3) c None (av_root ?t3) par (Some n)" using t2(3) by simp
  obtain t4 where t4: "relink par n (Some m) ?t3 = Some t4" "seg (av_mem t4) c None (av_root t4) par (Some m)"
    "\<And>p. p \<notin> cptrs c \<Longrightarrow> av_mem t4 p = av_mem ?t3 p"
    using relink_seg [OF sc3 d(12) d(6), of "Some m"] by blast
  let ?t5 = "t4\<lparr>av_mem := (av_mem t4)(n \<mapsto> \<lparr>nd_parent = Some y, nd_link = ln(False := lm False), nd_balance = b\<rparr>)\<rparr>"
  have Q5: "at (av_mem ?t5) (Some m) Q (lm False)" using m(3) by (rule at_off [of _ _ _ _ "{n, m} \<union> cptrs fs \<union> cptrs c"]) (use dis d t4(3) t2(4) in auto)
  obtain t6 where t6: "adopt (lm False) n ?t5 = Some t6" "at (av_mem t6) (Some n) Q (lm False)" "av_root t6 = av_root t4"
    "\<And>y. y \<notin> ptrs Q \<Longrightarrow> av_mem t6 y = av_mem ?t5 y"
    using adopt_at [OF Q5 d(10), of n] by auto
  let ?t7 = "t6\<lparr>av_mem := (av_mem t6)(m \<mapsto> \<lparr>nd_parent = par, nd_link = lm(False := Some z), nd_balance = bm\<rparr>)\<rparr>"
  have sf7: "seg (av_mem ?t7) fs (Some n) (Some z) (Some y) (Some n)"
    using t2(2) by (rule seg_off [of _ _ _ _ _ _ "{n, m} \<union> cptrs c \<union> ptrs Q"]) (use dis d t6(4) t4(3) in auto)
  obtain t8 where t8: "adopt (Some z) m ?t7 = Some t8" "seg (av_mem t8) fs (Some m) (Some z) (Some y) (Some n)" "av_root t8 = av_root t6"
    "\<And>y. y \<notin> cptrs fs \<Longrightarrow> av_mem t8 y = av_mem ?t7 y"
    using adopt_seg [OF sf7 fs d(13), of m] by auto
  let ?n = "\<lparr>nd_parent = Some y, nd_link = ln(False := lm False, True := None), nd_balance = b\<rparr>"
    and ?m = "\<lparr>nd_parent = par, nd_link = lm(False := Some z, True := ln True), nd_balance = bm\<rparr>"
  let ?t10 = "t8\<lparr>av_mem := (av_mem t8)(n \<mapsto> ?n, m \<mapsto> ?m)\<rparr>"
  have r10: "at (av_mem ?t10) (Some n) r (ln True)" using n(2) by (rule at_off [of _ _ _ _ "{n, m} \<union> cptrs fs \<union> cptrs c \<union> ptrs Q"]) (use dis d t8(4) t6(4) t4(3) t2(4) in auto)
  obtain t11 where t11: "adopt (ln True) m ?t10 = Some t11" "at (av_mem t11) (Some m) r (ln True)" "av_root t11 = av_root t8"
    "\<And>y. y \<notin> ptrs r \<Longrightarrow> av_mem t11 y = av_mem ?t10 y"
    using adopt_at [OF r10 d(11), of m] by auto
  show ?thesis
  proof (rule that [of t11])
    show "swap_distant n m t = Some t11"
      using n(1) m(1,2) t2(1) t4(1) t6(1) t8(1) t11(1) d yz t2(4) [of n] t2(4) [of m] t4(3) [of n] t4(3) [of m] t6(4) [of n] t6(4) [of m]
        t8(4) [of n] t8(4) [of m]
      by (simp add: swap_distant_def swap_children_def link_of_def parent_of_def set_link_def set_parent_def set_node_def adopt_None)
    have "at (av_mem t11) (Some n) Q (lm False)"
      using t6(2) by (rule at_off [of _ _ _ _ "{n, m} \<union> cptrs fs \<union> ptrs r"]) (use dis d t11(4) t8(4) in auto)
    moreover have "seg (av_mem t11) fs (Some m) (Some z) (Some y) (Some n)"
      using t8(2) by (rule seg_off [of _ _ _ _ _ _ "{n, m} \<union> ptrs r"]) (use dis d t11(4) in auto)
    moreover have "seg (av_mem t11) c None (av_root t11) par (Some m)"
      using t4(2) unfolding t11(3) t8(3) t6(3) by (rule seg_off [of _ _ _ _ _ _ "{n, m} \<union> ptrs Q \<union> cptrs fs \<union> ptrs r"]) (use dis d t11(4) t8(4) t6(4) in auto)
    moreover have "av_mem t11 n = Some ?n" "av_mem t11 m = Some ?m" using t11(4) d by auto
    ultimately show "holds t11 (plug (Bt Q n b Tip) (fs @ (False, m, bm, r) # c))"
      using h t11(2) by (auto simp: holds_plug seg_append cdist_append cptrs_append)
    show "outside (insert n (insert m (ptrs Q \<union> ptrs r)) \<union> cptrs fs \<union> cptrs c) t t11"
      using t11(4) t8(4) t6(4) t4(3) t2(4) by (simp add: outside_def)
    have "par \<noteq> Some m" using seg_ends [OF sc] sc d(7) by (cases "c = []") auto
    then show "\<exists>par y. parent_of n t = Some par \<and> parent_of m t = Some y \<and> par \<noteq> Some m \<and> y \<noteq> Some n"
      using n(1) m(1) yz d(8) by (auto simp: parent_of_def)
  qed
qed

lemma plug_below: "plug x (fs @ (False, n, b, r) # c) = plug (Bt (plug x fs) n b r) c"
  by (simp add: plug_append bn_def)

lemma swap_holds:
  assumes h: "holds t (plug (Bt Q m bm Tip) (fs @ (False, n, b, r) # c))"
  obtains t' where "BAVL_swap_nodes n m t = Some t'" "holds t' (plug (Bt Q n bm Tip) (fs @ (False, m, b, r) # c))"
    "outside (insert n (insert m (ptrs Q \<union> ptrs r)) \<union> cptrs fs \<union> cptrs c) t t'"
proof -
  obtain t1 where t1: "BAVL_swap_nodes n m t = do { b1 \<leftarrow> balance_of n t1; b2 \<leftarrow> balance_of m t1; t2 \<leftarrow> set_balance n b2 t1; set_balance m b1 t2 }"
    "holds t1 (plug (Bt Q n b Tip) (fs @ (False, m, bm, r) # c))" "outside (insert n (insert m (ptrs Q \<union> ptrs r)) \<union> cptrs fs \<union> cptrs c) t t1"
  proof (cases "fs = []")
    case True
    then have h0: "holds t (plug (Bt (Bt Q m bm Tip) n b r) c)" using h by (simp add: bn_def)
    have "m \<notin> cptrs c" using h0 by (auto simp: holds_plug)
    obtain par where par: "seg (av_mem t) c None (av_root t) par (Some n)" "parent_of n t = Some par" "parent_of m t = Some (Some n)"
      using h0 by (auto simp: holds_plug parent_of_def)
    have "par \<noteq> Some m" using seg_ends [OF par(1)] par(1) \<open>m \<notin> cptrs c\<close> by (cases "c = []") auto
    moreover obtain t1 where "swap_adjacent n m t = Some t1" "holds t1 (plug (Bt (Bt Q n b Tip) m bm r) c)"
      "outside (insert n (insert m (ptrs Q \<union> ptrs r)) \<union> cptrs c) t t1" by (rule swap_adjacent_holds [OF h0])
    ultimately show ?thesis using that [of t1] True par(2,3) by (auto simp: BAVL_swap_nodes_def bn_def)
  next
    case False
    obtain t1 where "swap_distant n m t = Some t1" "holds t1 (plug (Bt Q n b Tip) (fs @ (False, m, bm, r) # c))"
      "outside (insert n (insert m (ptrs Q \<union> ptrs r)) \<union> cptrs fs \<union> cptrs c) t t1"
      "\<exists>par y. parent_of n t = Some par \<and> parent_of m t = Some y \<and> par \<noteq> Some m \<and> y \<noteq> Some n"
      by (rule swap_distant_holds [OF h False])
    then show ?thesis using that [of t1] by (auto simp: BAVL_swap_nodes_def)
  qed
  have hn: "holds t1 (plug (bn False Q n b Tip) (fs @ (False, m, bm, r) # c))" using t1(2) by (simp add: bn_def)
  have hm: "holds t1 (plug (bn False (plug (Bt Q n b Tip) fs) m bm r) c)" using t1(2) by (simp add: plug_below bn_def)
  obtain t2 where t2: "set_balance n bm t1 = Some t2" "holds t2 (plug (bn False Q n bm Tip) (fs @ (False, m, bm, r) # c))" "outside {n} t1 t2"
    using set_balance_holds [OF hn, of bm] by blast
  have hm2: "holds t2 (plug (bn False (plug (Bt Q n bm Tip) fs) m bm r) c)" using t2(2) by (simp add: plug_below bn_def)
  obtain t3 where t3: "set_balance m b t2 = Some t3" "holds t3 (plug (bn False (plug (Bt Q n bm Tip) fs) m b r) c)" "outside {m} t2 t3"
    using set_balance_holds [OF hm2, of b] by blast
  show ?thesis
  proof (rule that [of t3])
    show "BAVL_swap_nodes n m t = Some t3"
      using t1(1) t2(1) t3(1) holds_reads(1) [OF hn] holds_reads(1) [OF hm] by simp
    show "holds t3 (plug (Bt Q n bm Tip) (fs @ (False, m, b, r) # c))" using t3(2) by (simp add: plug_below bn_def)
  qed (use t1(3) t2(3) t3(3) in \<open>auto simp: outside_def\<close>)
qed

lemma subtree_end_holds:
  "\<lbrakk>holds t (plug x c); x \<noteq> Tip\<rbrakk> \<Longrightarrow> \<exists>fs Q q bq. BAVL_subtree_end s t (the (top_ptr x)) = Some q \<and>
     x = plug (bn s Tip q bq Q) fs \<and> (\<forall>f \<in> set fs. fst f = s)"
proof (induction x arbitrary: c)
  case (Bt l p b r)
  obtain x y where xy: "Bt l p b r = bn s x p b y" "x = (if s then r else l)" by (cases s) (auto simp: bn_def)
  have h: "holds t (plug (bn s x p b y) c)" using Bt.prems(1) xy(1) by simp
  show ?case
  proof (cases x)
    case Tip
    then have "BAVL_subtree_end s t p = Some p" using holds_reads(5) [OF h] by (subst BAVL_subtree_end.simps) simp
    then show ?thesis using xy(1) Tip by (intro exI [of _ "[]"] exI [of _ y] exI [of _ p] exI [of _ b]) simp
  next
    case (Bt l2 p2 b2 r2)
    have "x = bn False l2 p2 b2 r2" using Bt by (simp add: bn_def)
    then have "BAVL_subtree_end s t p = BAVL_subtree_end s t p2" using holds_reads(4) [OF h] by (subst BAVL_subtree_end.simps) simp
    moreover have "holds t (plug x ((s, p, b, y) # c))" using h by simp
    then obtain fs Q q bq where e: "BAVL_subtree_end s t (the (top_ptr x)) = Some q" "x = plug (bn s Tip q bq Q) fs" "\<forall>f \<in> set fs. fst f = s"
      using Bt.IH xy(2) Bt by (metis bt.distinct(1))
    have "BAVL_subtree_end s t p2 = Some q" using e(1) Bt by simp
    ultimately show ?thesis using xy(1) e(2,3)
      by (intro exI [of _ "fs @ [(s, p, b, y)]"] exI [of _ Q] exI [of _ q] exI [of _ bq]) (simp add: plug_append)
  qed
qed simp

lemma unlink_holds:
  assumes h: "holds t (plug (bn s x n b Tip) c)" and bal: "avl (plug (bn s x n b Tip) c)"
  shows "\<exists>t' Y. BAVL_unlink n t = Some t' \<and> holds t' Y \<and> avl Y \<and> inord Y = cl c @ inord x @ cr c \<and> outside (ptrs x \<union> cptrs c) t t'"
proof -
  obtain t1 where t1: "BAVL_replace_subtree n (top_ptr x) t = Some t1" "holds t1 (plug x c)" "outside (ptrs x \<union> cptrs c) t t1"
    by (rule replace_holds [OF h])
  have links: "link_of n s t = Some (top_ptr x)" "link_of n (\<not> s) t = Some None"
    using h at_top_ptr [of "av_mem t" "Some n" x] unfolding holds_plug at_bn link_of_def by auto
  have child: "BAVL_unlink n t = do { parent \<leftarrow> parent_of n t;
     (case parent of
        Some q \<Rightarrow> do { r \<leftarrow> link_of q True t; t1 \<leftarrow> BAVL_replace_subtree n (top_ptr x) t; BAVL_rebalance q (r = Some n) (-1) t1 }
      | None \<Rightarrow> BAVL_replace_subtree n (top_ptr x) t) }"
    using links by (cases s) (auto simp: BAVL_unlink_def Let_def)
  have x: "avl x" "cavl c (ht x + 1)" using bal ht_nonneg [of x] by (auto simp: avl_plug)
  show ?thesis
  proof (cases c)
    case Nil
    have "BAVL_unlink n t = Some t1" using child holds_reads(2) [OF h Nil] t1(1) by simp
    then show ?thesis using t1 x Nil by (intro exI [of _ t1] exI [of _ x]) simp
  next
    case (Cons f d)
    obtain s' q b' z where f: "f = (s', q, b', z)" by (cases f)
    have up: "BAVL_unlink n t = BAVL_rebalance q s' (-1) t1"
      using child holds_reads(3) [OF h Cons [unfolded f]] t1(1) by auto
    have hq: "holds t1 (plug (bn s' x q b' z) d)" using t1(2) by (simp add: Cons f)
    have bq: "avl x" "avl z" "b' = (if s' then ht x - -1 - ht z else ht z - (ht x - -1))" "-1 \<le> b'" "b' \<le> 1" "-1 \<le> (-1 :: int)" "(-1 :: int) \<le> 1"
      "cavl d (max (ht x - -1) (ht z) + 1)"
      using x by (auto simp: Cons f)
    obtain t' Y where "BAVL_rebalance q s' (-1) t1 = Some t'" "holds t' Y" "avl Y" "inord Y = inord (plug (bn s' x q b' z) d)"
      "outside (insert q (ptrs x \<union> ptrs z) \<union> cptrs d) t1 t'"
      using rebalance_holds [OF hq bq] by blast
    then show ?thesis using up t1(3) inord_plug [of x c]
      by (intro exI [of _ t'] exI [of _ Y]) (auto simp: Cons f outside_def)
  qed
qed

lemma plug_at: "n \<in> ptrs X \<Longrightarrow> \<exists>l b r c. X = plug (Bt l n b r) c"
proof (induction X)
  case (Bt l p b r)
  consider "n = p" | "n \<in> ptrs l" | "n \<in> ptrs r" using Bt.prems by auto
  then show ?case
  proof cases
    case 1
    then show ?thesis by (intro exI [of _ l] exI [of _ b] exI [of _ r] exI [of _ "[]"]) simp
  next
    case 2
    then obtain l2 b2 r2 c where "l = plug (Bt l2 n b2 r2) c" using Bt.IH(1) by blast
    then show ?thesis by (intro exI [of _ l2] exI [of _ b2] exI [of _ r2] exI [of _ "c @ [(False, p, b, r)]"]) (simp add: plug_append bn_def)
  next
    case 3
    then obtain l2 b2 r2 c where "r = plug (Bt l2 n b2 r2) c" using Bt.IH(2) by blast
    then show ?thesis by (intro exI [of _ l2] exI [of _ b2] exI [of _ r2] exI [of _ "c @ [(True, p, b, l)]"]) (simp add: plug_append bn_def)
  qed
qed simp

lemma right_path: "\<forall>f \<in> set fs. fst f = True \<Longrightarrow> cr fs = []"
  by (induction fs rule: cr.induct) auto

lemma avl_relabel: "avl (plug (Bt Q n bm Tip) (fs @ (False, m, b, r) # c)) \<longleftrightarrow> avl (plug (Bt Q m bm Tip) (fs @ (False, n, b, r) # c))"
proof -
  have "cavl (fs @ (False, m, b, r) # c) h \<longleftrightarrow> cavl (fs @ (False, n, b, r) # c) h" for h
    by (induction fs arbitrary: h rule: cl.induct) auto
  then show ?thesis by (simp add: avl_plug)
qed

lemma remove_holds:
  assumes h: "holds t X" and bal: "avl X" and n: "n \<in> ptrs X"
  shows "\<exists>t' Y. BAVL_Remove n t = Some t' \<and> holds t' Y \<and> avl Y \<and> inord Y = remove1 n (inord X) \<and> outside (ptrs X) t t'"
proof -
  obtain l b r c where X: "X = plug (Bt l n b r) c" using plug_at [OF n] by blast
  have dist: "distinct (inord X)" using h by (simp add: holds_def)
  have rem: "remove1 n (inord X) = cl c @ inord l @ inord r @ cr c"
    using dist by (auto simp: X inord_plug remove1_append)
  have sub: "ptrs X = ptrs l \<union> insert n (ptrs r) \<union> cptrs c" by (auto simp: X inord_plug simp flip: set_cl_cr)
  have hl: "holds t (plug (bn False l n b r) c)" and hr: "holds t (plug (bn True r n b l) c)" using h by (simp_all add: X bn_def)
  have links: "link_of n False t = Some (top_ptr l)" "link_of n True t = Some (top_ptr r)"
    using h at_top_ptr unfolding X holds_plug link_of_def by auto
  consider "l = Tip" | "r = Tip" | "l \<noteq> Tip" "r \<noteq> Tip" by blast
  then show ?thesis
  proof cases
    case 1
    have "BAVL_Remove n t = BAVL_unlink n t" using links 1 by (simp add: BAVL_Remove_def)
    then show ?thesis using unlink_holds [of t True r n b c] hr bal rem sub 1 by (auto simp: X bn_def outside_def)
  next
    case 2
    have "BAVL_Remove n t = BAVL_unlink n t" using links 2 by (cases "top_ptr l") (simp_all add: BAVL_Remove_def)
    then show ?thesis using unlink_holds [of t False l n b c] hl bal rem sub 2 by (auto simp: X bn_def outside_def)
  next
    case 3
    have "holds t (plug l ((False, n, b, r) # c))" using hl by simp
    then obtain fs Q q bq where q: "BAVL_subtree_end True t (the (top_ptr l)) = Some q" "l = plug (bn True Tip q bq Q) fs"
      "\<forall>f \<in> set fs. fst f = True" using subtree_end_holds [of t l _ True] 3(1) by blast
    let ?C = "fs @ (False, q, b, r) # c"
    have l: "l = plug (Bt Q q bq Tip) fs" using q(2) by (simp add: bn_def)
    have XC: "X = plug (Bt Q q bq Tip) (fs @ (False, n, b, r) # c)" by (simp add: X l plug_below)
    obtain t1 where t1: "BAVL_swap_nodes n q t = Some t1" "holds t1 (plug (Bt Q n bq Tip) ?C)"
      "outside (insert n (insert q (ptrs Q \<union> ptrs r)) \<union> cptrs fs \<union> cptrs c) t t1"
      using swap_holds [of t Q q bq fs n b r c] h unfolding XC by blast
    have h1: "holds t1 (plug (bn False Q n bq Tip) ?C)" "avl (plug (bn False Q n bq Tip) ?C)"
      using t1(2) bal unfolding XC avl_relabel [symmetric] by (simp_all add: bn_def)
    obtain t2 Y where Y: "BAVL_unlink n t1 = Some t2" "holds t2 Y" "avl Y" "inord Y = cl ?C @ inord Q @ cr ?C" "outside (ptrs Q \<union> cptrs ?C) t1 t2"
      using unlink_holds [OF h1] by blast
    have "BAVL_Remove n t = Some t2" using links q(1) t1(1) Y(1) 3
      by (cases "top_ptr l"; cases "top_ptr r"; cases l; cases r) (auto simp: BAVL_Remove_def BAVL_subtree_max_def)
    moreover have "inord l = cl fs @ inord Q @ [q]" by (simp add: l inord_plug right_path [OF q(3)])
    then have "inord Y = remove1 n (inord X)" by (simp add: Y(4) rem cl_cr_append right_path [OF q(3)])
    moreover have "ptrs l = cptrs fs \<union> insert q (ptrs Q)" by (auto simp: l inord_plug simp flip: set_cl_cr)
    then have "outside (ptrs X) t t2" using t1(3) Y(5) by (auto simp: sub outside_def cptrs_append)
    ultimately show ?thesis using Y(2,3) by blast
  qed
qed

section \<open>Traversal\<close>

lemma links_read:
  assumes "holds t (plug x ((s', q, b, y) # c))" "top_ptr x = Some p"
  shows "parent_of p t = Some (Some q)" and "\<exists>r. link_of q s t = Some r \<and> (r = Some p \<longleftrightarrow> s' = s)"
proof -
  obtain lk k where k: "av_mem t q = Some k" "nd_link k = lk" "lk s' = Some p" "at (av_mem t) (Some q) x (Some p)" "at (av_mem t) (Some q) y (lk (\<not> s'))"
    using assms at_top_ptr [of _ _ x] unfolding holds_plug by fastforce
  have "p \<in> ptrs x" using k(4) at_top_in by blast
  then have "p \<notin> ptrs y" using assms(1) by (auto simp: holds_plug)
  then have "lk (\<not> s') \<noteq> Some p" using k(5) at_top_in by metis
  then show "\<exists>r. link_of q s t = Some r \<and> (r = Some p \<longleftrightarrow> s' = s)"
    using k(1-3) by (cases "s = s'") (auto simp: link_of_def)
  show "parent_of p t = Some (Some q)" using k(4) by (cases x) (auto simp: parent_of_def)
qed

text \<open>The neighbour of a position outside its subtree.\<close>

definition beyond :: "bool \<Rightarrow> frame list \<Rightarrow> ptr option" where
  "beyond s c = (if s then (if cr c = [] then None else Some (hd (cr c))) else (if cl c = [] then None else Some (last (cl c))))"

lemma climb_holds: "\<lbrakk>holds t (plug x c); top_ptr x = Some p\<rbrakk> \<Longrightarrow> BAVL_climb s t p = Some (beyond s c)"
proof (induction c arbitrary: x p)
  case Nil
  then have "parent_of p t = Some None" by (cases x) (auto simp: holds_def parent_of_def)
  then show ?case by (subst BAVL_climb.simps) (simp add: beyond_def)
next
  case (Cons f c)
  obtain s' q b y where f: "f = (s', q, b, y)" by (cases f)
  note r = links_read [OF Cons.prems(1) [unfolded f] Cons.prems(2)]
  have "BAVL_climb s t p = (if s' = s then BAVL_climb s t q else Some (Some q))"
    using r(1) r(2) [of s] by (subst BAVL_climb.simps) auto
  moreover have "BAVL_climb s t q = Some (beyond s c)" using Cons.IH [of "bn s' x q b y" q] Cons.prems(1) by (simp add: f)
  ultimately show ?case by (auto simp: f beyond_def)
qed

lemma end_inord:
  assumes "x = plug (bn s Tip q bq Q) fs" "\<forall>f \<in> set fs. fst f = s"
  shows "inord x = (if s then cl fs @ inord Q @ [q] else q # inord Q @ cr fs)"
proof -
  have "(if s then cr fs else cl fs) = []" using assms(2) by (induction fs rule: cr.induct) auto
  then show ?thesis by (simp add: assms(1) inord_plug inord_bn split: if_splits)
qed

lemma subtree_end_inord:
  assumes "holds t (plug x c)" "x \<noteq> Tip"
  shows "BAVL_subtree_end s t (the (top_ptr x)) = Some (if s then last (inord x) else hd (inord x))"
proof -
  obtain fs Q q bq where q: "BAVL_subtree_end s t (the (top_ptr x)) = Some q" "x = plug (bn s Tip q bq Q) fs" "\<forall>f \<in> set fs. fst f = s"
    using subtree_end_holds [OF assms] by blast
  have "inord x = (if s then cl fs @ inord Q @ [q] else q # inord Q @ cr fs)" by (rule end_inord [OF q(2,3)])
  then show ?thesis using q(1) by simp
qed

lemma step_holds:
  assumes h: "holds t (plug (Bt l p b r) c)"
  shows "BAVL_GetNext t p = Some (if inord r = [] then beyond True c else Some (hd (inord r)))"
    and "BAVL_GetPrev t p = Some (if inord l = [] then beyond False c else Some (last (inord l)))"
proof -
  have links: "link_of p False t = Some (top_ptr l)" "link_of p True t = Some (top_ptr r)"
    using h at_top_ptr unfolding holds_plug link_of_def by auto
  have sub: "holds t (plug l ((False, p, b, r) # c))" "holds t (plug r ((True, p, b, l) # c))" using h by (simp_all add: bn_def)
  show "BAVL_GetNext t p = Some (if inord r = [] then beyond True c else Some (hd (inord r)))"
    using links(2) climb_holds [OF h] subtree_end_inord [OF sub(2), of False]
    by (cases r) (auto simp: BAVL_GetNext_def BAVL_step_def)
  show "BAVL_GetPrev t p = Some (if inord l = [] then beyond False c else Some (last (inord l)))"
    using links(1) climb_holds [OF h] subtree_end_inord [OF sub(1), of True]
    by (cases l) (auto simp: BAVL_GetPrev_def BAVL_step_def)
qed

lemma traversal:
  assumes h: "holds t X"
  shows "BAVL_GetFirst t = Some (if inord X = [] then None else Some (hd (inord X)))"
    and "BAVL_GetLast t = Some (if inord X = [] then None else Some (last (inord X)))"
    and "inord X = ys @ p # zs \<Longrightarrow> BAVL_GetNext t p = Some (if zs = [] then None else Some (hd zs))"
    and "inord X = ys @ p # zs \<Longrightarrow> BAVL_GetPrev t p = Some (if ys = [] then None else Some (last ys))"
proof -
  have root: "av_root t = top_ptr X" using h at_top_ptr by (auto simp: holds_def)
  have hX: "holds t (plug X [])" using h by simp
  show "BAVL_GetFirst t = Some (if inord X = [] then None else Some (hd (inord X)))"
    using root subtree_end_inord [OF hX, of False] by (cases X) (auto simp: BAVL_GetFirst_def)
  show "BAVL_GetLast t = Some (if inord X = [] then None else Some (last (inord X)))"
    using root subtree_end_inord [OF hX, of True] by (cases X) (auto simp: BAVL_GetLast_def)
  assume p: "inord X = ys @ p # zs"
  then obtain l b r c where X: "X = plug (Bt l p b r) c" using plug_at [of p X] by auto
  have "ys = cl c @ inord l" "zs = inord r @ cr c"
  proof -
    have e: "(cl c @ inord l) @ p # (inord r @ cr c) = ys @ p # zs" using p by (simp add: X inord_plug)
    have "distinct (ys @ p # zs)" using h p by (simp add: holds_def)
    then have "p \<notin> set ys" "p \<notin> set zs" by auto
    then show "ys = cl c @ inord l" "zs = inord r @ cr c" using append_Cons_eq_iff [of p ys zs "cl c @ inord l" "inord r @ cr c"] e by auto
  qed
  then show "BAVL_GetNext t p = Some (if zs = [] then None else Some (hd zs))"
    "BAVL_GetPrev t p = Some (if ys = [] then None else Some (last ys))"
    using step_holds [of t l p b r c] h by (auto simp: X beyond_def)
qed

section \<open>Search and insertion\<close>

text \<open>The nodes in order: a balanced tree over them is in memory, and their values increase.\<close>

definition bavl_tree :: "('k \<Rightarrow> 'k \<Rightarrow> int) \<Rightarrow> (ptr \<Rightarrow> 'k) \<Rightarrow> BAVL \<Rightarrow> ptr list \<Rightarrow> bool" where
  "bavl_tree cmp val t xs \<longleftrightarrow> (\<exists>X. holds t X \<and> avl X \<and> inord X = xs) \<and> sorted_wrt (\<lambda>p q. cmp (val p) (val q) = -1) xs"

lemma link_new:
  assumes "holds t (plug (bn s Tip q b y) c)" "av_mem t n \<noteq> None" "n \<notin> ptrs (plug (bn s Tip q b y) c)"
  obtains t1 t2 where "set_link q s (Some n) t = Some t1"
    "set_node n (\<lambda>_. \<lparr>nd_parent = Some q, nd_link = (\<lambda>_. None), nd_balance = 0\<rparr>) t1 = Some t2"
    "holds t2 (plug (bn s (Bt Tip n 0 Tip) q b y) c)" "outside {n, q} t t2"
proof -
  obtain par lk where q: "av_mem t q = Some \<lparr>nd_parent = par, nd_link = lk, nd_balance = b\<rparr>"
    using assms(1) by (auto simp: holds_plug at_bn)
  have n: "n \<noteq> q" "n \<notin> ptrs y" "n \<notin> cptrs c" using assms(3) by (auto simp: inord_plug inord_bn simp flip: set_cl_cr split: if_splits)
  let ?t1 = "t\<lparr>av_mem := (av_mem t)(q \<mapsto> \<lparr>nd_parent = par, nd_link = lk(s := Some n), nd_balance = b\<rparr>)\<rparr>"
  let ?t2 = "?t1\<lparr>av_mem := (av_mem ?t1)(n \<mapsto> \<lparr>nd_parent = Some q, nd_link = (\<lambda>_. None), nd_balance = 0\<rparr>)\<rparr>"
  show ?thesis
    by (rule that [of ?t1 ?t2]) (use assms q n in \<open>auto simp: node_ops holds_plug at_bn outside_def\<close>)
qed

context bavl_comparator
begin

lemma compare_ok: "\<lbrakk>dom_ok a; dom_ok b\<rbrakk> \<Longrightarrow> BAVL_compare_values cmp a b = Some (cmp a b)"
  using cmp_range by (fastforce simp: BAVL_compare_values_def Let_def)

lemma descend_holds:
  assumes "holds t (plug x c)" "x \<noteq> Tip" "dom_ok v" "\<forall>q \<in> ptrs x. dom_ok (val q)"
    "sorted_wrt (\<lambda>p q. cmp (val p) (val q) = -1) (inord x)"
    "\<forall>q \<in> set (cl c). cmp (val q) v = -1" "\<forall>q \<in> set (cr c). cmp v (val q) = -1"
  shows "(\<exists>q \<in> ptrs x. BAVL_descend cmp val t v (the (top_ptr x)) = Some (0, q) \<and> val q = v) \<or>
    (\<exists>s q b' y c'. BAVL_descend cmp val t v (the (top_ptr x)) = Some (if s then 1 else -1, q) \<and> plug x c = plug Tip ((s, q, b', y) # c') \<and>
       (\<forall>u \<in> set (cl ((s, q, b', y) # c')). cmp (val u) v = -1) \<and> (\<forall>u \<in> set (cr ((s, q, b', y) # c')). cmp v (val u) = -1))"
  using assms
proof (induction x arbitrary: c)
  case (Bt l p b r)
  have ok: "dom_ok (val p)" using Bt.prems by auto
  have go: "BAVL_descend cmp val t v p = (if cmp v (val p) = 0 then Some (0, p) else do {
       k \<leftarrow> link_of p (cmp v (val p) = 1) t;
       (case k of None \<Rightarrow> Some (cmp v (val p), p) | Some d \<Rightarrow> BAVL_descend cmp val t v d) })"
    by (subst BAVL_descend.simps) (simp add: compare_ok [OF \<open>dom_ok v\<close> ok])
  consider "cmp v (val p) = 0" | "cmp v (val p) = 1" | "cmp v (val p) = -1" using cmp_range [OF \<open>dom_ok v\<close> ok] by auto
  then show ?case
  proof cases
    case 1
    then have "v = val p" using cmp_zero [OF \<open>dom_ok v\<close> ok] by simp
    then show ?thesis using 1 go by (intro disjI1 bexI [of _ p]) simp_all
  next
    case 2
    let ?c = "(True, p, b, l) # c"
    have pv: "cmp (val p) v = -1" using cmp_antisym [OF \<open>dom_ok v\<close> ok] 2 by simp
    have lv: "\<forall>u \<in> ptrs l. cmp (val u) v = -1"
    proof
      fix u
      assume "u \<in> ptrs l"
      then have "dom_ok (val u)" "cmp (val u) (val p) = -1" using Bt.prems(4,5) by (simp_all add: sorted_wrt_append)
      then show "cmp (val u) v = -1" using cmp_trans [OF _ ok \<open>dom_ok v\<close> _ pv] by simp
    qed
    have h: "holds t (plug (bn True r p b l) c)" using Bt.prems(1) by (simp add: bn_def)
    have cl: "\<forall>q \<in> set (cl ?c). cmp (val q) v = -1" using Bt.prems(6) lv pv by (simp add: ball_Un)
    show ?thesis
    proof (cases r)
      case Tip
      then have "BAVL_descend cmp val t v p = Some (1, p)" using go 2 holds_reads(5) [OF h] by simp
      then show ?thesis using cl Bt.prems(7) Tip
        by (intro disjI2 exI [of _ True] exI [of _ p] exI [of _ b] exI [of _ l] exI [of _ c]) (simp add: bn_def)
    next
      case (Bt l2 p2 b2 r2)
      have eq: "BAVL_descend cmp val t v p = BAVL_descend cmp val t v p2"
        using go 2 holds_reads(4) [OF h, of True r2 p2 b2 l2] Bt by (simp add: bn_def)
      have pl: "plug (bt.Bt l p b r) c = plug r ?c" by (simp add: bn_def)
      have sub: "holds t (plug r ?c)" "\<forall>q \<in> ptrs r. dom_ok (val q)" "sorted_wrt (\<lambda>p q. cmp (val p) (val q) = -1) (inord r)" "r \<noteq> Tip"
        using Bt.prems(1,4,5) Bt unfolding pl by (simp_all add: sorted_wrt_append)
      have tp: "the (top_ptr r) = p2" using Bt by simp
      have cr': "\<forall>q \<in> set (cr ?c). cmp v (val q) = -1" using Bt.prems(7) by simp
      show ?thesis
        using "Bt.IH"(2) [OF sub(1,4) Bt.prems(3) sub(2,3) cl cr'] unfolding tp top_ptr.simps option.sel eq pl
        by (rule disj_forward) (fastforce, assumption)
    qed
  next
    case 3
    let ?c = "(False, p, b, r) # c"
    have rv: "\<forall>u \<in> ptrs r. cmp v (val u) = -1"
    proof
      fix u
      assume "u \<in> ptrs r"
      then have "dom_ok (val u)" "cmp (val p) (val u) = -1" using Bt.prems(4,5) by (simp_all add: sorted_wrt_append)
      then show "cmp v (val u) = -1" using cmp_trans [OF \<open>dom_ok v\<close> ok _ 3] by simp
    qed
    have h: "holds t (plug (bn False l p b r) c)" using Bt.prems(1) by (simp add: bn_def)
    have cr: "\<forall>q \<in> set (cr ?c). cmp v (val q) = -1" using Bt.prems(7) rv 3 by (simp add: ball_Un)
    show ?thesis
    proof (cases l)
      case Tip
      then have "BAVL_descend cmp val t v p = Some (-1, p)" using go 3 holds_reads(5) [OF h] by simp
      then show ?thesis using cr Bt.prems(6) Tip
        by (intro disjI2 exI [of _ False] exI [of _ p] exI [of _ b] exI [of _ r] exI [of _ c]) (simp add: bn_def)
    next
      case (Bt l2 p2 b2 r2)
      have eq: "BAVL_descend cmp val t v p = BAVL_descend cmp val t v p2"
        using go 3 holds_reads(4) [OF h, of False l2 p2 b2 r2] Bt by (simp add: bn_def)
      have pl: "plug (bt.Bt l p b r) c = plug l ?c" by (simp add: bn_def)
      have sub: "holds t (plug l ?c)" "\<forall>q \<in> ptrs l. dom_ok (val q)" "sorted_wrt (\<lambda>p q. cmp (val p) (val q) = -1) (inord l)" "l \<noteq> Tip"
        using Bt.prems(1,4,5) Bt unfolding pl by (simp_all add: sorted_wrt_append ball_Un)
      have tp: "the (top_ptr l) = p2" using Bt by simp
      have cl': "\<forall>q \<in> set (cl ?c). cmp (val q) v = -1" using Bt.prems(6) by simp
      show ?thesis
        using "Bt.IH"(1) [OF sub(1,4) Bt.prems(3) sub(2,3) cl' cr] unfolding tp top_ptr.simps option.sel eq pl
        by (rule disj_forward) (fastforce, assumption)
    qed
  qed
qed simp

lemma insert_tree:
  assumes tr: "bavl_tree cmp val t xs" and ok: "\<forall>q \<in> set xs. dom_ok (val q)" "dom_ok (val n)"
    and n: "av_mem t n \<noteq> None" "n \<notin> set xs"
  shows "(\<exists>q \<in> set xs. val q = val n \<and> BAVL_Insert cmp val n t = Some (False, Some q, t)) \<or>
    (\<exists>t' ref ys zs. BAVL_Insert cmp val n t = Some (True, ref, t') \<and> xs = ys @ zs \<and> bavl_tree cmp val t' (ys @ n # zs) \<and>
       outside (insert n (set xs)) t t' \<and> (\<forall>q \<in> set xs. val q \<noteq> val n) \<and>
       (if xs = [] then ref = None else ref = Some (last ys) \<or> ref = Some (hd zs)))"
proof -
  obtain X where X: "holds t X" "avl X" "inord X = xs" and s: "sorted_wrt (\<lambda>p q. cmp (val p) (val q) = -1) xs"
    using tr by (auto simp: bavl_tree_def)
  show ?thesis
  proof (cases X)
    case Tip
    let ?t = "t\<lparr>av_root := Some n, av_mem := (av_mem t)(n \<mapsto> \<lparr>nd_parent = None, nd_link = (\<lambda>_. None), nd_balance = 0\<rparr>)\<rparr>"
    have "BAVL_Insert cmp val n t = Some (True, None, ?t)" using X(1) n(1) Tip by (auto simp: BAVL_Insert_def holds_def node_ops)
    moreover have "holds ?t (Bt Tip n 0 Tip)" by (simp add: holds_def)
    then have "bavl_tree cmp val ?t [n]" unfolding bavl_tree_def by (intro conjI exI [of _ "Bt Tip n 0 Tip"]) simp_all
    ultimately show ?thesis using X(3) Tip by (intro disjI2 exI [of _ ?t] exI [of _ None] exI [of _ "[]"]) (simp add: outside_def)
  next
    case (Bt l p b r)
    have root: "av_root t = Some p" using X(1) by (simp add: holds_def Bt)
    have pre: "holds t (plug X [])" "X \<noteq> Tip" "dom_ok (val n)" "\<forall>q \<in> ptrs X. dom_ok (val q)"
      "sorted_wrt (\<lambda>p q. cmp (val p) (val q) = -1) (inord X)" "\<forall>q \<in> set (cl []). cmp (val q) (val n) = -1"
      "\<forall>q \<in> set (cr []). cmp (val n) (val q) = -1"
      using X ok s Bt by simp_all
    have tp: "the (top_ptr X) = p" by (simp add: Bt)
    have D: "(\<exists>q \<in> set xs. BAVL_descend cmp val t (val n) p = Some (0, q) \<and> val q = val n) \<or>
      (\<exists>s q b' y c'. BAVL_descend cmp val t (val n) p = Some (if s then 1 else -1, q) \<and> X = plug Tip ((s, q, b', y) # c') \<and>
       (\<forall>u \<in> set (cl ((s, q, b', y) # c')). cmp (val u) (val n) = -1) \<and> (\<forall>u \<in> set (cr ((s, q, b', y) # c')). cmp (val n) (val u) = -1))"
      using descend_holds [OF pre] unfolding X(3) tp plug.simps(1) by simp
    then show ?thesis
    proof (rule disj_forward)
      assume "\<exists>q \<in> set xs. BAVL_descend cmp val t (val n) p = Some (0, q) \<and> val q = val n"
      then show "\<exists>q \<in> set xs. val q = val n \<and> BAVL_Insert cmp val n t = Some (False, Some q, t)"
        by (auto simp: BAVL_Insert_def root)
    next
      assume "\<exists>s q b' y c'. BAVL_descend cmp val t (val n) p = Some (if s then 1 else -1, q) \<and> X = plug Tip ((s, q, b', y) # c') \<and>
       (\<forall>u \<in> set (cl ((s, q, b', y) # c')). cmp (val u) (val n) = -1) \<and> (\<forall>u \<in> set (cr ((s, q, b', y) # c')). cmp (val n) (val u) = -1)"
      then obtain d q b' y c' where q: "BAVL_descend cmp val t (val n) p = Some (if d then 1 else -1, q)" "X = plug Tip ((d, q, b', y) # c')"
        "\<forall>u \<in> set (cl ((d, q, b', y) # c')). cmp (val u) (val n) = -1" "\<forall>u \<in> set (cr ((d, q, b', y) # c')). cmp (val n) (val u) = -1"
        by blast
      let ?C = "(d, q, b', y) # c'"
      have xs: "xs = cl ?C @ cr ?C" using X(3) unfolding q(2) inord_plug by simp
      obtain t1 t2 where t2: "set_link q d (Some n) t = Some t1"
        "set_node n (\<lambda>_. \<lparr>nd_parent = Some q, nd_link = (\<lambda>_. None), nd_balance = 0\<rparr>) t1 = Some t2"
        "holds t2 (plug (bn d (Bt Tip n 0 Tip) q b' y) c')" "outside {n, q} t t2"
        using link_new [of t d q b' y c' n] X(1,3) n unfolding q(2) by auto
      let ?N = "Bt Tip n 0 Tip"
      have bal: "avl ?N" "avl y" "b' = (if d then ht ?N - 1 - ht y else ht y - (ht ?N - 1))" "-1 \<le> b'" "b' \<le> 1" "-1 \<le> (1::int)" "(1::int) \<le> 1"
        "cavl c' (max (ht ?N - 1) (ht y) + 1)"
        using X(2) unfolding q(2) avl_plug by auto
      obtain t3 Y where Y: "BAVL_rebalance q d 1 t2 = Some t3" "holds t3 Y" "avl Y" "inord Y = inord (plug (bn d (Bt Tip n 0 Tip) q b' y) c')"
        "outside (insert q (ptrs (Bt Tip n 0 Tip) \<union> ptrs y) \<union> cptrs c') t2 t3"
        using rebalance_holds [OF t2(3) bal] by blast
      have inY: "inord Y = cl ?C @ n # cr ?C" using Y(4) inord_plug [of "Bt Tip n 0 Tip" ?C] by simp
      have ins: "BAVL_Insert cmp val n t = Some (True, Some q, t3)"
        using root q(1) t2(1,2) Y(1) by (cases d) (simp_all add: BAVL_Insert_def Let_def)
      have ne: "val u \<noteq> val n" if "u \<in> set xs" for u
        using that q(3,4) ok cmp_zero [of "val n" "val n"] unfolding xs by auto
      have sort: "sorted_wrt (\<lambda>p q. cmp (val p) (val q) = -1) (cl ?C @ n # cr ?C)"
        using s q(3,4) unfolding xs by (simp add: sorted_wrt_append)
      have "outside (insert n (set xs)) t t3"
        using t2(4) Y(5) set_cl_cr [of ?C] unfolding xs by (auto simp: outside_def)
      moreover have "Some q = Some (last (cl ?C)) \<or> Some q = Some (hd (cr ?C))" by simp
      moreover have "xs \<noteq> []" using X(3) Bt by auto
      ultimately show "\<exists>t' ref ys zs. BAVL_Insert cmp val n t = Some (True, ref, t') \<and> xs = ys @ zs \<and> bavl_tree cmp val t' (ys @ n # zs) \<and>
       outside (insert n (set xs)) t t' \<and> (\<forall>q \<in> set xs. val q \<noteq> val n) \<and>
       (if xs = [] then ref = None else ref = Some (last ys) \<or> ref = Some (hd zs))"
        using ins xs Y(2,3) inY sort ne unfolding bavl_tree_def
        by (intro exI [of _ t3] exI [of _ "Some q"] exI [of _ "cl ?C"] exI [of _ "cr ?C"]) auto
    qed
  qed
qed

lemma lookup_tree:
  assumes tr: "bavl_tree cmp val t xs" and ok: "\<forall>q \<in> set xs. dom_ok (val q)" "dom_ok v"
  shows "\<exists>r. BAVL_LookupExact cmp val t v = Some r \<and> (\<forall>p. r = Some p \<longleftrightarrow> p \<in> set xs \<and> val p = v)"
    and "\<exists>r. BAVL_Lookup cmp val t v = Some r \<and> (r = None \<longleftrightarrow> xs = []) \<and>
      (\<forall>p. r = Some p \<longrightarrow> p \<in> set xs \<and> ((\<exists>q \<in> set xs. val q = v) \<longrightarrow> val p = v))"
proof -
  obtain X where X: "holds t X" "avl X" "inord X = xs" and s: "sorted_wrt (\<lambda>p q. cmp (val p) (val q) = -1) xs"
    using tr by (auto simp: bavl_tree_def)
  have uniq: "p = q" if "p \<in> set xs" "q \<in> set xs" "val p = val q" for p q
  proof -
    have "val p \<noteq> val q" if "i < j" "j < length xs" "p = xs ! i" "q = xs ! j" for i j p q
    proof -
      have "cmp (val p) (val q) = -1" using sorted_wrt_nth_less [OF s that(1,2)] that(3,4) by simp
      moreover have "dom_ok (val p)" using ok(1) that by simp
      ultimately show ?thesis using cmp_zero [of "val p" "val p"] by auto
    qed
    then show ?thesis using that by (metis in_set_conv_nth linorder_neqE_nat)
  qed
  have "(\<exists>r. BAVL_LookupExact cmp val t v = Some r \<and> (\<forall>p. r = Some p \<longleftrightarrow> p \<in> set xs \<and> val p = v)) \<and>
    (\<exists>r. BAVL_Lookup cmp val t v = Some r \<and> (r = None \<longleftrightarrow> xs = []) \<and>
      (\<forall>p. r = Some p \<longrightarrow> p \<in> set xs \<and> ((\<exists>q \<in> set xs. val q = v) \<longrightarrow> val p = v)))"
  proof (cases X)
    case Tip
    then show ?thesis using X(1,3) by (auto simp: holds_def BAVL_LookupExact_def BAVL_Lookup_def)
  next
    case (Bt l p b r)
    have root: "av_root t = Some p" using X(1) by (simp add: holds_def Bt)
    have pre: "holds t (plug X [])" "X \<noteq> Tip" "dom_ok v" "\<forall>q \<in> ptrs X. dom_ok (val q)"
      "sorted_wrt (\<lambda>p q. cmp (val p) (val q) = -1) (inord X)" "\<forall>q \<in> set (cl []). cmp (val q) v = -1" "\<forall>q \<in> set (cr []). cmp v (val q) = -1"
      using X ok s Bt by simp_all
    have tp: "the (top_ptr X) = p" by (simp add: Bt)
    consider q where "q \<in> set xs" "BAVL_descend cmp val t v p = Some (0, q)" "val q = v"
      | d q b' y c' where "BAVL_descend cmp val t v p = Some (if d then 1 else -1, q)" "X = plug Tip ((d, q, b', y) # c')"
         "\<forall>u \<in> set (cl ((d, q, b', y) # c')). cmp (val u) v = -1" "\<forall>u \<in> set (cr ((d, q, b', y) # c')). cmp v (val u) = -1"
      using descend_holds [OF pre] unfolding X(3) tp plug.simps(1) by blast
    then show ?thesis
    proof cases
      case 1
      then show ?thesis using root uniq by (auto simp: BAVL_LookupExact_def BAVL_Lookup_def)
    next
      case 2
      have xs: "set xs = set (cl ((d, q, b', y) # c')) \<union> set (cr ((d, q, b', y) # c'))" using X(3) unfolding 2(2) inord_plug by auto
      have ne: "val u \<noteq> v" if "u \<in> set xs" for u
        using that 2(3,4) ok(2) cmp_zero [of v v] unfolding xs by auto
      have "q \<in> set xs" unfolding set_cl_cr [of "(d, q, b', y) # c'", symmetric] xs using set_cl_cr [of "(d, q, b', y) # c'"] by auto
      then show ?thesis using root 2(1) ne by (cases d) (auto simp: BAVL_LookupExact_def BAVL_Lookup_def)
    qed
  qed
  then show "\<exists>r. BAVL_LookupExact cmp val t v = Some r \<and> (\<forall>p. r = Some p \<longleftrightarrow> p \<in> set xs \<and> val p = v)"
    and "\<exists>r. BAVL_Lookup cmp val t v = Some r \<and> (r = None \<longleftrightarrow> xs = []) \<and>
      (\<forall>p. r = Some p \<longrightarrow> p \<in> set xs \<and> ((\<exists>q \<in> set xs. val q = v) \<longrightarrow> val p = v))"
    by blast+
qed

lemma recurser_holds:
  "\<lbrakk>holds t (plug x c); x \<noteq> Tip; avl x; \<forall>q \<in> ptrs x. dom_ok (val q); sorted_wrt (\<lambda>p q. cmp (val p) (val q) = -1) (inord x)\<rbrakk>
   \<Longrightarrow> BAVL_assert_recurser cmp val t (the (top_ptr x)) = Some (ht x)"
proof (induction x arbitrary: c)
  case (Bt l p b r)
  have ok: "dom_ok (val p)" using Bt.prems(4) by simp
  have links: "link_of p False t = Some (top_ptr l)" "link_of p True t = Some (top_ptr r)" "balance_of p t = Some b"
    using Bt.prems(1) at_top_ptr unfolding holds_plug link_of_def balance_of_def by auto
  have sub: "holds t (plug l ((False, p, b, r) # c))" "holds t (plug r ((True, p, b, l) # c))" using Bt.prems(1) by (simp_all add: bn_def)
  have child: "parent_of q t = Some (Some p) \<and> BAVL_compare_values cmp (val q) (val p) = Some (if s then 1 else -1)"
    if "top_ptr (if s then r else l) = Some q" for q s
  proof -
    have "q \<in> ptrs (if s then r else l)" using that by (cases "if s then r else l") (auto split: if_splits)
    then have "dom_ok (val q)" "cmp (val q) (val p) = (if s then 1 else -1)"
      using Bt.prems(4,5) cmp_antisym [OF ok, of "val q"] by (auto simp: sorted_wrt_append split: if_splits)
    moreover have "parent_of q t = Some (Some p)"
      using links_read(1) [OF sub(1), of q] links_read(1) [OF sub(2), of q] that by (cases s) simp_all
    ultimately show ?thesis using compare_ok [OF _ ok] by simp
  qed
  have "(case top_ptr l of None \<Rightarrow> Some 0 | Some q \<Rightarrow> BAVL_assert_recurser cmp val t q) = Some (ht l)"
    using Bt.IH(1) [OF sub(1)] Bt.prems(3-5) by (cases l) (auto simp: sorted_wrt_append)
  moreover have "(case top_ptr r of None \<Rightarrow> Some 0 | Some q \<Rightarrow> BAVL_assert_recurser cmp val t q) = Some (ht r)"
    using Bt.IH(2) [OF sub(2)] Bt.prems(3-5) by (cases r) (auto simp: sorted_wrt_append)
  ultimately show ?case using links child [of False] child [of True] Bt.prems(3)
    by (subst BAVL_assert_recurser.simps) (auto split: option.splits)
qed simp

end

text \<open>A balanced tree of height \<open>h\<close> has at least \<open>2 ^ (h div 2) - 1\<close> nodes.\<close>

lemma avl_size: "avl x \<Longrightarrow> 2 ^ nat (ht x div 2) \<le> length (inord x) + 1"
proof (induction x)
  case (Bt l p b r)
  have h: "max (ht l) (ht r) - 1 \<le> ht l" "max (ht l) (ht r) - 1 \<le> ht r" using Bt.prems by auto
  let ?k = "nat ((max (ht l) (ht r) - 1) div 2)"
  have "2 ^ ?k \<le> (2 :: nat) ^ nat (ht l div 2)" "2 ^ ?k \<le> (2 :: nat) ^ nat (ht r div 2)"
    using h by (auto intro!: power_increasing nat_mono zdiv_mono1)
  then have "2 ^ ?k \<le> length (inord l) + 1" "2 ^ ?k \<le> length (inord r) + 1"
    using le_trans [OF _ Bt.IH(1)] le_trans [OF _ Bt.IH(2)] Bt.prems unfolding avl.simps by blast+
  then have le: "2 * 2 ^ ?k \<le> length (inord l) + length (inord r) + 2" by linarith
  show ?case
  proof (cases "max (ht l) (ht r) = 0")
    case False
    then have "0 < max (ht l) (ht r)" using ht_nonneg [of l] by linarith
    then have "ht (Bt l p b r) div 2 = (max (ht l) (ht r) - 1) div 2 + 1" "0 \<le> (max (ht l) (ht r) - 1) div 2" by simp_all
    then have "nat (ht (Bt l p b r) div 2) = Suc ?k" by linarith
    then show ?thesis using le by simp
  qed simp
qed simp

end
