(* ===== verification/ConnTable.thy ===== *)
theory ConnTable
  imports BavlInv
begin

text \<open>
  Tables of connections as the two UDP clients keep them: objects in a heap, found by a key in a
  search tree whose nodes are embedded in them, and linked in order of use. The tree is taken as
  the map from keys to pointers that it represents; that the operations of \<open>Bavl\<close> on the linked
  nodes are the operations on this map is shown here, for every comparator that meets the contract.
\<close>

text \<open>Insertion does nothing when the key is taken; removal is by node.\<close>

definition tree_put :: "'k \<Rightarrow> ptr \<Rightarrow> ('k \<rightharpoonup> ptr) \<Rightarrow> ('k \<rightharpoonup> ptr)" where
  "tree_put k p m = (if m k = None then m(k \<mapsto> p) else m)"

definition tree_drop :: "ptr \<Rightarrow> ('k \<rightharpoonup> ptr) \<Rightarrow> ('k \<rightharpoonup> ptr)" where
  "tree_drop p m = (\<lambda>k. if m k = Some p then None else m k)"

lemma tree_put_new: "m k = None \<Longrightarrow> tree_put k p m = m(k \<mapsto> p)"
  by (simp add: tree_put_def)

text \<open>The tree holds exactly the objects of the heap, under their keys, and so does the list.\<close>

definition table_ok :: "('c \<Rightarrow> 'k) \<Rightarrow> (ptr \<rightharpoonup> 'c) \<Rightarrow> ('k \<rightharpoonup> ptr) \<Rightarrow> ptr list \<Rightarrow> bool" where
  "table_ok key hp tree xs \<longleftrightarrow>
     (\<forall>k p. tree k = Some p \<longleftrightarrow> (\<exists>c. hp p = Some c \<and> key c = k)) \<and> distinct xs \<and> set xs = dom hp"

lemma table_lookup: "table_ok key hp tree xs \<Longrightarrow> tree k = Some p \<longleftrightarrow> (\<exists>c. hp p = Some c \<and> key c = k)"
  and table_distinct: "table_ok key hp tree xs \<Longrightarrow> distinct xs"
  and table_list: "table_ok key hp tree xs \<Longrightarrow> set xs = dom hp"
  unfolding table_ok_def by blast+

lemma table_empty: "table_ok key Map.empty Map.empty []"
  by (simp add: table_ok_def)

lemma table_unique: "\<lbrakk>table_ok key hp tree xs; hp p = Some c; hp q = Some d; key c = key d\<rbrakk> \<Longrightarrow> p = q"
  by (metis table_lookup option.inject)

lemma table_fresh: "\<lbrakk>table_ok key hp tree xs; tree k = None; hp p = Some c\<rbrakk> \<Longrightarrow> key c \<noteq> k"
  by (metis table_lookup option.distinct(1))

lemma table_add:
  assumes ok: "table_ok key hp tree xs" and fresh: "hp p = None" "tree (key c) = None"
  shows "table_ok key (hp(p \<mapsto> c)) (tree(key c \<mapsto> p)) (xs @ [p])"
proof -
  have "(tree(key c \<mapsto> p)) k = Some q \<longleftrightarrow> (\<exists>d. (hp(p \<mapsto> c)) q = Some d \<and> key d = k)" for k q
    using table_lookup [OF ok, of k q] table_fresh [OF ok fresh(2)] fresh(1) by auto
  moreover have "p \<notin> set xs" using table_list [OF ok] fresh(1) by auto
  ultimately show ?thesis using table_list [OF ok] table_distinct [OF ok] by (simp add: table_ok_def)
qed

lemma table_remove:
  assumes ok: "table_ok key hp tree xs"
  shows "table_ok key (hp(p := None)) (tree_drop p tree) (remove1 p xs)"
proof -
  have "tree_drop p tree k = Some q \<longleftrightarrow> (\<exists>d. (hp(p := None)) q = Some d \<and> key d = k)" for k q
    using table_lookup [OF ok, of k q] table_lookup [OF ok, of k p] by (auto simp: tree_drop_def)
  moreover have "set (remove1 p xs) = dom (hp(p := None))" "distinct (remove1 p xs)"
    using table_list [OF ok] table_distinct [OF ok] by auto
  ultimately show ?thesis by (simp add: table_ok_def)
qed

lemma table_touch: "\<lbrakk>table_ok key hp tree xs; p \<in> dom hp\<rbrakk> \<Longrightarrow> table_ok key hp tree (remove1 p xs @ [p])"
  by (auto simp: table_ok_def)

text \<open>Changing an object without changing its key.\<close>

lemma table_update:
  assumes ok: "table_ok key hp tree xs" and p: "hp p = Some c" "key d = key c"
  shows "table_ok key (hp(p \<mapsto> d)) tree xs"
proof -
  have "tree k = Some q \<longleftrightarrow> (\<exists>e. (hp(p \<mapsto> d)) q = Some e \<and> key e = k)" for k q
    using table_lookup [OF ok, of k q] p by auto
  moreover have "set xs = dom (hp(p \<mapsto> d))" using table_list [OF ok] p(1) by auto
  ultimately show ?thesis using table_distinct [OF ok] by (simp add: table_ok_def)
qed

lemma length_remove1_int: "p \<in> set xs \<Longrightarrow> int (length (remove1 p xs)) = int (length xs) - 1"
  using length_pos_if_in_set [of p xs] by (simp add: length_remove1 of_nat_diff Suc_le_eq del: length_greater_0_conv)

section \<open>The AVL tree implements the map\<close>

definition tree_map :: "(ptr \<Rightarrow> 'k) \<Rightarrow> ptr list \<Rightarrow> ('k \<rightharpoonup> ptr)" where
  "tree_map val xs = map_of (map (\<lambda>p. (val p, p)) xs)"

lemma sorted_inj:
  assumes "bavl_comparator cmp ok" "sorted_wrt (\<lambda>p q. cmp (val p) (val q) = -1) xs" "\<forall>q \<in> set xs. ok (val q)"
  shows "distinct (map val xs)"
  using assms(2,3)
proof (induction xs)
  case (Cons x xs)
  then have "val x \<noteq> val y" if "y \<in> set xs" for y
    using that bavl_comparator.cmp_zero [OF assms(1), of "val x" "val x"] by auto
  then show ?case using Cons by auto
qed simp

lemma tree_map_iff:
  assumes "bavl_comparator cmp ok" "bavl_tree cmp val t xs" "\<forall>q \<in> set xs. ok (val q)"
  shows "tree_map val xs k = Some p \<longleftrightarrow> p \<in> set xs \<and> val p = k"
proof -
  have "distinct (map fst (map (\<lambda>p. (val p, p)) xs))"
    using sorted_inj [OF assms(1) _ assms(3)] assms(2) by (simp add: bavl_tree_def comp_def)
  then show ?thesis unfolding tree_map_def by (subst map_of_eq_Some_iff) auto
qed

text \<open>
  C29. Inserting a node in the AVL tree of linked nodes is insertion in the map from values to nodes:
  on a balanced search tree in memory with the nodes \<open>xs\<close> in order, \<open>BAVL_Insert\<close> never follows a bad
  pointer nor violates an \<open>ASSERT\<close>, it returns 0 and changes nothing exactly when the value is taken,
  and otherwise leaves a balanced search tree with the new node at its place and every node
  outside the tree untouched.
\<close>

theorem bavl_insert:
  assumes "bavl_comparator cmp ok" "bavl_tree cmp val t xs" "\<forall>q \<in> set xs. ok (val q)" "ok (val n)" "av_mem t n \<noteq> None" "n \<notin> set xs"
  shows "\<exists>res ref t' ys. BAVL_Insert cmp val n t = Some (res, ref, t') \<and> bavl_tree cmp val t' ys \<and>
    res = (tree_map val xs (val n) = None) \<and> set ys = (if res then insert n (set xs) else set xs) \<and> (\<not> res \<longrightarrow> t' = t) \<and>
    tree_map val ys = tree_put (val n) n (tree_map val xs) \<and> (\<forall>p. p \<notin> insert n (set xs) \<longrightarrow> av_mem t' p = av_mem t p)"
proof -
  note iff = tree_map_iff [OF assms(1-3)]
  show ?thesis
    using bavl_comparator.insert_tree [OF assms]
  proof (elim disjE bexE exE conjE)
    fix q
    assume q: "q \<in> set xs" "val q = val n" "BAVL_Insert cmp val n t = Some (False, Some q, t)"
    then have "tree_map val xs (val n) = Some q" using iff by simp
    then show ?thesis using q assms(2)
      by (intro exI [of _ False] exI [of _ "Some q"] exI [of _ t] exI [of _ xs]) (simp add: tree_put_def)
  next
    fix t' ref ys zs
    assume i: "BAVL_Insert cmp val n t = Some (True, ref, t')" "xs = ys @ zs" "bavl_tree cmp val t' (ys @ n # zs)"
      "outside (insert n (set xs)) t t'" "\<forall>q \<in> set xs. val q \<noteq> val n"
    have new: "tree_map val xs (val n) = None" using iff i(5) by (metis not_Some_eq)
    have "\<forall>q \<in> set (ys @ n # zs). ok (val q)" using assms(3,4) i(2) by auto
    note iff' = tree_map_iff [OF assms(1) i(3) this]
    have "tree_map val (ys @ n # zs) k = tree_put (val n) n (tree_map val xs) k" for k
    proof (rule option.expand)
      have "tree_map val (ys @ n # zs) k = Some p \<longleftrightarrow> tree_put (val n) n (tree_map val xs) k = Some p" for p
        using iff' [of k p] iff [of k p] i(2,5) new by (auto simp: tree_put_def)
      then show "(tree_map val (ys @ n # zs) k = None) = (tree_put (val n) n (tree_map val xs) k = None)"
        "the (tree_map val (ys @ n # zs) k) = the (tree_put (val n) n (tree_map val xs) k)"
        by (metis not_Some_eq)+
    qed
    then show ?thesis using i new
      by (intro exI [of _ True] exI [of _ ref] exI [of _ t'] exI [of _ "ys @ n # zs"]) (auto simp: outside_def)
  qed
qed

text \<open>A tree of three nodes in memory, with room for a fourth.\<close>

definition demo_node :: "ptr option \<Rightarrow> ptr option \<Rightarrow> ptr option \<Rightarrow> BAVLNode" where
  "demo_node par l r = \<lparr>nd_parent = par, nd_link = (\<lambda>s. if s then r else l), nd_balance = 0\<rparr>"

definition demo_tree :: BAVL where
  "demo_tree = \<lparr>av_root = Some 20, av_mem = [10 \<mapsto> demo_node (Some 20) None None, 20 \<mapsto> demo_node None (Some 10) (Some 30),
     30 \<mapsto> demo_node (Some 20) None None, 40 \<mapsto> demo_node None None None]\<rparr>"

definition demo_val :: "ptr \<Rightarrow> u16" where
  "demo_val p = of_nat p"

lemma demo_tree_ok: "bavl_tree uint16_comparator demo_val demo_tree [10, 20, 30]"
proof -
  have "holds demo_tree (Bt (Bt Tip 10 0 Tip) 20 0 (Bt Tip 30 0 Tip))"
    by (simp add: holds_def demo_tree_def demo_node_def)
  then show ?thesis unfolding bavl_tree_def
    by (intro conjI exI [of _ "Bt (Bt Tip 10 0 Tip) 20 0 (Bt Tip 30 0 Tip)"]) (simp_all add: uint16_comparator_def B_COMPARE_def demo_val_def)
qed

theorem bavl_insert_witness:
  "bavl_comparator uint16_comparator (\<lambda>_. True) \<and> bavl_tree uint16_comparator demo_val demo_tree [10, 20, 30] \<and>
   (\<exists>ref t' ys. BAVL_Insert uint16_comparator demo_val 40 demo_tree = Some (True, ref, t') \<and> bavl_tree uint16_comparator demo_val t' ys \<and>
      set ys = {40, 10, 20, 30})"
proof -
  have c: "bavl_comparator uint16_comparator (\<lambda>_. True)" by (rule conid_cmp.bavl_comparator_axioms)
  have "tree_map demo_val [10, 20, 30] (demo_val 40) = None" by (simp add: tree_map_def demo_val_def)
  then show ?thesis
    using bavl_insert [OF c demo_tree_ok, of 40] c demo_tree_ok by (auto simp: demo_tree_def demo_node_def)
qed

text \<open>
  C30. Removing a node is removal from the map: for every node of the tree \<open>BAVL_Remove\<close> completes
  (the swap with the largest node of the left subtree, the replacement by the only child and the
  rebalancing up to the root), it leaves a balanced search tree with the other nodes in their
  order, and it touches no node outside the tree.
\<close>

theorem bavl_remove:
  assumes "bavl_comparator cmp ok" "bavl_tree cmp val t xs" "\<forall>q \<in> set xs. ok (val q)" "n \<in> set xs"
  shows "\<exists>t'. BAVL_Remove n t = Some t' \<and> bavl_tree cmp val t' (remove1 n xs) \<and>
    tree_map val (remove1 n xs) = tree_drop n (tree_map val xs) \<and> (\<forall>p. p \<notin> set xs \<longrightarrow> av_mem t' p = av_mem t p)"
proof -
  obtain X where X: "holds t X" "avl X" "inord X = xs" and s: "sorted_wrt (\<lambda>p q. cmp (val p) (val q) = -1) xs"
    using assms(2) by (auto simp: bavl_tree_def)
  obtain t' Y where Y: "BAVL_Remove n t = Some t'" "holds t' Y" "avl Y" "inord Y = remove1 n xs" "outside (set xs) t t'"
    using remove_holds [OF X(1,2), of n] assms(4) unfolding X(3) by blast
  have tr: "bavl_tree cmp val t' (remove1 n xs)"
    unfolding bavl_tree_def using Y(2-4) sorted_wrt_remove1 [OF s] by (intro conjI exI [of _ Y])
  have dist: "distinct xs" using X by (auto simp: holds_def)
  have ok: "\<forall>q \<in> set (remove1 n xs). ok (val q)" using assms(3) by (meson notin_set_remove1)
  have "tree_map val (remove1 n xs) k = Some p \<longleftrightarrow> tree_drop n (tree_map val xs) k = Some p" for k p
    using tree_map_iff [OF assms(1) tr ok, of k p] tree_map_iff [OF assms(1-3), of k p] tree_map_iff [OF assms(1-3), of k n] dist
    by (auto simp: tree_drop_def)
  then have "tree_map val (remove1 n xs) = tree_drop n (tree_map val xs)" by (metis ext option.exhaust)
  then show ?thesis using Y(1,5) tr by (auto simp: outside_def)
qed

theorem bavl_remove_witness:
  "\<exists>t'. BAVL_Remove 20 demo_tree = Some t' \<and> bavl_tree uint16_comparator demo_val t' [10, 30]"
  using bavl_remove [OF conid_cmp.bavl_comparator_axioms demo_tree_ok, of 20] by auto

text \<open>
  The lookup loop computes the lookup in the map of the tree, and it ends: \<open>BAVL_LookupExact\<close>
  returns the one node with the value and a null pointer when there is none; \<open>BAVL_Lookup\<close> returns a
  node of the tree, the one with the value when there is one, and null only on the empty tree.
\<close>

theorem bavl_lookup:
  assumes "bavl_comparator cmp ok" "bavl_tree cmp val t xs" "\<forall>q \<in> set xs. ok (val q)" "ok v"
  shows "BAVL_LookupExact cmp val t v = Some (tree_map val xs v) \<and>
    (\<exists>r. BAVL_Lookup cmp val t v = Some r \<and> (r = None \<longleftrightarrow> BAVL_IsEmpty t) \<and> (BAVL_IsEmpty t \<longleftrightarrow> xs = []) \<and>
      (\<forall>p. r = Some p \<longrightarrow> p \<in> set xs \<and> (tree_map val xs v \<noteq> None \<longrightarrow> val p = v)))"
proof -
  note iff = tree_map_iff [OF assms(1-3)]
  obtain r where r: "BAVL_LookupExact cmp val t v = Some r" "\<forall>p. r = Some p \<longleftrightarrow> p \<in> set xs \<and> val p = v"
    using bavl_comparator.lookup_tree(1) [OF assms] by blast
  then have "r = tree_map val xs v" using iff [of v] by (metis option.exhaust)
  moreover have "BAVL_IsEmpty t \<longleftrightarrow> xs = []"
  proof -
    obtain X where "at (av_mem t) None X (av_root t)" "inord X = xs" using assms(2) by (auto simp: bavl_tree_def holds_def)
    then show ?thesis by (cases X) (auto simp: BAVL_IsEmpty_def)
  qed
  moreover have "(tree_map val xs v \<noteq> None) = (\<exists>q \<in> set xs. val q = v)" using iff [of v] by auto
  ultimately show ?thesis using r(1) bavl_comparator.lookup_tree(2) [OF assms] by metis
qed

theorem bavl_lookup_witness:
  "BAVL_LookupExact uint16_comparator demo_val demo_tree 30 = Some (Some 30)"
  using bavl_lookup [OF conid_cmp.bavl_comparator_axioms demo_tree_ok, of 30] by (simp add: tree_map_def demo_val_def)

text \<open>
  Traversal: on a tree with the nodes \<open>xs\<close> in order, \<open>BAVL_GetFirst\<close> and \<open>BAVL_GetLast\<close> return the
  ends of the list, and \<open>BAVL_GetNext\<close> and \<open>BAVL_GetPrev\<close> the neighbours of a node, by following child
  and parent pointers, null at the ends.
\<close>

theorem bavl_traversal:
  assumes "bavl_tree cmp val t xs"
  shows "BAVL_GetFirst t = Some (if xs = [] then None else Some (hd xs)) \<and> BAVL_GetLast t = Some (if xs = [] then None else Some (last xs)) \<and>
    (\<forall>i < length xs. BAVL_GetNext t (xs ! i) = Some (if Suc i < length xs then Some (xs ! Suc i) else None) \<and>
      BAVL_GetPrev t (xs ! i) = Some (if i = 0 then None else Some (xs ! (i - 1))))"
proof -
  obtain X where X: "holds t X" "inord X = xs" using assms by (auto simp: bavl_tree_def)
  have "BAVL_GetNext t (xs ! i) = Some (if Suc i < length xs then Some (xs ! Suc i) else None) \<and>
      BAVL_GetPrev t (xs ! i) = Some (if i = 0 then None else Some (xs ! (i - 1)))" if i: "i < length xs" for i
  proof -
    have split: "inord X = take i xs @ xs ! i # drop (Suc i) xs" using i X(2) by (simp add: id_take_nth_drop)
    have "last (take i xs) = xs ! (i - 1)" if "i \<noteq> 0"
      using that i by (subst last_conv_nth) (auto simp: min_def)
    then show ?thesis using traversal(3) [OF X(1) split] traversal(4) [OF X(1) split] i by (auto simp: hd_drop_conv_nth)
  qed
  then show ?thesis using traversal(1,2) [OF X(1)] X(2) by simp
qed

theorem bavl_traversal_witness:
  "BAVL_GetFirst demo_tree = Some (Some 10) \<and> BAVL_GetNext demo_tree 10 = Some (Some 20) \<and> BAVL_GetNext demo_tree 30 = Some None"
proof -
  note w = bavl_traversal [OF demo_tree_ok]
  have "BAVL_GetNext demo_tree ([10, 20, 30] ! 0) = Some (Some 20)" "BAVL_GetNext demo_tree ([10, 20, 30] ! 2) = Some None"
    using w [THEN conjunct2, THEN conjunct2, rule_format, of 0] w [THEN conjunct2, THEN conjunct2, rule_format, of 2] by simp_all
  then show ?thesis using w by simp
qed

text \<open>
  The checks of \<open>BAVL_Verify\<close> (parent links, order of neighbours, balance factors equal to the
  difference of the heights of the subtrees) pass on every such tree, and the height it computes is
  logarithmic: a tree of height \<open>h\<close> has at least \<open>2 ^ (h div 2) - 1\<close> nodes.
\<close>

theorem bavl_verify:
  assumes "bavl_comparator cmp ok" "bavl_tree cmp val t xs" "\<forall>q \<in> set xs. ok (val q)"
  shows "BAVL_Verify cmp val t = Some () \<and>
    (\<forall>root. av_root t = Some root \<longrightarrow> (\<exists>h \<ge> 1. BAVL_assert_recurser cmp val t root = Some h \<and> 2 ^ nat (h div 2) \<le> length xs + 1))"
proof -
  obtain X where X: "holds t X" "avl X" "inord X = xs" and s: "sorted_wrt (\<lambda>p q. cmp (val p) (val q) = -1) xs"
    using assms(2) by (auto simp: bavl_tree_def)
  have root: "av_root t = top_ptr X" using X(1) at_top_ptr by (auto simp: holds_def)
  show ?thesis
  proof (cases X)
    case Tip
    then show ?thesis using root by (simp add: BAVL_Verify_def)
  next
    case (Bt l p b r)
    have h: "holds t (plug X [])" "X \<noteq> Tip" using X(1) Bt by simp_all
    have rec: "BAVL_assert_recurser cmp val t p = Some (ht X)"
      using bavl_comparator.recurser_holds [OF assms(1) h X(2), of val, unfolded X(3), OF assms(3) s] by (simp add: Bt)
    have "parent_of p t = Some None" using X(1) by (auto simp: Bt holds_def parent_of_def)
    moreover have "1 \<le> ht X" using ht_nonneg [of l] by (simp add: Bt)
    ultimately show ?thesis using root rec avl_size [OF X(2)] X(3) by (auto simp: Bt BAVL_Verify_def)
  qed
qed

theorem bavl_verify_witness: "BAVL_Verify uint16_comparator demo_val demo_tree = Some ()"
  using bavl_verify [OF conid_cmp.bavl_comparator_axioms demo_tree_ok] by simp

end
