(* ===== verification/UdpGw.thy ===== *)
theory UdpGw
  imports ConnTable
begin

text \<open>
  The UDP gateway client of \<open>udpgw_client/UdpGwClient.c\<close> and the packet format of
  \<open>protocol/udpgw_proto.h\<close>: a bounded table of connections, each identified to the gateway by a
  16-bit identifier and found by the pair of its addresses, with the least recently used one
  recycled when the table is full. Connections live in a heap indexed by pointers; the two
  trees are maps to pointers and the list is a list of pointers, so that their agreement is
  something to prove. \<open>malloc\<close>, the initialisation of a flow and the state of its buffer are
  parameters.
\<close>

section \<open>Packet format\<close>

definition UDPGW_CLIENT_FLAG_KEEPALIVE :: byte where "UDPGW_CLIENT_FLAG_KEEPALIVE = 1"
definition UDPGW_CLIENT_FLAG_REBIND :: byte where "UDPGW_CLIENT_FLAG_REBIND = 2"
definition UDPGW_CLIENT_FLAG_DNS :: byte where "UDPGW_CLIENT_FLAG_DNS = 4"
definition UDPGW_CLIENT_FLAG_IPV6 :: byte where "UDPGW_CLIENT_FLAG_IPV6 = 8"

lemmas udpgw_flags = UDPGW_CLIENT_FLAG_KEEPALIVE_def UDPGW_CLIENT_FLAG_REBIND_def UDPGW_CLIENT_FLAG_DNS_def
  UDPGW_CLIENT_FLAG_IPV6_def

text \<open>The Android build reserves room for the 4-byte SOCKS header.\<close>

definition udpgw_compute_mtu :: "int \<Rightarrow> int" where
  "udpgw_compute_mtu dgram_mtu =
     (case bsize_toint (bsize_add (bsize_fromsize 4)
        (bsize_add (bsize_max (bsize_fromsize 6) (bsize_fromsize 18)) (bsize_fromint dgram_mtu))) of
        None \<Rightarrow> -1
      | Some s \<Rightarrow> s)"

section \<open>State\<close>

record UdpGwClient_conaddr =
  local_addr :: BAddr
  remote_addr :: BAddr

record UdpGwClient_connection =
  ugc_conaddr :: UdpGwClient_conaddr
  ugc_first_flags :: byte
  ugc_first_data :: bytes
  ugc_conid :: u16

record UdpGwClient =
  ug_udp_mtu :: int
  ug_max_connections :: int
  ug_send_buffer_size :: int
  ug_udpgw_mtu :: int
  ug_pp_mtu :: int
  ug_heap :: "ptr \<rightharpoonup> UdpGwClient_connection"
  ug_by_conaddr :: "UdpGwClient_conaddr \<rightharpoonup> ptr"
  ug_by_conid :: "u16 \<rightharpoonup> ptr"
  ug_list :: "ptr list"
  ug_num_connections :: int
  ug_next_conid :: int
  ug_keepalive_packet :: bytes
  ug_keepalive_sending :: bool
  ug_have_server :: bool

datatype UdpGwClient_call =
    UG_handler_servererror
  | UG_handler_received BAddr BAddr bytes
  | UG_recv_Done
  | UG_keepalive_Send bytes
  | UG_BPending_Set ptr
  | UG_BPending_Free ptr
  | UG_qflow_Init ptr
  | UG_qflow_Free ptr
  | UG_ppflow_Init ptr int int
  | UG_ppflow_Free ptr
  | UG_EndPacket ptr bytes
  | UG_connector_Init int | UG_connector_Free
  | UG_monitor_Init | UG_monitor_Free
  | UG_queue_Init | UG_queue_PrepareFree | UG_queue_Free
  | UG_keepalive_qflow_Init | UG_keepalive_qflow_Free
  | UG_recv_if_Init int | UG_recv_if_Free
  | UG_decoder_Init | UG_decoder_Free
  | UG_sender_Init int | UG_sender_Free
  | UG_connector_ConnectOutput | UG_connector_DisconnectOutput

type_synonym ug_result = "UdpGwClient \<times> UdpGwClient_call list"

text \<open>The environment of a call: what \<open>malloc\<close> returns, whether the flow can be set up, whether its buffer has room.\<close>

record ug_env =
  env_malloc :: "ptr option"
  env_ppflow :: bool
  env_room :: bool

definition conaddr_comparator :: "UdpGwClient_conaddr \<Rightarrow> UdpGwClient_conaddr \<Rightarrow> int" where
  "conaddr_comparator v1 v2 =
     (let r = BAddr_CompareOrder (remote_addr v1) (remote_addr v2)
      in if r \<noteq> 0 then r else BAddr_CompareOrder (local_addr v1) (local_addr v2))"

interpretation conaddr_cmp: bavl_comparator conaddr_comparator "\<lambda>k. BAddr_wf (local_addr k) \<and> BAddr_wf (remote_addr k)"
proof (unfold_locales, goal_cases)
  case (1 a b)
  then show ?case using addr_cmp.cmp_range by (auto simp: conaddr_comparator_def Let_def)
next
  case (2 a b)
  then show ?case by (cases a; cases b) (auto simp: conaddr_comparator_def Let_def addr_cmp.cmp_zero)
next
  case (3 a b)
  then show ?case
    using addr_cmp.cmp_antisym [of "remote_addr a" "remote_addr b"] addr_cmp.cmp_antisym [of "local_addr a" "local_addr b"]
    by (auto simp: conaddr_comparator_def Let_def)
next
  case (4 a b c)
  have "BAddr_CompareOrder (remote_addr c) (remote_addr c) \<noteq> -1"
    using 4 addr_cmp.cmp_zero [of "remote_addr c" "remote_addr c"] by (metis neg_equal_0_iff_equal zero_neq_one)
  with 4 show ?case
    using addr_cmp.cmp_trans [of "remote_addr a" "remote_addr b" "remote_addr c"] addr_cmp.cmp_trans [of "local_addr a" "local_addr b" "local_addr c"]
    by (auto simp: conaddr_comparator_def Let_def addr_cmp.cmp_zero split: if_splits)
qed

section \<open>Operations\<close>

definition find_connection_by_conaddr :: "UdpGwClient \<Rightarrow> UdpGwClient_conaddr \<Rightarrow> ptr option" where
  "find_connection_by_conaddr ug conaddr = ug_by_conaddr ug conaddr"

definition find_connection_by_conid :: "UdpGwClient \<Rightarrow> u16 \<Rightarrow> ptr option" where
  "find_connection_by_conid ug conid = ug_by_conid ug conid"

partial_function (option) find_unused_conid :: "UdpGwClient \<Rightarrow> (u16 \<times> UdpGwClient) option" where
  "find_unused_conid ug =
     (if find_connection_by_conid ug (word_of_int (ug_next_conid ug)) = None
      then Some (word_of_int (ug_next_conid ug), ug)
      else find_unused_conid
        (ug\<lparr>ug_next_conid := (if ug_next_conid ug = ug_max_connections ug - 1 then 0 else ug_next_conid ug + 1)\<rparr>))"

text \<open>\<open>connection_send\<close>: header, address, data.\<close>

fun udpgw_addr :: "BAddr \<Rightarrow> bytes" where
  "udpgw_addr (BAddr_IPv4 ip port) = mem32 ip @ mem16 port"
| "udpgw_addr (BAddr_IPv6 ip port) = ip @ mem16 port"
| "udpgw_addr BAddr_None = []"

definition connection_packet :: "UdpGwClient_connection \<Rightarrow> byte \<Rightarrow> bytes \<Rightarrow> bytes" where
  "connection_packet con flags0 data =
     (let flags = (if BAddr_type (remote_addr (ugc_conaddr con)) = 2 then flags0 OR UDPGW_CLIENT_FLAG_IPV6 else flags0)
      in [flags] @ mem16 (ltoh16 (ugc_conid con)) @ udpgw_addr (remote_addr (ugc_conaddr con)) @ data)"

definition connection_send :: "ug_env \<Rightarrow> UdpGwClient \<Rightarrow> ptr \<Rightarrow> byte \<Rightarrow> bytes \<Rightarrow> ug_result" where
  "connection_send env ug con flags data =
     (if \<not> env_room env then (ug, [])
      else (ug, [UG_EndPacket con (connection_packet (the (ug_heap ug con)) flags data)]))"

definition connection_first_job_handler :: "ug_env \<Rightarrow> UdpGwClient \<Rightarrow> ptr \<Rightarrow> ug_result" where
  "connection_first_job_handler env ug con =
     connection_send env ug con (UDPGW_CLIENT_FLAG_REBIND OR ugc_first_flags (the (ug_heap ug con)))
       (ugc_first_data (the (ug_heap ug con)))"

definition connection_init :: "ug_env \<Rightarrow> UdpGwClient \<Rightarrow> UdpGwClient_conaddr \<Rightarrow> byte \<Rightarrow> bytes \<Rightarrow> ug_result option" where
  "connection_init env ug conaddr flags data =
     (case env_malloc env of
        None \<Rightarrow> Some (ug, [])
      | Some con \<Rightarrow>
          (case find_unused_conid ug of
             None \<Rightarrow> None
           | Some (conid, ug1) \<Rightarrow>
               if \<not> env_ppflow env
               then Some (ug1, [UG_BPending_Set con, UG_qflow_Init con, UG_qflow_Free con, UG_BPending_Free con])
               else Some
                 (ug1\<lparr>ug_heap := (ug_heap ug1)(con \<mapsto> \<lparr>ugc_conaddr = conaddr, ugc_first_flags = flags,
                        ugc_first_data = data, ugc_conid = conid\<rparr>),
                      ug_by_conaddr := tree_put conaddr con (ug_by_conaddr ug1),
                      ug_by_conid := tree_put conid con (ug_by_conid ug1),
                      ug_list := ug_list ug1 @ [con],
                      ug_num_connections := ug_num_connections ug1 + 1\<rparr>,
                  [UG_BPending_Set con, UG_qflow_Init con, UG_ppflow_Init con (ug_udpgw_mtu ug) (ug_send_buffer_size ug)])))"

definition connection_free :: "UdpGwClient \<Rightarrow> ptr \<Rightarrow> ug_result" where
  "connection_free ug con =
     (ug\<lparr>ug_num_connections := ug_num_connections ug - 1,
         ug_list := remove1 con (ug_list ug),
         ug_by_conid := tree_drop con (ug_by_conid ug),
         ug_by_conaddr := tree_drop con (ug_by_conaddr ug),
         ug_heap := (ug_heap ug)(con := None)\<rparr>,
      [UG_ppflow_Free con, UG_qflow_Free con, UG_BPending_Free con])"

definition reuse_connection :: "UdpGwClient \<Rightarrow> UdpGwClient_conaddr \<Rightarrow> ptr \<times> UdpGwClient" where
  "reuse_connection ug conaddr =
     (let con = hd (ug_list ug)
      in (con, ug\<lparr>ug_by_conaddr := tree_put conaddr con (tree_drop con (ug_by_conaddr ug)),
                  ug_heap := (ug_heap ug)(con \<mapsto> (the (ug_heap ug con))\<lparr>ugc_conaddr := conaddr\<rparr>)\<rparr>))"

text \<open>Moving a connection to the end of the list, the most recently used place.\<close>

definition list_touch :: "ptr \<Rightarrow> UdpGwClient \<Rightarrow> UdpGwClient" where
  "list_touch con ug = ug\<lparr>ug_list := remove1 con (ug_list ug) @ [con]\<rparr>"

definition UdpGwClient_SubmitPacket ::
  "ug_env \<Rightarrow> UdpGwClient \<Rightarrow> BAddr \<Rightarrow> BAddr \<Rightarrow> bool \<Rightarrow> bytes \<Rightarrow> ug_result option" where
  "UdpGwClient_SubmitPacket env ug local remote is_dns data =
     (let conaddr = \<lparr>local_addr = local, remote_addr = remote\<rparr>;
          flags0 = (if is_dns then UDPGW_CLIENT_FLAG_DNS else 0);
          con0 = find_connection_by_conaddr ug conaddr;
          (con, ug1, flags) =
            (if con0 = None \<and> ug_num_connections ug = ug_max_connections ug
             then (let (p, ug') = reuse_connection ug conaddr in (Some p, ug', flags0 OR UDPGW_CLIENT_FLAG_REBIND))
             else (con0, ug, flags0))
      in case con of
           None \<Rightarrow> connection_init env ug1 conaddr flags data
         | Some p \<Rightarrow> Some (connection_send env (list_touch p ug1) p flags data))"

definition parse_remote :: "byte \<Rightarrow> bytes \<Rightarrow> (BAddr \<times> bytes) option" where
  "parse_remote flags data =
     (if flags AND UDPGW_CLIENT_FLAG_IPV6 \<noteq> 0
      then if length data < 18 then None
           else Some (BAddr_IPv6 (take 16 data) (of_mem16 (window 16 2 data)), drop 18 data)
      else if length data < 6 then None
           else Some (BAddr_IPv4 (of_mem32 (take 4 data)) (of_mem16 (window 4 2 data)), drop 6 data))"

definition recv_interface_handler_send :: "UdpGwClient \<Rightarrow> bytes \<Rightarrow> ug_result" where
  "recv_interface_handler_send ug data0 =
     (let ignore = (ug, [UG_recv_Done])
      in if length data0 < 3 then ignore
         else let flags = data0 ! 0; conid = ltoh16 (of_mem16 (window 1 2 data0)); data1 = drop 3 data0
              in case parse_remote flags data1 of
                   None \<Rightarrow> ignore
                 | Some (remote, data) \<Rightarrow>
                     if int (length data) > ug_udp_mtu ug then ignore
                     else case find_connection_by_conid ug conid of
                       None \<Rightarrow> ignore
                     | Some con \<Rightarrow>
                         (let a = ugc_conaddr (the (ug_heap ug con))
                          in if BAddr_CompareOrder (remote_addr a) remote \<noteq> 0 then ignore
                             else (list_touch con ug,
                                   [UG_recv_Done, UG_handler_received (local_addr a) (remote_addr a) data])))"

definition decoder_handler_error :: "UdpGwClient \<Rightarrow> ug_result" where
  "decoder_handler_error ug = (ug, [UG_handler_servererror])"

definition send_monitor_handler :: "UdpGwClient \<Rightarrow> ug_result" where
  "send_monitor_handler ug =
     (if ug_keepalive_sending ug then (ug, [])
      else (ug\<lparr>ug_keepalive_sending := True\<rparr>, [UG_keepalive_Send (ug_keepalive_packet ug)]))"

definition keepalive_if_handler_done :: "UdpGwClient \<Rightarrow> ug_result" where
  "keepalive_if_handler_done ug = (ug\<lparr>ug_keepalive_sending := False\<rparr>, [])"

definition free_server :: "UdpGwClient_call list" where
  "free_server = [UG_connector_DisconnectOutput, UG_sender_Free, UG_decoder_Free, UG_recv_if_Free]"

definition UdpGwClient_Init :: "bool \<Rightarrow> int \<Rightarrow> int \<Rightarrow> int \<Rightarrow> UdpGwClient option \<times> UdpGwClient_call list" where
  "UdpGwClient_Init queue_ok udp_mtu max_connections send_buffer_size =
     (let maxc = (if max_connections > int UINT16_MAX + 1 then int UINT16_MAX + 1 else max_connections);
          mtu = udpgw_compute_mtu udp_mtu;
          pp_mtu = mtu + 2;
          calls = [UG_connector_Init pp_mtu, UG_monitor_Init]
      in if \<not> queue_ok then (None, calls @ [UG_monitor_Free, UG_connector_Free])
         else (Some
           \<lparr>ug_udp_mtu = udp_mtu, ug_max_connections = maxc, ug_send_buffer_size = send_buffer_size,
             ug_udpgw_mtu = mtu, ug_pp_mtu = pp_mtu, ug_heap = Map.empty, ug_by_conaddr = Map.empty,
             ug_by_conid = Map.empty, ug_list = [], ug_num_connections = 0, ug_next_conid = 0,
             ug_keepalive_packet = mem16 3 @ [UDPGW_CLIENT_FLAG_KEEPALIVE] @ mem16 0,
             ug_keepalive_sending = False, ug_have_server = False\<rparr>,
           calls @ [UG_queue_Init, UG_keepalive_qflow_Init]))"

function free_connections :: "UdpGwClient \<Rightarrow> ug_result" where
  "free_connections ug =
     (case ug_list ug of
        [] \<Rightarrow> (ug, [])
      | con # _ \<Rightarrow> (let (ug1, calls1) = connection_free ug con; (ug2, calls2) = free_connections ug1
                    in (ug2, calls1 @ calls2)))"
  by auto
termination
  by (relation "measure (\<lambda>ug. length (ug_list ug))") (auto simp: connection_free_def)

definition UdpGwClient_Free :: "UdpGwClient \<Rightarrow> ug_result" where
  "UdpGwClient_Free ug =
     (let (ug1, calls) = free_connections ug
      in (ug1, [UG_queue_PrepareFree] @ calls @ (if ug_have_server ug1 then free_server else []) @
               [UG_keepalive_qflow_Free, UG_queue_Free, UG_monitor_Free, UG_connector_Free]))"

definition UdpGwClient_ConnectServer :: "bool \<Rightarrow> UdpGwClient \<Rightarrow> bool \<times> ug_result" where
  "UdpGwClient_ConnectServer decoder_ok ug =
     (if \<not> decoder_ok then (False, ug, [UG_recv_if_Init (ug_udpgw_mtu ug), UG_recv_if_Free])
      else (True, ug\<lparr>ug_have_server := True\<rparr>,
            [UG_recv_if_Init (ug_udpgw_mtu ug), UG_decoder_Init, UG_sender_Init (ug_pp_mtu ug), UG_connector_ConnectOutput]))"

definition UdpGwClient_DisconnectServer :: "UdpGwClient \<Rightarrow> ug_result" where
  "UdpGwClient_DisconnectServer ug = (ug\<lparr>ug_have_server := False\<rparr>, free_server)"

section \<open>The tables agree\<close>

text \<open>
  The trees by address pair and by identifier and the list all hold exactly the connections of
  the heap, no two of which share a pair or an identifier; the identifiers lie below the limit.
\<close>

definition ug_inv :: "UdpGwClient \<Rightarrow> bool" where
  "ug_inv ug \<longleftrightarrow>
     0 < ug_max_connections ug \<and> ug_max_connections ug \<le> int UINT16_MAX + 1 \<and>
     0 \<le> ug_next_conid ug \<and> ug_next_conid ug < ug_max_connections ug \<and>
     distinct (ug_list ug) \<and> set (ug_list ug) = dom (ug_heap ug) \<and>
     ug_num_connections ug = int (length (ug_list ug)) \<and> ug_num_connections ug \<le> ug_max_connections ug \<and>
     (\<forall>k p. ug_by_conaddr ug k = Some p \<longleftrightarrow> (\<exists>c. ug_heap ug p = Some c \<and> ugc_conaddr c = k)) \<and>
     (\<forall>i p. ug_by_conid ug i = Some p \<longleftrightarrow> (\<exists>c. ug_heap ug p = Some c \<and> ugc_conid c = i)) \<and>
     (\<forall>p c. ug_heap ug p = Some c \<longrightarrow> uint (ugc_conid c) < ug_max_connections ug)"

lemma ug_inv_conaddr: "ug_inv ug \<Longrightarrow> ug_by_conaddr ug k = Some p \<longleftrightarrow> (\<exists>c. ug_heap ug p = Some c \<and> ugc_conaddr c = k)"
  and ug_inv_conid: "ug_inv ug \<Longrightarrow> ug_by_conid ug i = Some p \<longleftrightarrow> (\<exists>c. ug_heap ug p = Some c \<and> ugc_conid c = i)"
  and ug_inv_list: "ug_inv ug \<Longrightarrow> set (ug_list ug) = dom (ug_heap ug)"
  and ug_inv_distinct: "ug_inv ug \<Longrightarrow> distinct (ug_list ug)"
  and ug_inv_num: "ug_inv ug \<Longrightarrow> ug_num_connections ug = int (length (ug_list ug))"
  and ug_inv_max: "ug_inv ug \<Longrightarrow> 0 < ug_max_connections ug" "ug_inv ug \<Longrightarrow> ug_max_connections ug \<le> 65536"
    "ug_inv ug \<Longrightarrow> ug_num_connections ug \<le> ug_max_connections ug"
  and ug_inv_next: "ug_inv ug \<Longrightarrow> 0 \<le> ug_next_conid ug" "ug_inv ug \<Longrightarrow> ug_next_conid ug < ug_max_connections ug"
  and ug_inv_below: "ug_inv ug \<Longrightarrow> ug_heap ug p = Some c \<Longrightarrow> uint (ugc_conid c) < ug_max_connections ug"
  unfolding ug_inv_def by (blast | simp)+

lemma uint_u16_of_int: "\<lbrakk>0 \<le> i; i < 65536\<rbrakk> \<Longrightarrow> uint (word_of_int i :: u16) = i"
  by (simp add: uint_word_of_int)

lemma word_of_int_u16_inj: "\<lbrakk>0 \<le> i; i < 65536; 0 \<le> j; j < 65536; (word_of_int i :: u16) = word_of_int j\<rbrakk> \<Longrightarrow> i = j"
  by (metis uint_u16_of_int)

lemma unused_conid_exists:
  assumes inv: "ug_inv ug" and room: "ug_num_connections ug < ug_max_connections ug"
  shows "\<exists>f. 0 \<le> f \<and> f < ug_max_connections ug \<and> ug_by_conid ug (word_of_int f) = None"
proof (rule ccontr)
  let ?max = "ug_max_connections ug"
  assume no: "\<not> ?thesis"
  have all: "(word_of_int ` {0..<?max} :: u16 set) \<subseteq> dom (ug_by_conid ug)"
  proof
    fix w assume "w \<in> (word_of_int ` {0..<?max} :: u16 set)"
    then obtain i where i: "w = word_of_int i" "i \<in> {0..<?max}" by (rule imageE)
    then have "0 \<le> i \<and> i < ?max" by simp
    with no i(1) have "ug_by_conid ug w \<noteq> None" by metis
    then show "w \<in> dom (ug_by_conid ug)" by (rule domIff [THEN iffD2])
  qed
  note max = ug_inv_max(2) [OF inv]
  let ?id = "\<lambda>p. ugc_conid (the (ug_heap ug p))"
  have sub: "dom (ug_by_conid ug) \<subseteq> ?id ` set (ug_list ug)"
  proof
    fix i assume "i \<in> dom (ug_by_conid ug)"
    then obtain p c where "ug_heap ug p = Some c" "ugc_conid c = i" using ug_inv_conid [OF inv, of i] by (auto simp: dom_def)
    then show "i \<in> ?id ` set (ug_list ug)" using ug_inv_list [OF inv] by (intro image_eqI [of _ _ p]) auto
  qed
  have fin: "finite (dom (ug_by_conid ug))" by (rule finite_subset [OF sub]) simp
  have "card (dom (ug_by_conid ug)) \<le> card (?id ` set (ug_list ug))" by (rule card_mono [OF _ sub]) simp
  also have "\<dots> \<le> card (set (ug_list ug))" by (rule card_image_le) simp
  also have "\<dots> \<le> length (ug_list ug)" by (rule card_length)
  finally have le: "card (dom (ug_by_conid ug)) \<le> length (ug_list ug)" .
  have "inj_on (word_of_int :: int \<Rightarrow> u16) {0..<?max}"
    by (rule inj_onI) (rule word_of_int_u16_inj, use max in auto)
  then have "card (word_of_int ` {0..<?max} :: u16 set) = nat ?max" by (simp add: card_image)
  with card_mono [OF fin all] le have "nat ?max \<le> length (ug_list ug)" by simp
  then show False using room ug_inv_num [OF inv] by simp
qed

definition next_conid_after :: "UdpGwClient \<Rightarrow> int" where
  "next_conid_after ug = (if ug_next_conid ug = ug_max_connections ug - 1 then 0 else ug_next_conid ug + 1)"

lemma find_unused_conid_stop:
  "ug_by_conid ug (word_of_int (ug_next_conid ug)) = None \<Longrightarrow> find_unused_conid ug = Some (word_of_int (ug_next_conid ug), ug)"
  by (subst find_unused_conid.simps) (simp add: find_connection_by_conid_def)

lemma find_unused_conid_skip:
  "ug_by_conid ug (word_of_int (ug_next_conid ug)) \<noteq> None \<Longrightarrow>
   find_unused_conid ug = find_unused_conid (ug\<lparr>ug_next_conid := next_conid_after ug\<rparr>)"
  by (subst find_unused_conid.simps) (simp only: find_connection_by_conid_def next_conid_after_def if_False)

lemma next_conid_distance:
  assumes "0 \<le> ug_next_conid ug" "ug_next_conid ug < ug_max_connections ug"
    and d: "nat ((f - ug_next_conid ug) mod ug_max_connections ug) = Suc d"
  shows "nat ((f - next_conid_after ug) mod ug_max_connections ug) = d"
proof -
  let ?max = "ug_max_connections ug" and ?n = "ug_next_conid ug"
  have "(f - next_conid_after ug) mod ?max = (f - ?n - 1) mod ?max"
  proof (cases "?n = ?max - 1")
    case True
    then have "f - ?n - 1 = f - ?max" by simp
    then show ?thesis using True by (simp add: next_conid_after_def)
  qed (simp add: next_conid_after_def diff_diff_eq)
  also have "\<dots> = ((f - ?n) mod ?max - 1) mod ?max" by (simp only: mod_diff_left_eq)
  also have "\<dots> = (f - ?n) mod ?max - 1"
  proof (rule mod_pos_pos_trivial)
    show "0 \<le> (f - ?n) mod ?max - 1" using d by linarith
    have "(f - ?n) mod ?max < ?max" using assms by (intro pos_mod_bound) linarith
    then show "(f - ?n) mod ?max - 1 < ?max" by linarith
  qed
  finally show ?thesis using d by linarith
qed

lemma find_unused_conid_from:
  assumes "0 \<le> ug_next_conid ug" "ug_next_conid ug < ug_max_connections ug" "0 \<le> f" "f < ug_max_connections ug"
    "ug_by_conid ug (word_of_int f) = None" "nat ((f - ug_next_conid ug) mod ug_max_connections ug) = d"
  shows "\<exists>n. find_unused_conid ug = Some (word_of_int n, ug\<lparr>ug_next_conid := n\<rparr>) \<and> 0 \<le> n \<and> n < ug_max_connections ug \<and>
    ug_by_conid ug (word_of_int n) = None"
  using assms
proof (induction d arbitrary: ug)
  case 0
  have "0 < ug_max_connections ug" using 0 by linarith
  then have "0 \<le> (f - ug_next_conid ug) mod ug_max_connections ug" by (rule pos_mod_sign)
  then have "(f - ug_next_conid ug) mod ug_max_connections ug = 0" using 0(6) by linarith
  then have "f mod ug_max_connections ug = ug_next_conid ug mod ug_max_connections ug"
    by (simp only: mod_eq_dvd_iff dvd_eq_mod_eq_0)
  then have f: "f = ug_next_conid ug" using 0 by (simp only: mod_pos_pos_trivial)
  show ?case
    using find_unused_conid_stop [of ug] 0(1,2,5) unfolding f by (intro exI [of _ "ug_next_conid ug"]) simp
next
  case (Suc d)
  show ?case
  proof (cases "ug_by_conid ug (word_of_int (ug_next_conid ug)) = None")
    case True
    then show ?thesis
      using find_unused_conid_stop [OF True] Suc.prems(1,2) by (intro exI [of _ "ug_next_conid ug"]) simp
  next
    case False
    let ?ug = "ug\<lparr>ug_next_conid := next_conid_after ug\<rparr>"
    have "0 \<le> next_conid_after ug" "next_conid_after ug < ug_max_connections ug"
      using Suc.prems(1,2) by (auto simp: next_conid_after_def)
    moreover note next_conid_distance [OF Suc.prems(1,2,6)]
    ultimately have "\<exists>n. find_unused_conid ?ug = Some (word_of_int n, ?ug\<lparr>ug_next_conid := n\<rparr>) \<and> 0 \<le> n \<and>
        n < ug_max_connections ?ug \<and> ug_by_conid ?ug (word_of_int n) = None"
      using Suc.prems(3,4,5) by (intro Suc.IH) simp_all
    then show ?thesis unfolding find_unused_conid_skip [OF False] by simp
  qed
qed

lemma find_unused_conid_returns:
  assumes "ug_inv ug" "ug_num_connections ug < ug_max_connections ug"
  obtains n where "find_unused_conid ug = Some (word_of_int n, ug\<lparr>ug_next_conid := n\<rparr>)" "0 \<le> n" "n < ug_max_connections ug"
    "ug_by_conid ug (word_of_int n) = None"
proof -
  obtain f where f: "0 \<le> f" "f < ug_max_connections ug" "ug_by_conid ug (word_of_int f) = None"
    using unused_conid_exists [OF assms] by blast
  from find_unused_conid_from [OF ug_inv_next [OF assms(1)] f refl] show thesis using that by blast
qed

section \<open>Operations keep the tables in agreement\<close>

lemma ug_inv_unique:
  assumes "ug_inv ug" "ug_heap ug p = Some c" "ug_heap ug q = Some d" "ugc_conaddr c = ugc_conaddr d \<or> ugc_conid c = ugc_conid d"
  shows "p = q"
proof -
  have "ug_by_conaddr ug (ugc_conaddr c) = Some p" "ug_by_conaddr ug (ugc_conaddr d) = Some q"
    "ug_by_conid ug (ugc_conid c) = Some p" "ug_by_conid ug (ugc_conid d) = Some q"
    using assms(2,3) by (simp_all add: ug_inv_conaddr [OF assms(1)] ug_inv_conid [OF assms(1)])
  then show ?thesis using assms(4) by auto
qed

lemma ug_inv_fresh_conaddr: "\<lbrakk>ug_inv ug; ug_by_conaddr ug k = None; ug_heap ug p = Some c\<rbrakk> \<Longrightarrow> ugc_conaddr c \<noteq> k"
  by (metis ug_inv_conaddr option.distinct(1))

lemma ug_inv_fresh_conid: "\<lbrakk>ug_inv ug; ug_by_conid ug i = None; ug_heap ug p = Some c\<rbrakk> \<Longrightarrow> ugc_conid c \<noteq> i"
  by (metis ug_inv_conid option.distinct(1))

lemma ug_inv_touch: "\<lbrakk>ug_inv ug; ug_heap ug p \<noteq> None\<rbrakk> \<Longrightarrow> ug_inv (list_touch p ug)"
proof -
  assume inv: "ug_inv ug" and p: "ug_heap ug p \<noteq> None"
  then have "p \<in> set (ug_list ug)" using ug_inv_list by blast
  then have "length (remove1 p (ug_list ug) @ [p]) = length (ug_list ug)" "set (remove1 p (ug_list ug) @ [p]) = set (ug_list ug)"
    "distinct (remove1 p (ug_list ug) @ [p])"
    using ug_inv_distinct [OF inv] length_pos_if_in_set [of p "ug_list ug"] by (auto simp: length_remove1)
  then show ?thesis using inv unfolding ug_inv_def list_touch_def by simp
qed

text \<open>A new connection under a fresh pointer, pair and identifier.\<close>

lemma ug_inv_add:
  assumes inv: "ug_inv ug" and fresh: "ug_heap ug p = None" "ug_by_conaddr ug (ugc_conaddr c) = None" "ug_by_conid ug (ugc_conid c) = None"
    and room: "ug_num_connections ug < ug_max_connections ug" and below: "uint (ugc_conid c) < ug_max_connections ug"
  shows "ug_inv (ug\<lparr>ug_heap := (ug_heap ug)(p \<mapsto> c), ug_by_conaddr := (ug_by_conaddr ug)(ugc_conaddr c \<mapsto> p),
    ug_by_conid := (ug_by_conid ug)(ugc_conid c \<mapsto> p), ug_list := ug_list ug @ [p],
    ug_num_connections := ug_num_connections ug + 1\<rparr>)"
proof -
  have "p \<notin> set (ug_list ug)" using ug_inv_list [OF inv] fresh(1) by auto
  moreover have "((ug_by_conaddr ug)(ugc_conaddr c \<mapsto> p)) k = Some q \<longleftrightarrow> (\<exists>d. ((ug_heap ug)(p \<mapsto> c)) q = Some d \<and> ugc_conaddr d = k)" for k q
    using ug_inv_conaddr [OF inv, of k q] ug_inv_fresh_conaddr [OF inv fresh(2)] fresh(1) by auto
  moreover have "((ug_by_conid ug)(ugc_conid c \<mapsto> p)) i = Some q \<longleftrightarrow> (\<exists>d. ((ug_heap ug)(p \<mapsto> c)) q = Some d \<and> ugc_conid d = i)" for i q
    using ug_inv_conid [OF inv, of i q] ug_inv_fresh_conid [OF inv fresh(3)] fresh(1) by auto
  ultimately show ?thesis
    using ug_inv_list [OF inv] ug_inv_distinct [OF inv] ug_inv_num [OF inv] ug_inv_max [OF inv] ug_inv_next [OF inv]
      ug_inv_below [OF inv] room below
    unfolding ug_inv_def by (simp split: if_split)
qed

text \<open>Giving an existing connection a fresh pair.\<close>

lemma ug_inv_rename:
  assumes inv: "ug_inv ug" and p: "ug_heap ug p = Some c" and fresh: "ug_by_conaddr ug k = None"
  shows "ug_inv (ug\<lparr>ug_by_conaddr := (tree_drop p (ug_by_conaddr ug))(k \<mapsto> p), ug_heap := (ug_heap ug)(p \<mapsto> c\<lparr>ugc_conaddr := k\<rparr>)\<rparr>)"
proof -
  have "((tree_drop p (ug_by_conaddr ug))(k \<mapsto> p)) k' = Some q \<longleftrightarrow>
      (\<exists>d. ((ug_heap ug)(p \<mapsto> c\<lparr>ugc_conaddr := k\<rparr>)) q = Some d \<and> ugc_conaddr d = k')" for k' q
    using ug_inv_conaddr [OF inv, of k' q] ug_inv_conaddr [OF inv, of k' p] ug_inv_fresh_conaddr [OF inv fresh] p fresh
    by (auto simp: tree_drop_def)
  moreover have "ug_by_conid ug i = Some q \<longleftrightarrow> (\<exists>d. ((ug_heap ug)(p \<mapsto> c\<lparr>ugc_conaddr := k\<rparr>)) q = Some d \<and> ugc_conid d = i)" for i q
    using ug_inv_conid [OF inv, of i q] p by auto
  moreover have "set (ug_list ug) = dom ((ug_heap ug)(p \<mapsto> c\<lparr>ugc_conaddr := k\<rparr>))"
    using ug_inv_list [OF inv] p by auto
  ultimately show ?thesis
    using ug_inv_distinct [OF inv] ug_inv_num [OF inv] ug_inv_max [OF inv] ug_inv_next [OF inv] ug_inv_below [OF inv] p
    unfolding ug_inv_def by (simp split: if_split)
qed

lemma ug_inv_free:
  assumes inv: "ug_inv ug" and p: "ug_heap ug p \<noteq> None"
  shows "ug_inv (fst (connection_free ug p))"
proof -
  have mem: "p \<in> set (ug_list ug)" using ug_inv_list [OF inv] p by auto
  then have "int (length (remove1 p (ug_list ug))) = int (length (ug_list ug)) - 1" by (rule length_remove1_int)
  moreover have "tree_drop p (ug_by_conaddr ug) k = Some q \<longleftrightarrow> (\<exists>d. ((ug_heap ug)(p := None)) q = Some d \<and> ugc_conaddr d = k)" for k q
    using ug_inv_conaddr [OF inv, of k q] ug_inv_conaddr [OF inv, of k p] by (auto simp: tree_drop_def)
  moreover have "tree_drop p (ug_by_conid ug) i = Some q \<longleftrightarrow> (\<exists>d. ((ug_heap ug)(p := None)) q = Some d \<and> ugc_conid d = i)" for i q
    using ug_inv_conid [OF inv, of i q] ug_inv_conid [OF inv, of i p] by (auto simp: tree_drop_def)
  moreover have "set (remove1 p (ug_list ug)) = dom ((ug_heap ug)(p := None))" "distinct (remove1 p (ug_list ug))"
    using ug_inv_list [OF inv] ug_inv_distinct [OF inv] by auto
  ultimately show ?thesis
    using ug_inv_num [OF inv] ug_inv_max [OF inv] ug_inv_next [OF inv] ug_inv_below [OF inv]
    unfolding ug_inv_def connection_free_def by (simp split: if_split)
qed

section \<open>Submitting a packet\<close>

text \<open>The table as its users see it: the pairs of addresses, least recently used first.\<close>

definition ug_sessions :: "UdpGwClient \<Rightarrow> UdpGwClient_conaddr list" where
  "ug_sessions ug = map (\<lambda>p. ugc_conaddr (the (ug_heap ug p))) (ug_list ug)"

text \<open>A bounded cache with least-recently-used replacement.\<close>

definition lru_use :: "nat \<Rightarrow> 'k \<Rightarrow> 'k list \<Rightarrow> 'k list" where
  "lru_use n k ks = (if k \<in> set ks then remove1 k ks @ [k] else if length ks = n then tl ks @ [k] else ks @ [k])"

definition env_fresh :: "ug_env \<Rightarrow> UdpGwClient \<Rightarrow> bool" where
  "env_fresh env ug \<longleftrightarrow> (\<forall>p. env_malloc env = Some p \<longrightarrow> ug_heap ug p = None)"

lemma sessions_found:
  assumes "ug_inv ug"
  shows "k \<in> set (ug_sessions ug) \<longleftrightarrow> ug_by_conaddr ug k \<noteq> None"
proof
  assume "k \<in> set (ug_sessions ug)"
  then obtain p where "p \<in> dom (ug_heap ug)" "ugc_conaddr (the (ug_heap ug p)) = k"
    using ug_inv_list [OF assms] by (auto simp: ug_sessions_def)
  then have "ug_by_conaddr ug k = Some p" by (auto simp: ug_inv_conaddr [OF assms])
  then show "ug_by_conaddr ug k \<noteq> None" by simp
next
  assume "ug_by_conaddr ug k \<noteq> None"
  then obtain p c where "ug_heap ug p = Some c" "ugc_conaddr c = k" using ug_inv_conaddr [OF assms] by blast
  then show "k \<in> set (ug_sessions ug)"
    using ug_inv_list [OF assms] by (auto simp: ug_sessions_def intro!: image_eqI [of _ _ p])
qed

lemma sessions_distinct: "ug_inv ug \<Longrightarrow> distinct (ug_sessions ug)"
proof -
  assume inv: "ug_inv ug"
  have "inj_on (\<lambda>p. ugc_conaddr (the (ug_heap ug p))) (set (ug_list ug))"
    by (rule inj_onI) (use ug_inv_unique [OF inv] ug_inv_list [OF inv] in force)
  then show ?thesis using ug_inv_distinct [OF inv] by (simp add: ug_sessions_def distinct_map)
qed

lemma map_remove1_inj: "\<lbrakk>inj_on f (set xs); x \<in> set xs\<rbrakk> \<Longrightarrow> map f (remove1 x xs) = remove1 (f x) (map f xs)"
  by (induction xs) (auto simp: inj_on_def)

lemma sessions_touch:
  assumes inv: "ug_inv ug" and p: "ug_heap ug p = Some c"
  shows "ug_sessions (list_touch p ug) = remove1 (ugc_conaddr c) (ug_sessions ug) @ [ugc_conaddr c]"
proof -
  have "distinct (map (\<lambda>p. ugc_conaddr (the (ug_heap ug p))) (ug_list ug))"
    using sessions_distinct [OF inv] by (simp add: ug_sessions_def)
  moreover have "p \<in> set (ug_list ug)" using ug_inv_list [OF inv] p by auto
  ultimately show ?thesis
    using p map_remove1_inj [of "\<lambda>p. ugc_conaddr (the (ug_heap ug p))" "ug_list ug" p]
    by (simp add: ug_sessions_def list_touch_def distinct_map)
qed

text \<open>The three ways a packet is taken: by an existing connection, by the recycled oldest one, by a new one.\<close>

lemma Submit_existing:
  assumes "ug_by_conaddr ug \<lparr>local_addr = l, remote_addr = r\<rparr> = Some p"
  shows "UdpGwClient_SubmitPacket env ug l r is_dns data =
    Some (connection_send env (list_touch p ug) p (if is_dns then UDPGW_CLIENT_FLAG_DNS else 0) data)"
  using assms by (simp add: UdpGwClient_SubmitPacket_def find_connection_by_conaddr_def Let_def)

lemma Submit_recycle:
  assumes inv: "ug_inv ug" and k: "k = \<lparr>local_addr = l, remote_addr = r\<rparr>" "ug_by_conaddr ug k = None"
    and full: "ug_num_connections ug = ug_max_connections ug"
  obtains p ps c ug1 where "ug_list ug = p # ps" "ug_heap ug p = Some c"
    "ug1 = ug\<lparr>ug_by_conaddr := (tree_drop p (ug_by_conaddr ug))(k \<mapsto> p), ug_heap := (ug_heap ug)(p \<mapsto> c\<lparr>ugc_conaddr := k\<rparr>)\<rparr>"
    "UdpGwClient_SubmitPacket env ug l r is_dns data =
       Some (connection_send env (list_touch p ug1) p ((if is_dns then UDPGW_CLIENT_FLAG_DNS else 0) OR UDPGW_CLIENT_FLAG_REBIND) data)"
proof -
  have "ug_list ug \<noteq> []" using full ug_inv_num [OF inv] ug_inv_max(1) [OF inv] by auto
  then obtain p ps where ps: "ug_list ug = p # ps" by (cases "ug_list ug") auto
  then obtain c where c: "ug_heap ug p = Some c" using ug_inv_list [OF inv] by auto
  have "tree_drop p (ug_by_conaddr ug) k = None" using k(2) by (simp add: tree_drop_def)
  then show thesis
    using that [OF ps c refl] k full ps c
    by (simp add: UdpGwClient_SubmitPacket_def find_connection_by_conaddr_def reuse_connection_def tree_put_new Let_def)
qed

lemma Submit_new:
  assumes inv: "ug_inv ug" and k: "k = \<lparr>local_addr = l, remote_addr = r\<rparr>" "ug_by_conaddr ug k = None"
    and room: "ug_num_connections ug \<noteq> ug_max_connections ug" and env: "env_malloc env = Some p" "env_ppflow env"
  obtains n where "0 \<le> n" "n < ug_max_connections ug" "ug_by_conid ug (word_of_int n) = None"
    "UdpGwClient_SubmitPacket env ug l r is_dns data = Some
      (ug\<lparr>ug_next_conid := n, ug_heap := (ug_heap ug)(p \<mapsto> \<lparr>ugc_conaddr = k,
            ugc_first_flags = (if is_dns then UDPGW_CLIENT_FLAG_DNS else 0), ugc_first_data = data, ugc_conid = word_of_int n\<rparr>),
          ug_by_conaddr := (ug_by_conaddr ug)(k \<mapsto> p), ug_by_conid := (ug_by_conid ug)(word_of_int n \<mapsto> p),
          ug_list := ug_list ug @ [p], ug_num_connections := ug_num_connections ug + 1\<rparr>,
       [UG_BPending_Set p, UG_qflow_Init p, UG_ppflow_Init p (ug_udpgw_mtu ug) (ug_send_buffer_size ug)])"
proof -
  have "ug_num_connections ug < ug_max_connections ug" using room ug_inv_max(3) [OF inv] by simp
  then obtain n where n: "find_unused_conid ug = Some (word_of_int n, ug\<lparr>ug_next_conid := n\<rparr>)" "0 \<le> n" "n < ug_max_connections ug"
    "ug_by_conid ug (word_of_int n) = None" by (rule find_unused_conid_returns [OF inv])
  show thesis
    by (rule that [OF n(2,3,4)])
      (use n k room env in \<open>simp add: UdpGwClient_SubmitPacket_def find_connection_by_conaddr_def connection_init_def tree_put_new Let_def\<close>)
qed

lemma Submit_no_memory:
  assumes "ug_by_conaddr ug \<lparr>local_addr = l, remote_addr = r\<rparr> = None" "ug_num_connections ug \<noteq> ug_max_connections ug"
    "env_malloc env = None"
  shows "UdpGwClient_SubmitPacket env ug l r is_dns data = Some (ug, [])"
  using assms by (simp add: UdpGwClient_SubmitPacket_def find_connection_by_conaddr_def connection_init_def Let_def)

lemma Submit_no_flow:
  assumes inv: "ug_inv ug" and k: "ug_by_conaddr ug \<lparr>local_addr = l, remote_addr = r\<rparr> = None"
    and room: "ug_num_connections ug \<noteq> ug_max_connections ug" and env: "env_malloc env = Some p" "\<not> env_ppflow env"
  obtains n where "0 \<le> n" "n < ug_max_connections ug"
    "UdpGwClient_SubmitPacket env ug l r is_dns data = Some
      (ug\<lparr>ug_next_conid := n\<rparr>, [UG_BPending_Set p, UG_qflow_Init p, UG_qflow_Free p, UG_BPending_Free p])"
proof -
  have "ug_num_connections ug < ug_max_connections ug" using room ug_inv_max(3) [OF inv] by simp
  then obtain n where n: "find_unused_conid ug = Some (word_of_int n, ug\<lparr>ug_next_conid := n\<rparr>)" "0 \<le> n" "n < ug_max_connections ug"
    by (rule find_unused_conid_returns [OF inv])
  show thesis
    by (rule that [OF n(2,3)])
      (use n k room env in \<open>simp add: UdpGwClient_SubmitPacket_def find_connection_by_conaddr_def connection_init_def Let_def\<close>)
qed

lemma connection_send_state [simp]: "fst (connection_send env ug p flags data) = ug"
  by (simp add: connection_send_def)

lemma ug_inv_next_update: "\<lbrakk>ug_inv ug; 0 \<le> n; n < ug_max_connections ug\<rbrakk> \<Longrightarrow> ug_inv (ug\<lparr>ug_next_conid := n\<rparr>)"
  unfolding ug_inv_def by simp

lemma uint_conid: "\<lbrakk>0 \<le> n; n < ug_max_connections ug; ug_inv ug\<rbrakk> \<Longrightarrow> uint (word_of_int n :: u16) = n"
  using ug_inv_max(2) [of ug] by (intro uint_u16_of_int) auto

lemma Submit_inv:
  assumes inv: "ug_inv ug" and fresh: "env_fresh env ug"
  shows "\<exists>ug' calls. UdpGwClient_SubmitPacket env ug l r is_dns data = Some (ug', calls) \<and> ug_inv ug'"
proof (cases "ug_by_conaddr ug \<lparr>local_addr = l, remote_addr = r\<rparr>")
  case (Some p)
  then have "ug_heap ug p \<noteq> None" using ug_inv_conaddr [OF inv] by blast
  then show ?thesis
    unfolding Submit_existing [OF Some] using ug_inv_touch [OF inv] connection_send_state by (metis prod.collapse)
next
  case None
  let ?k = "\<lparr>local_addr = l, remote_addr = r\<rparr>"
  show ?thesis
  proof (cases "ug_num_connections ug = ug_max_connections ug")
    case True
    from Submit_recycle [OF inv refl None True, of env is_dns data] obtain p ps c ug1 where h: "ug_heap ug p = Some c"
      "ug1 = ug\<lparr>ug_by_conaddr := (tree_drop p (ug_by_conaddr ug))(?k \<mapsto> p), ug_heap := (ug_heap ug)(p \<mapsto> c\<lparr>ugc_conaddr := ?k\<rparr>)\<rparr>"
      "UdpGwClient_SubmitPacket env ug l r is_dns data =
       Some (connection_send env (list_touch p ug1) p ((if is_dns then UDPGW_CLIENT_FLAG_DNS else 0) OR UDPGW_CLIENT_FLAG_REBIND) data)" .
    have "ug_inv ug1" unfolding h(2) by (rule ug_inv_rename [OF inv h(1) None])
    then have "ug_inv (list_touch p ug1)" by (rule ug_inv_touch) (simp add: h(2))
    then show ?thesis unfolding h(3) using connection_send_state by (metis prod.collapse)
  next
    case False
    show ?thesis
    proof (cases "env_malloc env")
      case m: None
      show ?thesis using Submit_no_memory [OF None False m] inv by simp
    next
      case m: (Some p)
      show ?thesis
      proof (cases "env_ppflow env")
        case True
        from Submit_new [OF inv refl None False m True, of is_dns data] obtain n where n: "0 \<le> n" "n < ug_max_connections ug"
            "ug_by_conid ug (word_of_int n) = None" and eq: "UdpGwClient_SubmitPacket env ug l r is_dns data = Some
      (ug\<lparr>ug_next_conid := n, ug_heap := (ug_heap ug)(p \<mapsto> \<lparr>ugc_conaddr = ?k,
            ugc_first_flags = (if is_dns then UDPGW_CLIENT_FLAG_DNS else 0), ugc_first_data = data, ugc_conid = word_of_int n\<rparr>),
          ug_by_conaddr := (ug_by_conaddr ug)(?k \<mapsto> p), ug_by_conid := (ug_by_conid ug)(word_of_int n \<mapsto> p),
          ug_list := ug_list ug @ [p], ug_num_connections := ug_num_connections ug + 1\<rparr>,
       [UG_BPending_Set p, UG_qflow_Init p, UG_ppflow_Init p (ug_udpgw_mtu ug) (ug_send_buffer_size ug)])" .
        have "ug_heap ug p = None" using fresh m by (simp add: env_fresh_def)
        moreover have "ug_num_connections ug < ug_max_connections ug" using False ug_inv_max(3) [OF inv] by simp
        ultimately show ?thesis
          using ug_inv_add [OF ug_inv_next_update [OF inv n(1,2)], of p "\<lparr>ugc_conaddr = ?k,
            ugc_first_flags = (if is_dns then UDPGW_CLIENT_FLAG_DNS else 0), ugc_first_data = data, ugc_conid = word_of_int n\<rparr>"]
            None n uint_conid [OF n(1,2) inv] eq by simp
      next
        case False': False
        from Submit_no_flow [OF inv None False m False', of is_dns data] show ?thesis
          using ug_inv_next_update [OF inv] by metis
      qed
    qed
  qed
qed

lemma recv_inv: "ug_inv ug \<Longrightarrow> ug_inv (fst (recv_interface_handler_send ug data))"
  using ug_inv_conid [of ug] ug_inv_touch [of ug]
  by (auto simp: recv_interface_handler_send_def Let_def find_connection_by_conid_def split: option.split prod.split)

section \<open>Reachable states\<close>

text \<open>
  Everything that happens to the client: packets from the user, the first job of a connection,
  packets from the gateway, the keepalive timer and its completion, and the server coming and
  going. The side conditions are the assertions of the code.
\<close>

inductive ug_step :: "UdpGwClient \<Rightarrow> UdpGwClient_call list \<Rightarrow> UdpGwClient \<Rightarrow> bool" where
  step_submit: "\<lbrakk>env_fresh env ug; BAddr_wf r; r \<noteq> BAddr_None; int (length data) \<le> ug_udp_mtu ug;
    UdpGwClient_SubmitPacket env ug l r is_dns data = Some (ug', calls)\<rbrakk> \<Longrightarrow> ug_step ug calls ug'"
| step_first_job: "\<lbrakk>ug_heap ug p \<noteq> None; connection_first_job_handler env ug p = (ug', calls)\<rbrakk> \<Longrightarrow> ug_step ug calls ug'"
| step_recv: "recv_interface_handler_send ug data = (ug', calls) \<Longrightarrow> ug_step ug calls ug'"
| step_decoder_error: "decoder_handler_error ug = (ug', calls) \<Longrightarrow> ug_step ug calls ug'"
| step_monitor: "send_monitor_handler ug = (ug', calls) \<Longrightarrow> ug_step ug calls ug'"
| step_keepalive_done: "keepalive_if_handler_done ug = (ug', calls) \<Longrightarrow> ug_step ug calls ug'"
| step_connect: "\<lbrakk>\<not> ug_have_server ug; UdpGwClient_ConnectServer ok ug = (res, ug', calls)\<rbrakk> \<Longrightarrow> ug_step ug calls ug'"
| step_disconnect: "\<lbrakk>ug_have_server ug; UdpGwClient_DisconnectServer ug = (ug', calls)\<rbrakk> \<Longrightarrow> ug_step ug calls ug'"

inductive ug_reach :: "UdpGwClient \<Rightarrow> bool" where
  reach_init: "\<lbrakk>UdpGwClient_Init True udp_mtu max_connections send_buffer_size = (Some ug, calls);
    0 < max_connections; 0 \<le> udp_mtu; 22 + udp_mtu \<le> INT_MAX\<rbrakk> \<Longrightarrow> ug_reach ug"
| reach_step: "\<lbrakk>ug_reach ug; ug_step ug calls ug'\<rbrakk> \<Longrightarrow> ug_reach ug'"

lemma ug_inv_Init: "\<lbrakk>UdpGwClient_Init True m n s = (Some ug, calls); 0 < n\<rbrakk> \<Longrightarrow> ug_inv ug"
  by (auto simp: UdpGwClient_Init_def ug_inv_def Let_def split: if_splits)

lemma ug_inv_flags [simp]: "ug_inv (ug\<lparr>ug_keepalive_sending := b\<rparr>) = ug_inv ug" "ug_inv (ug\<lparr>ug_have_server := b\<rparr>) = ug_inv ug"
  by (simp_all add: ug_inv_def)

lemma ug_step_inv: "\<lbrakk>ug_step ug calls ug'; ug_inv ug\<rbrakk> \<Longrightarrow> ug_inv ug'"
proof (induction rule: ug_step.induct)
  case (step_submit env ug r data l is_dns ug' calls)
  then show ?case using Submit_inv [of ug env l r is_dns data] by auto
next
  case (step_recv ug data ug' calls)
  then show ?case using recv_inv [of ug data] by simp
qed (auto simp: connection_first_job_handler_def connection_send_def decoder_handler_error_def send_monitor_handler_def
    keepalive_if_handler_done_def UdpGwClient_ConnectServer_def UdpGwClient_DisconnectServer_def split: if_splits)

lemma ug_reach_inv: "ug_reach ug \<Longrightarrow> ug_inv ug"
  by (induction rule: ug_reach.induct) (auto intro: ug_inv_Init ug_step_inv)

lemma Submit_sessions:
  assumes inv: "ug_inv ug" and fresh: "env_fresh env ug" and env: "env_malloc env = Some p" "env_ppflow env"
  shows "\<exists>ug' calls. UdpGwClient_SubmitPacket env ug l r is_dns data = Some (ug', calls) \<and>
    ug_sessions ug' = lru_use (nat (ug_max_connections ug)) \<lparr>local_addr = l, remote_addr = r\<rparr> (ug_sessions ug)"
proof (cases "ug_by_conaddr ug \<lparr>local_addr = l, remote_addr = r\<rparr>")
  case (Some q)
  then obtain c where c: "ug_heap ug q = Some c" "ugc_conaddr c = \<lparr>local_addr = l, remote_addr = r\<rparr>"
    using ug_inv_conaddr [OF inv] by blast
  have "\<lparr>local_addr = l, remote_addr = r\<rparr> \<in> set (ug_sessions ug)" using sessions_found [OF inv] Some by simp
  then show ?thesis
    unfolding Submit_existing [OF Some] using sessions_touch [OF inv c(1)] c(2)
    by (metis connection_send_state lru_use_def prod.collapse)
next
  case None
  let ?k = "\<lparr>local_addr = l, remote_addr = r\<rparr>"
  have notin: "?k \<notin> set (ug_sessions ug)" using sessions_found [OF inv] None by simp
  have len: "length (ug_sessions ug) = length (ug_list ug)" by (simp add: ug_sessions_def)
  show ?thesis
  proof (cases "ug_num_connections ug = ug_max_connections ug")
    case True
    from Submit_recycle [OF inv refl None True, of env is_dns data] obtain q ps c ug1 where h: "ug_list ug = q # ps" "ug_heap ug q = Some c"
      "ug1 = ug\<lparr>ug_by_conaddr := (tree_drop q (ug_by_conaddr ug))(?k \<mapsto> q), ug_heap := (ug_heap ug)(q \<mapsto> c\<lparr>ugc_conaddr := ?k\<rparr>)\<rparr>"
      "UdpGwClient_SubmitPacket env ug l r is_dns data =
       Some (connection_send env (list_touch q ug1) q ((if is_dns then UDPGW_CLIENT_FLAG_DNS else 0) OR UDPGW_CLIENT_FLAG_REBIND) data)" .
    have "q \<notin> set ps" using ug_inv_distinct [OF inv] h(1) by simp
    then have "ug_sessions (list_touch q ug1) = tl (ug_sessions ug) @ [?k]"
      using h(1,2) by (auto simp: h(3) ug_sessions_def list_touch_def)
    moreover have "length (ug_sessions ug) = nat (ug_max_connections ug)"
      using True ug_inv_num [OF inv] len by simp
    ultimately have "ug_sessions (list_touch q ug1) = lru_use (nat (ug_max_connections ug)) ?k (ug_sessions ug)"
      using notin by (simp add: lru_use_def)
    then show ?thesis unfolding h(4) by (metis connection_send_state prod.collapse)
  next
    case False
    from Submit_new [OF inv refl None False env, of is_dns data] obtain n where eq: "UdpGwClient_SubmitPacket env ug l r is_dns data = Some
      (ug\<lparr>ug_next_conid := n, ug_heap := (ug_heap ug)(p \<mapsto> \<lparr>ugc_conaddr = ?k,
            ugc_first_flags = (if is_dns then UDPGW_CLIENT_FLAG_DNS else 0), ugc_first_data = data, ugc_conid = word_of_int n\<rparr>),
          ug_by_conaddr := (ug_by_conaddr ug)(?k \<mapsto> p), ug_by_conid := (ug_by_conid ug)(word_of_int n \<mapsto> p),
          ug_list := ug_list ug @ [p], ug_num_connections := ug_num_connections ug + 1\<rparr>,
       [UG_BPending_Set p, UG_qflow_Init p, UG_ppflow_Init p (ug_udpgw_mtu ug) (ug_send_buffer_size ug)])" .
    have "p \<notin> set (ug_list ug)" using fresh env(1) ug_inv_list [OF inv] by (auto simp: env_fresh_def)
    then have "ug_sessions (ug\<lparr>ug_next_conid := n, ug_heap := (ug_heap ug)(p \<mapsto> \<lparr>ugc_conaddr = ?k,
            ugc_first_flags = (if is_dns then UDPGW_CLIENT_FLAG_DNS else 0), ugc_first_data = data, ugc_conid = word_of_int n\<rparr>),
          ug_by_conaddr := (ug_by_conaddr ug)(?k \<mapsto> p), ug_by_conid := (ug_by_conid ug)(word_of_int n \<mapsto> p),
          ug_list := ug_list ug @ [p], ug_num_connections := ug_num_connections ug + 1\<rparr>) = ug_sessions ug @ [?k]"
      by (auto simp: ug_sessions_def)
    moreover have "length (ug_sessions ug) \<noteq> nat (ug_max_connections ug)"
      using False ug_inv_num [OF inv] ug_inv_max(1) [OF inv] len by auto
    ultimately show ?thesis unfolding eq using notin by (simp add: lru_use_def)
  qed
qed

section \<open>Packets to and from the gateway\<close>

lemma udpgw_addr_length: "BAddr_wf a \<Longrightarrow> length (udpgw_addr a) \<le> 18"
  by (cases a) simp_all

lemma flag_ipv6: "(f OR UDPGW_CLIENT_FLAG_IPV6) AND UDPGW_CLIENT_FLAG_IPV6 \<noteq> 0"
proof
  assume "(f OR UDPGW_CLIENT_FLAG_IPV6) AND UDPGW_CLIENT_FLAG_IPV6 = 0"
  then have "bit ((f OR UDPGW_CLIENT_FLAG_IPV6) AND UDPGW_CLIENT_FLAG_IPV6) 3 = bit (0 :: byte) 3" by (rule arg_cong)
  then show False by (simp add: udpgw_flags bit_simps)
qed

lemma parse_remote_addr:
  assumes "BAddr_wf a" "a \<noteq> BAddr_None" "f AND UDPGW_CLIENT_FLAG_IPV6 = 0"
  shows "parse_remote (if BAddr_type a = 2 then f OR UDPGW_CLIENT_FLAG_IPV6 else f) (udpgw_addr a @ data) = Some (a, data)"
  using assms flag_ipv6 [of f] by (cases a) (auto simp: parse_remote_def window_def)

lemma packet_header:
  "connection_packet c f data ! 0 = (if BAddr_type (remote_addr (ugc_conaddr c)) = 2 then f OR UDPGW_CLIENT_FLAG_IPV6 else f)"
  "window 1 2 (connection_packet c f data) = mem16 (ugc_conid c)"
  "drop 3 (connection_packet c f data) = udpgw_addr (remote_addr (ugc_conaddr c)) @ data"
  "3 \<le> length (connection_packet c f data)"
  by (simp_all add: connection_packet_def window_def ltoh16_def htol16_def Let_def)

lemma recv_own_packet:
  assumes inv: "ug_inv ug" and c: "ug_heap ug p = Some c" and addr: "BAddr_wf (remote_addr (ugc_conaddr c))" "remote_addr (ugc_conaddr c) \<noteq> BAddr_None"
    and f: "f AND UDPGW_CLIENT_FLAG_IPV6 = 0" and len: "int (length data) \<le> ug_udp_mtu ug"
  shows "recv_interface_handler_send ug (connection_packet c f data) =
    (list_touch p ug, [UG_recv_Done, UG_handler_received (local_addr (ugc_conaddr c)) (remote_addr (ugc_conaddr c)) data])"
proof -
  have "ug_by_conid ug (ugc_conid c) = Some p" using c by (simp add: ug_inv_conid [OF inv])
  then show ?thesis
    using c len packet_header [of c f data] parse_remote_addr [OF addr f] CompareOrder_zero [OF addr(1) addr(1)]
    by (simp add: recv_interface_handler_send_def find_connection_by_conid_def ltoh16_def htol16_def Let_def del: One_nat_def)
qed

text \<open>Whatever arrives, a delivery is for a live connection and its remote address.\<close>

lemma recv_delivery:
  assumes inv: "ug_inv ug" and wf: "\<And>p c. ug_heap ug p = Some c \<Longrightarrow> BAddr_wf (remote_addr (ugc_conaddr c))"
    and d: "UG_handler_received l r data \<in> set (snd (recv_interface_handler_send ug pkt))"
  shows "\<exists>p c. ug_heap ug p = Some c \<and> ugc_conaddr c = \<lparr>local_addr = l, remote_addr = r\<rparr> \<and>
    ugc_conid c = of_mem16 (window 1 2 pkt) \<and> parse_remote (pkt ! 0) (drop 3 pkt) = Some (r, data) \<and> int (length data) \<le> ug_udp_mtu ug"
proof -
  note defs = recv_interface_handler_send_def find_connection_by_conid_def ltoh16_def htol16_def Let_def
  have len: "\<not> length pkt < 3" using d by (cases "length pkt < 3") (simp_all add: defs)
  have "parse_remote (pkt ! 0) (drop 3 pkt) \<noteq> None"
    using d len by (cases "parse_remote (pkt ! 0) (drop 3 pkt)") (simp_all add: defs)
  then obtain remote rest where pr: "parse_remote (pkt ! 0) (drop 3 pkt) = Some (remote, rest)" by force
  have mtu: "\<not> int (length rest) > ug_udp_mtu ug" using d len pr by (cases "int (length rest) > ug_udp_mtu ug") (simp_all add: defs)
  obtain p where p: "ug_by_conid ug (of_mem16 (window 1 2 pkt)) = Some p"
    using d len pr mtu by (cases "ug_by_conid ug (of_mem16 (window 1 2 pkt))") (simp_all add: defs)
  let ?a = "ugc_conaddr (the (ug_heap ug p))"
  have cmp: "BAddr_CompareOrder (remote_addr ?a) remote = 0"
    using d len pr mtu p by (cases "BAddr_CompareOrder (remote_addr ?a) remote = 0") (simp_all add: defs)
  have lr: "l = local_addr ?a" "r = remote_addr ?a" "data = rest" using d len pr mtu p cmp by (simp_all add: defs)
  note h = pr mtu p cmp lr
  obtain c where c: "ug_heap ug p = Some c" "ugc_conid c = of_mem16 (window 1 2 pkt)" using h(3) ug_inv_conid [OF inv] by blast
  have "BAddr_wf remote" using h(1) by (auto simp: parse_remote_def split: if_splits)
  then have "remote = r" using h(4,6) c(1) wf [OF c(1)] by (simp add: CompareOrder_zero)
  moreover have "ugc_conaddr c = \<lparr>local_addr = l, remote_addr = r\<rparr>" unfolding lr(1,2) c(1) by simp
  moreover have "int (length data) \<le> ug_udp_mtu ug" using mtu lr(3) by simp
  ultimately show ?thesis using c pr lr(3) by blast
qed

lemma compute_mtu:
  assumes "0 \<le> m" "m \<le> INT_MAX"
  shows "udpgw_compute_mtu m = (if 22 + m \<le> INT_MAX then 22 + m else -1)"
proof -
  have "bsize_fromint m = \<lparr>is_overflow = False, bsize_value = nat m\<rparr>" using assms by (simp add: bsize_fromint_def)
  moreover have "(18 + nat m) mod 4294967296 = 18 + nat m" "(22 + nat m) mod 4294967296 = 22 + nat m" "nat m \<le> 2147483647"
    using assms by (auto intro!: mod_less)
  ultimately show ?thesis
    using assms by (simp add: udpgw_compute_mtu_def bsize_toint_def bsize_add_def bsize_max_def bsize_fromsize_def)
qed

lemma packet_length:
  assumes "BAddr_wf (remote_addr (ugc_conaddr c))"
  shows "length (connection_packet c f data) \<le> 21 + length data"
  using udpgw_addr_length [OF assms] by (simp add: connection_packet_def Let_def)

text \<open>What the connections hold is valid, and the frame of the largest packet fits the queue.\<close>

definition ug_good :: "UdpGwClient \<Rightarrow> bool" where
  "ug_good ug \<longleftrightarrow> ug_udpgw_mtu ug = 22 + ug_udp_mtu ug \<and>
     (\<forall>p c. ug_heap ug p = Some c \<longrightarrow> BAddr_wf (remote_addr (ugc_conaddr c)) \<and> remote_addr (ugc_conaddr c) \<noteq> BAddr_None \<and>
        int (length (ugc_first_data c)) \<le> ug_udp_mtu ug)"

lemma heap_touch: "ug_heap (list_touch p ug) = ug_heap ug"
  by (simp add: list_touch_def)

lemma ug_good_fields:
  "ug_good (list_touch p ug) = ug_good ug" "ug_good (ug\<lparr>ug_next_conid := n\<rparr>) = ug_good ug"
  "ug_good (ug\<lparr>ug_keepalive_sending := b\<rparr>) = ug_good ug" "ug_good (ug\<lparr>ug_have_server := b\<rparr>) = ug_good ug"
  by (simp_all add: ug_good_def list_touch_def)

lemma ug_good_update:
  assumes "ug_good ug" "BAddr_wf (remote_addr (ugc_conaddr c))" "remote_addr (ugc_conaddr c) \<noteq> BAddr_None"
    "int (length (ugc_first_data c)) \<le> ug_udp_mtu ug"
    "ug_heap ug' = (ug_heap ug)(p \<mapsto> c)" "ug_udpgw_mtu ug' = ug_udpgw_mtu ug" "ug_udp_mtu ug' = ug_udp_mtu ug"
  shows "ug_good ug'"
  using assms by (simp add: ug_good_def split: if_split)

text \<open>The connection a packet is submitted to, and what becomes of the packet.\<close>

lemma Submit_effect:
  assumes inv: "ug_inv ug" and good: "ug_good ug" and addr: "BAddr_wf r" "r \<noteq> BAddr_None" and len: "int (length data) \<le> ug_udp_mtu ug"
    and eq: "UdpGwClient_SubmitPacket env ug l r is_dns data = Some (ug', calls)"
  shows "ug_good ug' \<and> (\<forall>p pkt. UG_EndPacket p pkt \<in> set calls \<longrightarrow>
    (\<exists>c f. ug_heap ug' p = Some c \<and> remote_addr (ugc_conaddr c) = r \<and> pkt = connection_packet c f data))"
proof (cases "ug_by_conaddr ug \<lparr>local_addr = l, remote_addr = r\<rparr>")
  case (Some q)
  then obtain c where c: "ug_heap ug q = Some c" "ugc_conaddr c = \<lparr>local_addr = l, remote_addr = r\<rparr>"
    using ug_inv_conaddr [OF inv] by blast
  then have "remote_addr (ugc_conaddr c) = r" by simp
  then show ?thesis
    using eq c(1) good unfolding Submit_existing [OF Some]
    by (auto simp: connection_send_def ug_good_fields heap_touch split: if_splits)
next
  case None
  let ?k = "\<lparr>local_addr = l, remote_addr = r\<rparr>"
  show ?thesis
  proof (cases "ug_num_connections ug = ug_max_connections ug")
    case True
    from Submit_recycle [OF inv refl None True, of env is_dns data] obtain q ps c ug1 where h: "ug_heap ug q = Some c"
      "ug1 = ug\<lparr>ug_by_conaddr := (tree_drop q (ug_by_conaddr ug))(?k \<mapsto> q), ug_heap := (ug_heap ug)(q \<mapsto> c\<lparr>ugc_conaddr := ?k\<rparr>)\<rparr>"
      "UdpGwClient_SubmitPacket env ug l r is_dns data =
       Some (connection_send env (list_touch q ug1) q ((if is_dns then UDPGW_CLIENT_FLAG_DNS else 0) OR UDPGW_CLIENT_FLAG_REBIND) data)" .
    have "ug_good ug1"
      by (rule ug_good_update [OF good, of "c\<lparr>ugc_conaddr := ?k\<rparr>" _ q]) (use good h(1) addr in \<open>auto simp: h(2) ug_good_def\<close>)
    moreover have "ug_heap (list_touch q ug1) q = Some (c\<lparr>ugc_conaddr := ?k\<rparr>)" by (simp add: h(2) list_touch_def)
    ultimately show ?thesis
      using eq unfolding h(3) by (auto simp: connection_send_def ug_good_fields split: if_splits)
  next
    case False
    show ?thesis
    proof (cases "env_malloc env")
      case m: None
      show ?thesis using Submit_no_memory [OF None False m] eq good by simp
    next
      case m: (Some p)
      show ?thesis
      proof (cases "env_ppflow env")
        case True
        from Submit_new [OF inv refl None False m True, of is_dns data] obtain n where n: "UdpGwClient_SubmitPacket env ug l r is_dns data = Some
      (ug\<lparr>ug_next_conid := n, ug_heap := (ug_heap ug)(p \<mapsto> \<lparr>ugc_conaddr = ?k,
            ugc_first_flags = (if is_dns then UDPGW_CLIENT_FLAG_DNS else 0), ugc_first_data = data, ugc_conid = word_of_int n\<rparr>),
          ug_by_conaddr := (ug_by_conaddr ug)(?k \<mapsto> p), ug_by_conid := (ug_by_conid ug)(word_of_int n \<mapsto> p),
          ug_list := ug_list ug @ [p], ug_num_connections := ug_num_connections ug + 1\<rparr>,
       [UG_BPending_Set p, UG_qflow_Init p, UG_ppflow_Init p (ug_udpgw_mtu ug) (ug_send_buffer_size ug)])" .
        have "ug_good ug'"
          by (rule ug_good_update [OF good, of "\<lparr>ugc_conaddr = ?k, ugc_first_flags = (if is_dns then UDPGW_CLIENT_FLAG_DNS else 0),
              ugc_first_data = data, ugc_conid = word_of_int n\<rparr>" _ p]) (use eq n addr len in auto)
        then show ?thesis using eq n by auto
      next
        case False': False
        from Submit_no_flow [OF inv None False m False', of is_dns data] obtain n where "UdpGwClient_SubmitPacket env ug l r is_dns data = Some
            (ug\<lparr>ug_next_conid := n\<rparr>, [UG_BPending_Set p, UG_qflow_Init p, UG_qflow_Free p, UG_BPending_Free p])" .
        then show ?thesis using eq good by (auto simp: ug_good_fields)
      qed
    qed
  qed
qed

lemma recv_good: "ug_good ug \<Longrightarrow> ug_good (fst (recv_interface_handler_send ug data))"
  by (auto simp: recv_interface_handler_send_def Let_def ug_good_fields split: option.split prod.split)

lemma ug_step_good: "\<lbrakk>ug_step ug calls ug'; ug_inv ug; ug_good ug\<rbrakk> \<Longrightarrow> ug_good ug'"
proof (induction rule: ug_step.induct)
  case (step_submit env ug r data l is_dns ug' calls)
  then show ?case using Submit_effect by blast
next
  case (step_recv ug data ug' calls)
  then show ?case using recv_good [of ug data] by simp
qed (auto simp: connection_first_job_handler_def connection_send_def decoder_handler_error_def send_monitor_handler_def
    keepalive_if_handler_done_def UdpGwClient_ConnectServer_def UdpGwClient_DisconnectServer_def ug_good_fields split: if_splits)

lemma ug_good_Init: "\<lbrakk>UdpGwClient_Init True m n s = (Some ug, calls); 0 \<le> m; 22 + m \<le> INT_MAX\<rbrakk> \<Longrightarrow> ug_good ug"
  using compute_mtu [of m] by (auto simp: UdpGwClient_Init_def ug_good_def Let_def split: if_splits)

lemma ug_reach_good: "ug_reach ug \<Longrightarrow> ug_good ug"
proof (induction rule: ug_reach.induct)
  case (reach_init udp_mtu max_connections send_buffer_size ug calls)
  then show ?case using ug_good_Init by blast
next
  case (reach_step ug calls ug')
  then show ?case using ug_step_good ug_reach_inv by blast
qed

lemma step_packet:
  assumes "ug_step ug calls ug'" "ug_inv ug" "ug_good ug" "UG_EndPacket p pkt \<in> set calls"
  shows "\<exists>c f data. ug_heap ug' p = Some c \<and> BAddr_wf (remote_addr (ugc_conaddr c)) \<and> int (length data) \<le> ug_udp_mtu ug \<and>
    pkt = connection_packet c f data"
  using assms
proof (induction rule: ug_step.induct)
  case (step_submit env ug r data l is_dns ug' calls)
  then obtain c f where "ug_good ug'" "ug_heap ug' p = Some c" "remote_addr (ugc_conaddr c) = r" "pkt = connection_packet c f data"
    using Submit_effect by blast
  then show ?case using step_submit by blast
next
  case (step_first_job ug q env ug' calls)
  then show ?case
    by (auto simp: connection_first_job_handler_def connection_send_def ug_good_def split: if_splits) blast
next
  case (step_recv ug data ug' calls)
  then show ?case
    by (auto simp: recv_interface_handler_send_def Let_def split: if_splits option.splits prod.splits)
qed (auto simp: decoder_handler_error_def send_monitor_handler_def keepalive_if_handler_done_def
    UdpGwClient_ConnectServer_def UdpGwClient_DisconnectServer_def free_server_def split: if_splits)

section \<open>Properties\<close>

definition demo_gw :: UdpGwClient where
  "demo_gw = the (fst (UdpGwClient_Init True 1500 2 8))"

definition demo_env :: ug_env where
  "demo_env = \<lparr>env_malloc = Some 1, env_ppflow = True, env_room = True\<rparr>"

lemma demo_gw_reach: "ug_reach demo_gw"
  by (rule reach_init [of 1500 2 8 _ "snd (UdpGwClient_Init True 1500 2 8)"]) (simp_all add: demo_gw_def UdpGwClient_Init_def Let_def)

lemma demo_gw_empty: "ug_heap demo_gw = Map.empty" "ug_udp_mtu demo_gw = 1500" "ug_max_connections demo_gw = 2"
  "ug_list demo_gw = []" "ug_sessions demo_gw = []"
  by (simp_all add: demo_gw_def UdpGwClient_Init_def Let_def ug_sessions_def)

lemma demo_env_fresh: "env_fresh demo_env demo_gw"
  by (simp add: env_fresh_def demo_gw_empty)

text \<open>
  C35. The tables of the gateway client agree in every reachable state: the connections found by
  address pair, by identifier and in the usage list are the same, there are never more of them
  than the configured maximum, and no two share an address pair or an identifier; and a packet
  can always be submitted: the search for a free identifier ends.
\<close>

theorem udpgw_tables:
  assumes "ug_reach ug"
  shows "ug_inv ug \<and> int (length (ug_list ug)) \<le> ug_max_connections ug \<and>
    (\<forall>p q c d. ug_heap ug p = Some c \<and> ug_heap ug q = Some d \<and> (ugc_conaddr c = ugc_conaddr d \<or> ugc_conid c = ugc_conid d) \<longrightarrow> p = q) \<and>
    (\<forall>env l r is_dns data. env_fresh env ug \<longrightarrow> UdpGwClient_SubmitPacket env ug l r is_dns data \<noteq> None)"
proof -
  note inv = ug_reach_inv [OF assms]
  have "UdpGwClient_SubmitPacket env ug l r is_dns data \<noteq> None" if "env_fresh env ug" for env l r is_dns data
    using Submit_inv [OF inv that] by blast
  then show ?thesis using inv ug_inv_unique [OF inv] ug_inv_num [OF inv] ug_inv_max(3) [OF inv] by auto
qed

theorem udpgw_tables_witness:
  "ug_inv demo_gw \<and> UdpGwClient_SubmitPacket demo_env demo_gw (BAddr_IPv4 1 2) (BAddr_IPv4 3 4) False [1] \<noteq> None"
  using udpgw_tables [OF demo_gw_reach] demo_env_fresh by blast

text \<open>
  C36. Submitting a packet is a use of a least-recently-used cache of bounded size: when memory
  and flow are available, the sessions afterwards are those of the cache: the pair of the packet
  is the most recent one, and the least recently used pair is dropped only when the pair was
  unknown and the table full.
\<close>

theorem udpgw_submit_lru:
  assumes "ug_reach ug" "env_fresh env ug" "env_malloc env = Some p" "env_ppflow env"
  shows "\<exists>ug' calls. UdpGwClient_SubmitPacket env ug l r is_dns data = Some (ug', calls) \<and>
    ug_sessions ug' = lru_use (nat (ug_max_connections ug)) \<lparr>local_addr = l, remote_addr = r\<rparr> (ug_sessions ug)"
  by (rule Submit_sessions [OF ug_reach_inv [OF assms(1)] assms(2-4)])

theorem udpgw_submit_lru_witness:
  "\<exists>ug' calls. UdpGwClient_SubmitPacket demo_env demo_gw (BAddr_IPv4 1 2) (BAddr_IPv4 3 4) True [7] = Some (ug', calls) \<and>
     ug_sessions ug' = [\<lparr>local_addr = BAddr_IPv4 1 2, remote_addr = BAddr_IPv4 3 4\<rparr>]"
  using udpgw_submit_lru [OF demo_gw_reach demo_env_fresh, of 1 "BAddr_IPv4 1 2" "BAddr_IPv4 3 4" True "[7]"]
  by (simp add: demo_env_def demo_gw_empty lru_use_def)

text \<open>
  Replies reach the right socket: the packet the client builds for a connection, sent back
  by the gateway, is delivered to the user with the connection's local and remote address and
  the data unchanged, and makes the connection the most recently used one.
\<close>

theorem udpgw_echo:
  assumes "ug_reach ug" "ug_heap ug p = Some c" "f AND UDPGW_CLIENT_FLAG_IPV6 = 0" "int (length data) \<le> ug_udp_mtu ug"
  shows "recv_interface_handler_send ug (connection_packet c f data) =
    (list_touch p ug, [UG_recv_Done, UG_handler_received (local_addr (ugc_conaddr c)) (remote_addr (ugc_conaddr c)) data])"
  using ug_reach_good [OF assms(1)] assms(2)
  by (intro recv_own_packet [OF ug_reach_inv [OF assms(1)] assms(2) _ _ assms(3,4)]) (auto simp: ug_good_def)

lemma demo_gw_connection:
  "\<exists>ug c. ug_reach ug \<and> ug_heap ug 1 = Some c \<and> ugc_conaddr c = \<lparr>local_addr = BAddr_IPv4 1 2, remote_addr = BAddr_IPv4 3 4\<rparr> \<and>
     ug_udp_mtu ug = 1500"
proof -
  have none: "ug_by_conaddr demo_gw \<lparr>local_addr = BAddr_IPv4 1 2, remote_addr = BAddr_IPv4 3 4\<rparr> = None"
    "ug_num_connections demo_gw \<noteq> ug_max_connections demo_gw" by (simp_all add: demo_gw_def UdpGwClient_Init_def Let_def)
  have env: "env_malloc demo_env = Some 1" "env_ppflow demo_env" by (simp_all add: demo_env_def)
  obtain n where eq: "UdpGwClient_SubmitPacket demo_env demo_gw (BAddr_IPv4 1 2) (BAddr_IPv4 3 4) False [7] = Some
      (demo_gw\<lparr>ug_next_conid := n, ug_heap := (ug_heap demo_gw)(1 \<mapsto> \<lparr>ugc_conaddr = \<lparr>local_addr = BAddr_IPv4 1 2, remote_addr = BAddr_IPv4 3 4\<rparr>,
            ugc_first_flags = (if False then UDPGW_CLIENT_FLAG_DNS else 0), ugc_first_data = [7], ugc_conid = word_of_int n\<rparr>),
          ug_by_conaddr := (ug_by_conaddr demo_gw)(\<lparr>local_addr = BAddr_IPv4 1 2, remote_addr = BAddr_IPv4 3 4\<rparr> \<mapsto> 1),
          ug_by_conid := (ug_by_conid demo_gw)(word_of_int n \<mapsto> 1), ug_list := ug_list demo_gw @ [1],
          ug_num_connections := ug_num_connections demo_gw + 1\<rparr>,
       [UG_BPending_Set 1, UG_qflow_Init 1, UG_ppflow_Init 1 (ug_udpgw_mtu demo_gw) (ug_send_buffer_size demo_gw)])"
    by (rule Submit_new [OF ug_reach_inv [OF demo_gw_reach] refl none env])
  from reach_step [OF demo_gw_reach step_submit [OF demo_env_fresh _ _ _ eq]] show ?thesis
    by (intro exI conjI) (auto simp: demo_gw_empty)
qed

theorem udpgw_echo_witness:
  "\<exists>(ug :: UdpGwClient) c. ug_heap ug 1 = Some c \<and> recv_interface_handler_send ug (connection_packet c 0 [1, 2, 3]) =
     (list_touch 1 ug, [UG_recv_Done, UG_handler_received (BAddr_IPv4 1 2) (BAddr_IPv4 3 4) [1, 2, 3]])"
proof -
  obtain ug c where h: "ug_reach ug" "ug_heap ug 1 = Some c" "ugc_conaddr c = \<lparr>local_addr = BAddr_IPv4 1 2, remote_addr = BAddr_IPv4 3 4\<rparr>"
    "ug_udp_mtu ug = 1500" using demo_gw_connection by blast
  from udpgw_echo [OF h(1,2), of 0 "[1, 2, 3]"] h show ?thesis by (intro exI conjI) auto
qed

text \<open>
  C37. A packet from the gateway, however malformed, is delivered only for a live connection:
  the delivered addresses are those of the connection whose identifier the packet carries, the
  remote address in the packet is the connection's, the data is the rest of the packet and is no
  longer than the UDP MTU.
\<close>

theorem udpgw_delivery_sound:
  assumes "ug_reach ug" "UG_handler_received l r data \<in> set (snd (recv_interface_handler_send ug pkt))"
  shows "\<exists>p c. ug_heap ug p = Some c \<and> ugc_conaddr c = \<lparr>local_addr = l, remote_addr = r\<rparr> \<and>
    ugc_conid c = of_mem16 (window 1 2 pkt) \<and> parse_remote (pkt ! 0) (drop 3 pkt) = Some (r, data) \<and> int (length data) \<le> ug_udp_mtu ug"
  using ug_reach_good [OF assms(1)]
  by (intro recv_delivery [OF ug_reach_inv [OF assms(1)] _ assms(2)]) (auto simp: ug_good_def)

theorem udpgw_delivery_sound_witness:
  "\<exists>(ug :: UdpGwClient) pkt. (\<exists>p c. ug_heap ug p = Some c \<and> ugc_conaddr c = \<lparr>local_addr = BAddr_IPv4 1 2, remote_addr = BAddr_IPv4 3 4\<rparr> \<and>
     ugc_conid c = of_mem16 (window 1 2 pkt) \<and> parse_remote (pkt ! 0) (drop 3 pkt) = Some (BAddr_IPv4 3 4, [9]))"
proof -
  obtain ug c where h: "ug_reach ug" "ug_heap ug 1 = Some c" "ugc_conaddr c = \<lparr>local_addr = BAddr_IPv4 1 2, remote_addr = BAddr_IPv4 3 4\<rparr>"
    "ug_udp_mtu ug = 1500" using demo_gw_connection by blast
  have "recv_interface_handler_send ug (connection_packet c 0 [9]) =
    (list_touch 1 ug, [UG_recv_Done, UG_handler_received (BAddr_IPv4 1 2) (BAddr_IPv4 3 4) [9]])"
    using recv_own_packet [OF ug_reach_inv [OF h(1)] h(2), of 0 "[9]"] h by simp
  then have "UG_handler_received (BAddr_IPv4 1 2) (BAddr_IPv4 3 4) [9] \<in> set (snd (recv_interface_handler_send ug (connection_packet c 0 [9])))"
    by simp
  from udpgw_delivery_sound [OF h(1) this] show ?thesis by blast
qed

text \<open>
  Packets to the gateway stay within the buffers: every packet that a step of the client
  hands to the queue of a connection is at most \<open>udpgw_mtu\<close> bytes long, the MTU that queue was
  made with.
\<close>

theorem udpgw_packet_fits:
  assumes "ug_reach ug" "ug_step ug calls ug'" "UG_EndPacket p pkt \<in> set calls"
  shows "int (length pkt) \<le> ug_udpgw_mtu ug"
proof -
  obtain c f data where h: "BAddr_wf (remote_addr (ugc_conaddr c))" "int (length data) \<le> ug_udp_mtu ug" "pkt = connection_packet c f data"
    using step_packet [OF assms(2) ug_reach_inv [OF assms(1)] ug_reach_good [OF assms(1)] assms(3)] by blast
  then show ?thesis using packet_length [OF h(1), of f data] ug_reach_good [OF assms(1)] by (simp add: ug_good_def)
qed

theorem udpgw_packet_fits_witness:
  "\<exists>(ug :: UdpGwClient) c. ug_heap ug 1 = Some c \<and> int (length (connection_packet c 2 (ugc_first_data c))) \<le> ug_udpgw_mtu ug"
proof -
  obtain ug c where h: "ug_reach ug" "ug_heap ug 1 = Some c" using demo_gw_connection by blast
  let ?r = "connection_first_job_handler demo_env ug 1"
  have "ug_step ug (snd ?r) (fst ?r)" by (rule step_first_job [of ug 1 demo_env]) (simp_all add: h(2) del: One_nat_def)
  moreover have "UG_EndPacket 1 (connection_packet c (UDPGW_CLIENT_FLAG_REBIND OR ugc_first_flags c) (ugc_first_data c)) \<in> set (snd ?r)"
    by (simp add: connection_first_job_handler_def connection_send_def demo_env_def h(2) del: One_nat_def)
  ultimately have "int (length (connection_packet c (UDPGW_CLIENT_FLAG_REBIND OR ugc_first_flags c) (ugc_first_data c))) \<le> ug_udpgw_mtu ug"
    by (rule udpgw_packet_fits [OF h(1)])
  then show ?thesis using h(2) by (auto simp: connection_packet_def Let_def)
qed

lemma free_connections_all:
  "ug_inv ug \<Longrightarrow> snd (free_connections ug) = concat (map (\<lambda>p. [UG_ppflow_Free p, UG_qflow_Free p, UG_BPending_Free p]) (ug_list ug)) \<and>
    ug_heap (fst (free_connections ug)) = Map.empty \<and> ug_list (fst (free_connections ug)) = [] \<and>
    ug_num_connections (fst (free_connections ug)) = 0 \<and> ug_have_server (fst (free_connections ug)) = ug_have_server ug"
proof (induction ug rule: free_connections.induct)
  case (1 ug)
  show ?case
  proof (cases "ug_list ug")
    case Nil
    then have "ug_heap ug = Map.empty" using ug_inv_list [OF 1(2)] by (simp add: dom_eq_empty_conv [symmetric] del: dom_eq_empty_conv)
    then show ?thesis using Nil ug_inv_num [OF 1(2)] by (subst (1 2 3 4 5) free_connections.simps) simp
  next
    case (Cons p ps)
    let ?r = "connection_free ug p"
    have "ug_heap ug p \<noteq> None" using ug_inv_list [OF 1(2)] Cons by auto
    then have inv: "ug_inv (fst ?r)" by (rule ug_inv_free [OF 1(2)])
    have list: "ug_list (fst ?r) = ps" "ug_have_server (fst ?r) = ug_have_server ug"
      using Cons by (simp_all add: connection_free_def)
    have unfold: "free_connections ug = (fst (free_connections (fst ?r)), snd ?r @ snd (free_connections (fst ?r)))"
      using Cons by (subst free_connections.simps) (simp add: split_beta)
    note IH = 1(1) [OF Cons, of ?r "fst ?r" "snd ?r", OF refl prod.collapse inv]
    show ?thesis using IH list unfolding unfold by (simp add: Cons connection_free_def)
  qed
qed

text \<open>
  Shutting the client down releases every connection exactly once: \<open>UdpGwClient_Free\<close> ends,
  frees the flows and the job of each connection in the table once, leaves no connection behind,
  and frees the server's objects exactly when a server is connected, all before the queue, the
  monitor and the connector that they use.
\<close>

theorem udpgw_free_releases:
  assumes "ug_reach ug"
  shows "ug_heap (fst (UdpGwClient_Free ug)) = Map.empty \<and>
    snd (UdpGwClient_Free ug) = [UG_queue_PrepareFree] @
      concat (map (\<lambda>p. [UG_ppflow_Free p, UG_qflow_Free p, UG_BPending_Free p]) (ug_list ug)) @
      (if ug_have_server ug then free_server else []) @
      [UG_keepalive_qflow_Free, UG_queue_Free, UG_monitor_Free, UG_connector_Free]"
  using free_connections_all [OF ug_reach_inv [OF assms]] by (simp add: UdpGwClient_Free_def split_beta)

theorem udpgw_free_releases_witness:
  "snd (UdpGwClient_Free demo_gw) =
     [UG_queue_PrepareFree, UG_keepalive_qflow_Free, UG_queue_Free, UG_monitor_Free, UG_connector_Free]"
proof -
  have "\<not> ug_have_server demo_gw" by (simp add: demo_gw_def UdpGwClient_Init_def Let_def)
  then show ?thesis using udpgw_free_releases [OF demo_gw_reach] by (simp add: demo_gw_empty)
qed

end
