(* ===== verification/IpUdp.thy ===== *)
theory IpUdp
  imports Addr
begin

text \<open>
  IPv4, IPv6 and UDP headers (\<open>misc/ipv4_proto.h\<close>, \<open>misc/ipv6_proto.h\<close>, \<open>misc/udp_proto.h\<close>): the
  Internet checksum at 32-bit width, the validation of received packets, and the layout of the
  headers. Header fields hold what is in memory, that is in network byte order.
\<close>

section \<open>Checksum\<close>

definition badvpn_read_be16 :: "byte \<Rightarrow> byte \<Rightarrow> u16" where
  "badvpn_read_be16 x y = push_bit 8 (ucast x) OR ucast y"

fun udp_checksum_summer :: "u32 \<Rightarrow> bytes \<Rightarrow> u32" where
  "udp_checksum_summer t (x # y # bs) = udp_checksum_summer (t + ucast (badvpn_read_be16 x y)) bs"
| "udp_checksum_summer t _ = t"

lemma unat_and_FFFF: "unat (t AND 0xFFFF :: u32) = unat t mod 65536"
proof -
  have "t AND 0xFFFF = take_bit 16 t" by (simp add: take_bit_eq_mask mask_numeral mask_Suc_0 flip: mask_eq_exp_minus_1)
  then show ?thesis by (simp add: take_bit_eq_mod unat_mod)
qed

lemma unat_drop_16: "unat (drop_bit 16 t :: u32) = unat t div 65536"
  by (simp add: drop_bit_eq_div unat_div)

lemma unat_u32_bound: "unat (t :: u32) < 4294967296"
  using unsigned_less [of t, where 'a = nat] by simp

lemma unat_fold_step: "unat ((t AND 0xFFFF) + drop_bit 16 t :: u32) = unat t mod 65536 + unat t div 65536"
proof -
  have "unat t div 65536 < 65536" using unat_u32_bound [of t] by (simp add: less_mult_imp_div_less)
  then show ?thesis
    by (subst unat_plus_if') (simp add: unat_and_FFFF unat_drop_16)
qed

lemma drop_16_zero: "drop_bit 16 t = 0 \<longleftrightarrow> unat (t :: u32) < 65536"
  by (metis unat_drop_16 div_eq_0_iff unat_eq_0 zero_neq_numeral)

text \<open>The carries are folded in until none is left.\<close>

function fold16 :: "u32 \<Rightarrow> u32" where
  "fold16 t = (if drop_bit 16 t \<noteq> 0 then fold16 ((t AND 0xFFFF) + drop_bit 16 t) else t)"
  by auto
termination
proof (relation "measure unat", goal_cases)
  case (2 t)
  then have "65536 \<le> unat t" by (simp add: drop_16_zero)
  then have "0 < unat t div 65536" by (simp add: div_greater_zero_iff)
  moreover have "unat t = unat t mod 65536 + 65536 * (unat t div 65536)" by simp
  ultimately have "unat t mod 65536 + unat t div 65536 < unat t" by linarith
  then show ?case by (simp add: unat_fold_step)
qed simp

declare fold16.simps [simp del]

lemma fold16_spec: "unat (fold16 t) < 65536 \<and> unat (fold16 t) mod 65535 = unat t mod 65535 \<and> (fold16 t = 0 \<longleftrightarrow> t = 0)"
proof (induction t rule: fold16.induct)
  case (1 t)
  let ?s = "(t AND 0xFFFF) + drop_bit 16 t"
  show ?case
  proof (cases "drop_bit 16 t = 0")
    case True
    then show ?thesis using drop_16_zero [of t] by (simp add: fold16.simps [of t])
  next
    case False
    have "unat t = unat t mod 65536 + 65536 * (unat t div 65536)" by simp
    also have "\<dots> = unat ?s + 65535 * (unat t div 65536)" by (simp add: unat_fold_step)
    finally have "unat ?s mod 65535 = unat t mod 65535" by (metis mod_mult_self2)
    moreover have "?s \<noteq> 0"
    proof
      assume "?s = 0"
      then have "unat t div 65536 = 0" using unat_fold_step [of t] by simp
      then show False using False unat_drop_16 [of t] by (simp add: unat_eq_0)
    qed
    moreover have "t \<noteq> 0" using False by auto
    ultimately show ?thesis using 1 [OF False] False by (simp add: fold16.simps [of t])
  qed
qed

fun be_sum :: "bytes \<Rightarrow> nat" where
  "be_sum (x # y # bs) = 256 * unat x + unat y + be_sum bs"
| "be_sum _ = 0"

lemma unat_byte: "unat (x :: byte) < 256"
  using unsigned_less [of x, where 'a = nat] by simp

lemma unat_read_be16: "unat (ucast (badvpn_read_be16 x y) :: u32) = 256 * unat x + unat y"
proof -
  have disj: "push_bit 8 (ucast x :: u16) AND ucast y = 0"
    by (rule bit_word_eqI) (auto simp: bit_simps dest: bit_imp_le_length)
  have "badvpn_read_be16 x y = push_bit 8 (ucast x) + ucast y"
    unfolding badvpn_read_be16_def by (rule disjunctive_add_eq_or [OF disj, symmetric])
  also have "\<dots> = of_nat (256 * unat x + unat y)"
    by (simp add: push_bit_eq_mult mult.commute flip: word_unat_eq_iff)
  finally have "badvpn_read_be16 x y = of_nat (256 * unat x + unat y)" .
  moreover have "256 * unat x + unat y < 65536" using unat_byte [of x] unat_byte [of y] by linarith
  ultimately have "unat (badvpn_read_be16 x y) = 256 * unat x + unat y" by (simp only: unat_of_nat len_num1 len_bit0) simp
  then show ?thesis using \<open>256 * unat x + unat y < 65536\<close> by (simp add: unsigned_ucast_eq take_bit_nat_eq_self)
qed

lemma summer_sum:
  "unat t + be_sum bs < 4294967296 \<Longrightarrow> unat (udp_checksum_summer t bs) = unat t + be_sum bs"
proof (induction t bs rule: udp_checksum_summer.induct)
  case (1 t x y bs)
  have "unat (t + ucast (badvpn_read_be16 x y)) = unat t + (256 * unat x + unat y)"
    using 1(2) by (subst unat_plus_if') (simp add: unat_read_be16)
  then show ?case using 1 by simp
qed simp_all

lemma be_sum_bound: "be_sum bs \<le> 65535 * (length bs div 2)"
proof (induction bs rule: be_sum.induct)
  case (1 x y bs)
  then show ?case using unat_byte [of x] unat_byte [of y] by simp
qed simp_all

lemma be_sum_append: "even (length xs) \<Longrightarrow> be_sum (xs @ ys) = be_sum xs + be_sum ys"
  by (induction xs rule: be_sum.induct) simp_all

section \<open>Headers\<close>

record ipv4_header =
  version4_ihl4 :: byte
  ip_ds :: byte
  total_length :: u16
  identification :: u16
  flags3_fragmentoffset13 :: u16
  ip_ttl :: byte
  ip_protocol :: byte
  ip_checksum :: u16
  source_address :: u32
  destination_address :: u32

definition ipv4_bytes :: "ipv4_header \<Rightarrow> bytes" where
  "ipv4_bytes h = [version4_ihl4 h, ip_ds h] @ mem16 (total_length h) @ mem16 (identification h) @
     mem16 (flags3_fragmentoffset13 h) @ [ip_ttl h, ip_protocol h] @ mem16 (ip_checksum h) @
     mem32 (source_address h) @ mem32 (destination_address h)"

definition ipv4_of_bytes :: "bytes \<Rightarrow> ipv4_header" where
  "ipv4_of_bytes bs =
     \<lparr>version4_ihl4 = bs ! 0, ip_ds = bs ! 1, total_length = of_mem16 (window 2 2 bs), identification = of_mem16 (window 4 2 bs),
      flags3_fragmentoffset13 = of_mem16 (window 6 2 bs), ip_ttl = bs ! 8, ip_protocol = bs ! 9, ip_checksum = of_mem16 (window 10 2 bs),
      source_address = of_mem32 (window 12 4 bs), destination_address = of_mem32 (window 16 4 bs)\<rparr>"

definition ipv4_checksum :: "ipv4_header \<Rightarrow> bytes \<Rightarrow> u16" where
  "ipv4_checksum header extra =
     hton16 (ucast (NOT (fold16 (udp_checksum_summer (udp_checksum_summer 0 (ipv4_bytes header)) extra))))"

definition ipv4_check :: "bytes \<Rightarrow> (ipv4_header \<times> bytes) option" where
  "ipv4_check data =
     (if length data < 20 then None
      else let header = ipv4_of_bytes (take 20 data)
      in if drop_bit 4 (version4_ihl4 header AND 0xF0) \<noteq> 4 then None
      else let header_len = unat (version4_ihl4 header AND 0x0F) * 4
      in if header_len < 20 then None
      else if header_len > length data then None
      else let len = unat (ntoh16 (total_length header))
      in if len < header_len then None
      else if len > length data then None
      else if ip_checksum header \<noteq> ipv4_checksum (header\<lparr>ip_checksum := hton16 0\<rparr>) (window 20 (header_len - 20) data) then None
      else Some (header, window header_len (len - header_len) data))"

record ipv6_header =
  version4_tc4 :: byte
  tc4_fl4 :: byte
  ip6_fl :: u16
  payload_length :: u16
  next_header :: byte
  hop_limit :: byte
  ip6_source_address :: bytes
  ip6_destination_address :: bytes

definition ipv6_bytes :: "ipv6_header \<Rightarrow> bytes" where
  "ipv6_bytes h = [version4_tc4 h, tc4_fl4 h] @ mem16 (ip6_fl h) @ mem16 (payload_length h) @ [next_header h, hop_limit h] @
     ip6_source_address h @ ip6_destination_address h"

definition ipv6_of_bytes :: "bytes \<Rightarrow> ipv6_header" where
  "ipv6_of_bytes bs =
     \<lparr>version4_tc4 = bs ! 0, tc4_fl4 = bs ! 1, ip6_fl = of_mem16 (window 2 2 bs), payload_length = of_mem16 (window 4 2 bs),
      next_header = bs ! 6, hop_limit = bs ! 7, ip6_source_address = window 8 16 bs, ip6_destination_address = window 24 16 bs\<rparr>"

definition ipv6_check :: "bytes \<Rightarrow> (ipv6_header \<times> bytes) option" where
  "ipv6_check data =
     (if length data < 40 then None
      else let header = ipv6_of_bytes (take 40 data)
      in if drop_bit 4 (version4_tc4 header) \<noteq> 6 then None
      else let len = unat (ntoh16 (payload_length header))
      in if len > length data - 40 then None
      else Some (header, window 40 len data))"

record udp_header =
  source_port :: u16
  dest_port :: u16
  udp_length :: u16
  udp_checksum_field :: u16

definition udp_bytes :: "udp_header \<Rightarrow> bytes" where
  "udp_bytes h = mem16 (source_port h) @ mem16 (dest_port h) @ mem16 (udp_length h) @ mem16 (udp_checksum_field h)"

definition udp_of_bytes :: "bytes \<Rightarrow> udp_header" where
  "udp_of_bytes bs = \<lparr>source_port = of_mem16 (window 0 2 bs), dest_port = of_mem16 (window 2 2 bs),
     udp_length = of_mem16 (window 4 2 bs), udp_checksum_field = of_mem16 (window 6 2 bs)\<rparr>"

definition udp_payload_sum :: "u32 \<Rightarrow> bytes \<Rightarrow> u32" where
  "udp_payload_sum t payload =
     (if even (length payload) then udp_checksum_summer t payload
      else udp_checksum_summer (udp_checksum_summer t (take (length payload - 1) payload))
             (mem16 (hton16 (push_bit 8 (ucast (payload ! (length payload - 1)))))))"

definition udp_checksum :: "udp_header \<Rightarrow> bytes \<Rightarrow> u32 \<Rightarrow> u32 \<Rightarrow> u16" where
  "udp_checksum header payload source_addr dest_addr =
     (let t = udp_checksum_summer (udp_checksum_summer 0 (mem32 source_addr)) (mem32 dest_addr);
          t = udp_checksum_summer t (mem16 (hton16 17));
          t = udp_checksum_summer t (mem16 (hton16 (of_nat (8 + length payload))));
          t = udp_checksum_summer t (udp_bytes header);
          t = fold16 (udp_payload_sum t payload);
          t = NOT t
      in hton16 (ucast (if t = 0 then 0xFFFF else t)))"

definition udp_ip6_checksum :: "udp_header \<Rightarrow> bytes \<Rightarrow> bytes \<Rightarrow> bytes \<Rightarrow> u16" where
  "udp_ip6_checksum header payload source_addr dest_addr =
     (let t = udp_checksum_summer (udp_checksum_summer 0 source_addr) dest_addr;
          t = udp_checksum_summer t (mem32 (hton32 (of_nat (8 + length payload))));
          t = udp_checksum_summer t (mem32 (hton32 17));
          t = udp_checksum_summer t (udp_bytes header);
          t = fold16 (udp_payload_sum t payload);
          t = NOT t
      in hton16 (ucast (if t = 0 then 0xFFFF else t)))"

definition udp_check :: "bytes \<Rightarrow> (udp_header \<times> bytes) option" where
  "udp_check data =
     (if length data < 8 then None
      else let header = udp_of_bytes (take 8 data); len = unat (ntoh16 (udp_length header))
      in if len < 8 then None
      else if len > 8 + (length data - 8) then None
      else Some (header, window 8 (len - 8) data))"

lemma header_lengths [simp]:
  "length (ipv4_bytes h) = 20" "length (udp_bytes u) = 8"
  by (simp_all add: ipv4_bytes_def udp_bytes_def)

lemma ipv4_of_bytes [simp]: "ipv4_of_bytes (ipv4_bytes h) = h"
  by (simp add: ipv4_of_bytes_def ipv4_bytes_def layout_simps)

lemma udp_of_bytes [simp]: "udp_of_bytes (udp_bytes h) = h"
  by (simp add: udp_of_bytes_def udp_bytes_def layout_simps)

definition ipv6_wf :: "ipv6_header \<Rightarrow> bool" where
  "ipv6_wf h \<longleftrightarrow> length (ip6_source_address h) = 16 \<and> length (ip6_destination_address h) = 16"

lemma ipv6_of_bytes [simp]: "ipv6_wf h \<Longrightarrow> ipv6_of_bytes (ipv6_bytes h) = h"
  by (simp add: ipv6_of_bytes_def ipv6_bytes_def ipv6_wf_def layout_simps)

lemma length_ipv6_bytes [simp]: "ipv6_wf h \<Longrightarrow> length (ipv6_bytes h) = 40"
  by (simp add: ipv6_bytes_def ipv6_wf_def)

end
