(* ===== verification/TunUdp.thy ===== *)
theory TunUdp
  imports IpUdp
begin

text \<open>
  The UDP path of \<open>tun2socks/tun2socks.c\<close> between the TUN device and the UDP relay:
  \<open>process_device_udp_packet\<close> validates a packet read from the device and hands its payload to the
  relay client, \<open>udpgw_client_handler_received\<close> builds the packet that answers it.
\<close>

section \<open>The two handlers\<close>

record tun_options =
  udpgw_remote_server_addr :: bool
  dnsgw :: bool
  netif_ip6addr :: bool

text \<open>
  The test on the DNS header: a 12-byte structure whose third byte has \<open>qr\<close> in its top bit, whose
  fourth has \<open>rcode\<close> in its low four, and whose answer and authority counts are at 6 and 8.
\<close>

definition is_dns_query :: "bytes \<Rightarrow> bool" where
  "is_dns_query data \<longleftrightarrow> length data \<ge> 12 \<and> drop_bit 7 (data ! 2) = 0 \<and> data ! 3 AND 0x0F = 0 \<and>
     of_mem16 (window 6 2 data) = 0 \<and> of_mem16 (window 8 2 data) = 0"

definition process_ipv4 :: "tun_options \<Rightarrow> bytes \<Rightarrow> (BAddr \<times> BAddr \<times> bool \<times> bytes) option" where
  "process_ipv4 opts data =
     (if length data < 20 \<or> data ! 9 \<noteq> 17 then None
      else case ipv4_check data of None \<Rightarrow> None
      | Some (iph, data1) \<Rightarrow>
      (case udp_check data1 of None \<Rightarrow> None
      | Some (udph, data2) \<Rightarrow>
          if udp_checksum_field udph \<noteq>
               udp_checksum (udph\<lparr>udp_checksum_field := 0\<rparr>) data2 (source_address iph) (destination_address iph)
          then None
          else Some (BAddr_IPv4 (source_address iph) (source_port udph),
                     BAddr_IPv4 (destination_address iph) (dest_port udph),
                     dnsgw opts \<and> dest_port udph = hton16 53 \<and> is_dns_query data2, data2)))"

definition process_ipv6 :: "tun_options \<Rightarrow> bytes \<Rightarrow> (BAddr \<times> BAddr \<times> bool \<times> bytes) option" where
  "process_ipv6 opts data =
     (if \<not> netif_ip6addr opts then None
      else if length data < 40 \<or> data ! 6 \<noteq> 17 then None
      else case ipv6_check data of None \<Rightarrow> None
      | Some (iph, data1) \<Rightarrow>
      (case udp_check data1 of None \<Rightarrow> None
      | Some (udph, data2) \<Rightarrow>
          if udp_checksum_field udph \<noteq>
               udp_ip6_checksum (udph\<lparr>udp_checksum_field := 0\<rparr>) data2 (ip6_source_address iph) (ip6_destination_address iph)
          then None
          else Some (BAddr_IPv6 (ip6_source_address iph) (source_port udph),
                     BAddr_IPv6 (ip6_destination_address iph) (dest_port udph), False, data2)))"

text \<open>The result is the packet submitted to the relay client; \<open>None\<close> when the function returns 0.\<close>

definition process_device_udp_packet :: "tun_options \<Rightarrow> int \<Rightarrow> bytes \<Rightarrow> (BAddr \<times> BAddr \<times> bool \<times> bytes) option" where
  "process_device_udp_packet opts udp_mtu data =
     (if \<not> udpgw_remote_server_addr opts then None
      else let ip_version = (if length data > 0 then drop_bit 4 (data ! 0) else 0);
               parsed = (if ip_version = 4 then process_ipv4 opts data
                         else if ip_version = 6 then process_ipv6 opts data else None)
      in case parsed of None \<Rightarrow> None
         | Some (local_addr, remote_addr, is_dns, payload) \<Rightarrow>
             if int (length payload) > udp_mtu then None else Some (local_addr, remote_addr, is_dns, payload))"

text \<open>The packet sent to the device, if any. The addresses are of the same family, as the code asserts.\<close>

fun udpgw_client_handler_received :: "tun_options \<Rightarrow> int \<Rightarrow> BAddr \<Rightarrow> BAddr \<Rightarrow> bytes \<Rightarrow> bytes option" where
  "udpgw_client_handler_received opts mtu (BAddr_IPv4 lip lport) (BAddr_IPv4 rip rport) data =
     (if length data > UINT16_MAX - (20 + 8) \<or> int (length data) > mtu - (20 + 8) then None
      else let iph0 = \<lparr>version4_ihl4 = of_nat (20 div 4) + push_bit 4 4, ip_ds = 0,
                 total_length = hton16 (of_nat (20 + 8 + length data)), identification = hton16 0,
                 flags3_fragmentoffset13 = hton16 0, ip_ttl = 64, ip_protocol = 17, ip_checksum = hton16 0,
                 source_address = rip, destination_address = lip\<rparr>;
               iph = iph0\<lparr>ip_checksum := ipv4_checksum iph0 []\<rparr>;
               udph0 = \<lparr>source_port = rport, dest_port = lport, udp_length = hton16 (of_nat (8 + length data)),
                 udp_checksum_field = hton16 0\<rparr>;
               udph = udph0\<lparr>udp_checksum_field := udp_checksum udph0 data rip lip\<rparr>
      in Some (ipv4_bytes iph @ udp_bytes udph @ data))"
| "udpgw_client_handler_received opts mtu (BAddr_IPv6 lip lport) (BAddr_IPv6 rip rport) data =
     (if \<not> netif_ip6addr opts then None
      else if length data > UINT16_MAX - 8 \<or> int (length data) > mtu - (40 + 8) then None
      else let iph = \<lparr>version4_tc4 = push_bit 4 6, tc4_fl4 = 0, ip6_fl = hton16 0,
                 payload_length = hton16 (of_nat (8 + length data)), next_header = 17, hop_limit = 64,
                 ip6_source_address = rip, ip6_destination_address = lip\<rparr>;
               udph0 = \<lparr>source_port = rport, dest_port = lport, udp_length = hton16 (of_nat (8 + length data)),
                 udp_checksum_field = hton16 0\<rparr>;
               udph = udph0\<lparr>udp_checksum_field := udp_ip6_checksum udph0 data rip lip\<rparr>
      in Some (ipv6_bytes iph @ udp_bytes udph @ data))"
| "udpgw_client_handler_received opts mtu _ _ data = None"

section \<open>Parsing what was built\<close>

lemma hton16_0: "hton16 0 = 0"
  by (rule bit_word_eqI) (auto simp: hton16_def badvpn_reverse16_def mem16_def of_mem16_def bit_simps)

lemma unat_of_nat_len: "n \<le> UINT16_MAX \<Longrightarrow> unat (ntoh16 (hton16 (of_nat n))) = n"
  by simp

lemma udp_check_built:
  assumes "udp_length u = hton16 (of_nat (8 + length data))" "length data \<le> UINT16_MAX - 8"
  shows "udp_check (udp_bytes u @ data) = Some (u, data)"
proof -
  have "unat (ntoh16 (udp_length u)) = 8 + length data"
    unfolding assms(1) by (rule unat_of_nat_len) (use assms(2) in simp)
  then show ?thesis by (simp add: udp_check_def window_skip window_here_all)
qed

lemma ipv4_check_built:
  assumes v: "version4_ihl4 h = 0x45" and len: "total_length h = hton16 (of_nat (20 + length payload))" "20 + length payload \<le> UINT16_MAX"
    and ck: "ip_checksum h = ipv4_checksum (h\<lparr>ip_checksum := hton16 0\<rparr>) []"
  shows "ipv4_check (ipv4_bytes h @ payload) = Some (h, payload)"
proof -
  have l: "unat (ntoh16 (total_length h)) = 20 + length payload"
    unfolding len(1) by (rule unat_of_nat_len) (use len(2) in simp)
  have hl: "unat ((0x45 :: byte) AND 0x0F) * 4 = 20" "drop_bit 4 ((0x45 :: byte) AND 0xF0) = 4" by simp_all
  show ?thesis
    using l ck by (simp add: ipv4_check_def v hl window_skip window_here_all Let_def)
qed

lemma ipv6_check_built:
  assumes "version4_tc4 h = 0x60" "payload_length h = hton16 (of_nat (length payload))" "length payload \<le> UINT16_MAX" "ipv6_wf h"
  shows "ipv6_check (ipv6_bytes h @ payload) = Some (h, payload)"
proof -
  have "unat (ntoh16 (payload_length h)) = length payload"
    unfolding assms(2) by (rule unat_of_nat_len) (use assms(3) in simp)
  moreover have "drop_bit 4 (0x60 :: byte) = 6" by simp
  ultimately show ?thesis using assms(1,4) by (simp add: ipv6_check_def window_skip window_here_all Let_def)
qed

lemma built_first_bytes:
  "(ipv4_bytes h @ xs) ! 0 = version4_ihl4 h" "(ipv4_bytes h @ xs) ! 9 = ip_protocol h"
  "(ipv6_bytes k @ xs) ! 0 = version4_tc4 k" "(ipv6_bytes k @ xs) ! 6 = next_header k"
  by (simp_all add: ipv4_bytes_def ipv6_bytes_def layout_simps)

lemma built_ipv4:
  assumes "udpgw_client_handler_received opts mtu (BAddr_IPv4 lip lport) (BAddr_IPv4 rip rport) data = Some pkt"
  obtains iph udph where "pkt = ipv4_bytes iph @ udp_bytes udph @ data" "version4_ihl4 iph = 0x45" "ip_protocol iph = 17"
    "total_length iph = hton16 (of_nat (20 + length (udp_bytes udph @ data)))" "ip_checksum iph = ipv4_checksum (iph\<lparr>ip_checksum := hton16 0\<rparr>) []"
    "source_address iph = rip" "destination_address iph = lip" "source_port udph = rport" "dest_port udph = lport"
    "udp_length udph = hton16 (of_nat (8 + length data))" "udp_checksum_field udph = udp_checksum (udph\<lparr>udp_checksum_field := 0\<rparr>) data rip lip"
    "length data \<le> UINT16_MAX - 28" "int (length data) \<le> mtu - 28"
proof -
  let ?iph0 = "\<lparr>version4_ihl4 = of_nat (20 div 4) + push_bit 4 4, ip_ds = 0,
                 total_length = hton16 (of_nat (20 + 8 + length data)), identification = hton16 0,
                 flags3_fragmentoffset13 = hton16 0, ip_ttl = 64, ip_protocol = 17, ip_checksum = hton16 0,
                 source_address = rip, destination_address = lip\<rparr>"
  let ?udph0 = "\<lparr>source_port = rport, dest_port = lport, udp_length = hton16 (of_nat (8 + length data)), udp_checksum_field = hton16 0\<rparr>"
  have "\<not> (length data > UINT16_MAX - 28 \<or> int (length data) > mtu - 28)" and
    pkt: "pkt = ipv4_bytes (?iph0\<lparr>ip_checksum := ipv4_checksum ?iph0 []\<rparr>) @ udp_bytes (?udph0\<lparr>udp_checksum_field := udp_checksum ?udph0 data rip lip\<rparr>) @ data"
    using assms by (simp_all add: Let_def split: if_splits)
  moreover have "(of_nat (20 div 4) + push_bit 4 4 :: byte) = 0x45" by simp
  ultimately show thesis
    by (intro that [OF pkt]) (simp_all add: hton16_0 add.assoc)
qed

lemma built_ipv6:
  assumes "udpgw_client_handler_received opts mtu (BAddr_IPv6 lip lport) (BAddr_IPv6 rip rport) data = Some pkt" "length lip = 16" "length rip = 16"
  obtains iph udph where "pkt = ipv6_bytes iph @ udp_bytes udph @ data" "version4_tc4 iph = 0x60" "next_header iph = 17" "ipv6_wf iph"
    "payload_length iph = hton16 (of_nat (length (udp_bytes udph @ data)))"
    "ip6_source_address iph = rip" "ip6_destination_address iph = lip" "source_port udph = rport" "dest_port udph = lport"
    "udp_length udph = hton16 (of_nat (8 + length data))" "udp_checksum_field udph = udp_ip6_checksum (udph\<lparr>udp_checksum_field := 0\<rparr>) data rip lip"
    "length data \<le> UINT16_MAX - 8" "int (length data) \<le> mtu - 48" "netif_ip6addr opts"
proof -
  let ?iph = "\<lparr>version4_tc4 = push_bit 4 6, tc4_fl4 = 0, ip6_fl = hton16 0,
                 payload_length = hton16 (of_nat (8 + length data)), next_header = 17, hop_limit = 64,
                 ip6_source_address = rip, ip6_destination_address = lip\<rparr>"
  let ?udph0 = "\<lparr>source_port = rport, dest_port = lport, udp_length = hton16 (of_nat (8 + length data)), udp_checksum_field = hton16 0\<rparr>"
  have "netif_ip6addr opts" "\<not> (length data > UINT16_MAX - 8 \<or> int (length data) > mtu - 48)" and
    pkt: "pkt = ipv6_bytes ?iph @ udp_bytes (?udph0\<lparr>udp_checksum_field := udp_ip6_checksum ?udph0 data rip lip\<rparr>) @ data"
    using assms(1) by (simp_all add: Let_def split: if_splits)
  moreover have "(push_bit 4 6 :: byte) = 0x60" by simp
  ultimately show thesis
    using assms(2,3) by (intro that [OF pkt]) (simp_all add: hton16_0 ipv6_wf_def)
qed

section \<open>Validity of the header checksum\<close>

lemma unat_split_byte: "256 * unat (ucast (drop_bit 8 w) :: byte) + unat (ucast w :: byte) = unat (w :: u16)"
proof -
  have "unat w < 65536" using unsigned_less [of w, where 'a = nat] by simp
  then have "unat (ucast (drop_bit 8 w) :: byte) = unat w div 256"
    by (simp add: unsigned_ucast_eq unsigned_drop_bit_eq drop_bit_eq_div take_bit_eq_mod unat_div less_mult_imp_div_less)
  moreover have "unat (ucast w :: byte) = unat w mod 256" by (simp add: unsigned_ucast_eq take_bit_eq_mod)
  ultimately show ?thesis by simp
qed

lemma be_sum_field: "be_sum (mem16 (hton16 w)) = unat w"
proof -
  have "mem16 (hton16 w) = [ucast (drop_bit 8 w), ucast w]" by (simp add: hton16_def mem16_rev) (simp add: mem16_def)
  then show ?thesis using unat_split_byte [of w] by simp
qed

lemma unat_not_low: "unat (t :: u32) < 65536 \<Longrightarrow> unat (ucast (NOT t) :: u16) = 65535 - unat t"
proof -
  assume t: "unat t < 65536"
  have "ucast (NOT t) = (NOT (ucast t) :: u16)" by (rule bit_word_eqI) (auto simp: bit_simps)
  moreover have "unat (NOT x) = 65535 - unat x" for x :: u16
  proof -
    have "NOT x = -1 - x" by (simp add: not_eq_complement)
    also have "unat \<dots> = unat (-1 :: u16) - unat x" by (rule unat_sub) (rule word_order.extremum)
    finally show ?thesis by (simp add: unsigned_minus_1_eq_mask mask_eq_exp_minus_1)
  qed
  moreover have "unat (ucast t :: u16) = unat t" using t by (simp add: unsigned_ucast_eq take_bit_nat_eq_self)
  ultimately show ?thesis by simp
qed

lemma ipv4_checksum_valid:
  assumes ck: "ip_checksum h = ipv4_checksum (h\<lparr>ip_checksum := hton16 0\<rparr>) []" and nz: "version4_ihl4 h \<noteq> 0"
  shows "fold16 (udp_checksum_summer 0 (ipv4_bytes h)) = 0xFFFF"
proof -
  let ?h0 = "h\<lparr>ip_checksum := hton16 0\<rparr>"
  let ?t = "udp_checksum_summer 0 (ipv4_bytes ?h0)"
  let ?f = "unat (fold16 ?t)"
  have s0: "unat ?t = be_sum (ipv4_bytes ?h0)"
    using be_sum_bound [of "ipv4_bytes ?h0"] by (subst summer_sum) simp_all
  have f: "?f < 65536" "?f mod 65535 = be_sum (ipv4_bytes ?h0) mod 65535" using fold16_spec [of ?t] s0 by simp_all
  have "ip_checksum h = hton16 (ucast (NOT (fold16 ?t)))" using ck by (simp add: ipv4_checksum_def)
  then have field: "be_sum (mem16 (ip_checksum h)) = 65535 - ?f" using be_sum_field unat_not_low [OF f(1)] by simp
  have sum: "be_sum (ipv4_bytes h) = be_sum (ipv4_bytes ?h0) + (65535 - ?f)"
    using field be_sum_field [of 0] by (simp add: ipv4_bytes_def be_sum_append)
  have pos: "0 < be_sum (ipv4_bytes h)" using nz by (simp add: ipv4_bytes_def unat_gt_0)
  let ?u = "udp_checksum_summer 0 (ipv4_bytes h)"
  have u: "unat ?u = be_sum (ipv4_bytes h)" using be_sum_bound [of "ipv4_bytes h"] by (subst summer_sum) simp_all
  have "be_sum (ipv4_bytes h) + ?f = be_sum (ipv4_bytes ?h0) + 65535" using sum f(1) by linarith
  then have "(be_sum (ipv4_bytes h) + ?f) mod 65535 = ?f mod 65535" using f(2) by simp
  then have "65535 dvd be_sum (ipv4_bytes h)" by (subst (asm) mod_eq_dvd_iff_nat) simp_all
  then have "65535 dvd unat (fold16 ?u)" using fold16_spec [of ?u] u by (simp add: dvd_eq_mod_eq_0)
  moreover have "unat (fold16 ?u) \<noteq> 0" using fold16_spec [of ?u] u pos by (simp add: unat_eq_0) (metis less_numeral_extra(3) unat_0)
  ultimately have "65535 \<le> unat (fold16 ?u)" by (intro dvd_imp_le) simp_all
  then have "unat (fold16 ?u) = unat (0xFFFF :: u32)" using fold16_spec [of ?u] by simp
  then show ?thesis by (rule word_unat_eq_iff [THEN iffD2])
qed

section \<open>Properties\<close>

lemma device_accepts_built:
  assumes "udpgw_client_handler_received opts mtu local remote data = Some pkt" "udpgw_remote_server_addr opts"
    "BAddr_wf local" "BAddr_wf remote" "int (length data) \<le> udp_mtu"
  shows "\<exists>is_dns. process_device_udp_packet opts udp_mtu pkt = Some (remote, local, is_dns, data)"
proof (cases local)
  case (BAddr_IPv4 lip lport)
  then obtain rip rport where r: "remote = BAddr_IPv4 rip rport" using assms(1) by (cases remote) auto
  from built_ipv4 [OF assms(1) [unfolded BAddr_IPv4 r]] obtain iph udph where
    b: "pkt = ipv4_bytes iph @ udp_bytes udph @ data" "version4_ihl4 iph = 0x45" "ip_protocol iph = 17"
    "total_length iph = hton16 (of_nat (20 + length (udp_bytes udph @ data)))" "ip_checksum iph = ipv4_checksum (iph\<lparr>ip_checksum := hton16 0\<rparr>) []"
    "source_address iph = rip" "destination_address iph = lip" "source_port udph = rport" "dest_port udph = lport"
    "udp_length udph = hton16 (of_nat (8 + length data))" "udp_checksum_field udph = udp_checksum (udph\<lparr>udp_checksum_field := 0\<rparr>) data rip lip"
    "length data \<le> UINT16_MAX - 28" .
  have ip: "ipv4_check pkt = Some (iph, udp_bytes udph @ data)"
    unfolding b(1) by (rule ipv4_check_built [OF b(2,4) _ b(5)]) (use b(12) in simp)
  have udp: "udp_check (udp_bytes udph @ data) = Some (udph, data)" by (rule udp_check_built [OF b(10)]) (use b(12) in simp)
  have "pkt ! 0 = 0x45" "pkt ! 9 = 17" "20 \<le> length pkt" "pkt \<noteq> []" unfolding b(1) built_first_bytes using b(2,3) by (simp_all add: ipv4_bytes_def)
  then show ?thesis
    using assms(2,5) ip udp b(6-11) r BAddr_IPv4
    by (simp add: process_device_udp_packet_def process_ipv4_def)
next
  case (BAddr_IPv6 lip lport)
  then obtain rip rport where r: "remote = BAddr_IPv6 rip rport" using assms(1) by (cases remote) auto
  have wf: "length lip = 16" "length rip = 16" using assms(3,4) BAddr_IPv6 r by simp_all
  from built_ipv6 [OF assms(1) [unfolded BAddr_IPv6 r] wf] obtain iph udph where
    b: "pkt = ipv6_bytes iph @ udp_bytes udph @ data" "version4_tc4 iph = 0x60" "next_header iph = 17" "ipv6_wf iph"
    "payload_length iph = hton16 (of_nat (length (udp_bytes udph @ data)))"
    "ip6_source_address iph = rip" "ip6_destination_address iph = lip" "source_port udph = rport" "dest_port udph = lport"
    "udp_length udph = hton16 (of_nat (8 + length data))" "udp_checksum_field udph = udp_ip6_checksum (udph\<lparr>udp_checksum_field := 0\<rparr>) data rip lip"
    "length data \<le> UINT16_MAX - 8" "netif_ip6addr opts" .
  have ip: "ipv6_check pkt = Some (iph, udp_bytes udph @ data)"
    unfolding b(1) by (rule ipv6_check_built [OF b(2,5) _ b(4)]) (use b(12) in simp)
  have udp: "udp_check (udp_bytes udph @ data) = Some (udph, data)" by (rule udp_check_built [OF b(10,12)])
  have "pkt ! 0 = 0x60" "pkt ! 6 = 17" "40 \<le> length pkt" "pkt \<noteq> []" unfolding b(1) built_first_bytes using b(2,3,4) by (simp_all add: ipv6_bytes_def ipv6_wf_def)
  then show ?thesis
    using assms(2,5) ip udp b(6-13) r BAddr_IPv6
    by (intro exI [of _ False]) (simp add: process_device_udp_packet_def process_ipv6_def)
qed (use assms(1) in simp)

text \<open>
  A packet built for the device is accepted when it is read from a device: whatever packet
  \<open>udpgw_client_handler_received\<close> sends for a datagram, \<open>process_device_udp_packet\<close> accepts it, headers,
  lengths and both checksums, and recovers both addresses and the data. (The sender of
  the packet is the remote end, so the addresses come back exchanged.)
\<close>

theorem udp_device_roundtrip:
  assumes "udpgw_client_handler_received opts mtu local remote data = Some pkt" "udpgw_remote_server_addr opts"
    "BAddr_wf local" "BAddr_wf remote" "int (length data) \<le> udp_mtu"
  shows "\<exists>is_dns. process_device_udp_packet opts udp_mtu pkt = Some (remote, local, is_dns, data)"
  by (rule device_accepts_built [OF assms])

definition demo_opts :: tun_options where
  "demo_opts = \<lparr>udpgw_remote_server_addr = True, dnsgw = True, netif_ip6addr = True\<rparr>"

theorem udp_device_roundtrip_witness:
  "\<exists>pkt is_dns. udpgw_client_handler_received demo_opts 1500 (BAddr_IPv4 1 2) (BAddr_IPv4 3 4) [1, 2, 3] = Some pkt \<and>
     process_device_udp_packet demo_opts 1000 pkt = Some (BAddr_IPv4 3 4, BAddr_IPv4 1 2, is_dns, [1, 2, 3])"
proof -
  obtain pkt where pkt: "udpgw_client_handler_received demo_opts 1500 (BAddr_IPv4 1 2) (BAddr_IPv4 3 4) [1, 2, 3] = Some pkt"
    by (simp add: Let_def)
  have "udpgw_remote_server_addr demo_opts" by (simp add: demo_opts_def)
  from udp_device_roundtrip [OF pkt this, of 1000] pkt show ?thesis by simp
qed

text \<open>
  Every IPv4 packet built for the device carries a valid header checksum: the ones'
  complement sum of its twenty header bytes is all ones, which is the test a receiver makes; and
  the packet fits the MTU of the device, the size of the buffer it is built in.
\<close>

theorem udp_device_packet_valid:
  assumes "udpgw_client_handler_received opts mtu (BAddr_IPv4 lip lport) (BAddr_IPv4 rip rport) data = Some pkt"
  shows "fold16 (udp_checksum_summer 0 (take 20 pkt)) = 0xFFFF \<and> int (length pkt) \<le> mtu \<and> length pkt \<le> UINT16_MAX"
proof -
  from built_ipv4 [OF assms] obtain iph udph where b: "pkt = ipv4_bytes iph @ udp_bytes udph @ data" "version4_ihl4 iph = 0x45"
    "ip_checksum iph = ipv4_checksum (iph\<lparr>ip_checksum := hton16 0\<rparr>) []" "length data \<le> UINT16_MAX - 28" "int (length data) \<le> mtu - 28" .
  have "fold16 (udp_checksum_summer 0 (ipv4_bytes iph)) = 0xFFFF" by (rule ipv4_checksum_valid [OF b(3)]) (simp add: b(2))
  then show ?thesis using b(4,5) by (simp add: b(1))
qed

theorem udp_device_packet_valid_witness:
  "\<exists>pkt. udpgw_client_handler_received demo_opts 1500 (BAddr_IPv4 1 2) (BAddr_IPv4 3 4) [1, 2, 3] = Some pkt \<and>
     fold16 (udp_checksum_summer 0 (take 20 pkt)) = 0xFFFF"
proof -
  obtain pkt where pkt: "udpgw_client_handler_received demo_opts 1500 (BAddr_IPv4 1 2) (BAddr_IPv4 3 4) [1, 2, 3] = Some pkt"
    by (simp add: Let_def)
  with udp_device_packet_valid [OF pkt] show ?thesis by blast
qed

lemma ipv4_check_sound:
  assumes "ipv4_check data = Some (h, payload)"
  shows "\<exists>off. 20 \<le> off \<and> off + length payload \<le> length data \<and> payload = window off (length payload) data"
proof -
  let ?h = "ipv4_of_bytes (take 20 data)"
  let ?hl = "unat (version4_ihl4 ?h AND 0x0F) * 4" and ?len = "unat (ntoh16 (total_length ?h))"
  have "20 \<le> ?hl" "?hl \<le> ?len" "?len \<le> length data" "payload = window ?hl (?len - ?hl) data"
    using assms by (auto simp: ipv4_check_def Let_def split: if_splits)
  then show ?thesis by (intro exI [of _ ?hl]) simp
qed

lemma ipv6_check_sound:
  assumes "ipv6_check data = Some (h, payload)"
  shows "40 + length payload \<le> length data \<and> payload = window 40 (length payload) data \<and> length (ip6_source_address h) = 16 \<and>
    length (ip6_destination_address h) = 16"
  using assms by (auto simp: ipv6_check_def ipv6_of_bytes_def Let_def split: if_splits)

lemma udp_check_sound:
  assumes "udp_check data = Some (h, payload)"
  shows "8 + length payload \<le> length data \<and> payload = window 8 (length payload) data"
  using assms by (auto simp: udp_check_def Let_def split: if_splits)

lemma accepted_datagram:
  assumes "process_device_udp_packet opts udp_mtu data = Some (local, remote, is_dns, payload)"
  shows "(\<exists>off. 28 \<le> off \<and> off + length payload \<le> length data \<and> payload = window off (length payload) data) \<and>
    int (length payload) \<le> udp_mtu \<and> BAddr_wf local \<and> BAddr_wf remote \<and> BAddr_type local = BAddr_type remote \<and>
    BAddr_type local \<in> {1, 2} \<and> (BAddr_type local = 2 \<longrightarrow> netif_ip6addr opts)"
proof -
  have mtu: "int (length payload) \<le> udp_mtu"
    and p: "process_ipv4 opts data = Some (local, remote, is_dns, payload) \<or> process_ipv6 opts data = Some (local, remote, is_dns, payload)"
    using assms by (auto simp: process_device_udp_packet_def Let_def split: if_splits option.splits)
  from p show ?thesis
  proof
    assume "process_ipv4 opts data = Some (local, remote, is_dns, payload)"
    then obtain iph d1 udph where h: "ipv4_check data = Some (iph, d1)" "udp_check d1 = Some (udph, payload)"
      and a: "local = BAddr_IPv4 (source_address iph) (source_port udph)" "remote = BAddr_IPv4 (destination_address iph) (dest_port udph)"
      by (auto simp: process_ipv4_def split: if_splits option.splits)
    obtain off where o: "20 \<le> off" "off + length d1 \<le> length data" "d1 = window off (length d1) data"
      using ipv4_check_sound [OF h(1)] by blast
    have u: "8 + length payload \<le> length d1" "payload = window 8 (length payload) d1" using udp_check_sound [OF h(2)] by auto
    have "payload = window (off + 8) (length payload) data" using u o window_window [of 8 "length payload" "length d1" off data] by simp
    then show ?thesis using mtu a o u by (intro conjI exI [of _ "off + 8"]) simp_all
  next
    assume "process_ipv6 opts data = Some (local, remote, is_dns, payload)"
    then obtain iph d1 udph where h: "ipv6_check data = Some (iph, d1)" "udp_check d1 = Some (udph, payload)" "netif_ip6addr opts"
      and a: "local = BAddr_IPv6 (ip6_source_address iph) (source_port udph)" "remote = BAddr_IPv6 (ip6_destination_address iph) (dest_port udph)"
      by (auto simp: process_ipv6_def split: if_splits option.splits)
    have o: "40 + length d1 \<le> length data" "d1 = window 40 (length d1) data"
      and w: "length (ip6_source_address iph) = 16" "length (ip6_destination_address iph) = 16"
      using ipv6_check_sound [OF h(1)] by auto
    have u: "8 + length payload \<le> length d1" "payload = window 8 (length payload) d1" using udp_check_sound [OF h(2)] by auto
    have "payload = window (40 + 8) (length payload) data" using u o window_window [of 8 "length payload" "length d1" 40 data] by simp
    then show ?thesis using mtu a o u w h(3) by (intro conjI exI [of _ "40 + 8"]) simp_all
  qed
qed

text \<open>
  Whatever bytes the device delivers, only a well-formed datagram is handed to the relay:
  its data lies within the packet that was read, behind an IP and a UDP header, is no longer
  than the UDP MTU, and the two addresses are of the same family and well formed.
\<close>

theorem process_device_udp_sound:
  assumes "process_device_udp_packet opts udp_mtu data = Some (local, remote, is_dns, payload)"
  shows "(\<exists>off. 28 \<le> off \<and> off + length payload \<le> length data \<and> payload = window off (length payload) data) \<and>
    int (length payload) \<le> udp_mtu \<and> BAddr_wf local \<and> BAddr_wf remote \<and> BAddr_type local = BAddr_type remote \<and>
    BAddr_type local \<in> {1, 2} \<and> (BAddr_type local = 2 \<longrightarrow> netif_ip6addr opts)"
  by (rule accepted_datagram [OF assms])

theorem process_device_udp_sound_witness:
  "\<exists>data is_dns. process_device_udp_packet demo_opts 1000 data = Some (BAddr_IPv4 3 4, BAddr_IPv4 1 2, is_dns, [1, 2, 3]) \<and>
     (\<exists>off. 28 \<le> off \<and> off + 3 \<le> length data \<and> [1, 2, 3] = window off 3 data)"
proof -
  obtain pkt where pkt: "udpgw_client_handler_received demo_opts 1500 (BAddr_IPv4 1 2) (BAddr_IPv4 3 4) [1, 2, 3] = Some pkt"
    by (simp add: Let_def)
  from built_ipv4 [OF pkt] obtain iph udph where b: "pkt = ipv4_bytes iph @ udp_bytes udph @ [1, 2, 3]" "version4_ihl4 iph = 0x45" "ip_protocol iph = 17"
    "total_length iph = hton16 (of_nat (20 + length (udp_bytes udph @ [1, 2, 3])))" "ip_checksum iph = ipv4_checksum (iph\<lparr>ip_checksum := hton16 0\<rparr>) []"
    "source_address iph = 3" "destination_address iph = 1" "source_port udph = 4" "dest_port udph = 2"
    "udp_length udph = hton16 (of_nat (8 + length [1, 2, 3 :: byte]))" "udp_checksum_field udph = udp_checksum (udph\<lparr>udp_checksum_field := 0\<rparr>) [1, 2, 3] 3 1" .
  have "ipv4_check pkt = Some (iph, udp_bytes udph @ [1, 2, 3])" unfolding b(1) by (rule ipv4_check_built [OF b(2,4) _ b(5)]) simp
  moreover have "udp_check (udp_bytes udph @ [1, 2, 3]) = Some (udph, [1, 2, 3])" by (rule udp_check_built [OF b(10)]) simp
  moreover have "pkt ! 0 = 0x45" "pkt ! 9 = 17" "20 \<le> length pkt" "pkt \<noteq> []" unfolding b(1) built_first_bytes using b(2,3) by (simp_all add: ipv4_bytes_def)
  ultimately obtain d where "process_device_udp_packet demo_opts 1000 pkt = Some (BAddr_IPv4 3 4, BAddr_IPv4 1 2, d, [1, 2, 3])"
    using b by (simp add: process_device_udp_packet_def process_ipv4_def demo_opts_def)
  moreover from process_device_udp_sound [OF this] obtain off where "28 \<le> off" "off + length [1, 2, 3 :: byte] \<le> length pkt"
    "[1, 2, 3] = window off (length [1, 2, 3 :: byte]) pkt" by blast
  moreover have "length [1, 2, 3 :: byte] = 3" by simp
  ultimately show ?thesis by metis
qed

text \<open>
  The substitution of the checksum zero never happens: the sum is complemented at 32 bits, so
  the test against zero before truncation is false for every packet, and a datagram whose
  16-bit checksum comes out as zero is sent with the checksum zero, which means ``no checksum''
  in UDP. An example is the datagram with all header fields zero and the data \<open>FF E4\<close> between the
  zero addresses.
\<close>

theorem udp_checksum_zero_sent:
  "(\<forall>t. NOT (fold16 t) \<noteq> 0) \<and>
   udp_checksum \<lparr>source_port = 0, dest_port = 0, udp_length = 0, udp_checksum_field = 0\<rparr> [0xFF, 0xE4] 0 0 = 0"
proof
  have "NOT (fold16 t) \<noteq> 0" for t
  proof
    assume "NOT (fold16 t) = 0"
    then have "fold16 t = -1" by (metis bit.compl_zero bit.double_compl)
    then have "unat (fold16 t) = 4294967295" by (simp add: unsigned_minus_1_eq_mask mask_eq_exp_minus_1)
    then show False using fold16_spec [of t] by simp
  qed
  then show "\<forall>t. NOT (fold16 t) \<noteq> 0" by blast
  have f: "fold16 0xFFFF = 0xFFFF" by (subst fold16.simps) simp
  show "udp_checksum \<lparr>source_port = 0, dest_port = 0, udp_length = 0, udp_checksum_field = 0\<rparr> [0xFF, 0xE4] 0 0 = 0"
    by (simp add: udp_checksum_def udp_payload_sum_def udp_bytes_def mem16_def mem32_def badvpn_read_be16_def hton16_def
        badvpn_reverse16_def of_mem16_def f Let_def)
qed

end
