(* ===== verification/SocksUdpGw.thy ===== *)
theory SocksUdpGw
  imports ConnTable SocksClient UdpGw
begin

text \<open>
  The SOCKS UDP relay client of \<open>tun2socks/SocksUdpGwClient.c\<close> as the Android build compiles it: one
  datagram socket per local address, in a bounded table with least-recently-used replacement.
  DNS queries go to the DNS gateway as they are, everything else to the SOCKS server behind a
  SOCKS UDP header. What the socket and the buffers answer is the record \<open>su_env\<close>; the address
  a socket sends to is kept with the connection, where \<open>BDatagram_SetSendAddrs\<close> puts it.
\<close>

section \<open>State\<close>

record SocksUdpGwClient_connection =
  suc_local_addr :: BAddr
  suc_remote_addr :: BAddr
  suc_first_data :: bytes
  suc_is_dns :: bool
  suc_send_addr :: BAddr

record SocksUdpGwClient =
  su_udp_mtu :: int
  su_socks_server_addr :: BAddr
  su_dnsgw :: BAddr
  su_udpgw_mtu :: int
  su_num_connections :: int
  su_max_connections :: int
  su_heap :: "ptr \<rightharpoonup> SocksUdpGwClient_connection"
  su_tree :: "BAddr \<rightharpoonup> ptr"
  su_list :: "ptr list"

datatype SocksUdpGwClient_call =
    SU_handler_received BAddr BAddr bytes
  | SU_recv_Done ptr
  | SU_EndPacket ptr bytes
  | SU_job_Set ptr | SU_job_Free ptr
  | SU_dgram_Init ptr | SU_dgram_Free ptr
  | SU_SetSendAddrs ptr BAddr
  | SU_SendAsync_Init ptr int | SU_SendAsync_Free ptr
  | SU_RecvAsync_Init ptr int | SU_RecvAsync_Free ptr
  | SU_writer_Init ptr int | SU_writer_Free ptr
  | SU_buffer_Init ptr int | SU_buffer_Free ptr
  | SU_recv_if_Init ptr int | SU_recv_if_Free ptr
  | SU_recv_buffer_Init ptr | SU_recv_buffer_Free ptr

type_synonym su_result = "SocksUdpGwClient \<times> SocksUdpGwClient_call list"

record su_env =
  su_malloc :: "ptr option"
  su_dgram_ok :: bool
  su_reuse_ok :: bool
  su_buffer_ok :: bool
  su_recv_buffer_ok :: bool
  su_room :: bool

section \<open>Operations\<close>

definition SU_dgram_handler :: "SocksUdpGwClient \<Rightarrow> ptr \<Rightarrow> su_result" where
  "SU_dgram_handler su p = (su, [])"

definition SU_parse_header :: "bytes \<Rightarrow> (BAddr \<times> bytes) option" where
  "SU_parse_header data0 =
     (if length data0 < 4 then None
      else let frag = data0 ! 2; atyp = data0 ! 3; data = drop 4 data0
      in if frag \<noteq> 0 then None
         else if atyp = SOCKS_ATYP_IPV6
         then if length data < 18 then None
              else Some (BAddr_IPv6 (take 16 data) (of_mem16 (window 16 2 data)), drop 18 data)
         else if length data < 6 then None
              else Some (BAddr_IPv4 (of_mem32 (take 4 data)) (of_mem16 (window 4 2 data)), drop 6 data))"

definition SU_deliver :: "SocksUdpGwClient \<Rightarrow> ptr \<Rightarrow> bytes \<Rightarrow> su_result" where
  "SU_deliver su p data =
     (if int (length data) > su_udp_mtu su then (su, [SU_recv_Done p])
      else (su, [SU_recv_Done p, SU_handler_received (suc_local_addr (the (su_heap su p))) (suc_remote_addr (the (su_heap su p))) data]))"

definition SU_dgram_handler_received :: "SocksUdpGwClient \<Rightarrow> ptr \<Rightarrow> bytes \<Rightarrow> su_result" where
  "SU_dgram_handler_received su p data =
     (let con = the (su_heap su p)
      in if suc_is_dns con then SU_deliver su p data
         else case SU_parse_header data of
           None \<Rightarrow> (su, [SU_recv_Done p])
         | Some (remote, rest) \<Rightarrow>
             SU_deliver (su\<lparr>su_heap := (su_heap su)(p \<mapsto> con\<lparr>suc_remote_addr := remote\<rparr>)\<rparr>) p rest)"

definition SU_conaddr_comparator :: "BAddr \<times> BAddr \<Rightarrow> BAddr \<times> BAddr \<Rightarrow> int" where
  "SU_conaddr_comparator v1 v2 = BAddr_CompareOrder (fst v1) (fst v2)"

text \<open>
  The condition of the code that is to reject a connection of the other kind starts with
  \<open>!con\<close>, which is false here, so a connection that was found is always returned.
\<close>

definition SU_find_connection :: "SocksUdpGwClient \<Rightarrow> BAddr \<Rightarrow> bool \<Rightarrow> ptr option" where
  "SU_find_connection su local is_dns =
     (case su_tree su local of
        None \<Rightarrow> None
      | Some node \<Rightarrow> (let con = Some node
                      in if con = None \<and> suc_is_dns (the (su_heap su (the con))) \<noteq> is_dns then None else con))"

definition SU_connection_free :: "SocksUdpGwClient \<Rightarrow> ptr \<Rightarrow> su_result" where
  "SU_connection_free su p =
     (su\<lparr>su_num_connections := su_num_connections su - 1, su_list := remove1 p (su_list su),
         su_tree := tree_drop p (su_tree su), su_heap := (su_heap su)(p := None)\<rparr>,
      [SU_recv_buffer_Free p, SU_recv_if_Free p, SU_buffer_Free p, SU_writer_Free p,
       SU_RecvAsync_Free p, SU_SendAsync_Free p, SU_dgram_Free p])"

definition SU_remove_lru_connection :: "SocksUdpGwClient \<Rightarrow> su_result" where
  "SU_remove_lru_connection su = SU_connection_free su (hd (su_list su))"

definition SU_reset_connection :: "SocksUdpGwClient \<Rightarrow> ptr \<Rightarrow> BAddr \<Rightarrow> BAddr \<Rightarrow> bool \<Rightarrow> SocksUdpGwClient" where
  "SU_reset_connection su p local remote is_dns =
     su\<lparr>su_heap := (su_heap su)(p \<mapsto> (the (su_heap su p))\<lparr>suc_local_addr := local, suc_remote_addr := remote, suc_is_dns := is_dns\<rparr>)\<rparr>"

definition SU_packet :: "SocksUdpGwClient_connection \<Rightarrow> bytes \<Rightarrow> bytes" where
  "SU_packet con data =
     (if suc_is_dns con then data
      else mem16 0 @ [0, if BAddr_type (suc_remote_addr con) = 1 then SOCKS_ATYP_IPV4 else SOCKS_ATYP_IPV6] @
           udpgw_addr (suc_remote_addr con) @ data)"

text \<open>The result 1 (\<open>True\<close>) means that the buffer is full and the packet dropped.\<close>

definition SU_connection_send :: "su_env \<Rightarrow> SocksUdpGwClient \<Rightarrow> ptr \<Rightarrow> bytes \<Rightarrow> bool \<times> SocksUdpGwClient_call list" where
  "SU_connection_send env su p data =
     (if \<not> su_room env then (True, []) else (False, [SU_EndPacket p (SU_packet (the (su_heap su p)) data)]))"

definition SU_connection_first_job_handler :: "su_env \<Rightarrow> SocksUdpGwClient \<Rightarrow> ptr \<Rightarrow> su_result" where
  "SU_connection_first_job_handler env su p = (su, snd (SU_connection_send env su p (suc_first_data (the (su_heap su p)))))"

definition SU_connection_init :: "su_env \<Rightarrow> SocksUdpGwClient \<Rightarrow> BAddr \<Rightarrow> BAddr \<Rightarrow> bytes \<Rightarrow> bool \<Rightarrow> su_result" where
  "SU_connection_init env su local remote data is_dns =
     (case su_malloc env of
        None \<Rightarrow> (su, [])
      | Some p \<Rightarrow>
          (let send_addr = (if is_dns then su_dnsgw su else su_socks_server_addr su);
               mtu = su_udp_mtu su;
               c1 = [SU_job_Set p];
               c2 = c1 @ [SU_dgram_Init p];
               c3 = c2 @ [SU_SetSendAddrs p send_addr, SU_SendAsync_Init p mtu, SU_RecvAsync_Init p mtu, SU_writer_Init p mtu];
               c4 = c3 @ [SU_buffer_Init p 64, SU_recv_if_Init p mtu];
               fail0 = [SU_job_Free p];
               fail1 = SU_dgram_Free p # fail0;
               fail2 = [SU_writer_Free p, SU_RecvAsync_Free p, SU_SendAsync_Free p] @ fail1;
               fail3 = [SU_recv_if_Free p, SU_buffer_Free p] @ fail2
           in if \<not> su_dgram_ok env then (su, c1 @ fail0)
              else if \<not> su_reuse_ok env then (su, c2 @ fail1)
              else if \<not> su_buffer_ok env then (su, c3 @ fail2)
              else if \<not> su_recv_buffer_ok env then (su, c4 @ fail3)
              else (su\<lparr>su_heap := (su_heap su)(p \<mapsto> \<lparr>suc_local_addr = local, suc_remote_addr = remote, suc_first_data = data,
                         suc_is_dns = is_dns, suc_send_addr = send_addr\<rparr>),
                       su_tree := tree_put local p (su_tree su), su_list := su_list su @ [p],
                       su_num_connections := su_num_connections su + 1\<rparr>,
                    c4 @ [SU_recv_buffer_Init p])))"

text \<open>\<open>num_connections\<close> is not assigned: it keeps the value the object has.\<close>

definition SocksUdpGwClient_Init :: "int \<Rightarrow> int \<Rightarrow> int \<Rightarrow> BAddr \<Rightarrow> BAddr \<Rightarrow> SocksUdpGwClient" where
  "SocksUdpGwClient_Init old_num udp_mtu max_connections socks_server_addr dnsgw_addr =
     \<lparr>su_udp_mtu = udp_mtu, su_socks_server_addr = socks_server_addr, su_dnsgw = dnsgw_addr,
      su_udpgw_mtu = udpgw_compute_mtu udp_mtu, su_num_connections = old_num,
      su_max_connections = (if max_connections > int UINT16_MAX + 1 then int UINT16_MAX + 1 else max_connections),
      su_heap = Map.empty, su_tree = Map.empty, su_list = []\<rparr>"

function SocksUdpGwClient_Free :: "SocksUdpGwClient \<Rightarrow> su_result" where
  "SocksUdpGwClient_Free su =
     (case su_list su of
        [] \<Rightarrow> (su, [])
      | p # _ \<Rightarrow> (let (su1, calls1) = SU_connection_free su p; (su2, calls2) = SocksUdpGwClient_Free su1
                  in (su2, calls1 @ calls2)))"
  by auto
termination
  by (relation "measure (\<lambda>su. length (su_list su))") (auto simp: SU_connection_free_def)

definition SocksUdpGwClient_SubmitPacket :: "su_env \<Rightarrow> SocksUdpGwClient \<Rightarrow> BAddr \<Rightarrow> BAddr \<Rightarrow> bool \<Rightarrow> bytes \<Rightarrow> su_result" where
  "SocksUdpGwClient_SubmitPacket env su local remote is_dns data =
     (let con = SU_find_connection su local is_dns;
          (su1, calls1) = (if con = None \<and> su_num_connections su = su_max_connections su then SU_remove_lru_connection su else (su, []))
      in case con of
           None \<Rightarrow> (let (su2, calls2) = SU_connection_init env su1 local remote data is_dns in (su2, calls1 @ calls2))
         | Some p \<Rightarrow>
             (let su2 = SU_reset_connection su1 p local remote is_dns;
                  (res, calls2) = SU_connection_send env su2 p data
              in if res then (su2, calls1 @ calls2)
                 else (su2\<lparr>su_list := remove1 p (su_list su2) @ [p]\<rparr>, calls1 @ calls2)))"

section \<open>The table\<close>

definition su_inv :: "SocksUdpGwClient \<Rightarrow> bool" where
  "su_inv su \<longleftrightarrow>
     table_ok suc_local_addr (su_heap su) (su_tree su) (su_list su) \<and>
     su_num_connections su = int (length (su_list su)) \<and> su_num_connections su \<le> su_max_connections su \<and> 0 < su_max_connections su \<and>
     (\<forall>p c. su_heap su p = Some c \<longrightarrow> suc_send_addr c \<in> {su_dnsgw su, su_socks_server_addr su})"

lemma su_inv_Init: "0 < n \<Longrightarrow> su_inv (SocksUdpGwClient_Init 0 m n a d)"
  by (simp add: su_inv_def SocksUdpGwClient_Init_def table_empty)

lemma su_inv_free:
  assumes "su_inv su" "p \<in> set (su_list su)"
  shows "su_inv (fst (SU_connection_free su p))" "su_num_connections (fst (SU_connection_free su p)) = su_num_connections su - 1"
  using assms table_remove [of suc_local_addr "su_heap su" "su_tree su" "su_list su" p] length_remove1_int [OF assms(2)]
  by (simp_all add: su_inv_def SU_connection_free_def)

lemma su_inv_init:
  assumes inv: "su_inv su" and fresh: "su_tree su local = None" "\<And>p. su_malloc env = Some p \<Longrightarrow> su_heap su p = None"
    and room: "su_num_connections su < su_max_connections su"
  shows "su_inv (fst (SU_connection_init env su local remote data is_dns))"
proof (cases "su_malloc env")
  case None
  then show ?thesis using inv by (simp add: SU_connection_init_def)
next
  case (Some p)
  let ?c = "\<lparr>suc_local_addr = local, suc_remote_addr = remote, suc_first_data = data, suc_is_dns = is_dns,
    suc_send_addr = (if is_dns then su_dnsgw su else su_socks_server_addr su)\<rparr>"
  have "table_ok suc_local_addr ((su_heap su)(p \<mapsto> ?c)) ((su_tree su)(local \<mapsto> p)) (su_list su @ [p])"
    using table_add [of suc_local_addr "su_heap su" "su_tree su" "su_list su" p ?c] inv fresh Some by (simp add: su_inv_def)
  then show ?thesis
    using inv room fresh(1) Some by (simp add: SU_connection_init_def su_inv_def tree_put_new Let_def)
qed

definition su_fresh :: "su_env \<Rightarrow> SocksUdpGwClient \<Rightarrow> bool" where
  "su_fresh env su \<longleftrightarrow> (\<forall>p. su_malloc env = Some p \<longrightarrow> su_heap su p = None)"

lemma find_connection: "SU_find_connection su local is_dns = su_tree su local"
  by (simp add: SU_find_connection_def split: option.split)

lemma Submit_found:
  assumes "su_tree su local = Some p"
  shows "SocksUdpGwClient_SubmitPacket env su local remote is_dns data =
    (let su2 = SU_reset_connection su p local remote is_dns
     in if \<not> su_room env then (su2, [])
        else (su2\<lparr>su_list := remove1 p (su_list su2) @ [p]\<rparr>, [SU_EndPacket p (SU_packet (the (su_heap su2 p)) data)]))"
  using assms by (simp add: SocksUdpGwClient_SubmitPacket_def find_connection SU_connection_send_def Let_def)

lemma Submit_created:
  assumes "su_tree su local = None"
  shows "SocksUdpGwClient_SubmitPacket env su local remote is_dns data =
    (let (su1, calls1) = (if su_num_connections su = su_max_connections su then SU_remove_lru_connection su else (su, []));
         (su2, calls2) = SU_connection_init env su1 local remote data is_dns
     in (su2, calls1 @ calls2))"
  using assms by (simp add: SocksUdpGwClient_SubmitPacket_def find_connection split_beta Let_def)

lemma reset_inv:
  assumes inv: "su_inv su" and p: "su_tree su local = Some p"
  shows "su_inv (SU_reset_connection su p local remote is_dns)" "p \<in> dom (su_heap (SU_reset_connection su p local remote is_dns))"
proof -
  have ok: "table_ok suc_local_addr (su_heap su) (su_tree su) (su_list su)" using inv by (simp add: su_inv_def)
  obtain c where c: "su_heap su p = Some c" "suc_local_addr c = local" using table_lookup [OF ok] p by blast
  show "su_inv (SU_reset_connection su p local remote is_dns)"
    using inv c table_update [OF ok c(1), of "c\<lparr>suc_local_addr := local, suc_remote_addr := remote, suc_is_dns := is_dns\<rparr>"]
    by (simp add: su_inv_def SU_reset_connection_def)
  show "p \<in> dom (su_heap (SU_reset_connection su p local remote is_dns))" by (simp add: SU_reset_connection_def)
qed

lemma su_inv_touch: "\<lbrakk>su_inv su; p \<in> dom (su_heap su)\<rbrakk> \<Longrightarrow> su_inv (su\<lparr>su_list := remove1 p (su_list su) @ [p]\<rparr>)"
proof -
  assume inv: "su_inv su" and p: "p \<in> dom (su_heap su)"
  have ok: "table_ok suc_local_addr (su_heap su) (su_tree su) (su_list su)" using inv by (simp add: su_inv_def)
  have "p \<in> set (su_list su)" using table_list [OF ok] p by simp
  then show ?thesis using inv table_touch [OF ok p] length_remove1_int [of p "su_list su"] by (simp add: su_inv_def)
qed

lemma lru_inv:
  assumes inv: "su_inv su" and full: "su_num_connections su = su_max_connections su"
  shows "su_inv (fst (SU_remove_lru_connection su))" "su_num_connections (fst (SU_remove_lru_connection su)) < su_max_connections su"
    "su_list su \<noteq> []"
proof -
  show ne: "su_list su \<noteq> []" using inv full by (auto simp: su_inv_def)
  then have "hd (su_list su) \<in> set (su_list su)" by simp
  then show "su_inv (fst (SU_remove_lru_connection su))" "su_num_connections (fst (SU_remove_lru_connection su)) < su_max_connections su"
    using su_inv_free [OF inv] full by (simp_all add: SU_remove_lru_connection_def)
qed

lemma lru_fields:
  "su_max_connections (fst (SU_remove_lru_connection su)) = su_max_connections su"
  "su_heap (fst (SU_remove_lru_connection su)) = (su_heap su)(hd (su_list su) := None)"
  "su_list (fst (SU_remove_lru_connection su)) = remove1 (hd (su_list su)) (su_list su)"
  "su_tree su k = None \<Longrightarrow> su_tree (fst (SU_remove_lru_connection su)) k = None"
  by (simp_all add: SU_remove_lru_connection_def SU_connection_free_def tree_drop_def)

lemma su_Submit_inv:
  assumes inv: "su_inv su" and fresh: "su_fresh env su"
  shows "su_inv (fst (SocksUdpGwClient_SubmitPacket env su local remote is_dns data))"
proof (cases "su_tree su local")
  case (Some p)
  show ?thesis
    unfolding Submit_found [OF Some] using reset_inv [OF inv Some] su_inv_touch by (simp add: Let_def)
next
  case None
  show ?thesis
  proof (cases "su_num_connections su = su_max_connections su")
    case True
    let ?su = "fst (SU_remove_lru_connection su)"
    have "su_inv (fst (SU_connection_init env ?su local remote data is_dns))"
      by (rule su_inv_init [OF lru_inv(1) [OF inv True] lru_fields(4) [OF None]])
        (use lru_inv [OF inv True] fresh in \<open>auto simp: lru_fields su_fresh_def\<close>)
    then show ?thesis unfolding Submit_created [OF None] using True by (simp add: split_beta Let_def)
  next
    case False
    then have "su_num_connections su < su_max_connections su" using inv by (simp add: su_inv_def)
    then have "su_inv (fst (SU_connection_init env su local remote data is_dns))"
      using su_inv_init [OF inv None] fresh by (simp add: su_fresh_def)
    then show ?thesis unfolding Submit_created [OF None] using False by (simp add: split_beta Let_def)
  qed
qed

lemma deliver_inv: "fst (SU_deliver su p data) = su"
  by (simp add: SU_deliver_def)

lemma su_recv_inv:
  assumes inv: "su_inv su" and p: "su_heap su p = Some c"
  shows "su_inv (fst (SU_dgram_handler_received su p data))"
proof -
  have ok: "table_ok suc_local_addr (su_heap su) (su_tree su) (su_list su)" using inv by (simp add: su_inv_def)
  have "su_inv (su\<lparr>su_heap := (su_heap su)(p \<mapsto> c\<lparr>suc_remote_addr := remote\<rparr>)\<rparr>)" for remote
    using inv p table_update [OF ok p, of "c\<lparr>suc_remote_addr := remote\<rparr>"] by (simp add: su_inv_def)
  then show ?thesis using inv p
    by (auto simp: SU_dgram_handler_received_def deliver_inv Let_def split: option.split prod.split)
qed

inductive su_step :: "SocksUdpGwClient \<Rightarrow> SocksUdpGwClient_call list \<Rightarrow> SocksUdpGwClient \<Rightarrow> bool" where
  su_submit: "\<lbrakk>su_fresh env su; BAddr_wf remote; remote \<noteq> BAddr_None; int (length data) \<le> su_udp_mtu su;
    SocksUdpGwClient_SubmitPacket env su local remote is_dns data = (su', calls)\<rbrakk> \<Longrightarrow> su_step su calls su'"
| su_first_job: "\<lbrakk>su_heap su p = Some c; SU_connection_first_job_handler env su p = (su', calls)\<rbrakk> \<Longrightarrow> su_step su calls su'"
| su_recv: "\<lbrakk>su_heap su p = Some c; SU_dgram_handler_received su p data = (su', calls)\<rbrakk> \<Longrightarrow> su_step su calls su'"
| su_error: "SU_dgram_handler su p = (su', calls) \<Longrightarrow> su_step su calls su'"

inductive su_reach :: "SocksUdpGwClient \<Rightarrow> bool" where
  su_init: "0 < max_connections \<Longrightarrow> su_reach (SocksUdpGwClient_Init 0 udp_mtu max_connections socks_server_addr dnsgw_addr)"
| su_more: "\<lbrakk>su_reach su; su_step su calls su'\<rbrakk> \<Longrightarrow> su_reach su'"

lemma su_step_inv: "\<lbrakk>su_step su calls su'; su_inv su\<rbrakk> \<Longrightarrow> su_inv su'"
proof (induction rule: su_step.induct)
  case (su_submit env su remote data local is_dns su' calls)
  then show ?case using su_Submit_inv [of su env local remote is_dns data] by simp
next
  case (su_recv su p c data su' calls)
  then show ?case using su_recv_inv [of su p c data] by simp
qed (simp_all add: SU_connection_first_job_handler_def SU_dgram_handler_def)

lemma su_reach_inv: "su_reach su \<Longrightarrow> su_inv su"
  by (induction rule: su_reach.induct) (auto intro: su_inv_Init su_step_inv)

section \<open>Sessions and packets\<close>

text \<open>The local addresses with a socket, least recently used first.\<close>

definition su_sessions :: "SocksUdpGwClient \<Rightarrow> BAddr list" where
  "su_sessions su = map (\<lambda>p. suc_local_addr (the (su_heap su p))) (su_list su)"

lemma su_sessions_inj:
  assumes "su_inv su"
  shows "inj_on (\<lambda>p. suc_local_addr (the (su_heap su p))) (set (su_list su))"
proof -
  have ok: "table_ok suc_local_addr (su_heap su) (su_tree su) (su_list su)" using assms by (simp add: su_inv_def)
  show ?thesis by (rule inj_onI) (use table_unique [OF ok] table_list [OF ok] in force)
qed

lemma su_sessions_found:
  assumes "su_inv su"
  shows "k \<in> set (su_sessions su) \<longleftrightarrow> su_tree su k \<noteq> None"
proof -
  have ok: "table_ok suc_local_addr (su_heap su) (su_tree su) (su_list su)" using assms by (simp add: su_inv_def)
  have "k \<in> set (su_sessions su) \<longleftrightarrow> (\<exists>p c. su_heap su p = Some c \<and> suc_local_addr c = k)"
    using table_list [OF ok] by (auto simp: su_sessions_def image_iff dom_def) force
  also have "\<dots> \<longleftrightarrow> su_tree su k \<noteq> None" using table_lookup [OF ok, of k] by auto
  finally show ?thesis .
qed

lemma su_Submit_sessions:
  assumes inv: "su_inv su" and fresh: "su_fresh env su"
    and env: "su_malloc env = Some p" "su_dgram_ok env" "su_reuse_ok env" "su_buffer_ok env" "su_recv_buffer_ok env" "su_room env"
  shows "su_sessions (fst (SocksUdpGwClient_SubmitPacket env su local remote is_dns data)) =
    lru_use (nat (su_max_connections su)) local (su_sessions su)"
proof (cases "su_tree su local")
  case (Some q)
  have ok: "table_ok suc_local_addr (su_heap su) (su_tree su) (su_list su)" using inv by (simp add: su_inv_def)
  obtain c where c: "su_heap su q = Some c" "suc_local_addr c = local" using table_lookup [OF ok] Some by blast
  then have mem: "q \<in> set (su_list su)" using table_list [OF ok] by auto
  let ?f = "\<lambda>p. suc_local_addr (the (su_heap su p))"
  have same: "(\<lambda>p. suc_local_addr (the (su_heap (SU_reset_connection su q local remote is_dns) p))) = ?f"
    using c by (auto simp: SU_reset_connection_def)
  have "map ?f (remove1 q (su_list su)) = remove1 local (su_sessions su)"
    using map_remove1_inj [OF su_sessions_inj [OF inv] mem] c by (simp add: su_sessions_def)
  moreover have "local \<in> set (su_sessions su)" using su_sessions_found [OF inv] Some by simp
  moreover have "su_list (SU_reset_connection su q local remote is_dns) = su_list su" by (simp add: SU_reset_connection_def)
  ultimately show ?thesis
    unfolding Submit_found [OF Some] using env same c by (simp add: su_sessions_def lru_use_def Let_def)
next
  case None
  have notin: "local \<notin> set (su_sessions su)" using su_sessions_found [OF inv] None by simp
  have ok: "table_ok suc_local_addr (su_heap su) (su_tree su) (su_list su)" using inv by (simp add: su_inv_def)
  have num: "su_num_connections su = int (length (su_sessions su))" using inv by (simp add: su_inv_def su_sessions_def)
  have p: "p \<notin> set (su_list su)" using fresh env(1) table_list [OF ok] by (auto simp: su_fresh_def)
  define su1 where "su1 = (if su_num_connections su = su_max_connections su then fst (SU_remove_lru_connection su) else su)"
  have "fst (SocksUdpGwClient_SubmitPacket env su local remote is_dns data) = fst (SU_connection_init env su1 local remote data is_dns)"
    unfolding Submit_created [OF None] su1_def by (simp add: split_beta Let_def)
  moreover have "p \<notin> set (su_list su1)" using p notin_set_remove1 [OF p] by (auto simp: su1_def lru_fields)
  then have "su_sessions (fst (SU_connection_init env su1 local remote data is_dns)) = su_sessions su1 @ [local]"
    using env by (auto simp: SU_connection_init_def su_sessions_def Let_def)
  moreover have "su_sessions su1 = (if su_num_connections su = su_max_connections su then tl (su_sessions su) else su_sessions su)"
  proof (cases "su_num_connections su = su_max_connections su")
    case True
    then obtain q qs where q: "su_list su = q # qs" using lru_inv(3) [OF inv] by (cases "su_list su") auto
    then have "q \<notin> set qs" using table_distinct [OF ok] by simp
    then show ?thesis using True q by (auto simp: su1_def su_sessions_def lru_fields)
  qed (simp add: su1_def)
  moreover have "length (su_sessions su) = nat (su_max_connections su) \<longleftrightarrow> su_num_connections su = su_max_connections su"
    using num inv by (auto simp: su_inv_def)
  ultimately show ?thesis using notin by (simp add: lru_use_def)
qed

lemma SU_parse_packet:
  assumes "BAddr_wf (suc_remote_addr c)" "suc_remote_addr c \<noteq> BAddr_None" "\<not> suc_is_dns c"
  shows "SU_parse_header (SU_packet c data) = Some (suc_remote_addr c, data)"
  using assms
  by (cases "suc_remote_addr c") (simp_all add: SU_packet_def SU_parse_header_def layout_simps mem16_def of_mem16_mem16 [unfolded mem16_def] socks_consts window_def)

lemma SU_packet_length: "BAddr_wf (suc_remote_addr c) \<Longrightarrow> length (SU_packet c data) \<le> 22 + length data"
  using udpgw_addr_length [of "suc_remote_addr c"] by (simp add: SU_packet_def)

lemma received_own_packet:
  assumes "su_heap su p = Some c" "BAddr_wf (suc_remote_addr c)" "suc_remote_addr c \<noteq> BAddr_None" "\<not> suc_is_dns c"
    "int (length data) \<le> su_udp_mtu su"
  shows "SU_dgram_handler_received su p (SU_packet c data) =
    (su, [SU_recv_Done p, SU_handler_received (suc_local_addr c) (suc_remote_addr c) data])"
proof -
  have "(su_heap su)(p \<mapsto> c\<lparr>suc_remote_addr := suc_remote_addr c\<rparr>) = su_heap su" using assms(1) by (simp add: fun_upd_idem)
  then show ?thesis
    using SU_parse_packet [OF assms(2-4), of data] assms
    by (simp add: SU_dgram_handler_received_def SU_deliver_def)
qed

text \<open>
  What submitting a datagram does: on a socket that exists the packet goes to its buffer at once; a new socket is
  set up to send to the SOCKS server (or the DNS gateway) and its first job does the same.
\<close>

definition su_passed :: "su_env \<Rightarrow> SocksUdpGwClient \<Rightarrow> BAddr \<Rightarrow> bool \<Rightarrow> SocksUdpGwClient \<Rightarrow> SocksUdpGwClient_call list \<Rightarrow> ptr \<Rightarrow> bytes \<Rightarrow> bool" where
  "su_passed env su local is_dns su' calls q pkt \<longleftrightarrow>
     (case su_tree su local of
        Some q' \<Rightarrow> q = q' \<and> calls = [SU_EndPacket q pkt]
      | None \<Rightarrow> su_malloc env = Some q \<and> SU_job_Set q \<in> set calls \<and>
          SU_SetSendAddrs q (if is_dns then su_dnsgw su else su_socks_server_addr su) \<in> set calls \<and>
          SU_connection_first_job_handler env su' q = (su', [SU_EndPacket q pkt]))"

lemma su_Submit_connection:
  assumes inv: "su_inv su"
    and env: "su_malloc env = Some p" "su_dgram_ok env" "su_reuse_ok env" "su_buffer_ok env" "su_recv_buffer_ok env" "su_room env"
    and su': "SocksUdpGwClient_SubmitPacket env su local remote is_dns data = (su', calls)"
  shows "\<exists>q c. su_heap su' q = Some c \<and> suc_local_addr c = local \<and> suc_remote_addr c = remote \<and> suc_is_dns c = is_dns \<and>
    su_udp_mtu su' = su_udp_mtu su \<and> su_passed env su local is_dns su' calls q (SU_packet c data)"
proof (cases "su_tree su local")
  case (Some q)
  then show ?thesis using su' unfolding Submit_found [OF Some] using env(6) by (auto simp: SU_reset_connection_def su_passed_def Let_def)
next
  case None
  then show ?thesis using su' unfolding Submit_created [OF None] using env
    by (intro exI [of _ p])
      (auto simp: SU_connection_init_def Let_def SU_remove_lru_connection_def SU_connection_free_def split_beta su_passed_def
        SU_connection_first_job_handler_def SU_connection_send_def split: if_splits)
qed

section \<open>Properties\<close>

definition demo_relay :: SocksUdpGwClient where
  "demo_relay = SocksUdpGwClient_Init 0 100 2 (BAddr_IPv4 10 1080) (BAddr_IPv4 8 53)"

definition demo_su_env :: su_env where
  "demo_su_env = \<lparr>su_malloc = Some 1, su_dgram_ok = True, su_reuse_ok = True, su_buffer_ok = True, su_recv_buffer_ok = True, su_room = True\<rparr>"

lemma demo_relay_reach: "su_reach demo_relay"
  unfolding demo_relay_def by (rule su_init) simp

lemma demo_relay_fresh: "su_fresh demo_su_env demo_relay"
  by (simp add: su_fresh_def demo_relay_def SocksUdpGwClient_Init_def)

text \<open>The relay after a first datagram of 100 bytes from 1:2 to 3:4.\<close>

definition demo_relay1 :: SocksUdpGwClient where
  "demo_relay1 = fst (SocksUdpGwClient_SubmitPacket demo_su_env demo_relay (BAddr_IPv4 1 2) (BAddr_IPv4 3 4) False (replicate 100 0))"

lemma demo_relay1_reach: "su_reach demo_relay1"
proof (rule su_more [OF demo_relay_reach])
  show "su_step demo_relay (snd (SocksUdpGwClient_SubmitPacket demo_su_env demo_relay (BAddr_IPv4 1 2) (BAddr_IPv4 3 4) False (replicate 100 0))) demo_relay1"
    by (rule su_submit [OF demo_relay_fresh, of "BAddr_IPv4 3 4" "replicate 100 0" "BAddr_IPv4 1 2" False])
      (simp_all add: demo_relay1_def, simp add: demo_relay_def SocksUdpGwClient_Init_def)
qed

lemma demo_relay1_state:
  "su_heap demo_relay1 = [1 \<mapsto> \<lparr>suc_local_addr = BAddr_IPv4 1 2, suc_remote_addr = BAddr_IPv4 3 4, suc_first_data = replicate 100 0,
     suc_is_dns = False, suc_send_addr = BAddr_IPv4 10 1080\<rparr>]"
  "su_tree demo_relay1 = [BAddr_IPv4 1 2 \<mapsto> 1]" "su_list demo_relay1 = [1]" "su_udp_mtu demo_relay1 = 100"
  "su_dnsgw demo_relay1 = BAddr_IPv4 8 53" "su_socks_server_addr demo_relay1 = BAddr_IPv4 10 1080"
  by (simp_all add: demo_relay1_def Submit_created demo_relay_def SocksUdpGwClient_Init_def SU_connection_init_def demo_su_env_def
      tree_put_def Let_def)

text \<open>
  C40. The table of the relay client is consistent in every reachable state: the sockets in the
  tree by local address and in the usage list are the same, there are never more than the
  maximum, and no two have the same local address.
\<close>

theorem relay_tables:
  assumes "su_reach su"
  shows "su_inv su \<and> int (length (su_list su)) \<le> su_max_connections su \<and> set (su_list su) = dom (su_heap su) \<and>
    (\<forall>p q c d. su_heap su p = Some c \<and> su_heap su q = Some d \<and> suc_local_addr c = suc_local_addr d \<longrightarrow> p = q)"
proof -
  note inv = su_reach_inv [OF assms]
  then have ok: "table_ok suc_local_addr (su_heap su) (su_tree su) (su_list su)" by (simp add: su_inv_def)
  show ?thesis using inv table_unique [OF ok] table_list [OF ok] by (auto simp: su_inv_def)
qed

theorem relay_tables_witness: "su_inv demo_relay1 \<and> set (su_list demo_relay1) = dom (su_heap demo_relay1)"
  using relay_tables [OF demo_relay1_reach] by blast

text \<open>
  Submitting a datagram uses the table of sockets as a bounded least-recently-used cache
  keyed by the local address, whenever the socket and its buffers can be set up and have room.
\<close>

theorem relay_submit_lru:
  assumes "su_reach su" "su_fresh env su"
    "su_malloc env = Some p" "su_dgram_ok env" "su_reuse_ok env" "su_buffer_ok env" "su_recv_buffer_ok env" "su_room env"
  shows "su_sessions (fst (SocksUdpGwClient_SubmitPacket env su local remote is_dns data)) =
    lru_use (nat (su_max_connections su)) local (su_sessions su)"
  by (rule su_Submit_sessions [OF su_reach_inv [OF assms(1)] assms(2-8)])

theorem relay_submit_lru_witness:
  "su_sessions (fst (SocksUdpGwClient_SubmitPacket demo_su_env demo_relay (BAddr_IPv4 1 2) (BAddr_IPv4 3 4) False [7])) = [BAddr_IPv4 1 2]"
proof -
  have "su_sessions demo_relay = []" "su_max_connections demo_relay = 2"
    by (simp_all add: demo_relay_def SocksUdpGwClient_Init_def su_sessions_def)
  then show ?thesis
    using relay_submit_lru [OF demo_relay_reach demo_relay_fresh, of 1 "BAddr_IPv4 1 2" "BAddr_IPv4 3 4" False "[7]"]
    by (simp add: demo_su_env_def lru_use_def)
qed

text \<open>
  The SOCKS UDP header round trip: what the client sends for a connection to the SOCKS server,
  received back on the connection's socket, is delivered to the user with the connection's
  local and remote address and the same data, and leaves the connection as it is.
\<close>

theorem relay_roundtrip:
  assumes "su_heap su p = Some c" "BAddr_wf (suc_remote_addr c)" "suc_remote_addr c \<noteq> BAddr_None" "\<not> suc_is_dns c"
    "int (length data) \<le> su_udp_mtu su"
  shows "SU_dgram_handler_received su p (SU_packet c data) =
    (su, [SU_recv_Done p, SU_handler_received (suc_local_addr c) (suc_remote_addr c) data])"
  by (rule received_own_packet [OF assms])

theorem relay_roundtrip_witness:
  "SU_dgram_handler_received demo_relay1 1 (SU_packet (the (su_heap demo_relay1 1)) [1, 2, 3]) =
    (demo_relay1, [SU_recv_Done 1, SU_handler_received (BAddr_IPv4 1 2) (BAddr_IPv4 3 4) [1, 2, 3]])"
  using relay_roundtrip [of demo_relay1 1 "the (su_heap demo_relay1 1)" "[1, 2, 3]"] by (simp add: demo_relay1_state)

text \<open>
  A DNS query from a local address that already has a socket for other traffic is sent, without
  SOCKS header, to the SOCKS server and not to the DNS gateway: the test that is to keep the
  two kinds apart never succeeds, the connection is found and only marked as DNS, and the
  address its socket sends to stays that of its creation. The same holds with the roles exchanged.
\<close>

theorem relay_dns_kind_ignored:
  assumes "su_reach su" "su_tree su local = Some p" "su_room env"
  shows "\<exists>c su'. su_heap su p = Some c \<and>
    SocksUdpGwClient_SubmitPacket env su local remote True data = (su', [SU_EndPacket p data]) \<and>
    su_heap su' p = Some (c\<lparr>suc_remote_addr := remote, suc_is_dns := True\<rparr>) \<and>
    suc_send_addr (the (su_heap su' p)) = suc_send_addr c"
proof -
  have ok: "table_ok suc_local_addr (su_heap su) (su_tree su) (su_list su)" using su_reach_inv [OF assms(1)] by (simp add: su_inv_def)
  obtain c where c: "su_heap su p = Some c" "suc_local_addr c = local" using table_lookup [OF ok] assms(2) by blast
  then have "c\<lparr>suc_local_addr := local\<rparr> = c" by (cases c) simp
  then show ?thesis
    unfolding Submit_found [OF assms(2)] using assms(3) c
    by (simp add: SU_reset_connection_def SU_packet_def Let_def)
qed

theorem relay_dns_kind_ignored_witness:
  "\<exists>su'. SocksUdpGwClient_SubmitPacket demo_su_env demo_relay1 (BAddr_IPv4 1 2) (BAddr_IPv4 5 53) True [1, 2, 3] = (su', [SU_EndPacket 1 [1, 2, 3]]) \<and>
     suc_send_addr (the (su_heap su' 1)) = su_socks_server_addr demo_relay1 \<and> su_socks_server_addr demo_relay1 \<noteq> su_dnsgw demo_relay1"
proof -
  have "su_tree demo_relay1 (BAddr_IPv4 1 2) = Some 1" "su_room demo_su_env" by (simp_all add: demo_relay1_state demo_su_env_def)
  from relay_dns_kind_ignored [OF demo_relay1_reach this, of "BAddr_IPv4 5 53" "[1, 2, 3]"] show ?thesis
    by (auto simp: demo_relay1_state)
qed

text \<open>
  The buffer that takes the packets of a connection is made for the UDP MTU, but a packet
  is the datagram with a header in front: in a reachable state the client completes a packet
  longer than the MTU that \<open>BufferWriter_Init\<close> was given, for a datagram within the MTU.
\<close>

theorem relay_packet_exceeds_writer:
  "\<exists>su su' pkt calls. su_reach su \<and> su_step su calls su' \<and> SU_EndPacket 1 pkt \<in> set calls \<and>
      SU_writer_Init 1 (su_udp_mtu su) \<in> set (snd (SocksUdpGwClient_SubmitPacket demo_su_env demo_relay (BAddr_IPv4 1 2) (BAddr_IPv4 3 4) False (replicate 100 0))) \<and>
      int (length pkt) > su_udp_mtu su"
proof -
  let ?r = "SU_connection_first_job_handler demo_su_env demo_relay1 1"
  let ?pkt = "SU_packet (the (su_heap demo_relay1 1)) (replicate 100 0)"
  have "su_step demo_relay1 (snd ?r) (fst ?r)"
    by (rule su_first_job [of demo_relay1 1 "the (su_heap demo_relay1 1)" demo_su_env]) (simp_all add: demo_relay1_state)
  moreover have "SU_EndPacket 1 ?pkt \<in> set (snd ?r)"
    by (simp add: SU_connection_first_job_handler_def SU_connection_send_def demo_su_env_def demo_relay1_state)
  moreover have "int (length ?pkt) > su_udp_mtu demo_relay1" by (simp add: SU_packet_def demo_relay1_state)
  moreover have "SU_writer_Init 1 (su_udp_mtu demo_relay1) \<in> set (snd (SocksUdpGwClient_SubmitPacket demo_su_env demo_relay (BAddr_IPv4 1 2) (BAddr_IPv4 3 4) False (replicate 100 0)))"
    by (simp add: Submit_created demo_relay_def SocksUdpGwClient_Init_def SU_connection_init_def demo_su_env_def demo_relay1_state Let_def)
  ultimately show ?thesis using demo_relay1_reach by blast
qed

end
