(* ===== verification/TcpClient.thy ===== *)
theory TcpClient
  imports ConnTable Addr SocksClient
begin

text \<open>
  The TCP side of \<open>tun2socks.c\<close>: every TCP connection that lwIP accepts on the device gets a
  \<open>tcp_client\<close> object that carries its bytes to and from a SOCKS connection of its own. The
  handlers below are the callbacks lwIP and \<open>BSocksClient\<close> make and the functions they share.

  A handler maps the state of the program to the state after it; the result \<open>None\<close> stands for a
  violated \<open>ASSERT\<close>, an access to freed memory, or a call that lwIP or the SOCKS client
  forbids, and the theorems show that it never arises. The objects on the other side of the two
  interfaces are kept in the state as far as the calls change them: which callbacks a pcb has and
  how much it may still deliver, and which operation of a SOCKS client is in progress.
\<close>

section \<open>State\<close>

definition TCP_WND :: nat where "TCP_WND = 4 * 1460"

definition CLIENT_SOCKS_RECV_BUF_SIZE :: nat where "CLIENT_SOCKS_RECV_BUF_SIZE = 8192"

datatype err_t = ERR_OK | ERR_MEM | ERR_ABRT | ERR_other int

type_synonym pcb_id = nat

record tcp_client =
  tc_aborted :: bool
  tc_dead_aborted :: "nat option"
  tc_local_addr :: BAddr
  tc_remote_addr :: BAddr
  tc_pcb :: pcb_id
  tc_client_closed :: bool
  tc_buf :: bytes
  tc_buf_used :: nat
  tc_socks_username :: bool
  tc_socks_up :: bool
  tc_socks_closed :: bool
  tc_socks_recv_buf :: bytes
  tc_socks_recv_buf_used :: int
  tc_socks_recv_buf_sent :: int
  tc_socks_recv_waiting :: bool
  tc_socks_recv_tcp_pending :: int

text \<open>
  A pcb as far as the callbacks see it: the registered callbacks and their argument, the bytes the
  peer may still send before some are acknowledged with \<open>tcp_recved\<close>, and the bytes written but not
  yet reported as sent.
\<close>

record tcp_pcb =
  pb_arg :: ptr
  pb_err :: bool
  pb_recv :: bool
  pb_sent :: bool
  pb_wnd :: nat
  pb_pending :: int

text \<open>A SOCKS client as far as the handlers see it: up or not, the data of a send in progress, a receive in progress.\<close>

record socks_conn =
  sk_up :: bool
  sk_sending :: "bytes option"
  sk_recving :: bool

text \<open>
  The bytes that crossed each of the four interfaces of a client, and whether its pcb was
  aborted by \<open>tcp_abort\<close>: a record of what happened, which no handler reads.
\<close>

record tc_hist =
  h_from_tcp :: bytes
  h_to_socks :: bytes
  h_from_socks :: bytes
  h_to_tcp :: bytes
  h_abort :: bool

text \<open>The username of the second authentication method: the option's, or the string owned by a client.\<close>

datatype username_ref = User_options | User_client ptr

text \<open>
  \<open>tn_frames\<close> holds the \<open>badvpn__dead\<close> variables of the callbacks being executed (\<open>misc/dead.h\<close>); a
  \<open>dead_t\<close> is the position of such a variable.
\<close>

record tun =
  tn_clients :: "ptr \<rightharpoonup> tcp_client"
  tn_tcp_clients :: "ptr list"
  tn_num_clients :: int
  tn_auth_user :: username_ref
  tn_append_source :: bool
  tn_frames :: "int list"
  tn_pcbs :: "pcb_id \<rightharpoonup> tcp_pcb"
  tn_socks :: "ptr \<rightharpoonup> socks_conn"
  tn_hist :: "ptr \<Rightarrow> tc_hist"

text \<open>What lwIP answers to the calls of one handler; \<open>tcp_sndbuf\<close> and \<open>tcp_write\<close> for each round of the loop.\<close>

record tc_env =
  te_close :: err_t
  te_sndbuf :: "nat \<Rightarrow> nat"
  te_write :: "nat \<Rightarrow> err_t"
  te_output :: err_t

section \<open>Calls\<close>

definition put_client :: "ptr \<Rightarrow> tcp_client \<Rightarrow> tun \<Rightarrow> tun" where
  "put_client p c s = s\<lparr>tn_clients := (tn_clients s)(p \<mapsto> c)\<rparr>"

definition put_pcb :: "pcb_id \<Rightarrow> tcp_pcb \<Rightarrow> tun \<Rightarrow> tun" where
  "put_pcb b x s = s\<lparr>tn_pcbs := (tn_pcbs s)(b \<mapsto> x)\<rparr>"

definition put_socks :: "ptr \<Rightarrow> socks_conn \<Rightarrow> tun \<Rightarrow> tun" where
  "put_socks p k s = s\<lparr>tn_socks := (tn_socks s)(p \<mapsto> k)\<rparr>"

definition put_hist :: "ptr \<Rightarrow> tc_hist \<Rightarrow> tun \<Rightarrow> tun" where
  "put_hist p h s = s\<lparr>tn_hist := (tn_hist s)(p := h)\<rparr>"

definition tcp_err :: "pcb_id \<Rightarrow> bool \<Rightarrow> tun \<Rightarrow> tun option" where
  "tcp_err b on s = do { x \<leftarrow> tn_pcbs s b; Some (put_pcb b (x\<lparr>pb_err := on\<rparr>) s) }"

definition tcp_recv :: "pcb_id \<Rightarrow> bool \<Rightarrow> tun \<Rightarrow> tun option" where
  "tcp_recv b on s = do { x \<leftarrow> tn_pcbs s b; Some (put_pcb b (x\<lparr>pb_recv := on\<rparr>) s) }"

definition tcp_sent :: "pcb_id \<Rightarrow> bool \<Rightarrow> tun \<Rightarrow> tun option" where
  "tcp_sent b on s = do { x \<leftarrow> tn_pcbs s b; Some (put_pcb b (x\<lparr>pb_sent := on\<rparr>) s) }"

text \<open>
  A pcb is given up by a successful \<open>tcp_close\<close> or by \<open>tcp_abort\<close>. lwIP would go on to use the
  callbacks that are still set then (\<open>tcp_abort\<close> calls the error callback itself), so neither may
  be called with callbacks set.
\<close>

definition tcp_close :: "err_t \<Rightarrow> pcb_id \<Rightarrow> tun \<Rightarrow> (err_t \<times> tun) option" where
  "tcp_close res b s = do {
     x \<leftarrow> tn_pcbs s b;
     _ \<leftarrow> ASSERT (\<not> pb_err x \<and> \<not> pb_recv x \<and> \<not> pb_sent x);
     Some (res, if res = ERR_OK then s\<lparr>tn_pcbs := (tn_pcbs s)(b := None)\<rparr> else s) }"

definition tcp_abort :: "pcb_id \<Rightarrow> tun \<Rightarrow> tun option" where
  "tcp_abort b s = do {
     x \<leftarrow> tn_pcbs s b;
     _ \<leftarrow> ASSERT (\<not> pb_err x \<and> \<not> pb_recv x \<and> \<not> pb_sent x);
     Some (put_hist (pb_arg x) ((tn_hist s (pb_arg x))\<lparr>h_abort := True\<rparr>) (s\<lparr>tn_pcbs := (tn_pcbs s)(b := None)\<rparr>)) }"

definition tcp_recved :: "pcb_id \<Rightarrow> nat \<Rightarrow> tun \<Rightarrow> tun option" where
  "tcp_recved b n s = do {
     x \<leftarrow> tn_pcbs s b;
     _ \<leftarrow> ASSERT (pb_wnd x + n \<le> TCP_WND);
     Some (put_pcb b (x\<lparr>pb_wnd := pb_wnd x + n\<rparr>) s) }"

definition tcp_write :: "pcb_id \<Rightarrow> bytes \<Rightarrow> tun \<Rightarrow> tun option" where
  "tcp_write b data s = do {
     x \<leftarrow> tn_pcbs s b;
     let h = tn_hist s (pb_arg x);
     Some (put_hist (pb_arg x) (h\<lparr>h_to_tcp := h_to_tcp h @ data\<rparr>)
       (put_pcb b (x\<lparr>pb_pending := pb_pending x + int (length data)\<rparr>) s)) }"

definition socks_Free :: "ptr \<Rightarrow> tun \<Rightarrow> tun option" where
  "socks_Free p s = do { k \<leftarrow> tn_socks s p; Some (s\<lparr>tn_socks := (tn_socks s)(p := None)\<rparr>) }"

definition socks_Send :: "ptr \<Rightarrow> bytes \<Rightarrow> tun \<Rightarrow> tun option" where
  "socks_Send p data s = do {
     k \<leftarrow> tn_socks s p;
     _ \<leftarrow> ASSERT (sk_up k \<and> sk_sending k = None \<and> data \<noteq> []);
     Some (put_socks p (k\<lparr>sk_sending := Some data\<rparr>) s) }"

definition socks_Recv :: "ptr \<Rightarrow> tun \<Rightarrow> tun option" where
  "socks_Recv p s = do {
     k \<leftarrow> tn_socks s p;
     _ \<leftarrow> ASSERT (sk_up k \<and> \<not> sk_recving k);
     Some (put_socks p (k\<lparr>sk_recving := True\<rparr>) s) }"

definition DEAD_KILL_WITH :: "nat option \<Rightarrow> int \<Rightarrow> tun \<Rightarrow> tun option" where
  "DEAD_KILL_WITH d val s = (case d of None \<Rightarrow> Some s
     | Some i \<Rightarrow> if i < length (tn_frames s) then Some (s\<lparr>tn_frames := (tn_frames s)[i := val]\<rparr>) else None)"

text \<open>\<open>DEAD_ENTER\<close> on the dead variable of client \<open>p\<close>; the result is the previous value of the variable.\<close>

definition DEAD_ENTER :: "ptr \<Rightarrow> tun \<Rightarrow> (nat option \<times> tun) option" where
  "DEAD_ENTER p s = do {
     c \<leftarrow> tn_clients s p;
     Some (tc_dead_aborted c, put_client p (c\<lparr>tc_dead_aborted := Some (length (tn_frames s))\<rparr>) (s\<lparr>tn_frames := tn_frames s @ [0]\<rparr>)) }"

text \<open>\<open>DEAD_LEAVE2\<close> followed by the return from the function, with the value of \<open>DEAD_KILLED\<close>.\<close>

definition DEAD_LEAVE2 :: "ptr \<Rightarrow> nat option \<Rightarrow> tun \<Rightarrow> (int \<times> tun) option" where
  "DEAD_LEAVE2 p prev s = do {
     let dead = last (tn_frames s);
     s1 \<leftarrow> (if dead = 0 then do { c \<leftarrow> tn_clients s p; Some (put_client p (c\<lparr>tc_dead_aborted := prev\<rparr>) s) } else Some s);
     let s2 = s1\<lparr>tn_frames := butlast (tn_frames s1)\<rparr>;
     (case prev of None \<Rightarrow> Some (dead, s2)
      | Some i \<Rightarrow> if i < length (tn_frames s2) then Some (dead, s2\<lparr>tn_frames := (tn_frames s2)[i := dead]\<rparr>) else None) }"

lemmas tcp_call_defs = tcp_err_def tcp_recv_def tcp_sent_def tcp_close_def tcp_abort_def tcp_recved_def tcp_write_def
lemmas put_defs = put_client_def put_pcb_def put_socks_def put_hist_def

section \<open>Closing a client\<close>

definition client_dealloc :: "ptr \<Rightarrow> tun \<Rightarrow> tun option" where
  "client_dealloc p s = do {
     c \<leftarrow> tn_clients s p;
     _ \<leftarrow> ASSERT (tc_client_closed c);
     _ \<leftarrow> ASSERT (tc_socks_closed c);
     _ \<leftarrow> ASSERT (tn_num_clients s > 0);
     let s1 = s\<lparr>tn_num_clients := tn_num_clients s - 1, tn_tcp_clients := remove1 p (tn_tcp_clients s)\<rparr>;
     s2 \<leftarrow> (if \<not> tc_aborted c then DEAD_KILL_WITH (tc_dead_aborted c) (-1) s1 else Some s1);
     Some (s2\<lparr>tn_clients := (tn_clients s2)(p := None)\<rparr>) }"

definition client_abort_pcb :: "ptr \<Rightarrow> tun \<Rightarrow> tun option" where
  "client_abort_pcb p s = do {
     c \<leftarrow> tn_clients s p;
     _ \<leftarrow> ASSERT (\<not> tc_aborted c);
     s1 \<leftarrow> tcp_abort (tc_pcb c) s;
     let s2 = put_client p (c\<lparr>tc_aborted := True\<rparr>) s1;
     DEAD_KILL_WITH (tc_dead_aborted c) 1 s2 }"

definition remove_callbacks :: "pcb_id \<Rightarrow> tun \<Rightarrow> tun option" where
  "remove_callbacks b s = do { s1 \<leftarrow> tcp_err b False s; s2 \<leftarrow> tcp_recv b False s1; tcp_sent b False s2 }"

text \<open>Each call that crosses over has closed one more side: the number of open sides decreases.\<close>

definition open_sides :: "ptr \<Rightarrow> tun \<Rightarrow> nat" where
  "open_sides p s = (case tn_clients s p of None \<Rightarrow> 0
     | Some c \<Rightarrow> of_bool (\<not> tc_client_closed c) + of_bool (\<not> tc_socks_closed c))"

lemma put_client_simps [simp]:
  "tn_clients (put_client p c s) = (tn_clients s)(p \<mapsto> c)" "tn_pcbs (put_client p c s) = tn_pcbs s"
  "tn_socks (put_client p c s) = tn_socks s" "tn_hist (put_client p c s) = tn_hist s" "tn_frames (put_client p c s) = tn_frames s"
  "tn_tcp_clients (put_client p c s) = tn_tcp_clients s" "tn_num_clients (put_client p c s) = tn_num_clients s"
  "tn_auth_user (put_client p c s) = tn_auth_user s" "tn_append_source (put_client p c s) = tn_append_source s"
  by (simp_all add: put_defs)

lemma put_other_clients [simp]:
  "tn_clients (put_pcb b x s) = tn_clients s" "tn_clients (put_socks p k s) = tn_clients s" "tn_clients (put_hist p h s) = tn_clients s"
  by (simp_all add: put_defs)

declare bind_eq_SomeE [elim!]

lemma lwip_calls_clients:
  "tcp_err b on s = Some s' \<Longrightarrow> tn_clients s' = tn_clients s"
  "tcp_recv b on s = Some s' \<Longrightarrow> tn_clients s' = tn_clients s"
  "tcp_sent b on s = Some s' \<Longrightarrow> tn_clients s' = tn_clients s"
  "tcp_close e b s = Some (err, s') \<Longrightarrow> tn_clients s' = tn_clients s"
  "tcp_abort b s = Some s' \<Longrightarrow> tn_clients s' = tn_clients s"
  "socks_Free p s = Some s' \<Longrightarrow> tn_clients s' = tn_clients s"
  "remove_callbacks b s = Some s' \<Longrightarrow> tn_clients s' = tn_clients s"
  by (auto simp: tcp_call_defs socks_Free_def remove_callbacks_def split: if_splits)

lemma abort_pcb_open_sides: "client_abort_pcb p s = Some s' \<Longrightarrow> open_sides p s' = open_sides p s"
  by (auto simp: client_abort_pcb_def open_sides_def DEAD_KILL_WITH_def lwip_calls_clients Let_def split: if_splits option.splits)

text \<open>
  The two closing directions call each other: giving up one side of a client gives up the other
  side too, unless there is buffered data that the other side can still take.
\<close>

function client_free_socks :: "err_t \<Rightarrow> ptr \<Rightarrow> tun \<Rightarrow> tun option"
  and client_free_client :: "err_t \<Rightarrow> ptr \<Rightarrow> tun \<Rightarrow> tun option"
  and client_handle_freed_client :: "err_t \<Rightarrow> ptr \<Rightarrow> tun \<Rightarrow> tun option" where
  "client_free_socks e p s = do {
     c \<leftarrow> tn_clients s p;
     _ \<leftarrow> ASSERT (\<not> tc_socks_closed c);
     s1 \<leftarrow> (if tc_socks_up c \<and> \<not> tc_client_closed c then tcp_recv (tc_pcb c) False s else Some s);
     s2 \<leftarrow> socks_Free p s1;
     let s3 = put_client p (c\<lparr>tc_socks_closed := True\<rparr>) s2;
     if tc_socks_up c \<and> (tc_socks_recv_buf_used c \<ge> 0 \<or> tc_socks_recv_tcp_pending c > 0) \<and> \<not> tc_client_closed c then Some s3
     else if \<not> tc_client_closed c then client_free_client e p s3 else client_dealloc p s3 }"
| "client_free_client e p s = do {
     c \<leftarrow> tn_clients s p;
     _ \<leftarrow> ASSERT (\<not> tc_client_closed c);
     s1 \<leftarrow> remove_callbacks (tc_pcb c) s;
     (err, s2) \<leftarrow> tcp_close e (tc_pcb c) s1;
     s3 \<leftarrow> (if err \<noteq> ERR_OK then client_abort_pcb p s2 else Some s2);
     client_handle_freed_client e p s3 }"
| "client_handle_freed_client e p s = do {
     c \<leftarrow> tn_clients s p;
     _ \<leftarrow> ASSERT (\<not> tc_client_closed c);
     let s1 = put_client p (c\<lparr>tc_client_closed := True\<rparr>) s;
     if tc_buf_used c > 0 \<and> \<not> tc_socks_closed c then Some s1
     else if \<not> tc_socks_closed c then client_free_socks e p s1 else client_dealloc p s1 }"
  by pat_completeness auto

termination
proof (relation "measure (\<lambda>x. case x of Inl (e, p, s) \<Rightarrow> 3 * open_sides p s
    | Inr (Inl (e, p, s)) \<Rightarrow> 3 * open_sides p s + 2 | Inr (Inr (e, p, s)) \<Rightarrow> 3 * open_sides p s + 1)")
qed (auto simp: open_sides_def lwip_calls_clients dest!: abort_pcb_open_sides split: if_splits option.splits)

declare client_free_socks.simps [simp del] client_free_client.simps [simp del] client_handle_freed_client.simps [simp del]

definition client_abort_client :: "err_t \<Rightarrow> ptr \<Rightarrow> tun \<Rightarrow> tun option" where
  "client_abort_client e p s = do {
     c \<leftarrow> tn_clients s p;
     _ \<leftarrow> ASSERT (\<not> tc_client_closed c);
     s1 \<leftarrow> remove_callbacks (tc_pcb c) s;
     s2 \<leftarrow> client_abort_pcb p s1;
     client_handle_freed_client e p s2 }"

definition client_murder :: "ptr \<Rightarrow> tun \<Rightarrow> tun option" where
  "client_murder p s = do {
     c \<leftarrow> tn_clients s p;
     s1 \<leftarrow> (if \<not> tc_client_closed c then do {
              a \<leftarrow> remove_callbacks (tc_pcb c) s;
              b \<leftarrow> client_abort_pcb p a;
              d \<leftarrow> tn_clients b p;
              Some (put_client p (d\<lparr>tc_client_closed := True\<rparr>) b) }
            else Some s);
     c1 \<leftarrow> tn_clients s1 p;
     s2 \<leftarrow> (if \<not> tc_socks_closed c1 then do {
              a \<leftarrow> socks_Free p s1;
              Some (put_client p (c1\<lparr>tc_socks_closed := True\<rparr>) a) }
            else Some s1);
     client_dealloc p s2 }"

definition client_err_func :: "err_t \<Rightarrow> ptr \<Rightarrow> tun \<Rightarrow> tun option" where
  "client_err_func e p s = do {
     c \<leftarrow> tn_clients s p;
     _ \<leftarrow> ASSERT (\<not> tc_client_closed c);
     client_handle_freed_client e p s }"

section \<open>The SOCKS side\<close>

definition client_send_to_socks :: "ptr \<Rightarrow> tun \<Rightarrow> tun option" where
  "client_send_to_socks p s = do {
     c \<leftarrow> tn_clients s p;
     _ \<leftarrow> ASSERT (\<not> tc_socks_closed c \<and> tc_socks_up c \<and> tc_buf_used c > 0);
     socks_Send p (take (tc_buf_used c) (tc_buf c)) s }"

definition client_socks_recv_initiate :: "ptr \<Rightarrow> tun \<Rightarrow> tun option" where
  "client_socks_recv_initiate p s = do {
     c \<leftarrow> tn_clients s p;
     _ \<leftarrow> ASSERT (\<not> tc_client_closed c \<and> \<not> tc_socks_closed c \<and> tc_socks_up c \<and> tc_socks_recv_buf_used c = -1);
     socks_Recv p s }"

definition client_socks_handler :: "err_t \<Rightarrow> ptr \<Rightarrow> BSocksClient_event \<Rightarrow> tun \<Rightarrow> tun option" where
  "client_socks_handler e p event s = do {
     c \<leftarrow> tn_clients s p;
     _ \<leftarrow> ASSERT (\<not> tc_socks_closed c);
     (case event of
        BSOCKSCLIENT_EVENT_ERROR \<Rightarrow> client_free_socks e p s
      | BSOCKSCLIENT_EVENT_UP \<Rightarrow> do {
          _ \<leftarrow> ASSERT (\<not> tc_socks_up c);
          s1 \<leftarrow> (if \<not> tc_client_closed c then tcp_sent (tc_pcb c) True s else Some s);
          let c1 = c\<lparr>tc_socks_recv_buf_used := -1, tc_socks_recv_tcp_pending := 0, tc_socks_up := True\<rparr>;
          let s2 = put_client p c1 s1;
          s3 \<leftarrow> (if tc_buf_used c1 > 0 then client_send_to_socks p s2 else Some s2);
          (if \<not> tc_client_closed c1 then client_socks_recv_initiate p s3 else Some s3) }
      | BSOCKSCLIENT_EVENT_ERROR_CLOSED \<Rightarrow> do {
          _ \<leftarrow> ASSERT (tc_socks_up c);
          client_free_socks e p s }) }"

text \<open>The \<open>memmove\<close> leaves the bytes behind the moved ones as they are.\<close>

definition client_socks_send_handler_done :: "err_t \<Rightarrow> ptr \<Rightarrow> nat \<Rightarrow> tun \<Rightarrow> tun option" where
  "client_socks_send_handler_done e p data_len s = do {
     c \<leftarrow> tn_clients s p;
     _ \<leftarrow> ASSERT (\<not> tc_socks_closed c \<and> tc_socks_up c \<and> tc_buf_used c > 0 \<and> data_len > 0 \<and> data_len \<le> tc_buf_used c);
     let c1 = c\<lparr>tc_buf := write_at 0 (window data_len (tc_buf_used c - data_len) (tc_buf c)) (tc_buf c),
               tc_buf_used := tc_buf_used c - data_len\<rparr>;
     let s1 = put_client p c1 s;
     s2 \<leftarrow> (if \<not> tc_client_closed c1 then tcp_recved (tc_pcb c1) data_len s1 else Some s1);
     if tc_buf_used c1 > 0 then socks_Send p (take (tc_buf_used c1) (tc_buf c1)) s2
     else if tc_client_closed c1 then client_free_socks e p s2
     else Some s2 }"

text \<open>
  The loop of \<open>client_socks_recv_send_out\<close>, round \<open>k\<close>; the result says whether a write failed in a
  way that ends the connection.
\<close>

function send_out_loop :: "tc_env \<Rightarrow> ptr \<Rightarrow> nat \<Rightarrow> tun \<Rightarrow> (bool \<times> tun) option" where
  "send_out_loop env p k s = do {
     c \<leftarrow> tn_clients s p;
     let to_write = min (tc_socks_recv_buf_used c - tc_socks_recv_buf_sent c) (int (te_sndbuf env k));
     if to_write = 0 then Some (False, s)
     else if te_write env k = ERR_MEM then Some (False, s)
     else if te_write env k \<noteq> ERR_OK then Some (True, s)
     else do {
       s1 \<leftarrow> tcp_write (tc_pcb c) (window (nat (tc_socks_recv_buf_sent c)) (nat to_write) (tc_socks_recv_buf c)) s;
       let c1 = c\<lparr>tc_socks_recv_buf_sent := tc_socks_recv_buf_sent c + to_write,
                 tc_socks_recv_tcp_pending := tc_socks_recv_tcp_pending c + to_write\<rparr>;
       let s2 = put_client p c1 s1;
       if tc_socks_recv_buf_sent c1 < tc_socks_recv_buf_used c1 then send_out_loop env p (k + 1) s2 else Some (False, s2) } }"
  by pat_completeness auto

text \<open>A round that goes on has written at least one byte.\<close>

termination
  by (relation "measure (\<lambda>(env, p, k, s). case tn_clients s p of None \<Rightarrow> 0
        | Some c \<Rightarrow> nat (tc_socks_recv_buf_used c - tc_socks_recv_buf_sent c))")
    (auto simp: min_def split: if_splits)

declare send_out_loop.simps [simp del]

text \<open>The result is the one of the C function: -1 when the client was aborted.\<close>

definition client_socks_recv_send_out :: "tc_env \<Rightarrow> ptr \<Rightarrow> tun \<Rightarrow> (int \<times> tun) option" where
  "client_socks_recv_send_out env p s = do {
     c0 \<leftarrow> tn_clients s p;
     _ \<leftarrow> ASSERT (\<not> tc_client_closed c0 \<and> tc_socks_up c0 \<and> tc_socks_recv_buf_used c0 > 0 \<and>
                  tc_socks_recv_buf_sent c0 < tc_socks_recv_buf_used c0 \<and> \<not> tc_socks_recv_waiting c0);
     (failed, s1) \<leftarrow> send_out_loop env p 0 s;
     if failed \<or> te_output env \<noteq> ERR_OK then do { s2 \<leftarrow> client_abort_client (te_close env) p s1; Some (-1, s2) }
     else do {
       c \<leftarrow> tn_clients s1 p;
       if tc_socks_recv_buf_sent c < tc_socks_recv_buf_used c then
         (if tc_socks_recv_tcp_pending c = 0 then do { s2 \<leftarrow> client_abort_client (te_close env) p s1; Some (-1, s2) }
          else Some (0, put_client p (c\<lparr>tc_socks_recv_waiting := True\<rparr>) s1))
       else Some (0, put_client p (c\<lparr>tc_socks_recv_buf_used := -1\<rparr>) s1) } }"

definition client_socks_recv_handler_done :: "tc_env \<Rightarrow> ptr \<Rightarrow> nat \<Rightarrow> tun \<Rightarrow> tun option" where
  "client_socks_recv_handler_done env p data_len s = do {
     c \<leftarrow> tn_clients s p;
     _ \<leftarrow> ASSERT (data_len > 0 \<and> data_len \<le> CLIENT_SOCKS_RECV_BUF_SIZE);
     _ \<leftarrow> ASSERT (\<not> tc_socks_closed c \<and> tc_socks_up c \<and> tc_socks_recv_buf_used c = -1);
     if tc_client_closed c then Some s
     else do {
       let s1 = put_client p (c\<lparr>tc_socks_recv_buf_used := int data_len, tc_socks_recv_buf_sent := 0, tc_socks_recv_waiting := False\<rparr>) s;
       (res, s2) \<leftarrow> client_socks_recv_send_out env p s1;
       if res < 0 then Some s2
       else do {
         c1 \<leftarrow> tn_clients s2 p;
         if tc_socks_recv_buf_used c1 = -1 then client_socks_recv_initiate p s2 else Some s2 } } }"

text \<open>
  What the SOCKS client of \<open>p\<close> may report, and what it does: on completion of a send it has taken a
  non-empty prefix of the data it was given; on completion of a receive it has written the received
  bytes to the front of the client's buffer.
\<close>

datatype socks_event = SK_error | SK_up | SK_closed | SK_sent nat | SK_recv bytes

fun socks_enabled :: "tun \<Rightarrow> ptr \<Rightarrow> socks_event \<Rightarrow> bool" where
  "socks_enabled s p SK_error \<longleftrightarrow> tn_socks s p \<noteq> None"
| "socks_enabled s p SK_up \<longleftrightarrow> (\<exists>k. tn_socks s p = Some k \<and> \<not> sk_up k)"
| "socks_enabled s p SK_closed \<longleftrightarrow> (\<exists>k. tn_socks s p = Some k \<and> sk_up k)"
| "socks_enabled s p (SK_sent n) \<longleftrightarrow> (\<exists>k d. tn_socks s p = Some k \<and> sk_sending k = Some d \<and> 0 < n \<and> n \<le> length d)"
| "socks_enabled s p (SK_recv bs) \<longleftrightarrow> (\<exists>k. tn_socks s p = Some k \<and> sk_recving k \<and> bs \<noteq> [] \<and> length bs \<le> CLIENT_SOCKS_RECV_BUF_SIZE)"

fun socks_event_handler :: "tc_env \<Rightarrow> ptr \<Rightarrow> socks_event \<Rightarrow> tun \<Rightarrow> tun option" where
  "socks_event_handler env p SK_error s = client_socks_handler (te_close env) p BSOCKSCLIENT_EVENT_ERROR s"
| "socks_event_handler env p SK_up s = do {
     k \<leftarrow> tn_socks s p;
     client_socks_handler (te_close env) p BSOCKSCLIENT_EVENT_UP (put_socks p (k\<lparr>sk_up := True\<rparr>) s) }"
| "socks_event_handler env p SK_closed s = client_socks_handler (te_close env) p BSOCKSCLIENT_EVENT_ERROR_CLOSED s"
| "socks_event_handler env p (SK_sent n) s = do {
     k \<leftarrow> tn_socks s p;
     d \<leftarrow> sk_sending k;
     let h = tn_hist s p;
     client_socks_send_handler_done (te_close env) p n
       (put_hist p (h\<lparr>h_to_socks := h_to_socks h @ take n d\<rparr>) (put_socks p (k\<lparr>sk_sending := None\<rparr>) s)) }"
| "socks_event_handler env p (SK_recv bs) s = do {
     k \<leftarrow> tn_socks s p;
     c \<leftarrow> tn_clients s p;
     let h = tn_hist s p;
     client_socks_recv_handler_done env p (length bs)
       (put_client p (c\<lparr>tc_socks_recv_buf := write_at 0 bs (tc_socks_recv_buf c)\<rparr>)
         (put_hist p (h\<lparr>h_from_socks := h_from_socks h @ bs\<rparr>) (put_socks p (k\<lparr>sk_recving := False\<rparr>) s))) }"

text \<open>\<open>SYNC_COMMIT\<close>: the events that the reactor dispatches before the callback returns.\<close>

type_synonym sync_events = "(ptr \<times> tc_env \<times> socks_event) list"

fun SYNC_COMMIT :: "sync_events \<Rightarrow> tun \<Rightarrow> tun option" where
  "SYNC_COMMIT [] s = Some s"
| "SYNC_COMMIT ((p, env, ev) # evs) s =
     (if socks_enabled s p ev then do { s1 \<leftarrow> socks_event_handler env p ev s; SYNC_COMMIT evs s1 } else SYNC_COMMIT evs s)"

section \<open>The callbacks of lwIP\<close>

definition callback_result :: "int \<Rightarrow> err_t" where
  "callback_result dead = (if dead > 0 then ERR_ABRT else ERR_OK)"

text \<open>\<open>p\<close> is the data of the pbuf, or \<open>None\<close> for the null pointer that announces the end of the stream.\<close>

definition client_recv_func :: "tc_env \<Rightarrow> ptr \<Rightarrow> bytes option \<Rightarrow> sync_events \<Rightarrow> tun \<Rightarrow> (err_t \<times> tun) option" where
  "client_recv_func env arg p evs s = do {
     c0 \<leftarrow> tn_clients s arg;
     _ \<leftarrow> ASSERT (\<not> tc_client_closed c0);
     (prev, s1) \<leftarrow> DEAD_ENTER arg s;
     (case p of
        None \<Rightarrow> do {
          s2 \<leftarrow> client_free_client (te_close env) arg s1;
          (dead, s3) \<leftarrow> DEAD_LEAVE2 arg prev s2;
          Some (callback_result dead, s3) }
      | Some data \<Rightarrow> do {
          _ \<leftarrow> ASSERT (data \<noteq> []);
          c \<leftarrow> tn_clients s1 arg;
          if length data > TCP_WND - tc_buf_used c then do {
            (dead, s2) \<leftarrow> DEAD_LEAVE2 arg prev s1;
            Some (ERR_MEM, s2) }
          else do {
            let c1 = c\<lparr>tc_buf := write_at (tc_buf_used c) data (tc_buf c), tc_buf_used := tc_buf_used c + length data\<rparr>;
            let s2 = put_client arg c1 s1;
            s3 \<leftarrow> (if tc_buf_used c1 = length data \<and> tc_socks_up c1 then do {
                     _ \<leftarrow> ASSERT (\<not> tc_socks_closed c1);
                     a \<leftarrow> client_send_to_socks arg s2;
                     SYNC_COMMIT evs a }
                   else Some s2);
            (dead, s4) \<leftarrow> DEAD_LEAVE2 arg prev s3;
            Some (callback_result dead, s4) } }) }"

definition client_sent_func :: "tc_env \<Rightarrow> ptr \<Rightarrow> nat \<Rightarrow> sync_events \<Rightarrow> tun \<Rightarrow> (err_t \<times> tun) option" where
  "client_sent_func env arg len evs s = do {
     c0 \<leftarrow> tn_clients s arg;
     _ \<leftarrow> ASSERT (\<not> tc_client_closed c0 \<and> tc_socks_up c0 \<and> len > 0 \<and> int len \<le> tc_socks_recv_tcp_pending c0);
     (prev, s1) \<leftarrow> DEAD_ENTER arg s;
     c \<leftarrow> tn_clients s1 arg;
     let c1 = c\<lparr>tc_socks_recv_tcp_pending := tc_socks_recv_tcp_pending c - int len\<rparr>;
     s3 \<leftarrow> (if tc_socks_recv_buf_used c1 > 0 then do {
              _ \<leftarrow> ASSERT (tc_socks_recv_waiting c1 \<and> tc_socks_recv_buf_sent c1 < tc_socks_recv_buf_used c1);
              (res, s2) \<leftarrow> client_socks_recv_send_out env arg (put_client arg (c1\<lparr>tc_socks_recv_waiting := False\<rparr>) s1);
              if res < 0 then Some s2
              else do {
                c2 \<leftarrow> tn_clients s2 arg;
                _ \<leftarrow> ASSERT (tc_socks_recv_tcp_pending c2 > 0);
                if tc_socks_recv_buf_used c2 = -1 \<and> \<not> tc_socks_closed c2 then do {
                  a \<leftarrow> client_socks_recv_initiate arg s2;
                  SYNC_COMMIT evs a }
                else Some s2 } }
            else if tc_socks_closed c1 \<and> tc_socks_recv_tcp_pending c1 = 0 then client_free_client (te_close env) arg (put_client arg c1 s1)
            else Some (put_client arg c1 s1));
     (dead, s4) \<leftarrow> DEAD_LEAVE2 arg prev s3;
     Some (callback_result dead, s4) }"

definition baddr_from_lwip :: "BIPAddr \<Rightarrow> u16 \<Rightarrow> BAddr" where
  "baddr_from_lwip ip port = (case ip of BIPAddr_IPv6 a \<Rightarrow> BAddr_IPv6 a (hton16 port) | BIPAddr_IPv4 a \<Rightarrow> BAddr_IPv4 a (hton16 port)
     | BIPAddr_None \<Rightarrow> BAddr_None)"

text \<open>
  The memory returned by \<open>malloc\<close> holds an arbitrary \<open>tcp_client\<close>; \<open>concat\<close> and \<open>init\<close> say whether
  \<open>concat_strings\<close> and \<open>BSocksClient_Init\<close> succeed. The SOCKS client is given the global
  \<open>socks_auth_info\<close>, whose username is redirected to the string of the client that connects.
\<close>

definition listener_accept_func ::
  "(ptr \<times> tcp_client) option \<Rightarrow> bool \<Rightarrow> bool \<Rightarrow> pcb_id \<Rightarrow> err_t \<Rightarrow> BIPAddr \<times> u16 \<Rightarrow> BIPAddr \<times> u16 \<Rightarrow> sync_events \<Rightarrow> tun \<Rightarrow> (err_t \<times> tun) option" where
  "listener_accept_func malloc concat_ok init_ok newpcb err local remote evs s = ASSERT (err = ERR_OK) \<bind> (\<lambda>_.
     case malloc of
        None \<Rightarrow> Some (ERR_MEM, s)
      | Some (p, mem) \<Rightarrow>
          if tn_append_source s \<and> \<not> concat_ok then Some (ERR_MEM, s)
          else do {
            let s1 = (if tn_append_source s then s\<lparr>tn_auth_user := User_client p\<rparr> else s);
            if \<not> init_ok then Some (ERR_MEM, s1)
            else do {
              let c = mem\<lparr>tc_socks_username := tn_append_source s,
                          tc_local_addr := baddr_from_lwip (fst local) (snd local),
                          tc_remote_addr := baddr_from_lwip (fst remote) (snd remote),
                          tc_aborted := False, tc_dead_aborted := None, tc_pcb := newpcb, tc_client_closed := False,
                          tc_buf_used := 0, tc_socks_up := False, tc_socks_closed := False\<rparr>;
              _ \<leftarrow> ASSERT (0 \<le> tn_num_clients s1);
              let s2 = put_client p c (put_socks p \<lparr>sk_up = False, sk_sending = None, sk_recving = False\<rparr>
                        (put_hist p \<lparr>h_from_tcp = [], h_to_socks = [], h_from_socks = [], h_to_tcp = [], h_abort = False\<rparr>
                          (s1\<lparr>tn_tcp_clients := tn_tcp_clients s1 @ [p], tn_num_clients := tn_num_clients s1 + 1\<rparr>)));
              x \<leftarrow> tn_pcbs s2 newpcb;
              s3 \<leftarrow> tcp_err newpcb True (put_pcb newpcb (x\<lparr>pb_arg := p\<rparr>) s2);
              s4 \<leftarrow> tcp_recv newpcb True s3;
              (prev, s5) \<leftarrow> DEAD_ENTER p s4;
              s6 \<leftarrow> SYNC_COMMIT evs s5;
              (dead, s7) \<leftarrow> DEAD_LEAVE2 p prev s6;
              Some (callback_result dead, s7) } })"

lemma client_murder_list: "client_murder p s = Some s' \<Longrightarrow> tn_tcp_clients s' = remove1 p (tn_tcp_clients s)"
  by (auto simp: client_murder_def client_dealloc_def client_abort_pcb_def DEAD_KILL_WITH_def remove_callbacks_def tcp_call_defs socks_Free_def
      put_defs Let_def split: if_splits option.splits)

text \<open>The loop at the end of \<open>main\<close> that frees the clients, always the first one of the list.\<close>

function free_clients :: "tun \<Rightarrow> tun option" where
  "free_clients s = (case tn_tcp_clients s of [] \<Rightarrow> Some s | p # _ \<Rightarrow> do { s1 \<leftarrow> client_murder p s; free_clients s1 })"
  by pat_completeness auto

termination
  by (relation "measure (\<lambda>s. length (tn_tcp_clients s))") (auto dest!: client_murder_list)

declare free_clients.simps [simp del]

section \<open>The events of the program\<close>

text \<open>
  What lwIP and the SOCKS clients may do in a state. lwIP creates a pcb and offers it to the
  listener, gives the pcb up if that fails, and calls the callbacks that are set: the error callback
  after it has freed the pcb, the receive callback with at most as many bytes as the window allows,
  the sent callback with at most as many bytes as were written and not reported yet.
\<close>

datatype tun_event =
  EV_accept "(ptr \<times> tcp_client) option" bool bool pcb_id "BIPAddr \<times> u16" "BIPAddr \<times> u16" sync_events
| EV_err pcb_id tc_env
| EV_recv pcb_id tc_env "bytes option" sync_events
| EV_sent pcb_id tc_env nat sync_events
| EV_socks ptr tc_env socks_event

fun tun_enabled :: "tun \<Rightarrow> tun_event \<Rightarrow> bool" where
  "tun_enabled s (EV_accept malloc _ _ newpcb _ _ _) \<longleftrightarrow> tn_pcbs s newpcb = None \<and>
     (\<forall>p mem. malloc = Some (p, mem) \<longrightarrow> tn_clients s p = None \<and> length (tc_buf mem) = TCP_WND \<and> length (tc_socks_recv_buf mem) = CLIENT_SOCKS_RECV_BUF_SIZE)"
| "tun_enabled s (EV_err b _) \<longleftrightarrow> (\<exists>x. tn_pcbs s b = Some x \<and> pb_err x)"
| "tun_enabled s (EV_recv b _ p _) \<longleftrightarrow> (\<exists>x. tn_pcbs s b = Some x \<and> pb_recv x \<and> (\<forall>data. p = Some data \<longrightarrow> data \<noteq> [] \<and> length data \<le> pb_wnd x))"
| "tun_enabled s (EV_sent b _ len _) \<longleftrightarrow> (\<exists>x. tn_pcbs s b = Some x \<and> pb_sent x \<and> 0 < len \<and> int len \<le> pb_pending x)"
| "tun_enabled s (EV_socks p _ ev) \<longleftrightarrow> socks_enabled s p ev"

text \<open>The result is that of the callback, \<open>ERR_OK\<close> for those without result.\<close>

fun tun_event_handler :: "tun_event \<Rightarrow> tun \<Rightarrow> (err_t \<times> tun) option" where
  "tun_event_handler (EV_accept malloc concat_ok init_ok newpcb local remote evs) s = do {
     (r, s1) \<leftarrow> listener_accept_func malloc concat_ok init_ok newpcb ERR_OK local remote evs
       (put_pcb newpcb \<lparr>pb_arg = 0, pb_err = False, pb_recv = False, pb_sent = False, pb_wnd = TCP_WND, pb_pending = 0\<rparr> s);
     Some (r, if r = ERR_OK \<or> r = ERR_ABRT then s1 else s1\<lparr>tn_pcbs := (tn_pcbs s1)(newpcb := None)\<rparr>) }"
| "tun_event_handler (EV_err b env) s = do {
     x \<leftarrow> tn_pcbs s b;
     s1 \<leftarrow> client_err_func (te_close env) (pb_arg x) (s\<lparr>tn_pcbs := (tn_pcbs s)(b := None)\<rparr>);
     Some (ERR_OK, s1) }"
| "tun_event_handler (EV_recv b env p evs) s = do {
     x \<leftarrow> tn_pcbs s b;
     let data = (case p of None \<Rightarrow> [] | Some d \<Rightarrow> d);
     let h = tn_hist s (pb_arg x);
     client_recv_func env (pb_arg x) p evs
       (put_hist (pb_arg x) (h\<lparr>h_from_tcp := h_from_tcp h @ data\<rparr>) (put_pcb b (x\<lparr>pb_wnd := pb_wnd x - length data\<rparr>) s)) }"
| "tun_event_handler (EV_sent b env len evs) s = do {
     x \<leftarrow> tn_pcbs s b;
     client_sent_func env (pb_arg x) len evs (put_pcb b (x\<lparr>pb_pending := pb_pending x - int len\<rparr>) s) }"
| "tun_event_handler (EV_socks p env ev) s = do { s1 \<leftarrow> socks_event_handler env p ev s; Some (ERR_OK, s1) }"

definition tun_initial :: "bool \<Rightarrow> tun" where
  "tun_initial append_source = \<lparr>tn_clients = Map.empty, tn_tcp_clients = [], tn_num_clients = 0, tn_auth_user = User_options,
     tn_append_source = append_source, tn_frames = [], tn_pcbs = Map.empty, tn_socks = Map.empty,
     tn_hist = (\<lambda>_. \<lparr>h_from_tcp = [], h_to_socks = [], h_from_socks = [], h_to_tcp = [], h_abort = False\<rparr>)\<rparr>"

inductive tun_reach :: "tun \<Rightarrow> bool" where
  tun_start: "tun_reach (tun_initial app)"
| tun_more: "tun_reach s \<Longrightarrow> tun_enabled s ev \<Longrightarrow> tun_event_handler ev s = Some (r, s') \<Longrightarrow> tun_reach s'"

end
