(* ===== verification/TcpClientInv.thy ===== *)
theory TcpClientInv
  imports TcpClient "HOL-Library.Sublist"
begin

text \<open>
  The invariant of the TCP clients of tun2socks and its preservation by every event, and the
  properties that follow: no handler violates an assertion or touches freed memory, the bytes of
  both directions are passed on in order and completely, and the callbacks report an abort to lwIP
  exactly when there was one.
\<close>

section \<open>The part of the state a handler works on\<close>

text \<open>
  A handler for client \<open>p\<close> with pcb \<open>b\<close> changes the client, its pcb, its SOCKS client, its history,
  and the variables of the running callbacks; a deallocated client also leaves the list.
\<close>

definition upd :: "ptr \<Rightarrow> pcb_id \<Rightarrow> tcp_client option \<Rightarrow> tcp_pcb option \<Rightarrow> socks_conn option \<Rightarrow> tc_hist \<Rightarrow> int list \<Rightarrow> tun \<Rightarrow> tun" where
  "upd p b oc ox kk h fr s = s\<lparr>tn_clients := (tn_clients s)(p := oc), tn_pcbs := (tn_pcbs s)(b := ox),
     tn_socks := (tn_socks s)(p := kk), tn_hist := (tn_hist s)(p := h), tn_frames := fr,
     tn_tcp_clients := (case oc of None \<Rightarrow> remove1 p (tn_tcp_clients s) | Some _ \<Rightarrow> tn_tcp_clients s),
     tn_num_clients := (case oc of None \<Rightarrow> tn_num_clients s - 1 | Some _ \<Rightarrow> tn_num_clients s)\<rparr>"

lemma upd_self: "tn_clients s p = Some c \<Longrightarrow> s = upd p b (Some c) (tn_pcbs s b) (tn_socks s p) (tn_hist s p) (tn_frames s) s"
  by (simp add: upd_def fun_upd_idem)

named_theorems upd_simps \<open>the calls of the handlers on a focused state\<close>

lemma upd_reads [upd_simps]:
  "tn_clients (upd p b oc ox kk h fr s) p = oc" "tn_pcbs (upd p b oc ox kk h fr s) b = ox"
  "tn_socks (upd p b oc ox kk h fr s) p = kk" "tn_hist (upd p b oc ox kk h fr s) p = h" "tn_frames (upd p b oc ox kk h fr s) = fr"
  "tn_num_clients (upd p b (Some c) ox kk h fr s) = tn_num_clients s"
  by (simp_all add: upd_def)

lemma upd_puts [upd_simps]:
  "put_client p c' (upd p b (Some c) ox kk h fr s) = upd p b (Some c') ox kk h fr s"
  "put_pcb b x (upd p b oc ox kk h fr s) = upd p b oc (Some x) kk h fr s"
  "put_socks p k (upd p b oc ox kk h fr s) = upd p b oc ox (Some k) h fr s"
  "put_hist p h' (upd p b oc ox kk h fr s) = upd p b oc ox kk h' fr s"
  by (simp_all add: upd_def put_defs)

lemma upd_drops [upd_simps]:
  "(upd p b oc ox kk h fr s)\<lparr>tn_pcbs := (tn_pcbs (upd p b oc ox kk h fr s))(b := None)\<rparr> = upd p b oc None kk h fr s"
  "(upd p b oc ox kk h fr s)\<lparr>tn_socks := (tn_socks (upd p b oc ox kk h fr s))(p := None)\<rparr> = upd p b oc ox None h fr s"
  "(upd p b oc ox kk h fr s)\<lparr>tn_frames := fr'\<rparr> = upd p b oc ox kk h fr' s"
  by (simp_all add: upd_def)

lemma upd_tcp [upd_simps]:
  "tcp_err b on (upd p b oc (Some x) kk h fr s) = Some (upd p b oc (Some (x\<lparr>pb_err := on\<rparr>)) kk h fr s)"
  "tcp_recv b on (upd p b oc (Some x) kk h fr s) = Some (upd p b oc (Some (x\<lparr>pb_recv := on\<rparr>)) kk h fr s)"
  "tcp_sent b on (upd p b oc (Some x) kk h fr s) = Some (upd p b oc (Some (x\<lparr>pb_sent := on\<rparr>)) kk h fr s)"
  "remove_callbacks b (upd p b oc (Some x) kk h fr s) =
     Some (upd p b oc (Some (x\<lparr>pb_err := False, pb_recv := False, pb_sent := False\<rparr>)) kk h fr s)"
  "tcp_recved b n (upd p b oc (Some x) kk h fr s) =
     (if pb_wnd x + n \<le> TCP_WND then Some (upd p b oc (Some (x\<lparr>pb_wnd := pb_wnd x + n\<rparr>)) kk h fr s) else None)"
  by (simp_all add: tcp_call_defs remove_callbacks_def upd_simps)

lemma upd_tcp_close [upd_simps]:
  "\<not> pb_err x \<Longrightarrow> \<not> pb_recv x \<Longrightarrow> \<not> pb_sent x \<Longrightarrow>
    tcp_close e b (upd p b oc (Some x) kk h fr s) = Some (e, upd p b oc (if e = ERR_OK then None else Some x) kk h fr s)"
  by (simp add: tcp_call_defs upd_simps)

lemma upd_tcp_abort [upd_simps]:
  "\<not> pb_err x \<Longrightarrow> \<not> pb_recv x \<Longrightarrow> \<not> pb_sent x \<Longrightarrow> pb_arg x = p \<Longrightarrow>
    tcp_abort b (upd p b oc (Some x) kk h fr s) = Some (upd p b oc None kk (h\<lparr>h_abort := True\<rparr>) fr s)"
  by (simp add: tcp_call_defs upd_simps)

lemma upd_tcp_write [upd_simps]:
  "pb_arg x = p \<Longrightarrow> tcp_write b data (upd p b oc (Some x) kk h fr s) =
     Some (upd p b oc (Some (x\<lparr>pb_pending := pb_pending x + int (length data)\<rparr>)) kk (h\<lparr>h_to_tcp := h_to_tcp h @ data\<rparr>) fr s)"
  by (simp add: tcp_call_defs upd_simps)

lemma upd_socks [upd_simps]:
  "socks_Free p (upd p b oc ox (Some k) h fr s) = Some (upd p b oc ox None h fr s)"
  "socks_Send p data (upd p b oc ox (Some k) h fr s) =
     (if sk_up k \<and> sk_sending k = None \<and> data \<noteq> [] then Some (upd p b oc ox (Some (k\<lparr>sk_sending := Some data\<rparr>)) h fr s) else None)"
  "socks_Recv p (upd p b oc ox (Some k) h fr s) =
     (if sk_up k \<and> \<not> sk_recving k then Some (upd p b oc ox (Some (k\<lparr>sk_recving := True\<rparr>)) h fr s) else None)"
  by (simp_all add: socks_Free_def socks_Send_def socks_Recv_def upd_simps)

text \<open>The effect of \<open>DEAD_KILL_WITH\<close> on the variables of the running callbacks, where it is defined.\<close>

definition killed :: "nat option \<Rightarrow> int \<Rightarrow> int list \<Rightarrow> int list" where
  "killed d v fr = (case d of None \<Rightarrow> fr | Some i \<Rightarrow> fr[i := v])"

definition dead_live :: "nat option \<Rightarrow> int list \<Rightarrow> bool" where
  "dead_live d fr \<longleftrightarrow> (case d of None \<Rightarrow> True | Some i \<Rightarrow> i < length fr)"

lemma upd_kill [upd_simps]:
  "DEAD_KILL_WITH d v (upd p b oc ox kk h fr s) = (if dead_live d fr then Some (upd p b oc ox kk h (killed d v fr) s) else None)"
  by (simp add: DEAD_KILL_WITH_def killed_def dead_live_def upd_simps split: option.splits)

lemma upd_dealloc [upd_simps]:
  "tc_client_closed c \<Longrightarrow> tc_socks_closed c \<Longrightarrow> 0 < tn_num_clients s \<Longrightarrow> \<not> tc_aborted c \<longrightarrow> dead_live (tc_dead_aborted c) fr \<Longrightarrow>
    client_dealloc p (upd p b (Some c) ox kk h fr s) =
      Some (upd p b None ox kk h (if tc_aborted c then fr else killed (tc_dead_aborted c) (-1) fr) s)"
  by (auto simp: client_dealloc_def DEAD_KILL_WITH_def upd_def killed_def dead_live_def split: option.splits)

lemma upd_abort_pcb [upd_simps]:
  "\<not> pb_err x \<Longrightarrow> \<not> pb_recv x \<Longrightarrow> \<not> pb_sent x \<Longrightarrow> pb_arg x = p \<Longrightarrow> \<not> tc_aborted c \<Longrightarrow> tc_pcb c = b \<Longrightarrow> dead_live (tc_dead_aborted c) fr \<Longrightarrow>
    client_abort_pcb p (upd p b (Some c) (Some x) kk h fr s) =
      Some (upd p b (Some (c\<lparr>tc_aborted := True\<rparr>)) None kk (h\<lparr>h_abort := True\<rparr>) (killed (tc_dead_aborted c) 1 fr) s)"
  by (simp add: client_abort_pcb_def upd_simps)

section \<open>The invariant of a client\<close>

definition hist_ok :: "tc_hist \<Rightarrow> bool" where
  "hist_ok h \<longleftrightarrow> prefix (h_to_socks h) (h_from_tcp h) \<and> prefix (h_to_tcp h) (h_from_socks h)"

text \<open>
  Towards SOCKS: while the SOCKS client exists, it is sending when there is buffered data, a prefix
  of it, and the buffered data is what lwIP delivered and SOCKS has not taken yet.
\<close>

definition up_ok :: "tcp_client \<Rightarrow> socks_conn \<Rightarrow> tc_hist \<Rightarrow> bool" where
  "up_ok c k h \<longleftrightarrow> sk_up k = tc_socks_up c \<and>
     (if tc_socks_up c \<and> tc_buf_used c > 0 then \<exists>d. sk_sending k = Some d \<and> d \<noteq> [] \<and> prefix d (take (tc_buf_used c) (tc_buf c))
      else sk_sending k = None) \<and>
     (sk_recving k \<longrightarrow> tc_socks_up c \<and> tc_socks_recv_buf_used c = -1) \<and>
     h_from_tcp h = h_to_socks h @ take (tc_buf_used c) (tc_buf c)"

definition base_ok :: "ptr \<Rightarrow> tcp_client \<Rightarrow> tcp_pcb option \<Rightarrow> socks_conn option \<Rightarrow> tc_hist \<Rightarrow> bool" where
  "base_ok p c ox kk h \<longleftrightarrow> length (tc_buf c) = TCP_WND \<and> length (tc_socks_recv_buf c) = CLIENT_SOCKS_RECV_BUF_SIZE \<and> tc_buf_used c \<le> TCP_WND \<and>
     (\<not> tc_client_closed c \<longrightarrow> (\<exists>x. ox = Some x \<and> pb_arg x = p)) \<and>
     (case kk of None \<Rightarrow> tc_socks_closed c | Some k \<Rightarrow> \<not> tc_socks_closed c \<and> up_ok c k h) \<and>
     hist_ok h \<and> h_abort h = tc_aborted c \<and> (tc_aborted c \<longrightarrow> tc_client_closed c)"

text \<open>Received from SOCKS and not yet written to the pcb.\<close>

definition unsent :: "tcp_client \<Rightarrow> bytes" where
  "unsent c = (if tc_socks_up c \<and> tc_socks_recv_buf_used c \<noteq> -1 then
     window (nat (tc_socks_recv_buf_sent c)) (nat (tc_socks_recv_buf_used c - tc_socks_recv_buf_sent c)) (tc_socks_recv_buf c) else [])"

text \<open>
  Towards the device, while the pcb is open: the callbacks that are set are the ones that may be
  called, the window and the bytes not reported yet agree with the pcb, and either the buffer is
  empty and a receive is in progress, or the client waits for lwIP to report sent data, of which
  there is some.
\<close>

definition flow_ok :: "tcp_client \<Rightarrow> tcp_pcb \<Rightarrow> socks_conn option \<Rightarrow> tc_hist \<Rightarrow> bool" where
  "flow_ok c x kk h \<longleftrightarrow> pb_err x \<and> pb_recv x = (\<not> tc_socks_closed c) \<and> pb_sent x = tc_socks_up c \<and>
     (\<not> tc_socks_closed c \<longrightarrow> pb_wnd x + tc_buf_used c = TCP_WND) \<and>
     pb_pending x = (if tc_socks_up c then tc_socks_recv_tcp_pending c else 0) \<and>
     (tc_socks_up c \<longrightarrow> tc_socks_recv_tcp_pending c \<ge> 0 \<and>
        (tc_socks_recv_buf_used c = -1 \<or>
         0 < tc_socks_recv_buf_used c \<and> tc_socks_recv_buf_used c \<le> int CLIENT_SOCKS_RECV_BUF_SIZE \<and>
         0 \<le> tc_socks_recv_buf_sent c \<and> tc_socks_recv_buf_sent c < tc_socks_recv_buf_used c \<and>
         tc_socks_recv_waiting c \<and> tc_socks_recv_tcp_pending c > 0)) \<and>
     (\<forall>k. kk = Some k \<and> tc_socks_up c \<and> tc_socks_recv_buf_used c = -1 \<longrightarrow> sk_recving k) \<and>
     (tc_socks_closed c \<longrightarrow> tc_socks_up c \<and> (tc_socks_recv_buf_used c > 0 \<or> tc_socks_recv_tcp_pending c > 0)) \<and>
     h_from_socks h = h_to_tcp h @ unsent c"

definition client_ok :: "ptr \<Rightarrow> tcp_client \<Rightarrow> tcp_pcb option \<Rightarrow> socks_conn option \<Rightarrow> tc_hist \<Rightarrow> bool" where
  "client_ok p c ox kk h \<longleftrightarrow> base_ok p c ox kk h \<and>
     (if tc_client_closed c then \<not> tc_socks_closed c \<and> tc_buf_used c > 0 else flow_ok c (the ox) kk h)"

text \<open>
  The variables of the running callbacks, when the callback of client \<open>p0\<close> runs (\<open>act = Some p0\<close>) or
  none: the dead variable of a client that was not aborted points to the variable of its own callback
  or nowhere, and that variable tells whether the client was aborted or freed.
\<close>

definition fr_ok :: "ptr option \<Rightarrow> ptr \<Rightarrow> tcp_client option \<Rightarrow> tc_hist \<Rightarrow> int list \<Rightarrow> bool" where
  "fr_ok act p oc h fr \<longleftrightarrow> (if act = Some p
     then (case oc of Some c \<Rightarrow> if tc_aborted c then fr = [1] else fr = [0] \<and> tc_dead_aborted c = Some 0
           | None \<Rightarrow> fr = [if h_abort h then 1 else -1])
     else (case oc of Some c \<Rightarrow> \<not> tc_aborted c \<longrightarrow> tc_dead_aborted c = None | None \<Rightarrow> True))"

definition settled :: "ptr option \<Rightarrow> ptr \<Rightarrow> pcb_id \<Rightarrow> tcp_pcb option \<Rightarrow> tcp_client option \<Rightarrow> tcp_pcb option \<Rightarrow> socks_conn option \<Rightarrow> tc_hist \<Rightarrow> int list \<Rightarrow> bool" where
  "settled act p b rest oc ox kk h fr \<longleftrightarrow> hist_ok h \<and> fr_ok act p oc h fr \<and>
     (case oc of None \<Rightarrow> kk = None \<and> ox = rest
      | Some c \<Rightarrow> tc_pcb c = b \<and> client_ok p c ox kk h \<and> (if tc_client_closed c then ox = rest else rest = None))"

text \<open>
  The outcome of a handler for client \<open>p\<close>: defined, and with the invariant of that client. \<open>rest\<close> is
  what there is at \<open>b\<close> when the client has no pcb.
\<close>

definition outcome :: "ptr option \<Rightarrow> ptr \<Rightarrow> pcb_id \<Rightarrow> tcp_pcb option \<Rightarrow> int list \<Rightarrow> tun \<Rightarrow> tun option \<Rightarrow> bool" where
  "outcome act p b rest fr s r \<longleftrightarrow> (\<exists>oc ox kk h fr'. r = Some (upd p b oc ox kk h fr' s) \<and>
     settled act p b rest oc ox kk h fr' \<and> (act \<noteq> Some p \<longrightarrow> fr' = fr))"

lemma outcomeI:
  "settled act p b rest oc ox kk h fr' \<Longrightarrow> (act \<noteq> Some p \<Longrightarrow> fr' = fr) \<Longrightarrow> outcome act p b rest fr s (Some (upd p b oc ox kk h fr' s))"
  unfolding outcome_def by blast

lemma outcome_Some: "outcome act p b rest fr s r \<Longrightarrow> \<exists>s'. r = Some s' \<and> outcome act p b rest fr s (Some s')"
  by (cases r) (simp_all add: outcome_def)

lemma fr_ok_live: "fr_ok act p (Some c) h fr \<Longrightarrow> \<not> tc_aborted c \<Longrightarrow> dead_live (tc_dead_aborted c) fr"
  by (auto simp: fr_ok_def dead_live_def split: if_splits)

lemma fr_ok_dealloc:
  assumes "fr_ok act p (Some c) h fr" "h_abort h = tc_aborted c"
  shows "fr_ok act p None h (if tc_aborted c then fr else killed (tc_dead_aborted c) (-1) fr)"
    and "act \<noteq> Some p \<Longrightarrow> (if tc_aborted c then fr else killed (tc_dead_aborted c) (-1) fr) = fr"
  using assms by (auto simp: fr_ok_def killed_def split: if_splits)

lemma fr_ok_abort:
  assumes "fr_ok act p (Some c) h fr" "\<not> tc_aborted c"
  shows "fr_ok act p (Some (c\<lparr>tc_aborted := True\<rparr>)) h' (killed (tc_dead_aborted c) 1 fr)"
    and "act \<noteq> Some p \<Longrightarrow> killed (tc_dead_aborted c) 1 fr = fr"
  using assms by (auto simp: fr_ok_def killed_def split: if_splits)

lemma fr_ok_cong: "fr_ok act p (Some c) h fr \<Longrightarrow> tc_aborted c' = tc_aborted c \<Longrightarrow> tc_dead_aborted c' = tc_dead_aborted c \<Longrightarrow> fr_ok act p (Some c') h' fr"
  by (auto simp: fr_ok_def split: if_splits)

section \<open>Closing\<close>

lemma dealloc_outcome:
  assumes "tc_client_closed c" "tc_socks_closed c" "0 < tn_num_clients s" "fr_ok act p (Some c) h fr" "hist_ok h" "h_abort h = tc_aborted c"
  shows "outcome act p b rest fr s (client_dealloc p (upd p b (Some c) rest None h fr s))"
proof -
  have "client_dealloc p (upd p b (Some c) rest None h fr s) =
      Some (upd p b None rest None h (if tc_aborted c then fr else killed (tc_dead_aborted c) (-1) fr) s)"
    using assms(1-3) fr_ok_live [OF assms(4)] by (simp add: upd_dealloc)
  then show ?thesis using assms(5) fr_ok_dealloc [OF assms(4,6)] by (simp add: outcomeI settled_def)
qed

text \<open>The pcb is gone: the client ends unless there is data that SOCKS can still take.\<close>

lemma handle_freed_outcome:
  assumes c: "\<not> tc_client_closed c" "tc_pcb c = b" and ok: "base_ok p (c\<lparr>tc_client_closed := True\<rparr>) None kk h"
    and fr: "fr_ok act p (Some c) h fr" and num: "0 < tn_num_clients s"
  shows "outcome act p b None fr s (client_handle_freed_client e p (upd p b (Some c) None kk h fr s))"
proof -
  let ?c = "c\<lparr>tc_client_closed := True\<rparr>"
  have fr': "fr_ok act p (Some ?c) h fr" "fr_ok act p (Some (?c\<lparr>tc_socks_closed := True\<rparr>)) h fr" using fr_ok_cong [OF fr] by simp_all
  have h: "hist_ok h" "h_abort h = tc_aborted c" using ok by (simp_all add: base_ok_def)
  show ?thesis
  proof (cases "tc_socks_closed c")
    case True
    then have "kk = None" using ok by (auto simp: base_ok_def split: option.splits)
    then show ?thesis using True c num h fr' dealloc_outcome [of ?c s act p h fr b None]
      by (simp add: client_handle_freed_client.simps upd_simps)
  next
    case False
    then obtain k where k: "kk = Some k" using ok by (auto simp: base_ok_def split: option.splits)
    show ?thesis
    proof (cases "tc_buf_used c > 0")
      case True
      then show ?thesis using False c ok fr' h
        by (simp add: client_handle_freed_client.simps upd_simps) (rule outcomeI; simp add: settled_def client_ok_def)
    next
      case nobuf: False
      have "outcome act p b None fr s (client_dealloc p (upd p b (Some (?c\<lparr>tc_socks_closed := True\<rparr>)) None None h fr s))"
        by (rule dealloc_outcome) (use num h fr' in simp_all)
      then show ?thesis using False nobuf c k
        by (simp add: client_handle_freed_client.simps client_free_socks.simps upd_simps)
    qed
  qed
qed

lemma base_ok_close: "base_ok p c ox kk h \<Longrightarrow> base_ok p (c\<lparr>tc_client_closed := True\<rparr>) ox' kk h"
  by (auto simp: base_ok_def up_ok_def split: option.splits)

lemma base_ok_abort: "base_ok p c ox kk h \<Longrightarrow> base_ok p (c\<lparr>tc_aborted := True, tc_client_closed := True\<rparr>) ox' kk (h\<lparr>h_abort := True\<rparr>)"
  by (auto simp: base_ok_def up_ok_def hist_ok_def split: option.splits)

lemma base_ok_socks_closed: "base_ok p c ox kk h \<Longrightarrow> base_ok p (c\<lparr>tc_socks_closed := True\<rparr>) ox None h"
  by (auto simp: base_ok_def up_ok_def split: option.splits)

lemma base_ok_open: "base_ok p c (Some x) kk h \<Longrightarrow> \<not> tc_client_closed c \<Longrightarrow> pb_arg x = p \<and> \<not> tc_aborted c"
  by (auto simp: base_ok_def)

lemma abort_freed_outcome:
  assumes c: "\<not> tc_client_closed c" "tc_pcb c = b" and ok: "base_ok p c (Some x) kk h"
    and fr: "fr_ok act p (Some c) h fr" and num: "0 < tn_num_clients s"
  shows "outcome act p b None fr s (client_handle_freed_client e p
    (upd p b (Some (c\<lparr>tc_aborted := True\<rparr>)) None kk (h\<lparr>h_abort := True\<rparr>) (killed (tc_dead_aborted c) 1 fr) s))"
proof -
  have a: "\<not> tc_aborted c" using base_ok_open [OF ok c(1)] by simp
  have "outcome act p b None (killed (tc_dead_aborted c) 1 fr) s (client_handle_freed_client e p
    (upd p b (Some (c\<lparr>tc_aborted := True\<rparr>)) None kk (h\<lparr>h_abort := True\<rparr>) (killed (tc_dead_aborted c) 1 fr) s))"
    by (rule handle_freed_outcome) (use c num base_ok_abort [OF ok] fr_ok_abort [OF fr a] in simp_all)
  then show ?thesis using fr_ok_abort(2) [OF fr a] by (auto simp: outcome_def)
qed

lemma free_client_outcome:
  assumes c: "\<not> tc_client_closed c" "tc_pcb c = b" and ok: "base_ok p c (Some x) kk h"
    and fr: "fr_ok act p (Some c) h fr" and num: "0 < tn_num_clients s"
  shows "outcome act p b None fr s (client_free_client e p (upd p b (Some c) (Some x) kk h fr s))"
proof (cases "e = ERR_OK")
  case True
  have "outcome act p b None fr s (client_handle_freed_client e p (upd p b (Some c) None kk h fr s))"
    by (rule handle_freed_outcome [OF c base_ok_close [OF ok] fr num])
  then show ?thesis using True c by (simp add: client_free_client.simps upd_simps)
next
  case False
  then show ?thesis using c abort_freed_outcome [OF assms, of e] base_ok_open [OF ok c(1)] fr_ok_live [OF fr]
    by (simp add: client_free_client.simps upd_simps)
qed

lemma abort_client_outcome:
  assumes c: "\<not> tc_client_closed c" "tc_pcb c = b" and ok: "base_ok p c (Some x) kk h"
    and fr: "fr_ok act p (Some c) h fr" and num: "0 < tn_num_clients s"
  shows "outcome act p b None fr s (client_abort_client e p (upd p b (Some c) (Some x) kk h fr s))"
  using c abort_freed_outcome [OF assms, of e] base_ok_open [OF ok c(1)] fr_ok_live [OF fr]
  by (simp add: client_abort_client_def upd_simps)

text \<open>SOCKS is gone: the client ends unless the device can still take data.\<close>

lemma free_socks_closed_outcome:
  assumes "tc_client_closed c" "base_ok p c rest (Some k) h" "fr_ok act p (Some c) h fr" "0 < tn_num_clients s"
  shows "outcome act p b rest fr s (client_free_socks e p (upd p b (Some c) rest (Some k) h fr s))"
proof -
  have h: "hist_ok h" "h_abort h = tc_aborted c" "\<not> tc_socks_closed c" using assms(2) by (simp_all add: base_ok_def)
  have "outcome act p b rest fr s (client_dealloc p (upd p b (Some (c\<lparr>tc_socks_closed := True\<rparr>)) rest None h fr s))"
    by (rule dealloc_outcome) (use assms h fr_ok_cong [OF assms(3)] in simp_all)
  then show ?thesis using assms(1) h by (simp add: client_free_socks.simps upd_simps)
qed

lemma free_socks_open_outcome:
  assumes c: "\<not> tc_client_closed c" "tc_pcb c = b" and ok: "client_ok p c (Some x) (Some k) h"
    and fr: "fr_ok act p (Some c) h fr" and num: "0 < tn_num_clients s"
  shows "outcome act p b None fr s (client_free_socks e p (upd p b (Some c) (Some x) (Some k) h fr s))"
proof -
  let ?c = "c\<lparr>tc_socks_closed := True\<rparr>" and ?x = "if tc_socks_up c then x\<lparr>pb_recv := False\<rparr> else x"
  have b: "base_ok p c (Some x) (Some k) h" and f: "flow_ok c x (Some k) h" using ok c by (simp_all add: client_ok_def)
  have b': "base_ok p ?c (Some ?x) None h" using base_ok_socks_closed [OF b] by (simp add: base_ok_def)
  have fr': "fr_ok act p (Some ?c) h fr" using fr_ok_cong [OF fr] by simp
  have sc: "\<not> tc_socks_closed c" "hist_ok h" using b by (simp_all add: base_ok_def)
  show ?thesis
  proof (cases "tc_socks_up c \<and> (tc_socks_recv_buf_used c \<ge> 0 \<or> tc_socks_recv_tcp_pending c > 0)")
    case True
    then have "flow_ok ?c ?x None h" using f c by (auto simp: flow_ok_def unsent_def)
    then have "settled act p b None (Some ?c) (Some ?x) None h fr" using b' fr' c sc by (simp add: settled_def client_ok_def)
    then have "outcome act p b None fr s (Some (upd p b (Some ?c) (Some ?x) None h fr s))" by (simp add: outcomeI)
    then show ?thesis using True c sc by (simp add: client_free_socks.simps upd_simps)
  next
    case False
    have "outcome act p b None fr s (client_free_client e p (upd p b (Some ?c) (Some ?x) None h fr s))"
      by (rule free_client_outcome) (use c b' fr' num in simp_all)
    then show ?thesis using False c sc by (auto simp: client_free_socks.simps upd_simps)
  qed
qed

section \<open>Events of the SOCKS side\<close>

text \<open>\<open>rest_of c ox\<close> is what remains at the address of the pcb when the client has none.\<close>

definition rest_of :: "tcp_client \<Rightarrow> tcp_pcb option \<Rightarrow> tcp_pcb option" where
  "rest_of c ox = (if tc_client_closed c then ox else None)"

lemma client_ok_open: "client_ok p c ox kk h \<Longrightarrow> \<not> tc_client_closed c \<Longrightarrow> \<exists>x. ox = Some x \<and> pb_arg x = p \<and> base_ok p c (Some x) kk h \<and> flow_ok c x kk h"
  by (auto simp: client_ok_def base_ok_def)

lemma free_socks_outcome:
  assumes "client_ok p c ox (Some k) h" "tc_pcb c = b" "fr_ok act p (Some c) h fr" "0 < tn_num_clients s"
  shows "outcome act p b (rest_of c ox) fr s (client_free_socks e p (upd p b (Some c) ox (Some k) h fr s))"
proof (cases "tc_client_closed c")
  case True
  then show ?thesis using free_socks_closed_outcome [OF True _ assms(3,4)] assms(1) by (simp add: client_ok_def rest_of_def)
next
  case False
  then show ?thesis using client_ok_open [OF assms(1) False] free_socks_open_outcome [OF False assms(2) _ assms(3,4)] assms(1)
    by (auto simp: rest_of_def)
qed

lemma socks_up_outcome:
  assumes ok: "client_ok p c ox (Some k) h" and c: "tc_pcb c = b" "\<not> sk_up k" and fr: "fr_ok act p (Some c) h fr" and num: "0 < tn_num_clients s"
  shows "outcome act p b (rest_of c ox) fr s (client_socks_handler e p BSOCKSCLIENT_EVENT_UP (upd p b (Some c) ox (Some (k\<lparr>sk_up := True\<rparr>)) h fr s))"
proof -
  let ?c = "c\<lparr>tc_socks_recv_buf_used := -1, tc_socks_recv_tcp_pending := 0, tc_socks_up := True\<rparr>"
  let ?k = "k\<lparr>sk_up := True, sk_sending := if tc_buf_used c > 0 then Some (take (tc_buf_used c) (tc_buf c)) else None, sk_recving := \<not> tc_client_closed c\<rparr>"
  have base: "base_ok p c ox (Some k) h" using ok by (simp add: client_ok_def)
  have k: "\<not> tc_socks_closed c" "\<not> tc_socks_up c" "sk_sending k = None" "\<not> sk_recving k" "hist_ok h" "tc_buf_used c \<le> length (tc_buf c)"
    using base c by (auto simp: base_ok_def up_ok_def)
  have keq: "k = \<lparr>sk_up = False, sk_sending = None, sk_recving = False\<rparr>" using k c by (cases k) simp
  have data: "take (tc_buf_used c) (tc_buf c) \<noteq> []" if "0 < tc_buf_used c" using k(6) that by (cases "tc_buf c") auto
  have base': "base_ok p ?c ox' (Some ?k) h" if "\<not> tc_client_closed c \<longrightarrow> (\<exists>x. ox' = Some x \<and> pb_arg x = p)" for ox'
    using base that k by (auto simp: base_ok_def up_ok_def)
  have fr': "fr_ok act p (Some ?c) h fr" using fr_ok_cong [OF fr] by simp
  show ?thesis
  proof (cases "tc_client_closed c")
    case True
    then have "settled act p b ox (Some ?c) ox (Some ?k) h fr" using base' ok k fr' c by (simp add: settled_def client_ok_def)
    then have "outcome act p b ox fr s (Some (upd p b (Some ?c) ox (Some ?k) h fr s))" by (simp add: outcomeI)
    moreover have "tc_buf_used c > 0" using ok True by (simp add: client_ok_def)
    ultimately show ?thesis using True k data keq by (simp add: client_socks_handler_def client_send_to_socks_def upd_simps rest_of_def)
  next
    case False
    then obtain x where x: "ox = Some x" "pb_arg x = p" "flow_ok c x (Some k) h" using client_ok_open [OF ok] by blast
    let ?x = "x\<lparr>pb_sent := True\<rparr>"
    have "flow_ok ?c ?x (Some ?k) h" using x(3) k False by (simp add: flow_ok_def unsent_def)
    then have "settled act p b None (Some ?c) (Some ?x) (Some ?k) h fr" using base' x k fr' c False by (simp add: settled_def client_ok_def)
    then have "outcome act p b None fr s (Some (upd p b (Some ?c) (Some ?x) (Some ?k) h fr s))" by (simp add: outcomeI)
    then show ?thesis using False k data x c keq
      by (cases "tc_buf_used c > 0")
        (auto simp: client_socks_handler_def client_send_to_socks_def client_socks_recv_initiate_def upd_simps rest_of_def Let_def)
  qed
qed

lemma memmove_front:
  assumes "n \<le> used" "used \<le> length xs"
  shows "take (used - n) (write_at 0 (window n (used - n) xs) xs) = drop n (take used xs)"
    and "length (write_at 0 (window n (used - n) xs) xs) = length xs"
  using assms by (simp_all add: write_at_def window_def drop_take min_def)

lemma socks_sent_outcome:
  assumes ok: "client_ok p c ox (Some k) h" and c: "tc_pcb c = b" "sk_sending k = Some d" "0 < n" "n \<le> length d"
    and fr: "fr_ok act p (Some c) h fr" and num: "0 < tn_num_clients s"
  shows "outcome act p b (rest_of c ox) fr s (client_socks_send_handler_done e p n
    (upd p b (Some c) ox (Some (k\<lparr>sk_sending := None\<rparr>)) (h\<lparr>h_to_socks := h_to_socks h @ take n d\<rparr>) fr s))"
proof -
  let ?u = "tc_buf_used c"
  define buf where "buf = write_at 0 (window n (?u - n) (tc_buf c)) (tc_buf c)"
  let ?c = "c\<lparr>tc_buf := buf, tc_buf_used := ?u - n\<rparr>"
  let ?k = "k\<lparr>sk_sending := if ?u - n > 0 then Some (take (?u - n) buf) else None\<rparr>"
  let ?h = "h\<lparr>h_to_socks := h_to_socks h @ take n d\<rparr>"
  have base: "base_ok p c ox (Some k) h" using ok by (simp add: client_ok_def)
  have d: "prefix d (take ?u (tc_buf c))" "tc_socks_up c" "sk_up k" "0 < ?u" and sc: "\<not> tc_socks_closed c" and len: "?u \<le> TCP_WND" "length (tc_buf c) = TCP_WND"
    and hh: "h_from_tcp h = h_to_socks h @ take ?u (tc_buf c)"
    using base c(2) by (auto simp: base_ok_def up_ok_def split: if_splits)
  have n: "n \<le> ?u" using c(4) prefix_length_le [OF d(1)] len by simp
  have td: "take n d = take n (take ?u (tc_buf c))" using d(1) c(4) by (auto simp: prefix_def simp del: take_take)
  have buf: "length buf = TCP_WND" "take (?u - n) buf = drop n (take ?u (tc_buf c))"
    using memmove_front [of n ?u "tc_buf c"] n len by (simp_all add: buf_def)
  have inp: "h_from_tcp h = (h_to_socks h @ take n d) @ take (?u - n) buf" by (simp only: buf(2) hh td append_assoc append_take_drop_id)
  have data: "take (?u - n) buf \<noteq> []" if "n < ?u" using that len buf by simp
  have base': "base_ok p ?c ox' (Some ?k) ?h" if "\<not> tc_client_closed c \<longrightarrow> (\<exists>x. ox' = Some x \<and> pb_arg x = p)" for ox'
  proof -
    have "up_ok ?c ?k ?h" using base d(2) inp data by (simp add: base_ok_def up_ok_def)
    moreover have "hist_ok ?h" using base inp by (auto simp: base_ok_def hist_ok_def)
    ultimately show ?thesis using base that buf(1) by (auto simp: base_ok_def)
  qed
  have fr': "fr_ok act p (Some ?c) ?h fr" using fr_ok_cong [OF fr] by simp
  have ho: "hist_ok ?h" using base' [of "Some \<lparr>pb_arg = p, pb_err = True, pb_recv = True, pb_sent = True, pb_wnd = 0, pb_pending = 0\<rparr>"] by (simp add: base_ok_def)
  show ?thesis
  proof (cases "tc_client_closed c")
    case True
    show ?thesis
    proof (cases "n = ?u")
      case all: True
      have "outcome act p b ox fr s (client_free_socks e p (upd p b (Some ?c) ox (Some ?k) ?h fr s))"
        by (rule free_socks_closed_outcome) (use True base' fr' num in simp_all)
      then show ?thesis using True all d(2-4) sc c by (simp add: client_socks_send_handler_done_def upd_simps rest_of_def buf_def)
    next
      case False
      then have "settled act p b ox (Some ?c) ox (Some ?k) ?h fr" using n True base' ok fr' ho c by (simp add: settled_def client_ok_def)
      then have "outcome act p b ox fr s (Some (upd p b (Some ?c) ox (Some ?k) ?h fr s))" by (simp add: outcomeI)
      then show ?thesis using True False n d(2-4) sc c data by (simp add: client_socks_send_handler_done_def upd_simps rest_of_def buf_def)
    qed
  next
    case False
    then obtain x where x: "ox = Some x" "pb_arg x = p" "flow_ok c x (Some k) h" using client_ok_open [OF ok] by blast
    let ?x = "x\<lparr>pb_wnd := pb_wnd x + n\<rparr>"
    have w: "pb_wnd x + n \<le> TCP_WND" using x(3) sc n by (simp add: flow_ok_def)
    have "flow_ok ?c ?x (Some ?k) ?h" using x(3) sc n by (auto simp: flow_ok_def unsent_def)
    then have "settled act p b None (Some ?c) (Some ?x) (Some ?k) ?h fr" using base' x fr' ho c False by (simp add: settled_def client_ok_def)
    then have "outcome act p b None fr s (Some (upd p b (Some ?c) (Some ?x) (Some ?k) ?h fr s))" by (simp add: outcomeI)
    then show ?thesis using False n d(2-4) sc c data x w
      by (cases "n < ?u") (simp_all add: client_socks_send_handler_done_def upd_simps rest_of_def Let_def buf_def)
  qed
qed

text \<open>The state of a client while \<open>client_socks_recv_send_out\<close> writes its buffer to the pcb.\<close>

definition writing_ok :: "ptr \<Rightarrow> tcp_client \<Rightarrow> tcp_pcb \<Rightarrow> socks_conn option \<Rightarrow> tc_hist \<Rightarrow> bool" where
  "writing_ok p c x kk h \<longleftrightarrow> base_ok p c (Some x) kk h \<and> \<not> tc_client_closed c \<and> tc_socks_up c \<and>
     pb_err x \<and> pb_recv x = (\<not> tc_socks_closed c) \<and> pb_sent x \<and> (\<not> tc_socks_closed c \<longrightarrow> pb_wnd x + tc_buf_used c = TCP_WND) \<and>
     pb_pending x = tc_socks_recv_tcp_pending c \<and> tc_socks_recv_tcp_pending c \<ge> 0 \<and>
     0 < tc_socks_recv_buf_used c \<and> tc_socks_recv_buf_used c \<le> int CLIENT_SOCKS_RECV_BUF_SIZE \<and>
     0 \<le> tc_socks_recv_buf_sent c \<and> tc_socks_recv_buf_sent c \<le> tc_socks_recv_buf_used c \<and>
     h_from_socks h = h_to_tcp h @ unsent c"

lemma window_cut: "i + m \<le> length xs \<Longrightarrow> n \<le> m \<Longrightarrow> window i m xs = window i n xs @ window (i + n) (m - n) xs"
  using window_append [of i n xs "m - n"] by simp

text \<open>One round writes a prefix of the unsent data.\<close>

lemma write_round:
  assumes ok: "writing_ok p c x kk h" and w: "0 < w" "w \<le> tc_socks_recv_buf_used c - tc_socks_recv_buf_sent c"
  shows "writing_ok p (c\<lparr>tc_socks_recv_buf_sent := tc_socks_recv_buf_sent c + w, tc_socks_recv_tcp_pending := tc_socks_recv_tcp_pending c + w\<rparr>)
    (x\<lparr>pb_pending := pb_pending x + int (length (window (nat (tc_socks_recv_buf_sent c)) (nat w) (tc_socks_recv_buf c)))\<rparr>) kk
    (h\<lparr>h_to_tcp := h_to_tcp h @ window (nat (tc_socks_recv_buf_sent c)) (nat w) (tc_socks_recv_buf c)\<rparr>)"
proof -
  let ?sent = "tc_socks_recv_buf_sent c" and ?used = "tc_socks_recv_buf_used c" and ?rb = "tc_socks_recv_buf c"
  have r: "0 \<le> ?sent" "?sent \<le> ?used" "?used \<le> int (length ?rb)" "tc_socks_up c" "0 < ?used"
    using ok by (auto simp: writing_ok_def base_ok_def)
  have len: "length (window (nat ?sent) (nat w) ?rb) = nat w" using r w by simp
  have "window (nat ?sent) (nat (?used - ?sent)) ?rb = window (nat ?sent) (nat w) ?rb @ window (nat (?sent + w)) (nat (?used - (?sent + w))) ?rb"
    using window_cut [of "nat ?sent" "nat (?used - ?sent)" ?rb "nat w"] r w by (simp add: nat_add_distrib nat_diff_distrib')
  then have split: "unsent c = window (nat ?sent) (nat w) ?rb @ unsent (c\<lparr>tc_socks_recv_buf_sent := ?sent + w, tc_socks_recv_tcp_pending := tc_socks_recv_tcp_pending c + w\<rparr>)"
    using r by (simp add: unsent_def)
  have b: "base_ok p (c\<lparr>tc_socks_recv_buf_sent := ?sent + w, tc_socks_recv_tcp_pending := tc_socks_recv_tcp_pending c + w\<rparr>)
      (Some (x\<lparr>pb_pending := pb_pending x + int (length (window (nat ?sent) (nat w) ?rb))\<rparr>)) kk
      (h\<lparr>h_to_tcp := h_to_tcp h @ window (nat ?sent) (nat w) ?rb\<rparr>)"
    using ok split by (auto simp: writing_ok_def base_ok_def up_ok_def hist_ok_def split: option.splits)
  show ?thesis using ok w len split b unfolding writing_ok_def by simp
qed

lemma send_out_loop_ok:
  assumes "writing_ok p c x kk h" "tc_pcb c = b" "tc_socks_recv_buf_sent c < tc_socks_recv_buf_used c"
  shows "\<exists>failed c' x' h'. send_out_loop env p i (upd p b (Some c) (Some x) kk h fr s) = Some (failed, upd p b (Some c') (Some x') kk h' fr s) \<and>
    writing_ok p c' x' kk h' \<and> tc_pcb c' = b \<and> tc_aborted c' = tc_aborted c \<and> tc_dead_aborted c' = tc_dead_aborted c \<and>
    tc_socks_closed c' = tc_socks_closed c \<and>
    (tc_socks_recv_buf_sent c' = tc_socks_recv_buf_used c' \<longrightarrow> tc_socks_recv_tcp_pending c' > 0)"
  using assms
proof (induction "nat (tc_socks_recv_buf_used c - tc_socks_recv_buf_sent c)" arbitrary: c x h i rule: less_induct)
  case less
  let ?w = "min (tc_socks_recv_buf_used c - tc_socks_recv_buf_sent c) (int (te_sndbuf env i))"
  let ?rd = "window (nat (tc_socks_recv_buf_sent c)) (nat ?w) (tc_socks_recv_buf c)"
  let ?c = "c\<lparr>tc_socks_recv_buf_sent := tc_socks_recv_buf_sent c + ?w, tc_socks_recv_tcp_pending := tc_socks_recv_tcp_pending c + ?w\<rparr>"
  let ?x = "x\<lparr>pb_pending := pb_pending x + int (length ?rd)\<rparr>" and ?h = "h\<lparr>h_to_tcp := h_to_tcp h @ ?rd\<rparr>"
  have arg: "pb_arg x = p" using less.prems(1) by (auto simp: writing_ok_def base_ok_def)
  note loop = send_out_loop.simps [of env p i "upd p b (Some c) (Some x) kk h fr s"]
  show ?case
  proof (cases "?w = 0 \<or> te_write env i \<noteq> ERR_OK")
    case True
    then have "send_out_loop env p i (upd p b (Some c) (Some x) kk h fr s) =
        Some (?w \<noteq> 0 \<and> te_write env i \<noteq> ERR_MEM, upd p b (Some c) (Some x) kk h fr s)" (is "_ = Some (?f, _)")
      by (subst loop) (auto simp: upd_simps Let_def)
    then show ?thesis using less.prems by (intro exI [of _ ?f] exI [of _ c] exI [of _ x] exI [of _ h]) simp
  next
    case False
    then have w: "0 < ?w" "?w \<le> tc_socks_recv_buf_used c - tc_socks_recv_buf_sent c" using less.prems(3) by auto
    have ok: "writing_ok p ?c ?x kk ?h" by (rule write_round [OF less.prems(1) w])
    obtain c1 x1 h1 where n: "writing_ok p c1 x1 kk h1" "tc_pcb c1 = b" "tc_aborted c1 = tc_aborted c" "tc_dead_aborted c1 = tc_dead_aborted c"
        "tc_socks_closed c1 = tc_socks_closed c" "tc_socks_recv_tcp_pending c1 > 0"
      and m: "tc_socks_recv_buf_used c1 = tc_socks_recv_buf_used c" "tc_socks_recv_buf_sent c1 > tc_socks_recv_buf_sent c"
      and eq: "send_out_loop env p i (upd p b (Some c) (Some x) kk h fr s) =
        (if tc_socks_recv_buf_sent c1 < tc_socks_recv_buf_used c1
         then send_out_loop env p (i + 1) (upd p b (Some c1) (Some x1) kk h1 fr s) else Some (False, upd p b (Some c1) (Some x1) kk h1 fr s))"
    proof (rule that [of ?c ?x ?h])
      show "send_out_loop env p i (upd p b (Some c) (Some x) kk h fr s) =
        (if tc_socks_recv_buf_sent ?c < tc_socks_recv_buf_used ?c
         then send_out_loop env p (i + 1) (upd p b (Some ?c) (Some ?x) kk ?h fr s) else Some (False, upd p b (Some ?c) (Some ?x) kk ?h fr s))"
        using False arg less.prems(2) by (subst loop) (simp add: upd_simps Let_def)
      have "0 \<le> tc_socks_recv_tcp_pending c" using less.prems(1) by (simp add: writing_ok_def)
      then have "tc_socks_recv_tcp_pending c + ?w > 0" using w(1) by linarith
      then show "tc_socks_recv_tcp_pending ?c > 0" by simp
    qed (use ok w less.prems(2) in simp_all)
    show ?thesis
    proof (cases "tc_socks_recv_buf_sent c1 < tc_socks_recv_buf_used c1")
      case True
      have "nat (tc_socks_recv_buf_used c1 - tc_socks_recv_buf_sent c1) < nat (tc_socks_recv_buf_used c - tc_socks_recv_buf_sent c)"
        using m True by simp
      from less.hyps [OF this n(1,2) True, of "i + 1"] show ?thesis using True eq n by simp
    next
      case done1: False
      then show ?thesis using eq n
        by (intro exI [of _ False] exI [of _ c1] exI [of _ x1] exI [of _ h1]) simp
    qed
  qed
qed

text \<open>
  After the writing: either the client is gone or closing, or some data is on its way to the device
  and the rest, if any, waits. If the buffer is empty then, the next receive has to be started.
\<close>

definition queued_ok :: "ptr \<Rightarrow> tcp_client \<Rightarrow> tcp_pcb \<Rightarrow> socks_conn option \<Rightarrow> tc_hist \<Rightarrow> bool" where
  "queued_ok p c x kk h \<longleftrightarrow> base_ok p c (Some x) kk h \<and> \<not> tc_client_closed c \<and> tc_socks_up c \<and> tc_socks_recv_tcp_pending c > 0 \<and>
     (tc_socks_recv_buf_used c = -1 \<and> (\<forall>k. kk = Some k \<longrightarrow> \<not> sk_recving k) \<and> (\<forall>k. kk = Some k \<longrightarrow> flow_ok c x (Some (k\<lparr>sk_recving := True\<rparr>)) h) \<and>
        (kk = None \<longrightarrow> flow_ok c x None h) \<or>
      tc_socks_recv_buf_used c > 0 \<and> flow_ok c x kk h)"

lemma recv_send_out_outcome:
  assumes ok: "writing_ok p c x kk h" and c: "tc_pcb c = b" "tc_socks_recv_buf_sent c < tc_socks_recv_buf_used c" "\<not> tc_socks_recv_waiting c"
    and fr: "fr_ok act p (Some c) h fr" and num: "0 < tn_num_clients s"
  shows "(\<exists>s'. client_socks_recv_send_out env p (upd p b (Some c) (Some x) kk h fr s) = Some (-1, s') \<and> outcome act p b None fr s (Some s')) \<or>
    (\<exists>c' x' h'. client_socks_recv_send_out env p (upd p b (Some c) (Some x) kk h fr s) = Some (0, upd p b (Some c') (Some x') kk h' fr s) \<and>
       queued_ok p c' x' kk h' \<and> tc_pcb c' = b \<and> tc_socks_closed c' = tc_socks_closed c \<and> fr_ok act p (Some c') h' fr)"
proof -
  obtain failed c1 x1 h1 where loop: "send_out_loop env p 0 (upd p b (Some c) (Some x) kk h fr s) = Some (failed, upd p b (Some c1) (Some x1) kk h1 fr s)"
    and ok1: "writing_ok p c1 x1 kk h1" and c1: "tc_pcb c1 = b" "tc_aborted c1 = tc_aborted c" "tc_dead_aborted c1 = tc_dead_aborted c"
      "tc_socks_closed c1 = tc_socks_closed c" and pend: "tc_socks_recv_buf_sent c1 = tc_socks_recv_buf_used c1 \<longrightarrow> tc_socks_recv_tcp_pending c1 > 0"
    using send_out_loop_ok [OF ok c(1,2), of env 0 fr s] by metis
  have fr1: "fr_ok act p (Some c1) h1 fr" using fr_ok_cong [OF fr c1(2,3)] .
  have b1: "base_ok p c1 (Some x1) kk h1" "\<not> tc_client_closed c1" using ok1 by (simp_all add: writing_ok_def)
  obtain s2 where ab: "client_abort_client (te_close env) p (upd p b (Some c1) (Some x1) kk h1 fr s) = Some s2" "outcome act p b None fr s (Some s2)"
    using outcome_Some [OF abort_client_outcome [OF b1(2) c1(1) b1(1) fr1 num, of "te_close env"]] by blast
  have guard: "\<not> tc_client_closed c" "tc_socks_up c" "0 < tc_socks_recv_buf_used c" using ok by (simp_all add: writing_ok_def)
  have run: "client_socks_recv_send_out env p (upd p b (Some c) (Some x) kk h fr s) =
      (if failed \<or> te_output env \<noteq> ERR_OK \<or> tc_socks_recv_buf_sent c1 < tc_socks_recv_buf_used c1 \<and> tc_socks_recv_tcp_pending c1 = 0 then Some (-1, s2)
       else Some (0, upd p b (Some (if tc_socks_recv_buf_sent c1 < tc_socks_recv_buf_used c1 then c1\<lparr>tc_socks_recv_waiting := True\<rparr>
              else c1\<lparr>tc_socks_recv_buf_used := -1\<rparr>)) (Some x1) kk h1 fr s))"
    using guard c loop ab by (auto simp: client_socks_recv_send_out_def upd_simps)
  show ?thesis
  proof (cases "failed \<or> te_output env \<noteq> ERR_OK \<or> tc_socks_recv_buf_sent c1 < tc_socks_recv_buf_used c1 \<and> tc_socks_recv_tcp_pending c1 = 0")
    case True
    then show ?thesis using run ab by simp
  next
    case False
    define c2 where "c2 = (if tc_socks_recv_buf_sent c1 < tc_socks_recv_buf_used c1 then c1\<lparr>tc_socks_recv_waiting := True\<rparr>
              else c1\<lparr>tc_socks_recv_buf_used := -1\<rparr>)"
    have "tc_socks_recv_tcp_pending c1 > 0" using False pend ok1 by (auto simp: writing_ok_def)
    moreover have rk: "\<not> sk_recving k" if "kk = Some k" for k using that ok1 by (auto simp: writing_ok_def base_ok_def up_ok_def)
    moreover have "unsent (c1\<lparr>tc_socks_recv_waiting := True\<rparr>) = unsent c1" by (simp add: unsent_def)
    moreover have "unsent c1 = []" if "\<not> tc_socks_recv_buf_sent c1 < tc_socks_recv_buf_used c1" using that by (simp add: unsent_def)
    moreover have "unsent (c1\<lparr>tc_socks_recv_buf_used := -1\<rparr>) = []" by (simp add: unsent_def)
    moreover have "base_ok p c2 (Some x1) kk h1" using b1(1) rk by (auto simp: c2_def base_ok_def up_ok_def split: option.splits)
    ultimately have q: "queued_ok p c2 x1 kk h1" using ok1 unfolding writing_ok_def queued_ok_def flow_ok_def c2_def by auto
    have "tc_pcb c2 = b" "tc_socks_closed c2 = tc_socks_closed c" "fr_ok act p (Some c2) h1 fr" using c1 fr_ok_cong [OF fr1] by (simp_all add: c2_def)
    then show ?thesis using q run False by (simp flip: c2_def) blast
  qed
qed

lemma queued_settled:
  assumes "queued_ok p c x kk h" "tc_pcb c = b" "fr_ok act p (Some c) h fr" "kk = None \<or> tc_socks_recv_buf_used c \<noteq> -1"
  shows "settled act p b None (Some c) (Some x) kk h fr"
  using assms by (auto simp: queued_ok_def settled_def client_ok_def base_ok_def)

lemma queued_initiate:
  assumes q: "queued_ok p c x (Some k) h" and c: "tc_pcb c = b" "tc_socks_recv_buf_used c = -1" and fr: "fr_ok act p (Some c) h fr"
  shows "client_socks_recv_initiate p (upd p b (Some c) (Some x) (Some k) h fr s) = Some (upd p b (Some c) (Some x) (Some (k\<lparr>sk_recving := True\<rparr>)) h fr s)"
    and "settled act p b None (Some c) (Some x) (Some (k\<lparr>sk_recving := True\<rparr>)) h fr"
proof -
  have b: "base_ok p c (Some x) (Some k) h" "\<not> tc_client_closed c" "tc_socks_up c" and k: "\<not> sk_recving k" "flow_ok c x (Some (k\<lparr>sk_recving := True\<rparr>)) h"
    using q c by (auto simp: queued_ok_def)
  then have "base_ok p c (Some x) (Some (k\<lparr>sk_recving := True\<rparr>)) h" using c by (simp add: base_ok_def up_ok_def)
  then show "settled act p b None (Some c) (Some x) (Some (k\<lparr>sk_recving := True\<rparr>)) h fr"
    using b k c fr by (simp add: settled_def client_ok_def base_ok_def)
  show "client_socks_recv_initiate p (upd p b (Some c) (Some x) (Some k) h fr s) = Some (upd p b (Some c) (Some x) (Some (k\<lparr>sk_recving := True\<rparr>)) h fr s)"
    using b k c by (simp add: client_socks_recv_initiate_def upd_simps base_ok_def up_ok_def)
qed

lemma window_write_front: "length bs \<le> length xs \<Longrightarrow> window 0 (length bs) (write_at 0 bs xs) = bs"
  by (simp add: window_def write_at_def)

lemma socks_recv_outcome:
  assumes ok: "client_ok p c ox (Some k) h" and c: "tc_pcb c = b" "sk_recving k" "bs \<noteq> []" "length bs \<le> CLIENT_SOCKS_RECV_BUF_SIZE"
    and fr: "fr_ok act p (Some c) h fr" and num: "0 < tn_num_clients s"
  shows "outcome act p b (rest_of c ox) fr s (client_socks_recv_handler_done env p (length bs)
    (upd p b (Some (c\<lparr>tc_socks_recv_buf := write_at 0 bs (tc_socks_recv_buf c)\<rparr>)) ox (Some (k\<lparr>sk_recving := False\<rparr>))
      (h\<lparr>h_from_socks := h_from_socks h @ bs\<rparr>) fr s))"
proof -
  define rb where "rb = write_at 0 bs (tc_socks_recv_buf c)"
  let ?k = "k\<lparr>sk_recving := False\<rparr>" and ?h = "h\<lparr>h_from_socks := h_from_socks h @ bs\<rparr>"
  have base: "base_ok p c ox (Some k) h" using ok by (simp add: client_ok_def)
  have k: "\<not> tc_socks_closed c" "tc_socks_up c" "tc_socks_recv_buf_used c = -1" "length (tc_socks_recv_buf c) = CLIENT_SOCKS_RECV_BUF_SIZE"
    using base c by (auto simp: base_ok_def up_ok_def)
  have rb: "length rb = CLIENT_SOCKS_RECV_BUF_SIZE" "window 0 (length bs) rb = bs"
    using k(4) c(4) window_write_front [of bs "tc_socks_recv_buf c"] by (simp_all add: rb_def write_at_def)
  have h': "hist_ok ?h" using base by (auto simp: base_ok_def hist_ok_def)
  show ?thesis
  proof (cases "tc_client_closed c")
    case True
    let ?c = "c\<lparr>tc_socks_recv_buf := rb\<rparr>"
    have "base_ok p ?c ox (Some ?k) ?h" using base True rb h' by (auto simp: base_ok_def up_ok_def)
    then have "settled act p b ox (Some ?c) ox (Some ?k) ?h fr"
      using ok True c(1) h' fr_ok_cong [OF fr] by (simp add: settled_def client_ok_def)
    then have "outcome act p b ox fr s (Some (upd p b (Some ?c) ox (Some ?k) ?h fr s))" by (simp add: outcomeI)
    then show ?thesis using True c k by (simp add: client_socks_recv_handler_done_def upd_simps rest_of_def rb_def)
  next
    case False
    let ?c = "c\<lparr>tc_socks_recv_buf := rb, tc_socks_recv_buf_used := int (length bs), tc_socks_recv_buf_sent := 0, tc_socks_recv_waiting := False\<rparr>"
    obtain x where x: "ox = Some x" "pb_arg x = p" "flow_ok c x (Some k) h" using client_ok_open [OF ok False] by blast
    have un: "unsent ?c = bs" "unsent c = []" using k rb c(3) by (simp_all add: unsent_def)
    have w: "writing_ok p ?c x (Some ?k) ?h"
      using base x c k un rb h' False by (auto simp: writing_ok_def base_ok_def up_ok_def flow_ok_def)
    have fr': "fr_ok act p (Some ?c) ?h fr" using fr_ok_cong [OF fr] by simp
    let ?s = "upd p b (Some ?c) (Some x) (Some ?k) ?h fr s"
    have run: "client_socks_recv_handler_done env p (length bs) (upd p b (Some (c\<lparr>tc_socks_recv_buf := rb\<rparr>)) ox (Some ?k) ?h fr s) =
        do { (res, s2) \<leftarrow> client_socks_recv_send_out env p ?s;
          if res < 0 then Some s2
          else do { c1 \<leftarrow> tn_clients s2 p; if tc_socks_recv_buf_used c1 = -1 then client_socks_recv_initiate p s2 else Some s2 } }"
      using False c k x by (simp add: client_socks_recv_handler_done_def upd_simps)
    have "(\<exists>s'. client_socks_recv_send_out env p ?s = Some (-1, s') \<and> outcome act p b None fr s (Some s')) \<or>
      (\<exists>c' x' h'. client_socks_recv_send_out env p ?s = Some (0, upd p b (Some c') (Some x') (Some ?k) h' fr s) \<and>
         queued_ok p c' x' (Some ?k) h' \<and> tc_pcb c' = b \<and> tc_socks_closed c' = tc_socks_closed ?c \<and> fr_ok act p (Some c') h' fr)"
      by (rule recv_send_out_outcome [OF w]) (use c fr' num in simp_all)
    then have "outcome act p b None fr s (client_socks_recv_handler_done env p (length bs) (upd p b (Some (c\<lparr>tc_socks_recv_buf := rb\<rparr>)) ox (Some ?k) ?h fr s))"
    proof (elim disjE exE conjE)
      fix s' assume "client_socks_recv_send_out env p ?s = Some (-1, s')" "outcome act p b None fr s (Some s')"
      then show ?thesis unfolding run by simp
    next
      fix c' x' h' assume e: "client_socks_recv_send_out env p ?s = Some (0, upd p b (Some c') (Some x') (Some ?k) h' fr s)"
        and q: "queued_ok p c' x' (Some ?k) h'" "tc_pcb c' = b" "fr_ok act p (Some c') h' fr"
      show ?thesis unfolding run
        using e queued_initiate(1) [OF q(1,2) _ q(3), of s] queued_initiate(2) [OF q(1,2) _ q(3)] queued_settled [OF q]
        by (cases "tc_socks_recv_buf_used c' = -1") (simp_all add: upd_simps outcomeI)
    qed
    then show ?thesis using False by (simp add: rest_of_def rb_def)
  qed
qed

section \<open>The invariant of the program\<close>

definition tun_inv :: "ptr option \<Rightarrow> tun \<Rightarrow> bool" where
  "tun_inv act s \<longleftrightarrow> distinct (tn_tcp_clients s) \<and> set (tn_tcp_clients s) = dom (tn_clients s) \<and>
     tn_num_clients s = int (length (tn_tcp_clients s)) \<and>
     (\<forall>p c. tn_clients s p = Some c \<longrightarrow> client_ok p c (tn_pcbs s (tc_pcb c)) (tn_socks s p) (tn_hist s p)) \<and>
     (\<forall>p. tn_clients s p = None \<longrightarrow> tn_socks s p = None) \<and> (\<forall>p. hist_ok (tn_hist s p)) \<and>
     (\<forall>b x. tn_pcbs s b = Some x \<longrightarrow> (\<exists>c. tn_clients s (pb_arg x) = Some c \<and> \<not> tc_client_closed c \<and> tc_pcb c = b)) \<and>
     (\<forall>p. fr_ok act p (tn_clients s p) (tn_hist s p) (tn_frames s)) \<and> (act = None \<longrightarrow> tn_frames s = [])"

lemma tun_invD:
  assumes "tun_inv act s" "tn_clients s p = Some c"
  shows "client_ok p c (tn_pcbs s (tc_pcb c)) (tn_socks s p) (tn_hist s p)" "fr_ok act p (Some c) (tn_hist s p) (tn_frames s)" "0 < tn_num_clients s"
proof -
  have "p \<in> set (tn_tcp_clients s)" using assms by (auto simp: tun_inv_def)
  then show "0 < tn_num_clients s" using assms(1) by (auto simp: tun_inv_def intro!: length_pos_if_in_set)
  have "fr_ok act p (tn_clients s p) (tn_hist s p) (tn_frames s)" using assms(1) by (simp add: tun_inv_def)
  then show "fr_ok act p (Some c) (tn_hist s p) (tn_frames s)" using assms(2) by simp
  show "client_ok p c (tn_pcbs s (tc_pcb c)) (tn_socks s p) (tn_hist s p)" using assms by (simp add: tun_inv_def)
qed

lemma tun_inv_fr: "tun_inv act s \<Longrightarrow> fr_ok act p (tn_clients s p) (tn_hist s p) (tn_frames s)"
  unfolding tun_inv_def by blast

lemma tun_inv_pcb:
  assumes "tun_inv act s" "tn_pcbs s b = Some x"
  obtains c where "tn_clients s (pb_arg x) = Some c" "\<not> tc_client_closed c" "tc_pcb c = b"
  using assms unfolding tun_inv_def by meson

lemma client_ok_closed_cong: "tc_client_closed c \<Longrightarrow> client_ok p c ox kk h \<Longrightarrow> client_ok p c ox' kk h"
  by (simp add: client_ok_def base_ok_def)

text \<open>A handler that leaves its own client in order leaves all clients in order.\<close>

lemma tun_inv_upd:
  assumes inv: "tun_inv act0 s" and c: "tn_clients s p = Some c" and b: "b = tc_pcb c"
    and set: "settled act p b (rest_of c (tn_pcbs s b)) oc ox kk h fr"
    and act: "act = act0 \<and> (act \<noteq> Some p \<longrightarrow> fr = tn_frames s) \<or> act0 = None \<and> act = Some p \<or> act0 = Some p \<and> act = None \<and> fr = []"
  shows "tun_inv act (upd p b oc ox kk h fr s)"
proof -
  let ?s = "upd p b oc ox kk h fr s"
  have own: "pb_arg x = q \<and> \<not> tc_client_closed d" if "tn_clients s q = Some d" "\<not> tc_client_closed d" "tn_pcbs s (tc_pcb d) = Some x" for q d x
    using client_ok_open [OF tun_invD(1) [OF inv that(1)] that(2)] that by auto
  have keep: "ox = tn_pcbs s b" if d: "q \<noteq> p" "tn_clients s q = Some d" "\<not> tc_client_closed d" "tc_pcb d = b" for q d
  proof -
    from client_ok_open [OF tun_invD(1) [OF inv d(2)] d(3)] obtain x where x: "tn_pcbs s b = Some x" "pb_arg x = q" using d(4) by auto
    then have "tc_client_closed c" using own [OF c, of x] b d(1) by auto
    then have "rest_of c (tn_pcbs s b) = Some x" using x by (simp add: rest_of_def)
    then show ?thesis using set x by (auto simp: settled_def split: option.splits if_splits)
  qed
  have "distinct (tn_tcp_clients ?s) \<and> set (tn_tcp_clients ?s) = dom (tn_clients ?s) \<and> tn_num_clients ?s = int (length (tn_tcp_clients ?s))"
  proof -
    have l: "distinct (tn_tcp_clients s)" "set (tn_tcp_clients s) = dom (tn_clients s)" "tn_num_clients s = int (length (tn_tcp_clients s))"
      using inv by (simp_all add: tun_inv_def)
    then show ?thesis using c tun_invD(3) [OF inv c] by (cases oc) (auto simp: upd_def length_remove1 of_nat_diff Suc_le_eq)
  qed
  moreover have "client_ok q d (tn_pcbs ?s (tc_pcb d)) (tn_socks ?s q) (tn_hist ?s q)" if "tn_clients ?s q = Some d" for q d
  proof (cases "q = p")
    case True
    then show ?thesis using that set by (auto simp: upd_def settled_def)
  next
    case False
    then have d: "tn_clients s q = Some d" using that by (simp add: upd_def)
    then have "client_ok q d (tn_pcbs s (tc_pcb d)) (tn_socks s q) (tn_hist s q)" by (rule tun_invD(1) [OF inv])
    then show ?thesis using False client_ok_closed_cong [of d q] keep [OF False d] by (cases "tc_client_closed d") (auto simp: upd_def)
  qed
  moreover have "tn_clients ?s q = None \<longrightarrow> tn_socks ?s q = None" for q using inv set by (auto simp: tun_inv_def upd_def settled_def)
  moreover have "hist_ok (tn_hist ?s q)" for q using inv set by (auto simp: tun_inv_def upd_def settled_def)
  moreover have "\<exists>d. tn_clients ?s (pb_arg x) = Some d \<and> \<not> tc_client_closed d \<and> tc_pcb d = b'" if x: "tn_pcbs ?s b' = Some x" for b' x
  proof -
    have old: ?thesis if o: "tn_pcbs s b' = Some x" and ne: "b' \<noteq> b \<or> tc_client_closed c"
    proof -
      obtain d where d: "tn_clients s (pb_arg x) = Some d" "\<not> tc_client_closed d" "tc_pcb d = b'" by (rule tun_inv_pcb [OF inv o])
      then have "pb_arg x \<noteq> p" using c b ne by auto
      then show ?thesis using d by (simp add: upd_def)
    qed
    show ?thesis
    proof (cases "b' = b")
      case False
      then show ?thesis using old x by (simp add: upd_def)
    next
      case True
      then have "ox = Some x" using x by (simp add: upd_def)
      then show ?thesis
        using set True old b by (cases oc) (auto simp: settled_def rest_of_def upd_def client_ok_def base_ok_def split: if_splits)
    qed
  qed
  moreover have "fr_ok act q (tn_clients ?s q) (tn_hist ?s q) (tn_frames ?s)" for q
  proof (cases "q = p")
    case True
    then show ?thesis using set by (simp add: upd_def settled_def)
  next
    case False
    have "fr_ok act0 q (tn_clients s q) (tn_hist s q) (tn_frames s)" using inv by (simp add: tun_inv_def)
    then show ?thesis using False act by (auto simp: upd_def fr_ok_def split: if_splits option.splits)
  qed
  moreover have "act = None \<longrightarrow> tn_frames ?s = []" using act inv by (auto simp: upd_def tun_inv_def)
  ultimately show ?thesis unfolding tun_inv_def by blast
qed

lemma tun_inv_outcome:
  assumes "tun_inv act s" "tn_clients s p = Some c" "outcome act p (tc_pcb c) (rest_of c (tn_pcbs s (tc_pcb c))) (tn_frames s) s r"
  shows "\<exists>s'. r = Some s' \<and> tun_inv act s'"
proof -
  obtain oc ox kk h fr where r: "r = Some (upd p (tc_pcb c) oc ox kk h fr s)"
    and st: "settled act p (tc_pcb c) (rest_of c (tn_pcbs s (tc_pcb c))) oc ox kk h fr" "act \<noteq> Some p \<longrightarrow> fr = tn_frames s"
    using assms(3) unfolding outcome_def by blast
  have "tun_inv act (upd p (tc_pcb c) oc ox kk h fr s)" by (rule tun_inv_upd [OF assms(1,2) refl st(1)]) (use st(2) in simp)
  then show ?thesis using r by simp
qed

lemma socks_event_inv:
  assumes inv: "tun_inv act s" and en: "socks_enabled s p ev"
  shows "\<exists>s'. socks_event_handler env p ev s = Some s' \<and> tun_inv act s'"
proof -
  obtain k where k: "tn_socks s p = Some k" using en by (cases ev) auto
  then obtain c where c: "tn_clients s p = Some c" using inv by (cases "tn_clients s p") (auto simp: tun_inv_def)
  note ok = tun_invD [OF inv c] and self = upd_self [OF c, of "tc_pcb c"]
  let ?b = "tc_pcb c" and ?h = "tn_hist s p"
  define s0 where "s0 = upd p ?b (Some c) (tn_pcbs s ?b) (Some k) ?h (tn_frames s) s"
  have s0: "s = s0" using self k by (simp add: s0_def)
  have up: "sk_up k = tc_socks_up c" "\<not> tc_socks_closed c" using ok(1) k by (auto simp: client_ok_def base_ok_def up_ok_def)
  have "outcome act p ?b (rest_of c (tn_pcbs s ?b)) (tn_frames s) s (socks_event_handler env p ev s0)"
  proof (cases ev)
    case SK_error
    then show ?thesis using free_socks_outcome [OF ok(1) [unfolded k] refl ok(2,3)] up
      by (simp add: s0_def client_socks_handler_def upd_simps)
  next
    case SK_up
    then show ?thesis using socks_up_outcome [OF ok(1) [unfolded k] refl _ ok(2,3)] en k by (simp add: s0_def upd_simps)
  next
    case SK_closed
    then show ?thesis using free_socks_outcome [OF ok(1) [unfolded k] refl ok(2,3)] up en k
      by (simp add: s0_def client_socks_handler_def upd_simps)
  next
    case (SK_sent n)
    then obtain d where "sk_sending k = Some d" "0 < n" "n \<le> length d" using en k by auto
    then show ?thesis using socks_sent_outcome [OF ok(1) [unfolded k] refl _ _ _ ok(2,3)] SK_sent by (simp add: s0_def upd_simps Let_def)
  next
    case (SK_recv bs)
    then show ?thesis using socks_recv_outcome [OF ok(1) [unfolded k] refl _ _ _ ok(2,3)] en k by (simp add: s0_def upd_simps Let_def)
  qed
  then show ?thesis using tun_inv_outcome [OF inv c] s0 by simp
qed

lemma SYNC_COMMIT_inv: "tun_inv act s \<Longrightarrow> \<exists>s'. SYNC_COMMIT evs s = Some s' \<and> tun_inv act s'"
  by (induction evs s rule: SYNC_COMMIT.induct) (use socks_event_inv in fastforce)+

section \<open>Events of lwIP\<close>

lemma DEAD_ENTER_upd:
  "DEAD_ENTER p (upd p b (Some c) ox kk h [] s) = Some (tc_dead_aborted c, upd p b (Some (c\<lparr>tc_dead_aborted := Some 0\<rparr>)) ox kk h [0] s)"
  by (simp add: DEAD_ENTER_def upd_simps)

lemma dead_client_cong:
  "base_ok p (c\<lparr>tc_dead_aborted := d\<rparr>) ox kk h = base_ok p c ox kk h"
  "flow_ok (c\<lparr>tc_dead_aborted := d\<rparr>) x kk h = flow_ok c x kk h"
  "client_ok p (c\<lparr>tc_dead_aborted := d\<rparr>) ox kk h = client_ok p c ox kk h"
proof -
  show b: "base_ok p (c\<lparr>tc_dead_aborted := d\<rparr>) ox kk h = base_ok p c ox kk h" by (cases kk) (simp_all add: base_ok_def up_ok_def)
  show f: "flow_ok (c\<lparr>tc_dead_aborted := d\<rparr>) x kk h = flow_ok c x kk h" for x by (simp add: flow_ok_def unsent_def)
  show "client_ok p (c\<lparr>tc_dead_aborted := d\<rparr>) ox kk h = client_ok p c ox kk h" unfolding client_ok_def b f by simp
qed

text \<open>The end of a callback: the value it returns tells whether the pcb was aborted.\<close>

lemma DEAD_LEAVE2_inv:
  assumes inv: "tun_inv (Some p) s"
  shows "\<exists>dead s'. DEAD_LEAVE2 p None s = Some (dead, s') \<and> tun_inv None s' \<and> (dead > 0 \<longleftrightarrow> h_abort (tn_hist s' p)) \<and> tn_hist s' = tn_hist s"
proof (cases "tn_clients s p")
  case None
  have fr: "tn_frames s = [if h_abort (tn_hist s p) then 1 else -1]" using inv None by (auto simp: tun_inv_def fr_ok_def dest: spec [of _ p])
  have "fr_ok None q (tn_clients s q) (tn_hist s q) []" for q
  proof -
    have "fr_ok (Some p) q (tn_clients s q) (tn_hist s q) (tn_frames s)" using inv by (simp add: tun_inv_def)
    then show ?thesis using None by (auto simp: fr_ok_def split: if_splits option.splits)
  qed
  then have "tun_inv None (s\<lparr>tn_frames := []\<rparr>)" using inv unfolding tun_inv_def by simp
  then show ?thesis using fr by (simp add: DEAD_LEAVE2_def Let_def)
next
  case (Some c)
  note ok = tun_invD [OF inv Some]
  let ?b = "tc_pcb c" let ?c = "if tc_aborted c then c else c\<lparr>tc_dead_aborted := None\<rparr>"
  have st: "settled None p ?b (rest_of c (tn_pcbs s ?b)) (Some ?c) (tn_pcbs s ?b) (tn_socks s p) (tn_hist s p) []"
  proof -
    have "fr_ok None p (Some ?c) (tn_hist s p) []" by (simp add: fr_ok_def)
    moreover have "hist_ok (tn_hist s p)" using inv by (simp add: tun_inv_def)
    moreover have "client_ok p ?c (tn_pcbs s ?b) (tn_socks s p) (tn_hist s p)" using ok(1) by (simp add: dead_client_cong)
    ultimately show ?thesis by (simp add: settled_def rest_of_def)
  qed
  have fr: "tn_frames s = [if tc_aborted c then 1 else 0]" "h_abort (tn_hist s p) = tc_aborted c"
    using ok(1,2) by (auto simp: fr_ok_def client_ok_def base_ok_def split: if_splits)
  have "tun_inv None (upd p ?b (Some ?c) (tn_pcbs s ?b) (tn_socks s p) (tn_hist s p) [] s)"
    by (rule tun_inv_upd [OF inv Some refl st]) simp
  moreover have "DEAD_LEAVE2 p None s = Some (if tc_aborted c then 1 else 0, upd p ?b (Some ?c) (tn_pcbs s ?b) (tn_socks s p) (tn_hist s p) [] s)"
    using fr Some by (auto simp: DEAD_LEAVE2_def Let_def upd_def put_defs fun_upd_idem)
  moreover have "tn_hist (upd p ?b (Some ?c) (tn_pcbs s ?b) (tn_socks s p) (tn_hist s p) [] s) = tn_hist s" by (simp add: upd_def)
  ultimately show ?thesis using fr by auto
qed

lemma callback_end:
  assumes "tun_inv (Some p) s"
  shows "\<exists>r s'. do { (dead, s1) \<leftarrow> DEAD_LEAVE2 p None s; Some (callback_result dead, s1) } = Some (r, s') \<and> tun_inv None s' \<and>
    r = (if h_abort (tn_hist s' p) then ERR_ABRT else ERR_OK)"
  using DEAD_LEAVE2_inv [OF assms] by (auto simp: callback_result_def)

text \<open>
  The state in which a callback of client \<open>p\<close> starts: lwIP has changed the pcb and the history, and
  the variable of the callback is in place.
\<close>

lemma callback_start:
  assumes "tun_inv None s" "tn_clients s p = Some c" "b = tc_pcb c" "\<not> tc_client_closed c"
  shows "settled (Some p) p b None oc ox kk h fr \<Longrightarrow> tun_inv (Some p) (upd p b oc ox kk h fr s)"
    and "outcome (Some p) p b None fr s r \<Longrightarrow> \<exists>s'. r = Some s' \<and> tun_inv (Some p) s'"
proof -
  show *: "tun_inv (Some p) (upd p b oc ox kk h fr s)" if "settled (Some p) p b None oc ox kk h fr" for oc ox kk h fr
    by (rule tun_inv_upd [OF assms(1-3)]) (use that assms(4) in \<open>simp_all add: rest_of_def\<close>)
  show "\<exists>s'. r = Some s' \<and> tun_inv (Some p) s'" if "outcome (Some p) p b None fr s r"
    using that * unfolding outcome_def by blast
qed

lemma open_client:
  assumes inv: "tun_inv None s" and x: "tn_pcbs s b = Some x"
  obtains c where "tn_clients s (pb_arg x) = Some c" "\<not> tc_client_closed c" "tc_pcb c = b" "base_ok (pb_arg x) c (Some x) (tn_socks s (pb_arg x)) (tn_hist s (pb_arg x))"
    "flow_ok c x (tn_socks s (pb_arg x)) (tn_hist s (pb_arg x))" "fr_ok None (pb_arg x) (Some c) (tn_hist s (pb_arg x)) []" "0 < tn_num_clients s"
    "tc_dead_aborted c = None" "\<not> tc_aborted c"
    "s = upd (pb_arg x) b (Some c) (Some x) (tn_socks s (pb_arg x)) (tn_hist s (pb_arg x)) [] s"
proof -
  obtain c where c: "tn_clients s (pb_arg x) = Some c" "\<not> tc_client_closed c" "tc_pcb c = b" by (rule tun_inv_pcb [OF inv x])
  note ok = tun_invD [OF inv c(1)]
  have fr: "tn_frames s = []" using inv by (simp add: tun_inv_def)
  have b: "base_ok (pb_arg x) c (Some x) (tn_socks s (pb_arg x)) (tn_hist s (pb_arg x))" "flow_ok c x (tn_socks s (pb_arg x)) (tn_hist s (pb_arg x))"
    using ok(1) c x by (simp_all add: client_ok_def)
  have a: "\<not> tc_aborted c" using base_ok_open [OF b(1) c(2)] by simp
  show ?thesis
    by (rule that [OF c b])
      (use ok(2,3) fr a upd_self [OF c(1), of b] x in \<open>auto simp: fr_ok_def\<close>)
qed

lemma recv_func_inv:
  assumes inv: "tun_inv None s" and x: "tn_pcbs s b = Some x" "pb_recv x" and p: "\<forall>data. p = Some data \<longrightarrow> data \<noteq> [] \<and> length data \<le> pb_wnd x"
  shows "\<exists>r s'. tun_event_handler (EV_recv b env p evs) s = Some (r, s') \<and> tun_inv None s' \<and>
    r = (if h_abort (tn_hist s' (pb_arg x)) then ERR_ABRT else ERR_OK)"
proof -
  let ?p = "pb_arg x" let ?kk = "tn_socks s ?p" and ?h = "tn_hist s ?p"
  obtain c where c: "tn_clients s ?p = Some c" "\<not> tc_client_closed c" "tc_pcb c = b" and base: "base_ok ?p c (Some x) ?kk ?h"
    and flow: "flow_ok c x ?kk ?h" and num: "0 < tn_num_clients s" and d: "tc_dead_aborted c = None" "\<not> tc_aborted c"
    and self: "s = upd ?p b (Some c) (Some x) ?kk ?h [] s"
    by (rule open_client [OF inv x(1)])
  note start = callback_start [OF inv c(1) c(3) [symmetric] c(2)]
  let ?c = "c\<lparr>tc_dead_aborted := Some 0\<rparr>"
  have fr: "fr_ok (Some ?p) ?p (Some ?c) h [0]" for h using d by (simp add: fr_ok_def)
  show ?thesis
  proof (cases p)
    case None
    let ?s1 = "upd ?p b (Some ?c) (Some x) ?kk ?h [0] s"
    have run: "tun_event_handler (EV_recv b env p evs) s =
        do { s2 \<leftarrow> client_free_client (te_close env) ?p ?s1; (dead, s3) \<leftarrow> DEAD_LEAVE2 ?p None s2; Some (callback_result dead, s3) }"
      by (subst self) (simp add: None upd_simps client_recv_func_def c d DEAD_ENTER_upd del: self)
    have "outcome (Some ?p) ?p b None [0] s (client_free_client (te_close env) ?p ?s1)"
      by (rule free_client_outcome) (use c base fr num in \<open>simp_all add: dead_client_cong\<close>)
    then show ?thesis using start(2) callback_end unfolding run by fastforce
  next
    case (Some data)
    then have data: "data \<noteq> []" "length data \<le> pb_wnd x" using p by auto
    have sc: "\<not> tc_socks_closed c" and wnd: "pb_wnd x + tc_buf_used c = TCP_WND" using flow x(2) by (auto simp: flow_ok_def)
    obtain k where k: "?kk = Some k" "up_ok c k ?h" using base sc by (auto simp: base_ok_def split: option.splits)
    have len: "length (tc_buf c) = TCP_WND" using base by (simp add: base_ok_def)
    let ?u = "tc_buf_used c"
    define buf where "buf = write_at ?u data (tc_buf c)"
    let ?c1 = "c\<lparr>tc_dead_aborted := Some 0, tc_buf := buf, tc_buf_used := ?u + length data\<rparr>"
    let ?x1 = "x\<lparr>pb_wnd := pb_wnd x - length data\<rparr>" and ?h1 = "?h\<lparr>h_from_tcp := h_from_tcp ?h @ data\<rparr>"
    let ?s1 = "upd ?p b (Some ?c) (Some ?x1) (Some k) ?h1 [0] s" and ?s2 = "upd ?p b (Some ?c1) (Some ?x1) (Some k) ?h1 [0] s"
    have buf: "length buf = TCP_WND" "take (?u + length data) buf = take ?u (tc_buf c) @ data" using len wnd data(2) by (simp_all add: buf_def write_at_def)
    have run: "tun_event_handler (EV_recv b env p evs) s =
        do { s3 \<leftarrow> (if ?u = 0 \<and> tc_socks_up c then do { a \<leftarrow> client_send_to_socks ?p ?s2; SYNC_COMMIT evs a } else Some ?s2);
             (dead, s4) \<leftarrow> DEAD_LEAVE2 ?p None s3; Some (callback_result dead, s4) }"
      by (subst self) (use data wnd sc in \<open>auto simp: Some k upd_simps client_recv_func_def c d DEAD_ENTER_upd buf_def Let_def\<close>)
    have base1: "base_ok ?p ?c1 (Some ?x1) (Some k1) ?h1" if "up_ok ?c1 k1 ?h1" for k1
      using base that buf(1) wnd data(2) sc by (auto simp: base_ok_def hist_ok_def)
    have flow1: "flow_ok ?c1 ?x1 (Some k1) ?h1" if "sk_recving k1 = sk_recving k" for k1
      using flow wnd data(2) that k(1) by (auto simp: flow_ok_def unsent_def)
    have set1: "settled (Some ?p) ?p b None (Some ?c1) (Some ?x1) (Some k1) ?h1 [0]" if "up_ok ?c1 k1 ?h1" "sk_recving k1 = sk_recving k" for k1
      using base1 [OF that(1)] flow1 [OF that(2)] c d by (simp add: settled_def client_ok_def fr_ok_def) (simp add: base_ok_def)
    have "\<exists>s3. (if ?u = 0 \<and> tc_socks_up c then do { a \<leftarrow> client_send_to_socks ?p ?s2; SYNC_COMMIT evs a } else Some ?s2) = Some s3 \<and> tun_inv (Some ?p) s3"
    proof (cases "?u = 0 \<and> tc_socks_up c")
      case True
      let ?k = "k\<lparr>sk_sending := Some data\<rparr>"
      have "up_ok ?c1 ?k ?h1" using k(2) True buf(2) data(1) by (simp add: up_ok_def)
      then have "tun_inv (Some ?p) (upd ?p b (Some ?c1) (Some ?x1) (Some ?k) ?h1 [0] s)" by (intro start(1) set1) simp_all
      moreover have "client_send_to_socks ?p ?s2 = Some (upd ?p b (Some ?c1) (Some ?x1) (Some ?k) ?h1 [0] s)"
        using k(2) True sc buf(2) data(1) by (auto simp: client_send_to_socks_def upd_simps up_ok_def)
      ultimately show ?thesis using True SYNC_COMMIT_inv by simp
    next
      case False
      have "up_ok ?c1 k ?h1" using k(2) False buf(2) by (auto simp: up_ok_def intro: prefix_prefix)
      then show ?thesis using False start(1) [OF set1] by auto
    qed
    then show ?thesis using callback_end unfolding run by fastforce
  qed
qed

lemma err_func_inv:
  assumes inv: "tun_inv None s" and x: "tn_pcbs s b = Some x"
  shows "\<exists>s'. tun_event_handler (EV_err b env) s = Some (ERR_OK, s') \<and> tun_inv None s'"
proof -
  let ?p = "pb_arg x" let ?kk = "tn_socks s ?p" and ?h = "tn_hist s ?p"
  obtain c where c: "tn_clients s ?p = Some c" "\<not> tc_client_closed c" "tc_pcb c = b" and base: "base_ok ?p c (Some x) ?kk ?h"
    and fr: "fr_ok None ?p (Some c) ?h []" and num: "0 < tn_num_clients s" and self: "s = upd ?p b (Some c) (Some x) ?kk ?h [] s"
    by (rule open_client [OF inv x])
  have fr0: "tn_frames s = []" using inv by (simp add: tun_inv_def)
  have run: "tun_event_handler (EV_err b env) s =
      do { s1 \<leftarrow> client_handle_freed_client (te_close env) ?p (upd ?p b (Some c) None ?kk ?h [] s); Some (ERR_OK, s1) }"
    by (subst self) (simp add: upd_simps client_err_func_def c)
  have "outcome None ?p b None [] s (client_handle_freed_client (te_close env) ?p (upd ?p b (Some c) None ?kk ?h [] s))"
    by (rule handle_freed_outcome [OF c(2,3) base_ok_close [OF base] fr num])
  then show ?thesis using tun_inv_outcome [OF inv c(1)] c fr0 unfolding run by (fastforce simp: rest_of_def)
qed

lemma sent_func_inv:
  assumes inv: "tun_inv None s" and x: "tn_pcbs s b = Some x" "pb_sent x" "0 < len" "int len \<le> pb_pending x"
  shows "\<exists>r s'. tun_event_handler (EV_sent b env len evs) s = Some (r, s') \<and> tun_inv None s' \<and>
    r = (if h_abort (tn_hist s' (pb_arg x)) then ERR_ABRT else ERR_OK)"
proof -
  let ?p = "pb_arg x" let ?kk = "tn_socks s ?p" and ?h = "tn_hist s ?p"
  obtain c where c: "tn_clients s ?p = Some c" "\<not> tc_client_closed c" "tc_pcb c = b" and base: "base_ok ?p c (Some x) ?kk ?h"
    and flow: "flow_ok c x ?kk ?h" and num: "0 < tn_num_clients s" and d: "tc_dead_aborted c = None" "\<not> tc_aborted c"
    and self: "s = upd ?p b (Some c) (Some x) ?kk ?h [] s"
    by (rule open_client [OF inv x(1)])
  note start = callback_start [OF inv c(1) c(3) [symmetric] c(2)]
  have up: "tc_socks_up c" "pb_pending x = tc_socks_recv_tcp_pending c" using flow x(2) by (auto simp: flow_ok_def)
  let ?x1 = "x\<lparr>pb_pending := pb_pending x - int len\<rparr>"
  let ?c1 = "c\<lparr>tc_dead_aborted := Some 0, tc_socks_recv_tcp_pending := tc_socks_recv_tcp_pending c - int len\<rparr>"
  let ?s1 = "upd ?p b (Some ?c1) (Some ?x1) ?kk ?h [0] s"
  let ?c2 = "?c1\<lparr>tc_socks_recv_waiting := False\<rparr>" let ?s2 = "upd ?p b (Some ?c2) (Some ?x1) ?kk ?h [0] s"
  define body where "body = (if tc_socks_recv_buf_used c > 0 then do {
      (res, s2) \<leftarrow> client_socks_recv_send_out env ?p ?s2;
      if res < 0 then Some s2
      else do {
        c2 \<leftarrow> tn_clients s2 ?p;
        _ \<leftarrow> ASSERT (tc_socks_recv_tcp_pending c2 > 0);
        if tc_socks_recv_buf_used c2 = -1 \<and> \<not> tc_socks_closed c2 then do { a \<leftarrow> client_socks_recv_initiate ?p s2; SYNC_COMMIT evs a } else Some s2 } }
    else if tc_socks_closed c \<and> tc_socks_recv_tcp_pending c = int len then client_free_client (te_close env) ?p ?s1 else Some ?s1)"
  have run: "tun_event_handler (EV_sent b env len evs) s = do { s3 \<leftarrow> body; (dead, s4) \<leftarrow> DEAD_LEAVE2 ?p None s3; Some (callback_result dead, s4) }"
  proof -
    have "tc_socks_recv_buf_used c > 0 \<longrightarrow> tc_socks_recv_waiting c \<and> tc_socks_recv_buf_sent c < tc_socks_recv_buf_used c" using flow up by (auto simp: flow_ok_def)
    then show ?thesis unfolding body_def using x(3,4) up c d
      by (subst self) (auto simp: upd_simps client_sent_func_def DEAD_ENTER_upd Let_def)
  qed
  have base1: "base_ok ?p ?c1 (Some ?x1) ?kk ?h" "base_ok ?p ?c2 (Some ?x1) ?kk ?h"
    using base by (cases ?kk; auto simp: base_ok_def up_ok_def)+
  have fr: "fr_ok (Some ?p) ?p (Some ?c1) ?h [0]" "fr_ok (Some ?p) ?p (Some ?c2) ?h [0]" using d by (simp_all add: fr_ok_def)
  have "\<exists>s3. body = Some s3 \<and> tun_inv (Some ?p) s3"
  proof (cases "tc_socks_recv_buf_used c > 0")
    case True
    have w: "writing_ok ?p ?c2 ?x1 ?kk ?h" using flow up x(4) True c base1(2) unfolding writing_ok_def flow_ok_def by (auto simp: unsent_def)
    have "(\<exists>s'. client_socks_recv_send_out env ?p ?s2 = Some (-1, s') \<and> outcome (Some ?p) ?p b None [0] s (Some s')) \<or>
      (\<exists>c' x' h'. client_socks_recv_send_out env ?p ?s2 = Some (0, upd ?p b (Some c') (Some x') ?kk h' [0] s) \<and>
         queued_ok ?p c' x' ?kk h' \<and> tc_pcb c' = b \<and> tc_socks_closed c' = tc_socks_closed ?c2 \<and> fr_ok (Some ?p) ?p (Some c') h' [0])"
      by (rule recv_send_out_outcome [OF w]) (use c fr num flow up True in \<open>auto simp: flow_ok_def\<close>)
    then show ?thesis
    proof (elim disjE exE conjE)
      fix s' assume e: "client_socks_recv_send_out env ?p ?s2 = Some (-1, s')" "outcome (Some ?p) ?p b None [0] s (Some s')"
      then show ?thesis using True start(2) [OF e(2)] by (simp add: body_def)
    next
      fix c' x' h' assume e: "client_socks_recv_send_out env ?p ?s2 = Some (0, upd ?p b (Some c') (Some x') ?kk h' [0] s)"
        and q: "queued_ok ?p c' x' ?kk h'" "tc_pcb c' = b" "tc_socks_closed c' = tc_socks_closed ?c2" "fr_ok (Some ?p) ?p (Some c') h' [0]"
      have pend: "tc_socks_recv_tcp_pending c' > 0" using q(1) by (simp add: queued_ok_def)
      show ?thesis
      proof (cases "tc_socks_recv_buf_used c' = -1 \<and> \<not> tc_socks_closed c'")
        case more: True
        then obtain k where k: "?kk = Some k" using q(1) by (auto simp: queued_ok_def base_ok_def split: option.splits)
        note i = queued_initiate(1) [OF q(1) [unfolded k] q(2) _ q(4), of s] queued_initiate(2) [OF q(1) [unfolded k] q(2) _ q(4)]
        show ?thesis using True more e pend i start(1) SYNC_COMMIT_inv by (simp add: body_def upd_simps k)
      next
        case False
        have "?kk = None \<or> tc_socks_recv_buf_used c' \<noteq> -1" using False q(1) by (auto simp: queued_ok_def base_ok_def split: option.splits)
        then show ?thesis using True False e pend start(1) [OF queued_settled [OF q(1,2,4)]] by (auto simp: body_def upd_simps)
      qed
    qed
  next
    case False
    then have e: "tc_socks_recv_buf_used c = -1" using flow up by (auto simp: flow_ok_def)
    show ?thesis
    proof (cases "tc_socks_closed c \<and> tc_socks_recv_tcp_pending c = int len")
      case True
      have "outcome (Some ?p) ?p b None [0] s (client_free_client (te_close env) ?p ?s1)"
        by (rule free_client_outcome) (use c base1 fr num in simp_all)
      from start(2) [OF this] show ?thesis using True False by (simp add: body_def)
    next
      case stay: False
      have "flow_ok ?c1 ?x1 ?kk ?h" using flow up x(4) e stay by (auto simp: flow_ok_def unsent_def)
      then have "settled (Some ?p) ?p b None (Some ?c1) (Some ?x1) ?kk ?h [0]" using base1(1) c fr by (simp add: settled_def client_ok_def) (simp add: base_ok_def)
      from start(1) [OF this] show ?thesis using stay False by (auto simp: body_def)
    qed
  qed
  then show ?thesis using callback_end unfolding run by fastforce
qed

text \<open>The state in which a new client has been set up.\<close>

lemma new_client_inv:
  assumes inv: "tun_inv None s" and n: "tn_pcbs s b = None" "tn_clients s p = None"
    and c: "length (tc_buf c) = TCP_WND" "length (tc_socks_recv_buf c) = CLIENT_SOCKS_RECV_BUF_SIZE" "tc_aborted c = False" "tc_dead_aborted c = Some 0"
      "tc_pcb c = b" "tc_client_closed c = False" "tc_buf_used c = 0" "tc_socks_up c = False" "tc_socks_closed c = False"
    and x: "pb_arg x = p" "pb_err x" "pb_recv x" "\<not> pb_sent x" "pb_wnd x = TCP_WND" "pb_pending x = 0"
    and s': "tn_clients s' = (tn_clients s)(p \<mapsto> c)" "tn_pcbs s' = (tn_pcbs s)(b \<mapsto> x)"
      "tn_socks s' = (tn_socks s)(p \<mapsto> \<lparr>sk_up = False, sk_sending = None, sk_recving = False\<rparr>)"
      "tn_hist s' = (tn_hist s)(p := \<lparr>h_from_tcp = [], h_to_socks = [], h_from_socks = [], h_to_tcp = [], h_abort = False\<rparr>)"
      "tn_tcp_clients s' = tn_tcp_clients s @ [p]" "tn_num_clients s' = tn_num_clients s + 1" "tn_frames s' = [0]"
  shows "tun_inv (Some p) s'"
proof -
  have own: "tc_client_closed d \<or> tc_pcb d \<noteq> b" if "tn_clients s q = Some d" for q d
    using client_ok_open [OF tun_invD(1) [OF inv that]] n(1) by auto
  have "client_ok q d (tn_pcbs s' (tc_pcb d)) (tn_socks s' q) (tn_hist s' q)" if d: "tn_clients s' q = Some d" for q d
  proof (cases "q = p")
    case True
    then show ?thesis using d c x by (simp add: s' client_ok_def base_ok_def up_ok_def flow_ok_def unsent_def hist_ok_def)
  next
    case False
    then have d': "tn_clients s q = Some d" using d by (simp add: s')
    show ?thesis using tun_invD(1) [OF inv d'] client_ok_closed_cong [of d q] own [OF d'] False by (auto simp: s')
  qed
  moreover have "\<exists>d. tn_clients s' (pb_arg y) = Some d \<and> \<not> tc_client_closed d \<and> tc_pcb d = b'" if y: "tn_pcbs s' b' = Some y" for b' y
  proof (cases "b' = b")
    case True
    then show ?thesis using y c x by (simp add: s')
  next
    case False
    then have "tn_pcbs s b' = Some y" using y by (simp add: s')
    then show ?thesis using tun_inv_pcb [OF inv, of b' y] n(2) by (metis fun_upd_other option.distinct(1) s'(1))
  qed
  moreover have "fr_ok (Some p) q (tn_clients s' q) (tn_hist s' q) (tn_frames s')" for q
  proof -
    note tun_inv_fr [OF inv, of q]
    then show ?thesis using c by (auto simp: s' fr_ok_def split: option.splits)
  qed
  moreover have "distinct (tn_tcp_clients s') \<and> set (tn_tcp_clients s') = dom (tn_clients s') \<and> tn_num_clients s' = int (length (tn_tcp_clients s'))"
    using inv n(2) by (auto simp: s' tun_inv_def)
  moreover have "tn_clients s' q = None \<longrightarrow> tn_socks s' q = None" "hist_ok (tn_hist s' q)" for q using inv by (auto simp: s' tun_inv_def hist_ok_def)
  ultimately show ?thesis unfolding tun_inv_def by simp
qed

lemma tun_inv_cong:
  assumes "tun_inv None s" "tn_clients s' = tn_clients s" "tn_pcbs s' = tn_pcbs s" "tn_socks s' = tn_socks s" "tn_hist s' = tn_hist s"
    "tn_tcp_clients s' = tn_tcp_clients s" "tn_num_clients s' = tn_num_clients s" "tn_frames s' = tn_frames s"
  shows "tun_inv None s'"
  using assms(1) unfolding tun_inv_def assms(2-8) .

lemma accept_inv:
  assumes inv: "tun_inv None s" and en: "tun_enabled s (EV_accept malloc concat_ok init_ok b local remote evs)"
  shows "\<exists>r s'. tun_event_handler (EV_accept malloc concat_ok init_ok b local remote evs) s = Some (r, s') \<and> tun_inv None s' \<and>
    (\<forall>p mem. malloc = Some (p, mem) \<and> (tn_append_source s \<longrightarrow> concat_ok) \<and> init_ok \<longrightarrow> r = (if h_abort (tn_hist s' p) then ERR_ABRT else ERR_OK))"
proof -
  have n: "tn_pcbs s b = None" using en by simp
  let ?x0 = "\<lparr>pb_arg = 0, pb_err = False, pb_recv = False, pb_sent = False, pb_wnd = TCP_WND, pb_pending = 0\<rparr>"
  show ?thesis
  proof (cases "malloc = None \<or> tn_append_source s \<and> \<not> concat_ok \<or> \<not> init_ok")
    case True
    define s1 where "s1 = (if malloc \<noteq> None \<and> tn_append_source s \<and> concat_ok then s\<lparr>tn_auth_user := User_client (fst (the malloc))\<rparr> else s)"
    have "tun_inv None s1" by (rule tun_inv_cong [OF inv]) (simp_all add: s1_def)
    moreover have "tun_event_handler (EV_accept malloc concat_ok init_ok b local remote evs) s = Some (ERR_MEM, s1)"
      using True n by (cases malloc) (auto simp: s1_def listener_accept_func_def put_defs fun_upd_idem)
    ultimately show ?thesis using True by auto
  next
    case False
    then obtain p mem where m: "malloc = Some (p, mem)" and ok: "tn_append_source s \<longrightarrow> concat_ok" "init_ok" by auto
    then have fresh: "tn_clients s p = None" "length (tc_buf mem) = TCP_WND" "length (tc_socks_recv_buf mem) = CLIENT_SOCKS_RECV_BUF_SIZE" using en by auto
    have fr: "tn_frames s = []" using inv by (simp add: tun_inv_def)
    define c where "c = mem\<lparr>tc_socks_username := tn_append_source s,
                          tc_local_addr := baddr_from_lwip (fst local) (snd local), tc_remote_addr := baddr_from_lwip (fst remote) (snd remote),
                          tc_aborted := False, tc_dead_aborted := Some 0, tc_pcb := b, tc_client_closed := False,
                          tc_buf_used := 0, tc_socks_up := False, tc_socks_closed := False\<rparr>"
    define x where "x = ?x0\<lparr>pb_arg := p, pb_err := True, pb_recv := True\<rparr>"
    define s5 where "s5 = s\<lparr>tn_auth_user := (if tn_append_source s then User_client p else tn_auth_user s),
        tn_tcp_clients := tn_tcp_clients s @ [p], tn_num_clients := tn_num_clients s + 1, tn_clients := (tn_clients s)(p \<mapsto> c), tn_pcbs := (tn_pcbs s)(b \<mapsto> x),
        tn_socks := (tn_socks s)(p \<mapsto> \<lparr>sk_up = False, sk_sending = None, sk_recving = False\<rparr>),
        tn_hist := (tn_hist s)(p := \<lparr>h_from_tcp = [], h_to_socks = [], h_from_socks = [], h_to_tcp = [], h_abort = False\<rparr>), tn_frames := [0]\<rparr>"
    have i5: "tun_inv (Some p) s5"
      by (rule new_client_inv [OF inv n fresh(1), of c x]) (use fresh in \<open>simp_all add: c_def x_def s5_def\<close>)
    have num: "0 \<le> tn_num_clients s" using inv by (simp add: tun_inv_def)
    have run: "listener_accept_func malloc concat_ok init_ok b ERR_OK local remote evs (put_pcb b ?x0 s) =
        do { s6 \<leftarrow> SYNC_COMMIT evs s5; (dead, s7) \<leftarrow> DEAD_LEAVE2 p None s6; Some (callback_result dead, s7) }"
      using ok m fr num by (cases s; cases mem) (simp add: listener_accept_func_def s5_def c_def x_def put_defs tcp_call_defs DEAD_ENTER_def Let_def)
    obtain s6 where s6: "SYNC_COMMIT evs s5 = Some s6" "tun_inv (Some p) s6" using SYNC_COMMIT_inv [OF i5] by blast
    obtain r s7 where s7: "do { (dead, s1) \<leftarrow> DEAD_LEAVE2 p None s6; Some (callback_result dead, s1) } = Some (r, s7)" "tun_inv None s7"
        "r = (if h_abort (tn_hist s7 p) then ERR_ABRT else ERR_OK)"
      using callback_end [OF s6(2)] by metis
    show ?thesis using s7 run s6 m by simp
  qed
qed

lemma tun_initial_inv: "tun_inv None (tun_initial app)"
  by (simp add: tun_inv_def tun_initial_def hist_ok_def fr_ok_def)

lemma tun_event_inv:
  assumes inv: "tun_inv None s" and en: "tun_enabled s ev"
  shows "\<exists>r s'. tun_event_handler ev s = Some (r, s') \<and> tun_inv None s'"
proof (cases ev)
  case (EV_accept malloc concat_ok init_ok b local remote evs)
  then show ?thesis using accept_inv [OF inv en [unfolded EV_accept]] by metis
next
  case (EV_err b env)
  then show ?thesis using en err_func_inv [OF inv, of b _ env] by auto
next
  case (EV_recv b env p evs)
  then obtain x where "tn_pcbs s b = Some x" "pb_recv x" "\<forall>data. p = Some data \<longrightarrow> data \<noteq> [] \<and> length data \<le> pb_wnd x" using en by auto
  then show ?thesis using recv_func_inv [OF inv, of b x p env evs] EV_recv by metis
next
  case (EV_sent b env len evs)
  then obtain x where "tn_pcbs s b = Some x" "pb_sent x" "0 < len" "int len \<le> pb_pending x" using en by auto
  then show ?thesis using sent_func_inv [OF inv, of b x len env evs] EV_sent by metis
next
  case (EV_socks p env e)
  then show ?thesis using en socks_event_inv [OF inv, of p e env] by auto
qed

lemma tun_reach_inv: "tun_reach s \<Longrightarrow> tun_inv None s"
proof (induction rule: tun_reach.induct)
  case (tun_more s ev r s')
  then show ?case using tun_event_inv [OF tun_more.IH tun_more.hyps(2)] by simp
qed (rule tun_initial_inv)

section \<open>Shutdown\<close>

lemma client_murder_inv:
  assumes inv: "tun_inv None s" and c: "tn_clients s p = Some c"
  shows "\<exists>s'. client_murder p s = Some s' \<and> tun_inv None s'"
proof -
  note ok = tun_invD [OF inv c]
  let ?b = "tc_pcb c" and ?h = "tn_hist s p" and ?kk = "tn_socks s p" let ?ox = "tn_pcbs s ?b"
  have fr0: "tn_frames s = []" using inv by (simp add: tun_inv_def)
  have fr: "fr_ok None p (Some c) ?h []" using ok(2) fr0 by simp
  define s0 where "s0 = upd p ?b (Some c) ?ox ?kk ?h [] s"
  have s0: "s0 = s" using upd_self [OF c, of ?b] fr0 by (simp add: s0_def)
  have base: "base_ok p c ?ox ?kk ?h" using ok(1) by (simp add: client_ok_def)
  have "outcome None p ?b (rest_of c ?ox) [] s (client_murder p s0)"
  proof (cases "tc_client_closed c")
    case True
    then obtain k where k: "?kk = Some k" "\<not> tc_socks_closed c" using ok(1) by (auto simp: client_ok_def base_ok_def split: option.splits)
    let ?c = "c\<lparr>tc_socks_closed := True\<rparr>"
    have "outcome None p ?b ?ox [] s (client_dealloc p (upd p ?b (Some ?c) ?ox None ?h [] s))"
      by (rule dealloc_outcome) (use True ok(3) fr base in \<open>auto simp: base_ok_def fr_ok_def\<close>)
    then show ?thesis using True k by (simp add: s0_def client_murder_def upd_simps rest_of_def)
  next
    case False
    obtain x where x: "?ox = Some x" "pb_arg x = p" using client_ok_open [OF ok(1) False] by blast
    have a: "\<not> tc_aborted c" "tc_dead_aborted c = None" using base fr False by (auto simp: base_ok_def fr_ok_def)
    have d: "outcome None p ?b None [] s (client_dealloc p (upd p ?b (Some d) None None (?h\<lparr>h_abort := True\<rparr>) [] s))"
      if "tc_aborted d" "tc_client_closed d" "tc_socks_closed d" for d
      by (rule dealloc_outcome) (use that ok(3) base in \<open>auto simp: base_ok_def fr_ok_def hist_ok_def\<close>)
    show ?thesis
    proof (cases ?kk)
      case None
      then have "tc_socks_closed c" using base by (simp add: base_ok_def)
      then show ?thesis using d False x a None
        by (simp add: s0_def client_murder_def upd_simps rest_of_def dead_live_def killed_def)
    next
      case (Some k)
      then have "\<not> tc_socks_closed c" using base by (simp add: base_ok_def)
      then show ?thesis using d False x a Some by (simp add: s0_def client_murder_def upd_simps rest_of_def dead_live_def killed_def)
    qed
  qed
  then show ?thesis using tun_inv_outcome [OF inv c] fr0 s0 by simp
qed

lemma free_clients_inv: "tun_inv None s \<Longrightarrow> \<exists>s'. free_clients s = Some s' \<and> tun_inv None s' \<and> tn_tcp_clients s' = []"
proof (induction s rule: free_clients.induct)
  case (1 s)
  show ?case
  proof (cases "tn_tcp_clients s")
    case Nil
    then show ?thesis using 1(2) by (simp add: free_clients.simps)
  next
    case (Cons p ps)
    then have "p \<in> dom (tn_clients s)" using 1(2) by (auto simp: tun_inv_def)
    then obtain c where "tn_clients s p = Some c" by auto
    from client_murder_inv [OF 1(2) this] obtain s1 where s1: "client_murder p s = Some s1" "tun_inv None s1" by blast
    then show ?thesis using 1(1) [OF Cons s1] Cons by (simp add: free_clients.simps [of s])
  qed
qed

section \<open>Draining\<close>

lemma free_socks_hist: "tc_client_closed c \<Longrightarrow> tn_clients s p = Some c \<Longrightarrow> client_free_socks e p s = Some s' \<Longrightarrow> tn_hist s' = tn_hist s"
  by (auto simp: client_free_socks.simps client_dealloc_def socks_Free_def DEAD_KILL_WITH_def Let_def split: if_splits option.splits)

text \<open>A completed send ends the client only when it was the last of the buffered data.\<close>

lemma socks_sent_ends:
  assumes c: "tn_clients s p = Some c" and run: "client_socks_send_handler_done e p n s = Some s'" and ends: "tn_clients s' p = None"
  shows "n = tc_buf_used c \<and> tn_hist s' = tn_hist s"
proof -
  let ?c = "c\<lparr>tc_buf := write_at 0 (window n (tc_buf_used c - n) (tc_buf c)) (tc_buf c), tc_buf_used := tc_buf_used c - n\<rparr>"
  define s1 where "s1 = put_client p ?c s"
  have c1: "tn_clients s1 p = Some ?c" "tn_hist s1 = tn_hist s" by (simp_all add: s1_def)
  have guard: "n \<le> tc_buf_used c" using run c by (auto simp: client_socks_send_handler_done_def split: if_splits)
  obtain s2 where s2: "(if \<not> tc_client_closed c then tcp_recved (tc_pcb c) n s1 else Some s1) = Some s2"
    and rest: "(if tc_buf_used c - n > 0 then socks_Send p (take (tc_buf_used ?c) (tc_buf ?c)) s2
       else if tc_client_closed c then client_free_socks e p s2 else Some s2) = Some s'"
    using run c by (auto simp: client_socks_send_handler_done_def s1_def Let_def split: if_splits)
  have c2: "tn_clients s2 p = Some ?c" "tn_hist s2 = tn_hist s" using s2 c1 by (auto simp: tcp_call_defs put_defs split: if_splits)
  have "\<not> tc_buf_used c - n > 0" using rest ends c2 by (auto simp: socks_Send_def split: if_splits)
  moreover have "tc_client_closed c" using rest ends c2 calculation by (auto split: if_splits)
  ultimately show ?thesis using rest c2 guard free_socks_hist [of ?c s2 p e s'] by simp
qed

section \<open>Properties\<close>

definition demo_mem :: tcp_client where
  "demo_mem = \<lparr>tc_aborted = True, tc_dead_aborted = Some 7, tc_local_addr = BAddr_None, tc_remote_addr = BAddr_None, tc_pcb = 0,
     tc_client_closed = True, tc_buf = replicate TCP_WND 0, tc_buf_used = 9, tc_socks_username = False, tc_socks_up = True, tc_socks_closed = True,
     tc_socks_recv_buf = replicate CLIENT_SOCKS_RECV_BUF_SIZE 0, tc_socks_recv_buf_used = 5, tc_socks_recv_buf_sent = 3,
     tc_socks_recv_waiting = True, tc_socks_recv_tcp_pending = -1\<rparr>"

definition demo_tc_env :: tc_env where
  "demo_tc_env = \<lparr>te_close = ERR_OK, te_sndbuf = (\<lambda>_. 100), te_write = (\<lambda>_. ERR_OK), te_output = ERR_OK\<rparr>"

definition demo_accept :: "ptr \<Rightarrow> tun_event" where
  "demo_accept p = EV_accept (Some (p, demo_mem)) True True p (BIPAddr_IPv4 1, 80) (BIPAddr_IPv4 2, 1000) []"

lemma demo_mem_simps [simp]: "length (tc_buf demo_mem) = TCP_WND" "length (tc_socks_recv_buf demo_mem) = CLIENT_SOCKS_RECV_BUF_SIZE"
  by (simp_all add: demo_mem_def)

lemma demo_accept_enabled: "tn_pcbs s p = None \<Longrightarrow> tn_clients s p = None \<Longrightarrow> tun_enabled s (demo_accept p)"
  by (simp add: demo_accept_def)

text \<open>Accepting in a state where no callback runs: the new client is open on both sides.\<close>

lemma demo_accept_run:
  assumes "tun_reach s" "tn_pcbs s p = None" "tn_clients s p = None"
  obtains s' c where "tun_event_handler (demo_accept p) s = Some (ERR_OK, s')" "tun_reach s'"
    "tn_clients s' = (tn_clients s)(p \<mapsto> c)" "\<not> tc_socks_up c" "\<not> tc_socks_closed c" "\<not> tc_client_closed c" "tc_buf_used c = 0" "tc_pcb c = p"
    "tn_pcbs s' = (tn_pcbs s)(p \<mapsto> \<lparr>pb_arg = p, pb_err = True, pb_recv = True, pb_sent = False, pb_wnd = TCP_WND, pb_pending = 0\<rparr>)"
    "tn_auth_user s' = (if tn_append_source s then User_client p else tn_auth_user s)" "tn_append_source s' = tn_append_source s"
    "tn_socks s' = (tn_socks s)(p \<mapsto> \<lparr>sk_up = False, sk_sending = None, sk_recving = False\<rparr>)"
    "tn_hist s' = (tn_hist s)(p := \<lparr>h_from_tcp = [], h_to_socks = [], h_from_socks = [], h_to_tcp = [], h_abort = False\<rparr>)"
proof -
  have fr: "tn_frames s = []" using tun_reach_inv [OF assms(1)] by (simp add: tun_inv_def)
  obtain r s' where e: "tun_event_handler (demo_accept p) s = Some (r, s')"
    using tun_event_inv [OF tun_reach_inv [OF assms(1)] demo_accept_enabled [OF assms(2,3)]] by auto
  have reach: "tun_reach s'" by (rule tun_more [OF assms(1) demo_accept_enabled [OF assms(2,3)] e])
  have "r = ERR_OK" and f: "tn_pcbs s' = (tn_pcbs s)(p \<mapsto> \<lparr>pb_arg = p, pb_err = True, pb_recv = True, pb_sent = False, pb_wnd = TCP_WND, pb_pending = 0\<rparr>)"
    "tn_auth_user s' = (if tn_append_source s then User_client p else tn_auth_user s)" "tn_append_source s' = tn_append_source s"
    "tn_socks s' = (tn_socks s)(p \<mapsto> \<lparr>sk_up = False, sk_sending = None, sk_recving = False\<rparr>)"
    "tn_hist s' = (tn_hist s)(p := \<lparr>h_from_tcp = [], h_to_socks = [], h_from_socks = [], h_to_tcp = [], h_abort = False\<rparr>)"
    and g: "tn_clients s' = (tn_clients s)(p \<mapsto> (demo_mem\<lparr>tc_socks_username := tn_append_source s,
                          tc_local_addr := baddr_from_lwip (BIPAddr_IPv4 1) 80, tc_remote_addr := baddr_from_lwip (BIPAddr_IPv4 2) 1000,
                          tc_aborted := False, tc_dead_aborted := None, tc_pcb := p, tc_client_closed := False,
                          tc_buf_used := 0, tc_socks_up := False, tc_socks_closed := False\<rparr>))"
    using e fr by (auto simp: demo_accept_def listener_accept_func_def put_defs tcp_call_defs DEAD_ENTER_def DEAD_LEAVE2_def Let_def callback_result_def demo_mem_def
        split: if_splits)
  then show ?thesis using e reach by (intro that [OF _ _ g]) simp_all
qed

text \<open>A client that was accepted and then received three bytes from the device.\<close>

lemma demo_recv:
  obtains s c x where "tun_reach s" "tn_clients s 1 = Some c" "tn_pcbs s 1 = Some x" "pb_arg x = 1" "pb_recv x" "pb_wnd x > 0"
    "tn_socks s 1 = Some \<lparr>sk_up = False, sk_sending = None, sk_recving = False\<rparr>" "h_from_tcp (tn_hist s 1) = [1, 2, 3]"
    "\<not> tc_client_closed c" "\<not> tc_socks_closed c" "tc_buf_used c = 3" "tc_pcb c = 1"
proof -
  obtain s c where s: "tun_reach s" "tn_clients s = [1 \<mapsto> c]" "\<not> tc_socks_up c" "\<not> tc_socks_closed c" "\<not> tc_client_closed c" "tc_buf_used c = 0" "tc_pcb c = 1"
    and pcb: "tn_pcbs s = [1 \<mapsto> \<lparr>pb_arg = 1, pb_err = True, pb_recv = True, pb_sent = False, pb_wnd = TCP_WND, pb_pending = 0\<rparr>]"
    and so: "tn_socks s = [1 \<mapsto> \<lparr>sk_up = False, sk_sending = None, sk_recving = False\<rparr>]" and hist: "h_from_tcp (tn_hist s 1) = []"
    by (rule demo_accept_run [OF tun_start [of False], of 1]) (simp_all add: tun_initial_def del: One_nat_def)
  note inv = tun_reach_inv [OF s(1)]
  have c1: "tn_clients s 1 = Some c" using s(2) by simp
  have fr: "tn_frames s = []" using inv by (simp add: tun_inv_def)
  have dead: "\<not> tc_aborted c" "tc_dead_aborted c = None"
    using tun_invD(1,2) [OF inv c1] s(5) by (auto simp: client_ok_def base_ok_def fr_ok_def)
  let ?ev = "EV_recv 1 demo_tc_env (Some [1, 2, 3]) []"
  have en: "tun_enabled s ?ev" using pcb by (simp add: TCP_WND_def)
  obtain r s' where e: "tun_event_handler ?ev s = Some (r, s')" using tun_event_inv [OF inv en] by auto
  have "h_from_tcp (tn_hist s' 1) = [1, 2, 3] \<and> tn_socks s' 1 = Some \<lparr>sk_up = False, sk_sending = None, sk_recving = False\<rparr> \<and>
      tn_pcbs s' 1 = Some \<lparr>pb_arg = 1, pb_err = True, pb_recv = True, pb_sent = False, pb_wnd = TCP_WND - 3, pb_pending = 0\<rparr> \<and>
      (\<exists>c'. tn_clients s' 1 = Some c' \<and> \<not> tc_client_closed c' \<and> \<not> tc_socks_closed c' \<and> tc_buf_used c' = 3 \<and> tc_pcb c' = 1)"
    using e s pcb so hist fr dead by (auto simp: client_recv_func_def DEAD_ENTER_def DEAD_LEAVE2_def put_defs Let_def TCP_WND_def split: if_splits)
  then show ?thesis using that [OF tun_more [OF s(1) en e]] by (auto simp: TCP_WND_def)
qed

text \<open>The device closes the connection then; the three bytes are being sent once SOCKS is up.\<close>

lemma demo_drain:
  obtains s c k where "tun_reach s" "tn_clients s 1 = Some c" "tc_client_closed c" "tc_buf_used c = 3" "tn_socks s 1 = Some k" "sk_sending k = Some [1, 2, 3]"
proof -
  obtain s c x where s: "tun_reach s" "tn_clients s 1 = Some c" "tn_pcbs s 1 = Some x" "pb_arg x = 1" "pb_recv x"
    and so: "tn_socks s 1 = Some \<lparr>sk_up = False, sk_sending = None, sk_recving = False\<rparr>" and h: "h_from_tcp (tn_hist s 1) = [1, 2, 3]"
    and c: "\<not> tc_client_closed c" "\<not> tc_socks_closed c" "tc_buf_used c = 3" "tc_pcb c = 1"
    by (rule demo_recv)
  note inv = tun_reach_inv [OF s(1)]
  have fr: "tn_frames s = []" using inv by (simp add: tun_inv_def)
  have ok: "\<not> tc_aborted c" "tc_dead_aborted c = None" "\<not> tc_socks_up c" "h_to_socks (tn_hist s 1) @ take 3 (tc_buf c) = [1, 2, 3]" "length (tc_buf c) = TCP_WND"
    using tun_invD(1,2) [OF inv s(2)] c so h by (auto simp: client_ok_def base_ok_def fr_ok_def up_ok_def)
  then have buf: "take 3 (tc_buf c) = [1, 2, 3]" by (cases "h_to_socks (tn_hist s 1)") (auto simp: TCP_WND_def dest: arg_cong [of _ _ length])
  have en1: "tun_enabled s (EV_recv 1 demo_tc_env None [])" using s by simp
  obtain r s1 where e1: "tun_event_handler (EV_recv 1 demo_tc_env None []) s = Some (r, s1)" using tun_event_inv [OF inv en1] by auto
  have s1: "tn_clients s1 1 = Some (c\<lparr>tc_client_closed := True\<rparr>) \<and> tn_socks s1 1 = Some \<lparr>sk_up = False, sk_sending = None, sk_recving = False\<rparr>"
    using e1 s so c ok fr
    by (cases c) (auto simp: client_recv_func_def DEAD_ENTER_def DEAD_LEAVE2_def client_free_client.simps client_handle_freed_client.simps remove_callbacks_def
        tcp_call_defs put_defs Let_def demo_tc_env_def)
  note reach1 = tun_more [OF s(1) en1 e1] and inv1 = tun_reach_inv [OF tun_more [OF s(1) en1 e1]]
  have en2: "tun_enabled s1 (EV_socks 1 demo_tc_env SK_up)" using s1 by simp
  obtain r2 s2 where e2: "tun_event_handler (EV_socks 1 demo_tc_env SK_up) s1 = Some (r2, s2)" using tun_event_inv [OF inv1 en2] by auto
  have "\<exists>c2. tn_clients s2 1 = Some c2 \<and> tc_client_closed c2 \<and> tc_buf_used c2 = 3 \<and> (\<exists>k. tn_socks s2 1 = Some k \<and> sk_sending k = Some [1, 2, 3])"
    using e2 s1 c ok buf by (auto simp: client_socks_handler_def client_send_to_socks_def socks_Send_def put_defs Let_def split: if_splits)
  then show ?thesis using that tun_more [OF reach1 en2 e2] by blast
qed

text \<open>
  C3. No callback of lwIP and no event of a SOCKS client makes tun2socks fail: in every reachable
  state the handler of every possible event runs to its end without violating an assertion,
  without using a freed client, pcb or SOCKS client, without writing through a dangling dead
  variable and without a call that lwIP or \<open>BSocksClient\<close> forbids, whatever lwIP answers to its calls
  and whatever events the reactor dispatches before the callback returns.
\<close>

theorem tcp_handlers_safe:
  assumes "tun_reach s" "tun_enabled s ev"
  shows "tun_event_handler ev s \<noteq> None"
  using tun_event_inv [OF tun_reach_inv [OF assms(1)] assms(2)] by auto

theorem tcp_handlers_safe_witness: "tun_event_handler (demo_accept 1) (tun_initial True) \<noteq> None"
  by (rule tcp_handlers_safe [OF tun_start demo_accept_enabled]) (simp_all add: tun_initial_def)

text \<open>
  C4. The receive and sent callbacks return \<open>ERR_ABRT\<close> exactly when the pcb was aborted with
  \<open>tcp_abort\<close> while they ran, and \<open>ERR_OK\<close> otherwise; in particular data within the window is never
  refused with \<open>ERR_MEM\<close>.
\<close>

theorem tcp_callbacks_report_abort:
  assumes "tun_reach s" "tn_pcbs s b = Some x" "tun_enabled s ev" "ev = EV_recv b env p evs \<or> ev = EV_sent b env len evs"
  shows "\<exists>r s'. tun_event_handler ev s = Some (r, s') \<and> \<not> h_abort (tn_hist s (pb_arg x)) \<and>
    r = (if h_abort (tn_hist s' (pb_arg x)) then ERR_ABRT else ERR_OK)"
proof -
  note inv = tun_reach_inv [OF assms(1)]
  obtain c where "tn_clients s (pb_arg x) = Some c" "\<not> tc_aborted c" "base_ok (pb_arg x) c (Some x) (tn_socks s (pb_arg x)) (tn_hist s (pb_arg x))"
    by (rule open_client [OF inv assms(2)])
  then have "\<not> h_abort (tn_hist s (pb_arg x))" by (simp add: base_ok_def)
  moreover have "\<exists>r s'. tun_event_handler ev s = Some (r, s') \<and> r = (if h_abort (tn_hist s' (pb_arg x)) then ERR_ABRT else ERR_OK)"
    using assms(4)
  proof
    assume ev: "ev = EV_recv b env p evs"
    then show ?thesis using assms(2,3) recv_func_inv [OF inv assms(2), of p env evs] by auto
  next
    assume ev: "ev = EV_sent b env len evs"
    then show ?thesis using assms(2,3) sent_func_inv [OF inv assms(2), of len env evs] by auto
  qed
  ultimately show ?thesis by blast
qed

theorem tcp_callbacks_report_abort_witness:
  "\<exists>s s'. tun_reach s \<and> tun_event_handler (EV_recv 1 demo_tc_env (Some [4]) []) s = Some (ERR_OK, s') \<or>
          tun_event_handler (EV_recv 1 demo_tc_env (Some [4]) []) s = Some (ERR_ABRT, s')"
proof -
  obtain s x where s: "tun_reach s" "tn_pcbs s 1 = Some x" "pb_recv x" "pb_wnd x > 0" by (rule demo_recv)
  then have "tun_enabled s (EV_recv 1 demo_tc_env (Some [4]) [])" by simp
  from tcp_callbacks_report_abort [OF s(1,2) this, of demo_tc_env "Some [4]" "[]"] s(1) show ?thesis by (metis (no_types, lifting))
qed

text \<open>
  C5. Both directions of every connection carry the bytes in order and without loss: what SOCKS has
  taken is a prefix of what lwIP delivered, the rest being in the client's buffer while the SOCKS
  client exists, and what was written to the pcb is a prefix of what SOCKS delivered, the rest being
  in the receive buffer while the pcb is open.
\<close>

theorem tcp_streams_in_order:
  assumes "tun_reach s"
  shows "prefix (h_to_socks (tn_hist s p)) (h_from_tcp (tn_hist s p)) \<and> prefix (h_to_tcp (tn_hist s p)) (h_from_socks (tn_hist s p)) \<and>
    (\<forall>c. tn_clients s p = Some c \<longrightarrow>
       (\<not> tc_socks_closed c \<longrightarrow> h_from_tcp (tn_hist s p) = h_to_socks (tn_hist s p) @ take (tc_buf_used c) (tc_buf c)) \<and>
       (\<not> tc_client_closed c \<longrightarrow> h_from_socks (tn_hist s p) = h_to_tcp (tn_hist s p) @ unsent c))"
proof -
  note inv = tun_reach_inv [OF assms]
  have h: "hist_ok (tn_hist s p)" using inv by (simp add: tun_inv_def)
  have "(\<not> tc_socks_closed c \<longrightarrow> h_from_tcp (tn_hist s p) = h_to_socks (tn_hist s p) @ take (tc_buf_used c) (tc_buf c)) \<and>
       (\<not> tc_client_closed c \<longrightarrow> h_from_socks (tn_hist s p) = h_to_tcp (tn_hist s p) @ unsent c)" if "tn_clients s p = Some c" for c
    using tun_invD(1) [OF inv that] by (auto simp: client_ok_def base_ok_def up_ok_def flow_ok_def split: option.splits)
  then show ?thesis using h by (simp add: hist_ok_def)
qed

theorem tcp_streams_in_order_witness:
  "\<exists>s. tun_reach s \<and> h_from_tcp (tn_hist s 1) = [1, 2, 3] \<and> prefix (h_to_socks (tn_hist s 1)) [1, 2, 3]"
proof -
  obtain s where s: "tun_reach s" "h_from_tcp (tn_hist s 1) = [1, 2, 3]" by (rule demo_recv)
  then show ?thesis using tcp_streams_in_order [OF s(1), of 1] by auto
qed

text \<open>
  C19. No client is ever stuck: a client in the table has a SOCKS client or unreported data on an
  open pcb; buffered data for a SOCKS client that is up is being sent; data waiting for the device
  waits for data in flight, which lwIP will report; and with an empty buffer and both sides open a
  receive is in progress.
\<close>

theorem tcp_client_progress:
  assumes "tun_reach s" "tn_clients s p = Some c"
  shows "(tn_socks s p \<noteq> None \<or> (\<exists>x. tn_pcbs s (tc_pcb c) = Some x \<and> pb_sent x \<and> pb_pending x > 0)) \<and>
    (\<forall>k. tn_socks s p = Some k \<and> sk_up k \<and> tc_buf_used c > 0 \<longrightarrow> sk_sending k \<noteq> None) \<and>
    (\<not> tc_client_closed c \<and> unsent c \<noteq> [] \<longrightarrow> (\<exists>x. tn_pcbs s (tc_pcb c) = Some x \<and> pb_sent x \<and> pb_pending x > 0)) \<and>
    (\<forall>k. tn_socks s p = Some k \<and> sk_up k \<and> \<not> tc_client_closed c \<and> tc_socks_recv_buf_used c = -1 \<longrightarrow> sk_recving k)"
proof -
  note ok = tun_invD(1) [OF tun_reach_inv [OF assms(1)] assms(2)]
  have up: "sk_up k = tc_socks_up c" if "tn_socks s p = Some k" for k using ok that by (auto simp: client_ok_def base_ok_def up_ok_def)
  have open_pcb: "\<exists>x. tn_pcbs s (tc_pcb c) = Some x \<and> flow_ok c x (tn_socks s p) (tn_hist s p)" if "\<not> tc_client_closed c" using client_ok_open [OF ok that] by blast
  have "tc_socks_closed c" if "tn_socks s p = None" using ok that by (simp add: client_ok_def base_ok_def)
  then have "\<exists>x. tn_pcbs s (tc_pcb c) = Some x \<and> pb_sent x \<and> pb_pending x > 0" if "tn_socks s p = None"
    using that ok open_pcb by (fastforce simp: client_ok_def flow_ok_def split: if_splits)
  moreover have "sk_sending k \<noteq> None" if "tn_socks s p = Some k" "sk_up k" "tc_buf_used c > 0" for k
    using ok that by (auto simp: client_ok_def base_ok_def up_ok_def split: if_splits)
  moreover have "\<exists>x. tn_pcbs s (tc_pcb c) = Some x \<and> pb_sent x \<and> pb_pending x > 0" if "\<not> tc_client_closed c" "unsent c \<noteq> []"
    using that open_pcb by (auto simp: flow_ok_def unsent_def split: if_splits)
  moreover have "sk_recving k" if "tn_socks s p = Some k" "sk_up k" "\<not> tc_client_closed c" "tc_socks_recv_buf_used c = -1" for k
    using open_pcb [OF that(3)] that up [OF that(1)] by (auto simp: flow_ok_def)
  ultimately show ?thesis by blast
qed

theorem tcp_client_progress_witness:
  "\<exists>s x. tun_reach s \<and> (tn_socks s 1 \<noteq> None \<or> tn_pcbs s x \<noteq> None)"
proof -
  obtain s c where s: "tun_reach s" "tn_clients s 1 = Some c" by (rule demo_recv)
  then show ?thesis using tcp_client_progress [OF s] by blast
qed

text \<open>
  A connection closed by the device side is drained: when the completion of a send to SOCKS ends
  the client, every byte that lwIP had delivered was taken by SOCKS.
\<close>

theorem tcp_close_drains:
  assumes "tun_reach s" "tun_enabled s (EV_socks p env (SK_sent n))" "tun_event_handler (EV_socks p env (SK_sent n)) s = Some (r, s')" "tn_clients s' p = None"
  shows "h_to_socks (tn_hist s' p) = h_from_tcp (tn_hist s' p)"
proof -
  note inv = tun_reach_inv [OF assms(1)]
  obtain k d where k: "tn_socks s p = Some k" "sk_sending k = Some d" "n \<le> length d" using assms(2) by auto
  obtain c where c: "tn_clients s p = Some c" using inv k(1) by (cases "tn_clients s p") (auto simp: tun_inv_def)
  note ok = tun_invD(1) [OF inv c]
  have d: "prefix d (take (tc_buf_used c) (tc_buf c))" "h_from_tcp (tn_hist s p) = h_to_socks (tn_hist s p) @ take (tc_buf_used c) (tc_buf c)"
    "length (tc_buf c) = TCP_WND" "tc_buf_used c \<le> TCP_WND"
    using ok k by (auto simp: client_ok_def base_ok_def up_ok_def split: if_splits)
  define s1 where "s1 = put_hist p ((tn_hist s p)\<lparr>h_to_socks := h_to_socks (tn_hist s p) @ take n d\<rparr>) (put_socks p (k\<lparr>sk_sending := None\<rparr>) s)"
  have run: "client_socks_send_handler_done (te_close env) p n s1 = Some s'" using assms(3) k by (auto simp: s1_def Let_def)
  have c1: "tn_clients s1 p = Some c" "tn_hist s1 p = (tn_hist s p)\<lparr>h_to_socks := h_to_socks (tn_hist s p) @ take n d\<rparr>" using c by (simp_all add: s1_def) (simp add: put_defs)
  from socks_sent_ends [OF c1(1) run assms(4)] have e: "n = tc_buf_used c" "tn_hist s' p = tn_hist s1 p" by auto
  obtain zs where z: "take (tc_buf_used c) (tc_buf c) = d @ zs" using d(1) by (auto simp: prefix_def)
  have l: "length d + length zs = tc_buf_used c" using arg_cong [OF z, of length] d(3,4) by simp
  then have "length zs = 0" "length d = n" using k(3) e(1) by linarith+
  then have "take n d = take (tc_buf_used c) (tc_buf c)" using z k(3) e(1) by simp
  then show ?thesis using e(2) c1(2) d(2) by simp
qed

theorem tcp_close_drains_witness:
  "\<exists>s r s'. tun_reach s \<and> tun_event_handler (EV_socks 1 demo_tc_env (SK_sent 3)) s = Some (r, s') \<and> tn_clients s' 1 = None \<and>
     h_to_socks (tn_hist s' 1) = h_from_tcp (tn_hist s' 1)"
proof -
  obtain s c k where s: "tun_reach s" "tn_clients s 1 = Some c" "tc_client_closed c" "tc_buf_used c = 3" "tn_socks s 1 = Some k" "sk_sending k = Some [1, 2, 3]"
    by (rule demo_drain)
  then have en: "tun_enabled s (EV_socks 1 demo_tc_env (SK_sent 3))" by simp
  obtain r s' where e: "tun_event_handler (EV_socks 1 demo_tc_env (SK_sent 3)) s = Some (r, s')" using tun_event_inv [OF tun_reach_inv [OF s(1)] en] by auto
  have "tn_clients s' 1 = None"
    using e s by (auto simp: client_socks_send_handler_done_def client_free_socks.simps client_dealloc_def put_defs Let_def split: if_splits)
  then show ?thesis using tcp_close_drains [OF s(1) en e] s(1) e by blast
qed

text \<open>
  C20. Shutting down releases everything: from every reachable state the loop at the end of \<open>main\<close>
  frees all clients, and no client, pcb or SOCKS client is left.
\<close>

theorem tcp_shutdown:
  assumes "tun_reach s"
  shows "\<exists>s'. free_clients s = Some s' \<and> tn_clients s' = Map.empty \<and> tn_pcbs s' = Map.empty \<and> tn_socks s' = Map.empty \<and> tn_num_clients s' = 0"
proof -
  obtain s' where s: "free_clients s = Some s'" "tun_inv None s'" "tn_tcp_clients s' = []" using free_clients_inv [OF tun_reach_inv [OF assms]] by blast
  then have "tn_clients s' = Map.empty" "tn_num_clients s' = 0" by (auto simp: tun_inv_def)
  moreover from this have "tn_socks s' = Map.empty" using s(2) by (auto simp: tun_inv_def)
  moreover have "tn_pcbs s' b = None" for b using s(2) calculation(1) by (cases "tn_pcbs s' b") (auto elim: tun_inv_pcb [OF s(2)])
  ultimately show ?thesis using s(1) by (auto simp: fun_eq_iff)
qed

theorem tcp_shutdown_witness: "\<exists>s s'. tun_reach s \<and> tn_clients s 1 \<noteq> None \<and> free_clients s = Some s' \<and> tn_clients s' = Map.empty"
proof -
  obtain s c where s: "tun_reach s" "tn_clients s 1 = Some c" by (rule demo_recv)
  then show ?thesis using tcp_shutdown [OF s(1)] by auto
qed

text \<open>
  C28. With \<open>--append-source-to-username\<close> the negotiation of one connection can read the username of
  another one after it was freed: there is a reachable state in which a connection still negotiates
  with the SOCKS server, while the username of the shared authentication table, which its SOCKS
  client was given, belongs to a client that has been deallocated.
\<close>

theorem socks_username_dangling:
  "\<exists>s p q c. tun_reach s \<and> tn_clients s q = Some c \<and> \<not> tc_socks_up c \<and> \<not> tc_socks_closed c \<and>
     tn_auth_user s = User_client p \<and> tn_clients s p = None"
proof -
  obtain s1 c where s1: "tun_reach s1" "tn_clients s1 = [1 \<mapsto> c]" "\<not> tc_socks_up c" "\<not> tc_socks_closed c" "dom (tn_pcbs s1) = {1}" "tn_append_source s1"
    by (rule demo_accept_run [OF tun_start [of True], of 1]) (simp_all add: tun_initial_def del: One_nat_def)
  have "2 \<notin> dom (tn_pcbs s1)" using s1(5) by simp
  then have "tn_pcbs s1 2 = None" by (simp add: domIff)
  then obtain s2 d where s2: "tun_reach s2" "tn_clients s2 = (tn_clients s1)(2 \<mapsto> d)" "\<not> tc_socks_up d" "\<not> tc_socks_closed d" "\<not> tc_client_closed d"
      "tc_buf_used d = 0" "tc_pcb d = 2" "tn_auth_user s2 = User_client 2"
    and pcb: "tn_pcbs s2 2 = Some \<lparr>pb_arg = 2, pb_err = True, pb_recv = True, pb_sent = False, pb_wnd = TCP_WND, pb_pending = 0\<rparr>"
    and so: "tn_socks s2 2 = Some \<lparr>sk_up = False, sk_sending = None, sk_recving = False\<rparr>"
    using demo_accept_run [OF s1(1), of 2 thesis] s1(2,6) by (simp add: that)
  have en: "tun_enabled s2 (EV_err 2 demo_tc_env)" using pcb by simp
  obtain r s3 where e: "tun_event_handler (EV_err 2 demo_tc_env) s2 = Some (r, s3)" using tun_event_inv [OF tun_reach_inv [OF s2(1)] en] by auto
  have "tn_clients s3 1 = Some c \<and> tn_clients s3 2 = None \<and> tn_auth_user s3 = User_client 2"
    using e pcb so s2 s1(2)
    by (auto simp: client_err_func_def client_handle_freed_client.simps client_free_socks.simps client_dealloc_def socks_Free_def DEAD_KILL_WITH_def put_defs Let_def
        split: if_splits option.splits)
  then show ?thesis using tun_more [OF s2(1) en e] s1(3,4) by blast
qed

end
