(* ===== verification/FairQueue.thy ===== *)
theory FairQueue
  imports Bavl
begin

text \<open>
  The fair queue of \<open>flow/PacketPassFairQueue.c\<close>, which shares one output between flows: every flow has
  a virtual time that grows by the size of the packets it sends, and the queued flow with the
  least time is sent next. The times are 64-bit words, and when a time is about to overflow all
  times are shifted down. The tree of queued flows is the list of its entries in order, as its
  insertion and its first element promise; the calls on the neighbours are part of the results.
\<close>

section \<open>State\<close>

definition FAIRQUEUE_MAX_TIME :: u64 where
  "FAIRQUEUE_MAX_TIME = - 1"

record PacketPassFairQueueFlow =
  ff_time :: u64
  ff_is_queued :: bool
  ff_data :: bytes
  ff_handler_busy :: bool

record PacketPassFairQueue =
  fq_mtu :: nat
  fq_use_cancel :: bool
  fq_packet_weight :: nat
  fq_sending_flow :: "ptr option"
  fq_sending_len :: nat
  fq_previous_flow :: "ptr option"
  fq_queued_tree :: "ptr list"
  fq_flows_list :: "ptr list"
  fq_freeing :: bool
  fq_schedule_job :: bool
  fq_flows :: "ptr \<rightharpoonup> PacketPassFairQueueFlow"

datatype fq_call = Output_Send bytes | Output_RequestCancel | Input_Done ptr | Busy_handler ptr

type_synonym fq_result = "PacketPassFairQueue \<times> fq_call list"

definition put_flow :: "ptr \<Rightarrow> PacketPassFairQueueFlow \<Rightarrow> PacketPassFairQueue \<Rightarrow> PacketPassFairQueue" where
  "put_flow p f m = m\<lparr>fq_flows := (fq_flows m)(p \<mapsto> f)\<rparr>"

section \<open>Order of the flows\<close>

definition compare_flows :: "u64 \<times> ptr \<Rightarrow> u64 \<times> ptr \<Rightarrow> int" where
  "compare_flows f1 f2 =
     (let cmp = B_COMPARE (fst f1) (fst f2) in if cmp \<noteq> 0 then cmp else B_COMPARE (snd f1) (snd f2))"

interpretation flow_cmp: bavl_comparator compare_flows "\<lambda>_. True"
  by unfold_locales (auto simp: compare_flows_def B_COMPARE_def of_bool_def Let_def prod_eq_iff split: if_splits)

definition flow_key :: "PacketPassFairQueue \<Rightarrow> ptr \<Rightarrow> u64 \<times> ptr" where
  "flow_key m p = (case fq_flows m p of Some f \<Rightarrow> (ff_time f, p) | None \<Rightarrow> (0, p))"

text \<open>Insertion in the tree, which fails when an equal entry is in it.\<close>

fun Tree_Insert :: "PacketPassFairQueue \<Rightarrow> ptr \<Rightarrow> ptr list \<Rightarrow> ptr list option" where
  "Tree_Insert m p [] = Some [p]"
| "Tree_Insert m p (q # qs) =
     (let comp = compare_flows (flow_key m p) (flow_key m q)
      in if comp = 0 then None
         else if comp = 1 then map_option ((#) q) (Tree_Insert m p qs) else Some (p # q # qs))"

definition first_time :: "PacketPassFairQueue \<Rightarrow> u64 option option" where
  "first_time m = (case fq_queued_tree m of [] \<Rightarrow> Some None
     | p # _ \<Rightarrow> do { f \<leftarrow> fq_flows m p; _ \<leftarrow> ASSERT (ff_is_queued f); Some (Some (ff_time f)) })"

definition get_current_time :: "PacketPassFairQueue \<Rightarrow> u64 option" where
  "get_current_time m = (case fq_sending_flow m of
     Some p \<Rightarrow> do { f \<leftarrow> fq_flows m p; Some (ff_time f) }
   | None \<Rightarrow> do {
       first \<leftarrow> first_time m;
       (case fq_previous_flow m of
          None \<Rightarrow> Some (case first of Some time \<Rightarrow> time | None \<Rightarrow> 0)
        | Some q \<Rightarrow> do {
            g \<leftarrow> fq_flows m q;
            Some (case first of None \<Rightarrow> ff_time g | Some time \<Rightarrow> if ff_time g < time then ff_time g else time) }) })"

section \<open>Sending\<close>

fun subtract_time :: "ptr \<Rightarrow> u64 \<Rightarrow> ptr list \<Rightarrow> PacketPassFairQueue \<Rightarrow> PacketPassFairQueue option" where
  "subtract_time flow subtract [] m = Some m"
| "subtract_time flow subtract (p # ps) m = do {
     f \<leftarrow> fq_flows m p;
     m1 \<leftarrow> (if subtract > ff_time f \<and> p \<noteq> flow
            then do { _ \<leftarrow> ASSERT (\<not> ff_is_queued f); Some (put_flow p (f\<lparr>ff_time := 0\<rparr>) m) }
            else Some (put_flow p (f\<lparr>ff_time := ff_time f - subtract\<rparr>) m));
     subtract_time flow subtract ps m1 }"

definition increment_sent_flow :: "ptr \<Rightarrow> u64 \<Rightarrow> PacketPassFairQueue \<Rightarrow> PacketPassFairQueue option" where
  "increment_sent_flow flow amount m = do {
     f \<leftarrow> fq_flows m flow;
     _ \<leftarrow> ASSERT (amount \<le> FAIRQUEUE_MAX_TIME);
     _ \<leftarrow> ASSERT (\<not> ff_is_queued f);
     _ \<leftarrow> ASSERT (fq_sending_flow m = None);
     m1 \<leftarrow> (if amount > FAIRQUEUE_MAX_TIME - ff_time f then do {
              first \<leftarrow> first_time m;
              subtract_time flow (case first of None \<Rightarrow> ff_time f | Some time \<Rightarrow> time) (fq_flows_list m) m }
            else Some m);
     f1 \<leftarrow> fq_flows m1 flow;
     Some (put_flow flow (f1\<lparr>ff_time := ff_time f1 + amount\<rparr>) m1) }"

definition fq_schedule :: "PacketPassFairQueue \<Rightarrow> fq_result option" where
  "fq_schedule m = do {
     _ \<leftarrow> ASSERT (fq_sending_flow m = None);
     _ \<leftarrow> ASSERT (fq_previous_flow m = None);
     _ \<leftarrow> ASSERT (\<not> fq_freeing m);
     (case fq_queued_tree m of [] \<Rightarrow> None
      | qflow # rest \<Rightarrow> do {
          f \<leftarrow> fq_flows m qflow;
          _ \<leftarrow> ASSERT (ff_is_queued f);
          Some ((put_flow qflow (f\<lparr>ff_is_queued := False\<rparr>) m)\<lparr>fq_queued_tree := rest,
                  fq_sending_flow := Some qflow, fq_sending_len := length (ff_data f)\<rparr>,
                [Output_Send (ff_data f)]) }) }"

definition schedule_job_handler :: "PacketPassFairQueue \<Rightarrow> fq_result option" where
  "schedule_job_handler m = do {
     _ \<leftarrow> ASSERT (fq_sending_flow m = None);
     _ \<leftarrow> ASSERT (\<not> fq_freeing m);
     let m1 = m\<lparr>fq_previous_flow := None\<rparr>;
     if fq_queued_tree m1 \<noteq> [] then fq_schedule m1 else Some (m1, []) }"

definition FQ_input_handler_send :: "ptr \<Rightarrow> bytes \<Rightarrow> PacketPassFairQueue \<Rightarrow> fq_result option" where
  "FQ_input_handler_send flow data m = do {
     f \<leftarrow> fq_flows m flow;
     _ \<leftarrow> ASSERT (Some flow \<noteq> fq_sending_flow m);
     _ \<leftarrow> ASSERT (\<not> ff_is_queued f);
     _ \<leftarrow> ASSERT (\<not> fq_freeing m);
     (f1, m1) \<leftarrow> (if Some flow = fq_previous_flow m then Some (f, m\<lparr>fq_previous_flow := None\<rparr>)
       else do { time \<leftarrow> get_current_time m; Some (f\<lparr>ff_time := max (ff_time f) time\<rparr>, m) });
     let m2 = put_flow flow (f1\<lparr>ff_data := data, ff_is_queued := True\<rparr>) m1;
     tree \<leftarrow> Tree_Insert m2 flow (fq_queued_tree m2);
     let m3 = m2\<lparr>fq_queued_tree := tree\<rparr>;
     if fq_sending_flow m3 = None \<and> \<not> fq_schedule_job m3 then fq_schedule m3 else Some (m3, []) }"

definition FQ_output_handler_done :: "PacketPassFairQueue \<Rightarrow> fq_result option" where
  "FQ_output_handler_done m = do {
     flow \<leftarrow> fq_sending_flow m;
     _ \<leftarrow> ASSERT (fq_previous_flow m = None);
     _ \<leftarrow> ASSERT (\<not> fq_schedule_job m);
     _ \<leftarrow> ASSERT (\<not> fq_freeing m);
     f \<leftarrow> fq_flows m flow;
     _ \<leftarrow> ASSERT (\<not> ff_is_queued f);
     m1 \<leftarrow> increment_sent_flow flow (of_nat (fq_packet_weight m) + of_nat (fq_sending_len m))
            (m\<lparr>fq_sending_flow := None, fq_previous_flow := Some flow\<rparr>);
     let m2 = m1\<lparr>fq_schedule_job := True\<rparr>;
     f1 \<leftarrow> fq_flows m2 flow;
     if ff_handler_busy f1
     then Some (put_flow flow (f1\<lparr>ff_handler_busy := False\<rparr>) m2, [Input_Done flow, Busy_handler flow])
     else Some (m2, [Input_Done flow]) }"

section \<open>Flows\<close>

definition PacketPassFairQueue_Init :: "nat \<Rightarrow> bool \<Rightarrow> nat \<Rightarrow> PacketPassFairQueue option" where
  "PacketPassFairQueue_Init mtu use_cancel packet_weight =
     (if (of_nat mtu :: u64) \<le> FAIRQUEUE_MAX_TIME \<and> of_nat packet_weight \<le> FAIRQUEUE_MAX_TIME - (of_nat mtu :: u64)
      then Some \<lparr>fq_mtu = mtu, fq_use_cancel = use_cancel, fq_packet_weight = packet_weight, fq_sending_flow = None,
             fq_sending_len = 0, fq_previous_flow = None, fq_queued_tree = [], fq_flows_list = [], fq_freeing = False,
             fq_schedule_job = False, fq_flows = Map.empty\<rparr>
      else None)"

definition PacketPassFairQueue_Free :: "PacketPassFairQueue \<Rightarrow> unit option" where
  "PacketPassFairQueue_Free m =
     ASSERT (fq_flows_list m = [] \<and> fq_queued_tree m = [] \<and> fq_previous_flow m = None \<and> fq_sending_flow m = None)"

definition PacketPassFairQueue_PrepareFree :: "PacketPassFairQueue \<Rightarrow> PacketPassFairQueue" where
  "PacketPassFairQueue_PrepareFree m = m\<lparr>fq_freeing := True\<rparr>"

definition PacketPassFairQueueFlow_Init :: "ptr \<Rightarrow> PacketPassFairQueue \<Rightarrow> PacketPassFairQueue option" where
  "PacketPassFairQueueFlow_Init flow m = do {
     _ \<leftarrow> ASSERT (\<not> fq_freeing m);
     Some ((put_flow flow \<lparr>ff_time = 0, ff_is_queued = False, ff_data = [], ff_handler_busy = False\<rparr> m)\<lparr>
             fq_flows_list := fq_flows_list m @ [flow]\<rparr>) }"

definition PacketPassFairQueueFlow_Free :: "ptr \<Rightarrow> PacketPassFairQueue \<Rightarrow> PacketPassFairQueue option" where
  "PacketPassFairQueueFlow_Free flow m = do {
     f \<leftarrow> fq_flows m flow;
     _ \<leftarrow> ASSERT (fq_freeing m \<or> Some flow \<noteq> fq_sending_flow m);
     let m1 = (if Some flow = fq_sending_flow m then m\<lparr>fq_sending_flow := None\<rparr> else m);
     let m2 = (if Some flow = fq_previous_flow m1 then m1\<lparr>fq_previous_flow := None\<rparr> else m1);
     let m3 = (if ff_is_queued f then m2\<lparr>fq_queued_tree := remove1 flow (fq_queued_tree m2)\<rparr> else m2);
     Some (m3\<lparr>fq_flows_list := remove1 flow (fq_flows_list m3), fq_flows := (fq_flows m3)(flow := None)\<rparr>) }"

definition PacketPassFairQueueFlow_AssertFree :: "ptr \<Rightarrow> PacketPassFairQueue \<Rightarrow> unit option" where
  "PacketPassFairQueueFlow_AssertFree flow m = ASSERT (fq_freeing m \<or> Some flow \<noteq> fq_sending_flow m)"

definition PacketPassFairQueueFlow_IsBusy :: "ptr \<Rightarrow> PacketPassFairQueue \<Rightarrow> bool option" where
  "PacketPassFairQueueFlow_IsBusy flow m = do { _ \<leftarrow> ASSERT (\<not> fq_freeing m); Some (Some flow = fq_sending_flow m) }"

definition PacketPassFairQueueFlow_RequestCancel :: "ptr \<Rightarrow> PacketPassFairQueue \<Rightarrow> fq_result option" where
  "PacketPassFairQueueFlow_RequestCancel flow m = do {
     _ \<leftarrow> ASSERT (Some flow = fq_sending_flow m);
     _ \<leftarrow> ASSERT (fq_use_cancel m);
     _ \<leftarrow> ASSERT (\<not> fq_freeing m);
     _ \<leftarrow> ASSERT (\<not> fq_schedule_job m);
     Some (m, [Output_RequestCancel]) }"

definition PacketPassFairQueueFlow_SetBusyHandler :: "ptr \<Rightarrow> bool \<Rightarrow> PacketPassFairQueue \<Rightarrow> PacketPassFairQueue option" where
  "PacketPassFairQueueFlow_SetBusyHandler flow handler m = do {
     f \<leftarrow> fq_flows m flow;
     _ \<leftarrow> ASSERT (Some flow = fq_sending_flow m);
     _ \<leftarrow> ASSERT (\<not> fq_freeing m);
     Some (put_flow flow (f\<lparr>ff_handler_busy := handler\<rparr>) m) }"

lemmas fq_busy_defs = PacketPassFairQueueFlow_AssertFree_def PacketPassFairQueueFlow_IsBusy_def

section \<open>Runs\<close>

text \<open>
  The events of the queue and when its contract lets them happen: a flow sends when its previous
  packet is done, the output finishes what it was sent, the pending job runs, flows come and go. In
  the freeing state only flows are freed.
\<close>

datatype fq_event = FQ_send ptr bytes | FQ_done | FQ_job | FQ_init ptr | FQ_free ptr | FQ_cancel ptr | FQ_busy ptr bool | FQ_prepare

fun fq_enabled :: "fq_event \<Rightarrow> PacketPassFairQueue \<Rightarrow> bool" where
  "fq_enabled (FQ_send p d) m \<longleftrightarrow> \<not> fq_freeing m \<and> length d \<le> fq_mtu m \<and> fq_sending_flow m \<noteq> Some p \<and>
     (case fq_flows m p of Some f \<Rightarrow> \<not> ff_is_queued f | None \<Rightarrow> False)"
| "fq_enabled FQ_done m \<longleftrightarrow> \<not> fq_freeing m \<and> fq_sending_flow m \<noteq> None"
| "fq_enabled FQ_job m \<longleftrightarrow> \<not> fq_freeing m \<and> fq_schedule_job m"
| "fq_enabled (FQ_init p) m \<longleftrightarrow> \<not> fq_freeing m \<and> fq_flows m p = None"
| "fq_enabled (FQ_free p) m \<longleftrightarrow> fq_flows m p \<noteq> None \<and> PacketPassFairQueueFlow_AssertFree p m \<noteq> None"
| "fq_enabled (FQ_cancel p) m \<longleftrightarrow> \<not> fq_freeing m \<and> fq_use_cancel m \<and> PacketPassFairQueueFlow_IsBusy p m = Some True"
| "fq_enabled (FQ_busy p b) m \<longleftrightarrow> \<not> fq_freeing m \<and> PacketPassFairQueueFlow_IsBusy p m = Some True"
| "fq_enabled FQ_prepare m \<longleftrightarrow> True"

fun fq_handle :: "fq_event \<Rightarrow> PacketPassFairQueue \<Rightarrow> fq_result option" where
  "fq_handle (FQ_send p d) m = FQ_input_handler_send p d m"
| "fq_handle FQ_done m = FQ_output_handler_done m"
| "fq_handle FQ_job m = schedule_job_handler (m\<lparr>fq_schedule_job := False\<rparr>)"
| "fq_handle (FQ_init p) m = map_option (\<lambda>m1. (m1, [])) (PacketPassFairQueueFlow_Init p m)"
| "fq_handle (FQ_free p) m = map_option (\<lambda>m1. (m1, [])) (PacketPassFairQueueFlow_Free p m)"
| "fq_handle (FQ_cancel p) m = PacketPassFairQueueFlow_RequestCancel p m"
| "fq_handle (FQ_busy p b) m = map_option (\<lambda>m1. (m1, [])) (PacketPassFairQueueFlow_SetBusyHandler p b m)"
| "fq_handle FQ_prepare m = Some (PacketPassFairQueue_PrepareFree m, [])"

text \<open>
  What has happened to each flow since it was initialised: the packets it handed over, those given
  to the output, and the weight of those the output has finished.
\<close>

record fq_hist =
  fh_accepted :: "ptr \<Rightarrow> bytes list"
  fh_sent :: "ptr \<Rightarrow> bytes list"
  fh_served :: "ptr \<Rightarrow> nat"

fun fq_log :: "fq_event \<Rightarrow> PacketPassFairQueue \<Rightarrow> fq_result \<Rightarrow> fq_hist \<Rightarrow> fq_hist" where
  "fq_log e m (m1, calls) h =
     (let h1 = (case e of
            FQ_send p d \<Rightarrow> h\<lparr>fh_accepted := (fh_accepted h)(p := fh_accepted h p @ [d])\<rparr>
          | FQ_done \<Rightarrow> (case fq_sending_flow m of None \<Rightarrow> h
              | Some p \<Rightarrow> h\<lparr>fh_served := (fh_served h)(p := fh_served h p + (fq_packet_weight m + fq_sending_len m))\<rparr>)
          | FQ_init p \<Rightarrow> \<lparr>fh_accepted = (fh_accepted h)(p := []), fh_sent = (fh_sent h)(p := []), fh_served = (fh_served h)(p := 0)\<rparr>
          | _ \<Rightarrow> h)
      in case (fq_sending_flow m1, calls) of
           (Some p, [Output_Send d]) \<Rightarrow> h1\<lparr>fh_sent := (fh_sent h1)(p := fh_sent h1 p @ [d])\<rparr>
         | _ \<Rightarrow> h1)"

inductive fq_reach :: "PacketPassFairQueue \<Rightarrow> fq_hist \<Rightarrow> bool" where
  init: "\<lbrakk>PacketPassFairQueue_Init mtu use_cancel weight = Some m; mtu < 2 ^ 31; 0 < weight; weight < 2 ^ 31\<rbrakk> \<Longrightarrow>
    fq_reach m \<lparr>fh_accepted = (\<lambda>_. []), fh_sent = (\<lambda>_. []), fh_served = (\<lambda>_. 0)\<rparr>"
| step: "\<lbrakk>fq_reach m h; fq_enabled e m; fq_handle e m = Some r\<rbrakk> \<Longrightarrow> fq_reach (fst r) (fq_log e m r h)"

section \<open>Invariant\<close>

definition ft :: "PacketPassFairQueue \<Rightarrow> ptr \<Rightarrow> nat" where
  "ft m p = (case fq_flows m p of Some f \<Rightarrow> unat (ff_time f) | None \<Rightarrow> 0)"

definition flow_less :: "PacketPassFairQueue \<Rightarrow> ptr \<Rightarrow> ptr \<Rightarrow> bool" where
  "flow_less m p q \<longleftrightarrow> ft m p < ft m q \<or> ft m p = ft m q \<and> p < q"

definition idle_flow :: "PacketPassFairQueue \<Rightarrow> ptr \<Rightarrow> bool" where
  "idle_flow m p \<longleftrightarrow> (\<exists>f. fq_flows m p = Some f \<and> \<not> ff_is_queued f)"

definition fq_base :: "PacketPassFairQueue \<Rightarrow> bool" where
  "fq_base m \<longleftrightarrow> distinct (fq_flows_list m) \<and> set (fq_flows_list m) = dom (fq_flows m) \<and>
     sorted_wrt (flow_less m) (fq_queued_tree m) \<and>
     set (fq_queued_tree m) = {p. \<exists>f. fq_flows m p = Some f \<and> ff_is_queued f} \<and>
     (\<forall>p. fq_sending_flow m = Some p \<longrightarrow> idle_flow m p \<and> fq_previous_flow m = None \<and> \<not> fq_schedule_job m \<and>
        fq_sending_len m \<le> fq_mtu m \<and> (\<forall>q \<in> set (fq_queued_tree m). ft m p \<le> ft m q)) \<and>
     (\<forall>p. fq_previous_flow m = Some p \<longrightarrow> idle_flow m p \<and> fq_schedule_job m) \<and>
     (\<forall>p f. fq_flows m p = Some f \<longrightarrow> ff_is_queued f \<longrightarrow> length (ff_data f) \<le> fq_mtu m) \<and>
     fq_mtu m < 2 ^ 31 \<and> fq_packet_weight m < 2 ^ 31"

definition fq_inv :: "PacketPassFairQueue \<Rightarrow> bool" where
  "fq_inv m \<longleftrightarrow> fq_base m \<and> (\<not> fq_freeing m \<and> fq_sending_flow m = None \<and> \<not> fq_schedule_job m \<longrightarrow> fq_queued_tree m = [])"

lemma compare_less: "compare_flows (flow_key m p) (flow_key m q) = -1 \<longleftrightarrow> flow_less m p q"
  by (auto simp: compare_flows_def flow_key_def flow_less_def ft_def B_COMPARE_def word_less_nat_alt Let_def word_unat_eq_iff split: option.splits)

lemma compare_flow_cases:
  "compare_flows (flow_key m p) (flow_key m q) = (if p = q then 0 else if flow_less m p q then -1 else 1)"
proof (cases "p = q")
  case True
  then show ?thesis by (simp add: compare_flows_def)
next
  case False
  then have "flow_key m p \<noteq> flow_key m q" by (auto simp: flow_key_def split: option.splits)
  then have "compare_flows (flow_key m p) (flow_key m q) \<noteq> 0" using flow_cmp.cmp_zero by blast
  then show ?thesis using False compare_less [of m p q] flow_cmp.cmp_range [of "flow_key m p" "flow_key m q"] by auto
qed

lemma flow_less_linear: "p \<noteq> q \<Longrightarrow> \<not> flow_less m p q \<Longrightarrow> flow_less m q p"
  by (auto simp: flow_less_def)

lemma flow_less_trans: "\<lbrakk>flow_less m p q; flow_less m q r\<rbrakk> \<Longrightarrow> flow_less m p r"
  by (auto simp: flow_less_def)

lemma Tree_Insert_sorted:
  "\<lbrakk>sorted_wrt (flow_less m) xs; p \<notin> set xs\<rbrakk> \<Longrightarrow>
   \<exists>ys. Tree_Insert m p xs = Some ys \<and> sorted_wrt (flow_less m) ys \<and> set ys = insert p (set xs)"
proof (induction xs)
  case (Cons q qs)
  show ?case
  proof (cases "flow_less m p q")
    case True
    then show ?thesis using Cons.prems flow_less_trans by (fastforce simp: compare_flow_cases Let_def)
  next
    case False
    obtain ys where ys: "Tree_Insert m p qs = Some ys" "sorted_wrt (flow_less m) ys" "set ys = insert p (set qs)"
      using Cons by auto
    have "flow_less m q p" using False Cons.prems(2) flow_less_linear by auto
    then show ?thesis using Cons.prems ys False by (auto simp: compare_flow_cases Let_def)
  qed
qed simp

section \<open>The time shift\<close>

definition shift_flow :: "ptr \<Rightarrow> u64 \<Rightarrow> ptr \<Rightarrow> PacketPassFairQueueFlow \<Rightarrow> PacketPassFairQueueFlow" where
  "shift_flow flow sub p f = f\<lparr>ff_time := if sub > ff_time f \<and> p \<noteq> flow then 0 else ff_time f - sub\<rparr>"

lemma subtract_time_eq:
  "\<lbrakk>distinct ps; \<And>p. p \<in> set ps \<Longrightarrow> \<exists>f. fq_flows m p = Some f \<and> (ff_is_queued f \<longrightarrow> sub \<le> ff_time f)\<rbrakk> \<Longrightarrow>
   subtract_time flow sub ps m = Some (m\<lparr>fq_flows := \<lambda>p. if p \<in> set ps then map_option (shift_flow flow sub p) (fq_flows m p) else fq_flows m p\<rparr>)"
proof (induction ps arbitrary: m)
  case (Cons p ps)
  obtain f where f: "fq_flows m p = Some f" "ff_is_queued f \<longrightarrow> sub \<le> ff_time f" using Cons.prems(2) [of p] by auto
  let ?m = "put_flow p (shift_flow flow sub p f) m"
  have step: "subtract_time flow sub (p # ps) m = subtract_time flow sub ps ?m"
    using f by (auto simp: shift_flow_def)
  have "\<exists>g. fq_flows ?m q = Some g \<and> (ff_is_queued g \<longrightarrow> sub \<le> ff_time g)" if "q \<in> set ps" for q
    using Cons.prems(1) Cons.prems(2) [of q] that by (auto simp: put_flow_def)
  then have "subtract_time flow sub ps ?m =
    Some (?m\<lparr>fq_flows := \<lambda>q. if q \<in> set ps then map_option (shift_flow flow sub q) (fq_flows ?m q) else fq_flows ?m q\<rparr>)"
    using Cons.IH [of ?m] Cons.prems(1) by simp
  moreover have "(\<lambda>q. if q \<in> set ps then map_option (shift_flow flow sub q) (fq_flows ?m q) else fq_flows ?m q) =
    (\<lambda>q. if q \<in> set (p # ps) then map_option (shift_flow flow sub q) (fq_flows m q) else fq_flows m q)"
    using Cons.prems(1) f by (auto simp: put_flow_def fun_eq_iff)
  ultimately show ?case using step by (simp add: put_flow_def)
qed simp

lemma fq_invD:
  assumes "fq_inv m"
  shows "distinct (fq_flows_list m)" "set (fq_flows_list m) = dom (fq_flows m)" "sorted_wrt (flow_less m) (fq_queued_tree m)"
    "set (fq_queued_tree m) = {p. \<exists>f. fq_flows m p = Some f \<and> ff_is_queued f}"
    "fq_sending_flow m = Some p \<Longrightarrow> idle_flow m p \<and> fq_previous_flow m = None \<and> \<not> fq_schedule_job m \<and>
        fq_sending_len m \<le> fq_mtu m \<and> (\<forall>q \<in> set (fq_queued_tree m). ft m p \<le> ft m q)"
    "fq_previous_flow m = Some p \<Longrightarrow> idle_flow m p \<and> fq_schedule_job m"
    "\<not> fq_freeing m \<and> fq_sending_flow m = None \<and> \<not> fq_schedule_job m \<Longrightarrow> fq_queued_tree m = []"
    "\<lbrakk>fq_flows m p = Some f; ff_is_queued f\<rbrakk> \<Longrightarrow> length (ff_data f) \<le> fq_mtu m"
    "fq_mtu m < 2 ^ 31" "fq_packet_weight m < 2 ^ 31"
  using assms unfolding fq_inv_def fq_base_def by blast+

text \<open>
  The end of a transmission: the time of the flow that was sent grows by the weight of its packet
  and, when the word would overflow, all times that count go down by the same amount.
\<close>

definition cost :: "PacketPassFairQueue \<Rightarrow> nat" where
  "cost m = fq_packet_weight m + fq_sending_len m"

lemma unat_cost: "fq_inv m \<Longrightarrow> fq_sending_flow m = Some k \<Longrightarrow> unat (of_nat (fq_packet_weight m) + of_nat (fq_sending_len m) :: u64) = cost m \<and> cost m < 2 ^ 32"
proof -
  assume "fq_inv m" "fq_sending_flow m = Some k"
  then have "fq_packet_weight m < 2 ^ 31" "fq_sending_len m < 2 ^ 31" using fq_invD(5,9,10) by (metis order.strict_trans1)+
  then have c: "cost m < 2 ^ 32" by (simp add: cost_def)
  have "of_nat (fq_packet_weight m) + of_nat (fq_sending_len m) = (of_nat (cost m) :: u64)" by (simp add: cost_def)
  moreover have "unat (of_nat (cost m) :: u64) = cost m" using c by (simp add: unat_of_nat)
  ultimately show ?thesis using c by metis
qed

lemma uint_time_left: "uint (- 1 - t :: u64) = 2 ^ 64 - 1 - uint t"
proof -
  have "uint (- 1 - t) = (2 ^ 64 - 1 - uint t) mod 2 ^ 64" by (simp add: uint_word_ariths)
  also have "\<dots> = 2 ^ 64 - 1 - uint t"
  proof -
    have "uint t < 2 ^ 64" "0 \<le> uint t" using uint_bounded [of t] by simp_all
    then show ?thesis by (intro mod_pos_pos_trivial) linarith+
  qed
  finally show ?thesis .
qed

lemma add_time_wraps:
  fixes a t s :: u64
  assumes "t \<le> s" "a > - 1 - t"
  shows "unat (t - s + a) + unat s = unat t + unat a"
proof -
  have t: "uint t < 2 ^ 64" "uint a < 2 ^ 64" "uint s < 2 ^ 64" "0 \<le> uint t" "uint t \<le> uint s"
    using uint_bounded [of t] uint_bounded [of a] uint_bounded [of s] assms(1) by (simp_all add: word_le_def)
  have big: "2 ^ 64 \<le> uint t + uint a" using assms(2) t unfolding word_less_def uint_time_left by linarith
  have "uint (t - s + a) = (uint t - uint s + uint a) mod 2 ^ 64" by (simp add: uint_word_ariths mod_simps)
  also have "\<dots> = uint t - uint s + uint a" using t big by (intro mod_pos_pos_trivial) linarith+
  finally have "int (unat (t - s + a) + unat s) = int (unat t + unat a)" by simp
  then show ?thesis by (simp only: of_nat_eq_iff)
qed

lemma add_time_fits:
  fixes a t :: u64
  assumes "\<not> a > - 1 - t"
  shows "unat (t + a) = unat t + unat a"
proof -
  have t: "uint t < 2 ^ 64" "0 \<le> uint t" "0 \<le> uint a" using uint_bounded [of t] by simp_all
  have small: "uint t + uint a < 2 ^ 64" using assms t unfolding word_less_def uint_time_left by linarith
  have "uint (t + a) = (uint t + uint a) mod 2 ^ 64" by (simp add: uint_word_ariths)
  also have "\<dots> = uint t + uint a" using small t by (intro mod_pos_pos_trivial) linarith+
  finally have "int (unat (t + a)) = int (unat t + unat a)" by simp
  then show ?thesis by (simp only: of_nat_eq_iff)
qed


lemma unat_sub_le: "(s :: u64) \<le> t \<Longrightarrow> unat (t - s) + unat s = unat t"
  by (simp add: unat_sub word_le_nat_alt)

lemma first_time_eq:
  assumes "fq_inv m"
  shows "first_time m = Some (case fq_queued_tree m of [] \<Rightarrow> None | p # _ \<Rightarrow> Some (ff_time (the (fq_flows m p))))"
proof (cases "fq_queued_tree m")
  case (Cons p ps)
  then have "p \<in> set (fq_queued_tree m)" by simp
  then obtain f where "fq_flows m p = Some f" "ff_is_queued f" unfolding fq_invD(4) [OF assms] by blast
  then show ?thesis by (simp add: first_time_def Cons)
qed (simp add: first_time_def)

lemma first_least:
  assumes "fq_inv m" "fq_queued_tree m = p # ps" "q \<in> set (fq_queued_tree m)"
  shows "ft m p \<le> ft m q"
  using fq_invD(3) [OF assms(1)] assms(2,3) by (auto simp: flow_less_def)

lemma increment_outcome:
  assumes inv: "fq_inv m" and k: "fq_sending_flow m = Some k" and a: "unat a = cost m"
  defines "m0 \<equiv> m\<lparr>fq_sending_flow := None, fq_previous_flow := Some k\<rparr>"
  shows "\<exists>m1 g delta. increment_sent_flow k a m0 = Some m1 \<and> m1 = m0\<lparr>fq_flows := g\<rparr> \<and>
    (\<forall>p. map_option (\<lambda>f. f\<lparr>ff_time := 0\<rparr>) (g p) = map_option (\<lambda>f. f\<lparr>ff_time := 0\<rparr>) (fq_flows m p)) \<and>
    ft m1 k + delta = ft m k + cost m \<and> (\<forall>q \<in> set (fq_queued_tree m). ft m1 q + delta = ft m q)"
proof -
  obtain f where f: "fq_flows m k = Some f" "\<not> ff_is_queued f" using fq_invD(5) [OF inv k] by (auto simp: idle_flow_def)
  have kq: "k \<notin> set (fq_queued_tree m)" using f fq_invD(4) [OF inv] by auto
  have m0_fields: "fq_flows m0 = fq_flows m" "fq_flows_list m0 = fq_flows_list m" by (simp_all add: m0_def)
  have first0: "first_time m0 = first_time m" by (cases "fq_queued_tree m") (simp_all add: first_time_def m0_def)
  have fits: "a \<le> FAIRQUEUE_MAX_TIME" by (simp add: FAIRQUEUE_MAX_TIME_def)
  show ?thesis
  proof (cases "a > FAIRQUEUE_MAX_TIME - ff_time f")
    case False
    let ?g = "(fq_flows m)(k \<mapsto> f\<lparr>ff_time := ff_time f + a\<rparr>)"
    have "increment_sent_flow k a m0 = Some (m0\<lparr>fq_flows := ?g\<rparr>)"
      using False f fits by (simp add: increment_sent_flow_def m0_def put_flow_def)
    moreover have "unat (ff_time f + a) = unat (ff_time f) + cost m"
      using add_time_fits [of "ff_time f" a] False a by (simp add: FAIRQUEUE_MAX_TIME_def)
    ultimately show ?thesis using f kq
      by (intro exI [of _ "m0\<lparr>fq_flows := ?g\<rparr>"] exI [of _ ?g] exI [of _ 0]) (auto simp: ft_def)
  next
    case True
    define sub where "sub = (case fq_queued_tree m of [] \<Rightarrow> ff_time f | p # _ \<Rightarrow> ff_time (the (fq_flows m p)))"
    have sub_le: "sub \<le> ff_time g" if "fq_flows m q = Some g" "ff_is_queued g" for q g
    proof -
      have q: "q \<in> set (fq_queued_tree m)" using that fq_invD(4) [OF inv] by auto
      then obtain p ps where p: "fq_queued_tree m = p # ps" by (cases "fq_queued_tree m") auto
      then have "p \<in> set (fq_queued_tree m)" by simp
      then obtain f' where "fq_flows m p = Some f'" unfolding fq_invD(4) [OF inv] by blast
      then show ?thesis using first_least [OF inv p q] that p by (simp add: sub_def ft_def word_le_nat_alt)
    qed
    have sub_ge: "ff_time f \<le> sub"
    proof (cases "fq_queued_tree m")
      case (Cons p ps)
      then have "p \<in> set (fq_queued_tree m)" by simp
      moreover obtain f' where "fq_flows m p = Some f'" using calculation unfolding fq_invD(4) [OF inv] by blast
      ultimately show ?thesis using fq_invD(5) [OF inv k] f Cons by (auto simp: sub_def ft_def word_le_nat_alt)
    qed (simp add: sub_def)
    let ?g = "(\<lambda>p. map_option (shift_flow k sub p) (fq_flows m p))(k \<mapsto> f\<lparr>ff_time := ff_time f - sub + a\<rparr>)"
    have "fq_flows m p \<noteq> None \<longleftrightarrow> p \<in> set (fq_flows_list m)" for p using fq_invD(2) [OF inv] by auto
    then have shift: "(\<lambda>p. if p \<in> set (fq_flows_list m) then map_option (shift_flow k sub p) (fq_flows m p) else fq_flows m p) =
      (\<lambda>p. map_option (shift_flow k sub p) (fq_flows m p))" by (fastforce simp: fun_eq_iff)
    have "\<exists>f. fq_flows m0 p = Some f \<and> (ff_is_queued f \<longrightarrow> sub \<le> ff_time f)" if "p \<in> set (fq_flows_list m0)" for p
      using that sub_le fq_invD(2) [OF inv] by (auto simp: m0_def)
    then have "subtract_time k sub (fq_flows_list m0) m0 = Some (m0\<lparr>fq_flows := \<lambda>p. map_option (shift_flow k sub p) (fq_flows m p)\<rparr>)"
      using subtract_time_eq [of "fq_flows_list m0" m0 sub k] fq_invD(1) [OF inv] unfolding m0_fields shift by blast
    moreover have "first_time m0 = Some (case fq_queued_tree m of [] \<Rightarrow> None | p # _ \<Rightarrow> Some (ff_time (the (fq_flows m p))))"
      using first_time_eq [OF inv] first0 by simp
    ultimately have run: "increment_sent_flow k a m0 = Some (m0\<lparr>fq_flows := ?g\<rparr>)"
      using True f fits by (cases "fq_queued_tree m")
        (simp_all add: increment_sent_flow_def m0_def put_flow_def sub_def shift_flow_def)
    have "unat (ff_time f - sub + a) + unat sub = unat (ff_time f) + cost m"
      using add_time_wraps [of "ff_time f" sub a] sub_ge True a by (simp add: FAIRQUEUE_MAX_TIME_def)
    moreover have "ft (m0\<lparr>fq_flows := ?g\<rparr>) q + unat sub = ft m q" if "q \<in> set (fq_queued_tree m)" for q
    proof -
      obtain g where g: "fq_flows m q = Some g" "ff_is_queued g" using \<open>q \<in> _\<close> unfolding fq_invD(4) [OF inv] by blast
      then have "unat (ff_time (shift_flow k sub q g)) + unat sub = unat (ff_time g)"
        using sub_le [OF g] unat_sub_le by (auto simp: shift_flow_def)
      then show ?thesis using g that kq by (auto simp: ft_def)
    qed
    moreover have "map_option (\<lambda>f. f\<lparr>ff_time := 0\<rparr>) (?g p) = map_option (\<lambda>f. f\<lparr>ff_time := 0\<rparr>) (fq_flows m p)" for p
      using f by (cases "fq_flows m p") (auto simp: shift_flow_def)
    ultimately show ?thesis using f run
      by (intro exI [of _ "m0\<lparr>fq_flows := ?g\<rparr>"] exI [of _ ?g] exI [of _ "unat sub"]) (simp add: ft_def)
  qed
qed

section \<open>Every event keeps the invariant\<close>

lemma flow_less_cong: "\<lbrakk>ft m' p + d = ft m p; ft m' q + d = ft m q\<rbrakk> \<Longrightarrow> flow_less m' p q \<longleftrightarrow> flow_less m p q"
  by (auto simp: flow_less_def)

lemma sorted_shift:
  assumes "sorted_wrt (flow_less m) xs" "\<forall>q \<in> set xs. ft m' q + d = ft m q"
  shows "sorted_wrt (flow_less m') xs"
  using assms(1) by (rule sorted_wrt_mono_rel [rotated]) (use assms(2) flow_less_cong in metis)

definition same_flows :: "(ptr \<rightharpoonup> PacketPassFairQueueFlow) \<Rightarrow> (ptr \<rightharpoonup> PacketPassFairQueueFlow) \<Rightarrow> bool" where
  "same_flows g g' \<longleftrightarrow> (\<forall>p. map_option (\<lambda>f. (ff_is_queued f, ff_data f)) (g p) = map_option (\<lambda>f. (ff_is_queued f, ff_data f)) (g' p))"

lemma same_flowsD:
  assumes "same_flows g g'"
  shows "dom g = dom g'" and "(\<exists>f. g p = Some f \<and> P (ff_is_queued f) (ff_data f)) \<longleftrightarrow> (\<exists>f. g' p = Some f \<and> P (ff_is_queued f) (ff_data f))"
proof -
  have e: "map_option (\<lambda>f. (ff_is_queued f, ff_data f)) (g p) = map_option (\<lambda>f. (ff_is_queued f, ff_data f)) (g' p)" for p
    using assms by (simp add: same_flows_def)
  have "g p = None \<longleftrightarrow> g' p = None" for p using e [of p] by (cases "g p"; cases "g' p") auto
  then show "dom g = dom g'" by (simp add: dom_def)
  show "(\<exists>f. g p = Some f \<and> P (ff_is_queued f) (ff_data f)) \<longleftrightarrow> (\<exists>f. g' p = Some f \<and> P (ff_is_queued f) (ff_data f))"
    using e [of p] by (cases "g p"; cases "g' p") auto
qed

lemma done_outcome:
  assumes inv: "fq_inv m" and k: "fq_sending_flow m = Some k" and fr: "\<not> fq_freeing m"
  shows "\<exists>calls g delta. FQ_output_handler_done m =
      Some (m\<lparr>fq_sending_flow := None, fq_previous_flow := Some k, fq_schedule_job := True, fq_flows := g\<rparr>, calls) \<and>
    (calls = [Input_Done k] \<or> calls = [Input_Done k, Busy_handler k]) \<and> same_flows g (fq_flows m) \<and>
    (let m' = m\<lparr>fq_sending_flow := None, fq_previous_flow := Some k, fq_schedule_job := True, fq_flows := g\<rparr> in
      ft m' k + delta = ft m k + cost m \<and> (\<forall>q \<in> set (fq_queued_tree m). ft m' q + delta = ft m q))"
proof -
  let ?a = "of_nat (fq_packet_weight m) + of_nat (fq_sending_len m) :: u64"
  have "unat ?a = cost m" using unat_cost [OF inv k] by simp
  then obtain m1 g delta where g: "increment_sent_flow k ?a (m\<lparr>fq_sending_flow := None, fq_previous_flow := Some k\<rparr>) = Some m1"
    "m1 = m\<lparr>fq_sending_flow := None, fq_previous_flow := Some k\<rparr>\<lparr>fq_flows := g\<rparr>"
    "\<forall>p. map_option (\<lambda>f. f\<lparr>ff_time := 0\<rparr>) (g p) = map_option (\<lambda>f. f\<lparr>ff_time := 0\<rparr>) (fq_flows m p)"
    "ft m1 k + delta = ft m k + cost m" "\<forall>q \<in> set (fq_queued_tree m). ft m1 q + delta = ft m q"
    using increment_outcome [OF inv k, of ?a] by blast
  obtain f where f: "fq_flows m k = Some f" "\<not> ff_is_queued f" and pj: "fq_previous_flow m = None" "\<not> fq_schedule_job m"
    using fq_invD(5) [OF inv k] by (auto simp: idle_flow_def)
  have "map_option (\<lambda>f. f\<lparr>ff_time := 0\<rparr>) (g k) = Some (f\<lparr>ff_time := 0\<rparr>)" using g(3) f(1) by simp
  then obtain f1 where f1: "g k = Some f1" by (cases "g k") auto
  have same: "same_flows g (fq_flows m)"
    unfolding same_flows_def
  proof
    fix p
    show "map_option (\<lambda>f. (ff_is_queued f, ff_data f)) (g p) = map_option (\<lambda>f. (ff_is_queued f, ff_data f)) (fq_flows m p)"
      using arg_cong [OF g(3) [rule_format, of p], of "map_option (\<lambda>f. (ff_is_queued f, ff_data f))"]
      by (simp add: option.map_comp comp_def)
  qed
  let ?g = "if ff_handler_busy f1 then g(k \<mapsto> f1\<lparr>ff_handler_busy := False\<rparr>) else g"
  let ?m = "m\<lparr>fq_sending_flow := None, fq_previous_flow := Some k, fq_schedule_job := True, fq_flows := ?g\<rparr>"
  have "FQ_output_handler_done m = Some (?m, if ff_handler_busy f1 then [Input_Done k, Busy_handler k] else [Input_Done k])"
    using g(1,2) f pj k fr f1 by (simp add: FQ_output_handler_done_def put_flow_def)
  moreover have "same_flows ?g g" using f1 by (simp add: same_flows_def)
  then have "same_flows ?g (fq_flows m)" using same by (simp add: same_flows_def)
  moreover have "ft ?m q = ft m1 q" for q using g(2) f1 by (simp add: ft_def)
  ultimately show ?thesis using g(4,5)
    by (intro exI [of _ "if ff_handler_busy f1 then [Input_Done k, Busy_handler k] else [Input_Done k]"] exI [of _ ?g] exI [of _ delta]) (simp add: Let_def)
qed

lemma done_inv:
  assumes inv: "fq_inv m" and k: "fq_sending_flow m = Some k" and fr: "\<not> fq_freeing m"
    and d: "same_flows g (fq_flows m)" "m' = m\<lparr>fq_sending_flow := None, fq_previous_flow := Some k, fq_schedule_job := True, fq_flows := g\<rparr>"
      "\<forall>q \<in> set (fq_queued_tree m). ft m' q + delta = ft m q"
  shows "fq_inv m'"
proof -
  note same = same_flowsD [OF d(1)]
  have "idle_flow m k" using fq_invD(5) [OF inv k] by blast
  then have "idle_flow m' k" using same(2) [of k "\<lambda>b _. \<not> b"] by (simp add: idle_flow_def d(2))
  moreover have "sorted_wrt (flow_less m') (fq_queued_tree m)" by (rule sorted_shift [OF fq_invD(3) [OF inv] d(3)])
  moreover have "set (fq_queued_tree m) = {p. \<exists>f. g p = Some f \<and> ff_is_queued f}"
    using fq_invD(4) [OF inv] same(2) [of _ "\<lambda>b _. b"] by simp
  moreover have "length (ff_data f) \<le> fq_mtu m" if "g p = Some f" "ff_is_queued f" for p f
  proof -
    note gp = that
    obtain f' where "fq_flows m p = Some f'" "ff_is_queued f'" "ff_data f' = ff_data f"
      using same(2) [of p "\<lambda>b x. b \<and> x = ff_data f"] gp by auto
    then show ?thesis using fq_invD(8) [OF inv, of p f'] by simp
  qed
  moreover have "dom g = dom (fq_flows m)" by (rule same(1))
  ultimately show ?thesis using fq_invD(1,2,9,10) [OF inv] unfolding fq_inv_def fq_base_def by (simp add: d(2))
qed

lemma schedule_ok:
  assumes base: "fq_base m" and s: "fq_sending_flow m = None" "fq_previous_flow m = None" "\<not> fq_freeing m" "\<not> fq_schedule_job m"
    and tree: "fq_queued_tree m = p # ps"
  obtains f m' where "fq_flows m p = Some f" "ff_is_queued f" "fq_schedule m = Some (m', [Output_Send (ff_data f)])" "fq_inv m'"
    "m' = m\<lparr>fq_flows := (fq_flows m)(p \<mapsto> f\<lparr>ff_is_queued := False\<rparr>), fq_queued_tree := ps, fq_sending_flow := Some p, fq_sending_len := length (ff_data f)\<rparr>"
proof -
  have q: "set (fq_queued_tree m) = {p. \<exists>f. fq_flows m p = Some f \<and> ff_is_queued f}" and sorted: "sorted_wrt (flow_less m) (p # ps)"
    using base tree by (simp_all add: fq_base_def)
  have "p \<in> set (fq_queued_tree m)" by (simp add: tree)
  then obtain f where f: "fq_flows m p = Some f" "ff_is_queued f" unfolding q by blast
  let ?m = "m\<lparr>fq_flows := (fq_flows m)(p \<mapsto> f\<lparr>ff_is_queued := False\<rparr>), fq_queued_tree := ps, fq_sending_flow := Some p, fq_sending_len := length (ff_data f)\<rparr>"
  have ft: "ft ?m q = ft m q" for q using f by (simp add: ft_def)
  have less: "flow_less ?m = flow_less m" by (simp add: flow_less_def ft fun_eq_iff)
  have "p \<notin> set ps" using sorted by (auto simp: flow_less_def)
  have "x \<in> set ps \<longleftrightarrow> x \<noteq> p \<and> x \<in> set (fq_queued_tree m)" for x using \<open>p \<notin> set ps\<close> by (auto simp: tree)
  then have "x \<in> set ps \<longleftrightarrow> x \<noteq> p \<and> (\<exists>f. fq_flows m x = Some f \<and> ff_is_queued f)" for x unfolding q by simp
  then have "set ps = {x. \<exists>f'. (if x = p then Some (f\<lparr>ff_is_queued := False\<rparr>) else fq_flows m x) = Some f' \<and> ff_is_queued f'}" by auto
  moreover have "\<forall>q \<in> set ps. ft m p \<le> ft m q" using sorted by (auto simp: flow_less_def)
  ultimately have "fq_base ?m"
    using base f sorted unfolding fq_base_def less ft by (auto simp: tree s idle_flow_def insert_absorb domI split: if_splits)
  then have "fq_inv ?m" by (simp add: fq_inv_def)
  moreover have "fq_schedule m = Some (?m, [Output_Send (ff_data f)])"
    using s tree f by (simp add: fq_schedule_def put_flow_def)
  ultimately show thesis using that f by blast
qed

lemma current_time:
  assumes inv: "fq_inv m"
  obtains time where "get_current_time m = Some time" "\<And>k. fq_sending_flow m = Some k \<Longrightarrow> unat time = ft m k"
proof (cases "fq_sending_flow m")
  case (Some k)
  then obtain f where "fq_flows m k = Some f" using fq_invD(5) [OF inv] by (auto simp: idle_flow_def)
  then show ?thesis using that [of "ff_time f"] Some by (simp add: get_current_time_def ft_def)
next
  case None
  have "\<exists>g. fq_flows m q = Some g" if "fq_previous_flow m = Some q" for q using fq_invD(6) [OF inv that] by (auto simp: idle_flow_def)
  then have "\<exists>time. get_current_time m = Some time"
    using None first_time_eq [OF inv] by (cases "fq_previous_flow m") (auto simp: get_current_time_def)
  then show ?thesis using that None by auto
qed

text \<open>
  A packet of a flow is put in the tree at the place of its time, which is at least that of the
  flow being sent; when nothing is sent and no job is pending it goes to the output at once.
\<close>

lemma send_outcome:
  assumes inv: "fq_inv m" and en: "fq_enabled (FQ_send p d) m" and f: "fq_flows m p = Some f"
  obtains m2 tree time where
    "m2 = m\<lparr>fq_previous_flow := (if fq_previous_flow m = Some p then None else fq_previous_flow m),
        fq_flows := (fq_flows m)(p \<mapsto> f\<lparr>ff_time := time, ff_data := d, ff_is_queued := True\<rparr>), fq_queued_tree := tree\<rparr>"
    "set tree = insert p (set (fq_queued_tree m))" "fq_base m2" "fq_previous_flow m = Some p \<Longrightarrow> time = ff_time f"
    "FQ_input_handler_send p d m = (if fq_sending_flow m = None \<and> \<not> fq_schedule_job m then fq_schedule m2 else Some (m2, []))"
proof -
  have en': "\<not> fq_freeing m" "length d \<le> fq_mtu m" "fq_sending_flow m \<noteq> Some p" "\<not> ff_is_queued f" using en f by auto
  obtain now where now: "get_current_time m = Some now" "\<And>k. fq_sending_flow m = Some k \<Longrightarrow> unat now = ft m k"
    using current_time [OF inv] by blast
  define time where "time = (if fq_previous_flow m = Some p then ff_time f else max (ff_time f) now)"
  define m1 where "m1 = m\<lparr>fq_previous_flow := (if fq_previous_flow m = Some p then None else fq_previous_flow m),
        fq_flows := (fq_flows m)(p \<mapsto> f\<lparr>ff_time := time, ff_data := d, ff_is_queued := True\<rparr>)\<rparr>"
  have pt: "p \<notin> set (fq_queued_tree m)" using fq_invD(4) [OF inv] f en'(4) by auto
  have ft: "ft m1 q = (if q = p then unat time else ft m q)" for q by (simp add: ft_def m1_def)
  have "sorted_wrt (flow_less m1) (fq_queued_tree m)"
    by (rule sorted_shift [OF fq_invD(3) [OF inv], of _ 0]) (use pt ft in auto)
  then obtain tree where tree: "Tree_Insert m1 p (fq_queued_tree m) = Some tree" "sorted_wrt (flow_less m1) tree" "set tree = insert p (set (fq_queued_tree m))"
    using Tree_Insert_sorted pt by blast
  let ?m2 = "m1\<lparr>fq_queued_tree := tree\<rparr>"
  have ft2: "ft ?m2 q = ft m1 q" for q by (simp add: ft_def)
  have less2: "flow_less ?m2 = flow_less m1" by (simp add: flow_less_def ft2 fun_eq_iff)
  have lead: "ft m k \<le> unat time" if "fq_sending_flow m = Some k" for k
    using now(2) [OF that] fq_invD(5) [OF inv that] by (auto simp: time_def max_def word_le_nat_alt)
  have base: "fq_base ?m2"
    unfolding fq_base_def less2
  proof (intro conjI allI impI)
    show "distinct (fq_flows_list ?m2)" "set (fq_flows_list ?m2) = dom (fq_flows ?m2)"
      using fq_invD(1,2) [OF inv] f by (auto simp: m1_def)
    show "sorted_wrt (flow_less m1) (fq_queued_tree ?m2)" using tree(2) by simp
    show "set (fq_queued_tree ?m2) = {q. \<exists>f. fq_flows ?m2 q = Some f \<and> ff_is_queued f}"
      using tree(3) fq_invD(4) [OF inv] by (auto simp: m1_def)
  next
    fix k
    assume "fq_sending_flow ?m2 = Some k"
    then have k: "fq_sending_flow m = Some k" by (simp add: m1_def)
    note s = fq_invD(5) [OF inv k]
    show "idle_flow ?m2 k" using s en'(3) k by (auto simp: idle_flow_def m1_def)
    show "fq_previous_flow ?m2 = None" "\<not> fq_schedule_job ?m2" "fq_sending_len ?m2 \<le> fq_mtu ?m2" using s by (simp_all add: m1_def)
    show "\<forall>q \<in> set (fq_queued_tree ?m2). ft ?m2 k \<le> ft ?m2 q" using s lead [OF k] en'(3) k tree(3) by (auto simp: ft2 ft)
  next
    fix k
    assume "fq_previous_flow ?m2 = Some k"
    then have k: "fq_previous_flow m = Some k" "k \<noteq> p" by (auto simp: m1_def split: if_splits)
    show "idle_flow ?m2 k" "fq_schedule_job ?m2" using fq_invD(6) [OF inv k(1)] k(2) by (auto simp: idle_flow_def m1_def)
  next
    fix q g
    assume "fq_flows ?m2 q = Some g" "ff_is_queued g"
    then show "length (ff_data g) \<le> fq_mtu ?m2" using fq_invD(8) [OF inv, of q g] en'(2) by (auto simp: m1_def split: if_splits)
  qed (use fq_invD(9,10) [OF inv] in \<open>simp_all add: m1_def\<close>)
  have "FQ_input_handler_send p d m = (if fq_sending_flow m = None \<and> \<not> fq_schedule_job m then fq_schedule ?m2 else Some (?m2, []))"
    using f en' now(1) tree(1) by (auto simp: FQ_input_handler_send_def put_flow_def m1_def time_def Let_def)
  then show thesis using that [of ?m2 tree time] base tree(3) by (auto simp: m1_def time_def)
qed

section \<open>Steps\<close>

definition hist_ok :: "PacketPassFairQueue \<Rightarrow> fq_hist \<Rightarrow> bool" where
  "hist_ok m h \<longleftrightarrow> (\<forall>p f. fq_flows m p = Some f \<longrightarrow> fh_accepted h p = fh_sent h p @ (if ff_is_queued f then [ff_data f] else []))"

definition backlogged :: "ptr \<Rightarrow> PacketPassFairQueue \<Rightarrow> bool" where
  "backlogged p m \<longleftrightarrow> (\<exists>f. fq_flows m p = Some f \<and> ff_is_queued f) \<or> fq_sending_flow m = Some p \<or> fq_previous_flow m = Some p"

lemma backlogged_code [code]:
  "backlogged p m \<longleftrightarrow> (case fq_flows m p of Some f \<Rightarrow> ff_is_queued f | None \<Rightarrow> False) \<or> fq_sending_flow m = Some p \<or> fq_previous_flow m = Some p"
  by (auto simp: backlogged_def split: option.splits)

definition step_good :: "fq_event \<Rightarrow> PacketPassFairQueue \<Rightarrow> bool" where
  "step_good e m \<longleftrightarrow> (\<exists>m' calls. fq_handle e m = Some (m', calls) \<and> fq_inv m' \<and>
     (\<forall>h. hist_ok m h \<longrightarrow> hist_ok m' (fq_log e m (m', calls) h)) \<and>
     (\<exists>delta. \<forall>p. backlogged p m \<and> fq_flows m' p \<noteq> None \<longrightarrow>
        ft m' p + delta = ft m p + (if e = FQ_done \<and> fq_sending_flow m = Some p then cost m else 0)) \<and>
     fq_mtu m' = fq_mtu m \<and> fq_packet_weight m' = fq_packet_weight m)"

lemma step_goodI:
  assumes "fq_handle e m = Some (m', calls)" "fq_inv m'" "\<And>h. hist_ok m h \<Longrightarrow> hist_ok m' (fq_log e m (m', calls) h)"
    "\<And>p. \<lbrakk>backlogged p m; fq_flows m' p \<noteq> None\<rbrakk> \<Longrightarrow>
       ft m' p + delta = ft m p + (if e = FQ_done \<and> fq_sending_flow m = Some p then cost m else 0)"
    "fq_mtu m' = fq_mtu m" "fq_packet_weight m' = fq_packet_weight m"
  shows "step_good e m"
  unfolding step_good_def using assms by blast

lemma step_done:
  assumes inv: "fq_inv m" and en: "fq_enabled FQ_done m"
  shows "step_good FQ_done m"
proof -
  obtain k where k: "fq_sending_flow m = Some k" "\<not> fq_freeing m" using en by auto
  obtain calls g delta where d: "FQ_output_handler_done m =
      Some (m\<lparr>fq_sending_flow := None, fq_previous_flow := Some k, fq_schedule_job := True, fq_flows := g\<rparr>, calls)"
    "same_flows g (fq_flows m)"
    and ft: "ft (m\<lparr>fq_sending_flow := None, fq_previous_flow := Some k, fq_schedule_job := True, fq_flows := g\<rparr>) k + delta = ft m k + cost m"
      "\<forall>q \<in> set (fq_queued_tree m). ft (m\<lparr>fq_sending_flow := None, fq_previous_flow := Some k, fq_schedule_job := True, fq_flows := g\<rparr>) q + delta = ft m q"
    using done_outcome [OF inv k] unfolding Let_def by blast
  let ?m = "m\<lparr>fq_sending_flow := None, fq_previous_flow := Some k, fq_schedule_job := True, fq_flows := g\<rparr>"
  have "fq_inv ?m" by (rule done_inv [OF inv k d(2) refl ft(2)])
  moreover have "hist_ok ?m (fq_log FQ_done m (?m, calls) h)" if "hist_ok m h" for h
    unfolding hist_ok_def
  proof (intro allI impI)
    fix p f
    assume "fq_flows ?m p = Some f"
    then obtain f' where "fq_flows m p = Some f'" "ff_is_queued f' = ff_is_queued f" "ff_data f' = ff_data f"
      using same_flowsD(2) [OF d(2), of p "\<lambda>b x. b = ff_is_queued f \<and> x = ff_data f"] by auto
    then show "fh_accepted (fq_log FQ_done m (?m, calls) h) p = fh_sent (fq_log FQ_done m (?m, calls) h) p @ (if ff_is_queued f then [ff_data f] else [])"
      using \<open>hist_ok m h\<close> k(1) by (auto simp: hist_ok_def)
  qed
  moreover have "ft ?m p + delta = ft m p + (if FQ_done = FQ_done \<and> fq_sending_flow m = Some p then cost m else 0)"
    if "backlogged p m" for p
  proof (cases "p = k")
    case False
    then have "p \<in> set (fq_queued_tree m)"
      using that fq_invD(4) [OF inv] fq_invD(5) [OF inv k(1)] k(1) by (auto simp: backlogged_def)
    then show ?thesis using ft(2) False k(1) by simp
  qed (use ft(1) k(1) in simp)
  ultimately show ?thesis using d(1) by (intro step_goodI [of _ _ ?m calls delta]) simp_all
qed

lemma sorted_distinct: "sorted_wrt (flow_less m) xs \<Longrightarrow> distinct xs"
  by (induction xs) (auto simp: flow_less_def)

lemma singleton_list: "\<lbrakk>set xs = {x}; distinct xs\<rbrakk> \<Longrightarrow> xs = [x]"
proof (cases xs)
  case (Cons y ys)
  assume "set xs = {x}" "distinct xs"
  then show ?thesis using Cons by (cases ys) auto
qed simp

lemma step_send:
  assumes inv: "fq_inv m" and en: "fq_enabled (FQ_send p d) m"
  shows "step_good (FQ_send p d) m"
proof -
  obtain f where f: "fq_flows m p = Some f" "\<not> ff_is_queued f" using en by (auto split: option.splits)
  obtain m2 tree time where m2: "m2 = m\<lparr>fq_previous_flow := (if fq_previous_flow m = Some p then None else fq_previous_flow m),
        fq_flows := (fq_flows m)(p \<mapsto> f\<lparr>ff_time := time, ff_data := d, ff_is_queued := True\<rparr>), fq_queued_tree := tree\<rparr>"
    "set tree = insert p (set (fq_queued_tree m))" "fq_base m2" "fq_previous_flow m = Some p \<Longrightarrow> time = ff_time f"
    "FQ_input_handler_send p d m = (if fq_sending_flow m = None \<and> \<not> fq_schedule_job m then fq_schedule m2 else Some (m2, []))"
    by (rule send_outcome [OF inv en f(1)]) blast
  have times: "ft m2 q = ft m q" if "backlogged q m" for q
    using that m2(4) f en by (auto simp: m2(1) ft_def backlogged_def)
  show ?thesis
  proof (cases "fq_sending_flow m = None \<and> \<not> fq_schedule_job m")
    case False
    have "fq_inv m2" using m2(3) False by (auto simp: fq_inv_def m2(1))
    moreover have "hist_ok m2 (fq_log (FQ_send p d) m (m2, []) h)" if "hist_ok m h" for h
      using that f by (auto simp: hist_ok_def m2(1) Let_def split: option.splits)
    ultimately show ?thesis using False m2(5) times by (intro step_goodI [of _ _ m2 "[]" 0]) (auto simp: m2(1))
  next
    case True
    have empty: "fq_queued_tree m = []" using fq_invD(7) [OF inv] True en by simp
    have prev: "fq_previous_flow m = None" using fq_invD(6) [OF inv] True by (cases "fq_previous_flow m") auto
    have "set (fq_queued_tree m2) = {p}" using m2(2) empty by (simp add: m2(1))
    moreover have "distinct (fq_queued_tree m2)" using m2(3) sorted_distinct unfolding fq_base_def by blast
    ultimately have tree: "fq_queued_tree m2 = [p]" by (rule singleton_list)
    have s: "fq_sending_flow m2 = None" "fq_previous_flow m2 = None" "\<not> fq_freeing m2" "\<not> fq_schedule_job m2"
      using True prev en by (simp_all add: m2(1))
    obtain f2 m3 where m3: "fq_flows m2 p = Some f2" "ff_is_queued f2" "fq_schedule m2 = Some (m3, [Output_Send (ff_data f2)])" "fq_inv m3"
      "m3 = m2\<lparr>fq_flows := (fq_flows m2)(p \<mapsto> f2\<lparr>ff_is_queued := False\<rparr>), fq_queued_tree := [], fq_sending_flow := Some p, fq_sending_len := length (ff_data f2)\<rparr>"
      by (rule schedule_ok [OF m2(3) s tree])
    have f2: "ff_data f2 = d" using m3(1) by (auto simp: m2(1))
    have "hist_ok m3 (fq_log (FQ_send p d) m (m3, [Output_Send (ff_data f2)]) h)" if "hist_ok m h" for h
      using that f f2 m3(5) m2(1) by (auto simp: hist_ok_def Let_def)
    moreover have "ft m3 q = ft m2 q" for q using m3(1,5) by (simp add: ft_def)
    ultimately show ?thesis using True m2(5) times m3(3,4)
      by (intro step_goodI [of _ _ m3 "[Output_Send (ff_data f2)]" 0]) (auto simp: m3(5) m2(1))
  qed
qed

lemma step_job:
  assumes inv: "fq_inv m" and en: "fq_enabled FQ_job m"
  shows "step_good FQ_job m"
proof -
  let ?m1 = "m\<lparr>fq_schedule_job := False, fq_previous_flow := None\<rparr>"
  have s: "fq_sending_flow m = None" using fq_invD(5) [OF inv] en by (cases "fq_sending_flow m") auto
  have ft: "ft ?m1 p = ft m p" for p by (simp add: ft_def)
  have less: "flow_less ?m1 = flow_less m" by (simp add: flow_less_def ft fun_eq_iff)
  have base: "fq_base ?m1" using fq_invD [OF inv] s unfolding fq_base_def less ft by simp
  show ?thesis
  proof (cases "fq_queued_tree m")
    case Nil
    then show ?thesis using s en base ft
      by (intro step_goodI [of _ _ ?m1 "[]" 0]) (auto simp: schedule_job_handler_def fq_inv_def hist_ok_def Let_def split: option.splits)
  next
    case (Cons p ps)
    have s1: "fq_sending_flow ?m1 = None" "fq_previous_flow ?m1 = None" "\<not> fq_freeing ?m1" "\<not> fq_schedule_job ?m1" "fq_queued_tree ?m1 = p # ps"
      using s en Cons by simp_all
    obtain f m' where m': "fq_flows ?m1 p = Some f" "ff_is_queued f" "fq_schedule ?m1 = Some (m', [Output_Send (ff_data f)])" "fq_inv m'"
      "m' = ?m1\<lparr>fq_flows := (fq_flows ?m1)(p \<mapsto> f\<lparr>ff_is_queued := False\<rparr>), fq_queued_tree := ps, fq_sending_flow := Some p, fq_sending_len := length (ff_data f)\<rparr>"
      by (rule schedule_ok [OF base s1])
    have "fq_handle FQ_job m = Some (m', [Output_Send (ff_data f)])" using s en Cons m'(3) by (simp add: schedule_job_handler_def)
    moreover have "hist_ok m' (fq_log FQ_job m (m', [Output_Send (ff_data f)]) h)" if "hist_ok m h" for h
      using that m'(1,2,5) by (auto simp: hist_ok_def)
    moreover have "ft m' q = ft m q" for q using m'(1,5) by (simp add: ft_def)
    ultimately show ?thesis using m'(4) by (intro step_goodI [of _ _ m' "[Output_Send (ff_data f)]" 0]) (simp_all add: m'(5))
  qed
qed

text \<open>Steps that leave the queued flows and the times of the remaining flows as they are.\<close>

lemma sorted_times: "\<lbrakk>sorted_wrt (flow_less m) xs; \<forall>q \<in> set xs. ft m' q = ft m q\<rbrakk> \<Longrightarrow> sorted_wrt (flow_less m') xs"
  using sorted_shift [of m xs m' 0] by simp

lemma step_init:
  assumes inv: "fq_inv m" and en: "fq_enabled (FQ_init p) m"
  shows "step_good (FQ_init p) m"
proof -
  let ?f = "\<lparr>ff_time = 0, ff_is_queued = False, ff_data = [], ff_handler_busy = False\<rparr>"
  let ?m = "m\<lparr>fq_flows := (fq_flows m)(p \<mapsto> ?f), fq_flows_list := fq_flows_list m @ [p]\<rparr>"
  have p: "fq_flows m p = None" "p \<notin> set (fq_flows_list m)" using en fq_invD(2) [OF inv] by auto
  have ft: "ft ?m q = ft m q" for q using p by (simp add: ft_def)
  have less: "flow_less ?m = flow_less m" by (simp add: flow_less_def ft fun_eq_iff)
  have idle: "idle_flow ?m q \<longleftrightarrow> q = p \<or> idle_flow m q" for q by (auto simp: idle_flow_def)
  have "fq_base ?m" using fq_invD [OF inv] p unfolding fq_base_def less ft idle by auto
  moreover have "fq_handle (FQ_init p) m = Some (?m, [])" using en by (simp add: PacketPassFairQueueFlow_Init_def put_flow_def)
  moreover have "hist_ok ?m (fq_log (FQ_init p) m (?m, []) h)" if "hist_ok m h" for h
    using that by (auto simp: hist_ok_def Let_def split: option.splits)
  ultimately show ?thesis using fq_invD(7) [OF inv] ft by (intro step_goodI [of _ _ ?m "[]" 0]) (auto simp: fq_inv_def)
qed

lemma step_free:
  assumes inv: "fq_inv m" and en: "fq_enabled (FQ_free p) m"
  shows "step_good (FQ_free p) m"
proof -
  obtain f where f: "fq_flows m p = Some f" using en by auto
  let ?tree = "remove1 p (fq_queued_tree m)"
  let ?m = "m\<lparr>fq_sending_flow := (if fq_sending_flow m = Some p then None else fq_sending_flow m),
    fq_previous_flow := (if fq_previous_flow m = Some p then None else fq_previous_flow m), fq_queued_tree := ?tree,
    fq_flows_list := remove1 p (fq_flows_list m), fq_flows := (fq_flows m)(p := None)\<rparr>"
  have dist: "distinct (fq_queued_tree m)" using fq_invD(3) [OF inv] sorted_distinct by blast
  have "ff_is_queued f \<longleftrightarrow> p \<in> set (fq_queued_tree m)" using fq_invD(4) [OF inv] f by auto
  then have run: "fq_handle (FQ_free p) m = Some (?m, [])"
    using en f by (auto simp: PacketPassFairQueueFlow_Free_def Let_def remove1_idem fq_busy_defs)
  have ft: "q \<noteq> p \<Longrightarrow> ft ?m q = ft m q" for q by (simp add: ft_def)
  have idle: "idle_flow ?m q \<longleftrightarrow> q \<noteq> p \<and> idle_flow m q" for q by (auto simp: idle_flow_def)
  have tree: "set ?tree = {q. \<exists>f. ((fq_flows m)(p := None)) q = Some f \<and> ff_is_queued f}"
    using fq_invD(4) [OF inv] dist by auto
  have "sorted_wrt (flow_less m) ?tree" using fq_invD(3) [OF inv] by (rule sorted_wrt_remove1)
  then have sorted: "sorted_wrt (flow_less ?m) ?tree" by (rule sorted_times) (use ft dist in auto)
  have "fq_base ?m"
    unfolding fq_base_def
  proof (intro conjI allI impI)
    fix k
    assume "fq_sending_flow ?m = Some k"
    then have k: "fq_sending_flow m = Some k" "k \<noteq> p" by (auto split: if_splits)
    note s = fq_invD(5) [OF inv k(1)]
    show "idle_flow ?m k" using s k(2) idle by simp
    show "fq_previous_flow ?m = None" "\<not> fq_schedule_job ?m" "fq_sending_len ?m \<le> fq_mtu ?m" using s by simp_all
    show "\<forall>q \<in> set (fq_queued_tree ?m). ft ?m k \<le> ft ?m q" using s k(2) ft dist by simp
  next
    fix k
    assume "fq_previous_flow ?m = Some k"
    then have k: "fq_previous_flow m = Some k" "k \<noteq> p" by (auto split: if_splits)
    show "idle_flow ?m k" "fq_schedule_job ?m" using fq_invD(6) [OF inv k(1)] k(2) idle by simp_all
  next
    fix q g
    assume "fq_flows ?m q = Some g" "ff_is_queued g"
    then show "length (ff_data g) \<le> fq_mtu ?m" using fq_invD(8) [OF inv, of q g] by (auto split: if_splits)
  qed (use tree sorted fq_invD(1,2,9,10) [OF inv] in auto)
  moreover have "fq_queued_tree ?m = []" if "\<not> fq_freeing ?m \<and> fq_sending_flow ?m = None \<and> \<not> fq_schedule_job ?m"
    using that en fq_invD(7) [OF inv] by (auto simp: fq_busy_defs split: if_splits)
  ultimately have "fq_inv ?m" by (auto simp: fq_inv_def)
  moreover have "hist_ok ?m (fq_log (FQ_free p) m (?m, []) h)" if "hist_ok m h" for h
    using that by (auto simp: hist_ok_def Let_def split: option.splits)
  ultimately show ?thesis using run ft by (intro step_goodI [of _ _ ?m "[]" 0]) (auto split: if_splits)
qed

lemma fq_inv_cong:
  assumes inv: "fq_inv m" and ft: "\<And>p. ft m' p = ft m p" and same: "same_flows (fq_flows m') (fq_flows m)"
    and eq: "fq_flows_list m' = fq_flows_list m" "fq_queued_tree m' = fq_queued_tree m" "fq_sending_flow m' = fq_sending_flow m"
      "fq_previous_flow m' = fq_previous_flow m" "fq_schedule_job m' = fq_schedule_job m" "fq_sending_len m' = fq_sending_len m"
      "fq_mtu m' = fq_mtu m" "fq_packet_weight m' = fq_packet_weight m" "fq_freeing m \<Longrightarrow> fq_freeing m'"
  shows "fq_inv m'"
proof -
  have less: "flow_less m' = flow_less m" by (simp add: flow_less_def ft fun_eq_iff)
  note s = same_flowsD [OF same]
  have idle: "idle_flow m' p \<longleftrightarrow> idle_flow m p" for p using s(2) [of p "\<lambda>b _. \<not> b"] by (simp add: idle_flow_def)
  have q: "(\<exists>f. fq_flows m' p = Some f \<and> ff_is_queued f) \<longleftrightarrow> (\<exists>f. fq_flows m p = Some f \<and> ff_is_queued f)" for p
    using s(2) [of p "\<lambda>b _. b"] by simp
  have "length (ff_data f) \<le> fq_mtu m" if f: "fq_flows m' p = Some f" "ff_is_queued f" for p f
  proof -
    obtain f' where "fq_flows m p = Some f'" "ff_is_queued f'" "ff_data f' = ff_data f"
      using s(2) [of p "\<lambda>b x. b \<and> x = ff_data f"] f by auto
    then show ?thesis using fq_invD(8) [OF inv, of p f'] by simp
  qed
  then have "fq_base m'" using fq_invD [OF inv] unfolding fq_base_def less ft idle q s(1) eq(1-8) by simp
  then show ?thesis using fq_invD(7) [OF inv] eq by (auto simp: fq_inv_def)
qed

lemma step_busy:
  assumes inv: "fq_inv m" and en: "fq_enabled (FQ_busy p b) m"
  shows "step_good (FQ_busy p b) m"
proof -
  have k: "fq_sending_flow m = Some p" "\<not> fq_freeing m" using en by (auto simp: fq_busy_defs)
  obtain f where f: "fq_flows m p = Some f" using fq_invD(5) [OF inv k(1)] by (auto simp: idle_flow_def)
  let ?m = "m\<lparr>fq_flows := (fq_flows m)(p \<mapsto> f\<lparr>ff_handler_busy := b\<rparr>)\<rparr>"
  have ft: "ft ?m q = ft m q" for q using f by (simp add: ft_def)
  have "fq_handle (FQ_busy p b) m = Some (?m, [])" using f k by (simp add: PacketPassFairQueueFlow_SetBusyHandler_def put_flow_def)
  moreover have "fq_inv ?m" by (rule fq_inv_cong [OF inv ft]) (use f in \<open>simp_all add: same_flows_def\<close>)
  moreover have "hist_ok ?m (fq_log (FQ_busy p b) m (?m, []) h)" if "hist_ok m h" for h
    using that f by (auto simp: hist_ok_def Let_def split: option.splits)
  ultimately show ?thesis using ft by (intro step_goodI [of _ _ ?m "[]" 0]) simp_all
qed

lemma step_ok:
  assumes inv: "fq_inv m" and en: "fq_enabled e m"
  shows "step_good e m"
proof (cases e)
  case (FQ_cancel p)
  have k: "fq_sending_flow m = Some p" "\<not> fq_freeing m" "fq_use_cancel m" using en FQ_cancel by (auto simp: fq_busy_defs)
  have "hist_ok m (fq_log e m (m, [Output_RequestCancel]) h)" if "hist_ok m h" for h
    using that by (auto simp: FQ_cancel hist_ok_def Let_def split: option.splits)
  then show ?thesis using inv k fq_invD(5) [OF inv k(1)]
    by (intro step_goodI [of _ _ m "[Output_RequestCancel]" 0]) (simp_all add: FQ_cancel PacketPassFairQueueFlow_RequestCancel_def)
next
  case FQ_prepare
  let ?m = "m\<lparr>fq_freeing := True\<rparr>"
  have ft: "ft ?m q = ft m q" for q by (simp add: ft_def)
  have "fq_inv ?m" by (rule fq_inv_cong [OF inv ft]) (simp_all add: same_flows_def)
  moreover have "hist_ok ?m (fq_log e m (?m, []) h)" if "hist_ok m h" for h
    using that by (auto simp: FQ_prepare hist_ok_def Let_def split: option.splits)
  ultimately show ?thesis using ft
    by (intro step_goodI [of _ _ ?m "[]" 0]) (simp_all add: FQ_prepare PacketPassFairQueue_PrepareFree_def)
qed (use assms step_send step_done step_job step_init step_free step_busy in blast)+

lemma fq_init_inv:
  assumes "PacketPassFairQueue_Init mtu use_cancel weight = Some m" "mtu < 2 ^ 31" "weight < 2 ^ 31"
  shows "fq_inv m"
  using assms by (auto simp: PacketPassFairQueue_Init_def fq_inv_def fq_base_def split: if_splits)

lemma fq_reach_inv: "fq_reach m h \<Longrightarrow> fq_inv m \<and> hist_ok m h"
proof (induction rule: fq_reach.induct)
  case (init mtu use_cancel weight m)
  then have "fq_flows m = Map.empty" by (auto simp: PacketPassFairQueue_Init_def split: if_splits)
  then show ?case using init fq_init_inv by (auto simp: hist_ok_def)
next
  case (step m h e r)
  then show ?case using step_ok [of m e] by (cases r) (auto simp: step_good_def simp del: fq_log.simps)
qed

text \<open>A stretch of a run in which both flows have a packet waiting or in transmission all the time.\<close>

inductive fq_backlogged_run :: "ptr \<Rightarrow> ptr \<Rightarrow> PacketPassFairQueue \<Rightarrow> fq_hist \<Rightarrow> PacketPassFairQueue \<Rightarrow> fq_hist \<Rightarrow> bool"
  for i j m0 h0 where
  start: "\<lbrakk>backlogged i m0; backlogged j m0\<rbrakk> \<Longrightarrow> fq_backlogged_run i j m0 h0 m0 h0"
| step: "\<lbrakk>fq_backlogged_run i j m0 h0 m h; fq_enabled e m; fq_handle e m = Some r; backlogged i (fst r); backlogged j (fst r)\<rbrakk> \<Longrightarrow>
    fq_backlogged_run i j m0 h0 (fst r) (fq_log e m r h)"

lemma backlogged_flow: "\<lbrakk>fq_inv m; backlogged p m\<rbrakk> \<Longrightarrow> \<exists>f. fq_flows m p = Some f"
  using fq_invD(5,6) by (fastforce simp: backlogged_def idle_flow_def)

lemma served_log:
  "fh_served (fq_log e m r h) p = (case e of
     FQ_done \<Rightarrow> fh_served h p + (if fq_sending_flow m = Some p then cost m else 0)
   | FQ_init q \<Rightarrow> if q = p then 0 else fh_served h p
   | _ \<Rightarrow> fh_served h p)"
  by (cases r; cases e) (auto simp: cost_def Let_def split: option.splits list.splits fq_call.splits)

lemma backlogged_run_times:
  assumes "fq_backlogged_run i j m0 h0 m h" "fq_inv m0"
  shows "fq_inv m \<and> backlogged i m \<and> backlogged j m \<and> fq_mtu m = fq_mtu m0 \<and> fq_packet_weight m = fq_packet_weight m0 \<and>
    (int (fh_served h i) - int (fh_served h0 i)) - (int (fh_served h j) - int (fh_served h0 j)) =
      (int (ft m i) - int (ft m j)) - (int (ft m0 i) - int (ft m0 j)) \<and>
    \<bar>int (ft m i) - int (ft m j)\<bar> \<le> max \<bar>int (ft m0 i) - int (ft m0 j)\<bar> (int (fq_packet_weight m0 + fq_mtu m0))"
  using assms(1)
proof (induction rule: fq_backlogged_run.induct)
  case start
  then show ?case using assms(2) by auto
next
  case (step m h e r)
  obtain m' calls where r: "r = (m', calls)" by (cases r)
  have inv: "fq_inv m" "backlogged i m" "backlogged j m" using step.IH by auto
  obtain delta where g: "fq_inv m'" "fq_mtu m' = fq_mtu m" "fq_packet_weight m' = fq_packet_weight m"
    and d: "\<And>p. \<lbrakk>backlogged p m; fq_flows m' p \<noteq> None\<rbrakk> \<Longrightarrow>
        ft m' p + delta = ft m p + (if e = FQ_done \<and> fq_sending_flow m = Some p then cost m else 0)"
    using step_ok [OF inv(1) step.hyps(2)] step.hyps(3) by (auto simp: step_good_def r)
  have bl: "backlogged i m'" "backlogged j m'" using step.hyps(4,5) by (simp_all add: r)
  have dd: "ft m' p + delta = ft m p + (if e = FQ_done \<and> fq_sending_flow m = Some p then cost m else 0)" if "p = i \<or> p = j" for p
    using that d [of p] bl inv(2,3) backlogged_flow [OF g(1), of p] by auto
  have sv: "fh_served (fq_log e m r h) p = fh_served h p + (if e = FQ_done \<and> fq_sending_flow m = Some p then cost m else 0)" if "p = i \<or> p = j" for p
    using that inv backlogged_flow [OF inv(1), of p] step.hyps(2) by (cases e) (auto simp: served_log)
  have cost: "cost m \<le> fq_packet_weight m0 + fq_mtu m0" if "fq_sending_flow m = Some p" for p
    using fq_invD(5) [OF inv(1) that] step.IH by (simp add: cost_def)
  have least: "ft m p \<le> ft m q" if "fq_sending_flow m = Some p" "backlogged q m" for p q
  proof -
    have "q = p \<or> q \<in> set (fq_queued_tree m)"
      using that fq_invD(4) [OF inv(1)] fq_invD(5) [OF inv(1) that(1)] by (auto simp: backlogged_def)
    then show ?thesis using fq_invD(5) [OF inv(1) that(1)] by auto
  qed
  let ?c = "\<lambda>p. if e = FQ_done \<and> fq_sending_flow m = Some p then cost m else 0"
  have "int (ft m' i) - int (ft m' j) = int (ft m i) - int (ft m j) + (int (?c i) - int (?c j))"
    using dd [of i] dd [of j] by linarith
  moreover have "\<bar>int (ft m i) - int (ft m j) + (int (?c i) - int (?c j))\<bar> \<le>
      max \<bar>int (ft m0 i) - int (ft m0 j)\<bar> (int (fq_packet_weight m0 + fq_mtu m0))"
    using step.IH least [of i j] least [of j i] inv cost [of i] cost [of j] by auto
  ultimately show ?case using step.IH g bl sv [of i] sv [of j] unfolding r fst_conv by auto
qed

section \<open>Execution\<close>

fun fq_exec :: "fq_event list \<Rightarrow> PacketPassFairQueue \<times> fq_hist \<Rightarrow> (PacketPassFairQueue \<times> fq_hist) option" where
  "fq_exec [] s = Some s"
| "fq_exec (e # es) (m, h) = (if fq_enabled e m then do { r \<leftarrow> fq_handle e m; fq_exec es (fst r, fq_log e m r h) } else None)"

fun fq_exec_backlogged :: "ptr \<Rightarrow> ptr \<Rightarrow> fq_event list \<Rightarrow> PacketPassFairQueue \<times> fq_hist \<Rightarrow> (PacketPassFairQueue \<times> fq_hist) option" where
  "fq_exec_backlogged i j [] s = Some s"
| "fq_exec_backlogged i j (e # es) (m, h) = (if fq_enabled e m then do {
     r \<leftarrow> fq_handle e m;
     if backlogged i (fst r) \<and> backlogged j (fst r) then fq_exec_backlogged i j es (fst r, fq_log e m r h) else None } else None)"

lemma fq_exec_reach: "\<lbrakk>fq_exec es (m, h) = Some (m', h'); fq_reach m h\<rbrakk> \<Longrightarrow> fq_reach m' h'"
proof (induction es arbitrary: m h)
  case (Cons e es)
  then obtain r where "fq_enabled e m" "fq_handle e m = Some r" "fq_exec es (fst r, fq_log e m r h) = Some (m', h')"
    by (auto simp del: fq_log.simps split: if_splits elim!: bind_eq_SomeE)
  then show ?case using Cons.IH fq_reach.step [OF Cons.prems(2)] by blast
qed simp

lemma fq_exec_backlogged_run:
  "\<lbrakk>fq_exec_backlogged i j es (m, h) = Some (m', h'); fq_backlogged_run i j m0 h0 m h\<rbrakk> \<Longrightarrow> fq_backlogged_run i j m0 h0 m' h'"
proof (induction es arbitrary: m h)
  case (Cons e es)
  then obtain r where "fq_enabled e m" "fq_handle e m = Some r" "backlogged i (fst r)" "backlogged j (fst r)"
    "fq_exec_backlogged i j es (fst r, fq_log e m r h) = Some (m', h')"
    by (auto simp del: fq_log.simps split: if_splits elim!: bind_eq_SomeE)
  then show ?case using Cons.IH fq_backlogged_run.step [OF Cons.prems(2)] by blast
qed simp

definition demo_queue :: PacketPassFairQueue where
  "demo_queue = \<lparr>fq_mtu = 1, fq_use_cancel = False, fq_packet_weight = 1, fq_sending_flow = None,
     fq_sending_len = 0, fq_previous_flow = None, fq_queued_tree = [], fq_flows_list = [], fq_freeing = False,
     fq_schedule_job = False, fq_flows = Map.empty\<rparr>"

definition demo_hist :: fq_hist where
  "demo_hist = \<lparr>fh_accepted = (\<lambda>_. []), fh_sent = (\<lambda>_. []), fh_served = (\<lambda>_. 0)\<rparr>"

lemma demo_queue_reach: "fq_reach demo_queue demo_hist"
proof -
  have "(1 :: u64) \<le> - 2" by code_simp
  then have "PacketPassFairQueue_Init 1 False 1 = Some demo_queue"
    by (simp add: PacketPassFairQueue_Init_def FAIRQUEUE_MAX_TIME_def demo_queue_def)
  then show ?thesis unfolding demo_hist_def by (rule fq_reach.init) simp_all
qed

text \<open>Flow 1 sends ten packets alone and pauses; then flow 2 starts, and flow 1 has a packet again.\<close>

definition demo_before :: "fq_event list" where
  "demo_before = FQ_init 1 # FQ_init 2 # concat (replicate 10 [FQ_send 1 [0], FQ_done, FQ_job]) @ [FQ_send 2 [0], FQ_send 1 [0]]"

definition demo_after :: "fq_event list" where
  "demo_after = concat (replicate 10 [FQ_done, FQ_send 2 [0], FQ_job])"

lemma demo_queue_run:
  obtains m0 h0 m1 h1 where "fq_reach m0 h0" "fq_backlogged_run 1 2 m0 h0 m1 h1" "fq_packet_weight m0 + fq_mtu m0 = 2"
    "fh_served h0 1 = 20" "fh_served h0 2 = 0" "fh_served h1 1 = 20" "fh_served h1 2 = 20" "ft m0 1 = 20" "ft m0 2 = 0"
proof -
  let ?s0 = "fq_exec demo_before (demo_queue, demo_hist)"
  have e0: "map_option (\<lambda>(m, h). (fh_served h 1, fh_served h 2, ft m 1, ft m 2, fq_packet_weight m + fq_mtu m, backlogged 1 m, backlogged 2 m)) ?s0
    = Some (20, 0, 20, 0, 2, True, True)" by code_simp
  then obtain m0 h0 where s0: "?s0 = Some (m0, h0)" by (cases ?s0) auto
  have e1: "map_option (\<lambda>(m, h). (fh_served h 1, fh_served h 2)) (Option.bind ?s0 (fq_exec_backlogged 1 2 demo_after)) = Some (20, 20)"
    by code_simp
  then obtain m1 h1 where s1: "fq_exec_backlogged 1 2 demo_after (m0, h0) = Some (m1, h1)" using s0
    by (cases "fq_exec_backlogged 1 2 demo_after (m0, h0)") auto
  have "fq_reach m0 h0" using fq_exec_reach [OF s0 demo_queue_reach] .
  moreover have "fq_backlogged_run 1 2 m0 h0 m1 h1"
    by (rule fq_exec_backlogged_run [OF s1]) (use e0 s0 in \<open>simp add: fq_backlogged_run.start\<close>)
  ultimately show thesis using that e0 e1 s0 s1 by simp
qed

section \<open>Properties\<close>

text \<open>
  C38. The fair queue is safe, loses nothing and is work conserving. In every reachable state each
  event its contract allows runs without violating an \<open>ASSERT\<close>; each flow's packets go to the output
  in the order they were handed over, the one that is queued excepted; and outside the freeing
  state the output is idle only when a job is pending or no flow has a packet.
\<close>

theorem fair_queue_lossless:
  assumes "fq_reach m h"
  shows "(\<forall>e. fq_enabled e m \<longrightarrow> fq_handle e m \<noteq> None) \<and>
    (\<forall>p f. fq_flows m p = Some f \<longrightarrow> fh_accepted h p = fh_sent h p @ (if ff_is_queued f then [ff_data f] else [])) \<and>
    (\<not> fq_freeing m \<and> fq_sending_flow m = None \<and> \<not> fq_schedule_job m \<longrightarrow> (\<forall>p f. fq_flows m p = Some f \<longrightarrow> \<not> ff_is_queued f))"
proof -
  have inv: "fq_inv m" "hist_ok m h" using fq_reach_inv [OF assms] by auto
  have "fq_handle e m \<noteq> None" if "fq_enabled e m" for e using step_ok [OF inv(1) that] by (auto simp: step_good_def)
  moreover have "\<not> ff_is_queued f" if "\<not> fq_freeing m \<and> fq_sending_flow m = None \<and> \<not> fq_schedule_job m" "fq_flows m p = Some f" for p f
    using fq_invD(4) [OF inv(1)] fq_invD(7) [OF inv(1) that(1)] that(2) by auto
  ultimately show ?thesis using inv(2) by (auto simp: hist_ok_def)
qed

theorem fair_queue_lossless_witness: "fq_handle (FQ_init 1) demo_queue \<noteq> None"
proof -
  have "fq_enabled (FQ_init 1) demo_queue" by (simp add: demo_queue_def)
  then show ?thesis using fair_queue_lossless [OF demo_queue_reach] by blast
qed

text \<open>
  C39. Fairness, across overflows of the virtual time: while two flows have packets all the time, the
  weights served to them differ by at most the distance of their times at the start plus the larger
  of that distance and the weight of one full packet.
\<close>

theorem fair_queue_fair:
  assumes "fq_reach m0 h0" "fq_backlogged_run i j m0 h0 m h"
  shows "\<bar>(int (fh_served h i) - int (fh_served h0 i)) - (int (fh_served h j) - int (fh_served h0 j))\<bar> \<le>
    \<bar>int (ft m0 i) - int (ft m0 j)\<bar> + max \<bar>int (ft m0 i) - int (ft m0 j)\<bar> (int (fq_packet_weight m0 + fq_mtu m0))"
proof -
  have "fq_inv m0" using fq_reach_inv [OF assms(1)] by simp
  then show ?thesis using backlogged_run_times [OF assms(2)] by linarith
qed

theorem fair_queue_fair_witness:
  "\<exists>m0 h0 m h. fq_reach m0 h0 \<and> fq_backlogged_run 1 2 m0 h0 m h \<and>
     \<bar>(int (fh_served h 1) - int (fh_served h0 1)) - (int (fh_served h 2) - int (fh_served h0 2))\<bar> \<le> 40"
proof -
  obtain m0 h0 m1 h1 where d: "fq_reach m0 h0" "fq_backlogged_run 1 2 m0 h0 m1 h1" "fq_packet_weight m0 + fq_mtu m0 = 2" "ft m0 1 = 20" "ft m0 2 = 0"
    by (rule demo_queue_run)
  then show ?thesis using fair_queue_fair [OF d(1,2)]
    by (intro exI [of _ m0] exI [of _ h0] exI [of _ m1] exI [of _ h1]) simp
qed

text \<open>
  The distance of the times is not bounded by the packet size: when the queue goes idle the
  current time is forgotten (\<open>get_current_time\<close> returns 0), but a flow keeps its own time, so a flow
  that was served before the pause waits for a new flow to catch up. Here the weight of a packet is
  2, and flow 2 is served ten packets in a row while flow 1 has a packet waiting all the time.
\<close>

theorem fair_queue_starves:
  "\<exists>m0 h0 m1 h1. fq_reach m0 h0 \<and> fq_backlogged_run 1 2 m0 h0 m1 h1 \<and> fq_packet_weight m0 + fq_mtu m0 = 2 \<and>
     fh_served h1 1 = fh_served h0 1 \<and> fh_served h1 2 = fh_served h0 2 + 20"
proof -
  obtain m0 h0 m1 h1 where d: "fq_reach m0 h0" "fq_backlogged_run 1 2 m0 h0 m1 h1" "fq_packet_weight m0 + fq_mtu m0 = 2"
    "fh_served h0 1 = 20" "fh_served h0 2 = 0" "fh_served h1 1 = 20" "fh_served h1 2 = 20"
    by (rule demo_queue_run)
  then show ?thesis by (intro exI [of _ m0] exI [of _ h0] exI [of _ m1] exI [of _ h1]) simp
qed

end
