(* ===== verification/Base64.thy ===== *)
theory Base64
  imports Prelude
begin

text \<open>
  The Base64 coder of \<open>redsocks/base64.c\<close>. Strings are the lists of their bytes before the
  terminating zero. The accumulators are 32-bit words as in the code.
\<close>

unbundle bit_operations_syntax

section \<open>The coder\<close>

definition BASE64_SIZE :: "nat \<Rightarrow> nat" where
  "BASE64_SIZE x = (x + 2) div 3 * 4 + 1"

definition map2_table :: bytes where
  "map2_table =
    [0x3e, 0xff, 0xff, 0xff, 0x3f, 0x34, 0x35, 0x36, 0x37, 0x38, 0x39, 0x3a, 0x3b, 0x3c, 0x3d, 0xff,
     0xff, 0xff, 0xff, 0xff, 0xff, 0xff, 0x00, 0x01, 0x02, 0x03, 0x04, 0x05, 0x06, 0x07, 0x08, 0x09,
     0x0a, 0x0b, 0x0c, 0x0d, 0x0e, 0x0f, 0x10, 0x11, 0x12, 0x13, 0x14, 0x15, 0x16, 0x17, 0x18, 0x19,
     0xff, 0xff, 0xff, 0xff, 0xff, 0xff, 0x1a, 0x1b, 0x1c, 0x1d, 0x1e, 0x1f, 0x20, 0x21, 0x22, 0x23,
     0x24, 0x25, 0x26, 0x27, 0x28, 0x29, 0x2a, 0x2b, 0x2c, 0x2d, 0x2e, 0x2f, 0x30, 0x31, 0x32, 0x33]"

text \<open>The decoding loop; \<open>None\<close> is the result -1.\<close>

fun decode_loop :: "nat \<Rightarrow> nat \<Rightarrow> u32 \<Rightarrow> bytes \<Rightarrow> bytes \<Rightarrow> bytes option" where
  "decode_loop out_size i v out [] = Some out"
| "decode_loop out_size i v out (c # cs) =
     (if c = 0 \<or> c = 61 then Some out
      else let index = (ucast c - 43 :: u32)
           in if unat index \<ge> length map2_table \<or> map2_table ! unat index = 0xff then None
              else let v1 = push_bit 6 v + ucast (map2_table ! unat index);
                       out1 = (if i mod 4 \<noteq> 0 \<and> length out < out_size
                               then out @ [ucast (drop_bit (6 - 2 * (i mod 4)) v1)] else out)
                   in decode_loop out_size (Suc i) v1 out1 cs)"

definition base64_decode :: "bytes \<Rightarrow> nat \<Rightarrow> bytes option" where
  "base64_decode inp out_size = decode_loop out_size 0 0 [] inp"

definition b64_table :: bytes where
  "b64_table = map of_char ''ABCDEFGHIJKLMNOPQRSTUVWXYZabcdefghijklmnopqrstuvwxyz0123456789+/''"

definition b64_char :: "u32 \<Rightarrow> nat \<Rightarrow> byte" where
  "b64_char i_bits i_shift = b64_table ! unat (drop_bit i_shift (push_bit 6 i_bits) AND 0x3f)"

text \<open>The inner loop emits sextets; its result is the characters and the bits left.\<close>

function emit_sextets :: "u32 \<Rightarrow> int \<Rightarrow> bool \<Rightarrow> bytes \<times> int" where
  "emit_sextets i_bits i_shift at_end =
     (let c = b64_char i_bits (nat i_shift); i_shift1 = i_shift - 6
      in if i_shift1 > 6 \<or> at_end \<and> i_shift1 > 0
         then (let (cs, r) = emit_sextets i_bits i_shift1 at_end in (c # cs, r))
         else ([c], i_shift1))"
  by auto
termination by (relation "measure (\<lambda>(_, i_shift, _). nat i_shift)") auto

declare emit_sextets.simps [simp del]

fun encode_loop :: "u32 \<Rightarrow> int \<Rightarrow> bytes \<Rightarrow> bytes" where
  "encode_loop i_bits i_shift [] = []"
| "encode_loop i_bits i_shift (b # bs) =
     (let i_bits1 = push_bit 8 i_bits + ucast b; (cs, i_shift1) = emit_sextets i_bits1 (i_shift + 8) (bs = [])
      in cs @ encode_loop i_bits1 i_shift1 bs)"

definition base64_encode :: "int \<Rightarrow> bytes \<Rightarrow> bytes option" where
  "base64_encode out_size inp =
     (if length inp \<ge> (2 ^ 32 - 1) div 4 \<or> out_size < int (BASE64_SIZE (length inp)) then None
      else let cs = encode_loop 0 0 inp in Some (cs @ replicate ((4 - length cs mod 4) mod 4) 61))"

text \<open>\<open>basic_authentication_encode\<close> of \<open>http-auth.c\<close>: the pair of user and password.\<close>

definition basic_authentication_encode :: "bytes \<Rightarrow> bytes \<Rightarrow> bytes option" where
  "basic_authentication_encode user passwd =
     (let pair = user @ [58] @ passwd in base64_encode (int (BASE64_SIZE (length pair))) pair)"

section \<open>The encoding\<close>

text \<open>
  The encoding as RFC 4648 describes it: groups of three bytes become four characters, each the
  entry of the alphabet for six bits, and the last group is filled up with zero bits and padding.
\<close>

definition b64_of :: "byte \<Rightarrow> byte" where
  "b64_of s = b64_table ! unat s"

definition sextet0 :: "byte \<Rightarrow> byte" where
  "sextet0 a = drop_bit 2 a"

definition sextet1 :: "byte \<Rightarrow> byte \<Rightarrow> byte" where
  "sextet1 a b = push_bit 4 (a AND 3) OR drop_bit 4 b"

definition sextet2 :: "byte \<Rightarrow> byte \<Rightarrow> byte" where
  "sextet2 b c = push_bit 2 (b AND 15) OR drop_bit 6 c"

definition sextet3 :: "byte \<Rightarrow> byte" where
  "sextet3 c = c AND 63"

fun base64_spec :: "bytes \<Rightarrow> bytes" where
  "base64_spec [] = []"
| "base64_spec [a] = [b64_of (sextet0 a), b64_of (sextet1 a 0), 61, 61]"
| "base64_spec [a, b] = [b64_of (sextet0 a), b64_of (sextet1 a b), b64_of (sextet2 b 0), 61]"
| "base64_spec (a # b # c # r) =
     [b64_of (sextet0 a), b64_of (sextet1 a b), b64_of (sextet2 b c), b64_of (sextet3 c)] @ base64_spec r"

section \<open>The loops compute it\<close>

lemma numeral_masks: "(3 :: byte) = mask 2" "(15 :: byte) = mask 4" "(63 :: byte) = mask 6" "(63 :: u32) = mask 6"
  by (simp_all add: mask_eq_exp_minus_1)

lemma bit_numeral_masks:
  "bit (3 :: byte) n \<longleftrightarrow> n < 2" "bit (15 :: byte) n \<longleftrightarrow> n < 4" "bit (63 :: byte) n \<longleftrightarrow> n < 6" "bit (63 :: u32) n \<longleftrightarrow> n < 6"
  unfolding numeral_masks bit_mask_iff by (auto simp: possible_bit_word)

lemma bit_byte: "bit (a :: byte) n \<Longrightarrow> n < 8"
  using bit_imp_le_length [of a n] by simp

lemma bit_sextets:
  "bit (sextet0 a) n \<longleftrightarrow> bit a (n + 2)"
  "bit (sextet1 a b) n \<longleftrightarrow> (if n < 4 then bit b (n + 4) else n < 6 \<and> bit a (n - 4))"
  "bit (sextet2 b c) n \<longleftrightarrow> (if n < 2 then bit c (n + 6) else n < 6 \<and> bit b (n - 2))"
  "bit (sextet3 c) n \<longleftrightarrow> n < 6 \<and> bit c n"
  unfolding sextet0_def sextet1_def sextet2_def sextet3_def bit_or_iff bit_push_bit_iff bit_and_iff bit_numeral_masks bit_drop_bit_eq
  by (auto simp: add.commute dest: bit_byte)

lemma bit_acc: "bit (push_bit 8 v + ucast (a :: byte) :: u32) n \<longleftrightarrow> (if n < 8 then bit a n else n < 32 \<and> bit v (n - 8))"
proof -
  have byte: "bit a n \<Longrightarrow> n < 8" using bit_imp_le_length [of a n] by simp
  have "push_bit 8 v + ucast a = (push_bit 8 v OR ucast a :: u32)"
    by (rule disjunctive_add) (auto simp: bit_simps dest: bit_imp_le_length)
  then show ?thesis using byte by (auto simp: bit_or_iff bit_push_bit_iff bit_ucast_iff)
qed

lemma bit_sextet: "bit (drop_bit s (push_bit 6 x) AND 63 :: u32) n \<longleftrightarrow> n < 6 \<and> 6 \<le> n + s \<and> n + s < 32 \<and> bit x (n + s - 6)"
  unfolding bit_and_iff bit_numeral_masks by (auto simp: bit_drop_bit_eq bit_push_bit_iff add.commute)

lemma b64_char_of:
  assumes "\<And>n. bit y n \<longleftrightarrow> n < 6 \<and> 6 \<le> n + s \<and> n + s < 32 \<and> bit x (n + s - 6)"
  shows "b64_char x s = b64_of y"
proof -
  have "drop_bit s (push_bit 6 x) AND 63 = (ucast y :: u32)"
    by (rule bit_eqI) (use assms bit_imp_le_length [of y] in \<open>auto simp: bit_sextet bit_ucast_iff\<close>)
  moreover have "unat y < 2 ^ 32" using unsigned_less [of y, where ?'a = nat] by simp
  ultimately show ?thesis by (simp add: b64_char_def b64_of_def unsigned_ucast_eq take_bit_nat_eq_self)
qed

lemma sextets:
  fixes a b c :: byte and v x1 x2 x3 :: u32
  assumes x1: "x1 = push_bit 8 v + ucast a" and x2: "x2 = push_bit 8 x1 + ucast b" and x3: "x3 = push_bit 8 x2 + ucast c"
  shows "b64_char x1 8 = b64_of (sextet0 a)" "b64_char x1 2 = b64_of (sextet1 a 0)"
    "b64_char x2 10 = b64_of (sextet1 a b)" "b64_char x2 4 = b64_of (sextet2 b 0)"
    "b64_char x3 12 = b64_of (sextet2 b c)" "b64_char x3 6 = b64_of (sextet3 c)"
    "b64_char x1 14 = b64_of (sextet3 (ucast v))"
  by (rule b64_char_of; simp only: assms bit_acc bit_sextets; auto simp: bit_ucast_iff numeral_2_eq_2 add.commute dest: bit_byte)+

lemma emit_sextets_cases:
  "emit_sextets x 8 False = ([b64_char x 8], 2)" "emit_sextets x 10 False = ([b64_char x 10], 4)" "emit_sextets x 12 False = ([b64_char x 12], 6)"
  "emit_sextets x 8 True = ([b64_char x 8, b64_char x 2], -4)" "emit_sextets x 10 True = ([b64_char x 10, b64_char x 4], -2)"
  "emit_sextets x 12 True = ([b64_char x 12, b64_char x 6], 0)"
  "emit_sextets x 14 at_end = (let (cs, r) = emit_sextets x 8 at_end in (b64_char x 14 # cs, r))"
  by (simp_all add: emit_sextets.simps [of x 14] emit_sextets.simps [of x 8] emit_sextets.simps [of x 10] emit_sextets.simps [of x 12]
      emit_sextets.simps [of x 2] emit_sextets.simps [of x 4] emit_sextets.simps [of x 6])

lemma encode_loop_pending: "encode_loop v 6 (b # bs) = b64_of (sextet3 (ucast v)) # encode_loop v 0 (b # bs)"
  by (simp add: emit_sextets_cases(7) sextets(7) [OF refl refl refl] Let_def split_beta)

lemma length_spec: "length (base64_spec xs) = (length xs + 2) div 3 * 4"
  by (induction xs rule: base64_spec.induct) (simp_all, presburger)

definition pad :: "bytes \<Rightarrow> bytes" where
  "pad cs = cs @ replicate ((4 - length cs mod 4) mod 4) 61"

lemma pad_group: "length g = 4 \<Longrightarrow> pad (g @ cs) = g @ pad cs"
  by (simp add: pad_def)

lemma encode_spec: "pad (encode_loop v 0 xs) = base64_spec xs"
proof (induction xs arbitrary: v rule: base64_spec.induct)
  case (4 a b c r)
  let ?x1 = "push_bit 8 v + ucast a"
  let ?x2 = "push_bit 8 ?x1 + ucast b"
  let ?x3 = "push_bit 8 ?x2 + ucast c"
  let ?g = "[b64_of (sextet0 a), b64_of (sextet1 a b), b64_of (sextet2 b c), b64_of (sextet3 c)]"
  note s = sextets [of ?x1 v a ?x2 b ?x3 c, OF refl refl refl]
  show ?case
  proof (cases r)
    case Nil
    then show ?thesis using s by (simp add: emit_sextets_cases pad_def)
  next
    case (Cons d r')
    have "sextet3 (ucast ?x3) = sextet3 c" by (rule bit_eqI) (auto simp: bit_sextets bit_ucast_iff bit_acc)
    then have "encode_loop v 0 (a # b # c # r) = ?g @ encode_loop ?x3 0 r"
      using s unfolding Cons by (simp add: emit_sextets_cases encode_loop_pending del: encode_loop.simps(2) add: encode_loop.simps(2) [of _ _ _ "_ # _"])
    then have "pad (encode_loop v 0 (a # b # c # r)) = ?g @ pad (encode_loop ?x3 0 r)" by (simp only: pad_group [of ?g] list.size)
    then show ?thesis unfolding 4 [of ?x3] base64_spec.simps(4) .
  qed
qed (use sextets [OF refl refl refl] in \<open>simp_all add: emit_sextets_cases pad_def numeral_2_eq_2\<close>)


lemma b64_table_bytes: "b64_table =
  [65, 66, 67, 68, 69, 70, 71, 72, 73, 74, 75, 76, 77, 78, 79, 80, 81, 82, 83, 84, 85, 86, 87, 88, 89, 90,
   97, 98, 99, 100, 101, 102, 103, 104, 105, 106, 107, 108, 109, 110, 111, 112, 113, 114, 115, 116, 117, 118, 119, 120, 121, 122,
   48, 49, 50, 51, 52, 53, 54, 55, 56, 57, 43, 47]"
  by (simp add: b64_table_def of_char_def)

definition decodes_to :: "byte \<Rightarrow> nat \<Rightarrow> bool" where
  "decodes_to c i \<longleftrightarrow> c \<noteq> 0 \<and> c \<noteq> 61 \<and> unat (ucast c - 43 :: u32) < 80 \<and> map2_table ! unat (ucast c - 43 :: u32) = of_nat i"

lemma b64_of_decodes:
  assumes "unat s < 64"
  shows "decodes_to (b64_of s) (unat s)"
proof -
  have "list_all (\<lambda>(i, c). decodes_to c i) (enumerate 0 b64_table)" by (simp add: b64_table_bytes decodes_to_def map2_table_def)
  moreover have "length b64_table = 64" by (simp add: b64_table_bytes)
  ultimately show ?thesis using assms by (auto simp: list_all_length b64_of_def nth_enumerate_eq)
qed

definition is_sextet :: "byte \<Rightarrow> bool" where
  "is_sextet s \<longleftrightarrow> (\<forall>n. bit s n \<longrightarrow> n < 6)"

lemma sextet_small:
  assumes "is_sextet s"
  shows "unat s < 64"
proof -
  have "take_bit 6 s = s" by (rule bit_eqI) (use assms in \<open>auto simp: is_sextet_def bit_take_bit_iff\<close>)
  then have "unat s = take_bit 6 (unat s)" by (metis unsigned_take_bit_eq)
  then show ?thesis using take_bit_nat_less_exp [of 6 "unat s"] by simp
qed

section \<open>Decoding\<close>

definition put :: "nat \<Rightarrow> bytes \<Rightarrow> byte \<Rightarrow> bytes" where
  "put n out b = (if length out < n then out @ [b] else out)"

lemma decode_sextet:
  assumes "is_sextet s"
  shows "decode_loop n i v out (b64_of s # cs) =
    decode_loop n (Suc i) (push_bit 6 v + ucast s)
      (if i mod 4 \<noteq> 0 then put n out (ucast (drop_bit (6 - 2 * (i mod 4)) (push_bit 6 v + ucast s))) else out) cs"
proof -
  have s: "unat s < 64" by (rule sextet_small [OF assms])
  then have "s \<noteq> 0xff" by auto
  then show ?thesis using b64_of_decodes [OF s] by (simp add: decodes_to_def Let_def map2_table_def [THEN arg_cong, of length] put_def)
qed

lemma bit_acc6:
  assumes "is_sextet s"
  shows "bit (push_bit 6 v + ucast (s :: byte) :: u32) n \<longleftrightarrow> (if n < 6 then bit s n else n < 32 \<and> bit v (n - 6))"
proof -
  have "push_bit 6 v + ucast s = (push_bit 6 v OR ucast s :: u32)"
    by (rule disjunctive_add) (use assms in \<open>auto simp: is_sextet_def bit_simps\<close>)
  then show ?thesis using assms by (auto simp: is_sextet_def bit_or_iff bit_push_bit_iff bit_ucast_iff)
qed

lemma put_take: "put n (take n out) b = take n (out @ [b])"
  by (auto simp: put_def)

lemma is_sextets: "is_sextet (sextet0 a)" "is_sextet (sextet1 a b)" "is_sextet (sextet2 b c)" "is_sextet (sextet3 c)"
  by (auto simp: is_sextet_def bit_sextets split: if_splits dest: bit_byte)

lemma Suc_Suc_minus: "\<not> n < Suc (Suc 0) \<Longrightarrow> Suc (Suc (n - Suc (Suc 0))) = n"
  by arith

lemma decoded_bytes:
  fixes v x0 x1 x2 x3 :: u32
  assumes x: "x0 = push_bit 6 v + ucast (sextet0 a)" "x1 = push_bit 6 x0 + ucast (sextet1 a b)"
    "x2 = push_bit 6 x1 + ucast (sextet2 b c)" "x3 = push_bit 6 x2 + ucast (sextet3 c)"
  shows "ucast (drop_bit 4 x1) = a" "ucast (drop_bit 2 x2) = b" "ucast x3 = c"
  by (rule bit_eqI; simp only: x bit_ucast_iff bit_drop_bit_eq o_apply is_sextets [THEN bit_acc6]; auto simp: bit_sextets numeral_2_eq_2 Suc_Suc_minus add.commute dest: bit_byte)+

lemmas decode_sextets = is_sextets [THEN decode_sextet]

lemma decode_spec: "i mod 4 = 0 \<Longrightarrow> decode_loop n i v (take n out) (base64_spec xs) = Some (take n (out @ xs))"
proof (induction xs arbitrary: i v out rule: base64_spec.induct)
  case (4 a b c r)
  from 4(2) have m: "Suc i mod 4 = 1" "Suc (Suc i) mod 4 = 2" "Suc (Suc (Suc i)) mod 4 = 3" "Suc (Suc (Suc (Suc i))) mod 4 = 0" by presburger+
  show ?case
    unfolding base64_spec.simps append.simps decode_sextets m 4(2)
    using 4(1) [OF m(4), of _ "out @ [a, b, c]"] decoded_bytes [OF refl refl refl refl] by (simp add: put_take del: take_append decode_loop.simps(2))
next
  case (2 a)
  then have m: "Suc i mod 4 = 1" by presburger
  show ?case unfolding base64_spec.simps append.simps decode_sextets m 2
    using decoded_bytes [OF refl refl refl refl] by (simp add: put_take del: take_append)
next
  case (3 a b)
  then have m: "Suc i mod 4 = 1" "Suc (Suc i) mod 4 = 2" by presburger+
  show ?case unfolding base64_spec.simps append.simps decode_sextets m 3
    using decoded_bytes [OF refl refl refl refl] by (simp add: put_take del: take_append)
qed simp

section \<open>Properties\<close>

text \<open>
  C25. The encoder writes the RFC 4648 encoding of its input and fills, with the terminating zero,
  exactly the \<open>BASE64_SIZE\<close> bytes it asks for; and the decoder gives the input back, cut to the
  size of its output buffer, which it never exceeds.
\<close>

theorem base64_roundtrip:
  assumes "length inp < (2 ^ 32 - 1) div 4" "int (BASE64_SIZE (length inp)) \<le> out_size"
  shows "\<exists>s. base64_encode out_size inp = Some s \<and> s = base64_spec inp \<and> length s + 1 = BASE64_SIZE (length inp) \<and>
    (\<forall>n. base64_decode s n = Some (take n inp))"
proof -
  have "base64_encode out_size inp = Some (base64_spec inp)"
    using assms encode_spec [of 0 inp] by (simp add: base64_encode_def Let_def pad_def)
  then show ?thesis using decode_spec [of 0 _ 0 "[]" inp] by (simp add: length_spec BASE64_SIZE_def base64_decode_def)
qed

theorem base64_roundtrip_witness:
  "\<exists>s. base64_encode 5 (map of_char ''Man'') = Some s \<and> base64_decode s 2 = Some (map of_char ''Ma'') \<and> s = map of_char ''TWFu''"
proof -
  obtain s where "base64_encode 5 (map of_char ''Man'') = Some s" "s = base64_spec (map of_char ''Man'')"
    "\<And>n. base64_decode s n = Some (take n (map of_char ''Man''))"
    using base64_roundtrip [of "map of_char ''Man''" 5] by (auto simp: BASE64_SIZE_def)
  moreover have "base64_spec (map of_char ''Man'') = map of_char ''TWFu''"
    by (simp add: of_char_def b64_of_def b64_table_bytes sextet0_def sextet1_def sextet2_def sextet3_def)
  ultimately show ?thesis by (simp add: of_char_def)
qed

end
