(* ===== verification/Md5.thy ===== *)
theory Md5
  imports Prelude
begin

text \<open>
  The MD5 implementation of \<open>redsocks/md5.c\<close>: the state with its 64-bit count of bits in two words,
  the block function, and the streaming interface that buffers partial blocks. It is shown to
  compute MD5 as RFC 1321 defines it, whatever way the message is cut into pieces.
\<close>

unbundle bit_operations_syntax

section \<open>The block function\<close>

type_synonym md5_abcd = "u32 \<times> u32 \<times> u32 \<times> u32"

abbreviation T_MASK :: u32 where
  "T_MASK \<equiv> NOT 0"

definition ROTATE_LEFT :: "u32 \<Rightarrow> nat \<Rightarrow> u32" where
  "ROTATE_LEFT x n = push_bit n x OR drop_bit (32 - n) x"

definition md5_F :: "u32 \<Rightarrow> u32 \<Rightarrow> u32 \<Rightarrow> u32" where
  "md5_F x y z = (x AND y) OR (NOT x AND z)"

definition md5_G :: "u32 \<Rightarrow> u32 \<Rightarrow> u32 \<Rightarrow> u32" where
  "md5_G x y z = (x AND z) OR (y AND NOT z)"

definition md5_H :: "u32 \<Rightarrow> u32 \<Rightarrow> u32 \<Rightarrow> u32" where
  "md5_H x y z = x XOR y XOR z"

definition md5_I :: "u32 \<Rightarrow> u32 \<Rightarrow> u32 \<Rightarrow> u32" where
  "md5_I x y z = y XOR (x OR NOT z)"

text \<open>
  One \<open>SET\<close>. The four registers are given in the order the macro names them; the next \<open>SET\<close> names them
  rotated by one, which is the order of the result.
\<close>

definition md5_SET :: "(u32 \<Rightarrow> u32 \<Rightarrow> u32 \<Rightarrow> u32) \<Rightarrow> u32 list \<Rightarrow> nat \<times> nat \<times> u32 \<Rightarrow> md5_abcd \<Rightarrow> md5_abcd" where
  "md5_SET f X op abcd = (case (op, abcd) of ((k, s, Ti), (a, b, c, d)) \<Rightarrow>
     let t = a + f b c d + X ! k + Ti in (d, ROTATE_LEFT t s + b, b, c))"

text \<open>The operations of the four rounds: index of the word, rotation, constant.\<close>

definition md5_round1 :: "(nat \<times> nat \<times> u32) list" where
  "md5_round1 =
    [(0, 7, T_MASK XOR 0x28955b87), (1, 12, T_MASK XOR 0x173848a9), (2, 17, 0x242070db), (3, 22, T_MASK XOR 0x3e423111),
     (4, 7, T_MASK XOR 0x0a83f050), (5, 12, 0x4787c62a), (6, 17, T_MASK XOR 0x57cfb9ec), (7, 22, T_MASK XOR 0x02b96afe),
     (8, 7, 0x698098d8), (9, 12, T_MASK XOR 0x74bb0850), (10, 17, T_MASK XOR 0x0000a44e), (11, 22, T_MASK XOR 0x76a32841),
     (12, 7, 0x6b901122), (13, 12, T_MASK XOR 0x02678e6c), (14, 17, T_MASK XOR 0x5986bc71), (15, 22, 0x49b40821)]"

definition md5_round2 :: "(nat \<times> nat \<times> u32) list" where
  "md5_round2 =
    [(1, 5, T_MASK XOR 0x09e1da9d), (6, 9, T_MASK XOR 0x3fbf4cbf), (11, 14, 0x265e5a51), (0, 20, T_MASK XOR 0x16493855),
     (5, 5, T_MASK XOR 0x29d0efa2), (10, 9, 0x02441453), (15, 14, T_MASK XOR 0x275e197e), (4, 20, T_MASK XOR 0x182c0437),
     (9, 5, 0x21e1cde6), (14, 9, T_MASK XOR 0x3cc8f829), (3, 14, T_MASK XOR 0x0b2af278), (8, 20, 0x455a14ed),
     (13, 5, T_MASK XOR 0x561c16fa), (2, 9, T_MASK XOR 0x03105c07), (7, 14, 0x676f02d9), (12, 20, T_MASK XOR 0x72d5b375)]"

definition md5_round3 :: "(nat \<times> nat \<times> u32) list" where
  "md5_round3 =
    [(5, 4, T_MASK XOR 0x0005c6bd), (8, 11, T_MASK XOR 0x788e097e), (11, 16, 0x6d9d6122), (14, 23, T_MASK XOR 0x021ac7f3),
     (1, 4, T_MASK XOR 0x5b4115bb), (4, 11, 0x4bdecfa9), (7, 16, T_MASK XOR 0x0944b49f), (10, 23, T_MASK XOR 0x4140438f),
     (13, 4, 0x289b7ec6), (0, 11, T_MASK XOR 0x155ed805), (3, 16, T_MASK XOR 0x2b10cf7a), (6, 23, 0x04881d05),
     (9, 4, T_MASK XOR 0x262b2fc6), (12, 11, T_MASK XOR 0x1924661a), (15, 16, 0x1fa27cf8), (2, 23, T_MASK XOR 0x3b53a99a)]"

definition md5_round4 :: "(nat \<times> nat \<times> u32) list" where
  "md5_round4 =
    [(0, 6, T_MASK XOR 0x0bd6ddbb), (7, 10, 0x432aff97), (14, 15, T_MASK XOR 0x546bdc58), (5, 21, T_MASK XOR 0x036c5fc6),
     (12, 6, 0x655b59c3), (3, 10, T_MASK XOR 0x70f3336d), (10, 15, T_MASK XOR 0x00100b82), (1, 21, T_MASK XOR 0x7a7ba22e),
     (8, 6, 0x6fa87e4f), (15, 10, T_MASK XOR 0x01d3191f), (6, 15, T_MASK XOR 0x5cfebceb), (13, 21, 0x4e0811a1),
     (4, 6, T_MASK XOR 0x08ac817d), (11, 10, T_MASK XOR 0x42c50dca), (2, 15, 0x2ad7d2bb), (9, 21, T_MASK XOR 0x14792c6e)]"

text \<open>The sixteen words of a block, least significant byte first.\<close>

definition md5_X :: "bytes \<Rightarrow> u32 list" where
  "md5_X data = map (\<lambda>i. of_mem32 (window (4 * i) 4 data)) [0..<16]"

definition md5_process :: "bytes \<Rightarrow> md5_abcd \<Rightarrow> md5_abcd" where
  "md5_process data pms =
     (let X = md5_X data;
          (a, b, c, d) = fold (md5_SET md5_I X) md5_round4 (fold (md5_SET md5_H X) md5_round3
                           (fold (md5_SET md5_G X) md5_round2 (fold (md5_SET md5_F X) md5_round1 pms)));
          (a0, b0, c0, d0) = pms
      in (a0 + a, b0 + b, c0 + c, d0 + d))"

section \<open>The streaming interface\<close>

record md5_state =
  md5_count :: "u32 \<times> u32"
  md5_abcd :: md5_abcd
  md5_buf :: bytes

definition md5_init :: "bytes \<Rightarrow> md5_state" where
  "md5_init buf = \<lparr>md5_count = (0, 0), md5_abcd = (0x67452301, T_MASK XOR 0x10325476, T_MASK XOR 0x67452301, 0x10325476), md5_buf = buf\<rparr>"

text \<open>The loop over full blocks and the copy of what is left.\<close>

function process_blocks :: "bytes \<Rightarrow> md5_state \<Rightarrow> md5_state" where
  "process_blocks p pms =
     (if 64 \<le> length p then process_blocks (drop 64 p) (pms\<lparr>md5_abcd := md5_process (take 64 p) (md5_abcd pms)\<rparr>)
      else if p \<noteq> [] then pms\<lparr>md5_buf := write_at 0 p (md5_buf pms)\<rparr> else pms)"
  by auto
termination by (relation "measure (\<lambda>(p, _). length p)") auto

declare process_blocks.simps [simp del]

definition add_count :: "nat \<Rightarrow> u32 \<times> u32 \<Rightarrow> u32 \<times> u32" where
  "add_count nbytes count =
     (let nbits = of_nat (push_bit 3 nbytes) :: u32; c1 = snd count + of_nat (drop_bit 29 nbytes); c0 = fst count + nbits
      in (c0, if c0 < nbits then c1 + 1 else c1))"

definition md5_append :: "bytes \<Rightarrow> md5_state \<Rightarrow> md5_state" where
  "md5_append data pms =
     (let nbytes = length data; offset = unat (drop_bit 3 (fst (md5_count pms)) AND 63)
      in if nbytes = 0 then pms
         else let pms1 = pms\<lparr>md5_count := add_count nbytes (md5_count pms)\<rparr>
              in if offset \<noteq> 0
                 then let copy = (if offset + nbytes > 64 then 64 - offset else nbytes);
                          pms2 = pms1\<lparr>md5_buf := write_at offset (take copy data) (md5_buf pms1)\<rparr>
                      in if offset + copy < 64 then pms2
                         else process_blocks (drop copy data) (pms2\<lparr>md5_abcd := md5_process (md5_buf pms2) (md5_abcd pms2)\<rparr>)
                 else process_blocks data pms1)"

definition md5_pad :: bytes where
  "md5_pad = 0x80 # replicate 63 0"

definition md5_finish :: "md5_state \<Rightarrow> bytes" where
  "md5_finish pms =
     (let data = mem32 (fst (md5_count pms)) @ mem32 (snd (md5_count pms));
          pms1 = md5_append (take (unat ((55 - drop_bit 3 (fst (md5_count pms))) AND 63) + 1) md5_pad) pms;
          pms2 = md5_append data pms1;
          (a, b, c, d) = md5_abcd pms2
      in mem32 a @ mem32 b @ mem32 c @ mem32 d)"

section \<open>MD5\<close>

text \<open>
  RFC 1321: the message is extended by a one bit, zeros up to 56 bytes modulo 64, and its length in
  bits modulo \<open>2 ^ 64\<close>; the blocks are absorbed from the left.
\<close>

abbreviation md5_iv :: md5_abcd where
  "md5_iv \<equiv> (0x67452301, 0xefcdab89, 0x98badcfe, 0x10325476)"

function absorb :: "bytes \<Rightarrow> md5_abcd \<Rightarrow> md5_abcd" where
  "absorb m st = (if length m < 64 then st else absorb (drop 64 m) (md5_process (take 64 m) st))"
  by auto
termination by (relation "measure (\<lambda>(m, _). length m)") auto

declare absorb.simps [simp del]

definition md5_padded :: "bytes \<Rightarrow> bytes" where
  "md5_padded m = m @ 0x80 # replicate (nat ((55 - int (length m)) mod 64)) 0 @
     (let bits = of_nat (8 * length m) :: u64 in mem32 (ucast bits) @ mem32 (ucast (drop_bit 32 bits)))"

definition md5_digest :: "bytes \<Rightarrow> bytes" where
  "md5_digest m = (let (a, b, c, d) = absorb (md5_padded m) md5_iv in mem32 a @ mem32 b @ mem32 c @ mem32 d)"

section \<open>The streaming interface computes it\<close>

lemma absorb_short [simp]: "length m < 64 \<Longrightarrow> absorb m st = st"
  by (simp add: absorb.simps)

lemma absorb_append: "64 dvd length xs \<Longrightarrow> absorb (xs @ ys) st = absorb ys (absorb xs st)"
proof (induction xs st rule: absorb.induct)
  case (1 xs st)
  show ?case
  proof (cases "length xs < 64")
    case True
    then have "xs = []" using 1(2) by (auto dest: dvd_imp_le)
    then show ?thesis by simp
  next
    case False
    then have "64 dvd length (drop 64 xs)" using 1(2) by (simp add: dvd_diff_nat)
    then show ?thesis using 1(1) [OF False] False by (subst (1 3) absorb.simps) simp
  qed
qed

lemma absorb_split: "absorb m st = absorb (take (length m - length m mod 64) m) st"
proof -
  have d: "64 dvd length (take (length m - length m mod 64) m)" by (simp add: dvd_minus_mod)
  have "absorb m st = absorb (drop (length m - length m mod 64) m) (absorb (take (length m - length m mod 64) m) st)"
    using absorb_append [OF d, of "drop (length m - length m mod 64) m" st] by simp
  then show ?thesis by simp
qed

lemma process_blocks_absorb:
  assumes "length (md5_buf pms) = 64"
  shows "md5_abcd (process_blocks p pms) = absorb p (md5_abcd pms)" "md5_count (process_blocks p pms) = md5_count pms"
    "length (md5_buf (process_blocks p pms)) = 64"
    "take (length p mod 64) (md5_buf (process_blocks p pms)) = drop (length p - length p mod 64) p"
  using assms
proof (induction p pms rule: process_blocks.induct)
  case (1 p pms)
  {
    case 1
    then show ?case using "1.IH"(1) by (subst process_blocks.simps, subst absorb.simps) auto
  next
    case 2
    then show ?case using "1.IH"(2) by (subst process_blocks.simps) auto
  next
    case 3
    then show ?case using "1.IH"(3) by (subst process_blocks.simps) auto
  next
    case 4
    show ?case
    proof (cases "64 \<le> length p")
      case True
      have m: "length (drop 64 p) mod 64 = length p mod 64" using True by (simp add: le_mod_geq)
      have "take (length p mod 64) (md5_buf (process_blocks p pms)) = drop (length p - 64 - length p mod 64) (drop 64 p)"
        using "1.IH"(4) [OF True] 4 True m by (subst process_blocks.simps) simp
      also have "\<dots> = drop (length p - length p mod 64) p"
        using True m mod_less_eq_dividend [of "length (drop 64 p)" 64] by simp
      finally show ?thesis .
    next
      case False
      then show ?thesis using 4 by (subst process_blocks.simps) (auto simp: write_at_def)
    qed
  }
qed

lemma carry_less: "\<lbrakk>x < N; y < N\<rbrakk> \<Longrightarrow> (x + y) mod N < y \<longleftrightarrow> N \<le> x + (y :: nat)"
  by (cases "x + y < N") (simp_all add: le_mod_geq)

lemma carry_div: "\<lbrakk>x < N; y < N\<rbrakk> \<Longrightarrow> (x + y) div N = of_bool (N \<le> x + (y :: nat))"
  by (cases "x + y < N") (simp_all add: le_div_geq)

lemma add_count_of_nat:
  "add_count n (of_nat (8 * a), of_nat (8 * a div 2 ^ 32)) = (of_nat (8 * (a + n)), of_nat (8 * (a + n) div 2 ^ 32))"
proof -
  let ?x = "8 * a" and ?y = "8 * n"
  have nb: "push_bit 3 n = ?y" by (simp add: push_bit_eq_mult)
  have hi: "drop_bit 29 n = ?y div 2 ^ 32" by (simp add: drop_bit_eq_div)
  have carry: "(of_nat ?x + of_nat ?y :: u32) < of_nat ?y \<longleftrightarrow> 2 ^ 32 \<le> ?x mod 2 ^ 32 + ?y mod 2 ^ 32"
  proof -
    have "unat (of_nat ?x + of_nat ?y :: u32) = (?x mod 2 ^ 32 + ?y mod 2 ^ 32) mod 2 ^ 32"
      by (simp only: of_nat_add [symmetric] unsigned_of_nat take_bit_eq_mod) (simp add: mod_simps)
    moreover have "unat (of_nat ?y :: u32) = ?y mod 2 ^ 32" by (simp only: unsigned_of_nat take_bit_eq_mod) simp
    ultimately show ?thesis unfolding word_less_nat_alt by (simp only: carry_less [OF mod_less_divisor mod_less_divisor] zero_less_power zero_less_numeral)
  qed
  have "(?x + ?y) div 2 ^ 32 = ?x div 2 ^ 32 + ?y div 2 ^ 32 + (?x mod 2 ^ 32 + ?y mod 2 ^ 32) div 2 ^ 32" by (rule div_add1_eq)
  moreover have "(?x mod 2 ^ 32 + ?y mod 2 ^ 32) div 2 ^ 32 = of_bool (2 ^ 32 \<le> ?x mod 2 ^ 32 + ?y mod 2 ^ 32)"
    by (rule carry_div) simp_all
  ultimately have "(?x + ?y) div 2 ^ 32 = ?x div 2 ^ 32 + ?y div 2 ^ 32 + of_bool (2 ^ 32 \<le> ?x mod 2 ^ 32 + ?y mod 2 ^ 32)" by simp
  then show ?thesis using carry unfolding add_count_def nb hi Let_def fst_conv snd_conv distrib_left
    by (simp only: of_nat_add [symmetric] carry prod.inject) simp
qed

lemma offset_of_count: "unat (drop_bit 3 (of_nat (8 * n) :: u32) AND 63) = n mod 64"
proof -
  have "(63 :: u32) = mask 6" by (simp add: mask_eq_exp_minus_1)
  then have "unat (drop_bit 3 (of_nat (8 * n) :: u32) AND 63) = take_bit 6 (drop_bit 3 (take_bit 32 (8 * n)))"
    by (simp only: take_bit_eq_mask [symmetric] unsigned_take_bit_eq unsigned_drop_bit_eq unsigned_of_nat) simp
  also have "\<dots> = (8 * n) mod 2 ^ 32 div 8 mod 64" by (simp add: take_bit_eq_mod drop_bit_eq_div)
  also have "\<dots> = n mod 2 ^ 29 mod 64" using mod_mult_mult1 [of 8 n "2 ^ 29"] by simp
  also have "\<dots> = n mod 64" by (rule mod_mod_cancel) simp
  finally show ?thesis .
qed

definition md5_holds :: "bytes \<Rightarrow> md5_state \<Rightarrow> bool" where
  "md5_holds m pms \<longleftrightarrow> md5_count pms = (of_nat (8 * length m), of_nat (8 * length m div 2 ^ 32)) \<and> md5_abcd pms = absorb m md5_iv \<and>
     length (md5_buf pms) = 64 \<and> take (length m mod 64) (md5_buf pms) = drop (length m - length m mod 64) m"

lemma md5_init_holds: "length buf = 64 \<Longrightarrow> md5_holds [] (md5_init buf)"
  by (simp add: md5_holds_def md5_init_def)

lemma process_blocks_holds:
  assumes "64 dvd length m" "md5_count pms = (of_nat (8 * length (m @ p)), of_nat (8 * length (m @ p) div 2 ^ 32))"
    "md5_abcd pms = absorb m md5_iv" "length (md5_buf pms) = 64"
  shows "md5_holds (m @ p) (process_blocks p pms)"
proof -
  have "(length m + length p) mod 64 = length p mod 64" using assms(1) by (metis add_0 dvd_eq_mod_eq_0 mod_add_left_eq)
  moreover have "length m + length p - length p mod 64 - length m = length p - length p mod 64" by simp
  moreover have "length m \<le> length m + length p - length p mod 64" using mod_less_eq_dividend [of "length p" 64] by linarith
  ultimately show ?thesis
    using process_blocks_absorb [OF assms(4), of p] assms absorb_append [OF assms(1), of p]
    by (simp add: md5_holds_def)
qed

lemma append_holds:
  assumes "md5_holds m pms"
  shows "md5_holds (m @ data) (md5_append data pms)"
proof (cases "data = []")
  case True
  then show ?thesis using assms by (simp add: md5_append_def)
next
  case False
  let ?off = "length m mod 64"
  let ?pre = "take (length m - ?off) m" and ?rem = "drop (length m - ?off) m"
  have h: "md5_count pms = (of_nat (8 * length m), of_nat (8 * length m div 2 ^ 32))" "md5_abcd pms = absorb m md5_iv"
    "length (md5_buf pms) = 64" "take ?off (md5_buf pms) = ?rem" using assms by (simp_all add: md5_holds_def)
  have off: "unat (drop_bit 3 (fst (md5_count pms)) AND 63) = ?off" unfolding h(1) fst_conv by (rule offset_of_count)
  have cnt: "add_count (length data) (md5_count pms) = (of_nat (8 * length (m @ data)), of_nat (8 * length (m @ data) div 2 ^ 32))"
    unfolding h(1) length_append by (rule add_count_of_nat)
  have pre: "64 dvd length ?pre" "absorb m md5_iv = absorb ?pre md5_iv" using absorb_split [of m] by (simp_all add: dvd_minus_mod)
  let ?p1 = "pms\<lparr>md5_count := add_count (length data) (md5_count pms)\<rparr>"
  consider "?off = 0" | "?off \<noteq> 0" "?off + length data < 64" | "?off \<noteq> 0" "64 \<le> ?off + length data" by linarith
  then show ?thesis
  proof cases
    case 1
    then have "md5_holds (m @ data) (process_blocks data ?p1)"
      using h cnt by (intro process_blocks_holds) auto
    then show ?thesis using 1 False off by (simp add: md5_append_def Let_def)
  next
    case 2
    have len: "length (m @ data) mod 64 = ?off + length data" using 2 mod_add_left_eq [of "length m" 64 "length data"] by simp
    have "absorb (m @ data) md5_iv = absorb (?pre @ (?rem @ data)) md5_iv" by (simp flip: append_assoc)
    also have "\<dots> = absorb ?pre md5_iv" using 2 by (subst absorb_append [OF pre(1)]) simp
    finally have abs: "absorb (m @ data) md5_iv = absorb m md5_iv" using pre(2) by simp
    have "take (?off + length data) (write_at ?off data (md5_buf pms)) = ?rem @ data"
      using 2 h(3,4) by (simp add: write_at_def min_def)
    moreover have "length (write_at ?off data (md5_buf pms)) = 64" using 2 h(3) by simp
    moreover have "drop (length (m @ data) - (?off + length data)) (m @ data) = ?rem @ data" by simp
    ultimately show ?thesis
      using 2 False off h cnt abs len by (simp add: md5_append_def md5_holds_def Let_def)
  next
    case 3
    let ?c = "64 - ?off"
    let ?buf = "write_at ?off (take ?c data) (md5_buf pms)"
    have c: "(if 64 < ?off + length data then 64 - ?off else length data) = ?c" using 3 by auto
    have l: "length (take ?c data) = ?c" using 3 by simp
    have buf: "?buf = ?rem @ take ?c data" using 3 h(3,4) l by (simp add: write_at_def)
    have d: "64 dvd length (m @ take ?c data)"
    proof -
      have "length (m @ take ?c data) = length ?pre + 64" using l mod_less_eq_dividend [of "length m" 64] by simp
      then show ?thesis using pre(1) by (simp only: dvd_add_triv_right_iff)
    qed
    have "absorb (m @ take ?c data) md5_iv = absorb (?pre @ (?rem @ take ?c data)) md5_iv" by (simp flip: append_assoc)
    also have "\<dots> = md5_process ?buf (absorb m md5_iv)"
      using l unfolding absorb_append [OF pre(1)] pre(2) buf by (subst absorb.simps) simp
    finally have "md5_holds ((m @ take ?c data) @ drop ?c data)
        (process_blocks (drop ?c data) (?p1\<lparr>md5_buf := ?buf, md5_abcd := md5_process ?buf (md5_abcd pms)\<rparr>))"
      using h cnt l 3 by (intro process_blocks_holds [OF d]) simp_all
    then show ?thesis using 3 False off c by (simp add: md5_append_def Let_def)
  qed
qed

lemma fold_append_holds: "md5_holds m pms \<Longrightarrow> md5_holds (m @ concat ps) (fold md5_append ps pms)"
proof (induction ps arbitrary: m pms)
  case (Cons p ps)
  from Cons.IH [OF append_holds [OF Cons.prems, of p]] show ?case by simp
qed simp

lemma pad_length: "unat ((55 - drop_bit 3 (of_nat (8 * n) :: u32)) AND 63) = nat ((55 - int n) mod 64)"
proof -
  have "drop_bit 3 (of_nat (8 * n) :: u32) = of_nat (n mod 2 ^ 29)"
  proof -
    have "unat (drop_bit 3 (of_nat (8 * n) :: u32)) = 8 * n mod 2 ^ 32 div 8" 
      by (simp only: unsigned_drop_bit_eq unsigned_of_nat) (simp add: take_bit_eq_mod drop_bit_eq_div)
    also have "\<dots> = n mod 2 ^ 29" using mod_mult_mult1 [of 8 n "2 ^ 29"] by simp
    finally show ?thesis by (simp add: word_eq_iff_unsigned unsigned_of_nat take_bit_eq_mod mod_mod_trivial word_unat_eq_iff del: of_nat_mod)
  qed
  then have w: "55 - drop_bit 3 (of_nat (8 * n) :: u32) = word_of_int (55 - int (n mod 2 ^ 29))" by simp
  have "(63 :: u32) = mask 6" by (simp add: mask_eq_exp_minus_1)
  then have "uint ((55 - drop_bit 3 (of_nat (8 * n) :: u32)) AND 63) = take_bit 6 (take_bit 32 (55 - int (n mod 2 ^ 29)))"
    unfolding w by (simp only: take_bit_eq_mask [symmetric] unsigned_take_bit_eq unsigned_of_int) simp
  also have "\<dots> = (55 - int (n mod 2 ^ 29)) mod 64" by (simp add: take_bit_eq_mod mod_mod_cancel)
  also have "\<dots> = (55 - int n) mod 64"
  proof -
    have "int (n mod 2 ^ 29) mod 64 = int n mod 64" by (simp add: zmod_int mod_mod_cancel)
    then show ?thesis by (metis mod_diff_right_eq)
  qed
  finally show ?thesis by (simp add: unat_eq_nat_uint)
qed

lemma finish_digest:
  assumes "md5_holds m pms"
  shows "md5_finish pms = md5_digest m"
proof -
  let ?n = "length m"
  let ?k = "nat ((55 - int ?n) mod 64)"
  let ?len = "mem32 (of_nat (8 * ?n)) @ mem32 (of_nat (8 * ?n div 2 ^ 32))"
  have c: "md5_count pms = (of_nat (8 * ?n), of_nat (8 * ?n div 2 ^ 32))" using assms by (simp add: md5_holds_def)
  have "?k < 64" by simp
  then have pad: "take (?k + 1) md5_pad = 0x80 # replicate ?k 0" by (simp add: md5_pad_def take_replicate min_def)
  have "md5_holds (m @ (0x80 # replicate ?k 0) @ ?len) (md5_append ?len (md5_append (0x80 # replicate ?k 0) pms))"
    using append_holds [OF append_holds [OF assms], of "0x80 # replicate ?k 0" ?len] by (simp only: append_assoc)
  moreover have "?len = (let bits = of_nat (8 * ?n) :: u64 in mem32 (ucast bits) @ mem32 (ucast (drop_bit 32 bits)))"
  proof -
    have "ucast (of_nat (8 * ?n) :: u64) = (of_nat (8 * ?n) :: u32)" 
      by (rule word_unat_eq_iff [THEN iffD2]) (simp only: unsigned_ucast_eq unsigned_of_nat, simp add: take_bit_take_bit)
    moreover have "ucast (drop_bit 32 (of_nat (8 * ?n) :: u64)) = (of_nat (8 * ?n div 2 ^ 32) :: u32)" 
      by (rule word_unat_eq_iff [THEN iffD2]) (simp only: drop_bit_eq_div [symmetric] unsigned_ucast_eq unsigned_drop_bit_eq unsigned_of_nat, simp add: drop_bit_take_bit)
    ultimately show ?thesis by (simp only: Let_def)
  qed
  ultimately show ?thesis
    unfolding md5_finish_def md5_digest_def md5_padded_def c fst_conv snd_conv pad_length pad by (simp add: md5_holds_def Let_def)
qed

section \<open>Properties\<close>

text \<open>
  C24. Whatever way a message is cut into pieces, \<open>md5_init\<close>, one \<open>md5_append\<close> per piece and \<open>md5_finish\<close>
  compute the MD5 digest of the whole message, across the buffering of partial blocks and the
  carries of the bit count. The pieces are shorter than \<open>2 ^ 28\<close> bytes, so that \<open>nbytes << 3\<close> does not
  overflow; the buffer is uninitialised.
\<close>

theorem md5_streaming:
  assumes "length buf = 64" "\<forall>p \<in> set pieces. length p < 2 ^ 28"
  shows "md5_finish (fold md5_append pieces (md5_init buf)) = md5_digest (concat pieces)"
  using finish_digest [OF fold_append_holds [OF md5_init_holds [OF assms(1)]], of pieces] by simp

theorem md5_streaming_witness:
  "md5_finish (fold md5_append [map of_char ''a'', map of_char ''bc''] (md5_init (replicate 64 0))) =
    [0x90, 0x01, 0x50, 0x98, 0x3c, 0xd2, 0x4f, 0xb0, 0xd6, 0x96, 0x3f, 0x7d, 0x28, 0xe1, 0x7f, 0x72]"
proof -
  have "md5_digest [97, 98, 99] = [0x90, 0x01, 0x50, 0x98, 0x3c, 0xd2, 0x4f, 0xb0, 0xd6, 0x96, 0x3f, 0x7d, 0x28, 0xe1, 0x7f, 0x72]"
    by code_simp
  then show ?thesis
    using md5_streaming [of "replicate 64 0" "[map of_char ''a'', map of_char ''bc'']"] by (simp add: of_char_def)
qed

end
