(* ===== verification/HttpAuth.thy ===== *)
theory HttpAuth
  imports Base64 Md5
begin

text \<open>
  The proxy authentication of \<open>redsocks/http-auth.c\<close>: the parameters of a challenge, the digest
  response and the search for the challenge among the headers. C strings are the lists of their
  bytes before the terminating zero; what \<open>calloc\<close> and \<open>malloc\<close> return is taken to be memory.
\<close>

section \<open>Characters and formats of the C library\<close>

abbreviation str :: "string \<Rightarrow> bytes" where
  "str s \<equiv> map of_char s"

definition isspace :: "byte \<Rightarrow> bool" where
  "isspace c \<longleftrightarrow> 9 \<le> c \<and> c \<le> 13 \<or> c = 32"

definition tolower :: "byte \<Rightarrow> byte" where
  "tolower c = (if 65 \<le> c \<and> c \<le> 90 then c + 32 else c)"

definition hexdigit :: "byte \<Rightarrow> byte" where
  "hexdigit n = (if n < 10 then 48 + n else 87 + n)"

text \<open>\<open>%02x\<close> of a byte, \<open>%08x\<close> of a 32-bit integer.\<close>

definition hex2 :: "byte \<Rightarrow> bytes" where
  "hex2 b = [hexdigit (b div 16), hexdigit (b mod 16)]"

definition hex8 :: "u32 \<Rightarrow> bytes" where
  "hex8 w = concat (map hex2 (rev (mem32 w)))"

text \<open>\<open>strncasecmp(s, t, n) == 0\<close>, where the strings end with their zero byte.\<close>

definition strncaseeq :: "bytes \<Rightarrow> bytes \<Rightarrow> nat \<Rightarrow> bool" where
  "strncaseeq s t n \<longleftrightarrow> take n (map tolower s @ [0]) = take n (map tolower t @ [0])"

section \<open>Parameters of a challenge\<close>

definition skip_space :: "bytes \<Rightarrow> bytes" where
  "skip_space p = dropWhile isspace p"

text \<open>
  \<open>extract_param\<close>: name, value and the source behind the parameter; \<open>None\<close> is the result 0, on which
  its only caller stops.
\<close>

definition extract_quoted :: "byte \<Rightarrow> bytes \<Rightarrow> bytes \<Rightarrow> (bytes \<times> bytes \<times> bytes) option" where
  "extract_quoted sep name p =
     (let v = takeWhile (\<lambda>c. c \<noteq> 34) p; p1 = dropWhile (\<lambda>c. c \<noteq> 34) p
      in if p1 = [] then None
         else let p2 = dropWhile (\<lambda>c. c \<noteq> sep) (skip_space (tl p1))
              in if p2 \<noteq> [] \<and> hd p2 = sep then Some (name, v, tl p2) else if p2 \<noteq> [] then None else Some (name, v, p2))"

definition extract_unquoted :: "byte \<Rightarrow> bytes \<Rightarrow> bytes \<Rightarrow> (bytes \<times> bytes \<times> bytes) option" where
  "extract_unquoted sep name p =
     (let v = takeWhile (\<lambda>c. c \<noteq> sep) p; p1 = dropWhile (\<lambda>c. c \<noteq> sep) p
      in Some (name, rev (skip_space (rev v)), if p1 \<noteq> [] \<and> hd p1 = sep then tl p1 else p1))"

definition extract_param :: "byte \<Rightarrow> bytes \<Rightarrow> (bytes \<times> bytes \<times> bytes) option" where
  "extract_param sep source =
     (let p = skip_space source; in_name = (\<lambda>c. \<not> isspace c \<and> c \<noteq> 61 \<and> c \<noteq> sep);
          name = takeWhile in_name p; p1 = skip_space (dropWhile in_name p)
      in if p = [] \<or> name = [] then None
         else if p1 = [] then Some (name, [], p1)
         else if hd p1 = sep then Some (name, [], tl p1)
         else if hd p1 \<noteq> 61 then None
         else let p2 = skip_space (tl p1)
              in if p2 \<noteq> [] \<and> hd p2 = 34 then extract_quoted sep name (tl p2) else extract_unquoted sep name p2)"

lemma length_skip_space: "length (skip_space p) \<le> length p"
  by (simp add: skip_space_def length_dropWhile_le)

lemma shrinks:
  "length xs \<le> n \<Longrightarrow> length (tl xs) \<le> n" "length xs \<le> n \<Longrightarrow> length (skip_space xs) \<le> n" "length xs \<le> n \<Longrightarrow> length (dropWhile f xs) \<le> n"
  using length_skip_space [of xs] length_dropWhile_le [of f xs] by auto

lemma extract_param_shorter:
  assumes "extract_param sep source = Some (name, val, rest)"
  shows "length rest < length source"
proof -
  let ?f = "\<lambda>c. \<not> isspace c \<and> c \<noteq> 61 \<and> c \<noteq> sep"
  let ?p = "skip_space source"
  let ?p1 = "skip_space (dropWhile ?f ?p)"
  have n: "takeWhile ?f ?p \<noteq> []" using assms by (auto simp: extract_param_def Let_def split: if_splits)
  have "length (takeWhile ?f ?p) + length (dropWhile ?f ?p) = length ?p" by (metis length_append takeWhile_dropWhile_id)
  then have p1: "length ?p1 < length source" using n [folded length_greater_0_conv] length_skip_space [of source] length_skip_space [of "dropWhile ?f ?p"] by linarith
  have q: "length r \<le> length xs" if "extract_quoted sep nm xs = Some (nm1, v, r)" for nm nm1 v r xs
    using that by (auto simp: extract_quoted_def Let_def simp del: length_tl split: if_splits intro!: shrinks)
  have u: "length r \<le> length xs" if "extract_unquoted sep nm xs = Some (nm1, v, r)" for nm nm1 v r xs
    using that by (auto simp: extract_unquoted_def Let_def simp del: length_tl split: if_splits intro!: shrinks)
  have "length rest \<le> length ?p1"
    using assms by (auto simp: extract_param_def Let_def simp del: length_tl split: if_splits dest!: q u elim!: order_trans intro!: shrinks)
  then show ?thesis using p1 by simp
qed

section \<open>The digest response\<close>

record digest_params =
  dp_realm :: "bytes option"
  dp_opaque :: "bytes option"
  dp_nonce :: "bytes option"
  dp_qop :: "bytes option"

definition set_param :: "bytes \<Rightarrow> bytes \<Rightarrow> digest_params \<Rightarrow> digest_params" where
  "set_param name val d =
     (if strncaseeq name (str ''realm'') (length name) then d\<lparr>dp_realm := Some val\<rparr>
      else if strncaseeq name (str ''opaque'') (length name) then d\<lparr>dp_opaque := Some val\<rparr>
      else if strncaseeq name (str ''nonce'') (length name) then d\<lparr>dp_nonce := Some val\<rparr>
      else if strncaseeq name (str ''qop'') (length name) then d\<lparr>dp_qop := Some val\<rparr>
      else d)"

function read_params :: "bytes \<Rightarrow> digest_params \<Rightarrow> digest_params" where
  "read_params ptr d = (case extract_param 44 ptr of None \<Rightarrow> d
     | Some (name, val, rest) \<Rightarrow> read_params rest (set_param name val d))"
  by auto
termination by (relation "measure (\<lambda>(ptr, _). length ptr)") (auto dest: extract_param_shorter)

declare read_params.simps [simp del]

definition dump_hash :: "bytes \<Rightarrow> bytes" where
  "dump_hash hash = concat (map hex2 hash)"

text \<open>A hash over pieces; \<open>buf\<close> is what the buffer of the context held.\<close>

definition md5_hash :: "bytes \<Rightarrow> bytes list \<Rightarrow> bytes" where
  "md5_hash buf pieces = dump_hash (md5_finish (fold md5_append pieces (md5_init buf)))"

definition digest_text :: "bytes \<Rightarrow> bytes \<Rightarrow> bytes \<Rightarrow> bytes \<Rightarrow> bytes \<Rightarrow> (bytes \<times> bytes \<times> bytes) option \<Rightarrow> bytes option \<Rightarrow> bytes" where
  "digest_text user realm nonce path response qop opaque =
     str ''username=\"'' @ user @ str ''\", realm=\"'' @ realm @ str ''\", nonce=\"'' @ nonce @ str ''\", uri=\"'' @ path @
     str ''\", response=\"'' @ response @ str ''\"'' @
     (case qop of None \<Rightarrow> []
      | Some (q, nc, cnonce) \<Rightarrow> str '', qop='' @ q @ str '', nc='' @ nc @ str '', cnonce=\"'' @ cnonce @ str ''\"'') @
     (case opaque of None \<Rightarrow> [] | Some op \<Rightarrow> str '', opaque=\"'' @ op @ str ''\"'')"

text \<open>The result is the string and the size of the memory it is written to.\<close>

definition digest_authentication_encode ::
  "(nat \<Rightarrow> bytes) \<Rightarrow> bytes \<Rightarrow> bytes \<Rightarrow> bytes \<Rightarrow> bytes \<Rightarrow> bytes \<Rightarrow> u32 \<Rightarrow> bytes \<Rightarrow> (bytes \<times> nat) option" where
  "digest_authentication_encode stack line user passwd method path count cnonce =
     (let nc = hex8 count;
          d = read_params line \<lparr>dp_realm = None, dp_opaque = None, dp_nonce = None, dp_qop = None\<rparr>
      in case (dp_realm d, dp_nonce d) of
           (Some realm, Some nonce) \<Rightarrow>
             (if (case dp_qop d of Some q \<Rightarrow> \<not> strncaseeq q (str ''auth'') 5 | None \<Rightarrow> False) then None
              else let a1buf = md5_hash (stack 0) [user, [58], realm, [58], passwd];
                       a2buf = md5_hash (stack 1) [method, [58], path];
                       response = md5_hash (stack 2) ([a1buf, [58], nonce, [58]] @
                         (case dp_qop d of Some q \<Rightarrow> [nc, [58], cnonce, [58], q, [58]] | None \<Rightarrow> []) @ [a2buf]);
                       len = 256 + length user + length realm + length nonce + length path + length response +
                         (case dp_qop d of Some q \<Rightarrow> length q + length nc + length cnonce | None \<Rightarrow> 0) +
                         (case dp_opaque d of Some op \<Rightarrow> length op | None \<Rightarrow> 0)
                   in Some (digest_text user realm nonce path response (map_option (\<lambda>q. (q, nc, cnonce)) (dp_qop d)) (dp_opaque d), len))
         | _ \<Rightarrow> None)"

section \<open>Headers\<close>

definition auth_request_header :: bytes where
  "auth_request_header = str ''Proxy-Authenticate:''"

definition auth_response_header :: bytes where
  "auth_response_header = str ''Proxy-Authorization:''"

text \<open>
  \<open>redsocks_evbuffer_readline\<close>: the line up to a line feed, without a carriage return before it, and
  what follows; \<open>None\<close> when the buffer has no line feed. The line is a C string, so it ends for its
  users at its first zero byte.
\<close>

definition redsocks_evbuffer_readline :: "bytes \<Rightarrow> (bytes \<times> bytes) option" where
  "redsocks_evbuffer_readline buf =
     (let line = takeWhile (\<lambda>c. c \<noteq> 10) buf; rest = dropWhile (\<lambda>c. c \<noteq> 10) buf
      in if rest = [] then None
         else Some (takeWhile (\<lambda>c. c \<noteq> 0) (if line \<noteq> [] \<and> last line = 13 then butlast line else line), tl rest))"

lemma readline_shorter: "redsocks_evbuffer_readline buf = Some (line, rest) \<Longrightarrow> length rest < length buf"
proof -
  assume a: "redsocks_evbuffer_readline buf = Some (line, rest)"
  let ?r = "dropWhile (\<lambda>c. c \<noteq> 10) buf"
  have "?r \<noteq> []" "rest = tl ?r" using a by (auto simp: redsocks_evbuffer_readline_def Let_def split: if_splits)
  then show ?thesis using length_dropWhile_le [of "\<lambda>c. c \<noteq> 10" buf] by (cases ?r) auto
qed

text \<open>
  \<open>http_auth_request_header\<close>: the challenge, the rest of the input and what the \<open>tee\<close> buffer got;
  adding to it is taken to succeed.
\<close>

function http_auth_request_header :: "bytes \<Rightarrow> bytes \<Rightarrow> bytes option \<times> bytes \<times> bytes" where
  "http_auth_request_header src tee =
     (case redsocks_evbuffer_readline src of
        None \<Rightarrow> (None, src, tee)
      | Some (line, src1) \<Rightarrow>
          (let tee1 = tee @ line @ [13, 10]
           in if line = [] \<or> 58 \<notin> set line then (None, src1, tee1)
              else if strncaseeq line auth_request_header (length auth_request_header) then (Some line, src1, tee1)
              else http_auth_request_header src1 tee1))"
  by auto
termination by (relation "measure (\<lambda>(src, _). length src)") (auto dest: readline_shorter)

declare http_auth_request_header.simps [simp del]

section \<open>Reading a challenge\<close>

definition H_md5 :: "bytes \<Rightarrow> bytes" where
  "H_md5 m = dump_hash (md5_digest m)"

lemma md5_hash_H: "\<lbrakk>length buf = 64\<rbrakk> \<Longrightarrow> md5_hash buf pieces = H_md5 (concat pieces)"
  using finish_digest [OF fold_append_holds [OF md5_init_holds], of buf pieces] by (simp add: md5_hash_def H_md5_def)

definition param_ok :: "bytes \<times> bytes \<Rightarrow> bool" where
  "param_ok nv \<longleftrightarrow> fst nv \<noteq> [] \<and> (\<forall>c \<in> set (fst nv). \<not> isspace c \<and> c \<noteq> 61 \<and> c \<noteq> 44) \<and> 34 \<notin> set (snd nv)"

fun print_params :: "(bytes \<times> bytes) list \<Rightarrow> bytes" where
  "print_params [] = []"
| "print_params [(n, v)] = n @ [61, 34] @ v @ [34]"
| "print_params ((n, v) # p # ps) = n @ [61, 34] @ v @ [34, 44, 32] @ print_params (p # ps)"

lemma skip_space_head: "xs \<noteq> [] \<Longrightarrow> \<not> isspace (hd xs) \<Longrightarrow> skip_space xs = xs"
  by (cases xs) (simp_all add: skip_space_def)

lemma takeWhile_name: "\<forall>c \<in> set n. P c \<Longrightarrow> \<not> P x \<Longrightarrow> takeWhile P (n @ x # xs) = n" "\<forall>c \<in> set n. P c \<Longrightarrow> \<not> P x \<Longrightarrow> dropWhile P (n @ x # xs) = x # xs"
  by (induction n) auto

lemma extract_printed:
  assumes "param_ok (n, v)" "t = [] \<or> hd t = 44"
  shows "extract_param 44 (n @ [61, 34] @ v @ [34] @ t) = Some (n, v, tl t)"
proof -
  have n: "n \<noteq> []" "\<forall>c \<in> set n. \<not> isspace c \<and> c \<noteq> 61 \<and> c \<noteq> 44" and v: "34 \<notin> set v" using assms(1) by (auto simp: param_ok_def)
  have s: "skip_space (n @ xs) = n @ xs" for xs using n by (intro skip_space_head) (auto simp: hd_append)
  have sp: "\<not> isspace 61" "\<not> isspace 34" "\<not> isspace 44" by (simp_all add: isspace_def)
  have v2: "takeWhile (\<lambda>c. c \<noteq> 34) (v @ 34 # t) = v" "dropWhile (\<lambda>c. c \<noteq> 34) (v @ 34 # t) = 34 # t"
    using v by (auto simp: takeWhile_name intro: takeWhile_name)
  have t: "dropWhile (\<lambda>c. c \<noteq> 44) (skip_space t) = t" using assms(2) sp by (cases t) (auto simp: skip_space_def)
  have "skip_space (61 # xs) = 61 # xs" "skip_space (34 # xs) = 34 # xs" for xs using sp by (simp_all add: skip_space_def)
  then show ?thesis
    using n(1) assms(2) sp takeWhile_name [OF n(2), of 61]
    by (auto simp: extract_param_def extract_quoted_def s v2 t Let_def)
qed

lemma extract_space: "extract_param 44 (32 # xs) = extract_param 44 xs"
  by (simp add: extract_param_def skip_space_def isspace_def)

lemma extract_end: "extract_param 44 [] = None"
  by (simp add: extract_param_def skip_space_def)

lemma read_printed: "list_all param_ok ps \<Longrightarrow> read_params (print_params ps) d = fold (\<lambda>(n, v). set_param n v) ps d"
proof (induction ps arbitrary: d rule: print_params.induct)
  case (3 n v p ps)
  have "extract_param 44 (print_params ((n, v) # p # ps)) = Some (n, v, 32 # print_params (p # ps))"
    using extract_printed [of n v "44 # 32 # print_params (p # ps)"] 3(2) by simp
  moreover have "read_params (32 # print_params (p # ps)) e = read_params (print_params (p # ps)) e" for e
    by (subst (1 2) read_params.simps) (simp add: extract_space)
  ultimately show ?case using 3 by (subst read_params.simps) simp
next
  case (2 n v)
  then show ?case using extract_printed [of n v "[]"] by (subst read_params.simps) (simp add: read_params.simps [of "[]"] extract_end)
qed (simp add: read_params.simps extract_end)

lemma length_hex8 [simp]: "length (hex8 w) = 8"
  by (simp add: hex8_def mem32_def hex2_def)

lemma digest_text_fits:
  "length (digest_text user realm nonce path response qop opaque) <
     256 + length user + length realm + length nonce + length path + length response +
     (case qop of Some (q, nc, cnonce) \<Rightarrow> length q + length nc + length cnonce | None \<Rightarrow> 0) + (case opaque of Some op \<Rightarrow> length op | None \<Rightarrow> 0)"
  by (simp add: digest_text_def split: option.split)

text \<open>The parameters of a challenge: realm and nonce, the quality of protection and the opaque string when given.\<close>

definition challenge :: "bytes \<Rightarrow> bytes \<Rightarrow> bool \<Rightarrow> bytes option \<Rightarrow> (bytes \<times> bytes) list" where
  "challenge realm nonce auth opaque = [(str ''realm'', realm), (str ''nonce'', nonce)] @
     (if auth then [(str ''qop'', str ''auth'')] else []) @ (case opaque of None \<Rightarrow> [] | Some op \<Rightarrow> [(str ''opaque'', op)])"

text \<open>
  After a quoted value anything up to the next separator is skipped: the branch of the code that
  is to refuse it cannot be reached.
\<close>

lemma garbage_accepted: "extract_param 44 (str ''foo=\"bar\"baz'') = Some (str ''foo'', str ''bar'', [])"
  by (simp add: extract_param_def extract_quoted_def skip_space_def isspace_def of_char_def)

section \<open>Properties\<close>

text \<open>
  C23. To a challenge with a realm and a nonce, and with or without the quality of protection
  \<open>auth\<close> and an opaque string, \<open>digest_authentication_encode\<close> answers with the request digest of RFC 2617
  over the user's credentials, and the text it writes fits the memory it allocates for it.
\<close>

theorem digest_answers_challenge:
  assumes "\<forall>i. length (stack i) = 64" "34 \<notin> set realm" "34 \<notin> set nonce" "\<forall>op. opaque = Some op \<longrightarrow> 34 \<notin> set op"
  shows "\<exists>text size. digest_authentication_encode stack (print_params (challenge realm nonce auth opaque)) user passwd method path count cnonce =
      Some (text, size) \<and> length text < size \<and>
    text = digest_text user realm nonce path
      (H_md5 (H_md5 (user @ [58] @ realm @ [58] @ passwd) @ [58] @ nonce @ [58] @
        (if auth then hex8 count @ [58] @ cnonce @ [58] @ str ''auth'' @ [58] else []) @ H_md5 (method @ [58] @ path)))
      (if auth then Some (str ''auth'', hex8 count, cnonce) else None) opaque"
proof -
  let ?d0 = "\<lparr>dp_realm = None, dp_opaque = None, dp_nonce = None, dp_qop = None\<rparr>"
  have ok: "list_all param_ok (challenge realm nonce auth opaque)"
    using assms by (auto simp: challenge_def param_ok_def isspace_def of_char_def split: option.split)
  have d: "read_params (print_params (challenge realm nonce auth opaque)) ?d0 =
    \<lparr>dp_realm = Some realm, dp_opaque = opaque, dp_nonce = Some nonce, dp_qop = (if auth then Some (str ''auth'') else None)\<rparr>"
    unfolding read_printed [OF ok] by (simp add: challenge_def set_param_def strncaseeq_def of_char_def tolower_def split: option.split)
  have q: "strncaseeq (str ''auth'') (str ''auth'') 5" by (simp add: strncaseeq_def)
  note fits = digest_text_fits [of user realm nonce path _ "Some (str ''auth'', hex8 count, cnonce)" opaque] digest_text_fits [of user realm nonce path _ None opaque]
  show ?thesis
  proof (cases auth)
    case True
    then show ?thesis unfolding digest_authentication_encode_def Let_def d using q assms(1) fits(1)
      by (simp add: md5_hash_H)
  next
    case False
    then show ?thesis unfolding digest_authentication_encode_def Let_def d using assms(1) fits(2)
      by (simp add: md5_hash_H)
  qed
qed

theorem digest_answers_challenge_witness:
  "\<exists>text size. digest_authentication_encode (\<lambda>_. replicate 64 0) (print_params (challenge (str ''proxy'') (str ''n0'') True None))
     (str ''user'') (str ''secret'') (str ''CONNECT'') (str ''10.0.0.1:80'') 1 (str ''c0'') = Some (text, size) \<and> length text < size"
  using digest_answers_challenge [of "\<lambda>_. replicate 64 0" "str ''proxy''" "str ''n0''" None True "str ''user''" "str ''secret''" "str ''CONNECT''"
    "str ''10.0.0.1:80''" 1 "str ''c0''"] by (auto simp: of_char_def)

end
