(* ===== verification/Redsocks.thy ===== *)
theory Redsocks
  imports HttpAuth Addr
begin

text \<open>
  The core of redsocks (\<open>redsocks/redsocks.c\<close>): accepted clients with their two buffered sockets, the
  teardown, the buffer pump, the helpers of the negotiation with the proxy, and the management of
  connection pressure. A handler takes the whole state and gives the new one, or \<open>None\<close> when it
  violates an \<open>assert\<close> or uses a client that was freed. The bufferevents and the sockets below them
  belong to libevent and the kernel: the model has the part of their state that redsocks reads and
  sets, and what they do on their own is in the events of the theory of runs.
\<close>

section \<open>State\<close>

datatype ev = EV_READ | EV_WRITE

datatype side = CLIENT | RELAY

text \<open>The callbacks that are ever installed in a bufferevent.\<close>

datatype rs_callback = CB_none | CB_relay_connected | CB_ss_read | CB_ss_write
  | CB_relay_relayread | CB_relay_relaywrite | CB_relay_clientread | CB_relay_clientwrite

text \<open>
  \<open>be_ev_write\<close> says that libevent waits for the socket to become writable, \<open>be_sock_shut\<close> what
  \<open>shutdown\<close> was called for on the socket.
\<close>

record bufferevent =
  be_input :: bytes
  be_output :: bytes
  be_enabled :: "ev set"
  be_wm_read :: "nat \<times> nat"
  be_wm_write :: "nat \<times> nat"
  be_readcb :: rs_callback
  be_writecb :: rs_callback
  be_ev_write :: bool
  be_sock_shut :: "ev set"

definition bufferevent_new :: "rs_callback \<Rightarrow> bufferevent" where
  "bufferevent_new writecb = \<lparr>be_input = [], be_output = [], be_enabled = {EV_WRITE}, be_wm_read = (0, 0), be_wm_write = (0, 0),
     be_readcb = CB_none, be_writecb = writecb, be_ev_write = False, be_sock_shut = {}\<rparr>"

definition bufferevent_enable :: "ev set \<Rightarrow> bufferevent \<Rightarrow> bufferevent" where
  "bufferevent_enable evs be = be\<lparr>be_enabled := be_enabled be \<union> evs, be_ev_write := be_ev_write be \<or> EV_WRITE \<in> evs\<rparr>"

definition bufferevent_disable :: "ev set \<Rightarrow> bufferevent \<Rightarrow> bufferevent" where
  "bufferevent_disable evs be = be\<lparr>be_enabled := be_enabled be - evs, be_ev_write := be_ev_write be \<and> EV_WRITE \<notin> evs\<rparr>"

text \<open>Data added to the output makes an enabled bufferevent wait for its socket.\<close>

definition bufferevent_write_buffer :: "bytes \<Rightarrow> bufferevent \<Rightarrow> bufferevent" where
  "bufferevent_write_buffer data be = be\<lparr>be_output := be_output be @ data,
     be_ev_write := be_ev_write be \<or> data \<noteq> [] \<and> EV_WRITE \<in> be_enabled be\<rparr>"

record sockaddr_in =
  sin_addr :: u32
  sin_port :: u16

datatype disclose_src = DISCLOSE_NONE | DISCLOSE_X_FORWARDED_FOR | DISCLOSE_FORWARDED_IP | DISCLOSE_FORWARDED_IPPORT

datatype on_proxy_fail = ONFAIL_CLOSE | ONFAIL_FORWARD_HTTP_ERR

datatype relay_subsys = http_connect_subsys | socks4_subsys | socks5_subsys

record redsocks_config =
  cf_login :: "bytes option"
  cf_password :: "bytes option"
  cf_disclose_src :: disclose_src
  cf_on_proxy_fail :: on_proxy_fail

record http_auth =
  last_auth_query :: "bytes option"
  last_auth_count :: u32

record redsocks_instance =
  ri_config :: redsocks_config
  ri_listening :: bool
  ri_clients :: "ptr list"
  ri_relay_ss :: relay_subsys
  ri_auth :: http_auth

text \<open>The client, with the payload of the SOCKS5 subsystem. Times are in microseconds.\<close>

record redsocks_client =
  rc_instance :: nat
  rc_client :: "bufferevent option"
  rc_relay :: "bufferevent option"
  rc_clientaddr :: sockaddr_in
  rc_destaddr :: sockaddr_in
  rc_state :: int
  rc_client_evshut :: "ev set"
  rc_relay_evshut :: "ev set"
  rc_last_event :: int
  rc_do_password :: bool
  rc_to_skip :: nat

record redsocks =
  rg_clients :: "ptr \<rightharpoonup> redsocks_client"
  rg_instances :: "redsocks_instance list"
  rg_conn :: u32
  rg_accept_backoff_ms :: u32
  rg_accept_backoff_ev :: "int option"
  rg_conn_max :: u32
  rg_idle_timeout :: u32
  rg_max_backoff_ms :: u32

text \<open>What the calls of a handler on the system give.\<close>

record rs_env =
  en_now :: int
  en_now_pressure :: int
  en_rand :: u32
  en_rand2 :: u32
  en_close_ok :: bool
  en_evbuffer_ok :: bool
  en_write_ok :: bool
  en_enable_ok :: bool
  en_disable_ok :: bool
  en_socket_ok :: bool
  en_connect_ok :: bool
  en_connected_ok :: bool
  en_bufferevent_ok :: bool
  en_calloc :: "ptr option"
  en_stack :: "nat \<Rightarrow> bytes"

abbreviation REDSOCKS_RELAY_HALFBUFF :: nat where
  "REDSOCKS_RELAY_HALFBUFF \<equiv> 4096"

abbreviation pump_active :: int where
  "pump_active \<equiv> - 1"

definition put_client :: "ptr \<Rightarrow> redsocks_client \<Rightarrow> redsocks \<Rightarrow> redsocks" where
  "put_client p c g = g\<lparr>rg_clients := (rg_clients g)(p \<mapsto> c)\<rparr>"

definition update_instance :: "nat \<Rightarrow> (redsocks_instance \<Rightarrow> redsocks_instance) \<Rightarrow> redsocks \<Rightarrow> redsocks" where
  "update_instance i f g = g\<lparr>rg_instances := (rg_instances g)[i := f (rg_instances g ! i)]\<rparr>"

definition instance_of :: "redsocks_client \<Rightarrow> redsocks \<Rightarrow> redsocks_instance" where
  "instance_of c g = rg_instances g ! rc_instance c"

fun be_of :: "side \<Rightarrow> redsocks_client \<Rightarrow> bufferevent option" where
  "be_of CLIENT c = rc_client c"
| "be_of RELAY c = rc_relay c"

fun evshut_of :: "side \<Rightarrow> redsocks_client \<Rightarrow> ev set" where
  "evshut_of CLIENT c = rc_client_evshut c"
| "evshut_of RELAY c = rc_relay_evshut c"

fun set_be :: "side \<Rightarrow> bufferevent \<Rightarrow> redsocks_client \<Rightarrow> redsocks_client" where
  "set_be CLIENT be c = c\<lparr>rc_client := Some be\<rparr>"
| "set_be RELAY be c = c\<lparr>rc_relay := Some be\<rparr>"

fun set_evshut :: "side \<Rightarrow> ev set \<Rightarrow> redsocks_client \<Rightarrow> redsocks_client" where
  "set_evshut CLIENT evs c = c\<lparr>rc_client_evshut := evs\<rparr>"
| "set_evshut RELAY evs c = c\<lparr>rc_relay_evshut := evs\<rparr>"

fun other :: "side \<Rightarrow> side" where
  "other CLIENT = RELAY"
| "other RELAY = CLIENT"

definition redsocks_touch_client :: "rs_env \<Rightarrow> redsocks_client \<Rightarrow> redsocks_client" where
  "redsocks_touch_client env c = c\<lparr>rc_last_event := en_now env\<rparr>"

definition shut_both :: "redsocks_client \<Rightarrow> bool" where
  "shut_both c \<longleftrightarrow> rc_relay_evshut c = {EV_READ, EV_WRITE} \<and> rc_client_evshut c = {EV_READ, EV_WRITE}"

section \<open>Accepting and closing\<close>

definition accept_enable :: "redsocks \<Rightarrow> redsocks" where
  "accept_enable g = g\<lparr>rg_instances := map (\<lambda>i. i\<lparr>ri_listening := True\<rparr>) (rg_instances g)\<rparr>"

definition conn_pressure_lowered :: "redsocks \<Rightarrow> redsocks" where
  "conn_pressure_lowered g =
     (if rg_conn g \<ge> rg_conn_max g then g
      else if rg_accept_backoff_ev g \<noteq> None then accept_enable (g\<lparr>rg_accept_backoff_ev := None\<rparr>)
      else g)"

definition redsocks_close :: "rs_env \<Rightarrow> redsocks \<Rightarrow> redsocks" where
  "redsocks_close env g = (if en_close_ok env then conn_pressure_lowered g else g)"

text \<open>Freeing a bufferevent closes its socket.\<close>

definition redsocks_bufferevent_free :: "rs_env \<Rightarrow> redsocks \<Rightarrow> redsocks" where
  "redsocks_bufferevent_free env g = redsocks_close env g"

definition redsocks_conn_list_del :: "ptr \<Rightarrow> redsocks_client \<Rightarrow> redsocks \<Rightarrow> redsocks" where
  "redsocks_conn_list_del p c g =
     (let g1 = (if p \<in> set (ri_clients (instance_of c g))
                then update_instance (rc_instance c) (\<lambda>i. i\<lparr>ri_clients := remove1 p (ri_clients i)\<rparr>) (g\<lparr>rg_conn := rg_conn g - 1\<rparr>)
                else g)
      in conn_pressure_lowered g1)"

definition redsocks_drop_client :: "rs_env \<Rightarrow> ptr \<Rightarrow> redsocks \<Rightarrow> redsocks option" where
  "redsocks_drop_client env p g = do {
     c \<leftarrow> rg_clients g p;
     let g1 = (if rc_client c \<noteq> None then redsocks_bufferevent_free env g else g);
     let g2 = (if rc_relay c \<noteq> None then redsocks_bufferevent_free env g1 else g1);
     let g3 = redsocks_conn_list_del p c g2;
     Some (g3\<lparr>rg_clients := (rg_clients g3)(p := None)\<rparr>) }"

definition redsocks_shutdown :: "rs_env \<Rightarrow> ptr \<Rightarrow> side \<Rightarrow> ev set \<Rightarrow> redsocks \<Rightarrow> redsocks option" where
  "redsocks_shutdown env p sd how g = do {
     c \<leftarrow> rg_clients g p;
     be \<leftarrow> be_of sd c;
     let be1 = (if \<not> (how = {EV_READ} \<and> EV_WRITE \<in> evshut_of sd c) then be\<lparr>be_sock_shut := be_sock_shut be \<union> how\<rparr> else be);
     let c1 = set_evshut sd (evshut_of sd c \<union> how) (set_be sd (bufferevent_disable how be1) c);
     let g1 = put_client p c1 g;
     if shut_both c1 then redsocks_drop_client env p g1 else Some g1 }"

text \<open>
  The error callback of both bufferevents; \<open>eof\<close> says that \<open>what\<close> is \<open>EVBUFFER_READ|EVBUFFER_EOF\<close>.
\<close>

definition redsocks_event_error :: "rs_env \<Rightarrow> ptr \<Rightarrow> side \<Rightarrow> bool \<Rightarrow> redsocks \<Rightarrow> redsocks option" where
  "redsocks_event_error env p sd eof g = do {
     c \<leftarrow> rg_clients g p;
     be \<leftarrow> be_of sd c;
     let g1 = put_client p (redsocks_touch_client env c) g;
     if eof then do {
       g2 \<leftarrow> redsocks_shutdown env p sd {EV_READ} g1;
       c2 \<leftarrow> rg_clients g2 p;
       (case be_of (other sd) c2 of
          Some antiev \<Rightarrow> (if rc_state c2 = pump_active \<and> be_output antiev = []
             then redsocks_shutdown env p (other sd) {EV_WRITE} g2 else Some g2)
        | None \<Rightarrow> Some g2) }
     else redsocks_drop_client env p g1 }"

section \<open>The buffer pump\<close>

definition redsocks_relay_readcb :: "ptr \<Rightarrow> side \<Rightarrow> redsocks \<Rightarrow> redsocks option" where
  "redsocks_relay_readcb p frm g = do {
     c \<leftarrow> rg_clients g p;
     f \<leftarrow> be_of frm c;
     t \<leftarrow> be_of (other frm) c;
     if length (be_output t) < snd (be_wm_write t)
     then Some (put_client p (set_be (other frm) (bufferevent_write_buffer (be_input f) t) (set_be frm (f\<lparr>be_input := []\<rparr>) c)) g)
     else Some (put_client p (set_be frm (bufferevent_disable {EV_READ} f) c) g) }"

definition redsocks_relay_writecb :: "rs_env \<Rightarrow> ptr \<Rightarrow> side \<Rightarrow> redsocks \<Rightarrow> redsocks option" where
  "redsocks_relay_writecb env p frm g = do {
     c \<leftarrow> rg_clients g p;
     f \<leftarrow> be_of frm c;
     t \<leftarrow> be_of (other frm) c;
     let from_eof = EV_READ \<in> evshut_of frm c;
     if be_input f = [] \<and> from_eof then redsocks_shutdown env p (other frm) {EV_WRITE} g
     else if length (be_output t) < snd (be_wm_write t)
     then Some (put_client p (set_be (other frm) (bufferevent_write_buffer (be_input f) t)
            (set_be frm ((if from_eof then f else bufferevent_enable {EV_READ} f)\<lparr>be_input := []\<rparr>) c)) g)
     else Some g }"

text \<open>The four callbacks that \<open>redsocks_start_bufferpump\<close> installs.\<close>

definition redsocks_relay_cb :: "rs_env \<Rightarrow> rs_callback \<Rightarrow> ptr \<Rightarrow> redsocks \<Rightarrow> redsocks option" where
  "redsocks_relay_cb env cb p g = do {
     c \<leftarrow> rg_clients g p;
     let g1 = put_client p (redsocks_touch_client env c) g;
     (case cb of
        CB_relay_relayread \<Rightarrow> redsocks_relay_readcb p RELAY g1
      | CB_relay_relaywrite \<Rightarrow> redsocks_relay_writecb env p CLIENT g1
      | CB_relay_clientread \<Rightarrow> redsocks_relay_readcb p CLIENT g1
      | CB_relay_clientwrite \<Rightarrow> redsocks_relay_writecb env p RELAY g1
      | _ \<Rightarrow> None) }"

definition redsocks_start_bufferpump :: "redsocks_client \<Rightarrow> redsocks_client option" where
  "redsocks_start_bufferpump c = do {
     cl \<leftarrow> rc_client c;
     rl \<leftarrow> rc_relay c;
     Some (c\<lparr>rc_client := Some (bufferevent_enable ({EV_READ, EV_WRITE} - rc_client_evshut c)
               (cl\<lparr>be_wm_read := (0, REDSOCKS_RELAY_HALFBUFF), be_wm_write := (0, REDSOCKS_RELAY_HALFBUFF),
                 be_readcb := CB_relay_clientread, be_writecb := CB_relay_clientwrite\<rparr>)),
             rc_relay := Some (bufferevent_enable ({EV_READ, EV_WRITE} - rc_relay_evshut c)
               (rl\<lparr>be_wm_read := (0, REDSOCKS_RELAY_HALFBUFF), be_wm_write := (0, REDSOCKS_RELAY_HALFBUFF),
                 be_readcb := CB_relay_relayread, be_writecb := CB_relay_relaywrite\<rparr>))\<rparr>) }"

definition redsocks_start_relay :: "rs_env \<Rightarrow> ptr \<Rightarrow> redsocks \<Rightarrow> redsocks option" where
  "redsocks_start_relay env p g = do {
     c \<leftarrow> rg_clients g p;
     c1 \<leftarrow> redsocks_start_bufferpump (c\<lparr>rc_state := pump_active\<rparr>);
     let g1 = put_client p c1 g;
     if en_enable_ok env then Some g1 else redsocks_drop_client env p g1 }"

section \<open>Helpers of the negotiation\<close>

text \<open>\<open>None\<close> data is the result -1, after which the client is gone.\<close>

definition redsocks_read_expected :: "rs_env \<Rightarrow> ptr \<Rightarrow> (nat \<Rightarrow> nat \<Rightarrow> bool) \<Rightarrow> nat \<Rightarrow> redsocks \<Rightarrow> (bytes option \<times> redsocks) option" where
  "redsocks_read_expected env p comparator expected g = do {
     c \<leftarrow> rg_clients g p;
     be \<leftarrow> rc_relay c;
     if comparator (length (be_input be)) expected
     then Some (Some (take expected (be_input be)), put_client p (c\<lparr>rc_relay := Some (be\<lparr>be_input := drop expected (be_input be)\<rparr>)\<rparr>) g)
     else do { g1 \<leftarrow> redsocks_drop_client env p g; Some (None, g1) } }"

definition sizes_equal :: "nat \<Rightarrow> nat \<Rightarrow> bool" where
  "sizes_equal a b \<longleftrightarrow> a = b"

definition sizes_greater_equal :: "nat \<Rightarrow> nat \<Rightarrow> bool" where
  "sizes_greater_equal a b \<longleftrightarrow> a \<ge> b"

definition mkevbuffer :: "rs_env \<Rightarrow> bytes \<Rightarrow> bytes option" where
  "mkevbuffer env data = (if en_evbuffer_ok env then Some data else None)"

text \<open>
  \<open>redsocks_write_helper_ex\<close>; the message is \<open>None\<close> when there is no message maker, and what the maker
  returned otherwise.
\<close>

definition redsocks_write_helper_ex :: "rs_env \<Rightarrow> ptr \<Rightarrow> bytes option option \<Rightarrow> int \<Rightarrow> nat \<Rightarrow> nat \<Rightarrow> redsocks \<Rightarrow> redsocks option" where
  "redsocks_write_helper_ex env p message st wm_low wm_high g = do {
     c \<leftarrow> rg_clients g p;
     be \<leftarrow> rc_relay c;
     let go = (\<lambda>out. Some (put_client p (c\<lparr>rc_state := st, rc_relay := Some (bufferevent_enable {EV_READ}
                 ((bufferevent_write_buffer out be)\<lparr>be_wm_read := (wm_low, wm_high)\<rparr>))\<rparr>) g));
     (case message of
        None \<Rightarrow> go []
      | Some None \<Rightarrow> redsocks_drop_client env p g
      | Some (Some buff) \<Rightarrow> if en_write_ok env then go buff else redsocks_drop_client env p g) }"

definition redsocks_write_helper :: "rs_env \<Rightarrow> ptr \<Rightarrow> bytes option option \<Rightarrow> int \<Rightarrow> nat \<Rightarrow> redsocks \<Rightarrow> redsocks option" where
  "redsocks_write_helper env p message st wm_only g = redsocks_write_helper_ex env p message st wm_only wm_only g"

text \<open>\<open>red_connect_relay\<close> gives a fresh bufferevent or \<open>NULL\<close>.\<close>

definition red_connect_relay :: "rs_env \<Rightarrow> bufferevent option" where
  "red_connect_relay env = (if en_connect_ok env then Some (bufferevent_enable {EV_WRITE} (bufferevent_new CB_relay_connected)) else None)"

definition redsocks_connect_relay :: "rs_env \<Rightarrow> ptr \<Rightarrow> redsocks \<Rightarrow> redsocks option" where
  "redsocks_connect_relay env p g = do {
     c \<leftarrow> rg_clients g p;
     let g1 = put_client p (c\<lparr>rc_relay := red_connect_relay env\<rparr>) g;
     if red_connect_relay env = None then redsocks_drop_client env p g1 else Some g1 }"

section \<open>SOCKS4\<close>

abbreviation socks4_new :: int where "socks4_new \<equiv> 0"
abbreviation socks4_request_sent :: int where "socks4_request_sent \<equiv> 1"
abbreviation socks4_reply_came :: int where "socks4_reply_came \<equiv> 2"

definition socks4_mkconnect :: "rs_env \<Rightarrow> redsocks_config \<Rightarrow> redsocks_client \<Rightarrow> bytes option" where
  "socks4_mkconnect env config c =
     (let username = (case cf_login config of Some login \<Rightarrow> login | None \<Rightarrow> [])
      in mkevbuffer env ([4, 1] @ mem16 (sin_port (rc_destaddr c)) @ mem32 (sin_addr (rc_destaddr c)) @ username @ [0]))"

definition socks4_write_cb :: "rs_env \<Rightarrow> ptr \<Rightarrow> redsocks \<Rightarrow> redsocks option" where
  "socks4_write_cb env p g = do {
     c0 \<leftarrow> rg_clients g p;
     let c = redsocks_touch_client env c0;
     let g1 = put_client p c g;
     if rc_state c = socks4_new
     then redsocks_write_helper env p (Some (socks4_mkconnect env (ri_config (instance_of c g1)) c)) socks4_request_sent 8 g1
     else if rc_state c \<ge> socks4_request_sent
     then do { be \<leftarrow> rc_relay c; Some (put_client p (c\<lparr>rc_relay := Some (bufferevent_disable {EV_WRITE} be)\<rparr>) g1) }
     else Some g1 }"

definition socks4_read_cb :: "rs_env \<Rightarrow> ptr \<Rightarrow> redsocks \<Rightarrow> redsocks option" where
  "socks4_read_cb env p g = do {
     c0 \<leftarrow> rg_clients g p;
     _ \<leftarrow> ASSERT (rc_state c0 \<ge> socks4_request_sent);
     let g1 = put_client p (redsocks_touch_client env c0) g;
     if rc_state c0 = socks4_request_sent then do {
       (reply, g2) \<leftarrow> redsocks_read_expected env p sizes_greater_equal 8 g1;
       (case reply of None \<Rightarrow> Some g2
        | Some reply \<Rightarrow> do {
            c2 \<leftarrow> rg_clients g2 p;
            let g3 = put_client p (c2\<lparr>rc_state := socks4_reply_came\<rparr>) g2;
            if reply ! 0 \<noteq> 0 then redsocks_drop_client env p g3
            else if reply ! 1 = 90 then redsocks_start_relay env p g3
            else redsocks_drop_client env p g3 }) }
     else Some g1 }"

section \<open>SOCKS5\<close>

abbreviation socks5_new :: int where "socks5_new \<equiv> 0"
abbreviation socks5_method_sent :: int where "socks5_method_sent \<equiv> 1"
abbreviation socks5_auth_sent :: int where "socks5_auth_sent \<equiv> 2"
abbreviation socks5_request_sent :: int where "socks5_request_sent \<equiv> 3"
abbreviation socks5_skip_domain :: int where "socks5_skip_domain \<equiv> 4"
abbreviation socks5_skip_address :: int where "socks5_skip_address \<equiv> 5"

definition socks5_is_valid_cred :: "bytes option \<Rightarrow> bytes option \<Rightarrow> bool" where
  "socks5_is_valid_cred login password = (case (login, password) of
     (Some l, Some pw) \<Rightarrow> length l \<le> 255 \<and> length pw \<le> 255 | _ \<Rightarrow> False)"

definition socks5_instance_init :: "redsocks_config \<Rightarrow> redsocks_config" where
  "socks5_instance_init config =
     (if (cf_login config \<noteq> None \<or> cf_password config \<noteq> None) \<and>
         (if cf_login config \<noteq> None \<and> cf_password config \<noteq> None then \<not> socks5_is_valid_cred (cf_login config) (cf_password config) else True)
      then config\<lparr>cf_login := None, cf_password := None\<rparr> else config)"

definition socks5_mkmethods_plain :: "rs_env \<Rightarrow> bool \<Rightarrow> bytes option" where
  "socks5_mkmethods_plain env do_password = mkevbuffer env (if do_password then [5, 2, 0, 2] else [5, 1, 0])"

definition socks5_mkpassword_plain :: "rs_env \<Rightarrow> bytes \<Rightarrow> bytes \<Rightarrow> bytes option" where
  "socks5_mkpassword_plain env login password =
     mkevbuffer env ([1, of_nat (length login)] @ login @ [of_nat (length password)] @ password)"

definition socks5_mkcommand_plain :: "rs_env \<Rightarrow> byte \<Rightarrow> sockaddr_in \<Rightarrow> bytes option" where
  "socks5_mkcommand_plain env socks5_cmd destaddr =
     mkevbuffer env ([5, socks5_cmd, 0, 1] @ mem32 (sin_addr destaddr) @ mem16 (sin_port destaddr))"

definition socks5_mkconnect :: "rs_env \<Rightarrow> redsocks_client \<Rightarrow> bytes option" where
  "socks5_mkconnect env c = socks5_mkcommand_plain env 1 (rc_destaddr c)"

definition socks5_write_cb :: "rs_env \<Rightarrow> ptr \<Rightarrow> redsocks \<Rightarrow> redsocks option" where
  "socks5_write_cb env p g = do {
     c0 \<leftarrow> rg_clients g p;
     let g1 = put_client p (redsocks_touch_client env c0) g;
     if rc_state c0 = socks5_new
     then redsocks_write_helper env p (Some (socks5_mkmethods_plain env (rc_do_password c0))) socks5_method_sent 2 g1
     else Some g1 }"

text \<open>No complaint about the reply: \<open>socks5_is_known_auth_method\<close> returns \<open>NULL\<close>.\<close>

definition socks5_is_known_auth_method :: "bytes \<Rightarrow> bool \<Rightarrow> bool" where
  "socks5_is_known_auth_method reply do_password \<longleftrightarrow>
     reply ! 0 = 5 \<and> reply ! 1 \<noteq> 0xFF \<and> (reply ! 1 = 0 \<or> reply ! 1 = 2 \<and> do_password)"

definition socks5_read_auth_methods :: "rs_env \<Rightarrow> ptr \<Rightarrow> redsocks \<Rightarrow> redsocks option" where
  "socks5_read_auth_methods env p g = do {
     (reply, g1) \<leftarrow> redsocks_read_expected env p sizes_equal 2 g;
     (case reply of None \<Rightarrow> Some g1
      | Some reply \<Rightarrow> do {
          c \<leftarrow> rg_clients g1 p;
          if \<not> socks5_is_known_auth_method reply (rc_do_password c) then redsocks_drop_client env p g1
          else if reply ! 1 = 0 then redsocks_write_helper env p (Some (socks5_mkconnect env c)) socks5_request_sent 4 g1
          else if reply ! 1 = 2 then do {
            login \<leftarrow> cf_login (ri_config (instance_of c g1));
            password \<leftarrow> cf_password (ri_config (instance_of c g1));
            redsocks_write_helper env p (Some (socks5_mkpassword_plain env login password)) socks5_auth_sent 2 g1 }
          else Some g1 }) }"

definition socks5_read_auth_reply :: "rs_env \<Rightarrow> ptr \<Rightarrow> redsocks \<Rightarrow> redsocks option" where
  "socks5_read_auth_reply env p g = do {
     (reply, g1) \<leftarrow> redsocks_read_expected env p sizes_equal 2 g;
     (case reply of None \<Rightarrow> Some g1
      | Some reply \<Rightarrow> do {
          c \<leftarrow> rg_clients g1 p;
          if reply ! 0 \<noteq> 1 then redsocks_drop_client env p g1
          else if reply ! 1 = 0 then redsocks_write_helper env p (Some (socks5_mkconnect env c)) socks5_request_sent 4 g1
          else redsocks_drop_client env p g1 }) }"

definition socks5_read_reply :: "rs_env \<Rightarrow> ptr \<Rightarrow> redsocks \<Rightarrow> redsocks option" where
  "socks5_read_reply env p g = do {
     (reply, g1) \<leftarrow> redsocks_read_expected env p sizes_greater_equal 4 g;
     (case reply of None \<Rightarrow> Some g1
      | Some reply \<Rightarrow> do {
          c \<leftarrow> rg_clients g1 p;
          if reply ! 0 \<noteq> 5 then redsocks_drop_client env p g1
          else if reply ! 1 = 0 then
            (if reply ! 3 = 1 then redsocks_write_helper env p None socks5_skip_address 6 (put_client p (c\<lparr>rc_to_skip := 6\<rparr>) g1)
             else if reply ! 3 = 4 then redsocks_write_helper env p None socks5_skip_address 18 (put_client p (c\<lparr>rc_to_skip := 18\<rparr>) g1)
             else if reply ! 3 = 3 then redsocks_write_helper env p None socks5_skip_domain 1 g1
             else redsocks_drop_client env p g1)
          else redsocks_drop_client env p g1 }) }"

definition socks5_read_cb :: "rs_env \<Rightarrow> ptr \<Rightarrow> redsocks \<Rightarrow> redsocks option" where
  "socks5_read_cb env p g = do {
     c0 \<leftarrow> rg_clients g p;
     let g1 = put_client p (redsocks_touch_client env c0) g;
     if rc_state c0 = socks5_method_sent then socks5_read_auth_methods env p g1
     else if rc_state c0 = socks5_auth_sent then socks5_read_auth_reply env p g1
     else if rc_state c0 = socks5_request_sent then socks5_read_reply env p g1
     else if rc_state c0 = socks5_skip_domain then do {
       (dsize, g2) \<leftarrow> redsocks_read_expected env p sizes_greater_equal 1 g1;
       (case dsize of None \<Rightarrow> Some g2
        | Some dsize \<Rightarrow> do {
            c2 \<leftarrow> rg_clients g2 p;
            let to_skip = unat (dsize ! 0) + 2;
            redsocks_write_helper env p None socks5_skip_address to_skip (put_client p (c2\<lparr>rc_to_skip := to_skip\<rparr>) g2) }) }
     else if rc_state c0 = socks5_skip_address then do {
       (data, g2) \<leftarrow> redsocks_read_expected env p sizes_greater_equal (rc_to_skip c0) g1;
       (case data of None \<Rightarrow> Some g2 | Some _ \<Rightarrow> redsocks_start_relay env p g2) }
     else redsocks_drop_client env p g1 }"

section \<open>HTTP CONNECT\<close>

abbreviation httpc_new :: int where "httpc_new \<equiv> 0"
abbreviation httpc_request_sent :: int where "httpc_request_sent \<equiv> 1"
abbreviation httpc_reply_came :: int where "httpc_reply_came \<equiv> 2"
abbreviation httpc_headers_skipped :: int where "httpc_headers_skipped \<equiv> 3"
abbreviation httpc_no_way :: int where "httpc_no_way \<equiv> 4"

definition HTTP_HEAD_WM_HIGH :: nat where
  "HTTP_HEAD_WM_HIGH = 4096"

text \<open>\<open>%u\<close> of \<open>printf\<close>, and \<open>inet_ntoa\<close>.\<close>

fun dec :: "nat \<Rightarrow> bytes" where
  "dec n = (if n < 10 then [] else dec (n div 10)) @ [48 + of_nat (n mod 10)]"

declare dec.simps [simp del]

definition inet_ntoa :: "u32 \<Rightarrow> bytes" where
  "inet_ntoa addr = (case map (dec \<circ> unat) (mem32 addr) of [a, b, c, d] \<Rightarrow> a @ [46] @ b @ [46] @ c @ [46] @ d | _ \<Rightarrow> [])"

definition host_port :: "sockaddr_in \<Rightarrow> bytes" where
  "host_port sa = inet_ntoa (sin_addr sa) @ [58] @ dec (unat (ntoh16 (sin_port sa)))"

text \<open>\<open>%u\<close> of \<open>sscanf\<close>: blanks, a sign, digits; the value is cut to 32 bits.\<close>

definition scan_u :: "bytes \<Rightarrow> (u32 \<times> bytes) option" where
  "scan_u s =
     (let s1 = skip_space s; neg = (s1 \<noteq> [] \<and> hd s1 = 45);
          s2 = (if s1 \<noteq> [] \<and> (hd s1 = 43 \<or> hd s1 = 45) then tl s1 else s1);
          digit = (\<lambda>c. 48 \<le> c \<and> c \<le> 57);
          ds = takeWhile digit s2; v = min (foldl (\<lambda>a d. 10 * a + unat (d - 48)) 0 ds) (2 ^ 64 - 1)
      in if ds = [] then None else Some (if neg then - of_nat v else of_nat v, dropWhile digit s2))"

text \<open>The status code of \<open>sscanf(line, "HTTP/%*u.%*u %u", &code)\<close>.\<close>

definition scan_status :: "bytes \<Rightarrow> u32 option" where
  "scan_status line =
     (if take 5 line \<noteq> str ''HTTP/'' then None
      else do {
        (_, s1) \<leftarrow> scan_u (drop 5 line);
        _ \<leftarrow> ASSERT (s1 \<noteq> [] \<and> hd s1 = 46);
        (_, s2) \<leftarrow> scan_u (tl s1);
        (code, _) \<leftarrow> scan_u s2;
        Some code })"

text \<open>
  The authorisation line of the request, empty when there is none. For a digest the code reads the
  challenge from its eighth byte on, which is outside the string when that is just \<open>Digest\<close>. The
  challenge is kept only when login and password are configured.
\<close>

definition auth_line :: "string \<Rightarrow> bytes option \<Rightarrow> bytes" where
  "auth_line scheme auth_string = (case auth_string of None \<Rightarrow> []
     | Some text \<Rightarrow> auth_response_header @ [32] @ str scheme @ [32] @ text @ [13, 10])"

definition httpc_auth_line :: "rs_env \<Rightarrow> redsocks_config \<Rightarrow> http_auth \<Rightarrow> redsocks_client \<Rightarrow> bytes option" where
  "httpc_auth_line env config auth c = (case last_auth_query auth of None \<Rightarrow> Some []
     | Some query \<Rightarrow>
         if strncaseeq query (str ''Basic'') 5 then do {
           login \<leftarrow> cf_login config; password \<leftarrow> cf_password config;
           Some (auth_line ''Basic'' (basic_authentication_encode login password)) }
         else if strncaseeq query (str ''Digest'') 6 then do {
           _ \<leftarrow> ASSERT (7 \<le> length query);
           login \<leftarrow> cf_login config; password \<leftarrow> cf_password config;
           Some (auth_line ''Digest'' (map_option fst (digest_authentication_encode (en_stack env) (drop 7 query) login password (str ''CONNECT'')
                   (take 127 (host_port (rc_destaddr c))) (last_auth_count auth) (hex8 (en_rand env) @ hex8 (en_rand2 env))))) }
         else Some [])"

definition disclose_line :: "redsocks_config \<Rightarrow> redsocks_client \<Rightarrow> bytes" where
  "disclose_line config c =
     (let ip = inet_ntoa (sin_addr (rc_clientaddr c))
      in case cf_disclose_src config of
           DISCLOSE_NONE \<Rightarrow> []
         | DISCLOSE_X_FORWARDED_FOR \<Rightarrow> str ''X-Forwarded-For: '' @ ip @ [13, 10]
         | DISCLOSE_FORWARDED_IP \<Rightarrow> str ''Forwarded: for='' @ ip @ [13, 10]
         | DISCLOSE_FORWARDED_IPPORT \<Rightarrow>
             str ''Forwarded: for=\"'' @ ip @ [58] @ dec (unat (ntoh16 (sin_port (rc_clientaddr c)))) @ str ''\"'' @ [13, 10])"

text \<open>The maker of the request counts the authentications of the instance.\<close>

definition httpc_mkconnect :: "rs_env \<Rightarrow> ptr \<Rightarrow> redsocks \<Rightarrow> (bytes option \<times> redsocks) option" where
  "httpc_mkconnect env p g = do {
     c \<leftarrow> rg_clients g p;
     if \<not> en_evbuffer_ok env then Some (None, g)
     else do {
       let g1 = update_instance (rc_instance c) (\<lambda>i. i\<lparr>ri_auth := (ri_auth i)\<lparr>last_auth_count := last_auth_count (ri_auth i) + 1\<rparr>\<rparr>) g;
       let i = instance_of c g1;
       authorization \<leftarrow> httpc_auth_line env (ri_config i) (ri_auth i) c;
       Some (Some (str ''CONNECT '' @ host_port (rc_destaddr c) @ str '' HTTP/1.0'' @ [13, 10] @ authorization @
               disclose_line (ri_config i) c @ [13, 10]), g1) } }"

definition httpc_write_cb :: "rs_env \<Rightarrow> ptr \<Rightarrow> redsocks \<Rightarrow> redsocks option" where
  "httpc_write_cb env p g = do {
     c0 \<leftarrow> rg_clients g p;
     let c = redsocks_touch_client env c0;
     let g1 = put_client p c g;
     if rc_state c = httpc_new then do {
       (message, g2) \<leftarrow> httpc_mkconnect env p g1;
       redsocks_write_helper_ex env p (Some message) httpc_request_sent 1 HTTP_HEAD_WM_HIGH g2 }
     else if rc_state c \<ge> httpc_request_sent
     then do { be \<leftarrow> rc_relay c; Some (put_client p (c\<lparr>rc_relay := Some (bufferevent_disable {EV_WRITE} be)\<rparr>) g1) }
     else Some g1 }"

text \<open>The loop over the remaining headers: the input left and whether the empty line was found.\<close>

function skip_headers :: "bytes \<Rightarrow> bytes \<times> bool" where
  "skip_headers input = (case redsocks_evbuffer_readline input of
     None \<Rightarrow> (input, False) | Some (line, rest) \<Rightarrow> if line = [] then (rest, True) else skip_headers rest)"
  by auto
termination by (relation "measure length") (auto dest: readline_shorter)

declare skip_headers.simps [simp del]

text \<open>What the first line of the reply, and the headers when it asks for authentication, lead to.\<close>

datatype httpc_verdict = HV_more | HV_accept | HV_no_way bytes | HV_auth bytes

definition httpc_first_line :: "redsocks_config \<Rightarrow> http_auth \<Rightarrow> bytes \<Rightarrow> httpc_verdict \<times> bytes" where
  "httpc_first_line config auth input =
     (case redsocks_evbuffer_readline input of
        None \<Rightarrow> (if length input \<ge> HTTP_HEAD_WM_HIGH then HV_no_way [] else HV_more, input)
      | Some (line, rest) \<Rightarrow>
          (let shown = line @ [13, 10]
           in case scan_status line of
             None \<Rightarrow> (HV_no_way shown, rest)
           | Some code \<Rightarrow>
               (if code = 407 then
                  (if last_auth_query auth \<noteq> None \<and> last_auth_count auth = 1 then (HV_no_way shown, rest)
                   else if cf_login config = None \<or> cf_password config = None then (HV_no_way shown, rest)
                   else (case http_auth_request_header rest [] of
                      (None, rest1, tee) \<Rightarrow> (HV_no_way (shown @ tee), rest1)
                    | (Some request, rest1, _) \<Rightarrow> (HV_auth (skip_space (drop (length auth_request_header) request)), rest1)))
                else if 200 \<le> code \<and> code \<le> 299 then (HV_accept, rest)
                else (HV_no_way shown, rest))))"

text \<open>
  Authentication is asked for: the challenge is kept and the proxy connected to anew. When the old
  connection cannot be disabled the handler returns early and the client goes on with it.
\<close>

definition httpc_reconnect :: "rs_env \<Rightarrow> ptr \<Rightarrow> bytes \<Rightarrow> redsocks \<Rightarrow> redsocks option" where
  "httpc_reconnect env p query g = do {
     c \<leftarrow> rg_clients g p;
     be \<leftarrow> rc_relay c;
     let g1 = update_instance (rc_instance c) (\<lambda>i. i\<lparr>ri_auth := \<lparr>last_auth_query = Some query, last_auth_count = 0\<rparr>\<rparr>) g;
     let c1 = c\<lparr>rc_relay := Some (bufferevent_disable {EV_WRITE} be)\<rparr>;
     if \<not> en_disable_ok env then Some (put_client p c1 g1)
     else do {
       let g2 = redsocks_bufferevent_free env g1;
       redsocks_connect_relay env p (put_client p (c1\<lparr>rc_state := httpc_new\<rparr>) g2) } }"

text \<open>The proxy refuses: the client is dropped, or gets the proxy's reply when so configured.\<close>

definition httpc_refused :: "rs_env \<Rightarrow> ptr \<Rightarrow> bytes \<Rightarrow> redsocks \<Rightarrow> redsocks option" where
  "httpc_refused env p shown g = do {
     c \<leftarrow> rg_clients g p;
     if cf_on_proxy_fail (ri_config (instance_of c g)) = ONFAIL_FORWARD_HTTP_ERR \<and> (shown = [] \<or> en_write_ok env) then do {
       cl \<leftarrow> rc_client c;
       g1 \<leftarrow> redsocks_shutdown env p CLIENT {EV_READ} (put_client p (c\<lparr>rc_client := Some (bufferevent_write_buffer shown cl)\<rparr>) g);
       c1 \<leftarrow> rg_clients g1 p;
       cl1 \<leftarrow> rc_client c1;
       g2 \<leftarrow> redsocks_shutdown env p RELAY {EV_WRITE} (put_client p (c1\<lparr>rc_client := Some (cl1\<lparr>be_input := []\<rparr>)\<rparr>) g1);
       c2 \<leftarrow> rg_clients g2 p;
       redsocks_start_relay env p (put_client p (c2\<lparr>rc_state := httpc_headers_skipped\<rparr>) g2) }
     else redsocks_drop_client env p (put_client p (c\<lparr>rc_state := httpc_no_way\<rparr>) g) }"

definition httpc_skip :: "rs_env \<Rightarrow> ptr \<Rightarrow> redsocks \<Rightarrow> redsocks option" where
  "httpc_skip env p g = do {
     c \<leftarrow> rg_clients g p;
     be \<leftarrow> rc_relay c;
     let (input, found) = skip_headers (be_input be);
     let c1 = c\<lparr>rc_state := (if found then httpc_headers_skipped else httpc_reply_came), rc_relay := Some (be\<lparr>be_input := input\<rparr>)\<rparr>;
     if found then redsocks_start_relay env p (put_client p c1 g) else Some (put_client p c1 g) }"

definition httpc_read_cb :: "rs_env \<Rightarrow> ptr \<Rightarrow> redsocks \<Rightarrow> redsocks option" where
  "httpc_read_cb env p g = do {
     c0 \<leftarrow> rg_clients g p;
     be \<leftarrow> rc_relay c0;
     _ \<leftarrow> ASSERT (rc_state c0 = httpc_request_sent \<or> rc_state c0 = httpc_reply_came);
     let c = redsocks_touch_client env c0;
     if rc_state c = httpc_request_sent then do {
       let i = instance_of c g;
       let (verdict, input) = httpc_first_line (ri_config i) (ri_auth i) (be_input be);
       let g1 = put_client p (c\<lparr>rc_relay := Some (be\<lparr>be_input := input\<rparr>)\<rparr>) g;
       (case verdict of
          HV_more \<Rightarrow> Some g1
        | HV_accept \<Rightarrow> httpc_skip env p g1
        | HV_no_way shown \<Rightarrow> httpc_refused env p shown g1
        | HV_auth query \<Rightarrow> httpc_reconnect env p query g1) }
     else httpc_skip env p (put_client p c g) }"

section \<open>The subsystem of an instance\<close>

definition ss_init :: "relay_subsys \<Rightarrow> redsocks_config \<Rightarrow> redsocks_client \<Rightarrow> redsocks_client" where
  "ss_init ss config c = (case ss of
     socks5_subsys \<Rightarrow> c\<lparr>rc_state := socks5_new, rc_do_password := (cf_login config \<noteq> None \<and> cf_password config \<noteq> None)\<rparr>
   | socks4_subsys \<Rightarrow> c\<lparr>rc_state := socks4_new\<rparr>
   | http_connect_subsys \<Rightarrow> c\<lparr>rc_state := httpc_new\<rparr>)"

definition ss_instance_init :: "relay_subsys \<Rightarrow> redsocks_config \<Rightarrow> redsocks_config" where
  "ss_instance_init ss config = (if ss = socks5_subsys then socks5_instance_init config else config)"

definition ss_readcb :: "rs_env \<Rightarrow> relay_subsys \<Rightarrow> ptr \<Rightarrow> redsocks \<Rightarrow> redsocks option" where
  "ss_readcb env ss p g = (case ss of socks5_subsys \<Rightarrow> socks5_read_cb env p g | socks4_subsys \<Rightarrow> socks4_read_cb env p g
     | http_connect_subsys \<Rightarrow> httpc_read_cb env p g)"

definition ss_writecb :: "rs_env \<Rightarrow> relay_subsys \<Rightarrow> ptr \<Rightarrow> redsocks \<Rightarrow> redsocks option" where
  "ss_writecb env ss p g = (case ss of socks5_subsys \<Rightarrow> socks5_write_cb env p g | socks4_subsys \<Rightarrow> socks4_write_cb env p g
     | http_connect_subsys \<Rightarrow> httpc_write_cb env p g)"

definition redsocks_relay_connected :: "rs_env \<Rightarrow> ptr \<Rightarrow> redsocks \<Rightarrow> redsocks option" where
  "redsocks_relay_connected env p g = do {
     c0 \<leftarrow> rg_clients g p;
     be \<leftarrow> rc_relay c0;
     let c = redsocks_touch_client env c0;
     if \<not> en_connected_ok env then redsocks_drop_client env p (put_client p c g)
     else ss_writecb env (ri_relay_ss (instance_of c g)) p
            (put_client p (c\<lparr>rc_relay := Some (be\<lparr>be_readcb := CB_ss_read, be_writecb := CB_ss_write\<rparr>)\<rparr>) g) }"

text \<open>The call of an installed callback.\<close>

definition run_callback :: "rs_env \<Rightarrow> rs_callback \<Rightarrow> ptr \<Rightarrow> redsocks \<Rightarrow> redsocks option" where
  "run_callback env cb p g = (case cb of
     CB_none \<Rightarrow> Some g
   | CB_relay_connected \<Rightarrow> redsocks_relay_connected env p g
   | CB_ss_read \<Rightarrow> do { c \<leftarrow> rg_clients g p; ss_readcb env (ri_relay_ss (instance_of c g)) p g }
   | CB_ss_write \<Rightarrow> do { c \<leftarrow> rg_clients g p; ss_writecb env (ri_relay_ss (instance_of c g)) p g }
   | _ \<Rightarrow> redsocks_relay_cb env cb p g)"

section \<open>Connection pressure\<close>

fun drop_idle :: "rs_env \<Rightarrow> int \<Rightarrow> ptr list \<Rightarrow> int \<Rightarrow> redsocks \<Rightarrow> (int \<times> redsocks) option" where
  "drop_idle env max_idle [] best_next g = Some (best_next, g)"
| "drop_idle env max_idle (p # ps) best_next g = do {
     c \<leftarrow> rg_clients g p;
     let idle = en_now_pressure env - rc_last_event c;
     if idle \<le> 0 \<or> max_idle \<le> idle then do {
       g1 \<leftarrow> redsocks_drop_client env p g;
       drop_idle env max_idle ps 0 g1 }
     else let delay = max_idle - idle in drop_idle env max_idle ps (if delay < best_next then delay else best_next) g }"

definition drop_idle_connections :: "rs_env \<Rightarrow> redsocks \<Rightarrow> (int \<times> redsocks) option" where
  "drop_idle_connections env g =
     (let max_idle = 1000000 * uint (rg_idle_timeout g) in drop_idle env max_idle (concat (map ri_clients (rg_instances g))) max_idle g)"

definition conn_pressure_ongoing :: "rs_env \<Rightarrow> redsocks \<Rightarrow> bool" where
  "conn_pressure_ongoing env g \<longleftrightarrow> rg_conn g \<ge> rg_conn_max g \<or> \<not> en_socket_ok env"

definition backoff_value :: "u32 \<Rightarrow> u32 \<Rightarrow> u32" where
  "backoff_value ms max_ms = (let ms1 = push_bit 1 ms + 1; ms2 = (if ms1 < 1 then 1 else ms1) in if ms2 > max_ms then max_ms else ms2)"

text \<open>The backoff: the delay is drawn below the growing bound and cut to \<open>next\<close> when that is set.\<close>

definition accept_backoff :: "rs_env \<Rightarrow> int \<Rightarrow> redsocks \<Rightarrow> redsocks option" where
  "accept_backoff env next_idle g = do {
     let ms = backoff_value (rg_accept_backoff_ms g) (rg_max_backoff_ms g);
     _ \<leftarrow> ASSERT (ms \<noteq> 0);
     let delay = uint (en_rand env mod ms + 1) * 1000;
     Some (g\<lparr>rg_accept_backoff_ms := ms,
             rg_accept_backoff_ev := Some (if next_idle \<noteq> 0 \<and> next_idle < delay then next_idle else delay),
             rg_instances := map (\<lambda>i. i\<lparr>ri_listening := False\<rparr>) (rg_instances g)\<rparr>) }"

definition conn_pressure :: "rs_env \<Rightarrow> redsocks \<Rightarrow> redsocks option" where
  "conn_pressure env g =
     (if rg_idle_timeout g \<noteq> 0 then do {
        (next_idle, g1) \<leftarrow> drop_idle_connections env g;
        if next_idle = 0 then Some g1 else accept_backoff env next_idle g1 }
      else accept_backoff env 0 g)"

definition redsocks_accept_backoff :: "rs_env \<Rightarrow> redsocks \<Rightarrow> redsocks option" where
  "redsocks_accept_backoff env g = (if conn_pressure_ongoing env g then conn_pressure env g else Some (accept_enable g))"

definition redsocks_conn_list_add :: "rs_env \<Rightarrow> nat \<Rightarrow> ptr \<Rightarrow> redsocks \<Rightarrow> redsocks option" where
  "redsocks_conn_list_add env i p g = do {
     _ \<leftarrow> ASSERT (p \<notin> set (ri_clients (rg_instances g ! i)));
     _ \<leftarrow> ASSERT (rg_conn g < rg_conn_max g);
     let g1 = (update_instance i (\<lambda>s. s\<lparr>ri_clients := p # ri_clients s\<rparr>) g)\<lparr>rg_conn := rg_conn g + 1\<rparr>;
     if rg_conn g1 \<ge> rg_conn_max g1 then conn_pressure env g1 else Some g1 }"

section \<open>Accepting a client\<close>

text \<open>
  What \<open>accept\<close> and the calls on the new socket give: the failures of \<open>accept\<close>, with and without
  lack of descriptors, a socket that is unusable, or its addresses.
\<close>

datatype accepted = Accept_pressure | Accept_failed | Accept_unusable | Accepted sockaddr_in sockaddr_in

definition new_client :: "nat \<Rightarrow> sockaddr_in \<Rightarrow> sockaddr_in \<Rightarrow> redsocks_client" where
  "new_client i clientaddr destaddr = \<lparr>rc_instance = i, rc_client = None, rc_relay = None, rc_clientaddr = clientaddr, rc_destaddr = destaddr,
     rc_state = 0, rc_client_evshut = {}, rc_relay_evshut = {}, rc_last_event = 0, rc_do_password = False, rc_to_skip = 0\<rparr>"

definition redsocks_accept_client :: "rs_env \<Rightarrow> nat \<Rightarrow> accepted \<Rightarrow> redsocks \<Rightarrow> redsocks option" where
  "redsocks_accept_client env i acc g = do {
     _ \<leftarrow> ASSERT (rg_conn g < rg_conn_max g);
     (case acc of
        Accept_pressure \<Rightarrow> conn_pressure env g
      | Accept_failed \<Rightarrow> Some g
      | Accept_unusable \<Rightarrow> Some (redsocks_close env (g\<lparr>rg_accept_backoff_ms := 0\<rparr>))
      | Accepted clientaddr destaddr \<Rightarrow>
          (let g0 = g\<lparr>rg_accept_backoff_ms := 0\<rparr>; self = rg_instances g ! i
           in case en_calloc env of
                None \<Rightarrow> Some (redsocks_close env g0)
              | Some p \<Rightarrow>
                  (let c = redsocks_touch_client env (ss_init (ri_relay_ss self) (ri_config self) (new_client i clientaddr destaddr))
                   in if \<not> en_bufferevent_ok env then do {
                        g1 \<leftarrow> redsocks_drop_client env p (put_client p c g0);
                        Some (redsocks_close env g1) }
                      else do {
                        g1 \<leftarrow> redsocks_conn_list_add env i p (put_client p (c\<lparr>rc_client := Some (bufferevent_new CB_none)\<rparr>) g0);
                        c1 \<leftarrow> rg_clients g1 p;
                        cl \<leftarrow> rc_client c1;
                        if \<not> en_enable_ok env then redsocks_drop_client env p g1
                        else redsocks_connect_relay env p
                               (put_client p (c1\<lparr>rc_client := Some (bufferevent_enable {EV_READ} cl)\<rparr>) g1) }))) }"

section \<open>Shutting down\<close>

fun drop_clients :: "rs_env \<Rightarrow> ptr list \<Rightarrow> redsocks \<Rightarrow> redsocks option" where
  "drop_clients env [] g = Some g"
| "drop_clients env (p # ps) g = do { g1 \<leftarrow> redsocks_drop_client env p g; drop_clients env ps g1 }"

text \<open>\<open>redsocks_fini_instance\<close> for each instance, and the check that no connection is left.\<close>

fun fini_instances :: "rs_env \<Rightarrow> nat list \<Rightarrow> redsocks \<Rightarrow> redsocks option" where
  "fini_instances env [] g = Some g"
| "fini_instances env (i # is) g = do {
     g1 \<leftarrow> drop_clients env (ri_clients (rg_instances g ! i)) g;
     fini_instances env is (redsocks_close env (update_instance i (\<lambda>s. s\<lparr>ri_listening := False\<rparr>) g1)) }"

definition redsocks_fini :: "rs_env \<Rightarrow> redsocks \<Rightarrow> redsocks option" where
  "redsocks_fini env g = do {
     g1 \<leftarrow> fini_instances env [0..<length (rg_instances g)] g;
     _ \<leftarrow> ASSERT (rg_conn g1 = 0);
     Some (g1\<lparr>rg_instances := []\<rparr>) }"

end
