(* ===== verification/RedsocksInv.thy ===== *)
theory RedsocksInv
  imports Redsocks
begin

text \<open>
  The state of redsocks between two events: the connections are accounted for, and every client is
  either negotiating with its proxy or pumped. The lemmas on outcomes say of each handler that it
  keeps the accounting and updates or drops its client.
\<close>


section \<open>The accounting of connections\<close>

definition conn_total :: "redsocks \<Rightarrow> nat" where
  "conn_total g = sum_list (map (length \<circ> ri_clients) (rg_instances g))"

definition auth_ok :: "redsocks_instance \<Rightarrow> bool" where
  "auth_ok i \<longleftrightarrow> (last_auth_query (ri_auth i) \<noteq> None \<longrightarrow> cf_login (ri_config i) \<noteq> None \<and> cf_password (ri_config i) \<noteq> None)"

definition listed :: "redsocks \<Rightarrow> nat \<Rightarrow> ptr \<Rightarrow> bool" where
  "listed g i p \<longleftrightarrow> i < length (rg_instances g) \<and> p \<in> set (ri_clients (rg_instances g ! i))"

definition acct_inv :: "redsocks \<Rightarrow> bool" where
  "acct_inv g \<longleftrightarrow>
     (\<forall>p i. listed g i p \<longleftrightarrow> (\<exists>c. rg_clients g p = Some c \<and> rc_instance c = i)) \<and>
     (\<forall>i < length (rg_instances g). distinct (ri_clients (rg_instances g ! i))) \<and>
     unat (rg_conn g) = conn_total g \<and> rg_conn g \<le> rg_conn_max g \<and>
     (\<forall>i \<in> set (rg_instances g). auth_ok i) \<and> rg_max_backoff_ms g \<noteq> 0"

definition glob_inv :: "redsocks \<Rightarrow> bool" where
  "glob_inv g \<longleftrightarrow> acct_inv g \<and> (\<forall>i \<in> set (rg_instances g). ri_listening i \<longrightarrow> rg_conn g < rg_conn_max g)"

text \<open>The configuration that no handler changes.\<close>

definition same_conf :: "redsocks \<Rightarrow> redsocks \<Rightarrow> bool" where
  "same_conf g g' \<longleftrightarrow> map (\<lambda>i. (ri_config i, ri_relay_ss i)) (rg_instances g') = map (\<lambda>i. (ri_config i, ri_relay_ss i)) (rg_instances g) \<and>
     rg_conn_max g' = rg_conn_max g \<and> rg_idle_timeout g' = rg_idle_timeout g \<and> rg_max_backoff_ms g' = rg_max_backoff_ms g"

lemma same_conf_refl [simp]: "same_conf g g"
  by (simp add: same_conf_def)

lemma same_conf_trans: "same_conf g g1 \<Longrightarrow> same_conf g1 g2 \<Longrightarrow> same_conf g g2"
  by (simp add: same_conf_def)

lemma same_conf_length: "same_conf g g' \<Longrightarrow> length (rg_instances g') = length (rg_instances g)"
  by (auto simp: same_conf_def dest: map_eq_imp_length_eq)

lemma rs_put_client_simps [simp]:
  "rg_clients (put_client p c g) = (rg_clients g)(p \<mapsto> c)" "rg_instances (put_client p c g) = rg_instances g" "rg_conn (put_client p c g) = rg_conn g"
  "rg_accept_backoff_ev (put_client p c g) = rg_accept_backoff_ev g" "rg_conn_max (put_client p c g) = rg_conn_max g"
  "rg_idle_timeout (put_client p c g) = rg_idle_timeout g" "rg_max_backoff_ms (put_client p c g) = rg_max_backoff_ms g"
  "same_conf g (put_client p c g)" "same_conf (put_client p c g) h = same_conf g h" "instance_of c1 (put_client p c g) = instance_of c1 g"
  "put_client p c1 (put_client p c g) = put_client p c1 g"
  by (simp_all add: put_client_def same_conf_def instance_of_def)

lemma update_instance_simps [simp]:
  "rg_clients (update_instance i f g) = rg_clients g" "length (rg_instances (update_instance i f g)) = length (rg_instances g)"
  "rg_conn (update_instance i f g) = rg_conn g" "rg_accept_backoff_ev (update_instance i f g) = rg_accept_backoff_ev g"
  "rg_conn_max (update_instance i f g) = rg_conn_max g" "rg_idle_timeout (update_instance i f g) = rg_idle_timeout g"
  "rg_max_backoff_ms (update_instance i f g) = rg_max_backoff_ms g"
  by (simp_all add: update_instance_def)

lemma same_conf_update:
  assumes "\<And>s. ri_config (f s) = ri_config s \<and> ri_relay_ss (f s) = ri_relay_ss s"
  shows "same_conf g (update_instance i f g)"
proof -
  let ?h = "\<lambda>s. (ri_config s, ri_relay_ss s)" and ?xs = "rg_instances g"
  have "(map ?h ?xs)[i := ?h (?xs ! i)] = map ?h ?xs"
    by (cases "i < length ?xs") (auto intro!: nth_equalityI simp: nth_list_update)
  then show ?thesis using assms by (simp add: same_conf_def update_instance_def map_update)
qed

text \<open>Nothing but the timer of the backoff switches listening, and a pending timer.\<close>

definition quiet :: "redsocks \<Rightarrow> redsocks \<Rightarrow> bool" where
  "quiet g g' \<longleftrightarrow> (rg_accept_backoff_ev g = None \<longrightarrow>
     rg_accept_backoff_ev g' = None \<and> map ri_listening (rg_instances g') = map ri_listening (rg_instances g))"

lemma quiet_simps [simp]:
  "quiet g g" "quiet g (put_client p c g)" "quiet (put_client p c g) h = quiet g h" "quiet g (g\<lparr>rg_conn := n, rg_clients := cs\<rparr>)"
  "quiet g (conn_pressure_lowered g)" "quiet g (redsocks_close env g)" "quiet g (redsocks_bufferevent_free env g)"
  by (simp_all add: quiet_def put_client_def conn_pressure_lowered_def redsocks_close_def redsocks_bufferevent_free_def)

lemma quiet_trans: "quiet g g1 \<Longrightarrow> quiet g1 g2 \<Longrightarrow> quiet g g2"
  by (simp add: quiet_def)

lemma quiet_update:
  assumes "\<And>s. ri_listening (f s) = ri_listening s"
  shows "quiet g (update_instance i f g)"
proof -
  have "(map ri_listening (rg_instances g))[i := ri_listening (rg_instances g ! i)] = map ri_listening (rg_instances g)"
    by (simp flip: map_update)
  then show ?thesis using assms by (simp add: quiet_def update_instance_def map_update)
qed

lemma glob_inv_put: "glob_inv g \<Longrightarrow> rg_clients g p = Some c0 \<Longrightarrow> rc_instance c = rc_instance c0 \<Longrightarrow> glob_inv (put_client p c g)"
  by (auto simp: glob_inv_def acct_inv_def listed_def conn_total_def)

text \<open>Lower pressure only switches accepting on.\<close>

definition lowered :: "redsocks \<Rightarrow> redsocks \<Rightarrow> bool" where
  "lowered g g' \<longleftrightarrow> g' = g \<or> rg_conn g < rg_conn_max g \<and> g' = accept_enable (g\<lparr>rg_accept_backoff_ev := None\<rparr>)"

lemma lowered_close: "lowered g (conn_pressure_lowered g)" "lowered g (redsocks_close env g)" "lowered g (redsocks_bufferevent_free env g)"
  by (auto simp: lowered_def conn_pressure_lowered_def redsocks_close_def redsocks_bufferevent_free_def)

lemma accept_enable_simps [simp]:
  "rg_clients (accept_enable g) = rg_clients g" "length (rg_instances (accept_enable g)) = length (rg_instances g)" "rg_conn (accept_enable g) = rg_conn g"
  "rg_conn_max (accept_enable g) = rg_conn_max g" "rg_max_backoff_ms (accept_enable g) = rg_max_backoff_ms g" "conn_total (accept_enable g) = conn_total g"
  "i < length (rg_instances g) \<Longrightarrow> rg_instances (accept_enable g) ! i = (rg_instances g ! i)\<lparr>ri_listening := True\<rparr>" "rg_idle_timeout (accept_enable g) = rg_idle_timeout g"
  "rg_accept_backoff_ev (accept_enable g) = rg_accept_backoff_ev g"
  by (simp_all add: accept_enable_def conn_total_def comp_def)

lemma lowered_facts:
  assumes "lowered g g'"
  shows "rg_clients g' = rg_clients g" "rg_conn g' = rg_conn g" "same_conf g g'" "listed g' i p = listed g i p" "conn_total g' = conn_total g"
    "length (rg_instances g') = length (rg_instances g)"
    "i < length (rg_instances g) \<Longrightarrow> ri_clients (rg_instances g' ! i) = ri_clients (rg_instances g ! i)"
  using assms by (auto simp: lowered_def same_conf_def listed_def conn_total_def comp_def accept_enable_def)

lemma lowered_acct:
  assumes "lowered g g'" "acct_inv g"
  shows "acct_inv g'"
proof (cases "g' = g")
  case False
  then have l: "g' = accept_enable (g\<lparr>rg_accept_backoff_ev := None\<rparr>)" using assms(1) by (auto simp: lowered_def)
  have "\<forall>i \<in> set (rg_instances g'). auth_ok i" "rg_conn_max g' = rg_conn_max g" "rg_max_backoff_ms g' = rg_max_backoff_ms g"
    using l assms(2) by (auto simp: acct_inv_def auth_ok_def accept_enable_def)
  then show ?thesis using assms(2) lowered_facts [OF assms(1)] unfolding acct_inv_def by simp
qed (use assms in simp)

lemma lowered_inv: "lowered g g' \<Longrightarrow> glob_inv g \<Longrightarrow> glob_inv g'"
  using lowered_acct [of g g'] by (auto simp: glob_inv_def lowered_def)

lemma conn_total_remove:
  assumes "listed g i p"
  shows "conn_total (update_instance i (\<lambda>s. s\<lparr>ri_clients := remove1 p (ri_clients s)\<rparr>) g) = conn_total g - 1" "conn_total g \<noteq> 0"
proof -
  let ?xs = "rg_instances g"
  have i: "i < length ?xs" "p \<in> set (ri_clients (?xs ! i))" using assms by (auto simp: listed_def)
  have le: "length (ri_clients (?xs ! i)) \<le> conn_total g" "length (ri_clients (?xs ! i)) \<noteq> 0"
    using i elem_le_sum_list [of i "map (length \<circ> ri_clients) ?xs"] by (auto simp: conn_total_def)
  then show "conn_total g \<noteq> 0" by linarith
  have "sum_list ((map (length \<circ> ri_clients) ?xs)[i := length (ri_clients (?xs ! i)) - 1]) = conn_total g + (length (ri_clients (?xs ! i)) - 1) - length (ri_clients (?xs ! i))"
    using i by (subst sum_list_update) (simp_all add: conn_total_def)
  then show "conn_total (update_instance i (\<lambda>s. s\<lparr>ri_clients := remove1 p (ri_clients s)\<rparr>) g) = conn_total g - 1"
    using i le by (simp add: conn_total_def update_instance_def map_update length_remove1)
qed

definition delisted :: "ptr \<Rightarrow> nat \<Rightarrow> redsocks \<Rightarrow> redsocks" where
  "delisted p i g = update_instance i (\<lambda>s. s\<lparr>ri_clients := remove1 p (ri_clients s)\<rparr>) (g\<lparr>rg_conn := rg_conn g - 1, rg_clients := (rg_clients g)(p := None)\<rparr>)"

lemma delisted_inv:
  assumes inv: "acct_inv g" and c: "rg_clients g p = Some c"
  shows "acct_inv (delisted p (rc_instance c) g)" "rg_conn (delisted p (rc_instance c) g) < rg_conn g" "same_conf g (delisted p (rc_instance c) g)"
proof -
  let ?i = "rc_instance c" and ?g = "delisted p (rc_instance c) g"
  have l: "listed g ?i p" using inv c by (auto simp: acct_inv_def)
  then have i: "?i < length (rg_instances g)" "p \<in> set (ri_clients (rg_instances g ! ?i))" by (auto simp: listed_def)
  have inst: "rg_instances ?g ! j = (if j = ?i then (rg_instances g ! j)\<lparr>ri_clients := remove1 p (ri_clients (rg_instances g ! j))\<rparr> else rg_instances g ! j)"
    if "j < length (rg_instances g)" for j using that i by (simp add: delisted_def update_instance_def)
  have len: "length (rg_instances ?g) = length (rg_instances g)" by (simp add: delisted_def)
  have d: "distinct (ri_clients (rg_instances g ! j))" if "j < length (rg_instances g)" for j using inv that by (simp add: acct_inv_def)
  have other: "q = p \<longrightarrow> \<not> listed g j q" if "j \<noteq> ?i" for j q using inv c that by (auto simp: acct_inv_def)
  have m: "listed ?g j q \<longleftrightarrow> listed g j q \<and> q \<noteq> p" for j q
    using inst [of j] i d [of j] other [of j q] len by (cases "j = ?i") (auto simp: listed_def)
  have cl: "rg_clients ?g = (rg_clients g)(p := None)" by (simp add: delisted_def update_instance_def)
  have tot: "conn_total ?g = conn_total g - 1" "conn_total g \<noteq> 0"
    using conn_total_remove [OF l] by (simp_all add: delisted_def update_instance_def conn_total_def)
  have un: "unat (rg_conn g) = conn_total g" using inv by (simp add: acct_inv_def)
  then have "rg_conn g \<noteq> 0" using tot(2) by auto
  then have dec: "unat (rg_conn ?g) = conn_total g - 1" and less: "rg_conn ?g < rg_conn g"
    using un tot(2) by (auto simp: delisted_def unat_minus_one word_less_nat_alt)
  show "rg_conn ?g < rg_conn g" by (rule less)
  have auth: "auth_ok x" if "x \<in> set (rg_instances ?g)" for x
  proof -
    obtain j where j: "j < length (rg_instances g)" "x = rg_instances ?g ! j" using \<open>x \<in> _\<close> len by (auto simp: in_set_conv_nth)
    then show ?thesis using inst [OF j(1)] inv nth_mem [OF j(1)] by (auto simp: acct_inv_def auth_ok_def)
  qed
  have max: "rg_conn_max ?g = rg_conn_max g" "rg_max_backoff_ms ?g = rg_max_backoff_ms g" by (simp_all add: delisted_def)
  show "acct_inv ?g" unfolding acct_inv_def
  proof (intro conjI)
    show "\<forall>q j. listed ?g j q \<longleftrightarrow> (\<exists>c. rg_clients ?g q = Some c \<and> rc_instance c = j)" using m cl inv by (auto simp: acct_inv_def)
    show "\<forall>j < length (rg_instances ?g). distinct (ri_clients (rg_instances ?g ! j))" using inst d len by simp
    show "unat (rg_conn ?g) = conn_total ?g" using tot dec by simp
    show "rg_conn ?g \<le> rg_conn_max ?g" using less inv unfolding max acct_inv_def by (meson order.trans order.strict_implies_order)
    show "\<forall>x \<in> set (rg_instances ?g). auth_ok x" using auth by blast
    show "rg_max_backoff_ms ?g \<noteq> 0" using inv max by (simp add: acct_inv_def)
  qed
  have "same_conf (g\<lparr>rg_conn := rg_conn g - 1, rg_clients := (rg_clients g)(p := None)\<rparr>) ?g" unfolding delisted_def by (rule same_conf_update) simp
  then show "same_conf g ?g" by (simp add: same_conf_def)
qed

text \<open>Dropping a client frees a place, so that even at the limit listening is in order afterwards.\<close>

lemma drop_outcome:
  assumes inv: "acct_inv g" and c: "rg_clients g p = Some c"
  shows "\<exists>g'. redsocks_drop_client env p g = Some g' \<and> rg_clients g' = (rg_clients g)(p := None) \<and> glob_inv g' \<and> same_conf g g' \<and> quiet g g'"
proof -
  define g1 where "g1 = (if rc_client c \<noteq> None then redsocks_bufferevent_free env g else g)"
  define g2 where "g2 = (if rc_relay c \<noteq> None then redsocks_bufferevent_free env g1 else g1)"
  have l1: "lowered g g1" and l2: "lowered g1 g2" by (auto simp: g1_def g2_def lowered_close) (auto simp: lowered_def)
  have inv2: "acct_inv g2" using lowered_acct [OF l2 lowered_acct [OF l1 inv]] .
  have c2: "rg_clients g2 = rg_clients g" using lowered_facts(1) [OF l1] lowered_facts(1) [OF l2] by simp
  have s2: "same_conf g g2" using lowered_facts(3) [OF l1] lowered_facts(3) [OF l2] by (rule same_conf_trans)
  let ?d = "delisted p (rc_instance c) g2"
  let ?e = "conn_pressure_lowered ?d"
  have "p \<in> set (ri_clients (instance_of c g2))" using inv2 c c2 by (auto simp: acct_inv_def listed_def instance_of_def)
  then have r: "redsocks_drop_client env p g = Some ?e"
    unfolding redsocks_drop_client_def c Let_def bind.bind_lunit g1_def [symmetric] g2_def [symmetric] redsocks_conn_list_del_def
    by (simp add: delisted_def update_instance_def conn_pressure_lowered_def accept_enable_def)
  have low: "lowered ?d ?e" by (rule lowered_close)
  have d: "acct_inv ?d" "rg_conn ?d < rg_conn g2" "same_conf g2 ?d" using delisted_inv [OF inv2, of p c] c c2 by auto
  have "rg_conn ?e < rg_conn_max ?e"
    using d(2) inv2 lowered_facts(2,3) [OF low] d(3) unfolding acct_inv_def same_conf_def by (metis order.strict_trans2)
  then have "glob_inv ?e" using lowered_acct [OF low d(1)] by (simp add: glob_inv_def)
  moreover have "rg_clients ?e = (rg_clients g)(p := None)" using lowered_facts(1) [OF low] by (simp add: delisted_def c2)
  moreover have "quiet g g2" unfolding g2_def g1_def using quiet_trans [of g "redsocks_bufferevent_free env g"] by simp
  then have "quiet g ?e" using quiet_trans [OF quiet_trans, of g g2 ?d ?e] quiet_update [of "\<lambda>s. s\<lparr>ri_clients := remove1 p (ri_clients s)\<rparr>"]
      quiet_trans [of g2 "g2\<lparr>rg_conn := rg_conn g2 - 1, rg_clients := (rg_clients g2)(p := None)\<rparr>" ?d] by (simp add: delisted_def)
  moreover have "same_conf g ?e" using s2 d(3) lowered_facts(3) [OF low] by (blast intro: same_conf_trans)
  ultimately show ?thesis using r by blast
qed

text \<open>
  The outcomes of a handler that works on one client: the client is updated, to one with \<open>R\<close>, or
  dropped; nothing happens to the others.
\<close>

definition outcome :: "ptr \<Rightarrow> redsocks \<Rightarrow> (redsocks_client \<Rightarrow> bool) \<Rightarrow> redsocks option \<Rightarrow> bool" where
  "outcome p g R r \<longleftrightarrow> (\<exists>g'. r = Some g' \<and> glob_inv g' \<and> same_conf g g' \<and> quiet g g' \<and>
     (rg_clients g' = (rg_clients g)(p := None) \<or> (\<exists>c'. rg_clients g' = (rg_clients g)(p \<mapsto> c') \<and> R c')))"

lemma outcome_drop: "glob_inv g \<Longrightarrow> rg_clients g p = Some c \<Longrightarrow> outcome p g R (redsocks_drop_client env p g)"
  using drop_outcome [of g p c env] by (auto simp: outcome_def glob_inv_def)

lemma outcome_put: "glob_inv g \<Longrightarrow> rg_clients g p = Some c0 \<Longrightarrow> rc_instance c = rc_instance c0 \<Longrightarrow> R c \<Longrightarrow> outcome p g R (Some (put_client p c g))"
  by (auto simp: outcome_def glob_inv_put)

lemma outcome_from_put: "outcome p (put_client p c g) R r \<Longrightarrow> outcome p g R r"
  by (auto simp: outcome_def)

lemma outcome_mono: "outcome p g R r \<Longrightarrow> (\<And>c. R c \<Longrightarrow> S c) \<Longrightarrow> outcome p g S r"
  by (auto simp: outcome_def)



section \<open>Clients\<close>

definition disjoint_ev :: "ev set \<Rightarrow> ev set \<Rightarrow> bool" where
  "disjoint_ev a b \<longleftrightarrow> (EV_READ \<in> a \<longrightarrow> EV_READ \<notin> b) \<and> (EV_WRITE \<in> a \<longrightarrow> EV_WRITE \<notin> b)"

text \<open>
  One direction of the pump, from \<open>f\<close> to \<open>t\<close>, with what is shut of both: it is finished, waits for
  its socket to become writable, or waits for data; and it is finished only after the end of the
  source was seen.
\<close>

definition flow_pre :: "bufferevent \<Rightarrow> ev set \<Rightarrow> bufferevent \<Rightarrow> ev set \<Rightarrow> bool" where
  "flow_pre f sf t st \<longleftrightarrow> be_wm_write t = (0, 4096) \<and> be_wm_read f = (0, 4096) \<and>
     (be_output t \<noteq> [] \<and> EV_WRITE \<notin> st \<longrightarrow> be_ev_write t) \<and> (be_ev_write t \<longrightarrow> EV_WRITE \<in> be_enabled t) \<and> (EV_WRITE \<in> st \<or> EV_WRITE \<in> be_enabled t) \<and>
     (EV_WRITE \<in> st \<longrightarrow> EV_READ \<in> sf) \<and> disjoint_ev (be_enabled f) sf \<and> (EV_WRITE \<in> be_sock_shut t \<longleftrightarrow> EV_WRITE \<in> st)"

definition flow_ok :: "bufferevent \<Rightarrow> ev set \<Rightarrow> bufferevent \<Rightarrow> ev set \<Rightarrow> bool" where
  "flow_ok f sf t st \<longleftrightarrow> flow_pre f sf t st \<and> (EV_WRITE \<in> st \<or> be_ev_write t \<or> EV_READ \<in> be_enabled f \<and> be_input f = [])"

definition pump_ok :: "redsocks_client \<Rightarrow> bool" where
  "pump_ok c \<longleftrightarrow> rc_state c = pump_active \<and> \<not> shut_both c \<and> (\<exists>cl rl. rc_client c = Some cl \<and> rc_relay c = Some rl \<and>
     be_readcb cl = CB_relay_clientread \<and> be_writecb cl = CB_relay_clientwrite \<and> be_readcb rl = CB_relay_relayread \<and> be_writecb rl = CB_relay_relaywrite \<and>
     flow_ok cl (rc_client_evshut c) rl (rc_relay_evshut c) \<and> flow_ok rl (rc_relay_evshut c) cl (rc_client_evshut c))"

definition ss_state_ok :: "relay_subsys \<Rightarrow> int \<Rightarrow> bool" where
  "ss_state_ok ss st \<longleftrightarrow> (case ss of socks5_subsys \<Rightarrow> 1 \<le> st \<and> st \<le> 5 | socks4_subsys \<Rightarrow> st = 1 | http_connect_subsys \<Rightarrow> st = 1 \<or> st = 2)"

text \<open>The connection to the proxy while it is negotiated with: connecting, or talking.\<close>

definition relay_ok :: "relay_subsys \<Rightarrow> int \<Rightarrow> bufferevent \<Rightarrow> ev set \<Rightarrow> bool" where
  "relay_ok ss st rl sr \<longleftrightarrow> EV_WRITE \<notin> be_sock_shut rl \<and> be_wm_write rl = (0, 0) \<and> (be_output rl \<noteq> [] \<longrightarrow> be_ev_write rl \<or> EV_WRITE \<notin> be_enabled rl) \<and> (be_ev_write rl \<longrightarrow> EV_WRITE \<in> be_enabled rl) \<and>
     (be_readcb rl = CB_none \<and> be_writecb rl = CB_relay_connected \<and> st = 0 \<and> sr = {} \<and> be_enabled rl = {EV_WRITE} \<and> be_output rl = [] \<and> be_input rl = [] \<and> be_ev_write rl \<or>
      be_readcb rl = CB_ss_read \<and> be_writecb rl = CB_ss_write \<and> ss_state_ok ss st \<and> sr \<subseteq> {EV_READ} \<and> disjoint_ev (be_enabled rl) sr \<and>
        (EV_READ \<in> be_enabled rl \<or> EV_READ \<in> sr) \<and> (ss = socks5_subsys \<longrightarrow> EV_WRITE \<in> be_enabled rl))"

text \<open>The accepted connection in the meantime: what arrives is collected, nothing is sent.\<close>

definition wait_ok :: "bufferevent \<Rightarrow> ev set \<Rightarrow> bool" where
  "wait_ok cl sc \<longleftrightarrow> be_readcb cl = CB_none \<and> be_writecb cl = CB_none \<and> be_output cl = [] \<and> EV_WRITE \<notin> be_sock_shut cl \<and> \<not> be_ev_write cl \<and>
     EV_WRITE \<in> be_enabled cl \<and> be_wm_read cl = (0, 0) \<and> sc \<subseteq> {EV_READ} \<and> disjoint_ev (be_enabled cl) sc \<and> (EV_READ \<in> be_enabled cl \<or> EV_READ \<in> sc)"

definition hand_ok :: "redsocks_config \<times> relay_subsys \<Rightarrow> redsocks_client \<Rightarrow> bool" where
  "hand_ok conf c \<longleftrightarrow> 0 \<le> rc_state c \<and> (\<exists>cl rl. rc_client c = Some cl \<and> rc_relay c = Some rl \<and>
     wait_ok cl (rc_client_evshut c) \<and> relay_ok (snd conf) (rc_state c) rl (rc_relay_evshut c)) \<and>
     (snd conf = socks5_subsys \<and> rc_do_password c \<longrightarrow> cf_login (fst conf) \<noteq> None \<and> cf_password (fst conf) \<noteq> None)"

definition client_ok :: "redsocks_config \<times> relay_subsys \<Rightarrow> redsocks_client \<Rightarrow> bool" where
  "client_ok conf c \<longleftrightarrow> (if rc_state c = pump_active then pump_ok c else hand_ok conf c)"

definition inp :: "side \<Rightarrow> redsocks_client \<Rightarrow> bytes" where
  "inp sd c = (case be_of sd c of Some be \<Rightarrow> be_input be | None \<Rightarrow> [])"

definition outp :: "side \<Rightarrow> redsocks_client \<Rightarrow> bytes" where
  "outp sd c = (case be_of sd c of Some be \<Rightarrow> be_output be | None \<Rightarrow> [])"

definition shut_client :: "side \<Rightarrow> ev set \<Rightarrow> redsocks_client \<Rightarrow> bufferevent \<Rightarrow> redsocks_client" where
  "shut_client sd how c be = (let be1 = (if \<not> (how = {EV_READ} \<and> EV_WRITE \<in> evshut_of sd c) then be\<lparr>be_sock_shut := be_sock_shut be \<union> how\<rparr> else be)
     in set_evshut sd (evshut_of sd c \<union> how) (set_be sd (bufferevent_disable how be1) c))"

lemma side_simps [simp]:
  "rc_instance (set_be sd be c) = rc_instance c" "rc_instance (set_evshut sd evs c) = rc_instance c" "rc_instance (redsocks_touch_client env c) = rc_instance c"
  "rc_state (set_be sd be c) = rc_state c" "rc_state (set_evshut sd evs c) = rc_state c" "other (other sd) = sd" "other sd \<noteq> sd"
  "rc_instance (shut_client sd how c be) = rc_instance c" "rc_state (shut_client sd how c be) = rc_state c"
  by (cases sd; simp add: redsocks_touch_client_def shut_client_def Let_def)+

lemma bufferevent_simps [simp]:
  "be_input (bufferevent_enable evs be) = be_input be" "be_output (bufferevent_enable evs be) = be_output be"
  "be_enabled (bufferevent_enable evs be) = be_enabled be \<union> evs" "be_wm_read (bufferevent_enable evs be) = be_wm_read be"
  "be_wm_write (bufferevent_enable evs be) = be_wm_write be" "be_readcb (bufferevent_enable evs be) = be_readcb be"
  "be_writecb (bufferevent_enable evs be) = be_writecb be" "be_ev_write (bufferevent_enable evs be) \<longleftrightarrow> be_ev_write be \<or> EV_WRITE \<in> evs"
  "be_sock_shut (bufferevent_enable evs be) = be_sock_shut be"
  "be_input (bufferevent_disable evs be) = be_input be" "be_output (bufferevent_disable evs be) = be_output be"
  "be_enabled (bufferevent_disable evs be) = be_enabled be - evs" "be_wm_read (bufferevent_disable evs be) = be_wm_read be"
  "be_wm_write (bufferevent_disable evs be) = be_wm_write be" "be_readcb (bufferevent_disable evs be) = be_readcb be"
  "be_writecb (bufferevent_disable evs be) = be_writecb be" "be_ev_write (bufferevent_disable evs be) \<longleftrightarrow> be_ev_write be \<and> EV_WRITE \<notin> evs"
  "be_sock_shut (bufferevent_disable evs be) = be_sock_shut be"
  "be_input (bufferevent_write_buffer d be) = be_input be" "be_output (bufferevent_write_buffer d be) = be_output be @ d"
  "be_enabled (bufferevent_write_buffer d be) = be_enabled be" "be_wm_read (bufferevent_write_buffer d be) = be_wm_read be"
  "be_wm_write (bufferevent_write_buffer d be) = be_wm_write be" "be_readcb (bufferevent_write_buffer d be) = be_readcb be"
  "be_writecb (bufferevent_write_buffer d be) = be_writecb be"
  "be_ev_write (bufferevent_write_buffer d be) \<longleftrightarrow> be_ev_write be \<or> d \<noteq> [] \<and> EV_WRITE \<in> be_enabled be"
  "be_sock_shut (bufferevent_write_buffer d be) = be_sock_shut be"
  by (simp_all add: bufferevent_enable_def bufferevent_disable_def bufferevent_write_buffer_def)

lemma shutdown_outcome:
  assumes "glob_inv g" "rg_clients g p = Some c" "be_of sd c = Some be"
  shows "outcome p g (\<lambda>c'. c' = shut_client sd how c be \<and> \<not> shut_both c') (redsocks_shutdown env p sd how g)"
proof -
  let ?c = "shut_client sd how c be"
  have r: "redsocks_shutdown env p sd how g = (if shut_both ?c then redsocks_drop_client env p (put_client p ?c g) else Some (put_client p ?c g))"
    using assms by (simp add: redsocks_shutdown_def shut_client_def Let_def)
  have inv: "glob_inv (put_client p ?c g)" using assms by (intro glob_inv_put [of g p c]) simp_all
  show ?thesis
  proof (cases "shut_both ?c")
    case True
    then show ?thesis unfolding r using outcome_from_put [OF outcome_drop [OF inv, of p ?c]] by simp
  next
    case False
    then show ?thesis unfolding r using assms by (auto intro!: outcome_put)
  qed
qed

text \<open>A step of the pump in the direction from \<open>d\<close>.\<close>

definition pump_step :: "side \<Rightarrow> redsocks_client \<Rightarrow> redsocks_client \<Rightarrow> bool" where
  "pump_step d c c' \<longleftrightarrow> pump_ok c' \<and> rc_instance c' = rc_instance c \<and>
     outp (other d) c' @ inp d c' = outp (other d) c @ inp d c \<and> (inp d c' = [] \<or> outp (other d) c' \<noteq> []) \<and>
     (EV_WRITE \<in> evshut_of (other d) c' \<longrightarrow> EV_WRITE \<in> evshut_of (other d) c \<or> outp (other d) c' = [] \<and> inp d c' = []) \<and>
     inp (other d) c' = inp (other d) c \<and> outp d c' = outp d c \<and> evshut_of d c' = evshut_of d c"

definition pump_base :: "redsocks_client \<Rightarrow> side \<Rightarrow> bufferevent \<Rightarrow> bufferevent \<Rightarrow> bool" where
  "pump_base c d f t \<longleftrightarrow> rc_state c = pump_active \<and> \<not> shut_both c \<and> be_of d c = Some f \<and> be_of (other d) c = Some t \<and>
     be_readcb f = (if d = CLIENT then CB_relay_clientread else CB_relay_relayread) \<and> be_writecb f = (if d = CLIENT then CB_relay_clientwrite else CB_relay_relaywrite) \<and>
     be_readcb t = (if d = CLIENT then CB_relay_relayread else CB_relay_clientread) \<and> be_writecb t = (if d = CLIENT then CB_relay_relaywrite else CB_relay_clientwrite)"

lemma pump_okI:
  "pump_base c d f t \<Longrightarrow> flow_ok f (evshut_of d c) t (evshut_of (other d) c) \<Longrightarrow> flow_ok t (evshut_of (other d) c) f (evshut_of d c) \<Longrightarrow> pump_ok c"
  by (cases d) (auto simp: pump_ok_def pump_base_def)

lemma pump_okE:
  assumes "pump_ok c"
  obtains f t where "pump_base c d f t" "flow_ok f (evshut_of d c) t (evshut_of (other d) c)" "flow_ok t (evshut_of (other d) c) f (evshut_of d c)"
  using assms by (cases d) (auto simp: pump_ok_def pump_base_def)

lemma side_access [simp]:
  "be_of sd (set_be sd be c) = Some be" "be_of (other sd) (set_be sd be c) = be_of (other sd) c" "be_of sd (set_be (other sd) be c) = be_of sd c"
  "be_of sd (set_evshut sd1 evs c) = be_of sd c" "evshut_of sd (set_be sd1 be c) = evshut_of sd c"
  "evshut_of sd (set_evshut sd evs c) = evs" "evshut_of (other sd) (set_evshut sd evs c) = evshut_of (other sd) c"
  "evshut_of sd (set_evshut (other sd) evs c) = evshut_of sd c"
  "be_of sd (redsocks_touch_client env c) = be_of sd c" "evshut_of sd (redsocks_touch_client env c) = evshut_of sd c"
  "rc_state (redsocks_touch_client env c) = rc_state c"
  by (cases sd; cases sd1; simp add: redsocks_touch_client_def)+

lemma shut_both_sides: "shut_both c \<longleftrightarrow> evshut_of sd c = {EV_READ, EV_WRITE} \<and> evshut_of (other sd) c = {EV_READ, EV_WRITE}"
  by (cases sd) (auto simp: shut_both_def)

lemma shut_client_access [simp]:
  "evshut_of sd (shut_client sd how c be) = evshut_of sd c \<union> how" "evshut_of (other sd) (shut_client sd how c be) = evshut_of (other sd) c"
  "evshut_of sd (shut_client (other sd) how c be) = evshut_of sd c"
  "be_of (other sd) (shut_client sd how c be) = be_of (other sd) c" "be_of sd (shut_client (other sd) how c be) = be_of sd c"
  by (simp_all add: shut_client_def Let_def)

lemma shut_client_be:
  obtains be' where "be_of sd (shut_client sd how c be) = Some be'" "be_input be' = be_input be" "be_output be' = be_output be" "be_enabled be' = be_enabled be - how"
    "be_wm_read be' = be_wm_read be" "be_wm_write be' = be_wm_write be" "be_readcb be' = be_readcb be" "be_writecb be' = be_writecb be"
    "be_ev_write be' \<longleftrightarrow> be_ev_write be \<and> EV_WRITE \<notin> how" "EV_WRITE \<in> be_sock_shut be' \<longleftrightarrow> EV_WRITE \<in> be_sock_shut be \<or> EV_WRITE \<in> how"
proof
  let ?be1 = "if \<not> (how = {EV_READ} \<and> EV_WRITE \<in> evshut_of sd c) then be\<lparr>be_sock_shut := be_sock_shut be \<union> how\<rparr> else be"
  show "be_of sd (shut_client sd how c be) = Some (bufferevent_disable how ?be1)" by (simp add: shut_client_def Let_def)
qed auto

lemma ev_cases: "(s :: ev set) = {EV_READ, EV_WRITE} \<longleftrightarrow> EV_READ \<in> s \<and> EV_WRITE \<in> s"
  using ev.exhaust by auto

lemma relay_readcb_outcome:
  assumes inv: "glob_inv g" "rg_clients g p = Some c" and b: "pump_base c d f t"
    and fl: "flow_pre f (evshut_of d c) t (evshut_of (other d) c)" "flow_ok t (evshut_of (other d) c) f (evshut_of d c)" "EV_READ \<in> be_enabled f"
  shows "outcome p g (pump_step d c) (redsocks_relay_readcb p d g)"
proof -
  have be: "be_of d c = Some f" "be_of (other d) c = Some t" using b by (auto simp: pump_base_def)
  show ?thesis
  proof (cases "length (be_output t) < snd (be_wm_write t)")
    case True
    let ?t = "bufferevent_write_buffer (be_input f) t" and ?f = "f\<lparr>be_input := []\<rparr>"
    let ?c = "set_be (other d) ?t (set_be d ?f c)"
    have "pump_base ?c d ?f ?t" using b by (auto simp: pump_base_def shut_both_sides [of _ d])
    moreover have "flow_ok ?f (evshut_of d c) ?t (evshut_of (other d) c)" "flow_ok ?t (evshut_of (other d) c) ?f (evshut_of d c)"
      using fl by (auto simp: flow_ok_def flow_pre_def disjoint_ev_def)
    ultimately have "pump_step d c ?c" using be pump_okI [of ?c d ?f ?t] by (auto simp: pump_step_def inp_def outp_def)
    then show ?thesis using True inv be by (auto simp: redsocks_relay_readcb_def intro!: outcome_put)
  next
    case False
    let ?f = "bufferevent_disable {EV_READ} f"
    let ?c = "set_be d ?f c"
    have ne: "be_output t \<noteq> []" using False fl(1) by (auto simp: flow_pre_def disjoint_ev_def)
    have "pump_base ?c d ?f t" using b by (auto simp: pump_base_def shut_both_sides [of _ d])
    moreover have "flow_ok ?f (evshut_of d c) t (evshut_of (other d) c)" "flow_ok t (evshut_of (other d) c) ?f (evshut_of d c)"
      using fl ne by (auto simp: flow_ok_def flow_pre_def disjoint_ev_def)
    ultimately have "pump_step d c ?c" using be ne pump_okI [of ?c d ?f t] by (auto simp: pump_step_def inp_def outp_def)
    then show ?thesis using False inv be by (auto simp: redsocks_relay_readcb_def intro!: outcome_put)
  qed
qed

lemma relay_writecb_outcome:
  assumes inv: "glob_inv g" "rg_clients g p = Some c" and b: "pump_base c d f t"
    and fl: "flow_pre f (evshut_of d c) t (evshut_of (other d) c)" "flow_ok t (evshut_of (other d) c) f (evshut_of d c)"
    and t: "EV_WRITE \<in> be_enabled t" "be_output t = []"
  shows "outcome p g (pump_step d c) (redsocks_relay_writecb env p d g)"
proof -
  have be: "be_of d c = Some f" "be_of (other d) c = Some t" using b by (auto simp: pump_base_def)
  show ?thesis
  proof (cases "be_input f = [] \<and> EV_READ \<in> evshut_of d c")
    case True
    have "pump_step d c c'" if c': "c' = shut_client (other d) {EV_WRITE} c t" "\<not> shut_both c'" for c'
    proof -
      obtain t' where t': "be_of (other d) c' = Some t'" "be_input t' = be_input t" "be_output t' = be_output t" "be_enabled t' = be_enabled t - {EV_WRITE}"
        "be_wm_read t' = be_wm_read t" "be_wm_write t' = be_wm_write t" "be_readcb t' = be_readcb t" "be_writecb t' = be_writecb t"
        "\<not> be_ev_write t'" "EV_WRITE \<in> be_sock_shut t'"
        unfolding c'(1) by (rule shut_client_be [of "other d" "{EV_WRITE}" c t]) auto
      have f': "be_of d c' = Some f" "evshut_of d c' = evshut_of d c" "evshut_of (other d) c' = evshut_of (other d) c \<union> {EV_WRITE}"
        using be unfolding c'(1) by (simp_all add: shut_client_access(1) [of "other d"])
      have "pump_base c' d f t'" using b c' t' f' by (auto simp: pump_base_def)
      moreover have "flow_ok f (evshut_of d c') t' (evshut_of (other d) c')" "flow_ok t' (evshut_of (other d) c') f (evshut_of d c')"
        using fl t t' f' True by (auto simp: flow_ok_def flow_pre_def disjoint_ev_def)
      ultimately have "pump_ok c'" by (rule pump_okI)
      then show ?thesis using be t' f' t(2) True c'(1) by (auto simp: pump_step_def inp_def outp_def)
    qed
    then have "outcome p g (pump_step d c) (redsocks_shutdown env p (other d) {EV_WRITE} g)"
      using shutdown_outcome [OF inv be(2)] by (rule outcome_mono [rotated]) auto
    then show ?thesis using True inv be by (simp add: redsocks_relay_writecb_def)
  next
    case False
    let ?t = "bufferevent_write_buffer (be_input f) t" and ?f = "(if EV_READ \<in> evshut_of d c then f else bufferevent_enable {EV_READ} f)\<lparr>be_input := []\<rparr>"
    let ?c = "set_be (other d) ?t (set_be d ?f c)"
    have "pump_base ?c d ?f ?t" using b by (auto simp: pump_base_def shut_both_sides [of _ d])
    moreover have "flow_ok ?f (evshut_of d c) ?t (evshut_of (other d) c)" "flow_ok ?t (evshut_of (other d) c) ?f (evshut_of d c)"
      using fl t False by (auto simp: flow_ok_def flow_pre_def disjoint_ev_def)
    ultimately have "pump_step d c ?c" using be pump_okI [of ?c d ?f ?t] by (auto simp: pump_step_def inp_def outp_def)
    then show ?thesis using False inv be t fl(1) by (auto simp: redsocks_relay_writecb_def flow_pre_def intro!: outcome_put)
  qed
qed

text \<open>The end of file of \<open>d\<close>: nothing moves, and the other side is shut for writing when nothing is left to send.\<close>

definition eof_step :: "redsocks_config \<times> relay_subsys \<Rightarrow> side \<Rightarrow> redsocks_client \<Rightarrow> redsocks_client \<Rightarrow> bool" where
  "eof_step conf d c c' \<longleftrightarrow> client_ok conf c' \<and> rc_instance c' = rc_instance c \<and> rc_state c' = rc_state c \<and> rc_to_skip c' = rc_to_skip c \<and>
     (\<forall>sd. inp sd c' = inp sd c \<and> outp sd c' = outp sd c) \<and> (EV_WRITE \<in> evshut_of d c' \<longleftrightarrow> EV_WRITE \<in> evshut_of d c) \<and>
     (EV_WRITE \<in> evshut_of (other d) c' \<longrightarrow> EV_WRITE \<in> evshut_of (other d) c \<or> outp (other d) c = [])"

lemma client_ok_touch [simp]: "client_ok conf (redsocks_touch_client env c) = client_ok conf c"
  by (simp add: client_ok_def pump_ok_def hand_ok_def redsocks_touch_client_def shut_both_def)

lemma all_sides: "(\<forall>sd. P sd) \<longleftrightarrow> P d \<and> P (other d)"
proof
  assume a: "P d \<and> P (other d)"
  show "\<forall>sd. P sd"
  proof
    fix sd show "P sd" using a by (cases sd; cases d; simp)
  qed
qed simp

lemma pump_flows:
  assumes "client_ok conf c" "rc_state c = pump_active" "be_of d c = Some f"
  obtains t where "be_of (other d) c = Some t" "pump_base c d f t" "flow_ok f (evshut_of d c) t (evshut_of (other d) c)"
    "flow_ok t (evshut_of (other d) c) f (evshut_of d c)"
proof -
  have "pump_ok c" using assms by (simp add: client_ok_def)
  then obtain f0 t where b: "pump_base c d f0 t" "flow_ok f0 (evshut_of d c) t (evshut_of (other d) c)" "flow_ok t (evshut_of (other d) c) f0 (evshut_of d c)"
    by (rule pump_okE)
  then have "f0 = f" "be_of (other d) c = Some t" using assms(3) by (auto simp: pump_base_def)
  then show thesis using that b by simp
qed

lemma reading_open:
  assumes ok: "client_ok conf c" and f: "be_of d c = Some f" "EV_READ \<in> be_enabled f"
  shows "EV_READ \<notin> evshut_of d c" "EV_WRITE \<notin> evshut_of (other d) c"
proof -
  have "EV_READ \<notin> evshut_of d c \<and> EV_WRITE \<notin> evshut_of (other d) c"
  proof (cases "rc_state c = pump_active")
    case True
    obtain t where "flow_ok f (evshut_of d c) t (evshut_of (other d) c)" by (rule pump_flows [OF ok True f(1)])
    then show ?thesis using f(2) by (auto simp: flow_ok_def flow_pre_def disjoint_ev_def)
  next
    case False
    then show ?thesis using ok f by (cases d) (auto simp: client_ok_def hand_ok_def wait_ok_def relay_ok_def disjoint_ev_def)
  qed
  then show "EV_READ \<notin> evshut_of d c" "EV_WRITE \<notin> evshut_of (other d) c" by simp_all
qed

text \<open>The client with the end of \<open>d\<close> recorded.\<close>

definition eof_client :: "side \<Rightarrow> bufferevent \<Rightarrow> redsocks_client \<Rightarrow> redsocks_client" where
  "eof_client d f c = shut_client d {EV_READ} (set_be d (bufferevent_disable {EV_READ} f) c) (bufferevent_disable {EV_READ} f)"

lemma eof_client_access:
  obtains f' where "be_of d (eof_client d f c) = Some f'" "be_input f' = be_input f" "be_output f' = be_output f" "be_enabled f' = be_enabled f - {EV_READ}"
    "be_wm_read f' = be_wm_read f" "be_wm_write f' = be_wm_write f" "be_readcb f' = be_readcb f" "be_writecb f' = be_writecb f"
    "be_ev_write f' \<longleftrightarrow> be_ev_write f" "EV_WRITE \<in> be_sock_shut f' \<longleftrightarrow> EV_WRITE \<in> be_sock_shut f"
  unfolding eof_client_def
  by (rule shut_client_be [of d "{EV_READ}" "set_be d (bufferevent_disable {EV_READ} f) c" "bufferevent_disable {EV_READ} f"]) auto

lemma shut_client_to_skip [simp]: "rc_to_skip (shut_client sd how c be) = rc_to_skip c"
  by (cases sd) (simp_all add: shut_client_def Let_def)

lemma eof_client_to_skip [simp]: "rc_to_skip (eof_client d f c) = rc_to_skip c"
  by (cases d) (simp_all add: eof_client_def)

lemma eof_client_other [simp]:
  "be_of (other d) (eof_client d f c) = be_of (other d) c" "evshut_of d (eof_client d f c) = insert EV_READ (evshut_of d c)"
  "evshut_of (other d) (eof_client d f c) = evshut_of (other d) c" "rc_state (eof_client d f c) = rc_state c" "rc_instance (eof_client d f c) = rc_instance c"
  "rc_do_password (eof_client d f c) = rc_do_password c"
  by (simp_all add: eof_client_def) (cases d; simp add: shut_client_def Let_def)

lemma eof_not_both:
  assumes "client_ok conf c" "be_of d c = Some f" "EV_READ \<in> be_enabled f"
  shows "\<not> shut_both (eof_client d f c)"
  using reading_open(2) [OF assms] by (auto simp: shut_both_sides [of _ d])

lemma eof_finished:
  assumes ok: "client_ok conf c" and f: "be_of d c = Some f" "EV_READ \<in> be_enabled f" and st: "rc_state c = pump_active"
    and t: "be_of (other d) c = Some t" "be_output t = []" and c2: "c2 = shut_client (other d) {EV_WRITE} (eof_client d f c) t" "\<not> shut_both c2"
  shows "eof_step conf d c c2"
proof -
  have b: "pump_base c d f t" "flow_ok f (evshut_of d c) t (evshut_of (other d) c)" "flow_ok t (evshut_of (other d) c) f (evshut_of d c)"
    using t(1) by (rule_tac pump_flows [OF ok st f(1)], simp)+
  obtain f' where f': "be_of d (eof_client d f c) = Some f'" "be_input f' = be_input f" "be_output f' = be_output f" "be_enabled f' = be_enabled f - {EV_READ}"
    "be_wm_read f' = be_wm_read f" "be_wm_write f' = be_wm_write f" "be_readcb f' = be_readcb f" "be_writecb f' = be_writecb f"
    "be_ev_write f' \<longleftrightarrow> be_ev_write f" "EV_WRITE \<in> be_sock_shut f' \<longleftrightarrow> EV_WRITE \<in> be_sock_shut f" by (rule eof_client_access)
  obtain t' where t': "be_of (other d) c2 = Some t'" "be_input t' = be_input t" "be_output t' = be_output t" "be_enabled t' = be_enabled t - {EV_WRITE}"
    "be_wm_read t' = be_wm_read t" "be_wm_write t' = be_wm_write t" "be_readcb t' = be_readcb t" "be_writecb t' = be_writecb t"
    "\<not> be_ev_write t'" "EV_WRITE \<in> be_sock_shut t'"
    unfolding c2(1) by (rule shut_client_be [of "other d" "{EV_WRITE}" "eof_client d f c" t]) auto
  have o2: "be_of d c2 = Some f'" "evshut_of d c2 = insert EV_READ (evshut_of d c)" "evshut_of (other d) c2 = evshut_of (other d) c \<union> {EV_WRITE}"
    "rc_state c2 = rc_state c" "rc_instance c2 = rc_instance c" "rc_to_skip c2 = rc_to_skip c"
    using f'(1) unfolding c2(1) by (simp_all add: shut_client_access(1) [of "other d"])
  have "pump_base c2 d f' t'" using b(1) c2(2) t' f' o2 unfolding pump_base_def by simp
  moreover have "flow_ok f' (evshut_of d c2) t' (evshut_of (other d) c2)" "flow_ok t' (evshut_of (other d) c2) f' (evshut_of d c2)"
    using b(2,3) t(2) t'(9,10) f'(9,10) unfolding flow_ok_def flow_pre_def disjoint_ev_def f'(2-8) t'(2-8) o2 by auto
  ultimately have "pump_ok c2" by (rule pump_okI)
  then have "client_ok conf c2" using o2 st by (simp add: client_ok_def)
  moreover have "\<forall>sd. inp sd c2 = inp sd c \<and> outp sd c2 = outp sd c" unfolding all_sides [of _ d] using f f' t t' o2 by (simp add: inp_def outp_def)
  moreover have "outp (other d) c = []" using t by (simp add: outp_def)
  ultimately show ?thesis using o2 by (simp add: eof_step_def)
qed


lemma eof_kept:
  assumes ok: "client_ok conf c" and f: "be_of d c = Some f" "EV_READ \<in> be_enabled f" and t: "be_of (other d) c = Some t"
    and n: "rc_state c = pump_active \<Longrightarrow> be_output t \<noteq> []"
  shows "eof_step conf d c (eof_client d f c)"
proof -
  let ?c = "eof_client d f c"
  obtain f' where f': "be_of d ?c = Some f'" "be_input f' = be_input f" "be_output f' = be_output f" "be_enabled f' = be_enabled f - {EV_READ}"
    "be_wm_read f' = be_wm_read f" "be_wm_write f' = be_wm_write f" "be_readcb f' = be_readcb f" "be_writecb f' = be_writecb f"
    "be_ev_write f' \<longleftrightarrow> be_ev_write f" "EV_WRITE \<in> be_sock_shut f' \<longleftrightarrow> EV_WRITE \<in> be_sock_shut f" by (rule eof_client_access)
  have "client_ok conf ?c"
  proof (cases "rc_state c = pump_active")
    case True
    have b: "pump_base c d f t" "flow_ok f (evshut_of d c) t (evshut_of (other d) c)" "flow_ok t (evshut_of (other d) c) f (evshut_of d c)"
      using t by (rule_tac pump_flows [OF ok True f(1)], simp)+
    have "pump_base ?c d f' t" using b(1) eof_not_both [OF ok f] f' t unfolding pump_base_def by simp
    moreover have "flow_ok f' (evshut_of d ?c) t (evshut_of (other d) ?c)" "flow_ok t (evshut_of (other d) ?c) f' (evshut_of d ?c)"
      using b(2,3) n [OF True] f'(9,10) unfolding flow_ok_def flow_pre_def disjoint_ev_def f'(2-8) eof_client_other by auto
    ultimately have "pump_ok ?c" by (rule pump_okI)
    then show ?thesis using True by (simp add: client_ok_def)
  next
    case False
    then have h: "hand_ok conf c" using ok by (simp add: client_ok_def)
    have "hand_ok conf ?c"
    proof (cases d)
      case CLIENT
      have "rc_relay ?c = rc_relay c" "rc_relay_evshut ?c = rc_relay_evshut c" "rc_client_evshut ?c = insert EV_READ (rc_client_evshut c)" "rc_client ?c = Some f'"
        using eof_client_other(1-3) [of CLIENT f c] f'(1) unfolding CLIENT by (simp_all only: be_of.simps evshut_of.simps other.simps)
      moreover have "wait_ok f' (insert EV_READ (rc_client_evshut c))"
        if "wait_ok f (rc_client_evshut c)" using that f' unfolding wait_ok_def disjoint_ev_def by simp
      ultimately show ?thesis using h f(1) CLIENT unfolding hand_ok_def by auto
    next
      case RELAY
      have "rc_client ?c = rc_client c" "rc_client_evshut ?c = rc_client_evshut c" "rc_relay_evshut ?c = insert EV_READ (rc_relay_evshut c)" "rc_relay ?c = Some f'"
        using eof_client_other(1-3) [of RELAY f c] f'(1) unfolding RELAY by (simp_all only: be_of.simps evshut_of.simps other.simps)
      moreover have "relay_ok (snd conf) (rc_state c) f' (insert EV_READ (rc_relay_evshut c))"
        if "relay_ok (snd conf) (rc_state c) f (rc_relay_evshut c)" using that f(2) unfolding relay_ok_def disjoint_ev_def f'(2-10) by auto
      ultimately show ?thesis using h f(1) RELAY unfolding hand_ok_def by auto
    qed
    then show ?thesis using False by (simp add: client_ok_def)
  qed
  moreover have "\<forall>sd. inp sd ?c = inp sd c \<and> outp sd ?c = outp sd c" unfolding all_sides [of _ d] using f f' t by (simp add: inp_def outp_def)
  ultimately show ?thesis by (simp add: eof_step_def)
qed


lemma eof_outcome:
  assumes inv: "glob_inv g" "rg_clients g p = Some c0" and ok: "client_ok conf c0" and f: "be_of d c0 = Some f" "EV_READ \<in> be_enabled f"
  shows "outcome p g (eof_step conf d (redsocks_touch_client env c0)) (redsocks_event_error env p d True (put_client p (set_be d (bufferevent_disable {EV_READ} f) c0) g))"
proof -
  let ?c = "redsocks_touch_client env c0" and ?f = "bufferevent_disable {EV_READ} f"
  let ?g1 = "put_client p (set_be d ?f ?c) g"
  have ok1: "client_ok conf ?c" and f1: "be_of d ?c = Some f" using ok f by simp_all
  have touch: "redsocks_touch_client env (set_be d ?f c0) = set_be d ?f ?c" by (cases d) (simp_all add: redsocks_touch_client_def)
  have inv1: "glob_inv ?g1" using inv by (intro glob_inv_put [of g p c0]) simp_all
  obtain t where t: "be_of (other d) c0 = Some t" using ok by (cases d) (auto simp: client_ok_def pump_ok_def hand_ok_def split: if_splits)
  let ?e = "eof_client d f ?c"
  let ?g2 = "put_client p ?e g"
  have nb: "\<not> shut_both ?e" by (rule eof_not_both [OF ok1 f1 f(2)])
  have s1: "redsocks_shutdown env p d {EV_READ} ?g1 = Some ?g2"
    using nb unfolding redsocks_shutdown_def eof_client_def shut_client_def Let_def by simp
  have inv2: "glob_inv ?g2" using inv by (intro glob_inv_put [of g p c0]) simp_all
  have r: "redsocks_event_error env p d True (put_client p (set_be d ?f c0) g) =
     (if rc_state c0 = pump_active \<and> be_output t = [] then redsocks_shutdown env p (other d) {EV_WRITE} ?g2 else Some ?g2)"
    using s1 t f by (simp add: redsocks_event_error_def touch)
  show ?thesis
  proof (cases "rc_state c0 = pump_active \<and> be_output t = []")
    case True
    have "outcome p ?g2 (\<lambda>c'. c' = shut_client (other d) {EV_WRITE} ?e t \<and> \<not> shut_both c') (redsocks_shutdown env p (other d) {EV_WRITE} ?g2)"
      using inv2 t by (intro shutdown_outcome) simp_all
    then have "outcome p ?g2 (eof_step conf d ?c) (redsocks_shutdown env p (other d) {EV_WRITE} ?g2)"
      by (rule outcome_mono) (use True t in \<open>auto intro!: eof_finished [OF ok1 f1 f(2)]\<close>)
    then show ?thesis unfolding r using True outcome_from_put by simp
  next
    case False
    then have "eof_step conf d ?c ?e" using t by (intro eof_kept [OF ok1 f1 f(2), of t]) auto
    then show ?thesis unfolding r if_not_P [OF False] using inv by (auto intro!: outcome_put)
  qed
qed

lemma error_outcome: "glob_inv g \<Longrightarrow> rg_clients g p = Some c \<Longrightarrow> be_of d c \<noteq> None \<Longrightarrow> outcome p g R (redsocks_event_error env p d False g)"
  using outcome_from_put [OF outcome_drop [OF glob_inv_put, of g p c "redsocks_touch_client env c" p "redsocks_touch_client env c" R env]]
  by (auto simp: redsocks_event_error_def)

end
