(* ===== verification/RedsocksNego.thy ===== *)
theory RedsocksNego
  imports RedsocksInv
begin

text \<open>
  The negotiation with the proxy keeps the state in order: the outcomes of the handlers of SOCKS4,
  SOCKS5 and HTTP CONNECT. The pump starts only where the proxy has accepted, or to forward its
  refusal.
\<close>

section \<open>The negotiation\<close>

definition conf_at :: "redsocks \<Rightarrow> nat \<Rightarrow> redsocks_config \<times> relay_subsys" where
  "conf_at g i = (ri_config (rg_instances g ! i), ri_relay_ss (rg_instances g ! i))"

lemma conf_at_same: "same_conf g g' \<Longrightarrow> i < length (rg_instances g) \<Longrightarrow> conf_at g' i = conf_at g i"
  unfolding same_conf_def conf_at_def using same_conf_length [of g g'] nth_map [of i "rg_instances g"] nth_map [of i "rg_instances g'"]
  by (metis (no_types, lifting) map_eq_imp_length_eq)

lemma conf_at_put [simp]: "conf_at (put_client p c g) = conf_at g"
  by (rule ext) (simp add: conf_at_def)

lemma outcome_from: "outcome p g' R r \<Longrightarrow> rg_clients g' = rg_clients g \<Longrightarrow> same_conf g g' \<Longrightarrow> quiet g g' \<Longrightarrow> outcome p g R r"
  unfolding outcome_def using same_conf_trans quiet_trans by metis

text \<open>
  The replies of a proxy, as bytes. A text of complete lines, each ended by a line feed with or without a
  carriage return; a C string ends at its first zero byte.
\<close>

fun http_lines :: "bytes list \<Rightarrow> bytes \<Rightarrow> bool" where
  "http_lines [] bs \<longleftrightarrow> bs = []"
| "http_lines (l # ls) bs \<longleftrightarrow> (\<exists>eol more. (eol = [10] \<or> eol = [13, 10]) \<and> 10 \<notin> set l \<and> bs = l @ eol @ more \<and> http_lines ls more)"

definition cstr :: "bytes \<Rightarrow> bytes" where
  "cstr l = takeWhile (\<lambda>c. c \<noteq> 0) l"

definition status_2xx :: "bytes \<Rightarrow> bool" where
  "status_2xx l \<longleftrightarrow> (case scan_status (cstr l) of Some code \<Rightarrow> 200 \<le> code \<and> code \<le> 299 | None \<Rightarrow> False)"

text \<open>
  Lines of an earlier reply 407 on the same connection: redsocks opens a new one to answer the challenge,
  unless the old one cannot be disabled.
\<close>

definition unanswered_407 :: "bytes list \<Rightarrow> bool" where
  "unanswered_407 ls \<longleftrightarrow> ls = [] \<or> scan_status (cstr (hd ls)) = Some 407"

text \<open>
  The proxy has accepted: SOCKS4, a whole reply with code 90; SOCKS5, the method without authentication or a
  successful one with a password, then a reply with status 0 and its whole address (IPv4, IPv6 or a name);
  HTTP, a status line with a code from 200 to 299 and the header lines up to the empty one.
\<close>

definition socks5_greeted :: "bytes \<Rightarrow> bool" where
  "socks5_greeted bs \<longleftrightarrow> bs = [5, 0] \<or> bs = [5, 2, 1, 0]"

definition proxy_accepted :: "relay_subsys \<Rightarrow> bytes \<Rightarrow> bool" where
  "proxy_accepted ss bs \<longleftrightarrow> (case ss of
     socks4_subsys \<Rightarrow> 8 \<le> length bs \<and> take 2 bs = [0, 90]
   | socks5_subsys \<Rightarrow> (\<exists>greeting rsv addr rest. socks5_greeted greeting \<and>
       (bs = greeting @ [5, 0, rsv, 1] @ addr @ rest \<and> length addr = 4 + 2 \<or>
        bs = greeting @ [5, 0, rsv, 4] @ addr @ rest \<and> length addr = 16 + 2 \<or>
        (\<exists>n. bs = greeting @ [5, 0, rsv, 3, n] @ addr @ rest \<and> length addr = unat n + 2)))
   | http_connect_subsys \<Rightarrow> (\<exists>old status headers blank tx rest. unanswered_407 old \<and> status_2xx status \<and> (\<forall>l \<in> set headers. cstr l \<noteq> []) \<and>
       cstr blank = [] \<and> http_lines (old @ status # headers @ [blank]) tx \<and> bs = tx @ rest))"

text \<open>What the proxy has said on the connection, and redsocks has consumed, when a client is in a state of the negotiation.\<close>

definition said :: "relay_subsys \<Rightarrow> int \<Rightarrow> nat \<Rightarrow> bytes \<Rightarrow> bool" where
  "said ss st to_skip past \<longleftrightarrow> (case ss of
     socks4_subsys \<Rightarrow> past = []
   | socks5_subsys \<Rightarrow>
       (if st \<le> socks5_method_sent then past = []
        else if st = socks5_auth_sent then past = [5, 2]
        else if st = socks5_request_sent then socks5_greeted past
        else \<exists>greeting rsv. socks5_greeted greeting \<and>
          (if st = socks5_skip_domain then past = greeting @ [5, 0, rsv, 3]
           else past = greeting @ [5, 0, rsv, 1] \<and> to_skip = 6 \<or> past = greeting @ [5, 0, rsv, 4] \<and> to_skip = 18 \<or>
             (\<exists>n. past = greeting @ [5, 0, rsv, 3, n] \<and> to_skip = unat n + 2)))
   | http_connect_subsys \<Rightarrow>
       (if st = httpc_new then past = []
        else if st = httpc_request_sent then \<exists>old. unanswered_407 old \<and> http_lines old past
        else \<exists>old status headers. unanswered_407 old \<and> status_2xx status \<and> (\<forall>l \<in> set headers. cstr l \<noteq> []) \<and> http_lines (old @ status # headers) past))"

text \<open>
  A handler consumes a part of the input that takes the client from what was said in its old state to
  what was said in its new one; or it has begun a new connection.
\<close>

definition heard :: "relay_subsys \<Rightarrow> redsocks_client \<Rightarrow> bytes \<Rightarrow> redsocks_client \<Rightarrow> bool" where
  "heard ss c input c' \<longleftrightarrow>
     (\<exists>eaten. input = eaten @ inp RELAY c' \<and> (\<forall>past. said ss (rc_state c) (rc_to_skip c) past \<longrightarrow> said ss (rc_state c') (rc_to_skip c') (past @ eaten))) \<or>
     rc_state c' = 0 \<and> inp RELAY c' = []"

definition accepted_by :: "relay_subsys \<Rightarrow> redsocks_client \<Rightarrow> bytes \<Rightarrow> bool" where
  "accepted_by ss c input \<longleftrightarrow> (\<forall>past. said ss (rc_state c) (rc_to_skip c) past \<longrightarrow> proxy_accepted ss (past @ input))"

lemma heardI:
  "input = eaten @ inp RELAY c' \<Longrightarrow> (\<And>past. said ss (rc_state c) (rc_to_skip c) past \<Longrightarrow> said ss (rc_state c') (rc_to_skip c') (past @ eaten)) \<Longrightarrow> heard ss c input c'"
  unfolding heard_def by blast

lemma heard_same: "inp RELAY c' = input \<Longrightarrow> rc_state c' = rc_state c \<Longrightarrow> rc_to_skip c' = rc_to_skip c \<Longrightarrow> heard ss c input c'"
  by (rule heardI [of _ "[]"]) simp_all

lemma http_lines_append: "http_lines as x \<Longrightarrow> http_lines bs y \<Longrightarrow> http_lines (as @ bs) (x @ y)"
  by (induction as arbitrary: x) force+

lemma readline_text:
  assumes "redsocks_evbuffer_readline buf = Some (line, rest)"
  shows "\<exists>raw tx. line = cstr raw \<and> http_lines [raw] tx \<and> buf = tx @ rest"
proof -
  let ?l = "takeWhile (\<lambda>c. c \<noteq> 10) buf" and ?r = "dropWhile (\<lambda>c. c \<noteq> 10) buf"
  have r: "?r \<noteq> []" "rest = tl ?r" "line = cstr (if ?l \<noteq> [] \<and> last ?l = 13 then butlast ?l else ?l)"
    using assms by (auto simp: redsocks_evbuffer_readline_def Let_def cstr_def split: if_splits)
  have "?r = 10 # rest" using r(1,2) hd_dropWhile [of "\<lambda>c. c \<noteq> 10" buf] by (cases ?r) auto
  then have buf: "buf = ?l @ 10 # rest" using takeWhile_dropWhile_id [of "\<lambda>c. c \<noteq> 10" buf] by simp
  have n: "10 \<notin> set ?l" using set_takeWhileD [of 10 "\<lambda>c. c \<noteq> 10" buf] by auto
  show ?thesis
  proof (cases "?l \<noteq> [] \<and> last ?l = 13")
    case True
    have "10 \<notin> set (butlast ?l)" using n in_set_butlastD by fast
    moreover have "buf = (butlast ?l @ [13, 10]) @ rest" using buf True append_butlast_last_id [of ?l] by (metis append.assoc append_Cons append_Nil)
    ultimately show ?thesis using r(3) True by (intro exI [of _ "butlast ?l"] exI [of _ "butlast ?l @ [13, 10]"]) auto
  next
    case False
    then show ?thesis using r(3) n buf by (intro exI [of _ ?l] exI [of _ "?l @ [10]"]) auto
  qed
qed

lemma skip_headers_text:
  "skip_headers input = (rest, found) \<Longrightarrow> \<exists>headers tx. (\<forall>l \<in> set headers. cstr l \<noteq> []) \<and> input = tx @ rest \<and>
     (if found then \<exists>blank. cstr blank = [] \<and> http_lines (headers @ [blank]) tx else http_lines headers tx)"
proof (induction input rule: skip_headers.induct)
  case (1 input)
  show ?case
  proof (cases "redsocks_evbuffer_readline input")
    case None
    then have "rest = input" "\<not> found" using "1.prems" by (simp_all add: skip_headers.simps [of input])
    then show ?thesis by (intro exI [of _ "[]"]) simp
  next
    case (Some lr)
    obtain line more where lr: "lr = (line, more)" by fastforce
    obtain raw tx where raw: "line = cstr raw" "http_lines [raw] tx" "input = tx @ more" using readline_text Some lr by blast
    show ?thesis
    proof (cases "line = []")
      case True
      then have "rest = more" "found" using "1.prems" Some lr by (simp_all add: skip_headers.simps [of input])
      moreover have "\<exists>blank. cstr blank = [] \<and> http_lines ([] @ [blank]) tx" using raw True by (intro exI [of _ raw]) (simp del: http_lines.simps)
      ultimately show ?thesis using raw(3) by (intro exI [of _ "[]"] exI [of _ tx]) (simp del: http_lines.simps)
    next
      case False
      then have "skip_headers more = (rest, found)" using "1.prems" Some lr by (simp add: skip_headers.simps [of input])
      from "1.IH" [OF Some lr [symmetric] False this] obtain headers tx' where h: "\<forall>l \<in> set headers. cstr l \<noteq> []" "more = tx' @ rest"
        "if found then \<exists>blank. cstr blank = [] \<and> http_lines (headers @ [blank]) tx' else http_lines headers tx'" by blast
      have "if found then \<exists>blank. cstr blank = [] \<and> http_lines ((raw # headers) @ [blank]) (tx @ tx') else http_lines (raw # headers) (tx @ tx')"
        using h(3) http_lines_append [OF raw(2)] by (cases found) auto
      then show ?thesis using h(1,2) raw False by (intro exI [of _ "raw # headers"] exI [of _ "tx @ tx'"]) auto
    qed
  qed
qed

lemma auth_header_text: "http_auth_request_header input tee = (r, rest, tee') \<Longrightarrow> \<exists>ls tx. http_lines ls tx \<and> input = tx @ rest"
proof (induction input tee arbitrary: rule: http_auth_request_header.induct)
  case (1 input tee)
  show ?case
  proof (cases "redsocks_evbuffer_readline input")
    case None
    then have "rest = input" using "1.prems" by (simp add: http_auth_request_header.simps [of input])
    then show ?thesis by (intro exI [of _ "[]"]) simp
  next
    case (Some lr)
    obtain line more where lr: "lr = (line, more)" by fastforce
    obtain raw tx where raw: "http_lines [raw] tx" "input = tx @ more" using readline_text Some lr by blast
    show ?thesis
    proof (cases "rest = more")
      case True
      then show ?thesis using raw by blast
    next
      case False
      then have n: "\<not> (line = [] \<or> 58 \<notin> set line)" "\<not> strncaseeq line auth_request_header (length auth_request_header)"
          and m: "http_auth_request_header more (tee @ line @ [13, 10]) = (r, rest, tee')"
        using "1.prems" Some lr by (auto simp: http_auth_request_header.simps [of input] Let_def split: if_splits)
      from "1.IH" [OF Some lr [symmetric] refl n m] obtain ls tx' where "http_lines ls tx'" "more = tx' @ rest" by blast
      then show ?thesis using raw http_lines_append [OF raw(1)] by (intro exI [of _ "raw # ls"] exI [of _ "tx @ tx'"]) simp
    qed
  qed
qed

lemma first_line_text:
  assumes "httpc_first_line config auth input = (verdict, rest)"
  shows "verdict = HV_more \<Longrightarrow> rest = input"
    "verdict = HV_accept \<Longrightarrow> \<exists>status tx. status_2xx status \<and> http_lines [status] tx \<and> input = tx @ rest"
    "verdict = HV_auth q \<Longrightarrow> \<exists>status ls tx. scan_status (cstr status) = Some 407 \<and> http_lines (status # ls) tx \<and> input = tx @ rest"
proof -
  show "verdict = HV_more \<Longrightarrow> rest = input"
    using assms by (auto simp: httpc_first_line_def Let_def split: option.splits if_splits prod.splits)
  have line: "\<exists>line more. redsocks_evbuffer_readline input = Some (line, more)" if "verdict = HV_accept \<or> verdict = HV_auth q"
    using assms that by (auto simp: httpc_first_line_def split: option.splits if_splits)
  show "\<exists>status tx. status_2xx status \<and> http_lines [status] tx \<and> input = tx @ rest" if v: "verdict = HV_accept"
  proof -
    obtain line more where l: "redsocks_evbuffer_readline input = Some (line, more)" using line v by blast
    obtain raw tx where raw: "line = cstr raw" "http_lines [raw] tx" "input = tx @ more" using readline_text [OF l] by blast
    have "\<exists>code. scan_status line = Some code \<and> 200 \<le> code \<and> code \<le> 299 \<and> more = rest"
      using assms l v by (auto simp: httpc_first_line_def Let_def split: option.splits if_splits prod.splits)
    then show ?thesis using raw by (intro exI [of _ raw] exI [of _ tx]) (auto simp: status_2xx_def simp del: http_lines.simps)
  qed
  show "\<exists>status ls tx. scan_status (cstr status) = Some 407 \<and> http_lines (status # ls) tx \<and> input = tx @ rest" if v: "verdict = HV_auth q"
  proof -
    obtain line more where l: "redsocks_evbuffer_readline input = Some (line, more)" using line v by blast
    obtain raw tx where raw: "line = cstr raw" "http_lines [raw] tx" "input = tx @ more" using readline_text [OF l] by blast
    have "scan_status line = Some 407 \<and> (\<exists>r tee. http_auth_request_header more [] = (r, rest, tee))"
      using assms l v by (auto simp: httpc_first_line_def Let_def split: option.splits if_splits prod.splits)
    moreover from this obtain ls tx' where "http_lines ls tx'" "more = tx' @ rest" using auth_header_text by blast
    ultimately show ?thesis using raw http_lines_append [OF raw(2)] by (intro exI [of _ raw] exI [of _ ls] exI [of _ "tx @ tx'"]) auto
  qed
qed

definition pump_started :: "redsocks_client \<Rightarrow> redsocks_client \<Rightarrow> bool" where
  "pump_started c c' \<longleftrightarrow> pump_ok c' \<and> inp CLIENT c' = inp CLIENT c \<and> outp CLIENT c' = [] \<and> outp RELAY c' = outp RELAY c \<and>
     EV_WRITE \<notin> rc_client_evshut c' \<and> EV_WRITE \<notin> rc_relay_evshut c'"

definition pump_refused :: "redsocks_client \<Rightarrow> bool" where
  "pump_refused c' \<longleftrightarrow> pump_ok c' \<and> inp CLIENT c' = [] \<and> EV_WRITE \<notin> rc_client_evshut c' \<and> EV_READ \<in> rc_client_evshut c' \<and> EV_WRITE \<in> rc_relay_evshut c'"

definition hand_step :: "redsocks_config \<times> relay_subsys \<Rightarrow> redsocks_client \<Rightarrow> redsocks_client \<Rightarrow> bool" where
  "hand_step conf c c' \<longleftrightarrow> rc_instance c' = rc_instance c \<and>
     (hand_ok conf c' \<and> rc_client c' = rc_client c \<and> rc_client_evshut c' = rc_client_evshut c \<and> heard (snd conf) c (inp RELAY c) c' \<or>
      pump_started c c' \<and> accepted_by (snd conf) c (inp RELAY c) \<or>
      pump_refused c' \<and> cf_on_proxy_fail (fst conf) = ONFAIL_FORWARD_HTTP_ERR)"

lemma start_relay_outcome:
  assumes inv: "glob_inv g" "rg_clients g p = Some c" and be: "rc_client c = Some cl" "rc_relay c = Some rl"
    and R: "\<And>c'. redsocks_start_bufferpump (c\<lparr>rc_state := pump_active\<rparr>) = Some c' \<Longrightarrow> R c'"
  shows "outcome p g R (redsocks_start_relay env p g)"
proof -
  obtain c' where c': "redsocks_start_bufferpump (c\<lparr>rc_state := pump_active\<rparr>) = Some c'" "rc_instance c' = rc_instance c"
    using be by (auto simp: redsocks_start_bufferpump_def)
  have inv1: "glob_inv (put_client p c' g)" using inv c' by (intro glob_inv_put [of g p c]) simp_all
  show ?thesis using inv c' R [OF c'(1)] outcome_from_put [OF outcome_drop [OF inv1, of p c']]
    by (auto simp: redsocks_start_relay_def Let_def intro!: outcome_put)
qed

lemma write_helper_outcome:
  assumes inv: "glob_inv g" "rg_clients g p = Some c" and be: "rc_relay c = Some be"
    and R: "\<And>out. message = None \<and> out = [] \<or> message = Some (Some out) \<Longrightarrow>
      R (c\<lparr>rc_state := st, rc_relay := Some (bufferevent_enable {EV_READ} ((bufferevent_write_buffer out be)\<lparr>be_wm_read := (lo, hi)\<rparr>))\<rparr>)"
  shows "outcome p g R (redsocks_write_helper_ex env p message st lo hi g)"
  using inv be R outcome_drop [OF inv]
  by (auto simp: redsocks_write_helper_ex_def Let_def split: option.splits intro!: outcome_put)

lemma read_expected_outcome:
  assumes inv: "glob_inv g" "rg_clients g p = Some c" and be: "rc_relay c = Some be"
    and k: "comparator (length (be_input be)) n \<Longrightarrow>
      outcome p g R (k (take n (be_input be)) (put_client p (c\<lparr>rc_relay := Some (be\<lparr>be_input := drop n (be_input be)\<rparr>)\<rparr>) g))"
  shows "outcome p g R (redsocks_read_expected env p comparator n g \<bind> (\<lambda>(reply, g2). case reply of None \<Rightarrow> Some g2 | Some reply \<Rightarrow> k reply g2))"
proof (cases "comparator (length (be_input be)) n")
  case False
  have "outcome p g R (redsocks_drop_client env p g)" by (rule outcome_drop [OF inv])
  moreover from this obtain g1 where "redsocks_drop_client env p g = Some g1" by (auto simp: outcome_def)
  ultimately show ?thesis using inv be False by (simp add: redsocks_read_expected_def)
qed (use inv be k in \<open>simp add: redsocks_read_expected_def\<close>)

text \<open>The pump starts with the buffers as the negotiation leaves them.\<close>

lemma pump_start_ok:
  assumes s: "redsocks_start_bufferpump (c\<lparr>rc_state := pump_active\<rparr>) = Some c'"
    and cl: "rc_client c = Some cl" "wait_ok cl (rc_client_evshut c)" and rl: "rc_relay c = Some rl" "relay_ok ss st rl {}" "rc_relay_evshut c = {}"
  shows "pump_started c c'" "rc_instance c' = rc_instance c"
proof -
  obtain cl' rl' where c': "c' = c\<lparr>rc_state := pump_active, rc_client := Some cl', rc_relay := Some rl'\<rparr>"
    "cl' = bufferevent_enable ({EV_READ, EV_WRITE} - rc_client_evshut c) (cl\<lparr>be_wm_read := (0, 4096), be_wm_write := (0, 4096), be_readcb := CB_relay_clientread, be_writecb := CB_relay_clientwrite\<rparr>)"
    "rl' = bufferevent_enable {EV_READ, EV_WRITE} (rl\<lparr>be_wm_read := (0, 4096), be_wm_write := (0, 4096), be_readcb := CB_relay_relayread, be_writecb := CB_relay_relaywrite\<rparr>)"
    using s cl rl(1,3) by (auto simp: redsocks_start_bufferpump_def)
  have w: "EV_WRITE \<notin> rc_client_evshut c" using cl(2) by (auto simp: wait_ok_def)
  have "flow_ok cl' (rc_client_evshut c) rl' {}" "flow_ok rl' {} cl' (rc_client_evshut c)"
    using cl(2) rl(2) w unfolding c'(2,3) by (auto simp: flow_ok_def flow_pre_def disjoint_ev_def wait_ok_def relay_ok_def)
  moreover have "\<not> shut_both c'" using w by (auto simp: shut_both_def c'(1))
  ultimately have "pump_ok c'" using rl(3) by (simp add: pump_ok_def c')
  moreover have "be_input cl' = be_input cl" "be_output cl' = []" "be_output rl' = be_output rl" using cl(2) by (simp_all add: c'(2,3) wait_ok_def)
  ultimately show "pump_started c c'" using cl rl w by (simp add: pump_started_def inp_def outp_def c'(1))
  show "rc_instance c' = rc_instance c" by (simp add: c'(1))
qed


text \<open>A client that talks to its proxy and may read.\<close>

definition talking :: "redsocks_config \<times> relay_subsys \<Rightarrow> redsocks_client \<Rightarrow> bufferevent \<Rightarrow> bufferevent \<Rightarrow> bool" where
  "talking conf c cl rl \<longleftrightarrow> hand_ok conf c \<and> rc_client c = Some cl \<and> rc_relay c = Some rl \<and> be_readcb rl = CB_ss_read \<and> EV_READ \<in> be_enabled rl"

lemma hand_touch [simp]:
  "hand_ok conf (redsocks_touch_client env c) = hand_ok conf c" "hand_step conf (redsocks_touch_client env c) = hand_step conf c"
  "rc_client (redsocks_touch_client env c) = rc_client c" "rc_relay (redsocks_touch_client env c) = rc_relay c"
  "rc_relay_evshut (redsocks_touch_client env c) = rc_relay_evshut c" "rc_client_evshut (redsocks_touch_client env c) = rc_client_evshut c"
  "rc_do_password (redsocks_touch_client env c) = rc_do_password c" "rc_to_skip (redsocks_touch_client env c) = rc_to_skip c"
  "talking conf (redsocks_touch_client env c) cl rl = talking conf c cl rl"
  "heard ss (redsocks_touch_client env c) = heard ss c" "inp RELAY (redsocks_touch_client env c) = inp RELAY c" "inp CLIENT (redsocks_touch_client env c) = inp CLIENT c"
  by (simp_all add: hand_ok_def fun_eq_iff hand_step_def pump_started_def inp_def outp_def redsocks_touch_client_def talking_def heard_def accepted_by_def)

lemma talking_facts:
  assumes "talking conf c cl rl"
  shows "rc_client c = Some cl" "rc_relay c = Some rl" "wait_ok cl (rc_client_evshut c)" "relay_ok (snd conf) (rc_state c) rl {}" "rc_relay_evshut c = {}"
    "ss_state_ok (snd conf) (rc_state c)" "inp RELAY c = be_input rl" "EV_READ \<in> be_enabled rl"
    "snd conf = socks5_subsys \<Longrightarrow> EV_WRITE \<in> be_enabled rl" "snd conf = socks5_subsys \<and> rc_do_password c \<Longrightarrow> cf_login (fst conf) \<noteq> None \<and> cf_password (fst conf) \<noteq> None"
    "0 \<le> rc_state c"
proof -
  have h: "rc_client c = Some cl" "rc_relay c = Some rl" "wait_ok cl (rc_client_evshut c)" "relay_ok (snd conf) (rc_state c) rl (rc_relay_evshut c)"
    "be_readcb rl = CB_ss_read" "EV_READ \<in> be_enabled rl" "0 \<le> rc_state c"
    "snd conf = socks5_subsys \<and> rc_do_password c \<longrightarrow> cf_login (fst conf) \<noteq> None \<and> cf_password (fst conf) \<noteq> None"
    using assms unfolding talking_def hand_ok_def by auto
  have r: "rc_relay_evshut c = {}" "ss_state_ok (snd conf) (rc_state c)" "snd conf = socks5_subsys \<longrightarrow> EV_WRITE \<in> be_enabled rl"
    using h(4-6) unfolding relay_ok_def disjoint_ev_def by auto
  show "rc_client c = Some cl" "rc_relay c = Some rl" "wait_ok cl (rc_client_evshut c)" "rc_relay_evshut c = {}" "EV_READ \<in> be_enabled rl" "0 \<le> rc_state c"
    "ss_state_ok (snd conf) (rc_state c)" using h r by simp_all
  show "relay_ok (snd conf) (rc_state c) rl {}" using h(4) r(1) by simp
  show "inp RELAY c = be_input rl" using h(2) by (simp add: inp_def)
  show "snd conf = socks5_subsys \<Longrightarrow> EV_WRITE \<in> be_enabled rl" using r(3) by simp
  show "snd conf = socks5_subsys \<and> rc_do_password c \<Longrightarrow> cf_login (fst conf) \<noteq> None \<and> cf_password (fst conf) \<noteq> None" using h(8) by blast
qed

text \<open>What reading and writing a message of the protocol leave of such a client.\<close>

lemma talking_consumed:
  assumes t: "talking conf c cl rl" and c1: "c1 = c \<or> c1 = c\<lparr>rc_to_skip := n\<rparr>"
  shows "talking conf (c1\<lparr>rc_relay := Some (rl\<lparr>be_input := x\<rparr>)\<rparr>) cl (rl\<lparr>be_input := x\<rparr>)"
proof -
  note f = talking_facts [OF t]
  have b: "be_readcb rl = CB_ss_read" using t by (simp add: talking_def)
  have "relay_ok (snd conf) (rc_state c) (rl\<lparr>be_input := x\<rparr>) {}" using f(4) b unfolding relay_ok_def by simp
  then show ?thesis using f b c1 unfolding talking_def hand_ok_def by auto
qed

lemma wrote_ok:
  assumes t: "talking conf c cl rl" and st: "ss_state_ok (snd conf) st" and w: "out = [] \<or> EV_WRITE \<in> be_enabled rl" and c1: "c1 = c \<or> c1 = c\<lparr>rc_to_skip := n\<rparr>"
  shows "hand_ok conf (c1\<lparr>rc_state := st, rc_relay := Some (bufferevent_enable {EV_READ} ((bufferevent_write_buffer out (rl\<lparr>be_input := x\<rparr>))\<lparr>be_wm_read := wm\<rparr>))\<rparr>)"
proof -
  let ?r = "bufferevent_enable {EV_READ} ((bufferevent_write_buffer out (rl\<lparr>be_input := x\<rparr>))\<lparr>be_wm_read := wm\<rparr>)"
  note f = talking_facts [OF t]
  have "0 \<le> st" using st by (auto simp: ss_state_ok_def split: relay_subsys.splits)
  moreover have "relay_ok (snd conf) st ?r {}" using f(4,8,9) t st w by (auto simp: relay_ok_def talking_def disjoint_ev_def)
  ultimately show ?thesis using f c1 by (auto simp: hand_ok_def)
qed

lemma started_step:
  assumes t: "talking conf c cl rl" and a: "accepted_by (snd conf) c (be_input rl)"
    and c1: "rc_client c1 = rc_client c" "rc_client_evshut c1 = rc_client_evshut c" "rc_relay_evshut c1 = {}" "rc_instance c1 = rc_instance c"
      "rc_relay c1 = Some (rl\<lparr>be_input := x\<rparr>)"
    and s: "redsocks_start_bufferpump (c1\<lparr>rc_state := pump_active\<rparr>) = Some c'"
  shows "hand_step conf c c'"
proof -
  note f = talking_facts [OF t]
  have "relay_ok (snd conf) (rc_state c) (rl\<lparr>be_input := x\<rparr>) {}" using f(4) t by (auto simp: relay_ok_def talking_def)
  then have p: "pump_started c1 c'" "rc_instance c' = rc_instance c1" using pump_start_ok [OF s, of cl] f(1,3) c1 by auto
  then have "pump_started c c'" using c1 f by (simp add: pump_started_def inp_def outp_def)
  then show ?thesis using p(2) c1(4) f(7) a by (simp add: hand_step_def)
qed

lemma take_two: "2 \<le> length xs \<Longrightarrow> take 2 xs = [xs ! 0, xs ! 1]"
  by (cases xs; cases "tl xs") auto

lemma take_four: "4 \<le> length xs \<Longrightarrow> take 4 xs = [xs ! 0, xs ! 1, xs ! 2, xs ! 3]"
  by (cases xs; cases "tl xs"; cases "tl (tl xs)"; cases "tl (tl (tl xs))") auto

lemma socks4_read_outcome:
  assumes inv: "glob_inv g" "rg_clients g p = Some c" and t: "talking conf c cl rl" "snd conf = socks4_subsys"
  shows "outcome p g (hand_step conf c) (socks4_read_cb env p g)"
proof -
  let ?c = "redsocks_touch_client env c"
  let ?g = "put_client p ?c g"
  note f = talking_facts [OF t(1)]
  have inv1: "glob_inv ?g" "rg_clients ?g p = Some ?c" using inv by (auto intro: glob_inv_put)
  have st: "rc_state c = socks4_request_sent" using f(6) t(2) by (simp add: ss_state_ok_def)
  let ?k = "\<lambda>reply g2. rg_clients g2 p \<bind> (\<lambda>c2. let g3 = put_client p (c2\<lparr>rc_state := socks4_reply_came\<rparr>) g2 in
            if reply ! 0 \<noteq> 0 then redsocks_drop_client env p g3 else if reply ! 1 = 90 then redsocks_start_relay env p g3 else redsocks_drop_client env p g3)"
  have "outcome p ?g (hand_step conf c) (redsocks_read_expected env p sizes_greater_equal 8 ?g \<bind>
      (\<lambda>(reply, g2). case reply of None \<Rightarrow> Some g2 | Some reply \<Rightarrow> ?k reply g2))"
  proof (rule read_expected_outcome [OF inv1, of rl])
    assume len: "sizes_greater_equal (length (be_input rl)) 8"
    let ?c1 = "?c\<lparr>rc_relay := Some (rl\<lparr>be_input := drop 8 (be_input rl)\<rparr>), rc_state := socks4_reply_came\<rparr>"
    let ?g3 = "put_client p ?c1 ?g"
    have inv3: "glob_inv ?g3" "rg_clients ?g3 p = Some ?c1" using inv by (auto intro!: glob_inv_put [OF inv])
    have "outcome p ?g3 (hand_step conf c) (redsocks_start_relay env p ?g3)" if "be_input rl ! 0 = 0" "be_input rl ! 1 = 90"
    proof (rule start_relay_outcome [OF inv3])
      fix c' assume "redsocks_start_bufferpump (?c1\<lparr>rc_state := pump_active\<rparr>) = Some c'"
      moreover have "accepted_by (snd conf) c (be_input rl)"
        using t(2) len that by (simp add: accepted_by_def said_def proxy_accepted_def sizes_greater_equal_def take_two)
      ultimately show "hand_step conf c c'" using f by (intro started_step [OF t(1), where ?c1.0 = ?c1]) simp_all
    qed (use f in simp_all)
    then have "outcome p ?g3 (hand_step conf c) (?k (take 8 (be_input rl)) (put_client p (?c\<lparr>rc_relay := Some (rl\<lparr>be_input := drop 8 (be_input rl)\<rparr>)\<rparr>) ?g))"
      using outcome_drop [OF inv3] len by (simp add: sizes_greater_equal_def Let_def)
    then show "outcome p ?g (hand_step conf c) (?k (take 8 (be_input rl)) (put_client p (?c\<lparr>rc_relay := Some (rl\<lparr>be_input := drop 8 (be_input rl)\<rparr>)\<rparr>) ?g))"
      by (rule outcome_from_put)
  qed (use f in simp)
  then show ?thesis using inv st by (simp add: socks4_read_cb_def outcome_from_put)
qed


lemma message_outcome:
  assumes inv: "glob_inv g" "rg_clients g p = Some (c1\<lparr>rc_relay := Some (rl\<lparr>be_input := x\<rparr>)\<rparr>)" and c1: "c1 = c \<or> c1 = c\<lparr>rc_to_skip := m\<rparr>"
    and t: "talking conf c cl rl" "snd conf = socks5_subsys" and st: "ss_state_ok socks5_subsys st"
    and x: "be_input rl = eaten @ x" and said: "\<And>past. said socks5_subsys (rc_state c) (rc_to_skip c) past \<Longrightarrow> said socks5_subsys st (rc_to_skip c1) (past @ eaten)"
  shows "outcome p g (hand_step conf c) (redsocks_write_helper env p message st n g)"
  unfolding redsocks_write_helper_def
proof (rule write_helper_outcome [OF inv])
  note f = talking_facts [OF t(1)]
  fix out
  let ?r = "bufferevent_enable {EV_READ} ((bufferevent_write_buffer out (rl\<lparr>be_input := x\<rparr>))\<lparr>be_wm_read := (n, n)\<rparr>)"
  let ?c = "c1\<lparr>rc_state := st, rc_relay := Some ?r\<rparr>"
  have "hand_ok conf ?c" using f(9) t st c1 by (intro wrote_ok [OF t(1)]) simp_all
  moreover have "heard (snd conf) c (inp RELAY c) ?c" using f(7) x said t(2) by (intro heardI [of _ eaten]) (simp_all add: inp_def)
  ultimately show "hand_step conf c (c1\<lparr>rc_relay := Some (rl\<lparr>be_input := x\<rparr>), rc_state := st, rc_relay := Some ?r\<rparr>)"
    using c1 by (auto simp: hand_step_def)
qed simp

text \<open>The outcome of a handler that consumes its input and goes on with \<open>k\<close>.\<close>

lemma consume_outcome:
  assumes inv: "glob_inv g" "rg_clients g p = Some c" and t: "talking conf c cl rl"
    and k: "\<And>g2. comparator (length (be_input rl)) n \<Longrightarrow> glob_inv g2 \<Longrightarrow> conf_at g2 (rc_instance c) = conf_at g (rc_instance c) \<Longrightarrow>
      rg_clients g2 p = Some (c\<lparr>rc_relay := Some (rl\<lparr>be_input := drop n (be_input rl)\<rparr>)\<rparr>) \<Longrightarrow> outcome p g2 R (k (take n (be_input rl)) g2)"
  shows "outcome p g R (redsocks_read_expected env p comparator n g \<bind> (\<lambda>(reply, g2). case reply of None \<Rightarrow> Some g2 | Some reply \<Rightarrow> k reply g2))"
proof (rule read_expected_outcome [OF inv, of rl])
  let ?g = "put_client p (c\<lparr>rc_relay := Some (rl\<lparr>be_input := drop n (be_input rl)\<rparr>)\<rparr>) g"
  assume "comparator (length (be_input rl)) n"
  then have "outcome p ?g R (k (take n (be_input rl)) ?g)" by (rule k) (use inv in \<open>auto intro!: glob_inv_put [OF inv]\<close>)
  then show "outcome p g R (k (take n (be_input rl)) ?g)" by (rule outcome_from_put)
qed (use talking_facts(2) [OF t] in simp)

lemma outcome_from_put2:
  "rg_clients g p = Some c0 \<Longrightarrow> glob_inv g \<Longrightarrow> rc_instance c1 = rc_instance c0 \<Longrightarrow>
     (glob_inv (put_client p c1 g) \<Longrightarrow> rg_clients (put_client p c1 g) p = Some c1 \<Longrightarrow> outcome p (put_client p c1 g) R r) \<Longrightarrow> outcome p g R r"
  using outcome_from_put [of p c1 g R r] glob_inv_put [of g p c0 c1] by auto

lemma socks5_auth_outcome:
  assumes inv: "glob_inv g" "rg_clients g p = Some c" and t: "talking (conf_at g (rc_instance c)) c cl rl" "snd (conf_at g (rc_instance c)) = socks5_subsys"
  shows "rc_state c = socks5_method_sent \<Longrightarrow> outcome p g (hand_step (conf_at g (rc_instance c)) c) (socks5_read_auth_methods env p g)"
    "rc_state c = socks5_auth_sent \<Longrightarrow> outcome p g (hand_step (conf_at g (rc_instance c)) c) (socks5_read_auth_reply env p g)"
proof -
  let ?conf = "conf_at g (rc_instance c)"
  note f = talking_facts [OF t(1)]
  have ok: "ss_state_ok socks5_subsys socks5_auth_sent" "ss_state_ok socks5_subsys socks5_request_sent" by (simp_all add: ss_state_ok_def)
  have wr: "outcome p g2 (hand_step ?conf c) (redsocks_write_helper env p message st n g2)"
    if "glob_inv g2" "rg_clients g2 p = Some (c\<lparr>rc_relay := Some (rl\<lparr>be_input := drop 2 (be_input rl)\<rparr>)\<rparr>)" "ss_state_ok socks5_subsys st"
      "\<And>past. said socks5_subsys (rc_state c) (rc_to_skip c) past \<Longrightarrow> said socks5_subsys st (rc_to_skip c) (past @ take 2 (be_input rl))" for g2 message st n
    by (rule message_outcome [OF that(1,2) _ t that(3) _ that(4)]) simp_all
  have i: "ri_config (instance_of (c\<lparr>rc_relay := r\<rparr>) g2) = fst ?conf" if "conf_at g2 (rc_instance c) = ?conf" for r g2
    using that by (simp add: instance_of_def conf_at_def)
  have two: "sizes_equal (length (be_input rl)) 2 \<Longrightarrow> take 2 (be_input rl) = [be_input rl ! 0, be_input rl ! 1]" by (rule take_two) (simp add: sizes_equal_def)
  show "outcome p g (hand_step ?conf c) (socks5_read_auth_methods env p g)" if st: "rc_state c = socks5_method_sent"
    unfolding socks5_read_auth_methods_def
    apply (rule consume_outcome [OF inv t(1)])
    subgoal premises g2 for g2
    proof -
      let ?in = "be_input rl"
      have "said socks5_subsys (rc_state c) (rc_to_skip c) past \<Longrightarrow> ?in ! 0 = 5 \<Longrightarrow> ?in ! 1 = 0 \<Longrightarrow> said socks5_subsys socks5_request_sent (rc_to_skip c) (past @ take 2 ?in)"
        "said socks5_subsys (rc_state c) (rc_to_skip c) past \<Longrightarrow> ?in ! 0 = 5 \<Longrightarrow> ?in ! 1 = 2 \<Longrightarrow> said socks5_subsys socks5_auth_sent (rc_to_skip c) (past @ take 2 ?in)" for past
        using two [OF g2(1)] st by (simp_all add: said_def socks5_greeted_def)
      then show ?thesis
        using wr [OF g2(2,4)] ok outcome_drop [OF g2(2,4)] f(10) t(2) by (auto simp: g2(4) i [OF g2(3)] socks5_is_known_auth_method_def)
    qed
    done
  show "outcome p g (hand_step ?conf c) (socks5_read_auth_reply env p g)" if st: "rc_state c = socks5_auth_sent"
    unfolding socks5_read_auth_reply_def
    apply (rule consume_outcome [OF inv t(1)])
    subgoal premises g2 for g2
    proof -
      let ?in = "be_input rl"
      have "said socks5_subsys (rc_state c) (rc_to_skip c) past \<Longrightarrow> ?in ! 0 = 1 \<Longrightarrow> ?in ! 1 = 0 \<Longrightarrow> said socks5_subsys socks5_request_sent (rc_to_skip c) (past @ take 2 ?in)" for past
        using two [OF g2(1)] st by (simp add: said_def socks5_greeted_def)
      then show ?thesis using wr [OF g2(2,4)] ok outcome_drop [OF g2(2,4)] by (simp add: g2(4))
    qed
    done
qed

lemma skip_outcome:
  assumes g: "glob_inv g" "rg_clients g p = Some (c\<lparr>rc_relay := Some (rl\<lparr>be_input := x\<rparr>)\<rparr>)" and t: "talking conf c cl rl" "snd conf = socks5_subsys"
    and x: "be_input rl = eaten @ x" and said: "\<And>past. said socks5_subsys (rc_state c) (rc_to_skip c) past \<Longrightarrow> said socks5_subsys socks5_skip_address m (past @ eaten)"
  shows "outcome p g (hand_step conf c)
     (redsocks_write_helper env p None socks5_skip_address n (put_client p (c\<lparr>rc_relay := Some (rl\<lparr>be_input := x\<rparr>), rc_to_skip := m\<rparr>) g))"
proof (rule outcome_from_put2 [OF g(2,1)])
  let ?c = "c\<lparr>rc_relay := Some (rl\<lparr>be_input := x\<rparr>), rc_to_skip := m\<rparr>"
  assume g1: "glob_inv (put_client p ?c g)" "rg_clients (put_client p ?c g) p = Some ?c"
  show "outcome p (put_client p ?c g) (hand_step conf c) (redsocks_write_helper env p None socks5_skip_address n (put_client p ?c g))"
    using g1 said by (intro message_outcome [where ?c1.0 = "c\<lparr>rc_to_skip := m\<rparr>" and x = x and m = m, OF _ _ _ t _ x]) (simp_all add: ss_state_ok_def)
qed simp

lemma socks5_reply_outcome:
  assumes inv: "glob_inv g" "rg_clients g p = Some c" and t: "talking conf c cl rl" "snd conf = socks5_subsys" and st: "rc_state c = socks5_request_sent"
  shows "outcome p g (hand_step conf c) (socks5_read_reply env p g)"
proof -
  have ok: "ss_state_ok socks5_subsys socks5_skip_domain" by (simp add: ss_state_ok_def)
  show ?thesis
    unfolding socks5_read_reply_def
    apply (rule consume_outcome [OF inv t(1)])
    subgoal premises g2 for g2
    proof -
      let ?in = "be_input rl"
      have four: "take 4 ?in = [?in ! 0, ?in ! 1, ?in ! 2, ?in ! 3]" using g2(1) by (simp add: sizes_greater_equal_def take_four)
      have eq: "?in = take 4 ?in @ drop 4 ?in" by simp
      have s: "said socks5_subsys (rc_state c) (rc_to_skip c) past \<Longrightarrow> ?in ! 0 = 5 \<Longrightarrow> ?in ! 1 = 0 \<Longrightarrow>
          (?in ! 3 = 1 \<longrightarrow> said socks5_subsys socks5_skip_address 6 (past @ take 4 ?in)) \<and> (?in ! 3 = 4 \<longrightarrow> said socks5_subsys socks5_skip_address 18 (past @ take 4 ?in)) \<and>
          (?in ! 3 = 3 \<longrightarrow> said socks5_subsys socks5_skip_domain k (past @ take 4 ?in))" for past k
        unfolding four using st by (auto simp: said_def)
      show ?thesis
        using skip_outcome [OF g2(2,4) t eq] message_outcome [OF g2(2,4) _ t ok eq, of undefined] outcome_drop [OF g2(2,4)] s by (simp add: g2(4) four)
    qed
    done
qed

lemma skipped_accepted:
  assumes st: "rc_state c = socks5_skip_address" and n: "rc_to_skip c \<le> length input"
  shows "accepted_by socks5_subsys c input"
proof -
  have i: "input = take (rc_to_skip c) input @ drop (rc_to_skip c) input" "length (take (rc_to_skip c) input) = rc_to_skip c" using n by simp_all
  have "proxy_accepted socks5_subsys (past @ input)" if s: "said socks5_subsys (rc_state c) (rc_to_skip c) past" for past
  proof -
    obtain greeting rsv where g: "socks5_greeted greeting" "past = greeting @ [5, 0, rsv, 1] \<and> rc_to_skip c = 6 \<or> past = greeting @ [5, 0, rsv, 4] \<and> rc_to_skip c = 18 \<or>
        (\<exists>n. past = greeting @ [5, 0, rsv, 3, n] \<and> rc_to_skip c = unat n + 2)" using s st by (auto simp: said_def)
    have p: "bs = pre @ take (rc_to_skip c) input @ drop (rc_to_skip c) input" if "bs = pre @ input" for bs pre using that i(1) by simp
    show ?thesis unfolding proxy_accepted_def
      by (simp only: relay_subsys.case, rule exI [of _ greeting], rule exI [of _ rsv], rule exI [of _ "take (rc_to_skip c) input"], rule exI [of _ "drop (rc_to_skip c) input"])
        (use g i(2) in auto)
  qed
  then show ?thesis by (simp add: accepted_by_def)
qed

lemma socks5_skip_outcome:
  assumes inv: "glob_inv g" "rg_clients g p = Some c" and t: "talking conf c cl rl" "snd conf = socks5_subsys" and st: "rc_state c = socks5_skip_address"
  shows "outcome p g (hand_step conf c) (redsocks_read_expected env p sizes_greater_equal (rc_to_skip c) g \<bind>
      (\<lambda>(data, g2). case data of None \<Rightarrow> Some g2 | Some _ \<Rightarrow> redsocks_start_relay env p g2))"
proof (rule consume_outcome [OF inv t(1)])
  let ?c = "c\<lparr>rc_relay := Some (rl\<lparr>be_input := drop (rc_to_skip c) (be_input rl)\<rparr>)\<rparr>"
  fix g2 assume g2: "sizes_greater_equal (length (be_input rl)) (rc_to_skip c)" "glob_inv g2" "rg_clients g2 p = Some ?c"
  note f = talking_facts [OF t(1)]
  show "outcome p g2 (hand_step conf c) (redsocks_start_relay env p g2)"
  proof (rule start_relay_outcome [OF g2(2,3)])
    fix c' assume "redsocks_start_bufferpump (?c\<lparr>rc_state := pump_active\<rparr>) = Some c'"
    moreover have "accepted_by (snd conf) c (be_input rl)" using skipped_accepted [OF st] g2(1) t(2) by (simp add: sizes_greater_equal_def)
    ultimately show "hand_step conf c c'" using f by (intro started_step [OF t(1), where ?c1.0 = ?c]) simp_all
  qed (use f in simp_all)
qed

lemma socks5_read_outcome:
  assumes inv: "glob_inv g" "rg_clients g p = Some c" and t: "talking (conf_at g (rc_instance c)) c cl rl" "snd (conf_at g (rc_instance c)) = socks5_subsys"
  shows "outcome p g (hand_step (conf_at g (rc_instance c)) c) (socks5_read_cb env p g)"
proof -
  let ?c = "redsocks_touch_client env c" and ?conf = "conf_at g (rc_instance c)"
  let ?g = "put_client p ?c g"
  have inv1: "glob_inv ?g" "rg_clients ?g p = Some ?c" using inv by (auto intro: glob_inv_put)
  have t1: "talking ?conf ?c cl rl" using t(1) by simp
  have st: "rc_state c \<in> {1, 2, 3, 4, 5}" using talking_facts(6) [OF t(1)] t(2) by (auto simp: ss_state_ok_def)
  have domain: "rc_state c = socks5_skip_domain \<Longrightarrow> outcome p ?g (hand_step ?conf ?c) (redsocks_read_expected env p sizes_greater_equal 1 ?g \<bind> (\<lambda>(dsize, g2). case dsize of None \<Rightarrow> Some g2
        | Some dsize \<Rightarrow> rg_clients g2 p \<bind> (\<lambda>c2. let to_skip = unat (dsize ! 0) + 2 in
            redsocks_write_helper env p None socks5_skip_address to_skip (put_client p (c2\<lparr>rc_to_skip := to_skip\<rparr>) g2))))"
    (is "_ \<Longrightarrow> ?domain")
  proof -
    assume st4: "rc_state c = socks5_skip_domain"
    show ?domain
    apply (rule consume_outcome [OF inv1 t1])
    subgoal premises g2 for g2
    proof -
      let ?in = "be_input rl"
      have one: "take 1 ?in = [?in ! 0]" "take (Suc 0) ?in = [?in ! 0]" using g2(1) by (cases ?in; simp add: sizes_greater_equal_def)+
      have eq: "?in = take 1 ?in @ drop 1 ?in" by (rule append_take_drop_id [symmetric])
      have "said socks5_subsys (rc_state ?c) (rc_to_skip ?c) past \<Longrightarrow> said socks5_subsys socks5_skip_address (unat (?in ! 0) + 2) (past @ take 1 ?in)" for past
        unfolding one using st4 by (auto simp: said_def)
      then show ?thesis using skip_outcome [OF g2(2,4) t1 t(2) eq] by (simp add: g2(4) one)
    qed
    done
  qed
  have "outcome p ?g (hand_step ?conf ?c) (socks5_read_cb env p g)"
    using st domain socks5_auth_outcome [OF inv1] socks5_reply_outcome [OF inv1 t1 t(2)] socks5_skip_outcome [OF inv1 t1 t(2)] t1 t(2)
    by (auto simp: socks5_read_cb_def inv)
  from outcome_from_put [OF this] show ?thesis by simp
qed


section \<open>Negotiation over HTTP\<close>

lemma glob_inv_auth:
  assumes inv: "glob_inv g" and i: "i < length (rg_instances g)" and ok: "\<And>s. auth_ok s \<Longrightarrow> s = rg_instances g ! i \<Longrightarrow> auth_ok (s\<lparr>ri_auth := f (ri_auth s)\<rparr>)"
  shows "glob_inv (update_instance i (\<lambda>s. s\<lparr>ri_auth := f (ri_auth s)\<rparr>) g)" "same_conf g (update_instance i (\<lambda>s. s\<lparr>ri_auth := f (ri_auth s)\<rparr>) g)"
    "quiet g (update_instance i (\<lambda>s. s\<lparr>ri_auth := f (ri_auth s)\<rparr>) g)"
proof -
  let ?g = "update_instance i (\<lambda>s. s\<lparr>ri_auth := f (ri_auth s)\<rparr>) g"
  have inst: "rg_instances ?g ! j = (if j = i then (rg_instances g ! j)\<lparr>ri_auth := f (ri_auth (rg_instances g ! j))\<rparr> else rg_instances g ! j)"
    if "j < length (rg_instances g)" for j using that i by (simp add: update_instance_def)
  have len: "length (rg_instances ?g) = length (rg_instances g)" by simp
  have cl: "ri_clients (rg_instances ?g ! j) = ri_clients (rg_instances g ! j)" "ri_listening (rg_instances ?g ! j) = ri_listening (rg_instances g ! j)"
    if "j < length (rg_instances g)" for j using inst [OF that] by simp_all
  have l: "listed ?g j q = listed g j q" for j q using cl len by (auto simp: listed_def)
  have "map (length \<circ> ri_clients) (rg_instances ?g) = map (length \<circ> ri_clients) (rg_instances g)" using cl len by (intro nth_equalityI) simp_all
  then have tot: "conn_total ?g = conn_total g" by (simp add: conn_total_def)
  have "auth_ok x" if x: "x \<in> set (rg_instances ?g)" for x
  proof -
    obtain j where j: "j < length (rg_instances g)" "x = rg_instances ?g ! j" using x len by (auto simp: in_set_conv_nth)
    then have "auth_ok (rg_instances g ! j)" using inv by (simp add: glob_inv_def acct_inv_def)
    then show ?thesis using ok [of "rg_instances g ! j"] j inst [OF j(1)] by (cases "j = i") simp_all
  qed
  moreover have "rg_conn g < rg_conn_max g" if x: "x \<in> set (rg_instances ?g)" "ri_listening x" for x
  proof -
    obtain j where j: "j < length (rg_instances g)" "x = rg_instances ?g ! j" using x len by (auto simp: in_set_conv_nth)
    then show ?thesis using inv x(2) cl(2) [OF j(1)] nth_mem [OF j(1)] unfolding glob_inv_def acct_inv_def by metis
  qed
  ultimately show "glob_inv ?g" using inv l tot cl(1) unfolding glob_inv_def acct_inv_def by simp
  show "same_conf g ?g" by (rule same_conf_update) simp
  show "quiet g ?g" by (rule quiet_update) simp
qed

lemma refused_outcome:
  assumes inv: "glob_inv g" "rg_clients g p = Some c" and t: "talking (conf_at g (rc_instance c)) c cl rl"
    and c0: "rc_instance c = rc_instance c0"
  shows "outcome p g (hand_step (conf_at g (rc_instance c)) c0) (httpc_refused env p shown g)"
proof -
  let ?conf = "conf_at g (rc_instance c)"
  note f = talking_facts [OF t]
  have i: "ri_config (instance_of c g) = fst ?conf" by (simp add: instance_of_def conf_at_def)
  let ?d = "c\<lparr>rc_state := httpc_no_way\<rparr>"
  have drop: "outcome p g R (redsocks_drop_client env p (put_client p ?d g))" for R
    using outcome_from_put [OF outcome_drop [OF glob_inv_put [OF inv, of ?d], of p ?d]] by simp
  show ?thesis
  proof (cases "cf_on_proxy_fail (fst ?conf) = ONFAIL_FORWARD_HTTP_ERR \<and> (shown = [] \<or> en_write_ok env)")
    case True
    let ?cl = "bufferevent_disable {EV_READ} ((bufferevent_write_buffer shown cl)\<lparr>be_sock_shut := be_sock_shut cl \<union> {EV_READ}\<rparr>)\<lparr>be_input := []\<rparr>"
    let ?rl = "bufferevent_disable {EV_WRITE} (rl\<lparr>be_sock_shut := be_sock_shut rl \<union> {EV_WRITE}\<rparr>)"
    let ?c = "c\<lparr>rc_client_evshut := insert EV_READ (rc_client_evshut c), rc_client := Some ?cl, rc_relay := Some ?rl, rc_relay_evshut := {EV_WRITE}\<rparr>"
    let ?g = "put_client p (?c\<lparr>rc_state := httpc_headers_skipped\<rparr>) g"
    have sc: "rc_client_evshut c \<subseteq> {EV_READ}" using f(3) by (simp add: wait_ok_def)
    have r: "httpc_refused env p shown g = redsocks_start_relay env p ?g"
      using True inv(2) f(1,2,5) sc by (auto simp: httpc_refused_def i redsocks_shutdown_def shut_both_def Let_def)
    have "outcome p ?g (hand_step ?conf c0) (redsocks_start_relay env p ?g)"
    proof (rule start_relay_outcome [where cl = ?cl and rl = ?rl])
      fix c' assume s: "redsocks_start_bufferpump (?c\<lparr>rc_state := httpc_headers_skipped, rc_state := pump_active\<rparr>) = Some c'"
      have sh: "{EV_READ, EV_WRITE} - {EV_WRITE} = {EV_READ}" "{EV_READ, EV_WRITE} - insert EV_READ (rc_client_evshut c) = {EV_WRITE}"
        "insert EV_READ (rc_client_evshut c) = {EV_READ}" using sc by auto
      obtain cl' rl' where c': "c' = ?c\<lparr>rc_state := pump_active, rc_client := Some cl', rc_relay := Some rl'\<rparr>"
        "cl' = bufferevent_enable {EV_WRITE} (?cl\<lparr>be_wm_read := (0, 4096), be_wm_write := (0, 4096), be_readcb := CB_relay_clientread, be_writecb := CB_relay_clientwrite\<rparr>)"
        "rl' = bufferevent_enable {EV_READ} (?rl\<lparr>be_wm_read := (0, 4096), be_wm_write := (0, 4096), be_readcb := CB_relay_relayread, be_writecb := CB_relay_relaywrite\<rparr>)"
        using s by (auto simp: redsocks_start_bufferpump_def sh(1,2))
      have "flow_ok cl' {EV_READ} rl' {EV_WRITE}" "flow_ok rl' {EV_WRITE} cl' {EV_READ}"
        using f(3) unfolding c'(2,3) by (auto simp: flow_ok_def flow_pre_def disjoint_ev_def wait_ok_def)
      then have "pump_ok c'" unfolding pump_ok_def by (simp add: c' sh(3) shut_both_def)
      then have "pump_refused c'" by (simp add: pump_refused_def c' sh(3) inp_def)
      then show "hand_step ?conf c0 c'" using True c0 by (simp add: hand_step_def c'(1))
    qed (use inv in \<open>auto intro!: glob_inv_put [OF inv]\<close>)
    then show ?thesis unfolding r by (rule outcome_from_put)
  qed (use drop inv i in \<open>auto simp: httpc_refused_def\<close>)
qed


lemma first_line_auth: "httpc_first_line config auth input = (HV_auth q, rest) \<Longrightarrow> cf_login config \<noteq> None \<and> cf_password config \<noteq> None"
  by (auto simp: httpc_first_line_def Let_def split: option.splits if_splits prod.splits)

lemma connect_relay_outcome:
  assumes inv: "glob_inv g" "rg_clients g p = Some c" and cl: "rc_client c = Some cl" "wait_ok cl (rc_client_evshut c)" and c: "rc_relay_evshut c = {}" "rc_state c = 0"
    and pw: "snd conf = socks5_subsys \<and> rc_do_password c \<longrightarrow> cf_login (fst conf) \<noteq> None \<and> cf_password (fst conf) \<noteq> None"
  shows "outcome p g (\<lambda>c'. hand_ok conf c' \<and> c' = c\<lparr>rc_relay := red_connect_relay env\<rparr>) (redsocks_connect_relay env p g)"
proof -
  let ?c = "c\<lparr>rc_relay := red_connect_relay env\<rparr>"
  have inv1: "glob_inv (put_client p ?c g)" using inv by (intro glob_inv_put [OF inv]) simp
  have "hand_ok conf ?c" if "red_connect_relay env \<noteq> None"
    using that cl c pw by (auto simp: hand_ok_def relay_ok_def red_connect_relay_def bufferevent_new_def split: if_splits)
  then show ?thesis using inv outcome_from_put [OF outcome_drop [OF inv1, of p ?c]]
    by (auto simp: redsocks_connect_relay_def Let_def intro!: outcome_put)
qed

lemma reconnect_outcome:
  assumes inv: "glob_inv g" "rg_clients g p = Some c" and t: "talking (conf_at g (rc_instance c)) c cl rl" "snd (conf_at g (rc_instance c)) = http_connect_subsys"
    and lp: "cf_login (fst (conf_at g (rc_instance c))) \<noteq> None \<and> cf_password (fst (conf_at g (rc_instance c))) \<noteq> None"
    and c0: "rc_instance c = rc_instance c0" "rc_client c = rc_client c0" "rc_client_evshut c = rc_client_evshut c0" "heard http_connect_subsys c0 (inp RELAY c0) c"
  shows "outcome p g (hand_step (conf_at g (rc_instance c)) c0) (httpc_reconnect env p query g)"
proof -
  let ?conf = "conf_at g (rc_instance c)"
  note f = talking_facts [OF t(1)]
  let ?g1 = "update_instance (rc_instance c) (\<lambda>i. i\<lparr>ri_auth := \<lparr>last_auth_query = Some query, last_auth_count = 0\<rparr>\<rparr>) g"
  let ?g2 = "redsocks_bufferevent_free env ?g1"
  let ?rl = "bufferevent_disable {EV_WRITE} rl"
  let ?c1 = "c\<lparr>rc_relay := Some ?rl\<rparr>"
  let ?c = "?c1\<lparr>rc_state := httpc_new\<rparr>"
  have i: "rc_instance c < length (rg_instances g)" using inv by (auto simp: glob_inv_def acct_inv_def listed_def)
  have g1: "glob_inv ?g1" "same_conf g ?g1" "quiet g ?g1"
    using glob_inv_auth [OF inv(1) i, of "\<lambda>_. \<lparr>last_auth_query = Some query, last_auth_count = 0\<rparr>"] lp by (simp_all add: auth_ok_def conf_at_def)
  show ?thesis
  proof (cases "en_disable_ok env")
    case False
    have "relay_ok (snd ?conf) (rc_state c) ?rl {}" using f(4) t by (auto simp: relay_ok_def disjoint_ev_def talking_def)
    then have "hand_ok ?conf ?c1" using t f by (auto simp: talking_def hand_ok_def)
    moreover have "heard http_connect_subsys c0 (inp RELAY c0) ?c1" using c0(4) f(7) by (simp add: heard_def inp_def)
    ultimately have "hand_step ?conf c0 ?c1" using c0 t(2) by (simp add: hand_step_def)
    then have "outcome p ?g1 (hand_step ?conf c0) (Some (put_client p ?c1 ?g1))" using inv by (intro outcome_put [OF g1(1)]) auto
    then have "outcome p ?g1 (hand_step ?conf c0) (httpc_reconnect env p query g)" using False inv f by (simp add: httpc_reconnect_def)
    then show ?thesis by (rule outcome_from) (use g1 in simp_all)
  next
    case True
    have low: "lowered ?g1 ?g2" by (rule lowered_close)
    have g2: "glob_inv ?g2" "rg_clients ?g2 = rg_clients g" "same_conf g ?g2" "quiet g ?g2"
      using quiet_trans [OF g1(3), of ?g2] lowered_inv [OF low g1(1)] lowered_facts(1,3) [OF low] same_conf_trans [OF g1(2)] by simp_all
    have "outcome p (put_client p ?c ?g2) (\<lambda>c'. hand_ok ?conf c' \<and> c' = ?c\<lparr>rc_relay := red_connect_relay env\<rparr>) (redsocks_connect_relay env p (put_client p ?c ?g2))"
      using g2 inv f t(2) by (intro connect_relay_outcome [where cl = cl]) (auto intro!: glob_inv_put)
    then have "outcome p ?g2 (\<lambda>c'. hand_ok ?conf c' \<and> c' = ?c\<lparr>rc_relay := red_connect_relay env\<rparr>) (httpc_reconnect env p query g)"
      using inv True f by (simp add: httpc_reconnect_def outcome_from_put)
    then have "outcome p g (\<lambda>c'. hand_ok ?conf c' \<and> c' = ?c\<lparr>rc_relay := red_connect_relay env\<rparr>) (httpc_reconnect env p query g)"
      by (rule outcome_from) (use g2 in simp_all)
    then show ?thesis by (rule outcome_mono) (use c0 in \<open>auto simp: hand_step_def heard_def inp_def red_connect_relay_def bufferevent_new_def\<close>)
  qed
qed

lemma said_http:
  "said http_connect_subsys httpc_request_sent n past \<longleftrightarrow> (\<exists>old. unanswered_407 old \<and> http_lines old past)"
  "said http_connect_subsys httpc_reply_came n past \<longleftrightarrow>
     (\<exists>old status headers. unanswered_407 old \<and> status_2xx status \<and> (\<forall>l \<in> set headers. cstr l \<noteq> []) \<and> http_lines (old @ status # headers) past)"
  by (simp_all add: said_def)

text \<open>After the status line of an accepting reply.\<close>

lemma said_headers:
  assumes "said http_connect_subsys httpc_reply_came n past" "\<forall>l \<in> set headers. cstr l \<noteq> []"
  shows "http_lines headers tx \<Longrightarrow> said http_connect_subsys httpc_reply_came n (past @ tx)"
    "cstr blank = [] \<Longrightarrow> http_lines (headers @ [blank]) tx \<Longrightarrow> proxy_accepted http_connect_subsys (past @ tx @ rest)"
proof -
  obtain old status hs where o1: "unanswered_407 old" "status_2xx status" "\<forall>l \<in> set hs. cstr l \<noteq> []" "http_lines (old @ status # hs) past"
    using assms(1) unfolding said_http by blast
  show "said http_connect_subsys httpc_reply_came n (past @ tx)" if "http_lines headers tx"
  proof -
    have "http_lines (old @ status # (hs @ headers)) (past @ tx)" using http_lines_append [OF o1(4) that] by simp
    moreover have "\<forall>l \<in> set (hs @ headers). cstr l \<noteq> []" using o1(3) assms(2) by auto
    ultimately show ?thesis using o1(1,2) unfolding said_http by blast
  qed
  show "proxy_accepted http_connect_subsys (past @ tx @ rest)" if b: "cstr blank = []" "http_lines (headers @ [blank]) tx"
  proof -
    have "http_lines (old @ status # (hs @ headers) @ [blank]) (past @ tx)" using http_lines_append [OF o1(4) b(2)] by simp
    moreover have "\<forall>l \<in> set (hs @ headers). cstr l \<noteq> []" using o1(3) assms(2) by auto
    moreover have "past @ tx @ rest = (past @ tx) @ rest" by simp
    ultimately show ?thesis using o1(1,2) b(1) unfolding proxy_accepted_def by (simp only: relay_subsys.case) blast
  qed
qed

lemma http_skip_outcome:
  assumes inv: "glob_inv g" "rg_clients g p = Some (c\<lparr>rc_relay := Some (rl\<lparr>be_input := x\<rparr>)\<rparr>)" and t: "talking conf c cl rl" "snd conf = http_connect_subsys"
    and x: "be_input rl = eaten @ x"
    and said: "\<And>past. said http_connect_subsys (rc_state c) (rc_to_skip c) past \<Longrightarrow> said http_connect_subsys httpc_reply_came (rc_to_skip c) (past @ eaten)"
  shows "outcome p g (hand_step conf c) (httpc_skip env p g)"
proof -
  note f = talking_facts [OF t(1)]
  obtain y found where s: "skip_headers x = (y, found)" by fastforce
  obtain headers tx where h: "\<forall>l \<in> set headers. cstr l \<noteq> []" "x = tx @ y"
    "if found then \<exists>blank. cstr blank = [] \<and> http_lines (headers @ [blank]) tx else http_lines headers tx" using skip_headers_text [OF s] by blast
  let ?c = "c\<lparr>rc_state := (if found then httpc_headers_skipped else httpc_reply_came), rc_relay := Some (rl\<lparr>be_input := y\<rparr>)\<rparr>"
  let ?g = "put_client p ?c g"
  have inv1: "glob_inv ?g" "rg_clients ?g p = Some ?c" using inv by (auto intro!: glob_inv_put [OF inv])
  have r: "httpc_skip env p g = (if found then redsocks_start_relay env p ?g else Some ?g)"
    using inv(2) by (simp add: httpc_skip_def s)
  show ?thesis
  proof (cases found)
    case True
    then obtain blank where b: "cstr blank = []" "http_lines (headers @ [blank]) tx" using h(3) by auto
    have "proxy_accepted http_connect_subsys (past @ be_input rl)" if "said http_connect_subsys (rc_state c) (rc_to_skip c) past" for past
      using said_headers(2) [OF said [OF that] h(1) b, of y] x h(2) by simp
    then have a: "accepted_by (snd conf) c (be_input rl)" using t(2) by (simp add: accepted_by_def)
    have "outcome p ?g (hand_step conf c) (redsocks_start_relay env p ?g)"
    proof (rule start_relay_outcome [OF inv1])
      fix c' assume "redsocks_start_bufferpump (?c\<lparr>rc_state := pump_active\<rparr>) = Some c'"
      then show "hand_step conf c c'" using f a True by (intro started_step [OF t(1), where ?c1.0 = ?c]) simp_all
    qed (use f in simp_all)
    then show ?thesis unfolding r using True outcome_from_put by simp
  next
    case False
    have "relay_ok (snd conf) httpc_reply_came (rl\<lparr>be_input := y\<rparr>) {}" using f(4) t unfolding relay_ok_def talking_def by (auto simp: ss_state_ok_def)
    moreover have "said http_connect_subsys httpc_reply_came (rc_to_skip c) (past @ eaten @ tx)" if "said http_connect_subsys (rc_state c) (rc_to_skip c) past" for past
      using said_headers(1) [OF said [OF that] h(1)] h(3) False by simp
    then have "heard (snd conf) c (inp RELAY c) ?c" using f(7) x h(2) t(2) False by (intro heardI [of _ "eaten @ tx"]) (simp_all add: inp_def)
    ultimately have "hand_step conf c ?c" using f t(2) False by (auto simp: hand_step_def hand_ok_def)
    then show ?thesis unfolding r using False inv by (auto intro!: outcome_put)
  qed
qed

text \<open>What the first line of a reply, or the challenge after it, adds to what was said.\<close>

lemma said_first_line:
  assumes s: "said http_connect_subsys httpc_request_sent n past"
  shows "status_2xx status \<Longrightarrow> http_lines [status] tx \<Longrightarrow> said http_connect_subsys httpc_reply_came m (past @ tx)"
    "scan_status (cstr status) = Some 407 \<Longrightarrow> http_lines (status # ls) tx \<Longrightarrow> said http_connect_subsys httpc_request_sent m (past @ tx)"
proof -
  obtain old where o1: "unanswered_407 old" "http_lines old past" using s unfolding said_http by blast
  show "said http_connect_subsys httpc_reply_came m (past @ tx)" if a: "status_2xx status" "http_lines [status] tx"
  proof -
    have "http_lines (old @ status # []) (past @ tx)" by (rule http_lines_append [OF o1(2) a(2)])
    moreover have "\<forall>l \<in> set []. cstr l \<noteq> []" by simp
    ultimately show ?thesis using o1(1) a(1) unfolding said_http by blast
  qed
  show "said http_connect_subsys httpc_request_sent m (past @ tx)" if a: "scan_status (cstr status) = Some 407" "http_lines (status # ls) tx"
  proof -
    have "http_lines (old @ status # ls) (past @ tx)" by (rule http_lines_append [OF o1(2) a(2)])
    moreover have "unanswered_407 (old @ status # ls)" using o1(1) a(1) by (cases old) (simp_all add: unanswered_407_def)
    ultimately show ?thesis unfolding said_http by blast
  qed
qed

lemma httpc_read_outcome:
  assumes inv: "glob_inv g" "rg_clients g p = Some c" and t: "talking (conf_at g (rc_instance c)) c cl rl" "snd (conf_at g (rc_instance c)) = http_connect_subsys"
  shows "outcome p g (hand_step (conf_at g (rc_instance c)) c) (httpc_read_cb env p g)"
proof -
  let ?c = "redsocks_touch_client env c" and ?conf = "conf_at g (rc_instance c)" and ?auth = "ri_auth (instance_of c g)"
  have t1: "talking ?conf ?c cl rl" using t(1) by simp
  note f = talking_facts [OF t(1)] and f1 = talking_facts [OF t1]
  have st: "rc_state c = 1 \<or> rc_state c = 2" using f(6) t(2) by (simp add: ss_state_ok_def)
  have i: "instance_of ?c g = instance_of c g" "ri_config (instance_of c g) = fst ?conf" by (simp_all add: instance_of_def conf_at_def)
  show ?thesis
  proof (cases "rc_state c = 2")
    case True
    let ?g = "put_client p ?c g"
    have inv1: "glob_inv ?g" "rg_clients ?g p = Some (?c\<lparr>rc_relay := Some (rl\<lparr>be_input := be_input rl\<rparr>)\<rparr>)"
      using inv f by (auto intro: glob_inv_put simp: redsocks_touch_client_def)
    have "outcome p ?g (hand_step ?conf ?c) (httpc_skip env p ?g)"
      using True by (intro http_skip_outcome [OF inv1 t1 t(2), where eaten = "[]"]) simp_all
    then have "outcome p g (hand_step ?conf c) (httpc_skip env p ?g)" using outcome_from_put by simp
    then show ?thesis using True inv f by (simp add: httpc_read_cb_def)
  next
    case False
    then have st1: "rc_state c = 1" using st by simp
    obtain verdict x where v: "httpc_first_line (fst ?conf) ?auth (be_input rl) = (verdict, x)" by fastforce
    note tx = first_line_text [OF v]
    let ?c1 = "?c\<lparr>rc_relay := Some (rl\<lparr>be_input := x\<rparr>)\<rparr>"
    let ?g = "put_client p ?c1 g"
    have inv1: "glob_inv ?g" "rg_clients ?g p = Some ?c1" using inv by (auto intro!: glob_inv_put [OF inv])
    have t2: "talking (conf_at ?g (rc_instance ?c1)) ?c1 cl (rl\<lparr>be_input := x\<rparr>)" using talking_consumed [OF t1, of ?c] by simp
    have "outcome p ?g (hand_step ?conf ?c) (case verdict of HV_more \<Rightarrow> Some ?g | HV_accept \<Rightarrow> httpc_skip env p ?g
        | HV_no_way shown \<Rightarrow> httpc_refused env p shown ?g | HV_auth query \<Rightarrow> httpc_reconnect env p query ?g)"
    proof (cases verdict)
      case HV_more
      have "hand_ok ?conf ?c1" using t2 by (simp add: talking_def)
      moreover have "heard (snd ?conf) ?c (inp RELAY ?c) ?c1" using tx(1) [OF HV_more] f1(7) by (intro heard_same) (simp_all add: inp_def)
      ultimately have "hand_step ?conf ?c ?c1" by (simp add: hand_step_def)
      then show ?thesis using HV_more inv1 by (auto simp: outcome_def)
    next
      case HV_accept
      obtain status s where s: "status_2xx status" "http_lines [status] s" "be_input rl = s @ x" using tx(2) [OF HV_accept] by blast
      have "outcome p ?g (hand_step ?conf ?c) (httpc_skip env p ?g)"
        using s(3) said_first_line(1) [OF _ s(1,2)] st1 by (intro http_skip_outcome [OF inv1 t1 t(2), where eaten = s]) simp_all
      then show ?thesis using HV_accept by simp
    next
      case (HV_no_way shown)
      then show ?thesis using refused_outcome [OF inv1 t2, of c env shown] by simp
    next
      case (HV_auth query)
      obtain status ls s where s: "scan_status (cstr status) = Some 407" "http_lines (status # ls) s" "be_input rl = s @ x" using tx(3) [OF HV_auth] by blast
      have "heard http_connect_subsys c (inp RELAY c) ?c1"
        using s(3) f(7) said_first_line(2) [OF _ s(1,2)] st1 by (intro heardI [of _ s]) (simp_all add: inp_def)
      then show ?thesis using HV_auth reconnect_outcome [OF inv1 t2, of c env query] first_line_auth [of "fst ?conf" ?auth "be_input rl" query x] v t(2) by simp
    qed
    then have "outcome p g (hand_step ?conf c) (case verdict of HV_more \<Rightarrow> Some ?g | HV_accept \<Rightarrow> httpc_skip env p ?g
        | HV_no_way shown \<Rightarrow> httpc_refused env p shown ?g | HV_auth query \<Rightarrow> httpc_reconnect env p query ?g)" using outcome_from_put by simp
    then show ?thesis using False st inv f v by (simp add: httpc_read_cb_def i Let_def)
  qed
qed

section \<open>Sending to the proxy\<close>

text \<open>A stored challenge for a digest has more than the name of the scheme.\<close>

definition chal_ok :: "http_auth \<Rightarrow> bool" where
  "chal_ok auth \<longleftrightarrow> (\<forall>query. last_auth_query auth = Some query \<and> strncaseeq query (str ''Digest'') 6 \<longrightarrow> 7 \<le> length query)"

lemma not_both_schemes: "\<not> (strncaseeq query (str ''Basic'') 5 \<and> strncaseeq query (str ''Digest'') 6)"
proof
  assume "strncaseeq query (str ''Basic'') 5 \<and> strncaseeq query (str ''Digest'') 6"
  then have a: "take 5 (map tolower query @ [0]) = [98, 97, 115, 105, 99]" "take 6 (map tolower query @ [0]) = [100, 105, 103, 101, 115, 116]"
    by (simp_all add: strncaseeq_def of_char_def tolower_def del: take_append)
  have "take 5 (take 6 (map tolower query @ [0])) = take 5 (map tolower query @ [0])" by (simp only: take_take) simp
  then show False unfolding a by simp
qed

lemma auth_line_some:
  assumes "last_auth_query auth \<noteq> None \<longrightarrow> cf_login config \<noteq> None \<and> cf_password config \<noteq> None"
  shows "httpc_auth_line env config auth c = None \<longleftrightarrow> \<not> chal_ok auth"
proof (cases "last_auth_query auth")
  case (Some query)
  then obtain l w where "cf_login config = Some l" "cf_password config = Some w" using assms by auto
  moreover have "\<not> (strncaseeq query (str ''Basic'') 5 \<and> strncaseeq query (str ''Digest'') 6)" by (rule not_both_schemes)
  ultimately show ?thesis using Some by (auto simp: httpc_auth_line_def chal_ok_def)
qed (simp add: httpc_auth_line_def chal_ok_def)

text \<open>The proxy's socket has become writable for the first time: the request of each protocol goes out.\<close>

definition connected :: "redsocks_config \<times> relay_subsys \<Rightarrow> redsocks_client \<Rightarrow> bufferevent \<Rightarrow> bufferevent \<Rightarrow> bool" where
  "connected conf c cl rl \<longleftrightarrow> rc_state c = 0 \<and> rc_client c = Some cl \<and> rc_relay c = Some rl \<and> wait_ok cl (rc_client_evshut c) \<and> rc_relay_evshut c = {} \<and>
     EV_WRITE \<notin> be_sock_shut rl \<and> be_wm_write rl = (0, 0) \<and> be_output rl = [] \<and> be_enabled rl = {EV_WRITE} \<and> be_readcb rl = CB_ss_read \<and> be_writecb rl = CB_ss_write \<and>
     (snd conf = socks5_subsys \<and> rc_do_password c \<longrightarrow> cf_login (fst conf) \<noteq> None \<and> cf_password (fst conf) \<noteq> None)"

lemma first_message_outcome:
  assumes inv: "glob_inv g" "rg_clients g p = Some c" and f: "connected conf c cl rl" and c0: "rc_instance c = rc_instance c0" "rc_client c = rc_client c0" "rc_client_evshut c = rc_client_evshut c0" "inp RELAY c0 = inp RELAY c" "rc_state c0 = 0"
  shows "outcome p g (hand_step conf c0) (redsocks_write_helper_ex env p message 1 lo hi g)"
proof (rule write_helper_outcome [OF inv])
  fix out
  let ?r = "bufferevent_enable {EV_READ} ((bufferevent_write_buffer out rl)\<lparr>be_wm_read := (lo, hi)\<rparr>)"
  have "said (snd conf) 1 n past" if "said (snd conf) (rc_state c0) (rc_to_skip c0) past" for past n
    using that c0(5) by (auto simp: said_def unanswered_407_def split: relay_subsys.splits)
  then have "heard (snd conf) c0 (inp RELAY c0) (c\<lparr>rc_state := 1, rc_relay := Some ?r\<rparr>)"
    using c0(4) f by (intro heardI [of _ "[]"]) (simp_all add: inp_def connected_def)
  moreover have "relay_ok (snd conf) 1 ?r {}" using f by (auto simp: connected_def relay_ok_def disjoint_ev_def ss_state_ok_def split: relay_subsys.splits)
  then have "hand_ok conf (c\<lparr>rc_state := 1, rc_relay := Some ?r\<rparr>)" using f by (auto simp: connected_def hand_ok_def)
  ultimately show "hand_step conf c0 (c\<lparr>rc_state := 1, rc_relay := Some ?r\<rparr>)" using c0 by (simp add: hand_step_def)
qed (use f in \<open>simp add: connected_def\<close>)

lemma request_outcome:
  assumes inv: "glob_inv g" "rg_clients g p = Some c" and f: "connected (conf_at g (rc_instance c)) c cl rl" and ss: "snd (conf_at g (rc_instance c)) = ss"
    and ch: "ss = http_connect_subsys \<Longrightarrow> en_evbuffer_ok env \<Longrightarrow> chal_ok (ri_auth (instance_of c g))"
    and c0: "rc_instance c = rc_instance c0" "rc_client c = rc_client c0" "rc_client_evshut c = rc_client_evshut c0" "inp RELAY c0 = inp RELAY c" "rc_state c0 = 0"
  shows "outcome p g (hand_step (conf_at g (rc_instance c)) c0) (ss_writecb env ss p g)"
proof -
  let ?c = "redsocks_touch_client env c" and ?conf = "conf_at g (rc_instance c)"
  let ?g = "put_client p ?c g"
  have inv1: "glob_inv ?g" "rg_clients ?g p = Some ?c" using inv by (auto intro: glob_inv_put)
  have f1: "connected ?conf ?c cl rl" using f by (simp add: connected_def redsocks_touch_client_def)
  have st: "rc_state c = 0" using f by (simp add: connected_def)
  have msg: "outcome p ?g (hand_step ?conf c0) (redsocks_write_helper_ex env p message 1 lo hi ?g)" for message lo hi
    using first_message_outcome [OF inv1 f1] c0 by simp
  have http: "outcome p ?g (hand_step ?conf c0) (httpc_write_cb env p g)" if ss1: "ss = http_connect_subsys"
  proof (cases "en_evbuffer_ok env")
    case True
    let ?g1 = "update_instance (rc_instance c) (\<lambda>i. i\<lparr>ri_auth := (ri_auth i)\<lparr>last_auth_count := last_auth_count (ri_auth i) + 1\<rparr>\<rparr>) ?g"
    let ?i = "instance_of ?c ?g1"
    have i: "rc_instance c < length (rg_instances g)" using inv by (auto simp: glob_inv_def acct_inv_def listed_def)
    have g1: "glob_inv ?g1" "same_conf ?g ?g1" "quiet ?g ?g1"
      using glob_inv_auth [OF inv1(1), of "rc_instance c" "\<lambda>a. a\<lparr>last_auth_count := last_auth_count a + 1\<rparr>"] i by (simp_all add: auth_ok_def)
    have "ri_config ?i = ri_config (instance_of c g)" "last_auth_query (ri_auth ?i) = last_auth_query (ri_auth (instance_of c g))"
      using i by (simp_all add: instance_of_def update_instance_def)
    moreover have "auth_ok (instance_of c g)" using inv(1) i by (simp add: glob_inv_def acct_inv_def instance_of_def)
    ultimately obtain line where l: "httpc_auth_line env (ri_config ?i) (ri_auth ?i) ?c = Some line"
      using auth_line_some [of "ri_auth ?i" "ri_config ?i" env ?c] ch [OF ss1 True] by (auto simp: auth_ok_def chal_ok_def)
    obtain message where "httpc_mkconnect env p ?g = Some (message, ?g1)" using True l inv1(2) by (simp add: httpc_mkconnect_def Let_def)
    moreover have "outcome p ?g1 (hand_step ?conf c0) (redsocks_write_helper_ex env p (Some message) httpc_request_sent 1 HTTP_HEAD_WM_HIGH ?g1)"
      using first_message_outcome [OF g1(1) _ f1, of p] inv1 c0 by simp
    then have "outcome p ?g (hand_step ?conf c0) (redsocks_write_helper_ex env p (Some message) httpc_request_sent 1 HTTP_HEAD_WM_HIGH ?g1)"
      by (rule outcome_from) (use g1 in simp_all)
    ultimately show ?thesis using inv st by (simp add: httpc_write_cb_def)
  qed (use msg inv st inv1 in \<open>simp add: httpc_write_cb_def httpc_mkconnect_def\<close>)
  have "outcome p ?g (hand_step ?conf c0) (ss_writecb env ss p g)"
    using msg http inv st by (cases ss) (simp_all add: Let_def ss_writecb_def socks4_write_cb_def socks5_write_cb_def redsocks_write_helper_def)
  then show ?thesis by (rule outcome_from_put)
qed

text \<open>A challenge that is only the name of the scheme: the request cannot be made without reading behind it.\<close>

lemma request_fails:
  assumes inv: "glob_inv g" "rg_clients g p = Some c" and st: "rc_state c = 0" and e: "en_evbuffer_ok env" and ch: "\<not> chal_ok (ri_auth (instance_of c g))"
  shows "ss_writecb env http_connect_subsys p g = None"
proof -
  let ?c = "redsocks_touch_client env c"
  let ?g = "put_client p ?c g"
  let ?g1 = "update_instance (rc_instance c) (\<lambda>i. i\<lparr>ri_auth := (ri_auth i)\<lparr>last_auth_count := last_auth_count (ri_auth i) + 1\<rparr>\<rparr>) ?g"
  let ?i = "instance_of ?c ?g1"
  have i: "rc_instance c < length (rg_instances g)" using inv by (auto simp: glob_inv_def acct_inv_def listed_def)
  have same: "ri_config ?i = ri_config (instance_of c g)" "last_auth_query (ri_auth ?i) = last_auth_query (ri_auth (instance_of c g))"
    using i by (simp_all add: instance_of_def update_instance_def)
  have "auth_ok (instance_of c g)" using inv(1) i by (simp add: glob_inv_def acct_inv_def instance_of_def)
  then have "httpc_auth_line env (ri_config ?i) (ri_auth ?i) ?c = None"
    using auth_line_some [of "ri_auth ?i" "ri_config ?i" env ?c] ch same by (auto simp: auth_ok_def chal_ok_def)
  then have "httpc_mkconnect env p ?g = None" using e by (simp add: httpc_mkconnect_def Let_def)
  then show ?thesis using inv(2) st by (simp add: ss_writecb_def httpc_write_cb_def)
qed

text \<open>A message to the proxy is out.\<close>

lemma sent_outcome:
  assumes inv: "glob_inv g" "rg_clients g p = Some c" and h: "hand_ok conf c0" "rc_relay c0 = Some rl0" "be_writecb rl0 = CB_ss_write"
    and c: "c = c0\<lparr>rc_relay := Some (rl0\<lparr>be_output := [], be_ev_write := False\<rparr>)\<rparr>" and ss: "snd conf = ss"
  shows "outcome p g (hand_step conf c0) (ss_writecb env ss p g)"
proof -
  let ?r = "rl0\<lparr>be_output := [], be_ev_write := False\<rparr>"
  have r0: "relay_ok ss (rc_state c0) rl0 (rc_relay_evshut c0)" using h(1,2) ss by (auto simp: hand_ok_def)
  then have st: "ss_state_ok ss (rc_state c0)" using h(3) by (auto simp: relay_ok_def)
  have "relay_ok ss (rc_state c0) ?r (rc_relay_evshut c0)" "ss \<noteq> socks5_subsys \<Longrightarrow> relay_ok ss (rc_state c0) (bufferevent_disable {EV_WRITE} ?r) (rc_relay_evshut c0)"
    using r0 h(3) unfolding relay_ok_def disjoint_ev_def by auto
  then have k: "hand_step conf c0 (redsocks_touch_client env c)"
      "ss \<noteq> socks5_subsys \<Longrightarrow> hand_step conf c0 ((redsocks_touch_client env c)\<lparr>rc_relay := Some (bufferevent_disable {EV_WRITE} ?r)\<rparr>)"
    using h(1,2) ss heard_same [of _ "inp RELAY c0" c0] unfolding c hand_step_def by (auto simp: hand_ok_def redsocks_touch_client_def inp_def)
  have p1: "outcome p g (hand_step conf c0) (Some (put_client p (redsocks_touch_client env c) g))"
    using k(1) by (intro outcome_put [OF inv]) simp_all
  have p2: "outcome p g (hand_step conf c0) (Some (put_client p ((redsocks_touch_client env c)\<lparr>rc_relay := Some (bufferevent_disable {EV_WRITE} ?r)\<rparr>) g))"
    if "ss \<noteq> socks5_subsys" using k(2) [OF that] by (intro outcome_put [OF inv]) simp_all
  have s: "rc_state c = rc_state c0" "rc_relay c = Some ?r" by (simp_all add: c)
  show ?thesis
    using p1 p2 st inv s by (cases ss) (auto simp: Let_def ss_writecb_def socks4_write_cb_def socks5_write_cb_def httpc_write_cb_def ss_state_ok_def)
qed

end
