(* ===== verification/RedsocksPressure.thy ===== *)
theory RedsocksPressure
  imports RedsocksNego
begin

text \<open>
  Connection pressure, accepting and shutting down: dropping idle clients, the backoff and a new
  client keep the accounting, the limit on connections holds, and the shutdown leaves nothing.
\<close>

section \<open>Connection pressure\<close>

lemma distinct_concat_map:
  "(\<And>i. i < length xs \<Longrightarrow> distinct (f (xs ! i))) \<Longrightarrow> (\<And>i j x. i < length xs \<Longrightarrow> j < length xs \<Longrightarrow> x \<in> set (f (xs ! i)) \<Longrightarrow> x \<in> set (f (xs ! j)) \<Longrightarrow> i = j) \<Longrightarrow>
     distinct (concat (map f xs))"
proof (induction xs)
  case (Cons a xs)
  have "distinct (concat (map f xs))" using Cons.prems(1) [of "Suc _"] Cons.prems(2) [of "Suc _" "Suc _"] by (intro Cons.IH) auto
  moreover have "x \<notin> set (f a)" if "x \<in> set (f (xs ! j))" "j < length xs" for x j using Cons.prems(2) [of 0 "Suc j" x] that by auto
  ultimately show ?case using Cons.prems(1) [of 0] by (auto simp: in_set_conv_nth [of _ xs])
qed simp

lemma listed_clients:
  assumes "acct_inv g"
  shows "distinct (concat (map ri_clients (rg_instances g)))" "p \<in> set (concat (map ri_clients (rg_instances g))) \<longleftrightarrow> rg_clients g p \<noteq> None"
proof -
  have l: "listed g i p \<longleftrightarrow> (\<exists>c. rg_clients g p = Some c \<and> rc_instance c = i)" for i p using assms by (simp add: acct_inv_def)
  show "distinct (concat (map ri_clients (rg_instances g)))"
  proof (rule distinct_concat_map)
    fix i j x assume "i < length (rg_instances g)" "j < length (rg_instances g)" "x \<in> set (ri_clients (rg_instances g ! i))" "x \<in> set (ri_clients (rg_instances g ! j))"
    then have "listed g i x" "listed g j x" by (auto simp: listed_def)
    then show "i = j" using l by auto
  qed (use assms in \<open>simp add: acct_inv_def\<close>)
  show "p \<in> set (concat (map ri_clients (rg_instances g))) \<longleftrightarrow> rg_clients g p \<noteq> None"
  proof -
    have "p \<in> set (concat (map ri_clients (rg_instances g))) \<longleftrightarrow> (\<exists>i. listed g i p)"
      unfolding listed_def set_concat set_map by (auto simp: in_set_conv_nth [of _ "rg_instances g"]) (metis nth_mem)
    then show ?thesis using l by auto
  qed
qed

definition idle_for :: "rs_env \<Rightarrow> redsocks_client \<Rightarrow> int" where
  "idle_for env c = en_now_pressure env - rc_last_event c"

definition is_idle :: "rs_env \<Rightarrow> int \<Rightarrow> redsocks \<Rightarrow> ptr \<Rightarrow> bool" where
  "is_idle env max_idle g p \<longleftrightarrow> (\<exists>c. rg_clients g p = Some c \<and> (idle_for env c \<le> 0 \<or> max_idle \<le> idle_for env c))"

text \<open>Only idle clients go.\<close>

definition fewer :: "rs_env \<Rightarrow> int \<Rightarrow> redsocks \<Rightarrow> redsocks \<Rightarrow> bool" where
  "fewer env max_idle g g' \<longleftrightarrow> same_conf g g' \<and> (\<forall>q. rg_clients g' q = rg_clients g q \<or> rg_clients g' q = None \<and> is_idle env max_idle g q)"

lemma fewerD: "fewer env m g g' \<Longrightarrow> rg_clients g' q = rg_clients g q \<or> rg_clients g' q = None \<and> is_idle env m g q"
  by (simp add: fewer_def)

text \<open>All idle clients among \<open>ps\<close> go, and \<open>next\<close> is 0 when there is one.\<close>

definition idle_gone :: "rs_env \<Rightarrow> int \<Rightarrow> ptr list \<Rightarrow> int \<Rightarrow> int \<Rightarrow> redsocks \<Rightarrow> redsocks \<Rightarrow> bool" where
  "idle_gone env max_idle ps best best' g g' \<longleftrightarrow> quiet g g' \<and> (best = 0 \<or> (\<exists>q \<in> set ps. is_idle env max_idle g q) \<longrightarrow> best' = 0) \<and>
     (\<forall>q \<in> set ps. is_idle env max_idle g q \<longrightarrow> rg_clients g' q = None)"

lemma drop_idle_outcome:
  assumes "acct_inv g" "distinct ps" "\<And>p. p \<in> set ps \<Longrightarrow> rg_clients g p \<noteq> None" "0 \<le> best" "best = 0 \<longrightarrow> glob_inv g"
  shows "\<exists>best' g'. drop_idle env max_idle ps best g = Some (best', g') \<and> acct_inv g' \<and> fewer env max_idle g g' \<and> 0 \<le> best' \<and> (best' = 0 \<longrightarrow> glob_inv g') \<and>
    idle_gone env max_idle ps best best' g g'"
  using assms
proof (induction ps arbitrary: g best)
  case Nil
  then show ?case by (auto simp: fewer_def idle_gone_def)
next
  case (Cons p ps)
  obtain c where c: "rg_clients g p = Some c" using Cons.prems(3) [of p] by auto
  have d: "p \<notin> set ps" "distinct ps" using Cons.prems(2) by simp_all
  show ?case
  proof (cases "idle_for env c \<le> 0 \<or> max_idle \<le> idle_for env c")
    case True
    have idle: "is_idle env max_idle g p" using c True by (auto simp: is_idle_def)
    obtain g1 where g1: "redsocks_drop_client env p g = Some g1" "rg_clients g1 = (rg_clients g)(p := None)" "glob_inv g1" "same_conf g g1" "quiet g g1"
      using drop_outcome [OF Cons.prems(1) c] by blast
    have "\<exists>best' g'. drop_idle env max_idle ps 0 g1 = Some (best', g') \<and> acct_inv g' \<and> fewer env max_idle g1 g' \<and> 0 \<le> best' \<and> (best' = 0 \<longrightarrow> glob_inv g') \<and>
        idle_gone env max_idle ps 0 best' g1 g'"
      using g1 Cons.prems by (intro Cons.IH) (auto simp: glob_inv_def)
    then obtain best' g' where g': "drop_idle env max_idle ps 0 g1 = Some (best', g')" "acct_inv g'" "fewer env max_idle g1 g'" "0 \<le> best'" "best' = 0 \<longrightarrow> glob_inv g'"
        "idle_gone env max_idle ps 0 best' g1 g'" by blast
    have i1: "is_idle env max_idle g1 q \<longleftrightarrow> q \<noteq> p \<and> is_idle env max_idle g q" for q using g1(2) by (auto simp: is_idle_def)
    have "fewer env max_idle g g'" using g'(3) g1(2) idle i1 same_conf_trans [OF g1(4)] unfolding fewer_def by (metis fun_upd_apply)
    moreover have "rg_clients g' p = None" using fewerD [OF g'(3), of p] g1(2) by auto
    moreover from this have "idle_gone env max_idle (p # ps) best best' g g'" using g'(6) i1 d(1) quiet_trans [OF g1(5)] unfolding idle_gone_def by auto
    ultimately show ?thesis using g' g1(1) c True by (auto simp: idle_for_def)
  next
    case False
    have idle: "\<not> is_idle env max_idle g p" using c False by (auto simp: is_idle_def)
    let ?best = "if max_idle - idle_for env c < best then max_idle - idle_for env c else best"
    have "\<exists>best' g'. drop_idle env max_idle ps ?best g = Some (best', g') \<and> acct_inv g' \<and> fewer env max_idle g g' \<and> 0 \<le> best' \<and> (best' = 0 \<longrightarrow> glob_inv g') \<and>
        idle_gone env max_idle ps ?best best' g g'"
      using Cons.prems False by (intro Cons.IH) auto
    then obtain best' g' where g': "drop_idle env max_idle ps ?best g = Some (best', g')" "acct_inv g'" "fewer env max_idle g g'" "0 \<le> best'" "best' = 0 \<longrightarrow> glob_inv g'"
        "idle_gone env max_idle ps ?best best' g g'" by blast
    have "idle_gone env max_idle (p # ps) best best' g g'" using g'(6) idle False unfolding idle_gone_def by auto
    then show ?thesis using g'(1-5) c False by (auto simp: idle_for_def Let_def)
  qed
qed

lemma backoff_outcome:
  assumes "acct_inv g"
  shows "\<exists>g'. accept_backoff env next_idle g = Some g' \<and> glob_inv g' \<and> same_conf g g' \<and> rg_clients g' = rg_clients g"
proof -
  have "backoff_value (rg_accept_backoff_ms g) (rg_max_backoff_ms g) \<noteq> 0"
    using assms by (auto simp: backoff_value_def Let_def acct_inv_def word_less_nat_alt unat_eq_0 split: if_splits)
  then have r: "accept_backoff env next_idle g = Some (g\<lparr>rg_accept_backoff_ms := backoff_value (rg_accept_backoff_ms g) (rg_max_backoff_ms g),
       rg_accept_backoff_ev := Some (if next_idle \<noteq> 0 \<and> next_idle < uint (en_rand env mod backoff_value (rg_accept_backoff_ms g) (rg_max_backoff_ms g) + 1) * 1000
         then next_idle else uint (en_rand env mod backoff_value (rg_accept_backoff_ms g) (rg_max_backoff_ms g) + 1) * 1000),
       rg_instances := map (\<lambda>i. i\<lparr>ri_listening := False\<rparr>) (rg_instances g)\<rparr>)" (is "_ = Some ?g")
    by (simp add: accept_backoff_def Let_def)
  have l: "listed ?g i p = listed g i p" for i p by (auto simp: listed_def)
  have t: "conn_total ?g = conn_total g" by (simp add: conn_total_def comp_def)
  have a: "auth_ok (i\<lparr>ri_listening := False\<rparr>) = auth_ok i" for i by (simp add: auth_ok_def)
  have "acct_inv ?g" using assms a unfolding acct_inv_def l t by simp
  then show ?thesis unfolding r by (auto simp: glob_inv_def same_conf_def)
qed

definition max_idle_time :: "redsocks \<Rightarrow> int" where
  "max_idle_time g = 1000000 * uint (rg_idle_timeout g)"

text \<open>
  Under pressure all idle clients go; when there is one, neither the listeners nor the timer of the
  backoff change.
\<close>

lemma pressure_outcome:
  assumes inv: "acct_inv g"
  shows "\<exists>g'. conn_pressure env g = Some g' \<and> glob_inv g' \<and> fewer env (if rg_idle_timeout g = 0 then 0 else max_idle_time g) g g' \<and>
     (rg_idle_timeout g = 0 \<longrightarrow> rg_clients g' = rg_clients g) \<and>
     (rg_idle_timeout g \<noteq> 0 \<longrightarrow> (\<forall>q. is_idle env (max_idle_time g) g q \<longrightarrow> rg_clients g' q = None \<and> quiet g g'))"
proof (cases "rg_idle_timeout g = 0")
  case True
  then show ?thesis using backoff_outcome [OF inv, of env 0] by (auto simp: conn_pressure_def fewer_def)
next
  case False
  let ?m = "max_idle_time g" and ?ps = "concat (map ri_clients (rg_instances g))"
  have "uint (rg_idle_timeout g) \<noteq> 0" using False uint_0_iff by blast
  then have "0 < ?m" using uint_nonnegative [of "rg_idle_timeout g"] unfolding max_idle_time_def by linarith
  then obtain b g1 where g1: "drop_idle_connections env g = Some (b, g1)" "acct_inv g1" "fewer env ?m g g1" "b = 0 \<longrightarrow> glob_inv g1" "idle_gone env ?m ?ps ?m b g g1"
    using drop_idle_outcome [OF inv listed_clients(1) [OF inv], of ?m env ?m] listed_clients(2) [OF inv] by (auto simp: drop_idle_connections_def Let_def max_idle_time_def)
  obtain g2 where g2: "accept_backoff env b g1 = Some g2" "glob_inv g2" "same_conf g1 g2" "rg_clients g2 = rg_clients g1" using backoff_outcome [OF g1(2)] by blast
  have f2: "fewer env ?m g g2" using g1(3) g2(3,4) by (auto simp: fewer_def intro: same_conf_trans)
  have gone: "b = 0 \<and> rg_clients g1 q = None \<and> quiet g g1" if q: "is_idle env ?m g q" for q
  proof -
    have "q \<in> set ?ps" unfolding listed_clients(2) [OF inv] using q by (auto simp: is_idle_def)
    then show ?thesis using g1(5) q unfolding idle_gone_def by blast
  qed
  show ?thesis using False g1 g2 f2 gone by (cases "b = 0") (auto simp: conn_pressure_def)
qed


section \<open>Accepting\<close>

definition enlisted :: "nat \<Rightarrow> ptr \<Rightarrow> redsocks \<Rightarrow> redsocks" where
  "enlisted i p g = (update_instance i (\<lambda>s. s\<lparr>ri_clients := p # ri_clients s\<rparr>) g)\<lparr>rg_conn := rg_conn g + 1\<rparr>"

lemma enlisted_acct:
  assumes inv: "acct_inv g" and i: "i < length (rg_instances g)" and p: "rg_clients g p = None" and c: "rc_instance c = i" and m: "rg_conn g < rg_conn_max g"
  shows "acct_inv (enlisted i p (put_client p c g))" "same_conf g (enlisted i p (put_client p c g))"
    "rg_clients (enlisted i p (put_client p c g)) = (rg_clients g)(p \<mapsto> c)"
proof -
  let ?g = "enlisted i p (put_client p c g)" and ?xs = "rg_instances g"
  have inst: "rg_instances ?g ! j = (if j = i then (?xs ! j)\<lparr>ri_clients := p # ri_clients (?xs ! j)\<rparr> else ?xs ! j)" if "j < length ?xs" for j
    using that i by (simp add: enlisted_def update_instance_def)
  have len: "length (rg_instances ?g) = length ?xs" by (simp add: enlisted_def)
  have l: "listed g j q \<longleftrightarrow> (\<exists>c. rg_clients g q = Some c \<and> rc_instance c = j)" for j q using inv by (simp add: acct_inv_def)
  have listed': "listed ?g j q \<longleftrightarrow> listed g j q \<or> j = i \<and> q = p" for j q using inst [of j] i len by (cases "j = i") (auto simp: listed_def)
  show cl: "rg_clients ?g = (rg_clients g)(p \<mapsto> c)" by (simp add: enlisted_def)
  have tot: "conn_total ?g = conn_total g + 1"
  proof -
    have "sum_list ((map (length \<circ> ri_clients) ?xs)[i := length (ri_clients (?xs ! i)) + 1]) = conn_total g + (length (ri_clients (?xs ! i)) + 1) - length (ri_clients (?xs ! i))"
      using i by (subst sum_list_update) (simp_all add: conn_total_def)
    then show ?thesis using i by (simp add: conn_total_def enlisted_def update_instance_def map_update)
  qed
  have conn: "unat (rg_conn ?g) = unat (rg_conn g) + 1" 
    using m unsigned_less [of "rg_conn_max g", where 'a = nat] by (simp add: enlisted_def word_less_nat_alt unat_word_ariths)
  have max: "rg_conn_max ?g = rg_conn_max g" "rg_max_backoff_ms ?g = rg_max_backoff_ms g" by (simp_all add: enlisted_def)
  have auth: "auth_ok x" if x: "x \<in> set (rg_instances ?g)" for x
  proof -
    obtain j where j: "j < length ?xs" "x = rg_instances ?g ! j" using x len by (auto simp: in_set_conv_nth)
    then show ?thesis using inst [OF j(1)] inv nth_mem [OF j(1)] by (auto simp: acct_inv_def auth_ok_def)
  qed
  show "acct_inv ?g" unfolding acct_inv_def
  proof (intro conjI)
    show "\<forall>q j. listed ?g j q \<longleftrightarrow> (\<exists>c. rg_clients ?g q = Some c \<and> rc_instance c = j)" using listed' l p c cl by auto
    have "p \<notin> set (ri_clients (?xs ! i))" using l [of i p] p i by (auto simp: listed_def)
    then show "\<forall>j < length (rg_instances ?g). distinct (ri_clients (rg_instances ?g ! j))" using inst len inv by (simp add: acct_inv_def)
    show "unat (rg_conn ?g) = conn_total ?g" using conn tot inv by (simp add: acct_inv_def)
    show "rg_conn ?g \<le> rg_conn_max ?g" using conn m unfolding max word_le_nat_alt word_less_nat_alt by simp
    show "\<forall>x \<in> set (rg_instances ?g). auth_ok x" using auth by blast
    show "rg_max_backoff_ms ?g \<noteq> 0" using inv max by (simp add: acct_inv_def)
  qed
  have "same_conf (put_client p c g) (update_instance i (\<lambda>s. s\<lparr>ri_clients := p # ri_clients s\<rparr>) (put_client p c g))" by (rule same_conf_update) simp
  then show "same_conf g ?g" by (simp add: same_conf_def enlisted_def)
qed


text \<open>A client that was never listed is only freed.\<close>

lemma drop_unlisted:
  assumes inv: "glob_inv g" and p: "rg_clients g p = None" and c: "rc_client c = None" "rc_relay c = None" "rc_instance c < length (rg_instances g)"
  shows "\<exists>g'. redsocks_drop_client env p (put_client p c g) = Some g' \<and> glob_inv g' \<and> same_conf g g' \<and> rg_clients g' = rg_clients g"
proof -
  have "\<not> listed g (rc_instance c) p" using inv p by (simp add: glob_inv_def acct_inv_def)
  then have n: "p \<notin> set (ri_clients (instance_of c (put_client p c g)))" using c(3) by (simp add: listed_def instance_of_def)
  let ?e = "conn_pressure_lowered g"
  have "(conn_pressure_lowered (put_client p c g))\<lparr>rg_clients := (rg_clients (conn_pressure_lowered (put_client p c g)))(p := None)\<rparr> = ?e"
    using p by (simp add: conn_pressure_lowered_def put_client_def accept_enable_def fun_upd_idem)
  then have "redsocks_drop_client env p (put_client p c g) = Some ?e" using n c by (simp add: redsocks_drop_client_def redsocks_conn_list_del_def)
  moreover have "lowered g ?e" by (rule lowered_close)
  ultimately show ?thesis using lowered_inv [OF _ inv] lowered_facts(1,3) by blast
qed

text \<open>
  A client that is accepted counts as idle at once when the clock has not moved since it was accepted, has
  been set back, or has jumped by the idle timeout; at the limit of connections it is then dropped while
  \<open>redsocks_accept_client\<close> still uses it.
\<close>

definition new_client_dropped :: "rs_env \<Rightarrow> redsocks \<Rightarrow> bool" where
  "new_client_dropped env g \<longleftrightarrow> rg_idle_timeout g \<noteq> 0 \<and> rg_conn_max g \<le> rg_conn g + 1 \<and>
     (en_now_pressure env \<le> en_now env \<or> max_idle_time g \<le> en_now_pressure env - en_now env)"

definition accept_drops_itself :: "rs_env \<Rightarrow> accepted \<Rightarrow> redsocks \<Rightarrow> bool" where
  "accept_drops_itself env acc g \<longleftrightarrow> (case acc of Accepted _ _ \<Rightarrow> en_calloc env \<noteq> None \<and> en_bufferevent_ok env \<and> new_client_dropped env g | _ \<Rightarrow> False)"

definition accept_step :: "nat \<Rightarrow> redsocks \<Rightarrow> redsocks \<Rightarrow> bool" where
  "accept_step i g g' \<longleftrightarrow> glob_inv g' \<and> same_conf g g' \<and>
     (\<forall>q. rg_clients g' q = rg_clients g q \<or> rg_clients g' q = None \<or>
        rg_clients g q = None \<and> (\<exists>c'. rg_clients g' q = Some c' \<and> rc_instance c' = i \<and> hand_ok (conf_at g i) c' \<and> rc_state c' = 0 \<and> inp CLIENT c' = []))"

lemma fewer_accept:
  assumes "glob_inv g'" "fewer env m g g'"
  shows "accept_step i g g'"
proof -
  have "rg_clients g' q = rg_clients g q \<or> rg_clients g' q = None" for q using fewerD [OF assms(2), of q] by (elim disjE) simp_all
  then show ?thesis using assms unfolding accept_step_def fewer_def by (metis (no_types, lifting))
qed

lemma ss_init_facts:
  "rc_client (ss_init ss conf c) = rc_client c" "rc_relay (ss_init ss conf c) = rc_relay c" "rc_instance (ss_init ss conf c) = rc_instance c"
  "rc_client_evshut (ss_init ss conf c) = rc_client_evshut c" "rc_relay_evshut (ss_init ss conf c) = rc_relay_evshut c" "rc_state (ss_init ss conf c) = 0"
  "ss = socks5_subsys \<and> rc_do_password (ss_init ss conf c) \<longrightarrow> cf_login conf \<noteq> None \<and> cf_password conf \<noteq> None"
  by (cases ss; simp add: ss_init_def)+

lemma list_add_outcome:
  assumes inv: "glob_inv g" and i: "i < length (rg_instances g)" "ri_listening (rg_instances g ! i)" and p: "rg_clients g p = None" and c: "rc_instance c = i" "rc_last_event c = en_now env"
  shows "\<exists>g'. redsocks_conn_list_add env i p (put_client p c g) = Some g' \<and> glob_inv g' \<and> same_conf g g' \<and>
     rg_clients g' p = (if new_client_dropped env g then None else Some c) \<and>
     (\<forall>q. q \<noteq> p \<longrightarrow> rg_clients g' q = rg_clients g q \<or> rg_clients g' q = None)"
proof -
  let ?e = "enlisted i p (put_client p c g)"
  have a: "acct_inv g" and m: "rg_conn g < rg_conn_max g" using inv i by (auto simp: glob_inv_def)
  have e: "acct_inv ?e" "same_conf g ?e" "rg_clients ?e = (rg_clients g)(p \<mapsto> c)" by (rule enlisted_acct [OF a i(1) p c(1) m])+
  have "\<not> listed g i p" using a p by (simp add: acct_inv_def)
  then have n: "p \<notin> set (ri_clients (rg_instances g ! i))" using i(1) by (simp add: listed_def)
  have r: "redsocks_conn_list_add env i p (put_client p c g) = (if rg_conn ?e \<ge> rg_conn_max ?e then conn_pressure env ?e else Some ?e)"
    using n m by (simp add: redsocks_conn_list_add_def enlisted_def Let_def)
  show ?thesis
  proof (cases "rg_conn ?e \<ge> rg_conn_max ?e")
    case True
    have t: "rg_idle_timeout ?e = rg_idle_timeout g" "max_idle_time ?e = max_idle_time g" "rg_conn_max ?e = rg_conn_max g" "rg_conn ?e = rg_conn g + 1"
      using e(2) by (simp_all add: same_conf_def enlisted_def max_idle_time_def)
    obtain g' where g': "conn_pressure env ?e = Some g'" "glob_inv g'" "fewer env (if rg_idle_timeout g = 0 then 0 else max_idle_time g) ?e g'"
        "rg_idle_timeout g = 0 \<longrightarrow> rg_clients g' = rg_clients ?e" "rg_idle_timeout g \<noteq> 0 \<longrightarrow> is_idle env (max_idle_time g) ?e p \<longrightarrow> rg_clients g' p = None"
      using pressure_outcome [OF e(1), of env] unfolding t(1,2) by blast
    have "same_conf g g'" using e(2) g'(3) by (auto simp: fewer_def intro: same_conf_trans)
    moreover have "rg_clients g' p = (if new_client_dropped env g then None else Some c)"
    proof (cases "rg_idle_timeout g = 0")
      case to: False
      have i: "is_idle env (max_idle_time g) ?e p \<longleftrightarrow> new_client_dropped env g"
        using True to e(3) c(2) unfolding t(3,4) by (simp add: is_idle_def idle_for_def new_client_dropped_def)
      then show ?thesis using fewerD [OF g'(3), of p] to g'(5) e(3) by auto
    qed (use g'(4) e(3) in \<open>simp add: new_client_dropped_def\<close>)
    moreover have "rg_clients g' q = rg_clients g q \<or> rg_clients g' q = None" if "q \<noteq> p" for q using fewerD [OF g'(3), of q] e(3) that by auto
    ultimately show ?thesis using True r g'(1,2) by simp
  next
    case False
    then have "glob_inv ?e" using e(1) by (auto simp: glob_inv_def)
    moreover have "\<not> new_client_dropped env g" using False by (simp add: new_client_dropped_def enlisted_def)
    ultimately show ?thesis using False r e by simp
  qed
qed

lemma new_client_outcome:
  assumes inv: "glob_inv g" and i: "i < length (rg_instances g)" "ri_listening (rg_instances g ! i)" and p: "rg_clients g p = None"
    and clk: "\<not> new_client_dropped env g"
    and c: "c = redsocks_touch_client env (ss_init (ri_relay_ss (rg_instances g ! i)) (ri_config (rg_instances g ! i)) (new_client i clientaddr destaddr))"
  shows "\<exists>g'. (redsocks_conn_list_add env i p (put_client p (c\<lparr>rc_client := Some (bufferevent_new CB_none)\<rparr>) g) \<bind> (\<lambda>g1. rg_clients g1 p \<bind> (\<lambda>c1. rc_client c1 \<bind>
      (\<lambda>cl. if \<not> en_enable_ok env then redsocks_drop_client env p g1
        else redsocks_connect_relay env p (put_client p (c1\<lparr>rc_client := Some (bufferevent_enable {EV_READ} cl)\<rparr>) g1))))) = Some g' \<and> accept_step i g g'"
proof -
  let ?c = "c\<lparr>rc_client := Some (bufferevent_new CB_none)\<rparr>" and ?cl = "bufferevent_enable {EV_READ} (bufferevent_new CB_none)"
  let ?c1 = "c\<lparr>rc_client := Some ?cl\<rparr>"
  have f: "rc_instance c = i" "rc_state c = 0" "rc_client_evshut c = {}" "rc_relay_evshut c = {}" "rc_last_event c = en_now env"
    "snd (conf_at g i) = socks5_subsys \<and> rc_do_password c \<longrightarrow> cf_login (fst (conf_at g i)) \<noteq> None \<and> cf_password (fst (conf_at g i)) \<noteq> None"
    using ss_init_facts(7) [of "ri_relay_ss (rg_instances g ! i)" "ri_config (rg_instances g ! i)" "new_client i clientaddr destaddr"]
    by (simp_all add: c ss_init_facts new_client_def redsocks_touch_client_def conf_at_def)
  obtain g1 where g1: "redsocks_conn_list_add env i p (put_client p ?c g) = Some g1" "glob_inv g1" "same_conf g g1" "rg_clients g1 p = Some ?c"
      "\<forall>q. q \<noteq> p \<longrightarrow> rg_clients g1 q = rg_clients g q \<or> rg_clients g1 q = None"
    using list_add_outcome [OF inv i p, of ?c env] f clk by auto
  have w: "wait_ok ?cl {}" by (simp add: wait_ok_def bufferevent_new_def disjoint_ev_def)
  let ?R = "\<lambda>c'. rc_instance c' = i \<and> hand_ok (conf_at g i) c' \<and> rc_state c' = 0 \<and> inp CLIENT c' = []"
  let ?g = "put_client p ?c1 g1"
  have "outcome p ?g (\<lambda>c'. hand_ok (conf_at g i) c' \<and> c' = ?c1\<lparr>rc_relay := red_connect_relay env\<rparr>) (redsocks_connect_relay env p ?g)"
    using g1 f w by (intro connect_relay_outcome [where cl = ?cl]) (auto intro!: glob_inv_put)
  then have "outcome p ?g ?R (redsocks_connect_relay env p ?g)" by (rule outcome_mono) (use f in \<open>auto simp: inp_def bufferevent_new_def\<close>)
  then have o1: "outcome p g1 ?R (redsocks_connect_relay env p ?g)" by (rule outcome_from_put)
  have "outcome p g1 ?R (redsocks_drop_client env p g1)" by (rule outcome_drop [OF g1(2,4)])
  then have "outcome p g1 ?R (if \<not> en_enable_ok env then redsocks_drop_client env p g1 else redsocks_connect_relay env p ?g)" using o1 by simp
  then obtain g' where g': "(if \<not> en_enable_ok env then redsocks_drop_client env p g1 else redsocks_connect_relay env p ?g) = Some g'" "glob_inv g'" "same_conf g1 g'"
      "rg_clients g' = (rg_clients g1)(p := None) \<or> (\<exists>c'. rg_clients g' = (rg_clients g1)(p \<mapsto> c') \<and> ?R c')"
    unfolding outcome_def by blast
  have "accept_step i g g'" using g' g1(3,5) p same_conf_trans [OF g1(3)] unfolding accept_step_def by (auto split: if_splits)
  then show ?thesis using g1(1,4) g'(1) by (auto split: if_splits)
qed


lemma accept_outcome:
  assumes inv: "glob_inv g" and i: "i < length (rg_instances g)" "ri_listening (rg_instances g ! i)"
    and p: "\<And>p. en_calloc env = Some p \<Longrightarrow> rg_clients g p = None" and clk: "\<not> accept_drops_itself env acc g"
  shows "\<exists>g'. redsocks_accept_client env i acc g = Some g' \<and> accept_step i g g'"
proof -
  let ?g = "g\<lparr>rg_accept_backoff_ms := 0\<rparr>"
  have m: "rg_conn g < rg_conn_max g" using inv i by (auto simp: glob_inv_def)
  have inv1: "glob_inv ?g" using inv by (simp add: glob_inv_def acct_inv_def listed_def conn_total_def)
  have s1: "same_conf g ?g" "conf_at ?g = conf_at g" "accept_step i ?g g' \<Longrightarrow> accept_step i g g'" for g' by (auto simp: same_conf_def conf_at_def accept_step_def)
  have close: "accept_step i g (redsocks_close env ?g)"
    using lowered_inv [OF lowered_close(2) inv1] lowered_facts(1,3) [OF lowered_close(2) [of ?g env]] by (simp add: accept_step_def same_conf_def)
  show ?thesis
  proof (cases acc)
    case Accept_pressure
    obtain g' where g': "conn_pressure env g = Some g'" "glob_inv g'" "fewer env (if rg_idle_timeout g = 0 then 0 else max_idle_time g) g g'"
      using pressure_outcome [of g env] inv by (auto simp: glob_inv_def)
    have "accept_step i g g'" using g'(2,3) by (rule fewer_accept)
    then show ?thesis using Accept_pressure m g'(1) by (simp add: redsocks_accept_client_def)
  next
    case Accept_failed
    then show ?thesis using m inv by (simp add: redsocks_accept_client_def accept_step_def)
  next
    case Accept_unusable
    then show ?thesis using m close by (simp add: redsocks_accept_client_def)
  next
    case (Accepted clientaddr destaddr)
    show ?thesis
    proof (cases "en_calloc env")
      case None
      then show ?thesis using Accepted m close by (simp add: redsocks_accept_client_def)
    next
      case (Some q)
      let ?c = "redsocks_touch_client env (ss_init (ri_relay_ss (rg_instances g ! i)) (ri_config (rg_instances g ! i)) (new_client i clientaddr destaddr))"
      have q: "rg_clients ?g q = None" using p [OF Some] by simp
      show ?thesis
      proof (cases "en_bufferevent_ok env")
        case True
        have "\<not> new_client_dropped env ?g" using clk True Accepted Some by (simp add: accept_drops_itself_def new_client_dropped_def max_idle_time_def)
        then show ?thesis using new_client_outcome [OF inv1 _ _ q, of i env ?c clientaddr destaddr] i s1(3) True Some Accepted m
          by (auto simp: redsocks_accept_client_def Let_def)
      next
        case False
        obtain g1 where g1: "redsocks_drop_client env q (put_client q ?c ?g) = Some g1" "glob_inv g1" "same_conf ?g g1" "rg_clients g1 = rg_clients ?g"
          using drop_unlisted [OF inv1 q, of ?c env] i(1) by (auto simp: ss_init_facts new_client_def)
        have "accept_step i g (redsocks_close env g1)"
          using lowered_inv [OF lowered_close(2) g1(2)] lowered_facts(1,3) [OF lowered_close(2) [of g1 env]] g1(3,4) same_conf_trans [OF g1(3)]
          by (simp add: accept_step_def same_conf_def)
        then show ?thesis using False Some Accepted m g1(1) by (simp add: redsocks_accept_client_def Let_def)
      qed
    qed
  qed
qed

text \<open>The use of the dropped client.\<close>

lemma accept_fails:
  assumes inv: "glob_inv g" and i: "i < length (rg_instances g)" "ri_listening (rg_instances g ! i)"
    and p: "\<And>p. en_calloc env = Some p \<Longrightarrow> rg_clients g p = None" and drop: "accept_drops_itself env acc g"
  shows "redsocks_accept_client env i acc g = None"
proof -
  let ?g = "g\<lparr>rg_accept_backoff_ms := 0\<rparr>"
  obtain ca da q where a: "acc = Accepted ca da" "en_calloc env = Some q" "en_bufferevent_ok env" "new_client_dropped env g"
    using drop by (auto simp: accept_drops_itself_def split: accepted.splits)
  let ?c = "redsocks_touch_client env (ss_init (ri_relay_ss (rg_instances g ! i)) (ri_config (rg_instances g ! i)) (new_client i ca da))"
  have m: "rg_conn g < rg_conn_max g" using inv i by (auto simp: glob_inv_def)
  have inv1: "glob_inv ?g" using inv by (simp add: glob_inv_def acct_inv_def listed_def conn_total_def)
  have d: "new_client_dropped env ?g" using a(4) by (simp add: new_client_dropped_def max_idle_time_def)
  have "\<exists>g'. redsocks_conn_list_add env i q (put_client q (?c\<lparr>rc_client := Some (bufferevent_new CB_none)\<rparr>) ?g) = Some g' \<and> rg_clients g' q = None"
    using list_add_outcome [OF inv1, of i q "?c\<lparr>rc_client := Some (bufferevent_new CB_none)\<rparr>" env] i p [OF a(2)] d
    by (auto simp: ss_init_facts new_client_def redsocks_touch_client_def)
  then show ?thesis using a m by (auto simp: redsocks_accept_client_def Let_def)
qed

lemma accept_backoff_outcome:
  assumes inv: "glob_inv g"
  shows "\<exists>g'. redsocks_accept_backoff env (g\<lparr>rg_accept_backoff_ev := None\<rparr>) = Some g' \<and> accept_step i g g'"
proof -
  let ?g = "g\<lparr>rg_accept_backoff_ev := None\<rparr>"
  have inv1: "glob_inv ?g" using inv by (simp add: glob_inv_def acct_inv_def listed_def conn_total_def)
  have s1: "same_conf g g' = same_conf ?g g'" for g' by (auto simp: same_conf_def)
  show ?thesis
  proof (cases "conn_pressure_ongoing env ?g")
    case True
    obtain g' where g': "conn_pressure env ?g = Some g'" "glob_inv g'" "fewer env (if rg_idle_timeout ?g = 0 then 0 else max_idle_time ?g) ?g g'"
      using pressure_outcome [of ?g env] inv1 by (auto simp: glob_inv_def)
    have "accept_step i ?g g'" using g'(2,3) by (rule fewer_accept)
    then have "accept_step i g g'" using s1 by (simp add: accept_step_def conf_at_def)
    then show ?thesis using True g'(1) by (simp add: redsocks_accept_backoff_def)
  next
    case False
    then have low: "lowered ?g (accept_enable ?g)" by (auto simp: conn_pressure_ongoing_def lowered_def)
    then have "accept_step i g (accept_enable ?g)" using lowered_inv [OF low inv1] lowered_facts(1,3) [OF low] s1 by (simp add: accept_step_def)
    then show ?thesis using False by (simp add: redsocks_accept_backoff_def)
  qed
qed


text \<open>The timer of the backoff at the limit of connections, with an idle client: only clients go.\<close>

lemma backoff_drops_idle:
  assumes inv: "glob_inv g" and m: "rg_conn_max g \<le> rg_conn g" and t: "rg_idle_timeout g \<noteq> 0" and q: "is_idle env (max_idle_time g) g q"
  shows "\<exists>g'. redsocks_accept_backoff env (g\<lparr>rg_accept_backoff_ev := None\<rparr>) = Some g' \<and> rg_clients g' q = None \<and> quiet (g\<lparr>rg_accept_backoff_ev := None\<rparr>) g' \<and>
    dom (rg_clients g') \<subseteq> dom (rg_clients g)"
proof -
  let ?g = "g\<lparr>rg_accept_backoff_ev := None\<rparr>"
  have a: "acct_inv ?g" using inv by (simp add: glob_inv_def acct_inv_def listed_def conn_total_def)
  have same: "rg_idle_timeout ?g = rg_idle_timeout g" "is_idle env (max_idle_time ?g) ?g q" "conn_pressure_ongoing env ?g"
    using q m by (simp_all add: is_idle_def max_idle_time_def conn_pressure_ongoing_def)
  obtain g' where g': "conn_pressure env ?g = Some g'" "fewer env (max_idle_time ?g) ?g g'" "rg_clients g' q = None" "quiet ?g g'"
    using pressure_outcome [OF a, of env] t same by auto
  have "dom (rg_clients g') \<subseteq> dom (rg_clients g)"
  proof
    fix p assume "p \<in> dom (rg_clients g')"
    then show "p \<in> dom (rg_clients g)" using fewerD [OF g'(2), of p] by auto
  qed
  then show ?thesis using g' same(3) by (simp add: redsocks_accept_backoff_def)
qed

section \<open>Shutting down\<close>

lemma drop_clients_outcome:
  assumes "glob_inv g" "distinct ps" "\<And>p. p \<in> set ps \<Longrightarrow> rg_clients g p \<noteq> None"
  shows "\<exists>g'. drop_clients env ps g = Some g' \<and> glob_inv g' \<and> same_conf g g' \<and> rg_clients g' = (rg_clients g) |` (- set ps)"
  using assms
proof (induction ps arbitrary: g)
  case (Cons p ps)
  obtain c where "rg_clients g p = Some c" using Cons.prems(3) [of p] by auto
  then obtain g1 where g1: "redsocks_drop_client env p g = Some g1" "rg_clients g1 = (rg_clients g)(p := None)" "glob_inv g1" "same_conf g g1"
    using drop_outcome [of g p c env] Cons.prems(1) by (auto simp: glob_inv_def)
  have "distinct ps" "\<And>q. q \<in> set ps \<Longrightarrow> rg_clients g1 q \<noteq> None" using Cons.prems g1(2) by auto
  then obtain g' where g': "drop_clients env ps g1 = Some g'" "glob_inv g'" "same_conf g1 g'" "rg_clients g' = (rg_clients g1) |` (- set ps)"
    using Cons.IH [OF g1(3)] by blast
  have "rg_clients g' = (rg_clients g) |` (- set (p # ps))" using g'(4) g1(2) by (auto simp: restrict_map_def fun_eq_iff)
  then show ?case using g' g1 same_conf_trans by auto
qed (auto simp: restrict_map_def)

lemma stop_listening:
  assumes inv: "glob_inv g" and i: "i < length (rg_instances g)"
  shows "glob_inv (update_instance i (\<lambda>s. s\<lparr>ri_listening := False\<rparr>) g)" "same_conf g (update_instance i (\<lambda>s. s\<lparr>ri_listening := False\<rparr>) g)"
proof -
  let ?g = "update_instance i (\<lambda>s. s\<lparr>ri_listening := False\<rparr>) g" and ?xs = "rg_instances g"
  have inst: "rg_instances ?g ! j = (if j = i then (?xs ! j)\<lparr>ri_listening := False\<rparr> else ?xs ! j)" if "j < length ?xs" for j
    using that i by (simp add: update_instance_def)
  have cl: "ri_clients (rg_instances ?g ! j) = ri_clients (?xs ! j)" "auth_ok (rg_instances ?g ! j) = auth_ok (?xs ! j)"
    "ri_listening (rg_instances ?g ! j) \<Longrightarrow> ri_listening (?xs ! j)" if "j < length ?xs" for j using inst [OF that] by (auto simp: auth_ok_def split: if_splits)
  have len: "length (rg_instances ?g) = length ?xs" by simp
  have l: "listed ?g j q = listed g j q" for j q using cl(1) len by (auto simp: listed_def)
  have "map (length \<circ> ri_clients) (rg_instances ?g) = map (length \<circ> ri_clients) ?xs" using cl len by (intro nth_equalityI) simp_all
  then have tot: "conn_total ?g = conn_total g" by (simp add: conn_total_def)
  have "auth_ok x \<and> (ri_listening x \<longrightarrow> rg_conn g < rg_conn_max g)" if x: "x \<in> set (rg_instances ?g)" for x
  proof -
    obtain j where j: "j < length ?xs" "x = rg_instances ?g ! j" using x len by (auto simp: in_set_conv_nth)
    have "auth_ok (?xs ! j)" "ri_listening (?xs ! j) \<longrightarrow> rg_conn g < rg_conn_max g" using inv nth_mem [OF j(1)] by (auto simp: glob_inv_def acct_inv_def)
    then show ?thesis using cl(2,3) [OF j(1)] j(2) by blast
  qed
  then show "glob_inv ?g" using inv l tot cl(1) unfolding glob_inv_def acct_inv_def by simp
  show "same_conf g ?g" by (rule same_conf_update) simp
qed

lemma fini_instances_outcome:
  assumes "glob_inv g" "\<And>i. i \<in> set is \<Longrightarrow> i < length (rg_instances g)"
  shows "\<exists>g'. fini_instances env is g = Some g' \<and> glob_inv g' \<and> same_conf g g' \<and> (\<forall>q c. rg_clients g' q = Some c \<longleftrightarrow> rg_clients g q = Some c \<and> rc_instance c \<notin> set is)"
  using assms
proof (induction "is" arbitrary: g)
  case (Cons i "is")
  let ?ps = "ri_clients (rg_instances g ! i)"
  have i: "i < length (rg_instances g)" using Cons.prems(2) by simp
  have m: "q \<in> set ?ps \<longleftrightarrow> (\<exists>c. rg_clients g q = Some c \<and> rc_instance c = i)" for q
    using Cons.prems(1) i unfolding glob_inv_def acct_inv_def listed_def by blast
  have d: "distinct ?ps" using Cons.prems(1) i by (simp add: glob_inv_def acct_inv_def)
  obtain g1 where g1: "drop_clients env ?ps g = Some g1" "glob_inv g1" "same_conf g g1" "rg_clients g1 = (rg_clients g) |` (- set ?ps)"
    using drop_clients_outcome [OF Cons.prems(1) d, of env] m by auto
  let ?g2 = "update_instance i (\<lambda>s. s\<lparr>ri_listening := False\<rparr>) g1"
  let ?g3 = "redsocks_close env ?g2"
  have len: "length (rg_instances g1) = length (rg_instances g)" by (rule same_conf_length [OF g1(3)])
  have g2: "glob_inv ?g2" "same_conf g1 ?g2" using stop_listening [OF g1(2), of i] i len by simp_all
  have low: "lowered ?g2 ?g3" by (rule lowered_close)
  have g3: "glob_inv ?g3" "rg_clients ?g3 = rg_clients g1" "same_conf g ?g3" "length (rg_instances ?g3) = length (rg_instances g)"
    using lowered_inv [OF low g2(1)] lowered_facts [OF low] g1(3) g2(2) len by (auto intro: same_conf_trans)
  obtain g' where g': "fini_instances env is ?g3 = Some g'" "glob_inv g'" "same_conf ?g3 g'"
      "\<forall>q c. rg_clients g' q = Some c \<longleftrightarrow> rg_clients ?g3 q = Some c \<and> rc_instance c \<notin> set is"
    using Cons.IH [OF g3(1)] Cons.prems(2) g3(4) by auto
  have "rg_clients g' q = Some c \<longleftrightarrow> rg_clients g q = Some c \<and> rc_instance c \<notin> set (i # is)" for q c
    using g'(4) m unfolding g3(2) g1(4) restrict_map_def by auto
  moreover have "same_conf g g'" using g3(3) g'(3) by (rule same_conf_trans)
  ultimately show ?case using g'(1,2) g1(1) by simp
qed simp

lemma fini_outcome:
  assumes inv: "glob_inv g"
  shows "\<exists>g'. redsocks_fini env g = Some g' \<and> rg_clients g' = Map.empty \<and> rg_conn g' = 0 \<and> rg_instances g' = []"
proof -
  obtain g1 where g1: "fini_instances env [0..<length (rg_instances g)] g = Some g1" "glob_inv g1" "same_conf g g1"
      "\<forall>q c. rg_clients g1 q = Some c \<longleftrightarrow> rg_clients g q = Some c \<and> rc_instance c \<notin> set [0..<length (rg_instances g)]"
    using fini_instances_outcome [OF inv, of "[0..<length (rg_instances g)]" env] by auto
  have "rg_clients g q = Some c \<Longrightarrow> rc_instance c < length (rg_instances g)" for q c using inv by (auto simp: glob_inv_def acct_inv_def listed_def)
  then have "rg_clients g1 q \<noteq> Some c" for q c using g1(4) by auto
  then have e: "rg_clients g1 = Map.empty" by (meson ext not_None_eq)
  have "ri_clients x = []" if "x \<in> set (rg_instances g1)" for x
  proof -
    have n: "\<not> listed g1 i q" for i q using g1(2) e by (simp add: glob_inv_def acct_inv_def)
    obtain i where i: "i < length (rg_instances g1)" "x = rg_instances g1 ! i" using \<open>x \<in> _\<close> by (auto simp: in_set_conv_nth)
    have "q \<notin> set (ri_clients x)" for q using n [of i q] i by (simp add: listed_def)
    then show ?thesis by (cases "ri_clients x") auto
  qed
  then have "conn_total g1 = 0" by (simp add: conn_total_def)
  then have "rg_conn g1 = 0" using g1(2) by (simp add: glob_inv_def acct_inv_def unat_eq_zero)
  then show ?thesis using g1(1) e by (simp add: redsocks_fini_def)
qed

end
