(* ===== verification/RedsocksEvents.thy ===== *)
theory RedsocksEvents
  imports RedsocksPressure
begin

text \<open>
  What libevent reports to redsocks, as events: data read into a buffer, the end of file, an error, data
  written from a buffer, a connection to accept, and the timer of the backoff. The lemmas give the
  outcome of each event for its client.
\<close>

section \<open>Events\<close>

datatype rs_event = RS_read ptr side bytes | RS_eof ptr side | RS_error ptr side | RS_write ptr side nat | RS_accept nat accepted | RS_backoff

definition be_at :: "redsocks \<Rightarrow> ptr \<Rightarrow> side \<Rightarrow> bufferevent option" where
  "be_at g p sd = rg_clients g p \<bind> be_of sd"

definition room_for :: "nat \<Rightarrow> bufferevent \<Rightarrow> bool" where
  "room_for n be \<longleftrightarrow> snd (be_wm_read be) = 0 \<or> length (be_input be) + n \<le> snd (be_wm_read be)"

definition rs_possible :: "rs_env \<Rightarrow> rs_event \<Rightarrow> redsocks \<Rightarrow> bool" where
  "rs_possible env e g = (case e of
     RS_read p sd data \<Rightarrow> (case be_at g p sd of Some be \<Rightarrow> EV_READ \<in> be_enabled be \<and> data \<noteq> [] \<and> room_for (length data) be | None \<Rightarrow> False)
   | RS_eof p sd \<Rightarrow> (case be_at g p sd of Some be \<Rightarrow> EV_READ \<in> be_enabled be \<and> room_for 1 be | None \<Rightarrow> False)
   | RS_error p sd \<Rightarrow> be_at g p sd \<noteq> None
   | RS_write p sd n \<Rightarrow> (case be_at g p sd of Some be \<Rightarrow> be_ev_write be \<and> n \<le> length (be_output be) \<and> (be_output be \<noteq> [] \<longrightarrow> 0 < n) | None \<Rightarrow> False)
   | RS_accept i acc \<Rightarrow> i < length (rg_instances g) \<and> ri_listening (rg_instances g ! i) \<and> (case en_calloc env of Some p \<Rightarrow> rg_clients g p = None | None \<Rightarrow> True)
   | RS_backoff \<Rightarrow> rg_accept_backoff_ev g \<noteq> None)"

definition be_read :: "bytes \<Rightarrow> bufferevent \<Rightarrow> bufferevent" where
  "be_read data be = be\<lparr>be_input := be_input be @ data\<rparr>"

definition be_written :: "nat \<Rightarrow> bufferevent \<Rightarrow> bufferevent" where
  "be_written n be = be\<lparr>be_output := drop n (be_output be), be_ev_write := (n < length (be_output be))\<rparr>"

definition rs_event_step :: "rs_env \<Rightarrow> rs_event \<Rightarrow> redsocks \<Rightarrow> redsocks option" where
  "rs_event_step env e g = (case e of
     RS_read p sd data \<Rightarrow> do {
       c \<leftarrow> rg_clients g p;
       be \<leftarrow> be_of sd c;
       let be1 = be_read data be;
       let g1 = put_client p (set_be sd be1 c) g;
       if fst (be_wm_read be1) \<le> length (be_input be1) then run_callback env (be_readcb be1) p g1 else Some g1 }
   | RS_eof p sd \<Rightarrow> do {
       c \<leftarrow> rg_clients g p;
       be \<leftarrow> be_of sd c;
       redsocks_event_error env p sd True (put_client p (set_be sd (bufferevent_disable {EV_READ} be) c) g) }
   | RS_error p sd \<Rightarrow> redsocks_event_error env p sd False g
   | RS_write p sd n \<Rightarrow> do {
       c \<leftarrow> rg_clients g p;
       be \<leftarrow> be_of sd c;
       let be1 = be_written n be;
       let g1 = put_client p (set_be sd be1 c) g;
       if length (be_output be1) \<le> fst (be_wm_write be1) then run_callback env (be_writecb be1) p g1 else Some g1 }
   | RS_accept i acc \<Rightarrow> redsocks_accept_client env i acc g
   | RS_backoff \<Rightarrow> redsocks_accept_backoff env (g\<lparr>rg_accept_backoff_ev := None\<rparr>))"

fun bytes_read :: "rs_event \<Rightarrow> ptr \<Rightarrow> side \<Rightarrow> bytes" where
  "bytes_read (RS_read p sd data) q d = (if p = q \<and> sd = d then data else [])"
| "bytes_read _ q d = []"

fun bytes_written :: "rs_event \<Rightarrow> ptr \<Rightarrow> side \<Rightarrow> nat" where
  "bytes_written (RS_write p sd n) q d = (if p = q \<and> sd = d then n else 0)"
| "bytes_written _ q d = 0"

text \<open>What an event may do to a client.\<close>

definition moved :: "side \<Rightarrow> nat \<Rightarrow> bytes \<Rightarrow> redsocks_client \<Rightarrow> redsocks_client \<Rightarrow> bool" where
  "moved d n data c c' \<longleftrightarrow> outp (other d) c' @ inp d c' = drop n (outp (other d) c) @ inp d c @ data \<and>
     (inp d c' = [] \<or> outp (other d) c' \<noteq> [] \<or> inp d c' = inp d c \<and> outp (other d) c' = outp (other d) c) \<and>
     (EV_WRITE \<in> evshut_of (other d) c' \<longrightarrow> outp (other d) c' = [] \<and> (inp d c' = [] \<or> inp d c' = inp d c \<and> outp (other d) c' = outp (other d) c) \<or>
        EV_WRITE \<in> evshut_of (other d) c \<and> inp d c' = inp d c \<and> outp (other d) c' = outp (other d) c)"

definition client_step :: "redsocks_config \<times> relay_subsys \<Rightarrow> (side \<Rightarrow> bytes) \<Rightarrow> (side \<Rightarrow> nat) \<Rightarrow> redsocks_client \<Rightarrow> redsocks_client \<Rightarrow> bool" where
  "client_step conf rd wr c c' \<longleftrightarrow> client_ok conf c' \<and> rc_instance c' = rc_instance c \<and>
     (if rc_state c = pump_active then rc_state c' = pump_active \<and> (\<forall>d. moved d (wr (other d)) (rd d) c c')
      else if rc_state c' = pump_active
      then pump_started c c' \<and> accepted_by (snd conf) c (inp RELAY c @ rd RELAY) \<and> rd CLIENT = [] \<or>
        pump_refused c' \<and> cf_on_proxy_fail (fst conf) = ONFAIL_FORWARD_HTTP_ERR
      else inp CLIENT c' = inp CLIENT c @ rd CLIENT \<and> heard (snd conf) c (inp RELAY c @ rd RELAY) c')"

lemma side_neq [simp]: "sd \<noteq> other sd"
  by (cases sd) simp_all

lemma moved_same: "inp d c' = inp d c \<Longrightarrow> outp (other d) c' = outp (other d) c \<Longrightarrow> (EV_WRITE \<in> evshut_of (other d) c' \<longrightarrow> EV_WRITE \<in> evshut_of (other d) c) \<Longrightarrow> moved d 0 [] c c'"
  by (auto simp: moved_def)

lemma pump_client_step:
  assumes s: "pump_step d c1 c'" and st: "rc_state c = pump_active" and i: "rc_instance c1 = rc_instance c"
    and c1: "inp d c1 = inp d c @ rd d" "outp (other d) c1 = drop (wr (other d)) (outp (other d) c)" "EV_WRITE \<notin> evshut_of (other d) c1"
    and other: "inp (other d) c1 = inp (other d) c" "outp d c1 = outp d c" "evshut_of d c1 = evshut_of d c" "rd (other d) = []" "wr d = 0"
  shows "client_step conf rd wr c c'"
proof -
  have p: "pump_ok c'" using s by (simp add: pump_step_def)
  then have "rc_state c' = pump_active" by (simp add: pump_ok_def)
  then have "client_ok conf c'" using p by (simp add: client_ok_def)
  moreover have "moved d (wr (other d)) (rd d) c c'" using s c1 by (auto simp: moved_def pump_step_def)
  moreover have "moved (other d) (wr d) (rd (other d)) c c'" unfolding other by (rule moved_same) (use s other in \<open>simp_all add: pump_step_def\<close>)
  ultimately show ?thesis using st \<open>rc_state c' = pump_active\<close> s i by (simp add: client_step_def all_sides [of _ d] pump_step_def)
qed


lemma hand_client_step:
  assumes s: "hand_step conf c1 c'" and st: "rc_state c \<noteq> pump_active"
    and c1: "rc_instance c1 = rc_instance c" "rc_client c1 = rc_client c" "outp RELAY c1 = outp RELAY c" "rc_state c1 = rc_state c" "rc_to_skip c1 = rc_to_skip c"
    and rd: "inp RELAY c1 = inp RELAY c @ rd RELAY" "rd CLIENT = []"
  shows "client_step conf rd wr c c'"
proof -
  have i: "inp CLIENT c1 = inp CLIENT c" using c1(2) by (simp add: inp_def)
  consider (hand) "hand_ok conf c'" "rc_client c' = rc_client c1" "heard (snd conf) c1 (inp RELAY c1) c'" | (start) "pump_started c1 c'" "accepted_by (snd conf) c1 (inp RELAY c1)"
    | (refused) "pump_refused c'" "cf_on_proxy_fail (fst conf) = ONFAIL_FORWARD_HTTP_ERR"
    using s by (auto simp: hand_step_def)
  then show ?thesis
  proof cases
    case hand
    then have "rc_state c' \<noteq> pump_active" "inp CLIENT c' = inp CLIENT c" using c1(2) by (auto simp: hand_ok_def inp_def)
    moreover have "heard (snd conf) c (inp RELAY c @ rd RELAY) c'" using hand(3) rd(1) c1(4,5) by (simp add: heard_def)
    ultimately show ?thesis using hand s st rd c1 by (simp add: client_step_def client_ok_def hand_step_def)
  next
    case start
    then have "pump_started c c'" "rc_state c' = pump_active" "pump_ok c'" using i c1 by (auto simp: pump_started_def pump_ok_def)
    moreover have "accepted_by (snd conf) c (inp RELAY c @ rd RELAY)" using start(2) rd(1) c1(4,5) by (simp add: accepted_by_def)
    ultimately show ?thesis using start s st rd c1 by (simp add: client_step_def client_ok_def hand_step_def)
  next
    case refused
    then have "rc_state c' = pump_active" "pump_ok c'" by (auto simp: pump_refused_def pump_ok_def)
    then show ?thesis using refused s st rd c1 by (simp add: client_step_def client_ok_def hand_step_def)
  qed
qed

text \<open>The callbacks of the pump, by side.\<close>

lemma run_pump_callback:
  assumes "rg_clients g p = Some c"
  shows "run_callback env (if d = CLIENT then CB_relay_clientread else CB_relay_relayread) p g = redsocks_relay_readcb p d (put_client p (redsocks_touch_client env c) g)"
    "run_callback env (if d = CLIENT then CB_relay_relaywrite else CB_relay_clientwrite) p g = redsocks_relay_writecb env p d (put_client p (redsocks_touch_client env c) g)"
  using assms by (cases d; simp add: run_callback_def redsocks_relay_cb_def)+

lemma pump_base_touch [simp]: "pump_base (redsocks_touch_client env c) d f t = pump_base c d f t"
  by (simp add: pump_base_def shut_both_def redsocks_touch_client_def) (cases d; simp)

lemma pump_step_touch: "pump_step d (redsocks_touch_client env c) = pump_step d c"
  by (simp add: fun_eq_iff pump_step_def inp_def outp_def)

lemma pump_read_outcome:
  assumes inv: "glob_inv g" "rg_clients g p = Some c" and ok: "client_ok conf c" and st: "rc_state c = pump_active"
    and f: "be_of d c = Some f" "EV_READ \<in> be_enabled f"
  shows "outcome p g (client_step conf (bytes_read (RS_read p d data) p) (bytes_written (RS_read p d data) p) c) (rs_event_step env (RS_read p d data) g)"
proof -
  obtain t where t: "be_of (other d) c = Some t" "pump_base c d f t" "flow_ok f (evshut_of d c) t (evshut_of (other d) c)" "flow_ok t (evshut_of (other d) c) f (evshut_of d c)"
    by (rule pump_flows [OF ok st f(1)])
  let ?f = "be_read data f"
  let ?c1 = "set_be d ?f c"
  let ?c2 = "redsocks_touch_client env ?c1"
  let ?g = "put_client p ?c2 g"
  have inv1: "glob_inv ?g" "rg_clients ?g p = Some ?c2" using inv by (auto intro!: glob_inv_put [OF inv])
  have b: "pump_base ?c2 d ?f t" using t(2) by (simp add: pump_base_def shut_both_sides [of _ d] be_read_def)
  have fl: "flow_pre ?f (evshut_of d ?c2) t (evshut_of (other d) ?c2)" "flow_ok t (evshut_of (other d) ?c2) ?f (evshut_of d ?c2)" "EV_READ \<in> be_enabled ?f"
    using t(3,4) f(2) by (simp_all add: flow_ok_def flow_pre_def be_read_def)
  have nw: "EV_WRITE \<notin> evshut_of (other d) c" by (rule reading_open(2) [OF ok f])
  have "outcome p ?g (pump_step d ?c2) (redsocks_relay_readcb p d ?g)" by (rule relay_readcb_outcome [OF inv1 b fl])
  then have "outcome p g (pump_step d ?c1) (redsocks_relay_readcb p d ?g)" unfolding pump_step_touch by (rule outcome_from_put)
  then have o1: "outcome p g (client_step conf (bytes_read (RS_read p d data) p) (bytes_written (RS_read p d data) p) c) (redsocks_relay_readcb p d ?g)"
    by (rule outcome_mono) (rule pump_client_step [where ?c1.0 = ?c1 and d = d], use st f t(1) nw in \<open>simp_all add: inp_def outp_def be_read_def\<close>)
  have "be_wm_read f = (0, 4096)" "be_readcb f = (if d = CLIENT then CB_relay_clientread else CB_relay_relayread)" using t(2,3) by (simp_all add: flow_ok_def flow_pre_def pump_base_def)
  then have "rs_event_step env (RS_read p d data) g = redsocks_relay_readcb p d ?g"
    using inv(2) f(1) run_pump_callback(1) [of "put_client p ?c1 g" p ?c1 env d] by (simp add: rs_event_step_def be_read_def Let_def)
  then show ?thesis using o1 by simp
qed

lemma pump_write_outcome:
  assumes inv: "glob_inv g" "rg_clients g p = Some c" and ok: "client_ok conf c" and st: "rc_state c = pump_active"
    and t: "be_of sd c = Some t" "be_ev_write t" "n \<le> length (be_output t)"
  shows "outcome p g (client_step conf (bytes_read (RS_write p sd n) p) (bytes_written (RS_write p sd n) p) c) (rs_event_step env (RS_write p sd n) g)"
proof -
  define d where "d = other sd"
  have sd: "sd = other d" "sd \<noteq> d" by (simp_all add: d_def)
  obtain f0 where "be_of d c = Some f0" "flow_ok t (evshut_of sd c) f0 (evshut_of d c)" unfolding d_def by (rule pump_flows [OF ok st t(1)])
  then obtain f where f: "be_of d c = Some f" "pump_base c d f t" "flow_ok f (evshut_of d c) t (evshut_of sd c)" "flow_ok t (evshut_of sd c) f (evshut_of d c)"
    using pump_flows [OF ok st, of d f0] t(1) sd(1) by (metis option.inject)
  let ?t = "be_written n t"
  let ?c1 = "set_be sd ?t c"
  let ?c2 = "redsocks_touch_client env ?c1"
  let ?g = "put_client p ?c2 g"
  have inv1: "glob_inv ?g" "rg_clients ?g p = Some ?c2" using inv by (auto intro!: glob_inv_put [OF inv])
  have w: "EV_WRITE \<in> be_enabled t" "EV_WRITE \<notin> evshut_of sd c" using f(3,4) t(2) by (auto simp: flow_ok_def flow_pre_def disjoint_ev_def)
  have b: "pump_base ?c1 d f ?t" using f(2) unfolding sd(1) by (simp add: pump_base_def shut_both_sides [of _ d] be_written_def side_access)
  have acc: "be_of d ?c1 = Some f" "be_of sd ?c1 = Some ?t" "evshut_of sd ?c1 = evshut_of sd c" "evshut_of d ?c1 = evshut_of d c" using f(1) unfolding sd(1) by simp_all
  have fl: "flow_pre f (evshut_of d c) ?t (evshut_of sd c)" "flow_ok ?t (evshut_of sd c) f (evshut_of d c)"
    using f(3,4) w by (auto simp: flow_ok_def flow_pre_def be_written_def)
  have wm: "be_wm_write t = (0, 4096)" "be_writecb t = (if d = CLIENT then CB_relay_relaywrite else CB_relay_clientwrite)" using f(2,3) by (simp_all add: flow_ok_def flow_pre_def pump_base_def)
  let ?R = "client_step conf (bytes_read (RS_write p sd n) p) (bytes_written (RS_write p sd n) p) c"
  have cs: "pump_step d ?c1 c' \<Longrightarrow> ?R c'" for c'
    by (rule pump_client_step [where ?c1.0 = ?c1 and d = d]) (use st f(1) t w acc in \<open>simp_all add: inp_def outp_def be_written_def sd(2) sd(1) [symmetric] d_def [symmetric]\<close>)
  show ?thesis
  proof (cases "n < length (be_output t)")
    case True
    have "flow_ok f (evshut_of d c) ?t (evshut_of sd c)" using fl(1) True by (simp add: flow_ok_def be_written_def)
    then have "pump_ok ?c1" using b fl(2) pump_okI [of ?c1 d f ?t] acc by (simp add: sd(1))
    then have "pump_step d ?c1 ?c1" using True acc t(1) w unfolding pump_step_def sd [symmetric] by (simp add: outp_def inp_def be_written_def)
    then have "outcome p g ?R (Some (put_client p ?c1 g))" using inv cs by (intro outcome_put [OF inv]) simp_all
    then show ?thesis using True inv(2) t(1) wm by (simp add: rs_event_step_def be_written_def Let_def)
  next
    case False
    then have e: "be_output ?t = []" "EV_WRITE \<in> be_enabled ?t" using w by (simp_all add: be_written_def)
    have "outcome p ?g (pump_step d ?c2) (redsocks_relay_writecb env p d ?g)"
      using b fl e acc by (intro relay_writecb_outcome [OF inv1, of d f ?t]) (simp_all add: sd(1))
    then have "outcome p g (pump_step d ?c1) (redsocks_relay_writecb env p d ?g)" unfolding pump_step_touch by (rule outcome_from_put)
    then have "outcome p g ?R (redsocks_relay_writecb env p d ?g)" by (rule outcome_mono) (rule cs)
    moreover have "rs_event_step env (RS_write p sd n) g = redsocks_relay_writecb env p d ?g"
      using inv(2) t(1) wm False run_pump_callback(2) [of "put_client p ?c1 g" p ?c1 env d] by (simp add: rs_event_step_def be_written_def Let_def)
    ultimately show ?thesis by simp
  qed
qed


lemma hand_parts:
  assumes "client_ok conf c" "rc_state c \<noteq> pump_active"
  obtains cl rl where "hand_ok conf c" "rc_client c = Some cl" "rc_relay c = Some rl" "wait_ok cl (rc_client_evshut c)" "relay_ok (snd conf) (rc_state c) rl (rc_relay_evshut c)"
  using assms by (auto simp: client_ok_def hand_ok_def)

lemma hand_relay:
  assumes "hand_ok conf c" "rc_relay c = Some rl" "relay_ok (snd conf) (rc_state c) rl' (rc_relay_evshut c)"
  shows "hand_ok conf (c\<lparr>rc_relay := Some rl'\<rparr>)"
  using assms by (auto simp: hand_ok_def)

lemma hand_read_outcome:
  assumes inv: "glob_inv g" "rg_clients g p = Some c" and ok: "client_ok (conf_at g (rc_instance c)) c" and st: "rc_state c \<noteq> pump_active"
    and f: "be_of d c = Some f" "EV_READ \<in> be_enabled f"
  shows "outcome p g (client_step (conf_at g (rc_instance c)) (bytes_read (RS_read p d data) p) (bytes_written (RS_read p d data) p) c)
     (rs_event_step env (RS_read p d data) g)" (is "outcome p g ?R _")
proof -
  let ?conf = "conf_at g (rc_instance c)"
  obtain cl rl where h: "hand_ok ?conf c" "rc_client c = Some cl" "rc_relay c = Some rl" "wait_ok cl (rc_client_evshut c)" "relay_ok (snd ?conf) (rc_state c) rl (rc_relay_evshut c)"
    by (rule hand_parts [OF ok st])
  let ?c1 = "set_be d (be_read data f) c"
  let ?g = "put_client p ?c1 g"
  have inv1: "glob_inv ?g" "rg_clients ?g p = Some ?c1" using inv by (auto intro!: glob_inv_put [OF inv])
  have r: "rs_event_step env (RS_read p d data) g = (if fst (be_wm_read f) \<le> length (be_input f @ data) then run_callback env (be_readcb f) p ?g else Some ?g)"
    using inv(2) f(1) by (simp add: rs_event_step_def be_read_def Let_def)
  show ?thesis
  proof (cases d)
    case CLIENT
    have "wait_ok (be_read data f) (rc_client_evshut c)" "be_readcb f = CB_none" using h f(1) CLIENT by (simp_all add: wait_ok_def be_read_def)
    then have "hand_ok ?conf ?c1" using h CLIENT by (auto simp: hand_ok_def)
    moreover have "inp CLIENT ?c1 = inp CLIENT c @ data" using f(1) CLIENT by (simp add: inp_def be_read_def)
    moreover have "heard (snd ?conf) c (inp RELAY c) ?c1" using CLIENT by (intro heard_same) (simp_all add: inp_def)
    ultimately have "?R ?c1" using st CLIENT by (simp add: client_step_def client_ok_def)
    then have "outcome p g ?R (Some ?g)" by (intro outcome_put [OF inv]) simp_all
    then show ?thesis using r \<open>be_readcb f = CB_none\<close> by (simp add: run_callback_def)
  next
    case RELAY
    have fr: "f = rl" using f(1) h(3) RELAY by simp
    have talk: "be_readcb rl = CB_ss_read" "relay_ok (snd ?conf) (rc_state c) (be_read data rl) (rc_relay_evshut c)"
      using h(5) f(2) unfolding fr relay_ok_def be_read_def by auto
    have c1: "?c1 = c\<lparr>rc_relay := Some (be_read data rl)\<rparr>" using RELAY fr by simp
    have hand: "hand_ok ?conf ?c1" unfolding c1 by (rule hand_relay [OF h(1,3) talk(2)])
    then have t: "talking (conf_at ?g (rc_instance ?c1)) ?c1 cl (be_read data rl)" using h(2) f(2) talk(1) RELAY fr by (simp add: talking_def be_read_def)
    have i: "instance_of ?c1 ?g = instance_of c g" by (simp add: c1 instance_of_def)
    have cs: "?R c'" if "hand_step ?conf ?c1 c'" for c'
      using that st RELAY by (intro hand_client_step [where ?c1.0 = ?c1]) (simp_all add: fr inp_def outp_def be_read_def h(3))
    have "hand_step ?conf ?c1 ?c1" using hand heard_same [of ?c1 "inp RELAY ?c1" ?c1] by (simp add: hand_step_def)
    then have "outcome p g ?R (Some ?g)" using cs by (intro outcome_put [OF inv]) simp_all
    moreover have "outcome p g ?R (run_callback env CB_ss_read p ?g)"
    proof -
      have "outcome p ?g (hand_step ?conf ?c1) (ss_readcb env (snd ?conf) p ?g)"
        using socks4_read_outcome [OF inv1 t] socks5_read_outcome [OF inv1 t] httpc_read_outcome [OF inv1 t] i by (cases "snd ?conf") (simp_all add: ss_readcb_def c1)
      then have "outcome p g ?R (ss_readcb env (snd ?conf) p ?g)" by (rule outcome_mono [OF outcome_from_put]) (rule cs)
      then show ?thesis by (simp add: run_callback_def c1 instance_of_def conf_at_def)
    qed
    ultimately show ?thesis using r talk(1) fr by simp
  qed
qed


text \<open>
  The first write event of a connection to an HTTP proxy: the request is made from a stored challenge that is
  just \<open>Digest\<close>.
\<close>

definition reads_bare_challenge :: "rs_env \<Rightarrow> redsocks_client \<Rightarrow> side \<Rightarrow> redsocks \<Rightarrow> bool" where
  "reads_bare_challenge env c sd g \<longleftrightarrow> sd = RELAY \<and> rc_state c \<noteq> pump_active \<and> (case rc_relay c of Some be \<Rightarrow> be_writecb be = CB_relay_connected | None \<Rightarrow> False) \<and>
     en_connected_ok env \<and> ri_relay_ss (instance_of c g) = http_connect_subsys \<and> en_evbuffer_ok env \<and> \<not> chal_ok (ri_auth (instance_of c g))"

lemma hand_write_outcome:
  assumes inv: "glob_inv g" "rg_clients g p = Some c" and ok: "client_ok (conf_at g (rc_instance c)) c" and st: "rc_state c \<noteq> pump_active"
    and t: "be_of sd c = Some t" "be_ev_write t" "n \<le> length (be_output t)" and ch: "\<not> reads_bare_challenge env c sd g"
  shows "outcome p g (client_step (conf_at g (rc_instance c)) (bytes_read (RS_write p sd n) p) (bytes_written (RS_write p sd n) p) c)
     (rs_event_step env (RS_write p sd n) g)" (is "outcome p g ?R _")
proof -
  let ?conf = "conf_at g (rc_instance c)"
  obtain cl rl where h: "hand_ok ?conf c" "rc_client c = Some cl" "rc_relay c = Some rl" "wait_ok cl (rc_client_evshut c)" "relay_ok (snd ?conf) (rc_state c) rl (rc_relay_evshut c)"
    by (rule hand_parts [OF ok st])
  have sd: "sd = RELAY" "t = rl" using h(2-4) t by (cases sd; simp add: wait_ok_def)+
  let ?r = "be_written n rl"
  let ?c1 = "c\<lparr>rc_relay := Some ?r\<rparr>"
  let ?g = "put_client p ?c1 g"
  have inv1: "glob_inv ?g" "rg_clients ?g p = Some ?c1" using inv by (auto intro!: glob_inv_put [OF inv])
  have wm: "be_wm_write rl = (0, 0)" using h(5) by (simp add: relay_ok_def)
  have cs: "?R c'" if "hand_step ?conf c c'" for c' using that st sd by (intro hand_client_step [where ?c1.0 = c]) simp_all
  have r: "rs_event_step env (RS_write p sd n) g = (if n < length (be_output rl) then Some ?g else run_callback env (be_writecb rl) p ?g)"
    using inv(2) t sd wm by (simp add: rs_event_step_def be_written_def Let_def)
  consider (part) "n < length (be_output rl)" | (sent) "n = length (be_output rl)" "be_writecb rl = CB_ss_write"
    | (connected) "n = length (be_output rl)" "be_writecb rl = CB_relay_connected"
    using t(3) sd(2) h(5) unfolding relay_ok_def by fastforce
  then have "outcome p g (hand_step ?conf c) (rs_event_step env (RS_write p sd n) g)"
  proof cases
    case part
    then have "be_output rl \<noteq> []" by auto
    then have "relay_ok (snd ?conf) (rc_state c) ?r (rc_relay_evshut c)" using h(5) part t(2) sd(2) unfolding relay_ok_def be_written_def by auto
    then have "hand_ok ?conf ?c1" by (rule hand_relay [OF h(1,3)])
    moreover have "heard (snd ?conf) c (inp RELAY c) ?c1" using h(3) by (intro heard_same) (simp_all add: inp_def be_written_def)
    ultimately have "hand_step ?conf c ?c1" by (simp add: hand_step_def)
    then have "outcome p g (hand_step ?conf c) (Some ?g)" by (intro outcome_put [OF inv]) simp_all
    then show ?thesis using r part by simp
  next
    case sent
    have "?r = rl\<lparr>be_output := [], be_ev_write := False\<rparr>" using sent by (simp add: be_written_def)
    then have "outcome p ?g (hand_step ?conf c) (ss_writecb env (snd ?conf) p ?g)" by (intro sent_outcome [OF inv1 h(1,3) sent(2)]) simp_all
    then have "outcome p g (hand_step ?conf c) (ss_writecb env (snd ?conf) p ?g)" by (rule outcome_from_put)
    then show ?thesis using r sent by (simp add: run_callback_def instance_of_def conf_at_def)
  next
    case connected
    have con: "rc_state c = 0" "rc_relay_evshut c = {}" "be_enabled rl = {EV_WRITE}" "EV_WRITE \<notin> be_sock_shut rl" using h(5) connected(2) by (auto simp: relay_ok_def)
    let ?c2 = "redsocks_touch_client env ?c1"
    let ?r2 = "?r\<lparr>be_readcb := CB_ss_read, be_writecb := CB_ss_write\<rparr>"
    let ?c3 = "?c2\<lparr>rc_relay := Some ?r2\<rparr>"
    let ?g2 = "put_client p ?c2 ?g" and ?g3 = "put_client p ?c3 ?g"
    have inv2: "glob_inv ?g2" "rg_clients ?g2 p = Some ?c2" and inv3: "glob_inv ?g3" "rg_clients ?g3 p = Some ?c3" using inv by (auto intro!: glob_inv_put [OF inv])
    have pw: "snd ?conf = socks5_subsys \<and> rc_do_password c \<longrightarrow> cf_login (fst ?conf) \<noteq> None \<and> cf_password (fst ?conf) \<noteq> None" using h(1) by (simp add: hand_ok_def)
    have c3: "connected (conf_at ?g3 (rc_instance ?c3)) ?c3 cl ?r2" using con h(2,4) wm connected(1) pw by (simp add: connected_def be_written_def redsocks_touch_client_def)
    have ch3: "chal_ok (ri_auth (instance_of ?c3 ?g3))" if "en_connected_ok env" "snd ?conf = http_connect_subsys" "en_evbuffer_ok env"
      using ch that connected(2) h(3) sd(1) st by (simp add: instance_of_def reads_bare_challenge_def conf_at_def)
    have "outcome p ?g3 (hand_step (conf_at ?g3 (rc_instance ?c3)) c) (ss_writecb env (snd ?conf) p ?g3)" if "en_connected_ok env"
      using request_outcome [OF inv3 c3 _ ch3 [OF that], of "snd ?conf" env c] con(1) h(3) by (simp add: inp_def be_written_def)
    then have "outcome p g (hand_step ?conf c) (ss_writecb env (snd ?conf) p ?g3)" if "en_connected_ok env"
      using that outcome_from_put [of p ?c3 ?g, OF _, THEN outcome_from_put] by simp
    moreover have "outcome p g (hand_step ?conf c) (redsocks_drop_client env p ?g2)"
      using outcome_from_put [OF outcome_from_put [OF outcome_drop [OF inv2]]] by blast
    moreover have "run_callback env CB_relay_connected p ?g = (if en_connected_ok env then ss_writecb env (snd ?conf) p ?g3 else redsocks_drop_client env p ?g2)"
      by (simp add: run_callback_def redsocks_relay_connected_def Let_def instance_of_def conf_at_def)
    ultimately show ?thesis using r connected by simp
  qed
  then show ?thesis by (rule outcome_mono) (rule cs)
qed

lemma hand_write_fails:
  assumes inv: "glob_inv g" "rg_clients g p = Some c" and ok: "client_ok (conf_at g (rc_instance c)) c"
    and t: "be_of sd c = Some t" "n \<le> length (be_output t)" and ch: "reads_bare_challenge env c sd g"
  shows "rs_event_step env (RS_write p sd n) g = None"
proof -
  let ?conf = "conf_at g (rc_instance c)"
  have sd: "sd = RELAY" "rc_state c \<noteq> pump_active" "be_writecb t = CB_relay_connected" "en_connected_ok env" "ri_relay_ss (instance_of c g) = http_connect_subsys" "en_evbuffer_ok env"
      "\<not> chal_ok (ri_auth (instance_of c g))" using ch t(1) by (auto simp: reads_bare_challenge_def)
  obtain cl rl where h: "rc_relay c = Some rl" "relay_ok (snd ?conf) (rc_state c) rl (rc_relay_evshut c)" by (rule hand_parts [OF ok sd(2)])
  then have con: "rl = t" "rc_state c = 0" "be_output t = []" "be_wm_write t = (0, 0)" "n = 0" using t sd(1,3) by (auto simp: relay_ok_def)
  let ?r = "(be_written n t)\<lparr>be_readcb := CB_ss_read, be_writecb := CB_ss_write\<rparr>"
  let ?c1 = "c\<lparr>rc_relay := Some (be_written n t)\<rparr>"
  let ?c3 = "(redsocks_touch_client env ?c1)\<lparr>rc_relay := Some ?r\<rparr>"
  let ?g3 = "put_client p ?c3 (put_client p ?c1 g)"
  have inv3: "glob_inv ?g3" "rg_clients ?g3 p = Some ?c3" using inv by (auto intro!: glob_inv_put [OF inv])
  have "ss_writecb env http_connect_subsys p ?g3 = None"
    using sd(6,7) con(2) by (intro request_fails [OF inv3]) (simp_all add: instance_of_def)
  then show ?thesis
    using inv(2) t sd con by (simp add: rs_event_step_def be_written_def Let_def run_callback_def redsocks_relay_connected_def instance_of_def)
qed

lemma eof_client_step:
  assumes s: "eof_step conf d (redsocks_touch_client env c) c'" and ok: "client_ok conf c"
  shows "client_step conf (bytes_read (RS_eof p d) p) (bytes_written (RS_eof p d) p) c c'"
proof -
  have io: "inp sd c' = inp sd c" "outp sd c' = outp sd c" for sd using s by (simp_all add: eof_step_def inp_def outp_def)
  have "moved d 0 [] c c'" using s unfolding moved_def io by (auto simp: eof_step_def outp_def)
  moreover have "moved (other d) 0 [] c c'" using s io by (intro moved_same) (auto simp: eof_step_def)
  moreover have "rc_state c' = rc_state c" "rc_to_skip c' = rc_to_skip c" using s by (simp_all add: eof_step_def)
  then have "heard (snd conf) c (inp RELAY c) c'" using io(1) [of RELAY] by (intro heard_same) simp_all
  ultimately show ?thesis using s io by (simp add: client_step_def eof_step_def all_sides [of _ d])
qed

end
