(* ===== verification/RedsocksRun.thy ===== *)
theory RedsocksRun
  imports RedsocksEvents
begin

text \<open>
  Runs of redsocks from its start, with the history of each client, and the properties of the states
  that are reached: when a handler fails, that connections are accounted for, the streams arrive in order and
  complete, the pump does not stall and starts only when the proxy accepts.
\<close>

section \<open>Runs\<close>

definition rs_inv :: "redsocks \<Rightarrow> bool" where
  "rs_inv g \<longleftrightarrow> glob_inv g \<and> (\<forall>p c. rg_clients g p = Some c \<longrightarrow> client_ok (conf_at g (rc_instance c)) c)"

text \<open>The two events that end in undefined behaviour.\<close>

definition rs_fatal :: "rs_env \<Rightarrow> rs_event \<Rightarrow> redsocks \<Rightarrow> bool" where
  "rs_fatal env e g = (case e of
     RS_accept i acc \<Rightarrow> accept_drops_itself env acc g
   | RS_write p sd n \<Rightarrow> (case rg_clients g p of Some c \<Rightarrow> reads_bare_challenge env c sd g | None \<Rightarrow> False)
   | _ \<Rightarrow> False)"

definition rs_client_step :: "rs_event \<Rightarrow> ptr \<Rightarrow> redsocks \<Rightarrow> redsocks_client \<Rightarrow> redsocks_client \<Rightarrow> bool" where
  "rs_client_step e p g c = client_step (conf_at g (rc_instance c)) (bytes_read e p) (bytes_written e p) c"

text \<open>What an event does: clients go, one is new, and the others make their steps.\<close>

definition rs_outcome :: "rs_event \<Rightarrow> redsocks \<Rightarrow> redsocks \<Rightarrow> bool" where
  "rs_outcome e g g' \<longleftrightarrow> glob_inv g' \<and> same_conf g g' \<and>
     (\<forall>p c'. rg_clients g' p = Some c' \<longrightarrow>
       (case rg_clients g p of Some c \<Rightarrow> rs_client_step e p g c c' | None \<Rightarrow> rc_instance c' < length (rg_instances g) \<and> hand_ok (conf_at g (rc_instance c')) c' \<and> rc_state c' = 0 \<and> inp CLIENT c' = []))"

lemma rs_outcomeD:
  "rs_outcome e g g' \<Longrightarrow> rg_clients g' p = Some c' \<Longrightarrow> (case rg_clients g p of Some c \<Rightarrow> rs_client_step e p g c c'
     | None \<Rightarrow> rc_instance c' < length (rg_instances g) \<and> hand_ok (conf_at g (rc_instance c')) c' \<and> rc_state c' = 0 \<and> inp CLIENT c' = [])"
  by (simp add: rs_outcome_def)

lemma client_instance: "glob_inv g \<Longrightarrow> rg_clients g p = Some c \<Longrightarrow> rc_instance c < length (rg_instances g)"
  by (auto simp: glob_inv_def acct_inv_def listed_def)

lemma client_step_refl:
  assumes ok: "client_ok conf c" and n: "\<And>sd. rd sd = []" "\<And>sd. wr sd = 0"
  shows "client_step conf rd wr c c"
  using ok by (auto simp: client_step_def n intro: moved_same heard_same)

lemma step_bystander:
  assumes inv: "rs_inv g" and c: "rg_clients g q = Some c" and n: "\<And>sd. bytes_read e q sd = []" "\<And>sd. bytes_written e q sd = 0"
  shows "rs_client_step e q g c c"
  using inv c unfolding rs_client_step_def by (intro client_step_refl) (auto simp: rs_inv_def n)

lemma outcome_run:
  assumes inv: "rs_inv g" and c: "rg_clients g p = Some c" and r: "outcome p g (rs_client_step e p g c) (rs_event_step env e g)"
    and n: "\<And>q sd. q \<noteq> p \<Longrightarrow> bytes_read e q sd = [] \<and> bytes_written e q sd = 0"
  shows "\<exists>g'. rs_event_step env e g = Some g' \<and> rs_outcome e g g' \<and> quiet g g'"
proof -
  obtain g' where g': "rs_event_step env e g = Some g'" "glob_inv g'" "same_conf g g'" "quiet g g'"
      "rg_clients g' = (rg_clients g)(p := None) \<or> (\<exists>c'. rg_clients g' = (rg_clients g)(p \<mapsto> c') \<and> rs_client_step e p g c c')"
    using r by (auto simp: outcome_def)
  have "case rg_clients g q of Some c \<Rightarrow> rs_client_step e q g c c' | None \<Rightarrow> rc_instance c' < length (rg_instances g) \<and> hand_ok (conf_at g (rc_instance c')) c' \<and> rc_state c' = 0 \<and> inp CLIENT c' = []"
    if "rg_clients g' q = Some c'" for q c'
  proof (cases "q = p")
    case False
    then have "rg_clients g q = Some c'" using that g'(5) by auto
    then show ?thesis using step_bystander [OF inv, of q c' e] n [OF False] by simp
  qed (use that g'(5) c in auto)
  then show ?thesis using g'(1-4) by (auto simp: rs_outcome_def)
qed

lemma accept_run:
  assumes inv: "rs_inv g" and s: "accept_step i g g'" "i < length (rg_instances g)" and n: "\<And>q sd. bytes_read e q sd = [] \<and> bytes_written e q sd = 0"
  shows "rs_outcome e g g'"
proof -
  have "case rg_clients g q of Some c \<Rightarrow> rs_client_step e q g c c' | None \<Rightarrow> rc_instance c' < length (rg_instances g) \<and> hand_ok (conf_at g (rc_instance c')) c' \<and> rc_state c' = 0 \<and> inp CLIENT c' = []"
    if c': "rg_clients g' q = Some c'" for q c'
  proof -
    have "rg_clients g' q = rg_clients g q \<or> rg_clients g' q = None \<or>
        rg_clients g q = None \<and> (\<exists>c'. rg_clients g' q = Some c' \<and> rc_instance c' = i \<and> hand_ok (conf_at g i) c' \<and> rc_state c' = 0 \<and> inp CLIENT c' = [])"
      using s(1) unfolding accept_step_def by (elim conjE) (erule spec)
    then consider "rg_clients g q = Some c'" | "rg_clients g q = None" "rc_instance c' = i" "hand_ok (conf_at g i) c'" "rc_state c' = 0" "inp CLIENT c' = []"
      using c' by auto
    then show ?thesis using step_bystander [OF inv, of q c' e] n s(2) by cases simp_all
  qed
  then show ?thesis using s(1) by (simp add: rs_outcome_def accept_step_def)
qed


text \<open>In a state that is in order, every event that can happen is handled, but for the two.\<close>

lemma event_outcome:
  assumes inv: "rs_inv g" and e: "rs_possible env e g" and fatal: "\<not> rs_fatal env e g"
  shows "\<exists>g'. rs_event_step env e g = Some g' \<and> rs_outcome e g g' \<and> (e \<noteq> RS_backoff \<longrightarrow> (\<forall>i acc. e \<noteq> RS_accept i acc) \<longrightarrow> quiet g g')"
proof -
  have gi: "glob_inv g" using inv by (simp add: rs_inv_def)
  have ok: "client_ok (conf_at g (rc_instance c)) c" if "rg_clients g p = Some c" for p c using inv that by (simp add: rs_inv_def)
  show ?thesis
  proof (cases e)
    case (RS_read p sd data)
    obtain c be where c: "rg_clients g p = Some c" "be_of sd c = Some be" "EV_READ \<in> be_enabled be" using e RS_read by (auto simp: rs_possible_def be_at_def split: option.splits bind_splits)
    have "outcome p g (rs_client_step e p g c) (rs_event_step env e g)" unfolding RS_read rs_client_step_def
      using pump_read_outcome [OF gi c(1) ok [OF c(1)] _ c(2,3)] hand_read_outcome [OF gi c(1) ok [OF c(1)] _ c(2,3)] by (cases "rc_state c = pump_active") simp_all
    then show ?thesis using outcome_run [OF inv c(1)] RS_read by auto
  next
    case (RS_eof p sd)
    obtain c be where c: "rg_clients g p = Some c" "be_of sd c = Some be" "EV_READ \<in> be_enabled be" using e RS_eof by (auto simp: rs_possible_def be_at_def split: option.splits bind_splits)
    have "rs_event_step env e g = redsocks_event_error env p sd True (put_client p (set_be sd (bufferevent_disable {EV_READ} be) c) g)"
      using c RS_eof by (simp add: rs_event_step_def)
    then have "outcome p g (rs_client_step e p g c) (rs_event_step env e g)" unfolding RS_eof rs_client_step_def
      using outcome_mono [OF eof_outcome [OF gi c(1) ok [OF c(1)] c(2,3), of env] eof_client_step [OF _ ok [OF c(1)]]] by simp
    then show ?thesis using outcome_run [OF inv c(1)] RS_eof by auto
  next
    case (RS_error p sd)
    obtain c be where c: "rg_clients g p = Some c" "be_of sd c = Some be" using e RS_error by (auto simp: rs_possible_def be_at_def split: option.splits bind_splits)
    have "outcome p g (rs_client_step e p g c) (rs_event_step env e g)" using error_outcome [OF gi c(1), of sd] c(2) RS_error by (simp add: rs_event_step_def)
    then show ?thesis using outcome_run [OF inv c(1)] RS_error by auto
  next
    case (RS_write p sd n)
    obtain c be where c: "rg_clients g p = Some c" "be_of sd c = Some be" "be_ev_write be" "n \<le> length (be_output be)"
      using e RS_write by (auto simp: rs_possible_def be_at_def split: option.splits bind_splits)
    have "\<not> reads_bare_challenge env c sd g" using fatal RS_write c(1) by (simp add: rs_fatal_def)
    then have "outcome p g (rs_client_step e p g c) (rs_event_step env e g)" unfolding RS_write rs_client_step_def
      using pump_write_outcome [OF gi c(1) ok [OF c(1)] _ c(2-4)] hand_write_outcome [OF gi c(1) ok [OF c(1)] _ c(2-4)] by (cases "rc_state c = pump_active") simp_all
    then show ?thesis using outcome_run [OF inv c(1)] RS_write by auto
  next
    case (RS_accept i acc)
    have i: "i < length (rg_instances g)" "ri_listening (rg_instances g ! i)" "\<And>p. en_calloc env = Some p \<Longrightarrow> rg_clients g p = None"
      using e RS_accept by (auto simp: rs_possible_def)
    obtain g' where g': "redsocks_accept_client env i acc g = Some g'" "accept_step i g g'"
      using accept_outcome [OF gi i, of env acc] fatal RS_accept by (auto simp: rs_fatal_def)
    have "rs_outcome e g g'" using RS_accept by (intro accept_run [OF inv g'(2) i(1)]) simp
    then show ?thesis using RS_accept g'(1) by (simp add: rs_event_step_def)
  next
    case RS_backoff
    show ?thesis
    proof (cases "rg_instances g")
      case Nil
      obtain g' where g': "redsocks_accept_backoff env (g\<lparr>rg_accept_backoff_ev := None\<rparr>) = Some g'" "accept_step 0 g g'" using accept_backoff_outcome [OF gi] by blast
      have "length (rg_instances g') = 0" "glob_inv g'" "same_conf g g'" using g'(2) Nil same_conf_length [of g g'] by (simp_all add: accept_step_def)
      then have "rg_clients g' p = None" for p by (cases "rg_clients g' p") (auto simp: glob_inv_def acct_inv_def listed_def)
      then have "rs_outcome e g g'" using g'(2) by (simp add: rs_outcome_def accept_step_def)
      then show ?thesis using RS_backoff g'(1) by (simp add: rs_event_step_def)
    next
      case (Cons a list)
      obtain g' where g': "redsocks_accept_backoff env (g\<lparr>rg_accept_backoff_ev := None\<rparr>) = Some g'" "accept_step 0 g g'" using accept_backoff_outcome [OF gi] by blast
      have "rs_outcome e g g'" using RS_backoff Cons by (intro accept_run [OF inv g'(2)]) simp_all
      then show ?thesis using RS_backoff g'(1) by (simp add: rs_event_step_def)
    qed
  qed
qed

lemma event_fails:
  assumes inv: "rs_inv g" and e: "rs_possible env e g" and fatal: "rs_fatal env e g"
  shows "rs_event_step env e g = None"
proof -
  have gi: "glob_inv g" using inv by (simp add: rs_inv_def)
  consider (accept) i acc where "e = RS_accept i acc" "accept_drops_itself env acc g"
    | (writes) p sd n c where "e = RS_write p sd n" "rg_clients g p = Some c" "reads_bare_challenge env c sd g"
    using fatal by (auto simp: rs_fatal_def split: rs_event.splits option.splits)
  then show ?thesis
  proof cases
    case accept
    have "i < length (rg_instances g)" "ri_listening (rg_instances g ! i)" "\<And>p. en_calloc env = Some p \<Longrightarrow> rg_clients g p = None"
      using e accept(1) by (auto simp: rs_possible_def)
    then have "redsocks_accept_client env i acc g = None" using accept(2) by (rule accept_fails [OF gi])
    then show ?thesis using accept(1) by (simp add: rs_event_step_def)
  next
    case writes
    have ok: "client_ok (conf_at g (rc_instance c)) c" using inv writes(2) by (simp add: rs_inv_def)
    obtain be where "be_of sd c = Some be" "n \<le> length (be_output be)" using e writes(1,2) by (auto simp: rs_possible_def be_at_def split: option.splits)
    then show ?thesis using hand_write_fails [OF gi writes(2) ok _ _ writes(3)] writes(1) by simp
  qed
qed

lemma event_some:
  assumes "rs_inv g" "rs_possible env e g" "rs_event_step env e g = Some g'"
  shows "rs_outcome e g g'" "e \<noteq> RS_backoff \<Longrightarrow> (\<And>i acc. e \<noteq> RS_accept i acc) \<Longrightarrow> quiet g g'"
proof -
  have "\<not> rs_fatal env e g" using event_fails [OF assms(1,2)] assms(3) by auto
  then show "rs_outcome e g g'" "e \<noteq> RS_backoff \<Longrightarrow> (\<And>i acc. e \<noteq> RS_accept i acc) \<Longrightarrow> quiet g g'" using event_outcome [OF assms(1,2)] assms(3) by auto
qed

lemma rs_inv_step:
  assumes inv: "rs_inv g" and s: "rs_outcome e g g'"
  shows "rs_inv g'"
proof -
  have "client_ok (conf_at g' (rc_instance c')) c'" if c': "rg_clients g' p = Some c'" for p c'
  proof -
    have a: "case rg_clients g p of Some c \<Rightarrow> rs_client_step e p g c c' | None \<Rightarrow> rc_instance c' < length (rg_instances g) \<and> hand_ok (conf_at g (rc_instance c')) c' \<and> rc_state c' = 0 \<and> inp CLIENT c' = []"
      using s c' by (simp add: rs_outcome_def)
    have i: "rc_instance c' < length (rg_instances g)" using s c' same_conf_length [of g g'] client_instance [of g' p c'] by (simp add: rs_outcome_def)
    then have same: "conf_at g' (rc_instance c') = conf_at g (rc_instance c')" using s conf_at_same [of g g'] by (simp add: rs_outcome_def)
    show ?thesis
    proof (cases "rg_clients g p")
      case None
      then have h: "hand_ok (conf_at g (rc_instance c')) c'" using a by simp
      moreover have "rc_state c' \<noteq> pump_active" using h by (auto simp: hand_ok_def)
      ultimately show ?thesis using same by (simp add: client_ok_def)
    next
      case (Some c)
      then show ?thesis using a same by (simp add: rs_client_step_def client_step_def)
    qed
  qed
  then show ?thesis using s by (simp add: rs_inv_def rs_outcome_def)
qed


text \<open>The state after the start.\<close>

definition redsocks_init_instance :: "relay_subsys \<Rightarrow> redsocks_config \<Rightarrow> redsocks_instance" where
  "redsocks_init_instance ss config = \<lparr>ri_config = ss_instance_init ss config, ri_listening = True, ri_clients = [], ri_relay_ss = ss,
     ri_auth = \<lparr>last_auth_query = None, last_auth_count = 0\<rparr>\<rparr>"

definition redsocks_init :: "(relay_subsys \<times> redsocks_config) list \<Rightarrow> u32 \<Rightarrow> u32 \<Rightarrow> u32 \<Rightarrow> redsocks" where
  "redsocks_init sections conn_max idle_timeout max_backoff_ms = \<lparr>rg_clients = Map.empty, rg_instances = map (\<lambda>(ss, config). redsocks_init_instance ss config) sections,
     rg_conn = 0, rg_accept_backoff_ms = 0, rg_accept_backoff_ev = None, rg_conn_max = conn_max, rg_idle_timeout = idle_timeout, rg_max_backoff_ms = max_backoff_ms\<rparr>"

text \<open>
  The history of a client: what the proxy has sent on the present connection before the pump started, what was read from each side (from the client since it was accepted, from
  the proxy since the pump started), what was sent to each side since the pump started, what was
  left to send when the pump started, whether a direction still has early data that was there at
  the start, and whether the pump only forwards the proxy's refusal.
\<close>

record rs_hist =
  hs_proxy :: bytes
  hs_recv :: "side \<Rightarrow> bytes"
  hs_sent :: "side \<Rightarrow> bytes"
  hs_left :: "side \<Rightarrow> bytes"
  hs_early :: "side \<Rightarrow> bool"
  hs_refused :: bool

definition no_hist :: rs_hist where
  "no_hist = \<lparr>hs_proxy = [], hs_recv = (\<lambda>_. []), hs_sent = (\<lambda>_. []), hs_left = (\<lambda>_. []), hs_early = (\<lambda>_. False), hs_refused = False\<rparr>"

definition hist_start :: "redsocks_client \<Rightarrow> rs_hist \<Rightarrow> rs_hist" where
  "hist_start c' h = \<lparr>hs_proxy = hs_proxy h, hs_recv = (\<lambda>sd. if sd = CLIENT \<and> EV_WRITE \<notin> rc_relay_evshut c' then hs_recv h CLIENT else inp sd c'), hs_sent = (\<lambda>_. []),
     hs_left = (\<lambda>sd. outp sd c'), hs_early = (\<lambda>sd. inp sd c' \<noteq> []), hs_refused = (EV_WRITE \<in> rc_relay_evshut c')\<rparr>"

definition hist_client :: "rs_event \<Rightarrow> ptr \<Rightarrow> redsocks_client option \<Rightarrow> redsocks_client option \<Rightarrow> rs_hist \<Rightarrow> rs_hist" where
  "hist_client e p before after h = (case (before, after) of
     (Some c, Some c') \<Rightarrow>
       if rc_state c' \<noteq> pump_active
       then h\<lparr>hs_proxy := (if rc_state c' = 0 then [] else hs_proxy h @ bytes_read e p RELAY), hs_recv := (\<lambda>sd. hs_recv h sd @ bytes_read e p sd)\<rparr>
       else if rc_state c \<noteq> pump_active
       then hist_start c' h
       else h\<lparr>hs_recv := (\<lambda>sd. hs_recv h sd @ bytes_read e p sd), hs_sent := (\<lambda>sd. hs_sent h sd @ take (bytes_written e p sd) (outp sd c)),
              hs_early := (\<lambda>sd. hs_early h sd \<and> inp sd c' \<noteq> [])\<rparr>
   | (_, _) \<Rightarrow> no_hist)"

definition rs_next :: "rs_event \<Rightarrow> redsocks \<Rightarrow> redsocks \<Rightarrow> (ptr \<Rightarrow> rs_hist) \<Rightarrow> ptr \<Rightarrow> rs_hist" where
  "rs_next e g g' h p = hist_client e p (rg_clients g p) (rg_clients g' p) (h p)"

inductive rs_reach :: "redsocks \<times> (ptr \<Rightarrow> rs_hist) \<Rightarrow> bool" where
  start: "conn_max \<noteq> 0 \<Longrightarrow> max_backoff_ms \<noteq> 0 \<Longrightarrow> rs_reach (redsocks_init sections conn_max idle_timeout max_backoff_ms, \<lambda>_. no_hist)"
| event: "rs_reach (g, h) \<Longrightarrow> rs_possible env e g \<Longrightarrow> rs_event_step env e g = Some g' \<Longrightarrow> rs_reach (g', rs_next e g g' h)"

text \<open>A run along given events.\<close>

fun rs_run :: "(rs_env \<times> rs_event) list \<Rightarrow> redsocks \<times> (ptr \<Rightarrow> rs_hist) \<Rightarrow> (redsocks \<times> (ptr \<Rightarrow> rs_hist)) option" where
  "rs_run [] s = Some s"
| "rs_run ((env, e) # es) (g, h) = (if rs_possible env e g
     then do { g' \<leftarrow> rs_event_step env e g; rs_run es (g', rs_next e g g' h) } else None)"

lemma rs_run_reach: "rs_reach s \<Longrightarrow> rs_run es s = Some s' \<Longrightarrow> rs_reach s'"
proof (induction es s rule: rs_run.induct)
  case (2 env e es g h)
  then show ?case by (auto split: if_splits bind_splits intro: rs_reach.event)
qed simp

lemma rs_run_append: "rs_run (es @ es') s = rs_run es s \<bind> rs_run es'"
  by (induction es s rule: rs_run.induct) (auto split: bind_split)

lemma init_inv: "conn_max \<noteq> 0 \<Longrightarrow> max_backoff_ms \<noteq> 0 \<Longrightarrow> rs_inv (redsocks_init sections conn_max idle_timeout max_backoff_ms)"
proof -
  assume m: "conn_max \<noteq> 0" "max_backoff_ms \<noteq> 0"
  let ?g = "redsocks_init sections conn_max idle_timeout max_backoff_ms"
  have i: "rg_instances ?g ! j = (case sections ! j of (ss, config) \<Rightarrow> redsocks_init_instance ss config)" if "j < length sections" for j using that by (simp add: redsocks_init_def)
  have l: "\<not> listed ?g j q" for j q by (auto simp: listed_def redsocks_init_def redsocks_init_instance_def split: prod.splits)
  have "sum_list (map (length \<circ> ri_clients) (rg_instances ?g)) = 0" by (auto simp: redsocks_init_def redsocks_init_instance_def split: prod.splits)
  then have "conn_total ?g = 0" by (simp add: conn_total_def)
  moreover have "distinct (ri_clients (rg_instances ?g ! j))" if "j < length (rg_instances ?g)" for j
    using that i [of j] by (auto simp: redsocks_init_def redsocks_init_instance_def split: prod.splits)
  moreover have "\<forall>x \<in> set (rg_instances ?g). auth_ok x" by (auto simp: redsocks_init_def redsocks_init_instance_def auth_ok_def)
  moreover have "(0 :: u32) < conn_max" using m(1) by (simp add: word_neq_0_conv)
  ultimately show ?thesis using l m unfolding rs_inv_def glob_inv_def acct_inv_def by (simp add: redsocks_init_def)
qed

lemma reach_inv: "rs_reach s \<Longrightarrow> rs_inv (fst s)"
proof (induction rule: rs_reach.induct)
  case (event g h env e g')
  then have "rs_outcome e g g'" using event_some(1) [of g env e g'] by simp
  then show ?case using event rs_inv_step [of g e g'] by simp
qed (simp add: init_inv)

definition dir_ok :: "side \<Rightarrow> redsocks_client \<Rightarrow> rs_hist \<Rightarrow> bool" where
  "dir_ok d c h \<longleftrightarrow> hs_left h (other d) @ hs_recv h d = hs_sent h (other d) @ outp (other d) c @ inp d c \<and>
     (inp d c = [] \<or> outp (other d) c \<noteq> [] \<or> hs_early h d) \<and> (hs_early h d \<longrightarrow> inp d c \<noteq> []) \<and>
     (EV_WRITE \<in> evshut_of (other d) c \<longrightarrow> outp (other d) c = [] \<and> (inp d c = [] \<or> hs_early h d) \<or> d = CLIENT \<and> hs_refused h)"

definition hist_ok :: "relay_subsys \<Rightarrow> redsocks_client \<Rightarrow> rs_hist \<Rightarrow> bool" where
  "hist_ok ss c h \<longleftrightarrow>
     (if rc_state c \<noteq> pump_active
      then inp CLIENT c = hs_recv h CLIENT \<and> (\<exists>past. said ss (rc_state c) (rc_to_skip c) past \<and> hs_proxy h = past @ inp RELAY c)
      else \<forall>d. dir_ok d c h)"

lemma new_connection:
  assumes "hand_ok conf c" "rc_state c = 0"
  shows "said ss (rc_state c) (rc_to_skip c) [] \<and> inp RELAY c = []"
proof -
  obtain rl where "rc_relay c = Some rl" "relay_ok (snd conf) 0 rl (rc_relay_evshut c)" using assms by (auto simp: hand_ok_def)
  then have "inp RELAY c = []" by (auto simp: relay_ok_def ss_state_ok_def inp_def split: relay_subsys.splits)
  then show ?thesis using assms(2) by (simp add: said_def split: relay_subsys.split)
qed

lemma hist_heard:
  assumes s: "heard ss c (inp RELAY c @ data) c'" and c': "hand_ok conf c'" and h: "\<exists>past. said ss (rc_state c) (rc_to_skip c) past \<and> hs_proxy h = past @ inp RELAY c"
  shows "\<exists>past. said ss (rc_state c') (rc_to_skip c') past \<and> (if rc_state c' = 0 then [] else hs_proxy h @ data) = past @ inp RELAY c'"
proof (cases "rc_state c' = 0")
  case True
  then show ?thesis using new_connection [OF c' True] by (intro exI [of _ "[]"]) simp
next
  case False
  then obtain eaten where e: "inp RELAY c @ data = eaten @ inp RELAY c'" "\<And>past. said ss (rc_state c) (rc_to_skip c) past \<Longrightarrow> said ss (rc_state c') (rc_to_skip c') (past @ eaten)"
    using s by (auto simp: heard_def)
  obtain past where "said ss (rc_state c) (rc_to_skip c) past" "hs_proxy h = past @ inp RELAY c" using h by blast
  then show ?thesis using e False by (intro exI [of _ "past @ eaten"]) simp
qed

lemma hist_moved:
  assumes m: "moved d (wr (other d)) (rd d) c c'" and h: "dir_ok d c h"
    and h': "hs_left h' = hs_left h" "hs_recv h' d = hs_recv h d @ rd d" "hs_sent h' (other d) = hs_sent h (other d) @ take (wr (other d)) (outp (other d) c)"
      "hs_early h' d \<longleftrightarrow> hs_early h d \<and> inp d c' \<noteq> []" "hs_refused h' = hs_refused h"
  shows "dir_ok d c' h'"
proof -
  have s: "hs_left h (other d) @ hs_recv h d = hs_sent h (other d) @ outp (other d) c @ inp d c" using h by (simp add: dir_ok_def)
  have "hs_left h' (other d) @ hs_recv h' d = hs_sent h (other d) @ outp (other d) c @ inp d c @ rd d" using s h'(1,2) by (metis append_assoc)
  also have "\<dots> = hs_sent h' (other d) @ drop (wr (other d)) (outp (other d) c) @ inp d c @ rd d" unfolding h'(3) by (simp only: append_assoc) (metis append_assoc append_take_drop_id)
  finally have e: "hs_left h' (other d) @ hs_recv h' d = hs_sent h' (other d) @ outp (other d) c' @ inp d c'" using m by (simp add: moved_def)
  have f: "inp d c = [] \<or> outp (other d) c \<noteq> [] \<or> hs_early h d"
      "EV_WRITE \<in> evshut_of (other d) c \<longrightarrow> outp (other d) c = [] \<and> (inp d c = [] \<or> hs_early h d) \<or> d = CLIENT \<and> hs_refused h" using h by (simp_all add: dir_ok_def)
  have q: "inp d c' = [] \<or> outp (other d) c' \<noteq> [] \<or> inp d c' = inp d c \<and> outp (other d) c' = outp (other d) c"
      "EV_WRITE \<in> evshut_of (other d) c' \<longrightarrow> outp (other d) c' = [] \<and> (inp d c' = [] \<or> inp d c' = inp d c \<and> outp (other d) c' = outp (other d) c) \<or>
        EV_WRITE \<in> evshut_of (other d) c \<and> inp d c' = inp d c \<and> outp (other d) c' = outp (other d) c" using m by (simp_all add: moved_def)
  have "inp d c' = [] \<or> outp (other d) c' \<noteq> [] \<or> hs_early h' d" using f(1) q(1) h'(4) by (cases "inp d c' = []") auto
  moreover have "EV_WRITE \<in> evshut_of (other d) c' \<longrightarrow> outp (other d) c' = [] \<and> (inp d c' = [] \<or> hs_early h' d) \<or> d = CLIENT \<and> hs_refused h'"
    using f q(2) unfolding h'(4,5) by (cases "inp d c' = []") auto
  ultimately show ?thesis using e h'(4) by (simp add: dir_ok_def)
qed

lemma hist_started: "pump_started c c' \<Longrightarrow> inp CLIENT c = hs_recv h CLIENT \<Longrightarrow> dir_ok d c' (hist_start c' h)"
  by (cases d) (auto simp: hist_start_def dir_ok_def pump_started_def)

lemma hist_refused: "pump_refused c' \<Longrightarrow> dir_ok d c' (hist_start c' h)"
  by (cases d) (auto simp: hist_start_def dir_ok_def pump_refused_def)

lemma hist_step:
  assumes s: "rs_client_step e p g c c'" and h: "hist_ok (snd (conf_at g (rc_instance c))) c h"
  shows "hist_ok (snd (conf_at g (rc_instance c))) c' (hist_client e p (Some c) (Some c') h)" (is "hist_ok ?ss c' ?h")
proof -
  have cs: "if rc_state c = pump_active then rc_state c' = pump_active \<and> (\<forall>d. moved d (bytes_written e p (other d)) (bytes_read e p d) c c')
      else if rc_state c' = pump_active then pump_started c c' \<or> pump_refused c'
      else inp CLIENT c' = inp CLIENT c @ bytes_read e p CLIENT \<and> heard ?ss c (inp RELAY c @ bytes_read e p RELAY) c'"
    using s by (auto simp: rs_client_step_def client_step_def split: if_splits)
  show ?thesis
  proof (cases "rc_state c = pump_active")
    case True
    have "dir_ok d c' ?h" for d
      using cs h True by (intro hist_moved [of d "bytes_written e p" "bytes_read e p" c c' h]) (simp_all add: hist_client_def hist_ok_def)
    then show ?thesis using cs True by (simp add: hist_ok_def)
  next
    case False
    then have r: "inp CLIENT c = hs_recv h CLIENT" and pr: "\<exists>past. said ?ss (rc_state c) (rc_to_skip c) past \<and> hs_proxy h = past @ inp RELAY c"
      using h by (simp_all add: hist_ok_def)
    show ?thesis
    proof (cases "rc_state c' = pump_active")
      case True
      then have "dir_ok d c' ?h" for d using cs False hist_started [OF _ r] hist_refused by (auto simp: hist_client_def)
      then show ?thesis using True by (simp add: hist_ok_def)
    next
      case np: False
      then have "hand_ok (conf_at g (rc_instance c)) c'" using s by (simp add: rs_client_step_def client_step_def client_ok_def)
      then show ?thesis using hist_heard [OF _ _ pr, of "bytes_read e p RELAY" c'] cs False np r by (simp add: hist_ok_def hist_client_def)
    qed
  qed
qed

lemma reach_hist: "rs_reach s \<Longrightarrow> rg_clients (fst s) p = Some c \<Longrightarrow> hist_ok (snd (conf_at (fst s) (rc_instance c))) c (snd s p)"
proof (induction arbitrary: p c rule: rs_reach.induct)
  case (start conn_max max_backoff_ms sections idle_timeout)
  then show ?case by (simp add: redsocks_init_def)
next
  case (event g h env e g')
  have "rs_inv g" using reach_inv [OF event.hyps(1)] by simp
  then have o1: "rs_outcome e g g'" using event_some(1) [of g env e g'] event.hyps by simp
  have c: "rg_clients g' p = Some c" using event.prems by simp
  have i: "rc_instance c < length (rg_instances g)" using o1 c same_conf_length [of g g'] client_instance [of g' p c] by (simp add: rs_outcome_def)
  then have same: "conf_at g' (rc_instance c) = conf_at g (rc_instance c)" using o1 conf_at_same [of g g'] by (simp add: rs_outcome_def)
  show ?case
  proof (cases "rg_clients g p")
    case None
    then have "hand_ok (conf_at g (rc_instance c)) c" "rc_state c = 0" "inp CLIENT c = []" using rs_outcomeD [OF o1 c] by simp_all
    then show ?thesis using None new_connection by (simp add: hist_ok_def rs_next_def hist_client_def no_hist_def)
  next
    case (Some c0)
    then have s: "rs_client_step e p g c0 c" using rs_outcomeD [OF o1 c] by simp
    have "hist_ok (snd (conf_at g (rc_instance c0))) c0 (h p)" using event.IH Some by simp
    moreover have "rc_instance c = rc_instance c0" using s by (simp add: rs_client_step_def client_step_def)
    ultimately show ?thesis using hist_step [OF s] Some c same by (simp add: rs_next_def)
  qed
qed

section \<open>Properties\<close>

lemma acct_card:
  assumes "acct_inv g"
  shows "unat (rg_conn g) = card (dom (rg_clients g))"
proof -
  have "set (concat (map ri_clients (rg_instances g))) = dom (rg_clients g)" using listed_clients(2) [OF assms] by auto
  then have "card (dom (rg_clients g)) = length (concat (map ri_clients (rg_instances g)))" using distinct_card [OF listed_clients(1) [OF assms]] by simp
  then show ?thesis using assms by (simp add: acct_inv_def conn_total_def length_concat comp_def)
qed

lemma clients_finite: "acct_inv g \<Longrightarrow> finite (dom (rg_clients g))"
proof -
  assume a: "acct_inv g"
  have "dom (rg_clients g) = set (concat (map ri_clients (rg_instances g)))" using listed_clients(2) [OF a] by auto
  then show ?thesis by simp
qed

text \<open>The state of example runs: one instance, SOCKS4, and a client that speaks first.\<close>

definition ex_env :: "int \<Rightarrow> int \<Rightarrow> rs_env" where
  "ex_env t t' = \<lparr>en_now = t, en_now_pressure = t', en_rand = 0, en_rand2 = 0, en_close_ok = True, en_evbuffer_ok = True, en_write_ok = True,
     en_enable_ok = True, en_disable_ok = True, en_socket_ok = True, en_connect_ok = True, en_connected_ok = True, en_bufferevent_ok = True, en_calloc = Some 1, en_stack = (\<lambda>_. [])\<rparr>"

definition ex_config :: redsocks_config where
  "ex_config = \<lparr>cf_login = None, cf_password = None, cf_disclose_src = DISCLOSE_NONE, cf_on_proxy_fail = ONFAIL_CLOSE\<rparr>"

definition ex_start :: "u32 \<Rightarrow> u32 \<Rightarrow> redsocks \<times> (ptr \<Rightarrow> rs_hist)" where
  "ex_start conn_max idle_timeout = (redsocks_init [(socks4_subsys, ex_config)] conn_max idle_timeout 1000, \<lambda>_. no_hist)"

definition ex_accept :: rs_event where
  "ex_accept = RS_accept 0 (Accepted \<lparr>sin_addr = 0x0100007F, sin_port = 0x5000\<rparr> \<lparr>sin_addr = 0x0100007F, sin_port = 0x5000\<rparr>)"

definition ex_events :: "(rs_env \<times> rs_event) list" where
  "ex_events = map (\<lambda>e. (ex_env 0 1, e)) [ex_accept, RS_read 1 CLIENT [71, 69, 84], RS_write 1 RELAY 0, RS_write 1 RELAY 9]"

definition ex_reply :: rs_event where
  "ex_reply = RS_read 1 RELAY [0, 90, 0, 0, 0, 0, 0, 0]"

lemmas ex_defs = ex_env_def ex_config_def ex_start_def ex_accept_def ex_events_def ex_reply_def

lemmas rs_eval = rs_possible_def be_at_def room_for_def rs_event_step_def be_read_def be_written_def Let_def
  redsocks_init_def redsocks_init_instance_def ss_instance_init_def redsocks_accept_client_def new_client_def ss_init_def redsocks_touch_client_def
  redsocks_conn_list_add_def update_instance_def put_client_def redsocks_connect_relay_def red_connect_relay_def bufferevent_new_def bufferevent_enable_def
  bufferevent_disable_def bufferevent_write_buffer_def run_callback_def redsocks_relay_connected_def instance_of_def ss_writecb_def ss_readcb_def
  socks4_write_cb_def socks4_mkconnect_def mkevbuffer_def redsocks_write_helper_def redsocks_write_helper_ex_def socks4_read_cb_def redsocks_read_expected_def
  sizes_greater_equal_def redsocks_start_relay_def redsocks_start_bufferpump_def redsocks_relay_cb_def redsocks_relay_readcb_def redsocks_relay_writecb_def
  redsocks_event_error_def redsocks_shutdown_def shut_both_def redsocks_accept_backoff_def conn_pressure_ongoing_def conn_pressure_def drop_idle_connections_def
  accept_backoff_def backoff_value_def redsocks_drop_client_def redsocks_conn_list_del_def redsocks_bufferevent_free_def redsocks_close_def
  conn_pressure_lowered_def accept_enable_def mem16_def mem32_def

lemma ex_start_reach: "conn_max \<noteq> 0 \<Longrightarrow> rs_reach (ex_start conn_max idle_timeout)"
  unfolding ex_start_def by (rule rs_reach.start) simp_all

lemma ex_reached:
  assumes "\<exists>g h c. rs_run es (ex_start conn_max idle_timeout) = Some (g, h) \<and> P g h c" "conn_max \<noteq> 0"
  shows "\<exists>g h c. rs_reach (g, h) \<and> rs_run es (ex_start conn_max idle_timeout) = Some (g, h) \<and> P g h c"
  using assms rs_run_reach [OF ex_start_reach] by metis

lemma ex_talking:
  obtains g h c where "rs_reach (g, h)" "rs_run ex_events (ex_start 2 0) = Some (g, h)" "rg_clients g 1 = Some c" "rc_state c = 1" "rc_instance c = 0" "inp CLIENT c = [71, 69, 84]"
    "rs_possible (ex_env 0 1) ex_reply g" "conf_at g 0 = (ex_config, socks4_subsys)"
proof -
  have "\<exists>g h c. rs_run ex_events (ex_start 2 0) = Some (g, h) \<and> rg_clients g 1 = Some c \<and> rc_state c = 1 \<and> rc_instance c = 0 \<and> inp CLIENT c = [71, 69, 84] \<and>
      rs_possible (ex_env 0 1) ex_reply g \<and> conf_at g 0 = (ex_config, socks4_subsys)"
    by (simp add: ex_defs rs_eval inp_def conf_at_def)
  from ex_reached [OF this] show thesis using that by auto
qed

lemma ex_pumping:
  obtains g h c where "rs_reach (g, h)" "rs_run (ex_events @ [(ex_env 0 1, ex_reply)]) (ex_start 2 0) = Some (g, h)" "rg_clients g 1 = Some c" "rc_state c = pump_active"
    "outp RELAY c = []" "inp CLIENT c = [71, 69, 84]" "hs_recv (h 1) CLIENT = [71, 69, 84]"
proof -
  have "\<exists>g h c. rs_run (ex_events @ [(ex_env 0 1, ex_reply)]) (ex_start 2 0) = Some (g, h) \<and> rg_clients g 1 = Some c \<and> rc_state c = pump_active \<and>
      outp RELAY c = [] \<and> inp CLIENT c = [71, 69, 84] \<and> hs_recv (h 1) CLIENT = [71, 69, 84]"
    by (simp add: ex_defs rs_eval inp_def outp_def rs_next_def hist_client_def no_hist_def hist_start_def)
  from ex_reached [OF this] show thesis using that by auto
qed



text \<open>
  C10. The connections are accounted for: the counter is the number of clients, it never exceeds the
  limit, a listener is active only below the limit, and each client is in the list of its instance,
  once, and in no other.
\<close>

theorem redsocks_accounts:
  assumes "rs_reach (g, h)"
  shows "unat (rg_conn g) = card (dom (rg_clients g)) \<and> rg_conn g \<le> rg_conn_max g \<and>
    (\<forall>i < length (rg_instances g). distinct (ri_clients (rg_instances g ! i)) \<and> (ri_listening (rg_instances g ! i) \<longrightarrow> rg_conn g < rg_conn_max g) \<and>
      (\<forall>p. p \<in> set (ri_clients (rg_instances g ! i)) \<longleftrightarrow> (\<exists>c. rg_clients g p = Some c \<and> rc_instance c = i)))"
proof -
  have gi: "glob_inv g" using reach_inv [OF assms] by (simp add: rs_inv_def)
  then have a: "acct_inv g" by (simp add: glob_inv_def)
  have l: "p \<in> set (ri_clients (rg_instances g ! i)) \<longleftrightarrow> (\<exists>c. rg_clients g p = Some c \<and> rc_instance c = i)" if "i < length (rg_instances g)" for i p
  proof -
    have "listed g i p \<longleftrightarrow> (\<exists>c. rg_clients g p = Some c \<and> rc_instance c = i)" using a by (simp add: acct_inv_def)
    then show ?thesis using that by (simp add: listed_def)
  qed
  moreover have "ri_listening (rg_instances g ! i) \<longrightarrow> rg_conn g < rg_conn_max g" if "i < length (rg_instances g)" for i
    using gi nth_mem [OF that] by (auto simp: glob_inv_def)
  ultimately show ?thesis using acct_card [OF a] a by (simp add: acct_inv_def)
qed

theorem redsocks_accounts_witness: "\<exists>g h. rs_reach (g, h) \<and> rg_clients g 1 \<noteq> None \<and> unat (rg_conn g) = card (dom (rg_clients g))"
proof -
  obtain g h c where "rs_reach (g, h)" "rg_clients g 1 = Some c" by (rule ex_talking)
  then show ?thesis using redsocks_accounts [of g h] by blast
qed

text \<open>
  C7. The pump carries both streams in order and without loss. For each direction, what was still to
  be sent when the pump started followed by everything read from the source is what was sent
  followed by what is buffered; for the direction to the proxy this starts with the first byte of
  the client. When the sending side of a socket is shut down everything read has been sent, unless
  early data was waiting since before the start of the pump, or the pump forwards a refusal.
\<close>

theorem redsocks_streams:
  assumes "rs_reach (g, h)" "rg_clients g p = Some c" "rc_state c = pump_active"
  shows "hs_left (h p) (other d) @ hs_recv (h p) d = hs_sent (h p) (other d) @ outp (other d) c @ inp d c \<and>
    (EV_WRITE \<in> evshut_of (other d) c \<and> \<not> hs_early (h p) d \<and> \<not> (d = CLIENT \<and> hs_refused (h p)) \<longrightarrow> hs_sent (h p) (other d) = hs_left (h p) (other d) @ hs_recv (h p) d)"
proof -
  have "dir_ok d c (h p)" using reach_hist [OF assms(1), of p c] assms by (simp add: hist_ok_def)
  then show ?thesis by (auto simp: dir_ok_def)
qed

theorem redsocks_streams_witness:
  "\<exists>g h c. rs_reach (g, h) \<and> rg_clients g 1 = Some c \<and> hs_recv (h 1) CLIENT = [71, 69, 84] \<and> hs_left (h 1) RELAY @ hs_recv (h 1) CLIENT = hs_sent (h 1) RELAY @ outp RELAY c @ inp CLIENT c"
proof -
  obtain g h c where "rs_reach (g, h)" "rg_clients g 1 = Some c" "rc_state c = pump_active" "hs_recv (h 1) CLIENT = [71, 69, 84]" by (rule ex_pumping)
  moreover from this have "hs_left (h 1) RELAY @ hs_recv (h 1) CLIENT = hs_sent (h 1) RELAY @ outp RELAY c @ inp CLIENT c"
    using redsocks_streams [of g h 1 c CLIENT] by simp
  ultimately show ?thesis by blast
qed

text \<open>
  C8. The pump never gets stuck. Each direction is finished, or its sending socket is waited for, so that
  an event that sends everything buffered can happen, or it has nothing buffered and waits for data.
\<close>

theorem pump_never_stuck:
  assumes "rs_reach (g, h)" "rg_clients g p = Some c" "rc_state c = pump_active"
  shows "EV_WRITE \<in> evshut_of (other d) c \<or> rs_possible env (RS_write p (other d) (length (outp (other d) c))) g \<or>
    outp (other d) c = [] \<and> inp d c = [] \<and> rs_possible env (RS_read p d [b]) g"
proof -
  have "pump_ok c" using reach_inv [OF assms(1)] assms by (auto simp: rs_inv_def client_ok_def)
  then obtain f t where f: "pump_base c d f t" "flow_ok f (evshut_of d c) t (evshut_of (other d) c)" by (rule pump_okE)
  then have b: "be_at g p d = Some f" "be_at g p (other d) = Some t" "outp (other d) c = be_output t" "inp d c = be_input f"
    using assms(2) by (auto simp: pump_base_def be_at_def outp_def inp_def)
  show ?thesis using f(2) unfolding rs_possible_def b by (auto simp: flow_ok_def flow_pre_def room_for_def b)
qed

theorem pump_never_stuck_witness:
  "\<exists>g h c. rs_reach (g, h) \<and> rg_clients g 1 = Some c \<and> inp CLIENT c = [71, 69, 84] \<and>
     (EV_WRITE \<in> evshut_of RELAY c \<or> rs_possible (ex_env 0 1) (RS_write 1 RELAY (length (outp RELAY c))) g)"
proof -
  obtain g h c where "rs_reach (g, h)" "rg_clients g 1 = Some c" "rc_state c = pump_active" "inp CLIENT c = [71, 69, 84]" by (rule ex_pumping)
  then show ?thesis using pump_never_stuck [of g h 1 c CLIENT "ex_env 0 1" 0] by auto
qed

text \<open>
  C9. The pump starts only once the bytes the proxy has sent on this connection are an acceptance: a whole SOCKS4
  reply with code 90; a SOCKS5 greeting, with the successful check of the password where that was asked for, and a reply with
  status 0 up to the end of its address; or a status line of HTTP with a code from 200 to 299 and its headers up to
  the empty line. What the client has sent in the meantime is kept. The only other way is an HTTP instance
  that is configured to forward the proxy's refusal: then what the client has sent is discarded and both the reading from the client
  and the sending to the proxy are shut.
\<close>

theorem pump_starts_accepted:
  assumes "rs_reach (g, h)" "rs_possible env e g" "rs_event_step env e g = Some g'"
    and "rg_clients g p = Some c" "rc_state c \<noteq> pump_active" "rg_clients g' p = Some c'" "rc_state c' = pump_active"
  shows "proxy_accepted (ri_relay_ss (instance_of c g)) (hs_proxy (h p) @ bytes_read e p RELAY) \<and> inp CLIENT c' = inp CLIENT c \<or>
    cf_on_proxy_fail (ri_config (instance_of c g)) = ONFAIL_FORWARD_HTTP_ERR \<and> inp CLIENT c' = [] \<and> EV_READ \<in> rc_client_evshut c' \<and> EV_WRITE \<in> rc_relay_evshut c'"
proof -
  have conf: "conf_at g (rc_instance c) = (ri_config (instance_of c g), ri_relay_ss (instance_of c g))" by (simp add: conf_at_def instance_of_def)
  have "rs_outcome e g g'" using event_some(1) [OF _ assms(2,3)] reach_inv [OF assms(1)] by simp
  from rs_outcomeD [OF this assms(6)]
  consider "pump_started c c'" "accepted_by (ri_relay_ss (instance_of c g)) c (inp RELAY c @ bytes_read e p RELAY)"
    | "pump_refused c'" "cf_on_proxy_fail (ri_config (instance_of c g)) = ONFAIL_FORWARD_HTTP_ERR"
    using assms(4,5,7) by (auto simp: rs_client_step_def client_step_def conf)
  then show ?thesis
  proof cases
    case 1
    obtain past where "said (ri_relay_ss (instance_of c g)) (rc_state c) (rc_to_skip c) past" "hs_proxy (h p) = past @ inp RELAY c"
      using reach_hist [OF assms(1), of p c] assms(4,5) by (auto simp: hist_ok_def conf)
    then show ?thesis using 1 by (auto simp: accepted_by_def pump_started_def)
  qed (auto simp: pump_refused_def)
qed

theorem pump_starts_accepted_witness:
  "\<exists>g h g' c'. rs_reach (g, h) \<and> rs_event_step (ex_env 0 1) ex_reply g = Some g' \<and> rg_clients g' 1 = Some c' \<and> rc_state c' = pump_active \<and>
     proxy_accepted socks4_subsys (hs_proxy (h 1) @ [0, 90, 0, 0, 0, 0, 0, 0])"
proof -
  obtain g h c where g: "rs_reach (g, h)" "rs_run ex_events (ex_start 2 0) = Some (g, h)" "rg_clients g 1 = Some c" "rc_state c = 1" "rc_instance c = 0"
    "rs_possible (ex_env 0 1) ex_reply g" "conf_at g 0 = (ex_config, socks4_subsys)" by (rule ex_talking)
  obtain g1 h1 c1 where g1: "rs_run (ex_events @ [(ex_env 0 1, ex_reply)]) (ex_start 2 0) = Some (g1, h1)" "rg_clients g1 1 = Some c1" "rc_state c1 = pump_active" by (rule ex_pumping)
  have s: "rs_event_step (ex_env 0 1) ex_reply g = Some g1" using g(2) g1(1) g(6) by (simp add: rs_run_append split: bind_splits)
  have i: "ri_config (instance_of c g) = ex_config" "ri_relay_ss (instance_of c g) = socks4_subsys" using g(5,7) by (simp_all add: conf_at_def instance_of_def)
  have "proxy_accepted socks4_subsys (hs_proxy (h 1) @ [0, 90, 0, 0, 0, 0, 0, 0])"
    using pump_starts_accepted [OF g(1,6) s g(3) _ g1(2,3)] g(4) i by (simp add: ex_config_def ex_reply_def)
  then show ?thesis using g(1) s g1(2,3) by blast
qed

text \<open>
  C21. The shutdown leaves nothing: from every state that is reached, redsocks drops every client, passes
  its check that no connection is left, and has no instance any more.
\<close>

theorem redsocks_fini_complete:
  assumes "rs_reach (g, h)"
  shows "\<exists>g'. redsocks_fini env g = Some g' \<and> rg_clients g' = Map.empty \<and> rg_conn g' = 0 \<and> rg_instances g' = []"
  using reach_inv [OF assms] fini_outcome [of g env] by (simp add: rs_inv_def)

theorem redsocks_fini_complete_witness:
  "\<exists>g h g'. rs_reach (g, h) \<and> rg_clients g 1 \<noteq> None \<and> redsocks_fini (ex_env 0 1) g = Some g' \<and> rg_clients g' = Map.empty"
proof -
  obtain g h c where "rs_reach (g, h)" "rg_clients g 1 = Some c" by (rule ex_pumping)
  then show ?thesis using redsocks_fini_complete [of g h "ex_env 0 1"] by blast
qed

text \<open>No listener is active and no timer will activate one.\<close>

definition accepts_stalled :: "redsocks \<Rightarrow> bool" where
  "accepts_stalled g \<longleftrightarrow> rg_accept_backoff_ev g = None \<and> (\<forall>i \<in> set (rg_instances g). \<not> ri_listening i)"

lemma stalled_step:
  assumes "rs_inv g" "accepts_stalled g" "rs_possible env e g" "rs_event_step env e g = Some g'"
  shows "accepts_stalled g'"
proof -
  have ne: "e \<noteq> RS_backoff" "e \<noteq> RS_accept i acc" for i acc using assms(2,3) by (auto simp: rs_possible_def accepts_stalled_def)
  have "quiet g g'" using event_some(2) [OF assms(1,3,4)] ne by blast
  then have q: "rg_accept_backoff_ev g' = None" "map ri_listening (rg_instances g') = map ri_listening (rg_instances g)" using assms(2) by (auto simp: quiet_def accepts_stalled_def)
  have "set (map ri_listening (rg_instances g')) \<subseteq> {False}" unfolding q(2) using assms(2) by (auto simp: accepts_stalled_def)
  then show ?thesis using q(1) by (auto simp: accepts_stalled_def)
qed

lemma stalled_run: "rs_run es s = Some s' \<Longrightarrow> rs_inv (fst s) \<Longrightarrow> accepts_stalled (fst s) \<Longrightarrow> accepts_stalled (fst s')"
proof (induction es s rule: rs_run.induct)
  case (2 env e es g h)
  then obtain g' where g': "rs_possible env e g" "rs_event_step env e g = Some g'" "rs_run es (g', rs_next e g g' h) = Some s'" by (auto split: if_splits bind_splits)
  have "rs_inv g'" using rs_inv_step [OF _ event_some(1)] "2.prems"(2) g'(1,2) by simp
  moreover have "accepts_stalled g'" using stalled_step [OF _ _ g'(1,2)] "2.prems"(2,3) by simp
  ultimately show ?case using "2.IH" [OF g'(1)] g'(2,3) by simp
qed simp

text \<open>
  C22. Accepting can stop for good. When the timer of the backoff fires while the limit of connections is
  reached and some client is idle, the handler drops the idle clients, so that the number of connections is below the limit, and returns
  without starting the listeners or the timer again. Whatever happens afterwards, however many clients close, no listener and no
  timer is ever started again.
\<close>

theorem accepting_stalls:
  assumes "rs_reach (g, h)" "rs_possible env RS_backoff g" "rg_conn g = rg_conn_max g" "rg_idle_timeout g \<noteq> 0"
    and "rg_clients g q = Some c" "max_idle_time g \<le> en_now_pressure env - rc_last_event c"
  shows "\<exists>g'. rs_event_step env RS_backoff g = Some g' \<and> rg_conn g' < rg_conn_max g' \<and> accepts_stalled g' \<and>
    (\<forall>es h' g'' h''. rs_run es (g', h') = Some (g'', h'') \<longrightarrow> accepts_stalled g'')"
proof -
  have inv: "rs_inv g" using reach_inv [OF assms(1)] by simp
  then have gi: "glob_inv g" by (simp add: rs_inv_def)
  let ?g = "g\<lparr>rg_accept_backoff_ev := None\<rparr>"
  have "is_idle env (max_idle_time g) g q" using assms(5,6) by (simp add: is_idle_def idle_for_def)
  then obtain g' where g': "redsocks_accept_backoff env ?g = Some g'" "rg_clients g' q = None" "quiet ?g g'" "dom (rg_clients g') \<subseteq> dom (rg_clients g)"
    using backoff_drops_idle [OF gi _ assms(4)] assms(3) by (metis order_refl)
  have s: "rs_event_step env RS_backoff g = Some g'" using g'(1) by (simp add: rs_event_step_def)
  have o1: "rs_outcome RS_backoff g g'" by (rule event_some(1) [OF inv assms(2) s])
  then have gi': "glob_inv g'" and max: "rg_conn_max g' = rg_conn_max g" by (simp_all add: rs_outcome_def same_conf_def)
  have "\<forall>i \<in> set (rg_instances g). \<not> ri_listening i" using gi assms(3) by (auto simp: glob_inv_def)
  then have "set (map ri_listening (rg_instances g')) \<subseteq> {False}" using g'(3) by (auto simp: quiet_def)
  then have stalled: "accepts_stalled g'" using g'(3) by (auto simp: accepts_stalled_def quiet_def)
  have "dom (rg_clients g') \<subset> dom (rg_clients g)" using g'(2,4) assms(5) by auto
  moreover have "finite (dom (rg_clients g))" using clients_finite gi by (simp add: glob_inv_def)
  ultimately have "card (dom (rg_clients g')) < card (dom (rg_clients g))" by (intro psubset_card_mono)
  then have "rg_conn g' < rg_conn g" using acct_card gi gi' by (simp add: glob_inv_def word_less_nat_alt)
  then have "rg_conn g' < rg_conn_max g'" using assms(3) max by simp
  moreover have "rs_inv g'" by (rule rs_inv_step [OF inv o1])
  ultimately show ?thesis using s stalled stalled_run [of _ "(g', _)"] by fastforce
qed

definition ex_stall :: "(rs_env \<times> rs_event) list" where
  "ex_stall = [(ex_env 0 1, ex_accept), ((ex_env 500000 500001)\<lparr>en_calloc := Some 2\<rparr>, ex_accept)]"

lemma ex_stalled:
  obtains g h c where "rs_reach (g, h)" "rs_run ex_stall (ex_start 2 1) = Some (g, h)" "rs_possible (ex_env 1200000 1200001) RS_backoff g" "rg_conn g = 2" "rg_conn_max g = 2" "rg_idle_timeout g = 1"
    "rg_clients g 1 = Some c" "rc_last_event c = 0"
proof -
  have "\<exists>g h c. rs_run ex_stall (ex_start 2 1) = Some (g, h) \<and> rs_possible (ex_env 1200000 1200001) RS_backoff g \<and> rg_conn g = 2 \<and> rg_conn_max g = 2 \<and> rg_idle_timeout g = 1 \<and>
      rg_clients g 1 = Some c \<and> rc_last_event c = 0"
    by (simp add: ex_stall_def ex_defs rs_eval) (simp add: word_le_def)
  from ex_reached [OF this] show thesis using that by auto
qed

theorem accepting_stalls_witness:
  "\<exists>g h g'. rs_reach (g, h) \<and> rs_event_step (ex_env 1200000 1200001) RS_backoff g = Some g' \<and> rg_conn g' < 2 \<and> accepts_stalled g' \<and>
     (\<forall>es g'' h''. rs_run es (g', h) = Some (g'', h'') \<longrightarrow> accepts_stalled g'')"
proof -
  obtain g h c where g: "rs_reach (g, h)" "rs_possible (ex_env 1200000 1200001) RS_backoff g" "rg_conn g = 2" "rg_conn_max g = 2" "rg_idle_timeout g = 1"
    "rg_clients g 1 = Some c" "rc_last_event c = 0" by (rule ex_stalled)
  then obtain g' where g': "rs_event_step (ex_env 1200000 1200001) RS_backoff g = Some g'" "rg_conn g' < rg_conn_max g'" "accepts_stalled g'"
      "\<forall>es h' g'' h''. rs_run es (g', h') = Some (g'', h'') \<longrightarrow> accepts_stalled g''"
    using accepting_stalls [of g h "ex_env 1200000 1200001" 1 c] by (auto simp: max_idle_time_def ex_env_def)
  moreover have "rg_conn_max g' = 2"
    using event_some(1) [OF _ g(2) g'(1)] reach_inv [OF g(1)] g(4) by (simp add: rs_outcome_def same_conf_def)
  ultimately show ?thesis using g(1) by (intro exI [of _ g] exI [of _ h] exI [of _ g']) auto
qed

text \<open>
  Early data can be lost. A client that sends three bytes while redsocks negotiates and closes its
  side right after the proxy has accepted, before the proxy's socket is reported writable: the
  sending side to the proxy is shut down with nothing sent, and no event can send the bytes any
  more.
\<close>

lemma early_data_lost:
  "\<exists>g h c. rs_reach (g, h) \<and> rg_clients g 1 = Some c \<and> rc_state c = pump_active \<and> hs_recv (h 1) CLIENT = [71, 69, 84] \<and> hs_sent (h 1) RELAY = [] \<and>
     EV_WRITE \<in> rc_relay_evshut c \<and> (\<forall>env n. \<not> rs_possible env (RS_write 1 RELAY n) g)"
proof -
  let ?es = "ex_events @ [(ex_env 0 1, ex_reply), (ex_env 0 1, RS_eof 1 CLIENT)]"
  have "\<exists>g h c. rs_run ?es (ex_start 2 0) = Some (g, h) \<and> rg_clients g 1 = Some c \<and> rc_state c = pump_active \<and> hs_recv (h 1) CLIENT = [71, 69, 84] \<and> hs_sent (h 1) RELAY = [] \<and>
      EV_WRITE \<in> rc_relay_evshut c \<and> (\<forall>env n. \<not> rs_possible env (RS_write 1 RELAY n) g)"
    by (simp add: ex_defs rs_eval inp_def outp_def rs_next_def hist_client_def no_hist_def hist_start_def)
  from ex_reached [OF this] show ?thesis by simp blast
qed

text \<open>
  At the limit of connections a client that is accepted within one tick of the clock counts as idle and is
  dropped, and \<open>redsocks_accept_client\<close> goes on with it.
\<close>

lemma accept_uses_dropped_client:
  "rs_possible (ex_env 5 5) ex_accept (fst (ex_start 1 1)) \<and> rs_event_step (ex_env 5 5) ex_accept (fst (ex_start 1 1)) = None"
  by (simp add: ex_defs rs_eval)

text \<open>
  A proxy that asks for authentication with just \<open>Digest\<close>: the request on the next connection reads behind the
  stored challenge.
\<close>

definition ex_http :: "redsocks \<times> (ptr \<Rightarrow> rs_hist)" where
  "ex_http = (redsocks_init [(http_connect_subsys, ex_config\<lparr>cf_login := Some [97], cf_password := Some [98]\<rparr>)] 2 0 1000, \<lambda>_. no_hist)"

definition ex_407 :: bytes where
  "ex_407 = str ''HTTP/1.0 407 x'' @ [10] @ str ''Proxy-Authenticate: Digest'' @ [10]"

definition ex_bare :: "(rs_env \<times> rs_event) list" where
  "ex_bare = map (\<lambda>e. (ex_env 0 1, e)) [ex_accept, RS_write 1 RELAY 0, RS_read 1 RELAY ex_407]"

lemma ex_407_auth: "cf_login config \<noteq> None \<Longrightarrow> cf_password config \<noteq> None \<Longrightarrow> last_auth_query auth = None \<Longrightarrow> httpc_first_line config auth ex_407 = (HV_auth (str ''Digest''), [])"
proof -
  assume a: "cf_login config \<noteq> None" "cf_password config \<noteq> None" "last_auth_query auth = None"
  let ?l = "str ''HTTP/1.0 407 x''" and ?h = "str ''Proxy-Authenticate: Digest''"
  have "redsocks_evbuffer_readline ex_407 = Some (?l, ?h @ [10])" by (simp add: ex_407_def redsocks_evbuffer_readline_def of_char_def Let_def)
  moreover have "scan_status ?l = Some 407" by (simp add: scan_status_def scan_u_def skip_space_def isspace_def of_char_def Let_def)
  moreover have "http_auth_request_header (?h @ [10]) [] = (Some ?h, [], ?h @ [13, 10])"
    by (subst http_auth_request_header.simps) (simp add: redsocks_evbuffer_readline_def of_char_def Let_def auth_request_header_def strncaseeq_def tolower_def)
  moreover have "skip_space (drop (length auth_request_header) ?h) = str ''Digest''" by (simp add: auth_request_header_def skip_space_def isspace_def of_char_def)
  ultimately show ?thesis unfolding httpc_first_line_def using a by (simp only: Let_def option.case prod.case if_True if_False simp_thms)
qed

lemma ex_407_length: "length ex_407 = 42" "ex_407 \<noteq> []"
  by (simp_all add: ex_407_def)

lemma ex_bare_run:
  "\<exists>g h c. rs_run ex_bare ex_http = Some (g, h) \<and> rs_possible (ex_env 0 1) (RS_write 1 RELAY 0) g \<and> rg_clients g 1 = Some c \<and> reads_bare_challenge (ex_env 0 1) c RELAY g"
  by (simp add: ex_bare_def ex_http_def ex_defs rs_eval httpc_write_cb_def httpc_mkconnect_def httpc_auth_line_def ex_407_auth ex_407_length HTTP_HEAD_WM_HIGH_def httpc_read_cb_def
    httpc_reconnect_def reads_bare_challenge_def chal_ok_def strncaseeq_def)

lemma bare_challenge_read:
  "\<exists>g h. rs_reach (g, h) \<and> rs_possible (ex_env 0 1) (RS_write 1 RELAY 0) g \<and> rs_event_step (ex_env 0 1) (RS_write 1 RELAY 0) g = None"
proof -
  obtain g h c where g: "rs_run ex_bare ex_http = Some (g, h)" "rs_possible (ex_env 0 1) (RS_write 1 RELAY 0) g" "rg_clients g 1 = Some c" "reads_bare_challenge (ex_env 0 1) c RELAY g"
    using ex_bare_run by blast
  have "rs_reach ex_http" unfolding ex_http_def by (rule rs_reach.start) simp_all
  then have r: "rs_reach (g, h)" using rs_run_reach g(1) by blast
  have "rs_fatal (ex_env 0 1) (RS_write 1 RELAY 0) g" using g(3,4) by (simp add: rs_fatal_def)
  then have "rs_event_step (ex_env 0 1) (RS_write 1 RELAY 0) g = None" using event_fails [OF _ g(2)] reach_inv [OF r] by simp
  then show ?thesis using r g(2) by blast
qed

text \<open>The end of the proxy's connection during the negotiation leaves the client behind: no event of its relay is left.\<close>

lemma proxy_end_leaves_client:
  "\<exists>g h c. rs_reach (g, h) \<and> rg_clients g 1 = Some c \<and> rc_state c = socks4_request_sent \<and> (\<forall>env data. \<not> rs_possible env (RS_read 1 RELAY data) g) \<and>
     (\<forall>env n. \<not> rs_possible env (RS_write 1 RELAY n) g) \<and> (\<forall>env. \<not> rs_possible env (RS_eof 1 RELAY) g)"
proof -
  let ?es = "ex_events @ [(ex_env 0 1, RS_eof 1 RELAY)]"
  have "\<exists>g h c. rs_run ?es (ex_start 2 0) = Some (g, h) \<and> rg_clients g 1 = Some c \<and> rc_state c = socks4_request_sent \<and> (\<forall>env data. \<not> rs_possible env (RS_read 1 RELAY data) g) \<and>
      (\<forall>env n. \<not> rs_possible env (RS_write 1 RELAY n) g) \<and> (\<forall>env. \<not> rs_possible env (RS_eof 1 RELAY) g)"
    by (simp add: ex_defs rs_eval)
  from ex_reached [OF this] show ?thesis by simp blast
qed

end
