(* ===== verification/Spec2Isabelle.thy ===== *)
theory Spec2Isabelle
  imports PacketProto PacketBuffer Reactor Flow StreamSender Ip6Text SocksClient UdpGw TunUdp SocksUdpGw TcpClientInv FairQueue RedsocksRun
begin

text \<open>
  Verification of the native code of the proxy client under \<open>src/core/src/main/jni\<close>: \<open>tun2socks\<close> with the
  badvpn libraries it is built on, and \<open>redsocks\<close>.

  \<^bold>\<open>The program\<close>

  \<open>tun2socks\<close> takes the IP packets of a TUN device. TCP segments go through lwIP, which calls back for each
  accepted connection; \<open>tun2socks.c\<close> connects it to a SOCKS5 server with \<open>BSocksClient.c\<close> and copies bytes
  both ways. UDP datagrams are taken from the packets and relayed, by \<open>UdpGwClient.c\<close> to a gateway over one framed
  stream, or by \<open>SocksUdpGwClient.c\<close> to a SOCKS server with one socket per local address; the replies are
  wrapped into packets for the device. Everything asynchronous rests on the flow library of badvpn: elements that
  hand packets to each other through interfaces, each call a job in the queue of \<open>BPending.c\<close>. \<open>redsocks\<close>
  accepts redirected TCP connections, negotiates with a SOCKS4, SOCKS5 or HTTP proxy, and then pumps the bytes
  between two libevent bufferevents.

  \<^bold>\<open>Theories and sources\<close>

  \<^item> \<open>Prelude\<close>: machine types, byte buffers with \<open>memcpy\<close> as \<open>write_at\<close> and \<open>window\<close>, the integers
    in memory order, \<open>ASSERT\<close>.
  \<^item> \<open>Addr\<close>: \<open>misc/byteorder.h\<close>, \<open>misc/bsize.h\<close>, \<open>system/BAddr.h\<close>.
  \<^item> \<open>BPending\<close>: \<open>base/BPending.c\<close>, \<open>structure/SLinkedList_impl.h\<close>, \<open>misc/debugcounter.h\<close>. A list in a store of
    pointers; the locale \<open>job_stack\<close> is the contract of the queue and is interpreted on the pointer operations.
  \<^item> \<open>Reactor\<close>: \<open>system/BReactor_badvpn.c\<close> with epoll, \<open>system/BTime.h\<close>: timers, descriptors, limits and the event loop.
  \<^item> \<open>FlowIf\<close>: \<open>flow/PacketPassInterface\<close>, \<open>flow/PacketRecvInterface\<close>, \<open>flow/StreamPassInterface\<close>,
    \<open>flow/StreamRecvInterface\<close>, each with its state machine and its jobs.
  \<^item> \<open>PacketProto\<close>: \<open>flow/PacketProtoEncoder.c\<close>, \<open>flow/PacketProtoDecoder.c\<close>, \<open>protocol/packetproto.h\<close>.
  \<^item> \<open>ChunkBuffer2\<close>, \<open>PacketBuffer\<close>: the circular buffer \<open>structure/ChunkBuffer2.h\<close> and the queue
    \<open>flow/PacketBuffer.c\<close> on it; the locale \<open>packet_fifo\<close> is the contract between them.
  \<^item> \<open>Flow\<close>: \<open>flow/BufferWriter.c\<close> and \<open>flow/PacketProtoFlow.c\<close>, which runs writer, encoder and buffer over one
    job queue and one memory. \<open>StreamSender\<close>: \<open>flow/PacketStreamSender.c\<close>.
  \<^item> \<open>FairQueue\<close>: \<open>flow/PacketPassFairQueue.c\<close>.
  \<^item> \<open>Bavl\<close>, \<open>BavlInv\<close>, \<open>ConnTable\<close>: \<open>structure/BAVL.h\<close> on nodes with parent pointers, its correctness, and
    tables of connections; the locale \<open>bavl_comparator\<close> is the order a user of the tree supplies.
  \<^item> \<open>SocksClient\<close>: \<open>socksclient/BSocksClient.c\<close>, \<open>misc/socks_proto.h\<close>.
  \<^item> \<open>UdpGw\<close>: \<open>udpgw_client/UdpGwClient.c\<close>, \<open>protocol/udpgw_proto.h\<close>. \<open>SocksUdpGw\<close>: \<open>tun2socks/SocksUdpGwClient.c\<close>.
  \<^item> \<open>IpUdp\<close>, \<open>TunUdp\<close>: \<open>misc/ipv4_proto.h\<close>, \<open>misc/ipv6_proto.h\<close>, \<open>misc/udp_proto.h\<close> and the UDP path of
    \<open>tun2socks.c\<close>.
  \<^item> \<open>TcpClient\<close>, \<open>TcpClientInv\<close>: the TCP clients of \<open>tun2socks.c\<close>, with the nested callbacks and the \<open>DEAD\<close>
    guards of \<open>misc/dead.h\<close>.
  \<^item> \<open>ParseNumber\<close>, \<open>IpText\<close>, \<open>Ip6Text\<close>: \<open>misc/parse_number.h\<close>, \<open>misc/ipaddr.h\<close>, \<open>misc/ipaddr6.h\<close>, \<open>misc/memref.h\<close>.
  \<^item> \<open>Base64\<close>, \<open>Md5\<close>, \<open>HttpAuth\<close>: \<open>redsocks/base64.c\<close>, \<open>redsocks/md5.c\<close>, \<open>redsocks/http-auth.c\<close>.
  \<^item> \<open>Redsocks\<close>: \<open>redsocks/redsocks.c\<close>, \<open>socks4.c\<close>, \<open>socks5.c\<close>, \<open>http-connect.c\<close> and what they use of
    \<open>libevent/bufferevent.c\<close> and \<open>bufferevent_sock.c\<close>. \<open>RedsocksInv\<close>, \<open>RedsocksNego\<close>, \<open>RedsocksPressure\<close>,
    \<open>RedsocksEvents\<close> prove the outcome of every handler; \<open>RedsocksRun\<close> has the runs and the properties.

  \<^bold>\<open>How state and operations correspond\<close>

  A C struct is a record whose fields carry a short prefix; one definition stands for one function, with the name
  of the function (a prefix is added to static handlers that share a name, as \<open>input_handler_done\<close>). A
  handler takes the state and returns the new one, with the list of calls it makes on its neighbours where those
  are other components; results of \<open>malloc\<close> and of system calls are arguments. Where the code has assertions or
  could use freed memory the handler is in the option monad: \<open>None\<close> is a failed \<open>ASSERT\<close>, a null or dangling
  pointer, an access outside a buffer or a forbidden call, and the safety properties say when it does not occur. (The
  assertions are those of a build without \<open>NDEBUG\<close>; with it the functions do the same work. Handlers that are plain
  functions leave out assertions on their arguments that their callers or the invariants proved here guarantee: those
  of \<open>ChunkBuffer2\<close>, of the receiving of \<open>BSocksClient.c\<close> and of \<open>SocksUdpGwClient.c\<close>.) Search trees other than
  \<open>BAVL.h\<close> (the timers of the reactor, the queue of the fair queue) are lists in the order of the tree, the trees of the
  UDP clients are maps. Integers whose width matters are words; \<open>int\<close>
  variables whose range is bounded by invariants are integers, with the bounds stated. Runs are inductive relations
  over events, in every order the neighbours may produce; the invariants are proved by induction over them.

  \<^bold>\<open>What is shown\<close>

  \<^item> Across components: a UDP exchange from the device to the socket of the relay and back (\<open>udp_exchange\<close>), and packets through
    flow, stream sender, any fragmentation of the stream and decoder (\<open>framed_stream_end_to_end\<close>).
  \<^item> The event loop never fails an assertion, calls handlers only for what is due and registered, waits only when
    nothing is left to do, and fires timers in order and not early.
  \<^item> The job queue is a stack without duplicates; the packet interface obeys its protocol whatever its two sides do;
    a packet flow emits exactly the frames written to it and its jobs run out; the stream sender concatenates.
  \<^item> The decoder inverts framing and is sound on any input; the packet buffer is a lossless queue; the fair queue loses
    nothing and bounds the lead of a flow.
  \<^item> The AVL operations implement insertion, removal and lookup of a sorted list and keep the tree balanced; the
    connection tables of both UDP clients stay consistent and evict in order of use.
  \<^item> The SOCKS client reports up only after the whole exchange, and gets there when the server answers properly.
  \<^item> TCP clients: no handler fails in any reachable state, streams are in order, an abort is reported to lwIP exactly
    when there was one, a client makes progress, and the shutdown ends with no client left.
  \<^item> redsocks: a handler fails in exactly two situations, both defects of the code (a new client dropped while it is
    accepted, and a bare digest challenge), connections are accounted for, streams are in order, the pump never stalls and starts
    only after the bytes of the proxy's replies are an acceptance, the shutdown leaves nothing; and the timer of the backoff leads to a state
    from which no connection is accepted any more. Base64 and MD5 compute what they should; the digest answers the challenge.
  \<^item> Numbers are parsed exactly; IPv4 and IPv6 addresses are printed so that parsing gives them back, and the IPv6
    parser reads only inside the text, writes only inside its buffers and does not depend on uninitialised memory.

  \<^bold>\<open>Bounds, fuel and hypotheses\<close>

  Loops are recursive functions with termination proofs, without fuel. Where a loop ends only on a well-formed state it is
  a partial function with values in an option, and that it returns is proved: the walks through the AVL tree, the
  search for an unused connection number, and the running of jobs.
  The hypotheses on code outside are: \<open>alloc_ok\<close>, an allocation of \<open>n\<close> blocks
  returns that many bytes, at most \<open>INT_MAX\<close> of them, or fails; \<open>env_ok\<close>, \<open>epoll_wait\<close> reports registered descriptors, each once, waits as long as it is told to when it has none, and the
  clock (\<open>CLOCK_MONOTONIC\<close>) does not go back; lwIP and libevent report the events that \<open>TcpClient\<close> and \<open>RedsocksEvents\<close> list, in any order. Each property with a
  hypothesis has a witness that instantiates it.
  \<open>SIZE_MAX\<close> in \<open>bsize.h\<close> is that of the 32-bit ABIs. \<open>SocksClient\<close> has one client with its authentication data as a value; that
  all clients of tun2socks share one table of it is in \<open>TcpClient\<close>. The specification of MD5 shares the function for one
  block with the model, which a test vector of the RFC pins down.

  \<^bold>\<open>Not modelled\<close>

  The main program of tun2socks (options, set-up, the tun descriptor): I/O and configuration around the handlers. The
  sockets: system calls, present as events. lwIP and most of libevent: third-party code, present
  as callbacks and as the part of the bufferevents redsocks relies on. The flow elements that are not used by the packet
  paths above. The VPN programs, udpgw server, NCD and code generators in the badvpn tree, redudp and dnstc: not
  built into the application. Of redsocks, the plain HTTP relay, the splice pump (kernel pipes), the configuration
  parser and logging.
\<close>



text \<open>
  C2. Packets through a framed stream, from end to end. What a packet flow hands out goes through the
  stream sender and, in reads of any size, into the decoder at the other end: the decoder delivers
  the packets that were written to the flow and taken from it, in order and unchanged, and holds nothing back.
\<close>

theorem framed_stream_end_to_end:
  assumes "pf_wired f0" "alloc_ok alloc" "0 < num" "mtu \<le> PACKETPROTO_MAXPAYLOAD" "int mtu + 2 \<le> out_mtu"
    and "pf_create alloc (int mtu) num out_mtu f0 = Some (Inr f1)" "pf_reach f1 f"
    and "pss_wired s0" "0 \<le> smtu" "ss_create smtu s0 = Some y0" "ss_reach y0 y"
    and "ss_packets y = pf_taken f" "ppi_state (pss_input (ss_sender y)) = STATE_NONE"
    and "malloc (PACKETPROTO_ENCLEN mtu) = Some mem" "length mem = PACKETPROTO_ENCLEN mtu"
    and "\<forall>n \<in> set ns. 0 < n" "length (ss_stream y) \<le> length ns"
  shows "\<exists>dec dec'. PacketProtoDecoder_Init mtu malloc = Some (dec, [DecRecv 0 (PACKETPROTO_ENCLEN mtu)]) \<and>
    pp_run dec ns (ss_stream y) = (take (length (pf_taken f)) (pf_written f), dec', [], False) \<and> dec_window dec' = [] \<and>
    length (pf_taken f) \<le> length (pf_written f)"
proof -
  obtain f1' ps0 where "pf_create alloc (int mtu) num out_mtu f0 = Some (Inr f1')" "pf_inv (int mtu) num f1' ps0" "pf_written f1' = []"
  proof (cases "PacketBuffer_Init alloc (int mtu + 2) num")
    case None
    then show ?thesis using pf_create_fails [OF assms(1) _ _ assms(5,3) None] assms(4,6) by simp
  next
    case (Some r)
    then show ?thesis using pf_create_inv [OF assms(1,2) _ _ assms(5,3)] assms(4) that by (cases r) force
  qed
  then have inv: "pf_inv (int mtu) num f1 ps0" "pf_written f1 = []" using assms(6) by auto
  define ps where "ps = take (length (pf_taken f)) (pf_written f)"
  obtain qs where "pf_inv (int mtu) num f qs" using pf_reach_inv [OF assms(7) inv(1)] by blast
  from pf_inv_stream [OF this] obtain rest where rest: "map frame (pf_written f) = pf_taken f @ rest" by blast
  have len: "length (pf_taken f) \<le> length (pf_written f)" using arg_cong [OF rest, of length] by simp
  have taken: "pf_taken f = map frame ps" unfolding ps_def take_map [symmetric] rest by simp
  obtain y0' where "ss_create smtu s0 = Some y0'" "ss_inv y0'" using ss_create_inv [OF assms(8,9)] by blast
  then have "ss_inv y" using ss_reach_inv [OF assms(11)] assms(10) by simp
  then have stream: "ss_stream y = frames ps" using ss_inv_stream(2) assms(12,13) taken by (simp add: frames_def)
  have small: "\<forall>p \<in> set ps. length p \<le> mtu"
    using pf_written_small [OF assms(7) inv] by (auto simp: ps_def dest: in_set_takeD)
  define dec where "dec = \<lparr>dec_output_mtu = mtu, dec_buf_size = PACKETPROTO_ENCLEN mtu, dec_buf_start = 0, dec_buf_used = 0, dec_buf = mem\<rparr>"
  have init: "PacketProtoDecoder_Init mtu malloc = Some (dec, [DecRecv 0 (PACKETPROTO_ENCLEN mtu)])"
    using assms(4,14) by (simp add: PacketProtoDecoder_Init_def dec_def Let_def min_absorb1)
  have "\<exists>dec'. pp_run dec ns (frames ps) = (ps, dec', [], False) \<and> dec_inv dec' \<and> dec_window dec' = []"
    by (rule pp_run_frames)
      (use assms small stream in \<open>auto simp: dec_def dec_inv_def dec_window_def incomplete_def PACKETPROTO_ENCLEN_def\<close>)
  with init stream len show ?thesis by (auto simp: ps_def)
qed

theorem framed_stream_end_to_end_witness:
  "\<exists>(f :: PacketProtoFlow) (y :: send_sys) dec dec'. pf_written f = [[7, 8]] \<and> ss_packets y = pf_taken f \<and>
     pp_run dec [1, 2, 1, 3] (ss_stream y) = ([[7, 8]], dec', [], False)"
proof -
  obtain f1 f where f: "pf_create pb_demo_alloc (int 4) 1 6 demo_flow = Some (Inr f1)" "pf_reach f1 f" "pf_written f = [[7, 8]]" "pf_taken f = [[2, 0, 7, 8]]"
    using demo_flow_run by auto
  obtain y0 y where y: "ss_create 10 demo_sender = Some y0" "ss_reach y0 y" "ss_packets y = [[2, 0, 7, 8]]" "ppi_state (pss_input (ss_sender y)) = STATE_NONE"
    using demo_sender_run by auto
  have inv: "ss_inv y" using ss_create_inv [OF demo_sender_wired, of 10] ss_reach_inv [OF y(2)] y(1) by auto
  have "length (ss_stream y) = 4" using ss_inv_stream(2) [OF inv y(4)] y(3) by simp
  then obtain dec dec' where "PacketProtoDecoder_Init 4 (\<lambda>n. Some (replicate n 0)) = Some (dec, [DecRecv 0 (PACKETPROTO_ENCLEN 4)]) \<and>
    pp_run dec [1, 2, 1, 3] (ss_stream y) = (take (length (pf_taken f)) (pf_written f), dec', [], False) \<and> dec_window dec' = [] \<and>
    length (pf_taken f) \<le> length (pf_written f)"
    using f(3,4) y(3)
      framed_stream_end_to_end [OF demo_flow_wired pb_demo_alloc_ok _ _ _ f(1,2) demo_sender_wired _ y(1,2) _ y(4),
        of "\<lambda>n. Some (replicate n 0)" "replicate (PACKETPROTO_ENCLEN 4) 0" "[1, 2, 1, 3]"]
    by (auto simp: PACKETPROTO_MAXPAYLOAD_def simp del: pp_run.simps)
  then have "pp_run dec [1, 2, 1, 3] (ss_stream y) = ([[7, 8]], dec', [], False)" using f(3,4) by (simp del: pp_run.simps)
  moreover have "ss_packets y = pf_taken f" using f(4) y(3) by simp
  ultimately show ?thesis using f(3) by blast
qed

end
